(* ===== verification/Xls_Prelude.thy ===== *)
theory Xls_Prelude
  imports Main "HOL-Library.Word" "HOL-Library.Signed_Division"
begin

unbundle bit_operations_syntax

text \<open>
  Shared ground of the development: the names of the machine types, the reading of a vector of
  bits (least significant bit first, as everywhere in XLS) as an unsigned and as a two's
  complement number, and the lemmas on such vectors that the components share.

  Conventions used by all theories. An \<open>int64_t\<close> that is a size, a width or an index is a
  \<open>nat\<close>: the sources guard it with \<open>CHECK_GE(.., 0)\<close>. An operation that can
  \<open>CHECK\<close>-fail or call \<open>.value()\<close> on an error status returns an \<open>option\<close>, and
  \<open>None\<close> is the crash. An \<open>absl::StatusOr\<close> is a sum with the error on the left. A
  read that the sources guard by a \<open>DCHECK\<close> only is an unchecked list read.
\<close>

section \<open>Machine types\<close>

type_synonym u64 = "64 word"
type_synonym u8 = "8 word"

text \<open>Error statuses: the code of an \<open>absl::Status\<close> that the modelled sources return.\<close>

datatype status_code = InvalidArgument | InternalError | Unimplemented

named_theorems bits_wf \<open>operations keep the representation invariant of bit vectors\<close>
named_theorems bits_sem \<open>the vector of bits an operation computes\<close>
named_theorems bits_count \<open>the width of the result of an operation\<close>

section \<open>Vectors of bits as unsigned numbers\<close>

definition bl_to_nat :: "bool list \<Rightarrow> nat" where
  "bl_to_nat bs = horner_sum of_bool 2 bs"

definition nat_to_bl :: "nat \<Rightarrow> nat \<Rightarrow> bool list" where
  "nat_to_bl w n = map (bit n) [0..<w]"

text \<open>Two's complement reading; the empty vector is zero.\<close>

definition bl_to_int :: "bool list \<Rightarrow> int" where
  "bl_to_int bs = (if bs \<noteq> [] \<and> last bs then int (bl_to_nat bs) - 2 ^ length bs
                   else int (bl_to_nat bs))"

lemma bl_to_nat_Nil [simp]: "bl_to_nat [] = 0"
  by (simp add: bl_to_nat_def)

lemma bl_to_nat_Cons [simp]: "bl_to_nat (b # bs) = of_bool b + 2 * bl_to_nat bs"
  by (simp add: bl_to_nat_def)

lemma bit_bl_to_nat: "bit (bl_to_nat bs) i \<longleftrightarrow> i < length bs \<and> bs ! i"
  by (simp add: bl_to_nat_def bit_horner_sum_bit_iff)

lemma bl_to_nat_less: "bl_to_nat bs < 2 ^ length bs"
  by (induction bs) (auto simp: of_bool_def)

lemma bl_to_nat_append:
  "bl_to_nat (xs @ ys) = bl_to_nat xs + 2 ^ length xs * bl_to_nat ys"
  by (induction xs) (simp_all add: algebra_simps)

lemma length_nat_to_bl [simp]: "length (nat_to_bl w n) = w"
  by (simp add: nat_to_bl_def)

lemma nth_nat_to_bl [simp]: "i < w \<Longrightarrow> nat_to_bl w n ! i = bit n i"
  by (simp add: nat_to_bl_def)

lemma nat_to_bl_0 [simp]: "nat_to_bl 0 n = []"
  by (simp add: nat_to_bl_def)

lemma bl_to_nat_to_bl: "bl_to_nat (nat_to_bl w n) = n mod 2 ^ w"
  by (simp add: bl_to_nat_def nat_to_bl_def horner_sum_bit_eq_take_bit flip: take_bit_eq_mod)

lemma nat_to_bl_to_nat [simp]: "nat_to_bl (length bs) (bl_to_nat bs) = bs"
  by (rule nth_equalityI) (simp_all add: bit_bl_to_nat)

lemma nat_to_bl_mod [simp]: "nat_to_bl w (n mod 2 ^ w) = nat_to_bl w n"
  by (rule nth_equalityI) (simp_all add: bit_take_bit_iff flip: take_bit_eq_mod)

lemma bl_to_nat_inject:
  "length xs = length ys \<Longrightarrow> bl_to_nat xs = bl_to_nat ys \<longleftrightarrow> xs = ys"
  by (metis nat_to_bl_to_nat)

lemma nat_to_bl_eq_iff:
  "length bs = w \<Longrightarrow> bs = nat_to_bl w n \<longleftrightarrow> bl_to_nat bs = n mod 2 ^ w"
  by (metis bl_to_nat_inject bl_to_nat_to_bl length_nat_to_bl)

lemma bl_to_nat_replicate_False [simp]: "bl_to_nat (replicate n False) = 0"
  by (induction n) auto

lemma bl_to_nat_replicate_True [simp]: "bl_to_nat (replicate n True) = 2 ^ n - 1"
proof (induction n)
  case 0
  show ?case by simp
next
  case (Suc n)
  obtain k where "(2::nat) ^ n = Suc k"
    by (metis not0_implies_Suc power_not_zero zero_neq_numeral)
  with Suc show ?case by simp
qed

lemma bl_to_nat_eq_0_iff: "bl_to_nat bs = 0 \<longleftrightarrow> (\<forall>b \<in> set bs. \<not> b)"
  by (induction bs) auto

lemma bl_to_nat_take: "bl_to_nat (take k bs) = bl_to_nat bs mod 2 ^ k"
proof (cases "k \<le> length bs")
  case True
  have "bl_to_nat bs = bl_to_nat (take k bs @ drop k bs)" by simp
  also have "\<dots> = bl_to_nat (take k bs) + 2 ^ k * bl_to_nat (drop k bs)"
    using True by (simp only: bl_to_nat_append) simp
  finally show ?thesis
    using bl_to_nat_less [of "take k bs"] True by simp
next
  case False
  then have "bl_to_nat bs < 2 ^ k"
    using bl_to_nat_less [of bs] by (meson less_le_trans linear one_le_numeral power_increasing)
  with False show ?thesis by simp
qed

lemma bl_to_nat_drop: "bl_to_nat (drop k bs) = bl_to_nat bs div 2 ^ k"
proof (cases "k \<le> length bs")
  case True
  have "bl_to_nat bs = bl_to_nat (take k bs @ drop k bs)" by simp
  also have "\<dots> = bl_to_nat (take k bs) + 2 ^ k * bl_to_nat (drop k bs)"
    using True by (simp only: bl_to_nat_append) simp
  finally show ?thesis
    using bl_to_nat_less [of "take k bs"] True by simp
next
  case False
  then have "bl_to_nat bs < 2 ^ k"
    using bl_to_nat_less [of bs] by (meson less_le_trans linear one_le_numeral power_increasing)
  with False show ?thesis by simp
qed

lemma bl_to_nat_last:
  "bs \<noteq> [] \<Longrightarrow> last bs \<longleftrightarrow> 2 ^ (length bs - 1) \<le> bl_to_nat bs"
proof (induction bs rule: rev_induct)
  case Nil
  then show ?case by simp
next
  case (snoc b bs)
  show ?case
    using bl_to_nat_less [of bs] by (cases b) (auto simp: bl_to_nat_append)
qed

lemma bl_to_int_bounds:
  assumes "bs \<noteq> []"
  shows "- (2 ^ (length bs - 1)) \<le> bl_to_int bs" "bl_to_int bs < 2 ^ (length bs - 1)"
proof -
  obtain n where n: "length bs = Suc n"
    using assms by (cases bs) auto
  have lt: "int (bl_to_nat bs) < 2 * 2 ^ n"
    using bl_to_nat_less [of bs] n
    by (metis of_nat_less_iff of_nat_numeral of_nat_power power_Suc)
  have "last bs \<longleftrightarrow> 2 ^ n \<le> bl_to_nat bs"
    using bl_to_nat_last [OF assms] n by simp
  then have la: "last bs \<longleftrightarrow> 2 ^ n \<le> int (bl_to_nat bs)"
    by (metis of_nat_le_iff of_nat_numeral of_nat_power)
  show "- (2 ^ (length bs - 1)) \<le> bl_to_int bs" "bl_to_int bs < 2 ^ (length bs - 1)"
    using lt la by (auto simp: bl_to_int_def n assms)
qed

lemma bl_to_int_Nil [simp]: "bl_to_int [] = 0"
  by (simp add: bl_to_int_def)

lemma bl_to_int_mod: "bl_to_int bs mod 2 ^ length bs = int (bl_to_nat bs)"
proof -
  have "int (bl_to_nat bs) < 2 ^ length bs"
    using bl_to_nat_less [of bs] by (metis of_nat_less_iff of_nat_numeral of_nat_power)
  then show ?thesis by (simp add: bl_to_int_def)
qed

lemma bl_to_int_signed_take_bit:
  "length bs = Suc m \<Longrightarrow> bl_to_int bs = signed_take_bit m (int (bl_to_nat bs))"
proof -
  assume l: "length bs = Suc m"
  then have ne: "bs \<noteq> []" by auto
  have "int (bl_to_nat bs) < 2 ^ Suc m"
    using bl_to_nat_less [of bs] l by (metis of_nat_less_iff of_nat_numeral of_nat_power)
  then have "take_bit (Suc m) (int (bl_to_nat bs)) = int (bl_to_nat bs)"
    by (intro take_bit_int_eq_self) auto
  moreover have "bit (int (bl_to_nat bs)) m = last bs"
    using l ne by (simp add: bit_of_nat_iff bit_bl_to_nat last_conv_nth)
  ultimately show ?thesis
    using ne l by (simp add: bl_to_int_def signed_take_bit_eq_take_bit_minus)
qed

text \<open>The infinite sign extension of a vector of bits.\<close>

lemma bit_bl_to_int:
  "bit (bl_to_int bs) i \<longleftrightarrow> bs \<noteq> [] \<and> (if i < length bs then bs ! i else last bs)"
proof (cases "length bs")
  case 0
  then show ?thesis by simp
next
  case (Suc m)
  then have "bs \<noteq> []" by auto
  with Suc show ?thesis
    by (auto simp: bl_to_int_signed_take_bit bit_signed_take_bit_iff bit_of_nat_iff bit_bl_to_nat
        last_conv_nth min_def le_less_Suc_eq)
qed

lemma int_range_bits:
  "- (2 ^ m) \<le> x \<and> x < 2 ^ m \<longleftrightarrow> (\<forall>i\<ge>m. bit x i = bit x m)" for x :: int
proof -
  have "- (2 ^ m) \<le> x \<and> x < 2 ^ m \<longleftrightarrow> signed_take_bit m x = x"
    by (simp add: signed_take_bit_int_eq_self_iff)
  also have "\<dots> \<longleftrightarrow> (\<forall>i. bit x (min i m) = bit x i)"
    by (simp add: bit_eq_iff bit_signed_take_bit_iff min.commute)
  also have "\<dots> \<longleftrightarrow> (\<forall>i\<ge>m. bit x i = bit x m)"
    by (metis min.absorb1 min.absorb2 nat_le_linear)
  finally show ?thesis .
qed

section \<open>Bits of natural numbers\<close>

lemma nat_less_exp_iff_bits: "(n::nat) < 2 ^ k \<longleftrightarrow> (\<forall>j\<ge>k. \<not> bit n j)"
proof
  assume "n < 2 ^ k"
  then show "\<forall>j\<ge>k. \<not> bit n j"
    by (metis bit_take_bit_iff not_less take_bit_nat_eq_self)
next
  assume "\<forall>j\<ge>k. \<not> bit n j"
  then have "take_bit k n = n"
    by (intro bit_eqI) (auto simp: bit_take_bit_iff simp flip: not_le)
  then show "n < 2 ^ k"
    by (metis take_bit_nat_less_exp)
qed

lemma bit_nat_le: "bit (n::nat) k \<Longrightarrow> 2 ^ k \<le> n"
  using nat_less_exp_iff_bits [of n k] by (metis le_refl not_less)

lemma highest_bit_bounds:
  "bit (n::nat) k \<Longrightarrow> (\<And>j. k < j \<Longrightarrow> \<not> bit n j) \<Longrightarrow> 2 ^ k \<le> n \<and> n < 2 ^ (k + 1)"
  using nat_less_exp_iff_bits [of n "k + 1"] by (auto simp: bit_nat_le)

section \<open>Vectors of 64-bit words as numbers\<close>

definition words_to_nat :: "u64 list \<Rightarrow> nat" where
  "words_to_nat ws = horner_sum unat (2 ^ 64) ws"

lemma words_to_nat_Nil [simp]: "words_to_nat [] = 0"
  by (simp add: words_to_nat_def)

lemma words_to_nat_Cons [simp]: "words_to_nat (w # ws) = unat w + 2 ^ 64 * words_to_nat ws"
  by (simp add: words_to_nat_def)

lemma bit_add_shifted:
  fixes a r :: nat
  assumes "a < 2 ^ n"
  shows "bit (a + 2 ^ n * r) k \<longleftrightarrow> (if k < n then bit a k else bit r (k - n))"
proof -
  have hi: "\<not> bit a j" if "n \<le> j" for j
    using assms that by (simp add: nat_less_exp_iff_bits)
  have "a + push_bit n r = a OR push_bit n r"
    using hi by (intro disjunctive_add) (auto simp: bit_push_bit_iff)
  then have "a + 2 ^ n * r = a OR push_bit n r"
    by (simp add: push_bit_eq_mult ac_simps)
  then show ?thesis
    using hi by (auto simp: bit_or_iff bit_push_bit_iff)
qed

lemma bit_words_to_nat:
  "bit (words_to_nat ws) k \<longleftrightarrow> k < 64 * length ws \<and> bit (ws ! (k div 64)) (k mod 64)"
proof (induction ws arbitrary: k)
  case Nil
  show ?case by simp
next
  case (Cons w ws)
  have u: "unat w < 2 ^ 64" using unsigned_less [of w] by simp
  show ?case
  proof (cases "k < 64")
    case True
    then show ?thesis
      using bit_add_shifted [OF u, of "words_to_nat ws" k] by (simp add: bit_unsigned_iff)
  next
    case False
    then have "k div 64 = Suc ((k - 64) div 64)" "k mod 64 = (k - 64) mod 64"
      by (auto simp: le_div_geq le_mod_geq)
    with False show ?thesis
      using bit_add_shifted [OF u, of "words_to_nat ws" k] Cons.IH [of "k - 64"] by auto
  qed
qed

lemma words_to_nat_less: "words_to_nat ws < 2 ^ (64 * length ws)"
proof (induction ws)
  case Nil
  show ?case by simp
next
  case (Cons w ws)
  have "unat w < 2 ^ 64" using unsigned_less [of w] by simp
  moreover have "2 ^ 64 * (words_to_nat ws + 1) \<le> 2 ^ 64 * 2 ^ (64 * length ws)"
    using Cons by (intro mult_left_mono) auto
  ultimately show ?case by (simp add: power_add)
qed

lemma words_to_nat_append:
  "words_to_nat (xs @ ys) = words_to_nat xs + 2 ^ (64 * length xs) * words_to_nat ys"
  by (induction xs) (simp_all add: algebra_simps power_add)

section \<open>Joining texts\<close>

text \<open>\<open>absl::StrJoin\<close>.\<close>

fun str_join :: "string \<Rightarrow> string list \<Rightarrow> string" where
  "str_join sep [] = []"
| "str_join sep [x] = x"
| "str_join sep (x # y # ys) = x @ sep @ str_join sep (y # ys)"

lemma str_join_snoc: "ts \<noteq> [] \<Longrightarrow> str_join sep (ts @ [t]) = str_join sep ts @ sep @ t"
  by (induction sep ts rule: str_join.induct) simp_all

lemma str_join_Nil: "[] \<notin> set ts \<Longrightarrow> str_join sep ts = [] \<longleftrightarrow> ts = []"
  by (induction sep ts rule: str_join.induct) auto

end
