(* ===== verification/Math_Util.thy ===== *)
theory Math_Util
  imports Xls_Prelude
begin

unbundle bit_operations_syntax

text \<open>
  Models \<open>xls/common/math_util.h\<close>, \<open>xls/common/math_util.cc\<close> and the mask of
  \<open>xls/common/bits_util.h\<close>: ratios rounded up and down with C++'s division truncating towards
  zero, base-two logarithms of a \<open>uint64_t\<close>, powers of two, the iteration over the numbers of
  a mixed radix, and saturating arithmetic over an integral type given by its limits.
  The lemmas show that each computes the mathematical function its comment names.
\<close>

section \<open>Masks\<close>

text \<open>\<open>Mask\<close> of \<open>bits_util.h\<close>; callers keep the argument at most 64.\<close>

definition Mask :: "nat \<Rightarrow> u64" where
  "Mask bit_count = (if bit_count = 64 then - 1 else push_bit bit_count 1 - 1)"

section \<open>Ratios\<close>

text \<open>
  The C++ operators \<open>/\<close> and \<open>%\<close> on a signed type truncate towards zero: these are
  \<open>sdiv\<close> and \<open>smod\<close> on \<open>int\<close>. A zero denominator is a \<open>DCHECK\<close> failure,
  or a trap where the checks are compiled out.
\<close>

definition CeilOrFloorOfRatio :: "bool \<Rightarrow> int \<Rightarrow> int \<Rightarrow> int option" where
  "CeilOrFloorOfRatio ceil numerator denominator =
     (if denominator = 0 then None
      else
        let rounded_toward_zero = numerator sdiv denominator;
            needs_round = numerator smod denominator \<noteq> 0;
            same_sign = ((numerator \<ge> 0) = (denominator \<ge> 0))
        in if ceil then Some (rounded_toward_zero + of_bool (same_sign \<and> needs_round))
           else Some (rounded_toward_zero - of_bool (\<not> same_sign \<and> needs_round)))"

definition CeilOfRatio :: "int \<Rightarrow> int \<Rightarrow> int option" where
  "CeilOfRatio numerator denominator = CeilOrFloorOfRatio True numerator denominator"

definition FloorOfRatio :: "int \<Rightarrow> int \<Rightarrow> int option" where
  "FloorOfRatio numerator denominator = CeilOrFloorOfRatio False numerator denominator"

definition RoundUpToNearest :: "int \<Rightarrow> int \<Rightarrow> int option" where
  "RoundUpToNearest value divisor = map_option (\<lambda>q. q * divisor) (CeilOfRatio value divisor)"

definition RoundDownToNearest :: "int \<Rightarrow> int \<Rightarrow> int option" where
  "RoundDownToNearest value divisor =
     (if divisor = 0 then None else Some (value sdiv divisor * divisor))"

text \<open>The instance at non-negative counts that the bit vectors use.\<close>

definition CeilOfRatio_nat :: "nat \<Rightarrow> nat \<Rightarrow> nat" where
  "CeilOfRatio_nat n d = nat (the (CeilOfRatio (int n) (int d)))"

section \<open>Powers of two and logarithms of a uint64\<close>

definition IsPowerOfTwo :: "u64 \<Rightarrow> bool" where
  "IsPowerOfTwo x \<longleftrightarrow> x \<noteq> 0 \<and> x AND (x - 1) = 0"

definition IsEven :: "u64 \<Rightarrow> bool" where
  "IsEven x \<longleftrightarrow> x AND 1 = 0"

text \<open>\<open>Exp2\<close> for a type with \<open>digits\<close> value bits; its two \<open>CHECK\<close>s bound the exponent.\<close>

definition Exp2 :: "nat \<Rightarrow> int \<Rightarrow> int option" where
  "Exp2 digits n = (if n < int digits \<and> 0 \<le> n then Some (push_bit (nat n) 1) else None)"

function FactorizePowerOfTwo_loop :: "u64 \<Rightarrow> nat \<Rightarrow> u64 \<times> nat" where
  "FactorizePowerOfTwo_loop x pw =
     (if IsEven x \<and> x > 0 then FactorizePowerOfTwo_loop (x div 2) (pw + 1) else (x, pw))"
  by pat_completeness auto
termination
  by (relation "measure (\<lambda>(x, pw). unat x)") (auto simp: unat_div unat_gt_0 word_neq_0_conv)

definition FactorizePowerOfTwo :: "u64 \<Rightarrow> u64 \<times> nat" where
  "FactorizePowerOfTwo x = FactorizePowerOfTwo_loop x 0"

definition Clz :: "u64 \<Rightarrow> nat" where
  "Clz v = (case find (\<lambda>i. drop_bit (64 - i - 1) v AND 1 \<noteq> 0) [0..<64] of
              Some i \<Rightarrow> i | None \<Rightarrow> 64)"

definition FloorOfLog2 :: "u64 \<Rightarrow> nat" where
  "FloorOfLog2 v = (if v = 0 then 0 else 63 - Clz v)"

definition CeilOfLog2 :: "u64 \<Rightarrow> nat" where
  "CeilOfLog2 v =
     (if v = 0 then 0
      else let floor = FloorOfLog2 v in if v AND (v - 1) = 0 then floor else floor + 1)"

section \<open>Mixed radix iteration\<close>

text \<open>
  \<open>increment_number\<close>: the digits below the first that can grow are reset; the flag is the
  overflow.
\<close>

fun increment_number :: "int list \<Rightarrow> int list \<Rightarrow> int list \<times> bool" where
  "increment_number [] number = (number, True)"
| "increment_number radix [] = ([], True)"
| "increment_number (r # radix) (d # number) =
     (if d + 1 \<ge> r then
        (case increment_number radix number of (number', overflow) \<Rightarrow> (0 # number', overflow))
      else ((d + 1) # number, False))"

text \<open>What is left of the iteration: the value of the all-maximal number minus the current one.\<close>

fun radix_left :: "int list \<Rightarrow> int list \<Rightarrow> nat" where
  "radix_left (r # radix) (d # number) =
     nat (r - 1 - d) + max 1 (nat r) * radix_left radix number"
| "radix_left radix number = 0"

lemma increment_number_left:
  "increment_number radix number = (number', False) \<Longrightarrow>
   radix_left radix number' < radix_left radix number"
proof (induction radix number arbitrary: number' rule: increment_number.induct)
  case (3 r radix d number)
  show ?case
  proof (cases "d + 1 \<ge> r")
    case True
    with "3.prems" obtain n where n: "increment_number radix number = (n, False)" "number' = 0 # n"
      by (auto split: prod.splits)
    with "3.IH" [OF True] have "Suc (radix_left radix n) \<le> radix_left radix number" by simp
    then have "max 1 (nat r) * Suc (radix_left radix n) \<le> max 1 (nat r) * radix_left radix number"
      by (rule mult_le_mono2)
    then show ?thesis
      by (simp add: n max_def split: if_splits)
  next
    case False
    with "3.prems" show ?thesis by auto
  qed
qed auto

text \<open>
  The \<open>do\<close>-\<open>while\<close> loop: the result of the iteration with the numbers the callback was
  called on, in call order.
\<close>

function MixedRadixIterate_loop ::
  "int list \<Rightarrow> (int list \<Rightarrow> bool) \<Rightarrow> int list \<Rightarrow> bool \<times> int list list" where
  "MixedRadixIterate_loop radix f number =
     (if f number then (True, [number])
      else case increment_number radix number of
        (number', overflow) \<Rightarrow>
          if overflow then (False, [number])
          else map_prod id ((#) number) (MixedRadixIterate_loop radix f number'))"
  by pat_completeness auto
termination
  by (relation "measure (\<lambda>(radix, f, number). radix_left radix number)")
    (auto simp: increment_number_left)

definition MixedRadixIterate :: "int list \<Rightarrow> (int list \<Rightarrow> bool) \<Rightarrow> bool \<times> int list list" where
  "MixedRadixIterate radix f = MixedRadixIterate_loop radix f (replicate (length radix) 0)"

section \<open>Saturating arithmetic\<close>

text \<open>
  \<open>std::numeric_limits\<close> of the integral type, and what \<open>__builtin_add_overflow\<close> and its
  kin do: they report whether the exact result leaves the type.
\<close>

record int_type =
  tmin :: int
  tmax :: int

record SaturatedResult =
  result :: int
  did_overflow :: bool

definition in_type :: "int_type \<Rightarrow> int \<Rightarrow> bool" where
  "in_type t x \<longleftrightarrow> tmin t \<le> x \<and> x \<le> tmax t"

definition SaturatingSub :: "int_type \<Rightarrow> int \<Rightarrow> int \<Rightarrow> SaturatedResult" where
  "SaturatingSub t l r =
     (if \<not> in_type t (l - r) then
        \<lparr>result = (if r < 0 then tmax t else tmin t), did_overflow = True\<rparr>
      else \<lparr>result = l - r, did_overflow = False\<rparr>)"

definition SaturatingAdd :: "int_type \<Rightarrow> int \<Rightarrow> int \<Rightarrow> SaturatedResult" where
  "SaturatingAdd t l r =
     (if \<not> in_type t (l + r) then
        \<lparr>result = (if r < 0 then tmin t else tmax t), did_overflow = True\<rparr>
      else \<lparr>result = l + r, did_overflow = False\<rparr>)"

definition SaturatingMul :: "int_type \<Rightarrow> int \<Rightarrow> int \<Rightarrow> SaturatedResult" where
  "SaturatingMul t l r =
     (if \<not> in_type t (l * r) then
        \<lparr>result = (if (l < 0) \<noteq> (r < 0) then tmin t else tmax t), did_overflow = True\<rparr>
      else \<lparr>result = l * r, did_overflow = False\<rparr>)"

section \<open>Masks and logarithms compute what they are named for\<close>

lemma Mask_eq_mask: "n \<le> 64 \<Longrightarrow> Mask n = mask n"
  by (auto simp: Mask_def mask_eq_exp_minus_1 push_bit_eq_mult)

lemma bit_Mask: "n \<le> 64 \<Longrightarrow> bit (Mask n) i \<longleftrightarrow> i < n"
  by (auto simp: Mask_eq_mask bit_mask_iff)

lemma Clz_bits:
  assumes "v \<noteq> 0"
  shows "Clz v < 64 \<and> bit v (63 - Clz v) \<and> (\<forall>j. 63 - Clz v < j \<longrightarrow> \<not> bit v j)"
proof -
  have test: "(drop_bit (64 - i - 1) v AND 1 \<noteq> 0) = bit v (63 - i)" for i
    by (simp add: and_one_eq bit_iff_odd_drop_bit mod_2_eq_odd)
  obtain k where "bit v k" using assms by (metis bit_eqI bit_0_eq bot_apply bot_bool_def)
  then have "k < 64" using bit_imp_le_length [of v k] by simp
  with \<open>bit v k\<close> have "find (\<lambda>i. bit v (63 - i)) [0..<64] \<noteq> None"
    by (auto simp: find_None_iff intro!: exI [of _ "63 - k"])
  then obtain i where i: "find (\<lambda>i. bit v (63 - i)) [0..<64] = Some i" by auto
  then have fi: "i < 64" "bit v (63 - i)" "\<And>j. j < i \<Longrightarrow> \<not> bit v (63 - j)"
    by (auto simp: find_Some_iff)
  have "\<not> bit v j" if "63 - i < j" for j
  proof (cases "j < 64")
    case True
    then show ?thesis using fi(3) [of "63 - j"] that by simp
  next
    case False
    then show ?thesis using bit_imp_le_length [of v j] by auto
  qed
  moreover have "Clz v = i" using i unfolding Clz_def test by simp
  ultimately show ?thesis using fi by simp
qed

lemma FloorOfLog2_bounds:
  assumes "v \<noteq> 0"
  shows "2 ^ FloorOfLog2 v \<le> unat v \<and> unat v < 2 ^ (FloorOfLog2 v + 1)"
  using highest_bit_bounds [of "unat v" "FloorOfLog2 v"] Clz_bits [OF assms] assms
  by (auto simp: FloorOfLog2_def bit_unsigned_iff)

lemma FloorOfLog2_less: "FloorOfLog2 v < 64"
  by (simp add: FloorOfLog2_def less_Suc_eq_le [of _ 63, simplified])

lemma unat_exp: "k < 64 \<Longrightarrow> unat (2 ^ k :: u64) = 2 ^ k"
proof -
  assume "k < 64"
  then have "(2::nat) ^ k < 2 ^ 64" by (intro power_strict_increasing) auto
  then show ?thesis
    using unat_of_nat [of "2 ^ k", where 'a = 64] by (simp only: of_nat_power of_nat_numeral) simp
qed

lemma and_pred_eq_0_iff:
  assumes "v \<noteq> (0 :: u64)"
  shows "v AND (v - 1) = 0 \<longleftrightarrow> unat v = 2 ^ FloorOfLog2 v"
proof
  let ?k = "FloorOfLog2 v"
  have un: "unat (v - 1) = unat v - 1" using assms by (simp add: unat_minus_one)
  assume z: "v AND (v - 1) = 0"
  show "unat v = 2 ^ ?k"
  proof (rule ccontr)
    assume ne: "unat v \<noteq> 2 ^ ?k"
    have b: "2 ^ ?k \<le> unat v - 1" "unat v - 1 < 2 ^ (?k + 1)"
      using FloorOfLog2_bounds [OF assms] ne by auto
    have "bit n ?k" if "2 ^ ?k \<le> n" "n < 2 ^ (?k + 1)" for n :: nat
      using that nat_less_exp_iff_bits [of n ?k] nat_less_exp_iff_bits [of n "?k + 1"]
      by (metis Suc_eq_plus1 le_neq_implies_less not_less Suc_leI)
    with b FloorOfLog2_bounds [OF assms] have "bit (unat v) ?k" "bit (unat (v - 1)) ?k"
      by (auto simp: un)
    then have "bit (v AND (v - 1)) ?k" by (simp add: bit_and_iff bit_unsigned_iff)
    with z show False by simp
  qed
next
  define k where "k = FloorOfLog2 v"
  assume "unat v = 2 ^ FloorOfLog2 v"
  then have v: "v = 2 ^ k"
    using unat_exp [OF FloorOfLog2_less, of v] unfolding k_def word_unat_eq_iff by simp
  then have m: "v - 1 = mask k" by (simp only: mask_eq_exp_minus_1)
  show "v AND (v - 1) = 0"
    unfolding m unfolding v by (rule bit_eqI) (auto simp: bit_and_iff bit_exp_iff bit_mask_iff)
qed

lemma CeilOfLog2_least:
  "v \<noteq> 0 \<Longrightarrow> unat v \<le> 2 ^ k \<longleftrightarrow> CeilOfLog2 v \<le> k"
proof -
  assume v: "v \<noteq> 0"
  let ?f = "FloorOfLog2 v"
  note b = FloorOfLog2_bounds [OF v]
  have up: "unat v \<le> 2 ^ k" if "?f + 1 \<le> k"
    using b that by (meson less_imp_le_nat less_le_trans one_le_numeral power_increasing)
  have lo: "?f \<le> k" if "unat v \<le> 2 ^ k"
    using b that by (meson le_trans numeral_One numeral_less_iff power_le_imp_le_exp semiring_norm(76) one_less_numeral_iff)
  show ?thesis
  proof (cases "unat v = 2 ^ ?f")
    case True
    then show ?thesis using v lo up by (auto simp: CeilOfLog2_def and_pred_eq_0_iff Let_def)
  next
    case False
    have "?f + 1 \<le> k" if "unat v \<le> 2 ^ k"
      using b that False lo [OF that] by (cases "?f = k") auto
    moreover have "CeilOfLog2 v = ?f + 1"
      using False v by (simp add: CeilOfLog2_def and_pred_eq_0_iff Let_def)
    ultimately show ?thesis using up by auto
  qed
qed

text \<open>The ratios round to the nearest integer on the side they are named for.\<close>

lemma signed_cases:
  fixes n d :: int
  assumes "d \<noteq> 0"
  obtains m e where "0 \<le> m" "0 < e" "n = m" "d = e"
  | m e where "0 < m" "0 < e" "n = - m" "d = e"
  | m e where "0 \<le> m" "0 < e" "n = m" "d = - e"
  | m e where "0 < m" "0 < e" "n = - m" "d = - e"
  using assms by (cases "0 \<le> n"; cases "0 < d") (metis neg_0_less_iff_less not_less
      verit_minus_simplify(4) linorder_neqE)+

lemma sdiv_smod_signs:
  fixes m e :: int
  assumes "0 \<le> m" "0 < e"
  shows "m sdiv e = m div e" "- m sdiv e = - (m div e)"
    "m sdiv - e = - (m div e)" "- m sdiv - e = m div e"
    "m smod e = m mod e" "- m smod e = - (m mod e)" "m smod - e = m mod e" "- m smod - e = - (m mod e)"
  using assms
  by (auto simp: signed_divide_int_def signed_modulo_int_def sgn_if minus_div_mult_eq_mod
      minus_mult_div_eq_mod minus_mod_eq_mult_div)

lemma FloorOfRatio_div:
  assumes "d \<noteq> 0"
  shows "FloorOfRatio n d = Some (n div d)"
  using assms
  by (rule signed_cases [of d n])
    (auto simp: FloorOfRatio_def CeilOrFloorOfRatio_def Let_def sdiv_smod_signs
      zdiv_zminus1_eq_if div_minus_right)

lemma CeilOfRatio_div:
  assumes "d \<noteq> 0"
  shows "CeilOfRatio n d = Some (- (- n div d))"
  using assms
  by (rule signed_cases [of d n])
    (auto simp: CeilOfRatio_def CeilOrFloorOfRatio_def Let_def sdiv_smod_signs
      zdiv_zminus1_eq_if div_minus_right)

lemma CeilOfRatio_nat_eq:
  assumes d: "0 < d"
  shows "CeilOfRatio_nat n d = (n + d - 1) div d"
proof -
  define q where "q = (n + d - 1) div d"
  have lo: "q * d \<le> n + d - 1" unfolding q_def by (simp add: div_times_less_eq_dividend)
  have hi: "n + d - 1 < q * d + d"
    unfolding q_def using dividend_less_div_times [OF d, of "n + d - 1"] by simp
  have "- int n div int d = - int q"
  proof (rule int_div_pos_eq)
    show "- int n = int d * - int q + (int q * int d - int n)" by simp
    show "0 \<le> int q * int d - int n"
      using hi d by (simp flip: of_nat_mult)
    show "int q * int d - int n < int d"
      using lo d by (simp flip: of_nat_mult)
  qed
  then show ?thesis using d by (simp add: CeilOfRatio_nat_def CeilOfRatio_div q_def)
qed

lemma SaturatingAdd_clamps:
  "in_type t l \<Longrightarrow> in_type t r \<Longrightarrow> tmin t \<le> 0 \<Longrightarrow> 0 \<le> tmax t \<Longrightarrow>
   SaturatingAdd t l r =
     \<lparr>result = max (tmin t) (min (tmax t) (l + r)), did_overflow = (\<not> in_type t (l + r))\<rparr>"
  by (auto simp: SaturatingAdd_def in_type_def)

lemma SaturatingSub_clamps:
  "in_type t l \<Longrightarrow> in_type t r \<Longrightarrow> tmin t \<le> 0 \<Longrightarrow> 0 \<le> tmax t \<Longrightarrow>
   SaturatingSub t l r =
     \<lparr>result = max (tmin t) (min (tmax t) (l - r)), did_overflow = (\<not> in_type t (l - r))\<rparr>"
  by (auto simp: SaturatingSub_def in_type_def)

lemma SaturatingMul_clamps:
  assumes "in_type t l" "in_type t r" "tmin t \<le> 0" "0 \<le> tmax t"
  shows "SaturatingMul t l r =
     \<lparr>result = max (tmin t) (min (tmax t) (l * r)), did_overflow = (\<not> in_type t (l * r))\<rparr>"
proof (cases "(l < 0) = (r < 0)")
  case True
  then have "0 \<le> l * r" by (auto simp: zero_le_mult_iff)
  with True assms show ?thesis by (auto simp: SaturatingMul_def in_type_def)
next
  case False
  then have "l * r \<le> 0" by (auto simp: mult_le_0_iff)
  with False assms show ?thesis by (auto simp: SaturatingMul_def in_type_def)
qed

declare FactorizePowerOfTwo_loop.simps [simp del] MixedRadixIterate_loop.simps [simp del]

text \<open>Factoring out the power of two.\<close>

lemma IsEven_iff: "IsEven x \<longleftrightarrow> even (unat x)"
proof -
  have "x AND 1 = 0 \<longleftrightarrow> even x" by (simp add: and_one_eq even_iff_mod_2_eq_zero)
  also have "\<dots> \<longleftrightarrow> even (unat x)" by (metis bit_0 bit_unsigned_iff possible_bit_0)
  finally show ?thesis by (simp add: IsEven_def)
qed

lemma FactorizePowerOfTwo_loop_correct:
  "FactorizePowerOfTwo_loop x pw = (y, k) \<Longrightarrow>
   pw \<le> k \<and> unat x = unat y * 2 ^ (k - pw) \<and> (x \<noteq> 0 \<longrightarrow> odd (unat y)) \<and> (x = 0 \<longrightarrow> k = pw)"
proof (induction x pw rule: FactorizePowerOfTwo_loop.induct)
  case (1 x pw)
  show ?case
  proof (cases "IsEven x \<and> x > 0")
    case True
    then have ne: "x \<noteq> 0" and ev: "even (unat x)" by (auto simp: IsEven_iff)
    have half: "unat x = 2 * unat (x div 2)" using ev by (simp add: unat_div)
    with ne have "x div 2 \<noteq> 0" by (metis mult_0_right unat_eq_zero)
    moreover have "FactorizePowerOfTwo_loop (x div 2) (pw + 1) = (y, k)"
      using "1.prems" True by (simp add: FactorizePowerOfTwo_loop.simps [of x pw])
    ultimately have "pw + 1 \<le> k" "unat (x div 2) = unat y * 2 ^ (k - (pw + 1))" "odd (unat y)"
      using "1.IH" [OF True] by auto
    moreover from this(1) obtain j where "k = pw + 1 + j" by (metis le_Suc_ex)
    ultimately show ?thesis using half ne by simp
  next
    case False
    then have "(y, k) = (x, pw)" using "1.prems" by (simp add: FactorizePowerOfTwo_loop.simps [of x pw] split: if_splits)
    with False show ?thesis by (auto simp: IsEven_iff word_neq_0_conv)
  qed
qed

text \<open>The iteration visits the numbers of the radix in increasing order.\<close>

definition radix_ok :: "int list \<Rightarrow> int list \<Rightarrow> bool" where
  "radix_ok radix number \<longleftrightarrow> list_all2 (\<lambda>r d. 0 \<le> d \<and> d < r) radix number"

fun radix_value :: "int list \<Rightarrow> int list \<Rightarrow> int" where
  "radix_value (r # radix) (d # number) = d + r * radix_value radix number"
| "radix_value radix number = 0"

lemma radix_value_bounds:
  "radix_ok radix number \<Longrightarrow> 0 \<le> radix_value radix number \<and> radix_value radix number < prod_list radix"
  unfolding radix_ok_def
proof (induction radix number rule: list_all2_induct)
  case (Cons r radix d number)
  then have "r * (radix_value radix number + 1) \<le> r * prod_list radix"
    by (intro mult_left_mono) auto
  with Cons show ?case by (auto simp: algebra_simps)
qed simp

lemma increment_number_correct:
  "radix_ok radix number \<Longrightarrow>
   (case increment_number radix number of
      (number', overflow) \<Rightarrow>
        if overflow then radix_value radix number = prod_list radix - 1
        else radix_ok radix number' \<and> radix_value radix number' = radix_value radix number + 1)"
  unfolding radix_ok_def
proof (induction radix number rule: list_all2_induct)
  case (Cons r radix d number)
  then show ?case by (auto split: prod.splits if_splits simp: algebra_simps)
qed simp

lemma MixedRadixIterate_loop_correct:
  "radix_ok radix number \<Longrightarrow> MixedRadixIterate_loop radix f number = (b, calls) \<Longrightarrow>
   map (radix_value radix) calls =
     map int [nat (radix_value radix number) ..< nat (radix_value radix number) + length calls] \<and>
   (\<forall>c \<in> set calls. radix_ok radix c) \<and> calls \<noteq> [] \<and>
   (b \<longrightarrow> f (last calls) \<and> (\<forall>c \<in> set (butlast calls). \<not> f c)) \<and>
   (\<not> b \<longrightarrow> (\<forall>c \<in> set calls. \<not> f c) \<and>
        radix_value radix number + int (length calls) = prod_list radix)"
proof (induction radix f number arbitrary: calls rule: MixedRadixIterate_loop.induct)
  case (1 radix f number)
  obtain number' overflow where inc: "increment_number radix number = (number', overflow)"
    by (cases "increment_number radix number")
  have nn: "0 \<le> radix_value radix number" using radix_value_bounds [OF "1.prems"(1)] by simp
  consider "f number" | "\<not> f number" "overflow" | "\<not> f number" "\<not> overflow" by blast
  then show ?case
  proof cases
    case 1
    then show ?thesis using "1.prems" nn by (auto simp: MixedRadixIterate_loop.simps [of radix f number])
  next
    case 2
    then show ?thesis
      using "1.prems" nn increment_number_correct [OF "1.prems"(1)]
      by (auto simp: MixedRadixIterate_loop.simps [of radix f number] inc)
  next
    case 3
    then have ok: "radix_ok radix number'"
      and v: "radix_value radix number' = radix_value radix number + 1"
      using increment_number_correct [OF "1.prems"(1)] by (auto simp: inc)
    obtain cs where cs: "MixedRadixIterate_loop radix f number' = (b, cs)" "calls = number # cs"
      using "1.prems"(2) 3
      by (cases "MixedRadixIterate_loop radix f number'")
        (auto simp: MixedRadixIterate_loop.simps [of radix f number] inc)
    have "nat (radix_value radix number + 1) = Suc (nat (radix_value radix number))"
      using nn by (simp add: nat_add_distrib)
    then show ?thesis
      using "1.IH" [OF 3(1) inc [symmetric] 3(2) ok cs(1)] cs(2) "1.prems"(1) 3(1) nn v
      by (auto simp: upt_conv_Cons simp del: upt_Suc)
  qed
qed

end
