(* ===== verification/Inline_Bitmap.thy ===== *)
theory Inline_Bitmap
  imports Math_Util
begin

unbundle bit_operations_syntax

text \<open>
  Models \<open>xls/data_structures/inline_bitmap.h\<close>, the storage of every bit vector of XLS: a bit
  count and a vector of 64-bit words. The class keeps the bits past the count at zero
  (\<open>bm_wf\<close>), and its word-wise fast paths (equality, comparison, all-ones) are right only
  because of that. The lemmas show that every operation keeps the invariant and computes the
  operation on the vector of bits \<open>bm_bits\<close> it stands for.
\<close>

section \<open>State and operations\<close>

record inline_bitmap =
  bm_count :: nat
  bm_data :: "u64 list"

definition kWordBits :: nat where
  "kWordBits = 64"

definition InlineBitmap_word_count :: "inline_bitmap \<Rightarrow> nat" where
  "InlineBitmap_word_count b = length (bm_data b)"

definition InlineBitmap_byte_count :: "inline_bitmap \<Rightarrow> nat" where
  "InlineBitmap_byte_count b = CeilOfRatio_nat (bm_count b) 8"

definition InlineBitmap_MaskForWord :: "inline_bitmap \<Rightarrow> nat \<Rightarrow> u64" where
  "InlineBitmap_MaskForWord b wordno =
     (let remainder = bm_count b mod kWordBits
      in if Suc wordno < InlineBitmap_word_count b \<or> remainder = 0 then Mask kWordBits
         else Mask remainder)"

definition InlineBitmap_MaskLastWord :: "inline_bitmap \<Rightarrow> inline_bitmap" where
  "InlineBitmap_MaskLastWord b =
     (if InlineBitmap_word_count b = 0 then b
      else let last_wordno = InlineBitmap_word_count b - 1;
               m = InlineBitmap_MaskForWord b last_wordno
           in b\<lparr>bm_data := (bm_data b)[last_wordno := bm_data b ! last_wordno AND m]\<rparr>)"

text \<open>The constructor \<open>InlineBitmap(bit_count, fill)\<close>.\<close>

definition InlineBitmap_new :: "nat \<Rightarrow> bool \<Rightarrow> inline_bitmap" where
  "InlineBitmap_new n fill =
     (let b = \<lparr>bm_count = n,
               bm_data = replicate (CeilOfRatio_nat n kWordBits) (if fill then NOT 0 else 0)\<rparr>
      in if fill then InlineBitmap_MaskLastWord b else b)"

definition InlineBitmap_FromWord :: "u64 \<Rightarrow> nat \<Rightarrow> bool \<Rightarrow> inline_bitmap" where
  "InlineBitmap_FromWord w n fill =
     (let b = InlineBitmap_new n fill
      in if n \<noteq> 0 then b\<lparr>bm_data := (bm_data b)[0 := w AND InlineBitmap_MaskForWord b 0]\<rparr> else b)"

text \<open>
  The bytes of the word array in memory on a little-endian machine, which the class
  \<open>CHECK\<close>s for, and the words such a byte image holds.
\<close>

definition word_image :: "u64 list \<Rightarrow> u8 list" where
  "word_image ws = map (\<lambda>j. ucast (drop_bit (8 * (j mod 8)) (ws ! (j div 8)))) [0..<8 * length ws]"

definition word_of_bytes :: "u8 list \<Rightarrow> u64" where
  "word_of_bytes bs = foldr (\<lambda>c w. push_bit 8 w OR ucast c) bs 0"

definition words_of_image :: "nat \<Rightarrow> u8 list \<Rightarrow> u64 list" where
  "words_of_image n bs = map (\<lambda>i. word_of_bytes (take 8 (drop (8 * i) bs))) [0..<n]"

text \<open>\<open>FromBytes\<close>: a \<open>memcpy\<close> over the zeroed words, then the mask.\<close>

definition InlineBitmap_FromBytes :: "nat \<Rightarrow> u8 list \<Rightarrow> inline_bitmap option" where
  "InlineBitmap_FromBytes n bytes =
     (let b = InlineBitmap_new n False; byte_count = CeilOfRatio_nat n 8
      in if length bytes \<noteq> byte_count then None
         else
           let b' = (if bm_data b \<noteq> []
                     then b\<lparr>bm_data := words_of_image (length (bm_data b))
                              (bytes @ drop byte_count (word_image (bm_data b)))\<rparr>
                     else b)
           in Some (InlineBitmap_MaskLastWord b'))"

text \<open>\<open>FromBits\<close>: the loop with its word pointer and bit index.\<close>

fun FromBits_loop :: "u64 list \<Rightarrow> nat \<Rightarrow> nat \<Rightarrow> bool list \<Rightarrow> u64 list" where
  "FromBits_loop ws wi bit_idx [] = ws"
| "FromBits_loop ws wi bit_idx (b # bs) =
     (let ws' = ws[wi := ws ! wi OR push_bit bit_idx (of_bool b)]
      in if bit_idx + 1 \<ge> kWordBits then FromBits_loop ws' (wi + 1) 0 bs
         else FromBits_loop ws' wi (bit_idx + 1) bs)"

definition InlineBitmap_FromBits :: "bool list \<Rightarrow> inline_bitmap" where
  "InlineBitmap_FromBits bs =
     (let b = InlineBitmap_new (length bs) False
      in b\<lparr>bm_data := FromBits_loop (bm_data b) 0 0 bs\<rparr>)"

text \<open>
  \<open>std::vector::resize\<close> keeps a prefix or appends copies of the given word (zero by default).
\<close>

definition vec_resize :: "nat \<Rightarrow> 'a \<Rightarrow> 'a list \<Rightarrow> 'a list" where
  "vec_resize n x xs = take n xs @ replicate (n - length xs) x"

definition InlineBitmap_WithSize :: "inline_bitmap \<Rightarrow> nat \<Rightarrow> bool \<Rightarrow> inline_bitmap" where
  "InlineBitmap_WithSize b new_size new_data =
     (let new_word_size = CeilOfRatio_nat new_size kWordBits
      in if new_size > bm_count b then
           let old_wordcount = InlineBitmap_word_count b;
               last_wordno = old_wordcount - 1;
               m = InlineBitmap_MaskForWord b last_wordno;
               ws = (if new_word_size > old_wordcount
                     then vec_resize new_word_size (if new_data then NOT 0 else 0) (bm_data b)
                     else bm_data b);
               ws' = (if bm_count b \<noteq> 0 then
                        (if new_data then ws[last_wordno := ws ! last_wordno OR NOT m]
                         else ws[last_wordno := ws ! last_wordno AND m])
                      else ws)
           in InlineBitmap_MaskLastWord (b\<lparr>bm_count := new_size, bm_data := ws'\<rparr>)
         else
           InlineBitmap_MaskLastWord
             (b\<lparr>bm_count := new_size, bm_data := vec_resize new_word_size 0 (bm_data b)\<rparr>))"

definition InlineBitmap_eq :: "inline_bitmap \<Rightarrow> inline_bitmap \<Rightarrow> bool" where
  "InlineBitmap_eq a b \<longleftrightarrow>
     bm_count a = bm_count b \<and>
     list_all (\<lambda>wordno. bm_data a ! wordno = bm_data b ! wordno) [0..<InlineBitmap_word_count a]"

definition InlineBitmap_IsAllOnes :: "inline_bitmap \<Rightarrow> bool" where
  "InlineBitmap_IsAllOnes b \<longleftrightarrow>
     list_all (\<lambda>wordno. bm_data b ! wordno = InlineBitmap_MaskForWord b wordno)
       [0..<InlineBitmap_word_count b]"

definition InlineBitmap_IsAllZeroes :: "inline_bitmap \<Rightarrow> bool" where
  "InlineBitmap_IsAllZeroes b \<longleftrightarrow>
     list_all (\<lambda>wordno. bm_data b ! wordno = 0) [0..<InlineBitmap_word_count b]"

definition InlineBitmap_Get :: "inline_bitmap \<Rightarrow> nat \<Rightarrow> bool" where
  "InlineBitmap_Get b index =
     (let w = bm_data b ! (index div kWordBits); bitno = index mod kWordBits
      in drop_bit bitno w AND 1 \<noteq> 0)"

definition InlineBitmap_Set :: "inline_bitmap \<Rightarrow> nat \<Rightarrow> bool \<Rightarrow> inline_bitmap" where
  "InlineBitmap_Set b index v =
     (let wordno = index div kWordBits; bitno = index mod kWordBits; w = bm_data b ! wordno
      in b\<lparr>bm_data := (bm_data b)[wordno := if v then w OR push_bit bitno 1
                                       else w AND NOT (push_bit bitno 1)]\<rparr>)"

definition InlineBitmap_SetRange :: "inline_bitmap \<Rightarrow> nat \<Rightarrow> nat \<Rightarrow> bool \<Rightarrow> inline_bitmap" where
  "InlineBitmap_SetRange b lower_index upper_index v =
     fold (\<lambda>index b. InlineBitmap_Set b index v) [lower_index..<upper_index] b"

definition InlineBitmap_SetAllBitsToFalse :: "inline_bitmap \<Rightarrow> inline_bitmap" where
  "InlineBitmap_SetAllBitsToFalse b = b\<lparr>bm_data := map (\<lambda>_. 0) (bm_data b)\<rparr>"

definition InlineBitmap_GetWord :: "inline_bitmap \<Rightarrow> nat \<Rightarrow> u64" where
  "InlineBitmap_GetWord b wordno =
     (if wordno = 0 \<and> InlineBitmap_word_count b = 0 then 0 else bm_data b ! wordno)"

definition InlineBitmap_SetWord :: "inline_bitmap \<Rightarrow> nat \<Rightarrow> u64 \<Rightarrow> inline_bitmap" where
  "InlineBitmap_SetWord b wordno v =
     b\<lparr>bm_data := (bm_data b)[wordno := v AND InlineBitmap_MaskForWord b wordno]\<rparr>"

definition InlineBitmap_SetByte :: "inline_bitmap \<Rightarrow> nat \<Rightarrow> u8 \<Rightarrow> inline_bitmap" where
  "InlineBitmap_SetByte b byteno v =
     InlineBitmap_MaskLastWord
       (b\<lparr>bm_data := words_of_image (length (bm_data b)) ((word_image (bm_data b))[byteno := v])\<rparr>)"

definition InlineBitmap_GetByte :: "inline_bitmap \<Rightarrow> nat \<Rightarrow> u8" where
  "InlineBitmap_GetByte b byteno = word_image (bm_data b) ! byteno"

text \<open>The buffer after the \<open>memcpy\<close>; callers pass one of at least \<open>byte_count\<close> bytes.\<close>

definition InlineBitmap_WriteBytesToBuffer :: "inline_bitmap \<Rightarrow> u8 list \<Rightarrow> u8 list" where
  "InlineBitmap_WriteBytesToBuffer b bytes =
     (if bytes \<noteq> [] then
        let n = CeilOfRatio_nat (bm_count b) 8 in take n (word_image (bm_data b)) @ drop n bytes
      else bytes)"

fun UCmp_words :: "inline_bitmap \<Rightarrow> inline_bitmap \<Rightarrow> nat \<Rightarrow> int" where
  "UCmp_words a b 0 = 0"
| "UCmp_words a b (Suc wordno) =
     (let my_word = InlineBitmap_GetWord a wordno; other_word = InlineBitmap_GetWord b wordno
      in if my_word > other_word then 1
         else if my_word < other_word then - 1
         else UCmp_words a b wordno)"

definition InlineBitmap_UCmp :: "inline_bitmap \<Rightarrow> inline_bitmap \<Rightarrow> int" where
  "InlineBitmap_UCmp a b =
     (let my_count = InlineBitmap_word_count a; other_count = InlineBitmap_word_count b
      in if list_ex (\<lambda>i. InlineBitmap_GetWord a i > 0) (rev [other_count..<my_count]) then 1
         else if list_ex (\<lambda>i. InlineBitmap_GetWord b i > 0) (rev [my_count..<other_count]) then - 1
         else UCmp_words a b (min my_count other_count))"

definition InlineBitmap_Union :: "inline_bitmap \<Rightarrow> inline_bitmap \<Rightarrow> inline_bitmap option" where
  "InlineBitmap_Union a b =
     (if bm_count a \<noteq> bm_count b then None
      else Some (a\<lparr>bm_data := map (\<lambda>i. bm_data a ! i OR bm_data b ! i) [0..<length (bm_data a)]\<rparr>))"

definition InlineBitmap_Intersect :: "inline_bitmap \<Rightarrow> inline_bitmap \<Rightarrow> inline_bitmap option" where
  "InlineBitmap_Intersect a b =
     (if bm_count a \<noteq> bm_count b then None
      else Some (a\<lparr>bm_data := map (\<lambda>i. bm_data a ! i AND bm_data b ! i) [0..<length (bm_data a)]\<rparr>))"

section \<open>Invariant and abstraction\<close>

definition bm_wf :: "inline_bitmap \<Rightarrow> bool" where
  "bm_wf b \<longleftrightarrow> length (bm_data b) = CeilOfRatio_nat (bm_count b) 64 \<and>
     words_to_nat (bm_data b) < 2 ^ bm_count b"

definition bm_bits :: "inline_bitmap \<Rightarrow> bool list" where
  "bm_bits b = map (InlineBitmap_Get b) [0..<bm_count b]"

lemma length_bm_bits [simp]: "length (bm_bits b) = bm_count b"
  by (simp add: bm_bits_def)

lemma bm_bits_nth [simp]: "i < bm_count b \<Longrightarrow> bm_bits b ! i = InlineBitmap_Get b i"
  by (simp add: bm_bits_def)

lemma words_enough: "n \<le> 64 * CeilOfRatio_nat n 64"
  by (simp add: CeilOfRatio_nat_eq)

lemma words_tight: "64 * CeilOfRatio_nat n 64 < n + 64"
  by (simp add: CeilOfRatio_nat_eq)

lemma Get_eq_bit: "InlineBitmap_Get b i = bit (bm_data b ! (i div 64)) (i mod 64)"
  by (simp add: InlineBitmap_Get_def kWordBits_def and_one_eq bit_iff_odd_drop_bit mod_2_eq_odd)

lemma Get_eq_bit_nat:
  "i < 64 * length (bm_data b) \<Longrightarrow> InlineBitmap_Get b i = bit (words_to_nat (bm_data b)) i"
  by (simp add: Get_eq_bit bit_words_to_nat)

lemma bm_wf_length: "bm_wf b \<Longrightarrow> length (bm_data b) = CeilOfRatio_nat (bm_count b) 64"
  by (simp add: bm_wf_def)

text \<open>For a well-formed bitmap the words and the bits are the same number.\<close>

lemma bm_bits_nat_to_bl:
  "length (bm_data b) = CeilOfRatio_nat (bm_count b) 64 \<Longrightarrow>
   bm_bits b = nat_to_bl (bm_count b) (words_to_nat (bm_data b))"
  using words_enough [of "bm_count b"]
  by (intro nth_equalityI) (simp_all add: Get_eq_bit_nat)

lemma words_to_nat_bm_bits: "bm_wf b \<Longrightarrow> words_to_nat (bm_data b) = bl_to_nat (bm_bits b)"
  by (simp add: bm_wf_def bm_bits_nat_to_bl bl_to_nat_to_bl)

lemma bit_words_bm: "bm_wf b \<Longrightarrow> bit (words_to_nat (bm_data b)) k \<longleftrightarrow> k < bm_count b \<and> bm_bits b ! k"
  by (simp add: words_to_nat_bm_bits bit_bl_to_nat)

lemma bm_wfI:
  assumes "length (bm_data b) = CeilOfRatio_nat (bm_count b) 64"
    and "\<And>k. bm_count b \<le> k \<Longrightarrow> \<not> bit (words_to_nat (bm_data b)) k"
  shows "bm_wf b"
  using assms by (auto simp: bm_wf_def nat_less_exp_iff_bits)

lemma bm_wf_high: "bm_wf b \<Longrightarrow> bm_count b \<le> k \<Longrightarrow> \<not> bit (words_to_nat (bm_data b)) k"
  by (auto simp: bm_wf_def nat_less_exp_iff_bits)

lemma words_to_nat_inject: "length xs = length ys \<Longrightarrow> words_to_nat xs = words_to_nat ys \<longleftrightarrow> xs = ys"
proof (induction xs ys rule: list_induct2)
  case (Cons x xs y ys)
  have "unat x + 2 ^ 64 * a = unat y + 2 ^ 64 * b \<longleftrightarrow> x = y \<and> a = b" for a b :: nat
  proof
    assume e: "unat x + 2 ^ 64 * a = unat y + 2 ^ 64 * b"
    have l: "unat x < 2 ^ 64" "unat y < 2 ^ 64" using unsigned_less [of x] unsigned_less [of y] by auto
    from e have "(unat x + 2 ^ 64 * a) mod 2 ^ 64 = (unat y + 2 ^ 64 * b) mod 2 ^ 64" by simp
    with l have "unat x = unat y" by simp
    with e show "x = y \<and> a = b" by (simp add: word_unat_eq_iff)
  qed simp
  with Cons show ?case by simp
qed simp

lemma bm_eqI:
  assumes "bm_wf a" "bm_wf b" "bm_bits a = bm_bits b"
  shows "a = b"
proof -
  have n: "bm_count a = bm_count b" using assms(3) by (metis length_bm_bits)
  then have "length (bm_data a) = length (bm_data b)" using assms by (simp add: bm_wf_def)
  moreover have "words_to_nat (bm_data a) = words_to_nat (bm_data b)"
    using assms by (simp add: words_to_nat_bm_bits)
  ultimately show ?thesis using n by (simp add: words_to_nat_inject)
qed

section \<open>Every operation keeps the invariant and computes on the bits\<close>

lemma word_lengths [simp]:
  "InlineBitmap_word_count b = length (bm_data b)" "kWordBits = 64"
  by (simp_all add: InlineBitmap_word_count_def kWordBits_def)

lemma bit_words_update:
  "i < length ws \<Longrightarrow> bit (words_to_nat (ws[i := w])) k \<longleftrightarrow>
     (if k div 64 = i then bit w (k mod 64) else bit (words_to_nat ws) k)"
  by (auto simp: bit_words_to_nat nth_list_update)

lemma bit_MaskForWord:
  assumes len: "length (bm_data b) = CeilOfRatio_nat (bm_count b) 64" and w: "w < length (bm_data b)"
  shows "bit (InlineBitmap_MaskForWord b w) j \<longleftrightarrow> j < 64 \<and> 64 * w + j < bm_count b"
proof -
  let ?n = "bm_count b" and ?l = "length (bm_data b)"
  have up: "?n \<le> 64 * ?l" and lo: "64 * ?l < ?n + 64"
    using words_enough [of ?n] words_tight [of ?n] len by auto
  consider "Suc w < ?l" | "Suc w = ?l" "?n mod 64 = 0" | "Suc w = ?l" "?n mod 64 \<noteq> 0"
    using w by linarith
  then show ?thesis
  proof cases
    case 1
    then have "64 * Suc (Suc w) \<le> 64 * ?l" by (intro mult_le_mono2) simp
    with 1 lo show ?thesis by (auto simp: InlineBitmap_MaskForWord_def bit_Mask)
  next
    case 2
    then obtain q where "?n = 64 * q" by (metis dvd_def mod_0_imp_dvd)
    with up lo have "q \<le> ?l" "?l < Suc q" by auto
    with \<open>?n = 64 * q\<close> have "?n = 64 * ?l" by simp
    with 2 show ?thesis by (auto simp: InlineBitmap_MaskForWord_def bit_Mask)
  next
    case 3
    define r where "r = ?n mod 64"
    have r: "r < 64" by (simp add: r_def)
    have "?n \<noteq> 64 * ?l" using 3 by auto
    with 3 up lo have "64 * w \<le> ?n" "?n < 64 * Suc w" by auto
    then have "?n div 64 = w" by (intro div_nat_eqI) auto
    then have "?n = 64 * w + r" unfolding r_def by (metis mult_div_mod_eq)
    with r have "j < r \<longleftrightarrow> j < 64 \<and> 64 * w + j < ?n" by auto
    then have "j < ?n mod 64 \<longleftrightarrow> j < 64 \<and> 64 * w + j < ?n" unfolding r_def .
    with 3 show ?thesis by (simp add: InlineBitmap_MaskForWord_def bit_Mask)
  qed
qed

lemma MaskLastWord_count [simp]: "bm_count (InlineBitmap_MaskLastWord b) = bm_count b"
  by (simp add: InlineBitmap_MaskLastWord_def Let_def)

lemma MaskLastWord_length [simp]:
  "length (bm_data (InlineBitmap_MaskLastWord b)) = length (bm_data b)"
  by (simp add: InlineBitmap_MaskLastWord_def Let_def)

lemma bit_MaskLastWord:
  assumes len: "length (bm_data b) = CeilOfRatio_nat (bm_count b) 64"
  shows "bit (words_to_nat (bm_data (InlineBitmap_MaskLastWord b))) k \<longleftrightarrow>
    k < bm_count b \<and> bit (words_to_nat (bm_data b)) k"
proof (cases "bm_data b = []")
  case True
  then show ?thesis by (simp add: InlineBitmap_MaskLastWord_def)
next
  case False
  let ?l = "length (bm_data b)"
  have l: "?l - 1 < ?l" using False by simp
  have up: "bm_count b \<le> 64 * ?l" and lo: "64 * ?l < bm_count b + 64"
    using words_enough words_tight len by auto
  show ?thesis
  proof (cases "k div 64 = ?l - 1")
    case True
    then have k: "64 * (?l - 1) + k mod 64 = k" by (metis mult_div_mod_eq)
    then have "k < 64 * ?l" using l mod_less_divisor [of 64 k] by linarith
    with True l k bit_MaskForWord [OF len l, of "k mod 64"] show ?thesis
      using False
      by (simp add: InlineBitmap_MaskLastWord_def Let_def bit_words_update bit_words_to_nat bit_and_iff
          conj_commute)
  next
    case k: False
    have "k < bm_count b" if "k < 64 * ?l" using that k lo l by linarith
    with k l False show ?thesis
      by (auto simp: InlineBitmap_MaskLastWord_def Let_def bit_words_update bit_words_to_nat)
  qed
qed

lemma wf_MaskLastWord [bits_wf]:
  "length (bm_data b) = CeilOfRatio_nat (bm_count b) 64 \<Longrightarrow> bm_wf (InlineBitmap_MaskLastWord b)"
  by (rule bm_wfI) (auto simp: bit_MaskLastWord)

text \<open>
  An operation's result is fixed by its count, the length of its words and the bits of the number
  they hold: the rule behind the lemmas below.
\<close>

lemma bm_resultI:
  assumes "length (bm_data r) = CeilOfRatio_nat (bm_count r) 64" "bm_count r = length bs"
    and "\<And>k. bit (words_to_nat (bm_data r)) k \<longleftrightarrow> k < length bs \<and> bs ! k"
  shows "bm_wf r \<and> bm_bits r = bs"
proof -
  have "InlineBitmap_Get r i = bs ! i" if "i < length bs" for i
  proof -
    have "i < 64 * length (bm_data r)"
      using that words_enough [of "length bs"] assms(1,2) by simp
    then show ?thesis using assms(3) [of i] that by (simp add: Get_eq_bit_nat)
  qed
  then have "bm_bits r = bs" using assms(2) by (intro nth_equalityI) auto
  moreover have "bm_wf r" using assms by (intro bm_wfI) auto
  ultimately show ?thesis by simp
qed

lemma new_count [simp]: "bm_count (InlineBitmap_new n fill) = n"
  by (simp add: InlineBitmap_new_def Let_def)

lemma new_length [simp]: "length (bm_data (InlineBitmap_new n fill)) = CeilOfRatio_nat n 64"
  by (simp add: InlineBitmap_new_def Let_def)

lemma words_replicate_bit:
  "bit (words_to_nat (replicate m w)) k \<longleftrightarrow> k < 64 * m \<and> bit w (k mod 64)"
  by (auto simp: bit_words_to_nat)

lemma bit_new: "bit (words_to_nat (bm_data (InlineBitmap_new n fill))) k \<longleftrightarrow> k < n \<and> fill"
  using words_enough [of n]
  by (auto simp: InlineBitmap_new_def Let_def bit_MaskLastWord words_replicate_bit)

lemma InlineBitmap_new_refines:
  "bm_wf (InlineBitmap_new n fill) \<and> bm_bits (InlineBitmap_new n fill) = replicate n fill"
  by (rule bm_resultI) (auto simp: bit_new)

lemma InlineBitmap_FromWord_refines:
  "bm_wf (InlineBitmap_FromWord w n fill) \<and>
   bm_bits (InlineBitmap_FromWord w n fill) = map (\<lambda>k. if k < 64 then bit w k else fill) [0..<n]"
proof (cases "n = 0")
  case True
  then show ?thesis
    using InlineBitmap_new_refines [of 0 fill] by (simp add: InlineBitmap_FromWord_def Let_def)
next
  case False
  then have l: "0 < length (bm_data (InlineBitmap_new n fill))"
    using words_enough [of n] by (cases "CeilOfRatio_nat n 64") auto
  show ?thesis
  proof (rule bm_resultI)
    fix k :: nat
    have "k div 64 = 0 \<longleftrightarrow> k < 64" by auto
    then show "bit (words_to_nat (bm_data (InlineBitmap_FromWord w n fill))) k \<longleftrightarrow>
        k < length (map (\<lambda>k. if k < 64 then bit w k else fill) [0..<n]) \<and>
        map (\<lambda>k. if k < 64 then bit w k else fill) [0..<n] ! k"
      using False l bit_MaskForWord [of "InlineBitmap_new n fill" 0 k]
      by (auto simp: InlineBitmap_FromWord_def Let_def bit_words_update bit_new bit_and_iff)
  qed (use False in \<open>auto simp: InlineBitmap_FromWord_def Let_def\<close>)
qed

text \<open>Byte images.\<close>

lemma byte_index: "t < 8 \<Longrightarrow> (8 * j + t) div 64 = j div 8 \<and> (8 * j + t) mod 64 = 8 * (j mod 8) + t"
  for j t :: nat
proof -
  assume t: "t < 8"
  define q r where "q = j div 8" and "r = j mod 8"
  have j: "j = 8 * q + r" "r < 8" by (simp_all add: q_def r_def)
  then have e: "8 * j + t = 64 * q + (8 * r + t)" and l: "8 * r + t < 64" using t by auto
  show ?thesis unfolding q_def [symmetric] r_def [symmetric] e using l by simp
qed

lemma length_word_image [simp]: "length (word_image ws) = 8 * length ws"
  by (simp add: word_image_def)

lemma bit_word_image:
  "j < 8 * length ws \<Longrightarrow> bit (word_image ws ! j) t \<longleftrightarrow> t < 8 \<and> bit (words_to_nat ws) (8 * j + t)"
  using byte_index [of t j]
  by (auto simp: word_image_def bit_words_to_nat bit_ucast_iff bit_drop_bit_eq)

lemma bit_word_of_bytes:
  "bit (word_of_bytes bs) k \<longleftrightarrow> k < 64 \<and> k div 8 < length bs \<and> bit (bs ! (k div 8)) (k mod 8)"
proof (induction bs arbitrary: k)
  case Nil
  show ?case by (simp add: word_of_bytes_def)
next
  case (Cons c bs)
  have s: "word_of_bytes (c # bs) = push_bit 8 (word_of_bytes bs) OR ucast c"
    by (simp add: word_of_bytes_def)
  show ?case
  proof (cases "k < 8")
    case True
    then show ?thesis by (simp add: s bit_or_iff bit_push_bit_iff bit_ucast_iff)
  next
    case False
    then have "k div 8 = Suc ((k - 8) div 8)" "k mod 8 = (k - 8) mod 8"
      by (auto simp: le_div_geq le_mod_geq)
    moreover have "\<not> bit c k" using False bit_imp_le_length [of c k] by auto
    ultimately show ?thesis
      using False Cons.IH [of "k - 8"] by (auto simp: s bit_or_iff bit_push_bit_iff bit_ucast_iff)
  qed
qed

lemma byte_split: "t < 8 \<Longrightarrow> (8 * a + t) div 8 = a" "t < 8 \<Longrightarrow> (8 * a + t) mod 8 = t" for a t :: nat
  by simp_all

lemma length_words_of_image [simp]: "length (words_of_image n bs) = n"
  by (simp add: words_of_image_def)

lemma bit_words_of_image:
  assumes "length bs = 8 * n"
  shows "bit (words_to_nat (words_of_image n bs)) k \<longleftrightarrow> k < 64 * n \<and> bit (bs ! (k div 8)) (k mod 8)"
proof (cases "k < 64 * n")
  case True
  define q r where "q = k div 64" and "r = k mod 64"
  have k: "k = 64 * q + r" "r < 64" by (simp_all add: q_def r_def)
  have q: "q < n" using True k by linarith
  have e: "k = 8 * (8 * q + r div 8) + r mod 8" using k(1) by simp
  have d: "k div 8 = 8 * q + r div 8" "k mod 8 = r mod 8"
    unfolding e by (simp_all only: byte_split mod_less_divisor zero_less_numeral)
  have "r div 8 < 8" using k(2) by linarith
  moreover from this have "8 * q + r div 8 < length bs" using q assms by linarith
  ultimately show ?thesis
    using True q k(2)
    by (auto simp: bit_words_to_nat words_of_image_def d bit_word_of_bytes simp flip: q_def r_def)
next
  case False
  then show ?thesis by (simp add: bit_words_to_nat words_of_image_def)
qed

lemma bytes_of_count: "8 * m \<ge> n \<longleftrightarrow> m \<ge> CeilOfRatio_nat n 8"
  by (auto simp: CeilOfRatio_nat_eq)

lemma byte_count_le: "CeilOfRatio_nat n 8 \<le> 8 * CeilOfRatio_nat n 64"
  using words_enough [of n] by (simp flip: bytes_of_count)

lemma InlineBitmap_FromBytes_refines:
  assumes "length bytes = CeilOfRatio_nat n 8"
  shows "\<exists>b. InlineBitmap_FromBytes n bytes = Some b \<and> bm_wf b \<and>
    bm_bits b = map (\<lambda>k. bit (bytes ! (k div 8)) (k mod 8)) [0..<n]"
proof -
  let ?b = "InlineBitmap_new n False"
  let ?ws = "words_of_image (length (bm_data ?b)) (bytes @ drop (length bytes) (word_image (bm_data ?b)))"
  have l: "length (bytes @ drop (length bytes) (word_image (bm_data ?b))) = 8 * length (bm_data ?b)"
    using byte_count_le [of n] assms by simp
  have lw: "length ?ws = CeilOfRatio_nat n 64" by simp
  let ?r = "InlineBitmap_MaskLastWord (?b\<lparr>bm_data := ?ws\<rparr>)"
  have "InlineBitmap_FromBytes n bytes = Some ?r"
  proof (cases "bm_data ?b = []")
    case True
    then have "?b\<lparr>bm_data := ?ws\<rparr> = ?b" by (simp add: words_of_image_def)
    with True assms show ?thesis by (simp add: InlineBitmap_FromBytes_def Let_def)
  qed (use assms in \<open>simp add: InlineBitmap_FromBytes_def Let_def\<close>)
  moreover have "bm_wf ?r \<and> bm_bits ?r = map (\<lambda>k. bit (bytes ! (k div 8)) (k mod 8)) [0..<n]"
  proof (rule bm_resultI)
    fix k
    have "k div 8 < length bytes" if "k < n"
    proof -
      have "n \<le> 8 * length bytes" using bytes_of_count [of n "length bytes"] assms by simp
      with that show ?thesis by linarith
    qed
    then show "bit (words_to_nat (bm_data ?r)) k \<longleftrightarrow>
        k < length (map (\<lambda>k. bit (bytes ! (k div 8)) (k mod 8)) [0..<n]) \<and>
        map (\<lambda>k. bit (bytes ! (k div 8)) (k mod 8)) [0..<n] ! k"
      using words_enough [of n] l lw
      by (auto simp: bit_MaskLastWord bit_words_of_image nth_append)
  qed (simp_all add: lw)
  ultimately show ?thesis by blast
qed

text \<open>The loop of \<open>FromBits\<close>.\<close>

lemma length_FromBits_loop [simp]: "length (FromBits_loop ws wi bi bs) = length ws"
  by (induction ws wi bi bs rule: FromBits_loop.induct) (simp_all add: Let_def)

lemma bit_FromBits_loop:
  "bi < 64 \<Longrightarrow> 64 * wi + bi + length bs \<le> 64 * length ws \<Longrightarrow>
   bit (words_to_nat (FromBits_loop ws wi bi bs)) k \<longleftrightarrow>
     bit (words_to_nat ws) k \<or>
     64 * wi + bi \<le> k \<and> k < 64 * wi + bi + length bs \<and> bs ! (k - (64 * wi + bi))"
proof (induction ws wi bi bs rule: FromBits_loop.induct)
  case (2 ws wi bi b bs)
  let ?ws = "ws[wi := ws ! wi OR push_bit bi (of_bool b)]" and ?p = "64 * wi + bi"
  have wi: "wi < length ws" using "2.prems" by simp
  have p: "?p div 64 = wi" "?p mod 64 = bi" using "2.prems" by auto
  have pk: "k div 64 = wi \<and> k mod 64 = bi \<longleftrightarrow> k = ?p" using p by (metis mult_div_mod_eq)
  have kl: "k < 64 * length ws" if "k div 64 = wi" using that wi by auto
  have pb: "bit (push_bit bi (of_bool b) :: u64) j \<longleftrightarrow> b \<and> j = bi" for j
    using "2.prems"(1) by (cases b) (auto simp: bit_exp_iff)
  have step: "bit (words_to_nat ?ws) k \<longleftrightarrow> bit (words_to_nat ws) k \<or> k = ?p \<and> b"
  proof (cases "k div 64 = wi")
    case True
    then have "bit (words_to_nat ?ws) k \<longleftrightarrow> bit (ws ! wi) (k mod 64) \<or> b \<and> k mod 64 = bi"
      by (simp only: bit_words_update [OF wi] bit_or_iff pb) simp
    with True kl pk show ?thesis by (auto simp: bit_words_to_nat)
  next
    case False
    then have "k \<noteq> ?p" using p by auto
    with False show ?thesis by (simp only: bit_words_update [OF wi]) simp
  qed
  have nx: "(b # bs) ! (k - ?p) = (if k = ?p then b else bs ! (k - Suc ?p))" if "?p \<le> k"
    using that by (auto simp: nth_Cons' Suc_diff_Suc)
  show ?case
  proof (cases "bi + 1 \<ge> 64")
    case True
    with "2.prems"(1) have bi: "bi = 63" by simp
    have "bit (words_to_nat (FromBits_loop ?ws (wi + 1) 0 bs)) k \<longleftrightarrow>
       bit (words_to_nat ?ws) k \<or> Suc ?p \<le> k \<and> k < Suc ?p + length bs \<and> bs ! (k - Suc ?p)"
      using "2.IH"(1) [OF refl] "2.prems" bi by (simp add: algebra_simps)
    then show ?thesis using bi nx step by (auto simp: Let_def split: if_splits)
  next
    case False
    have "bit (words_to_nat (FromBits_loop ?ws wi (bi + 1) bs)) k \<longleftrightarrow>
       bit (words_to_nat ?ws) k \<or> Suc ?p \<le> k \<and> k < Suc ?p + length bs \<and> bs ! (k - Suc ?p)"
      using "2.IH"(2) [OF refl] "2.prems" False by (simp add: algebra_simps)
    then show ?thesis using False nx step by (auto simp: Let_def split: if_splits)
  qed
qed auto

lemma InlineBitmap_FromBits_refines:
  "bm_wf (InlineBitmap_FromBits bs) \<and> bm_bits (InlineBitmap_FromBits bs) = bs"
  using words_enough [of "length bs"]
  by (intro bm_resultI) (auto simp: InlineBitmap_FromBits_def Let_def bit_FromBits_loop bit_new)

text \<open>Resizing.\<close>

lemma bit_words_append:
  "bit (words_to_nat (xs @ ys)) k \<longleftrightarrow>
     (if k < 64 * length xs then bit (words_to_nat xs) k else bit (words_to_nat ys) (k - 64 * length xs))"
  using bit_add_shifted [OF words_to_nat_less, of xs "words_to_nat ys" k]
  by (simp add: words_to_nat_append)

lemma bit_words_take:
  "bit (words_to_nat (take j ws)) k \<longleftrightarrow> k < 64 * j \<and> bit (words_to_nat ws) k"
proof (cases "k < 64 * j")
  case True
  then have "k div 64 < j" by auto
  with True show ?thesis by (auto simp: bit_words_to_nat min_def)
next
  case False
  then show ?thesis by (auto simp: bit_words_to_nat)
qed

lemma CeilOfRatio_nat_mono: "m \<le> n \<Longrightarrow> CeilOfRatio_nat m 64 \<le> CeilOfRatio_nat n 64"
  by (simp add: CeilOfRatio_nat_eq div_le_mono)

lemma WithSize_shrink_refines:
  assumes "bm_wf b" "m \<le> bm_count b"
  shows "bm_wf (InlineBitmap_WithSize b m new_data) \<and>
    bm_bits (InlineBitmap_WithSize b m new_data) = take m (bm_bits b)"
proof -
  have l: "CeilOfRatio_nat m 64 \<le> length (bm_data b)"
    using assms CeilOfRatio_nat_mono by (simp add: bm_wf_length)
  let ?c = "b\<lparr>bm_count := m, bm_data := take (CeilOfRatio_nat m 64) (bm_data b)\<rparr>"
  have e: "InlineBitmap_WithSize b m new_data = InlineBitmap_MaskLastWord ?c"
    using assms(2) l by (simp add: InlineBitmap_WithSize_def Let_def vec_resize_def)
  have lc: "length (bm_data ?c) = CeilOfRatio_nat (bm_count ?c) 64" using l by simp
  show ?thesis
    unfolding e
  proof (rule bm_resultI)
    fix k
    have "k < 64 * CeilOfRatio_nat m 64" if "k < m" using that words_enough [of m] by linarith
    moreover have "InlineBitmap_Get b k = bit (words_to_nat (bm_data b)) k" if "k < m"
      using that assms words_enough [of "bm_count b"] by (simp add: Get_eq_bit_nat bm_wf_length)
    ultimately show "bit (words_to_nat (bm_data (InlineBitmap_MaskLastWord ?c))) k \<longleftrightarrow>
        k < length (take m (bm_bits b)) \<and> take m (bm_bits b) ! k"
      using assms(2) by (auto simp: bit_MaskLastWord [OF lc] bit_words_take)
  qed (use assms l in auto)
qed

lemma WithSize_grow_refines:
  assumes wf: "bm_wf b" and m: "bm_count b < m"
  shows "bm_wf (InlineBitmap_WithSize b m new_data) \<and>
    bm_bits (InlineBitmap_WithSize b m new_data) = bm_bits b @ replicate (m - bm_count b) new_data"
proof -
  let ?n = "bm_count b" and ?l = "length (bm_data b)" and ?L = "CeilOfRatio_nat m 64"
  let ?fill = "(if new_data then NOT 0 else 0) :: u64"
  define ws where "ws = bm_data b @ replicate (?L - ?l) ?fill"
  define ws' where "ws' = (if ?n \<noteq> 0 then
      (if new_data then ws[?l - 1 := ws ! (?l - 1) OR NOT (InlineBitmap_MaskForWord b (?l - 1))]
       else ws[?l - 1 := ws ! (?l - 1) AND InlineBitmap_MaskForWord b (?l - 1)]) else ws)"
  let ?c = "b\<lparr>bm_count := m, bm_data := ws'\<rparr>"
  have l: "?l = CeilOfRatio_nat ?n 64" using wf by (rule bm_wf_length)
  have lL: "?l \<le> ?L" using l m CeilOfRatio_nat_mono [of ?n m] by simp
  have e: "InlineBitmap_WithSize b m new_data = InlineBitmap_MaskLastWord ?c"
    using m lL by (auto simp: InlineBitmap_WithSize_def Let_def vec_resize_def ws_def ws'_def)
  have lc: "length (bm_data ?c) = CeilOfRatio_nat (bm_count ?c) 64"
    using lL by (simp add: ws'_def ws_def)
  have up: "?n \<le> 64 * ?l" and lo: "64 * ?l < ?n + 64" and LL: "m \<le> 64 * ?L"
    using words_enough words_tight l by auto
  have bws: "bit (words_to_nat ws) k \<longleftrightarrow>
      (if k < 64 * ?l then bit (words_to_nat (bm_data b)) k else k < 64 * ?L \<and> new_data)" for k
    using lL by (auto simp: ws_def bit_words_append words_replicate_bit)
  have bws': "bit (words_to_nat ws') k \<longleftrightarrow>
      (if k < ?n then bit (words_to_nat (bm_data b)) k else k < 64 * ?L \<and> new_data)" for k
  proof (cases "?n = 0 \<or> k div 64 \<noteq> ?l - 1")
    case True
    have "?n = 0 \<Longrightarrow> ?l = 0" using l by (simp add: CeilOfRatio_nat_eq)
    moreover have "k < 64 * ?l \<Longrightarrow> ?n \<noteq> 0 \<Longrightarrow> k < ?n" using True lo by linarith
    moreover have "?n \<noteq> 0 \<Longrightarrow> ?l - 1 < length ws" using up lL by (simp add: ws_def)
    ultimately show ?thesis
      using True bws [of k] bm_wf_high [OF wf, of k] up
      by (auto simp: ws'_def bit_words_update)
  next
    case False
    then have l0: "?l - 1 < ?l" using up by (cases ?l) auto
    then have l1: "?l - 1 < length ws" by (simp add: ws_def)
    have k: "k = 64 * (?l - 1) + k mod 64" using False by (metis mult_div_mod_eq)
    then have kl: "k < 64 * ?l" using l0 mod_less_divisor [of 64 k] by linarith
    have w: "bit (ws ! (?l - 1)) (k mod 64) = bit (words_to_nat (bm_data b)) k"
      using l0 kl False by (simp add: ws_def nth_append bit_words_to_nat)
    have mk: "bit (InlineBitmap_MaskForWord b (?l - 1)) (k mod 64) \<longleftrightarrow> k < ?n"
      using bit_MaskForWord [OF l l0, of "k mod 64"] k by simp
    show ?thesis
      using False l1 w mk kl lL bm_wf_high [OF wf, of k]
      by (auto simp: ws'_def bit_words_update bit_or_iff bit_and_iff bit_not_iff)
  qed
  show ?thesis
    unfolding e
  proof (rule bm_resultI)
    fix k
    have "InlineBitmap_Get b k = bit (words_to_nat (bm_data b)) k" if "k < ?n"
      using that up by (simp add: Get_eq_bit_nat)
    then show "bit (words_to_nat (bm_data (InlineBitmap_MaskLastWord ?c))) k \<longleftrightarrow>
        k < length (bm_bits b @ replicate (m - ?n) new_data) \<and>
        (bm_bits b @ replicate (m - ?n) new_data) ! k"
      using m LL by (auto simp: bit_MaskLastWord [OF lc] bws' nth_append)
  qed (use lc m in auto)
qed

lemma WithSize_refines:
  assumes "bm_wf b"
  shows "bm_wf (InlineBitmap_WithSize b m new_data) \<and>
    bm_bits (InlineBitmap_WithSize b m new_data) =
      take m (bm_bits b) @ replicate (m - bm_count b) new_data"
  using WithSize_shrink_refines [OF assms, of m new_data] WithSize_grow_refines [OF assms, of m new_data]
  by (cases "m \<le> bm_count b") auto

text \<open>Single bits, ranges and whole words.\<close>

lemma Set_count [simp]: "bm_count (InlineBitmap_Set b i v) = bm_count b"
  by (simp add: InlineBitmap_Set_def Let_def)

lemma bit_Set:
  assumes "i < 64 * length (bm_data b)"
  shows "bit (words_to_nat (bm_data (InlineBitmap_Set b i v))) k \<longleftrightarrow>
    (if k = i then v else bit (words_to_nat (bm_data b)) k)"
proof -
  have iw: "i div 64 < length (bm_data b)" using assms by auto
  have pb: "bit (push_bit (i mod 64) 1 :: u64) j \<longleftrightarrow> j = i mod 64" for j
    by (auto simp: bit_exp_iff)
  let ?x = "if v then bm_data b ! (i div 64) OR push_bit (i mod 64) 1
            else bm_data b ! (i div 64) AND NOT (push_bit (i mod 64) 1)"
  have e: "bm_data (InlineBitmap_Set b i v) = (bm_data b)[i div 64 := ?x]"
    by (simp add: InlineBitmap_Set_def Let_def)
  have ki: "k = i \<longleftrightarrow> k div 64 = i div 64 \<and> k mod 64 = i mod 64" by (metis mult_div_mod_eq)
  have x: "bit ?x (k mod 64) \<longleftrightarrow> (if k mod 64 = i mod 64 then v else bit (bm_data b ! (i div 64)) (k mod 64))"
    unfolding if_distrib [of "\<lambda>w. bit w (k mod 64)"] bit_or_iff bit_and_iff bit_not_iff pb by auto
  show ?thesis
  proof (cases "k div 64 = i div 64")
    case True
    then have "k < 64 * length (bm_data b)" using iw by auto
    with True show ?thesis
      unfolding e bit_words_update [OF iw] x by (simp add: ki bit_words_to_nat)
  next
    case False
    then show ?thesis unfolding e bit_words_update [OF iw] by (auto simp: ki)
  qed
qed

lemma InlineBitmap_Set_refines:
  assumes wf: "bm_wf b" and i: "i < bm_count b"
  shows "bm_wf (InlineBitmap_Set b i v) \<and> bm_bits (InlineBitmap_Set b i v) = (bm_bits b)[i := v]"
proof (rule bm_resultI)
  have up: "bm_count b \<le> 64 * length (bm_data b)" using words_enough wf by (simp add: bm_wf_length)
  fix k
  show "bit (words_to_nat (bm_data (InlineBitmap_Set b i v))) k \<longleftrightarrow>
      k < length ((bm_bits b)[i := v]) \<and> (bm_bits b)[i := v] ! k"
    using i up by (auto simp: bit_Set nth_list_update bit_words_bm [OF wf])
qed (use wf in \<open>simp_all add: InlineBitmap_Set_def Let_def bm_wf_length\<close>)

lemma list_update_range:
  "upper \<le> length xs \<Longrightarrow>
   fold (\<lambda>i xs. xs[i := v]) [lower..<upper] xs =
     map (\<lambda>k. if lower \<le> k \<and> k < upper then v else xs ! k) [0..<length xs]"
proof (induction upper)
  case 0
  show ?case by (simp add: map_nth)
next
  case (Suc upper)
  then show ?case
    by (cases "lower \<le> upper")
      (auto simp: less_Suc_eq nth_list_update map_nth intro!: nth_equalityI)
qed

lemma fold_Set_refines:
  "bm_wf b \<Longrightarrow> \<forall>i \<in> set is. i < bm_count b \<Longrightarrow>
   bm_wf (fold (\<lambda>i b. InlineBitmap_Set b i (f i)) is b) \<and>
   bm_bits (fold (\<lambda>i b. InlineBitmap_Set b i (f i)) is b) = fold (\<lambda>i xs. xs[i := f i]) is (bm_bits b)"
proof (induction "is" arbitrary: b)
  case Nil
  then show ?case by simp
next
  case (Cons i "is")
  then show ?case using InlineBitmap_Set_refines [of b i "f i"] by simp
qed

lemma InlineBitmap_SetRange_refines:
  assumes "bm_wf b" "upper \<le> bm_count b"
  shows "bm_wf (InlineBitmap_SetRange b lower upper v) \<and>
    bm_bits (InlineBitmap_SetRange b lower upper v) =
      map (\<lambda>k. if lower \<le> k \<and> k < upper then v else bm_bits b ! k) [0..<bm_count b]"
  using fold_Set_refines [OF assms(1), of "[lower..<upper]" "\<lambda>_. v"] assms
    list_update_range [of upper "bm_bits b" v lower]
  by (auto simp: InlineBitmap_SetRange_def)

lemma InlineBitmap_SetAllBitsToFalse_refines:
  assumes "bm_wf b"
  shows "bm_wf (InlineBitmap_SetAllBitsToFalse b) \<and>
    bm_bits (InlineBitmap_SetAllBitsToFalse b) = replicate (bm_count b) False"
  by (rule bm_resultI)
    (use assms in \<open>auto simp: InlineBitmap_SetAllBitsToFalse_def bm_wf_length map_replicate_const
      words_replicate_bit\<close>)

lemma InlineBitmap_GetWord_refines:
  assumes "bm_wf b"
  shows "unat (InlineBitmap_GetWord b 0) = bl_to_nat (take 64 (bm_bits b))"
proof -
  have "unat (InlineBitmap_GetWord b 0) = words_to_nat (bm_data b) mod 2 ^ 64"
  proof (cases "bm_data b")
    case Nil
    then show ?thesis by (simp add: InlineBitmap_GetWord_def)
  next
    case (Cons w ws)
    have "unat w < 2 ^ 64" using unsigned_less [of w] by simp
    then show ?thesis using Cons by (simp add: InlineBitmap_GetWord_def)
  qed
  then show ?thesis using assms by (simp add: words_to_nat_bm_bits bl_to_nat_take)
qed

lemma InlineBitmap_SetWord_refines:
  assumes wf: "bm_wf b" and w: "wordno < length (bm_data b)"
  shows "bm_wf (InlineBitmap_SetWord b wordno v) \<and>
    bm_bits (InlineBitmap_SetWord b wordno v) =
      map (\<lambda>k. if k div 64 = wordno then bit v (k mod 64) else bm_bits b ! k) [0..<bm_count b]"
proof (rule bm_resultI)
  fix k
  have "64 * wordno + k mod 64 = k" if "k div 64 = wordno" using that by (metis mult_div_mod_eq)
  then show "bit (words_to_nat (bm_data (InlineBitmap_SetWord b wordno v))) k \<longleftrightarrow>
      k < length (map (\<lambda>k. if k div 64 = wordno then bit v (k mod 64) else bm_bits b ! k) [0..<bm_count b]) \<and>
      map (\<lambda>k. if k div 64 = wordno then bit v (k mod 64) else bm_bits b ! k) [0..<bm_count b] ! k"
    using w bit_MaskForWord [OF bm_wf_length [OF wf] w, of "k mod 64"] bit_words_bm [OF wf, of k]
    by (cases "k < bm_count b") (auto simp: InlineBitmap_SetWord_def bit_words_update bit_and_iff)
qed (use wf in \<open>simp_all add: InlineBitmap_SetWord_def bm_wf_length\<close>)

lemma InlineBitmap_SetWord_wf [bits_wf]: "bm_wf b \<Longrightarrow> wordno < length (bm_data b) \<Longrightarrow> bm_wf (InlineBitmap_SetWord b wordno v)"
  using InlineBitmap_SetWord_refines by blast

lemma InlineBitmap_GetByte_refines:
  assumes wf: "bm_wf b" and i: "i < InlineBitmap_byte_count b"
  shows "bit (InlineBitmap_GetByte b i) t \<longleftrightarrow> t < 8 \<and> 8 * i + t < bm_count b \<and> bm_bits b ! (8 * i + t)"
proof -
  have "i < 8 * length (bm_data b)"
    using i byte_count_le [of "bm_count b"] wf by (simp add: InlineBitmap_byte_count_def bm_wf_length)
  then show ?thesis
    by (simp add: InlineBitmap_GetByte_def bit_word_image bit_words_bm [OF wf] del: bm_bits_nth)
qed

lemma InlineBitmap_SetByte_refines:
  assumes wf: "bm_wf b" and i: "i < InlineBitmap_byte_count b"
  shows "bm_wf (InlineBitmap_SetByte b i v) \<and>
    bm_bits (InlineBitmap_SetByte b i v) =
      map (\<lambda>k. if k div 8 = i then bit v (k mod 8) else bm_bits b ! k) [0..<bm_count b]"
proof (rule bm_resultI)
  let ?ws = "words_of_image (length (bm_data b)) ((word_image (bm_data b))[i := v])"
  have l: "length (bm_data b) = CeilOfRatio_nat (bm_count b) 64" using wf by (rule bm_wf_length)
  have ib: "i < 8 * length (bm_data b)"
    using i byte_count_le [of "bm_count b"] l by (simp add: InlineBitmap_byte_count_def)
  fix k
  have "bit (words_to_nat ?ws) k \<longleftrightarrow> k < 64 * length (bm_data b) \<and>
     (if k div 8 = i then bit v (k mod 8) else bit (words_to_nat (bm_data b)) k)"
  proof (cases "k < 64 * length (bm_data b)")
    case True
    then have "k div 8 < 8 * length (bm_data b)" by auto
    then show ?thesis using True ib by (auto simp: bit_words_of_image nth_list_update bit_word_image)
  qed (simp add: bit_words_to_nat)
  then show "bit (words_to_nat (bm_data (InlineBitmap_SetByte b i v))) k \<longleftrightarrow>
     k < length (map (\<lambda>k. if k div 8 = i then bit v (k mod 8) else bm_bits b ! k) [0..<bm_count b]) \<and>
     map (\<lambda>k. if k div 8 = i then bit v (k mod 8) else bm_bits b ! k) [0..<bm_count b] ! k"
    using words_enough [of "bm_count b"] l
    by (auto simp: InlineBitmap_SetByte_def bit_MaskLastWord bit_words_bm [OF wf])
qed (use wf in \<open>simp_all add: InlineBitmap_SetByte_def bm_wf_length\<close>)

lemma WriteBytesToBuffer_bits:
  assumes wf: "bm_wf b" and l: "length bytes = InlineBitmap_byte_count b"
    and k: "k < bm_count b"
  shows "bit (InlineBitmap_WriteBytesToBuffer b bytes ! (k div 8)) (k mod 8) = bm_bits b ! k"
proof -
  have n8: "bm_count b \<le> 8 * length bytes"
    using bytes_of_count [of "bm_count b" "length bytes"] l by (simp add: InlineBitmap_byte_count_def)
  then have kb: "k div 8 < length bytes" using k by linarith
  have "length bytes \<le> 8 * length (bm_data b)"
    using byte_count_le [of "bm_count b"] wf l by (simp add: InlineBitmap_byte_count_def bm_wf_length)
  with kb have "InlineBitmap_WriteBytesToBuffer b bytes ! (k div 8) = word_image (bm_data b) ! (k div 8)"
    "k div 8 < 8 * length (bm_data b)"
    using l by (auto simp: InlineBitmap_WriteBytesToBuffer_def InlineBitmap_byte_count_def nth_append)
  with k show ?thesis by (simp add: bit_word_image bit_words_bm [OF wf])
qed

lemma length_WriteBytesToBuffer:
  assumes "bm_wf b" "length bytes = InlineBitmap_byte_count b"
  shows "length (InlineBitmap_WriteBytesToBuffer b bytes) = length bytes"
  using assms byte_count_le [of "bm_count b"]
  by (auto simp: InlineBitmap_WriteBytesToBuffer_def Let_def InlineBitmap_byte_count_def bm_wf_length)

text \<open>Equality, emptiness and fullness are decided word by word.\<close>

lemma InlineBitmap_eq_iff:
  assumes "bm_wf a" "bm_wf b"
  shows "InlineBitmap_eq a b \<longleftrightarrow> bm_bits a = bm_bits b"
proof
  assume eq: "InlineBitmap_eq a b"
  then have "length (bm_data a) = length (bm_data b)"
    using assms by (simp add: InlineBitmap_eq_def bm_wf_length)
  with eq have "bm_data a = bm_data b" "bm_count a = bm_count b"
    by (auto simp: InlineBitmap_eq_def list_all_iff intro: nth_equalityI)
  then have "a = b" by simp
  then show "bm_bits a = bm_bits b" by simp
next
  assume "bm_bits a = bm_bits b"
  with assms have "a = b" by (rule bm_eqI)
  then show "InlineBitmap_eq a b" by (simp add: InlineBitmap_eq_def list_all_iff)
qed

lemma bit_zero_word: "w = 0 \<longleftrightarrow> (\<forall>j<64. \<not> bit w j)" for w :: u64
  by (auto simp: bit_eq_iff)

lemma InlineBitmap_IsAllZeroes_iff:
  assumes wf: "bm_wf b"
  shows "InlineBitmap_IsAllZeroes b \<longleftrightarrow> bm_bits b = replicate (bm_count b) False"
proof
  assume "InlineBitmap_IsAllZeroes b"
  then have "\<forall>k. \<not> bit (words_to_nat (bm_data b)) k"
    by (auto simp: InlineBitmap_IsAllZeroes_def list_all_iff bit_words_to_nat)
  then show "bm_bits b = replicate (bm_count b) False"
    by (intro nth_equalityI) (auto simp: bit_words_bm [OF wf])
next
  assume z: "bm_bits b = replicate (bm_count b) False"
  have "words_to_nat (bm_data b) = words_to_nat (replicate (length (bm_data b)) 0)"
    by (rule bit_eqI) (auto simp: bit_words_bm [OF wf] z words_replicate_bit simp del: bm_bits_nth)
  then have "bm_data b = replicate (length (bm_data b)) 0" by (subst (asm) words_to_nat_inject) auto
  then show "InlineBitmap_IsAllZeroes b"
    by (auto simp: InlineBitmap_IsAllZeroes_def list_all_iff) (metis nth_replicate)
qed

lemma InlineBitmap_IsAllOnes_iff:
  assumes wf: "bm_wf b"
  shows "InlineBitmap_IsAllOnes b \<longleftrightarrow> bm_bits b = replicate (bm_count b) True"
proof -
  have l: "length (bm_data b) = CeilOfRatio_nat (bm_count b) 64" using wf by (rule bm_wf_length)
  have up: "bm_count b \<le> 64 * length (bm_data b)" using words_enough l by simp
  have "InlineBitmap_IsAllOnes b \<longleftrightarrow>
      (\<forall>w < length (bm_data b). \<forall>j < 64. bit (bm_data b ! w) j \<longleftrightarrow> 64 * w + j < bm_count b)"
    using bit_MaskForWord [OF l]
    by (auto simp: InlineBitmap_IsAllOnes_def list_all_iff bit_eq_iff)
  also have "\<dots> \<longleftrightarrow> (\<forall>k < 64 * length (bm_data b). bit (words_to_nat (bm_data b)) k \<longleftrightarrow> k < bm_count b)"
  proof (rule iffI; intro allI impI)
    fix k
    assume *: "\<forall>w < length (bm_data b). \<forall>j < 64. bit (bm_data b ! w) j \<longleftrightarrow> 64 * w + j < bm_count b"
      and k: "k < 64 * length (bm_data b)"
    then have "k div 64 < length (bm_data b)" by auto
    with * have "bit (bm_data b ! (k div 64)) (k mod 64) \<longleftrightarrow> 64 * (k div 64) + k mod 64 < bm_count b"
      by simp
    with k show "bit (words_to_nat (bm_data b)) k \<longleftrightarrow> k < bm_count b" by (simp add: bit_words_to_nat)
  next
    fix w j :: nat
    assume *: "\<forall>k < 64 * length (bm_data b). bit (words_to_nat (bm_data b)) k \<longleftrightarrow> k < bm_count b"
      and w: "w < length (bm_data b)" "j < 64"
    then have "64 * w + j < 64 * length (bm_data b)" by linarith
    moreover from this have "bit (words_to_nat (bm_data b)) (64 * w + j) \<longleftrightarrow> 64 * w + j < bm_count b"
      using * by blast
    ultimately show "bit (bm_data b ! w) j \<longleftrightarrow> 64 * w + j < bm_count b"
      using w(2) by (simp add: bit_words_to_nat)
  qed
  also have "\<dots> \<longleftrightarrow> (\<forall>k < bm_count b. bm_bits b ! k)"
    unfolding bit_words_bm [OF wf] using up by (meson less_le_trans)
  also have "\<dots> \<longleftrightarrow> bm_bits b = replicate (bm_count b) True"
    by (auto simp: list_eq_iff_nth_eq)
  finally show ?thesis .
qed

text \<open>The unsigned comparison, whatever the two widths.\<close>

lemma words_take_Suc:
  "k < length ws \<Longrightarrow>
   words_to_nat (take (Suc k) ws) = words_to_nat (take k ws) + 2 ^ (64 * k) * unat (ws ! k)"
  by (simp add: take_Suc_conv_app_nth words_to_nat_append)

lemma shifted_less:
  fixes a b x y :: nat
  assumes "a < 2 ^ n" "x < y"
  shows "a + 2 ^ n * x < b + 2 ^ n * y"
proof -
  have "a + 2 ^ n * x < 2 ^ n * Suc x" using assms(1) by simp
  also have "\<dots> \<le> 2 ^ n * y" using assms(2) by (intro mult_le_mono2) simp
  finally show ?thesis by simp
qed

lemma UCmp_words_correct:
  assumes "k \<le> length (bm_data a)" "k \<le> length (bm_data b)"
  shows "UCmp_words a b k =
    (let x = words_to_nat (take k (bm_data a)); y = words_to_nat (take k (bm_data b))
     in if x > y then 1 else if x < y then - 1 else 0)"
  using assms
proof (induction k)
  case 0
  show ?case by simp
next
  case (Suc k)
  have less: "words_to_nat (take k ws) < 2 ^ (64 * k)" if "k \<le> length ws" for ws
    using words_to_nat_less [of "take k ws"] that by simp
  let ?x = "bm_data a ! k" and ?y = "bm_data b ! k"
  have g: "InlineBitmap_GetWord a k = ?x" "InlineBitmap_GetWord b k = ?y"
    using Suc.prems by (auto simp: InlineBitmap_GetWord_def)
  consider "?y < ?x" | "?x < ?y" | "?x = ?y" by force
  then show ?case
  proof cases
    case 1
    then have "unat ?y < unat ?x" by (simp add: word_less_nat_alt)
    then show ?thesis
      using 1 g Suc.prems shifted_less [OF less, of "bm_data b" "unat ?y" "unat ?x"]
      by (simp add: words_take_Suc Let_def)
  next
    case 2
    then have "unat ?x < unat ?y" by (simp add: word_less_nat_alt)
    then show ?thesis
      using 2 g Suc.prems shifted_less [OF less, of "bm_data a" "unat ?x" "unat ?y"]
      by (auto simp add: words_take_Suc Let_def dest: order.strict_trans)
  next
    case 3
    then show ?thesis using g Suc by (simp add: words_take_Suc Let_def)
  qed
qed

lemma words_drop_zero:
  assumes "j \<le> length ws" "\<forall>i \<in> {j..<length ws}. ws ! i = 0"
  shows "words_to_nat ws = words_to_nat (take j ws)"
proof (rule bit_eqI)
  fix k
  have "\<not> bit (words_to_nat ws) k" if "64 * j \<le> k"
  proof (cases "k < 64 * length ws")
    case True
    then have "k div 64 \<in> {j..<length ws}" using that by auto
    then show ?thesis using assms by (simp add: bit_words_to_nat)
  qed (simp add: bit_words_to_nat)
  then show "bit (words_to_nat ws) k = bit (words_to_nat (take j ws)) k"
    by (auto simp: bit_words_take simp flip: not_le)
qed

lemma words_excess_ge:
  assumes "j \<le> i" "i < length ws" "ws ! i \<noteq> 0"
  shows "2 ^ (64 * j) \<le> words_to_nat ws"
proof -
  obtain t where t: "bit (ws ! i) t" "t < 64"
    using assms(3) bit_zero_word by blast
  then have "bit (words_to_nat ws) (64 * i + t)" using assms(2) by (simp add: bit_words_to_nat)
  then have "2 ^ (64 * i + t) \<le> words_to_nat ws" by (rule bit_nat_le)
  moreover have "(2::nat) ^ (64 * j) \<le> 2 ^ (64 * i + t)" using assms(1) by (intro power_increasing) auto
  ultimately show ?thesis by (rule order_trans [rotated])
qed

lemma InlineBitmap_UCmp_words:
  "InlineBitmap_UCmp a b =
    (let x = words_to_nat (bm_data a); y = words_to_nat (bm_data b)
     in if x > y then 1 else if x < y then - 1 else 0)"
proof -
  let ?n = "length (bm_data a)" and ?m = "length (bm_data b)"
  have gw: "InlineBitmap_GetWord c i = bm_data c ! i" if "i < length (bm_data c)" for c i
    using that by (auto simp: InlineBitmap_GetWord_def)
  consider (a) i where "?m \<le> i" "i < ?n" "bm_data a ! i \<noteq> 0"
    | (b) i where "?n \<le> i" "i < ?m" "bm_data b ! i \<noteq> 0" "?n \<le> ?m"
    | (eq) "\<forall>i \<in> {?m..<?n}. bm_data a ! i = 0" "\<forall>i \<in> {?n..<?m}. bm_data b ! i = 0"
    by (cases "\<exists>i. ?m \<le> i \<and> i < ?n \<and> bm_data a ! i \<noteq> 0";
        cases "\<exists>i. ?n \<le> i \<and> i < ?m \<and> bm_data b ! i \<noteq> 0") force+
  then show ?thesis
  proof cases
    case a
    have "words_to_nat (bm_data b) < words_to_nat (bm_data a)"
      using words_excess_ge [OF a] words_to_nat_less [of "bm_data b"] by linarith
    moreover have "list_ex (\<lambda>i. InlineBitmap_GetWord a i > 0) (rev [?m..<?n])"
      using a gw by (auto simp: list_ex_iff word_neq_0_conv)
    ultimately show ?thesis by (simp add: InlineBitmap_UCmp_def Let_def)
  next
    case b
    have "words_to_nat (bm_data a) < words_to_nat (bm_data b)"
      using words_excess_ge [OF b(1-3)] words_to_nat_less [of "bm_data a"] by linarith
    moreover have "list_ex (\<lambda>i. InlineBitmap_GetWord b i > 0) (rev [?n..<?m])"
      using b gw by (auto simp: list_ex_iff word_neq_0_conv)
    moreover have "\<not> list_ex (\<lambda>i. InlineBitmap_GetWord a i > 0) (rev [?m..<?n])"
      using b by (simp add: list_ex_iff)
    ultimately show ?thesis by (simp add: InlineBitmap_UCmp_def Let_def)
  next
    case eq
    let ?k = "min ?n ?m"
    have "words_to_nat (bm_data a) = words_to_nat (take ?k (bm_data a))"
      "words_to_nat (bm_data b) = words_to_nat (take ?k (bm_data b))"
      using eq by (auto intro!: words_drop_zero)
    moreover have "\<not> list_ex (\<lambda>i. InlineBitmap_GetWord a i > 0) (rev [?m..<?n])"
      "\<not> list_ex (\<lambda>i. InlineBitmap_GetWord b i > 0) (rev [?n..<?m])"
      using eq gw by (auto simp: list_ex_iff)
    ultimately show ?thesis
      using UCmp_words_correct [of ?k a b] by (simp add: InlineBitmap_UCmp_def Let_def)
  qed
qed

lemma InlineBitmap_UCmp_correct:
  "bm_wf a \<Longrightarrow> bm_wf b \<Longrightarrow> InlineBitmap_UCmp a b =
    (let x = bl_to_nat (bm_bits a); y = bl_to_nat (bm_bits b)
     in if x > y then 1 else if x < y then - 1 else 0)"
  by (simp add: InlineBitmap_UCmp_words words_to_nat_bm_bits)

text \<open>Union and intersection share one argument, whatever the word operation.\<close>

lemma words_pointwise_refines:
  assumes wf: "bm_wf a" "bm_wf b" and n: "bm_count a = bm_count b"
    and h: "\<And>x y j. bit (f x y :: u64) j \<longleftrightarrow> g (bit x j) (bit y j)" and g: "\<not> g False False"
  shows "bm_wf (a\<lparr>bm_data := map (\<lambda>i. f (bm_data a ! i) (bm_data b ! i)) [0..<length (bm_data a)]\<rparr>) \<and>
    bm_bits (a\<lparr>bm_data := map (\<lambda>i. f (bm_data a ! i) (bm_data b ! i)) [0..<length (bm_data a)]\<rparr>) =
      map2 g (bm_bits a) (bm_bits b)"
proof (rule bm_resultI)
  let ?ws = "map (\<lambda>i. f (bm_data a ! i) (bm_data b ! i)) [0..<length (bm_data a)]"
  have l: "length (bm_data b) = length (bm_data a)" using wf n by (simp add: bm_wf_length)
  fix k
  have "bit (words_to_nat ?ws) k \<longleftrightarrow>
      g (bit (words_to_nat (bm_data a)) k) (bit (words_to_nat (bm_data b)) k)"
  proof (cases "k < 64 * length (bm_data a)")
    case True
    then have "k div 64 < length (bm_data a)" by auto
    with True show ?thesis by (simp add: bit_words_to_nat h l)
  qed (simp add: bit_words_to_nat g l)
  then show "bit (words_to_nat (bm_data (a\<lparr>bm_data := ?ws\<rparr>))) k \<longleftrightarrow>
      k < length (map2 g (bm_bits a) (bm_bits b)) \<and> map2 g (bm_bits a) (bm_bits b) ! k"
    using g n by (cases "k < bm_count b") (auto simp: bit_words_bm wf simp del: bm_bits_nth)
qed (use wf n in \<open>simp_all add: bm_wf_length\<close>)

end
