(* ===== verification/Bits_Core.thy ===== *)
theory Bits_Core
  imports Inline_Bitmap
begin

unbundle bit_operations_syntax

text \<open>
  Models \<open>xls/ir/bits.h\<close>, \<open>xls/ir/bits.cc\<close> and \<open>xls/ir/bit_push_buffer.h\<close>: the
  class \<open>Bits\<close>, which wraps one \<open>InlineBitmap\<close> and so shares its type here, the factories
  \<open>UBits\<close> and \<open>SBits\<close> with their error statuses, \<open>BitsRope\<close>, and the buffer values
  are flattened into. The lemmas give the vector of bits, the unsigned value \<open>uval\<close> and the
  two's complement value \<open>sval\<close> every operation computes, the exact conditions under which the
  factories and the conversions to machine integers fail, and the round trips between them.
\<close>

section \<open>Constructors and element access\<close>

type_synonym Bits = inline_bitmap
type_synonym i64 = "64 word"

abbreviation Bits_bit_count :: "Bits \<Rightarrow> nat" where
  "Bits_bit_count b \<equiv> bm_count b"

definition Bits_new :: "nat \<Rightarrow> Bits" where
  "Bits_new n = InlineBitmap_new n False"

definition Bits_of_span :: "bool list \<Rightarrow> Bits" where
  "Bits_of_span bs = InlineBitmap_FromBits bs"

definition Bits_SetRange :: "Bits \<Rightarrow> nat \<Rightarrow> nat \<Rightarrow> bool \<Rightarrow> Bits" where
  "Bits_SetRange b start_index end_index v = InlineBitmap_SetRange b start_index end_index v"

definition Bits_AllOnes :: "nat \<Rightarrow> Bits" where
  "Bits_AllOnes n = InlineBitmap_new n True"

definition Bits_Get :: "Bits \<Rightarrow> nat \<Rightarrow> bool" where
  "Bits_Get b index = InlineBitmap_Get b index"

definition Bits_GetFromMsb :: "Bits \<Rightarrow> nat \<Rightarrow> bool" where
  "Bits_GetFromMsb b index = InlineBitmap_Get b (Bits_bit_count b - index - 1)"

definition Bits_msb :: "Bits \<Rightarrow> bool" where
  "Bits_msb b = (if Bits_bit_count b = 0 then False else Bits_Get b (Bits_bit_count b - 1))"

definition Bits_UpdateWithSet :: "Bits \<Rightarrow> nat \<Rightarrow> bool \<Rightarrow> Bits" where
  "Bits_UpdateWithSet b index v = InlineBitmap_Set b index v"

definition Bits_PowerOfTwo :: "nat \<Rightarrow> nat \<Rightarrow> Bits" where
  "Bits_PowerOfTwo set_bit_index n = InlineBitmap_Set (Bits_new n) set_bit_index True"

definition Bits_FromBytes :: "u8 list \<Rightarrow> nat \<Rightarrow> Bits option" where
  "Bits_FromBytes bytes n = InlineBitmap_FromBytes n bytes"

definition Bits_ToBytes :: "Bits \<Rightarrow> u8 list" where
  "Bits_ToBytes b = InlineBitmap_WriteBytesToBuffer b (replicate (InlineBitmap_byte_count b) 0)"

definition Bits_ToBitVector :: "Bits \<Rightarrow> bool list" where
  "Bits_ToBitVector b = map (\<lambda>i. InlineBitmap_Get b i) [0..<Bits_bit_count b]"

definition Bits_ToDebugString :: "Bits \<Rightarrow> string" where
  "Bits_ToDebugString b =
     ''0b'' @ map (\<lambda>b. if b then CHR ''1'' else CHR ''0'') (rev (Bits_ToBitVector b))"

section \<open>Tests and counts\<close>

definition Bits_IsAllOnes :: "Bits \<Rightarrow> bool" where
  "Bits_IsAllOnes b = InlineBitmap_IsAllOnes b"

definition Bits_IsZero :: "Bits \<Rightarrow> bool" where
  "Bits_IsZero b = InlineBitmap_IsAllZeroes b"

definition Bits_PopCount :: "Bits \<Rightarrow> nat" where
  "Bits_PopCount b =
     fold (\<lambda>i count. if Bits_Get b i then count + 1 else count) [0..<Bits_bit_count b] 0"

definition Bits_IsOne :: "Bits \<Rightarrow> bool" where
  "Bits_IsOne b \<longleftrightarrow> Bits_PopCount b = 1 \<and> Bits_Get b 0"

definition Bits_IsPowerOfTwo :: "Bits \<Rightarrow> bool" where
  "Bits_IsPowerOfTwo b \<longleftrightarrow> Bits_PopCount b = 1"

text \<open>A loop that returns the first index at which its test succeeds, or the bit count.\<close>

definition first_index :: "(nat \<Rightarrow> bool) \<Rightarrow> nat \<Rightarrow> nat" where
  "first_index test n = (case find test [0..<n] of Some i \<Rightarrow> i | None \<Rightarrow> n)"

definition Bits_CountLeadingZeros :: "Bits \<Rightarrow> nat" where
  "Bits_CountLeadingZeros b =
     first_index (\<lambda>i. Bits_Get b (Bits_bit_count b - 1 - i)) (Bits_bit_count b)"

definition Bits_CountLeadingOnes :: "Bits \<Rightarrow> nat" where
  "Bits_CountLeadingOnes b =
     first_index (\<lambda>i. \<not> Bits_Get b (Bits_bit_count b - 1 - i)) (Bits_bit_count b)"

definition Bits_CountTrailingZeros :: "Bits \<Rightarrow> nat" where
  "Bits_CountTrailingZeros b = first_index (\<lambda>i. Bits_Get b i) (Bits_bit_count b)"

definition Bits_CountTrailingOnes :: "Bits \<Rightarrow> nat" where
  "Bits_CountTrailingOnes b = first_index (\<lambda>i. \<not> Bits_Get b i) (Bits_bit_count b)"

text \<open>
  The result is the three out-parameters (leading zeros, set bits, trailing zeros) when the C++
  function returns \<open>true\<close>; the outer \<open>None\<close> is a failed \<open>CHECK\<close>.
\<close>

definition Bits_HasSingleRunOfSetBits :: "Bits \<Rightarrow> (nat \<times> nat \<times> nat) option option" where
  "Bits_HasSingleRunOfSetBits b =
     (let leading_zeros = Bits_CountLeadingZeros b;
          trailing_zeros = Bits_CountTrailingZeros b;
          n = Bits_bit_count b
      in if n = trailing_zeros then (if leading_zeros \<noteq> n then None else Some None)
         else if \<not> list_all (\<lambda>i. Bits_Get b i) [trailing_zeros..<n - leading_zeros] then Some None
         else
           let set_bit_count = int n - int leading_zeros - int trailing_zeros
           in if set_bit_count < 0 then None
              else Some (Some (leading_zeros, nat set_bit_count, trailing_zeros)))"

definition Bits_FitsInNBitsUnsigned :: "Bits \<Rightarrow> nat \<Rightarrow> bool" where
  "Bits_FitsInNBitsUnsigned b n = list_all (\<lambda>i. \<not> Bits_Get b i) [n..<Bits_bit_count b]"

definition Bits_FitsInNBitsSigned :: "Bits \<Rightarrow> nat \<Rightarrow> bool" where
  "Bits_FitsInNBitsSigned b n =
     (if n = 0 then Bits_IsZero b
      else list_all (\<lambda>i. Bits_Get b i = Bits_msb b) [n - 1..<Bits_bit_count b])"

definition Bits_FitsInUint64 :: "Bits \<Rightarrow> bool" where
  "Bits_FitsInUint64 b = Bits_FitsInNBitsUnsigned b 64"

definition Bits_FitsInInt64 :: "Bits \<Rightarrow> bool" where
  "Bits_FitsInInt64 b = Bits_FitsInNBitsSigned b 64"

section \<open>Machine integers\<close>

definition Bits_ToUint64 :: "Bits \<Rightarrow> status_code + u64" where
  "Bits_ToUint64 b =
     (if Bits_bit_count b = 0 then Inr 0
      else if \<not> Bits_FitsInUint64 b then Inl InvalidArgument
      else Inr (InlineBitmap_GetWord b 0))"

definition Bits_WordToUint64 :: "Bits \<Rightarrow> nat \<Rightarrow> status_code + u64" where
  "Bits_WordToUint64 b word_number =
     (if Bits_bit_count b = 0 then Inr 0 else Inr (InlineBitmap_GetWord b word_number))"

definition Bits_ToInt64 :: "Bits \<Rightarrow> status_code + i64" where
  "Bits_ToInt64 b =
     (if \<not> Bits_FitsInInt64 b then Inl InvalidArgument
      else
        let w = InlineBitmap_GetWord b 0
        in Inr (if Bits_msb b \<and> Bits_bit_count b < 64
                then w OR push_bit (Bits_bit_count b) (- 1) else w))"

definition Bits_MinBitCountUnsigned :: "u64 \<Rightarrow> nat" where
  "Bits_MinBitCountUnsigned v = (if v = 0 then 0 else FloorOfLog2 v + 1)"

definition Bits_MinBitCountSigned :: "i64 \<Rightarrow> nat" where
  "Bits_MinBitCountSigned v =
     (if v = 0 then 0
      else if v <s 0 then Bits_MinBitCountUnsigned (- (v + 1)) + 1
      else Bits_MinBitCountUnsigned v + 1)"

definition UBitsWithStatus :: "u64 \<Rightarrow> nat \<Rightarrow> status_code + Bits" where
  "UBitsWithStatus v n =
     (if Bits_MinBitCountUnsigned v > n then Inl InvalidArgument
      else Inr (InlineBitmap_FromWord v n False))"

definition SBitsWithStatus :: "i64 \<Rightarrow> nat \<Rightarrow> status_code + Bits" where
  "SBitsWithStatus v n =
     (if Bits_MinBitCountSigned v > n then Inl InvalidArgument
      else let fill = (signed_drop_bit 63 v \<noteq> 0) in Inr (InlineBitmap_FromWord v n fill))"

text \<open>\<open>absl::StatusOr::value()\<close> crashes on an error.\<close>

definition value_of :: "'e + 'a \<Rightarrow> 'a option" where
  "value_of r = (case r of Inl _ \<Rightarrow> None | Inr x \<Rightarrow> Some x)"

definition UBits :: "u64 \<Rightarrow> nat \<Rightarrow> Bits option" where
  "UBits v n = value_of (UBitsWithStatus v n)"

definition SBits :: "i64 \<Rightarrow> nat \<Rightarrow> Bits option" where
  "SBits v n = value_of (SBitsWithStatus v n)"

definition Bits_MaxSigned :: "nat \<Rightarrow> Bits option" where
  "Bits_MaxSigned n =
     (if n = 0 then SBits 0 0 else Some (Bits_UpdateWithSet (Bits_AllOnes n) (n - 1) False))"

definition Bits_MinSigned :: "nat \<Rightarrow> Bits option" where
  "Bits_MinSigned n = (if n = 0 then SBits 0 0 else Some (Bits_PowerOfTwo (n - 1) n))"

section \<open>Slices and ropes\<close>

definition Bits_Slice :: "Bits \<Rightarrow> nat \<Rightarrow> nat \<Rightarrow> Bits option" where
  "Bits_Slice b start width =
     (if start + width > Bits_bit_count b then None
      else if start = 0 then Some (InlineBitmap_WithSize b width False)
      else Some (fold (\<lambda>i r. if Bits_Get b (start + i) then InlineBitmap_Set r i True else r)
                   [0..<width] (Bits_new width)))"

record BitsRope =
  rope_bitmap :: inline_bitmap
  rope_index :: nat

definition BitsRope_new :: "nat \<Rightarrow> BitsRope" where
  "BitsRope_new total_bit_count = \<lparr>rope_bitmap = InlineBitmap_new total_bit_count False, rope_index = 0\<rparr>"

definition BitsRope_push_back :: "BitsRope \<Rightarrow> Bits \<Rightarrow> BitsRope" where
  "BitsRope_push_back r b =
     \<lparr>rope_bitmap = fold (\<lambda>i m. InlineBitmap_Set m (rope_index r + i) (Bits_Get b i))
                      [0..<Bits_bit_count b] (rope_bitmap r),
      rope_index = rope_index r + Bits_bit_count b\<rparr>"

definition BitsRope_push_back_bit :: "BitsRope \<Rightarrow> bool \<Rightarrow> BitsRope" where
  "BitsRope_push_back_bit r b =
     \<lparr>rope_bitmap = InlineBitmap_Set (rope_bitmap r) (rope_index r) b, rope_index = rope_index r + 1\<rparr>"

definition BitsRope_Build :: "BitsRope \<Rightarrow> Bits option" where
  "BitsRope_Build r = (if rope_index r \<noteq> bm_count (rope_bitmap r) then None else Some (rope_bitmap r))"

section \<open>The push buffer\<close>

type_synonym BitPushBuffer = "bool list"

definition BitPushBuffer_PushBit :: "BitPushBuffer \<Rightarrow> bool \<Rightarrow> BitPushBuffer" where
  "BitPushBuffer_PushBit buffer b = buffer @ [b]"

definition BitPushBuffer_size_in_bytes :: "BitPushBuffer \<Rightarrow> nat" where
  "BitPushBuffer_size_in_bytes buffer = CeilOfRatio_nat (length buffer) 8"

definition BitPushBuffer_GetUint8Data :: "BitPushBuffer \<Rightarrow> u8 list" where
  "BitPushBuffer_GetUint8Data buffer =
     fold (\<lambda>i res. res[i div 8 := res ! (i div 8) OR push_bit (7 - i mod 8) (of_bool (buffer ! i))])
       [0..<length buffer] (replicate (CeilOfRatio_nat (length buffer) 8) 0)"

definition Bits_FlattenTo :: "Bits \<Rightarrow> BitPushBuffer \<Rightarrow> BitPushBuffer" where
  "Bits_FlattenTo b buffer =
     fold (\<lambda>i buf. BitPushBuffer_PushBit buf (Bits_Get b (Bits_bit_count b - i - 1)))
       [0..<Bits_bit_count b] buffer"

section \<open>Values of bit vectors\<close>

definition uval :: "Bits \<Rightarrow> nat" where
  "uval b = bl_to_nat (bm_bits b)"

definition sval :: "Bits \<Rightarrow> int" where
  "sval b = bl_to_int (bm_bits b)"

lemma uval_less: "uval b < 2 ^ Bits_bit_count b"
  using bl_to_nat_less [of "bm_bits b"] by (simp add: uval_def)

lemma Bits_eq_iff_uval:
  "bm_wf a \<Longrightarrow> bm_wf b \<Longrightarrow> Bits_bit_count a = Bits_bit_count b \<Longrightarrow> a = b \<longleftrightarrow> uval a = uval b"
  by (metis bl_to_nat_inject bm_eqI length_bm_bits uval_def)

lemma bm_bits_uval: "bm_bits b = nat_to_bl (Bits_bit_count b) (uval b)"
  by (metis length_bm_bits nat_to_bl_to_nat uval_def)

lemma bit_uval: "bit (uval b) i \<longleftrightarrow> i < Bits_bit_count b \<and> bm_bits b ! i"
  by (simp add: uval_def bit_bl_to_nat)

lemma Bits_Get_nth: "i < Bits_bit_count b \<Longrightarrow> Bits_Get b i = bm_bits b ! i"
  by (simp add: Bits_Get_def)

lemma Bits_Get_bit: "i < Bits_bit_count b \<Longrightarrow> Bits_Get b i = bit (uval b) i"
  by (simp add: Bits_Get_def bit_uval)

text \<open>Rewrite rules for the bitmap operations that \<open>Bits\<close> uses.\<close>

lemma new_bits [simp]: "bm_bits (InlineBitmap_new n fill) = replicate n fill"
  and new_wf [simp]: "bm_wf (InlineBitmap_new n fill)"
  using InlineBitmap_new_refines by blast+

lemma FromWord_wf [simp]: "bm_wf (InlineBitmap_FromWord w n fill)"
  and FromWord_bits: "bm_bits (InlineBitmap_FromWord w n fill) =
    map (\<lambda>k. if k < 64 then bit w k else fill) [0..<n]"
  using InlineBitmap_FromWord_refines by blast+

lemma FromWord_count [simp]: "bm_count (InlineBitmap_FromWord w n fill) = n"
  by (simp add: InlineBitmap_FromWord_def Let_def)

lemma FromBits_wf [simp]: "bm_wf (InlineBitmap_FromBits bs)"
  and FromBits_bits [simp]: "bm_bits (InlineBitmap_FromBits bs) = bs"
  using InlineBitmap_FromBits_refines by blast+

lemma FromBits_count [simp]: "bm_count (InlineBitmap_FromBits bs) = length bs"
  by (metis FromBits_bits length_bm_bits)

lemma WithSize_wf [simp]: "bm_wf b \<Longrightarrow> bm_wf (InlineBitmap_WithSize b m v)"
  and WithSize_bits: "bm_wf b \<Longrightarrow> bm_bits (InlineBitmap_WithSize b m v) =
    take m (bm_bits b) @ replicate (m - bm_count b) v"
  using WithSize_refines by blast+

lemma WithSize_count [simp]: "bm_count (InlineBitmap_WithSize b m v) = m"
  by (simp add: InlineBitmap_WithSize_def Let_def)

lemma Set_wf [simp]: "bm_wf b \<Longrightarrow> i < bm_count b \<Longrightarrow> bm_wf (InlineBitmap_Set b i v)"
  and Set_bits [simp]:
    "bm_wf b \<Longrightarrow> i < bm_count b \<Longrightarrow> bm_bits (InlineBitmap_Set b i v) = (bm_bits b)[i := v]"
  using InlineBitmap_Set_refines by blast+

lemma Bits_new_simps [simp]:
  "bm_wf (Bits_new n)" "bm_count (Bits_new n) = n" "bm_bits (Bits_new n) = replicate n False"
  "uval (Bits_new n) = 0"
  by (simp_all add: Bits_new_def uval_def)

lemma Bits_AllOnes_simps [simp]:
  "bm_wf (Bits_AllOnes n)" "bm_count (Bits_AllOnes n) = n"
  "bm_bits (Bits_AllOnes n) = replicate n True" "uval (Bits_AllOnes n) = 2 ^ n - 1"
  by (simp_all add: Bits_AllOnes_def uval_def)

lemma Bits_of_span_simps [simp]:
  "bm_wf (Bits_of_span bs)" "bm_count (Bits_of_span bs) = length bs" "bm_bits (Bits_of_span bs) = bs"
  "uval (Bits_of_span bs) = bl_to_nat bs"
  by (simp_all add: Bits_of_span_def uval_def)

lemma Bits_PowerOfTwo_simps [simp]:
  "i < n \<Longrightarrow> bm_wf (Bits_PowerOfTwo i n)" "bm_count (Bits_PowerOfTwo i n) = n"
  "i < n \<Longrightarrow> bm_bits (Bits_PowerOfTwo i n) = (replicate n False)[i := True]"
  by (simp_all add: Bits_PowerOfTwo_def)

lemma uval_PowerOfTwo:
  assumes "i < n"
  shows "uval (Bits_PowerOfTwo i n) = 2 ^ i"
  by (rule bit_eqI) (use assms in \<open>auto simp: bit_uval nth_list_update bit_exp_iff simp del: bm_bits_nth\<close>)

lemma Bits_ToBitVector_eq: "Bits_ToBitVector b = bm_bits b"
  by (simp add: Bits_ToBitVector_def bm_bits_def)

lemma Bits_msb_last: "Bits_msb b \<longleftrightarrow> Bits_bit_count b \<noteq> 0 \<and> last (bm_bits b)"
  by (auto simp: Bits_msb_def Bits_Get_nth last_conv_nth simp flip: length_0_conv)

lemma Bits_IsZero_iff: "bm_wf b \<Longrightarrow> Bits_IsZero b \<longleftrightarrow> uval b = 0"
  by (auto simp: Bits_IsZero_def InlineBitmap_IsAllZeroes_iff uval_def bl_to_nat_eq_0_iff
      in_set_conv_nth list_eq_iff_nth_eq)

lemma Bits_IsAllOnes_iff: "bm_wf b \<Longrightarrow> Bits_IsAllOnes b \<longleftrightarrow> uval b = 2 ^ Bits_bit_count b - 1"
  by (metis Bits_IsAllOnes_def InlineBitmap_IsAllOnes_iff bl_to_nat_inject bl_to_nat_replicate_True
      length_bm_bits length_replicate uval_def)

section \<open>Widths and the factories\<close>

lemma Bits_MinBitCountUnsigned_le: "Bits_MinBitCountUnsigned v \<le> n \<longleftrightarrow> unat v < 2 ^ n"
proof (cases "v = 0")
  case True
  then show ?thesis by (simp add: Bits_MinBitCountUnsigned_def)
next
  case False
  note b = FloorOfLog2_bounds [OF False]
  show ?thesis
  proof
    assume "Bits_MinBitCountUnsigned v \<le> n"
    then have "(2::nat) ^ (FloorOfLog2 v + 1) \<le> 2 ^ n"
      using False by (intro power_increasing) (auto simp: Bits_MinBitCountUnsigned_def)
    with b show "unat v < 2 ^ n" by linarith
  next
    assume "unat v < 2 ^ n"
    with b have "(2::nat) ^ FloorOfLog2 v < 2 ^ n" by linarith
    then show "Bits_MinBitCountUnsigned v \<le> n"
      using False by (simp add: Bits_MinBitCountUnsigned_def Suc_le_eq)
  qed
qed

lemma FromWord_bits_False: "bm_bits (InlineBitmap_FromWord v n False) = nat_to_bl n (unat v)"
  by (rule nth_equalityI) (auto simp: FromWord_bits bit_unsigned_iff dest: bit_imp_le_length
      simp del: bm_bits_nth)

lemma uval_FromWord: "uval (InlineBitmap_FromWord v n False) = unat v mod 2 ^ n"
  by (simp add: uval_def FromWord_bits_False bl_to_nat_to_bl)

lemma UBits_eq: "UBits v n = (if unat v < 2 ^ n then Some (InlineBitmap_FromWord v n False) else None)"
  by (auto simp: UBits_def value_of_def UBitsWithStatus_def not_less Bits_MinBitCountUnsigned_le
      simp flip: not_le)

lemma UBits_correct:
  assumes "unat v < 2 ^ n"
  shows "\<exists>b. UBits v n = Some b \<and> bm_wf b \<and> Bits_bit_count b = n \<and> uval b = unat v"
  using assms by (simp add: UBits_eq uval_FromWord)

text \<open>Signed machine integers.\<close>

lemma uint64_bounds: "0 \<le> uint v" "uint v < 2 ^ 64" for v :: u64
  using uint_lt2p [of v] by simp_all

lemma unat_less_exp_iff: "unat x < 2 ^ k \<longleftrightarrow> uint x < 2 ^ k" for x :: u64
proof -
  have "int (unat x) < int (2 ^ k) \<longleftrightarrow> unat x < 2 ^ k" by (rule of_nat_less_iff)
  then show ?thesis by simp
qed

lemma sint_split: "sint v = (if bit v 63 then uint v - 2 ^ 64 else uint v)" for v :: i64
proof -
  have "sint v = signed_take_bit 63 (uint v)" by (simp add: sint_uint)
  also have "\<dots> = take_bit 64 (uint v) - 2 ^ 64 * of_bool (bit (uint v) 63)"
    using signed_take_bit_eq_take_bit_minus [of 63 "uint v"] by simp
  also have "take_bit 64 (uint v) = uint v"
    using uint64_bounds [of v] by (intro take_bit_int_eq_self) auto
  finally show ?thesis by (simp add: bit_uint_iff)
qed

lemma bit_63_iff: "bit v 63 \<longleftrightarrow> 2 ^ 63 \<le> uint v" for v :: u64
proof -
  have e: "unat v < 2 ^ 64" using unsigned_less [of v] by simp
  have "bit v 63 \<longleftrightarrow> \<not> unat v < 2 ^ 63"
  proof
    assume "bit v 63"
    then have "bit (unat v) 63" by (simp add: bit_unsigned_iff)
    then show "\<not> unat v < 2 ^ 63" using bit_nat_le [of "unat v" 63] by simp
  next
    assume "\<not> unat v < 2 ^ 63"
    then obtain j where j: "63 \<le> j" "bit (unat v) j" by (auto simp only: nat_less_exp_iff_bits)
    moreover have "j < 64" using e j(2) nat_less_exp_iff_bits [of "unat v" 64] by (meson not_le)
    ultimately have "j = 63" by simp
    with j show "bit v 63" by (simp add: bit_unsigned_iff)
  qed
  then show ?thesis by (simp only: unat_less_exp_iff not_less)
qed

lemma sint_neg_iff: "sint v < 0 \<longleftrightarrow> bit v 63" for v :: i64
  using sint_split [of v] uint64_bounds [of v] by auto

lemma uint_not: "uint (NOT v) = 2 ^ 64 - 1 - uint v" for v :: i64
proof -
  have e: "NOT v = - 1 - v" by (simp add: not_eq_complement)
  have "uint (NOT v) = (uint (- 1 :: i64) - uint v) mod 2 ^ 64"
    unfolding e using uint_word_ariths(2) [of "- 1" v] by simp
  also have "uint (- 1 :: i64) = 2 ^ 64 - 1" by (simp add: unsigned_minus_1_eq_mask mask_eq_exp_minus_1)
  also have "(2 ^ 64 - 1 - uint v) mod 2 ^ 64 = 2 ^ 64 - 1 - uint v"
    using uint64_bounds [of v] by (intro mod_pos_pos_trivial) linarith+
  finally show ?thesis .
qed

lemma Bits_MinBitCountSigned_le:
  "Bits_MinBitCountSigned v \<le> n \<longleftrightarrow>
     (if n = 0 then v = 0 else - (2 ^ (n - 1)) \<le> sint v \<and> sint v < 2 ^ (n - 1))"
proof (cases "v = 0")
  case True
  then show ?thesis by (simp add: Bits_MinBitCountSigned_def)
next
  case v0: False
  note p = unat_less_exp_iff
  show ?thesis
  proof (cases "v <s 0")
    case True
    then have b: "bit v 63" by (simp add: word_sless_alt sint_neg_iff)
    then have neg: "sint v < 0" by (simp add: sint_neg_iff)
    have "- (v + 1) = NOT v" by (simp add: not_eq_complement)
    moreover have "uint (NOT v) = - sint v - 1" using b by (simp add: uint_not sint_split)
    ultimately have "Bits_MinBitCountSigned v \<le> Suc m \<longleftrightarrow> - sint v - 1 < 2 ^ m" for m
      using True v0 by (simp add: Bits_MinBitCountSigned_def Bits_MinBitCountUnsigned_le p)
    moreover have "sint v < 2 ^ m" for m
      by (rule order.strict_trans [OF neg]) simp
    moreover have "\<not> Bits_MinBitCountSigned v \<le> 0" using True v0 by (simp add: Bits_MinBitCountSigned_def)
    ultimately show ?thesis using v0 by (cases n) auto
  next
    case False
    then have "\<not> bit v 63" by (simp add: word_sless_alt sint_neg_iff)
    then have sv: "sint v = uint v" by (simp add: sint_split)
    then have "Bits_MinBitCountSigned v \<le> Suc m \<longleftrightarrow> sint v < 2 ^ m" for m
      using False v0 by (simp add: Bits_MinBitCountSigned_def Bits_MinBitCountUnsigned_le p)
    moreover have "- (2 ^ m) \<le> sint v" for m
      unfolding sv by (rule order_trans [of _ 0]) auto
    moreover have "\<not> Bits_MinBitCountSigned v \<le> 0" using False v0 by (simp add: Bits_MinBitCountSigned_def)
    ultimately show ?thesis using v0 by (cases n) auto
  qed
qed

lemma signed_drop_63: "signed_drop_bit 63 v \<noteq> 0 \<longleftrightarrow> bit v 63" for v :: i64
proof
  assume "bit v 63"
  then have "bit (signed_drop_bit 63 v) 0" by (simp add: bit_signed_drop_bit_iff)
  then show "signed_drop_bit 63 v \<noteq> 0" by auto
next
  assume "signed_drop_bit 63 v \<noteq> 0"
  then obtain j where "bit (signed_drop_bit 63 v) j" by (metis bit_eqI bit_0_eq bot_apply bot_bool_def)
  then show "bit v 63"
    by (cases j) (auto simp: bit_signed_drop_bit_iff dest: bit_imp_le_length split: if_splits)
qed

lemma SBits_eq:
  "SBits v n = (if n = 0 \<and> v = 0 \<or> n \<noteq> 0 \<and> - (2 ^ (n - 1)) \<le> sint v \<and> sint v < 2 ^ (n - 1)
     then Some (InlineBitmap_FromWord v n (bit v 63)) else None)"
  using Bits_MinBitCountSigned_le [of v n]
  by (auto simp: SBits_def value_of_def SBitsWithStatus_def signed_drop_63 split: if_splits)

lemma FromWord_signed_bit:
  "i < n \<Longrightarrow> bm_bits (InlineBitmap_FromWord v n (bit v 63)) ! i = bit (sint v) i"
  by (auto simp: FromWord_bits bit_sint_iff simp del: bm_bits_nth dest: bit_imp_le_length)

lemma bl_to_int_of_bits:
  fixes x :: int
  assumes "n \<noteq> 0" "- (2 ^ (n - 1)) \<le> x" "x < 2 ^ (n - 1)" "length bs = n"
    and "\<And>i. i < n \<Longrightarrow> bs ! i = bit x i"
  shows "bl_to_int bs = x"
proof -
  obtain m where m: "n = Suc m" using assms(1) by (cases n) auto
  have "int (bl_to_nat bs) = take_bit n x"
  proof (rule bit_eqI)
    fix i
    show "bit (int (bl_to_nat bs)) i = bit (take_bit n x) i"
      using assms(4,5) by (auto simp: bit_take_bit_iff bit_bl_to_nat bit_of_nat_iff)
  qed
  moreover have "last bs = bit x m" using assms(4,5) m by (simp add: last_conv_nth flip: length_0_conv)
  moreover have "bs \<noteq> []" using assms(4) m by auto
  ultimately have "bl_to_int bs = take_bit (Suc m) x - 2 ^ Suc m * of_bool (bit x m)"
    using assms(4) m by (simp add: bl_to_int_def)
  also have "\<dots> = signed_take_bit m x" by (simp add: signed_take_bit_eq_take_bit_minus)
  also have "\<dots> = x" using assms(2,3) m by (simp add: signed_take_bit_int_eq_self)
  finally show ?thesis .
qed

lemma sval_FromWord:
  "n \<noteq> 0 \<Longrightarrow> - (2 ^ (n - 1)) \<le> sint v \<Longrightarrow> sint v < 2 ^ (n - 1) \<Longrightarrow>
   sval (InlineBitmap_FromWord v n (bit v 63)) = sint v"
  unfolding sval_def by (rule bl_to_int_of_bits [of n]) (auto simp: FromWord_signed_bit simp del: bm_bits_nth)

lemma SBits_correct:
  assumes "n \<noteq> 0" "- (2 ^ (n - 1)) \<le> sint v" "sint v < 2 ^ (n - 1)"
  shows "\<exists>b. SBits v n = Some b \<and> bm_wf b \<and> Bits_bit_count b = n \<and> sval b = sint v"
  using assms by (simp add: SBits_eq sval_FromWord)

section \<open>Conversions to machine integers\<close>

lemma FitsInNBitsUnsigned_iff: "Bits_FitsInNBitsUnsigned b n \<longleftrightarrow> uval b < 2 ^ n"
  by (auto simp: Bits_FitsInNBitsUnsigned_def list_all_iff nat_less_exp_iff_bits Bits_Get_nth bit_uval
      simp del: bm_bits_nth)

lemma GetWord_0_value: "bm_wf b \<Longrightarrow> unat (InlineBitmap_GetWord b 0) = uval b mod 2 ^ 64"
  by (simp add: InlineBitmap_GetWord_refines bl_to_nat_take uval_def)

lemma ToUint64_correct:
  assumes "bm_wf b"
  shows "uval b < 2 ^ 64 \<Longrightarrow> \<exists>w. Bits_ToUint64 b = Inr w \<and> unat w = uval b"
    and "\<not> uval b < 2 ^ 64 \<Longrightarrow> Bits_ToUint64 b = Inl InvalidArgument"
  using assms uval_less [of b] GetWord_0_value [OF assms]
  by (auto simp: Bits_ToUint64_def Bits_FitsInUint64_def FitsInNBitsUnsigned_iff intro: gr0I)

lemma value_ToUint64:
  "bm_wf b \<Longrightarrow> uval b < 2 ^ 64 \<Longrightarrow> value_of (Bits_ToUint64 b) = Some (of_nat (uval b))"
  using ToUint64_correct(1) [of b] by (auto simp: value_of_def word_unat_eq_iff unat_of_nat)

lemma bit_sval: "bit (sval b) i \<longleftrightarrow> (if i < Bits_bit_count b then bm_bits b ! i else Bits_msb b)"
  by (auto simp: sval_def bit_bl_to_int Bits_msb_last simp flip: length_0_conv simp del: bm_bits_nth)

lemma FitsInNBitsSigned_iff:
  assumes "bm_wf b" "n \<noteq> 0"
  shows "Bits_FitsInNBitsSigned b n \<longleftrightarrow> - (2 ^ (n - 1)) \<le> sval b \<and> sval b < 2 ^ (n - 1)"
proof -
  have "Bits_FitsInNBitsSigned b n \<longleftrightarrow> (\<forall>i\<ge>n - 1. bit (sval b) i = Bits_msb b)"
    using assms(2) by (auto simp: Bits_FitsInNBitsSigned_def list_all_iff Bits_Get_nth bit_sval
        simp del: bm_bits_nth)
  also have "\<dots> \<longleftrightarrow> (\<forall>i\<ge>n - 1. bit (sval b) i = bit (sval b) (n - 1))"
  proof -
    have "bit (sval b) (max (n - 1) (Bits_bit_count b)) = Bits_msb b" by (simp add: bit_sval max_def)
    then show ?thesis by (metis max.cobounded1 order_refl)
  qed
  finally show ?thesis by (simp add: int_range_bits)
qed

lemma GetWord_0_bit: "bm_wf b \<Longrightarrow> i < 64 \<Longrightarrow> bit (InlineBitmap_GetWord b 0) i \<longleftrightarrow> bit (uval b) i"
proof -
  assume "bm_wf b" "i < 64"
  then have "unat (InlineBitmap_GetWord b 0) = take_bit 64 (uval b)"
    by (simp only: GetWord_0_value take_bit_eq_mod)
  then have "bit (unat (InlineBitmap_GetWord b 0)) i \<longleftrightarrow> bit (uval b) i"
    using \<open>i < 64\<close> by (simp only: bit_take_bit_iff) simp
  then show ?thesis by (simp add: bit_unsigned_iff)
qed

lemma sint_of_bits:
  fixes v :: i64
  assumes "- (2 ^ 63) \<le> x \<and> x < 2 ^ 63" and bits: "\<And>i. i < 64 \<Longrightarrow> bit v i = bit x i"
  shows "sint v = x"
proof (rule bit_eqI)
  fix i
  have hi: "bit x i = bit x 63" if "63 \<le> i" using iffD1 [OF int_range_bits assms(1)] that by blast
  show "bit (sint v) i = bit x i"
  proof (cases "i < 64")
    case True
    then show ?thesis using bits [OF True] by (auto simp: bit_sint_iff)
  next
    case False
    then show ?thesis using bits [of 63] hi by (auto simp: bit_sint_iff dest: bit_imp_le_length)
  qed
qed

lemma ToInt64_correct:
  assumes wf: "bm_wf b"
  shows "- (2 ^ 63) \<le> sval b \<and> sval b < 2 ^ 63 \<Longrightarrow> \<exists>w. Bits_ToInt64 b = Inr w \<and> sint w = sval b"
    and "\<not> (- (2 ^ 63) \<le> sval b \<and> sval b < 2 ^ 63) \<Longrightarrow> Bits_ToInt64 b = Inl InvalidArgument"
proof -
  have fits: "Bits_FitsInInt64 b \<longleftrightarrow> - (2 ^ 63) \<le> sval b \<and> sval b < 2 ^ 63"
    using FitsInNBitsSigned_iff [OF wf, of 64] by (simp add: Bits_FitsInInt64_def)
  show "\<not> (- (2 ^ 63) \<le> sval b \<and> sval b < 2 ^ 63) \<Longrightarrow> Bits_ToInt64 b = Inl InvalidArgument"
    using fits by (simp add: Bits_ToInt64_def)
  assume r: "- (2 ^ 63) \<le> sval b \<and> sval b < 2 ^ 63"
  let ?w = "InlineBitmap_GetWord b 0" and ?n = "Bits_bit_count b"
  let ?v = "if Bits_msb b \<and> ?n < 64 then ?w OR push_bit ?n (- 1) else ?w"
  have "bit ?v i = bit (sval b) i" if "i < 64" for i
    using that GetWord_0_bit [OF wf that]
    by (auto simp: bit_sval bit_uval bit_or_iff bit_not_iff bit_mask_iff simp del: bm_bits_nth)
  with r have "sint ?v = sval b" by (rule sint_of_bits)
  then show "\<exists>w. Bits_ToInt64 b = Inr w \<and> sint w = sval b"
    using fits r by (auto simp: Bits_ToInt64_def Let_def)
qed

section \<open>Counting bits\<close>

lemma fold_count:
  "fold (\<lambda>i count. if test i then count + 1 else count) is k = k + length (filter test is)"
  for k :: nat
  by (induction "is" arbitrary: k) auto

lemma Bits_PopCount_eq: "Bits_PopCount b = length (filter id (bm_bits b))"
  by (simp add: Bits_PopCount_def fold_count bm_bits_def Bits_Get_def filter_map comp_def)

lemma first_index_correct:
  "first_index test n \<le> n \<and> (\<forall>i < first_index test n. \<not> test i) \<and>
   (first_index test n < n \<longrightarrow> test (first_index test n))"
proof (cases "find test [0..<n]")
  case None
  then have "first_index test n = n" by (simp add: first_index_def)
  with None show ?thesis by (auto simp: find_None_iff)
next
  case (Some i)
  then have "first_index test n = i" by (simp add: first_index_def)
  with Some show ?thesis by (auto simp: find_Some_iff)
qed

lemma CountLeadingZeros_bounds:
  fixes b :: Bits
  defines "n \<equiv> Bits_bit_count b" and "z \<equiv> Bits_CountLeadingZeros b"
  shows "z \<le> n \<and> uval b < 2 ^ (n - z) \<and> (z < n \<longrightarrow> 2 ^ (n - z - 1) \<le> uval b)"
proof -
  have z: "z \<le> n" "\<And>i. i < z \<Longrightarrow> \<not> Bits_Get b (n - 1 - i)" "z < n \<Longrightarrow> Bits_Get b (n - 1 - z)"
    using first_index_correct [of "\<lambda>i. Bits_Get b (n - 1 - i)" n]
    by (auto simp: n_def z_def Bits_CountLeadingZeros_def)
  have "\<not> bit (uval b) j" if "n - z \<le> j" for j
  proof (cases "j < n")
    case True
    then have "n - 1 - (n - 1 - j) = j" "n - 1 - j < z" using that z(1) by auto
    then show ?thesis using z(2) [of "n - 1 - j"] True by (simp add: n_def Bits_Get_bit)
  next
    case False
    then show ?thesis by (simp add: bit_uval n_def)
  qed
  moreover have "2 ^ (n - z - 1) \<le> uval b" if "z < n"
    using z(3) [OF that] that by (intro bit_nat_le) (simp add: n_def Bits_Get_bit)
  ultimately show ?thesis using z(1) by (simp add: nat_less_exp_iff_bits)
qed

lemma CountTrailingZeros_bounds:
  fixes b :: Bits
  defines "n \<equiv> Bits_bit_count b" and "z \<equiv> Bits_CountTrailingZeros b"
  shows "z \<le> n \<and> 2 ^ z dvd uval b \<and> (z < n \<longrightarrow> odd (uval b div 2 ^ z))"
proof -
  have z: "z \<le> n" "\<And>i. i < z \<Longrightarrow> \<not> Bits_Get b i" "z < n \<Longrightarrow> Bits_Get b z"
    using first_index_correct [of "\<lambda>i. Bits_Get b i" n]
    by (auto simp: n_def z_def Bits_CountTrailingZeros_def)
  have "take_bit z (uval b) = 0"
    by (rule bit_eqI) (use z in \<open>auto simp: bit_take_bit_iff n_def Bits_Get_bit\<close>)
  then have "2 ^ z dvd uval b" by (simp add: take_bit_eq_0_iff)
  moreover have "odd (uval b div 2 ^ z)" if "z < n"
    using z(3) [OF that] that by (simp add: n_def Bits_Get_bit bit_iff_odd)
  ultimately show ?thesis using z(1) by simp
qed

lemma CountTrailingZeros_all_iff: "Bits_CountTrailingZeros b = Bits_bit_count b \<longleftrightarrow> uval b = 0"
  using CountTrailingZeros_bounds [of b] uval_less [of b]
  by (auto simp: nat_dvd_not_less intro: ccontr dest: dvd_imp_le)

lemma CountLeadingZeros_all_iff: "Bits_CountLeadingZeros b = Bits_bit_count b \<longleftrightarrow> uval b = 0"
  using CountLeadingZeros_bounds [of b]
  by (cases "Bits_CountLeadingZeros b = Bits_bit_count b")
    (auto intro: less_le_trans [OF zero_less_power [of "2 :: nat"]])

text \<open>A run of set bits \<open>0* 1+ 0*\<close>; no \<open>CHECK\<close> of the function can fail.\<close>

definition single_run :: "bool list \<Rightarrow> nat \<times> nat \<times> nat \<Rightarrow> bool" where
  "single_run bs r = (case r of (lz, ones, tz) \<Rightarrow>
     0 < ones \<and> bs = replicate tz False @ replicate ones True @ replicate lz False)"

lemma single_run_nth:
  assumes "single_run bs (lz, ones, tz)"
  shows "length bs = tz + ones + lz" "i < length bs \<Longrightarrow> bs ! i \<longleftrightarrow> tz \<le> i \<and> i < tz + ones"
  using assms by (auto simp: single_run_def nth_append)

lemma HasSingleRunOfSetBits_correct:
  "(case Bits_HasSingleRunOfSetBits b of
      None \<Rightarrow> False
    | Some None \<Rightarrow> \<forall>r. \<not> single_run (bm_bits b) r
    | Some (Some r) \<Rightarrow> single_run (bm_bits b) r)"
proof -
  define n where "n = Bits_bit_count b"
  define lz where "lz = Bits_CountLeadingZeros b"
  define tz where "tz = Bits_CountTrailingZeros b"
  have lb: "lz \<le> n" "\<And>i. i < lz \<Longrightarrow> \<not> Bits_Get b (n - 1 - i)" "lz < n \<Longrightarrow> Bits_Get b (n - 1 - lz)"
    using first_index_correct [of "\<lambda>i. Bits_Get b (n - 1 - i)" n]
    by (auto simp: n_def lz_def Bits_CountLeadingZeros_def)
  have tb: "tz \<le> n" "\<And>i. i < tz \<Longrightarrow> \<not> Bits_Get b i" "tz < n \<Longrightarrow> Bits_Get b tz"
    using first_index_correct [of "\<lambda>i. Bits_Get b i" n]
    by (auto simp: n_def tz_def Bits_CountTrailingZeros_def)
  have get: "Bits_Get b i = bm_bits b ! i" if "i < n" for i using that by (simp add: n_def Bits_Get_nth)
  have ln: "length (bm_bits b) = n" by (simp add: n_def)
  show ?thesis
  proof (cases "tz = n")
    case True
    have lzn: "lz = n" using True
      by (metis CountLeadingZeros_all_iff CountTrailingZeros_all_iff n_def lz_def tz_def)
    have "\<not> single_run (bm_bits b) (l, Suc o', t)" for l o' t
    proof
      assume run: "single_run (bm_bits b) (l, Suc o', t)"
      then have "t < n" using single_run_nth(1) [OF run] ln by simp
      then show False using single_run_nth(2) [OF run, of t] tb(2) [of t] get True ln by simp
    qed
    moreover have "\<not> single_run (bm_bits b) (l, 0, t)" for l t by (simp add: single_run_def)
    ultimately have "\<not> single_run (bm_bits b) r" for r
      by (metis not0_implies_Suc prod_cases3)
    with True lzn show ?thesis
      by (simp add: Bits_HasSingleRunOfSetBits_def Let_def flip: n_def lz_def tz_def)
  next
    case False
    then have tn: "tz < n" using tb(1) by simp
    have "lz \<noteq> n" using False
      by (metis CountLeadingZeros_all_iff CountTrailingZeros_all_iff n_def lz_def tz_def)
    then have l: "lz < n" using lb(1) by simp
    have tl: "tz \<le> n - 1 - lz" using tb(2) [of "n - 1 - lz"] lb(3) [OF l] by (meson not_le)
    show ?thesis
    proof (cases "list_all (\<lambda>i. Bits_Get b i) [tz..<n - lz]")
      case True
      have "bm_bits b = replicate tz False @ replicate (n - lz - tz) True @ replicate lz False"
      proof (rule nth_equalityI)
        fix i
        assume i: "i < length (bm_bits b)"
        have "\<not> Bits_Get b i" if "n - lz \<le> i"
          using that i ln lb(2) [of "n - 1 - i"] l by (auto simp: n_def)
        then show "bm_bits b ! i = (replicate tz False @ replicate (n - lz - tz) True @ replicate lz False) ! i"
          using True tb(2) [of i] get [of i] i ln tl l
          by (auto simp: nth_append list_all_iff not_less)
      qed (use tl l ln in auto)
      then show ?thesis
        using True tn tl l
        by (simp add: Bits_HasSingleRunOfSetBits_def Let_def single_run_def nat_diff_distrib
            flip: n_def lz_def tz_def) linarith?
    next
      case no: False
      then obtain i where i: "tz \<le> i" "i < n - lz" "\<not> bm_bits b ! i"
        using get by (auto simp: list_all_iff)
      have "\<not> single_run (bm_bits b) (l', o', t')" for l' o' t'
      proof
        assume run: "single_run (bm_bits b) (l', o', t')"
        have "t' \<le> tz" using single_run_nth(2) [OF run, of tz] tb(3) [OF tn] get [OF tn] tn ln by simp
        moreover have "n - 1 - lz < t' + o'"
          using single_run_nth(2) [OF run, of "n - 1 - lz"] lb(3) [OF l] get [of "n - 1 - lz"] l ln by simp
        ultimately show False using single_run_nth(2) [OF run, of i] i ln by (simp add: n_def) linarith
      qed
      then show ?thesis
        using no tn by (auto simp: Bits_HasSingleRunOfSetBits_def Let_def simp flip: n_def lz_def tz_def)
    qed
  qed
qed

section \<open>Slices, ropes and bytes\<close>

lemma Slice_loop_bits:
  "width \<le> bm_count r \<Longrightarrow> bm_wf r \<Longrightarrow>
   bm_wf (fold (\<lambda>i r. if test i then InlineBitmap_Set r i True else r) [0..<width] r) \<and>
   bm_count (fold (\<lambda>i r. if test i then InlineBitmap_Set r i True else r) [0..<width] r) = bm_count r \<and>
   bm_bits (fold (\<lambda>i r. if test i then InlineBitmap_Set r i True else r) [0..<width] r) =
     map (\<lambda>i. i < width \<and> test i \<or> bm_bits r ! i) [0..<bm_count r]"
proof (induction width)
  case 0
  then show ?case by (auto intro!: nth_equalityI)
next
  case (Suc width)
  let ?f = "fold (\<lambda>i r. if test i then InlineBitmap_Set r i True else r) [0..<width] r"
  have IH: "bm_wf ?f" "bm_count ?f = bm_count r"
    "bm_bits ?f = map (\<lambda>i. i < width \<and> test i \<or> bm_bits r ! i) [0..<bm_count r]"
    using Suc by auto
  have "(bm_bits ?f)[width := True] = map (\<lambda>i. i < Suc width \<and> test i \<or> bm_bits r ! i) [0..<bm_count r]"
    if "test width"
    using that Suc.prems unfolding IH(3)
    by (intro nth_equalityI) (auto simp: nth_list_update less_Suc_eq simp del: bm_bits_nth)
  moreover have "bm_bits ?f = map (\<lambda>i. i < Suc width \<and> test i \<or> bm_bits r ! i) [0..<bm_count r]"
    if "\<not> test width"
    using that unfolding IH(3) by (auto simp: less_Suc_eq simp del: bm_bits_nth)
  ultimately show ?case using IH(1,2) Suc.prems by auto
qed

lemma Bits_Slice_correct:
  assumes "bm_wf b" "start + width \<le> Bits_bit_count b"
  shows "\<exists>r. Bits_Slice b start width = Some r \<and> bm_wf r \<and> Bits_bit_count r = width \<and>
    bm_bits r = take width (drop start (bm_bits b))"
proof (cases "start = 0")
  case True
  then show ?thesis using assms by (simp add: Bits_Slice_def WithSize_bits)
next
  case False
  let ?r = "fold (\<lambda>i r. if Bits_Get b (start + i) then InlineBitmap_Set r i True else r)
      [0..<width] (Bits_new width)"
  have "bm_bits ?r = take width (drop start (bm_bits b))"
    using Slice_loop_bits [of width "Bits_new width" "\<lambda>i. Bits_Get b (start + i)"] assms
    by (auto simp: Bits_Get_nth intro!: nth_equalityI)
  then show ?thesis
    using Slice_loop_bits [of width "Bits_new width" "\<lambda>i. Bits_Get b (start + i)"] assms False
    by (simp add: Bits_Slice_def)
qed

lemma Bits_Slice_None: "Bits_bit_count b < start + width \<Longrightarrow> Bits_Slice b start width = None"
  by (simp add: Bits_Slice_def)

text \<open>A rope holds the bits pushed so far, followed by zeros up to its size.\<close>

definition rope_holds :: "BitsRope \<Rightarrow> nat \<Rightarrow> bool list \<Rightarrow> bool" where
  "rope_holds r n bs \<longleftrightarrow> bm_wf (rope_bitmap r) \<and> rope_index r = length bs \<and> length bs \<le> n \<and>
     bm_bits (rope_bitmap r) = bs @ replicate (n - length bs) False"

lemma rope_holds_new: "rope_holds (BitsRope_new n) n []"
  by (simp add: rope_holds_def BitsRope_new_def)

lemma fold_update_append:
  "fold (\<lambda>i xs. xs[length bs + i := ys ! i]) [0..<k] (bs @ zs) =
     bs @ map (\<lambda>i. if i < k then ys ! i else zs ! i) [0..<length zs]"
proof (induction k)
  case 0
  show ?case by (simp add: map_nth)
next
  case (Suc k)
  then show ?case
    by (auto simp: list_update_append nth_list_update less_Suc_eq intro!: nth_equalityI)
qed

lemma fold_Set_offset_refines:
  assumes "bm_wf m" "off + k \<le> bm_count m"
  shows "bm_wf (fold (\<lambda>i m. InlineBitmap_Set m (off + i) (f i)) [0..<k] m) \<and>
    bm_bits (fold (\<lambda>i m. InlineBitmap_Set m (off + i) (f i)) [0..<k] m) =
      fold (\<lambda>i xs. xs[off + i := f i]) [0..<k] (bm_bits m) \<and>
    bm_count (fold (\<lambda>i m. InlineBitmap_Set m (off + i) (f i)) [0..<k] m) = bm_count m"
  using assms by (induction k) auto

lemma rope_holds_push_back:
  assumes "rope_holds r n bs" "length bs + Bits_bit_count b \<le> n"
  shows "rope_holds (BitsRope_push_back r b) n (bs @ bm_bits b)"
proof -
  let ?m = "rope_bitmap r"
  have r: "bm_wf ?m" "rope_index r = length bs" "bm_bits ?m = bs @ replicate (n - length bs) False"
    using assms(1) by (auto simp: rope_holds_def)
  have c: "bm_count ?m = n" using r(3) assms by (metis rope_holds_def length_append length_bm_bits
        length_replicate le_add_diff_inverse)
  have "fold (\<lambda>i m. InlineBitmap_Set m (length bs + i) (Bits_Get b i)) [0..<Bits_bit_count b] ?m =
      fold (\<lambda>i m. InlineBitmap_Set m (length bs + i) (bm_bits b ! i)) [0..<Bits_bit_count b] ?m"
    by (intro fold_cong) (auto simp: Bits_Get_def)
  moreover have "map (\<lambda>i. if i < Bits_bit_count b then bm_bits b ! i else replicate (n - length bs) False ! i)
      [0..<n - length bs] = bm_bits b @ replicate (n - length bs - Bits_bit_count b) False"
    using assms(2) by (intro nth_equalityI) (auto simp: nth_append simp del: bm_bits_nth)
  ultimately show ?thesis
    using fold_Set_offset_refines [OF r(1), of "length bs" "Bits_bit_count b" "(!) (bm_bits b)"]
      fold_update_append [of bs "bm_bits b" "Bits_bit_count b" "replicate (n - length bs) False"] r c assms(2)
    by (simp add: rope_holds_def BitsRope_push_back_def)
qed

lemma rope_holds_push_back_bit:
  assumes "rope_holds r n bs" "length bs < n"
  shows "rope_holds (BitsRope_push_back_bit r b) n (bs @ [b])"
proof -
  have c: "bm_count (rope_bitmap r) = n" using assms by (metis rope_holds_def length_append length_bm_bits
        length_replicate le_add_diff_inverse)
  obtain k where "n - length bs = Suc k" using assms(2) by (metis Suc_diff_Suc)
  then show ?thesis
    using assms c by (auto simp: rope_holds_def BitsRope_push_back_bit_def list_update_append)
qed

lemma BitsRope_Build_correct:
  "rope_holds r n bs \<Longrightarrow> length bs = n \<Longrightarrow>
   \<exists>b. BitsRope_Build r = Some b \<and> bm_wf b \<and> Bits_bit_count b = n \<and> bm_bits b = bs"
  using length_bm_bits [of "rope_bitmap r"]
  by (auto simp: rope_holds_def BitsRope_Build_def simp del: length_bm_bits)

text \<open>Bytes.\<close>

lemma length_ToBytes: "bm_wf b \<Longrightarrow> length (Bits_ToBytes b) = CeilOfRatio_nat (Bits_bit_count b) 8"
  by (simp add: Bits_ToBytes_def length_WriteBytesToBuffer InlineBitmap_byte_count_def)

lemma ToBytes_bit:
  "bm_wf b \<Longrightarrow> k < Bits_bit_count b \<Longrightarrow> bit (Bits_ToBytes b ! (k div 8)) (k mod 8) = bm_bits b ! k"
  using WriteBytesToBuffer_bits [of b "replicate (InlineBitmap_byte_count b) 0" k]
  by (simp add: Bits_ToBytes_def)

lemma FromBytes_correct:
  assumes "length bytes = CeilOfRatio_nat n 8"
  shows "\<exists>b. Bits_FromBytes bytes n = Some b \<and> bm_wf b \<and> Bits_bit_count b = n \<and>
    bm_bits b = map (\<lambda>k. bit (bytes ! (k div 8)) (k mod 8)) [0..<n]"
proof -
  obtain b where b: "InlineBitmap_FromBytes n bytes = Some b" "bm_wf b"
    "bm_bits b = map (\<lambda>k. bit (bytes ! (k div 8)) (k mod 8)) [0..<n]"
    using InlineBitmap_FromBytes_refines [OF assms] by blast
  moreover have "Bits_bit_count b = n" using length_bm_bits [of b] unfolding b(3) by simp
  ultimately show ?thesis by (simp add: Bits_FromBytes_def)
qed

lemma FromBytes_None: "length bytes \<noteq> CeilOfRatio_nat n 8 \<Longrightarrow> Bits_FromBytes bytes n = None"
  by (simp add: Bits_FromBytes_def InlineBitmap_FromBytes_def Let_def)

lemma FromBytes_ToBytes_id:
  assumes "bm_wf b"
  shows "Bits_FromBytes (Bits_ToBytes b) (Bits_bit_count b) = Some b"
proof -
  obtain c where c: "Bits_FromBytes (Bits_ToBytes b) (Bits_bit_count b) = Some c" "bm_wf c"
    "bm_bits c = map (\<lambda>k. bit (Bits_ToBytes b ! (k div 8)) (k mod 8)) [0..<Bits_bit_count b]"
    using FromBytes_correct [OF length_ToBytes [OF assms]] by blast
  then have "bm_bits c = bm_bits b"
    using assms by (auto simp: ToBytes_bit simp del: bm_bits_nth intro!: nth_equalityI)
  with c assms have "c = b" by (intro bm_eqI)
  with c show ?thesis by simp
qed

text \<open>The push buffer holds the most significant bit first; its bytes are filled from their top bit.\<close>

lemma FlattenTo_correct: "Bits_FlattenTo b buffer = buffer @ rev (bm_bits b)"
proof -
  have "fold (\<lambda>i buf. BitPushBuffer_PushBit buf (f i)) [0..<k] buffer = buffer @ map f [0..<k]" for f k
    by (induction k) (auto simp: BitPushBuffer_PushBit_def)
  moreover have "map (\<lambda>i. Bits_Get b (Bits_bit_count b - i - 1)) [0..<Bits_bit_count b] = rev (bm_bits b)"
    by (intro nth_equalityI) (auto simp: rev_nth Bits_Get_nth)
  ultimately show ?thesis by (simp add: Bits_FlattenTo_def)
qed

lemma GetUint8Data_loop:
  assumes "n \<le> length buffer"
  shows "length (fold (\<lambda>i res. res[i div 8 := res ! (i div 8) OR push_bit (7 - i mod 8) (of_bool (buffer ! i))])
       [0..<n] (replicate (CeilOfRatio_nat (length buffer) 8) (0::u8))) = CeilOfRatio_nat (length buffer) 8 \<and>
    (\<forall>q < CeilOfRatio_nat (length buffer) 8. \<forall>j < 8. bit (fold (\<lambda>i res. res[i div 8 := res ! (i div 8) OR push_bit (7 - i mod 8) (of_bool (buffer ! i))])
       [0..<n] (replicate (CeilOfRatio_nat (length buffer) 8) (0::u8)) ! q) (7 - j) \<longleftrightarrow> 8 * q + j < n \<and> buffer ! (8 * q + j))"
  using assms
proof (induction n)
  case (Suc n)
  let ?c = "CeilOfRatio_nat (length buffer) 8"
  let ?f = "fold (\<lambda>i res. res[i div 8 := res ! (i div 8) OR push_bit (7 - i mod 8) (of_bool (buffer ! i))])
       [0..<n] (replicate ?c (0::u8))"
  have IH: "length ?f = ?c" "\<And>q j. q < ?c \<Longrightarrow> j < 8 \<Longrightarrow> bit (?f ! q) (7 - j) \<longleftrightarrow> 8 * q + j < n \<and> buffer ! (8 * q + j)"
    using Suc by auto
  have nc: "n div 8 < ?c" using Suc.prems by (simp add: CeilOfRatio_nat_eq)
  have "bit (?f[n div 8 := ?f ! (n div 8) OR push_bit (7 - n mod 8) (of_bool (buffer ! n))] ! q) (7 - j)
      \<longleftrightarrow> 8 * q + j < Suc n \<and> buffer ! (8 * q + j)" if "q < ?c" "j < 8" for q j
  proof (cases "q = n div 8")
    case True
    have e: "7 - n mod 8 = 7 - j \<longleftrightarrow> j = n mod 8" using that(2) by (auto simp: less_Suc_eq_le)
    have "bit (push_bit (7 - n mod 8) (of_bool (buffer ! n)) :: u8) (7 - j) \<longleftrightarrow> j = n mod 8 \<and> buffer ! n"
      using that(2) e by (cases "buffer ! n") (auto simp: bit_exp_iff)
    moreover have "8 * q + j < Suc n \<and> buffer ! (8 * q + j) \<longleftrightarrow>
        (8 * q + j < n \<and> buffer ! (8 * q + j)) \<or> (j = n mod 8 \<and> buffer ! n)"
    proof -
      obtain r where n: "n = 8 * q + r" "n mod 8 = r" using True by (metis mult_div_mod_eq)
      show ?thesis unfolding n(2) unfolding n(1) by (auto simp: less_Suc_eq)
    qed
    ultimately show ?thesis using IH(2) [OF that] IH(1) nc True by (simp only: nth_list_update_eq bit_or_iff)
  next
    case False
    then have "n \<noteq> 8 * q + j" using that(2) by auto
    then show ?thesis using IH(2) [OF that] False by (auto simp: less_Suc_eq)
  qed
  then show ?case using IH(1) by simp
qed simp

lemma GetUint8Data_bits:
  "length (BitPushBuffer_GetUint8Data buffer) = BitPushBuffer_size_in_bytes buffer"
  "k < length buffer \<Longrightarrow> bit (BitPushBuffer_GetUint8Data buffer ! (k div 8)) (7 - k mod 8) = buffer ! k"
proof -
  show "length (BitPushBuffer_GetUint8Data buffer) = BitPushBuffer_size_in_bytes buffer"
    using GetUint8Data_loop [of "length buffer" buffer]
    by (simp add: BitPushBuffer_GetUint8Data_def BitPushBuffer_size_in_bytes_def)
  assume k: "k < length buffer"
  then have "k div 8 < CeilOfRatio_nat (length buffer) 8" by (simp add: CeilOfRatio_nat_eq)
  then have "bit (BitPushBuffer_GetUint8Data buffer ! (k div 8)) (7 - k mod 8) \<longleftrightarrow>
      8 * (k div 8) + k mod 8 < length buffer \<and> buffer ! (8 * (k div 8) + k mod 8)"
    using GetUint8Data_loop [of "length buffer" buffer] unfolding BitPushBuffer_GetUint8Data_def by simp
  then show "bit (BitPushBuffer_GetUint8Data buffer ! (k div 8)) (7 - k mod 8) = buffer ! k"
    using k by simp
qed

lemma MinSigned_MaxSigned_correct:
  assumes "0 < n"
  shows "\<exists>lo hi. Bits_MinSigned n = Some lo \<and> Bits_MaxSigned n = Some hi \<and> bm_wf lo \<and> bm_wf hi \<and>
    Bits_bit_count lo = n \<and> Bits_bit_count hi = n \<and> sval lo = - (2 ^ (n - 1)) \<and> sval hi = 2 ^ (n - 1) - 1"
proof -
  have last: "(replicate n x)[n - 1 := y] = replicate (n - 1) x @ [y]" for x y :: bool
    using assms by (cases n) (auto simp: replicate_append_same [symmetric] list_update_append)
  obtain m where n: "n = Suc m" using assms by (cases n) auto
  show ?thesis using last assms unfolding n
    by (simp add: Bits_MinSigned_def Bits_MaxSigned_def Bits_UpdateWithSet_def sval_def bl_to_int_def
        bl_to_nat_append)
qed

section \<open>The vector of a given width and value\<close>

text \<open>
  \<open>bits_of_nat n v\<close> is the one well-formed vector of \<open>n\<close> bits whose value is \<open>v\<close> modulo
  \<open>2 ^ n\<close>; the arithmetic operations are specified by equations with it.
\<close>

definition bits_of_nat :: "nat \<Rightarrow> nat \<Rightarrow> Bits" where
  "bits_of_nat n v = Bits_of_span (nat_to_bl n v)"

definition bits_of_int :: "nat \<Rightarrow> int \<Rightarrow> Bits" where
  "bits_of_int n v = bits_of_nat n (nat (v mod 2 ^ n))"

lemma bits_of_nat_simps [simp]:
  "bm_wf (bits_of_nat n v)" "bm_count (bits_of_nat n v) = n" "bm_bits (bits_of_nat n v) = nat_to_bl n v"
  "uval (bits_of_nat n v) = v mod 2 ^ n"
  by (simp_all add: bits_of_nat_def bl_to_nat_to_bl)

lemma bits_of_int_simps [simp]:
  "bm_wf (bits_of_int n v)" "bm_count (bits_of_int n v) = n"
  "uval (bits_of_int n v) = nat (v mod 2 ^ n)"
proof -
  have "v mod 2 ^ n < 2 ^ n" by simp
  then have "nat (v mod 2 ^ n) < 2 ^ n" by (simp add: nat_less_iff)
  then show "uval (bits_of_int n v) = nat (v mod 2 ^ n)" by (simp add: bits_of_int_def)
qed (simp_all add: bits_of_int_def)

lemma bits_of_natI: "bm_wf b \<Longrightarrow> Bits_bit_count b = n \<Longrightarrow> uval b = v mod 2 ^ n \<Longrightarrow> b = bits_of_nat n v"
  by (simp add: Bits_eq_iff_uval)

lemma bits_of_nat_uval: "bm_wf b \<Longrightarrow> bits_of_nat (Bits_bit_count b) (uval b) = b"
  by (metis bits_of_natI mod_less uval_less)

lemma sval_mod: "sval b mod 2 ^ Bits_bit_count b = int (uval b)"
  using bl_to_int_mod [of "bm_bits b"] by (simp add: sval_def uval_def)

lemma bits_of_intI:
  assumes "bm_wf b" "Bits_bit_count b = n" "int (uval b) = v mod 2 ^ n"
  shows "b = bits_of_int n v"
  using assms by (simp add: Bits_eq_iff_uval flip: assms(3))

lemma bits_of_int_sval: "bm_wf b \<Longrightarrow> bits_of_int (Bits_bit_count b) (sval b) = b"
  by (rule sym) (simp add: bits_of_intI sval_mod)

lemma bits_of_int_of_nat: "bits_of_int n (int v) = bits_of_nat n v"
  by (rule sym) (simp add: bits_of_intI zmod_int)

lemma bits_of_int_cong: "v mod 2 ^ n = w mod 2 ^ n \<Longrightarrow> bits_of_int n v = bits_of_int n w"
  by (simp add: bits_of_int_def)

lemma sval_bounds:
  assumes "0 < Bits_bit_count b"
  shows "- (2 ^ (Bits_bit_count b - 1)) \<le> sval b" "sval b < 2 ^ (Bits_bit_count b - 1)"
proof -
  have "bm_bits b \<noteq> []" using assms length_bm_bits [of b] by (metis list.size(3) not_less0)
  then show "- (2 ^ (Bits_bit_count b - 1)) \<le> sval b" "sval b < 2 ^ (Bits_bit_count b - 1)"
    using bl_to_int_bounds [of "bm_bits b"] by (simp_all add: sval_def)
qed

lemma sval_0_width: "Bits_bit_count b = 0 \<Longrightarrow> sval b = 0"
  using length_bm_bits [of b] by (simp add: sval_def del: length_bm_bits)

lemma int_eq_if_mod_eq:
  fixes x y :: int
  assumes "- (2 ^ m) \<le> x" "x < 2 ^ m" "- (2 ^ m) \<le> y" "y < 2 ^ m" "x mod 2 ^ Suc m = y mod 2 ^ Suc m"
  shows "x = y"
proof -
  have "2 ^ Suc m dvd x - y" using assms(5) by (simp add: mod_eq_dvd_iff)
  moreover have "\<bar>x - y\<bar> < 2 ^ Suc m" using assms(1-4) by simp
  ultimately show ?thesis by (metis abs_dvd_iff dvd_imp_le_int eq_iff_diff_eq_0 abs_of_nonneg dvd_abs_iff linorder_not_less zero_le_numeral zero_le_power)
qed

lemma sval_bits_of_int:
  assumes "- (2 ^ m) \<le> v" "v < 2 ^ m"
  shows "sval (bits_of_int (Suc m) v) = v"
proof (rule int_eq_if_mod_eq)
  show "sval (bits_of_int (Suc m) v) mod 2 ^ Suc m = v mod 2 ^ Suc m"
    using sval_mod [of "bits_of_int (Suc m) v"] by simp
qed (use sval_bounds [of "bits_of_int (Suc m) v"] assms in auto)

end
