(* ===== verification/Big_Int.thy ===== *)
theory Big_Int
  imports Bits_Core "HOL-Library.Monad_Syntax" "HOL-Library.Signed_Division"
begin

unbundle bit_operations_syntax

text \<open>
  Models \<open>xls/ir/big_int.h\<close> and \<open>xls/ir/big_int.cc\<close>: the class \<open>BigInt\<close>, which wraps
  OpenSSL's \<open>BIGNUM\<close>. That library is third-party code, so it is a parameter: a record of the
  functions the class calls, over a type \<open>'bn\<close> of numbers. \<open>bignum_spec B val\<close> states their
  documented behaviour through the integer \<open>val x\<close> a number stands for (and that no allocation
  fails). Under it the lemmas show that the conversions to and from \<open>Bits\<close> are exact and that the
  operations compute the integer operations they are named after; \<open>int_bignum\<close> shows that the
  hypothesis can hold.
\<close>

section \<open>The parameter: OpenSSL's big numbers\<close>

text \<open>A function whose status the code checks returns an option; \<open>None\<close> is the failure.\<close>

record 'bn bignum =
  BN_init :: 'bn
  BN_copy :: "'bn \<Rightarrow> 'bn option"
  BN_zero :: 'bn
  BN_one :: "'bn option"
  BN_bin2bn :: "u8 list \<Rightarrow> 'bn option"
  BN_bn2bin_padded :: "nat \<Rightarrow> 'bn \<Rightarrow> u8 list option"
  BN_num_bits :: "'bn \<Rightarrow> nat"
  BN_num_bytes :: "'bn \<Rightarrow> nat"
  BN_is_zero :: "'bn \<Rightarrow> bool"
  BN_is_negative :: "'bn \<Rightarrow> bool"
  BN_is_odd :: "'bn \<Rightarrow> bool"
  BN_set_negative :: "'bn \<Rightarrow> bool \<Rightarrow> 'bn"
  BN_cmp :: "'bn \<Rightarrow> 'bn \<Rightarrow> int"
  BN_add_word :: "'bn \<Rightarrow> u64 \<Rightarrow> 'bn option"
  BN_sub_word :: "'bn \<Rightarrow> u64 \<Rightarrow> 'bn option"
  BN_add :: "'bn \<Rightarrow> 'bn \<Rightarrow> 'bn option"
  BN_sub :: "'bn \<Rightarrow> 'bn \<Rightarrow> 'bn option"
  BN_mul :: "'bn \<Rightarrow> 'bn \<Rightarrow> 'bn option"
  BN_div :: "'bn \<Rightarrow> 'bn \<Rightarrow> ('bn \<times> 'bn) option"
  BN_lshift :: "'bn \<Rightarrow> nat \<Rightarrow> 'bn option"
  BN_bn2dec :: "'bn \<Rightarrow> string option"
  BN_bn2hex :: "'bn \<Rightarrow> string option"

section \<open>The class\<close>

definition BigInt_eq :: "'bn bignum \<Rightarrow> 'bn \<Rightarrow> 'bn \<Rightarrow> bool" where
  "BigInt_eq B x y \<longleftrightarrow> BN_cmp B x y = 0"

definition BigInt_MakeUnsigned :: "'bn bignum \<Rightarrow> Bits \<Rightarrow> 'bn option" where
  "BigInt_MakeUnsigned B bits = BN_bin2bn B (rev (Bits_ToBytes bits))"

definition BigInt_MakeSigned :: "'bn bignum \<Rightarrow> Bits \<Rightarrow> 'bn option" where
  "BigInt_MakeSigned B bits =
     (if Bits_bit_count bits = 0 \<or> \<not> Bits_msb bits then BigInt_MakeUnsigned B bits
      else
        let byte_vector = map NOT (rev (Bits_ToBytes bits));
            bits_in_msb = Bits_bit_count bits mod 8;
            byte_vector = (if bits_in_msb \<noteq> 0
                           then byte_vector[0 := byte_vector ! 0 AND ucast (Mask bits_in_msb)]
                           else byte_vector)
        in do {
          x \<leftarrow> BN_bin2bn B byte_vector;
          x \<leftarrow> BN_add_word B x 1;
          Some (BN_set_negative B x True)
        })"

definition BigInt_Zero :: "'bn bignum \<Rightarrow> 'bn" where
  "BigInt_Zero B = BN_zero B"

definition BigInt_One :: "'bn bignum \<Rightarrow> 'bn option" where
  "BigInt_One B = BN_one B"

definition BigInt_Negate :: "'bn bignum \<Rightarrow> 'bn \<Rightarrow> 'bn option" where
  "BigInt_Negate B input = do {
     x \<leftarrow> BN_copy B input;
     Some (BN_set_negative B x (\<not> BN_is_negative B x))
   }"

definition BigInt_Absolute :: "'bn bignum \<Rightarrow> 'bn \<Rightarrow> 'bn option" where
  "BigInt_Absolute B input = do {
     r \<leftarrow> BN_copy B input;
     Some (BN_set_negative B r False)
   }"

definition BigInt_SignedBitCount :: "'bn bignum \<Rightarrow> 'bn \<Rightarrow> nat option" where
  "BigInt_SignedBitCount B x =
     (if BN_is_zero B x then Some 0
      else if BN_is_negative B x then do {
        magnitude \<leftarrow> BigInt_Negate B x;
        magnitude \<leftarrow> BN_sub_word B magnitude 1;
        Some (BN_num_bits B magnitude + 1)
      }
      else Some (BN_num_bits B x + 1))"

definition BigInt_UnsignedBitCount :: "'bn bignum \<Rightarrow> 'bn \<Rightarrow> nat option" where
  "BigInt_UnsignedBitCount B x = (if BN_is_negative B x then None else Some (BN_num_bits B x))"

definition BigInt_ToSignedBits :: "'bn bignum \<Rightarrow> 'bn \<Rightarrow> Bits option" where
  "BigInt_ToSignedBits B x =
     (if BN_is_zero B x then Some (Bits_new 0)
      else
        let is_negative = BN_is_negative B x
        in do {
          d \<leftarrow> BN_copy B x;
          let d = BN_set_negative B d False;
          d \<leftarrow> (if is_negative then BN_sub_word B d 1 else Some d);
          byte_vector \<leftarrow> BN_bn2bin_padded B (BN_num_bytes B d) d;
          let byte_vector = (if is_negative then map NOT byte_vector else byte_vector);
          result_bit_count \<leftarrow> BigInt_SignedBitCount B x;
          lo \<leftarrow> Bits_FromBytes (rev byte_vector) (result_bit_count - 1);
          let rope = BitsRope_push_back (BitsRope_new result_bit_count) lo;
          BitsRope_Build (BitsRope_push_back rope (if is_negative then Bits_AllOnes 1 else Bits_new 1))
        })"

definition BigInt_ToUnsignedBits :: "'bn bignum \<Rightarrow> 'bn \<Rightarrow> Bits option" where
  "BigInt_ToUnsignedBits B x =
     (if BN_is_negative B x then None
      else do {
        byte_vector \<leftarrow> BN_bn2bin_padded B (BN_num_bytes B x) x;
        Bits_FromBytes (rev byte_vector) (BN_num_bits B x)
      })"

definition BigInt_ToDecimalString :: "'bn bignum \<Rightarrow> 'bn \<Rightarrow> string option" where
  "BigInt_ToDecimalString B x = BN_bn2dec B x"

definition BigInt_ToHexString :: "'bn bignum \<Rightarrow> 'bn \<Rightarrow> string option" where
  "BigInt_ToHexString B x = BN_bn2hex B x"

definition BigInt_ToSignedBitsWithBitCount ::
    "'bn bignum \<Rightarrow> 'bn \<Rightarrow> nat \<Rightarrow> (status_code + Bits) option" where
  "BigInt_ToSignedBitsWithBitCount B x bit_count = do {
     min_bit_count \<leftarrow> BigInt_SignedBitCount B x;
     if bit_count < min_bit_count then Some (Inl InvalidArgument)
     else do {
       bits \<leftarrow> BigInt_ToSignedBits B x;
       let rope = BitsRope_push_back (BitsRope_new bit_count) bits;
       r \<leftarrow> BitsRope_Build (BitsRope_push_back rope
              (if BN_is_negative B x then Bits_AllOnes (bit_count - min_bit_count)
               else Bits_new (bit_count - min_bit_count)));
       Some (Inr r)
     }
   }"

definition BigInt_ToUnsignedBitsWithBitCount ::
    "'bn bignum \<Rightarrow> 'bn \<Rightarrow> nat \<Rightarrow> (status_code + Bits) option" where
  "BigInt_ToUnsignedBitsWithBitCount B x bit_count = do {
     min_bit_count \<leftarrow> BigInt_UnsignedBitCount B x;
     if bit_count < min_bit_count then Some (Inl InvalidArgument)
     else do {
       bits \<leftarrow> BigInt_ToUnsignedBits B x;
       let rope = BitsRope_push_back (BitsRope_new bit_count) bits;
       r \<leftarrow> BitsRope_Build (BitsRope_push_back rope (Bits_new (bit_count - min_bit_count)));
       Some (Inr r)
     }
   }"

definition BigInt_Add :: "'bn bignum \<Rightarrow> 'bn \<Rightarrow> 'bn \<Rightarrow> 'bn option" where
  "BigInt_Add B lhs rhs = BN_add B lhs rhs"

definition BigInt_Sub :: "'bn bignum \<Rightarrow> 'bn \<Rightarrow> 'bn \<Rightarrow> 'bn option" where
  "BigInt_Sub B lhs rhs = BN_sub B lhs rhs"

definition BigInt_Mul :: "'bn bignum \<Rightarrow> 'bn \<Rightarrow> 'bn \<Rightarrow> 'bn option" where
  "BigInt_Mul B lhs rhs = BN_mul B lhs rhs"

definition BigInt_Div :: "'bn bignum \<Rightarrow> 'bn \<Rightarrow> 'bn \<Rightarrow> 'bn option" where
  "BigInt_Div B lhs rhs = map_option fst (BN_div B lhs rhs)"

definition BigInt_Mod :: "'bn bignum \<Rightarrow> 'bn \<Rightarrow> 'bn \<Rightarrow> 'bn option" where
  "BigInt_Mod B lhs rhs = map_option snd (BN_div B lhs rhs)"

text \<open>The status of \<open>BN_lshift\<close> is not checked: on a failure the result is the initial value.\<close>

definition BigInt_Exp2 :: "'bn bignum \<Rightarrow> int \<Rightarrow> 'bn option" where
  "BigInt_Exp2 B e =
     (if e < 0 then None
      else do {
        one \<leftarrow> BigInt_One B;
        if e = 0 then Some one
        else if e > 2 ^ 31 - 1 then None
        else Some (case BN_lshift B one (nat e) of None \<Rightarrow> BN_init B | Some v \<Rightarrow> v)
      })"

definition BigInt_LessThan :: "'bn bignum \<Rightarrow> 'bn \<Rightarrow> 'bn \<Rightarrow> bool" where
  "BigInt_LessThan B lhs rhs \<longleftrightarrow> BN_cmp B lhs rhs < 0"

definition BigInt_GreaterThan :: "'bn bignum \<Rightarrow> 'bn \<Rightarrow> 'bn \<Rightarrow> bool" where
  "BigInt_GreaterThan B lhs rhs \<longleftrightarrow> BN_cmp B lhs rhs > 0"

definition BigInt_le :: "'bn bignum \<Rightarrow> 'bn \<Rightarrow> 'bn \<Rightarrow> bool" where
  "BigInt_le B lhs rhs \<longleftrightarrow> BN_cmp B lhs rhs \<le> 0"

definition BigInt_ge :: "'bn bignum \<Rightarrow> 'bn \<Rightarrow> 'bn \<Rightarrow> bool" where
  "BigInt_ge B lhs rhs \<longleftrightarrow> BN_cmp B lhs rhs \<ge> 0"

definition BigInt_IsEven :: "'bn bignum \<Rightarrow> 'bn \<Rightarrow> bool" where
  "BigInt_IsEven B input \<longleftrightarrow> \<not> BN_is_odd B input"

definition BigInt_IsPowerOfTwo :: "'bn bignum \<Rightarrow> 'bn \<Rightarrow> bool option" where
  "BigInt_IsPowerOfTwo B input = do {
     one \<leftarrow> BigInt_One B;
     if BigInt_LessThan B input one then Some False
     else do {
       e \<leftarrow> BigInt_Exp2 B (int (BN_num_bits B input) - 1);
       Some (BigInt_eq B e input)
     }
   }"

definition BigInt_CeilingLog2 :: "'bn bignum \<Rightarrow> 'bn \<Rightarrow> int option" where
  "BigInt_CeilingLog2 B input =
     (if BN_is_negative B input then None
      else if BigInt_eq B input (BigInt_Zero B) then Some (- (2 ^ 63))
      else do {
        one \<leftarrow> BigInt_One B;
        if BigInt_eq B input one then Some 0
        else do {
          let num_significant_bits = int (BN_num_bits B input);
          e \<leftarrow> BigInt_Exp2 B (num_significant_bits - 1);
          Some (if BigInt_eq B e input then num_significant_bits - 1 else num_significant_bits)
        }
      })"

partial_function (option) BigInt_FactorizePowerOfTwo_loop ::
    "'bn bignum \<Rightarrow> 'bn \<Rightarrow> 'bn \<Rightarrow> 'bn \<Rightarrow> nat \<Rightarrow> ('bn \<times> nat) option" where
  "BigInt_FactorizePowerOfTwo_loop B zero two x pow =
     (if BigInt_IsEven B x \<and> \<not> BigInt_eq B x zero then do {
        x \<leftarrow> BigInt_Div B x two;
        BigInt_FactorizePowerOfTwo_loop B zero two x (pow + 1)
      }
      else Some (x, pow))"

definition BigInt_FactorizePowerOfTwo :: "'bn bignum \<Rightarrow> 'bn \<Rightarrow> ('bn \<times> nat) option" where
  "BigInt_FactorizePowerOfTwo B input = do {
     let zero = BigInt_Zero B;
     two \<leftarrow> BigInt_Exp2 B 1;
     x \<leftarrow> BN_copy B input;
     BigInt_FactorizePowerOfTwo_loop B zero two x 0
   }"

definition BigInt_output :: "'bn bignum \<Rightarrow> 'bn \<Rightarrow> string option" where
  "BigInt_output B x =
     (if BigInt_LessThan B x (BN_init B) then do {
        n \<leftarrow> BigInt_Negate B x;
        b \<leftarrow> BigInt_ToUnsignedBits B n;
        Some (''-'' @ Bits_ToDebugString b)
      }
      else do {
        b \<leftarrow> BigInt_ToUnsignedBits B x;
        Some (Bits_ToDebugString b)
      })"

section \<open>The documented behaviour\<close>

fun bit_length :: "nat \<Rightarrow> nat" where
  "bit_length v = (if v = 0 then 0 else Suc (bit_length (v div 2)))"

text \<open>The width a two's complement number needs.\<close>

definition signed_bit_length :: "int \<Rightarrow> nat" where
  "signed_bit_length v = (if v = 0 then 0 else bit_length (nat (if v < 0 then - v - 1 else v)) + 1)"

definition le_bytes_val :: "u8 list \<Rightarrow> nat" where
  "le_bytes_val bytes = horner_sum unat (2 ^ 8) bytes"

fun dec_digits :: "nat \<Rightarrow> string" where
  "dec_digits v = (if v < 10 then [char_of (48 + v)] else dec_digits (v div 10) @ [char_of (48 + v mod 10)])"

definition dec_string :: "int \<Rightarrow> string" where
  "dec_string v = (if v < 0 then ''-'' else []) @ dec_digits (nat \<bar>v\<bar>)"

definition bignum_spec :: "'bn bignum \<Rightarrow> ('bn \<Rightarrow> int) \<Rightarrow> bool" where
  "bignum_spec B val \<longleftrightarrow>
     val (BN_init B) = 0 \<and> val (BN_zero B) = 0 \<and> (\<exists>x. BN_one B = Some x \<and> val x = 1) \<and>
     (\<forall>x. \<exists>y. BN_copy B x = Some y \<and> val y = val x) \<and>
     (\<forall>bytes. \<exists>y. BN_bin2bn B bytes = Some y \<and> val y = int (le_bytes_val (rev bytes))) \<and>
     (\<forall>len x. nat \<bar>val x\<bar> < 2 ^ (8 * len) \<longrightarrow>
        (\<exists>bytes. BN_bn2bin_padded B len x = Some bytes \<and> length bytes = len \<and>
                 le_bytes_val (rev bytes) = nat \<bar>val x\<bar>)) \<and>
     (\<forall>x. BN_num_bits B x = bit_length (nat \<bar>val x\<bar>)) \<and>
     (\<forall>x. BN_num_bytes B x = (BN_num_bits B x + 7) div 8) \<and>
     (\<forall>x. BN_is_zero B x \<longleftrightarrow> val x = 0) \<and>
     (\<forall>x. BN_is_negative B x \<longleftrightarrow> val x < 0) \<and>
     (\<forall>x. BN_is_odd B x \<longleftrightarrow> odd (val x)) \<and>
     (\<forall>x neg. val (BN_set_negative B x neg) = (if neg then - \<bar>val x\<bar> else \<bar>val x\<bar>)) \<and>
     (\<forall>x y. sgn (BN_cmp B x y) = sgn (val x - val y)) \<and>
     (\<forall>x w. \<exists>y. BN_add_word B x w = Some y \<and> val y = val x + uint w) \<and>
     (\<forall>x w. \<exists>y. BN_sub_word B x w = Some y \<and> val y = val x - uint w) \<and>
     (\<forall>x y. \<exists>z. BN_add B x y = Some z \<and> val z = val x + val y) \<and>
     (\<forall>x y. \<exists>z. BN_sub B x y = Some z \<and> val z = val x - val y) \<and>
     (\<forall>x y. \<exists>z. BN_mul B x y = Some z \<and> val z = val x * val y) \<and>
     (\<forall>x y. val y \<noteq> 0 \<longrightarrow> (\<exists>q r. BN_div B x y = Some (q, r) \<and> val q = val x sdiv val y \<and> val r = val x smod val y)) \<and>
     (\<forall>x y. val y = 0 \<longrightarrow> BN_div B x y = None) \<and>
     (\<forall>x n. \<exists>y. BN_lshift B x n = Some y \<and> val y = val x * 2 ^ n) \<and>
     (\<forall>x. BN_bn2dec B x = Some (dec_string (val x)))"

declare bit_length.simps [simp del] dec_digits.simps [simp del]

text \<open>An instance over the integers, which shows that the behaviour is consistent.\<close>

definition be_bytes_of :: "nat \<Rightarrow> nat \<Rightarrow> u8 list" where
  "be_bytes_of len v = rev (map (\<lambda>i. of_nat (drop_bit (8 * i) v)) [0..<len])"

definition int_bignum :: "int bignum" where
  "int_bignum =
     \<lparr>BN_init = 0, BN_copy = Some, BN_zero = 0, BN_one = Some 1,
      BN_bin2bn = (\<lambda>bytes. Some (int (le_bytes_val (rev bytes)))),
      BN_bn2bin_padded = (\<lambda>len x. if nat \<bar>x\<bar> < 2 ^ (8 * len) then Some (be_bytes_of len (nat \<bar>x\<bar>)) else None),
      BN_num_bits = (\<lambda>x. bit_length (nat \<bar>x\<bar>)),
      BN_num_bytes = (\<lambda>x. (bit_length (nat \<bar>x\<bar>) + 7) div 8),
      BN_is_zero = (\<lambda>x. x = 0), BN_is_negative = (\<lambda>x. x < 0), BN_is_odd = odd,
      BN_set_negative = (\<lambda>x neg. if neg then - \<bar>x\<bar> else \<bar>x\<bar>),
      BN_cmp = (\<lambda>x y. sgn (x - y)),
      BN_add_word = (\<lambda>x w. Some (x + uint w)), BN_sub_word = (\<lambda>x w. Some (x - uint w)),
      BN_add = (\<lambda>x y. Some (x + y)), BN_sub = (\<lambda>x y. Some (x - y)), BN_mul = (\<lambda>x y. Some (x * y)),
      BN_div = (\<lambda>x y. if y = 0 then None else Some (x sdiv y, x smod y)),
      BN_lshift = (\<lambda>x n. Some (x * 2 ^ n)),
      BN_bn2dec = (\<lambda>x. Some (dec_string x)),
      BN_bn2hex = (\<lambda>x. Some (dec_string x))\<rparr>"

section \<open>Bytes and bit lengths\<close>

lemma le_bytes_val_simps [simp]:
  "le_bytes_val [] = 0" "le_bytes_val (w # ws) = unat w + 2 ^ 8 * le_bytes_val ws"
  by (simp_all add: le_bytes_val_def)

lemma bit_le_bytes_val:
  "bit (le_bytes_val bs) k \<longleftrightarrow> k div 8 < length bs \<and> bit (bs ! (k div 8)) (k mod 8)"
proof (induction bs arbitrary: k)
  case Nil
  show ?case by simp
next
  case (Cons w ws)
  have u: "unat w < 2 ^ 8" using unsigned_less [of w] by simp
  show ?case
  proof (cases "k < 8")
    case True
    then show ?thesis
      using bit_add_shifted [OF u, of "le_bytes_val ws" k] by (simp add: bit_unsigned_iff)
  next
    case False
    then have "k div 8 = Suc ((k - 8) div 8)" "k mod 8 = (k - 8) mod 8"
      by (auto simp: le_div_geq le_mod_geq)
    with False show ?thesis
      using bit_add_shifted [OF u, of "le_bytes_val ws" k] Cons.IH [of "k - 8"] by auto
  qed
qed

lemma bit_of_nat_word_iff: "bit (of_nat v :: 'a::len word) k \<longleftrightarrow> k < LENGTH('a) \<and> bit v k"
  by transfer (simp add: bit_take_bit_iff bit_of_nat_iff)

lemma le_bytes_val_be_bytes_of:
  assumes "v < 2 ^ (8 * len)"
  shows "le_bytes_val (rev (be_bytes_of len v)) = v"
proof (rule bit_eqI)
  fix k
  have "8 * (k div 8) + k mod 8 = k" for k :: nat by simp
  moreover have "\<not> bit v k" if "\<not> k div 8 < len"
    using assms that by (auto simp: nat_less_exp_iff_bits)
  ultimately show "bit (le_bytes_val (rev (be_bytes_of len v))) k \<longleftrightarrow> bit v k"
    by (cases "k div 8 < len")
      (simp_all add: bit_le_bytes_val be_bytes_of_def bit_of_nat_word_iff bit_drop_bit_eq)
qed

lemma int_bignum_spec: "bignum_spec int_bignum id"
  unfolding bignum_spec_def int_bignum_def
  by (auto simp: le_bytes_val_be_bytes_of be_bytes_of_def [of _ "nat _", THEN arg_cong [of _ _ length]])

lemma bit_length_le: "bit_length v \<le> n \<longleftrightarrow> v < 2 ^ n"
proof (induction v arbitrary: n rule: bit_length.induct)
  case (1 v)
  then show ?case by (cases n) (auto simp: bit_length.simps [of v] div_less_iff_less_mult mult.commute)
qed

lemma bit_length_bounds: "v < 2 ^ bit_length v" "v \<noteq> 0 \<Longrightarrow> 2 ^ (bit_length v - 1) \<le> v"
  using bit_length_le [of v "bit_length v"] bit_length_le [of v "bit_length v - 1"]
  by (cases "bit_length v"; auto simp: bit_length.simps [of v] not_less)+

lemma signed_bit_length_le:
  "signed_bit_length v \<le> Suc m \<longleftrightarrow> - (2 ^ m) \<le> v \<and> v < 2 ^ m"
proof -
  have "nat (if v < 0 then - v - 1 else v) < 2 ^ m \<longleftrightarrow> - (2 ^ m) \<le> v \<and> v < 2 ^ m"
    by (auto simp: nat_less_iff)
  then show ?thesis
    by (auto simp: signed_bit_length_def bit_length_le)
qed

lemma ToBytes_bit_iff:
  assumes "bm_wf b" "k div 8 < length (Bits_ToBytes b)"
  shows "bit (Bits_ToBytes b ! (k div 8)) (k mod 8) \<longleftrightarrow> k < Bits_bit_count b \<and> bm_bits b ! k"
proof -
  have k: "k div 8 < CeilOfRatio_nat (Bits_bit_count b) 8" using assms by (simp add: length_ToBytes)
  then have "k div 8 < 8 * length (bm_data b)"
    using byte_count_le [of "Bits_bit_count b"] bm_wf_length [OF assms(1)] by simp
  moreover have "8 * (k div 8) + k mod 8 = k" by simp
  ultimately show ?thesis
    using k bit_word_image [of "k div 8" "bm_data b" "k mod 8"] bit_words_bm [OF assms(1), of k]
    by (simp add: Bits_ToBytes_def InlineBitmap_WriteBytesToBuffer_def InlineBitmap_byte_count_def Let_def
        del: bm_bits_nth)
qed

lemma le_bytes_val_ToBytes:
  assumes "bm_wf b"
  shows "le_bytes_val (Bits_ToBytes b) = uval b"
proof (rule bit_eqI)
  fix k
  show "bit (le_bytes_val (Bits_ToBytes b)) k \<longleftrightarrow> bit (uval b) k"
    using ToBytes_bit_iff [OF assms, of k]
    by (auto simp: bit_le_bytes_val bit_uval length_ToBytes [OF assms] CeilOfRatio_nat_eq simp del: bm_bits_nth)
qed

section \<open>The conversions are exact\<close>

lemma bm_bits_eq_Nil: "bm_bits b = [] \<longleftrightarrow> bm_count b = 0"
  by (metis length_0_conv length_bm_bits)

text \<open>The documented facts, one rule each.\<close>

lemma bignumD:
  assumes "bignum_spec B val"
  shows "val (BN_init B) = 0" "val (BN_zero B) = 0" "\<exists>x. BN_one B = Some x \<and> val x = 1"
    "\<exists>y. BN_copy B x = Some y \<and> val y = val x"
    "\<exists>y. BN_bin2bn B bytes = Some y \<and> val y = int (le_bytes_val (rev bytes))"
    "nat \<bar>val x\<bar> < 2 ^ (8 * len) \<Longrightarrow> \<exists>bytes. BN_bn2bin_padded B len x = Some bytes \<and>
       length bytes = len \<and> le_bytes_val (rev bytes) = nat \<bar>val x\<bar>"
    "BN_num_bits B x = bit_length (nat \<bar>val x\<bar>)"
    "BN_num_bytes B x = (BN_num_bits B x + 7) div 8"
    "BN_is_zero B x \<longleftrightarrow> val x = 0" "BN_is_negative B x \<longleftrightarrow> val x < 0" "BN_is_odd B x \<longleftrightarrow> odd (val x)"
    "val (BN_set_negative B x neg) = (if neg then - \<bar>val x\<bar> else \<bar>val x\<bar>)"
    "sgn (BN_cmp B x y) = sgn (val x - val y)"
    "\<exists>y. BN_add_word B x w = Some y \<and> val y = val x + uint w"
    "\<exists>y. BN_sub_word B x w = Some y \<and> val y = val x - uint w"
    "\<exists>z. BN_add B x y = Some z \<and> val z = val x + val y"
    "\<exists>z. BN_sub B x y = Some z \<and> val z = val x - val y"
    "\<exists>z. BN_mul B x y = Some z \<and> val z = val x * val y"
    "val y \<noteq> 0 \<Longrightarrow> \<exists>q r. BN_div B x y = Some (q, r) \<and> val q = val x sdiv val y \<and> val r = val x smod val y"
    "val y = 0 \<Longrightarrow> BN_div B x y = None"
    "\<exists>y. BN_lshift B x n = Some y \<and> val y = val x * 2 ^ n"
    "BN_bn2dec B x = Some (dec_string (val x))"
  using assms unfolding bignum_spec_def by simp_all

lemma BN_cmp_sign:
  assumes "bignum_spec B val"
  shows "BN_cmp B x y = 0 \<longleftrightarrow> val x = val y" "BN_cmp B x y < 0 \<longleftrightarrow> val x < val y"
    "BN_cmp B x y > 0 \<longleftrightarrow> val x > val y" "BN_cmp B x y \<le> 0 \<longleftrightarrow> val x \<le> val y"
    "BN_cmp B x y \<ge> 0 \<longleftrightarrow> val x \<ge> val y"
  using bignumD(13) [OF assms, of x y] by (auto simp: sgn_if split: if_splits)

lemmas bignum_tests = bignumD(9-11) BN_cmp_sign

lemma MakeUnsigned_val:
  assumes "bignum_spec B val" "bm_wf b"
  shows "\<exists>x. BigInt_MakeUnsigned B b = Some x \<and> val x = int (uval b)"
  using bignumD(5) [OF assms(1), of "rev (Bits_ToBytes b)"]
  by (simp add: BigInt_MakeUnsigned_def le_bytes_val_ToBytes assms)

lemma not_mask_value:
  fixes m :: nat
  assumes "\<And>k. bit m k \<longleftrightarrow> k < n \<and> \<not> bit v k" "v < 2 ^ n"
  shows "m = 2 ^ n - 1 - v"
proof -
  have "m + v = m OR v" by (rule disjunctive_add) (use assms in auto)
  also have "\<dots> = mask n"
    using assms by (intro bit_eqI) (auto simp: bit_or_iff bit_mask_iff nat_less_exp_iff_bits not_le)
  finally show ?thesis by (simp add: mask_eq_exp_minus_1)
qed

lemma round_up_8:
  assumes "n mod 8 \<noteq> 0"
  shows "CeilOfRatio_nat n 8 = Suc (n div 8)"
proof -
  define q r where "q = n div 8" and "r = n mod 8"
  then have n: "n = 8 * q + r" "r < 8" "0 < r" using assms by simp_all
  then have "(n + 7) div 8 = Suc q" by (intro div_nat_eqI) simp_all
  then have "(n + 7) div 8 = Suc (n div 8)" by (simp add: q_def)
  then show ?thesis by (simp add: CeilOfRatio_nat_eq add.commute)
qed

lemma MakeSigned_val:
  assumes "bignum_spec B val" "bm_wf b"
  shows "\<exists>x. BigInt_MakeSigned B b = Some x \<and> val x = sval b"
proof (cases "Bits_bit_count b = 0 \<or> \<not> Bits_msb b")
  case True
  then have "sval b = int (uval b)" by (auto simp: sval_def uval_def bl_to_int_def Bits_msb_last bm_bits_eq_Nil)
  with True MakeUnsigned_val [OF assms] show ?thesis by (simp add: BigInt_MakeSigned_def)
next
  case False
  define n where "n = Bits_bit_count b"
  let ?t = "Bits_ToBytes b"
  define bytes where "bytes = (if n mod 8 \<noteq> 0
     then (map NOT (rev ?t))[0 := map NOT (rev ?t) ! 0 AND ucast (Mask (n mod 8))] else map NOT (rev ?t))"
  have lt: "length ?t = CeilOfRatio_nat n 8" by (simp add: length_ToBytes assms n_def)
  have n0: "0 < n" using False by (simp add: n_def)
  then have l0: "?t \<noteq> []" using lt by (auto simp: CeilOfRatio_nat_eq)
  have rb: "rev bytes = (if n mod 8 \<noteq> 0
     then (map NOT ?t)[length ?t - 1 := NOT (last ?t) AND ucast (Mask (n mod 8))] else map NOT ?t)"
    using l0 by (simp add: bytes_def rev_update rev_map hd_rev hd_map flip: hd_conv_nth)
  have "bit (le_bytes_val (rev bytes)) k \<longleftrightarrow> k < n \<and> \<not> bit (uval b) k" for k
  proof (cases "k div 8 < length ?t")
    case True
    have b: "bit (?t ! (k div 8)) (k mod 8) \<longleftrightarrow> k < n \<and> bit (uval b) k"
      using ToBytes_bit_iff [OF assms(2) True] by (auto simp: n_def bit_uval)
    show ?thesis
    proof (cases "n mod 8 \<noteq> 0 \<and> k div 8 = length ?t - 1")
      case tail: True
      have "length ?t - 1 = n div 8" using tail lt by (simp add: round_up_8)
      then have "k < n \<longleftrightarrow> k mod 8 < n mod 8"
        using tail mult_div_mod_eq [of 8 n] mult_div_mod_eq [of 8 k] by linarith
      then show ?thesis using tail True b l0
        by (simp add: bit_le_bytes_val rb last_conv_nth bit_and_iff bit_not_iff bit_ucast_iff bit_Mask) blast
    next
      case inner: False
      have "k < n" using inner True lt by (auto simp: CeilOfRatio_nat_eq)
      then show ?thesis using inner True b
        by (auto simp: bit_le_bytes_val rb bit_not_iff)
    qed
  next
    case False
    then show ?thesis using lt by (auto simp: bit_le_bytes_val rb CeilOfRatio_nat_eq)
  qed
  then have "le_bytes_val (rev bytes) = 2 ^ n - 1 - uval b"
    by (rule not_mask_value) (simp add: uval_less n_def)
  moreover have "sval b = int (uval b) - 2 ^ n"
    using False by (auto simp: sval_def uval_def bl_to_int_def Bits_msb_last n_def bm_bits_eq_Nil)
  moreover have "uval b < 2 ^ n" by (simp add: uval_less n_def)
  moreover obtain x where x: "BN_bin2bn B bytes = Some x" "val x = int (le_bytes_val (rev bytes))"
    using bignumD(5) [OF assms(1)] by blast
  moreover obtain y where y: "BN_add_word B x 1 = Some y" "val y = val x + 1"
    using bignumD(14) [OF assms(1), of x 1] by auto
  ultimately have "val (BN_set_negative B y True) = sval b"
    using bignumD(12) [OF assms(1)] by (simp add: of_nat_diff)
  moreover have "BigInt_MakeSigned B b = do {
      x \<leftarrow> BN_bin2bn B bytes; x \<leftarrow> BN_add_word B x 1; Some (BN_set_negative B x True) }"
    using False by (simp add: BigInt_MakeSigned_def Let_def bytes_def n_def)
  ultimately show ?thesis using x y by simp
qed

lemma Negate_val:
  assumes "bignum_spec B val"
  shows "\<exists>y. BigInt_Negate B x = Some y \<and> val y = - val x"
  using bignumD(4) [OF assms, of x]
  by (auto simp: BigInt_Negate_def bignumD(10,12) [OF assms])

lemma Absolute_val:
  assumes "bignum_spec B val"
  shows "\<exists>y. BigInt_Absolute B x = Some y \<and> val y = \<bar>val x\<bar>"
  using bignumD(4) [OF assms, of x]
  by (auto simp: BigInt_Absolute_def bignumD(10,12) [OF assms])

lemma SignedBitCount_eq:
  assumes "bignum_spec B val"
  shows "BigInt_SignedBitCount B x = Some (signed_bit_length (val x))"
proof (cases "val x < 0")
  case True
  obtain y where y: "BigInt_Negate B x = Some y" "val y = - val x" using Negate_val [OF assms] by blast
  obtain z where z: "BN_sub_word B y 1 = Some z" "val z = val y - 1"
    using bignumD(15) [OF assms, of y 1] by auto
  have "nat \<bar>val z\<bar> = nat (- val x - 1)" using y(2) z(2) True by simp
  with True y z show ?thesis
    by (simp add: BigInt_SignedBitCount_def signed_bit_length_def bignumD(7,9,10) [OF assms])
next
  case False
  then show ?thesis
    by (simp add: BigInt_SignedBitCount_def signed_bit_length_def bignumD(7,9,10) [OF assms])
qed

lemma UnsignedBitCount_eq:
  "bignum_spec B val \<Longrightarrow> BigInt_UnsignedBitCount B x = (if val x < 0 then None else Some (bit_length (nat (val x))))"
  by (simp add: BigInt_UnsignedBitCount_def bignumD(7,10))

lemma bits_of_int_bits: "bm_bits (bits_of_int n v) = map (bit v) [0..<n]"
  by (rule nth_equalityI) (auto simp: bits_of_int_def bit_nat_iff bit_take_bit_iff simp flip: take_bit_eq_mod)

lemma bits_of_int_bitsI: "bm_wf b \<Longrightarrow> bm_bits b = map (bit v) [0..<n] \<Longrightarrow> b = bits_of_int n v"
  by (simp add: bm_eqI bits_of_int_bits)

lemma ToUnsignedBits_eq:
  assumes "bignum_spec B val" "0 \<le> val x"
  shows "BigInt_ToUnsignedBits B x = Some (bits_of_int (bit_length (nat (val x))) (val x))"
proof -
  let ?v = "nat (val x)" and ?n = "bit_length (nat (val x))"
  let ?l = "CeilOfRatio_nat ?n 8"
  have nb: "BN_num_bits B x = ?n" "BN_num_bytes B x = ?l"
    using assms(2) by (simp_all add: bignumD(7,8) [OF assms(1)] CeilOfRatio_nat_eq add.commute)
  have "?n \<le> 8 * ?l" by (simp add: bytes_of_count)
  then have "?v < 2 ^ (8 * ?l)" using bit_length_le by blast
  then obtain bytes where b: "BN_bn2bin_padded B ?l x = Some bytes" "length bytes = ?l"
    "le_bytes_val (rev bytes) = ?v"
    using bignumD(6) [OF assms(1), of x ?l] assms(2) by auto
  then obtain r where r: "Bits_FromBytes (rev bytes) ?n = Some r" "bm_wf r"
    "bm_bits r = map (\<lambda>k. bit (rev bytes ! (k div 8)) (k mod 8)) [0..<?n]"
    using FromBytes_correct [of "rev bytes" ?n] by auto
  have "bit (rev bytes ! (k div 8)) (k mod 8) = bit (val x) k" if "k < ?n" for k
  proof -
    have "k div 8 < ?l" using that by (auto simp: CeilOfRatio_nat_eq)
    then show ?thesis using b assms(2) bit_le_bytes_val [of "rev bytes" k] by (simp add: bit_nat_iff)
  qed
  then have "r = bits_of_int ?n (val x)" using r by (intro bits_of_int_bitsI) auto
  then show ?thesis
    using b r assms(2) by (simp add: BigInt_ToUnsignedBits_def nb bignumD(10) [OF assms(1)])
qed

lemma ToUnsignedBits_None: "bignum_spec B val \<Longrightarrow> val x < 0 \<Longrightarrow> BigInt_ToUnsignedBits B x = None"
  by (simp add: BigInt_ToUnsignedBits_def bignumD(10))

text \<open>Two vectors pushed into a rope of their total size are concatenated.\<close>

lemma rope_two:
  assumes "bm_wf a" "bm_wf b" "n = Bits_bit_count a + Bits_bit_count b"
  shows "\<exists>r. BitsRope_Build (BitsRope_push_back (BitsRope_push_back (BitsRope_new n) a) b) = Some r \<and>
    bm_wf r \<and> bm_bits r = bm_bits a @ bm_bits b"
proof -
  have "rope_holds (BitsRope_push_back (BitsRope_new n) a) n ([] @ bm_bits a)"
    using assms(3) by (intro rope_holds_push_back rope_holds_new) simp
  from rope_holds_push_back [OF this, of b] assms(3)
  have "rope_holds (BitsRope_push_back (BitsRope_push_back (BitsRope_new n) a) b) n
      (([] @ bm_bits a) @ bm_bits b)" by simp
  from BitsRope_Build_correct [OF this] assms(3) show ?thesis by simp blast
qed

lemma ToSignedBits_eq:
  assumes "bignum_spec B val"
  shows "BigInt_ToSignedBits B x = Some (bits_of_int (signed_bit_length (val x)) (val x))"
proof (cases "val x = 0")
  case True
  then show ?thesis
    by (simp add: BigInt_ToSignedBits_def bignumD(9) [OF assms] signed_bit_length_def bm_eqI bits_of_int_bits)
next
  case False
  let ?v = "val x" and ?neg = "val x < 0"
  define m where "m = nat (if ?neg then - ?v - 1 else ?v)"
  define n where "n = bit_length m"
  let ?l = "CeilOfRatio_nat n 8"
  obtain d where d: "BN_copy B x = Some d" "val d = ?v" using bignumD(4) [OF assms] by blast
  let ?a = "BN_set_negative B d False"
  have va: "val ?a = \<bar>?v\<bar>" using d by (simp add: bignumD(12) [OF assms])
  obtain e where e: "(if ?neg then BN_sub_word B ?a 1 else Some ?a) = Some e" "nat \<bar>val e\<bar> = m"
    using bignumD(15) [OF assms, of ?a 1] va by (cases ?neg) (auto simp: m_def)
  have nb: "BN_num_bytes B e = ?l"
    using e(2) by (simp add: bignumD(7,8) [OF assms] CeilOfRatio_nat_eq add.commute n_def)
  have "n \<le> 8 * ?l" by (simp add: bytes_of_count)
  then have "m < 2 ^ (8 * ?l)" using bit_length_le n_def by blast
  then obtain bytes where b: "BN_bn2bin_padded B ?l e = Some bytes" "length bytes = ?l"
    "le_bytes_val (rev bytes) = m"
    using bignumD(6) [OF assms, of e ?l] e(2) by auto
  let ?bytes = "if ?neg then map NOT bytes else bytes"
  have "length (rev ?bytes) = ?l" using b(2) by simp
  then obtain r where r: "Bits_FromBytes (rev ?bytes) n = Some r" "bm_wf r" "Bits_bit_count r = n"
    "bm_bits r = map (\<lambda>k. bit (rev ?bytes ! (k div 8)) (k mod 8)) [0..<n]"
    using FromBytes_correct by blast
  have "bit (rev ?bytes ! (k div 8)) (k mod 8) = bit ?v k" if "k < n" for k
  proof -
    have kl: "k div 8 < length (rev bytes)" using that b(2) by (auto simp: CeilOfRatio_nat_eq)
    then have "bit (rev bytes ! (k div 8)) (k mod 8) = bit m k"
      using b(3) bit_le_bytes_val [of "rev bytes" k] by simp
    then show ?thesis
      using kl by (cases ?neg) (simp_all add: rev_map bit_not_iff bit_nat_iff bit_not_int_iff' m_def)
  qed
  moreover have "bit ?v n = ?neg"
    using bit_length_bounds(1) [of m]
    by (cases ?neg) (auto simp: nat_less_exp_iff_bits bit_not_int_iff' bit_nat_iff m_def n_def)
  moreover obtain q where q: "BitsRope_Build (BitsRope_push_back (BitsRope_push_back (BitsRope_new (n + 1)) r)
      (if ?neg then Bits_AllOnes 1 else Bits_new 1)) = Some q" "bm_wf q"
      "bm_bits q = bm_bits r @ bm_bits (if ?neg then Bits_AllOnes 1 else Bits_new 1)"
    using rope_two [OF r(2), of "if ?neg then Bits_AllOnes 1 else Bits_new 1" "n + 1"] r(3)
    by (cases ?neg) auto
  ultimately have "q = bits_of_int (n + 1) ?v" using r(4) by (intro bits_of_int_bitsI) auto
  moreover have "signed_bit_length ?v = n + 1" using False by (simp add: signed_bit_length_def m_def n_def)
  ultimately show ?thesis
    using d e b r q False
    by (simp add: BigInt_ToSignedBits_def bignumD(9,10) [OF assms] SignedBitCount_eq [OF assms] nb
        del: Suc_eq_plus1 add_Suc_right)
qed

lemma bit_above_bit_length: "0 \<le> v \<Longrightarrow> bit_length (nat v) \<le> k \<Longrightarrow> \<not> bit v k" for v :: int
  using bit_length_le [of "nat v" k] by (auto simp: nat_less_exp_iff_bits bit_nat_iff)

lemma bit_above_signed_bit_length: "signed_bit_length v \<le> k \<Longrightarrow> bit v k = (v < 0)"
  using bit_above_bit_length [of v k] bit_above_bit_length [of "- v - 1" k]
  by (cases "v < 0") (auto simp: signed_bit_length_def bit_not_int_iff' split: if_splits)

lemma map_bit_extend:
  fixes v :: int
  assumes "m \<le> n" "\<And>k. m \<le> k \<Longrightarrow> bit v k = b"
  shows "map (bit v) [0..<m] @ replicate (n - m) b = map (bit v) [0..<n]"
  by (rule nth_equalityI) (use assms in \<open>auto simp: nth_append\<close>)

lemma ToSignedBitsWithBitCount_eq:
  assumes "bignum_spec B val"
  shows "BigInt_ToSignedBitsWithBitCount B x n =
    Some (if n < signed_bit_length (val x) then Inl InvalidArgument else Inr (bits_of_int n (val x)))"
proof (cases "n < signed_bit_length (val x)")
  case True
  then show ?thesis
    by (simp add: BigInt_ToSignedBitsWithBitCount_def SignedBitCount_eq [OF assms])
next
  case False
  let ?m = "signed_bit_length (val x)"
  let ?pad = "if val x < 0 then Bits_AllOnes (n - ?m) else Bits_new (n - ?m)"
  have "bm_wf ?pad" "bm_count ?pad = n - ?m" "bm_bits ?pad = replicate (n - ?m) (val x < 0)" by simp_all
  then obtain r where r: "BitsRope_Build (BitsRope_push_back (BitsRope_push_back (BitsRope_new n)
      (bits_of_int ?m (val x))) ?pad) = Some r" "bm_wf r" "bm_bits r = map (bit (val x)) [0..<?m] @ replicate (n - ?m) (val x < 0)"
    using rope_two [of "bits_of_int ?m (val x)" ?pad n] False by (auto simp: bits_of_int_bits)
  then have "r = bits_of_int n (val x)"
    using False by (intro bits_of_int_bitsI) (auto intro!: map_bit_extend bit_above_signed_bit_length)
  with r(1) show ?thesis
    using False by (simp add: BigInt_ToSignedBitsWithBitCount_def SignedBitCount_eq [OF assms]
        ToSignedBits_eq [OF assms] bignumD(10) [OF assms])
qed

lemma ToUnsignedBitsWithBitCount_eq:
  assumes "bignum_spec B val" "0 \<le> val x"
  shows "BigInt_ToUnsignedBitsWithBitCount B x n =
    Some (if val x < 2 ^ n then Inr (bits_of_int n (val x)) else Inl InvalidArgument)"
proof (cases "bit_length (nat (val x)) \<le> n")
  case False
  then have "\<not> val x < 2 ^ n" using assms(2) by (simp add: bit_length_le nat_less_iff)
  with False show ?thesis using assms(2)
    by (simp add: BigInt_ToUnsignedBitsWithBitCount_def UnsignedBitCount_eq [OF assms(1)])
next
  case True
  let ?m = "bit_length (nat (val x))"
  obtain r where r: "BitsRope_Build (BitsRope_push_back (BitsRope_push_back (BitsRope_new n)
      (bits_of_int ?m (val x))) (Bits_new (n - ?m))) = Some r" "bm_wf r" "bm_bits r = map (bit (val x)) [0..<?m] @ replicate (n - ?m) False"
    using rope_two [of "bits_of_int ?m (val x)" "Bits_new (n - ?m)" n] True by (auto simp: bits_of_int_bits)
  then have "r = bits_of_int n (val x)"
    using True assms(2) bit_above_bit_length [of "val x"]
    by (intro bits_of_int_bitsI) (auto intro!: map_bit_extend)
  moreover have "val x < 2 ^ n" using True assms(2) by (simp add: bit_length_le nat_less_iff)
  ultimately show ?thesis
    using r(1) True assms(2) by (simp add: BigInt_ToUnsignedBitsWithBitCount_def
        UnsignedBitCount_eq [OF assms(1)] ToUnsignedBits_eq [OF assms])
qed

section \<open>Arithmetic\<close>

lemma BigInt_arith_val:
  assumes "bignum_spec B val"
  shows "\<exists>z. BigInt_Add B x y = Some z \<and> val z = val x + val y"
    "\<exists>z. BigInt_Sub B x y = Some z \<and> val z = val x - val y"
    "\<exists>z. BigInt_Mul B x y = Some z \<and> val z = val x * val y"
    "val y \<noteq> 0 \<Longrightarrow> \<exists>z. BigInt_Div B x y = Some z \<and> val z = val x sdiv val y"
    "val y \<noteq> 0 \<Longrightarrow> \<exists>z. BigInt_Mod B x y = Some z \<and> val z = val x smod val y"
    "val y = 0 \<Longrightarrow> BigInt_Div B x y = None" "val y = 0 \<Longrightarrow> BigInt_Mod B x y = None"
  using bignumD(16-18) [OF assms, of x y] bignumD(19,20) [OF assms, of y x]
  by (auto simp: BigInt_Add_def BigInt_Sub_def BigInt_Mul_def BigInt_Div_def BigInt_Mod_def)

lemma BigInt_compare:
  assumes "bignum_spec B val"
  shows "BigInt_eq B x y \<longleftrightarrow> val x = val y" "BigInt_LessThan B x y \<longleftrightarrow> val x < val y"
    "BigInt_GreaterThan B x y \<longleftrightarrow> val x > val y" "BigInt_le B x y \<longleftrightarrow> val x \<le> val y"
    "BigInt_ge B x y \<longleftrightarrow> val x \<ge> val y" "BigInt_IsEven B x \<longleftrightarrow> even (val x)"
  by (simp_all add: BigInt_eq_def BigInt_LessThan_def BigInt_GreaterThan_def BigInt_le_def BigInt_ge_def
      BigInt_IsEven_def bignum_tests [OF assms])

lemma Exp2_val:
  assumes "bignum_spec B val" "0 \<le> e" "e < 2 ^ 31"
  shows "\<exists>x. BigInt_Exp2 B e = Some x \<and> val x = 2 ^ nat e"
proof -
  obtain one where "BN_one B = Some one" "val one = 1" using bignumD(3) [OF assms(1)] by blast
  moreover obtain y where "BN_lshift B one (nat e) = Some y" "val y = val one * 2 ^ nat e"
    using bignumD(21) [OF assms(1)] by blast
  ultimately show ?thesis using assms(2,3) by (simp add: BigInt_Exp2_def BigInt_One_def)
qed

lemma Exp2_None: "e < 0 \<or> 2 ^ 31 \<le> e \<Longrightarrow> BigInt_Exp2 B e = None"
  by (auto simp: BigInt_Exp2_def split: bind_splits)

lemma exp_bit_length_eq:
  assumes "0 < v"
  shows "2 ^ (bit_length v - 1) = v \<longleftrightarrow> (\<exists>k. v = 2 ^ k)"
proof
  assume "\<exists>k. v = 2 ^ k"
  then obtain k where k: "v = 2 ^ k" ..
  have "bit_length v \<le> Suc k" "\<not> bit_length v \<le> k" using k by (simp_all add: bit_length_le)
  then show "2 ^ (bit_length v - 1) = v" using k by simp
qed metis

lemma IsPowerOfTwo_val:
  assumes "bignum_spec B val" "val x < 2 ^ (2 ^ 31)"
  shows "BigInt_IsPowerOfTwo B x = Some (\<exists>k. val x = 2 ^ k)"
proof (cases "val x < 1")
  case True
  then have "\<not> (\<exists>k. val x = 2 ^ k)" by (metis one_le_power one_le_numeral not_less)
  with True bignumD(3) [OF assms(1)] show ?thesis
    by (auto simp: BigInt_IsPowerOfTwo_def BigInt_One_def BigInt_compare [OF assms(1)])
next
  case False
  then obtain v where v: "val x = int v" "0 < v" by (metis not_less int_one_le_iff_zero_less nonneg_int_cases order.trans zero_le_one of_nat_0_less_iff)
  have "bit_length v \<le> 2 ^ 31"
    using assms(2) v unfolding bit_length_le by (metis of_nat_less_iff of_nat_numeral of_nat_power)
  moreover have "bit_length v \<noteq> 0" using v by (simp add: bit_length.simps)
  ultimately obtain e where e: "BigInt_Exp2 B (int (bit_length v) - 1) = Some e" "val e = 2 ^ (bit_length v - 1)"
    using Exp2_val [OF assms(1), of "int (bit_length v) - 1"] by (auto simp: nat_diff_distrib)
  have "val e = val x \<longleftrightarrow> (2 ^ (bit_length v - 1) = v)"
    using e(2) v(1) by (metis of_nat_eq_iff of_nat_numeral of_nat_power)
  also have "\<dots> \<longleftrightarrow> (\<exists>k. val x = 2 ^ k)"
    unfolding exp_bit_length_eq [OF v(2)] v(1) by (metis of_nat_eq_iff of_nat_numeral of_nat_power)
  finally have "(val e = val x) = (\<exists>k. val x = 2 ^ k)" .
  moreover obtain one where "BN_one B = Some one" "val one = 1" using bignumD(3) [OF assms(1)] by blast
  moreover have "\<not> int v < 1" "nat \<bar>int v\<bar> = v" using v(2) by simp_all
  ultimately show ?thesis
    using e(1) unfolding v(1) by (simp add: BigInt_IsPowerOfTwo_def BigInt_One_def
        BigInt_compare [OF assms(1)] bignumD(7) [OF assms(1)] v(1))
qed

lemma CeilingLog2_val:
  assumes "bignum_spec B val" "val x < 2 ^ (2 ^ 31)" "0 < val x"
  shows "\<exists>k. BigInt_CeilingLog2 B x = Some (int k) \<and> val x \<le> 2 ^ k \<and> (\<forall>j < k. 2 ^ j < val x)"
proof -
  obtain v where v: "val x = int v" "0 < v" using assms(3) by (metis zero_less_imp_eq_int)
  let ?n = "bit_length v"
  have le: "val x \<le> 2 ^ k \<longleftrightarrow> v \<le> 2 ^ k" for k
    unfolding v by (metis of_nat_le_iff of_nat_numeral of_nat_power)
  have "?n \<le> 2 ^ 31"
    using assms(2) v unfolding bit_length_le by (metis of_nat_less_iff of_nat_numeral of_nat_power)
  moreover have n0: "?n \<noteq> 0" using v by (simp add: bit_length.simps)
  ultimately obtain e where e: "BigInt_Exp2 B (int ?n - 1) = Some e" "val e = 2 ^ (?n - 1)"
    using Exp2_val [OF assms(1), of "int ?n - 1"] by (auto simp: nat_diff_distrib)
  have ev: "val e = val x \<longleftrightarrow> 2 ^ (?n - 1) = v"
    using e(2) v(1) by (metis of_nat_eq_iff of_nat_numeral of_nat_power)
  have below: "2 ^ j < v" if "j < ?n - 1" for j
  proof -
    have "2 ^ j < (2::nat) ^ (?n - 1)" using that by (intro power_strict_increasing) auto
    also have "\<dots> \<le> v" using bit_length_bounds(2) [of v] v(2) by simp
    finally show ?thesis .
  qed
  obtain one where one: "BN_one B = Some one" "val one = 1" using bignumD(3) [OF assms(1)] by blast
  define k where "k = (if v = 2 ^ (?n - 1) then ?n - 1 else ?n)"
  have "BigInt_CeilingLog2 B x = Some (int k)"
  proof (cases "v = 1")
    case True
    then have "k = 0" by (simp add: k_def bit_length.simps)
    with True show ?thesis using v one
      by (simp add: BigInt_CeilingLog2_def BigInt_One_def BigInt_Zero_def BigInt_compare [OF assms(1)]
          bignumD(2,10) [OF assms(1)])
  next
    case False
    then show ?thesis using v one e(1) ev n0
      by (auto simp: BigInt_CeilingLog2_def BigInt_One_def BigInt_Zero_def BigInt_compare [OF assms(1)]
          bignumD(2,7,10) [OF assms(1)] k_def)
  qed
  moreover have "v \<le> 2 ^ k" using bit_length_bounds(1) [of v] by (simp add: k_def)
  moreover have "2 ^ j < v" if "j < k" for j
  proof (cases "j < ?n - 1")
    case False
    then have "j = ?n - 1" "v \<noteq> 2 ^ (?n - 1)" using that by (auto simp: k_def split: if_splits)
    then show ?thesis using bit_length_bounds(2) [of v] v(2) by simp
  qed (rule below)
  ultimately show ?thesis unfolding le using le not_le by metis
qed

lemma FactorizePowerOfTwo_loop_val:
  assumes "bignum_spec B val" "val zero = 0" "val two = 2"
  shows "\<exists>y k. BigInt_FactorizePowerOfTwo_loop B zero two x p = Some (y, p + k) \<and> val x = val y * 2 ^ k \<and>
    (val x \<noteq> 0 \<longrightarrow> odd (val y)) \<and> (val x = 0 \<longrightarrow> k = 0)"
proof (induction "nat \<bar>val x\<bar>" arbitrary: x p rule: less_induct)
  case less
  show ?case
  proof (cases "even (val x) \<and> val x \<noteq> 0")
    case True
    obtain z where z: "BigInt_Div B x two = Some z" "val z = val x sdiv 2"
      using BigInt_arith_val(4) [OF assms(1), of two x] assms(3) by auto
    then have v: "val x = 2 * val z" using True by (auto simp: signed_divide_int_def sgn_if abs_if elim!: evenE)
    then have "nat \<bar>val z\<bar> < nat \<bar>val x\<bar>" using True by (auto simp: abs_if)
    from less.hyps [OF this, of "p + 1"] obtain y k where yk:
      "BigInt_FactorizePowerOfTwo_loop B zero two z (p + 1) = Some (y, p + 1 + k)" "val z = val y * 2 ^ k"
      "val z \<noteq> 0 \<longrightarrow> odd (val y)" by blast
    have "BigInt_FactorizePowerOfTwo_loop B zero two x p = BigInt_FactorizePowerOfTwo_loop B zero two z (p + 1)"
      using True z(1) assms(2) by (subst BigInt_FactorizePowerOfTwo_loop.simps)
        (simp add: BigInt_compare [OF assms(1)])
    then have "BigInt_FactorizePowerOfTwo_loop B zero two x p = Some (y, p + Suc k)" using yk(1) by simp
    moreover have "val x = val y * 2 ^ Suc k" "odd (val y)" using yk(2,3) v True by auto
    ultimately show ?thesis using True by blast
  next
    case False
    then have "BigInt_FactorizePowerOfTwo_loop B zero two x p = Some (x, p + 0)"
      using assms by (subst BigInt_FactorizePowerOfTwo_loop.simps) (auto simp: BigInt_compare [OF assms(1)])
    then show ?thesis using False by fastforce
  qed
qed

lemma FactorizePowerOfTwo_val:
  assumes "bignum_spec B val"
  shows "\<exists>y k. BigInt_FactorizePowerOfTwo B x = Some (y, k) \<and> val x = val y * 2 ^ k \<and>
    (if val x = 0 then k = 0 else odd (val y))"
proof -
  obtain two where two: "BigInt_Exp2 B 1 = Some two" "val two = 2"
    using Exp2_val [OF assms, of 1] by auto
  moreover obtain z where z: "BN_copy B x = Some z" "val z = val x" using bignumD(4) [OF assms] by blast
  moreover have "val (BigInt_Zero B) = 0" by (simp add: BigInt_Zero_def bignumD(2) [OF assms])
  ultimately show ?thesis
    using FactorizePowerOfTwo_loop_val [OF assms, of "BigInt_Zero B" two z 0]
    by (fastforce simp: BigInt_FactorizePowerOfTwo_def)
qed

end
