(* ===== verification/Bits_Ops.thy ===== *)
theory Bits_Ops
  imports Big_Int
begin

unbundle bit_operations_syntax

text \<open>
  Models \<open>xls/ir/bits_ops.h\<close> and \<open>xls/ir/bits_ops.cc\<close>: the logical, arithmetic, comparison,
  shifting and slicing operations on \<open>Bits\<close>, and the conversions to digit strings. The code takes
  a fast path through \<open>uint64_t\<close> for narrow vectors and goes through bytes or \<open>BigInt\<close> for
  wide ones; the lemmas give one meaning to both paths, by equations with the vector of a given width
  and value. Operations that use \<open>BigInt\<close> take the big-number functions as their first argument.
\<close>

section \<open>Bitwise operations\<close>

definition bits_ops_And :: "Bits \<Rightarrow> Bits \<Rightarrow> Bits option" where
  "bits_ops_And lhs rhs =
     (if Bits_bit_count lhs \<noteq> Bits_bit_count rhs then None
      else if Bits_bit_count lhs \<le> 64 then do {
        x \<leftarrow> value_of (Bits_ToUint64 lhs);
        y \<leftarrow> value_of (Bits_ToUint64 rhs);
        UBits (x AND y) (Bits_bit_count lhs)
      }
      else Bits_FromBytes (map2 (AND) (Bits_ToBytes lhs) (Bits_ToBytes rhs)) (Bits_bit_count lhs))"

definition bits_ops_Or :: "Bits \<Rightarrow> Bits \<Rightarrow> Bits option" where
  "bits_ops_Or lhs rhs =
     (if Bits_bit_count lhs \<noteq> Bits_bit_count rhs then None
      else if Bits_bit_count lhs \<le> 64 then do {
        x \<leftarrow> value_of (Bits_ToUint64 lhs);
        y \<leftarrow> value_of (Bits_ToUint64 rhs);
        UBits (x OR y) (Bits_bit_count lhs)
      }
      else Bits_FromBytes (map2 (OR) (Bits_ToBytes lhs) (Bits_ToBytes rhs)) (Bits_bit_count lhs))"

definition bits_ops_Xor :: "Bits \<Rightarrow> Bits \<Rightarrow> Bits option" where
  "bits_ops_Xor lhs rhs =
     (if Bits_bit_count lhs \<noteq> Bits_bit_count rhs then None
      else if Bits_bit_count lhs \<le> 64 then do {
        x \<leftarrow> value_of (Bits_ToUint64 lhs);
        y \<leftarrow> value_of (Bits_ToUint64 rhs);
        UBits (x XOR y) (Bits_bit_count lhs)
      }
      else Bits_FromBytes (map2 (XOR) (Bits_ToBytes lhs) (Bits_ToBytes rhs)) (Bits_bit_count lhs))"

definition bits_ops_Nand :: "Bits \<Rightarrow> Bits \<Rightarrow> Bits option" where
  "bits_ops_Nand lhs rhs =
     (if Bits_bit_count lhs \<noteq> Bits_bit_count rhs then None
      else if Bits_bit_count lhs \<le> 64 then do {
        x \<leftarrow> value_of (Bits_ToUint64 lhs);
        y \<leftarrow> value_of (Bits_ToUint64 rhs);
        UBits (NOT (x AND y) AND Mask (Bits_bit_count lhs)) (Bits_bit_count lhs)
      }
      else Bits_FromBytes (map2 (\<lambda>p q. NOT (p AND q)) (Bits_ToBytes lhs) (Bits_ToBytes rhs))
             (Bits_bit_count lhs))"

definition bits_ops_Nor :: "Bits \<Rightarrow> Bits \<Rightarrow> Bits option" where
  "bits_ops_Nor lhs rhs =
     (if Bits_bit_count lhs \<noteq> Bits_bit_count rhs then None
      else if Bits_bit_count lhs \<le> 64 then do {
        x \<leftarrow> value_of (Bits_ToUint64 lhs);
        y \<leftarrow> value_of (Bits_ToUint64 rhs);
        UBits (NOT (x OR y) AND Mask (Bits_bit_count lhs)) (Bits_bit_count lhs)
      }
      else Bits_FromBytes (map2 (\<lambda>p q. NOT (p OR q)) (Bits_ToBytes lhs) (Bits_ToBytes rhs))
             (Bits_bit_count lhs))"

definition bits_ops_Not :: "Bits \<Rightarrow> Bits option" where
  "bits_ops_Not bits =
     (if Bits_bit_count bits \<le> 64 then do {
        x \<leftarrow> value_of (Bits_ToUint64 bits);
        UBits (NOT x AND Mask (Bits_bit_count bits)) (Bits_bit_count bits)
      }
      else Bits_FromBytes (map NOT (Bits_ToBytes bits)) (Bits_bit_count bits))"

text \<open>The loop of the n-ary operations from the second operand on; \<open>at(0)\<close> fails on no operands.\<close>

fun nary_loop :: "(Bits \<Rightarrow> Bits \<Rightarrow> Bits option) \<Rightarrow> Bits \<Rightarrow> Bits list \<Rightarrow> Bits option" where
  "nary_loop f accum [] = Some accum"
| "nary_loop f accum (x # xs) = do { accum \<leftarrow> f accum x; nary_loop f accum xs }"

fun bits_ops_NaryAnd :: "Bits list \<Rightarrow> Bits option" where
  "bits_ops_NaryAnd [] = None"
| "bits_ops_NaryAnd (x # xs) = nary_loop bits_ops_And x xs"

fun bits_ops_NaryOr :: "Bits list \<Rightarrow> Bits option" where
  "bits_ops_NaryOr [] = None"
| "bits_ops_NaryOr (x # xs) = nary_loop bits_ops_Or x xs"

fun bits_ops_NaryXor :: "Bits list \<Rightarrow> Bits option" where
  "bits_ops_NaryXor [] = None"
| "bits_ops_NaryXor (x # xs) = nary_loop bits_ops_Xor x xs"

fun bits_ops_NaryNand :: "Bits list \<Rightarrow> Bits option" where
  "bits_ops_NaryNand [] = None"
| "bits_ops_NaryNand (x # xs) = do { accum \<leftarrow> nary_loop bits_ops_And x xs; bits_ops_Not accum }"

fun bits_ops_NaryNor :: "Bits list \<Rightarrow> Bits option" where
  "bits_ops_NaryNor [] = None"
| "bits_ops_NaryNor (x # xs) = do { accum \<leftarrow> nary_loop bits_ops_Or x xs; bits_ops_Not accum }"

definition bits_ops_AndReduce :: "Bits \<Rightarrow> Bits option" where
  "bits_ops_AndReduce operand = (if Bits_IsAllOnes operand then UBits 1 1 else UBits 0 1)"

definition bits_ops_OrReduce :: "Bits \<Rightarrow> Bits option" where
  "bits_ops_OrReduce operand = (if Bits_IsZero operand then UBits 0 1 else UBits 1 1)"

definition bits_ops_XorReduce :: "Bits \<Rightarrow> Bits option" where
  "bits_ops_XorReduce operand = (if odd (Bits_PopCount operand) then UBits 1 1 else UBits 0 1)"

section \<open>Widths, slices and shifts\<close>

definition bits_ops_ZeroExtend :: "Bits \<Rightarrow> nat \<Rightarrow> Bits option" where
  "bits_ops_ZeroExtend bits new_bit_count =
     (if new_bit_count < Bits_bit_count bits then None
      else Some (InlineBitmap_WithSize bits new_bit_count False))"

definition bits_ops_SignExtend :: "Bits \<Rightarrow> nat \<Rightarrow> Bits option" where
  "bits_ops_SignExtend bits new_bit_count =
     (if new_bit_count < Bits_bit_count bits then None
      else
        let sign_bit = Bits_bit_count bits > 0 \<and> Bits_GetFromMsb bits 0
        in Some (InlineBitmap_WithSize bits new_bit_count sign_bit))"

definition bits_ops_Truncate :: "Bits \<Rightarrow> nat \<Rightarrow> Bits option" where
  "bits_ops_Truncate bits new_size =
     (if Bits_bit_count bits < new_size then None else Bits_Slice bits 0 new_size)"

definition TruncateOrSignExtend :: "Bits \<Rightarrow> nat \<Rightarrow> Bits option" where
  "TruncateOrSignExtend bits bit_count =
     (if Bits_bit_count bits = bit_count then Some bits
      else if Bits_bit_count bits < bit_count then bits_ops_SignExtend bits bit_count
      else bits_ops_Truncate bits bit_count)"

definition bits_ops_Concat :: "Bits list \<Rightarrow> Bits option" where
  "bits_ops_Concat inputs =
     (let new_bit_count = fold (\<lambda>b n. n + Bits_bit_count b) inputs 0
      in BitsRope_Build
           (fold (\<lambda>i rope. BitsRope_push_back rope (inputs ! (length inputs - i - 1)))
              [0..<length inputs] (BitsRope_new new_bit_count)))"

definition bits_ops_ShiftLeftLogical :: "Bits \<Rightarrow> nat \<Rightarrow> Bits option" where
  "bits_ops_ShiftLeftLogical bits shift_amount =
     (let shift_amount = min shift_amount (Bits_bit_count bits)
      in do {
        hi \<leftarrow> Bits_Slice bits 0 (Bits_bit_count bits - shift_amount);
        lo \<leftarrow> UBits 0 shift_amount;
        bits_ops_Concat [hi, lo]
      })"

definition bits_ops_ShiftRightLogical :: "Bits \<Rightarrow> nat \<Rightarrow> Bits option" where
  "bits_ops_ShiftRightLogical bits shift_amount =
     (let shift_amount = min shift_amount (Bits_bit_count bits)
      in do {
        hi \<leftarrow> UBits 0 shift_amount;
        lo \<leftarrow> Bits_Slice bits shift_amount (Bits_bit_count bits - shift_amount);
        bits_ops_Concat [hi, lo]
      })"

definition bits_ops_ShiftRightArith :: "Bits \<Rightarrow> nat \<Rightarrow> Bits option" where
  "bits_ops_ShiftRightArith bits shift_amount =
     (let shift_amount = min shift_amount (Bits_bit_count bits)
      in do {
        hi \<leftarrow> (if Bits_msb bits then Some (Bits_AllOnes shift_amount) else UBits 0 shift_amount);
        lo \<leftarrow> Bits_Slice bits shift_amount (Bits_bit_count bits - shift_amount);
        bits_ops_Concat [hi, lo]
      })"

definition bits_ops_OneHotLsbToMsb :: "Bits \<Rightarrow> Bits" where
  "bits_ops_OneHotLsbToMsb bits =
     (case find (\<lambda>i. Bits_Get bits i) [0..<Bits_bit_count bits] of
        Some i \<Rightarrow> Bits_PowerOfTwo i (Bits_bit_count bits + 1)
      | None \<Rightarrow> Bits_PowerOfTwo (Bits_bit_count bits) (Bits_bit_count bits + 1))"

definition bits_ops_OneHotMsbToLsb :: "Bits \<Rightarrow> Bits" where
  "bits_ops_OneHotMsbToLsb bits =
     (case find (\<lambda>i. Bits_Get bits i) (rev [0..<Bits_bit_count bits]) of
        Some i \<Rightarrow> Bits_PowerOfTwo i (Bits_bit_count bits + 1)
      | None \<Rightarrow> Bits_PowerOfTwo (Bits_bit_count bits) (Bits_bit_count bits + 1))"

definition bits_ops_CountLeadingOnes :: "Bits \<Rightarrow> nat option" where
  "bits_ops_CountLeadingOnes bits = map_option Bits_CountLeadingZeros (bits_ops_Not bits)"

definition bits_ops_CountTrailingOnes :: "Bits \<Rightarrow> nat option" where
  "bits_ops_CountTrailingOnes bits = map_option Bits_CountTrailingZeros (bits_ops_Not bits)"

definition bits_ops_Reverse :: "Bits \<Rightarrow> Bits" where
  "bits_ops_Reverse bits =
     fold (\<lambda>i m. InlineBitmap_Set m (Bits_bit_count bits - i - 1) (Bits_Get bits i))
       [0..<Bits_bit_count bits] (InlineBitmap_new (Bits_bit_count bits) False)"

definition bits_ops_DropLeadingZeroes :: "Bits \<Rightarrow> Bits option" where
  "bits_ops_DropLeadingZeroes bits =
     (case find (\<lambda>i. Bits_Get bits i) (rev [0..<Bits_bit_count bits]) of
        None \<Rightarrow> Some (Bits_new 0)
      | Some first_one \<Rightarrow> Bits_Slice bits 0 (first_one + 1))"

definition bits_ops_BitSliceUpdate :: "Bits \<Rightarrow> nat \<Rightarrow> Bits \<Rightarrow> Bits option" where
  "bits_ops_BitSliceUpdate to_update start update_value =
     (if start \<ge> Bits_bit_count to_update then Some to_update
      else do {
        lsb_slice \<leftarrow> Bits_Slice to_update 0 start;
        update_slice \<leftarrow> Bits_Slice update_value 0
          (min (Bits_bit_count update_value) (Bits_bit_count to_update - start));
        let msb_start = min (Bits_bit_count to_update) (start + Bits_bit_count update_value);
        msb_slice \<leftarrow> Bits_Slice to_update msb_start (Bits_bit_count to_update - msb_start);
        bits_ops_Concat [msb_slice, update_slice, lsb_slice]
      })"

fun bits_ops_LongestCommonPrefixLSB :: "Bits list \<Rightarrow> Bits option" where
  "bits_ops_LongestCommonPrefixLSB [] = Some (Bits_new 0)"
| "bits_ops_LongestCommonPrefixLSB (b # rest) =
     (let input_size = Bits_bit_count b
      in if \<not> list_all (\<lambda>c. Bits_bit_count c = input_size) (b # rest) then None
         else
           let first_difference =
             (case find (\<lambda>i. list_ex (\<lambda>c. Bits_Get b i \<noteq> Bits_Get c i) rest) [0..<input_size] of
                Some i \<Rightarrow> i | None \<Rightarrow> input_size)
           in Bits_Slice b 0 first_difference)"

fun bits_ops_LongestCommonPrefixMSB :: "Bits list \<Rightarrow> Bits option" where
  "bits_ops_LongestCommonPrefixMSB [] = Some (Bits_new 0)"
| "bits_ops_LongestCommonPrefixMSB (b # rest) =
     (let input_size = Bits_bit_count b
      in if \<not> list_all (\<lambda>c. Bits_bit_count c = input_size) (b # rest) then None
         else
           let first_difference =
             (case find (\<lambda>i. list_ex (\<lambda>c. Bits_Get b i \<noteq> Bits_Get c i) rest) (rev [0..<input_size]) of
                Some i \<Rightarrow> int i | None \<Rightarrow> - 1)
           in Bits_Slice b (nat (first_difference + 1)) (nat (int input_size - first_difference - 1)))"

section \<open>Arithmetic\<close>

definition bits_ops_Add :: "'bn bignum \<Rightarrow> Bits \<Rightarrow> Bits \<Rightarrow> Bits option" where
  "bits_ops_Add B lhs rhs =
     (if Bits_bit_count lhs \<noteq> Bits_bit_count rhs then None
      else if Bits_bit_count lhs \<le> 64 then do {
        lhs_int \<leftarrow> value_of (Bits_ToUint64 lhs);
        rhs_int \<leftarrow> value_of (Bits_ToUint64 rhs);
        UBits ((lhs_int + rhs_int) AND Mask (Bits_bit_count lhs)) (Bits_bit_count lhs)
      }
      else do {
        x \<leftarrow> BigInt_MakeSigned B lhs;
        y \<leftarrow> BigInt_MakeSigned B rhs;
        z \<leftarrow> BigInt_Add B x y;
        sum \<leftarrow> BigInt_ToSignedBits B z;
        TruncateOrSignExtend sum (Bits_bit_count lhs)
      })"

definition bits_ops_Sub :: "'bn bignum \<Rightarrow> Bits \<Rightarrow> Bits \<Rightarrow> Bits option" where
  "bits_ops_Sub B lhs rhs =
     (if Bits_bit_count lhs \<noteq> Bits_bit_count rhs then None
      else if Bits_bit_count lhs \<le> 64 then do {
        lhs_int \<leftarrow> value_of (Bits_ToUint64 lhs);
        rhs_int \<leftarrow> value_of (Bits_ToUint64 rhs);
        UBits ((lhs_int - rhs_int) AND Mask (Bits_bit_count lhs)) (Bits_bit_count lhs)
      }
      else do {
        x \<leftarrow> BigInt_MakeSigned B lhs;
        y \<leftarrow> BigInt_MakeSigned B rhs;
        z \<leftarrow> BigInt_Sub B x y;
        diff \<leftarrow> BigInt_ToSignedBits B z;
        TruncateOrSignExtend diff (Bits_bit_count lhs)
      })"

text \<open>The loops run over the words of the bitmap; a \<open>break\<close> ends them.\<close>

fun Increment_loop :: "inline_bitmap \<Rightarrow> nat list \<Rightarrow> inline_bitmap" where
  "Increment_loop m [] = m"
| "Increment_loop m (i # rest) =
     (let w = InlineBitmap_GetWord m i
      in if w < - 1 then InlineBitmap_SetWord m i (w + 1)
         else Increment_loop (InlineBitmap_SetWord m i 0) rest)"

definition bits_ops_Increment :: "Bits \<Rightarrow> Bits" where
  "bits_ops_Increment x = Increment_loop x [0..<InlineBitmap_word_count x]"

fun Decrement_loop :: "inline_bitmap \<Rightarrow> nat list \<Rightarrow> inline_bitmap" where
  "Decrement_loop m [] = m"
| "Decrement_loop m (i # rest) =
     (let w = InlineBitmap_GetWord m i
      in if w > 0 then InlineBitmap_SetWord m i (w - 1)
         else Decrement_loop (InlineBitmap_SetWord m i (NOT 0)) rest)"

definition bits_ops_Decrement :: "Bits \<Rightarrow> Bits" where
  "bits_ops_Decrement x = Decrement_loop x [0..<InlineBitmap_word_count x]"

definition bits_ops_SMul :: "'bn bignum \<Rightarrow> Bits \<Rightarrow> Bits \<Rightarrow> Bits option" where
  "bits_ops_SMul B lhs rhs =
     (let result_width = Bits_bit_count lhs + Bits_bit_count rhs
      in if result_width \<le> 64 then do {
           lhs_int \<leftarrow> value_of (Bits_ToInt64 lhs);
           rhs_int \<leftarrow> value_of (Bits_ToInt64 rhs);
           SBits (lhs_int * rhs_int) result_width
         }
         else do {
           x \<leftarrow> BigInt_MakeSigned B lhs;
           y \<leftarrow> BigInt_MakeSigned B rhs;
           product \<leftarrow> BigInt_Mul B x y;
           r \<leftarrow> BigInt_ToSignedBitsWithBitCount B product result_width;
           value_of r
         })"

definition bits_ops_UMul :: "'bn bignum \<Rightarrow> Bits \<Rightarrow> Bits \<Rightarrow> Bits option" where
  "bits_ops_UMul B lhs rhs =
     (let result_width = Bits_bit_count lhs + Bits_bit_count rhs
      in if result_width \<le> 64 then do {
           lhs_int \<leftarrow> value_of (Bits_ToUint64 lhs);
           rhs_int \<leftarrow> value_of (Bits_ToUint64 rhs);
           UBits (lhs_int * rhs_int) result_width
         }
         else do {
           x \<leftarrow> BigInt_MakeUnsigned B lhs;
           y \<leftarrow> BigInt_MakeUnsigned B rhs;
           product \<leftarrow> BigInt_Mul B x y;
           r \<leftarrow> BigInt_ToUnsignedBitsWithBitCount B product result_width;
           value_of r
         })"

definition bits_ops_UDiv :: "'bn bignum \<Rightarrow> Bits \<Rightarrow> Bits \<Rightarrow> Bits option" where
  "bits_ops_UDiv B lhs rhs =
     (if Bits_IsZero rhs then Some (Bits_AllOnes (Bits_bit_count lhs))
      else do {
        x \<leftarrow> BigInt_MakeUnsigned B lhs;
        y \<leftarrow> BigInt_MakeUnsigned B rhs;
        quotient \<leftarrow> BigInt_Div B x y;
        q \<leftarrow> BigInt_ToUnsignedBits B quotient;
        bits_ops_ZeroExtend q (Bits_bit_count lhs)
      })"

definition bits_ops_UMod :: "'bn bignum \<Rightarrow> Bits \<Rightarrow> Bits \<Rightarrow> Bits option" where
  "bits_ops_UMod B lhs rhs =
     (if Bits_IsZero rhs then Some (Bits_new (Bits_bit_count rhs))
      else do {
        x \<leftarrow> BigInt_MakeUnsigned B lhs;
        y \<leftarrow> BigInt_MakeUnsigned B rhs;
        modulo \<leftarrow> BigInt_Mod B x y;
        r \<leftarrow> BigInt_ToUnsignedBits B modulo;
        bits_ops_ZeroExtend r (Bits_bit_count rhs)
      })"

section \<open>Comparisons\<close>

definition bits_ops_UCmp :: "Bits \<Rightarrow> Bits \<Rightarrow> int" where
  "bits_ops_UCmp lhs rhs = InlineBitmap_UCmp lhs rhs"

definition bits_ops_UEqual :: "Bits \<Rightarrow> Bits \<Rightarrow> bool" where
  "bits_ops_UEqual lhs rhs \<longleftrightarrow> bits_ops_UCmp lhs rhs = 0"

definition bits_ops_UGreaterThanOrEqual :: "Bits \<Rightarrow> Bits \<Rightarrow> bool" where
  "bits_ops_UGreaterThanOrEqual lhs rhs \<longleftrightarrow> bits_ops_UCmp lhs rhs \<ge> 0"

definition bits_ops_UGreaterThan :: "Bits \<Rightarrow> Bits \<Rightarrow> bool" where
  "bits_ops_UGreaterThan lhs rhs \<longleftrightarrow> bits_ops_UCmp lhs rhs > 0"

definition bits_ops_ULessThanOrEqual :: "Bits \<Rightarrow> Bits \<Rightarrow> bool" where
  "bits_ops_ULessThanOrEqual lhs rhs \<longleftrightarrow> bits_ops_UCmp lhs rhs \<le> 0"

definition bits_ops_ULessThan :: "Bits \<Rightarrow> Bits \<Rightarrow> bool" where
  "bits_ops_ULessThan lhs rhs \<longleftrightarrow> bits_ops_UCmp lhs rhs < 0"

definition bits_ops_UMin :: "Bits \<Rightarrow> Bits \<Rightarrow> Bits" where
  "bits_ops_UMin lhs rhs = (if bits_ops_ULessThan lhs rhs then lhs else rhs)"

definition bits_ops_UMax :: "Bits \<Rightarrow> Bits \<Rightarrow> Bits" where
  "bits_ops_UMax lhs rhs = (if bits_ops_ULessThan lhs rhs then rhs else lhs)"

text \<open>The overloads against an \<open>int64_t\<close>.\<close>

definition bits_ops_UEqual_i64 :: "Bits \<Rightarrow> i64 \<Rightarrow> bool option" where
  "bits_ops_UEqual_i64 lhs rhs =
     (if rhs <s 0 then None else do { r \<leftarrow> UBits rhs 64; Some (bits_ops_UEqual lhs r) })"

definition bits_ops_UGreaterThanOrEqual_i64 :: "Bits \<Rightarrow> i64 \<Rightarrow> bool option" where
  "bits_ops_UGreaterThanOrEqual_i64 lhs rhs =
     (if rhs <s 0 then None else do { r \<leftarrow> UBits rhs 64; Some (bits_ops_UGreaterThanOrEqual lhs r) })"

definition bits_ops_UGreaterThan_i64 :: "Bits \<Rightarrow> i64 \<Rightarrow> bool option" where
  "bits_ops_UGreaterThan_i64 lhs rhs =
     (if rhs <s 0 then None else do { r \<leftarrow> UBits rhs 64; Some (bits_ops_UGreaterThan lhs r) })"

definition bits_ops_ULessThanOrEqual_i64 :: "Bits \<Rightarrow> i64 \<Rightarrow> bool option" where
  "bits_ops_ULessThanOrEqual_i64 lhs rhs =
     (if rhs <s 0 then None else do { r \<leftarrow> UBits rhs 64; Some (bits_ops_ULessThanOrEqual lhs r) })"

definition bits_ops_ULessThan_i64 :: "Bits \<Rightarrow> i64 \<Rightarrow> bool option" where
  "bits_ops_ULessThan_i64 lhs rhs =
     (if rhs <s 0 then None else do { r \<leftarrow> UBits rhs 64; Some (bits_ops_ULessThan lhs r) })"

definition bits_ops_SEqual :: "'bn bignum \<Rightarrow> Bits \<Rightarrow> Bits \<Rightarrow> bool option" where
  "bits_ops_SEqual B lhs rhs = do {
     x \<leftarrow> BigInt_MakeSigned B lhs;
     y \<leftarrow> BigInt_MakeSigned B rhs;
     Some (BigInt_eq B x y)
   }"

definition bits_ops_SLessThan :: "'bn bignum \<Rightarrow> Bits \<Rightarrow> Bits \<Rightarrow> bool option" where
  "bits_ops_SLessThan B lhs rhs =
     (if Bits_bit_count lhs \<le> 64 \<and> Bits_bit_count rhs \<le> 64 then do {
        x \<leftarrow> value_of (Bits_ToInt64 lhs);
        y \<leftarrow> value_of (Bits_ToInt64 rhs);
        Some (x <s y)
      }
      else do {
        x \<leftarrow> BigInt_MakeSigned B lhs;
        y \<leftarrow> BigInt_MakeSigned B rhs;
        Some (BigInt_LessThan B x y)
      })"

definition bits_ops_SLessThanOrEqual :: "'bn bignum \<Rightarrow> Bits \<Rightarrow> Bits \<Rightarrow> bool option" where
  "bits_ops_SLessThanOrEqual B lhs rhs = do {
     e \<leftarrow> bits_ops_SEqual B lhs rhs;
     if e then Some True else bits_ops_SLessThan B lhs rhs
   }"

definition bits_ops_SGreaterThanOrEqual :: "'bn bignum \<Rightarrow> Bits \<Rightarrow> Bits \<Rightarrow> bool option" where
  "bits_ops_SGreaterThanOrEqual B lhs rhs = map_option Not (bits_ops_SLessThan B lhs rhs)"

definition bits_ops_SGreaterThan :: "'bn bignum \<Rightarrow> Bits \<Rightarrow> Bits \<Rightarrow> bool option" where
  "bits_ops_SGreaterThan B lhs rhs = map_option Not (bits_ops_SLessThanOrEqual B lhs rhs)"

definition bits_ops_SEqual_i64 :: "'bn bignum \<Rightarrow> Bits \<Rightarrow> i64 \<Rightarrow> bool option" where
  "bits_ops_SEqual_i64 B lhs rhs = do { r \<leftarrow> SBits rhs 64; bits_ops_SEqual B lhs r }"

definition bits_ops_SGreaterThanOrEqual_i64 :: "'bn bignum \<Rightarrow> Bits \<Rightarrow> i64 \<Rightarrow> bool option" where
  "bits_ops_SGreaterThanOrEqual_i64 B lhs rhs = do { r \<leftarrow> SBits rhs 64; bits_ops_SGreaterThanOrEqual B lhs r }"

definition bits_ops_SGreaterThan_i64 :: "'bn bignum \<Rightarrow> Bits \<Rightarrow> i64 \<Rightarrow> bool option" where
  "bits_ops_SGreaterThan_i64 B lhs rhs = do { r \<leftarrow> SBits rhs 64; bits_ops_SGreaterThan B lhs r }"

definition bits_ops_SLessThanOrEqual_i64 :: "'bn bignum \<Rightarrow> Bits \<Rightarrow> i64 \<Rightarrow> bool option" where
  "bits_ops_SLessThanOrEqual_i64 B lhs rhs = do { r \<leftarrow> SBits rhs 64; bits_ops_SLessThanOrEqual B lhs r }"

definition bits_ops_SLessThan_i64 :: "'bn bignum \<Rightarrow> Bits \<Rightarrow> i64 \<Rightarrow> bool option" where
  "bits_ops_SLessThan_i64 B lhs rhs = do { r \<leftarrow> SBits rhs 64; bits_ops_SLessThan B lhs r }"

section \<open>Signed arithmetic\<close>

definition bits_ops_SDiv :: "'bn bignum \<Rightarrow> Bits \<Rightarrow> Bits \<Rightarrow> Bits option" where
  "bits_ops_SDiv B lhs rhs =
     (if Bits_IsZero rhs then
        if Bits_bit_count lhs = 0 then UBits 0 0
        else do {
          zero \<leftarrow> UBits 0 (Bits_bit_count lhs);
          negative \<leftarrow> bits_ops_SLessThan B lhs zero;
          if negative then do {
            hi \<leftarrow> UBits 1 1;
            lo \<leftarrow> UBits 0 (Bits_bit_count lhs - 1);
            bits_ops_Concat [hi, lo]
          }
          else bits_ops_ZeroExtend (Bits_AllOnes (Bits_bit_count lhs - 1)) (Bits_bit_count lhs)
        }
      else do {
        x \<leftarrow> BigInt_MakeSigned B lhs;
        y \<leftarrow> BigInt_MakeSigned B rhs;
        quotient \<leftarrow> BigInt_Div B x y;
        q \<leftarrow> BigInt_ToSignedBits B quotient;
        TruncateOrSignExtend q (Bits_bit_count lhs)
      })"

definition bits_ops_SMod :: "'bn bignum \<Rightarrow> Bits \<Rightarrow> Bits \<Rightarrow> Bits option" where
  "bits_ops_SMod B lhs rhs =
     (if Bits_IsZero rhs then Some (Bits_new (Bits_bit_count rhs))
      else do {
        x \<leftarrow> BigInt_MakeSigned B lhs;
        y \<leftarrow> BigInt_MakeSigned B rhs;
        modulo \<leftarrow> BigInt_Mod B x y;
        r \<leftarrow> BigInt_ToSignedBits B modulo;
        TruncateOrSignExtend r (Bits_bit_count rhs)
      })"

definition bits_ops_Negate :: "'bn bignum \<Rightarrow> Bits \<Rightarrow> Bits option" where
  "bits_ops_Negate B bits =
     (if Bits_bit_count bits < 64 then do {
        x \<leftarrow> value_of (Bits_ToInt64 bits);
        UBits ((- x) AND Mask (Bits_bit_count bits)) (Bits_bit_count bits)
      }
      else do {
        x \<leftarrow> BigInt_MakeSigned B bits;
        y \<leftarrow> BigInt_Negate B x;
        negated \<leftarrow> BigInt_ToSignedBits B y;
        TruncateOrSignExtend negated (Bits_bit_count bits)
      })"

definition bits_ops_Abs :: "'bn bignum \<Rightarrow> Bits \<Rightarrow> Bits option" where
  "bits_ops_Abs B bits = (if Bits_GetFromMsb bits 0 then bits_ops_Negate B bits else Some bits)"

section \<open>Logical operations by name, and digit strings\<close>

text \<open>The five n-ary logical opcodes; \<open>kOtherOp\<close> stands for every other opcode.\<close>

datatype logical_op = kAnd | kOr | kXor | kNand | kNor | kOtherOp

fun LogicalOpIdentity :: "logical_op \<Rightarrow> nat \<Rightarrow> Bits option" where
  "LogicalOpIdentity kAnd width = Some (Bits_AllOnes width)"
| "LogicalOpIdentity kNand width = Some (Bits_AllOnes width)"
| "LogicalOpIdentity kOr width = Some (Bits_new width)"
| "LogicalOpIdentity kNor width = Some (Bits_new width)"
| "LogicalOpIdentity kXor width = Some (Bits_new width)"
| "LogicalOpIdentity kOtherOp width = None"

definition DoLogicalOp :: "logical_op \<Rightarrow> Bits list \<Rightarrow> Bits option" where
  "DoLogicalOp op operands =
     (if operands = [] then None
      else case op of
        kAnd \<Rightarrow> bits_ops_NaryAnd operands
      | kOr \<Rightarrow> bits_ops_NaryOr operands
      | kXor \<Rightarrow> bits_ops_NaryXor operands
      | kNand \<Rightarrow> bits_ops_NaryNand operands
      | kNor \<Rightarrow> bits_ops_NaryNor operands
      | kOtherOp \<Rightarrow> None)"

definition MulpOffsetForSimulation :: "nat \<Rightarrow> nat \<Rightarrow> Bits option" where
  "MulpOffsetForSimulation result_size shift_size =
     (let offset_lsbs_size = result_size - 2;
          msbs_size = result_size - offset_lsbs_size;
          offset_lsbs_shift_amount = min (offset_lsbs_size - 1) shift_size
      in do {
        offset_bits \<leftarrow> bits_ops_ShiftRightLogical (Bits_AllOnes offset_lsbs_size) offset_lsbs_shift_amount;
        if msbs_size > 0 then do {
          hi \<leftarrow> Bits_MaxSigned msbs_size;
          bits_ops_Concat [hi, offset_bits]
        }
        else Some offset_bits
      })"

datatype FormatPreference =
  kDefault | kBinary | kSignedDecimal | kUnsignedDecimal | kHex | kPlainBinary | kPlainHex

text \<open>\<open>absl::StrFormat(%x)\<close>: lower case, no leading zeros.\<close>

definition hex_digit :: "nat \<Rightarrow> char" where
  "hex_digit d = (if d < 10 then char_of (48 + d) else char_of (87 + d))"

fun hex_string :: "nat \<Rightarrow> string" where
  "hex_string v = (if v < 16 then [hex_digit v] else hex_string (v div 16) @ [hex_digit (v mod 16)])"

fun raw_digits_loop ::
    "Bits \<Rightarrow> nat \<Rightarrow> bool \<Rightarrow> nat \<Rightarrow> string \<Rightarrow> bool \<Rightarrow> string option" where
  "raw_digits_loop bits digit_width include_separators 0 out eliding = Some out"
| "raw_digits_loop bits digit_width include_separators (Suc digit_no) out eliding =
     (let out = (if include_separators \<and> (digit_no + 1) mod 4 = 0 \<and> out \<noteq> [] then out @ ''_'' else out);
          start = digit_no * digit_width;
          width = min digit_width (Bits_bit_count bits - start)
      in do {
        s \<leftarrow> Bits_Slice bits start width;
        digit_value \<leftarrow> value_of (Bits_ToUint64 s);
        if digit_value = 0 \<and> eliding \<and> digit_no \<noteq> 0
        then raw_digits_loop bits digit_width include_separators digit_no out eliding
        else raw_digits_loop bits digit_width include_separators digit_no
               (out @ hex_string (unat digit_value)) False
      })"

definition BitsToRawDigits :: "'bn bignum \<Rightarrow> Bits \<Rightarrow> FormatPreference \<Rightarrow> bool \<Rightarrow> string option" where
  "BitsToRawDigits B bits preference emit_leading_zeros =
     (if preference = kDefault then None
      else if preference = kSignedDecimal then
        if emit_leading_zeros then None
        else do { x \<leftarrow> BigInt_MakeSigned B bits; BigInt_ToDecimalString B x }
      else if preference = kUnsignedDecimal then
        if emit_leading_zeros then None
        else do { x \<leftarrow> BigInt_MakeUnsigned B bits; BigInt_ToDecimalString B x }
      else if Bits_bit_count bits = 0 then Some ''0''
      else
        let binary_format = (preference = kBinary \<or> preference = kPlainBinary);
            hex_format = (preference = kHex \<or> preference = kPlainHex);
            plain_format = (preference = kPlainBinary \<or> preference = kPlainHex)
        in if \<not> (binary_format \<or> hex_format) then None
           else
             let digit_width = (if binary_format then 1 else 4);
                 digit_count = CeilOfRatio_nat (Bits_bit_count bits) digit_width
             in raw_digits_loop bits digit_width (\<not> plain_format) digit_count [] (\<not> emit_leading_zeros))"

definition BitsToString :: "'bn bignum \<Rightarrow> Bits \<Rightarrow> FormatPreference \<Rightarrow> bool \<Rightarrow> string option" where
  "BitsToString B bits preference include_bit_count =
     (let preference = (if preference = kDefault
                        then (if Bits_bit_count bits \<le> 64 then kUnsignedDecimal else kHex)
                        else preference);
          prefix = (if preference = kBinary then ''0b'' else if preference = kHex then ''0x'' else [])
      in do {
        digits \<leftarrow> BitsToRawDigits B bits preference False;
        Some (prefix @ digits @
          (if include_bit_count then '' ['' @ dec_digits (Bits_bit_count bits) @ '' bits]'' else []))
      })"

declare hex_string.simps [simp del]

section \<open>The narrow path\<close>

lemma UBits_value: "unat w < 2 ^ n \<Longrightarrow> UBits w n = Some (bits_of_nat n (unat w))"
  by (simp add: UBits_eq bits_of_natI uval_FromWord)

lemma narrow_uval: "Bits_bit_count b \<le> 64 \<Longrightarrow> uval b < 2 ^ 64"
  using uval_less [of b] by (meson less_le_trans one_le_numeral power_increasing)

lemma narrow_ToUint64:
  "bm_wf b \<Longrightarrow> Bits_bit_count b \<le> 64 \<Longrightarrow> value_of (Bits_ToUint64 b) = Some (of_nat (uval b))"
  using value_ToUint64 [of b] narrow_uval [of b] by blast

lemma unat_of_uval: "Bits_bit_count b \<le> 64 \<Longrightarrow> unat (of_nat (uval b) :: u64) = uval b"
  using narrow_uval [of b] by (simp add: unat_of_nat)

lemma narrow_sval:
  assumes "Bits_bit_count b \<le> 64"
  shows "- (2 ^ 63) \<le> sval b \<and> sval b < 2 ^ 63"
proof (cases "Bits_bit_count b = 0")
  case True
  then show ?thesis by (simp add: sval_0_width)
next
  case False
  then have "(2::int) ^ (Bits_bit_count b - 1) \<le> 2 ^ 63" using assms by (intro power_increasing) auto
  then show ?thesis using sval_bounds [of b] False by linarith
qed

lemma narrow_ToInt64:
  assumes "bm_wf b" "Bits_bit_count b \<le> 64"
  obtains w where "value_of (Bits_ToInt64 b) = Some w" "sint w = sval b" "w = word_of_int (sval b)"
proof -
  obtain w where w: "Bits_ToInt64 b = Inr w" "sint w = sval b"
    using ToInt64_correct(1) [OF assms(1) narrow_sval [OF assms(2)]] by blast
  then have "w = word_of_int (sval b)" by (simp flip: w(2))
  with w show ?thesis by (intro that) (simp_all add: value_of_def)
qed

lemma UBits_mask:
  assumes "n \<le> 64"
  shows "UBits (w AND Mask n) n = Some (bits_of_nat n (unat w))"
proof -
  have "unat (w AND Mask n) = unat w mod 2 ^ n"
    by (rule bit_eqI) (use assms in \<open>auto simp: bit_unsigned_iff bit_and_iff bit_Mask bit_take_bit_iff simp flip: take_bit_eq_mod\<close>)
  then show ?thesis using UBits_value [of "w AND Mask n" n] by (simp add: bits_of_natI)
qed

section \<open>Bitwise operations are pointwise\<close>

lemma bitwise_narrow:
  fixes wop :: "u64 \<Rightarrow> u64 \<Rightarrow> u64"
  assumes "bm_wf a" "bm_wf b" "Bits_bit_count a = n" "Bits_bit_count b = n" "n \<le> 64"
    and "\<And>x y k. k < 64 \<Longrightarrow> bit (wop x y) k \<longleftrightarrow> bop (bit x k) (bit y k)"
  shows "UBits (wop (of_nat (uval a)) (of_nat (uval b)) AND Mask n) n =
    Some (Bits_of_span (map2 bop (bm_bits a) (bm_bits b)))"
proof -
  let ?w = "wop (of_nat (uval a)) (of_nat (uval b))"
  have "nat_to_bl n (unat ?w) = map2 bop (bm_bits a) (bm_bits b)"
  proof (rule nth_equalityI)
    fix i
    assume "i < length (nat_to_bl n (unat ?w))"
    then have i: "i < n" by simp
    then show "nat_to_bl n (unat ?w) ! i = map2 bop (bm_bits a) (bm_bits b) ! i"
      using assms by (simp add: bit_unsigned_iff bit_of_nat_word_iff bit_uval)
  qed (simp add: assms)
  then show ?thesis using UBits_mask [OF assms(5), of ?w] by (simp add: bits_of_nat_def)
qed

lemma and_Mask_id:
  assumes "\<And>k. n \<le> k \<Longrightarrow> \<not> bit w k" "n \<le> 64"
  shows "w AND Mask n = (w :: u64)"
  by (rule bit_word_eqI) (use assms leI in \<open>auto simp: bit_and_iff bit_Mask\<close>)

lemma bitwise_wide:
  assumes "bm_wf a" "bm_wf b" "Bits_bit_count a = n" "Bits_bit_count b = n"
    and "\<And>p q k. k < 8 \<Longrightarrow> bit (byop p q) k \<longleftrightarrow> bop (bit p k) (bit q k)"
  shows "Bits_FromBytes (map2 byop (Bits_ToBytes a) (Bits_ToBytes b)) n =
    Some (Bits_of_span (map2 bop (bm_bits a) (bm_bits b)))"
proof -
  let ?bytes = "map2 byop (Bits_ToBytes a) (Bits_ToBytes b)"
  have l: "length ?bytes = CeilOfRatio_nat n 8" using assms by (simp add: length_ToBytes)
  then obtain r where r: "Bits_FromBytes ?bytes n = Some r" "bm_wf r"
    "bm_bits r = map (\<lambda>k. bit (?bytes ! (k div 8)) (k mod 8)) [0..<n]"
    using FromBytes_correct by blast
  have "bm_bits r = map2 bop (bm_bits a) (bm_bits b)"
  proof (rule nth_equalityI)
    fix k
    assume "k < length (bm_bits r)"
    then have k: "k < n" unfolding r(3) by simp
    then have "k div 8 < CeilOfRatio_nat n 8" by (auto simp: CeilOfRatio_nat_eq)
    with k show "bm_bits r ! k = map2 bop (bm_bits a) (bm_bits b) ! k"
      unfolding r(3) using assms by (simp add: length_ToBytes ToBytes_bit)
  qed (use r(3) assms in simp)
  then show ?thesis using r(1,2) by (simp add: bm_eqI)
qed

lemma and_like_narrow:
  assumes "n \<le> 64" "Bits_bit_count a = n" "Bits_bit_count b = n"
  shows "of_nat (uval a) AND of_nat (uval b) AND Mask n = (of_nat (uval a) AND of_nat (uval b) :: u64)"
    "(of_nat (uval a) OR of_nat (uval b)) AND Mask n = (of_nat (uval a) OR of_nat (uval b) :: u64)"
    "(of_nat (uval a) XOR of_nat (uval b)) AND Mask n = (of_nat (uval a) XOR of_nat (uval b) :: u64)"
  using and_Mask_id [OF _ assms(1), of "of_nat (uval a) AND of_nat (uval b)"]
    and_Mask_id [OF _ assms(1), of "of_nat (uval a) OR of_nat (uval b)"]
    and_Mask_id [OF _ assms(1), of "of_nat (uval a) XOR of_nat (uval b)"] assms(2,3)
  by (simp_all add: bit_and_iff bit_or_iff bit_xor_iff bit_of_nat_word_iff bit_uval and.assoc)

text \<open>
  The contract the five binary operations share: on vectors of one width they apply a Boolean function
  at every position, and on vectors of different widths their \<open>CHECK\<close> fails. What follows from it is
  proved once: the result's width, and the meaning of the n-ary loops.
\<close>

locale pointwise_op =
  fixes op :: "Bits \<Rightarrow> Bits \<Rightarrow> Bits option" and bop :: "bool \<Rightarrow> bool \<Rightarrow> bool"
  assumes pointwise: "bm_wf a \<Longrightarrow> bm_wf b \<Longrightarrow> Bits_bit_count a = Bits_bit_count b \<Longrightarrow>
      op a b = Some (Bits_of_span (map2 bop (bm_bits a) (bm_bits b)))"
    and mismatch: "Bits_bit_count a \<noteq> Bits_bit_count b \<Longrightarrow> op a b = None"
begin

lemma result_wf:
  assumes "bm_wf a" "bm_wf b" "op a b = Some r"
  shows "bm_wf r" "Bits_bit_count r = Bits_bit_count a"
proof -
  have eq: "Bits_bit_count a = Bits_bit_count b" using assms(3) mismatch [of a b] by (metis option.distinct(1))
  then show "bm_wf r" "Bits_bit_count r = Bits_bit_count a"
    using assms(3) pointwise [OF assms(1,2) eq] by auto
qed

lemma nary_pointwise:
  assumes "bm_wf a" "\<forall>b \<in> set bs. bm_wf b \<and> Bits_bit_count b = Bits_bit_count a"
  shows "nary_loop op a bs =
    Some (Bits_of_span (map (\<lambda>i. foldl bop (bm_bits a ! i) (map (\<lambda>b. bm_bits b ! i) bs)) [0..<Bits_bit_count a]))"
  using assms
proof (induction bs arbitrary: a)
  case Nil
  have "Bits_of_span (map ((!) (bm_bits a)) [0..<Bits_bit_count a]) = a"
    using Nil(1) map_nth [of "bm_bits a"] by (intro bm_eqI) simp_all
  then show ?case by simp
next
  case (Cons b bs)
  let ?c = "Bits_of_span (map2 bop (bm_bits a) (bm_bits b))"
  have b: "bm_wf b" "Bits_bit_count b = Bits_bit_count a"
    and bs: "\<forall>c \<in> set bs. bm_wf c \<and> Bits_bit_count c = Bits_bit_count a"
    using Cons.prems(2) by (meson list.set_intros)+
  have lc: "bm_wf ?c" "Bits_bit_count ?c = Bits_bit_count a" using b(2) by simp_all
  have "op a b = Some ?c" using Cons.prems(1) b by (intro pointwise) simp_all
  then have "nary_loop op a (b # bs) = nary_loop op ?c bs" by simp
  also have "\<dots> = Some (Bits_of_span (map (\<lambda>i. foldl bop (bm_bits ?c ! i) (map (\<lambda>b. bm_bits b ! i) bs))
      [0..<Bits_bit_count ?c]))"
    using bs lc by (intro Cons.IH) metis+
  also have "\<dots> = Some (Bits_of_span (map (\<lambda>i. foldl bop (bm_bits a ! i) (map (\<lambda>b. bm_bits b ! i) (b # bs)))
      [0..<Bits_bit_count a]))"
    unfolding lc(2) using b(2)
    by (intro arg_cong [of _ _ Some] arg_cong [of _ _ Bits_of_span] map_cong refl)
      (simp del: bm_bits_nth)
  finally show ?case .
qed

lemma nary_mismatch:
  assumes "bm_wf a" "\<forall>b \<in> set bs. bm_wf b" "\<exists>b \<in> set bs. Bits_bit_count b \<noteq> Bits_bit_count a"
  shows "nary_loop op a bs = None"
  using assms
proof (induction bs arbitrary: a)
  case (Cons b bs)
  show ?case
  proof (cases "op a b")
    case (Some r)
    then have "Bits_bit_count b = Bits_bit_count a" using mismatch by (metis option.distinct(1))
    with Some Cons show ?thesis using result_wf [of a b r] by simp
  qed simp
qed simp

end

lemma bits_ops_binary_pointwise:
  assumes "bm_wf a" "bm_wf b" "Bits_bit_count a = Bits_bit_count b"
  shows "bits_ops_And a b = Some (Bits_of_span (map2 (\<and>) (bm_bits a) (bm_bits b)))"
    "bits_ops_Or a b = Some (Bits_of_span (map2 (\<or>) (bm_bits a) (bm_bits b)))"
    "bits_ops_Xor a b = Some (Bits_of_span (map2 (\<noteq>) (bm_bits a) (bm_bits b)))"
    "bits_ops_Nand a b = Some (Bits_of_span (map2 (\<lambda>p q. \<not> (p \<and> q)) (bm_bits a) (bm_bits b)))"
    "bits_ops_Nor a b = Some (Bits_of_span (map2 (\<lambda>p q. \<not> (p \<or> q)) (bm_bits a) (bm_bits b)))"
proof -
  note narrow = bitwise_narrow [OF assms(1,2) refl assms(3) [symmetric]]
    and wide = bitwise_wide [OF assms(1,2) refl assms(3) [symmetric]]
    and vals = narrow_ToUint64 [OF assms(1)] narrow_ToUint64 [OF assms(2)]
    and masks = and_like_narrow [OF _ refl assms(3) [symmetric]]
  let ?n = "Bits_bit_count a"
  show "bits_ops_And a b = Some (Bits_of_span (map2 (\<and>) (bm_bits a) (bm_bits b)))"
    using narrow [of "(AND)" "(\<and>)"] wide [of "(AND)" "(\<and>)"] vals masks(1) assms(3)
    by (auto simp: bits_ops_And_def bit_and_iff bit_imp_le_length and.assoc)
  show "bits_ops_Or a b = Some (Bits_of_span (map2 (\<or>) (bm_bits a) (bm_bits b)))"
    using narrow [of "(OR)" "(\<or>)"] wide [of "(OR)" "(\<or>)"] vals masks(2) assms(3)
    by (auto simp: bits_ops_Or_def bit_or_iff bit_imp_le_length)
  show "bits_ops_Xor a b = Some (Bits_of_span (map2 (\<noteq>) (bm_bits a) (bm_bits b)))"
    using narrow [of "(XOR)" "(\<noteq>)"] wide [of "(XOR)" "(\<noteq>)"] vals masks(3) assms(3)
    by (auto simp: bits_ops_Xor_def bit_xor_iff bit_imp_le_length)
  show "bits_ops_Nand a b = Some (Bits_of_span (map2 (\<lambda>p q. \<not> (p \<and> q)) (bm_bits a) (bm_bits b)))"
    using narrow [of "\<lambda>x y. NOT (x AND y)" "\<lambda>p q. \<not> (p \<and> q)"]
      wide [of "\<lambda>p q. NOT (p AND q)" "\<lambda>p q. \<not> (p \<and> q)"] vals assms(3)
    by (auto simp: bits_ops_Nand_def bit_not_iff bit_and_iff bit_or_iff)
  show "bits_ops_Nor a b = Some (Bits_of_span (map2 (\<lambda>p q. \<not> (p \<or> q)) (bm_bits a) (bm_bits b)))"
    using narrow [of "\<lambda>x y. NOT (x OR y)" "\<lambda>p q. \<not> (p \<or> q)"]
      wide [of "\<lambda>p q. NOT (p OR q)" "\<lambda>p q. \<not> (p \<or> q)"] vals assms(3)
    by (auto simp: bits_ops_Nor_def bit_not_iff bit_and_iff bit_or_iff)
qed

interpretation and_op: pointwise_op bits_ops_And "(\<and>)"
  by unfold_locales (rule bits_ops_binary_pointwise(1), simp_all add: bits_ops_And_def)

interpretation or_op: pointwise_op bits_ops_Or "(\<or>)"
  by unfold_locales (rule bits_ops_binary_pointwise(2), simp_all add: bits_ops_Or_def)

interpretation xor_op: pointwise_op bits_ops_Xor "(\<noteq>)"
  by unfold_locales (rule bits_ops_binary_pointwise(3), simp_all add: bits_ops_Xor_def)

interpretation nand_op: pointwise_op bits_ops_Nand "\<lambda>p q. \<not> (p \<and> q)"
  by unfold_locales (rule bits_ops_binary_pointwise(4), simp_all add: bits_ops_Nand_def)

interpretation nor_op: pointwise_op bits_ops_Nor "\<lambda>p q. \<not> (p \<or> q)"
  by unfold_locales (rule bits_ops_binary_pointwise(5), simp_all add: bits_ops_Nor_def)

lemma bits_ops_Not_eq:
  assumes "bm_wf a"
  shows "bits_ops_Not a = Some (Bits_of_span (map Not (bm_bits a)))"
proof -
  have map2_id: "map2 (\<lambda>p q. \<not> p) xs xs = map Not xs" for xs by (induction xs) auto
  have map2_byte: "map2 (\<lambda>p q. NOT p) bs bs = map NOT bs" for bs :: "u8 list" by (induction bs) auto
  show ?thesis
    using bitwise_narrow [OF assms assms refl refl, of "\<lambda>x y. NOT x" "\<lambda>p q. \<not> p"]
      bitwise_wide [OF assms assms refl refl, of "\<lambda>p q. NOT p" "\<lambda>p q. \<not> p"] narrow_ToUint64 [OF assms]
    by (auto simp: bits_ops_Not_def bit_not_iff map2_id map2_byte)
qed

section \<open>Widths, slices and shifts\<close>

lemma ZeroExtend_eq:
  assumes "bm_wf b"
  shows "bits_ops_ZeroExtend b n = (if n < Bits_bit_count b then None else Some (bits_of_nat n (uval b)))"
proof (cases "n < Bits_bit_count b")
  case False
  then have "(2::nat) ^ Bits_bit_count b \<le> 2 ^ n" by (intro power_increasing) auto
  then have "uval b < 2 ^ n" using uval_less [of b] by linarith
  then have "uval (InlineBitmap_WithSize b n False) = uval b mod 2 ^ n"
    using False by (simp add: uval_def WithSize_bits assms bl_to_nat_append)
  then show ?thesis using False assms by (simp add: bits_ops_ZeroExtend_def bits_of_natI)
qed (simp add: bits_ops_ZeroExtend_def)

lemma GetFromMsb_0: "Bits_bit_count b > 0 \<and> Bits_GetFromMsb b 0 \<longleftrightarrow> Bits_msb b"
  by (auto simp: Bits_msb_def Bits_GetFromMsb_def Bits_Get_def)

lemma SignExtend_eq:
  assumes "bm_wf b"
  shows "bits_ops_SignExtend b n = (if n < Bits_bit_count b then None else Some (bits_of_int n (sval b)))"
proof (cases "n < Bits_bit_count b")
  case False
  have "bm_bits (InlineBitmap_WithSize b n (Bits_msb b)) = map (bit (sval b)) [0..<n]"
    using False by (intro nth_equalityI)
      (auto simp: WithSize_bits assms bit_sval nth_append simp del: bm_bits_nth)
  then show ?thesis
    using False assms by (simp add: bits_ops_SignExtend_def GetFromMsb_0 bits_of_int_bitsI)
qed (simp add: bits_ops_SignExtend_def)

lemma Slice_eq:
  assumes "bm_wf b" "start + width \<le> Bits_bit_count b"
  shows "Bits_Slice b start width = Some (Bits_of_span (take width (drop start (bm_bits b))))"
  using Bits_Slice_correct [OF assms] by (auto simp: bm_eqI)

lemma Slice_uval:
  assumes "bm_wf b" "start + width \<le> Bits_bit_count b"
  shows "Bits_Slice b start width = Some (bits_of_nat width (uval b div 2 ^ start))"
proof -
  have "take width (drop start (bm_bits b)) = nat_to_bl width (uval b div 2 ^ start)"
    using assms by (intro nth_equalityI)
      (auto simp: bit_uval simp flip: drop_bit_eq_div simp add: bit_drop_bit_eq simp del: bm_bits_nth)
  then show ?thesis by (simp add: Slice_eq assms bits_of_nat_def)
qed

lemma Truncate_eq:
  assumes "bm_wf b"
  shows "bits_ops_Truncate b n = (if Bits_bit_count b < n then None else Some (bits_of_nat n (uval b)))"
  using Slice_uval [OF assms, of 0 n] by (simp add: bits_ops_Truncate_def)

lemma bits_of_nat_bits_of_int: "n \<le> Bits_bit_count b \<Longrightarrow> bits_of_nat n (uval b) = bits_of_int n (sval b)"
  by (intro bits_of_int_bitsI nth_equalityI) (auto simp: bit_sval bit_uval simp del: bm_bits_nth)

lemma TruncateOrSignExtend_eq:
  assumes "bm_wf b"
  shows "TruncateOrSignExtend b n = Some (bits_of_int n (sval b))"
  using assms bits_of_int_sval [OF assms] bits_of_nat_bits_of_int [of n b]
  by (auto simp: TruncateOrSignExtend_def SignExtend_eq Truncate_eq)

lemma sval_signed_bit_length: "signed_bit_length v \<le> n \<Longrightarrow> sval (bits_of_int n v) = v"
proof (cases n)
  case 0
  then show "signed_bit_length v \<le> n \<Longrightarrow> sval (bits_of_int n v) = v"
    by (auto simp: sval_0_width signed_bit_length_def split: if_splits)
next
  case (Suc m)
  then show "signed_bit_length v \<le> n \<Longrightarrow> sval (bits_of_int n v) = v"
    by (auto simp: signed_bit_length_le sval_bits_of_int)
qed

lemma BigInt_result:
  assumes "bignum_spec B val"
  shows "do { r \<leftarrow> BigInt_ToSignedBits B z; TruncateOrSignExtend r n } = Some (bits_of_int n (val z))"
  by (simp add: ToSignedBits_eq [OF assms] TruncateOrSignExtend_eq sval_signed_bit_length)

text \<open>Concatenation: the first input becomes the most significant part.\<close>

lemma rope_push_loop:
  assumes "rope_holds r n bs" "length bs + length (concat (map bm_bits xs)) \<le> n"
  shows "rope_holds (fold (\<lambda>x rope. BitsRope_push_back rope x) xs r) n (bs @ concat (map bm_bits xs))"
  using assms
proof (induction xs arbitrary: r bs)
  case (Cons x xs)
  have "rope_holds (BitsRope_push_back r x) n (bs @ bm_bits x)"
    using Cons.prems by (intro rope_holds_push_back) simp_all
  from Cons.IH [OF this] Cons.prems(2) show ?case by simp
qed simp

lemma fold_from_end:
  "fold (\<lambda>i. f (xs ! (length xs - i - 1))) [0..<length xs] a = fold f (rev xs) a"
proof -
  have "rev xs = map (\<lambda>i. xs ! (length xs - i - 1)) [0..<length xs]"
    by (rule nth_equalityI) (auto simp: rev_nth)
  then show ?thesis by (simp add: fold_map comp_def)
qed

lemma total_bits: "fold (\<lambda>b n. n + Bits_bit_count b) xs k = k + length (concat (map bm_bits xs))"
  by (induction xs arbitrary: k) simp_all

lemma BitsRope_Build_eq:
  assumes "rope_holds r n bs" "length bs = n"
  shows "BitsRope_Build r = Some (Bits_of_span bs)"
proof -
  obtain b where b: "BitsRope_Build r = Some b" "bm_wf b" "bm_bits b = bs"
    using BitsRope_Build_correct [OF assms] by blast
  then have "b = Bits_of_span bs" by (intro bm_eqI) simp_all
  with b show ?thesis by simp
qed

lemma Concat_eq: "bits_ops_Concat inputs = Some (Bits_of_span (concat (map bm_bits (rev inputs))))"
proof -
  let ?n = "length (concat (map bm_bits inputs))"
  have l: "length (concat (map bm_bits (rev inputs))) = ?n" by (simp add: length_concat sum_list_rev flip: rev_map)
  have "rope_holds (fold (\<lambda>x rope. BitsRope_push_back rope x) (rev inputs) (BitsRope_new ?n)) ?n
      ([] @ concat (map bm_bits (rev inputs)))"
    by (intro rope_push_loop rope_holds_new) (simp add: l)
  moreover have "bits_ops_Concat inputs =
      BitsRope_Build (fold (\<lambda>x rope. BitsRope_push_back rope x) (rev inputs) (BitsRope_new ?n))"
    unfolding bits_ops_Concat_def total_bits Let_def
    using fold_from_end [of "\<lambda>x rope. BitsRope_push_back rope x" inputs] by simp
  ultimately show ?thesis using l by (simp add: BitsRope_Build_eq)
qed

lemma UBits_0: "UBits 0 n = Some (Bits_new n)"
  by (simp add: UBits_value Bits_eq_iff_uval)

lemma ShiftLeftLogical_eq:
  assumes "bm_wf b"
  shows "bits_ops_ShiftLeftLogical b k = Some (bits_of_nat (Bits_bit_count b) (uval b * 2 ^ k))"
proof -
  let ?n = "Bits_bit_count b" and ?m = "min k (Bits_bit_count b)"
  have "replicate ?m False @ take (?n - ?m) (bm_bits b) = nat_to_bl ?n (uval b * 2 ^ k)"
    by (intro nth_equalityI)
      (auto simp: nth_append bit_uval bit_push_bit_iff simp flip: push_bit_eq_mult simp del: bm_bits_nth)
  then show ?thesis
    using assms by (simp add: bits_ops_ShiftLeftLogical_def Let_def Slice_eq UBits_0 Concat_eq bits_of_nat_def)
qed

lemma ShiftRightLogical_eq:
  assumes "bm_wf b"
  shows "bits_ops_ShiftRightLogical b k = Some (bits_of_nat (Bits_bit_count b) (uval b div 2 ^ k))"
proof -
  let ?n = "Bits_bit_count b" and ?m = "min k (Bits_bit_count b)"
  have "drop ?m (bm_bits b) @ replicate ?m False = nat_to_bl ?n (uval b div 2 ^ k)"
    by (intro nth_equalityI)
      (auto simp: nth_append bit_uval bit_drop_bit_eq min_def simp flip: drop_bit_eq_div simp del: bm_bits_nth)
  then show ?thesis
    using assms by (simp add: bits_ops_ShiftRightLogical_def Let_def Slice_eq UBits_0 Concat_eq bits_of_nat_def)
qed

lemma div_exp_range:
  fixes v :: int
  assumes "- (2 ^ m) \<le> v" "v < 2 ^ m"
  shows "- (2 ^ m) \<le> v div 2 ^ k" "v div 2 ^ k < 2 ^ m"
proof -
  have v: "\<forall>i \<ge> m. bit v i = bit v m" using assms int_range_bits by blast
  have "bit (v div 2 ^ k) i = bit (v div 2 ^ k) m" if "m \<le> i" for i
  proof -
    have "bit v (k + i) = bit v (k + m)" using v that by (metis trans_le_add2 le_refl)
    then show ?thesis by (simp only: drop_bit_eq_div [symmetric] bit_drop_bit_eq comp_def)
  qed
  then show "- (2 ^ m) \<le> v div 2 ^ k" "v div 2 ^ k < 2 ^ m" using int_range_bits by blast+
qed

lemma ShiftRightArith_eq:
  assumes "bm_wf b"
  shows "bits_ops_ShiftRightArith b k = Some (bits_of_int (Bits_bit_count b) (sval b div 2 ^ k))"
proof -
  let ?n = "Bits_bit_count b" and ?m = "min k (Bits_bit_count b)"
  let ?r = "Bits_of_span (drop ?m (bm_bits b) @ replicate ?m (Bits_msb b))"
  have "bm_bits ?r = map (bit (sval b div 2 ^ k)) [0..<?n]"
    by (intro nth_equalityI)
      (auto simp: nth_append bit_sval bit_drop_bit_eq min_def simp flip: drop_bit_eq_div simp del: bm_bits_nth)
  then have "?r = bits_of_int ?n (sval b div 2 ^ k)" by (intro bits_of_int_bitsI) simp_all
  then show ?thesis
    using assms by (auto simp: bits_ops_ShiftRightArith_def Let_def Slice_eq UBits_0 Concat_eq)
qed

lemma fold_update_rev:
  "k \<le> length bs \<Longrightarrow> fold (\<lambda>i xs. xs[length bs - i - 1 := bs ! i]) [0..<k] (replicate (length bs) False) =
    replicate (length bs - k) False @ rev (take k bs)"
proof (induction k)
  case (Suc k)
  then have "replicate (length bs - k) False = replicate (length bs - Suc k) False @ [False]"
    by (metis Suc_diff_Suc Suc_le_lessD replicate_Suc replicate_append_same)
  with Suc show ?case by (simp add: list_update_append take_Suc_conv_app_nth Suc_le_lessD)
qed simp

lemma Reverse_eq:
  assumes "bm_wf b"
  shows "bits_ops_Reverse b = Bits_of_span (rev (bm_bits b))"
proof -
  let ?n = "Bits_bit_count b"
  have "bm_wf (fold (\<lambda>i m. InlineBitmap_Set m (?n - i - 1) (Bits_Get b i)) [0..<k] (InlineBitmap_new ?n False)) \<and>
    bm_count (fold (\<lambda>i m. InlineBitmap_Set m (?n - i - 1) (Bits_Get b i)) [0..<k] (InlineBitmap_new ?n False)) = ?n \<and>
    bm_bits (fold (\<lambda>i m. InlineBitmap_Set m (?n - i - 1) (Bits_Get b i)) [0..<k] (InlineBitmap_new ?n False)) =
      fold (\<lambda>i xs. xs[?n - i - 1 := bm_bits b ! i]) [0..<k] (replicate ?n False)" if "k \<le> ?n" for k
    using that by (induction k) (auto simp: Bits_Get_nth simp del: bm_bits_nth)
  from this [of ?n] show ?thesis
    using fold_update_rev [of ?n "bm_bits b"] by (auto simp: bits_ops_Reverse_def intro!: bm_eqI)
qed

lemma find_rev_upt:
  "find P (rev [0..<n]) = Some i \<Longrightarrow> i < n \<and> P i \<and> (\<forall>j. i < j \<and> j < n \<longrightarrow> \<not> P j)"
proof (induction n)
  case (Suc n)
  then show ?case by (auto simp: less_Suc_eq split: if_splits)
qed simp

lemma find_upt:
  "find P [0..<n] = Some i \<Longrightarrow> i < n \<and> P i \<and> (\<forall>j < i. \<not> P j)"
  by (auto simp: find_Some_iff)

lemma find_upt_None: "find P [0..<n] = None \<longleftrightarrow> (\<forall>i < n. \<not> P i)"
  "find P (rev [0..<n]) = None \<longleftrightarrow> (\<forall>i < n. \<not> P i)"
  by (auto simp: find_None_iff)

section \<open>Addition, subtraction and counting by one\<close>

lemma bits_of_nat_cong: "v mod 2 ^ n = w mod 2 ^ n \<Longrightarrow> bits_of_nat n v = bits_of_nat n w"
  by (simp add: bits_of_natI)

lemma mod_2_64_mod: "n \<le> 64 \<Longrightarrow> v mod 2 ^ 64 mod 2 ^ n = v mod 2 ^ n" for v :: nat
  by (rule mod_mod_cancel) (rule le_imp_power_dvd)

lemma mod_2_64_mod_int: "n \<le> 64 \<Longrightarrow> v mod 2 ^ 64 mod 2 ^ n = v mod 2 ^ n" for v :: int
  by (rule mod_mod_cancel) (rule le_imp_power_dvd)

lemma UBits_mask_int:
  assumes "n \<le> 64"
  shows "UBits (word_of_int v AND Mask n) n = Some (bits_of_int n v)"
proof -
  have "int (unat (word_of_int v :: u64)) mod 2 ^ n = v mod 2 ^ n"
    using mod_2_64_mod_int [OF assms, of v] by (simp add: unsigned_of_int take_bit_eq_mod)
  then show ?thesis
    using UBits_mask [OF assms, of "word_of_int v"] bits_of_int_of_nat bits_of_int_cong by metis
qed

lemma Add_eq:
  assumes "bignum_spec B val" "bm_wf a" "bm_wf b" "Bits_bit_count a = Bits_bit_count b"
  shows "bits_ops_Add B a b = Some (bits_of_int (Bits_bit_count a) (sval a + sval b))"
    "bits_ops_Add B a b = Some (bits_of_nat (Bits_bit_count a) (uval a + uval b))"
proof -
  let ?n = "Bits_bit_count a"
  have both: "bits_of_int ?n (sval a + sval b) = bits_of_nat ?n (uval a + uval b)"
    using sval_mod [of a] sval_mod [of b] assms(4)
    by (metis bits_of_int_cong bits_of_int_of_nat mod_add_eq of_nat_add)
  have "bits_ops_Add B a b = Some (bits_of_nat ?n (uval a + uval b))" if n: "?n \<le> 64"
    using UBits_mask_int [OF n, of "int (uval a + uval b)"] n narrow_ToUint64 assms
    by (simp add: bits_ops_Add_def bits_of_int_of_nat flip: of_nat_add)
  moreover have "bits_ops_Add B a b = Some (bits_of_int ?n (sval a + sval b))" if "\<not> ?n \<le> 64"
  proof -
    obtain x y z where "BigInt_MakeSigned B a = Some x" "BigInt_MakeSigned B b = Some y"
      "BigInt_Add B x y = Some z" "val z = sval a + sval b"
      using MakeSigned_val [OF assms(1)] BigInt_arith_val(1) [OF assms(1)] assms(2,3) by metis
    then show ?thesis using that assms(4) BigInt_result [OF assms(1), of z ?n] by (simp add: bits_ops_Add_def)
  qed
  ultimately show "bits_ops_Add B a b = Some (bits_of_int (Bits_bit_count a) (sval a + sval b))"
    "bits_ops_Add B a b = Some (bits_of_nat (Bits_bit_count a) (uval a + uval b))"
    using both by metis+
qed

lemma Sub_eq:
  assumes "bignum_spec B val" "bm_wf a" "bm_wf b" "Bits_bit_count a = Bits_bit_count b"
  shows "bits_ops_Sub B a b = Some (bits_of_int (Bits_bit_count a) (sval a - sval b))"
    "bits_ops_Sub B a b = Some (bits_of_int (Bits_bit_count a) (int (uval a) - int (uval b)))"
proof -
  let ?n = "Bits_bit_count a"
  have both: "bits_of_int ?n (sval a - sval b) = bits_of_int ?n (int (uval a) - int (uval b))"
    using sval_mod [of a] sval_mod [of b] assms(4) by (metis bits_of_int_cong mod_diff_eq)
  have "bits_ops_Sub B a b = Some (bits_of_int ?n (int (uval a) - int (uval b)))" if n: "?n \<le> 64"
    using UBits_mask_int [OF n, of "int (uval a) - int (uval b)"] n narrow_ToUint64 assms
    by (simp add: bits_ops_Sub_def)
  moreover have "bits_ops_Sub B a b = Some (bits_of_int ?n (sval a - sval b))" if "\<not> ?n \<le> 64"
  proof -
    obtain x y z where "BigInt_MakeSigned B a = Some x" "BigInt_MakeSigned B b = Some y"
      "BigInt_Sub B x y = Some z" "val z = sval a - sval b"
      using MakeSigned_val [OF assms(1)] BigInt_arith_val(2) [OF assms(1)] assms(2,3) by metis
    then show ?thesis using that assms(4) BigInt_result [OF assms(1), of z ?n] by (simp add: bits_ops_Sub_def)
  qed
  ultimately show "bits_ops_Sub B a b = Some (bits_of_int (Bits_bit_count a) (sval a - sval b))"
    "bits_ops_Sub B a b = Some (bits_of_int (Bits_bit_count a) (int (uval a) - int (uval b)))"
    using both by metis+
qed

text \<open>Writing a word changes the value by the difference of the words, up to the bits masked off.\<close>

lemma words_to_nat_update:
  "j < length ws \<Longrightarrow> int (words_to_nat (ws[j := x])) = int (words_to_nat ws) + 2 ^ (64 * j) * (uint x - uint (ws ! j))"
proof (induction ws arbitrary: j)
  case (Cons w ws)
  show ?case
  proof (cases j)
    case (Suc i)
    then have "int (words_to_nat (ws[i := x])) = int (words_to_nat ws) + 2 ^ (64 * i) * (uint x - uint (ws ! i))"
      using Cons by simp
    then show ?thesis by (simp add: Suc power_add ring_distribs mult.assoc)
  qed simp
qed simp

lemma uval_words: "bm_wf b \<Longrightarrow> uval b = words_to_nat (bm_data b)"
  by (simp add: uval_def words_to_nat_bm_bits)

lemma mod_swap_term: "x mod m = y mod m \<Longrightarrow> (a + (x - c)) mod m = (a + (y - c)) mod m" for a c x y m :: int
  by (metis mod_add_right_eq mod_diff_left_eq)

lemma SetWord_value:
  assumes "bm_wf b" "j < length (bm_data b)"
  shows "int (uval (InlineBitmap_SetWord b j x)) mod 2 ^ Bits_bit_count b =
    (int (uval b) + 2 ^ (64 * j) * (uint x - uint (InlineBitmap_GetWord b j))) mod 2 ^ Bits_bit_count b"
proof -
  let ?n = "Bits_bit_count b" and ?x = "x AND InlineBitmap_MaskForWord b j"
  have len: "length (bm_data b) = CeilOfRatio_nat ?n 64" using assms(1) by (rule bm_wf_length)
  have j: "64 * j < ?n" using assms(2) words_tight [of ?n] len by simp
  have bx: "bit ?x i \<longleftrightarrow> i < 64 \<and> 64 * j + i < ?n \<and> bit x i" for i
    using bit_MaskForWord [OF len assms(2)] by (auto simp: bit_and_iff)
  have "2 ^ (64 * j) * uint ?x mod 2 ^ ?n = 2 ^ (64 * j) * uint x mod 2 ^ ?n"
  proof -
    have p: "2 ^ (64 * j) * y mod 2 ^ ?n = take_bit ?n (push_bit (64 * j) y)" for y :: int
      by (simp add: push_bit_eq_mult take_bit_eq_mod mult.commute)
    show ?thesis unfolding p
    proof (rule bit_eqI)
      fix i
      show "bit (take_bit ?n (push_bit (64 * j) (uint ?x))) i \<longleftrightarrow> bit (take_bit ?n (push_bit (64 * j) (uint x))) i"
        using bx [of "i - 64 * j"] by (auto simp: bit_take_bit_iff bit_push_bit_iff bit_uint_iff)
    qed
  qed
  then have "(int (uval b) + 2 ^ (64 * j) * (uint ?x - uint (bm_data b ! j))) mod 2 ^ ?n =
      (int (uval b) + 2 ^ (64 * j) * (uint x - uint (bm_data b ! j))) mod 2 ^ ?n"
    unfolding right_diff_distrib by (rule mod_swap_term)
  moreover have "InlineBitmap_GetWord b j = bm_data b ! j"
    using assms(2) by (auto simp: InlineBitmap_GetWord_def InlineBitmap_word_count_def)
  ultimately show ?thesis
    using assms words_to_nat_update [OF assms(2), of ?x] InlineBitmap_SetWord_wf [OF assms, of x]
    by (simp add: uval_words) (simp add: InlineBitmap_SetWord_def uval_words)
qed

lemma uint_succ: "w < - 1 \<Longrightarrow> uint (w + 1) = uint w + 1" for w :: u64
proof -
  assume "w < - 1"
  then have "uint w < 2 ^ 64 - 1" by (simp add: word_less_def unsigned_minus_1_eq_mask mask_eq_exp_minus_1)
  then show ?thesis using uint64_bounds [of w] by (simp add: uint_word_ariths)
qed

lemma uint_pred: "0 < w \<Longrightarrow> uint (w - 1) = uint w - 1" for w :: u64
proof -
  assume "0 < w"
  then have "0 < uint w" by (simp add: word_less_def)
  then show ?thesis using uint64_bounds [of w] by (simp add: uint_word_ariths)
qed

lemma SetWord_count [simp]: "bm_count (InlineBitmap_SetWord b j x) = bm_count b"
  "length (bm_data (InlineBitmap_SetWord b j x)) = length (bm_data b)"
  by (simp_all add: InlineBitmap_SetWord_def)

lemma add_mod_cong: "a mod m = b mod m \<Longrightarrow> (a + c) mod m = (b + c) mod m" for a b c m :: int
  by (metis mod_add_left_eq)

lemma Increment_loop_value:
  assumes "bm_wf m" "j \<le> length (bm_data m)"
  shows "bm_wf (Increment_loop m [j..<length (bm_data m)]) \<and>
    Bits_bit_count (Increment_loop m [j..<length (bm_data m)]) = Bits_bit_count m \<and>
    int (uval (Increment_loop m [j..<length (bm_data m)])) mod 2 ^ Bits_bit_count m =
      (int (uval m) + 2 ^ (64 * j)) mod 2 ^ Bits_bit_count m"
  using assms
proof (induction "length (bm_data m) - j" arbitrary: j m)
  case 0
  then have j: "j = length (bm_data m)" by simp
  then have "Bits_bit_count m \<le> 64 * j" using words_enough bm_wf_length [OF 0(2)] by metis
  then have "(2::int) ^ Bits_bit_count m dvd 2 ^ (64 * j)" by (rule le_imp_power_dvd)
  then show ?case using 0 j by (auto simp: mod_add_right_eq [symmetric])
next
  case (Suc k)
  let ?L = "length (bm_data m)"
  have j: "j < ?L" using Suc.hyps(2) by simp
  then have u: "[j..<?L] = j # [Suc j..<?L]" by (rule upt_conv_Cons)
  let ?w = "InlineBitmap_GetWord m j"
  show ?case
  proof (cases "?w < - 1")
    case True
    then have "uint (?w + 1) = uint ?w + 1" by (rule uint_succ)
    then show ?thesis using True Suc.prems j u InlineBitmap_SetWord_wf [OF Suc.prems(1) j] SetWord_value [OF Suc.prems(1) j, of "?w + 1"]
      by simp
  next
    case False
    then have w: "?w = - 1" by (metis word_not_simps(3) word_order.not_eq_extremum)
    let ?m = "InlineBitmap_SetWord m j 0"
    have IH: "bm_wf (Increment_loop ?m [Suc j..<?L]) \<and>
      Bits_bit_count (Increment_loop ?m [Suc j..<?L]) = Bits_bit_count m \<and>
      int (uval (Increment_loop ?m [Suc j..<?L])) mod 2 ^ Bits_bit_count m =
      (int (uval ?m) + 2 ^ (64 * Suc j)) mod 2 ^ Bits_bit_count m"
      using Suc.hyps(1) [of ?m "Suc j"] Suc.hyps(2) InlineBitmap_SetWord_wf [OF Suc.prems(1) j] j by simp
    have "(int (uval ?m) + 2 ^ (64 * Suc j)) mod 2 ^ Bits_bit_count m =
        (int (uval m) + 2 ^ (64 * j)) mod 2 ^ Bits_bit_count m"
      using add_mod_cong [OF SetWord_value [OF Suc.prems(1) j, of 0], of "2 ^ (64 * Suc j)"]
      by (simp add: w unsigned_minus_1_eq_mask mask_eq_exp_minus_1 power_add algebra_simps)
    then show ?thesis using IH False u by simp
  qed
qed

lemma Decrement_loop_value:
  assumes "bm_wf m" "j \<le> length (bm_data m)"
  shows "bm_wf (Decrement_loop m [j..<length (bm_data m)]) \<and>
    Bits_bit_count (Decrement_loop m [j..<length (bm_data m)]) = Bits_bit_count m \<and>
    int (uval (Decrement_loop m [j..<length (bm_data m)])) mod 2 ^ Bits_bit_count m =
      (int (uval m) - 2 ^ (64 * j)) mod 2 ^ Bits_bit_count m"
  using assms
proof (induction "length (bm_data m) - j" arbitrary: j m)
  case 0
  then have j: "j = length (bm_data m)" by simp
  then have "Bits_bit_count m \<le> 64 * j" using words_enough bm_wf_length [OF 0(2)] by metis
  then have "(2::int) ^ Bits_bit_count m dvd 2 ^ (64 * j)" by (rule le_imp_power_dvd)
  then show ?case using 0 j by (auto simp: mod_diff_right_eq [symmetric])
next
  case (Suc k)
  let ?L = "length (bm_data m)"
  have j: "j < ?L" using Suc.hyps(2) by simp
  then have u: "[j..<?L] = j # [Suc j..<?L]" by (rule upt_conv_Cons)
  let ?w = "InlineBitmap_GetWord m j"
  show ?case
  proof (cases "0 < ?w")
    case True
    then have "uint (?w - 1) = uint ?w - 1" by (rule uint_pred)
    then show ?thesis using True Suc.prems j u InlineBitmap_SetWord_wf [OF Suc.prems(1) j] SetWord_value [OF Suc.prems(1) j, of "?w - 1"]
      by simp
  next
    case False
    then have w: "?w = 0" by (simp add: word_gt_0)
    let ?m = "InlineBitmap_SetWord m j (- 1)"
    have IH: "bm_wf (Decrement_loop ?m [Suc j..<?L]) \<and>
      Bits_bit_count (Decrement_loop ?m [Suc j..<?L]) = Bits_bit_count m \<and>
      int (uval (Decrement_loop ?m [Suc j..<?L])) mod 2 ^ Bits_bit_count m =
      (int (uval ?m) - 2 ^ (64 * Suc j)) mod 2 ^ Bits_bit_count m"
      using Suc.hyps(1) [of ?m "Suc j"] Suc.hyps(2) InlineBitmap_SetWord_wf [OF Suc.prems(1) j] j by simp
    have "(int (uval ?m) - 2 ^ (64 * Suc j)) mod 2 ^ Bits_bit_count m =
        (int (uval m) - 2 ^ (64 * j)) mod 2 ^ Bits_bit_count m"
      using add_mod_cong [OF SetWord_value [OF Suc.prems(1) j, of "- 1"], of "- (2 ^ (64 * Suc j))"]
      by (simp add: w unsigned_minus_1_eq_mask mask_eq_exp_minus_1 power_add algebra_simps)
    then show ?thesis using IH False u by simp
  qed
qed

lemma Increment_eq:
  assumes "bm_wf b"
  shows "bits_ops_Increment b = bits_of_int (Bits_bit_count b) (int (uval b) + 1)"
  using Increment_loop_value [OF assms, of 0] uval_less [of "bits_ops_Increment b"]
  by (intro bits_of_intI) (auto simp: bits_ops_Increment_def InlineBitmap_word_count_def)

lemma Decrement_eq:
  assumes "bm_wf b"
  shows "bits_ops_Decrement b = bits_of_int (Bits_bit_count b) (int (uval b) - 1)"
  using Decrement_loop_value [OF assms, of 0] uval_less [of "bits_ops_Decrement b"]
  by (intro bits_of_intI) (auto simp: bits_ops_Decrement_def InlineBitmap_word_count_def)

lemma Negate_eq:
  assumes "bignum_spec B val" "bm_wf b"
  shows "bits_ops_Negate B b = Some (bits_of_int (Bits_bit_count b) (- sval b))"
proof (cases "Bits_bit_count b < 64")
  case True
  then obtain w where w: "value_of (Bits_ToInt64 b) = Some w" "w = word_of_int (sval b)"
    using narrow_ToInt64 [OF assms(2)] by (metis less_imp_le)
  then show ?thesis
    using True UBits_mask_int [of "Bits_bit_count b" "- sval b"] by (simp add: bits_ops_Negate_def)
next
  case False
  obtain x y where "BigInt_MakeSigned B b = Some x" "BigInt_Negate B x = Some y" "val y = - sval b"
    using MakeSigned_val [OF assms] Negate_val [OF assms(1)] by metis
  then show ?thesis using False BigInt_result [OF assms(1), of y] by (simp add: bits_ops_Negate_def)
qed

section \<open>Comparisons\<close>

lemma UCmp_eq:
  "bm_wf a \<Longrightarrow> bm_wf b \<Longrightarrow> bits_ops_UCmp a b = (if uval a > uval b then 1 else if uval a < uval b then - 1 else 0)"
  by (simp add: bits_ops_UCmp_def InlineBitmap_UCmp_correct uval_def)

lemma unsigned_compare:
  assumes "bm_wf a" "bm_wf b"
  shows "bits_ops_UEqual a b \<longleftrightarrow> uval a = uval b"
    "bits_ops_UGreaterThanOrEqual a b \<longleftrightarrow> uval a \<ge> uval b"
    "bits_ops_UGreaterThan a b \<longleftrightarrow> uval a > uval b"
    "bits_ops_ULessThanOrEqual a b \<longleftrightarrow> uval a \<le> uval b"
    "bits_ops_ULessThan a b \<longleftrightarrow> uval a < uval b"
  using assms by (auto simp: bits_ops_UEqual_def bits_ops_UGreaterThanOrEqual_def bits_ops_UGreaterThan_def
      bits_ops_ULessThanOrEqual_def bits_ops_ULessThan_def UCmp_eq)

lemma UMin_UMax:
  assumes "bm_wf a" "bm_wf b"
  shows "bits_ops_UMin a b \<in> {a, b}" "uval (bits_ops_UMin a b) = min (uval a) (uval b)"
    "bits_ops_UMax a b \<in> {a, b}" "uval (bits_ops_UMax a b) = max (uval a) (uval b)"
  using assms by (auto simp: bits_ops_UMin_def bits_ops_UMax_def unsigned_compare)

lemma SEqual_eq:
  assumes "bignum_spec B val" "bm_wf a" "bm_wf b"
  shows "bits_ops_SEqual B a b = Some (sval a = sval b)"
proof -
  obtain x y where "BigInt_MakeSigned B a = Some x" "val x = sval a" "BigInt_MakeSigned B b = Some y" "val y = sval b"
    using MakeSigned_val [OF assms(1)] assms(2,3) by metis
  then show ?thesis by (simp add: bits_ops_SEqual_def BigInt_compare [OF assms(1)])
qed

lemma SLessThan_eq:
  assumes "bignum_spec B val" "bm_wf a" "bm_wf b"
  shows "bits_ops_SLessThan B a b = Some (sval a < sval b)"
proof (cases "Bits_bit_count a \<le> 64 \<and> Bits_bit_count b \<le> 64")
  case True
  then obtain x y where "value_of (Bits_ToInt64 a) = Some x" "sint x = sval a"
    "value_of (Bits_ToInt64 b) = Some y" "sint y = sval b"
    using narrow_ToInt64 assms(2,3) by metis
  then show ?thesis using True by (simp add: bits_ops_SLessThan_def word_sless_alt)
next
  case False
  obtain x y where "BigInt_MakeSigned B a = Some x" "val x = sval a" "BigInt_MakeSigned B b = Some y" "val y = sval b"
    using MakeSigned_val [OF assms(1)] assms(2,3) by metis
  with False show ?thesis by (auto simp: bits_ops_SLessThan_def BigInt_compare [OF assms(1)])
qed

lemma signed_compare:
  assumes "bignum_spec B val" "bm_wf a" "bm_wf b"
  shows "bits_ops_SLessThanOrEqual B a b = Some (sval a \<le> sval b)"
    "bits_ops_SGreaterThanOrEqual B a b = Some (sval a \<ge> sval b)"
    "bits_ops_SGreaterThan B a b = Some (sval a > sval b)"
  using SEqual_eq [OF assms] SLessThan_eq [OF assms]
  by (auto simp: bits_ops_SLessThanOrEqual_def bits_ops_SGreaterThanOrEqual_def bits_ops_SGreaterThan_def)

text \<open>The overloads against an \<open>int64_t\<close>.\<close>

lemma UBits_64: "UBits v 64 = Some (bits_of_nat 64 (unat v))" "uval (bits_of_nat 64 (unat v)) = unat v" for v :: u64
proof -
  have v: "unat v < 2 ^ 64" using unsigned_less [of v] by simp
  show "UBits v 64 = Some (bits_of_nat 64 (unat v))" using UBits_value [OF v] .
  show "uval (bits_of_nat 64 (unat v)) = unat v" using v by simp
qed

lemma unsigned_compare_i64:
  assumes "bm_wf b"
  shows "v <s 0 \<Longrightarrow> bits_ops_ULessThan_i64 b v = None"
    "\<not> v <s 0 \<Longrightarrow> bits_ops_ULessThan_i64 b v = Some (int (uval b) < sint v)"
    "\<not> v <s 0 \<Longrightarrow> bits_ops_UEqual_i64 b v = Some (int (uval b) = sint v)"
    "\<not> v <s 0 \<Longrightarrow> bits_ops_UGreaterThan_i64 b v = Some (int (uval b) > sint v)"
    "\<not> v <s 0 \<Longrightarrow> bits_ops_UGreaterThanOrEqual_i64 b v = Some (int (uval b) \<ge> sint v)"
    "\<not> v <s 0 \<Longrightarrow> bits_ops_ULessThanOrEqual_i64 b v = Some (int (uval b) \<le> sint v)"
proof -
  have s: "sint v = int (unat v)" if "\<not> v <s 0"
    using that sint_neg_iff [of v] sint_split [of v] by (simp add: word_sless_alt)
  show "v <s 0 \<Longrightarrow> bits_ops_ULessThan_i64 b v = None" by (simp add: bits_ops_ULessThan_i64_def)
  show "\<not> v <s 0 \<Longrightarrow> bits_ops_ULessThan_i64 b v = Some (int (uval b) < sint v)"
    "\<not> v <s 0 \<Longrightarrow> bits_ops_UEqual_i64 b v = Some (int (uval b) = sint v)"
    "\<not> v <s 0 \<Longrightarrow> bits_ops_UGreaterThan_i64 b v = Some (int (uval b) > sint v)"
    "\<not> v <s 0 \<Longrightarrow> bits_ops_UGreaterThanOrEqual_i64 b v = Some (int (uval b) \<ge> sint v)"
    "\<not> v <s 0 \<Longrightarrow> bits_ops_ULessThanOrEqual_i64 b v = Some (int (uval b) \<le> sint v)"
    using s UBits_64 [of v] unsigned_compare [OF assms, of "bits_of_nat 64 (unat v)"]
    by (simp_all add: bits_ops_ULessThan_i64_def bits_ops_UEqual_i64_def bits_ops_UGreaterThan_i64_def
        bits_ops_UGreaterThanOrEqual_i64_def bits_ops_ULessThanOrEqual_i64_def del: int_nat_eq of_nat_unat)
qed

section \<open>Multiplication and division\<close>

lemma UMul_eq:
  assumes "bignum_spec B val" "bm_wf a" "bm_wf b"
  shows "bits_ops_UMul B a b = Some (bits_of_nat (Bits_bit_count a + Bits_bit_count b) (uval a * uval b))"
proof -
  let ?n = "Bits_bit_count a + Bits_bit_count b"
  have lt: "uval a * uval b < 2 ^ ?n"
    unfolding power_add using uval_less by (intro mult_strict_mono) auto
  show ?thesis
  proof (cases "?n \<le> 64")
    case True
    then have "(2::nat) ^ ?n \<le> 2 ^ 64" by (intro power_increasing) auto
    then have w: "unat (of_nat (uval a) * of_nat (uval b) :: u64) = uval a * uval b"
      using lt by (simp add: unat_of_nat flip: of_nat_mult)
    have "UBits (of_nat (uval a) * of_nat (uval b)) ?n = Some (bits_of_nat ?n (uval a * uval b))"
      using UBits_value [of "of_nat (uval a) * of_nat (uval b)" ?n] lt unfolding w .
    moreover have "value_of (Bits_ToUint64 a) = Some (of_nat (uval a))" "value_of (Bits_ToUint64 b) = Some (of_nat (uval b))"
      using narrow_ToUint64 assms True by auto
    ultimately show ?thesis using True by (simp add: bits_ops_UMul_def)
  next
    case False
    obtain x y z where m: "BigInt_MakeUnsigned B a = Some x" "BigInt_MakeUnsigned B b = Some y"
      "BigInt_Mul B x y = Some z" and v: "val z = int (uval a) * int (uval b)"
      using MakeUnsigned_val [OF assms(1)] BigInt_arith_val(3) [OF assms(1)] assms(2,3) by metis
    have "val z = int (uval a * uval b)" "val z < 2 ^ ?n"
      using v lt by (simp, metis of_nat_less_iff of_nat_mult of_nat_numeral of_nat_power)
    then show ?thesis
      using False m ToUnsignedBitsWithBitCount_eq [OF assms(1), of z ?n]
      by (simp add: bits_ops_UMul_def value_of_def bits_of_int_of_nat del: of_nat_mult)
  qed
qed

text \<open>A product of two's complement numbers fits in the sum of their widths.\<close>

lemma signed_product_bounds:
  assumes "0 < Bits_bit_count a" "0 < Bits_bit_count b"
  shows "\<bar>sval a * sval b\<bar> \<le> 2 ^ (Bits_bit_count a + Bits_bit_count b - 2)"
proof -
  have "\<bar>sval a\<bar> \<le> 2 ^ (Bits_bit_count a - 1)" "\<bar>sval b\<bar> \<le> 2 ^ (Bits_bit_count b - 1)"
    using sval_bounds [OF assms(1)] sval_bounds [OF assms(2)] by linarith+
  then have "\<bar>sval a\<bar> * \<bar>sval b\<bar> \<le> 2 ^ (Bits_bit_count a - 1) * 2 ^ (Bits_bit_count b - 1)"
    by (intro mult_mono) auto
  moreover have "Bits_bit_count a - 1 + (Bits_bit_count b - 1) = Bits_bit_count a + Bits_bit_count b - 2"
    using assms by simp
  ultimately show ?thesis by (simp add: abs_mult flip: power_add)
qed

lemma signed_product_fits:
  assumes "0 < Bits_bit_count a + Bits_bit_count b"
  shows "- (2 ^ (Bits_bit_count a + Bits_bit_count b - 1)) \<le> sval a * sval b"
    "sval a * sval b < 2 ^ (Bits_bit_count a + Bits_bit_count b - 1)"
proof -
  let ?n = "Bits_bit_count a + Bits_bit_count b"
  have "\<bar>sval a * sval b\<bar> < 2 ^ (?n - 1)"
  proof (cases "Bits_bit_count a = 0 \<or> Bits_bit_count b = 0")
    case True
    then show ?thesis by (auto simp: sval_0_width)
  next
    case False
    then have "\<bar>sval a * sval b\<bar> \<le> 2 ^ (?n - 2)" by (intro signed_product_bounds) auto
    moreover have "(2::int) ^ (?n - 2) < 2 ^ (?n - 1)" using False by (intro power_strict_increasing) auto
    ultimately show ?thesis by linarith
  qed
  then show "- (2 ^ (?n - 1)) \<le> sval a * sval b" "sval a * sval b < 2 ^ (?n - 1)" by linarith+
qed

lemma sint_word_of_int:
  assumes "- (2 ^ 63) \<le> v" "v < 2 ^ 63"
  shows "sint (word_of_int v :: i64) = v"
  using assms signed_take_bit_int_eq_self [of 63 v] by (simp add: signed_of_int)

lemma SBits_0_0: "SBits 0 0 = Some (bits_of_int 0 v)"
  by (simp add: SBits_eq bm_eqI bits_of_int_bits FromWord_bits)

lemma SMul_eq:
  assumes "bignum_spec B val" "bm_wf a" "bm_wf b"
  shows "bits_ops_SMul B a b = Some (bits_of_int (Bits_bit_count a + Bits_bit_count b) (sval a * sval b))"
proof -
  let ?n = "Bits_bit_count a + Bits_bit_count b" and ?v = "sval a * sval b"
  show ?thesis
  proof (cases "?n \<le> 64")
    case True
    then have "Bits_bit_count a \<le> 64" "Bits_bit_count b \<le> 64" by simp_all
    then obtain x y where xy: "value_of (Bits_ToInt64 a) = Some x" "value_of (Bits_ToInt64 b) = Some y"
      "x * y = word_of_int ?v"
      using narrow_ToInt64 assms(2,3) by (metis wi_hom_mult)
    show ?thesis
    proof (cases "?n = 0")
      case zero: True
      then show ?thesis using xy SBits_0_0 [of ?v] by (simp add: bits_ops_SMul_def sval_0_width)
    next
      case False
      then have v: "- (2 ^ (?n - 1)) \<le> ?v" "?v < 2 ^ (?n - 1)" using signed_product_fits [of a b] by simp_all
      have "(2::int) ^ (?n - 1) \<le> 2 ^ 63" using True by (intro power_increasing) auto
      then have s: "sint (x * y) = ?v" unfolding xy(3) using v by (intro sint_word_of_int) linarith+
      obtain r where "SBits (x * y) ?n = Some r" "bm_wf r" "Bits_bit_count r = ?n" "sval r = ?v"
        using SBits_correct [of ?n "x * y"] False v unfolding s by auto
      moreover from this have "r = bits_of_int ?n ?v" using bits_of_int_sval by metis
      ultimately show ?thesis using True xy by (simp add: bits_ops_SMul_def)
    qed
  next
    case False
    obtain x y z where m: "BigInt_MakeSigned B a = Some x" "BigInt_MakeSigned B b = Some y"
      "BigInt_Mul B x y = Some z" and v: "val z = ?v"
      using MakeSigned_val [OF assms(1)] BigInt_arith_val(3) [OF assms(1)] assms(2,3) by metis
    have "signed_bit_length ?v \<le> Suc (?n - 1)"
      unfolding signed_bit_length_le using signed_product_fits [of a b] False by (metis not_gr_zero le0)
    then have "\<not> ?n < signed_bit_length ?v" using False by simp
    then show ?thesis
      using False m v ToSignedBitsWithBitCount_eq [OF assms(1), of z ?n] by (simp add: bits_ops_SMul_def value_of_def)
  qed
qed

lemma sdiv_nonneg: "0 \<le> x \<Longrightarrow> 0 \<le> y \<Longrightarrow> x sdiv y = x div y \<and> x smod y = x mod y" for x y :: int
  by (auto simp: signed_divide_int_def signed_modulo_int_def sgn_if minus_div_mult_eq_mod abs_if)

lemma ZeroExtend_unsigned:
  assumes "bignum_spec B val" "val z = int v" "v < 2 ^ n"
  shows "do { r \<leftarrow> BigInt_ToUnsignedBits B z; bits_ops_ZeroExtend r n } = Some (bits_of_nat n v)"
proof -
  have "bit_length v \<le> n" using assms(3) bit_length_le by blast
  moreover have "v mod 2 ^ bit_length v = v" using bit_length_bounds(1) by simp
  ultimately show ?thesis
    using ToUnsignedBits_eq [OF assms(1), of z] assms(2)
    by (simp add: ZeroExtend_eq bits_of_int_of_nat)
qed

lemma UDiv_eq:
  assumes "bignum_spec B val" "bm_wf a" "bm_wf b"
  shows "bits_ops_UDiv B a b =
    Some (if uval b = 0 then Bits_AllOnes (Bits_bit_count a)
          else bits_of_nat (Bits_bit_count a) (uval a div uval b))"
proof (cases "uval b = 0")
  case False
  obtain x y z where m: "BigInt_MakeUnsigned B a = Some x" "BigInt_MakeUnsigned B b = Some y"
    "BigInt_Div B x y = Some z" and v: "val z = int (uval a) sdiv int (uval b)"
    using MakeUnsigned_val [OF assms(1)] BigInt_arith_val(4) [OF assms(1)] assms(2,3) False
    by (metis of_nat_eq_0_iff)
  have "val z = int (uval a div uval b)" using v by (simp add: sdiv_nonneg zdiv_int)
  moreover have "uval a div uval b < 2 ^ Bits_bit_count a"
    using uval_less [of a] by (meson div_le_dividend le_less_trans)
  ultimately show ?thesis
    using m False assms ZeroExtend_unsigned [OF assms(1), of z] by (simp add: bits_ops_UDiv_def Bits_IsZero_iff)
qed (use assms in \<open>simp add: bits_ops_UDiv_def Bits_IsZero_iff\<close>)

lemma UMod_eq:
  assumes "bignum_spec B val" "bm_wf a" "bm_wf b"
  shows "bits_ops_UMod B a b =
    Some (bits_of_nat (Bits_bit_count b) (if uval b = 0 then 0 else uval a mod uval b))"
proof (cases "uval b = 0")
  case False
  obtain x y z where m: "BigInt_MakeUnsigned B a = Some x" "BigInt_MakeUnsigned B b = Some y"
    "BigInt_Mod B x y = Some z" and v: "val z = int (uval a) smod int (uval b)"
    using MakeUnsigned_val [OF assms(1)] BigInt_arith_val(5) [OF assms(1)] assms(2,3) False
    by (metis of_nat_eq_0_iff)
  have "val z = int (uval a mod uval b)" using v by (simp add: sdiv_nonneg zmod_int)
  moreover have "uval a mod uval b < 2 ^ Bits_bit_count b"
    using uval_less [of b] False by (meson less_trans mod_less_divisor neq0_conv)
  ultimately show ?thesis
    using m False assms ZeroExtend_unsigned [OF assms(1), of z] by (simp add: bits_ops_UMod_def Bits_IsZero_iff)
qed (use assms in \<open>simp add: bits_ops_UMod_def Bits_IsZero_iff bits_of_natI\<close>)

lemma sval_eq_0_iff: "sval b = 0 \<longleftrightarrow> uval b = 0"
proof
  assume "sval b = 0"
  then show "uval b = 0" using sval_mod [of b] by simp
next
  assume "uval b = 0"
  then have "bm_bits b = replicate (Bits_bit_count b) False"
    by (intro nth_equalityI) (use bit_uval [of b] in \<open>auto simp: nth_replicate simp del: bm_bits_nth\<close>)
  then show "sval b = 0" by (auto simp: sval_def bl_to_int_def last_replicate)
qed

lemma SMod_eq:
  assumes "bignum_spec B val" "bm_wf a" "bm_wf b"
  shows "bits_ops_SMod B a b =
    Some (bits_of_int (Bits_bit_count b) (if sval b = 0 then 0 else sval a smod sval b))"
proof (cases "sval b = 0")
  case True
  then show ?thesis using assms bits_of_intI [of "Bits_new (Bits_bit_count b)" _ 0]
    by (simp add: bits_ops_SMod_def Bits_IsZero_iff sval_eq_0_iff)
next
  case False
  obtain x y z where m: "BigInt_MakeSigned B a = Some x" "BigInt_MakeSigned B b = Some y"
    "BigInt_Mod B x y = Some z" "val z = sval a smod sval b"
    using MakeSigned_val [OF assms(1)] BigInt_arith_val(5) [OF assms(1)] assms(2,3) False by metis
  then show ?thesis
    using False assms BigInt_result [OF assms(1), of z] by (simp add: bits_ops_SMod_def Bits_IsZero_iff sval_eq_0_iff)
qed

lemma SDiv_eq:
  assumes "bignum_spec B val" "bm_wf a" "bm_wf b" "sval b \<noteq> 0"
  shows "bits_ops_SDiv B a b = Some (bits_of_int (Bits_bit_count a) (sval a sdiv sval b))"
proof -
  obtain x y z where m: "BigInt_MakeSigned B a = Some x" "BigInt_MakeSigned B b = Some y"
    "BigInt_Div B x y = Some z" "val z = sval a sdiv sval b"
    using MakeSigned_val [OF assms(1)] BigInt_arith_val(4) [OF assms(1)] assms(2-4) by metis
  then show ?thesis
    using assms BigInt_result [OF assms(1), of z] by (simp add: bits_ops_SDiv_def Bits_IsZero_iff sval_eq_0_iff)
qed

text \<open>Division by zero gives the extreme value of the dividend's sign.\<close>

lemma SDiv_by_zero:
  assumes "bignum_spec B val" "bm_wf a" "bm_wf b" "sval b = 0" "0 < Bits_bit_count a"
  shows "bits_ops_SDiv B a b =
    (if sval a < 0 then Bits_MinSigned (Bits_bit_count a) else Bits_MaxSigned (Bits_bit_count a))"
proof -
  let ?n = "Bits_bit_count a"
  obtain m where n: "?n = Suc m" using assms(5) by (cases ?n) auto
  have z: "Bits_IsZero b" using assms(3,4) by (simp add: Bits_IsZero_iff sval_eq_0_iff)
  have "sval (Bits_new ?n) = 0" by (simp add: sval_eq_0_iff)
  then have lt: "bits_ops_SLessThan B a (Bits_new ?n) = Some (sval a < 0)"
    using SLessThan_eq [OF assms(1,2), of "Bits_new ?n"] by simp
  have one: "UBits 1 1 = Some (bits_of_nat 1 1)" by (simp add: UBits_value)
  have "nat_to_bl 1 1 = [True]" by (simp add: nat_to_bl_def bit_0)
  then have min: "Bits_of_span (replicate m False @ nat_to_bl 1 1) = Bits_PowerOfTwo m (Suc m)"
  proof (intro bm_eqI)
    have "replicate (Suc m) False = replicate m False @ [False]" by (simp add: replicate_append_same)
    then show "nat_to_bl 1 1 = [True] \<Longrightarrow> bm_bits (Bits_of_span (replicate m False @ nat_to_bl 1 1)) =
        bm_bits (Bits_PowerOfTwo m (Suc m))"
      by (simp add: list_update_append del: replicate_Suc)
  qed simp_all
  have "bits_of_nat (Suc m) (2 ^ m - 1) = Bits_UpdateWithSet (Bits_AllOnes (Suc m)) m False"
  proof (rule bm_eqI)
    have "bit (2 ^ m - 1 :: nat) i \<longleftrightarrow> i < m" for i
      using bit_mask_iff [of m i, where ?'a = nat] unfolding mask_eq_exp_minus_1 by simp
    then show "bm_bits (bits_of_nat (Suc m) (2 ^ m - 1)) = bm_bits (Bits_UpdateWithSet (Bits_AllOnes (Suc m)) m False)"
    proof -
      have u: "bm_bits (Bits_UpdateWithSet (Bits_AllOnes (Suc m)) m False) = (replicate (Suc m) True)[m := False]"
        by (simp add: Bits_UpdateWithSet_def del: replicate_Suc)
      show ?thesis if "\<And>i. bit (2 ^ m - 1 :: nat) i \<longleftrightarrow> i < m"
        unfolding u bits_of_nat_simps by (intro nth_equalityI) (auto simp: that nth_list_update nth_replicate simp del: replicate_Suc One_nat_def)
    qed
  qed (simp_all add: Bits_UpdateWithSet_def)
  then show ?thesis
    using z lt n min one by (simp add: bits_ops_SDiv_def UBits_0 Concat_eq ZeroExtend_eq Bits_MinSigned_def
        Bits_MaxSigned_def del: replicate_Suc)
qed

lemma Abs_eq:
  assumes "bignum_spec B val" "bm_wf b" "0 < Bits_bit_count b"
  shows "bits_ops_Abs B b = Some (bits_of_int (Bits_bit_count b) \<bar>sval b\<bar>)"
proof -
  have neg: "Bits_GetFromMsb b 0 \<longleftrightarrow> sval b < 0"
  proof -
    have "bm_bits b \<noteq> []" using assms(3) by (simp add: bm_bits_eq_Nil)
    then have "sval b < 0 \<longleftrightarrow> last (bm_bits b)"
      using bl_to_nat_less [of "bm_bits b"] by (auto simp: sval_def bl_to_int_def)
    then show ?thesis using GetFromMsb_0 [of b] assms(3) by (simp add: Bits_msb_last)
  qed
  then show ?thesis
    using Negate_eq [OF assms(1,2)] bits_of_int_sval [OF assms(2)] by (auto simp: bits_ops_Abs_def)
qed

section \<open>Selecting and rewriting bits\<close>

lemma OneHotLsbToMsb_eq:
  "bits_ops_OneHotLsbToMsb b = Bits_PowerOfTwo (Bits_CountTrailingZeros b) (Bits_bit_count b + 1)"
  by (auto simp: bits_ops_OneHotLsbToMsb_def Bits_CountTrailingZeros_def first_index_def split: option.split)

lemma find_rev_highest:
  assumes "uval b \<noteq> 0"
  obtains i where "find (\<lambda>i. Bits_Get b i) (rev [0..<Bits_bit_count b]) = Some i" "i < Bits_bit_count b"
    "2 ^ i \<le> uval b" "uval b < 2 ^ Suc i"
proof -
  obtain i where i: "find (\<lambda>i. Bits_Get b i) (rev [0..<Bits_bit_count b]) = Some i"
  proof (cases "find (\<lambda>i. Bits_Get b i) (rev [0..<Bits_bit_count b])")
    case None
    then have "uval b = 0" unfolding find_upt_None by (intro bit_eqI) (auto simp: bit_uval Bits_Get_nth simp del: bm_bits_nth)
    with assms show ?thesis by simp
  qed
  note f = find_rev_upt [OF i]
  have "bit (uval b) i" using f Bits_Get_bit by blast
  then have "2 ^ i \<le> uval b" by (rule bit_nat_le)
  moreover have "\<not> bit (uval b) k" if "Suc i \<le> k" for k
    using f that by (cases "k < Bits_bit_count b") (auto simp: Bits_Get_bit bit_uval)
  then have "uval b < 2 ^ Suc i" unfolding nat_less_exp_iff_bits by blast
  ultimately show ?thesis using i f that by blast
qed

lemma OneHotMsbToLsb_eq:
  "bits_ops_OneHotMsbToLsb b =
    Bits_PowerOfTwo (if uval b = 0 then Bits_bit_count b else bit_length (uval b) - 1) (Bits_bit_count b + 1)"
proof (cases "uval b = 0")
  case True
  then have "find (\<lambda>i. Bits_Get b i) (rev [0..<Bits_bit_count b]) = None"
    by (simp add: find_upt_None Bits_Get_bit)
  with True show ?thesis by (simp add: bits_ops_OneHotMsbToLsb_def)
next
  case False
  then obtain i where i: "find (\<lambda>i. Bits_Get b i) (rev [0..<Bits_bit_count b]) = Some i"
    "2 ^ i \<le> uval b" "uval b < 2 ^ Suc i" by (rule find_rev_highest)
  then have "bit_length (uval b) = Suc i"
    using bit_length_le [of "uval b" "Suc i"] bit_length_le [of "uval b" i] by simp
  with False i(1) show ?thesis by (simp add: bits_ops_OneHotMsbToLsb_def)
qed

lemma DropLeadingZeroes_eq:
  assumes "bm_wf b"
  shows "bits_ops_DropLeadingZeroes b = Some (bits_of_nat (bit_length (uval b)) (uval b))"
proof (cases "uval b = 0")
  case True
  then have "find (\<lambda>i. Bits_Get b i) (rev [0..<Bits_bit_count b]) = None"
    by (simp add: find_upt_None Bits_Get_bit)
  with True show ?thesis by (simp add: bits_ops_DropLeadingZeroes_def bit_length.simps bits_of_natI)
next
  case False
  then obtain i where i: "find (\<lambda>i. Bits_Get b i) (rev [0..<Bits_bit_count b]) = Some i" "i < Bits_bit_count b"
    "2 ^ i \<le> uval b" "uval b < 2 ^ Suc i" by (rule find_rev_highest)
  then have "bit_length (uval b) = Suc i"
    using bit_length_le [of "uval b" "Suc i"] bit_length_le [of "uval b" i] by simp
  with False i(1,2) show ?thesis using Slice_uval [OF assms, of 0 "Suc i"]
    by (simp add: bits_ops_DropLeadingZeroes_def)
qed

lemma BitSliceUpdate_eq:
  assumes "bm_wf a" "bm_wf b"
  shows "bits_ops_BitSliceUpdate a start b = Some (Bits_of_span
    (map (\<lambda>i. if start \<le> i \<and> i < start + Bits_bit_count b then bm_bits b ! (i - start) else bm_bits a ! i)
      [0..<Bits_bit_count a]))"
proof (cases "start < Bits_bit_count a")
  case False
  then have "a = Bits_of_span (map (\<lambda>i. if start \<le> i \<and> i < start + Bits_bit_count b
      then bm_bits b ! (i - start) else bm_bits a ! i) [0..<Bits_bit_count a])"
    using assms by (intro bm_eqI nth_equalityI) (auto simp del: bm_bits_nth)
  then show ?thesis using False by (simp add: bits_ops_BitSliceUpdate_def)
next
  case True
  let ?n = "Bits_bit_count a" and ?m = "Bits_bit_count b"
  have "take start (bm_bits a) @ take (min ?m (?n - start)) (bm_bits b) @ drop (min ?n (start + ?m)) (bm_bits a) =
    map (\<lambda>i. if start \<le> i \<and> i < start + ?m then bm_bits b ! (i - start) else bm_bits a ! i) [0..<?n]"
    by (intro nth_equalityI) (use True in \<open>auto simp: nth_append min_def simp del: bm_bits_nth\<close>)
  then show ?thesis
    using True assms by (simp add: bits_ops_BitSliceUpdate_def Let_def Slice_eq Concat_eq)
qed

text \<open>The longest common prefix: the inputs agree on it, and differ at the next position.\<close>

definition agree_at :: "Bits \<Rightarrow> Bits list \<Rightarrow> nat \<Rightarrow> bool" where
  "agree_at b rest i \<longleftrightarrow> (\<forall>c \<in> set rest. bm_bits c ! i = bm_bits b ! i)"

lemma agree_at_iff:
  assumes "list_all (\<lambda>c. Bits_bit_count c = Bits_bit_count b) (b # rest)" "i < Bits_bit_count b"
  shows "list_ex (\<lambda>c. Bits_Get b i \<noteq> Bits_Get c i) rest \<longleftrightarrow> \<not> agree_at b rest i"
  using assms by (auto simp: agree_at_def list_all_iff list_ex_iff Bits_Get_nth simp del: bm_bits_nth)

lemma LongestCommonPrefixLSB_eq:
  assumes "bm_wf b" "list_all (\<lambda>c. Bits_bit_count c = Bits_bit_count b) (b # rest)"
  shows "\<exists>k \<le> Bits_bit_count b. bits_ops_LongestCommonPrefixLSB (b # rest) = Some (Bits_of_span (take k (bm_bits b))) \<and>
    (\<forall>i < k. agree_at b rest i) \<and> (k < Bits_bit_count b \<longrightarrow> \<not> agree_at b rest k)"
proof -
  let ?n = "Bits_bit_count b"
  define P where "P = (\<lambda>i. list_ex (\<lambda>c. Bits_Get b i \<noteq> Bits_Get c i) rest)"
  have agree: "P i \<longleftrightarrow> \<not> agree_at b rest i" if "i < ?n" for i
    unfolding P_def using agree_at_iff [OF assms(2) that] .
  define k where "k = (case find P [0..<?n] of Some i \<Rightarrow> i | None \<Rightarrow> ?n)"
  have "k \<le> ?n \<and> (\<forall>i < k. agree_at b rest i) \<and> (k < ?n \<longrightarrow> \<not> agree_at b rest k)"
  proof (cases "find P [0..<?n]")
    case None
    show ?thesis using agree None [unfolded find_upt_None] by (simp add: k_def None)
  next
    case (Some i)
    then have "k = i" by (simp add: k_def)
    then show ?thesis using find_upt [OF Some] agree by auto
  qed
  moreover from this have "bits_ops_LongestCommonPrefixLSB (b # rest) = Some (Bits_of_span (take k (bm_bits b)))"
    using assms(1,2) Slice_eq [of b 0 k] unfolding bits_ops_LongestCommonPrefixLSB.simps Let_def P_def [symmetric] k_def [symmetric]
    by simp
  ultimately show ?thesis by blast
qed

lemma LongestCommonPrefixMSB_eq:
  assumes "bm_wf b" "list_all (\<lambda>c. Bits_bit_count c = Bits_bit_count b) (b # rest)"
  shows "\<exists>k \<le> Bits_bit_count b. bits_ops_LongestCommonPrefixMSB (b # rest) = Some (Bits_of_span (drop k (bm_bits b))) \<and>
    (\<forall>i. k \<le> i \<and> i < Bits_bit_count b \<longrightarrow> agree_at b rest i) \<and> (0 < k \<longrightarrow> \<not> agree_at b rest (k - 1))"
proof -
  let ?n = "Bits_bit_count b"
  define P where "P = (\<lambda>i. list_ex (\<lambda>c. Bits_Get b i \<noteq> Bits_Get c i) rest)"
  have agree: "P i \<longleftrightarrow> \<not> agree_at b rest i" if "i < ?n" for i
    unfolding P_def using agree_at_iff [OF assms(2) that] .
  define d where "d = (case find P (rev [0..<?n]) of Some i \<Rightarrow> int i | None \<Rightarrow> - 1)"
  define k where "k = nat (d + 1)"
  have k: "k \<le> ?n \<and> (\<forall>i. k \<le> i \<and> i < ?n \<longrightarrow> agree_at b rest i) \<and> (0 < k \<longrightarrow> \<not> agree_at b rest (k - 1))"
  proof (cases "find P (rev [0..<?n])")
    case None
    show ?thesis using agree None [unfolded find_upt_None] by (simp add: k_def d_def None)
  next
    case (Some i)
    have "k = Suc i" by (simp add: k_def d_def Some)
    then show ?thesis using find_rev_upt [OF Some] agree by auto
  qed
  have "nat (int ?n - d - 1) = ?n - k"
    by (cases "find P (rev [0..<?n])") (auto simp: k_def d_def)
  then have "bits_ops_LongestCommonPrefixMSB (b # rest) = Bits_Slice b k (?n - k)"
    using assms(2) unfolding bits_ops_LongestCommonPrefixMSB.simps Let_def P_def [symmetric] d_def [symmetric] k_def [symmetric]
    by simp
  also have "\<dots> = Some (Bits_of_span (drop k (bm_bits b)))" using k assms(1) by (simp add: Slice_eq)
  finally show ?thesis using k by blast
qed

section \<open>Digit strings\<close>

text \<open>Reading a digit string back, skipping the separators.\<close>

definition digit_of_char :: "char \<Rightarrow> nat" where
  "digit_of_char c = (let n = of_char c in if n < 58 then n - 48 else n - 87)"

definition digits_value :: "nat \<Rightarrow> string \<Rightarrow> nat" where
  "digits_value base s = foldl (\<lambda>acc c. if c = CHR ''_'' then acc else acc * base + digit_of_char c) 0 s"

lemma hex_string_digit: "v < 16 \<Longrightarrow> hex_string v = [hex_digit v]"
  by (simp add: hex_string.simps)

lemma hex_digit_value: "v < 16 \<Longrightarrow> digit_of_char (hex_digit v) = v \<and> hex_digit v \<noteq> CHR ''_''"
proof -
  assume "v < 16"
  then have c: "of_char (hex_digit v) = (if v < 10 then 48 + v else 87 + v)"
    by (simp add: hex_digit_def of_char_of)
  then have "hex_digit v \<noteq> CHR ''_''" using \<open>v < 16\<close> by (auto split: if_splits)
  with c show ?thesis using \<open>v < 16\<close> by (simp add: digit_of_char_def Let_def)
qed

lemma digits_value_snoc:
  "digits_value base (s @ [c]) = (if c = CHR ''_'' then digits_value base s else digits_value base s * base + digit_of_char c)"
  by (simp add: digits_value_def)

lemma digit_slice:
  assumes "bm_wf b" "0 < w" "w \<le> 4" "d * w < Bits_bit_count b"
  shows "\<exists>s. Bits_Slice b (d * w) (min w (Bits_bit_count b - d * w)) = Some s \<and>
    value_of (Bits_ToUint64 s) = Some (of_nat (uval b div 2 ^ (d * w) mod 2 ^ w))"
proof -
  let ?m = "min w (Bits_bit_count b - d * w)"
  have s: "Bits_Slice b (d * w) ?m = Some (bits_of_nat ?m (uval b div 2 ^ (d * w)))"
    using assms by (intro Slice_uval) auto
  have "uval b div 2 ^ (d * w) < 2 ^ (Bits_bit_count b - d * w)"
    using uval_less [of b] assms(4) by (simp add: div_less_iff_less_mult flip: power_add)
  then have "uval b div 2 ^ (d * w) mod 2 ^ ?m = uval b div 2 ^ (d * w) mod 2 ^ w"
    by (auto simp: min_def intro!: mod_less [symmetric] elim!: less_le_trans)
  then show ?thesis using s assms(3) by (simp add: narrow_ToUint64)
qed

lemma raw_digits_loop_value:
  assumes "bm_wf b" "0 < w" "w \<le> 4" "n * w < Bits_bit_count b + w"
    and "eliding \<longrightarrow> out = [] \<and> uval b div 2 ^ (n * w) = 0"
    and "digits_value (2 ^ w) out = uval b div 2 ^ (n * w)"
  shows "\<exists>s. raw_digits_loop b w sep n out eliding = Some s \<and> digits_value (2 ^ w) s = uval b"
  using assms(4-)
proof (induction n arbitrary: out eliding)
  case 0
  then show ?case by simp
next
  case (Suc d)
  let ?v = "uval b div 2 ^ (d * w) mod 2 ^ w"
  let ?out = "if sep \<and> (d + 1) mod 4 = 0 \<and> out \<noteq> [] then out @ ''_'' else out"
  have dw: "d * w < Bits_bit_count b" using Suc.prems(1) by simp
  have v16: "?v < 16"
  proof -
    have "?v < 2 ^ w" by simp
    also have "(2::nat) ^ w \<le> 2 ^ 4" using assms(3) by (intro power_increasing) auto
    finally show ?thesis by simp
  qed
  then have uv: "unat (of_nat ?v :: u64) = ?v" "(of_nat ?v :: u64) = 0 \<longleftrightarrow> ?v = 0"
    by (simp_all add: unat_of_nat word_unat_eq_iff)
  have out: "digits_value (2 ^ w) ?out = uval b div 2 ^ (Suc d * w)"
    using Suc.prems(3) by (simp add: digits_value_snoc)
  have split: "uval b div 2 ^ (d * w) = uval b div 2 ^ (Suc d * w) * 2 ^ w + ?v"
    by (simp add: power_add mult.commute [of "2 ^ w"] div_mult2_eq div_mult_mod_eq)
  show ?case
  proof (cases "?v = 0 \<and> eliding \<and> d \<noteq> 0")
    case True
    then have "uval b div 2 ^ (d * w) = 0" using split Suc.prems(2) by simp
    then have "\<exists>s. raw_digits_loop b w sep d ?out eliding = Some s \<and> digits_value (2 ^ w) s = uval b"
      using True Suc.prems dw by (intro Suc.IH) (auto simp: digits_value_def)
    then show ?thesis using digit_slice [OF assms(1-3) dw] True uv by auto
  next
    case False
    have "digits_value (2 ^ w) (?out @ hex_string ?v) = uval b div 2 ^ (d * w)"
      using hex_digit_value [OF v16] out split by (simp add: hex_string_digit [OF v16] digits_value_snoc)
    then have "\<exists>s. raw_digits_loop b w sep d (?out @ hex_string ?v) False = Some s \<and> digits_value (2 ^ w) s = uval b"
      using dw by (intro Suc.IH) auto
    then show ?thesis using digit_slice [OF assms(1-3) dw] False uv by (auto simp del: raw_digits_loop.simps(1))
  qed
qed

lemma BitsToRawDigits_value:
  assumes "bm_wf b" "0 < Bits_bit_count b" "preference \<in> {kBinary, kPlainBinary, kHex, kPlainHex}"
  shows "\<exists>s. BitsToRawDigits B b preference z = Some s \<and>
    digits_value (if preference \<in> {kBinary, kPlainBinary} then 2 else 16) s = uval b"
proof -
  define w :: nat where "w = (if preference \<in> {kBinary, kPlainBinary} then 1 else 4)"
  define n where "n = CeilOfRatio_nat (Bits_bit_count b) w"
  have w: "0 < w" "w \<le> 4" by (simp_all add: w_def)
  have n: "Bits_bit_count b \<le> n * w" "n * w < Bits_bit_count b + w"
    by (auto simp: n_def w_def CeilOfRatio_nat_eq)
  have "(2::nat) ^ Bits_bit_count b \<le> 2 ^ (n * w)" using n(1) by (intro power_increasing) auto
  then have "uval b < 2 ^ (n * w)" using uval_less [of b] by (meson less_le_trans)
  then have "uval b div 2 ^ (n * w) = 0" by (rule div_less)
  then have "\<exists>s. raw_digits_loop b w sep n [] el = Some s \<and> digits_value (2 ^ w) s = uval b" for sep el
    using assms(1) w n(2) by (intro raw_digits_loop_value) (simp_all add: digits_value_def)
  then show ?thesis
    using assms(2,3) by (auto simp: BitsToRawDigits_def w_def n_def)
qed

end
