(* ===== verification/Ternary.thy ===== *)
theory Ternary
  imports Bits_Ops
begin

unbundle bit_operations_syntax

text \<open>
  Models \<open>xls/ir/ternary.h\<close> and \<open>xls/ir/ternary.cc\<close>: the three-valued bits the analyses
  propagate, the operations on vectors of them, their printed form, and \<open>RealizedTernaryIterator\<close>,
  which enumerates the concrete values a vector allows. A vector stands for the set of bit vectors
  compatible with it; the lemmas relate the operations to that set, and show that the iterator visits
  exactly its members, in increasing order.
\<close>

section \<open>Values and vectors\<close>

datatype TernaryValue = kKnownZero | kKnownOne | kUnknown

type_synonym TernaryVector = "TernaryValue list"

fun TernaryValue_ToString :: "TernaryValue \<Rightarrow> string" where
  "TernaryValue_ToString kKnownZero = ''TernaryValue::kKnownZero''"
| "TernaryValue_ToString kKnownOne = ''TernaryValue::kKnownOne''"
| "TernaryValue_ToString kUnknown = ''TernaryValue::kUnknown''"

fun ternary_symbol :: "TernaryValue \<Rightarrow> char" where
  "ternary_symbol kKnownZero = CHR ''0''"
| "ternary_symbol kKnownOne = CHR ''1''"
| "ternary_symbol kUnknown = CHR ''X''"

definition ternary_ToString :: "TernaryVector \<Rightarrow> string" where
  "ternary_ToString v = ''0b'' @
     concat (map (\<lambda>i. ternary_symbol (v ! i) # (if i \<noteq> 0 \<and> i mod 4 = 0 then ''_'' else [])) (rev [0..<length v]))"

fun parse_ternary_chars :: "string \<Rightarrow> TernaryVector \<Rightarrow> status_code + TernaryVector" where
  "parse_ternary_chars [] acc = Inr acc"
| "parse_ternary_chars (c # s) acc =
     (if c = CHR ''0'' then parse_ternary_chars s (acc @ [kKnownZero])
      else if c = CHR ''1'' then parse_ternary_chars s (acc @ [kKnownOne])
      else if c = CHR ''X'' \<or> c = CHR ''x'' then parse_ternary_chars s (acc @ [kUnknown])
      else if c = CHR ''_'' then parse_ternary_chars s acc
      else Inl InvalidArgument)"

definition StringToTernaryVector :: "string \<Rightarrow> status_code + TernaryVector" where
  "StringToTernaryVector s =
     (if take 2 s \<noteq> ''0b'' then Inl InvalidArgument
      else case parse_ternary_chars (drop 2 s) [] of Inl e \<Rightarrow> Inl e | Inr v \<Rightarrow> Inr (rev v))"

section \<open>Operations\<close>

definition ternary_ops_FromKnownBits :: "Bits \<Rightarrow> Bits \<Rightarrow> TernaryVector option" where
  "ternary_ops_FromKnownBits known_bits known_bits_values =
     (if Bits_bit_count known_bits \<noteq> Bits_bit_count known_bits_values then None
      else Some (map (\<lambda>i. if Bits_Get known_bits i
                          then (if Bits_Get known_bits_values i then kKnownOne else kKnownZero)
                          else kUnknown) [0..<Bits_bit_count known_bits]))"

definition ternary_ops_ToKnownBits :: "TernaryVector \<Rightarrow> Bits" where
  "ternary_ops_ToKnownBits v = Bits_of_span (map (\<lambda>t. t \<noteq> kUnknown) v)"

definition ternary_ops_ToKnownBitsValues :: "TernaryVector \<Rightarrow> Bits" where
  "ternary_ops_ToKnownBitsValues v = Bits_of_span (map (\<lambda>t. t = kKnownOne) v)"

fun Difference_loop :: "TernaryVector \<Rightarrow> TernaryVector \<Rightarrow> TernaryVector option" where
  "Difference_loop (l # ls) (r # rs) =
     (if l \<noteq> kUnknown then
        if r = kUnknown then map_option ((#) l) (Difference_loop ls rs)
        else if l \<noteq> r then None
        else map_option ((#) kUnknown) (Difference_loop ls rs)
      else map_option ((#) kUnknown) (Difference_loop ls rs))"
| "Difference_loop _ _ = Some []"

text \<open>The outer \<open>None\<close> is the failed \<open>CHECK\<close>; the inner one is \<open>std::nullopt\<close>.\<close>

definition ternary_ops_Difference :: "TernaryVector \<Rightarrow> TernaryVector \<Rightarrow> TernaryVector option option" where
  "ternary_ops_Difference lhs rhs =
     (if length lhs \<noteq> length rhs then None else Some (Difference_loop lhs rhs))"

fun Union_loop :: "TernaryVector \<Rightarrow> TernaryVector \<Rightarrow> status_code + TernaryVector" where
  "Union_loop (l # ls) (r # rs) =
     (if l = kUnknown then map_sum id ((#) r) (Union_loop ls rs)
      else if r = kUnknown then map_sum id ((#) l) (Union_loop ls rs)
      else if l = r then map_sum id ((#) l) (Union_loop ls rs)
      else Inl InvalidArgument)"
| "Union_loop _ _ = Inr []"

definition ternary_ops_Union :: "TernaryVector \<Rightarrow> TernaryVector \<Rightarrow> (status_code + TernaryVector) option" where
  "ternary_ops_Union lhs rhs =
     (if length lhs \<noteq> length rhs then None else Some (Union_loop lhs rhs))"

text \<open>The in-place update: the vector as the loop leaves it, and the status.\<close>

fun UpdateWithUnion_loop :: "TernaryVector \<Rightarrow> TernaryVector \<Rightarrow> TernaryVector \<times> (status_code + unit)" where
  "UpdateWithUnion_loop (l # ls) (r # rs) =
     (if r = kUnknown then map_prod ((#) l) id (UpdateWithUnion_loop ls rs)
      else if l = kUnknown then map_prod ((#) r) id (UpdateWithUnion_loop ls rs)
      else if l \<noteq> r then (l # ls, Inl InvalidArgument)
      else map_prod ((#) l) id (UpdateWithUnion_loop ls rs))"
| "UpdateWithUnion_loop ls _ = (ls, Inr ())"

definition ternary_ops_UpdateWithUnion ::
    "TernaryVector \<Rightarrow> TernaryVector \<Rightarrow> (TernaryVector \<times> (status_code + unit)) option" where
  "ternary_ops_UpdateWithUnion lhs rhs =
     (if length lhs \<noteq> length rhs then None else Some (UpdateWithUnion_loop lhs rhs))"

definition ternary_ops_Intersection :: "TernaryVector \<Rightarrow> TernaryVector \<Rightarrow> TernaryVector option" where
  "ternary_ops_Intersection lhs rhs =
     (if length lhs \<noteq> length rhs then None
      else Some (map2 (\<lambda>l r. if l \<noteq> r then kUnknown else l) lhs rhs))"

definition ternary_ops_IsCompatible :: "TernaryVector \<Rightarrow> Bits \<Rightarrow> bool" where
  "ternary_ops_IsCompatible pattern bits \<longleftrightarrow>
     (if length pattern \<noteq> Bits_bit_count bits then False
      else list_all (\<lambda>i. pattern ! i = kUnknown \<or> Bits_Get bits i = (pattern ! i = kKnownOne)) [0..<length pattern])"

definition ternary_ops_UpdateWithIntersection :: "TernaryVector \<Rightarrow> TernaryVector \<Rightarrow> TernaryVector option" where
  "ternary_ops_UpdateWithIntersection lhs rhs =
     (if length lhs \<noteq> length rhs then None
      else Some (map (\<lambda>i. if lhs ! i \<noteq> rhs ! i then kUnknown else lhs ! i) [0..<length lhs]))"

definition ternary_ops_UpdateWithIntersection_bits :: "TernaryVector \<Rightarrow> Bits \<Rightarrow> TernaryVector option" where
  "ternary_ops_UpdateWithIntersection_bits lhs rhs =
     (if length lhs \<noteq> Bits_bit_count rhs then None
      else Some (map (\<lambda>i. if lhs ! i = kUnknown then lhs ! i
                          else if (lhs ! i = kKnownOne) \<noteq> Bits_Get rhs i then kUnknown
                          else lhs ! i) [0..<length lhs]))"

definition ternary_ops_NumberOfKnownBits :: "TernaryVector \<Rightarrow> nat" where
  "ternary_ops_NumberOfKnownBits v = fold (\<lambda>t n. if t \<noteq> kUnknown then n + 1 else n) v 0"

definition ternary_ops_IsKnown :: "TernaryValue \<Rightarrow> bool" where
  "ternary_ops_IsKnown t \<longleftrightarrow> t \<noteq> kUnknown"

definition ternary_ops_IsUnknown :: "TernaryValue \<Rightarrow> bool" where
  "ternary_ops_IsUnknown t \<longleftrightarrow> t = kUnknown"

definition ternary_ops_IsFullyKnown :: "TernaryVector \<Rightarrow> bool" where
  "ternary_ops_IsFullyKnown v = list_all ternary_ops_IsKnown v"

definition ternary_ops_AllUnknown :: "TernaryVector \<Rightarrow> bool" where
  "ternary_ops_AllUnknown v = list_all ternary_ops_IsUnknown v"

definition ternary_ops_IsKnownOne :: "TernaryVector \<Rightarrow> bool" where
  "ternary_ops_IsKnownOne v = list_all (\<lambda>t. t = kKnownOne) v"

definition ternary_ops_IsKnownZero :: "TernaryVector \<Rightarrow> bool" where
  "ternary_ops_IsKnownZero v = list_all (\<lambda>t. t = kKnownZero) v"

definition ternary_ops_And :: "TernaryValue \<Rightarrow> TernaryValue \<Rightarrow> TernaryValue" where
  "ternary_ops_And a b =
     (if a = kKnownZero \<or> b = kKnownZero then kKnownZero
      else if a = kKnownOne \<and> b = kKnownOne then kKnownOne
      else kUnknown)"

definition ternary_ops_Or :: "TernaryValue \<Rightarrow> TernaryValue \<Rightarrow> TernaryValue" where
  "ternary_ops_Or a b =
     (if a = kKnownOne \<or> b = kKnownOne then kKnownOne
      else if a = kKnownZero \<and> b = kKnownZero then kKnownZero
      else kUnknown)"

definition ternary_ops_BitsToTernary :: "Bits \<Rightarrow> TernaryVector" where
  "ternary_ops_BitsToTernary bits =
     map (\<lambda>i. if Bits_Get bits i then kKnownOne else kKnownZero) [0..<Bits_bit_count bits]"

section \<open>The iterator over concrete values\<close>

record RealizedTernaryIterator =
  rti_finished :: bool
  rti_value :: Bits
  rti_unknown_bit_offsets :: "nat list"

definition RealizedTernaryIterator_FindUnknownOffsets :: "TernaryVector \<Rightarrow> nat list" where
  "RealizedTernaryIterator_FindUnknownOffsets v = filter (\<lambda>i. v ! i = kUnknown) [0..<length v]"

definition RealizedTernaryIterator_end :: RealizedTernaryIterator where
  "RealizedTernaryIterator_end =
     \<lparr>rti_finished = True, rti_value = Bits_new 0, rti_unknown_bit_offsets = []\<rparr>"

definition RealizedTernaryIterator_begin :: "TernaryVector \<Rightarrow> RealizedTernaryIterator" where
  "RealizedTernaryIterator_begin v =
     \<lparr>rti_finished = False, rti_value = ternary_ops_ToKnownBitsValues v,
      rti_unknown_bit_offsets = RealizedTernaryIterator_FindUnknownOffsets v\<rparr>"

definition RealizedTernaryIterator_deref :: "RealizedTernaryIterator \<Rightarrow> Bits option" where
  "RealizedTernaryIterator_deref it = (if rti_finished it then None else Some (rti_value it))"

definition RealizedTernaryIterator_eq :: "RealizedTernaryIterator \<Rightarrow> RealizedTernaryIterator \<Rightarrow> bool" where
  "RealizedTernaryIterator_eq it other \<longleftrightarrow>
     (if rti_finished it \<noteq> rti_finished other then False
      else if rti_finished it \<and> rti_finished other then True
      else InlineBitmap_eq (rti_value it) (rti_value other))"

fun IncrementOnOffsets :: "inline_bitmap \<Rightarrow> nat list \<Rightarrow> bool \<times> inline_bitmap" where
  "IncrementOnOffsets bm [] = (True, bm)"
| "IncrementOnOffsets bm (off # offsets) =
     (if \<not> InlineBitmap_Get bm off then (False, InlineBitmap_Set bm off True)
      else IncrementOnOffsets (InlineBitmap_Set bm off False) offsets)"

text \<open>\<open>absl::Span::subspan\<close> throws when the position is beyond the end: the \<open>None\<close> here.\<close>

definition increment_subspan :: "inline_bitmap \<Rightarrow> nat list \<Rightarrow> nat \<Rightarrow> (bool \<times> inline_bitmap) option" where
  "increment_subspan bm offsets i =
     (if i > length offsets then None else Some (IncrementOnOffsets bm (drop i offsets)))"

fun Advance_bits_loop ::
    "Bits \<Rightarrow> nat list \<Rightarrow> nat list \<Rightarrow> bool \<Rightarrow> inline_bitmap \<Rightarrow> (bool \<times> inline_bitmap) option" where
  "Advance_bits_loop amnt offsets [] finished bm = Some (finished, bm)"
| "Advance_bits_loop amnt offsets (i # rest) finished bm =
     (if finished then Some (finished, bm)
      else if Bits_Get amnt i then do {
        r \<leftarrow> increment_subspan bm offsets i;
        Advance_bits_loop amnt offsets rest (fst r) (snd r)
      }
      else Advance_bits_loop amnt offsets rest finished bm)"

definition RealizedTernaryIterator_Advance_bits ::
    "RealizedTernaryIterator \<Rightarrow> Bits \<Rightarrow> RealizedTernaryIterator option" where
  "RealizedTernaryIterator_Advance_bits it amnt =
     (if Bits_bit_count (rti_value it) = 0 \<and> \<not> Bits_IsZero amnt then Some (it\<lparr>rti_finished := True\<rparr>)
      else do {
        r \<leftarrow> Advance_bits_loop amnt (rti_unknown_bit_offsets it)
               [0..<Bits_bit_count amnt - Bits_CountLeadingZeros amnt] (rti_finished it) (rti_value it);
        Some (it\<lparr>rti_finished := fst r, rti_value := snd r\<rparr>)
      })"

function Advance_loop ::
    "nat list \<Rightarrow> nat \<Rightarrow> nat \<Rightarrow> bool \<Rightarrow> inline_bitmap \<Rightarrow> (bool \<times> inline_bitmap) option" where
  "Advance_loop offsets i amnt finished bm =
     (if i < 64 \<and> amnt \<noteq> 0 \<and> \<not> finished then
        if odd amnt then do {
          r \<leftarrow> increment_subspan bm offsets i;
          Advance_loop offsets (i + 1) (amnt div 2) (fst r) (snd r)
        }
        else Advance_loop offsets (i + 1) (amnt div 2) finished bm
      else Some (finished, bm))"
  by pat_completeness auto
termination by (relation "measure (\<lambda>(offsets, i, amnt, finished, bm). 64 - i)") auto

definition RealizedTernaryIterator_Advance ::
    "RealizedTernaryIterator \<Rightarrow> int \<Rightarrow> RealizedTernaryIterator option" where
  "RealizedTernaryIterator_Advance it amnt =
     (if amnt < 0 then None
      else if Bits_bit_count (rti_value it) = 0 \<and> amnt \<noteq> 0 then Some (it\<lparr>rti_finished := True\<rparr>)
      else do {
        r \<leftarrow> Advance_loop (rti_unknown_bit_offsets it) 0 (nat amnt) (rti_finished it) (rti_value it);
        Some (it\<lparr>rti_finished := fst r, rti_value := snd r\<rparr>)
      })"

declare Advance_loop.simps [simp del]

text \<open>A loop over the range \<open>AllBitsValues\<close>: the values it visits, in order.\<close>

partial_function (option) rti_visit :: "RealizedTernaryIterator \<Rightarrow> Bits list option" where
  "rti_visit it =
     (if RealizedTernaryIterator_eq it RealizedTernaryIterator_end then Some []
      else do {
        v \<leftarrow> RealizedTernaryIterator_deref it;
        it' \<leftarrow> RealizedTernaryIterator_Advance it 1;
        vs \<leftarrow> rti_visit it';
        Some (v # vs)
      })"

definition AllBitsValues :: "TernaryVector \<Rightarrow> Bits list option" where
  "AllBitsValues v = rti_visit (RealizedTernaryIterator_begin v)"

section \<open>The set of bit vectors a ternary vector allows\<close>

definition ternary_allows :: "TernaryVector \<Rightarrow> bool list \<Rightarrow> bool" where
  "ternary_allows v bs = list_all2 (\<lambda>t b. t = kUnknown \<or> b = (t = kKnownOne)) v bs"

lemma ternary_allows_simps [simp]:
  "ternary_allows [] bs \<longleftrightarrow> bs = []" "ternary_allows v [] \<longleftrightarrow> v = []"
  "ternary_allows (t # v) (b # bs) \<longleftrightarrow> (t = kUnknown \<or> b = (t = kKnownOne)) \<and> ternary_allows v bs"
  by (auto simp: ternary_allows_def)

lemma ternary_allows_length: "ternary_allows v bs \<Longrightarrow> length bs = length v"
  by (simp add: ternary_allows_def list_all2_lengthD)

lemma ternary_allows_nth:
  "ternary_allows v bs \<longleftrightarrow> length bs = length v \<and>
    (\<forall>i < length v. v ! i = kUnknown \<or> bs ! i = (v ! i = kKnownOne))"
  by (auto simp: ternary_allows_def list_all2_conv_all_nth)

lemma ternary_allows_Cons: "ternary_allows (t # v) bs \<longleftrightarrow>
    (\<exists>b bs'. bs = b # bs' \<and> (t = kUnknown \<or> b = (t = kKnownOne)) \<and> ternary_allows v bs')"
  by (cases bs) auto

text \<open>Every vector allows some value: the one that reads unknown bits as zero.\<close>

lemma ternary_allows_least: "ternary_allows v (map (\<lambda>t. t = kKnownOne) v)"
  by (simp add: ternary_allows_nth)

lemma IsCompatible_iff: "ternary_ops_IsCompatible v b \<longleftrightarrow> ternary_allows v (bm_bits b)"
  by (auto simp: ternary_ops_IsCompatible_def ternary_allows_nth list_all_iff Bits_Get_nth simp del: bm_bits_nth)

lemma BitsToTernary_allows: "ternary_allows (ternary_ops_BitsToTernary b) bs \<longleftrightarrow> bs = bm_bits b"
  by (auto simp: ternary_ops_BitsToTernary_def ternary_allows_nth Bits_Get_nth intro!: nth_equalityI
      simp del: bm_bits_nth)

lemma Union_loop_allows:
  "length ls = length rs \<Longrightarrow>
   (case Union_loop ls rs of
      Inr v \<Rightarrow> length v = length ls \<and> (\<forall>bs. ternary_allows v bs \<longleftrightarrow> ternary_allows ls bs \<and> ternary_allows rs bs)
    | Inl e \<Rightarrow> e = InvalidArgument \<and> (\<forall>bs. \<not> (ternary_allows ls bs \<and> ternary_allows rs bs)))"
proof (induction ls rs rule: list_induct2)
  case (Cons l ls r rs)
  show ?case
  proof (cases "Union_loop ls rs")
    case (Inl e)
    then show ?thesis using Cons.IH by (cases l; cases r) (auto simp: ternary_allows_Cons)
  next
    case (Inr v)
    then show ?thesis using Cons.IH by (cases l; cases r) (auto simp: ternary_allows_Cons)
  qed
qed auto

lemma UpdateWithUnion_loop_eq:
  "length ls = length rs \<Longrightarrow>
   (case Union_loop ls rs of
      Inr v \<Rightarrow> UpdateWithUnion_loop ls rs = (v, Inr ())
    | Inl e \<Rightarrow> snd (UpdateWithUnion_loop ls rs) = Inl e)"
proof (induction ls rs rule: list_induct2)
  case (Cons l ls r rs)
  then show ?case by (cases "Union_loop ls rs"; cases l; cases r) auto
qed auto

lemma Difference_loop_allows:
  "length ls = length rs \<Longrightarrow>
   (case Difference_loop ls rs of
      Some d \<Rightarrow> length d = length ls \<and>
        (\<forall>bs. ternary_allows rs bs \<longrightarrow> (ternary_allows ls bs \<longleftrightarrow> ternary_allows d bs))
    | None \<Rightarrow> \<forall>bs. \<not> (ternary_allows ls bs \<and> ternary_allows rs bs))"
proof (induction ls rs rule: list_induct2)
  case (Cons l ls r rs)
  show ?case
  proof (cases "Difference_loop ls rs")
    case None
    then show ?thesis using Cons.IH by (cases l; cases r) (auto simp: ternary_allows_Cons)
  next
    case (Some v)
    then show ?thesis using Cons.IH by (cases l; cases r) (auto simp: ternary_allows_Cons)
  qed
qed auto

lemma Intersection_allows:
  assumes "length ls = length rs"
  obtains v where "ternary_ops_Intersection ls rs = Some v"
    "\<And>bs. ternary_allows ls bs \<or> ternary_allows rs bs \<Longrightarrow> ternary_allows v bs"
    "\<And>u bs. (\<And>bs. ternary_allows ls bs \<or> ternary_allows rs bs \<Longrightarrow> ternary_allows u bs) \<Longrightarrow> ternary_allows v bs \<Longrightarrow> ternary_allows u bs"
proof -
  let ?v = "map2 (\<lambda>l r. if l \<noteq> r then kUnknown else l) ls rs"
  show ?thesis
  proof (rule that)
    show "ternary_ops_Intersection ls rs = Some ?v" using assms by (simp add: ternary_ops_Intersection_def)
    show "ternary_allows ls bs \<or> ternary_allows rs bs \<Longrightarrow> ternary_allows ?v bs" for bs
      using assms by (auto simp: ternary_allows_nth)
    show "ternary_allows u bs"
      if u: "\<And>bs. ternary_allows ls bs \<or> ternary_allows rs bs \<Longrightarrow> ternary_allows u bs" and v: "ternary_allows ?v bs" for u bs
    proof -
      let ?m = "\<lambda>w. map (\<lambda>i. if w ! i = kUnknown then bs ! i else (w ! i = kKnownOne)) [0..<length w]"
      have m: "ternary_allows w (?m w)" for w by (simp add: ternary_allows_nth)
      have uv: "length u = length ls" using u [of "?m ls"] m ternary_allows_length by force
      show ?thesis unfolding ternary_allows_nth
      proof (intro conjI allI impI)
        show "length bs = length u" using v uv assms ternary_allows_length by fastforce
        fix i
        assume i: "i < length u"
        have "u ! i = kUnknown \<or> ?m ls ! i = (u ! i = kKnownOne)" "u ! i = kUnknown \<or> ?m rs ! i = (u ! i = kKnownOne)"
          using u [of "?m ls"] u [of "?m rs"] m i unfolding ternary_allows_nth by blast+
        moreover have "?v ! i = kUnknown \<or> bs ! i = (?v ! i = kKnownOne)"
          using v i uv assms unfolding ternary_allows_nth by simp
        ultimately show "u ! i = kUnknown \<or> bs ! i = (u ! i = kKnownOne)"
          using i uv assms by (cases "ls ! i"; cases "rs ! i") auto
      qed
    qed
  qed
qed

lemma UpdateWithIntersection_eq: "ternary_ops_UpdateWithIntersection ls rs = ternary_ops_Intersection ls rs"
  by (auto simp: ternary_ops_UpdateWithIntersection_def ternary_ops_Intersection_def intro!: nth_equalityI)

lemma UpdateWithIntersection_bits_eq:
  "ternary_ops_UpdateWithIntersection_bits ls b = ternary_ops_Intersection ls (ternary_ops_BitsToTernary b)"
proof -
  have "x = kKnownOne" if "x \<noteq> kUnknown" "x \<noteq> kKnownZero" for x :: TernaryValue using that by (cases x) auto
  then show ?thesis
    by (auto simp: ternary_ops_UpdateWithIntersection_bits_def ternary_ops_Intersection_def
        ternary_ops_BitsToTernary_def intro!: nth_equalityI)
qed

lemma known_bits_round_trip:
  "ternary_ops_FromKnownBits (ternary_ops_ToKnownBits v) (ternary_ops_ToKnownBitsValues v) = Some v"
proof -
  have "kKnownZero = x" if "x \<noteq> kUnknown" "x \<noteq> kKnownOne" for x :: TernaryValue using that by (cases x) auto
  then show ?thesis
    by (auto simp: ternary_ops_FromKnownBits_def ternary_ops_ToKnownBits_def ternary_ops_ToKnownBitsValues_def
        Bits_Get_nth intro!: nth_equalityI simp del: bm_bits_nth)
qed

section \<open>Printing and parsing\<close>

lemma parse_ternary_chars_append:
  "parse_ternary_chars s acc = Inr v \<Longrightarrow> parse_ternary_chars (s @ s') acc = parse_ternary_chars s' v"
  by (induction s acc rule: parse_ternary_chars.induct) (auto split: if_splits)

lemma parse_printed:
  "parse_ternary_chars (concat (map (\<lambda>i. ternary_symbol (v ! i) # (if i \<noteq> 0 \<and> i mod 4 = 0 then ''_'' else [])) is)) acc =
    Inr (acc @ map ((!) v) is)"
proof (induction "is" arbitrary: acc)
  case (Cons i "is")
  then show ?case by (cases "v ! i") auto
qed simp

lemma ternary_string_round_trip: "StringToTernaryVector (ternary_ToString v) = Inr v"
proof -
  have "rev (map ((!) v) (rev [0..<length v])) = v" by (simp add: map_nth flip: rev_map)
  then show ?thesis
    unfolding StringToTernaryVector_def ternary_ToString_def using parse_printed [of v "rev [0..<length v]" "[]"] by simp
qed

section \<open>The iterator\<close>

text \<open>The position of a value in the enumeration: the number its unknown bits spell.\<close>

definition rti_rank :: "inline_bitmap \<Rightarrow> nat list \<Rightarrow> nat" where
  "rti_rank bm offsets = bl_to_nat (map (\<lambda>i. bm_bits bm ! i) offsets)"

lemma rti_rank_Cons: "rti_rank b (i # is) = of_bool (bm_bits b ! i) + 2 * rti_rank b is"
  by (simp add: rti_rank_def)

lemma IncrementOnOffsets_rank:
  assumes "bm_wf bm" "distinct offsets" "\<forall>i \<in> set offsets. i < bm_count bm"
  shows "\<exists>bm'. IncrementOnOffsets bm offsets = (rti_rank bm offsets + 1 = 2 ^ length offsets, bm') \<and> bm_wf bm' \<and>
    bm_count bm' = bm_count bm \<and> (\<forall>i. i \<notin> set offsets \<longrightarrow> bm_bits bm' ! i = bm_bits bm ! i) \<and>
    rti_rank bm' offsets = (rti_rank bm offsets + 1) mod 2 ^ length offsets"
  using assms
proof (induction bm offsets rule: IncrementOnOffsets.induct)
  case (1 bm)
  then show ?case by (simp add: rti_rank_def)
next
  case (2 bm off offsets)
  have off: "off < bm_count bm" and rest: "off \<notin> set offsets" using "2.prems" by auto
  have keep: "rti_rank (InlineBitmap_Set bm off x) offsets = rti_rank bm offsets" for x
    unfolding rti_rank_def Set_bits [OF "2.prems"(1) off]
    using rest by (intro arg_cong [of _ _ bl_to_nat] map_cong refl nth_list_update_neq) auto
  have lt: "rti_rank bm offsets < 2 ^ length offsets"
    using bl_to_nat_less [of "map (\<lambda>i. bm_bits bm ! i) offsets"] by (simp add: rti_rank_def)
  show ?case
  proof (cases "InlineBitmap_Get bm off")
    case False
    let ?b = "InlineBitmap_Set bm off True"
    have "rti_rank ?b (off # offsets) = 2 * rti_rank bm offsets + 1"
      using "2.prems"(1) off keep [of True] by (simp add: rti_rank_Cons del: bm_bits_nth)
    moreover have "rti_rank bm (off # offsets) = 2 * rti_rank bm offsets"
      using False off by (simp add: rti_rank_Cons)
    ultimately show ?thesis
      using False "2.prems" off lt rest by (auto simp: nth_list_update simp del: bm_bits_nth)
  next
    case True
    let ?b = "InlineBitmap_Set bm off False"
    have pre: "bm_wf ?b" "bm_count ?b = bm_count bm" using "2.prems"(1) off by auto
    obtain bm' where bm': "IncrementOnOffsets ?b offsets = (rti_rank ?b offsets + 1 = 2 ^ length offsets, bm')"
      "bm_wf bm'" "bm_count bm' = bm_count bm" "\<And>i. i \<notin> set offsets \<Longrightarrow> bm_bits bm' ! i = bm_bits ?b ! i"
      "rti_rank bm' offsets = (rti_rank ?b offsets + 1) mod 2 ^ length offsets"
      using "2.IH" True "2.prems" pre by auto
    note r = keep [of False]
    have "rti_rank bm (off # offsets) = 2 * rti_rank bm offsets + 1"
      using True off by (simp add: rti_rank_Cons)
    moreover have "\<not> bm_bits bm' ! off" using bm'(4) [OF rest] "2.prems"(1) off by (simp del: bm_bits_nth)
    then have "rti_rank bm' (off # offsets) = 2 * rti_rank bm' offsets" by (simp add: rti_rank_Cons del: bm_bits_nth)
    moreover have "bm_bits bm' ! i = bm_bits bm ! i" if "i \<notin> set (off # offsets)" for i
      using bm'(4) [of i] that "2.prems"(1) off by (simp del: bm_bits_nth)
    ultimately show ?thesis
      using True bm' r lt by (auto simp: mult_mod_right)
  qed
qed

text \<open>What advancing by \<open>n\<close> positions means for the bitmap and the flag.\<close>

definition rti_offsets_ok :: "nat list \<Rightarrow> inline_bitmap \<Rightarrow> bool" where
  "rti_offsets_ok offsets bm \<longleftrightarrow> bm_wf bm \<and> distinct offsets \<and> (\<forall>i \<in> set offsets. i < bm_count bm)"

definition rti_advanced :: "nat list \<Rightarrow> inline_bitmap \<Rightarrow> nat \<Rightarrow> bool \<times> inline_bitmap \<Rightarrow> bool" where
  "rti_advanced offsets bm n r \<longleftrightarrow> bm_wf (snd r) \<and> bm_count (snd r) = bm_count bm \<and>
     (\<forall>i. i \<notin> set offsets \<longrightarrow> bm_bits (snd r) ! i = bm_bits bm ! i) \<and>
     (fst r \<longleftrightarrow> 2 ^ length offsets \<le> rti_rank bm offsets + n) \<and>
     (\<not> fst r \<longrightarrow> rti_rank (snd r) offsets = rti_rank bm offsets + n)"

lemma rti_rank_less: "rti_rank bm offsets < 2 ^ length offsets"
  using bl_to_nat_less [of "map (\<lambda>i. bm_bits bm ! i) offsets"] by (simp add: rti_rank_def)

lemma rti_advanced_0: "rti_offsets_ok offsets bm \<Longrightarrow> rti_advanced offsets bm 0 (False, bm)"
  using rti_rank_less [of bm offsets] by (simp add: rti_offsets_ok_def rti_advanced_def)

lemma rti_advanced_step:
  "rti_advanced offsets bm m (False, bm') \<Longrightarrow> rti_advanced offsets bm' n r \<Longrightarrow> rti_advanced offsets bm (m + n) r"
  by (auto simp: rti_advanced_def add.assoc)

lemma rti_advanced_stop:
  "rti_advanced offsets bm m (True, bm') \<Longrightarrow> rti_advanced offsets bm (m + n) (True, bm')"
  by (auto simp: rti_advanced_def)

lemma rti_advanced_ok: "rti_offsets_ok offsets bm \<Longrightarrow> rti_advanced offsets bm n r \<Longrightarrow> rti_offsets_ok offsets (snd r)"
  by (simp add: rti_offsets_ok_def rti_advanced_def)

lemma increment_subspan_advanced:
  assumes "rti_offsets_ok offsets bm" "i \<le> length offsets"
  shows "\<exists>r. increment_subspan bm offsets i = Some r \<and> rti_advanced offsets bm (2 ^ i) r"
proof -
  let ?hi = "drop i offsets" and ?lo = "take i offsets"
  have ok: "bm_wf bm" "distinct ?hi" "\<forall>j \<in> set ?hi. j < bm_count bm"
    using assms(1) by (auto simp: rti_offsets_ok_def dest: in_set_dropD)
  obtain bm' where bm': "IncrementOnOffsets bm ?hi = (rti_rank bm ?hi + 1 = 2 ^ length ?hi, bm')" "bm_wf bm'"
    "bm_count bm' = bm_count bm" "\<And>j. j \<notin> set ?hi \<Longrightarrow> bm_bits bm' ! j = bm_bits bm ! j"
    "rti_rank bm' ?hi = (rti_rank bm ?hi + 1) mod 2 ^ length ?hi"
    using IncrementOnOffsets_rank [OF ok] by blast
  have split: "rti_rank b offsets = rti_rank b ?lo + 2 ^ i * rti_rank b ?hi" for b
  proof -
    have "map f offsets = map f ?lo @ map f ?hi" for f :: "nat \<Rightarrow> bool" by (metis append_take_drop_id map_append)
    then show ?thesis using assms(2) by (simp add: rti_rank_def bl_to_nat_append del: append_take_drop_id)
  qed
  have "set ?lo \<inter> set ?hi = {}" using assms(1) by (simp add: rti_offsets_ok_def set_take_disj_set_drop_if_distinct)
  then have lo: "rti_rank bm' ?lo = rti_rank bm ?lo"
    unfolding rti_rank_def by (intro arg_cong [of _ _ bl_to_nat] map_cong refl bm'(4)) blast
  have lo_lt: "rti_rank bm ?lo < 2 ^ i" using rti_rank_less [of bm ?lo] assms(2) by simp
  have hi_le: "rti_rank bm ?hi + 1 \<le> 2 ^ length ?hi" using rti_rank_less [of bm ?hi] by simp
  have pow: "(2::nat) ^ length offsets = 2 ^ i * 2 ^ length ?hi" using assms(2) by (simp flip: power_add)
  have over: "rti_rank bm ?hi + 1 = 2 ^ length ?hi \<longleftrightarrow> 2 ^ length offsets \<le> rti_rank bm offsets + 2 ^ i"
  proof
    assume "rti_rank bm ?hi + 1 = 2 ^ length ?hi"
    then have "2 ^ i * (rti_rank bm ?hi + 1) = 2 ^ length offsets" using pow by simp
    then show "2 ^ length offsets \<le> rti_rank bm offsets + 2 ^ i" using split [of bm] by simp
  next
    assume le: "2 ^ length offsets \<le> rti_rank bm offsets + 2 ^ i"
    have "2 ^ i * 2 ^ length ?hi < 2 ^ i * (rti_rank bm ?hi + 2)" using le split [of bm] lo_lt pow by simp
    then have "2 ^ length ?hi < rti_rank bm ?hi + 2" by (metis mult_less_cancel1)
    then show "rti_rank bm ?hi + 1 = 2 ^ length ?hi" using hi_le by linarith
  qed
  have "rti_rank bm' offsets = rti_rank bm offsets + 2 ^ i" if "rti_rank bm ?hi + 1 \<noteq> 2 ^ length ?hi"
    using that hi_le bm'(5) split [of bm'] split [of bm] lo by simp
  then have "rti_advanced offsets bm (2 ^ i) (rti_rank bm ?hi + 1 = 2 ^ length ?hi, bm')"
    using bm' over by (auto simp: rti_advanced_def dest: in_set_dropD)
  then show ?thesis using bm'(1) assms(2) by (simp add: increment_subspan_def)
qed

lemma Advance_loop_advanced:
  assumes "rti_offsets_ok offsets bm" "amnt < 2 ^ (64 - i)" "i \<le> 64" "amnt * 2 ^ i < 2 ^ Suc (length offsets)"
  shows "\<exists>r. Advance_loop offsets i amnt False bm = Some r \<and> rti_advanced offsets bm (amnt * 2 ^ i) r"
  using assms
proof (induction "64 - i" arbitrary: i amnt bm)
  case 0
  then show ?case using rti_advanced_0 by (simp add: Advance_loop.simps)
next
  case (Suc j)
  show ?case
  proof (cases "amnt = 0")
    case True
    then show ?thesis using Suc.prems rti_advanced_0 by (simp add: Advance_loop.simps)
  next
    case False
    have i64: "i < 64" and j: "j = 64 - Suc i" using Suc.hyps(2) by simp_all
    have half: "amnt div 2 < 2 ^ (64 - Suc i)" using Suc.prems(2) Suc.hyps(2) j by (metis less_mult_imp_div_less mult.commute power_Suc)
    have "amnt div 2 * 2 ^ Suc i \<le> amnt * 2 ^ i" by simp
    then have small: "amnt div 2 * 2 ^ Suc i < 2 ^ Suc (length offsets)" using Suc.prems(4) by linarith
    note IH = Suc.hyps(1) [OF j _ half _ small]
    show ?thesis
    proof (cases "odd amnt")
      case True
      then have sum: "2 ^ i + amnt div 2 * 2 ^ Suc i = amnt * 2 ^ i" by (auto elim!: oddE simp: algebra_simps)
      have "(2::nat) ^ i < 2 ^ Suc (length offsets)" using sum Suc.prems(4) by linarith
      then have "i \<le> length offsets" using power_less_imp_less_exp [of "2::nat" i "Suc (length offsets)"] by simp
      then obtain f b where r: "increment_subspan bm offsets i = Some (f, b)" "rti_advanced offsets bm (2 ^ i) (f, b)"
        using increment_subspan_advanced [OF Suc.prems(1)] by force
      show ?thesis
      proof (cases f)
        case True
        then have "Advance_loop offsets i amnt False bm = Some (True, b)"
          using i64 False \<open>odd amnt\<close> r(1) by (simp add: Advance_loop.simps [of offsets i] Advance_loop.simps [of offsets "Suc i"])
        moreover have "rti_advanced offsets bm (amnt * 2 ^ i) (True, b)"
          using rti_advanced_stop [of offsets bm "2 ^ i" b "amnt div 2 * 2 ^ Suc i"] r(2) True unfolding sum by simp
        ultimately show ?thesis by blast
      next
        case go: False
        then have "rti_offsets_ok offsets b" using rti_advanced_ok [OF Suc.prems(1) r(2)] by simp
        then obtain r' where r': "Advance_loop offsets (Suc i) (amnt div 2) False b = Some r'"
          "rti_advanced offsets b (amnt div 2 * 2 ^ Suc i) r'" using IH [of b] i64 Suc_leI by blast
        then have "Advance_loop offsets i amnt False bm = Some r'"
          using i64 False \<open>odd amnt\<close> r(1) go by (simp add: Advance_loop.simps [of offsets i])
        moreover have "rti_advanced offsets bm (amnt * 2 ^ i) r'"
          using rti_advanced_step [of offsets bm "2 ^ i" b "amnt div 2 * 2 ^ Suc i" r'] r(2) r'(2) go unfolding sum by simp
        ultimately show ?thesis by blast
      qed
    next
      case even: False
      then have e: "amnt div 2 * 2 ^ Suc i = amnt * 2 ^ i" by auto
      have "Advance_loop offsets i amnt False bm = Advance_loop offsets (Suc i) (amnt div 2) False bm"
        using i64 False even by (simp add: Advance_loop.simps [of offsets i])
      then show ?thesis using IH [OF Suc.prems(1)] i64 Suc_leI unfolding e by metis
    qed
  qed
qed

text \<open>The bits a value has at the unknown positions, and the value with given bits there.\<close>

fun unknown_bits :: "TernaryVector \<Rightarrow> bool list \<Rightarrow> bool list" where
  "unknown_bits (t # v) (b # bs) = (if t = kUnknown then b # unknown_bits v bs else unknown_bits v bs)"
| "unknown_bits _ _ = []"

fun fill_unknown :: "TernaryVector \<Rightarrow> bool list \<Rightarrow> bool list" where
  "fill_unknown [] us = []"
| "fill_unknown (t # v) us =
     (if t = kUnknown then (case us of [] \<Rightarrow> False # fill_unknown v [] | u # us' \<Rightarrow> u # fill_unknown v us')
      else (t = kKnownOne) # fill_unknown v us)"

lemma FindUnknownOffsets_Cons:
  "RealizedTernaryIterator_FindUnknownOffsets (t # v) =
     (if t = kUnknown then [0] else []) @ map Suc (RealizedTernaryIterator_FindUnknownOffsets v)"
proof -
  have "[0..<length (t # v)] = 0 # map Suc [0..<length v]" by (simp add: upt_conv_Cons map_Suc_upt del: upt_Suc)
  then show ?thesis
    unfolding RealizedTernaryIterator_FindUnknownOffsets_def by (simp add: filter_map comp_def del: upt_Suc)
qed

lemma map_offsets:
  "length bs = length v \<Longrightarrow> map ((!) bs) (RealizedTernaryIterator_FindUnknownOffsets v) = unknown_bits v bs"
proof (induction v bs rule: unknown_bits.induct)
  case (1 t v b bs)
  then have "map ((!) bs) (RealizedTernaryIterator_FindUnknownOffsets v) = unknown_bits v bs"
    by (cases "t = kUnknown") simp_all
  then have "map ((!) (b # bs)) (map Suc (RealizedTernaryIterator_FindUnknownOffsets v)) = unknown_bits v bs"
    by (simp add: comp_def)
  then show ?case by (simp add: FindUnknownOffsets_Cons)
qed (auto simp: RealizedTernaryIterator_FindUnknownOffsets_def)

lemma length_unknown_bits:
  "length bs = length v \<Longrightarrow> length (unknown_bits v bs) = length (RealizedTernaryIterator_FindUnknownOffsets v)"
  using map_offsets [of bs v] by (metis length_map)

lemma fill_unknown_bits: "ternary_allows v bs \<Longrightarrow> fill_unknown v (unknown_bits v bs) = bs"
  by (induction v bs rule: unknown_bits.induct) (auto simp: ternary_allows_Cons)

lemma fill_unknown_allows: "ternary_allows v (fill_unknown v us)"
proof (induction v us rule: fill_unknown.induct)
  case (2 t v us)
  then show ?case by (cases us) auto
qed simp

lemma unknown_fill:
  "length us = length (RealizedTernaryIterator_FindUnknownOffsets v) \<Longrightarrow> unknown_bits v (fill_unknown v us) = us"
proof (induction v arbitrary: us)
  case Nil
  then show ?case by (simp add: RealizedTernaryIterator_FindUnknownOffsets_def)
next
  case (Cons t v)
  show ?case
  proof (cases "t = kUnknown")
    case True
    then obtain u us' where "us = u # us'" "length us' = length (RealizedTernaryIterator_FindUnknownOffsets v)"
      using Cons.prems by (cases us) (simp_all add: FindUnknownOffsets_Cons)
    then show ?thesis using Cons.IH [of us'] True by simp
  next
    case False
    then show ?thesis using Cons.IH [of us] Cons.prems by (simp add: FindUnknownOffsets_Cons)
  qed
qed

text \<open>The order of the values is the order of the numbers their unknown bits spell.\<close>

lemma unknown_bits_order:
  "ternary_allows v bs \<Longrightarrow> ternary_allows v cs \<Longrightarrow>
   bl_to_nat (unknown_bits v bs) < bl_to_nat (unknown_bits v cs) \<longleftrightarrow> bl_to_nat bs < bl_to_nat cs"
proof (induction v arbitrary: bs cs)
  case (Cons t v)
  obtain b bs' c cs' where s: "bs = b # bs'" "cs = c # cs'" "ternary_allows v bs'" "ternary_allows v cs'"
    using Cons.prems by (auto simp: ternary_allows_Cons)
  have "bl_to_nat (unknown_bits v bs') < bl_to_nat (unknown_bits v cs') \<longleftrightarrow> bl_to_nat bs' < bl_to_nat cs'"
    "bl_to_nat (unknown_bits v cs') < bl_to_nat (unknown_bits v bs') \<longleftrightarrow> bl_to_nat cs' < bl_to_nat bs'"
    using Cons.IH s(3,4) by blast+
  then show ?case using Cons.prems s by (cases t; cases b; cases c) auto
qed simp

definition rti_value_at :: "TernaryVector \<Rightarrow> nat \<Rightarrow> Bits" where
  "rti_value_at v n =
     Bits_of_span (fill_unknown v (nat_to_bl (length (RealizedTernaryIterator_FindUnknownOffsets v)) n))"

definition rti_inv :: "TernaryVector \<Rightarrow> RealizedTernaryIterator \<Rightarrow> bool" where
  "rti_inv v it \<longleftrightarrow> rti_unknown_bit_offsets it = RealizedTernaryIterator_FindUnknownOffsets v \<and>
     bm_wf (rti_value it) \<and> ternary_allows v (bm_bits (rti_value it))"

lemma FindUnknownOffsets_ok:
  "bm_wf b \<Longrightarrow> bm_count b = length v \<Longrightarrow> rti_offsets_ok (RealizedTernaryIterator_FindUnknownOffsets v) b"
  by (auto simp: rti_offsets_ok_def RealizedTernaryIterator_FindUnknownOffsets_def)

lemma rti_inv_value:
  assumes "rti_inv v it"
  shows "rti_value it = rti_value_at v (rti_rank (rti_value it) (rti_unknown_bit_offsets it))"
proof -
  let ?bs = "bm_bits (rti_value it)"
  have l: "length ?bs = length v" using assms ternary_allows_length unfolding rti_inv_def by blast
  have "nat_to_bl (length (RealizedTernaryIterator_FindUnknownOffsets v)) (bl_to_nat (unknown_bits v ?bs)) = unknown_bits v ?bs"
    using nat_to_bl_to_nat [of "unknown_bits v ?bs"] length_unknown_bits [OF l] by simp
  then have "rti_value_at v (rti_rank (rti_value it) (rti_unknown_bit_offsets it)) = Bits_of_span ?bs"
    using assms map_offsets [OF l] fill_unknown_bits by (simp add: rti_inv_def rti_value_at_def rti_rank_def)
  moreover have "Bits_of_span ?bs = rti_value it" using assms by (intro bm_eqI) (simp_all add: rti_inv_def)
  ultimately show ?thesis by simp
qed

lemma rti_begin:
  "rti_inv v (RealizedTernaryIterator_begin v)"
  "rti_rank (rti_value (RealizedTernaryIterator_begin v)) (rti_unknown_bit_offsets (RealizedTernaryIterator_begin v)) = 0"
proof -
  show "rti_inv v (RealizedTernaryIterator_begin v)"
    by (simp add: rti_inv_def RealizedTernaryIterator_begin_def ternary_ops_ToKnownBitsValues_def ternary_allows_least)
  have "map (\<lambda>i. map (\<lambda>t. t = kKnownOne) v ! i) (RealizedTernaryIterator_FindUnknownOffsets v) =
      replicate (length (RealizedTernaryIterator_FindUnknownOffsets v)) False"
    by (rule nth_equalityI) (auto simp: RealizedTernaryIterator_FindUnknownOffsets_def dest!: nth_mem)
  then show "rti_rank (rti_value (RealizedTernaryIterator_begin v)) (rti_unknown_bit_offsets (RealizedTernaryIterator_begin v)) = 0"
    by (simp add: rti_rank_def RealizedTernaryIterator_begin_def ternary_ops_ToKnownBitsValues_def)
qed

lemma rti_advanced_inv:
  assumes "rti_inv v it" "rti_advanced (rti_unknown_bit_offsets it) (rti_value it) n r"
  shows "rti_inv v (it\<lparr>rti_finished := fst r, rti_value := snd r\<rparr>)"
proof -
  let ?b = "rti_value it"
  have r: "bm_wf (snd r)" "bm_count (snd r) = bm_count ?b"
    "\<And>i. i \<notin> set (rti_unknown_bit_offsets it) \<Longrightarrow> bm_bits (snd r) ! i = bm_bits ?b ! i"
    using assms(2) by (auto simp: rti_advanced_def simp del: bm_bits_nth)
  have v: "length v = bm_count ?b" "\<And>i. i < length v \<Longrightarrow> v ! i = kUnknown \<or> bm_bits ?b ! i = (v ! i = kKnownOne)"
    using assms(1) by (auto simp: rti_inv_def ternary_allows_nth simp del: bm_bits_nth)
  have "v ! i = kUnknown \<or> bm_bits (snd r) ! i = (v ! i = kKnownOne)" if "i < length v" for i
    using r(3) [of i] v(2) [OF that] that assms(1)
    by (auto simp: rti_inv_def RealizedTernaryIterator_FindUnknownOffsets_def simp del: bm_bits_nth)
  then have "ternary_allows v (bm_bits (snd r))" using r(2) v(1) by (simp add: ternary_allows_nth del: bm_bits_nth)
  then show ?thesis using assms(1) r(1) by (simp add: rti_inv_def)
qed

text \<open>
  \<open>Advance\<close>: the bounds on the amount are those of \<open>int64_t\<close> and of \<open>subspan\<close>, which throws when a
  set bit of the amount lies beyond the number of unknown bits.
\<close>

lemma Advance_eq:
  assumes "rti_inv v it" "\<not> rti_finished it" "0 < length v" "0 \<le> n" "n < 2 ^ 63"
    "nat n < 2 ^ Suc (length (rti_unknown_bit_offsets it))"
  shows "\<exists>r. RealizedTernaryIterator_Advance it n = Some (it\<lparr>rti_finished := fst r, rti_value := snd r\<rparr>) \<and>
    rti_advanced (rti_unknown_bit_offsets it) (rti_value it) (nat n) r"
proof -
  have c: "bm_count (rti_value it) = length v"
    using assms(1) ternary_allows_length [of v "bm_bits (rti_value it)"] by (simp add: rti_inv_def)
  have "rti_offsets_ok (rti_unknown_bit_offsets it) (rti_value it)"
    using assms(1) c FindUnknownOffsets_ok by (simp add: rti_inv_def)
  moreover have "nat n < 2 ^ (64 - 0)" using assms(4,5) by simp
  ultimately obtain r where "Advance_loop (rti_unknown_bit_offsets it) 0 (nat n) False (rti_value it) = Some r"
    "rti_advanced (rti_unknown_bit_offsets it) (rti_value it) (nat n) r"
    using Advance_loop_advanced [of "rti_unknown_bit_offsets it" "rti_value it" "nat n" 0] assms(6) by auto
  then show ?thesis
    using assms(2-4) c by (intro exI [of _ r]) (simp add: RealizedTernaryIterator_Advance_def)
qed

lemma rti_visit_from:
  assumes "rti_inv v it" "\<not> rti_finished it" "k = length (RealizedTernaryIterator_FindUnknownOffsets v)"
    "n = rti_rank (rti_value it) (rti_unknown_bit_offsets it)"
  shows "rti_visit it = Some (map (rti_value_at v) [n..<2 ^ k])"
  using assms
proof (induction "2 ^ k - n" arbitrary: it n rule: less_induct)
  case less
  have off: "rti_unknown_bit_offsets it = RealizedTernaryIterator_FindUnknownOffsets v" using less.prems(1) by (simp add: rti_inv_def)
  have n: "n < 2 ^ k" using rti_rank_less less.prems(3,4) off by metis
  have val: "rti_value it = rti_value_at v n" using rti_inv_value [OF less.prems(1)] less.prems(4) by simp
  have deref: "RealizedTernaryIterator_deref it = Some (rti_value_at v n)"
    "\<not> RealizedTernaryIterator_eq it RealizedTernaryIterator_end"
    using less.prems(2) val by (simp_all add: RealizedTernaryIterator_deref_def RealizedTernaryIterator_eq_def RealizedTernaryIterator_end_def)
  have last: "rti_visit it' = Some []" if "rti_finished it'" for it'
    using that by (subst rti_visit.simps) (simp add: RealizedTernaryIterator_eq_def RealizedTernaryIterator_end_def)
  show ?case
  proof (cases "v = []")
    case True
    then have "bm_count (rti_value it) = 0" using less.prems(1) length_bm_bits [of "rti_value it"]
      by (simp add: rti_inv_def del: length_bm_bits)
    then have "RealizedTernaryIterator_Advance it 1 = Some (it\<lparr>rti_finished := True\<rparr>)"
      by (simp add: RealizedTernaryIterator_Advance_def)
    then have "rti_visit it = Some [rti_value_at v n]"
      using deref last by (subst rti_visit.simps) simp
    moreover have "k = 0" using True less.prems(3) by (simp add: RealizedTernaryIterator_FindUnknownOffsets_def)
    ultimately show ?thesis using n by simp
  next
    case False
    have "(1::nat) < 2 ^ Suc (length (rti_unknown_bit_offsets it))" by (rule one_less_power) simp_all
    with False obtain r where r: "RealizedTernaryIterator_Advance it 1 = Some (it\<lparr>rti_finished := fst r, rti_value := snd r\<rparr>)"
      "rti_advanced (rti_unknown_bit_offsets it) (rti_value it) 1 r"
      using Advance_eq [OF less.prems(1,2), of 1] by (auto simp del: power_Suc)
    let ?it = "it\<lparr>rti_finished := fst r, rti_value := snd r\<rparr>"
    have "rti_visit ?it = Some (map (rti_value_at v) [Suc n..<2 ^ k])"
    proof (cases "fst r")
      case True
      then have "2 ^ k \<le> Suc n" using r(2) less.prems(3,4) off by (simp add: rti_advanced_def)
      then have "[Suc n..<2 ^ k] = []" by (rule upt_conv_Nil)
      then show ?thesis using last [of ?it] True by simp
    next
      case go: False
      then have rank: "Suc n = rti_rank (rti_value ?it) (rti_unknown_bit_offsets ?it)"
        using r(2) less.prems(4) by (simp add: rti_advanced_def)
      have less: "2 ^ k - Suc n < 2 ^ k - n" using n by (rule diff_less_mono2 [OF lessI])
      have "\<not> rti_finished ?it" using go by simp
      from less.hyps [OF less rti_advanced_inv [OF less.prems(1) r(2)] this less.prems(3) rank] show ?thesis .
    qed
    then have "rti_visit it = Some (rti_value_at v n # map (rti_value_at v) [Suc n..<2 ^ k])"
      using deref r(1) by (subst rti_visit.simps) simp
    then show ?thesis using n by (simp add: upt_conv_Cons)
  qed
qed

lemma AllBitsValues_eq:
  "AllBitsValues v = Some (map (rti_value_at v) [0..<2 ^ length (RealizedTernaryIterator_FindUnknownOffsets v)])"
  unfolding AllBitsValues_def
  using rti_visit_from [OF rti_begin(1) _ refl rti_begin(2) [symmetric], of v]
  by (simp add: RealizedTernaryIterator_begin_def)

lemma rti_value_at_order:
  assumes "m < 2 ^ length (RealizedTernaryIterator_FindUnknownOffsets v)" "n < 2 ^ length (RealizedTernaryIterator_FindUnknownOffsets v)"
  shows "uval (rti_value_at v m) < uval (rti_value_at v n) \<longleftrightarrow> m < n"
proof -
  let ?k = "length (RealizedTernaryIterator_FindUnknownOffsets v)"
  have "bl_to_nat (unknown_bits v (fill_unknown v (nat_to_bl ?k x))) = x" if "x < 2 ^ ?k" for x
    using that by (simp add: unknown_fill bl_to_nat_to_bl)
  then show ?thesis
    using unknown_bits_order [OF fill_unknown_allows fill_unknown_allows, of v "nat_to_bl ?k m" "nat_to_bl ?k n"] assms
    by (simp add: rti_value_at_def)
qed

lemma rti_value_at_set:
  "rti_value_at v ` {..<2 ^ length (RealizedTernaryIterator_FindUnknownOffsets v)} = {b. bm_wf b \<and> ternary_ops_IsCompatible v b}"
proof (intro set_eqI iffI)
  fix b
  assume "b \<in> rti_value_at v ` {..<2 ^ length (RealizedTernaryIterator_FindUnknownOffsets v)}"
  then show "b \<in> {b. bm_wf b \<and> ternary_ops_IsCompatible v b}"
    by (auto simp: rti_value_at_def IsCompatible_iff fill_unknown_allows)
next
  fix b
  assume "b \<in> {b. bm_wf b \<and> ternary_ops_IsCompatible v b}"
  then have b: "bm_wf b" "ternary_allows v (bm_bits b)" by (auto simp: IsCompatible_iff)
  then have l: "length (bm_bits b) = length v" using ternary_allows_length by blast
  let ?us = "unknown_bits v (bm_bits b)"
  have "b = rti_value_at v (bl_to_nat ?us)"
    using b nat_to_bl_to_nat [of ?us] length_unknown_bits [OF l]
    by (intro bm_eqI) (simp_all add: rti_value_at_def fill_unknown_bits)
  moreover have "bl_to_nat ?us < 2 ^ length (RealizedTernaryIterator_FindUnknownOffsets v)"
    using bl_to_nat_less [of ?us] length_unknown_bits [OF l] by simp
  ultimately show "b \<in> rti_value_at v ` {..<2 ^ length (RealizedTernaryIterator_FindUnknownOffsets v)}" by blast
qed

text \<open>Advancing by a power of two beyond the number of unknown bits throws instead of finishing.\<close>

lemma Advance_loop_throws: "length offsets < i + m \<Longrightarrow> i + m < 64 \<Longrightarrow> Advance_loop offsets i (2 ^ m) False bm = None"
proof (induction m arbitrary: i)
  case 0
  then show ?case by (simp add: Advance_loop.simps increment_subspan_def)
next
  case (Suc m)
  then have "Advance_loop offsets i (2 ^ Suc m) False bm = Advance_loop offsets (Suc i) (2 ^ m) False bm"
    by (simp add: Advance_loop.simps [of offsets i])
  then show ?case using Suc.IH [of "Suc i"] Suc.prems by simp
qed

lemma Advance_throws:
  assumes "0 < bm_count (rti_value it)" "\<not> rti_finished it" "length (rti_unknown_bit_offsets it) < m" "m < 63"
  shows "RealizedTernaryIterator_Advance it (2 ^ m) = None"
proof -
  have e: "nat ((2::int) ^ m) = 2 ^ m" by (simp add: nat_power_eq)
  show ?thesis
    using assms Advance_loop_throws [of "rti_unknown_bit_offsets it" 0 m "rti_value it"]
    by (simp add: RealizedTernaryIterator_Advance_def e)
qed

end
