(* ===== verification/Abstract_Evaluator.thy ===== *)
theory Abstract_Evaluator
  imports Ternary
begin

text \<open>
  Models \<open>xls/ir/abstract_evaluator.h\<close>: the operations of the intermediate representation written
  once over an arbitrary kind of bit, given only one, zero, not, and, or. An evaluator is a record of
  these five; a \<open>Span\<close> or \<open>Vector\<close> of elements is a list, least significant element first.
  \<open>None\<close> is a failed \<open>CHECK\<close>, or a read or write outside a span or vector, which the
  sources leave undefined.

  The locale \<open>sound_evaluator\<close> states what an evaluator has to promise: a relation between its
  elements and the booleans they may stand for that the five operations keep. Its lemmas show each
  operation once, for every such evaluator: the result exists and stands for the operation on the
  numbers the operands stand for. The locale is interpreted for booleans and for ternary values, where
  the relation is ``the known value, or anything when unknown'', which makes the lemmas the soundness of
  the ternary analysis. Multiplication and division follow in \<open>Evaluator_Arith\<close>.
\<close>

section \<open>Elements\<close>

record 'e evaluator =
  ev_One :: 'e
  ev_Zero :: 'e
  ev_Not :: "'e \<Rightarrow> 'e"
  ev_And :: "'e \<Rightarrow> 'e \<Rightarrow> 'e"
  ev_Or :: "'e \<Rightarrow> 'e \<Rightarrow> 'e"

record 'e AdderResult =
  ar_sum :: 'e
  ar_carry :: 'e

definition AE_Xor :: "'e evaluator \<Rightarrow> 'e \<Rightarrow> 'e \<Rightarrow> 'e" where
  "AE_Xor E a b = ev_And E (ev_Or E a b) (ev_Not E (ev_And E a b))"

definition AE_HalfAdder :: "'e evaluator \<Rightarrow> 'e \<Rightarrow> 'e \<Rightarrow> 'e AdderResult" where
  "AE_HalfAdder E a b =
     (let carry = ev_And E a b
      in \<lparr>ar_sum = ev_And E (ev_Or E a b) (ev_Not E carry), ar_carry = carry\<rparr>)"

definition AE_FullAdder :: "'e evaluator \<Rightarrow> 'e \<Rightarrow> 'e \<Rightarrow> 'e \<Rightarrow> 'e AdderResult" where
  "AE_FullAdder E a b carry_in =
     (let first_result = AE_HalfAdder E a b;
          second_result = AE_HalfAdder E (ar_sum first_result) carry_in
      in \<lparr>ar_sum = ar_sum second_result,
          ar_carry = ev_Or E (ar_carry first_result) (ar_carry second_result)\<rparr>)"

section \<open>Bitwise operations, slices and comparisons\<close>

definition AE_BitsToVector :: "'e evaluator \<Rightarrow> Bits \<Rightarrow> 'e list" where
  "AE_BitsToVector E bits =
     map (\<lambda>i. if Bits_Get bits i then ev_One E else ev_Zero E) [0..<Bits_bit_count bits]"

definition AE_BitwiseNot :: "'e evaluator \<Rightarrow> 'e list \<Rightarrow> 'e list" where
  "AE_BitwiseNot E input = map (ev_Not E) input"

fun NaryOp_loop :: "('e \<Rightarrow> 'e \<Rightarrow> 'e) \<Rightarrow> 'e list \<Rightarrow> 'e list list \<Rightarrow> 'e list option" where
  "NaryOp_loop f acc [] = Some acc"
| "NaryOp_loop f acc (input # inputs) =
     (if length input < length acc then None else NaryOp_loop f (map2 f acc input) inputs)"

fun AE_NaryOp :: "('e \<Rightarrow> 'e \<Rightarrow> 'e) \<Rightarrow> 'e list list \<Rightarrow> 'e list option" where
  "AE_NaryOp f [] = None"
| "AE_NaryOp f (input # inputs) = NaryOp_loop f input inputs"

definition AE_BitwiseAnd :: "'e evaluator \<Rightarrow> 'e list list \<Rightarrow> 'e list option" where
  "AE_BitwiseAnd E inputs = AE_NaryOp (ev_And E) inputs"

definition AE_BitwiseOr :: "'e evaluator \<Rightarrow> 'e list list \<Rightarrow> 'e list option" where
  "AE_BitwiseOr E inputs = AE_NaryOp (ev_Or E) inputs"

definition AE_BitwiseXor :: "'e evaluator \<Rightarrow> 'e list list \<Rightarrow> 'e list option" where
  "AE_BitwiseXor E inputs = AE_NaryOp (AE_Xor E) inputs"

definition AE_BitSlice :: "'e list \<Rightarrow> nat \<Rightarrow> nat \<Rightarrow> 'e list option" where
  "AE_BitSlice input start width =
     (if start + width > length input then None
      else Some (map (\<lambda>i. input ! (start + i)) [0..<width]))"

definition AE_Concat :: "'e list list \<Rightarrow> 'e list" where
  "AE_Concat inputs = concat (rev inputs)"

definition AE_Equals :: "'e evaluator \<Rightarrow> 'e list \<Rightarrow> 'e list \<Rightarrow> 'e option" where
  "AE_Equals E a b =
     (if length a \<noteq> length b then None
      else Some (fold (\<lambda>(x, y) res. ev_And E res (ev_Or E (ev_And E x y) (ev_And E (ev_Not E x) (ev_Not E y))))
                   (zip a b) (ev_One E)))"

text \<open>The loop of \<open>ULessThan\<close> from the most significant pair down, with its two accumulators.\<close>

fun ULessThan_loop :: "'e evaluator \<Rightarrow> ('e \<times> 'e) list \<Rightarrow> 'e \<Rightarrow> 'e \<Rightarrow> 'e" where
  "ULessThan_loop E [] res upper_bits_lte = res"
| "ULessThan_loop E ((x, y) # rest) res upper_bits_lte =
     ULessThan_loop E rest (ev_Or E res (ev_And E upper_bits_lte (ev_And E (ev_Not E x) y)))
       (ev_And E upper_bits_lte (ev_Or E (ev_Not E x) y))"

definition AE_ULessThan :: "'e evaluator \<Rightarrow> 'e list \<Rightarrow> 'e list \<Rightarrow> 'e option" where
  "AE_ULessThan E a b =
     (if length a \<noteq> length b then None
      else Some (ULessThan_loop E (rev (zip a b)) (ev_Zero E) (ev_One E)))"

definition AE_SLessThan :: "'e evaluator \<Rightarrow> 'e list \<Rightarrow> 'e list \<Rightarrow> 'e option" where
  "AE_SLessThan E a b =
     (if a = [] \<or> b = [] then None
      else do {
        let a_neg_b_non_neg = ev_And E (last a) (ev_Not E (last b));
        let a_non_neg_b_neg = ev_And E (ev_Not E (last a)) (last b);
        lt \<leftarrow> AE_ULessThan E a b;
        Some (ev_Or E a_neg_b_non_neg (ev_And E (ev_Not E a_non_neg_b_neg) lt))
      })"

definition AE_ZeroExtend :: "'e evaluator \<Rightarrow> 'e list \<Rightarrow> nat \<Rightarrow> 'e list option" where
  "AE_ZeroExtend E input new_width =
     (if new_width < length input then None
      else Some (AE_Concat [replicate (new_width - length input) (ev_Zero E), input]))"

definition AE_SignExtend :: "'e list \<Rightarrow> nat \<Rightarrow> 'e list option" where
  "AE_SignExtend input new_width =
     (if length input < 1 \<or> new_width < length input then None
      else Some (AE_Concat [replicate (new_width - length input) (last input), input]))"

definition AE_Gate :: "'e evaluator \<Rightarrow> 'e \<Rightarrow> 'e list \<Rightarrow> 'e list option" where
  "AE_Gate E a b = do { m \<leftarrow> AE_SignExtend [a] (length b); AE_BitwiseAnd E [m, b] }"

section \<open>Selects\<close>

text \<open>
  The or of the selected cases, and the and of the cases whose selector is not the constant zero. The
  width is that of the first case; a shorter case would be read outside its span.
\<close>

definition select_or :: "'e evaluator \<Rightarrow> nat \<Rightarrow> ('e \<times> 'e list) list \<Rightarrow> 'e list" where
  "select_or E width arms =
     fold (\<lambda>(s, c) res. map2 (\<lambda>r x. ev_Or E r (ev_And E x s)) res c) arms (replicate width (ev_Zero E))"

definition select_priority :: "'e evaluator \<Rightarrow> nat \<Rightarrow> ('e \<times> 'e list) list \<Rightarrow> 'e list" where
  "select_priority E width arms =
     foldr (\<lambda>(s, c) res. map2 (\<lambda>r x. ev_Or E (ev_And E x s) (ev_And E r (ev_Not E s))) res c) arms
       (replicate width (ev_Zero E))"

definition select_and_reduction :: "'e evaluator \<Rightarrow> nat \<Rightarrow> ('e \<times> 'e list) list \<Rightarrow> 'e list" where
  "select_and_reduction E width arms =
     fold (\<lambda>(s, c) acc. if s \<noteq> ev_Zero E then map2 (ev_And E) acc c else acc) arms (replicate width (ev_One E))"

definition AE_OneHotSelectInternal ::
    "'e evaluator \<Rightarrow> 'e list \<Rightarrow> 'e list list \<Rightarrow> bool \<Rightarrow> 'e list option" where
  "AE_OneHotSelectInternal E selector cases selector_can_be_zero =
     (if length selector \<noteq> length cases \<or> length selector = 0 then None
      else
        let width = length (hd cases)
        in if list_ex (\<lambda>c. length c < width) cases then None
           else
             let res = select_or E width (zip selector cases)
             in if \<not> selector_can_be_zero
                then AE_BitwiseOr E [select_and_reduction E width (zip selector cases), res]
                else Some res)"

definition AE_PrioritySelectInternal ::
    "'e evaluator \<Rightarrow> 'e list \<Rightarrow> 'e list list \<Rightarrow> bool \<Rightarrow> 'e list option" where
  "AE_PrioritySelectInternal E selector cases selector_can_be_zero =
     (if length selector \<noteq> length cases \<or> length selector = 0 then None
      else
        let width = length (hd cases)
        in if list_ex (\<lambda>c. length c < width) cases then None
           else
             let res = select_priority E width (zip selector cases)
             in if \<not> selector_can_be_zero
                then AE_BitwiseOr E [select_and_reduction E width (zip selector cases), res]
                else Some res)"

definition AE_OneHotSelect :: "'e evaluator \<Rightarrow> 'e list \<Rightarrow> 'e list list \<Rightarrow> bool \<Rightarrow> 'e list option" where
  "AE_OneHotSelect E selector cases selector_can_be_zero =
     AE_OneHotSelectInternal E selector cases selector_can_be_zero"

definition AE_PrioritySelect :: "'e evaluator \<Rightarrow> 'e list \<Rightarrow> 'e list list \<Rightarrow> bool \<Rightarrow> 'e list option" where
  "AE_PrioritySelect E selector cases selector_can_be_zero =
     AE_PrioritySelectInternal E selector cases selector_can_be_zero"

text \<open>One selector element per constant: whether the vector equals it.\<close>

fun equals_constants :: "'e evaluator \<Rightarrow> 'e list \<Rightarrow> nat list \<Rightarrow> 'e list option" where
  "equals_constants E v [] = Some []"
| "equals_constants E v (i # is) = do {
     c \<leftarrow> UBits (of_nat i) (length v);
     e \<leftarrow> AE_Equals E v (AE_BitsToVector E c);
     es \<leftarrow> equals_constants E v is;
     Some (e # es)
   }"

definition AE_SelectInternal ::
    "'e evaluator \<Rightarrow> 'e list \<Rightarrow> 'e list list \<Rightarrow> 'e list option \<Rightarrow> 'e list option" where
  "AE_SelectInternal E selector cases default_value = do {
     one_hot_selector \<leftarrow> equals_constants E selector [0..<length cases];
     case default_value of
       None \<Rightarrow> AE_OneHotSelectInternal E one_hot_selector cases False
     | Some d \<Rightarrow> do {
         c \<leftarrow> UBits (of_nat (length cases) - 1) (length selector);
         beyond \<leftarrow> AE_ULessThan E (AE_BitsToVector E c) selector;
         AE_OneHotSelectInternal E (one_hot_selector @ [beyond]) (cases @ [d]) False
       }
   }"

definition AE_Select ::
    "'e evaluator \<Rightarrow> 'e list \<Rightarrow> 'e list list \<Rightarrow> 'e list option \<Rightarrow> 'e list option" where
  "AE_Select E selector cases default_value = AE_SelectInternal E selector cases default_value"

fun OneHot_loop :: "'e evaluator \<Rightarrow> 'e \<Rightarrow> 'e list \<Rightarrow> 'e list \<times> 'e" where
  "OneHot_loop E all_zero [] = ([], all_zero)"
| "OneHot_loop E all_zero (x # xs) =
     map_prod ((#) (ev_And E all_zero x)) id (OneHot_loop E (ev_And E all_zero (ev_Not E x)) xs)"

definition AE_OneHotMsbToLsb :: "'e evaluator \<Rightarrow> 'e list \<Rightarrow> 'e list" where
  "AE_OneHotMsbToLsb E input =
     (let r = OneHot_loop E (ev_One E) (rev input) in rev (fst r) @ [snd r])"

definition AE_OneHotLsbToMsb :: "'e evaluator \<Rightarrow> 'e list \<Rightarrow> 'e list" where
  "AE_OneHotLsbToMsb E input = (let r = OneHot_loop E (ev_One E) input in fst r @ [snd r])"

section \<open>Shifts\<close>

text \<open>
  The shift amounts below the width that the amount can express: the loop that fills the selector
  stops at the first constant that does not fit.
\<close>

definition shift_amounts :: "nat \<Rightarrow> nat \<Rightarrow> nat list" where
  "shift_amounts n amount_size =
     takeWhile (\<lambda>i. \<not> amount_size < Bits_MinBitCountUnsigned (of_nat i)) [0..<n]"

definition shift_selector :: "'e evaluator \<Rightarrow> nat \<Rightarrow> 'e list \<Rightarrow> 'e list option" where
  "shift_selector E n amount = do {
     eqs \<leftarrow> equals_constants E amount (shift_amounts n (length amount));
     if length amount \<ge> Bits_MinBitCountUnsigned (of_nat n) then do {
       c \<leftarrow> UBits (of_nat n) (length amount);
       lt \<leftarrow> AE_ULessThan E amount (AE_BitsToVector E c);
       Some (eqs @ [ev_Not E lt])
     }
     else Some eqs
   }"

definition AE_Shift :: "'e evaluator \<Rightarrow> 'e list \<Rightarrow> 'e list \<Rightarrow> bool \<Rightarrow> bool \<Rightarrow> 'e list option" where
  "AE_Shift E input amount right arithmetic = do {
     selector \<leftarrow> shift_selector E (length input) amount;
     if arithmetic \<and> right \<and> input = [] \<and> length selector > 1 then None
     else
       let k = length selector;
           n = length input;
           extended = (if right then input @ replicate (k - 1) (if arithmetic then last input else ev_Zero E)
                       else replicate (k - 1) (ev_Zero E) @ input);
           cases = map (\<lambda>i. take n (drop (if right then i else k - 1 - i) extended)) [0..<k]
       in AE_OneHotSelectInternal E selector cases False
   }"

definition AE_ShiftRightLogical :: "'e evaluator \<Rightarrow> 'e list \<Rightarrow> 'e list \<Rightarrow> 'e list option" where
  "AE_ShiftRightLogical E input amount = AE_Shift E input amount True False"

definition AE_ShiftRightArith :: "'e evaluator \<Rightarrow> 'e list \<Rightarrow> 'e list \<Rightarrow> 'e list option" where
  "AE_ShiftRightArith E input amount = AE_Shift E input amount True True"

definition AE_ShiftLeftLogical :: "'e evaluator \<Rightarrow> 'e list \<Rightarrow> 'e list \<Rightarrow> 'e list option" where
  "AE_ShiftLeftLogical E input amount = AE_Shift E input amount False False"

definition AE_BitSliceUpdate :: "'e evaluator \<Rightarrow> 'e list \<Rightarrow> 'e list \<Rightarrow> 'e list \<Rightarrow> 'e list option" where
  "AE_BitSliceUpdate E input start v = do {
     let num_ones = min (length input) (length v);
     start_ones \<leftarrow> bits_ops_ZeroExtend (Bits_AllOnes num_ones) (length input);
     shifted_ones \<leftarrow> AE_ShiftLeftLogical E (AE_BitsToVector E start_ones) start;
     let mask = AE_BitwiseNot E shifted_ones;
     adjusted_value \<leftarrow> (if length v \<ge> length input then AE_BitSlice v 0 (length input)
                        else AE_ZeroExtend E v (length input));
     kept \<leftarrow> AE_BitwiseAnd E [mask, input];
     shifted_value \<leftarrow> AE_ShiftLeftLogical E adjusted_value start;
     AE_BitwiseOr E [kept, shifted_value]
   }"

section \<open>Encoding, decoding and reductions\<close>

definition AE_Decode :: "'e evaluator \<Rightarrow> 'e list \<Rightarrow> nat \<Rightarrow> 'e list option" where
  "AE_Decode E input result_width = equals_constants E input [0..<result_width]"

definition AE_Encode :: "'e evaluator \<Rightarrow> 'e list \<Rightarrow> 'e list" where
  "AE_Encode E input =
     (let result_width = CeilOfLog2 (of_nat (length input))
      in fold (\<lambda>(i, x) res. map (\<lambda>j. if bit (i::nat) j then ev_Or E (res ! j) x else res ! j) [0..<result_width])
           (zip [0..<length input] input) (replicate result_width (ev_Zero E)))"

definition AE_AndReduce :: "'e evaluator \<Rightarrow> 'e list \<Rightarrow> 'e list" where
  "AE_AndReduce E a = [fold (\<lambda>e res. ev_And E res e) a (ev_One E)]"

definition AE_OrReduce :: "'e evaluator \<Rightarrow> 'e list \<Rightarrow> 'e list" where
  "AE_OrReduce E a = [fold (\<lambda>e res. ev_Or E res e) a (ev_Zero E)]"

definition AE_XorReduce :: "'e evaluator \<Rightarrow> 'e list \<Rightarrow> 'e list" where
  "AE_XorReduce E a =
     [fold (\<lambda>e res. ev_Or E (ev_And E (ev_Not E res) e) (ev_And E res (ev_Not E e))) a (ev_Zero E)]"

section \<open>Addition\<close>

fun Add_loop :: "'e evaluator \<Rightarrow> 'e \<Rightarrow> 'e list \<Rightarrow> 'e list \<Rightarrow> 'e list option" where
  "Add_loop E carry (x # xs) (y # ys) =
     (let r = AE_FullAdder E x y carry
      in map_option ((#) (ar_sum r)) (Add_loop E (ar_carry r) xs ys))"
| "Add_loop E carry [] ys = Some []"
| "Add_loop E carry (x # xs) [] = None"

definition AE_Add :: "'e evaluator \<Rightarrow> 'e list \<Rightarrow> 'e list \<Rightarrow> 'e list option" where
  "AE_Add E a b = Add_loop E (ev_Zero E) a b"

definition AE_Neg :: "'e evaluator \<Rightarrow> 'e list \<Rightarrow> 'e list option" where
  "AE_Neg E x =
     (if length x = 0 then Some x
      else do { one \<leftarrow> UBits 1 (length x); AE_Add E (AE_BitwiseNot E x) (AE_BitsToVector E one) })"

definition AE_Abs :: "'e evaluator \<Rightarrow> 'e list \<Rightarrow> 'e list option" where
  "AE_Abs E x =
     (if x = [] then None else do { neg \<leftarrow> AE_Neg E x; AE_Select E [last x] [x, neg] None })"

section \<open>Auxiliary facts on vectors\<close>

lemma nat_to_bl_Suc: "nat_to_bl (Suc n) v = odd v # nat_to_bl n (v div 2)"
  by (rule nth_equalityI) (auto simp: nth_Cons bit_Suc bit_0 split: nat.splits)

lemma nat_to_bl_of_bl: "n = length bs \<Longrightarrow> nat_to_bl n (bl_to_nat bs) = bs"
  by simp

lemma bl_to_nat_snoc: "bl_to_nat (bs @ [b]) = bl_to_nat bs + 2 ^ length bs * of_bool b"
  by (simp add: bl_to_nat_append)

lemma bl_to_nat_map_Not: "bl_to_nat (map Not bs) = 2 ^ length bs - 1 - bl_to_nat bs"
proof (induction bs)
  case Nil
  show ?case by simp
next
  case (Cons b bs)
  then show ?case using bl_to_nat_less [of bs] by (cases b) simp_all
qed

lemma nat_to_bl_cong: "v mod 2 ^ n = w mod 2 ^ n \<Longrightarrow> nat_to_bl n v = nat_to_bl n w"
  by (metis nat_to_bl_mod)

lemma bit_ones: "bit ((2::nat) ^ k - Suc 0) i \<longleftrightarrow> i < k"
  using bit_mask_iff [of k i, where 'a = nat] by (simp add: mask_eq_exp_minus_1)

lemma takeWhile_upt: "takeWhile (\<lambda>i. i < c) [0..<n] = [0..<min n c]"
proof (induction n)
  case 0
  show ?case by simp
next
  case (Suc n)
  show ?case
  proof (cases "n < c")
    case True
    then show ?thesis by (simp add: takeWhile_append2 min_def Suc_le_eq)
  next
    case False
    then show ?thesis using Suc by (cases "n = c") (auto simp: takeWhile_append min_def)
  qed
qed

lemma shift_amounts_eq:
  assumes "n < 2 ^ 64"
  shows "shift_amounts n m = [0..<min n (2 ^ m)]"
proof -
  have "\<not> m < Bits_MinBitCountUnsigned (of_nat i) \<longleftrightarrow> i < 2 ^ m" if "i < n" for i
  proof -
    have "unat (of_nat i :: u64) = i" using that assms by (simp add: unat_of_nat)
    then show ?thesis using Bits_MinBitCountUnsigned_le [of "of_nat i" m] by (simp add: not_less)
  qed
  then show ?thesis unfolding shift_amounts_def takeWhile_upt [symmetric] by (intro takeWhile_cong) auto
qed

lemma shift_right_slice:
  assumes "t = min s (length as)" "t \<le> r"
  shows "take (length as) (drop t (as @ replicate r f)) =
    map (\<lambda>j. if j + s < length as then as ! (j + s) else f) [0..<length as]"
proof (rule nth_equalityI)
  fix j assume "j < length (take (length as) (drop t (as @ replicate r f)))"
  then have j: "j < length as" by simp
  show "take (length as) (drop t (as @ replicate r f)) ! j =
      map (\<lambda>j. if j + s < length as then as ! (j + s) else f) [0..<length as] ! j"
  proof (cases "j + s < length as")
    case True
    then have "t = s" using assms(1) by simp
    moreover have "j < length as - s" using True by simp
    ultimately show ?thesis using True j assms(2) by (simp add: nth_append add.commute)
  next
    case False
    then have "\<not> t + j < length as" "t + j - length as < r" "\<not> j < length as - t" using assms j by auto
    with False j assms(2) show ?thesis by (simp add: nth_append)
  qed
qed (use assms in simp)

lemma shift_left_slice:
  assumes "t = min s (length as)" "t \<le> r"
  shows "take (length as) (drop (r - t) (replicate r False @ as)) =
    map (\<lambda>j. s \<le> j \<and> as ! (j - s)) [0..<length as]"
proof (rule nth_equalityI)
  fix j assume "j < length (take (length as) (drop (r - t) (replicate r False @ as)))"
  then have j: "j < length as" by simp
  show "take (length as) (drop (r - t) (replicate r False @ as)) ! j = map (\<lambda>j. s \<le> j \<and> as ! (j - s)) [0..<length as] ! j"
  proof (cases "s \<le> j")
    case True
    then have "t = s" using assms(1) j by simp
    moreover have "r - s + j - r = j - s" "\<not> r - s + j < r" using True assms(2) \<open>t = s\<close> by auto
    ultimately show ?thesis using True j assms(2) by (simp add: nth_append)
  next
    case False
    then have "j < t" using assms j by auto
    with False j assms(2) show ?thesis by (simp add: nth_append)
  qed
qed (use assms in simp)

section \<open>The contract of an evaluator\<close>

locale sound_evaluator =
  fixes E :: "'e evaluator" and R :: "'e \<Rightarrow> bool \<Rightarrow> bool"
  assumes One_R: "R (ev_One E) True"
    and Zero_R: "R (ev_Zero E) b \<longleftrightarrow> \<not> b"
    and Not_R: "R x a \<Longrightarrow> R (ev_Not E x) (\<not> a)"
    and And_R: "R x a \<Longrightarrow> R y b \<Longrightarrow> R (ev_And E x y) (a \<and> b)"
    and Or_R: "R x a \<Longrightarrow> R y b \<Longrightarrow> R (ev_Or E x y) (a \<or> b)"
begin

lemmas element_R = One_R Not_R And_R Or_R

lemma Zero_False: "R (ev_Zero E) False"
  by (simp add: Zero_R)

lemma R_eqI: "R x a \<Longrightarrow> a = b \<Longrightarrow> R x b"
  by simp

lemma Xor_R: "R x a \<Longrightarrow> R y b \<Longrightarrow> R (AE_Xor E x y) (a \<noteq> b)"
  unfolding AE_Xor_def by (rule R_eqI, (rule element_R | assumption)+) auto

lemma HalfAdder_R:
  assumes "R x a" "R y b"
  shows "R (ar_sum (AE_HalfAdder E x y)) (a \<noteq> b)" "R (ar_carry (AE_HalfAdder E x y)) (a \<and> b)"
  using Xor_R [OF assms] And_R [OF assms] by (simp_all add: AE_HalfAdder_def AE_Xor_def Let_def)

lemma FullAdder_R:
  assumes "R x a" "R y b" "R z c"
  shows "R (ar_sum (AE_FullAdder E x y z)) (odd (of_bool a + of_bool b + of_bool c :: nat))"
    "R (ar_carry (AE_FullAdder E x y z)) (2 \<le> (of_bool a + of_bool b + of_bool c :: nat))"
proof -
  note h = HalfAdder_R [OF assms(1,2)]
  note h2 = HalfAdder_R [OF h(1) assms(3)]
  show "R (ar_sum (AE_FullAdder E x y z)) (odd (of_bool a + of_bool b + of_bool c :: nat))"
    unfolding AE_FullAdder_def Let_def AdderResult.select_convs by (rule R_eqI [OF h2(1)]) auto
  show "R (ar_carry (AE_FullAdder E x y z)) (2 \<le> (of_bool a + of_bool b + of_bool c :: nat))"
    unfolding AE_FullAdder_def Let_def AdderResult.select_convs by (rule R_eqI [OF Or_R [OF h(2) h2(2)]]) auto
qed

lemma BitsToVector_R: "list_all2 R (AE_BitsToVector E c) (bm_bits c)"
  by (auto simp: AE_BitsToVector_def list_all2_conv_all_nth Bits_Get_def One_R Zero_R)

lemma BitwiseNot_R: "list_all2 R xs as \<Longrightarrow> list_all2 R (AE_BitwiseNot E xs) (map Not as)"
  by (auto simp: AE_BitwiseNot_def list_all2_conv_all_nth intro: Not_R)

lemma replicate_R: "R x a \<Longrightarrow> list_all2 R (replicate n x) (replicate n a)"
  by (simp add: list_all2_conv_all_nth)

lemma last_R: "list_all2 R xs as \<Longrightarrow> as \<noteq> [] \<Longrightarrow> R (last xs) (last as)"
  by (cases "xs = []") (auto simp: list_all2_conv_all_nth last_conv_nth)

lemma map2_R:
  assumes "\<And>x a y b. R x a \<Longrightarrow> R y b \<Longrightarrow> R (f x y) (g a b)" "list_all2 R xs as" "list_all2 R ys bs"
  shows "list_all2 R (map2 f xs ys) (map2 g as bs)"
  using assms(2,3) by (auto simp: list_all2_conv_all_nth intro!: assms(1))

lemma NaryOp2_R:
  assumes "\<And>x a y b. R x a \<Longrightarrow> R y b \<Longrightarrow> R (f x y) (g a b)" "list_all2 R xs as" "list_all2 R ys bs"
    "length as \<le> length bs"
  shows "\<exists>zs. AE_NaryOp f [xs, ys] = Some zs \<and> list_all2 R zs (map2 g as bs)"
  using assms(4) map2_R [OF assms(1) assms(2,3)] list_all2_lengthD [OF assms(2)] list_all2_lengthD [OF assms(3)] by simp

lemma BitwiseAnd2_R:
  "list_all2 R xs as \<Longrightarrow> list_all2 R ys bs \<Longrightarrow> length as \<le> length bs \<Longrightarrow>
    \<exists>zs. AE_BitwiseAnd E [xs, ys] = Some zs \<and> list_all2 R zs (map2 (\<and>) as bs)"
  unfolding AE_BitwiseAnd_def by (rule NaryOp2_R [OF And_R])

lemma BitwiseOr2_R:
  "list_all2 R xs as \<Longrightarrow> list_all2 R ys bs \<Longrightarrow> length as \<le> length bs \<Longrightarrow>
    \<exists>zs. AE_BitwiseOr E [xs, ys] = Some zs \<and> list_all2 R zs (map2 (\<or>) as bs)"
  unfolding AE_BitwiseOr_def by (rule NaryOp2_R [OF Or_R])

lemma BitwiseXor2_R:
  "list_all2 R xs as \<Longrightarrow> list_all2 R ys bs \<Longrightarrow> length as \<le> length bs \<Longrightarrow>
    \<exists>zs. AE_BitwiseXor E [xs, ys] = Some zs \<and> list_all2 R zs (map2 (\<noteq>) as bs)"
  unfolding AE_BitwiseXor_def by (rule NaryOp2_R [OF Xor_R])

lemma NaryOp_loop_R:
  assumes g: "\<And>x a y b. R x a \<Longrightarrow> R y b \<Longrightarrow> R (f x y) (g a b)" and "list_all2 R xs as" "list_all2 (list_all2 R) xss ass"
    "\<forall>bs \<in> set ass. length bs = length as"
  shows "\<exists>zs. NaryOp_loop f xs xss = Some zs \<and>
    list_all2 R zs (map (\<lambda>j. fold (\<lambda>bs v. g v (bs ! j)) ass (as ! j)) [0..<length as])"
  using assms(3,2,4)
proof (induction xss ass arbitrary: xs as rule: list_all2_induct)
  case Nil
  then show ?case by (simp add: map_nth)
next
  case (Cons ys xss bs ass)
  have l: "length ys = length bs" "length xs = length as" "length bs = length as"
    using list_all2_lengthD [OF Cons.hyps(1)] list_all2_lengthD [OF Cons.prems(1)] Cons.prems(2) by auto
  have m: "list_all2 R (map2 f xs ys) (map2 g as bs)" by (rule map2_R [OF g]) (use Cons in auto)
  have q: "\<forall>cs \<in> set ass. length cs = length (map2 g as bs)" using Cons.prems(2) l(3) by simp
  from Cons.IH [OF m q] obtain zs where zs: "NaryOp_loop f (map2 f xs ys) xss = Some zs"
    "list_all2 R zs (map (\<lambda>j. fold (\<lambda>bs v. g v (bs ! j)) ass (map2 g as bs ! j)) [0..<length (map2 g as bs)])"
    by (elim exE conjE) (rule that)
  have e: "map (\<lambda>j. fold (\<lambda>bs v. g v (bs ! j)) ass (map2 g as bs ! j)) [0..<length (map2 g as bs)] =
      map (\<lambda>j. fold (\<lambda>bs v. g v (bs ! j)) (bs # ass) (as ! j)) [0..<length as]"
    using l(3) by (intro nth_equalityI) simp_all
  have "NaryOp_loop f xs (ys # xss) = Some zs" using zs(1) l by simp
  then show ?case using zs(2) [unfolded e] by blast
qed

text \<open>The n-ary operations fold over the operands at each position.\<close>

lemma NaryOp_R:
  assumes "\<And>x a y b. R x a \<Longrightarrow> R y b \<Longrightarrow> R (f x y) (g a b)" and "list_all2 (list_all2 R) (xs # xss) (as # ass)"
    "\<forall>bs \<in> set ass. length bs = length as"
  shows "\<exists>zs. AE_NaryOp f (xs # xss) = Some zs \<and>
    list_all2 R zs (map (\<lambda>j. fold (\<lambda>bs v. g v (bs ! j)) ass (as ! j)) [0..<length as])"
  using NaryOp_loop_R [where f = f and g = g, OF assms(1)] assms(2,3) by simp

lemma BitSlice_R:
  assumes "list_all2 R xs as" "start + width \<le> length as"
  shows "\<exists>zs. AE_BitSlice xs start width = Some zs \<and> list_all2 R zs (take width (drop start as))"
  using assms by (auto simp: AE_BitSlice_def list_all2_conv_all_nth)

lemma Concat_R: "list_all2 (list_all2 R) xss ass \<Longrightarrow> list_all2 R (AE_Concat xss) (concat (rev ass))"
  unfolding AE_Concat_def by (induction rule: list_all2_induct) (auto intro: list_all2_appendI)

lemma ZeroExtend_R:
  assumes "list_all2 R xs as" "length as \<le> n"
  shows "\<exists>zs. AE_ZeroExtend E xs n = Some zs \<and> list_all2 R zs (as @ replicate (n - length as) False)"
  using assms list_all2_lengthD [OF assms(1)]
  by (auto simp: AE_ZeroExtend_def AE_Concat_def intro!: list_all2_appendI replicate_R Zero_False)

lemma SignExtend_R:
  assumes "list_all2 R xs as" "as \<noteq> []" "length as \<le> n"
  shows "\<exists>zs. AE_SignExtend xs n = Some zs \<and> list_all2 R zs (as @ replicate (n - length as) (last as))"
  using assms list_all2_lengthD [OF assms(1)]
  by (auto simp: AE_SignExtend_def AE_Concat_def Suc_le_eq intro!: list_all2_appendI replicate_R last_R)

lemma Gate_R:
  assumes "R x a" "list_all2 R ys bs" "bs \<noteq> []"
  shows "\<exists>zs. AE_Gate E x ys = Some zs \<and> list_all2 R zs (map (\<lambda>b. a \<and> b) bs)"
proof -
  have l: "length ys = length bs" using assms(2) by (rule list_all2_lengthD)
  obtain m where m: "AE_SignExtend [x] (length ys) = Some m" "list_all2 R m (replicate (length bs) a)"
    using SignExtend_R [of "[x]" "[a]" "length ys"] assms(1,3) l
    by (auto simp: Suc_le_eq replicate_append_same simp flip: replicate_Suc)
  have "map2 (\<and>) (replicate (length bs) a) bs = map (\<lambda>b. a \<and> b) bs"
    by (rule nth_equalityI) auto
  then show ?thesis using BitwiseAnd2_R [OF m(2) assms(2)] m(1) by (auto simp: AE_Gate_def)
qed

lemma Equals_fold_R:
  assumes "list_all2 R xs as" "list_all2 R ys bs" "R r c" "length as = length bs"
  shows "R (fold (\<lambda>(x, y) res. ev_And E res (ev_Or E (ev_And E x y) (ev_And E (ev_Not E x) (ev_Not E y)))) (zip xs ys) r)
    (c \<and> as = bs)"
  using assms
proof (induction xs as arbitrary: ys bs r c rule: list_all2_induct)
  case Nil
  then show ?case by simp
next
  case (Cons x xs a as)
  obtain y ys' b bs' where e: "ys = y # ys'" "bs = b # bs'" "R y b" "list_all2 R ys' bs'"
    using Cons.prems(1,3) by (auto simp: Suc_length_conv list_all2_Cons2)
  have "R (ev_And E r (ev_Or E (ev_And E x y) (ev_And E (ev_Not E x) (ev_Not E y)))) (c \<and> a = b)"
    by (rule R_eqI, (rule element_R Cons.prems(2) Cons.hyps(1) e(3))+) auto
  from Cons.IH [OF e(4) this] show ?case using Cons.prems(3) e(1,2) by simp
qed

lemma Equals_R:
  assumes "list_all2 R xs as" "list_all2 R ys bs" "length as = length bs"
  shows "\<exists>z. AE_Equals E xs ys = Some z \<and> R z (bl_to_nat as = bl_to_nat bs)"
  using Equals_fold_R [OF assms(1,2) One_R assms(3)] assms(3) list_all2_lengthD [OF assms(1)] list_all2_lengthD [OF assms(2)]
  by (auto simp: AE_Equals_def bl_to_nat_inject)

lemma ULessThan_loop_R:
  assumes "list_all2 R xs as" "list_all2 R ys bs" "length as = length bs" "R r c" "R u d"
  shows "R (ULessThan_loop E (rev (zip xs ys)) r u) (c \<or> (d \<and> bl_to_nat as < bl_to_nat bs))"
  using assms
proof (induction as arbitrary: xs ys bs r c u d rule: rev_induct)
  case Nil
  then show ?case by simp
next
  case (snoc a as)
  obtain bs' b where b: "bs = bs' @ [b]" using snoc.prems(3) by (cases bs rule: rev_cases) auto
  obtain xs' x where x: "xs = xs' @ [x]" "list_all2 R xs' as" "R x a"
    using snoc.prems(1) by (auto simp: list_all2_append2 list_all2_Cons2)
  obtain ys' y where y: "ys = ys' @ [y]" "list_all2 R ys' bs'" "R y b"
    using snoc.prems(2) unfolding b by (auto simp: list_all2_append2 list_all2_Cons2)
  have l: "length as = length bs'" using snoc.prems(3) b by simp
  have lxy: "length xs' = length ys'" using list_all2_lengthD [OF x(2)] list_all2_lengthD [OF y(2)] l by simp
  let ?r = "ev_Or E r (ev_And E u (ev_And E (ev_Not E x) y))" and ?u = "ev_And E u (ev_Or E (ev_Not E x) y)"
  have r: "R ?r (c \<or> (d \<and> \<not> a \<and> b))"
    by (rule R_eqI, (rule element_R snoc.prems(4,5) x(3) y(3))+) auto
  have u: "R ?u (d \<and> (\<not> a \<or> b))"
    by (rule R_eqI, (rule element_R snoc.prems(4,5) x(3) y(3))+) auto
  have "bl_to_nat (as @ [a]) < bl_to_nat (bs' @ [b]) \<longleftrightarrow>
      (\<not> a \<and> b) \<or> ((\<not> a \<or> b) \<and> bl_to_nat as < bl_to_nat bs')"
    using bl_to_nat_less [of as] bl_to_nat_less [of bs'] l by (cases a; cases b) (auto simp: bl_to_nat_snoc)
  then have "(c \<or> (d \<and> \<not> a \<and> b)) \<or> (d \<and> (\<not> a \<or> b)) \<and> bl_to_nat as < bl_to_nat bs' \<longleftrightarrow>
      c \<or> d \<and> bl_to_nat (as @ [a]) < bl_to_nat bs" unfolding b by blast
  with snoc.IH [OF x(2) y(2) l r u] show ?case using x(1) y(1) lxy by simp
qed

lemma ULessThan_R:
  assumes "list_all2 R xs as" "list_all2 R ys bs" "length as = length bs"
  shows "\<exists>z. AE_ULessThan E xs ys = Some z \<and> R z (bl_to_nat as < bl_to_nat bs)"
  using ULessThan_loop_R [OF assms Zero_False One_R] assms(3) list_all2_lengthD [OF assms(1)] list_all2_lengthD [OF assms(2)]
  by (auto simp: AE_ULessThan_def)

lemma SLessThan_R:
  assumes "list_all2 R xs as" "list_all2 R ys bs" "length as = length bs" "as \<noteq> []"
  shows "\<exists>z. AE_SLessThan E xs ys = Some z \<and> R z (bl_to_int as < bl_to_int bs)"
proof -
  have ne: "bs \<noteq> []" "xs \<noteq> []" "ys \<noteq> []" using assms by auto
  obtain lt where lt: "AE_ULessThan E xs ys = Some lt" "R lt (bl_to_nat as < bl_to_nat bs)"
    using ULessThan_R [OF assms(1-3)] by blast
  note la = last_R [OF assms(1,4)] and lb = last_R [OF assms(2) ne(1)]
  have less: "int (bl_to_nat as) < 2 ^ length bs" "int (bl_to_nat bs) < 2 ^ length bs"
    using bl_to_nat_less [of as] bl_to_nat_less [of bs] assms(3) by (simp_all flip: of_nat_less_iff)
  have cmp: "(last as \<and> \<not> last bs) \<or> (\<not> (\<not> last as \<and> last bs) \<and> bl_to_nat as < bl_to_nat bs)
      \<longleftrightarrow> bl_to_int as < bl_to_int bs"
    unfolding bl_to_int_def of_nat_less_iff [where 'a = int, symmetric] using less assms(3,4) ne(1)
    by (cases "last as"; cases "last bs"; simp only: simp_thms if_True if_False; linarith)
  have "R (ev_Or E (ev_And E (last xs) (ev_Not E (last ys)))
      (ev_And E (ev_Not E (ev_And E (ev_Not E (last xs)) (last ys))) lt)) (bl_to_int as < bl_to_int bs)"
    by (rule R_eqI [OF _ cmp], (rule element_R la lb lt(2))+)
  then show ?thesis using lt(1) ne by (simp add: AE_SLessThan_def Let_def)
qed

text \<open>Selects: what the accumulators hold at each position.\<close>

lemma select_or_R:
  assumes "list_all2 R ss bs" "list_all2 (list_all2 R) cs ds" "list_all2 R acc as" "\<forall>d \<in> set ds. length as \<le> length d"
  shows "list_all2 R (fold (\<lambda>(s, c) res. map2 (\<lambda>r x. ev_Or E r (ev_And E x s)) res c) (zip ss cs) acc)
    (map (\<lambda>j. as ! j \<or> (\<exists>(b, d) \<in> set (zip bs ds). b \<and> d ! j)) [0..<length as])"
  using assms
proof (induction ss bs arbitrary: cs ds acc as rule: list_all2_induct)
  case Nil
  then show ?case by (simp add: map_nth)
next
  case (Cons s ss b bs)
  show ?case
  proof (cases ds)
    case Nil
    with Cons.prems show ?thesis by (simp add: map_nth)
  next
    case (Cons d ds')
    then obtain c cs' where c: "cs = c # cs'" "list_all2 R c d" "list_all2 (list_all2 R) cs' ds'"
      using Cons.prems(1) by (auto simp: list_all2_Cons2)
    let ?as = "map2 (\<lambda>r x. r \<or> (x \<and> b)) as d"
    have l: "length ?as = length as" using \<open>ds = _\<close> Cons.prems(3) by simp
    have a: "list_all2 R (map2 (\<lambda>r x. ev_Or E r (ev_And E x s)) acc c) ?as"
      by (rule map2_R [OF _ Cons.prems(2) c(2)]) (intro element_R Cons.hyps(1))
    have q: "\<forall>d \<in> set ds'. length ?as \<le> length d" using Cons.prems(3) \<open>ds = _\<close> l by simp
    have e: "map (\<lambda>j. ?as ! j \<or> (\<exists>(b, d) \<in> set (zip bs ds'). b \<and> d ! j)) [0..<length ?as] =
        map (\<lambda>j. as ! j \<or> (\<exists>(b, d) \<in> set (zip (b # bs) ds). b \<and> d ! j)) [0..<length as]"
      using \<open>ds = _\<close> Cons.prems(3) by (intro nth_equalityI) auto
    show ?thesis using Cons.IH [OF c(3) a q] unfolding e c(1) by simp
  qed
qed

lemma select_priority_R:
  assumes "list_all2 R ss bs" "list_all2 (list_all2 R) cs ds" "list_all2 R acc as" "\<forall>d \<in> set ds. length as \<le> length d"
  shows "list_all2 R (foldr (\<lambda>(s, c) res. map2 (\<lambda>r x. ev_Or E (ev_And E x s) (ev_And E r (ev_Not E s))) res c) (zip ss cs) acc)
    (map (\<lambda>j. case find fst (zip bs ds) of Some (b, d) \<Rightarrow> d ! j | None \<Rightarrow> as ! j) [0..<length as])"
  using assms(1,2,4)
proof (induction ss bs arbitrary: cs ds rule: list_all2_induct)
  case Nil
  then show ?case using assms(3) by (simp add: map_nth)
next
  case (Cons s ss b bs)
  show ?case
  proof (cases ds)
    case Nil
    with Cons.prems show ?thesis using assms(3) by (simp add: map_nth)
  next
    case (Cons d ds')
    then obtain c cs' where c: "cs = c # cs'" "list_all2 R c d" "list_all2 (list_all2 R) cs' ds'"
      using Cons.prems(1) by (auto simp: list_all2_Cons2)
    let ?m = "map (\<lambda>j. case find fst (zip bs ds') of Some (b, d) \<Rightarrow> d ! j | None \<Rightarrow> as ! j) [0..<length as]"
    have q: "\<forall>d \<in> set ds'. length as \<le> length d" using Cons.prems(2) \<open>ds = _\<close> by simp
    have a: "list_all2 R (foldr (\<lambda>(s, c) res. map2 (\<lambda>r x. ev_Or E (ev_And E x s) (ev_And E r (ev_Not E s))) res c) (zip (s # ss) cs) acc)
      (map2 (\<lambda>r x. (x \<and> b) \<or> (r \<and> \<not> b)) ?m d)"
      unfolding c(1) zip_Cons_Cons foldr_Cons comp_def prod.case
      by (rule map2_R [OF _ Cons.IH [OF c(3) q] c(2)]) (intro element_R Cons.hyps(1))
    have e: "map2 (\<lambda>r x. (x \<and> b) \<or> (r \<and> \<not> b)) ?m d =
        map (\<lambda>j. case find fst (zip (b # bs) ds) of Some (b, d) \<Rightarrow> d ! j | None \<Rightarrow> as ! j) [0..<length as]"
      using \<open>ds = _\<close> Cons.prems(2) by (intro nth_equalityI) (auto split: option.splits)
    show ?thesis using a unfolding e .
  qed
qed

text \<open>
  The and-reduction keeps at least the cases whose selector may be one, so once some selector is one
  it is below that case.
\<close>

lemma select_and_reduction_R:
  assumes "list_all2 R ss bs" "list_all2 (list_all2 R) cs ds" "list_all2 R acc as" "\<forall>d \<in> set ds. length as \<le> length d"
  shows "\<exists>vs. length vs = length as \<and>
    list_all2 R (fold (\<lambda>(s, c) acc. if s \<noteq> ev_Zero E then map2 (ev_And E) acc c else acc) (zip ss cs) acc) vs \<and>
    (\<forall>j < length as. vs ! j \<longrightarrow> as ! j) \<and>
    (\<forall>(b, d) \<in> set (zip bs ds). b \<longrightarrow> (\<forall>j < length as. vs ! j \<longrightarrow> d ! j))"
  using assms
proof (induction ss bs arbitrary: cs ds acc as rule: list_all2_induct)
  case Nil
  then show ?case by auto
next
  case (Cons s ss b bs)
  show ?case
  proof (cases ds)
    case Nil
    with Cons.prems show ?thesis by auto
  next
    case (Cons d ds')
    then obtain c cs' where c: "cs = c # cs'" "list_all2 R c d" "list_all2 (list_all2 R) cs' ds'"
      using Cons.prems(1) by (auto simp: list_all2_Cons2)
    let ?acc = "if s \<noteq> ev_Zero E then map2 (ev_And E) acc c else acc"
    let ?as = "if s \<noteq> ev_Zero E then map2 (\<and>) as d else as"
    have ld: "length as \<le> length d" using \<open>ds = _\<close> Cons.prems(3) by simp
    have l: "length ?as = length as" using ld by simp
    have a: "list_all2 R ?acc ?as" using map2_R [OF And_R Cons.prems(2) c(2)] Cons.prems(2) by simp
    have q: "\<forall>d \<in> set ds'. length ?as \<le> length d" using Cons.prems(3) \<open>ds = _\<close> l by simp
    from Cons.IH [OF c(3) a q] obtain vs where vs: "length vs = length as"
      "list_all2 R (fold (\<lambda>(s, c) acc. if s \<noteq> ev_Zero E then map2 (ev_And E) acc c else acc) (zip ss cs') ?acc) vs"
      "\<forall>j < length as. vs ! j \<longrightarrow> ?as ! j"
      "\<forall>(b, d) \<in> set (zip bs ds'). b \<longrightarrow> (\<forall>j < length as. vs ! j \<longrightarrow> d ! j)" unfolding l by blast
    have "s \<noteq> ev_Zero E" if b using Cons.hyps(1) that Zero_R by blast
    then have "b \<longrightarrow> (\<forall>j < length as. vs ! j \<longrightarrow> d ! j)" "\<forall>j < length as. vs ! j \<longrightarrow> as ! j"
      using vs(3) ld by (auto split: if_splits)
    moreover have "list_all2 R (fold (\<lambda>(s, c) acc. if s \<noteq> ev_Zero E then map2 (ev_And E) acc c else acc) (zip (s # ss) cs) acc) vs"
      using vs(2) unfolding c(1) by simp
    ultimately show ?thesis using vs(1,4) \<open>ds = _\<close> by (intro exI [of _ vs]) auto
  qed
qed

lemma OneHotSelectInternal_R:
  assumes "list_all2 R ss bs" "list_all2 (list_all2 R) cs ds" "length bs = length ds" "ds \<noteq> []"
    "\<forall>d \<in> set ds. length d = w" "can_be_zero \<or> True \<in> set bs"
  shows "\<exists>zs. AE_OneHotSelectInternal E ss cs can_be_zero = Some zs \<and>
    list_all2 R zs (map (\<lambda>j. \<exists>(b, d) \<in> set (zip bs ds). b \<and> d ! j) [0..<w])"
proof -
  have l: "length ss = length cs" "cs \<noteq> []"
    using assms(3,4) list_all2_lengthD [OF assms(1)] list_all2_lengthD [OF assms(2)] by auto
  have wc: "length c = w" if "c \<in> set cs" for c
    using that assms(2,5) by (metis in_set_conv_nth list_all2_conv_all_nth list_all2_lengthD nth_mem)
  then have hd: "length (hd cs) = w" using l(2) by simp
  have ex: "\<not> list_ex (\<lambda>c. length c < w) cs" using wc by (auto simp: list_ex_iff)
  let ?s = "map (\<lambda>j. \<exists>(b, d) \<in> set (zip bs ds). b \<and> d ! j) [0..<w]"
  have e: "map (\<lambda>j. replicate w False ! j \<or> (\<exists>(b, d) \<in> set (zip bs ds). b \<and> d ! j)) [0..<length (replicate w False)] = ?s"
    by (intro nth_equalityI) simp_all
  have o: "list_all2 R (select_or E w (zip ss cs)) ?s"
    using select_or_R [OF assms(1,2) replicate_R [OF Zero_False], of w] assms(5) unfolding select_or_def e by simp
  show ?thesis
  proof (cases can_be_zero)
    case True
    then show ?thesis using o l hd ex by (simp add: AE_OneHotSelectInternal_def Let_def)
  next
    case False
    then obtain k where k: "k < length bs" "bs ! k" using assms(6) by (auto simp: in_set_conv_nth)
    obtain vs where vs: "length vs = w" "list_all2 R (select_and_reduction E w (zip ss cs)) vs"
      "\<forall>(b, d) \<in> set (zip bs ds). b \<longrightarrow> (\<forall>j < w. vs ! j \<longrightarrow> d ! j)"
      using select_and_reduction_R [OF assms(1,2) replicate_R [OF One_R], of w] assms(5)
      unfolding select_and_reduction_def by auto
    have "(bs ! k, ds ! k) \<in> set (zip bs ds)" using k assms(3) by (auto simp: set_zip)
    then have "\<exists>(b, d) \<in> set (zip bs ds). b \<and> d ! j" if "j < w" "vs ! j" for j
      using that vs(3) k(2) by (intro bexI [of _ "(bs ! k, ds ! k)"]) auto
    then have "map2 (\<or>) vs ?s = ?s" using vs(1) by (intro nth_equalityI) auto
    then show ?thesis
      using BitwiseOr2_R [OF vs(2) o] vs(1) False l hd ex by (simp add: AE_OneHotSelectInternal_def Let_def)
  qed
qed

lemma one_hot_value:
  assumes "k < length bs" "bs ! k" "\<forall>i < length bs. bs ! i \<longrightarrow> i = k" "length bs = length ds" "length (ds ! k) = w"
  shows "map (\<lambda>j. \<exists>(b, d) \<in> set (zip bs ds). b \<and> d ! j) [0..<w] = ds ! k"
proof (rule nth_equalityI)
  fix j assume "j < length (map (\<lambda>j. \<exists>(b, d) \<in> set (zip bs ds). b \<and> d ! j) [0..<w])"
  then have "j < w" by simp
  have "(\<exists>(b, d) \<in> set (zip bs ds). b \<and> d ! j) \<longleftrightarrow> (\<exists>i < length bs. bs ! i \<and> ds ! i ! j)"
    using assms(4) by (fastforce simp: set_zip)
  also have "\<dots> \<longleftrightarrow> ds ! k ! j" using assms(1-3) by blast
  finally show "map (\<lambda>j. \<exists>(b, d) \<in> set (zip bs ds). b \<and> d ! j) [0..<w] ! j = ds ! k ! j"
    using \<open>j < w\<close> by simp
qed (use assms(5) in simp)

lemma OneHotSelect_at_R:
  assumes "list_all2 R ss bs" "list_all2 (list_all2 R) cs ds" "length bs = length ds"
    "\<forall>d \<in> set ds. length d = w" "k < length bs" "bs ! k" "\<forall>i < length bs. bs ! i \<longrightarrow> i = k"
  shows "\<exists>zs. AE_OneHotSelectInternal E ss cs can_be_zero = Some zs \<and> list_all2 R zs (ds ! k)"
proof -
  have "True \<in> set bs" using assms(5,6) nth_mem by metis
  moreover have "ds \<noteq> []" using assms(3,5) by auto
  moreover have "length (ds ! k) = w" using assms(3-5) by simp
  ultimately show ?thesis
    using OneHotSelectInternal_R [OF assms(1-3) _ assms(4), of can_be_zero] one_hot_value [OF assms(5-7,3), of w] by simp
qed

lemma PrioritySelectInternal_R:
  assumes "list_all2 R ss bs" "list_all2 (list_all2 R) cs ds" "length bs = length ds" "ds \<noteq> []"
    "\<forall>d \<in> set ds. length d = w" "can_be_zero \<or> True \<in> set bs"
  shows "\<exists>zs. AE_PrioritySelectInternal E ss cs can_be_zero = Some zs \<and>
    list_all2 R zs (case find fst (zip bs ds) of Some (b, d) \<Rightarrow> d | None \<Rightarrow> replicate w False)"
proof -
  have l: "length ss = length cs" "cs \<noteq> []"
    using assms(3,4) list_all2_lengthD [OF assms(1)] list_all2_lengthD [OF assms(2)] by auto
  have wc: "length c = w" if "c \<in> set cs" for c
    using that assms(2,5) by (metis in_set_conv_nth list_all2_conv_all_nth list_all2_lengthD nth_mem)
  then have hd: "length (hd cs) = w" using l(2) by simp
  have ex: "\<not> list_ex (\<lambda>c. length c < w) cs" using wc by (auto simp: list_ex_iff)
  let ?s = "case find fst (zip bs ds) of Some (b, d) \<Rightarrow> d | None \<Rightarrow> replicate w False"
  have fd: "b \<and> (b, d) \<in> set (zip bs ds)" if "find fst (zip bs ds) = Some (b, d)" for b d
    using that by (auto simp: find_Some_iff in_set_conv_nth)
  have ls: "length ?s = w" using fd assms(5) by (auto split: option.splits dest: set_zip_rightD)
  have "map (\<lambda>j. case find fst (zip bs ds) of Some (b, d) \<Rightarrow> d ! j | None \<Rightarrow> replicate w False ! j) [0..<w] = ?s"
    using ls by (intro nth_equalityI) (auto split: option.splits)
  then have o: "list_all2 R (select_priority E w (zip ss cs)) ?s"
    using select_priority_R [OF assms(1,2) replicate_R [OF Zero_False], of w] assms(5) unfolding select_priority_def
    by simp
  show ?thesis
  proof (cases can_be_zero)
    case True
    then show ?thesis using o l hd ex by (simp add: AE_PrioritySelectInternal_def Let_def)
  next
    case False
    then obtain k where k: "k < length bs" "bs ! k" using assms(6) by (auto simp: in_set_conv_nth)
    obtain vs where vs: "length vs = w" "list_all2 R (select_and_reduction E w (zip ss cs)) vs"
      "\<forall>(b, d) \<in> set (zip bs ds). b \<longrightarrow> (\<forall>j < w. vs ! j \<longrightarrow> d ! j)"
      using select_and_reduction_R [OF assms(1,2) replicate_R [OF One_R], of w] assms(5)
      unfolding select_and_reduction_def by auto
    have "(bs ! k, ds ! k) \<in> set (zip bs ds)" using k assms(3) by (auto simp: set_zip)
    then obtain b d where bd: "find fst (zip bs ds) = Some (b, d)"
      using k(2) by (cases "find fst (zip bs ds)") (auto simp: find_None_iff)
    then have "map2 (\<or>) vs ?s = ?s" using vs(1,3) fd [OF bd] ls by (intro nth_equalityI) auto
    then show ?thesis
      using BitwiseOr2_R [OF vs(2) o] vs(1) ls False l hd ex by (simp add: AE_PrioritySelectInternal_def Let_def)
  qed
qed

text \<open>Constants: the vector of a number that fits.\<close>

lemma constant_R:
  assumes "i < 2 ^ n" "i < 2 ^ 64"
  shows "\<exists>c. UBits (of_nat i) n = Some c \<and> list_all2 R (AE_BitsToVector E c) (nat_to_bl n i)"
proof -
  have "unat (of_nat i :: u64) = i" using assms(2) by (simp add: unat_of_nat)
  then show ?thesis using UBits_value [of "of_nat i" n] assms(1) BitsToVector_R [of "bits_of_nat n i"] by simp
qed

lemma equals_constants_R:
  assumes "list_all2 R xs as" "\<forall>i \<in> set is. i < 2 ^ length as \<and> i < 2 ^ 64"
  shows "\<exists>es. equals_constants E xs is = Some es \<and> list_all2 R es (map (\<lambda>i. bl_to_nat as = i) is)"
  using assms(2)
proof (induction "is")
  case Nil
  then show ?case by simp
next
  case (Cons i "is")
  have l: "length xs = length as" using assms(1) by (rule list_all2_lengthD)
  obtain c where c: "UBits (of_nat i) (length xs) = Some c" "list_all2 R (AE_BitsToVector E c) (nat_to_bl (length xs) i)"
    using constant_R [of i "length xs"] Cons.prems l by auto
  obtain e where e: "AE_Equals E xs (AE_BitsToVector E c) = Some e" "R e (bl_to_nat as = i)"
    using Equals_R [OF assms(1) c(2)] Cons.prems l by (auto simp: bl_to_nat_to_bl)
  obtain es where "equals_constants E xs is = Some es" "list_all2 R es (map (\<lambda>i. bl_to_nat as = i) is)"
    using Cons by auto
  then show ?case using c(1) e by simp
qed

lemma Select_R:
  assumes "list_all2 R xs as" "list_all2 (list_all2 R) cs ds" "\<forall>d \<in> set ds. length d = w"
    "length ds \<le> 2 ^ length as" "length ds < 2 ^ 64" "bl_to_nat as < length ds"
  shows "\<exists>zs. AE_Select E xs cs None = Some zs \<and> list_all2 R zs (ds ! bl_to_nat as)"
proof -
  have l: "length cs = length ds" using assms(2) by (rule list_all2_lengthD)
  obtain es where es: "equals_constants E xs [0..<length ds] = Some es"
      "list_all2 R es (map (\<lambda>i. bl_to_nat as = i) [0..<length ds])"
    using equals_constants_R [OF assms(1), of "[0..<length ds]"] assms(4,5) by auto
  show ?thesis
    using OneHotSelect_at_R [OF es(2) assms(2) _ assms(3), of "bl_to_nat as" False] assms(6) es(1)
    by (simp add: AE_Select_def AE_SelectInternal_def l)
qed

lemma Select_default_R:
  assumes "list_all2 R xs as" "list_all2 (list_all2 R) cs ds" "\<forall>d \<in> set ds. length d = w"
    "length ds \<le> 2 ^ length as" "length ds < 2 ^ 64" "ds \<noteq> []" "list_all2 R x d" "length d = w"
  shows "\<exists>zs. AE_Select E xs cs (Some x) = Some zs \<and>
    list_all2 R zs (if bl_to_nat as < length ds then ds ! bl_to_nat as else d)"
proof -
  let ?n = "length ds" and ?a = "bl_to_nat as"
  have l: "length cs = ?n" "length xs = length as" using list_all2_lengthD [OF assms(2)] list_all2_lengthD [OF assms(1)] by simp_all
  obtain es where es: "equals_constants E xs [0..<?n] = Some es" "list_all2 R es (map (\<lambda>i. ?a = i) [0..<?n])"
    using equals_constants_R [OF assms(1), of "[0..<?n]"] assms(4,5) by auto
  have n1: "(of_nat ?n - 1 :: u64) = of_nat (?n - 1)" using assms(6) by (cases ds) simp_all
  have pred: "?n - 1 < ?n" using assms(6) by simp
  obtain c where c: "UBits (of_nat (?n - 1)) (length xs) = Some c"
      "list_all2 R (AE_BitsToVector E c) (nat_to_bl (length xs) (?n - 1))"
    using constant_R [of "?n - 1" "length xs", OF less_le_trans [OF pred] less_trans [OF pred assms(5)]] assms(4) l(2) by auto
  have m: "(?n - 1) mod 2 ^ length as = ?n - 1" by (rule mod_less [OF less_le_trans [OF pred assms(4)]])
  have "?n - 1 < ?a \<longleftrightarrow> \<not> ?a < ?n" using pred by linarith
  then obtain b where b: "AE_ULessThan E (AE_BitsToVector E c) xs = Some b" "R b (\<not> ?a < ?n)"
    using ULessThan_R [OF c(2) assms(1)] l(2) m by (auto simp: bl_to_nat_to_bl)
  let ?bs = "map (\<lambda>i. ?a = i) [0..<?n] @ [\<not> ?a < ?n]"
  have bs: "list_all2 R (es @ [b]) ?bs" using es(2) b(2) by (auto intro: list_all2_appendI)
  have ds: "list_all2 (list_all2 R) (cs @ [x]) (ds @ [d])" using assms(2,7) by (auto intro: list_all2_appendI)
  let ?k = "if ?a < ?n then ?a else ?n"
  have k: "?k < length ?bs" "?bs ! ?k" "\<forall>i < length ?bs. ?bs ! i \<longrightarrow> i = ?k"
    by (auto simp: nth_append)
  have "\<exists>zs. AE_OneHotSelectInternal E (es @ [b]) (cs @ [x]) False = Some zs \<and> list_all2 R zs ((ds @ [d]) ! ?k)"
    by (rule OneHotSelect_at_R [OF bs ds _ _ k]) (use assms(3,8) in auto)
  moreover have "(ds @ [d]) ! ?k = (if ?a < ?n then ds ! ?a else d)" by (simp add: nth_append)
  moreover have "AE_Select E xs cs (Some x) = AE_OneHotSelectInternal E (es @ [b]) (cs @ [x]) False"
    using es(1) b(1) c(1) by (simp only: AE_Select_def AE_SelectInternal_def l(1) n1 Option.bind.simps option.case)
  ultimately show ?thesis by (simp only:)
qed

lemma Select2_R:
  assumes "R s b" "list_all2 R x0 d0" "list_all2 R x1 d1" "length d0 = length d1"
  shows "\<exists>zs. AE_Select E [s] [x0, x1] None = Some zs \<and> list_all2 R zs (if b then d1 else d0)"
  using Select_R [of "[s]" "[b]" "[x0, x1]" "[d0, d1]" "length d0"] assms by (cases b) simp_all

text \<open>One-hot: the first set position, or the extra position when there is none.\<close>

lemma OneHot_loop_R:
  assumes "list_all2 R xs as" "R z c"
  shows "list_all2 R (fst (OneHot_loop E z xs)) (map (\<lambda>i. c \<and> as ! i \<and> (\<forall>j < i. \<not> as ! j)) [0..<length as]) \<and>
    R (snd (OneHot_loop E z xs)) (c \<and> True \<notin> set as)"
  using assms
proof (induction xs as arbitrary: z c rule: list_all2_induct)
  case Nil
  then show ?case by simp
next
  case (Cons x xs a as)
  have z: "R (ev_And E z (ev_Not E x)) (c \<and> \<not> a)" by (intro element_R Cons)
  have h: "R (ev_And E z x) (c \<and> a)" by (intro element_R Cons)
  have e: "map (\<lambda>i. c \<and> (a # as) ! i \<and> (\<forall>j < i. \<not> (a # as) ! j)) [0..<length (a # as)] =
      (c \<and> a) # map (\<lambda>i. (c \<and> \<not> a) \<and> as ! i \<and> (\<forall>j < i. \<not> as ! j)) [0..<length as]"
    by (simp add: map_upt_Suc All_less_Suc2 conj_ac del: upt_Suc)
  have "(c \<and> \<not> a) \<and> True \<notin> set as \<longleftrightarrow> c \<and> True \<notin> set (a # as)" by auto
  then show ?case using Cons.IH [OF z] h unfolding e by simp
qed

lemma OneHotLsbToMsb_R:
  assumes "list_all2 R xs as"
  shows "list_all2 R (AE_OneHotLsbToMsb E xs)
    (map (\<lambda>i. as ! i \<and> (\<forall>j < i. \<not> as ! j)) [0..<length as] @ [True \<notin> set as])"
  using OneHot_loop_R [OF assms One_R] by (auto simp: AE_OneHotLsbToMsb_def Let_def intro: list_all2_appendI)

lemma OneHotMsbToLsb_R:
  assumes "list_all2 R xs as"
  shows "list_all2 R (AE_OneHotMsbToLsb E xs)
    (map (\<lambda>i. as ! i \<and> (\<forall>j. i < j \<and> j < length as \<longrightarrow> \<not> as ! j)) [0..<length as] @ [True \<notin> set as])"
proof -
  let ?n = "length as"
  have e: "rev (map (\<lambda>i. True \<and> rev as ! i \<and> (\<forall>j < i. \<not> rev as ! j)) [0..<length (rev as)]) =
      map (\<lambda>i. as ! i \<and> (\<forall>j. i < j \<and> j < ?n \<longrightarrow> \<not> as ! j)) [0..<?n]"
  proof (rule nth_equalityI)
    fix i assume "i < length (rev (map (\<lambda>i. True \<and> rev as ! i \<and> (\<forall>j < i. \<not> rev as ! j)) [0..<length (rev as)]))"
    then have i: "i < ?n" by simp
    have "(\<forall>j < ?n - Suc i. \<not> rev as ! j) \<longleftrightarrow> (\<forall>j. i < j \<and> j < ?n \<longrightarrow> \<not> as ! j)"
    proof safe
      fix j assume a: "\<forall>j < ?n - Suc i. \<not> rev as ! j" "i < j" "j < ?n" "as ! j"
      have "?n - Suc j < ?n - Suc i" using a(2,3) by linarith
      with a show False using a(1) [rule_format, of "?n - Suc j"] by (simp add: rev_nth)
    next
      fix j assume a: "\<forall>j. i < j \<and> j < ?n \<longrightarrow> \<not> as ! j" "j < ?n - Suc i" "rev as ! j"
      have "i < ?n - Suc j" "?n - Suc j < ?n" using a(2) i by linarith+
      with a show False using a(1) [rule_format, of "?n - Suc j"] by (simp add: rev_nth)
    qed
    moreover have "[0..<?n] ! (?n - Suc i) = ?n - Suc i" "rev as ! (?n - Suc i) = as ! i"
      using i nth_upt [of 0 "?n - Suc i" ?n] by (simp_all add: rev_nth)
    ultimately show "rev (map (\<lambda>i. True \<and> rev as ! i \<and> (\<forall>j < i. \<not> rev as ! j)) [0..<length (rev as)]) ! i =
        map (\<lambda>i. as ! i \<and> (\<forall>j. i < j \<and> j < ?n \<longrightarrow> \<not> as ! j)) [0..<?n] ! i"
      using i by (simp add: rev_nth [of _ "map _ _"])
  qed simp
  have "list_all2 R (rev xs) (rev as)" using assms by simp
  from OneHot_loop_R [OF this One_R] show ?thesis
    unfolding AE_OneHotMsbToLsb_def Let_def e [symmetric] by (auto intro: list_all2_appendI)
qed

text \<open>Reductions.\<close>

lemma reduce_R:
  assumes "\<And>x a y b. R x a \<Longrightarrow> R y b \<Longrightarrow> R (f x y) (g a b)" "list_all2 R xs as" "R z c"
  shows "R (fold (\<lambda>e r. f r e) xs z) (fold (\<lambda>e r. g r e) as c)"
  using assms(2,3) by (induction xs as arbitrary: z c rule: list_all2_induct) (auto intro: assms(1))

lemma fold_and: "fold (\<lambda>e r. r \<and> e) as c \<longleftrightarrow> c \<and> False \<notin> set as"
  by (induction as arbitrary: c) auto

lemma fold_or: "fold (\<lambda>e r. r \<or> e) as c \<longleftrightarrow> c \<or> True \<in> set as"
  by (induction as arbitrary: c) auto

lemma fold_xor: "fold (\<lambda>e r. (\<not> r \<and> e) \<or> (r \<and> \<not> e)) as c \<longleftrightarrow> odd (of_bool c + length (filter id as))"
  by (induction as arbitrary: c) auto

lemma AndReduce_R: "list_all2 R xs as \<Longrightarrow> list_all2 R (AE_AndReduce E xs) [False \<notin> set as]"
  using reduce_R [of "ev_And E" "(\<and>)", OF And_R _ One_R] by (simp add: AE_AndReduce_def fold_and)

lemma nonzero: "(\<exists>b \<in> set as. b) \<longleftrightarrow> True \<in> set as"
  by auto

lemma OrReduce_R: "list_all2 R xs as \<Longrightarrow> list_all2 R (AE_OrReduce E xs) [bl_to_nat as \<noteq> 0]"
  using reduce_R [of "ev_Or E" "(\<or>)", OF Or_R _ Zero_False]
  by (simp add: AE_OrReduce_def fold_or bl_to_nat_eq_0_iff nonzero)

lemma XorReduce_R: "list_all2 R xs as \<Longrightarrow> list_all2 R (AE_XorReduce E xs) [odd (length (filter id as))]"
proof -
  assume a: "list_all2 R xs as"
  have "R (fold (\<lambda>e res. ev_Or E (ev_And E (ev_Not E res) e) (ev_And E res (ev_Not E e))) xs (ev_Zero E))
      (fold (\<lambda>e r. (\<not> r \<and> e) \<or> (r \<and> \<not> e)) as False)"
    by (rule reduce_R [OF _ a Zero_False]) (intro element_R)
  then show ?thesis by (simp add: AE_XorReduce_def fold_xor)
qed

text \<open>Addition modulo the width, and negation.\<close>

lemma Add_loop_R:
  assumes "list_all2 R xs as" "list_all2 R ys bs" "R z c" "length as \<le> length bs"
  shows "\<exists>zs. Add_loop E z xs ys = Some zs \<and>
    list_all2 R zs (nat_to_bl (length as) (bl_to_nat as + bl_to_nat bs + of_bool c))"
  using assms
proof (induction xs as arbitrary: ys bs z c rule: list_all2_induct)
  case Nil
  then show ?case by simp
next
  case (Cons x xs a as)
  obtain b bs' where b: "bs = b # bs'" using Cons.prems(3) by (cases bs) auto
  then obtain y ys' where y: "ys = y # ys'" "R y b" "list_all2 R ys' bs'"
    using Cons.prems(1) by (auto simp: list_all2_Cons2)
  let ?t = "of_bool a + of_bool b + of_bool c :: nat"
  note f = FullAdder_R [OF Cons.hyps(1) y(2) Cons.prems(2)]
  obtain zs where zs: "Add_loop E (ar_carry (AE_FullAdder E x y z)) xs ys' = Some zs"
    "list_all2 R zs (nat_to_bl (length as) (bl_to_nat as + bl_to_nat bs' + of_bool (2 \<le> ?t)))"
    using Cons.IH [OF y(3) f(2)] Cons.prems(3) b by auto
  have "bl_to_nat (a # as) + bl_to_nat bs + of_bool c = ?t + 2 * (bl_to_nat as + bl_to_nat bs')" using b by simp
  moreover have "odd (?t + 2 * (bl_to_nat as + bl_to_nat bs')) = odd ?t" by simp
  moreover have "(?t + 2 * (bl_to_nat as + bl_to_nat bs')) div 2 = bl_to_nat as + bl_to_nat bs' + of_bool (2 \<le> ?t)"
    by (cases a; cases b; cases c) simp_all
  ultimately have "nat_to_bl (length (a # as)) (bl_to_nat (a # as) + bl_to_nat bs + of_bool c) =
      odd ?t # nat_to_bl (length as) (bl_to_nat as + bl_to_nat bs' + of_bool (2 \<le> ?t))"
    by (simp only: length_Cons nat_to_bl_Suc)
  then show ?case using zs f(1) y(1) by (simp add: Let_def)
qed

lemma Add_R:
  assumes "list_all2 R xs as" "list_all2 R ys bs" "length as \<le> length bs"
  shows "\<exists>zs. AE_Add E xs ys = Some zs \<and> list_all2 R zs (nat_to_bl (length as) (bl_to_nat as + bl_to_nat bs))"
  using Add_loop_R [OF assms(1,2) Zero_False assms(3)] by (simp add: AE_Add_def)

lemma Neg_R:
  assumes "list_all2 R xs as"
  shows "\<exists>zs. AE_Neg E xs = Some zs \<and> list_all2 R zs (nat_to_bl (length as) (2 ^ length as - bl_to_nat as))"
proof (cases "as = []")
  case True
  then show ?thesis using assms by (simp add: AE_Neg_def)
next
  case False
  have l: "length xs = length as" using assms by (rule list_all2_lengthD)
  have s: "(1::nat) < 2 ^ length as" using False by (intro one_less_power) simp_all
  obtain c where c: "UBits 1 (length xs) = Some c" "list_all2 R (AE_BitsToVector E c) (nat_to_bl (length as) 1)"
    using constant_R [of 1 "length as"] s l by auto
  have "bl_to_nat (map Not as) + bl_to_nat (nat_to_bl (length as) 1) = 2 ^ length as - bl_to_nat as"
    using bl_to_nat_less [of as] s False by (simp add: bl_to_nat_map_Not bl_to_nat_to_bl)
  then show ?thesis
    using Add_R [OF BitwiseNot_R [OF assms] c(2)] c(1) l False by (simp add: AE_Neg_def)
qed

lemma Abs_R:
  assumes "list_all2 R xs as" "as \<noteq> []"
  shows "\<exists>zs. AE_Abs E xs = Some zs \<and> list_all2 R zs (nat_to_bl (length as) (nat \<bar>bl_to_int as\<bar>))"
proof -
  obtain ns where ns: "AE_Neg E xs = Some ns" "list_all2 R ns (nat_to_bl (length as) (2 ^ length as - bl_to_nat as))"
    using Neg_R [OF assms(1)] by blast
  have "nat \<bar>bl_to_int as\<bar> = (if last as then 2 ^ length as - bl_to_nat as else bl_to_nat as)"
    using bl_to_nat_less [of as] assms(2) by (simp add: bl_to_int_def nat_diff_distrib' nat_power_eq)
  then have "(if last as then nat_to_bl (length as) (2 ^ length as - bl_to_nat as) else as) =
      nat_to_bl (length as) (nat \<bar>bl_to_int as\<bar>)" by simp
  then show ?thesis
    using Select2_R [OF last_R [OF assms] assms(1) ns(2)] ns(1) assms by (auto simp: AE_Abs_def)
qed

text \<open>Shifts: the one set selector is the shift amount, or the width when it is beyond.\<close>

lemma shift_selector_R:
  assumes "list_all2 R ys bs" "n < 2 ^ 64"
  shows "\<exists>es. shift_selector E n ys = Some es \<and>
    list_all2 R es (map (\<lambda>i. min (bl_to_nat bs) n = i) [0..<min (n + 1) (2 ^ length bs)])"
proof -
  let ?m = "length bs" and ?s = "bl_to_nat bs"
  have l: "length ys = ?m" using assms(1) by (rule list_all2_lengthD)
  have fit: "\<forall>i \<in> set [0..<min n (2 ^ ?m)]. i < 2 ^ ?m \<and> i < 2 ^ 64" using assms(2) by auto
  obtain es where es: "equals_constants E ys (shift_amounts n (length ys)) = Some es"
      "list_all2 R es (map (\<lambda>i. ?s = i) [0..<min n (2 ^ ?m)])"
    using equals_constants_R [OF assms(1) fit] unfolding shift_amounts_eq [OF assms(2)] l by blast
  have u: "unat (of_nat n :: u64) = n" using assms(2) by (simp add: unat_of_nat)
  show ?thesis
  proof (cases "n < 2 ^ ?m")
    case True
    then have c1: "length ys \<ge> Bits_MinBitCountUnsigned (of_nat n)"
      using Bits_MinBitCountUnsigned_le [of "of_nat n" ?m] u l by simp
    obtain c where c: "UBits (of_nat n) (length ys) = Some c" "list_all2 R (AE_BitsToVector E c) (nat_to_bl ?m n)"
      using constant_R [OF True assms(2)] l by auto
    obtain lt where lt: "AE_ULessThan E ys (AE_BitsToVector E c) = Some lt" "R lt (?s < n)"
      using ULessThan_R [OF assms(1) c(2)] True by (auto simp: bl_to_nat_to_bl)
    have e: "map (\<lambda>i. ?s = i) [0..<min n (2 ^ ?m)] @ [\<not> ?s < n] =
        map (\<lambda>i. min ?s n = i) [0..<min (n + 1) (2 ^ ?m)]"
      using True by (auto simp: min_def Suc_le_eq)
    have "list_all2 R (es @ [ev_Not E lt]) (map (\<lambda>i. ?s = i) [0..<min n (2 ^ ?m)] @ [\<not> ?s < n])"
      using es(2) Not_R [OF lt(2)] by (intro list_all2_appendI) auto
    then show ?thesis using es(1) c1 c(1) lt(1) unfolding e by (simp add: shift_selector_def)
  next
    case False
    then have c1: "\<not> length ys \<ge> Bits_MinBitCountUnsigned (of_nat n)"
      using Bits_MinBitCountUnsigned_le [of "of_nat n" ?m] u l by simp
    have "map (\<lambda>i. ?s = i) [0..<min n (2 ^ ?m)] = map (\<lambda>i. min ?s n = i) [0..<min (n + 1) (2 ^ ?m)]"
      using False bl_to_nat_less [of bs] by (auto simp: min_def)
    then show ?thesis using es c1 by (simp add: shift_selector_def)
  qed
qed

lemma Shift_R:
  assumes "list_all2 R xs as" "list_all2 R ys bs" "length as < 2 ^ 64" "\<not> right \<longrightarrow> \<not> arith"
  shows "\<exists>zs. AE_Shift E xs ys right arith = Some zs \<and> list_all2 R zs
    (map (\<lambda>j. if right then (if j + bl_to_nat bs < length as then as ! (j + bl_to_nat bs) else arith \<and> last as)
              else bl_to_nat bs \<le> j \<and> as ! (j - bl_to_nat bs)) [0..<length as])"
proof -
  let ?n = "length as" and ?s = "bl_to_nat bs"
  define t where "t = min ?s ?n"
  define k where "k = min (?n + 1) (2 ^ length bs)"
  have l: "length xs = ?n" using assms(1) by (rule list_all2_lengthD)
  obtain es where es: "shift_selector E ?n ys = Some es" "list_all2 R es (map (\<lambda>i. t = i) [0..<k])"
    using shift_selector_R [OF assms(2,3)] unfolding t_def k_def by blast
  have tk: "t < k" using bl_to_nat_less [of bs] by (simp add: t_def k_def min_less_iff_disj)
  have kn: "k \<le> ?n + 1" by (simp add: k_def)
  have le: "length es = k" using list_all2_lengthD [OF es(2)] by simp
  let ?x = "if right then xs @ replicate (k - 1) (if arith then last xs else ev_Zero E) else replicate (k - 1) (ev_Zero E) @ xs"
  let ?a = "if right then as @ replicate (k - 1) (arith \<and> last as) else replicate (k - 1) False @ as"
  let ?i = "\<lambda>i. if right then i else k - 1 - i"
  have "as \<noteq> []" if "0 < k - 1" using that kn by (cases as) auto
  then have ext: "list_all2 R ?x ?a"
    using assms(1) last_R [OF assms(1)]
    by (cases "k - 1") (auto intro!: list_all2_appendI replicate_R simp: Zero_False simp del: replicate_Suc)
  have cs: "list_all2 (list_all2 R) (map (\<lambda>i. take ?n (drop (?i i) ?x)) [0..<k]) (map (\<lambda>i. take ?n (drop (?i i) ?a)) [0..<k])"
    unfolding list_all2_map1 list_all2_map2 list_all2_same using ext by (intro ballI list_all2_takeI list_all2_dropI)
  have "\<exists>zs. AE_OneHotSelectInternal E es (map (\<lambda>i. take ?n (drop (?i i) ?x)) [0..<k]) False = Some zs \<and>
      list_all2 R zs (map (\<lambda>i. take ?n (drop (?i i) ?a)) [0..<k] ! t)"
    by (rule OneHotSelect_at_R [OF es(2) cs, where w = ?n]) (use tk in auto)
  moreover have "map (\<lambda>i. take ?n (drop (?i i) ?a)) [0..<k] ! t =
      map (\<lambda>j. if right then (if j + ?s < ?n then as ! (j + ?s) else arith \<and> last as) else ?s \<le> j \<and> as ! (j - ?s)) [0..<?n]"
    using tk shift_right_slice [OF t_def, of "k - 1"] shift_left_slice [OF t_def, of "k - 1"] by (cases right) simp_all
  moreover have "AE_Shift E xs ys right arith =
      AE_OneHotSelectInternal E es (map (\<lambda>i. take ?n (drop (?i i) ?x)) [0..<k]) False"
    using es(1) l le kn by (auto simp: AE_Shift_def Let_def)
  ultimately show ?thesis by simp
qed

lemma ShiftRightLogical_R:
  assumes "list_all2 R xs as" "list_all2 R ys bs" "length as < 2 ^ 64"
  shows "\<exists>zs. AE_ShiftRightLogical E xs ys = Some zs \<and>
    list_all2 R zs (nat_to_bl (length as) (bl_to_nat as div 2 ^ bl_to_nat bs))"
proof -
  have e: "map (\<lambda>j. if j + bl_to_nat bs < length as then as ! (j + bl_to_nat bs) else False) [0..<length as] =
      nat_to_bl (length as) (bl_to_nat as div 2 ^ bl_to_nat bs)"
    by (intro nth_equalityI) (auto simp: bit_bl_to_nat bit_drop_bit_eq add.commute simp flip: drop_bit_eq_div)
  show ?thesis using Shift_R [OF assms, of True False] unfolding AE_ShiftRightLogical_def by (simp only: if_True simp_thms True_implies_equals e)
qed

lemma ShiftRightArith_R:
  assumes "list_all2 R xs as" "list_all2 R ys bs" "length as < 2 ^ 64"
  shows "\<exists>zs. AE_ShiftRightArith E xs ys = Some zs \<and>
    list_all2 R zs (map (bit (bl_to_int as div 2 ^ bl_to_nat bs)) [0..<length as])"
proof -
  have e: "map (\<lambda>j. if j + bl_to_nat bs < length as then as ! (j + bl_to_nat bs) else last as) [0..<length as] =
      map (bit (bl_to_int as div 2 ^ bl_to_nat bs)) [0..<length as]"
    by (intro nth_equalityI) (auto simp: bit_bl_to_int bit_drop_bit_eq add.commute simp flip: drop_bit_eq_div)
  show ?thesis using Shift_R [OF assms, of True True] unfolding AE_ShiftRightArith_def by (simp only: if_True simp_thms True_implies_equals e)
qed

lemma ShiftLeft_bits_R:
  assumes "list_all2 R xs as" "list_all2 R ys bs" "length as < 2 ^ 64"
  shows "\<exists>zs. AE_ShiftLeftLogical E xs ys = Some zs \<and>
    list_all2 R zs (map (\<lambda>j. bl_to_nat bs \<le> j \<and> as ! (j - bl_to_nat bs)) [0..<length as])"
  using Shift_R [OF assms, of False False] by (simp add: AE_ShiftLeftLogical_def)

lemma ShiftLeftLogical_R:
  assumes "list_all2 R xs as" "list_all2 R ys bs" "length as < 2 ^ 64"
  shows "\<exists>zs. AE_ShiftLeftLogical E xs ys = Some zs \<and>
    list_all2 R zs (nat_to_bl (length as) (bl_to_nat as * 2 ^ bl_to_nat bs))"
proof -
  have "map (\<lambda>j. bl_to_nat bs \<le> j \<and> as ! (j - bl_to_nat bs)) [0..<length as] =
      nat_to_bl (length as) (bl_to_nat as * 2 ^ bl_to_nat bs)"
    by (intro nth_equalityI) (auto simp: bit_bl_to_nat bit_push_bit_iff simp flip: push_bit_eq_mult)
  then show ?thesis using ShiftLeft_bits_R [OF assms] by simp
qed

lemma BitSliceUpdate_R:
  assumes "list_all2 R xs as" "list_all2 R ys bs" "list_all2 R us vs" "length as < 2 ^ 64"
  shows "\<exists>zs. AE_BitSliceUpdate E xs ys us = Some zs \<and> list_all2 R zs
    (map (\<lambda>j. if bl_to_nat bs \<le> j \<and> j < bl_to_nat bs + length vs then vs ! (j - bl_to_nat bs) else as ! j) [0..<length as])"
proof -
  let ?n = "length as" and ?s = "bl_to_nat bs" and ?k = "min (length as) (length vs)"
  have l: "length xs = ?n" "length us = length vs" using list_all2_lengthD [OF assms(1)] list_all2_lengthD [OF assms(3)] by simp_all
  let ?ones = "map (\<lambda>j. j < ?k) [0..<?n]"
  have "nat_to_bl ?n (uval (Bits_AllOnes ?k)) = ?ones"
    by (rule nth_equalityI) (simp_all add: bit_ones)
  then obtain c where c: "bits_ops_ZeroExtend (Bits_AllOnes ?k) ?n = Some c" "list_all2 R (AE_BitsToVector E c) ?ones"
    using ZeroExtend_eq [of "Bits_AllOnes ?k" ?n] BitsToVector_R [of "bits_of_nat ?n (uval (Bits_AllOnes ?k))"] by auto
  obtain ws where ws: "AE_ShiftLeftLogical E (AE_BitsToVector E c) ys = Some ws"
      "list_all2 R ws (map (\<lambda>j. ?s \<le> j \<and> ?ones ! (j - ?s)) [0..<?n])"
    using ShiftLeft_bits_R [OF c(2) assms(2)] assms(4) by auto
  let ?adj = "if length vs \<ge> ?n then take ?n vs else vs @ replicate (?n - length vs) False"
  have la: "length ?adj = ?n" by simp
  obtain av where av: "(if length us \<ge> length xs then AE_BitSlice us 0 (length xs) else AE_ZeroExtend E us (length xs)) = Some av"
      "list_all2 R av ?adj"
    using BitSlice_R [OF assms(3), of 0 ?n] ZeroExtend_R [OF assms(3), of ?n] l by (cases "length vs \<ge> ?n") auto
  obtain kept where kept: "AE_BitwiseAnd E [AE_BitwiseNot E ws, xs] = Some kept"
      "list_all2 R kept (map2 (\<and>) (map Not (map (\<lambda>j. ?s \<le> j \<and> ?ones ! (j - ?s)) [0..<?n])) as)"
    using BitwiseAnd2_R [OF BitwiseNot_R [OF ws(2)] assms(1)] by auto
  obtain sv where sv: "AE_ShiftLeftLogical E av ys = Some sv"
      "list_all2 R sv (map (\<lambda>j. ?s \<le> j \<and> ?adj ! (j - ?s)) [0..<?n])"
    using ShiftLeft_bits_R [OF av(2) assms(2)] assms(4) unfolding la by blast
  obtain zs where zs: "AE_BitwiseOr E [kept, sv] = Some zs"
      "list_all2 R zs (map2 (\<or>) (map2 (\<and>) (map Not (map (\<lambda>j. ?s \<le> j \<and> ?ones ! (j - ?s)) [0..<?n])) as)
         (map (\<lambda>j. ?s \<le> j \<and> ?adj ! (j - ?s)) [0..<?n]))"
    using BitwiseOr2_R [OF kept(2) sv(2)] by auto
  have e: "map2 (\<or>) (map2 (\<and>) (map Not (map (\<lambda>j. ?s \<le> j \<and> ?ones ! (j - ?s)) [0..<?n])) as)
         (map (\<lambda>j. ?s \<le> j \<and> ?adj ! (j - ?s)) [0..<?n]) =
      map (\<lambda>j. if ?s \<le> j \<and> j < ?s + length vs then vs ! (j - ?s) else as ! j) [0..<?n]"
    by (intro nth_equalityI) (auto simp: nth_append)
  have "AE_BitSliceUpdate E xs ys us = Some zs"
    using c(1) ws(1) av(1) kept(1) sv(1) zs(1) l by (simp add: AE_BitSliceUpdate_def Let_def)
  then show ?thesis using zs(2) unfolding e by blast
qed

lemma Decode_R:
  assumes "list_all2 R xs as" "n \<le> 2 ^ length as" "n \<le> 2 ^ 64"
  shows "\<exists>zs. AE_Decode E xs n = Some zs \<and> list_all2 R zs (map (\<lambda>i. bl_to_nat as = i) [0..<n])"
  using equals_constants_R [OF assms(1), of "[0..<n]"] assms(2,3) by (auto simp: AE_Decode_def)

lemma Encode_fold_R:
  assumes "list_all2 R xs as" "list_all2 R rs bs" "length bs = w"
  shows "list_all2 R (fold (\<lambda>(i, x) res. map (\<lambda>j. if bit (i::nat) j then ev_Or E (res ! j) x else res ! j) [0..<w]) (zip [k..<k + length as] xs) rs)
    (map (\<lambda>j. bs ! j \<or> (\<exists>i < length as. bit (k + i) j \<and> as ! i)) [0..<w])"
  using assms
proof (induction xs as arbitrary: rs bs k rule: list_all2_induct)
  case Nil
  then show ?case by (simp add: map_nth flip: Nil(2))
next
  case (Cons x xs a as)
  let ?rs = "map (\<lambda>j. if bit k j then ev_Or E (rs ! j) x else rs ! j) [0..<w]"
  let ?bs = "map (\<lambda>j. bs ! j \<or> (bit k j \<and> a)) [0..<w]"
  have r: "list_all2 R ?rs ?bs"
    using Cons.prems Cons.hyps(1) by (auto simp: list_all2_conv_all_nth Or_R)
  have e: "map (\<lambda>j. ?bs ! j \<or> (\<exists>i < length as. bit (Suc k + i) j \<and> as ! i)) [0..<w] =
      map (\<lambda>j. bs ! j \<or> (\<exists>i < length (a # as). bit (k + i) j \<and> (a # as) ! i)) [0..<w]"
    by (intro nth_equalityI) (auto simp: Ex_less_Suc2)
  have lb: "length ?bs = w" by simp
  have u: "[k..<k + length (a # as)] = k # [Suc k..<Suc k + length as]" by (simp add: upt_conv_Cons del: upt_Suc)
  show ?case using Cons.IH [OF r lb, of "Suc k"] unfolding e u zip_Cons_Cons fold_Cons comp_def prod.case .
qed

text \<open>Encode: the or of the indices of the set positions.\<close>

lemma Encode_R:
  assumes "list_all2 R xs as"
  shows "list_all2 R (AE_Encode E xs)
    (map (\<lambda>j. \<exists>i < length as. bit i j \<and> as ! i) [0..<CeilOfLog2 (of_nat (length as))])"
proof -
  let ?w = "CeilOfLog2 (of_nat (length as))"
  have e: "map (\<lambda>j. replicate ?w False ! j \<or> (\<exists>i < length as. bit (0 + i) j \<and> as ! i)) [0..<?w] =
      map (\<lambda>j. \<exists>i < length as. bit i j \<and> as ! i) [0..<?w]"
    by (intro nth_equalityI) simp_all
  show ?thesis
    using Encode_fold_R [OF assms replicate_R [OF Zero_False, of ?w], of ?w 0] list_all2_lengthD [OF assms]
    unfolding e by (simp add: AE_Encode_def Let_def)
qed

end

end
