(* ===== verification/Evaluator_Arith.thy ===== *)
theory Evaluator_Arith
  imports Abstract_Evaluator
begin

text \<open>
  The multiplier and the dividers of \<open>xls/ir/abstract_evaluator.h\<close>. \<open>UMul\<close> is a Dadda
  multiplier: columns of partial products are reduced stage by stage with full and half adders until no
  column is higher than two, and a ripple-carry adder finishes. The lemmas bound the height of every
  column at every stage, so that none of the multiplier's checks fails, and show that each step keeps the
  number the columns add up to. \<open>UDivMod\<close> is long division; \<open>SDivMod\<close> divides absolute
  values and fixes the signs.
\<close>

section \<open>The Dadda multiplier\<close>

definition UMul_partial_products :: "'e evaluator \<Rightarrow> 'e list \<Rightarrow> 'e list \<Rightarrow> 'e list list" where
  "UMul_partial_products E a b =
     fold (\<lambda>i pp. fold (\<lambda>j pp. pp[i + j := pp ! (i + j) @ [ev_And E (a ! i) (b ! j)]]) [0..<length b] pp)
       [0..<length a] (replicate (length a + length b) [])"

text \<open>The first maximum height: the first of the sequence that is not below the larger width.\<close>

partial_function (option) UMul_first_height :: "int \<Rightarrow> int \<Rightarrow> int option" where
  "UMul_first_height n max_height =
     (if max_height < n then do { h \<leftarrow> FloorOfRatio (3 * max_height) 2; UMul_first_height n h }
      else Some max_height)"

text \<open>One column and the column its carries go to: full adders, then at most one half adder.\<close>

function UMul_full_adders :: "'e evaluator \<Rightarrow> int \<Rightarrow> 'e list \<Rightarrow> 'e list \<Rightarrow> ('e list \<times> 'e list) option" where
  "UMul_full_adders E max_height column next_column =
     (if int (length column) > max_height + 1 then
        (case column of
           x # y # z # rest \<Rightarrow>
             let r = AE_FullAdder E x y z
             in UMul_full_adders E max_height (rest @ [ar_sum r]) (next_column @ [ar_carry r])
         | _ \<Rightarrow> None)
      else Some (column, next_column))"
  by pat_completeness auto
termination by (relation "measure (\<lambda>(E, h, column, next_column). length column)") auto

declare UMul_full_adders.simps [simp del]

definition UMul_half_adder :: "'e evaluator \<Rightarrow> int \<Rightarrow> 'e list \<Rightarrow> 'e list \<Rightarrow> ('e list \<times> 'e list) option" where
  "UMul_half_adder E max_height column next_column =
     (if int (length column) > max_height then
        (case column of
           x # y # rest \<Rightarrow>
             let r = AE_HalfAdder E x y
             in Some (rest @ [ar_sum r], next_column @ [ar_carry r])
         | _ \<Rightarrow> None)
      else Some (column, next_column))"

function UMul_stage :: "'e evaluator \<Rightarrow> int \<Rightarrow> 'e list list \<Rightarrow> 'e list list option" where
  "UMul_stage E max_height [] = Some []"
| "UMul_stage E max_height [column] =
     (if int (length column) \<le> max_height then Some [column] else None)"
| "UMul_stage E max_height (column # next_column # rest) =
     (if int (length column) \<le> max_height
      then map_option ((#) column) (UMul_stage E max_height (next_column # rest))
      else do {
        r \<leftarrow> UMul_full_adders E max_height column next_column;
        r' \<leftarrow> UMul_half_adder E max_height (fst r) (snd r);
        cs \<leftarrow> UMul_stage E max_height (snd r' # rest);
        Some (fst r' # cs)
      })"
  by pat_completeness auto
termination by (relation "measure (\<lambda>(E, h, columns). length columns)") auto

partial_function (option) UMul_reduce :: "'e evaluator \<Rightarrow> int \<Rightarrow> 'e list list \<Rightarrow> 'e list list option" where
  "UMul_reduce E max_height columns =
     (if max_height > 2 then do {
        h \<leftarrow> CeilOfRatio (2 * max_height) 3;
        cs \<leftarrow> UMul_stage E h columns;
        UMul_reduce E h cs
      }
      else Some columns)"

text \<open>The final ripple-carry adder; a carry out of the last column has nowhere to go.\<close>

function UMul_ripple :: "'e evaluator \<Rightarrow> 'e list list \<Rightarrow> 'e list option" where
  "UMul_ripple E [] = Some []"
| "UMul_ripple E ([] # rest) = map_option ((#) (ev_Zero E)) (UMul_ripple E rest)"
| "UMul_ripple E ([x] # rest) = map_option ((#) x) (UMul_ripple E rest)"
| "UMul_ripple E [[x, y]] = None"
| "UMul_ripple E ([x, y] # next_column # rest) =
     (let r = AE_HalfAdder E x y
      in map_option ((#) (ar_sum r)) (UMul_ripple E ((next_column @ [ar_carry r]) # rest)))"
| "UMul_ripple E [[x, y, z]] = None"
| "UMul_ripple E ([x, y, z] # next_column # rest) =
     (let r = AE_FullAdder E x y z
      in map_option ((#) (ar_sum r)) (UMul_ripple E ((next_column @ [ar_carry r]) # rest)))"
| "UMul_ripple E ((x # y # z # u # us) # rest) = None"
  by pat_completeness auto
termination by (relation "measure (\<lambda>(E, columns). length columns)") auto

definition AE_UMul :: "'e evaluator \<Rightarrow> 'e list \<Rightarrow> 'e list \<Rightarrow> 'e list option" where
  "AE_UMul E a b = do {
     h \<leftarrow> UMul_first_height (int (max (length a) (length b))) 2;
     columns \<leftarrow> UMul_reduce E h (UMul_partial_products E a b);
     UMul_ripple E columns
   }"

definition AE_SMul :: "'e evaluator \<Rightarrow> 'e list \<Rightarrow> 'e list \<Rightarrow> 'e list option" where
  "AE_SMul E a b = do {
     let m = max (length a) (length b);
     temp_a \<leftarrow> AE_SignExtend a (m * 2);
     temp_b \<leftarrow> AE_SignExtend b (m * 2);
     product \<leftarrow> AE_UMul E temp_a temp_b;
     AE_BitSlice product 0 (length a + length b)
   }"

section \<open>Division\<close>

record 'e DivisionResult =
  quotient :: "'e list"
  remainder :: "'e list"

text \<open>
  The loop of the long division, over the elements of the dividend from the most significant one: the
  quotient so far and the remainder.
\<close>

fun UDivMod_loop :: "'e evaluator \<Rightarrow> 'e list \<Rightarrow> 'e list \<Rightarrow> 'e list \<Rightarrow> 'e list \<Rightarrow> 'e list \<Rightarrow> ('e list \<times> 'e list) option" where
  "UDivMod_loop E divisor neg_divisor [] q r = Some (q, r)"
| "UDivMod_loop E divisor neg_divisor (x # rest) q r = do {
     let r1 = x # r;
     lt \<leftarrow> AE_ULessThan E r1 divisor;
     let qi = ev_Not E lt;
     diff \<leftarrow> AE_Add E r1 neg_divisor;
     r2 \<leftarrow> AE_Select E [qi] [r1, diff] None;
     UDivMod_loop E divisor neg_divisor rest (qi # q) (butlast r2)
   }"

definition AE_UDivMod :: "'e evaluator \<Rightarrow> 'e list \<Rightarrow> 'e list \<Rightarrow> 'e DivisionResult option" where
  "AE_UDivMod E n d = do {
     let nonzero_divisor = AE_OrReduce E d;
     divisor \<leftarrow> AE_ZeroExtend E d (length d + 1);
     neg_divisor \<leftarrow> AE_Neg E divisor;
     qr \<leftarrow> UDivMod_loop E divisor neg_divisor (rev n) [] (replicate (length d) (ev_Zero E));
     q \<leftarrow> AE_Select E nonzero_divisor [replicate (length (fst qr)) (ev_One E), fst qr] None;
     r \<leftarrow> AE_Select E nonzero_divisor [replicate (length (snd qr)) (ev_Zero E), snd qr] None;
     Some \<lparr>quotient = q, remainder = r\<rparr>
   }"

definition AE_UDiv :: "'e evaluator \<Rightarrow> 'e list \<Rightarrow> 'e list \<Rightarrow> 'e list option" where
  "AE_UDiv E n d = map_option quotient (AE_UDivMod E n d)"

definition AE_UMod :: "'e evaluator \<Rightarrow> 'e list \<Rightarrow> 'e list \<Rightarrow> 'e list option" where
  "AE_UMod E n d = map_option remainder (AE_UDivMod E n d)"

definition AE_SDivMod :: "'e evaluator \<Rightarrow> 'e list \<Rightarrow> 'e list \<Rightarrow> 'e DivisionResult option" where
  "AE_SDivMod E n d = do {
     let nonzero_divisor = last (AE_OrReduce E d);
     let n_negative = (if length n > 0 then last n else ev_Zero E);
     let d_negative = (if length d > 0 then last d else ev_Zero E);
     abs_n \<leftarrow> AE_Abs E n;
     abs_d \<leftarrow> AE_Abs E d;
     res \<leftarrow> AE_UDivMod E abs_n abs_d;
     neg_r \<leftarrow> AE_Neg E (remainder res);
     r \<leftarrow> AE_Select E [n_negative] [remainder res, neg_r] None;
     neg_q \<leftarrow> AE_Neg E (quotient res);
     q \<leftarrow> AE_Select E [AE_Xor E n_negative d_negative] [quotient res, neg_q] None;
     let w = length q;
     let largest_positive = (replicate w (ev_One E))[w - 1 := ev_Zero E];
     let largest_negative = (replicate w (ev_Zero E))[w - 1 := ev_One E];
     q' \<leftarrow> AE_Select E [n_negative, nonzero_divisor] [largest_positive, largest_negative] (Some q);
     Some \<lparr>quotient = q', remainder = r\<rparr>
   }"

definition AE_SDiv :: "'e evaluator \<Rightarrow> 'e list \<Rightarrow> 'e list \<Rightarrow> 'e list option" where
  "AE_SDiv E n d = map_option quotient (AE_SDivMod E n d)"

definition AE_SMod :: "'e evaluator \<Rightarrow> 'e list \<Rightarrow> 'e list \<Rightarrow> 'e list option" where
  "AE_SMod E n d = map_option remainder (AE_SDivMod E n d)"

section \<open>Heights and values of columns\<close>

definition count_ones :: "bool list \<Rightarrow> nat" where
  "count_ones c = sum_list (map of_bool c)"

fun columns_value :: "bool list list \<Rightarrow> nat" where
  "columns_value [] = 0"
| "columns_value (c # cs) = count_ones c + 2 * columns_value cs"

text \<open>How high a column may be, by the maximum height of the stage and its distance from the last one.\<close>

definition height_bound :: "nat \<Rightarrow> nat \<Rightarrow> nat" where
  "height_bound D t = (if t + 2 \<le> D then t else D)"

fun heights_ok :: "nat \<Rightarrow> bool list list \<Rightarrow> bool" where
  "heights_ok D [] = True"
| "heights_ok D (c # cs) \<longleftrightarrow> length c \<le> height_bound D (length cs) \<and> heights_ok D cs"

text \<open>How many carries may enter a column.\<close>

definition carry_bound :: "nat \<Rightarrow> nat \<Rightarrow> nat \<Rightarrow> nat" where
  "carry_bound D d t = min (D - d) (t + 2 - d)"

lemma count_ones_simps [simp]:
  "count_ones [] = 0" "count_ones (b # c) = of_bool b + count_ones c" "count_ones (c @ c') = count_ones c + count_ones c'"
  by (simp_all add: count_ones_def)

lemma heights_ok_nth:
  "heights_ok D cs \<longleftrightarrow> (\<forall>i < length cs. length (cs ! i) \<le> height_bound D (length cs - 1 - i))"
  by (induction cs) (auto simp: All_less_Suc2)

lemma columns_value_push:
  "i < length cs \<Longrightarrow> columns_value (cs[i := cs ! i @ [b]]) = columns_value cs + 2 ^ i * of_bool b"
  by (induction cs arbitrary: i) (auto split: nat.splits)

lemma carry_step:
  assumes "2 \<le> d" "d \<le> D" "H \<le> height_bound D (Suc t) + carry_bound D d (Suc t)"
  shows "(H - d + 1) div 2 \<le> carry_bound D d t"
  using assms by (auto simp: height_bound_def carry_bound_def split: if_splits)

lemma height_step:
  assumes "2 \<le> d" "d \<le> D" "H \<le> height_bound D t + carry_bound D d t"
  shows "min H d \<le> height_bound d t"
  using assms by (auto simp: height_bound_def carry_bound_def split: if_splits)

lemma last_column_low:
  "2 \<le> d \<Longrightarrow> d \<le> D \<Longrightarrow> H \<le> height_bound D 0 + carry_bound D d 0 \<Longrightarrow> H \<le> d"
  by (auto simp: height_bound_def carry_bound_def split: if_splits)

text \<open>The reference evaluator: booleans themselves.\<close>

definition bool_evaluator :: "bool evaluator" where
  "bool_evaluator = \<lparr>ev_One = True, ev_Zero = False, ev_Not = Not, ev_And = (\<and>), ev_Or = (\<or>)\<rparr>"

lemma bool_evaluator_simps [simp]:
  "ev_One bool_evaluator = True" "ev_Zero bool_evaluator = False" "ev_Not bool_evaluator = Not"
  "ev_And bool_evaluator = (\<and>)" "ev_Or bool_evaluator = (\<or>)"
  by (simp_all add: bool_evaluator_def)

lemma fold_invariant:
  assumes "\<And>x s. x \<in> set xs \<Longrightarrow> P s \<Longrightarrow> P (f x s)" "P s"
  shows "P (fold f xs s)"
  using assms by (induction xs arbitrary: s) auto

lemma fold_related:
  assumes "\<And>x s t. x \<in> set xs \<Longrightarrow> P s t \<Longrightarrow> P (f x s) (g x t)" "P s t"
  shows "P (fold f xs s) (fold g xs t)"
  using assms by (induction xs arbitrary: s t) auto

definition product_row :: "bool list \<Rightarrow> bool list \<Rightarrow> nat \<Rightarrow> bool list list \<Rightarrow> bool list list" where
  "product_row as bs i = fold (\<lambda>j pp. pp[i + j := pp ! (i + j) @ [as ! i \<and> bs ! j]]) [0..<length bs]"

lemma partial_products_rows:
  "UMul_partial_products bool_evaluator as bs = fold (product_row as bs) [0..<length as] (replicate (length as + length bs) [])"
  unfolding UMul_partial_products_def product_row_def by simp

lemma product_row_prefix:
  assumes "i + k \<le> length pp"
  shows "let pp' = fold (\<lambda>j pp. pp[i + j := pp ! (i + j) @ [as ! i \<and> bs ! j]]) [0..<k] pp
    in length pp' = length pp \<and>
      columns_value pp' = columns_value pp + (\<Sum>j<k. 2 ^ (i + j) * of_bool (as ! i \<and> bs ! j)) \<and>
      (\<forall>c < length pp. length (pp' ! c) = length (pp ! c) + of_bool (i \<le> c \<and> c < i + k))"
  using assms
proof (induction k)
  case 0
  then show ?case by simp
next
  case (Suc k)
  let ?pp = "fold (\<lambda>j pp. pp[i + j := pp ! (i + j) @ [as ! i \<and> bs ! j]]) [0..<k] pp"
  have IH: "length ?pp = length pp"
    "columns_value ?pp = columns_value pp + (\<Sum>j<k. 2 ^ (i + j) * of_bool (as ! i \<and> bs ! j))"
    "\<forall>c < length pp. length (?pp ! c) = length (pp ! c) + of_bool (i \<le> c \<and> c < i + k)"
    using Suc by (simp_all add: Let_def)
  have s: "i + k < length ?pp" using Suc.prems IH(1) by simp
  show ?case
    using IH s columns_value_push [OF s, of "as ! i \<and> bs ! k"]
    by (auto simp: Let_def nth_list_update simp del: of_bool_conj)
qed

lemma bl_to_nat_sum: "bl_to_nat bs = (\<Sum>j<length bs. of_bool (bs ! j) * 2 ^ j)"
  unfolding bl_to_nat_def horner_sum_eq_sum atLeast0LessThan by (rule refl)

lemma product_row_facts:
  assumes "i + length bs \<le> length pp"
  shows "length (product_row as bs i pp) = length pp"
    "columns_value (product_row as bs i pp) = columns_value pp + 2 ^ i * of_bool (as ! i) * bl_to_nat bs"
    "c < length pp \<Longrightarrow> length (product_row as bs i pp ! c) = length (pp ! c) + of_bool (i \<le> c \<and> c < i + length bs)"
proof -
  note p = product_row_prefix [OF assms, where as = as and bs = bs, unfolded Let_def, folded product_row_def]
  show "length (product_row as bs i pp) = length pp" using p by blast
  show "c < length pp \<Longrightarrow> length (product_row as bs i pp ! c) = length (pp ! c) + of_bool (i \<le> c \<and> c < i + length bs)"
    using p by blast
  have "(\<Sum>j<length bs. 2 ^ (i + j) * of_bool (as ! i \<and> bs ! j)) = 2 ^ i * of_bool (as ! i) * bl_to_nat bs"
    by (cases "as ! i") (simp_all add: bl_to_nat_sum sum_distrib_left power_add mult_ac)
  then show "columns_value (product_row as bs i pp) = columns_value pp + 2 ^ i * of_bool (as ! i) * bl_to_nat bs"
    using p by presburger
qed

lemma product_rows:
  assumes "k \<le> length as" "n = length as + length bs"
  shows "let pp = fold (product_row as bs) [0..<k] (replicate n [])
    in length pp = n \<and> columns_value pp = (\<Sum>i<k. 2 ^ i * of_bool (as ! i) * bl_to_nat bs) \<and>
      (\<forall>c < n. length (pp ! c) \<le> k - (c + 1 - length bs))"
  using assms(1)
proof (induction k)
  case 0
  have "columns_value (replicate n []) = 0" by (induction n) simp_all
  then show ?case by simp
next
  case (Suc k)
  let ?pp = "fold (product_row as bs) [0..<k] (replicate n [])"
  have IH: "length ?pp = n" "columns_value ?pp = (\<Sum>i<k. 2 ^ i * of_bool (as ! i) * bl_to_nat bs)"
    "\<And>c. c < n \<Longrightarrow> length (?pp ! c) \<le> k - (c + 1 - length bs)"
    using Suc by (simp_all add: Let_def)
  have b: "k + length bs \<le> length ?pp" using Suc.prems assms(2) IH(1) by simp
  note f = product_row_facts [OF b, where as = as]
  have "length (product_row as bs k ?pp ! c) \<le> Suc k - (c + 1 - length bs)" if "c < n" for c
    using f(3) [of c] IH(1) IH(3) [OF that] that by (cases "k \<le> c \<and> c < k + length bs") auto
  then show ?case using f(1,2) IH(1,2) by (simp add: Let_def)
qed

lemma partial_products_facts:
  shows "length (UMul_partial_products bool_evaluator as bs) = length as + length bs"
    "columns_value (UMul_partial_products bool_evaluator as bs) = bl_to_nat as * bl_to_nat bs"
    "length as \<le> D \<Longrightarrow> heights_ok D (UMul_partial_products bool_evaluator as bs)"
proof -
  note p = product_rows [OF order_refl refl, where as = as and bs = bs, unfolded Let_def, folded partial_products_rows]
  show l: "length (UMul_partial_products bool_evaluator as bs) = length as + length bs" using p by blast
  show "columns_value (UMul_partial_products bool_evaluator as bs) = bl_to_nat as * bl_to_nat bs"
  proof -
    have "(\<Sum>i<length as. 2 ^ i * of_bool (as ! i) * bl_to_nat bs) = bl_to_nat as * bl_to_nat bs"
      unfolding bl_to_nat_sum [of as] sum_distrib_right by (rule sum.cong) (simp_all add: mult_ac)
    then show ?thesis using p by argo
  qed
  show "heights_ok D (UMul_partial_products bool_evaluator as bs)" if "length as \<le> D"
    unfolding heights_ok_nth l
  proof (intro allI impI)
    fix c assume c: "c < length as + length bs"
    then have "length (UMul_partial_products bool_evaluator as bs ! c) \<le> length as - (c + 1 - length bs)"
      using p by blast
    then show "length (UMul_partial_products bool_evaluator as bs ! c) \<le> height_bound D (length as + length bs - 1 - c)"
      using c that by (auto simp: height_bound_def)
  qed
qed

lemma UMul_first_height_ends:
  assumes "2 \<le> h"
  shows "\<exists>D. UMul_first_height (int n) (int h) = Some (int D) \<and> n \<le> D \<and> 2 \<le> D"
  using assms
proof (induction "n - h" arbitrary: h rule: less_induct)
  case less
  show ?case
  proof (cases "h < n")
    case True
    have f: "FloorOfRatio (3 * int h) 2 = Some (int (3 * h div 2))"
      unfolding FloorOfRatio_div [of 2, simplified] by (simp add: zdiv_int)
    have "n - 3 * h div 2 < n - h" "2 \<le> 3 * h div 2" using True less.prems by linarith+
    from less.hyps [OF this] show ?thesis
      using True f by (subst UMul_first_height.simps) simp
  next
    case False
    then show ?thesis using less.prems by (subst UMul_first_height.simps) auto
  qed
qed

context sound_evaluator
begin

lemma snoc_R: "list_all2 R xs as \<Longrightarrow> R x a \<Longrightarrow> list_all2 R (xs @ [x]) (as @ [a])"
  by (auto intro: list_all2_appendI)

lemma UMul_full_adders_R:
  assumes "list_all2 R col bc" "list_all2 R nxt bn" "1 \<le> h"
  shows "\<exists>c n bc' bn'. UMul_full_adders E (int h) col nxt = Some (c, n) \<and> list_all2 R c bc' \<and> list_all2 R n bn' \<and>
    count_ones bc' + 2 * count_ones bn' = count_ones bc + 2 * count_ones bn \<and>
    length bc' = (if length bc \<le> h then length bc else h + (length bc - h) mod 2) \<and>
    length bn' = length bn + (length bc - h) div 2"
  using assms(1,2)
proof (induction "length bc" arbitrary: col bc nxt bn rule: less_induct)
  case less
  have l: "length col = length bc" using less.prems(1) by (rule list_all2_lengthD)
  show ?case
  proof (cases "h + 1 < length bc")
    case False
    then have "UMul_full_adders E (int h) col nxt = Some (col, nxt)" using l by (simp add: UMul_full_adders.simps)
    moreover have "length bc = (if length bc \<le> h then length bc else h + (length bc - h) mod 2)"
      "(length bc - h) div 2 = 0" using False by (auto simp: le_Suc_eq not_le)
    ultimately show ?thesis using less.prems by (intro exI [of _ col] exI [of _ nxt] exI [of _ bc] exI [of _ bn]) simp
  next
    case True
    then obtain a b c rb where b: "bc = a # b # c # rb" using assms(3) by (cases bc; cases "tl bc"; cases "tl (tl bc)") auto
    then obtain x y z rc where c: "col = x # y # z # rc" "R x a" "R y b" "R z c" "list_all2 R rc rb"
      using less.prems(1) by (auto simp: list_all2_Cons2)
    note f = FullAdder_R [OF c(2-4)]
    let ?t = "of_bool a + of_bool b + of_bool c :: nat" and ?r = "AE_FullAdder E x y z"
    have c': "list_all2 R (rc @ [ar_sum ?r]) (rb @ [odd ?t])" by (rule snoc_R [OF c(5) f(1)])
    have n': "list_all2 R (nxt @ [ar_carry ?r]) (bn @ [2 \<le> ?t])" by (rule snoc_R [OF less.prems(2) f(2)])
    have sh: "length (rb @ [odd ?t]) < length bc" using b by simp
    have t: "of_bool (odd ?t) + 2 * of_bool (2 \<le> ?t) = ?t" by (cases a; cases b; cases c) simp_all
    have v: "count_ones (rb @ [odd ?t]) + 2 * count_ones (bn @ [2 \<le> ?t]) = count_ones bc + 2 * count_ones bn"
      using t b by simp
    have m: "(length (rb @ [odd ?t]) - h) mod 2 = (length bc - h) mod 2"
      "(length (rb @ [odd ?t]) - h) div 2 + 1 = (length bc - h) div 2"
      "length (rb @ [odd ?t]) \<le> h \<longrightarrow> length (rb @ [odd ?t]) = h \<and> (length bc - h) mod 2 = 0"
    proof -
      obtain k where k: "length bc = h + 2 + k" using True by (metis add.assoc le_Suc_ex less_eq_Suc_le add_2_eq_Suc' Suc_eq_plus1)
      then have "length (rb @ [odd ?t]) = h + k" using b by simp
      with k show "(length (rb @ [odd ?t]) - h) mod 2 = (length bc - h) mod 2"
        "(length (rb @ [odd ?t]) - h) div 2 + 1 = (length bc - h) div 2"
        "length (rb @ [odd ?t]) \<le> h \<longrightarrow> length (rb @ [odd ?t]) = h \<and> (length bc - h) mod 2 = 0" by simp_all
    qed
    have step: "UMul_full_adders E (int h) col nxt = UMul_full_adders E (int h) (rc @ [ar_sum ?r]) (nxt @ [ar_carry ?r])"
      using True l c(1) by (subst UMul_full_adders.simps) (simp add: Let_def)
    from less.hyps [OF sh c' n'] show ?thesis
      unfolding step v using m True by (elim exE conjE) (intro exI conjI, assumption+, auto split: if_splits)
  qed
qed

lemma UMul_column_R:
  assumes "list_all2 R col bc" "list_all2 R nxt bn" "2 \<le> h"
  shows "\<exists>r r' bc' bn'. UMul_full_adders E (int h) col nxt = Some r \<and> UMul_half_adder E (int h) (fst r) (snd r) = Some r' \<and>
    list_all2 R (fst r') bc' \<and> list_all2 R (snd r') bn' \<and>
    count_ones bc' + 2 * count_ones bn' = count_ones bc + 2 * count_ones bn \<and>
    length bc' = min (length bc) h \<and> length bn' = length bn + (length bc - h + 1) div 2"
proof -
  have "1 \<le> h" using assms(3) by simp
  from UMul_full_adders_R [OF assms(1,2) this] obtain c n bc1 bn1 where f:
    "UMul_full_adders E (int h) col nxt = Some (c, n)" "list_all2 R c bc1" "list_all2 R n bn1"
    "count_ones bc1 + 2 * count_ones bn1 = count_ones bc + 2 * count_ones bn"
    "length bc1 = (if length bc \<le> h then length bc else h + (length bc - h) mod 2)"
    "length bn1 = length bn + (length bc - h) div 2" by (elim exE conjE) (rule that)
  have l: "length c = length bc1" using f(2) by (rule list_all2_lengthD)
  show ?thesis
  proof (cases "length bc1 \<le> h")
    case True
    then have "UMul_half_adder E (int h) c n = Some (c, n)" using l by (simp add: UMul_half_adder_def)
    moreover have "length bc1 = min (length bc) h" "(length bc - h + 1) div 2 = (length bc - h) div 2"
      using True f(5) by (auto simp: min_def split: if_splits)
    ultimately show ?thesis using f by (intro exI [of _ "(c, n)"] exI [of _ bc1] exI [of _ bn1]) simp
  next
    case False
    then have odd: "(length bc - h) mod 2 = 1" "length bc1 = h + 1" "h < length bc"
      using f(5) by (auto split: if_splits)
    obtain a b rb where b: "bc1 = a # b # rb" using False assms(3) by (cases bc1; cases "tl bc1") auto
    then obtain x y rc where c: "c = x # y # rc" "R x a" "R y b" "list_all2 R rc rb"
      using f(2) by (auto simp: list_all2_Cons2)
    let ?r = "AE_HalfAdder E x y"
    note hf = HalfAdder_R [OF c(2,3)]
    have c': "list_all2 R (rc @ [ar_sum ?r]) (rb @ [a \<noteq> b])" by (rule snoc_R [OF c(4) hf(1)])
    have n': "list_all2 R (n @ [ar_carry ?r]) (bn1 @ [a \<and> b])" by (rule snoc_R [OF f(3) hf(2)])
    have v: "count_ones (rb @ [a \<noteq> b]) + 2 * count_ones (bn1 @ [a \<and> b]) = count_ones bc + 2 * count_ones bn"
      unfolding f(4) [symmetric] b by (cases a; cases b) simp_all
    have "length (rb @ [a \<noteq> b]) = min (length bc) h" using odd b by simp
    moreover have "length (bn1 @ [a \<and> b]) = length bn + (length bc - h + 1) div 2"
      using f(6) odd(1) by simp presburger
    moreover have "UMul_half_adder E (int h) c n = Some (rc @ [ar_sum ?r], n @ [ar_carry ?r])"
      using odd(2) l c(1) by (simp add: UMul_half_adder_def Let_def)
    ultimately show ?thesis using f(1) c' n' v
      by (intro exI [of _ "(c, n)"] exI [of _ "(rc @ [ar_sum ?r], n @ [ar_carry ?r])"]
          exI [of _ "rb @ [a \<noteq> b]"] exI [of _ "bn1 @ [a \<and> b]"]) simp
  qed
qed

lemma UMul_stage_R:
  assumes "list_all2 (list_all2 R) cols bcs" "2 \<le> d" "d \<le> D"
    "case bcs of [] \<Rightarrow> True | c # cs \<Rightarrow> length c \<le> height_bound D (length cs) + carry_bound D d (length cs) \<and> heights_ok D cs"
  shows "\<exists>cols' bcs'. UMul_stage E (int d) cols = Some cols' \<and> list_all2 (list_all2 R) cols' bcs' \<and>
    length bcs' = length bcs \<and> columns_value bcs' = columns_value bcs \<and> heights_ok d bcs'"
  using assms(1,4)
proof (induction "length bcs" arbitrary: cols bcs)
  case 0
  then show ?case by simp
next
  case (Suc k)
  obtain bc bs where b: "bcs = bc # bs" "length bs = k" using Suc.hyps(2) by (cases bcs) auto
  obtain col cs where c: "cols = col # cs" "list_all2 R col bc" "list_all2 (list_all2 R) cs bs"
    using Suc.prems(1) b(1) by (auto simp: list_all2_Cons2)
  have l: "length col = length bc" using c(2) by (rule list_all2_lengthD)
  have H: "length bc \<le> height_bound D k + carry_bound D d k" "heights_ok D bs" using Suc.prems(2) b by simp_all
  note low = height_step [OF assms(2,3) H(1)]
  show ?case
  proof (cases bs)
    case Nil
    then have "length bc \<le> d" "k = 0" using last_column_low [OF assms(2,3)] H(1) b(2) by auto
    then show ?thesis using Nil b c l low
      by (intro exI [of _ "[col]"] exI [of _ "[bc]"]) simp
  next
    case (Cons bn bs')
    then obtain nxt cs' where n: "cs = nxt # cs'" "list_all2 R nxt bn" "list_all2 (list_all2 R) cs' bs'"
      using c(3) by (auto simp: list_all2_Cons2)
    have k: "k = Suc (length bs')" using Cons b(2) by simp
    have Hn: "length bn \<le> height_bound D (length bs')" "heights_ok D bs'" using H(2) Cons by simp_all
    show ?thesis
    proof (cases "length bc \<le> d")
      case True
      have "case bs of [] \<Rightarrow> True | c # cs \<Rightarrow> length c \<le> height_bound D (length cs) + carry_bound D d (length cs) \<and> heights_ok D cs"
        using Cons Hn by simp
      from Suc.hyps(1) [OF b(2) [symmetric] c(3) this] obtain cols' bcs' where r: "UMul_stage E (int d) cs = Some cols'"
        "list_all2 (list_all2 R) cols' bcs'" "length bcs' = length bs" "columns_value bcs' = columns_value bs" "heights_ok d bcs'"
        by blast
      have "UMul_stage E (int d) cols = Some (col # cols')" using r(1) True l c(1) n(1) by simp
      then show ?thesis using r c(2) b True low
        by (intro exI [of _ "col # cols'"] exI [of _ "bc # bcs'"]) simp
    next
      case False
      from UMul_column_R [OF c(2) n(2) assms(2)] obtain r r' bc' bn' where f: "UMul_full_adders E (int d) col nxt = Some r"
        "UMul_half_adder E (int d) (fst r) (snd r) = Some r'" "list_all2 R (fst r') bc'" "list_all2 R (snd r') bn'"
        "count_ones bc' + 2 * count_ones bn' = count_ones bc + 2 * count_ones bn"
        "length bc' = min (length bc) d" "length bn' = length bn + (length bc - d + 1) div 2" by (elim exE conjE) (rule that)
      have "length bn' \<le> height_bound D (length bs') + carry_bound D d (length bs')"
        using carry_step [OF assms(2,3) H(1) [unfolded k]] Hn(1) f(7) by linarith
      then have p: "case bn' # bs' of [] \<Rightarrow> True | c # cs \<Rightarrow> length c \<le> height_bound D (length cs) + carry_bound D d (length cs) \<and> heights_ok D cs"
        using Hn(2) by simp
      have p1: "list_all2 (list_all2 R) (snd r' # cs') (bn' # bs')" using f(4) n(3) by simp
      have "k = length (bn' # bs')" using k by simp
      from Suc.hyps(1) [OF this p1 p] obtain cols' bcs' where q: "UMul_stage E (int d) (snd r' # cs') = Some cols'"
        "list_all2 (list_all2 R) cols' bcs'" "length bcs' = length (bn' # bs')"
        "columns_value bcs' = columns_value (bn' # bs')" "heights_ok d bcs'"
        by blast
      have "UMul_stage E (int d) cols = Some (fst r' # cols')" using q(1) f(1,2) False l c(1) n(1) by simp
      moreover have "columns_value (bc' # bcs') = columns_value bcs" using q(4) f(5) b(1) Cons by simp
      ultimately show ?thesis using q f(3,6) b Cons low
        by (intro exI [of _ "fst r' # cols'"] exI [of _ "bc' # bcs'"]) simp
    qed
  qed
qed

lemma UMul_reduce_R:
  assumes "list_all2 (list_all2 R) cols bcs" "2 \<le> D" "heights_ok D bcs"
  shows "\<exists>cols' bcs'. UMul_reduce E (int D) cols = Some cols' \<and> list_all2 (list_all2 R) cols' bcs' \<and>
    length bcs' = length bcs \<and> columns_value bcs' = columns_value bcs \<and> heights_ok 2 bcs'"
  using assms
proof (induction D arbitrary: cols bcs rule: less_induct)
  case (less D)
  show ?case
  proof (cases "D = 2")
    case True
    then have "UMul_reduce E (int D) cols = Some cols" by (simp add: UMul_reduce.simps)
    then show ?thesis using less.prems True by blast
  next
    case False
    define d where "d = (2 * D + 2) div 3"
    have d: "2 \<le> d" "d < D" using False less.prems(2) unfolding d_def by linarith+
    have r: "CeilOfRatio (2 * int D) 3 = Some (int d)"
      unfolding CeilOfRatio_div [of 3, simplified] d_def by (simp add: zdiv_int)
    have "case bcs of [] \<Rightarrow> True | c # cs \<Rightarrow> length c \<le> height_bound D (length cs) + carry_bound D d (length cs) \<and> heights_ok D cs"
      using less.prems(3) by (cases bcs) simp_all
    from UMul_stage_R [OF less.prems(1) d(1) less_imp_le [OF d(2)] this] obtain cols1 bcs1 where s:
      "UMul_stage E (int d) cols = Some cols1" "list_all2 (list_all2 R) cols1 bcs1" "length bcs1 = length bcs"
      "columns_value bcs1 = columns_value bcs" "heights_ok d bcs1" by blast
    have "UMul_reduce E (int D) cols = UMul_reduce E (int d) cols1"
      using False less.prems(2) r s(1) by (subst UMul_reduce.simps) simp
    then show ?thesis using less.IH [OF d(2) s(2) d(1) s(5)] s(3,4) by simp
  qed
qed

lemma UMul_ripple_R:
  assumes "list_all2 (list_all2 R) cols bcs"
    "case bcs of [] \<Rightarrow> True | c # cs \<Rightarrow> length c \<le> height_bound 2 (length cs) + 1 \<and> heights_ok 2 cs"
  shows "\<exists>zs bs. UMul_ripple E cols = Some zs \<and> list_all2 R zs bs \<and> length bs = length bcs \<and> bl_to_nat bs = columns_value bcs"
  using assms
proof (induction "length bcs" arbitrary: cols bcs)
  case 0
  then show ?case by simp
next
  case (Suc k)
  obtain bc bs where b: "bcs = bc # bs" "length bs = k" using Suc.hyps(2) by (cases bcs) auto
  obtain col cs where c: "cols = col # cs" "list_all2 R col bc" "list_all2 (list_all2 R) cs bs"
    using Suc.prems(1) b(1) by (auto simp: list_all2_Cons2)
  have H: "length bc \<le> height_bound 2 k + 1" "heights_ok 2 bs" using Suc.prems(2) b by simp_all
  have h3: "length bc \<le> 3" "k = 0 \<Longrightarrow> length bc \<le> 1" using H(1) by (auto simp: height_bound_def split: if_splits)
  have keep: ?case if "UMul_ripple E cols = map_option ((#) x) (UMul_ripple E cs)" "R x a" "of_bool a = count_ones bc" for x a
  proof -
    have "case bs of [] \<Rightarrow> True | c # cs \<Rightarrow> length c \<le> height_bound 2 (length cs) + 1 \<and> heights_ok 2 cs"
      using H(2) by (cases bs) simp_all
    from Suc.hyps(1) [OF b(2) [symmetric] c(3) this] obtain zs vs where "UMul_ripple E cs = Some zs" "list_all2 R zs vs"
      "length vs = length bs" "bl_to_nat vs = columns_value bs" by blast
    with that show ?thesis using b by (intro exI [of _ "x # zs"] exI [of _ "a # vs"]) simp
  qed
  have carry: ?case if h: "R y s" "R z t" "of_bool s + 2 * of_bool t = count_ones bc"
      "UMul_ripple E (col # nxt # cs') = map_option ((#) y) (UMul_ripple E ((nxt @ [z]) # cs'))" "cs = nxt # cs'" for y z s t nxt cs'
  proof -
    obtain bn bs' where n: "bs = bn # bs'" "list_all2 R nxt bn" "list_all2 (list_all2 R) cs' bs'"
      using c(3) h(5) by (auto simp: list_all2_Cons1)
    have p: "case (bn @ [t]) # bs' of [] \<Rightarrow> True | c # cs \<Rightarrow> length c \<le> height_bound 2 (length cs) + 1 \<and> heights_ok 2 cs"
      using H(2) n(1) by simp
    have p1: "list_all2 (list_all2 R) ((nxt @ [z]) # cs') ((bn @ [t]) # bs')" using snoc_R [OF n(2) h(2)] n(3) by simp
    have "k = length ((bn @ [t]) # bs')" using b(2) n(1) by simp
    from Suc.hyps(1) [OF this p1 p] obtain zs vs where r: "UMul_ripple E ((nxt @ [z]) # cs') = Some zs" "list_all2 R zs vs"
      "length vs = length ((bn @ [t]) # bs')" "bl_to_nat vs = columns_value ((bn @ [t]) # bs')" by blast
    have "of_bool s + 2 * bl_to_nat vs = columns_value bcs" using r(4) h(3) b(1) n(1) by simp
    then show ?thesis using r h(1,4,5) b n(1) c(1) by (intro exI [of _ "y # zs"] exI [of _ "s # vs"]) simp
  qed
  show ?case
  proof (cases "length bc \<le> 1")
    case True
    then consider "bc = []" | a where "bc = [a]" by (cases bc) auto
    then show ?thesis
    proof cases
      case 1
      then show ?thesis using keep [OF _ Zero_False] c(1,2) by simp
    next
      case 2
      then obtain x where "col = [x]" "R x a" using c(2) by (auto simp: list_all2_Cons2)
      with 2 show ?thesis using keep [of x a] c(1) by simp
    qed
  next
    case False
    then obtain bn bs' where "bs = bn # bs'" using h3(2) b(2) by (cases bs) auto
    then obtain nxt cs' where n: "cs = nxt # cs'" using c(3) by (auto simp: list_all2_Cons2)
    consider a a' where "bc = [a, a']" | a a' a'' where "bc = [a, a', a'']"
      using False h3(1) by (cases bc; cases "tl bc"; cases "tl (tl bc)"; cases "tl (tl (tl bc))") auto
    then show ?thesis
    proof cases
      case (1 a a')
      then obtain x y where x: "col = [x, y]" "R x a" "R y a'" using c(2) by (auto simp: list_all2_Cons2)
      note h = HalfAdder_R [OF x(2,3)]
      have "of_bool (a \<noteq> a') + 2 * of_bool (a \<and> a') = count_ones bc" using 1 by (cases a; cases a') simp_all
      from carry [OF h this _ n] show ?thesis using x(1) by (simp add: Let_def)
    next
      case (2 a a' a'')
      then obtain x y z where x: "col = [x, y, z]" "R x a" "R y a'" "R z a''" using c(2) by (auto simp: list_all2_Cons2)
      note h = FullAdder_R [OF x(2-4)]
      have "of_bool (odd (of_bool a + of_bool a' + of_bool a'' :: nat)) + 2 * of_bool (2 \<le> (of_bool a + of_bool a' + of_bool a'' :: nat)) = count_ones bc"
        using 2 by (cases a; cases a'; cases a'') simp_all
      from carry [OF h this _ n] show ?thesis using x(1) by (simp add: Let_def)
    qed
  qed
qed

lemma partial_products_R:
  assumes "list_all2 R xs as" "list_all2 R ys bs"
  shows "list_all2 (list_all2 R) (UMul_partial_products E xs ys) (UMul_partial_products bool_evaluator as bs)"
proof -
  have l: "length xs = length as" "length ys = length bs" using assms by (auto dest: list_all2_lengthD)
  have push: "list_all2 (list_all2 R) (pp[i := pp ! i @ [x]]) (qq[i := qq ! i @ [a]])"
    if "list_all2 (list_all2 R) pp qq" "R x a" for pp qq i x a
  proof (cases "i < length qq")
    case True
    have "list_all2 R (pp ! i) (qq ! i)" using list_all2_nthD2 [OF that(1) True] .
    from list_all2_update_cong [OF that(1) snoc_R [OF this that(2)]] show ?thesis .
  next
    case False
    then show ?thesis using that list_all2_lengthD [OF that(1)] by (simp add: list_update_beyond)
  qed
  show ?thesis
    unfolding UMul_partial_products_def l
    by (intro fold_related [where P = "list_all2 (list_all2 R)"] push)
      (auto simp: list_all2_conv_all_nth bool_evaluator_simps intro!: And_R list_all2_nthD2 [OF assms(1)] list_all2_nthD2 [OF assms(2)])
qed

lemma UMul_R:
  assumes "list_all2 R xs as" "list_all2 R ys bs"
  shows "\<exists>zs. AE_UMul E xs ys = Some zs \<and> list_all2 R zs (nat_to_bl (length as + length bs) (bl_to_nat as * bl_to_nat bs))"
proof -
  have l: "length xs = length as" "length ys = length bs" using assms by (auto dest: list_all2_lengthD)
  obtain D where D: "UMul_first_height (int (max (length xs) (length ys))) 2 = Some (int D)" "max (length as) (length bs) \<le> D" "2 \<le> D"
    using UMul_first_height_ends [of 2 "max (length xs) (length ys)"] l by auto
  note f = partial_products_facts [where as = as and bs = bs]
  have "heights_ok D (UMul_partial_products bool_evaluator as bs)" using D(2) f(3) [of D] by simp
  from UMul_reduce_R [OF partial_products_R [OF assms] D(3) this] obtain cols bcs where r:
    "UMul_reduce E (int D) (UMul_partial_products E xs ys) = Some cols" "list_all2 (list_all2 R) cols bcs"
    "length bcs = length as + length bs" "columns_value bcs = bl_to_nat as * bl_to_nat bs" "heights_ok 2 bcs"
    unfolding f(1,2) by blast
  have "case bcs of [] \<Rightarrow> True | c # cs \<Rightarrow> length c \<le> height_bound 2 (length cs) + 1 \<and> heights_ok 2 cs"
    using r(5) by (cases bcs) simp_all
  from UMul_ripple_R [OF r(2) this] obtain zs vs where z: "UMul_ripple E cols = Some zs" "list_all2 R zs vs"
    "length vs = length as + length bs" "bl_to_nat vs = bl_to_nat as * bl_to_nat bs" unfolding r(3,4) by blast
  have "vs = nat_to_bl (length as + length bs) (bl_to_nat as * bl_to_nat bs)" using z(3) nat_to_bl_to_nat [of vs] z(4) by simp
  then show ?thesis using D(1) r(1) z(1,2) by (simp add: AE_UMul_def)
qed

end

section \<open>Two's complement vectors\<close>

definition int_to_bl :: "nat \<Rightarrow> int \<Rightarrow> bool list" where
  "int_to_bl w v = map (bit v) [0..<w]"

lemma length_int_to_bl [simp]: "length (int_to_bl w v) = w"
  by (simp add: int_to_bl_def)

lemma nth_int_to_bl [simp]: "i < w \<Longrightarrow> int_to_bl w v ! i = bit v i"
  by (simp add: int_to_bl_def)

lemma int_to_bl_cong: "v mod 2 ^ w = u mod 2 ^ w \<Longrightarrow> int_to_bl w v = int_to_bl w u"
proof (rule nth_equalityI)
  fix i assume "v mod 2 ^ w = u mod 2 ^ w" "i < length (int_to_bl w v)"
  then show "int_to_bl w v ! i = int_to_bl w u ! i"
    by (metis bit_take_bit_iff length_int_to_bl nth_int_to_bl take_bit_eq_mod)
qed simp

lemma int_to_bl_of_nat: "int_to_bl w (int v) = nat_to_bl w v"
  by (rule nth_equalityI) (simp_all add: bit_of_nat_iff)

lemma int_to_bl_neg: "v \<le> 2 ^ w \<Longrightarrow> nat_to_bl w (2 ^ w - v) = int_to_bl w (- int v)"
  unfolding int_to_bl_of_nat [symmetric] by (rule int_to_bl_cong) (simp add: of_nat_diff)

lemma extreme_vectors:
  assumes "0 < w"
  shows "(replicate w False)[w - 1 := True] = int_to_bl w (- (2 ^ (w - 1)))"
    "(replicate w True)[w - 1 := False] = int_to_bl w (2 ^ (w - 1) - 1)"
proof -
  obtain k where k: "w = Suc k" using assms gr0_implies_Suc by blast
  show "(replicate w False)[w - 1 := True] = int_to_bl w (- (2 ^ (w - 1)))"
    unfolding k by (rule nth_equalityI) (auto simp: nth_list_update bit_minus_exp_iff simp del: replicate_Suc)
  have "bit ((2::int) ^ k - 1) i \<longleftrightarrow> i < k" for i
    using bit_mask_iff [of k i, where 'a = int] by (simp add: mask_eq_exp_minus_1)
  then show "(replicate w True)[w - 1 := False] = int_to_bl w (2 ^ (w - 1) - 1)"
    unfolding k by (intro nth_equalityI) (auto simp: nth_list_update simp del: replicate_Suc)
qed

lemma bl_to_int_to_bl: "bs = int_to_bl (length bs) (bl_to_int bs)"
  by (rule nth_equalityI) (auto simp: bit_bl_to_int)

lemma bl_to_int_neg_iff: "bs \<noteq> [] \<Longrightarrow> bl_to_int bs < 0 \<longleftrightarrow> last bs"
proof -
  assume "bs \<noteq> []"
  moreover have "int (bl_to_nat bs) < 2 ^ length bs" using bl_to_nat_less [of bs] by (simp flip: of_nat_less_iff)
  ultimately show ?thesis unfolding bl_to_int_def by (cases "last bs") auto
qed

lemma bl_to_int_eq_0_iff: "bl_to_int bs = 0 \<longleftrightarrow> bl_to_nat bs = 0"
proof
  assume "bl_to_nat bs = 0"
  then have "\<not> last bs" if "bs \<noteq> []" using that last_in_set by (auto simp: bl_to_nat_eq_0_iff)
  then show "bl_to_int bs = 0" using \<open>bl_to_nat bs = 0\<close> by (auto simp: bl_to_int_def)
qed (use bl_to_int_mod [of bs] in simp)

lemma bl_to_int_abs_less: "bs \<noteq> [] \<Longrightarrow> nat \<bar>bl_to_int bs\<bar> < 2 ^ length bs"
proof -
  assume n: "bs \<noteq> []"
  have "(2::int) ^ (length bs - 1) < 2 ^ length bs" using n by (intro power_strict_increasing) auto
  then have "\<bar>bl_to_int bs\<bar> < 2 ^ length bs" using bl_to_int_bounds [OF n] by linarith
  then show ?thesis by (simp add: nat_less_iff)
qed

lemma sign_extended_int: "bs \<noteq> [] \<Longrightarrow> bl_to_int (bs @ replicate k (last bs)) = bl_to_int bs"
proof (rule bit_eqI)
  fix n assume "bs \<noteq> []"
  moreover have "last (bs @ replicate k (last bs)) = last bs" by (cases k) auto
  ultimately show "bit (bl_to_int (bs @ replicate k (last bs))) n = bit (bl_to_int bs) n"
    by (auto simp: bit_bl_to_int nth_append)
qed

lemma sign_extended_nat:
  assumes "bs \<noteq> []" "length bs \<le> w"
  shows "int (bl_to_nat (bs @ replicate (w - length bs) (last bs))) = bl_to_int bs mod 2 ^ w"
  using bl_to_int_mod [of "bs @ replicate (w - length bs) (last bs)"] assms by (simp add: sign_extended_int)

context sound_evaluator
begin

lemma SMul_R:
  assumes "list_all2 R xs as" "list_all2 R ys bs" "as \<noteq> []" "bs \<noteq> []"
  shows "\<exists>zs. AE_SMul E xs ys = Some zs \<and>
    list_all2 R zs (int_to_bl (length as + length bs) (bl_to_int as * bl_to_int bs))"
proof -
  define m where "m = max (length as) (length bs)"
  let ?w = "m * 2" and ?k = "length as + length bs"
  have l: "length xs = length as" "length ys = length bs" using assms by (auto dest: list_all2_lengthD)
  have m: "length as \<le> ?w" "length bs \<le> ?w" "?k \<le> ?w" by (auto simp: m_def)
  let ?a = "as @ replicate (?w - length as) (last as)" and ?b = "bs @ replicate (?w - length bs) (last bs)"
  obtain ta tb where t: "AE_SignExtend xs ?w = Some ta" "list_all2 R ta ?a" "AE_SignExtend ys ?w = Some tb" "list_all2 R tb ?b"
    using SignExtend_R [OF assms(1,3) m(1)] SignExtend_R [OF assms(2,4) m(2)] by blast
  obtain ps where p: "AE_UMul E ta tb = Some ps" "list_all2 R ps (nat_to_bl (length ?a + length ?b) (bl_to_nat ?a * bl_to_nat ?b))"
    using UMul_R [OF t(2,4)] by blast
  have "0 + ?k \<le> length (nat_to_bl (length ?a + length ?b) (bl_to_nat ?a * bl_to_nat ?b))" using m by simp
  from BitSlice_R [OF p(2) this] obtain zs where z: "AE_BitSlice ps 0 ?k = Some zs"
    "list_all2 R zs (take ?k (nat_to_bl (length ?a + length ?b) (bl_to_nat ?a * bl_to_nat ?b)))" by auto
  have "take ?k (nat_to_bl (length ?a + length ?b) (bl_to_nat ?a * bl_to_nat ?b)) = int_to_bl ?k (int (bl_to_nat ?a) * int (bl_to_nat ?b))"
    using m by (intro nth_equalityI) (simp_all add: bit_of_nat_iff flip: of_nat_mult)
  also have "\<dots> = int_to_bl ?k (bl_to_int as * bl_to_int bs)"
  proof (rule int_to_bl_cong)
    have d: "(2::int) ^ ?k dvd 2 ^ ?w" using m(3) by (rule le_imp_power_dvd)
    have "v mod 2 ^ ?w mod 2 ^ ?k = v mod 2 ^ ?k" for v :: int using d by (rule mod_mod_cancel)
    then show "int (bl_to_nat ?a) * int (bl_to_nat ?b) mod 2 ^ ?k = bl_to_int as * bl_to_int bs mod 2 ^ ?k"
      unfolding sign_extended_nat [OF assms(3) m(1)] sign_extended_nat [OF assms(4) m(2)] by (metis mod_mult_eq)
  qed
  finally show ?thesis using t(1,3) p(1) z by (simp add: AE_SMul_def Let_def l m_def)
qed

text \<open>Long division: the invariant is quotient times divisor plus remainder.\<close>

lemma butlast_R: "list_all2 R xs as \<Longrightarrow> list_all2 R (butlast xs) (butlast as)"
  by (simp add: butlast_conv_take list_all2_lengthD list_all2_takeI)

lemma long_division_step:
  fixes q r v :: nat
  assumes "r < dv" "dv < 2 ^ m" "v = of_bool a + 2 * r"
  shows "if v < dv then v mod 2 ^ m < dv \<and> 2 * q * dv + v mod 2 ^ m = 2 * (q * dv + r) + of_bool a
    else (v + (2 ^ (m + 1) - dv)) mod 2 ^ (m + 1) mod 2 ^ m < dv \<and>
      (1 + 2 * q) * dv + (v + (2 ^ (m + 1) - dv)) mod 2 ^ (m + 1) mod 2 ^ m = 2 * (q * dv + r) + of_bool a"
proof (cases "v < dv")
  case True
  then have "v mod 2 ^ m = v" using assms(2) by simp
  then show ?thesis using True assms(3) by (simp add: algebra_simps)
next
  case False
  have s: "v - dv < dv" using assms(1,3) False by (cases a) auto
  have "v + (2 ^ (m + 1) - dv) = (v - dv) + 2 ^ (m + 1)" using False assms(2) by simp
  moreover have "v - dv < 2 ^ (m + 1)" "v - dv < 2 ^ m" using s assms(2) by simp_all
  ultimately have e: "(v + (2 ^ (m + 1) - dv)) mod 2 ^ (m + 1) mod 2 ^ m = v - dv" by simp
  show ?thesis unfolding e using False s assms(3) by (simp add: algebra_simps)
qed

lemma UDivMod_loop_R:
  assumes "list_all2 R ds dbs" "list_all2 R ns (nat_to_bl (m + 1) (2 ^ (m + 1) - dv))"
    "length dbs = m + 1" "bl_to_nat dbs = dv" "dv < 2 ^ m"
    "list_all2 R xs as" "list_all2 R q qb" "list_all2 R r rb" "length rb = m"
  shows "\<exists>q' r' qb' rb'. UDivMod_loop E ds ns xs q r = Some (q', r') \<and> list_all2 R q' qb' \<and> list_all2 R r' rb' \<and>
    length qb' = length qb + length as \<and> length rb' = m \<and>
    (bl_to_nat rb < dv \<longrightarrow> bl_to_nat rb' < dv \<and>
      bl_to_nat qb' * dv + bl_to_nat rb' = (bl_to_nat qb * dv + bl_to_nat rb) * 2 ^ length as + bl_to_nat (rev as))"
  using assms(6-9)
proof (induction xs as arbitrary: q qb r rb rule: list_all2_induct)
  case Nil
  then show ?case by auto
next
  case (Cons x xs a as)
  let ?v = "bl_to_nat (a # rb)" and ?nd = "nat_to_bl (m + 1) (2 ^ (m + 1) - dv)"
  have r1: "list_all2 R (x # r) (a # rb)" "length (a # rb) = m + 1" using Cons by simp_all
  obtain lt where lt: "AE_ULessThan E (x # r) ds = Some lt" "R lt (?v < dv)"
    using ULessThan_R [OF r1(1) assms(1)] r1(2) assms(3,4) by auto
  have qi: "R (ev_Not E lt) (\<not> ?v < dv)" using Not_R [OF lt(2)] .
  have e: "nat_to_bl (m + 1) (?v + bl_to_nat ?nd) = nat_to_bl (m + 1) (?v + (2 ^ (m + 1) - dv))"
    by (rule nat_to_bl_cong) (simp only: bl_to_nat_to_bl mod_add_right_eq)
  obtain df where df: "AE_Add E (x # r) ns = Some df" "list_all2 R df (nat_to_bl (m + 1) (?v + (2 ^ (m + 1) - dv)))"
    using Add_R [OF r1(1) assms(2)] unfolding r1(2) e by auto
  let ?r2 = "if \<not> ?v < dv then nat_to_bl (m + 1) (?v + (2 ^ (m + 1) - dv)) else a # rb"
  obtain r2 where r2: "AE_Select E [ev_Not E lt] [x # r, df] None = Some r2" "list_all2 R r2 ?r2"
    using Select2_R [OF qi r1(1) df(2)] r1(2) by auto
  have b2: "list_all2 R (butlast r2) (butlast ?r2)" using butlast_R [OF r2(2)] .
  have l2: "length ?r2 = m + 1" using r1(2) by simp
  then have l3: "length (butlast ?r2) = m" by simp
  have v2: "bl_to_nat (butlast ?r2) = bl_to_nat ?r2 mod 2 ^ m" using l2 by (simp add: butlast_conv_take bl_to_nat_take del: if_not_P)
  have q2: "list_all2 R (ev_Not E lt # q) ((\<not> ?v < dv) # qb)" using qi Cons.prems(1) by simp
  have inv: "bl_to_nat (butlast ?r2) < dv \<and>
      bl_to_nat ((\<not> ?v < dv) # qb) * dv + bl_to_nat (butlast ?r2) = 2 * (bl_to_nat qb * dv + bl_to_nat rb) + of_bool a"
    if "bl_to_nat rb < dv"
    using long_division_step [OF that assms(5), of ?v a "bl_to_nat qb"] unfolding v2
    by (cases "?v < dv") (simp_all add: bl_to_nat_to_bl)
  from Cons.IH [OF q2 b2 l3] obtain q' r' qb' rb' where f: "UDivMod_loop E ds ns xs (ev_Not E lt # q) (butlast r2) = Some (q', r')"
    "list_all2 R q' qb'" "list_all2 R r' rb'" "length qb' = length ((\<not> ?v < dv) # qb) + length as" "length rb' = m"
    "bl_to_nat (butlast ?r2) < dv \<longrightarrow> bl_to_nat rb' < dv \<and> bl_to_nat qb' * dv + bl_to_nat rb' =
      (bl_to_nat ((\<not> ?v < dv) # qb) * dv + bl_to_nat (butlast ?r2)) * 2 ^ length as + bl_to_nat (rev as)"
    by (elim exE conjE) (rule that)
  have "UDivMod_loop E ds ns (x # xs) q r = Some (q', r')" using lt(1) df(1) r2(1) f(1) by (simp add: Let_def)
  moreover have "bl_to_nat rb' < dv \<and> bl_to_nat qb' * dv + bl_to_nat rb' =
      (bl_to_nat qb * dv + bl_to_nat rb) * 2 ^ length (a # as) + bl_to_nat (rev (a # as))" if "bl_to_nat rb < dv"
  proof -
    have i: "bl_to_nat (butlast ?r2) < dv"
      "bl_to_nat ((\<not> ?v < dv) # qb) * dv + bl_to_nat (butlast ?r2) = 2 * (bl_to_nat qb * dv + bl_to_nat rb) + of_bool a"
      using inv [OF that] by blast+
    have "(2 * (bl_to_nat qb * dv + bl_to_nat rb) + of_bool a) * 2 ^ length as + bl_to_nat (rev as) =
        (bl_to_nat qb * dv + bl_to_nat rb) * 2 ^ length (a # as) + bl_to_nat (rev (a # as))"
      by (simp add: bl_to_nat_snoc algebra_simps)
    then show ?thesis using f(6) [unfolded i(2)] i(1) by argo
  qed
  ultimately show ?case using f(2-5) by (intro exI [of _ q'] exI [of _ r'] exI [of _ qb'] exI [of _ rb']) simp
qed

text \<open>Unsigned division; by zero the quotient is all ones and the remainder zero.\<close>

lemma UDivMod_R:
  assumes "list_all2 R xs as" "list_all2 R ys bs"
  shows "\<exists>res. AE_UDivMod E xs ys = Some res \<and>
    list_all2 R (quotient res) (nat_to_bl (length as) (if bl_to_nat bs = 0 then 2 ^ length as - 1 else bl_to_nat as div bl_to_nat bs)) \<and>
    list_all2 R (remainder res) (nat_to_bl (length bs) (if bl_to_nat bs = 0 then 0 else bl_to_nat as mod bl_to_nat bs))"
proof -
  let ?m = "length bs" and ?dv = "bl_to_nat bs"
  have l: "length xs = length as" "length ys = length bs" using assms by (auto dest: list_all2_lengthD)
  obtain nz where nz: "AE_OrReduce E ys = [nz]" "R nz (?dv \<noteq> 0)" using OrReduce_R [OF assms(2)] by (auto simp: list_all2_Cons2)
  let ?db = "bs @ [False]"
  obtain ds where ds: "AE_ZeroExtend E ys (length ys + 1) = Some ds" "list_all2 R ds ?db"
    using ZeroExtend_R [OF assms(2), of "length ys + 1"] l(2) by auto
  have db: "length ?db = ?m + 1" "bl_to_nat ?db = ?dv" "?dv < 2 ^ ?m" by (simp_all add: bl_to_nat_snoc bl_to_nat_less)
  obtain ns where ns: "AE_Neg E ds = Some ns" "list_all2 R ns (nat_to_bl (?m + 1) (2 ^ (?m + 1) - ?dv))"
    using Neg_R [OF ds(2)] unfolding db by blast
  have rev: "list_all2 R (rev xs) (rev as)" using assms(1) by simp
  have z: "list_all2 R (replicate ?m (ev_Zero E)) (replicate ?m False)" by (rule replicate_R [OF Zero_False])
  obtain q r qb rb where f: "UDivMod_loop E ds ns (rev xs) [] (replicate ?m (ev_Zero E)) = Some (q, r)"
    "list_all2 R q qb" "list_all2 R r rb" "length qb = length as" "length rb = ?m"
    "0 < ?dv \<longrightarrow> bl_to_nat rb < ?dv \<and> bl_to_nat qb * ?dv + bl_to_nat rb = bl_to_nat as"
    using UDivMod_loop_R [OF ds(2) ns(2) db rev list.rel_intros(1) z] by auto
  have lq: "length q = length as" "length r = ?m" using f(2-5) by (auto dest: list_all2_lengthD)
  obtain q1 where q1: "AE_Select E [nz] [replicate (length as) (ev_One E), q] None = Some q1"
    "list_all2 R q1 (if ?dv \<noteq> 0 then qb else replicate (length as) True)"
    using Select2_R [OF nz(2) replicate_R [OF One_R, of "length as"] f(2)] f(4) by auto
  obtain r1 where r1: "AE_Select E [nz] [replicate ?m (ev_Zero E), r] None = Some r1"
    "list_all2 R r1 (if ?dv \<noteq> 0 then rb else replicate ?m False)"
    using Select2_R [OF nz(2) z f(3)] f(5) by auto
  have qr: "bl_to_nat qb = bl_to_nat as div ?dv" "bl_to_nat rb = bl_to_nat as mod ?dv" if "?dv \<noteq> 0"
    using f(6) that by (metis add.commute bot_nat_0.not_eq_extremum div_mult_self3 div_less add_0 mult.commute, metis bot_nat_0.not_eq_extremum mod_mult_self3 mod_less)
  have "(if ?dv \<noteq> 0 then qb else replicate (length as) True) =
      nat_to_bl (length as) (if ?dv = 0 then 2 ^ length as - 1 else bl_to_nat as div ?dv)"
    using qr(1) f(4) nat_to_bl_to_nat [of qb] nat_to_bl_to_nat [of "replicate (length as) True"] by auto
  moreover have "(if ?dv \<noteq> 0 then rb else replicate ?m False) = nat_to_bl ?m (if ?dv = 0 then 0 else bl_to_nat as mod ?dv)"
    using qr(2) f(5) nat_to_bl_to_nat [of rb] nat_to_bl_to_nat [of "replicate ?m False"] by auto
  moreover have "AE_UDivMod E xs ys = Some \<lparr>quotient = q1, remainder = r1\<rparr>"
    using nz(1) ds(1) ns(1) f(1) q1(1) r1(1) l(2) lq by (simp add: AE_UDivMod_def Let_def)
  ultimately show ?thesis using q1(2) r1(2) by simp
qed

lemma Neg_int_R:
  assumes "list_all2 R xs (nat_to_bl w v)" "v < 2 ^ w"
  shows "\<exists>zs. AE_Neg E xs = Some zs \<and> list_all2 R zs (int_to_bl w (- int v))"
  using Neg_R [OF assms(1)] int_to_bl_neg [of v w] assms(2) by (simp add: bl_to_nat_to_bl)

lemma signed_parts:
  fixes n d :: int
  assumes "d \<noteq> 0"
  shows "(if (n < 0) \<noteq> (d < 0) then - int (nat \<bar>n\<bar> div nat \<bar>d\<bar>) else int (nat \<bar>n\<bar> div nat \<bar>d\<bar>)) = n sdiv d"
    "(if n < 0 then - int (nat \<bar>n\<bar> mod nat \<bar>d\<bar>) else int (nat \<bar>n\<bar> mod nat \<bar>d\<bar>)) = n smod d"
proof -
  have i: "int (nat \<bar>n\<bar> div nat \<bar>d\<bar>) = \<bar>n\<bar> div \<bar>d\<bar>" "int (nat \<bar>n\<bar> mod nat \<bar>d\<bar>) = \<bar>n\<bar> mod \<bar>d\<bar>"
    by (simp_all add: zdiv_int zmod_int)
  show "(if (n < 0) \<noteq> (d < 0) then - int (nat \<bar>n\<bar> div nat \<bar>d\<bar>) else int (nat \<bar>n\<bar> div nat \<bar>d\<bar>)) = n sdiv d"
    unfolding i signed_divide_int_def using assms by (cases "n = 0") (auto simp: sgn_if)
  show "(if n < 0 then - int (nat \<bar>n\<bar> mod nat \<bar>d\<bar>) else int (nat \<bar>n\<bar> mod nat \<bar>d\<bar>)) = n smod d"
    unfolding i signed_modulo_int_def signed_divide_int_def using assms
    by (auto simp: sgn_if minus_mult_div_eq_mod minus_div_mult_eq_mod mult.commute)
qed

text \<open>
  Signed division truncates towards zero and the remainder has the sign of the dividend; by zero the
  quotient is the largest value of the sign of the dividend and the remainder zero.
\<close>

lemma SDivMod_R:
  assumes "list_all2 R xs as" "list_all2 R ys bs" "as \<noteq> []" "bs \<noteq> []"
  shows "\<exists>res. AE_SDivMod E xs ys = Some res \<and>
    list_all2 R (quotient res) (int_to_bl (length as)
      (if bl_to_int bs = 0 then if bl_to_int as < 0 then - (2 ^ (length as - 1)) else 2 ^ (length as - 1) - 1
       else bl_to_int as sdiv bl_to_int bs)) \<and>
    list_all2 R (remainder res) (int_to_bl (length bs) (if bl_to_int bs = 0 then 0 else bl_to_int as smod bl_to_int bs))"
proof -
  let ?w = "length as" and ?m = "length bs" and ?n = "bl_to_int as" and ?d = "bl_to_int bs"
  let ?an = "nat \<bar>?n\<bar>" and ?ad = "nat \<bar>?d\<bar>"
  have ne: "xs \<noteq> []" "ys \<noteq> []" using assms by auto
  obtain nz where nz: "AE_OrReduce E ys = [nz]" "R nz (?d \<noteq> 0)"
    using OrReduce_R [OF assms(2)] bl_to_int_eq_0_iff [of bs] by (auto simp: list_all2_Cons2)
  have nn: "R (last xs) (?n < 0)" and dn: "R (last ys) (?d < 0)"
    using last_R [OF assms(1,3)] last_R [OF assms(2,4)] bl_to_int_neg_iff assms(3,4) by simp_all
  have less: "?an < 2 ^ ?w" "?ad < 2 ^ ?m" using bl_to_int_abs_less assms(3,4) by blast+
  obtain an ad where ab: "AE_Abs E xs = Some an" "list_all2 R an (nat_to_bl ?w ?an)"
    "AE_Abs E ys = Some ad" "list_all2 R ad (nat_to_bl ?m ?ad)"
    using Abs_R [OF assms(1,3)] Abs_R [OF assms(2,4)] by blast
  have nd: "bl_to_nat (nat_to_bl ?w ?an) = ?an" "bl_to_nat (nat_to_bl ?m ?ad) = ?ad"
    unfolding bl_to_nat_to_bl using less by simp_all
  let ?q = "if ?ad = 0 then 2 ^ ?w - 1 else ?an div ?ad" and ?r = "if ?ad = 0 then 0 else ?an mod ?ad"
  obtain res where res: "AE_UDivMod E an ad = Some res" "list_all2 R (quotient res) (nat_to_bl ?w ?q)"
      "list_all2 R (remainder res) (nat_to_bl ?m ?r)"
    using UDivMod_R [OF ab(2,4)] unfolding nd length_nat_to_bl by blast
  have ql: "?q < 2 ^ ?w" "?r < 2 ^ ?m"
    using less by (auto intro: le_less_trans [OF div_le_dividend] less_trans [OF mod_less_divisor])
  obtain nr where nr: "AE_Neg E (remainder res) = Some nr" "list_all2 R nr (int_to_bl ?m (- int ?r))"
    using Neg_int_R [OF res(3) ql(2)] by blast
  obtain nq where nq: "AE_Neg E (quotient res) = Some nq" "list_all2 R nq (int_to_bl ?w (- int ?q))"
    using Neg_int_R [OF res(2) ql(1)] by blast
  obtain r where r: "AE_Select E [last xs] [remainder res, nr] None = Some r"
      "list_all2 R r (int_to_bl ?m (if ?n < 0 then - int ?r else int ?r))"
    using Select2_R [OF nn res(3) nr(2)] by (auto simp: int_to_bl_of_nat split: if_splits)
  obtain q where q: "AE_Select E [AE_Xor E (last xs) (last ys)] [quotient res, nq] None = Some q"
      "list_all2 R q (int_to_bl ?w (if (?n < 0) \<noteq> (?d < 0) then - int ?q else int ?q))"
    using Select2_R [OF Xor_R [OF nn dn] res(2) nq(2)] by (auto simp: int_to_bl_of_nat split: if_splits)
  have lq: "length q = ?w" using list_all2_lengthD [OF q(2)] by simp
  let ?lp = "(replicate ?w True)[?w - 1 := False]" and ?ln = "(replicate ?w False)[?w - 1 := True]"
  have lpn: "list_all2 (list_all2 R)
      [(replicate ?w (ev_One E))[?w - 1 := ev_Zero E], (replicate ?w (ev_Zero E))[?w - 1 := ev_One E]] [?lp, ?ln]"
    by (simp add: list_all2_update_cong replicate_R One_R Zero_False)
  have sel: "list_all2 R [last xs, nz] [?n < 0, ?d \<noteq> 0]" using nn nz(2) by simp
  let ?qb = "int_to_bl ?w (if (?n < 0) \<noteq> (?d < 0) then - int ?q else int ?q)"
  have e: "(if bl_to_nat [?n < 0, ?d \<noteq> 0] < length [?lp, ?ln] then [?lp, ?ln] ! bl_to_nat [?n < 0, ?d \<noteq> 0] else ?qb) =
      (if ?d = 0 then if ?n < 0 then ?ln else ?lp else ?qb)"
    by (cases "?d = 0"; cases "?n < 0") simp_all
  have side: "\<forall>d \<in> set [?lp, ?ln]. length d = ?w" "length [?lp, ?ln] \<le> 2 ^ length [?n < 0, ?d \<noteq> 0]"
    "length [?lp, ?ln] < 2 ^ 64" "[?lp, ?ln] \<noteq> []" by simp_all
  obtain q' where q': "AE_Select E [last xs, nz]
      [(replicate ?w (ev_One E))[?w - 1 := ev_Zero E], (replicate ?w (ev_Zero E))[?w - 1 := ev_One E]] (Some q) = Some q'"
      "list_all2 R q' (if ?d = 0 then if ?n < 0 then ?ln else ?lp else ?qb)"
    using Select_default_R [OF sel lpn side q(2) length_int_to_bl] unfolding e by (elim exE conjE) (rule that)
  have ext: "?ln = int_to_bl ?w (- (2 ^ (?w - 1)))" "?lp = int_to_bl ?w (2 ^ (?w - 1) - 1)"
    using extreme_vectors [of ?w] assms(3) by simp_all
  have "AE_SDivMod E xs ys = Some \<lparr>quotient = q', remainder = r\<rparr>"
    using nz(1) ab(1,3) res(1) nr(1) nq(1) r(1) q(1) q'(1) ne lq by (simp add: AE_SDivMod_def Let_def)
  moreover have "(if ?d = 0 then if ?n < 0 then ?ln else ?lp else ?qb) =
      int_to_bl ?w (if ?d = 0 then if ?n < 0 then - (2 ^ (?w - 1)) else 2 ^ (?w - 1) - 1 else ?n sdiv ?d)"
  proof (cases "?d = 0")
    case False
    then have "?ad \<noteq> 0" by simp
    with False show ?thesis by (simp only: if_False signed_parts(1) [OF False, of ?n])
  qed (use ext in simp)
  moreover have "(if ?n < 0 then - int ?r else int ?r) = (if ?d = 0 then 0 else ?n smod ?d)"
  proof (cases "?d = 0")
    case False
    then have "?ad \<noteq> 0" by simp
    with False show ?thesis by (simp only: if_False signed_parts(2) [OF False, of ?n])
  qed simp
  ultimately show ?thesis using q'(2) r(2) by simp
qed

end

end
