(* ===== verification/Ternary_Evaluator.thy ===== *)
theory Ternary_Evaluator
  imports Evaluator_Arith
begin

text \<open>
  Models \<open>xls/passes/ternary_evaluator.h\<close>, the evaluator of the ternary analysis, and interprets
  the contract of \<open>Abstract_Evaluator\<close> for it and for booleans. For ternary values the relation
  ``a value may be this boolean'' makes every lemma of the locale a soundness statement: whatever concrete
  bits the operands allow, the result vector allows the result of the operation on them. For booleans it
  makes them exact.
\<close>

fun TernaryEvaluator_Not :: "TernaryValue \<Rightarrow> TernaryValue" where
  "TernaryEvaluator_Not kKnownZero = kKnownOne"
| "TernaryEvaluator_Not kKnownOne = kKnownZero"
| "TernaryEvaluator_Not kUnknown = kUnknown"

definition TernaryEvaluator :: "TernaryValue evaluator" where
  "TernaryEvaluator =
     \<lparr>ev_One = kKnownOne, ev_Zero = kKnownZero, ev_Not = TernaryEvaluator_Not,
      ev_And = ternary_ops_And, ev_Or = ternary_ops_Or\<rparr>"

definition may_be :: "TernaryValue \<Rightarrow> bool \<Rightarrow> bool" where
  "may_be t b \<longleftrightarrow> t = kUnknown \<or> b = (t = kKnownOne)"

lemma ternary_allows_may_be: "ternary_allows v bs \<longleftrightarrow> list_all2 may_be v bs"
  by (simp add: ternary_allows_def may_be_def [abs_def])

interpretation te: sound_evaluator TernaryEvaluator may_be
proof
  show "may_be (ev_Not TernaryEvaluator x) (\<not> a)" if "may_be x a" for x a
    using that by (cases x) (auto simp: may_be_def TernaryEvaluator_def)
  show "may_be (ev_And TernaryEvaluator x y) (a \<and> b)" if "may_be x a" "may_be y b" for x a y b
    using that by (cases x; cases y) (auto simp: may_be_def TernaryEvaluator_def ternary_ops_And_def)
  show "may_be (ev_Or TernaryEvaluator x y) (a \<or> b)" if "may_be x a" "may_be y b" for x a y b
    using that by (cases x; cases y) (auto simp: may_be_def TernaryEvaluator_def ternary_ops_Or_def)
qed (simp_all add: may_be_def TernaryEvaluator_def)

interpretation be: sound_evaluator bool_evaluator "(=)"
  by unfold_locales simp_all

text \<open>For booleans the relation is equality, and the operations are exact.\<close>

lemma list_all2_eq_same: "list_all2 (=) xs ys \<longleftrightarrow> xs = ys"
  by (simp add: list.rel_eq)

lemmas bool_exact = be.UMul_R [unfolded list_all2_eq_same, OF refl refl]
  be.SMul_R [unfolded list_all2_eq_same, OF refl refl] be.Add_R [unfolded list_all2_eq_same, OF refl refl]
  be.UDivMod_R [unfolded list_all2_eq_same, OF refl refl] be.SDivMod_R [unfolded list_all2_eq_same, OF refl refl]

text \<open>Vectors of known bits evaluate to vectors of known bits: the constants allow one value only.\<close>

lemma BitsToVector_ternary: "AE_BitsToVector TernaryEvaluator b = ternary_ops_BitsToTernary b"
  by (simp add: AE_BitsToVector_def ternary_ops_BitsToTernary_def TernaryEvaluator_def)

section \<open>Agreement with the operations on bit vectors\<close>

lemma compatible_may_be: "ternary_ops_IsCompatible v b \<longleftrightarrow> list_all2 may_be v (bm_bits b)"
  by (simp add: IsCompatible_iff ternary_allows_may_be)

lemma bm_bits_of_int: "bm_bits (bits_of_int n v) = int_to_bl n v"
  by (simp add: bits_of_int_bits int_to_bl_def)

lemma bm_bits_nonempty: "0 < Bits_bit_count b \<Longrightarrow> bm_bits b \<noteq> []"
  by (simp add: bm_bits_eq_Nil)

lemma SDiv_bits:
  assumes "bignum_spec B val" "bm_wf a" "bm_wf b" "0 < Bits_bit_count a"
  shows "\<exists>z. bits_ops_SDiv B a b = Some z \<and> bm_bits z = int_to_bl (Bits_bit_count a)
    (if sval b = 0 then if sval a < 0 then - (2 ^ (Bits_bit_count a - 1)) else 2 ^ (Bits_bit_count a - 1) - 1
     else sval a sdiv sval b)"
proof (cases "sval b = 0")
  case False
  then show ?thesis using SDiv_eq [OF assms(1-3)] by (simp add: bm_bits_of_int)
next
  case True
  let ?n = "Bits_bit_count a"
  obtain lo hi where e: "Bits_MinSigned ?n = Some lo" "Bits_MaxSigned ?n = Some hi" and
    v: "bm_wf lo" "bm_count lo = ?n" "sval lo = - (2 ^ (?n - 1))" "bm_wf hi" "bm_count hi = ?n" "sval hi = 2 ^ (?n - 1) - 1"
    using MinSigned_MaxSigned_correct [of ?n] assms(4) by auto
  have "bm_bits lo = int_to_bl ?n (- (2 ^ (?n - 1)))" "bm_bits hi = int_to_bl ?n (2 ^ (?n - 1) - 1)"
    using bl_to_int_to_bl [of "bm_bits lo"] bl_to_int_to_bl [of "bm_bits hi"] v by (simp_all add: sval_def)
  then show ?thesis using SDiv_by_zero [OF assms(1-3) True assms(4)] e True by simp
qed

end
