(* ===== verification/Interval_Core.thy ===== *)
theory Interval_Core
  imports Bits_Ops
begin

text \<open>
  Models \<open>xls/ir/interval.h\<close> and \<open>xls/ir/interval.cc\<close>: intervals of bit vectors of one width
  with unsigned inclusive bounds, which may be improper, that is wrap around. An interval stands for the set
  of numbers it covers; the lemmas relate every operation to that set. \<open>None\<close> is a failed
  \<open>CHECK\<close>; where the source returns \<open>std::optional\<close> there is a second option inside.
\<close>

section \<open>The class\<close>

record Interval =
  iv_is_valid :: bool
  iv_lower :: Bits
  iv_upper :: Bits

definition Interval_default :: Interval where
  "Interval_default = \<lparr>iv_is_valid = False, iv_lower = Bits_new 0, iv_upper = Bits_new 0\<rparr>"

definition Interval_new :: "Bits \<Rightarrow> Bits \<Rightarrow> Interval option" where
  "Interval_new lower_bound upper_bound =
     (if Bits_bit_count lower_bound \<noteq> Bits_bit_count upper_bound then None
      else Some \<lparr>iv_is_valid = True, iv_lower = lower_bound, iv_upper = upper_bound\<rparr>)"

definition Interval_Closed :: "Bits \<Rightarrow> Bits \<Rightarrow> Interval option" where
  "Interval_Closed lower_bound upper_bound = Interval_new lower_bound upper_bound"

definition Interval_LeftOpen :: "Bits \<Rightarrow> Bits \<Rightarrow> Interval option" where
  "Interval_LeftOpen lower_bound upper_bound = Interval_new (bits_ops_Increment lower_bound) upper_bound"

definition Interval_RightOpen :: "Bits \<Rightarrow> Bits \<Rightarrow> Interval option" where
  "Interval_RightOpen lower_bound upper_bound = Interval_new lower_bound (bits_ops_Decrement upper_bound)"

definition Interval_Open :: "Bits \<Rightarrow> Bits \<Rightarrow> Interval option" where
  "Interval_Open lower_bound upper_bound =
     Interval_new (bits_ops_Increment lower_bound) (bits_ops_Decrement upper_bound)"

definition Interval_EnsureValid :: "Interval \<Rightarrow> unit option" where
  "Interval_EnsureValid iv = (if iv_is_valid iv then Some () else None)"

definition Interval_BitCount :: "Interval \<Rightarrow> nat option" where
  "Interval_BitCount iv = do { _ \<leftarrow> Interval_EnsureValid iv; Some (Bits_bit_count (iv_lower iv)) }"

definition Interval_Maximal :: "nat \<Rightarrow> Interval option" where
  "Interval_Maximal bit_width = do { zero \<leftarrow> UBits 0 bit_width; Interval_new zero (Bits_AllOnes bit_width) }"

definition Interval_Precise :: "Bits \<Rightarrow> Interval option" where
  "Interval_Precise bits = Interval_new bits bits"

definition Interval_ZeroExtend :: "Interval \<Rightarrow> nat \<Rightarrow> Interval option" where
  "Interval_ZeroExtend iv bit_width = do {
     n \<leftarrow> Interval_BitCount iv;
     if bit_width < n then None
     else do {
       lo \<leftarrow> bits_ops_ZeroExtend (iv_lower iv) bit_width;
       hi \<leftarrow> bits_ops_ZeroExtend (iv_upper iv) bit_width;
       Interval_new lo hi
     }
   }"

definition Interval_IsImproper :: "Interval \<Rightarrow> bool option" where
  "Interval_IsImproper iv = do {
     n \<leftarrow> Interval_BitCount iv;
     Some (if n = 0 then False else bits_ops_ULessThan (iv_upper iv) (iv_lower iv))
   }"

text \<open>The three checks the binary operations start with, giving the common width.\<close>

definition proper_pair :: "Interval \<Rightarrow> Interval \<Rightarrow> nat option" where
  "proper_pair lhs rhs = do {
     n \<leftarrow> Interval_BitCount lhs;
     m \<leftarrow> Interval_BitCount rhs;
     if n \<noteq> m then None
     else do {
       il \<leftarrow> Interval_IsImproper lhs;
       ir \<leftarrow> Interval_IsImproper rhs;
       if il \<or> ir then None else Some n
     }
   }"

definition Interval_Overlaps :: "Interval \<Rightarrow> Interval \<Rightarrow> bool option" where
  "Interval_Overlaps lhs rhs = do {
     n \<leftarrow> proper_pair lhs rhs;
     Some (if n = 0 then True
           else bits_ops_UGreaterThanOrEqual (iv_upper lhs) (iv_lower rhs) \<and>
                bits_ops_UGreaterThanOrEqual (iv_upper rhs) (iv_lower lhs))
   }"

definition Interval_Disjoint :: "Interval \<Rightarrow> Interval \<Rightarrow> bool option" where
  "Interval_Disjoint lhs rhs = map_option Not (Interval_Overlaps lhs rhs)"

definition Interval_Abuts :: "Interval \<Rightarrow> Interval \<Rightarrow> bool option" where
  "Interval_Abuts lhs rhs = do {
     n \<leftarrow> proper_pair lhs rhs;
     let a = iv_lower lhs;
     let b = iv_upper lhs;
     let c = iv_lower rhs;
     let d = iv_upper rhs;
     let bp_vs_c = bits_ops_UCmp (bits_ops_Increment b) c;
     Some (if n = 0 then False
           else if \<not> Bits_IsAllOnes b \<and> bp_vs_c = 0 then True
           else if \<not> Bits_IsAllOnes b \<and> bp_vs_c < 0 then False
           else \<not> Bits_IsAllOnes d \<and> bits_ops_UEqual (bits_ops_Increment d) a)
   }"

definition Interval_ConvexHull :: "Interval \<Rightarrow> Interval \<Rightarrow> Interval option" where
  "Interval_ConvexHull lhs rhs = do {
     n \<leftarrow> proper_pair lhs rhs;
     if n = 0 then Interval_new (Bits_new 0) (Bits_new 0)
     else Interval_new (bits_ops_UMin (iv_lower lhs) (iv_lower rhs)) (bits_ops_UMax (iv_upper lhs) (iv_upper rhs))
   }"

definition Interval_Intersect :: "Interval \<Rightarrow> Interval \<Rightarrow> Interval option option" where
  "Interval_Intersect lhs rhs = do {
     n \<leftarrow> proper_pair lhs rhs;
     intersection \<leftarrow> Interval_new (bits_ops_UMax (iv_lower lhs) (iv_lower rhs)) (bits_ops_UMin (iv_upper lhs) (iv_upper rhs));
     improper \<leftarrow> Interval_IsImproper intersection;
     Some (if improper then None else Some intersection)
   }"

definition Interval_Difference :: "Interval \<Rightarrow> Interval \<Rightarrow> Interval list option" where
  "Interval_Difference lhs rhs = do {
     n \<leftarrow> proper_pair lhs rhs;
     i \<leftarrow> Interval_Intersect lhs rhs;
     case i of
       None \<Rightarrow> Some [lhs]
     | Some intersection \<Rightarrow> do {
         let a = iv_lower lhs;
         let b = iv_lower intersection;
         let c = iv_upper intersection;
         let d = iv_upper lhs;
         below \<leftarrow> (if bits_ops_ULessThan a b then map_option (\<lambda>x. [x]) (Interval_RightOpen a b) else Some []);
         above \<leftarrow> (if bits_ops_ULessThan c d then map_option (\<lambda>x. [x]) (Interval_LeftOpen c d) else Some []);
         Some (below @ above)
       }
   }"

definition Interval_Complement :: "Interval \<Rightarrow> Interval list option" where
  "Interval_Complement iv = do {
     n \<leftarrow> Interval_BitCount iv;
     m \<leftarrow> Interval_Maximal n;
     Interval_Difference m iv
   }"

definition Interval_IsSubsetOf :: "Interval \<Rightarrow> Interval \<Rightarrow> bool option" where
  "Interval_IsSubsetOf lhs rhs = do {
     n \<leftarrow> proper_pair lhs rhs;
     Some (bits_ops_ULessThanOrEqual (iv_lower rhs) (iv_lower lhs) \<and>
           bits_ops_UGreaterThanOrEqual (iv_upper rhs) (iv_upper lhs))
   }"

text \<open>
  Iteration: the callback is a function of a state of its own and the point, and answers the new state and
  whether to stop. The loop answers whether it was stopped, the state and the value it has reached.
\<close>

partial_function (option) for_each_below ::
    "('s \<Rightarrow> Bits \<Rightarrow> 's \<times> bool) \<Rightarrow> Bits \<Rightarrow> Bits \<Rightarrow> 's \<Rightarrow> (bool \<times> 's \<times> Bits) option" where
  "for_each_below callback v limit s =
     (if bits_ops_ULessThan v limit then
        let r = callback s v
        in if snd r then Some (True, fst r, v)
           else for_each_below callback (bits_ops_Increment v) limit (fst r)
      else Some (False, s, v))"

definition for_each_upto ::
    "('s \<Rightarrow> Bits \<Rightarrow> 's \<times> bool) \<Rightarrow> Bits \<Rightarrow> Bits \<Rightarrow> 's \<Rightarrow> (bool \<times> 's) option" where
  "for_each_upto callback v limit s = do {
     r \<leftarrow> for_each_below callback v limit s;
     Some (if fst r then (True, fst (snd r))
           else let c = callback (fst (snd r)) (snd (snd r)) in (snd c, fst c))
   }"

definition Interval_ForEachElement ::
    "('s \<Rightarrow> Bits \<Rightarrow> 's \<times> bool) \<Rightarrow> Interval \<Rightarrow> 's \<Rightarrow> (bool \<times> 's) option" where
  "Interval_ForEachElement callback iv s = do {
     _ \<leftarrow> Interval_EnsureValid iv;
     if bits_ops_UEqual (iv_lower iv) (iv_upper iv)
     then let c = callback s (iv_lower iv) in Some (snd c, fst c)
     else do {
       improper \<leftarrow> Interval_IsImproper iv;
       n \<leftarrow> Interval_BitCount iv;
       if improper then do {
         r \<leftarrow> for_each_upto callback (iv_lower iv) (Bits_AllOnes n) s;
         if fst r then Some r
         else do { zero \<leftarrow> UBits 0 n; for_each_upto callback zero (iv_upper iv) (snd r) }
       }
       else for_each_upto callback (iv_lower iv) (iv_upper iv) s
     }
   }"

definition Interval_Elements :: "Interval \<Rightarrow> Bits list option" where
  "Interval_Elements iv = map_option snd (Interval_ForEachElement (\<lambda>vs v. (vs @ [v], False)) iv [])"

partial_function (option) Interval_SizeBits :: "'bn bignum \<Rightarrow> Interval \<Rightarrow> Bits option" where
  "Interval_SizeBits B iv = do {
     n \<leftarrow> Interval_BitCount iv;
     if bits_ops_UGreaterThan (iv_lower iv) (iv_upper iv) then do {
       zero \<leftarrow> UBits 0 n;
       high \<leftarrow> Interval_new (iv_lower iv) (Bits_AllOnes n);
       low \<leftarrow> Interval_new zero (iv_upper iv);
       x \<leftarrow> Interval_SizeBits B high;
       y \<leftarrow> Interval_SizeBits B low;
       bits_ops_Add B x y
     }
     else do {
       difference \<leftarrow> bits_ops_Sub B (iv_upper iv) (iv_lower iv);
       padded \<leftarrow> bits_ops_ZeroExtend difference (n + 1);
       Some (bits_ops_Increment padded)
     }
   }"

definition Interval_Size :: "'bn bignum \<Rightarrow> Interval \<Rightarrow> nat option option" where
  "Interval_Size B iv = do {
     sb \<leftarrow> Interval_SizeBits B iv;
     Some (case Bits_ToUint64 sb of
             Inr sz \<Rightarrow> if sz > 0x7FFFFFFFFFFFFFFF then None else Some (unat sz)
           | Inl _ \<Rightarrow> None)
   }"

definition Interval_IsPrecise :: "Interval \<Rightarrow> bool option" where
  "Interval_IsPrecise iv = do {
     n \<leftarrow> Interval_BitCount iv;
     Some (if n = 0 then True else InlineBitmap_eq (iv_lower iv) (iv_upper iv))
   }"

definition Interval_GetPreciseValue :: "Interval \<Rightarrow> Bits option option" where
  "Interval_GetPreciseValue iv = do {
     p \<leftarrow> Interval_IsPrecise iv;
     Some (if \<not> p then None else Some (iv_lower iv))
   }"

definition Interval_IsMaximal :: "Interval \<Rightarrow> bool option" where
  "Interval_IsMaximal iv = do {
     n \<leftarrow> Interval_BitCount iv;
     zero \<leftarrow> UBits 0 n;
     Some (if n = 0 then True
           else bits_ops_UEqual (iv_lower iv) zero \<and> bits_ops_UEqual (iv_upper iv) (Bits_AllOnes n))
   }"

definition Interval_IsTrueWhenAndWith :: "Interval \<Rightarrow> Bits \<Rightarrow> bool option" where
  "Interval_IsTrueWhenAndWith iv v = do {
     n \<leftarrow> Interval_BitCount iv;
     if Bits_bit_count v \<noteq> n then None
     else do {
       common_prefix \<leftarrow> bits_ops_LongestCommonPrefixMSB [iv_lower iv, iv_upper iv];
       let rope = BitsRope_push_back (BitsRope_new n) (Bits_AllOnes (n - Bits_bit_count common_prefix));
       let rope = BitsRope_push_back rope common_prefix;
       m \<leftarrow> BitsRope_Build rope;
       masked \<leftarrow> bits_ops_And m v;
       Some (\<not> Bits_IsZero masked)
     }
   }"

definition Interval_Covers :: "Interval \<Rightarrow> Bits \<Rightarrow> bool option" where
  "Interval_Covers iv point = do {
     n \<leftarrow> Interval_BitCount iv;
     if n \<noteq> Bits_bit_count point then None
     else do {
       improper \<leftarrow> Interval_IsImproper iv;
       Some (if n = 0 then True
             else if improper
             then bits_ops_ULessThanOrEqual (iv_lower iv) point \<or> bits_ops_ULessThanOrEqual point (iv_upper iv)
             else bits_ops_ULessThanOrEqual (iv_lower iv) point \<and> bits_ops_ULessThanOrEqual point (iv_upper iv))
     }
   }"

definition Interval_CoversZero :: "Interval \<Rightarrow> bool option" where
  "Interval_CoversZero iv = do { n \<leftarrow> Interval_BitCount iv; zero \<leftarrow> UBits 0 n; Interval_Covers iv zero }"

definition Interval_CoversOne :: "Interval \<Rightarrow> bool option" where
  "Interval_CoversOne iv = do {
     n \<leftarrow> Interval_BitCount iv;
     if n > 0 then do { one \<leftarrow> UBits 1 n; Interval_Covers iv one } else Some False
   }"

definition Interval_CoversMax :: "Interval \<Rightarrow> bool option" where
  "Interval_CoversMax iv = do { n \<leftarrow> Interval_BitCount iv; Interval_Covers iv (Bits_AllOnes n) }"

definition Interval_ToString :: "'bn bignum \<Rightarrow> Interval \<Rightarrow> string option" where
  "Interval_ToString B iv = do {
     lo \<leftarrow> BitsToString B (iv_lower iv) kDefault False;
     hi \<leftarrow> BitsToString B (iv_upper iv) kDefault False;
     Some (''['' @ lo @ '', '' @ hi @ '']'')
   }"

definition Interval_cmp :: "Interval \<Rightarrow> Interval \<Rightarrow> int" where
  "Interval_cmp lhs rhs =
     (let lower_cmp = sgn (bits_ops_UCmp (iv_lower lhs) (iv_lower rhs))
      in if lower_cmp = 0 then sgn (bits_ops_UCmp (iv_upper lhs) (iv_upper rhs)) else lower_cmp)"

definition Interval_less :: "Interval \<Rightarrow> Interval \<Rightarrow> bool" where
  "Interval_less lhs rhs \<longleftrightarrow> Interval_cmp lhs rhs < 0"

definition Interval_eq :: "Interval \<Rightarrow> Interval \<Rightarrow> bool" where
  "Interval_eq lhs rhs \<longleftrightarrow> Interval_cmp lhs rhs = 0"

section \<open>The numbers an interval covers\<close>

abbreviation iv_width :: "Interval \<Rightarrow> nat" where
  "iv_width iv \<equiv> Bits_bit_count (iv_lower iv)"

definition iv_lo :: "Interval \<Rightarrow> nat" where
  "iv_lo iv = uval (iv_lower iv)"

definition iv_hi :: "Interval \<Rightarrow> nat" where
  "iv_hi iv = uval (iv_upper iv)"

definition iv_wf :: "Interval \<Rightarrow> bool" where
  "iv_wf iv \<longleftrightarrow> iv_is_valid iv \<and> bm_wf (iv_lower iv) \<and> bm_wf (iv_upper iv) \<and>
     Bits_bit_count (iv_upper iv) = Bits_bit_count (iv_lower iv)"

text \<open>A valid proper interval of the given width.\<close>

definition iv_proper :: "nat \<Rightarrow> Interval \<Rightarrow> bool" where
  "iv_proper n iv \<longleftrightarrow> iv_wf iv \<and> iv_width iv = n \<and> iv_lo iv \<le> iv_hi iv"

definition iv_points :: "Interval \<Rightarrow> nat set" where
  "iv_points iv = (if iv_lo iv \<le> iv_hi iv then {iv_lo iv..iv_hi iv} else {iv_lo iv..<2 ^ iv_width iv} \<union> {..iv_hi iv})"

text \<open>The interval with the given bounds.\<close>

definition iv_of :: "nat \<Rightarrow> nat \<Rightarrow> nat \<Rightarrow> Interval" where
  "iv_of n l h = \<lparr>iv_is_valid = True, iv_lower = bits_of_nat n l, iv_upper = bits_of_nat n h\<rparr>"


lemma iv_of_simps [simp]:
  "iv_is_valid (iv_of n l h)" "iv_lower (iv_of n l h) = bits_of_nat n l" "iv_upper (iv_of n l h) = bits_of_nat n h"
  by (simp_all add: iv_of_def)

lemma iv_of_bounds [simp]: "l < 2 ^ n \<Longrightarrow> iv_lo (iv_of n l h) = l" "h < 2 ^ n \<Longrightarrow> iv_hi (iv_of n l h) = h"
  by (simp_all add: iv_lo_def iv_hi_def)

lemma iv_wf_of [simp]: "iv_wf (iv_of n l h)"
  by (simp add: iv_wf_def)

lemma iv_proper_of [simp]: "l \<le> h \<Longrightarrow> h < 2 ^ n \<Longrightarrow> iv_proper n (iv_of n l h)"
  by (simp add: iv_proper_def)

lemma iv_wf_less:
  assumes "iv_wf iv"
  shows "iv_lo iv < 2 ^ iv_width iv" "iv_hi iv < 2 ^ iv_width iv"
  using assms uval_less [of "iv_lower iv"] uval_less [of "iv_upper iv"] by (simp_all add: iv_wf_def iv_lo_def iv_hi_def)

lemma iv_of_eq: "iv_wf iv \<Longrightarrow> iv_of (iv_width iv) (iv_lo iv) (iv_hi iv) = iv"
  by (cases iv) (auto simp: iv_wf_def iv_of_def iv_lo_def iv_hi_def bits_of_nat_uval dest: bits_of_nat_uval)

lemma iv_proper_cases:
  assumes "iv_proper n iv"
  obtains l h where "iv = iv_of n l h" "l \<le> h" "h < 2 ^ n"
  using assms unfolding iv_proper_def by (metis iv_of_eq iv_wf_less(2))

lemma iv_points_of [simp]: "l \<le> h \<Longrightarrow> h < 2 ^ n \<Longrightarrow> iv_points (iv_of n l h) = {l..h}"
  by (simp add: iv_points_def)

lemma iv_proper_points: "iv_proper n iv \<Longrightarrow> iv_points iv = {iv_lo iv..iv_hi iv}"
  by (simp add: iv_points_def iv_proper_def)

lemma iv_points_less: "iv_wf iv \<Longrightarrow> iv_points iv \<subseteq> {..<2 ^ iv_width iv}"
  using iv_wf_less [of iv] by (auto simp: iv_points_def split: if_splits)

section \<open>What the operations compute\<close>

lemma Interval_new_of: "Interval_new (bits_of_nat n l) (bits_of_nat n h) = Some (iv_of n l h)"
  by (simp add: Interval_new_def iv_of_def)

lemma BitCount_wf [simp]: "iv_wf iv \<Longrightarrow> Interval_BitCount iv = Some (iv_width iv)"
  by (simp add: Interval_BitCount_def Interval_EnsureValid_def iv_wf_def)

lemma IsImproper_wf [simp]: "iv_wf iv \<Longrightarrow> Interval_IsImproper iv = Some (iv_hi iv < iv_lo iv)"
  using uval_less [of "iv_lower iv"]
  by (auto simp: Interval_IsImproper_def unsigned_compare iv_wf_def iv_lo_def iv_hi_def Interval_BitCount_def
      Interval_EnsureValid_def)

lemma Maximal_eq: "Interval_Maximal n = Some (iv_of n 0 (2 ^ n - 1))"
proof -
  have "Bits_new n = bits_of_nat n 0" "Bits_AllOnes n = bits_of_nat n (2 ^ n - 1)" by (auto intro!: bits_of_natI)
  then show ?thesis by (simp add: Interval_Maximal_def UBits_0 Interval_new_of)
qed

lemma proper_pair_of:
  assumes "iv_proper n x" "iv_proper n y"
  shows "proper_pair x y = Some n"
  using assms by (simp add: proper_pair_def iv_proper_def)

lemma proper_pair_iv [simp]:
  "a \<le> b \<Longrightarrow> b < 2 ^ n \<Longrightarrow> c \<le> d \<Longrightarrow> d < 2 ^ n \<Longrightarrow> proper_pair (iv_of n a b) (iv_of n c d) = Some n"
  by (rule proper_pair_of) simp_all

lemma UMin_of: "a < 2 ^ n \<Longrightarrow> c < 2 ^ n \<Longrightarrow> bits_ops_UMin (bits_of_nat n a) (bits_of_nat n c) = bits_of_nat n (min a c)"
  by (simp add: bits_ops_UMin_def unsigned_compare min_def)

lemma UMax_of: "a < 2 ^ n \<Longrightarrow> c < 2 ^ n \<Longrightarrow> bits_ops_UMax (bits_of_nat n a) (bits_of_nat n c) = bits_of_nat n (max a c)"
  by (auto simp add: bits_ops_UMax_def unsigned_compare max_def)

lemma Increment_of: "a < 2 ^ n \<Longrightarrow> bits_ops_Increment (bits_of_nat n a) = bits_of_nat n (a + 1)"
  using Increment_eq [of "bits_of_nat n a"] bits_of_int_of_nat [of n "a + 1"] by (simp add: add.commute)

lemma Decrement_of: "0 < a \<Longrightarrow> a < 2 ^ n \<Longrightarrow> bits_ops_Decrement (bits_of_nat n a) = bits_of_nat n (a - 1)"
  using Decrement_eq [of "bits_of_nat n a"] bits_of_int_of_nat [of n "a - 1"] by (simp add: of_nat_diff)

lemma Overlaps_of:
  assumes "a \<le> b" "b < 2 ^ n" "c \<le> d" "d < 2 ^ n"
  shows "Interval_Overlaps (iv_of n a b) (iv_of n c d) = Some (c \<le> b \<and> a \<le> d)"
  using assms by (auto simp: Interval_Overlaps_def  unsigned_compare)

lemma Abuts_of:
  assumes "a \<le> b" "b < 2 ^ n" "c \<le> d" "d < 2 ^ n"
  shows "Interval_Abuts (iv_of n a b) (iv_of n c d) = Some (b + 1 = c \<or> d + 1 = a)"
proof -
  have ones: "Bits_IsAllOnes (bits_of_nat n v) \<longleftrightarrow> v + 1 = 2 ^ n" if "v < 2 ^ n" for v
    using that by (auto simp: Bits_IsAllOnes_iff)
  have cmp: "bits_ops_UCmp (bits_ops_Increment (bits_of_nat n v)) (bits_of_nat n w) =
      (if v + 1 > w then 1 else if v + 1 < w then - 1 else 0)" if "v + 1 < 2 ^ n" "w < 2 ^ n" for v w
    using that by (simp add: Increment_of UCmp_eq)
  have eq: "bits_ops_UEqual (bits_ops_Increment (bits_of_nat n v)) (bits_of_nat n w) \<longleftrightarrow> v + 1 = w"
    if "v + 1 < 2 ^ n" "w < 2 ^ n" for v w
    using that by (simp add: Increment_of unsigned_compare)
  have "b + 1 = 2 ^ n \<or> b + 1 < 2 ^ n" "d + 1 = 2 ^ n \<or> d + 1 < 2 ^ n" using assms by linarith+
  then show ?thesis using assms
    by (auto simp: Interval_Abuts_def  Let_def ones cmp eq)
qed

lemma ConvexHull_of:
  assumes "a \<le> b" "b < 2 ^ n" "c \<le> d" "d < 2 ^ n"
  shows "Interval_ConvexHull (iv_of n a b) (iv_of n c d) = Some (iv_of n (min a c) (max b d))"
proof (cases "n = 0")
  case True
  then show ?thesis using assms by (simp add: Interval_ConvexHull_def Interval_new_def Bits_eq_iff_uval)
next
  case False
  then show ?thesis using assms by (simp add: Interval_ConvexHull_def  UMin_of UMax_of Interval_new_of)
qed

lemma Intersect_of:
  assumes "a \<le> b" "b < 2 ^ n" "c \<le> d" "d < 2 ^ n"
  shows "Interval_Intersect (iv_of n a b) (iv_of n c d) =
    Some (if c \<le> b \<and> a \<le> d then Some (iv_of n (max a c) (min b d)) else None)"
proof -
  have "iv_lo (iv_of n (max a c) (min b d)) = max a c" "iv_hi (iv_of n (max a c) (min b d)) = min b d" using assms by simp_all
  then show ?thesis using assms
    by (auto simp: Interval_Intersect_def  UMin_of UMax_of Interval_new_of)
qed

lemma Difference_of:
  assumes "a \<le> b" "b < 2 ^ n" "c \<le> d" "d < 2 ^ n"
  shows "Interval_Difference (iv_of n a b) (iv_of n c d) =
    Some (if c \<le> b \<and> a \<le> d
          then (if a < c then [iv_of n a (c - 1)] else []) @ (if d < b then [iv_of n (d + 1) b] else [])
          else [iv_of n a b])"
  using assms
  by (auto simp: Interval_Difference_def  Intersect_of Let_def unsigned_compare
      Interval_RightOpen_def Interval_LeftOpen_def Decrement_of Increment_of Interval_new_of max_def min_def)

lemma Complement_eq:
  assumes "l \<le> h" "h < 2 ^ n"
  shows "Interval_Complement (iv_of n l h) =
    Some ((if 0 < l then [iv_of n 0 (l - 1)] else []) @ (if h + 1 < 2 ^ n then [iv_of n (h + 1) (2 ^ n - 1)] else []))"
proof -
  have p: "(2::nat) ^ n - 1 < 2 ^ n" by simp
  have e: "l \<le> 2 ^ n - 1" "h < 2 ^ n - 1 \<longleftrightarrow> h + 1 < 2 ^ n" using assms by linarith+
  show ?thesis using Difference_of [OF le0 p assms] e by (simp add: Interval_Complement_def Maximal_eq)
qed

lemma IsSubsetOf_of:
  assumes "a \<le> b" "b < 2 ^ n" "c \<le> d" "d < 2 ^ n"
  shows "Interval_IsSubsetOf (iv_of n a b) (iv_of n c d) = Some ({a..b} \<subseteq> {c..d})"
  using assms by (auto simp: Interval_IsSubsetOf_def unsigned_compare)

lemma ZeroExtend_iv:
  assumes "l < 2 ^ n" "h < 2 ^ n"
  shows "Interval_ZeroExtend (iv_of n l h) m = (if m < n then None else Some (iv_of m l h))"
  using assms by (simp add: Interval_ZeroExtend_def ZeroExtend_eq Interval_new_of)

lemma Covers_iff:
  assumes "iv_wf iv" "bm_wf p" "Bits_bit_count p = iv_width iv"
  shows "Interval_Covers iv p = Some (uval p \<in> iv_points iv)"
  using assms uval_less [of p] iv_wf_less [OF assms(1)]
  by (auto simp: Interval_Covers_def unsigned_compare iv_wf_def iv_points_def iv_lo_def iv_hi_def Interval_BitCount_def
      Interval_EnsureValid_def Interval_IsImproper_def)

lemma CoversZero_iff: "iv_wf iv \<Longrightarrow> Interval_CoversZero iv = Some (0 \<in> iv_points iv)"
  by (simp add: Interval_CoversZero_def UBits_0 Covers_iff)

lemma CoversMax_iff: "iv_wf iv \<Longrightarrow> Interval_CoversMax iv = Some (2 ^ iv_width iv - 1 \<in> iv_points iv)"
  by (simp add: Interval_CoversMax_def Covers_iff)

lemma CoversOne_iff: "iv_wf iv \<Longrightarrow> Interval_CoversOne iv = Some (1 \<in> iv_points iv)"
proof (cases "iv_width iv = 0")
  case True
  assume "iv_wf iv"
  then show ?thesis using True iv_points_less [of iv] by (auto simp: Interval_CoversOne_def)
next
  case False
  assume wf: "iv_wf iv"
  have "(1::nat) < 2 ^ iv_width iv" using False by (intro one_less_power) simp_all
  then show ?thesis using False wf Covers_iff [OF wf, of "bits_of_nat (iv_width iv) 1"] UBits_value [of 1 "iv_width iv"]
    by (simp add: Interval_CoversOne_def)
qed

lemma iv_points_single: "iv_wf iv \<Longrightarrow> (\<exists>v. iv_points iv = {v}) \<longleftrightarrow> iv_lo iv = iv_hi iv"
proof
  assume wf: "iv_wf iv" and "\<exists>v. iv_points iv = {v}"
  then obtain v where "iv_points iv = {v}" by blast
  moreover have "iv_lo iv \<in> iv_points iv" "iv_hi iv \<in> iv_points iv"
    using iv_wf_less [OF wf] by (auto simp: iv_points_def)
  ultimately show "iv_lo iv = iv_hi iv" by simp
qed (auto simp: iv_points_def)

lemma IsPrecise_iff:
  assumes wf: "iv_wf iv"
  shows "Interval_IsPrecise iv = Some (\<exists>v. iv_points iv = {v})"
proof -
  have "InlineBitmap_eq (iv_lower iv) (iv_upper iv) \<longleftrightarrow> iv_lo iv = iv_hi iv"
    using wf by (simp add: iv_wf_def InlineBitmap_eq_iff iv_lo_def iv_hi_def uval_def bl_to_nat_inject)
  moreover have "iv_lo iv = iv_hi iv" if "iv_width iv = 0" using iv_wf_less [OF wf] that by simp
  ultimately show ?thesis using wf by (auto simp: Interval_IsPrecise_def iv_points_single)
qed

lemma IsMaximal_eq: "iv_wf iv \<Longrightarrow> Interval_IsMaximal iv = Some (iv_lo iv = 0 \<and> iv_hi iv = 2 ^ iv_width iv - 1)"
  using iv_wf_less [of iv]
  by (auto simp: Interval_IsMaximal_def UBits_0 unsigned_compare iv_wf_def iv_lo_def iv_hi_def Interval_BitCount_def Interval_EnsureValid_def)

section \<open>Iteration and size\<close>

fun run_callback :: "('s \<Rightarrow> 'v \<Rightarrow> 's \<times> bool) \<Rightarrow> 's \<Rightarrow> 'v list \<Rightarrow> bool \<times> 's" where
  "run_callback cb s [] = (False, s)"
| "run_callback cb s (v # vs) =
     (let r = cb s v in if snd r then (True, fst r) else run_callback cb (fst r) vs)"

lemma run_callback_append:
  "run_callback cb s (us @ vs) =
    (let r = run_callback cb s us in if fst r then r else run_callback cb (snd r) vs)"
  by (induction us arbitrary: s) (auto simp: Let_def)

lemma run_callback_collect: "run_callback (\<lambda>vs v. (vs @ [v], False)) us vs = (False, us @ vs)"
  by (induction vs arbitrary: us) (simp_all add: Let_def)

definition iv_order :: "Interval \<Rightarrow> nat list" where
  "iv_order iv = (if iv_lo iv \<le> iv_hi iv then [iv_lo iv..<Suc (iv_hi iv)]
     else [iv_lo iv..<2 ^ iv_width iv] @ [0..<Suc (iv_hi iv)])"

lemma iv_order_set: "set (iv_order iv) = iv_points iv"
  by (auto simp: iv_order_def iv_points_def)

lemma iv_order_distinct: "distinct (iv_order iv)"
  by (auto simp: iv_order_def)

lemma for_each_upto_eq:
  assumes "v \<le> l" "l < 2 ^ n"
  shows "for_each_upto cb (bits_of_nat n v) (bits_of_nat n l) s =
    Some (run_callback cb s (map (bits_of_nat n) [v..<Suc l]))"
  using assms
proof (induction "l - v" arbitrary: v s)
  case 0
  then have "v = l" by simp
  with 0 show ?case
    by (simp add: for_each_upto_def for_each_below.simps unsigned_compare Let_def)
next
  case (Suc k)
  then have v: "v < l" by simp
  have m: "map (bits_of_nat n) [v..<Suc l] = bits_of_nat n v # map (bits_of_nat n) [Suc v..<Suc l]"
    using v by (simp add: upt_conv_Cons del: upt_Suc)
  have i: "bits_ops_Increment (bits_of_nat n v) = bits_of_nat n (Suc v)" using Increment_of [of v n] v Suc.prems by simp
  have lt: "bits_ops_ULessThan (bits_of_nat n v) (bits_of_nat n l)" using v Suc.prems by (simp add: unsigned_compare)
  have "for_each_upto cb (bits_of_nat n v) (bits_of_nat n l) s =
      (let r = cb s (bits_of_nat n v) in if snd r then Some (True, fst r)
       else for_each_upto cb (bits_of_nat n (Suc v)) (bits_of_nat n l) (fst r))"
    unfolding for_each_upto_def for_each_below.simps [of cb "bits_of_nat n v"] using lt i by (simp add: Let_def)
  moreover have "for_each_upto cb (bits_of_nat n (Suc v)) (bits_of_nat n l) s' =
      Some (run_callback cb s' (map (bits_of_nat n) [Suc v..<Suc l]))" for s'
    using Suc.hyps(1) [of "Suc v"] Suc.hyps(2) v Suc.prems by simp
  ultimately show ?case unfolding m by (simp add: Let_def)
qed

lemma ForEachElement_eq:
  assumes "iv_wf iv"
  shows "Interval_ForEachElement cb iv s = Some (run_callback cb s (map (bits_of_nat (iv_width iv)) (iv_order iv)))"
proof -
  let ?n = "iv_width iv"
  note b = iv_wf_less [OF assms]
  have e: "iv_lower iv = bits_of_nat ?n (iv_lo iv)" "iv_upper iv = bits_of_nat ?n (iv_hi iv)"
    using iv_of_eq [OF assms] by (metis iv_of_simps(2), metis iv_of_simps(3))
  have z: "UBits 0 ?n = Some (bits_of_nat ?n 0)" "Bits_AllOnes ?n = bits_of_nat ?n (2 ^ ?n - 1)"
    by (simp_all add: UBits_0 Bits_eq_iff_uval)
  have v: "Interval_EnsureValid iv = Some ()" using assms by (simp add: Interval_EnsureValid_def iv_wf_def)
  have p: "Suc (2 ^ ?n - 1) = 2 ^ ?n" by simp
  have ue: "bits_ops_UEqual (iv_lower iv) (iv_upper iv) \<longleftrightarrow> iv_lo iv = iv_hi iv"
    using assms by (simp add: unsigned_compare iv_wf_def iv_lo_def iv_hi_def)
  consider "iv_lo iv = iv_hi iv" | "iv_lo iv < iv_hi iv" | "iv_hi iv < iv_lo iv" by linarith
  then show ?thesis
  proof cases
    case 1
    then have "map (bits_of_nat ?n) (iv_order iv) = [iv_lower iv]" using e(1) by (simp add: iv_order_def)
    then show ?thesis using 1 v ue by (simp add: Interval_ForEachElement_def Let_def)
  next
    case 2
    then show ?thesis using v ue assms b for_each_upto_eq [of "iv_lo iv" "iv_hi iv" ?n cb s]
      by (simp add: Interval_ForEachElement_def iv_order_def flip: e)
  next
    case 3
    have hi: "for_each_upto cb (iv_lower iv) (Bits_AllOnes ?n) s =
        Some (run_callback cb s (map (bits_of_nat ?n) [iv_lo iv..<2 ^ ?n]))"
      using for_each_upto_eq [of "iv_lo iv" "2 ^ ?n - 1" ?n cb s] b(1) unfolding p z(2) e(1) [symmetric] by simp
    have lo: "for_each_upto cb (bits_of_nat ?n 0) (iv_upper iv) s' =
        Some (run_callback cb s' (map (bits_of_nat ?n) [0..<Suc (iv_hi iv)]))" for s'
      using for_each_upto_eq [of 0 "iv_hi iv" ?n cb s'] b(2) unfolding e(2) [symmetric] by simp
    have ne: "\<not> bits_ops_UEqual (iv_lower iv) (iv_upper iv)" using ue 3 by simp
    have o: "iv_order iv = [iv_lo iv..<2 ^ ?n] @ [0..<Suc (iv_hi iv)]" using 3 by (simp add: iv_order_def)
    have imp: "Interval_IsImproper iv = Some True" using 3 assms by simp
    show ?thesis
      unfolding Interval_ForEachElement_def v Option.bind.simps imp BitCount_wf [OF assms] o map_append run_callback_append Let_def
      using ne hi lo z(1) by (simp del: upt_Suc)
  qed
qed

lemma Elements_eq: "iv_wf iv \<Longrightarrow> Interval_Elements iv = Some (map (bits_of_nat (iv_width iv)) (iv_order iv))"
  by (simp add: Interval_Elements_def ForEachElement_eq run_callback_collect)

lemma SizeBits_proper:
  assumes "bignum_spec B val" "l \<le> h" "h < 2 ^ n"
  shows "Interval_SizeBits B (iv_of n l h) = Some (bits_of_nat (n + 1) (h - l + 1))"
proof -
  have "bits_ops_Sub B (bits_of_nat n h) (bits_of_nat n l) = Some (bits_of_nat n (h - l))"
    using Sub_eq(2) [OF assms(1), of "bits_of_nat n h" "bits_of_nat n l"] assms(2,3) bits_of_int_of_nat [of n "h - l"]
    by (simp add: of_nat_diff)
  moreover have "bits_ops_ZeroExtend (bits_of_nat n (h - l)) (n + 1) = Some (bits_of_nat (n + 1) (h - l))"
    using assms(2,3) by (simp add: ZeroExtend_eq)
  moreover have "bits_ops_Increment (bits_of_nat (n + 1) (h - l)) = bits_of_nat (n + 1) (h - l + 1)"
    using assms(2,3) by (intro Increment_of) simp
  ultimately show ?thesis
    using assms(2,3) by (subst Interval_SizeBits.simps) (simp add: unsigned_compare)
qed

lemma iv_points_card:
  "iv_wf iv \<Longrightarrow> card (iv_points iv) =
    (if iv_lo iv \<le> iv_hi iv then iv_hi iv - iv_lo iv + 1 else (2 ^ iv_width iv - iv_lo iv) + (iv_hi iv + 1))"
proof (cases "iv_lo iv \<le> iv_hi iv")
  case False
  then have "{iv_lo iv..<2 ^ iv_width iv} \<inter> {..iv_hi iv} = {}" by auto
  then show ?thesis using False by (simp add: iv_points_def card_Un_disjoint)
qed (simp add: iv_points_def)

lemma iv_points_card_less: "iv_wf iv \<Longrightarrow> card (iv_points iv) < 2 ^ (iv_width iv + 1)"
  using iv_wf_less [of iv] by (auto simp: iv_points_card)

text \<open>The size is exact at one more bit than the width, for improper intervals too.\<close>

lemma SizeBits_eq:
  assumes "bignum_spec B val" "iv_wf iv"
  shows "Interval_SizeBits B iv = Some (bits_of_nat (iv_width iv + 1) (card (iv_points iv)))"
proof (cases "iv_lo iv \<le> iv_hi iv")
  case True
  then show ?thesis
    using SizeBits_proper [OF assms(1) True iv_wf_less(2) [OF assms(2)]] iv_of_eq [OF assms(2)] iv_points_card [OF assms(2)] by simp
next
  case False
  let ?n = "iv_width iv" and ?l = "iv_lo iv" and ?h = "iv_hi iv"
  note b = iv_wf_less [OF assms(2)]
  have e: "iv_lower iv = bits_of_nat ?n ?l" "iv_upper iv = bits_of_nat ?n ?h"
    using iv_of_eq [OF assms(2)] by (metis iv_of_simps(2), metis iv_of_simps(3))
  have z: "UBits 0 ?n = Some (bits_of_nat ?n 0)" "Bits_AllOnes ?n = bits_of_nat ?n (2 ^ ?n - 1)"
    by (simp_all add: UBits_0 Bits_eq_iff_uval)
  have gt: "bits_ops_UGreaterThan (iv_lower iv) (iv_upper iv)"
    using False assms(2) by (simp add: unsigned_compare iv_wf_def iv_lo_def iv_hi_def)
  have n1: "Interval_new (iv_lower iv) (Bits_AllOnes ?n) = Some (iv_of ?n ?l (2 ^ ?n - 1))"
    "Interval_new (bits_of_nat ?n 0) (iv_upper iv) = Some (iv_of ?n 0 ?h)"
    by (metis e(1) z(2) Interval_new_of, metis e(2) Interval_new_of)
  have s1: "Interval_SizeBits B (iv_of ?n ?l (2 ^ ?n - 1)) = Some (bits_of_nat (?n + 1) (2 ^ ?n - 1 - ?l + 1))"
    using b by (intro SizeBits_proper [OF assms(1)]) auto
  have s2: "Interval_SizeBits B (iv_of ?n 0 ?h) = Some (bits_of_nat (?n + 1) (?h - 0 + 1))"
    using b by (intro SizeBits_proper [OF assms(1)]) auto
  have lt: "2 ^ ?n - 1 - ?l + 1 < 2 ^ (?n + 1)" "?h - 0 + 1 < 2 ^ (?n + 1)"
    "2 ^ ?n - 1 - ?l + 1 + (?h - 0 + 1) = card (iv_points iv)"
    using b False iv_points_card [OF assms(2)] by auto
  have "bits_ops_Add B (bits_of_nat (?n + 1) (2 ^ ?n - 1 - ?l + 1)) (bits_of_nat (?n + 1) (?h - 0 + 1)) =
      Some (bits_of_nat (?n + 1) (card (iv_points iv)))"
    using Add_eq(2) [OF assms(1), of "bits_of_nat (?n + 1) (2 ^ ?n - 1 - ?l + 1)" "bits_of_nat (?n + 1) (?h - 0 + 1)"]
      lt by (simp del: add_Suc_right)
  then show ?thesis
    using gt n1 s1 s2 z(1) assms(2) by (subst Interval_SizeBits.simps) simp
qed

lemma Size_eq:
  assumes "bignum_spec B val" "iv_wf iv"
  shows "Interval_Size B iv = Some (if card (iv_points iv) < 2 ^ 63 then Some (card (iv_points iv)) else None)"
proof -
  let ?c = "card (iv_points iv)" and ?s = "bits_of_nat (iv_width iv + 1) (card (iv_points iv))"
  have u: "uval ?s = ?c" using iv_points_card_less [OF assms(2)] by simp
  show ?thesis
  proof (cases "?c < 2 ^ 64")
    case True
    then obtain w where w: "Bits_ToUint64 ?s = Inr w" "unat w = ?c" using ToUint64_correct(1) [of ?s] u by auto
    have "w > 0x7FFFFFFFFFFFFFFF \<longleftrightarrow> \<not> ?c < 2 ^ 63" using w(2) by (auto simp: word_less_nat_alt not_less)
    then show ?thesis using SizeBits_eq [OF assms] w by (simp add: Interval_Size_def)
  next
    case False
    then show ?thesis using SizeBits_eq [OF assms] ToUint64_correct(2) [of ?s] u by (simp add: Interval_Size_def)
  qed
qed

section \<open>Masks and order\<close>

lemma common_prefix_covers:
  fixes l h :: nat
  assumes "l \<le> h" "\<And>i. k \<le> i \<Longrightarrow> bit l i = bit h i" "0 < k \<Longrightarrow> bit l (k - 1) \<noteq> bit h (k - 1)"
  shows "i < k \<or> bit l i \<longleftrightarrow> (\<exists>v \<in> {l..h}. bit v i)"
proof -
  have pre: "l div 2 ^ k = h div 2 ^ k"
    using assms(2) by (intro bit_eqI) (simp add: bit_drop_bit_eq flip: drop_bit_eq_div)
  have same: "bit v i = bit l i" if "v \<in> {l..h}" "k \<le> i" for v
  proof -
    have "l div 2 ^ k = v div 2 ^ k" using that(1) pre by (metis atLeastAtMost_iff div_le_mono le_antisym)
    then have "bit (l div 2 ^ k) (i - k) = bit (v div 2 ^ k) (i - k)" by simp
    then show ?thesis using that(2) by (simp add: bit_drop_bit_eq flip: drop_bit_eq_div)
  qed
  show ?thesis
  proof (cases "i < k")
    case False
    then have k: "k \<le> i" by simp
    have "l \<in> {l..h}" using assms(1) by simp
    then have "(\<exists>v \<in> {l..h}. bit v i) \<longleftrightarrow> bit l i" using same [OF _ k] by blast
    with False show ?thesis by simp
  next
    case True
    then obtain m where m: "k = Suc m" by (cases k) auto
    define q where "q = h div 2 ^ k"
    have split: "v = 2 ^ k * (v div 2 ^ k) + of_bool (bit v m) * 2 ^ m + v mod 2 ^ m" for v :: nat
    proof -
      have "v div 2 ^ m = 2 * (v div 2 ^ k) + of_bool (bit v m)"
        unfolding m power_Suc2 div_mult2_eq by (simp add: bit_iff_odd mod_2_eq_odd [symmetric])
      then have "2 ^ m * (v div 2 ^ m) = 2 ^ k * (v div 2 ^ k) + of_bool (bit v m) * 2 ^ m"
        unfolding m by (simp add: algebra_simps)
      then show ?thesis using mult_div_mod_eq [of "2 ^ m" v] by linarith
    qed
    have l1: "l mod 2 ^ m < 2 ^ m" "h mod 2 ^ m < 2 ^ m" by simp_all
    have le: "of_bool (bit l m) * 2 ^ m + l mod 2 ^ m \<le> of_bool (bit h m) * 2 ^ m + h mod 2 ^ m"
      using split [of l] split [of h] assms(1) unfolding pre by linarith
    have hm: "bit h m" "\<not> bit l m" using le l1 assms(3) m by (cases "bit l m"; cases "bit h m"; simp)+
    show ?thesis
    proof (cases "i = m")
      case True
      then show ?thesis using hm(1) assms(1) \<open>i < k\<close> by auto
    next
      case False
      define v where "v = 2 ^ k * q + (2 ^ m - 1)"
      have "l = 2 ^ k * q + l mod 2 ^ m" "h = 2 ^ k * q + 2 ^ m + h mod 2 ^ m"
        using split [of l] split [of h] hm pre unfolding q_def by simp_all
      moreover have "l mod 2 ^ m \<le> 2 ^ m - 1" using l1(1) by linarith
      ultimately have "l \<le> v" "v \<le> h" unfolding v_def by linarith+
      moreover have "bit v i"
      proof -
        have "v = (2 ^ m - 1) + 2 ^ m * (2 * q)" unfolding v_def m by simp
        then show ?thesis using bit_add_shifted [of "2 ^ m - 1" m "2 * q" i] True False m bit_mask_iff [of m i, where 'a = nat]
          by (simp add: mask_eq_exp_minus_1)
      qed
      ultimately show ?thesis using True by (auto intro!: bexI [of _ v])
    qed
  qed
qed

text \<open>For proper intervals the test with a mask is exact.\<close>

lemma IsTrueWhenAndWith_proper:
  assumes "l \<le> h" "h < 2 ^ n" "bm_wf v" "Bits_bit_count v = n"
  shows "Interval_IsTrueWhenAndWith (iv_of n l h) v = Some (\<exists>x \<in> {l..h}. x AND uval v \<noteq> 0)"
proof -
  let ?l = "bits_of_nat n l" and ?h = "bits_of_nat n h"
  have "list_all (\<lambda>c. Bits_bit_count c = Bits_bit_count ?l) [?l, ?h]" by simp
  from LongestCommonPrefixMSB_eq [OF bits_of_nat_simps(1) this] obtain k where k: "k \<le> n"
    "bits_ops_LongestCommonPrefixMSB [?l, ?h] = Some (Bits_of_span (drop k (bm_bits ?l)))"
    "\<And>i. k \<le> i \<Longrightarrow> i < n \<Longrightarrow> agree_at ?l [?h] i" "0 < k \<Longrightarrow> \<not> agree_at ?l [?h] (k - 1)" by auto
  have ag: "agree_at ?l [?h] i \<longleftrightarrow> bit l i = bit h i" if "i < n" for i
    using that by (auto simp: agree_at_def simp del: bm_bits_nth)
  have hi: "\<not> bit l i \<and> \<not> bit h i" if "n \<le> i" for i
    using that assms(1,2) nat_less_exp_iff_bits [of h n] nat_less_exp_iff_bits [of l n] by simp
  have eq: "bit l i = bit h i" if "k \<le> i" for i using k(3) [OF that] ag [of i] hi [of i] by (cases "i < n") auto
  have ne: "bit l (k - 1) \<noteq> bit h (k - 1)" if "0 < k" using k(4) [OF that] ag [of "k - 1"] that k(1) by simp
  let ?p = "Bits_of_span (drop k (bm_bits ?l))"
  obtain r where r: "BitsRope_Build (BitsRope_push_back (BitsRope_push_back (BitsRope_new n) (Bits_AllOnes k)) ?p) = Some r"
      "bm_wf r" "bm_bits r = replicate k True @ drop k (nat_to_bl n l)"
    using rope_two [of "Bits_AllOnes k" ?p n] k(1) by auto
  have cr: "Bits_bit_count r = n" using r(3) k(1) length_bm_bits [of r] by (simp del: length_bm_bits)
  let ?m = "Bits_of_span (map2 (\<and>) (bm_bits r) (bm_bits v))"
  have m: "bits_ops_And r v = Some ?m" using and_op.pointwise [OF r(2) assms(3)] cr assms(4) by simp
  have "\<not> Bits_IsZero ?m \<longleftrightarrow> (\<exists>i < n. (i < k \<or> bit l i) \<and> bm_bits v ! i)"
  proof -
    have "\<not> Bits_IsZero ?m \<longleftrightarrow> (\<exists>i < n. bm_bits r ! i \<and> bm_bits v ! i)"
      using cr assms(4) length_bm_bits [of v] length_bm_bits [of r]
      by (auto simp: Bits_IsZero_iff bl_to_nat_eq_0_iff set_zip simp del: bm_bits_nth length_bm_bits)
    moreover have "bm_bits r ! i \<longleftrightarrow> i < k \<or> bit l i" if "i < n" for i
      unfolding r(3) using that k(1) by (simp add: nth_append)
    ultimately show ?thesis by blast
  qed
  also have "\<dots> \<longleftrightarrow> (\<exists>i. (\<exists>x \<in> {l..h}. bit x i) \<and> bit (uval v) i)"
  proof -
    have "(i < k \<or> bit l i) = (\<exists>x \<in> {l..h}. bit x i)" for i by (rule common_prefix_covers [OF assms(1) eq ne])
    then show ?thesis unfolding bit_uval assms(4) by (intro iff_exI) (simp, blast)
  qed
  also have "\<dots> \<longleftrightarrow> (\<exists>x \<in> {l..h}. x AND uval v \<noteq> 0)"
  proof -
    have "x AND uval v \<noteq> 0 \<longleftrightarrow> (\<exists>i. bit x i \<and> bit (uval v) i)" for x
      by (metis bit_and_iff bit_eqI bit_0_eq bot_apply bot_bool_def)
    then show ?thesis by blast
  qed
  finally show ?thesis using assms k(1,2) r(1) m by (simp add: Interval_IsTrueWhenAndWith_def Let_def)
qed

lemma cmp_of:
  assumes "a < 2 ^ n" "b < 2 ^ n" "c < 2 ^ n" "d < 2 ^ n"
  shows "Interval_less (iv_of n a b) (iv_of n c d) \<longleftrightarrow> a < c \<or> (a = c \<and> b < d)"
    "Interval_eq (iv_of n a b) (iv_of n c d) \<longleftrightarrow> a = c \<and> b = d"
  using assms by (auto simp: Interval_less_def Interval_eq_def Interval_cmp_def UCmp_eq Let_def)

end
