(* ===== verification/Interval_Set_Core.thy ===== *)
theory Interval_Set_Core
  imports Interval_Core "HOL-Library.Product_Lexorder"
begin

text \<open>
  Models \<open>xls/ir/interval_set.h\<close> and \<open>xls/ir/interval_set.cc\<close>: sets of bit vectors of one
  width, kept as a list of intervals with a flag that says whether the list is normalized (proper intervals in
  increasing order, no two of which overlap or abut). The lemmas show that the flag can be trusted in every
  state the operations produce, that normalization keeps the set and is canonical, and that union,
  intersection and complement compute those of the sets. The loop of \<open>Intersect\<close> inserts pieces
  into the lists it walks over; that it ends is part of its lemma.
\<close>

section \<open>The class\<close>

record IntervalSet =
  is_is_normalized :: bool
  is_bit_count :: int
  is_intervals :: "Interval list"

definition IntervalSet_default :: IntervalSet where
  "IntervalSet_default = \<lparr>is_is_normalized = True, is_bit_count = - 1, is_intervals = []\<rparr>"

definition IntervalSet_new :: "nat \<Rightarrow> IntervalSet" where
  "IntervalSet_new bit_count = \<lparr>is_is_normalized = True, is_bit_count = int bit_count, is_intervals = []\<rparr>"

definition IntervalSet_NumberOfIntervals :: "IntervalSet \<Rightarrow> nat" where
  "IntervalSet_NumberOfIntervals s = length (is_intervals s)"

definition IntervalSet_Intervals :: "IntervalSet \<Rightarrow> Interval list option" where
  "IntervalSet_Intervals s = (if is_is_normalized s then Some (is_intervals s) else None)"

definition IntervalSet_BitCount :: "IntervalSet \<Rightarrow> nat option" where
  "IntervalSet_BitCount s = (if is_bit_count s \<ge> 0 then Some (nat (is_bit_count s)) else None)"

definition IntervalSet_AddInterval :: "IntervalSet \<Rightarrow> Interval \<Rightarrow> IntervalSet option" where
  "IntervalSet_AddInterval s iv = do {
     n \<leftarrow> IntervalSet_BitCount s;
     m \<leftarrow> Interval_BitCount iv;
     if n \<noteq> m then None
     else Some (s\<lparr>is_is_normalized := False, is_intervals := is_intervals s @ [iv]\<rparr>)
   }"

fun add_intervals :: "IntervalSet \<Rightarrow> Interval list \<Rightarrow> IntervalSet option" where
  "add_intervals s [] = Some s"
| "add_intervals s (iv # ivs) = do { s' \<leftarrow> IntervalSet_AddInterval s iv; add_intervals s' ivs }"

definition IntervalSet_Maximal :: "nat \<Rightarrow> IntervalSet option" where
  "IntervalSet_Maximal bit_count = do {
     m \<leftarrow> Interval_Maximal bit_count;
     s \<leftarrow> IntervalSet_AddInterval (IntervalSet_new bit_count) m;
     Some (s\<lparr>is_is_normalized := True\<rparr>)
   }"

definition IntervalSet_NonZero :: "nat \<Rightarrow> IntervalSet option" where
  "IntervalSet_NonZero bit_count = do {
     one \<leftarrow> UBits 1 bit_count;
     iv \<leftarrow> Interval_new one (Bits_AllOnes bit_count);
     s \<leftarrow> IntervalSet_AddInterval (IntervalSet_new bit_count) iv;
     Some (s\<lparr>is_is_normalized := True\<rparr>)
   }"

definition IntervalSet_Precise :: "Bits \<Rightarrow> IntervalSet option" where
  "IntervalSet_Precise bits = do {
     iv \<leftarrow> Interval_Precise bits;
     s \<leftarrow> IntervalSet_AddInterval (IntervalSet_new (Bits_bit_count bits)) iv;
     Some (s\<lparr>is_is_normalized := True\<rparr>)
   }"

definition IntervalSet_SetIntervals :: "IntervalSet \<Rightarrow> Interval list \<Rightarrow> IntervalSet option" where
  "IntervalSet_SetIntervals s intervals =
     (case intervals of
        [] \<Rightarrow> Some \<lparr>is_is_normalized = False, is_bit_count = - 1, is_intervals = []\<rparr>
      | iv # _ \<Rightarrow> do {
          n \<leftarrow> Interval_BitCount iv;
          add_intervals \<lparr>is_is_normalized = False, is_bit_count = int n, is_intervals = []\<rparr> intervals
        })"

section \<open>Normalization\<close>

fun expand_improper :: "Bits \<Rightarrow> Bits \<Rightarrow> Interval list \<Rightarrow> Interval list option" where
  "expand_improper zero mx [] = Some []"
| "expand_improper zero mx (iv # ivs) = do {
     improper \<leftarrow> Interval_IsImproper iv;
     rest \<leftarrow> expand_improper zero mx ivs;
     if improper then do {
       low \<leftarrow> Interval_new zero (iv_upper iv);
       high \<leftarrow> Interval_new (iv_lower iv) mx;
       Some (low # high # rest)
     }
     else Some (iv # rest)
   }"

text \<open>\<open>std::sort\<close> with the order of intervals.\<close>

fun insert_sorted :: "Interval \<Rightarrow> Interval list \<Rightarrow> Interval list" where
  "insert_sorted x [] = [x]"
| "insert_sorted x (y # ys) = (if Interval_less y x then y # insert_sorted x ys else x # y # ys)"

definition sort_intervals :: "Interval list \<Rightarrow> Interval list" where
  "sort_intervals ivs = foldr insert_sorted ivs []"

text \<open>The merging loops: the interval being grown, and the sorted intervals still to come.\<close>

fun merge_sorted :: "Interval \<Rightarrow> Interval list \<Rightarrow> Interval list option" where
  "merge_sorted iv [] = Some [iv]"
| "merge_sorted iv (x # xs) = do {
     overlaps \<leftarrow> Interval_Overlaps iv x;
     joins \<leftarrow> (if overlaps then Some True else Interval_Abuts iv x);
     if joins then do { hull \<leftarrow> Interval_ConvexHull iv x; merge_sorted hull xs }
     else do { rest \<leftarrow> merge_sorted x xs; Some (iv # rest) }
   }"

definition IntervalSet_Normalize :: "IntervalSet \<Rightarrow> IntervalSet option" where
  "IntervalSet_Normalize s =
     (if is_is_normalized s then Some s
      else do {
        fast \<leftarrow> (case is_intervals s of [iv] \<Rightarrow> map_option Not (Interval_IsImproper iv) | _ \<Rightarrow> Some False);
        if fast then Some (s\<lparr>is_is_normalized := True\<rparr>)
        else do {
          n \<leftarrow> IntervalSet_BitCount s;
          expanded \<leftarrow> expand_improper (Bits_new n) (Bits_AllOnes n) (is_intervals s);
          merged \<leftarrow> (case sort_intervals expanded of [] \<Rightarrow> Some [] | iv # ivs \<Rightarrow> merge_sorted iv ivs);
          Some (s\<lparr>is_intervals := merged, is_is_normalized := True\<rparr>)
        }
      })"

section \<open>Queries and combinations\<close>

definition IntervalSet_LowerBound :: "IntervalSet \<Rightarrow> Bits option option" where
  "IntervalSet_LowerBound s =
     (if is_bit_count s < 0 then None
      else if is_is_normalized s
      then Some (case is_intervals s of [] \<Rightarrow> None | iv # _ \<Rightarrow> Some (iv_lower iv))
      else Some (fold (\<lambda>iv lower. case lower of
                         Some l \<Rightarrow> if bits_ops_ULessThan (iv_lower iv) l then Some (iv_lower iv) else Some l
                       | None \<Rightarrow> Some (iv_lower iv)) (is_intervals s) None))"

definition IntervalSet_UpperBound :: "IntervalSet \<Rightarrow> Bits option option" where
  "IntervalSet_UpperBound s =
     (if is_bit_count s < 0 then None
      else if is_is_normalized s
      then Some (case is_intervals s of [] \<Rightarrow> None | _ \<Rightarrow> Some (iv_upper (last (is_intervals s))))
      else Some (fold (\<lambda>iv upper. case upper of
                         Some u \<Rightarrow> if bits_ops_UGreaterThan (iv_upper iv) u then Some (iv_upper iv) else Some u
                       | None \<Rightarrow> Some (iv_upper iv)) (is_intervals s) None))"

definition IntervalSet_ConvexHull :: "IntervalSet \<Rightarrow> Interval option option" where
  "IntervalSet_ConvexHull s = do {
     lower \<leftarrow> IntervalSet_LowerBound s;
     upper \<leftarrow> IntervalSet_UpperBound s;
     case (lower, upper) of
       (Some l, Some u) \<Rightarrow> map_option Some (Interval_new l u)
     | _ \<Rightarrow> Some None
   }"

fun zero_extend_intervals :: "IntervalSet \<Rightarrow> nat \<Rightarrow> Interval list \<Rightarrow> IntervalSet option" where
  "zero_extend_intervals s bit_width [] = Some s"
| "zero_extend_intervals s bit_width (iv # ivs) = do {
     x \<leftarrow> Interval_ZeroExtend iv bit_width;
     s' \<leftarrow> IntervalSet_AddInterval s x;
     zero_extend_intervals s' bit_width ivs
   }"

definition IntervalSet_ZeroExtend :: "IntervalSet \<Rightarrow> nat \<Rightarrow> IntervalSet option" where
  "IntervalSet_ZeroExtend s bit_width = do {
     n \<leftarrow> IntervalSet_BitCount s;
     if bit_width < n then None
     else do {
       ivs \<leftarrow> IntervalSet_Intervals s;
       r \<leftarrow> zero_extend_intervals (IntervalSet_new bit_width) bit_width ivs;
       IntervalSet_Normalize r
     }
   }"

fun for_each_interval ::
    "('s \<Rightarrow> Bits \<Rightarrow> 's \<times> bool) \<Rightarrow> Interval list \<Rightarrow> 's \<Rightarrow> (bool \<times> 's) option" where
  "for_each_interval callback [] st = Some (False, st)"
| "for_each_interval callback (iv # ivs) st = do {
     r \<leftarrow> Interval_ForEachElement callback iv st;
     if fst r then Some r else for_each_interval callback ivs (snd r)
   }"

definition IntervalSet_ForEachElement ::
    "('s \<Rightarrow> Bits \<Rightarrow> 's \<times> bool) \<Rightarrow> IntervalSet \<Rightarrow> 's \<Rightarrow> (bool \<times> 's) option" where
  "IntervalSet_ForEachElement callback s st =
     (if \<not> is_is_normalized s then None else for_each_interval callback (is_intervals s) st)"

definition IntervalSet_IsEmpty :: "IntervalSet \<Rightarrow> bool option" where
  "IntervalSet_IsEmpty s = (if \<not> is_is_normalized s then None else Some (is_intervals s = []))"

fun any_interval :: "(Interval \<Rightarrow> bool option) \<Rightarrow> Interval list \<Rightarrow> bool option" where
  "any_interval p [] = Some False"
| "any_interval p (iv # ivs) = do { b \<leftarrow> p iv; if b then Some True else any_interval p ivs }"

definition IntervalSet_IsMaximal :: "IntervalSet \<Rightarrow> bool option" where
  "IntervalSet_IsMaximal s =
     (if \<not> is_is_normalized s \<or> is_bit_count s < 0 then None
      else any_interval Interval_IsMaximal (is_intervals s))"

fun Disjoint_loop :: "Interval list \<Rightarrow> Interval list \<Rightarrow> bool option" where
  "Disjoint_loop (l # ls) (r # rs) = do {
     overlaps \<leftarrow> Interval_Overlaps l r;
     if overlaps then Some False
     else if Interval_less l r then Disjoint_loop ls (r # rs)
     else Disjoint_loop (l # ls) rs
   }"
| "Disjoint_loop _ _ = Some True"

definition IntervalSet_Disjoint :: "IntervalSet \<Rightarrow> IntervalSet \<Rightarrow> bool option" where
  "IntervalSet_Disjoint lhs rhs =
     (if \<not> (is_is_normalized lhs \<and> is_is_normalized rhs) then None
      else do {
        le \<leftarrow> IntervalSet_IsEmpty lhs;
        re \<leftarrow> IntervalSet_IsEmpty rhs;
        if le \<or> re then Some True
        else do {
          lm \<leftarrow> IntervalSet_IsMaximal lhs;
          rm \<leftarrow> IntervalSet_IsMaximal rhs;
          if lm \<or> rm then Some False
          else do {
            lc \<leftarrow> IntervalSet_ConvexHull lhs;
            rc \<leftarrow> IntervalSet_ConvexHull rhs;
            lhs_convex \<leftarrow> lc;
            rhs_convex \<leftarrow> rc;
            d \<leftarrow> Interval_Disjoint lhs_convex rhs_convex;
            if d then Some True
            else do {
              ls \<leftarrow> IntervalSet_Intervals lhs;
              rs \<leftarrow> IntervalSet_Intervals rhs;
              Disjoint_loop ls rs
            }
          }
        }
      })"

definition IntervalSet_Combine :: "IntervalSet \<Rightarrow> IntervalSet \<Rightarrow> IntervalSet option" where
  "IntervalSet_Combine lhs rhs = do {
     n \<leftarrow> IntervalSet_BitCount lhs;
     m \<leftarrow> IntervalSet_BitCount rhs;
     if n \<noteq> m then None
     else do {
       s \<leftarrow> add_intervals (IntervalSet_new n) (is_intervals lhs);
       combined \<leftarrow> add_intervals s (is_intervals rhs);
       IntervalSet_Normalize combined
     }
   }"

text \<open>
  The loop of \<open>Intersect\<close>, with the two lists from the current positions on. The difference is
  inserted, in order, before the interval it was taken from, which stays in its list; the next position is
  the first inserted piece.
\<close>

partial_function (option) Intersect_loop ::
    "Interval list \<Rightarrow> Interval list \<Rightarrow> IntervalSet \<Rightarrow> IntervalSet option" where
  "Intersect_loop ls rs s =
     (case (ls, rs) of
        (l # ls', r # rs') \<Rightarrow> do {
          intersection \<leftarrow> Interval_Intersect l r;
          if bits_ops_ULessThan (iv_upper l) (iv_upper r) then
            (case intersection of
               None \<Rightarrow> Intersect_loop ls' rs s
             | Some i \<Rightarrow> do {
                 s' \<leftarrow> IntervalSet_AddInterval s i;
                 difference \<leftarrow> Interval_Difference r l;
                 Intersect_loop ls' (difference @ rs) s'
               })
          else if bits_ops_ULessThan (iv_upper r) (iv_upper l) then
            (case intersection of
               None \<Rightarrow> Intersect_loop ls rs' s
             | Some i \<Rightarrow> do {
                 s' \<leftarrow> IntervalSet_AddInterval s i;
                 difference \<leftarrow> Interval_Difference l r;
                 Intersect_loop (difference @ ls) rs' s'
               })
          else if bits_ops_UEqual (iv_upper l) (iv_upper r) then
            (case intersection of
               None \<Rightarrow> Intersect_loop ls' rs' s
             | Some i \<Rightarrow> do { s' \<leftarrow> IntervalSet_AddInterval s i; Intersect_loop ls' rs' s' })
          else Intersect_loop ls rs s
        }
      | _ \<Rightarrow> Some s)"

definition IntervalSet_Intersect :: "IntervalSet \<Rightarrow> IntervalSet \<Rightarrow> IntervalSet option" where
  "IntervalSet_Intersect lhs rhs = do {
     n \<leftarrow> IntervalSet_BitCount lhs;
     m \<leftarrow> IntervalSet_BitCount rhs;
     if n \<noteq> m then None
     else do {
       ls \<leftarrow> IntervalSet_Intervals lhs;
       rs \<leftarrow> IntervalSet_Intervals rhs;
       s \<leftarrow> Intersect_loop ls rs (IntervalSet_new n);
       IntervalSet_Normalize s
     }
   }"

definition IntervalSet_Of :: "Interval list \<Rightarrow> IntervalSet option" where
  "IntervalSet_Of intervals =
     (case intervals of
        [] \<Rightarrow> None
      | iv # _ \<Rightarrow> do {
          n \<leftarrow> Interval_BitCount iv;
          s \<leftarrow> add_intervals (IntervalSet_new n) intervals;
          IntervalSet_Normalize s
        })"

fun Complement_loop :: "nat \<Rightarrow> Interval list \<Rightarrow> IntervalSet \<Rightarrow> IntervalSet option" where
  "Complement_loop n [] s = Some s"
| "Complement_loop n (iv # ivs) s = do {
     complement \<leftarrow> Interval_Complement iv;
     c \<leftarrow> add_intervals (IntervalSet_new n) complement;
     complement_set \<leftarrow> IntervalSet_Normalize c;
     s' \<leftarrow> IntervalSet_Intersect s complement_set;
     Complement_loop n ivs s'
   }"

definition IntervalSet_Complement :: "IntervalSet \<Rightarrow> IntervalSet option" where
  "IntervalSet_Complement s = do {
     n \<leftarrow> IntervalSet_BitCount s;
     m \<leftarrow> IntervalSet_Maximal n;
     ivs \<leftarrow> IntervalSet_Intervals s;
     Complement_loop n ivs m
   }"

text \<open>The sum of the sizes is an \<open>int64_t\<close>: its overflow is undefined.\<close>

fun Size_loop :: "'bn bignum \<Rightarrow> Interval list \<Rightarrow> nat \<Rightarrow> nat option option" where
  "Size_loop B [] total_size = Some (Some total_size)"
| "Size_loop B (iv # ivs) total_size = do {
     sz \<leftarrow> Interval_Size B iv;
     case sz of
       None \<Rightarrow> Some None
     | Some k \<Rightarrow> if total_size + k \<ge> 2 ^ 63 then None else Size_loop B ivs (total_size + k)
   }"

definition IntervalSet_Size :: "'bn bignum \<Rightarrow> IntervalSet \<Rightarrow> nat option option" where
  "IntervalSet_Size B s = (if \<not> is_is_normalized s then None else Size_loop B (is_intervals s) 0)"

fun Index_loop :: "'bn bignum \<Rightarrow> Interval list \<Rightarrow> Bits \<Rightarrow> (Bits \<times> Interval option) option" where
  "Index_loop B [] so_far = Some (so_far, None)"
| "Index_loop B (iv # ivs) so_far = do {
     sz \<leftarrow> Interval_SizeBits B iv;
     if bits_ops_ULessThan so_far sz then Some (so_far, Some iv)
     else do { so_far' \<leftarrow> bits_ops_Sub B so_far sz; Index_loop B ivs so_far' }
   }"

definition IntervalSet_Index :: "'bn bignum \<Rightarrow> IntervalSet \<Rightarrow> Bits \<Rightarrow> Bits option option" where
  "IntervalSet_Index B s index =
     (if \<not> is_is_normalized s then None
      else do {
        n \<leftarrow> IntervalSet_BitCount s;
        if Bits_bit_count index \<noteq> n then None
        else do {
          start \<leftarrow> bits_ops_ZeroExtend index (n + 1);
          r \<leftarrow> Index_loop B (is_intervals s) start;
          case snd r of
            None \<Rightarrow> Some None
          | Some iv \<Rightarrow> do {
              base \<leftarrow> bits_ops_ZeroExtend (iv_lower iv) (n + 1);
              sum \<leftarrow> bits_ops_Add B (fst r) base;
              if Bits_msb sum then None else map_option Some (Bits_Slice sum 0 n)
            }
        }
      })"

definition IntervalSet_IsTrueWhenMaskWith :: "IntervalSet \<Rightarrow> Bits \<Rightarrow> bool option" where
  "IntervalSet_IsTrueWhenMaskWith s v = do {
     n \<leftarrow> IntervalSet_BitCount s;
     if Bits_bit_count v \<noteq> n then None
     else any_interval (\<lambda>iv. Interval_IsTrueWhenAndWith iv v) (is_intervals s)
   }"

definition IntervalSet_Covers :: "IntervalSet \<Rightarrow> Bits \<Rightarrow> bool option" where
  "IntervalSet_Covers s bits = do {
     n \<leftarrow> IntervalSet_BitCount s;
     if Bits_bit_count bits \<noteq> n then None
     else any_interval (\<lambda>iv. Interval_Covers iv bits) (is_intervals s)
   }"

definition IntervalSet_CoversZero :: "IntervalSet \<Rightarrow> bool option" where
  "IntervalSet_CoversZero s = do { n \<leftarrow> IntervalSet_BitCount s; z \<leftarrow> UBits 0 n; IntervalSet_Covers s z }"

definition IntervalSet_CoversOne :: "IntervalSet \<Rightarrow> bool option" where
  "IntervalSet_CoversOne s = do { n \<leftarrow> IntervalSet_BitCount s; one \<leftarrow> UBits 1 n; IntervalSet_Covers s one }"

definition IntervalSet_CoversMax :: "IntervalSet \<Rightarrow> bool option" where
  "IntervalSet_CoversMax s = do { n \<leftarrow> IntervalSet_BitCount s; IntervalSet_Covers s (Bits_AllOnes n) }"

fun IsPrecise_loop :: "Interval option \<Rightarrow> Interval list \<Rightarrow> bool option" where
  "IsPrecise_loop precisely [] = Some True"
| "IsPrecise_loop precisely (iv # ivs) =
     (if (case precisely of Some p \<Rightarrow> \<not> Interval_eq p iv | None \<Rightarrow> False) then Some False
      else do {
        p \<leftarrow> Interval_IsPrecise iv;
        if \<not> p then Some False else IsPrecise_loop (Some iv) ivs
      })"

definition IntervalSet_IsPrecise :: "IntervalSet \<Rightarrow> bool option" where
  "IntervalSet_IsPrecise s = (if is_bit_count s < 0 then None else IsPrecise_loop None (is_intervals s))"

definition IntervalSet_GetPreciseValue :: "IntervalSet \<Rightarrow> Bits option option" where
  "IntervalSet_GetPreciseValue s =
     (if \<not> is_is_normalized s then None
      else do {
        p \<leftarrow> IntervalSet_IsPrecise s;
        if \<not> p then Some None
        else case is_intervals s of [iv] \<Rightarrow> Interval_GetPreciseValue iv | _ \<Rightarrow> None
      })"

definition IntervalSet_IsNormalized :: "IntervalSet \<Rightarrow> bool" where
  "IntervalSet_IsNormalized s = is_is_normalized s"

fun interval_strings :: "'bn bignum \<Rightarrow> Interval list \<Rightarrow> string list option" where
  "interval_strings B [] = Some []"
| "interval_strings B (iv # ivs) = do {
     x \<leftarrow> Interval_ToString B iv;
     xs \<leftarrow> interval_strings B ivs;
     Some (x # xs)
   }"

definition IntervalSet_ToString :: "'bn bignum \<Rightarrow> IntervalSet \<Rightarrow> string option" where
  "IntervalSet_ToString B s =
     (if is_bit_count s < 0 then None
      else do { xs \<leftarrow> interval_strings B (is_intervals s); Some (''['' @ str_join '', '' xs @ '']'') })"

definition IntervalSet_eq :: "IntervalSet \<Rightarrow> IntervalSet \<Rightarrow> bool option" where
  "IntervalSet_eq lhs rhs = do {
     l \<leftarrow> IntervalSet_Normalize lhs;
     r \<leftarrow> IntervalSet_Normalize rhs;
     if is_bit_count l \<noteq> is_bit_count r then Some False
     else Some (list_all2 Interval_eq (is_intervals l) (is_intervals r))
   }"

section \<open>Lists of bounds\<close>

text \<open>
  The intervals of a set are worked on as pairs of bounds: \<open>ivs n ps\<close> is the list of intervals of
  width \<open>n\<close> with the bounds \<open>ps\<close>, which cover the numbers \<open>cov ps\<close>.
\<close>

definition ivs :: "nat \<Rightarrow> (nat \<times> nat) list \<Rightarrow> Interval list" where
  "ivs n ps = map (\<lambda>p. iv_of n (fst p) (snd p)) ps"

definition cov :: "(nat \<times> nat) list \<Rightarrow> nat set" where
  "cov ps = (\<Union>p \<in> set ps. {fst p..snd p})"

definition bounds_ok :: "nat \<Rightarrow> (nat \<times> nat) list \<Rightarrow> bool" where
  "bounds_ok n ps \<longleftrightarrow> (\<forall>p \<in> set ps. fst p \<le> snd p \<and> snd p < 2 ^ n)"

text \<open>Normalized: in increasing order, with a number between any two of them that neither covers.\<close>

definition gapped :: "(nat \<times> nat) list \<Rightarrow> bool" where
  "gapped ps \<longleftrightarrow> sorted_wrt (\<lambda>p q. snd p + 1 < fst q) ps"

lemma ivs_simps [simp]:
  "ivs n [] = []" "ivs n (p # ps) = iv_of n (fst p) (snd p) # ivs n ps" "ivs n (ps @ qs) = ivs n ps @ ivs n qs"
  "length (ivs n ps) = length ps" "ivs n ps = [] \<longleftrightarrow> ps = []"
  by (simp_all add: ivs_def)

lemma cov_simps [simp]:
  "cov [] = {}" "cov (p # ps) = {fst p..snd p} \<union> cov ps" "cov (ps @ qs) = cov ps \<union> cov qs"
  by (auto simp: cov_def)

lemma bounds_ok_simps [simp]:
  "bounds_ok n []" "bounds_ok n (p # ps) \<longleftrightarrow> fst p \<le> snd p \<and> snd p < 2 ^ n \<and> bounds_ok n ps"
  "bounds_ok n (ps @ qs) \<longleftrightarrow> bounds_ok n ps \<and> bounds_ok n qs"
  by (auto simp: bounds_ok_def)

lemma gapped_simps [simp]: "gapped []" "gapped [p]" "gapped (p # ps) \<longleftrightarrow> (\<forall>q \<in> set ps. snd p + 1 < fst q) \<and> gapped ps"
  by (simp_all add: gapped_def)

lemma ivs_points: "bounds_ok n ps \<Longrightarrow> (\<Union>iv \<in> set (ivs n ps). iv_points iv) = cov ps"
  by (induction ps) auto

lemma ivs_wf: "iv \<in> set (ivs n ps) \<Longrightarrow> iv_wf iv \<and> iv_width iv = n"
  by (auto simp: ivs_def)

lemma ivs_exists:
  assumes "\<forall>iv \<in> set xs. iv_proper n iv"
  obtains ps where "xs = ivs n ps" "bounds_ok n ps"
  using assms
proof (induction xs arbitrary: thesis)
  case (Cons x xs)
  from Cons.prems(2) obtain l h where x: "x = iv_of n l h" "l \<le> h" "h < 2 ^ n" by (auto elim: iv_proper_cases)
  from Cons.IH Cons.prems(2) obtain ps where "xs = ivs n ps" "bounds_ok n ps" by auto
  then show ?case using x Cons.prems(1) [of "(l, h) # ps"] by simp
next
  case Nil
  then show ?case using Nil.prems(1) [of "[]"] by simp
qed

lemma cov_less: "bounds_ok n ps \<Longrightarrow> v \<in> cov ps \<Longrightarrow> v < 2 ^ n"
  by (induction ps) auto

lemma gapped_above: "gapped (p # ps) \<Longrightarrow> v \<in> cov ps \<Longrightarrow> snd p + 1 < v"
  by (fastforce simp: cov_def)

lemma gapped_head: "fst p \<le> snd p \<Longrightarrow> gapped (p # ps) \<Longrightarrow> v \<in> cov (p # ps) \<Longrightarrow> fst p \<le> v"
  using gapped_above [of p ps v] by auto

text \<open>A normalized list is determined by the numbers it covers, and no list of intervals for them is shorter.\<close>

lemma gapped_unique:
  assumes "gapped ps" "gapped qs" "bounds_ok n ps" "bounds_ok n qs" "cov ps = cov qs"
  shows "ps = qs"
  using assms
proof (induction ps arbitrary: qs)
  case Nil
  then show ?case by (cases qs) auto
next
  case (Cons p ps)
  then obtain q qs' where q: "qs = q # qs'" by (cases qs) auto
  note c = Cons.prems(5) [unfolded q]
  have "fst p \<in> cov (q # qs')" "fst q \<in> cov (p # ps)" using c Cons.prems(3,4) q by auto
  then have lo: "fst p = fst q"
    using gapped_head [of p ps "fst q"] gapped_head [of q qs' "fst p"] Cons.prems(1-4) q by (intro antisym) simp_all
  have no_hole: "snd r \<le> snd r'" if "fst r = fst r'" "fst r \<le> snd r" "gapped (r' # rs')"
    "cov (r # rs) = cov (r' # rs')" "fst r' \<le> snd r'" for r r' :: "nat \<times> nat" and rs rs'
  proof (rule ccontr)
    assume "\<not> snd r \<le> snd r'"
    then have "snd r' + 1 \<in> {fst r..snd r}" using that(1,5) by simp
    then have "snd r' + 1 \<in> cov (r' # rs')" unfolding that(4) [symmetric] by simp
    then have "snd r' + 1 \<in> cov rs'" by simp
    then show False using gapped_above [OF that(3)] by blast
  qed
  have hi: "snd p = snd q"
    using no_hole [of p q qs' ps] no_hole [of q p ps qs'] lo c Cons.prems q by (intro antisym) simp_all
  have "cov ps = cov qs'"
  proof -
    have "cov rs = cov (r # rs) - {..snd r}" if "gapped (r # rs)" for r rs
      using gapped_above [OF that] by fastforce
    from this [of p ps] this [of q qs'] show ?thesis using c hi Cons.prems q by simp
  qed
  then have "ps = qs'" using Cons.IH [of qs'] Cons.prems q by simp
  then show ?case using q lo hi by (simp add: prod_eq_iff)
qed

lemma gapped_distinct: "gapped ps \<Longrightarrow> bounds_ok n ps \<Longrightarrow> distinct ps"
  by (induction ps) fastforce+

lemma gapped_hole: "gapped ps \<Longrightarrow> bounds_ok n ps \<Longrightarrow> p \<in> set ps \<Longrightarrow> snd p + 1 \<notin> cov ps"
proof (induction ps)
  case (Cons q ps)
  show ?case
  proof (cases "p = q")
    case True
    then show ?thesis using gapped_above [OF Cons.prems(1), of "snd p + 1"] by auto
  next
    case False
    then have p: "p \<in> set ps" using Cons.prems(3) by simp
    then have "fst p \<le> snd p" using Cons.prems(2) by (simp add: bounds_ok_def)
    moreover have "snd q + 1 < fst p" using Cons.prems(1) p by simp
    ultimately show ?thesis using Cons p by auto
  qed
qed simp

lemma gapped_minimal:
  assumes "gapped ps" "bounds_ok n ps" "cov qs = cov ps"
  shows "length ps \<le> length qs"
proof -
  define f where "f p = (SOME q. q \<in> set qs \<and> fst p \<in> {fst q..snd q})" for p :: "nat \<times> nat"
  have f: "f p \<in> set qs \<and> fst p \<in> {fst (f p)..snd (f p)}" if "p \<in> set ps" for p
  proof -
    have "fst p \<in> cov qs" using that assms(2,3) by (force simp: cov_def bounds_ok_def)
    then have "\<exists>q. q \<in> set qs \<and> fst p \<in> {fst q..snd q}" unfolding cov_def by blast
    then show ?thesis unfolding f_def by (rule someI_ex)
  qed
  have no: "f p \<noteq> f p'" if "p \<in> set ps" "p' \<in> set ps" "snd p + 1 < fst p'" for p p'
  proof
    assume "f p = f p'"
    then have "snd p + 1 \<in> {fst (f p)..snd (f p)}"
      using f [OF that(1)] f [OF that(2)] that assms(2) by (force simp: bounds_ok_def)
    then have "snd p + 1 \<in> cov qs" using f [OF that(1)] by (auto simp: cov_def)
    then show False using gapped_hole [OF assms(1,2) that(1)] assms(3) by simp
  qed
  have apart: "p = p' \<or> snd p + 1 < fst p' \<or> snd p' + 1 < fst p" if "p \<in> set ps" "p' \<in> set ps" for p p'
    using assms(1) that by (induction ps) auto
  have "inj_on f (set ps)"
  proof (rule inj_onI)
    fix p p'
    assume "p \<in> set ps" "p' \<in> set ps" "f p = f p'"
    then show "p = p'" using apart [of p p'] no [of p p'] no [of p' p] by auto
  qed
  moreover have "f ` set ps \<subseteq> set qs" using f by auto
  ultimately have "card (set ps) \<le> card (set qs)" by (intro card_inj_on_le) auto
  then show ?thesis using distinct_card [OF gapped_distinct [OF assms(1,2)]] card_length [of qs] by simp
qed

section \<open>Normalization is canonical\<close>

lemma insert_sorted_eq:
  assumes "bounds_ok n (p # ps)"
  shows "insert_sorted (iv_of n (fst p) (snd p)) (ivs n ps) = ivs n (insort p ps)"
  using assms
proof (induction ps)
  case (Cons q ps)
  have "Interval_less (iv_of n (fst q) (snd q)) (iv_of n (fst p) (snd p)) \<longleftrightarrow> \<not> p \<le> q"
    using Cons.prems by (subst cmp_of) (auto simp: less_eq_prod_def)
  then show ?case using Cons by simp
qed simp

lemma bounds_ok_set: "set ps = set qs \<Longrightarrow> bounds_ok n ps \<longleftrightarrow> bounds_ok n qs"
  by (simp add: bounds_ok_def)

lemma sort_intervals_eq: "bounds_ok n ps \<Longrightarrow> sort_intervals (ivs n ps) = ivs n (sort ps)"
proof (induction ps)
  case (Cons p ps)
  then have "bounds_ok n (p # sort ps)" using bounds_ok_set [of "sort ps" ps n] by simp
  then show ?case using Cons by (simp add: sort_intervals_def insert_sorted_eq)
qed (simp add: sort_intervals_def)

fun merge_bounds :: "nat \<times> nat \<Rightarrow> (nat \<times> nat) list \<Rightarrow> (nat \<times> nat) list" where
  "merge_bounds p [] = [p]"
| "merge_bounds p (q # qs) =
     (if fst q \<le> snd p + 1 then merge_bounds (fst p, max (snd p) (snd q)) qs else p # merge_bounds q qs)"

lemma merge_sorted_eq:
  assumes "bounds_ok n (p # ps)" "sorted_wrt (\<lambda>p q. fst p \<le> fst q) (p # ps)"
  shows "merge_sorted (iv_of n (fst p) (snd p)) (ivs n ps) = Some (ivs n (merge_bounds p ps))"
  using assms
proof (induction p ps rule: merge_bounds.induct)
  case (2 p q qs)
  let ?p = "iv_of n (fst p) (snd p)" and ?q = "iv_of n (fst q) (snd q)"
  have le: "fst p \<le> snd p" "snd p < 2 ^ n" "fst q \<le> snd q" "snd q < 2 ^ n" "fst p \<le> fst q" using "2.prems" by auto
  have o: "Interval_Overlaps ?p ?q = Some (fst q \<le> snd p)" using Overlaps_of [OF le(1-4)] le by simp
  have ab: "Interval_Abuts ?p ?q = Some (snd p + 1 = fst q)" using Abuts_of [OF le(1-4)] le by simp
  have ch: "Interval_ConvexHull ?p ?q = Some (iv_of n (fst p) (max (snd p) (snd q)))"
    using ConvexHull_of [OF le(1-4)] le by simp
  show ?case
  proof (cases "fst q \<le> snd p + 1")
    case True
    then have "merge_sorted (iv_of n (fst p) (max (snd p) (snd q))) (ivs n qs) =
        Some (ivs n (merge_bounds (fst p, max (snd p) (snd q)) qs))"
      using "2.IH"(1) [OF True] "2.prems" by auto
    then show ?thesis using True o ab ch by (auto simp: le_Suc_eq)
  next
    case False
    then have "merge_sorted ?q (ivs n qs) = Some (ivs n (merge_bounds q qs))" using "2.IH"(2) [OF False] "2.prems" by auto
    then show ?thesis using False o ab by simp
  qed
qed simp

lemma merge_bounds_ok: "bounds_ok n (p # ps) \<Longrightarrow> bounds_ok n (merge_bounds p ps)"
  by (induction p ps rule: merge_bounds.induct) auto

lemma merge_bounds_cov:
  "bounds_ok n (p # ps) \<Longrightarrow> sorted_wrt (\<lambda>p q. fst p \<le> fst q) (p # ps) \<Longrightarrow> cov (merge_bounds p ps) = cov (p # ps)"
proof (induction p ps rule: merge_bounds.induct)
  case (2 p q qs)
  show ?case
  proof (cases "fst q \<le> snd p + 1")
    case True
    have "{fst p..max (snd p) (snd q)} = {fst p..snd p} \<union> {fst q..snd q}" using True "2.prems" by auto
    then show ?thesis using True "2.IH"(1) [OF True] "2.prems" by (simp add: Un_assoc le_max_iff_disj)
  next
    case False
    then show ?thesis using "2.IH"(2) [OF False] "2.prems" by simp
  qed
qed simp

lemma merge_bounds_fst:
  "sorted_wrt (\<lambda>p q. fst p \<le> fst q) (p # ps) \<Longrightarrow> q \<in> set (merge_bounds p ps) \<Longrightarrow> fst p \<le> fst q"
proof (induction p ps rule: merge_bounds.induct)
  case (2 p q' qs)
  show ?case
  proof (cases "fst q' \<le> snd p + 1")
    case True
    then show ?thesis using "2.IH"(1) [OF True] "2.prems" by simp
  next
    case False
    then show ?thesis using "2.IH"(2) [OF False] "2.prems" by fastforce
  qed
qed simp

lemma merge_bounds_gapped:
  "sorted_wrt (\<lambda>p q. fst p \<le> fst q) (p # ps) \<Longrightarrow> gapped (merge_bounds p ps)"
proof (induction p ps rule: merge_bounds.induct)
  case (2 p q qs)
  show ?case
  proof (cases "fst q \<le> snd p + 1")
    case True
    then show ?thesis using "2.IH"(1) [OF True] "2.prems" by simp
  next
    case False
    have "sorted_wrt (\<lambda>p q. fst p \<le> fst q) (q # qs)" using "2.prems" by simp
    then have "\<forall>r \<in> set (merge_bounds q qs). snd p + 1 < fst r"
      using merge_bounds_fst [of q qs] False by fastforce
    then show ?thesis using "2.IH"(2) [OF False] "2.prems" False by simp
  qed
qed simp

definition expand_bounds :: "nat \<Rightarrow> Interval \<Rightarrow> (nat \<times> nat) list" where
  "expand_bounds n iv = (if iv_hi iv < iv_lo iv then [(0, iv_hi iv), (iv_lo iv, 2 ^ n - 1)] else [(iv_lo iv, iv_hi iv)])"

lemma expand_bounds_ok:
  assumes "iv_wf iv" "iv_width iv = n"
  shows "bounds_ok n (expand_bounds n iv)" "cov (expand_bounds n iv) = iv_points iv"
  using iv_wf_less [OF assms(1)] assms(2) by (auto simp: expand_bounds_def iv_points_def)

lemma expand_improper_eq:
  assumes "\<forall>iv \<in> set xs. iv_wf iv \<and> iv_width iv = n"
  shows "expand_improper (Bits_new n) (Bits_AllOnes n) xs = Some (ivs n (concat (map (expand_bounds n) xs)))"
  using assms
proof (induction xs)
  case (Cons x xs)
  let ?l = "iv_lo x" and ?h = "iv_hi x"
  have x: "x = iv_of n ?l ?h" using iv_of_eq [of x] Cons.prems by simp
  have z: "Bits_new n = bits_of_nat n 0" "Bits_AllOnes n = bits_of_nat n (2 ^ n - 1)" by (auto intro!: bits_of_natI)
  have e: "iv_lower x = bits_of_nat n ?l" "iv_upper x = bits_of_nat n ?h" by (subst x, simp)+
  show ?case using Cons x Interval_new_of [of n 0 ?h] Interval_new_of [of n ?l "2 ^ n - 1"]
    unfolding expand_improper.simps e z by (simp add: expand_bounds_def)
qed simp

lemma expand_all_ok:
  assumes "\<forall>iv \<in> set xs. iv_wf iv \<and> iv_width iv = n"
  shows "bounds_ok n (concat (map (expand_bounds n) xs))"
    "cov (concat (map (expand_bounds n) xs)) = (\<Union>iv \<in> set xs. iv_points iv)"
  using assms by (induction xs) (auto simp: expand_bounds_ok)

section \<open>The invariant of the class\<close>

definition is_points :: "IntervalSet \<Rightarrow> nat set" where
  "is_points s = (\<Union>iv \<in> set (is_intervals s). iv_points iv)"

text \<open>All intervals have the width of the set, and a set that is marked as normalized is.\<close>

definition is_wf :: "nat \<Rightarrow> IntervalSet \<Rightarrow> bool" where
  "is_wf n s \<longleftrightarrow> is_bit_count s = int n \<and> (\<forall>iv \<in> set (is_intervals s). iv_wf iv \<and> iv_width iv = n) \<and>
     (is_is_normalized s \<longrightarrow> (\<exists>ps. is_intervals s = ivs n ps \<and> bounds_ok n ps \<and> gapped ps))"

text \<open>The normalized set with the given bounds.\<close>

definition is_of :: "nat \<Rightarrow> (nat \<times> nat) list \<Rightarrow> IntervalSet" where
  "is_of n ps = \<lparr>is_is_normalized = True, is_bit_count = int n, is_intervals = ivs n ps\<rparr>"

lemma is_of_simps [simp]:
  "is_is_normalized (is_of n ps)" "is_bit_count (is_of n ps) = int n" "is_intervals (is_of n ps) = ivs n ps"
  by (simp_all add: is_of_def)

lemma is_wf_of [intro]: "bounds_ok n ps \<Longrightarrow> gapped ps \<Longrightarrow> is_wf n (is_of n ps)"
  using ivs_wf by (auto simp: is_wf_def)

lemma is_points_of [simp]: "bounds_ok n ps \<Longrightarrow> is_points (is_of n ps) = cov ps"
  by (simp add: is_points_def ivs_points)

lemma is_wf_cases:
  assumes "is_wf n s" "is_is_normalized s"
  obtains ps where "s = is_of n ps" "bounds_ok n ps" "gapped ps" "is_points s = cov ps"
proof -
  from assms obtain ps where "is_intervals s = ivs n ps" "bounds_ok n ps" "gapped ps" "is_bit_count s = int n"
    by (auto simp: is_wf_def)
  moreover from this have "s = is_of n ps" using assms(2) by (cases s) (simp add: is_of_def)
  ultimately show thesis using that [of ps] by (simp add: is_points_def ivs_points)
qed

lemma BitCount_is [simp]: "is_wf n s \<Longrightarrow> IntervalSet_BitCount s = Some n"
  by (simp add: is_wf_def IntervalSet_BitCount_def)

lemma is_wf_new [simp]: "is_wf n (IntervalSet_new n)" "is_points (IntervalSet_new n) = {}"
  by (auto simp: is_wf_def IntervalSet_new_def is_points_def intro: exI [of _ "[]"])

lemma is_points_less: "is_wf n s \<Longrightarrow> is_points s \<subseteq> {..<2 ^ n}"
  using iv_points_less by (fastforce simp: is_wf_def is_points_def)

lemma AddInterval_eq:
  assumes "is_wf n s" "iv_wf iv" "iv_width iv = n"
  shows "IntervalSet_AddInterval s iv = Some (s\<lparr>is_is_normalized := False, is_intervals := is_intervals s @ [iv]\<rparr>)"
    "is_wf n (s\<lparr>is_is_normalized := False, is_intervals := is_intervals s @ [iv]\<rparr>)"
    "is_points (s\<lparr>is_is_normalized := False, is_intervals := is_intervals s @ [iv]\<rparr>) = is_points s \<union> iv_points iv"
  using assms by (auto simp: IntervalSet_AddInterval_def is_wf_def IntervalSet_BitCount_def is_points_def)

lemma AddInterval_other_width:
  "is_wf n s \<Longrightarrow> iv_wf iv \<Longrightarrow> iv_width iv \<noteq> n \<Longrightarrow> IntervalSet_AddInterval s iv = None"
  by (simp add: IntervalSet_AddInterval_def)

text \<open>What appending a list of intervals makes of a set.\<close>

definition is_append :: "IntervalSet \<Rightarrow> Interval list \<Rightarrow> IntervalSet" where
  "is_append s xs = s\<lparr>is_is_normalized := (is_is_normalized s \<and> xs = []), is_intervals := is_intervals s @ xs\<rparr>"

lemma is_append_simps [simp]:
  "is_append s [] = s" "is_intervals (is_append s xs) = is_intervals s @ xs" "is_bit_count (is_append s xs) = is_bit_count s"
  "is_append (s\<lparr>is_is_normalized := False, is_intervals := is_intervals s @ [x]\<rparr>) xs = is_append s (x # xs)"
  by (cases s, simp_all add: is_append_def)+

lemma is_append_wf:
  "is_wf n s \<Longrightarrow> \<forall>iv \<in> set xs. iv_wf iv \<and> iv_width iv = n \<Longrightarrow> is_wf n (is_append s xs)"
  "is_points (is_append s xs) = is_points s \<union> (\<Union>iv \<in> set xs. iv_points iv)"
  by (cases xs; auto simp: is_append_def is_wf_def is_points_def)+

lemma add_intervals_eq:
  "is_wf n s \<Longrightarrow> \<forall>iv \<in> set xs. iv_wf iv \<and> iv_width iv = n \<Longrightarrow> add_intervals s xs = Some (is_append s xs)"
  by (induction xs arbitrary: s) (simp_all add: AddInterval_eq)

text \<open>Normalization ends in the one normalized set for the points.\<close>

lemma Normalize_eq:
  assumes "is_wf n s"
  obtains ps where "IntervalSet_Normalize s = Some (is_of n ps)" "bounds_ok n ps" "gapped ps" "cov ps = is_points s"
proof (cases "is_is_normalized s")
  case True
  then obtain ps where "s = is_of n ps" "bounds_ok n ps" "gapped ps" "is_points s = cov ps" using is_wf_cases assms by blast
  then show thesis using that [of ps] by (simp add: IntervalSet_Normalize_def)
next
  case norm: False
  note wf = assms [unfolded is_wf_def]
  show thesis
  proof (cases "\<exists>iv. is_intervals s = [iv] \<and> iv_lo iv \<le> iv_hi iv")
    case True
    then obtain iv where iv: "is_intervals s = [iv]" "iv_lo iv \<le> iv_hi iv" by blast
    then have p: "iv_proper n iv" using wf by (simp add: iv_proper_def)
    then obtain l h where l: "iv = iv_of n l h" "l \<le> h" "h < 2 ^ n" by (rule iv_proper_cases)
    have "s\<lparr>is_is_normalized := True\<rparr> = is_of n [(l, h)]" using iv l wf by (cases s) (simp add: is_of_def)
    then have "IntervalSet_Normalize s = Some (is_of n [(l, h)])" using norm iv l by (simp add: IntervalSet_Normalize_def)
    moreover have "is_points s = cov [(l, h)]" using iv l by (simp add: is_points_def)
    ultimately show ?thesis using that [of "[(l, h)]"] l by simp
  next
    case False
    define xs where "xs = is_intervals s"
    let ?e = "concat (map (expand_bounds n) xs)"
    have ok: "\<forall>iv \<in> set xs. iv_wf iv \<and> iv_width iv = n" using wf xs_def by simp
    note e = expand_all_ok [OF ok]
    have srt: "bounds_ok n (sort ?e)" "cov (sort ?e) = is_points s"
      using e bounds_ok_set [of "sort ?e" ?e n] by (simp_all add: cov_def is_points_def xs_def)
    have le: "sorted_wrt (\<lambda>p q. fst p \<le> fst q) (sort ?e)"
      by (rule sorted_wrt_mono_rel [of _ "(\<le>)"]) (auto simp: less_eq_prod_def)
    define ps where "ps = (case sort ?e of [] \<Rightarrow> [] | p # qs \<Rightarrow> merge_bounds p qs)"
    have ps: "bounds_ok n ps" "gapped ps" "cov ps = is_points s"
      using srt le merge_bounds_ok merge_bounds_gapped merge_bounds_cov unfolding ps_def
      by (auto split: list.splits simp del: cov_simps(2) gapped_simps(3))
    have fast: "(case xs of [iv] \<Rightarrow> map_option Not (Interval_IsImproper iv) | _ \<Rightarrow> Some False) = Some False"
      using False ok unfolding xs_def [symmetric] by (auto split: list.splits)
    have m: "(case sort_intervals (ivs n ?e) of [] \<Rightarrow> Some [] | x # xs \<Rightarrow> merge_sorted x xs) = Some (ivs n ps)"
      using srt le e(1) merge_sorted_eq [of n] by (auto simp: sort_intervals_eq ps_def split: list.splits)
    have "IntervalSet_Normalize s = Some (is_of n ps)"
      using norm assms m fast wf unfolding IntervalSet_Normalize_def xs_def [symmetric]
      by (cases s) (simp add: expand_improper_eq [OF ok] is_of_def)
    then show ?thesis using that [OF _ ps] by blast
  qed
qed

lemma list_all2_Interval_eq:
  "bounds_ok n ps \<Longrightarrow> bounds_ok n qs \<Longrightarrow> list_all2 Interval_eq (ivs n ps) (ivs n qs) \<longleftrightarrow> ps = qs"
proof (induction ps arbitrary: qs)
  case (Cons p ps)
  then show ?case
    by (cases qs) (auto simp: cmp_of prod_eq_iff)
qed (auto simp: ivs_def)

lemma IntervalSet_eq_iff:
  assumes "is_wf n s" "is_wf m t"
  shows "IntervalSet_eq s t = Some (n = m \<and> is_points s = is_points t)"
proof -
  obtain ps where ps: "IntervalSet_Normalize s = Some (is_of n ps)" "bounds_ok n ps" "gapped ps" "cov ps = is_points s"
    using Normalize_eq [OF assms(1)] .
  obtain qs where qs: "IntervalSet_Normalize t = Some (is_of m qs)" "bounds_ok m qs" "gapped qs" "cov qs = is_points t"
    using Normalize_eq [OF assms(2)] .
  have "list_all2 Interval_eq (ivs n ps) (ivs n qs) \<longleftrightarrow> cov ps = cov qs" if "n = m"
    using list_all2_Interval_eq [of n ps qs] gapped_unique [of ps qs n] ps qs that by auto
  then show ?thesis using ps qs by (auto simp: IntervalSet_eq_def)
qed

lemma is_of_unique:
  "bounds_ok n ps \<Longrightarrow> gapped ps \<Longrightarrow> is_wf n s \<Longrightarrow> is_is_normalized s \<Longrightarrow> is_points s = cov ps \<Longrightarrow> s = is_of n ps"
  by (metis gapped_unique is_wf_cases)

section \<open>Building sets\<close>

lemma Combine_eq:
  assumes "is_wf n s" "is_wf n t"
  obtains ps where "IntervalSet_Combine s t = Some (is_of n ps)" "bounds_ok n ps" "gapped ps" "cov ps = is_points s \<union> is_points t"
proof -
  let ?u = "is_append (is_append (IntervalSet_new n) (is_intervals s)) (is_intervals t)"
  have ok: "\<forall>iv \<in> set (is_intervals s). iv_wf iv \<and> iv_width iv = n" "\<forall>iv \<in> set (is_intervals t). iv_wf iv \<and> iv_width iv = n"
    using assms by (simp_all add: is_wf_def)
  note a = is_append_wf(1) [OF is_wf_new(1) ok(1)]
  have u: "is_wf n ?u" "is_points ?u = is_points s \<union> is_points t"
    using is_append_wf(1) [OF a ok(2)] by (simp_all add: is_append_wf(2)) (simp_all add: is_points_def)
  then obtain ps where "IntervalSet_Normalize ?u = Some (is_of n ps)" "bounds_ok n ps" "gapped ps" "cov ps = is_points ?u"
    using Normalize_eq by blast
  then show thesis using that [of ps] u assms add_intervals_eq [OF is_wf_new(1) ok(1)] add_intervals_eq [OF a ok(2)]
    by (simp add: IntervalSet_Combine_def)
qed

lemma Of_eq:
  assumes "xs \<noteq> []" "\<forall>iv \<in> set xs. iv_wf iv \<and> iv_width iv = n"
  obtains ps where "IntervalSet_Of xs = Some (is_of n ps)" "bounds_ok n ps" "gapped ps" "cov ps = (\<Union>iv \<in> set xs. iv_points iv)"
proof -
  let ?u = "is_append (IntervalSet_new n) xs"
  have u: "is_wf n ?u" "is_points ?u = (\<Union>iv \<in> set xs. iv_points iv)"
    using assms(2) by (auto simp: is_append_wf)
  then obtain ps where "IntervalSet_Normalize ?u = Some (is_of n ps)" "bounds_ok n ps" "gapped ps" "cov ps = is_points ?u"
    using Normalize_eq by blast
  moreover from assms obtain x xs' where "xs = x # xs'" "iv_wf x" "iv_width x = n" by (cases xs) auto
  ultimately show thesis using that [of ps] u add_intervals_eq [OF is_wf_new(1) assms(2)]
    by (simp add: IntervalSet_Of_def del: add_intervals.simps)
qed

lemma single_set_eq:
  assumes "l \<le> h" "h < 2 ^ n"
  shows "IntervalSet_AddInterval (IntervalSet_new n) (iv_of n l h) \<bind> (\<lambda>s. Some (s\<lparr>is_is_normalized := True\<rparr>)) =
    Some (is_of n [(l, h)])"
  using AddInterval_eq(1) [OF is_wf_new(1), of "iv_of n l h" n] assms by (simp add: IntervalSet_new_def is_of_def)

lemma Maximal_set_eq: "IntervalSet_Maximal n = Some (is_of n [(0, 2 ^ n - 1)])"
  using single_set_eq [of 0 "2 ^ n - 1" n] by (simp add: IntervalSet_Maximal_def Maximal_eq)

lemma Maximal_points: "cov [(0, 2 ^ n - 1)] = {..<2 ^ n}"
  using lessThan_Suc_atMost [of "2 ^ n - 1"] by (simp add: atLeast0AtMost)

lemma Precise_set_eq:
  assumes "bm_wf b"
  shows "IntervalSet_Precise b = Some (is_of (Bits_bit_count b) [(uval b, uval b)])"
proof -
  have "Interval_Precise b = Some (iv_of (Bits_bit_count b) (uval b) (uval b))"
    using bits_of_nat_uval [OF assms] by (simp add: Interval_Precise_def Interval_new_def iv_of_def)
  then show ?thesis
    using single_set_eq [of "uval b" "uval b" "Bits_bit_count b"] uval_less [of b]
    by (simp add: IntervalSet_Precise_def)
qed

lemma NonZero_set_eq: "IntervalSet_NonZero n = (if n = 0 then None else Some (is_of n [(1, 2 ^ n - 1)]))"
proof (cases "n = 0")
  case True
  then show ?thesis by (simp add: IntervalSet_NonZero_def UBits_eq)
next
  case False
  then have one: "(1::nat) < 2 ^ n" by (intro one_less_power) simp_all
  then have le: "(1::nat) \<le> 2 ^ n - 1" by linarith
  have z: "Bits_AllOnes n = bits_of_nat n (2 ^ n - 1)" by (auto intro!: bits_of_natI)
  have "UBits 1 n = Some (bits_of_nat n 1)" using UBits_value [of 1 n] one by simp
  then show ?thesis
    using False single_set_eq [OF le] Interval_new_of [of n 1 "2 ^ n - 1"]
    by (simp add: IntervalSet_NonZero_def z)
qed

lemma zero_extend_intervals_eq:
  "bounds_ok n ps \<Longrightarrow> n \<le> m \<Longrightarrow> is_wf m s \<Longrightarrow> zero_extend_intervals s m (ivs n ps) = Some (is_append s (ivs m ps))"
proof (induction ps arbitrary: s)
  case (Cons p ps)
  then have "Interval_ZeroExtend (iv_of n (fst p) (snd p)) m = Some (iv_of m (fst p) (snd p))"
    by (subst ZeroExtend_iv) auto
  then show ?case using Cons AddInterval_eq [OF Cons.prems(3), of "iv_of m (fst p) (snd p)"] by simp
qed simp

lemma bounds_ok_mono: "bounds_ok n ps \<Longrightarrow> n \<le> m \<Longrightarrow> bounds_ok m ps"
  unfolding bounds_ok_def using power_increasing [of n m "2::nat"] by (meson le_trans less_le_trans one_le_numeral)

lemma ZeroExtend_set_eq:
  assumes "bounds_ok n ps" "gapped ps"
  shows "IntervalSet_ZeroExtend (is_of n ps) m = (if m < n then None else Some (is_of m ps))"
proof (cases "m < n")
  case False
  then have ok: "bounds_ok m ps" using bounds_ok_mono [OF assms(1)] by simp
  have wf: "is_wf m (is_append (IntervalSet_new m) (ivs m ps))" using ivs_wf by (intro is_append_wf(1)) auto
  obtain qs where "IntervalSet_Normalize (is_append (IntervalSet_new m) (ivs m ps)) = Some (is_of m qs)"
    "bounds_ok m qs" "gapped qs" "cov qs = is_points (is_append (IntervalSet_new m) (ivs m ps))"
    using Normalize_eq [OF wf] .
  moreover from this have "qs = ps"
    using gapped_unique [of qs ps m] assms(2) ok by (simp add: is_append_wf(2) ivs_points)
  ultimately show ?thesis
    using False assms zero_extend_intervals_eq [OF assms(1), of m "IntervalSet_new m"] is_wf_of [OF assms]
    by (simp add: IntervalSet_ZeroExtend_def IntervalSet_Intervals_def)
qed (use is_wf_of [OF assms] in \<open>simp add: IntervalSet_ZeroExtend_def\<close>)

section \<open>Intersection\<close>

text \<open>
  The runs of the loop of \<open>Intersect\<close> on lists of bounds, with the intersections it adds. When the
  interval that ends later overlaps the other one, what is left of it is put in front of it.
\<close>

definition left_over :: "nat \<times> nat \<Rightarrow> nat \<times> nat \<Rightarrow> (nat \<times> nat) list" where
  "left_over p q = (if fst p < fst q then [(fst p, fst q - 1)] else []) @ [(snd q + 1, snd p)]"

inductive runs :: "(nat \<times> nat) list \<Rightarrow> (nat \<times> nat) list \<Rightarrow> (nat \<times> nat) list \<Rightarrow> bool" where
  left_end: "runs [] B []"
| right_end: "runs A [] []"
| left_first: "snd p < snd q \<Longrightarrow> snd p < fst q \<Longrightarrow> runs A (q # B) R \<Longrightarrow> runs (p # A) (q # B) R"
| left_meets: "snd p < snd q \<Longrightarrow> fst q \<le> snd p \<Longrightarrow> runs A (left_over q p @ q # B) R \<Longrightarrow>
    runs (p # A) (q # B) ((max (fst p) (fst q), snd p) # R)"
| right_first: "snd q < snd p \<Longrightarrow> snd q < fst p \<Longrightarrow> runs (p # A) B R \<Longrightarrow> runs (p # A) (q # B) R"
| right_meets: "snd q < snd p \<Longrightarrow> fst p \<le> snd q \<Longrightarrow> runs (left_over p q @ p # A) B R \<Longrightarrow>
    runs (p # A) (q # B) ((max (fst p) (fst q), snd q) # R)"
| both: "snd p = snd q \<Longrightarrow> runs A B R \<Longrightarrow> runs (p # A) (q # B) ((max (fst p) (fst q), snd p) # R)"

lemma runs_commute: "runs A B R \<Longrightarrow> runs B A R"
proof (induction rule: runs.induct)
  case (left_meets p q A B R)
  then show ?case using runs.right_meets [of p q B A R] by (simp add: max.commute)
next
  case (right_meets q p A B R)
  then show ?case using runs.left_meets [of q p B A R] by (simp add: max.commute)
next
  case (both p q A B R)
  then show ?case using runs.both [of q p B A R] by (simp add: max.commute)
qed (auto intro: runs.intros)

lemma left_over_ok [simp]:
  "fst p \<le> snd p \<Longrightarrow> snd p < 2 ^ n \<Longrightarrow> snd q < snd p \<Longrightarrow> fst q \<le> snd q \<Longrightarrow> fst p \<le> snd q \<Longrightarrow> bounds_ok n (left_over p q)"
  by (auto simp: left_over_def)

lemma Difference_left_over:
  assumes "fst p \<le> snd p" "snd p < 2 ^ n" "snd q < snd p" "fst q \<le> snd q" "fst p \<le> snd q"
  shows "Interval_Difference (iv_of n (fst p) (snd p)) (iv_of n (fst q) (snd q)) = Some (ivs n (left_over p q))"
  using assms Difference_of [of "fst p" "snd p" n "fst q" "snd q"] by (simp add: left_over_def)

text \<open>The loop of the source computes the run.\<close>

lemma Intersect_loop_runs:
  assumes "runs A B R" "bounds_ok n A" "bounds_ok n B" "is_wf n s"
  shows "Intersect_loop (ivs n A) (ivs n B) s = Some (is_append s (ivs n R))"
  using assms
proof (induction arbitrary: s rule: runs.induct)
  case (left_first p q A B R)
  then show ?case using Intersect_of [of "fst p" "snd p" n "fst q" "snd q"]
    by (subst Intersect_loop.simps) (simp add: unsigned_compare)
next
  case (right_first q p A B R)
  then show ?case using Intersect_of [of "fst p" "snd p" n "fst q" "snd q"]
    by (subst Intersect_loop.simps) (simp add: unsigned_compare)
next
  case (left_meets p q A B R)
  let ?i = "iv_of n (max (fst p) (fst q)) (snd p)"
  have "Interval_Intersect (iv_of n (fst p) (snd p)) (iv_of n (fst q) (snd q)) = Some (Some ?i)"
    using left_meets Intersect_of [of "fst p" "snd p" n "fst q" "snd q"] by (simp add: min_def)
  moreover have "IntervalSet_AddInterval s ?i = Some (is_append s [?i])" "is_wf n (is_append s [?i])"
    using AddInterval_eq [OF left_meets.prems(3), of ?i] by (simp_all add: is_append_def)
  ultimately show ?case using left_meets Difference_left_over [of q n p]
    by (subst Intersect_loop.simps) (simp add: unsigned_compare is_append_def)
next
  case (right_meets q p A B R)
  let ?i = "iv_of n (max (fst p) (fst q)) (snd q)"
  have "Interval_Intersect (iv_of n (fst p) (snd p)) (iv_of n (fst q) (snd q)) = Some (Some ?i)"
    using right_meets Intersect_of [of "fst p" "snd p" n "fst q" "snd q"] by (simp add: min_def)
  moreover have "IntervalSet_AddInterval s ?i = Some (is_append s [?i])" "is_wf n (is_append s [?i])"
    using AddInterval_eq [OF right_meets.prems(3), of ?i] by (simp_all add: is_append_def)
  ultimately show ?case using right_meets Difference_left_over [of p n q]
    by (subst Intersect_loop.simps) (simp add: unsigned_compare is_append_def)
next
  case (both p q A B R)
  let ?i = "iv_of n (max (fst p) (fst q)) (snd p)"
  have "Interval_Intersect (iv_of n (fst p) (snd p)) (iv_of n (fst q) (snd q)) = Some (Some ?i)"
    using both Intersect_of [of "fst p" "snd p" n "fst q" "snd q"] by (simp add: min_def)
  moreover have "IntervalSet_AddInterval s ?i = Some (is_append s [?i])" "is_wf n (is_append s [?i])"
    using AddInterval_eq [OF both.prems(3), of ?i] by (simp_all add: is_append_def)
  ultimately show ?case using both
    by (subst Intersect_loop.simps) (simp add: unsigned_compare is_append_def)
qed (simp_all add: Intersect_loop.simps split: list.splits)

lemma runs_sound:
  assumes "runs A B R" "bounds_ok n A" "bounds_ok n B"
  shows "bounds_ok n R \<and> cov R \<subseteq> cov A \<inter> cov B"
  using assms
proof (induction rule: runs.induct)
  case (left_meets p q A B R)
  have "cov (left_over q p) \<subseteq> {fst q..snd q}" using left_meets.hyps left_meets.prems by (auto simp: left_over_def)
  then show ?case using left_meets by fastforce
next
  case (right_meets q p A B R)
  have "cov (left_over p q) \<subseteq> {fst p..snd p}" using right_meets.hyps right_meets.prems by (auto simp: left_over_def)
  then show ?case using right_meets by fastforce
qed auto

text \<open>
  That there is a run rests on the shape of the lists: up to the frontier \<open>f\<close> everything has been dealt
  with. An interval of a list lies beyond the intervals before it, or ends where the one before it ends and is
  the interval that one was cut from. The numbers still to be looked at are those beyond the frontier.
\<close>

fun own :: "nat \<Rightarrow> (nat \<times> nat) list \<Rightarrow> bool" where
  "own f [] = True"
| "own f (p # ps) \<longleftrightarrow> (snd p + 1 = f \<or> f \<le> fst p) \<and> own (snd p + 1) ps"

fun ahead :: "nat \<Rightarrow> (nat \<times> nat) list \<Rightarrow> nat set" where
  "ahead f [] = {}"
| "ahead f (p # ps) = (if snd p + 1 = f then {} else {fst p..snd p}) \<union> ahead (snd p + 1) ps"

lemma ahead_ge: "own f ps \<Longrightarrow> bounds_ok n ps \<Longrightarrow> v \<in> ahead f ps \<Longrightarrow> f \<le> v"
  by (induction f ps rule: own.induct) (fastforce split: if_splits)+

lemma own_gapped:
  "gapped ps \<Longrightarrow> bounds_ok n ps \<Longrightarrow> \<forall>p \<in> set ps. f \<le> fst p \<Longrightarrow> own f ps \<and> ahead f ps = cov ps"
proof (induction f ps rule: own.induct)
  case (2 f p ps)
  have "\<forall>q \<in> set ps. snd p + 1 \<le> fst q" using "2.prems"(1) by (simp add: less_imp_le)
  then show ?case using 2 by auto
qed simp

text \<open>Some run covers all the numbers ahead that are in both lists.\<close>

definition runs_from :: "nat \<Rightarrow> (nat \<times> nat) list \<Rightarrow> (nat \<times> nat) list \<Rightarrow> bool" where
  "runs_from f A B \<longleftrightarrow> (\<exists>R. runs A B R \<and> ahead f A \<inter> ahead f B \<subseteq> cov R)"

lemma runs_from_commute: "runs_from f A B \<Longrightarrow> runs_from f B A"
  unfolding runs_from_def using runs_commute by blast

text \<open>The piece below the cut is dropped, whatever it meets.\<close>

lemma runs_from_junk:
  assumes "snd r < f" "fst r \<le> snd r" "own f A" "bounds_ok n A" "f \<le> fst q" "fst q \<le> snd q"
    and cont: "\<And>A'. own f A' \<Longrightarrow> bounds_ok n A' \<Longrightarrow> runs_from f A' (q # B)"
  shows "\<exists>R. runs A (r # q # B) R \<and> ahead f A \<inter> ahead f (q # B) \<subseteq> cov R"
proof (cases A)
  case Nil
  then show ?thesis using runs.left_end by auto
next
  case (Cons x A')
  show ?thesis
  proof (cases "snd r < snd x \<and> fst x \<le> snd r")
    case True
    then have x: "snd x + 1 = f" using assms(1,3) Cons by simp
    let ?A = "(snd r + 1, snd x) # x # A'"
    have "own f ?A" "bounds_ok n ?A" using x True assms(3,4) Cons by auto
    from cont [OF this] obtain R where R: "runs ?A (q # B) R" "ahead f ?A \<inter> ahead f (q # B) \<subseteq> cov R"
      unfolding runs_from_def by blast
    have "runs (left_over x r @ x # A') (q # B) R"
    proof (cases "fst x < fst r")
      case True
      then have "fst r - 1 < fst q" "fst r - 1 < snd q" using assms(1,2,5,6) by linarith+
      then show ?thesis using True R(1) by (auto simp: left_over_def intro: runs.left_first)
    qed (use R(1) in \<open>simp add: left_over_def\<close>)
    then have "runs A (r # q # B) ((max (fst x) (fst r), snd r) # R)" unfolding Cons using True by (intro runs.right_meets) auto
    moreover have "ahead f ?A = ahead f A" using x Cons by simp
    ultimately show ?thesis using R(2) by fastforce
  next
    case False
    have "snd r < snd x \<and> snd r < fst x \<or> snd r = snd x \<and> snd x + 1 = f"
      using False assms(1,3,4) Cons by auto
    then show ?thesis
    proof
      assume "snd r < snd x \<and> snd r < fst x"
      then show ?thesis using cont [OF assms(3,4)] unfolding runs_from_def Cons by (blast intro: runs.right_first)
    next
      assume x: "snd r = snd x \<and> snd x + 1 = f"
      then have "own f A'" "bounds_ok n A'" "ahead f A' = ahead f A" using assms(3,4) Cons by auto
      with cont [of A'] obtain R where "runs A' (q # B) R" "ahead f A \<inter> ahead f (q # B) \<subseteq> cov R"
        unfolding runs_from_def by auto
      then show ?thesis using x runs.both [of x r A' "q # B" R] unfolding Cons by fastforce
    qed
  qed
qed

lemma runs_from_meets:
  assumes "own f (p # A)" "own f (q # B)" "bounds_ok n (p # A)" "bounds_ok n (q # B)"
    "f \<le> fst p" "f \<le> fst q" "snd p < snd q" "fst q \<le> snd p"
    and cont: "\<And>A' B'. own (snd p + 1) A' \<Longrightarrow> own (snd p + 1) B' \<Longrightarrow> bounds_ok n A' \<Longrightarrow> bounds_ok n B' \<Longrightarrow>
      runs_from (snd p + 1) A' B'"
  shows "runs_from f (p # A) (q # B)"
proof -
  let ?g = "snd p + 1" and ?B = "(snd p + 1, snd q) # q # B"
  have own: "own ?g A" "own ?g ?B" "bounds_ok n A" "bounds_ok n ?B" using assms by auto
  have "\<exists>R. runs A (left_over q p @ q # B) R \<and> ahead ?g A \<inter> ahead ?g ?B \<subseteq> cov R"
  proof (cases "fst q < fst p")
    case True
    have "\<exists>R. runs A ((fst q, fst p - 1) # ?B) R \<and> ahead ?g A \<inter> ahead ?g ?B \<subseteq> cov R"
    proof (rule runs_from_junk [where n = n])
      show "snd (fst q, fst p - 1) < ?g" "fst (fst q, fst p - 1) \<le> snd (fst q, fst p - 1)" using True assms(3) by auto
      show "own ?g A" "bounds_ok n A" "?g \<le> fst (snd p + 1, snd q)" "fst (snd p + 1, snd q) \<le> snd (snd p + 1, snd q)"
        using own assms(7) by simp_all
      show "runs_from ?g A' ?B" if "own ?g A'" "bounds_ok n A'" for A' using that own by (intro cont) auto
    qed
    then show ?thesis using True by (simp add: left_over_def)
  next
    case False
    then show ?thesis using cont [OF own] by (simp add: left_over_def runs_from_def)
  qed
  then obtain R where R: "runs A (left_over q p @ q # B) R" "ahead ?g A \<inter> ahead ?g ?B \<subseteq> cov R" by blast
  have "runs (p # A) (q # B) ((max (fst p) (fst q), snd p) # R)" using runs.left_meets [OF assms(7,8) R(1)] .
  moreover have "ahead f (p # A) \<inter> ahead f (q # B) \<subseteq> cov ((max (fst p) (fst q), snd p) # R)"
  proof
    fix v
    assume v: "v \<in> ahead f (p # A) \<inter> ahead f (q # B)"
    have f: "snd p + 1 \<noteq> f" "snd q + 1 \<noteq> f" using assms by auto
    have a: "v \<in> {fst p..snd p} \<or> v \<in> ahead ?g A" "v \<in> {fst q..snd q} \<or> v \<in> ahead (snd q + 1) B" using v f by auto
    have g: "v \<in> ahead ?g A \<Longrightarrow> ?g \<le> v" "v \<in> ahead (snd q + 1) B \<Longrightarrow> snd q + 1 \<le> v"
      using ahead_ge [OF own(1,3), of v] ahead_ge [of "snd q + 1" B n v] assms by auto
    show "v \<in> cov ((max (fst p) (fst q), snd p) # R)"
    proof (cases "v \<le> snd p")
      case True
      then show ?thesis using a g assms(7) by auto
    next
      case False
      then have "v \<in> ahead ?g A" "v \<in> ahead ?g ?B" using a assms(7) by auto
      then show ?thesis using R(2) by auto
    qed
  qed
  ultimately show ?thesis unfolding runs_from_def by blast
qed

lemma runs_from_first:
  assumes "own f (p # A)" "bounds_ok n (p # A)" "snd p < snd q" "snd p < fst q" "runs_from g A (q # B)"
    "ahead g A \<inter> ahead g (q # B) = ahead f (p # A) \<inter> ahead f (q # B)"
  shows "runs_from f (p # A) (q # B)"
  using assms unfolding runs_from_def by (metis runs.left_first)

lemma runs_from_step:
  assumes "own f (p # A)" "own f (q # B)" "bounds_ok n (p # A)" "bounds_ok n (q # B)" "snd p < snd q"
    and cont: "\<And>A' B' g. own g A' \<Longrightarrow> own g B' \<Longrightarrow> bounds_ok n A' \<Longrightarrow> bounds_ok n B' \<Longrightarrow>
      (2 ^ n - g, length A' + length B') < (2 ^ n - f, length (p # A) + length (q # B)) \<Longrightarrow> runs_from g A' B'"
  shows "runs_from f (p # A) (q # B)"
proof (cases "snd p + 1 = f")
  case True
  then have q: "f \<le> fst q" "snd q + 1 \<noteq> f" using assms(2,5) by auto
  have "runs_from f A (q # B)" using True assms by (intro cont) auto
  then show ?thesis using True q assms by (intro runs_from_first [where g = f and n = n]) auto
next
  case False
  then have p: "f \<le> fst p" using assms(1) by simp
  have q: "f \<le> fst q" using assms(2,3,5) p by auto
  have g: "2 ^ n - (snd p + 1) < 2 ^ n - f" using p assms(3) by (intro diff_less_mono2) auto
  show ?thesis
  proof (cases "fst q \<le> snd p")
    case True
    show ?thesis
    proof (rule runs_from_meets [OF assms(1-4) p q assms(5) True])
      show "runs_from (snd p + 1) A' B'" if "own (snd p + 1) A'" "own (snd p + 1) B'" "bounds_ok n A'" "bounds_ok n B'" for A' B'
        using that g by (intro cont) auto
    qed
  next
    case no: False
    have B: "own (snd p + 1) (q # B)" "ahead (snd p + 1) (q # B) = ahead f (q # B)" using no assms(2,5) q p assms(3,4) by auto
    have A: "own (snd p + 1) A" using assms(1) by simp
    have "runs_from (snd p + 1) A (q # B)" using A B g assms by (intro cont) auto
    moreover have "ahead (snd p + 1) A \<inter> ahead (snd p + 1) (q # B) = ahead f (p # A) \<inter> ahead f (q # B)"
    proof -
      have "v \<notin> {fst p..snd p}" if "v \<in> ahead f (q # B)" for v
        using ahead_ge [OF B(1) assms(4), of v] that unfolding B(2) by auto
      then show ?thesis using B(2) False by auto
    qed
    ultimately show ?thesis using no assms by (intro runs_from_first [where g = "snd p + 1" and n = n]) auto
  qed
qed

lemma runs_from_exists: "own f A \<Longrightarrow> own f B \<Longrightarrow> bounds_ok n A \<Longrightarrow> bounds_ok n B \<Longrightarrow> runs_from f A B"
proof (induction "(2 ^ n - f, length A + length B)" arbitrary: f A B rule: less_induct)
  case less
  show ?case
  proof (cases "A = [] \<or> B = []")
    case True
    then show ?thesis unfolding runs_from_def by (auto intro: runs.intros)
  next
    case False
    then obtain p A' q B' where e: "A = p # A'" "B = q # B'" by (cases A; cases B) auto
    note prems = less.prems [unfolded e]
    consider "snd p < snd q" | "snd q < snd p" | "snd p = snd q" by linarith
    then show ?thesis
    proof cases
      case 1
      from runs_from_step [OF prems 1] less.hyps show ?thesis unfolding e by blast
    next
      case 2
      have "runs_from f (q # B') (p # A')"
        using runs_from_step [OF prems(2,1,4,3) 2] less.hyps unfolding e by (metis add.commute)
      then show ?thesis unfolding e by (rule runs_from_commute)
    next
      case 3
      let ?g = "snd p + 1"
      have own: "own ?g A'" "own ?g B'" "bounds_ok n A'" "bounds_ok n B'" using prems 3 by auto
      have "(2 ^ n - ?g, length A' + length B') < (2 ^ n - f, length A + length B)"
        using prems e by (auto simp: less_prod_def')
      from less.hyps [OF this own] obtain R where R: "runs A' B' R" "ahead ?g A' \<inter> ahead ?g B' \<subseteq> cov R"
        unfolding runs_from_def by blast
      have "ahead f A \<inter> ahead f B \<subseteq> cov ((max (fst p) (fst q), snd p) # R)"
      proof
        fix v
        assume "v \<in> ahead f A \<inter> ahead f B"
        then have "v \<in> {fst p..snd p} \<or> v \<in> ahead ?g A'" "v \<in> {fst q..snd q} \<or> v \<in> ahead ?g B'"
          using 3 unfolding e by (auto split: if_splits)
        then show "v \<in> cov ((max (fst p) (fst q), snd p) # R)"
          using R(2) 3 ahead_ge [OF own(1,3), of v] ahead_ge [OF own(2,4), of v] by auto
      qed
      then show ?thesis using runs.both [OF 3 R(1)] unfolding runs_from_def e by blast
    qed
  qed
qed

text \<open>The loop ends, without a failed check, and the result is the intersection.\<close>

lemma Intersect_set_eq:
  assumes "is_wf n s" "is_wf n t" "is_is_normalized s" "is_is_normalized t"
  obtains ps where "IntervalSet_Intersect s t = Some (is_of n ps)" "bounds_ok n ps" "gapped ps" "cov ps = is_points s \<inter> is_points t"
proof -
  obtain A where A: "s = is_of n A" "bounds_ok n A" "gapped A" "is_points s = cov A" using is_wf_cases [OF assms(1,3)] .
  obtain B where B: "t = is_of n B" "bounds_ok n B" "gapped B" "is_points t = cov B" using is_wf_cases [OF assms(2,4)] .
  have oA: "own 0 A \<and> ahead 0 A = cov A" and oB: "own 0 B \<and> ahead 0 B = cov B"
    using own_gapped [OF A(3,2)] own_gapped [OF B(3,2)] by simp_all
  then have "runs_from 0 A B" using A(2) B(2) by (intro runs_from_exists) auto
  then obtain R where R: "runs A B R" "cov A \<inter> cov B \<subseteq> cov R" using oA oB unfolding runs_from_def by auto
  have R': "bounds_ok n R" "cov R = cov A \<inter> cov B" using runs_sound [OF R(1) A(2) B(2)] R(2) by auto
  let ?u = "is_append (IntervalSet_new n) (ivs n R)"
  have u: "is_wf n ?u" "is_points ?u = cov R" using ivs_wf ivs_points [OF R'(1)] by (auto simp: is_append_wf)
  obtain ps where "IntervalSet_Normalize ?u = Some (is_of n ps)" "bounds_ok n ps" "gapped ps" "cov ps = is_points ?u"
    using Normalize_eq [OF u(1)] .
  then show thesis
    using that [of ps] A B R' u(2) Intersect_loop_runs [OF R(1) A(2) B(2) is_wf_new(1)] assms
    by (simp add: IntervalSet_Intersect_def IntervalSet_Intervals_def)
qed

section \<open>Complement\<close>

lemma Complement_loop_eq:
  assumes "bounds_ok n ps" "is_wf n s" "is_is_normalized s"
  shows "\<exists>qs. Complement_loop n (ivs n ps) s = Some (is_of n qs) \<and> bounds_ok n qs \<and> gapped qs \<and> cov qs = is_points s - cov ps"
  using assms
proof (induction ps arbitrary: s)
  case Nil
  then obtain qs where "s = is_of n qs" "bounds_ok n qs" "gapped qs" "is_points s = cov qs" using is_wf_cases by blast
  then show ?case by auto
next
  case (Cons p ps)
  define cs where "cs = (if 0 < fst p then [(0, fst p - 1)] else []) @ (if snd p + 1 < 2 ^ n then [(snd p + 1, 2 ^ n - 1)] else [])"
  have p: "fst p \<le> snd p" "snd p < 2 ^ n" using Cons.prems(1) by auto
  have c: "Interval_Complement (iv_of n (fst p) (snd p)) = Some (ivs n cs)" using Complement_eq [OF p] by (simp add: cs_def)
  have ok: "bounds_ok n cs" using p by (auto simp: cs_def)
  have pts: "cov cs = {..<2 ^ n} - {fst p..snd p}" using p by (auto simp: cs_def)
  let ?u = "is_append (IntervalSet_new n) (ivs n cs)"
  have w: "\<forall>iv \<in> set (ivs n cs). iv_wf iv \<and> iv_width iv = n" using ivs_wf by blast
  have u: "is_wf n ?u" "is_points ?u = cov cs" using w ivs_points [OF ok] by (auto simp: is_append_wf)
  obtain ds where ds: "IntervalSet_Normalize ?u = Some (is_of n ds)" "bounds_ok n ds" "gapped ds" "cov ds = is_points ?u"
    using Normalize_eq [OF u(1)] .
  obtain qs where qs: "IntervalSet_Intersect s (is_of n ds) = Some (is_of n qs)" "bounds_ok n qs" "gapped qs"
    "cov qs = is_points s \<inter> cov ds"
    using Intersect_set_eq [OF Cons.prems(2) is_wf_of [OF ds(2,3)] Cons.prems(3)] ds(2) by auto
  have "cov qs = is_points s - {fst p..snd p}"
    unfolding qs(4) ds(4) u(2) pts using is_points_less [OF Cons.prems(2)] by blast
  moreover obtain rs where rs: "Complement_loop n (ivs n ps) (is_of n qs) = Some (is_of n rs)" "bounds_ok n rs" "gapped rs"
    "cov rs = is_points (is_of n qs) - cov ps"
    using Cons.IH [OF _ is_wf_of [OF qs(2,3)] is_of_simps(1)] Cons.prems(1) by auto
  moreover have "Complement_loop n (ivs n (p # ps)) s = Complement_loop n (ivs n ps) (is_of n qs)"
    using c ds(1) qs(1) add_intervals_eq [OF is_wf_new(1) w] by simp
  moreover have "cov rs = is_points s - cov (p # ps)"
    using calculation(1) rs(4) unfolding is_points_of [OF qs(2)] cov_simps by blast
  ultimately show ?case unfolding ivs_simps by (intro exI [of _ rs] conjI) simp_all
qed

lemma Complement_set_eq:
  assumes "is_wf n s" "is_is_normalized s"
  obtains ps where "IntervalSet_Complement s = Some (is_of n ps)" "bounds_ok n ps" "gapped ps" "cov ps = {..<2 ^ n} - is_points s"
proof -
  obtain A where A: "s = is_of n A" "bounds_ok n A" "gapped A" "is_points s = cov A" using is_wf_cases [OF assms] .
  let ?m = "is_of n [(0, 2 ^ n - 1)]"
  have ok: "bounds_ok n [(0, 2 ^ n - 1)]" by simp
  have m: "is_wf n ?m" "is_points ?m = {..<2 ^ n}"
    unfolding is_points_of [OF ok] by (rule is_wf_of [OF ok gapped_simps(2)], rule Maximal_points)
  obtain ps where "Complement_loop n (ivs n A) ?m = Some (is_of n ps)" "bounds_ok n ps" "gapped ps"
    "cov ps = is_points ?m - cov A"
    using Complement_loop_eq [OF A(2) m(1) is_of_simps(1)] by blast
  then show thesis using that [of ps] A m(2) assms
    by (simp add: IntervalSet_Complement_def Maximal_set_eq IntervalSet_Intervals_def)
qed

section \<open>Queries\<close>

lemma any_interval_eq: "(\<And>iv. iv \<in> set xs \<Longrightarrow> p iv = Some (q iv)) \<Longrightarrow> any_interval p xs = Some (\<exists>iv \<in> set xs. q iv)"
  by (induction xs) auto

lemma Covers_set_iff:
  assumes "is_wf n s" "bm_wf b" "Bits_bit_count b = n"
  shows "IntervalSet_Covers s b = Some (uval b \<in> is_points s)"
proof -
  have "any_interval (\<lambda>iv. Interval_Covers iv b) (is_intervals s) = Some (\<exists>iv \<in> set (is_intervals s). uval b \<in> iv_points iv)"
    using assms by (intro any_interval_eq Covers_iff) (auto simp: is_wf_def)
  then show ?thesis using assms by (simp add: IntervalSet_Covers_def is_points_def)
qed

lemma CoversZero_set_iff: "is_wf n s \<Longrightarrow> IntervalSet_CoversZero s = Some (0 \<in> is_points s)"
  by (simp add: IntervalSet_CoversZero_def UBits_0 Covers_set_iff)

lemma CoversOne_set_iff: "is_wf n s \<Longrightarrow> IntervalSet_CoversOne s = (if n = 0 then None else Some (1 \<in> is_points s))"
proof (cases "n = 0")
  case False
  assume wf: "is_wf n s"
  have "(1::nat) < 2 ^ n" using False by (intro one_less_power) simp_all
  then show ?thesis using False wf Covers_set_iff [OF wf, of "bits_of_nat n 1"] UBits_value [of 1 n]
    by (simp add: IntervalSet_CoversOne_def)
qed (simp add: IntervalSet_CoversOne_def UBits_eq)

lemma CoversMax_set_iff: "is_wf n s \<Longrightarrow> IntervalSet_CoversMax s = Some (2 ^ n - 1 \<in> is_points s)"
  by (simp add: IntervalSet_CoversMax_def Covers_set_iff)

lemma cov_empty_iff: "bounds_ok n ps \<Longrightarrow> cov ps = {} \<longleftrightarrow> ps = []"
  by (cases ps) auto

lemma IsEmpty_iff: "bounds_ok n ps \<Longrightarrow> IntervalSet_IsEmpty (is_of n ps) = Some (cov ps = {})"
  by (simp add: IntervalSet_IsEmpty_def cov_empty_iff)

lemma IsMaximal_set_iff:
  assumes "bounds_ok n ps" "gapped ps"
  shows "IntervalSet_IsMaximal (is_of n ps) = Some (cov ps = {..<2 ^ n})"
proof -
  have "any_interval Interval_IsMaximal (ivs n ps) = Some (\<exists>iv \<in> set (ivs n ps). iv_lo iv = 0 \<and> iv_hi iv = 2 ^ n - 1)"
    using ivs_wf [of _ n ps] by (intro any_interval_eq) (auto simp: IsMaximal_eq)
  moreover have "(\<exists>iv \<in> set (ivs n ps). iv_lo iv = 0 \<and> iv_hi iv = 2 ^ n - 1) \<longleftrightarrow> (0, 2 ^ n - 1) \<in> set ps"
  proof -
    have "iv_lo (iv_of n (fst p) (snd p)) = fst p" "iv_hi (iv_of n (fst p) (snd p)) = snd p" if "p \<in> set ps" for p
      using that assms(1) by (auto simp: bounds_ok_def)
    then have "(\<exists>iv \<in> set (ivs n ps). iv_lo iv = 0 \<and> iv_hi iv = 2 ^ n - 1) \<longleftrightarrow>
        (\<exists>p \<in> set ps. fst p = 0 \<and> snd p = 2 ^ n - 1)" by (simp add: ivs_def)
    also have "\<dots> \<longleftrightarrow> (0, 2 ^ n - 1) \<in> set ps" by (metis fst_conv snd_conv prod.collapse)
    finally show ?thesis .
  qed
  moreover have "(0, 2 ^ n - 1) \<in> set ps \<longleftrightarrow> cov ps = {..<2 ^ n}"
  proof
    assume "(0, 2 ^ n - 1) \<in> set ps"
    then have "cov [(0, 2 ^ n - 1)] \<subseteq> cov ps" by (force simp: cov_def)
    then show "cov ps = {..<2 ^ n}" using cov_less [OF assms(1)] unfolding Maximal_points by blast
  next
    assume "cov ps = {..<2 ^ n}"
    then have "ps = [(0, 2 ^ n - 1)]"
      using assms unfolding Maximal_points [symmetric] by (intro gapped_unique [where n = n]) simp_all
    then show "(0, 2 ^ n - 1) \<in> set ps" by simp
  qed
  ultimately show ?thesis by (simp add: IntervalSet_IsMaximal_def)
qed

lemma MaskWith_iff:
  assumes "bounds_ok n ps" "bm_wf v" "Bits_bit_count v = n"
  shows "IntervalSet_IsTrueWhenMaskWith (is_of n ps) v = Some (\<exists>x \<in> cov ps. x AND uval v \<noteq> 0)"
proof -
  have "any_interval (\<lambda>iv. Interval_IsTrueWhenAndWith iv v) (ivs n ps) =
      Some (\<exists>iv \<in> set (ivs n ps). \<exists>x \<in> iv_points iv. x AND uval v \<noteq> 0)"
  proof (rule any_interval_eq)
    fix iv
    assume "iv \<in> set (ivs n ps)"
    then obtain p where p: "p \<in> set ps" "iv = iv_of n (fst p) (snd p)" by (auto simp: ivs_def)
    then have "fst p \<le> snd p" "snd p < 2 ^ n" using assms(1) by (auto simp: bounds_ok_def)
    then show "Interval_IsTrueWhenAndWith iv v = Some (\<exists>x \<in> iv_points iv. x AND uval v \<noteq> 0)"
      using IsTrueWhenAndWith_proper [of "fst p" "snd p" n v] assms p by simp
  qed
  then show ?thesis using assms ivs_points [OF assms(1)]
    by (simp add: IntervalSet_IsTrueWhenMaskWith_def IntervalSet_BitCount_def) blast
qed

subsection \<open>The members in order\<close>

definition elems :: "(nat \<times> nat) list \<Rightarrow> nat list" where
  "elems ps = concat (map (\<lambda>p. [fst p..<Suc (snd p)]) ps)"

lemma elems_simps [simp]: "elems [] = []" "elems (p # ps) = [fst p..<Suc (snd p)] @ elems ps"
  by (simp_all add: elems_def del: upt_Suc)

lemma set_elems [simp]: "set (elems ps) = cov ps"
  by (induction ps) (auto simp del: upt_Suc)

lemma elems_sorted: "gapped ps \<Longrightarrow> sorted_wrt (<) (elems ps)"
proof (induction ps)
  case (Cons p ps)
  then show ?case using gapped_above [OF Cons.prems] by (fastforce simp: sorted_wrt_append simp del: upt_Suc)
qed simp

lemma elems_eq:
  assumes "gapped ps"
  shows "elems ps = sorted_list_of_set (cov ps)"
proof -
  have "sorted (elems ps)" "distinct (elems ps)"
    using elems_sorted [OF assms] strict_sorted_iff by blast+
  then show ?thesis using sorted_list_of_set.idem_if_sorted_distinct [of "elems ps"] by simp
qed

lemma length_elems: "gapped ps \<Longrightarrow> length (elems ps) = card (cov ps)"
  by (simp add: elems_eq cov_def)

lemma LowerBound_eq:
  assumes "bounds_ok n ps" "gapped ps"
  shows "IntervalSet_LowerBound (is_of n ps) = Some (if cov ps = {} then None else Some (bits_of_nat n (Min (cov ps))))"
proof (cases ps)
  case (Cons p qs)
  have "Min (cov ps) = fst p"
    using gapped_head [of p qs] assms Cons by (intro Min_eqI) (auto simp: cov_def)
  then show ?thesis using Cons assms by (simp add: IntervalSet_LowerBound_def)
qed (simp add: IntervalSet_LowerBound_def)

lemma gapped_last:
  assumes "bounds_ok n ps" "gapped ps" "ps \<noteq> []"
  shows "Max (cov ps) = snd (last ps)"
proof (rule Max_eqI)
  show "finite (cov ps)" by (simp add: cov_def)
  show "snd (last ps) \<in> cov ps" using assms(1,3) last_in_set [OF assms(3)] by (force simp: cov_def bounds_ok_def)
  show "v \<le> snd (last ps)" if "v \<in> cov ps" for v
    using assms that
  proof (induction ps)
    case (Cons p ps)
    show ?case
    proof (cases "ps = []")
      case False
      then have "last ps \<in> set ps" by simp
      then have "snd p < fst (last ps)" "fst (last ps) \<le> snd (last ps)" using Cons.prems(1,2) by (auto simp: bounds_ok_def)
      then show ?thesis using False Cons by auto
    qed (use Cons in simp)
  qed simp
qed

lemma UpperBound_eq:
  assumes "bounds_ok n ps" "gapped ps"
  shows "IntervalSet_UpperBound (is_of n ps) = Some (if cov ps = {} then None else Some (bits_of_nat n (Max (cov ps))))"
proof (cases "ps = []")
  case False
  then have "last (ivs n ps) = iv_of n (fst (last ps)) (snd (last ps))" by (simp add: ivs_def last_map)
  then show ?thesis using False gapped_last [OF assms False] cov_empty_iff [OF assms(1)]
    by (auto simp: IntervalSet_UpperBound_def split: list.splits)
qed (simp add: IntervalSet_UpperBound_def)

lemma ConvexHull_set_eq:
  assumes "bounds_ok n ps" "gapped ps"
  shows "IntervalSet_ConvexHull (is_of n ps) =
    Some (if cov ps = {} then None else Some (iv_of n (Min (cov ps)) (Max (cov ps))))"
  by (simp add: IntervalSet_ConvexHull_def LowerBound_eq [OF assms] UpperBound_eq [OF assms] Interval_new_of)

lemma ForEachElement_set_eq:
  assumes "bounds_ok n ps" "gapped ps"
  shows "IntervalSet_ForEachElement cb (is_of n ps) st =
    Some (run_callback cb st (map (bits_of_nat n) (sorted_list_of_set (cov ps))))"
proof -
  have "for_each_interval cb (ivs n ps) st = Some (run_callback cb st (map (bits_of_nat n) (elems ps)))"
    using assms(1)
  proof (induction ps arbitrary: st)
    case (Cons p ps)
    then have "iv_order (iv_of n (fst p) (snd p)) = [fst p..<Suc (snd p)]" by (simp add: iv_order_def)
    then show ?case using Cons
      by (simp add: ForEachElement_eq run_callback_append Let_def del: upt_Suc)
  qed simp
  then show ?thesis using elems_eq [OF assms(2)] by (simp add: IntervalSet_ForEachElement_def)
qed

subsection \<open>Size and index\<close>

lemma Size_loop_eq:
  assumes "bignum_spec B val" "bounds_ok n ps" "acc + length (elems ps) < 2 ^ 63"
  shows "Size_loop B (ivs n ps) acc = Some (Some (acc + length (elems ps)))"
  using assms(2,3)
proof (induction ps arbitrary: acc)
  case (Cons p ps)
  define k where "k = Suc (snd p) - fst p"
  have "Interval_Size B (iv_of n (fst p) (snd p)) = Some (Some k)"
    using Cons.prems Size_eq [OF assms(1), of "iv_of n (fst p) (snd p)"] by (simp add: k_def del: upt_Suc)
  moreover have "length (elems (p # ps)) = k + length (elems ps)" by (simp add: k_def del: upt_Suc)
  ultimately show ?case using Cons.IH [of "acc + k"] Cons.prems by (simp del: elems_simps)
qed simp

lemma Size_set_eq:
  assumes "bignum_spec B val" "bounds_ok n ps" "gapped ps" "card (cov ps) < 2 ^ 63"
  shows "IntervalSet_Size B (is_of n ps) = Some (Some (card (cov ps)))"
  using Size_loop_eq [OF assms(1,2), of 0] assms(4) length_elems [OF assms(3)] by (simp add: IntervalSet_Size_def)

lemma Index_loop_eq:
  assumes "bignum_spec B val" "bounds_ok n ps" "i < 2 ^ (n + 1)"
  shows "\<exists>j r. Index_loop B (ivs n ps) (bits_of_nat (n + 1) i) = Some (bits_of_nat (n + 1) j, r) \<and>
    (if i < length (elems ps)
     then \<exists>p. r = Some (iv_of n (fst p) (snd p)) \<and> j < 2 ^ (n + 1) \<and> fst p + j \<le> snd p \<and> snd p < 2 ^ n \<and> elems ps ! i = fst p + j
     else r = None)"
  using assms(2,3)
proof (induction ps arbitrary: i)
  case (Cons p ps)
  let ?k = "Suc (snd p) - fst p"
  have p: "fst p \<le> snd p" "snd p < 2 ^ n" using Cons.prems(1) by auto
  then have k: "?k < 2 ^ (n + 1)" by (simp add: less_imp_diff_less)
  have sz: "Interval_SizeBits B (iv_of n (fst p) (snd p)) = Some (bits_of_nat (n + 1) ?k)"
    using SizeBits_proper [OF assms(1) p] p by (simp add: Suc_diff_le)
  have lt: "bits_ops_ULessThan (bits_of_nat (n + 1) i) (bits_of_nat (n + 1) ?k) \<longleftrightarrow> i < ?k"
    using Cons.prems(2) k by (simp add: unsigned_compare del: power_Suc)
  show ?case
  proof (cases "i < ?k")
    case True
    then have "elems (p # ps) ! i = fst p + i" by (simp add: nth_append del: upt_Suc)
    then show ?thesis using True sz lt Cons.prems(2) p
      by (intro exI [of _ i] exI [of _ "Some (iv_of n (fst p) (snd p))"]) (auto simp del: upt_Suc)
  next
    case False
    have "bits_ops_Sub B (bits_of_nat (n + 1) i) (bits_of_nat (n + 1) ?k) = Some (bits_of_nat (n + 1) (i - ?k))"
      using Sub_eq(2) [OF assms(1), of "bits_of_nat (n + 1) i" "bits_of_nat (n + 1) ?k"] False Cons.prems(2) k
        bits_of_int_of_nat [of "n + 1" "i - ?k"] by (simp add: of_nat_diff del: power_Suc)
    then have e: "Index_loop B (ivs n (p # ps)) (bits_of_nat (n + 1) i) = Index_loop B (ivs n ps) (bits_of_nat (n + 1) (i - ?k))"
      using sz lt False by simp
    have e': "elems (p # ps) ! i = elems ps ! (i - ?k)" "i < length (elems (p # ps)) \<longleftrightarrow> i - ?k < length (elems ps)"
      using False by (auto simp: nth_append simp del: upt_Suc)
    show ?thesis unfolding e e' using Cons.prems by (intro Cons.IH) (auto simp: less_imp_diff_less)
  qed
qed auto

lemma Index_set_eq:
  assumes "bignum_spec B val" "bounds_ok n ps" "gapped ps" "bm_wf i" "Bits_bit_count i = n"
  shows "IntervalSet_Index B (is_of n ps) i =
    Some (if uval i < card (cov ps) then Some (bits_of_nat n (sorted_list_of_set (cov ps) ! uval i)) else None)"
proof -
  have ui: "uval i < 2 ^ n" using uval_less [of i] assms(5) by simp
  then have z: "bits_ops_ZeroExtend i (n + 1) = Some (bits_of_nat (n + 1) (uval i))" using assms(4,5) by (simp add: ZeroExtend_eq)
  obtain j r where r: "Index_loop B (ivs n ps) (bits_of_nat (n + 1) (uval i)) = Some (bits_of_nat (n + 1) j, r)"
    "if uval i < length (elems ps)
     then \<exists>p. r = Some (iv_of n (fst p) (snd p)) \<and> j < 2 ^ (n + 1) \<and> fst p + j \<le> snd p \<and> snd p < 2 ^ n \<and> elems ps ! uval i = fst p + j
     else r = None"
    using Index_loop_eq [OF assms(1,2), of "uval i"] ui by auto
  have bc: "IntervalSet_BitCount (is_of n ps) = Some n" by (simp add: IntervalSet_BitCount_def)
  show ?thesis
  proof (cases "uval i < length (elems ps)")
    case False
    then show ?thesis using r z bc assms(5) length_elems [OF assms(3)] by (simp add: IntervalSet_Index_def)
  next
    case True
    then obtain p where p: "r = Some (iv_of n (fst p) (snd p))" "j < 2 ^ (n + 1)" "fst p + j \<le> snd p" "snd p < 2 ^ n"
      "elems ps ! uval i = fst p + j" using r(2) by auto
    have l: "fst p < 2 ^ n" "fst p + j < 2 ^ n" "fst p < 2 ^ (n + 1)" using p(3,4) by simp_all
    have zb: "bits_ops_ZeroExtend (bits_of_nat n (fst p)) (n + 1) = Some (bits_of_nat (n + 1) (fst p))" using l by (simp add: ZeroExtend_eq)
    have add: "bits_ops_Add B (bits_of_nat (n + 1) j) (bits_of_nat (n + 1) (fst p)) = Some (bits_of_nat (n + 1) (fst p + j))"
      using Add_eq(2) [OF assms(1), of "bits_of_nat (n + 1) j" "bits_of_nat (n + 1) (fst p)"] p(2) l(3)
      by (simp add: add.commute del: power_Suc)
    have msb: "\<not> Bits_msb (bits_of_nat (n + 1) (fst p + j))" 
      using l(2) nat_less_exp_iff_bits [of "fst p + j" n] by (simp add: Bits_msb_def Bits_Get_nth)
    have sl: "Bits_Slice (bits_of_nat (n + 1) (fst p + j)) 0 n = Some (bits_of_nat n (fst p + j))"
      using l(2) by (simp add: Slice_uval)
    show ?thesis
      using True r(1) p(1,5) z bc zb add msb sl assms(5) length_elems [OF assms(3)] elems_eq [OF assms(3)]
      by (simp add: IntervalSet_Index_def)
  qed
qed

subsection \<open>Disjointness and single values\<close>

lemma Disjoint_loop_eq:
  assumes "bounds_ok n A" "bounds_ok n B" "gapped A" "gapped B"
  shows "Disjoint_loop (ivs n A) (ivs n B) = Some (cov A \<inter> cov B = {})"
  using assms
proof (induction "length A + length B" arbitrary: A B rule: less_induct)
  case less
  show ?case
  proof (cases "A = [] \<or> B = []")
    case True
    then show ?thesis by (cases "ivs n A"; cases "ivs n B") auto
  next
    case False
    then obtain p A' q B' where e: "A = p # A'" "B = q # B'" by (cases A; cases B) auto
    note prems = less.prems [unfolded e]
    have b: "fst p \<le> snd p" "snd p < 2 ^ n" "fst q \<le> snd q" "snd q < 2 ^ n" using prems by auto
    have o: "Interval_Overlaps (iv_of n (fst p) (snd p)) (iv_of n (fst q) (snd q)) = Some (fst q \<le> snd p \<and> fst p \<le> snd q)"
      by (rule Overlaps_of [OF b])
    have l: "Interval_less (iv_of n (fst p) (snd p)) (iv_of n (fst q) (snd q)) \<longleftrightarrow> fst p < fst q \<or> fst p = fst q \<and> snd p < snd q"
      using b by (intro cmp_of(1)) auto
    consider "fst q \<le> snd p \<and> fst p \<le> snd q" | "snd p < fst q" | "snd q < fst p" by linarith
    then show ?thesis
    proof cases
      case 1
      then have "max (fst p) (fst q) \<in> cov A \<inter> cov B" using b unfolding e by auto
      then have "cov A \<inter> cov B \<noteq> {}" by blast
      then show ?thesis using o 1 unfolding e by simp
    next
      case 2
      have "v \<notin> {fst p..snd p}" if "v \<in> cov B" for v using gapped_head [OF b(3) prems(4), of v] that 2 unfolding e by auto
      then have "cov A \<inter> cov B = cov A' \<inter> cov B" unfolding e by auto
      moreover have "Disjoint_loop (ivs n A') (ivs n B) = Some (cov A' \<inter> cov B = {})" using less.hyps [of A' B] prems e by simp
      ultimately show ?thesis using o l 2 b unfolding e by simp
    next
      case 3
      have "v \<notin> {fst q..snd q}" if "v \<in> cov A" for v using gapped_head [OF b(1) prems(3), of v] that 3 unfolding e by auto
      then have "cov A \<inter> cov B = cov A \<inter> cov B'" unfolding e by auto
      moreover have "Disjoint_loop (ivs n A) (ivs n B') = Some (cov A \<inter> cov B' = {})" using less.hyps [of A B'] prems e by simp
      ultimately show ?thesis using o l 3 b unfolding e by simp
    qed
  qed
qed

lemma Disjoint_iff:
  assumes "bounds_ok n A" "bounds_ok n B" "gapped A" "gapped B"
  shows "IntervalSet_Disjoint (is_of n A) (is_of n B) = Some (cov A \<inter> cov B = {})"
proof -
  note less = cov_less [OF assms(1)] cov_less [OF assms(2)]
  have fin: "finite (cov A)" "finite (cov B)" by (auto simp: cov_def)
  consider "cov A = {} \<or> cov B = {}" | "cov A \<noteq> {}" "cov B \<noteq> {}" "cov A = {..<2 ^ n} \<or> cov B = {..<2 ^ n}"
    | "cov A \<noteq> {}" "cov B \<noteq> {}" "cov A \<noteq> {..<2 ^ n}" "cov B \<noteq> {..<2 ^ n}" by blast
  then show ?thesis
  proof cases
    case 1
    then show ?thesis using assms by (auto simp: IntervalSet_Disjoint_def IsEmpty_iff)
  next
    case 2
    then have "cov A \<inter> cov B \<noteq> {}" using less by blast
    then show ?thesis using 2 assms by (simp add: IntervalSet_Disjoint_def IsEmpty_iff IsMaximal_set_iff)
  next
    case 3
    have m: "Min (cov A) \<in> cov A" "Max (cov A) \<in> cov A" "Min (cov B) \<in> cov B" "Max (cov B) \<in> cov B" using fin 3 by simp_all
    have le: "Min (cov A) \<le> Max (cov A)" "Min (cov B) \<le> Max (cov B)" using fin m by simp_all
    have d: "Interval_Disjoint (iv_of n (Min (cov A)) (Max (cov A))) (iv_of n (Min (cov B)) (Max (cov B))) =
        Some (\<not> (Min (cov B) \<le> Max (cov A) \<and> Min (cov A) \<le> Max (cov B)))"
      using Overlaps_of [OF le(1) less(1) [OF m(2)] le(2) less(2) [OF m(4)]] by (simp add: Interval_Disjoint_def)
    have "cov A \<inter> cov B = {}" if "\<not> (Min (cov B) \<le> Max (cov A) \<and> Min (cov A) \<le> Max (cov B))"
      using that fin by (meson Int_emptyI Max_ge Min_le order_trans)
    then show ?thesis using 3 assms d
      by (auto simp: IntervalSet_Disjoint_def IsEmpty_iff IsMaximal_set_iff ConvexHull_set_eq Disjoint_loop_eq
          IntervalSet_Intervals_def)
  qed
qed

text \<open>The test for a single value also accepts the empty set, on which fetching the value then fails.\<close>

lemma IsPrecise_set_iff:
  assumes "bounds_ok n ps" "gapped ps"
  shows "IntervalSet_IsPrecise (is_of n ps) = Some (cov ps = {} \<or> (\<exists>v. cov ps = {v}))"
proof -
  have single: "Interval_IsPrecise (iv_of n (fst p) (snd p)) = Some (fst p = snd p)" if "fst p \<le> snd p" "snd p < 2 ^ n" for p
    using that IsPrecise_iff [of "iv_of n (fst p) (snd p)"] iv_points_single [of "iv_of n (fst p) (snd p)"] by simp
  consider "ps = []" | p where "ps = [p]" | p q qs where "ps = p # q # qs" by (cases ps rule: remdups_adj.cases) auto
  then show ?thesis
  proof cases
    case 2
    then have "(\<exists>v. cov ps = {v}) \<longleftrightarrow> fst p = snd p" using assms by (auto simp: atLeastAtMost_singleton_iff)
    then show ?thesis using 2 assms single [of p] by (auto simp: IntervalSet_IsPrecise_def)
  next
    case 3
    then have b: "fst p \<le> snd p" "snd p < 2 ^ n" "fst q \<le> snd q" "snd q < 2 ^ n" "snd p + 1 < fst q" using assms by auto
    then have "fst p \<in> cov ps" "fst q \<in> cov ps" "fst p \<noteq> fst q" using 3 by auto
    then have "\<not> (cov ps = {} \<or> (\<exists>v. cov ps = {v}))" by auto
    moreover have "\<not> Interval_eq (iv_of n (fst p) (snd p)) (iv_of n (fst q) (snd q))" using b by (subst cmp_of) auto
    ultimately show ?thesis using 3 single [OF b(1,2)] by (cases "fst p = snd p") (simp_all add: IntervalSet_IsPrecise_def)
  qed (simp add: IntervalSet_IsPrecise_def)
qed

lemma GetPreciseValue_eq:
  assumes "bounds_ok n ps" "gapped ps"
  shows "IntervalSet_GetPreciseValue (is_of n ps) =
    (if cov ps = {} then None else Some (if \<exists>v. cov ps = {v} then Some (bits_of_nat n (Min (cov ps))) else None))"
proof (cases "\<exists>v. cov ps = {v}")
  case True
  then obtain v where v: "cov ps = {v}" by blast
  then have "v \<in> cov ps" by simp
  then have less: "v < 2 ^ n" using cov_less [OF assms(1)] by blast
  then have e: "ps = [(v, v)]" using assms v by (intro gapped_unique [where n = n]) simp_all
  then show ?thesis using v less IsPrecise_set_iff [OF assms] IsPrecise_iff [of "iv_of n v v"]
    by (simp add: IntervalSet_GetPreciseValue_def Interval_GetPreciseValue_def)
next
  case False
  then show ?thesis using IsPrecise_set_iff [OF assms] cov_empty_iff [OF assms(1)]
    by (auto simp: IntervalSet_GetPreciseValue_def)
qed

section \<open>The interface of canonical set representations\<close>

text \<open>
  What clients of interval sets rely on: the combining operations return, on valid normalized sets, valid
  normalized sets for the union, intersection and complement, and there is one such set for any points. The
  laws of a Boolean algebra then hold for the representations themselves, failures included.
\<close>

locale canonical_sets =
  fixes ok :: "'s \<Rightarrow> bool" and points :: "'s \<Rightarrow> 'a set" and univ :: "'a set"
    and join meet :: "'s \<Rightarrow> 's \<Rightarrow> 's option" and compl :: "'s \<Rightarrow> 's option"
  assumes within: "ok s \<Longrightarrow> points s \<subseteq> univ"
    and canonical: "ok s \<Longrightarrow> ok t \<Longrightarrow> points s = points t \<Longrightarrow> s = t"
    and join_total: "ok s \<Longrightarrow> ok t \<Longrightarrow> \<exists>u. join s t = Some u \<and> ok u \<and> points u = points s \<union> points t"
    and meet_total: "ok s \<Longrightarrow> ok t \<Longrightarrow> \<exists>u. meet s t = Some u \<and> ok u \<and> points u = points s \<inter> points t"
    and compl_total: "ok s \<Longrightarrow> \<exists>u. compl s = Some u \<and> ok u \<and> points u = univ - points s"
begin

lemma join_eqI: "ok s \<Longrightarrow> ok t \<Longrightarrow> ok u \<Longrightarrow> points u = points s \<union> points t \<Longrightarrow> join s t = Some u"
  using join_total canonical by metis

lemma meet_eqI: "ok s \<Longrightarrow> ok t \<Longrightarrow> ok u \<Longrightarrow> points u = points s \<inter> points t \<Longrightarrow> meet s t = Some u"
  using meet_total canonical by metis

lemma compl_eqI: "ok s \<Longrightarrow> ok u \<Longrightarrow> points u = univ - points s \<Longrightarrow> compl s = Some u"
  using compl_total canonical by metis

lemma join_commute: "ok s \<Longrightarrow> ok t \<Longrightarrow> join s t = join t s"
  using join_total [of t s] join_eqI [of s t] by (metis Un_commute)

lemma meet_commute: "ok s \<Longrightarrow> ok t \<Longrightarrow> meet s t = meet t s"
  using meet_total [of t s] meet_eqI [of s t] by (metis Int_commute)

lemma absorb: "ok s \<Longrightarrow> ok t \<Longrightarrow> join s t \<bind> meet s = Some s"
proof -
  assume s: "ok s" and t: "ok t"
  obtain u where u: "join s t = Some u" "ok u" "points u = points s \<union> points t" using join_total [OF s t] by blast
  then have "meet s u = Some s" using s by (intro meet_eqI) auto
  then show ?thesis using u(1) by simp
qed

lemma compl_compl: "ok s \<Longrightarrow> compl s \<bind> compl = Some s"
proof -
  assume s: "ok s"
  obtain u where u: "compl s = Some u" "ok u" "points u = univ - points s" using compl_total [OF s] by blast
  then have "compl u = Some s" using s within [OF s] by (intro compl_eqI) auto
  then show ?thesis using u(1) by simp
qed

lemma de_morgan: "ok s \<Longrightarrow> ok t \<Longrightarrow> join s t \<bind> compl = compl s \<bind> (\<lambda>a. compl t \<bind> meet a)"
proof -
  assume s: "ok s" and t: "ok t"
  obtain u where u: "join s t = Some u" "ok u" "points u = points s \<union> points t" using join_total [OF s t] by blast
  obtain a where a: "compl s = Some a" "ok a" "points a = univ - points s" using compl_total [OF s] by blast
  obtain b where b: "compl t = Some b" "ok b" "points b = univ - points t" using compl_total [OF t] by blast
  obtain c where c: "compl u = Some c" "ok c" "points c = univ - points u" using compl_total [OF u(2)] by blast
  have "meet a b = Some c" using a b c u by (intro meet_eqI) auto
  then show ?thesis using u(1) a(1) b(1) c(1) by simp
qed

end

definition is_normal :: "nat \<Rightarrow> IntervalSet \<Rightarrow> bool" where
  "is_normal n s \<longleftrightarrow> is_wf n s \<and> is_is_normalized s"

lemma is_normal_cases:
  assumes "is_normal n s"
  obtains ps where "s = is_of n ps" "bounds_ok n ps" "gapped ps" "is_points s = cov ps"
  using assms is_wf_cases unfolding is_normal_def by blast

lemma is_normal_of [intro]: "bounds_ok n ps \<Longrightarrow> gapped ps \<Longrightarrow> is_normal n (is_of n ps)"
  by (auto simp: is_normal_def)

lemma Normalize_total:
  "is_wf n s \<Longrightarrow> \<exists>u. IntervalSet_Normalize s = Some u \<and> is_normal n u \<and> is_points u = is_points s"
  by (metis Normalize_eq is_normal_of is_points_of)

interpretation isa: canonical_sets "is_normal n" is_points "{..<2 ^ n}" IntervalSet_Combine IntervalSet_Intersect
  IntervalSet_Complement for n
proof
  show "is_points s \<subseteq> {..<2 ^ n}" if "is_normal n s" for s using that is_points_less by (auto simp: is_normal_def)
  show "s = t" if "is_normal n s" "is_normal n t" "is_points s = is_points t" for s t
    using that by (metis is_normal_cases gapped_unique)
  show "\<exists>u. IntervalSet_Combine s t = Some u \<and> is_normal n u \<and> is_points u = is_points s \<union> is_points t"
    if "is_normal n s" "is_normal n t" for s t
    using that Combine_eq [of n s t] unfolding is_normal_def by (metis is_points_of is_wf_of is_of_simps(1))
  show "\<exists>u. IntervalSet_Intersect s t = Some u \<and> is_normal n u \<and> is_points u = is_points s \<inter> is_points t"
    if "is_normal n s" "is_normal n t" for s t
    using that Intersect_set_eq [of n s t] unfolding is_normal_def by (metis is_points_of is_wf_of is_of_simps(1))
  show "\<exists>u. IntervalSet_Complement s = Some u \<and> is_normal n u \<and> is_points u = {..<2 ^ n} - is_points s"
    if "is_normal n s" for s
    using that Complement_set_eq [of n s] unfolding is_normal_def by (metis is_points_of is_wf_of is_of_simps(1))
qed

end
