(* ===== verification/Interval_Ops.thy ===== *)
theory Interval_Ops
  imports Interval_Set_Core Ternary_Evaluator
begin

text \<open>
  Models \<open>xls/ir/interval_ops.cc\<close>: the operations of the range analysis on interval sets, and the
  conversions between interval sets and ternary vectors. The lemmas show soundness: whenever the operands
  are members of the argument sets, the result of the operation on bit vectors is a member of the set
  returned. One locale carries the argument for all operations that are monotone or antitone in each
  operand. \<open>None\<close> is a failed \<open>CHECK\<close> or the use of an empty optional.
\<close>

unbundle bit_operations_syntax

section \<open>Ternary vectors and intervals\<close>

definition ExtractTernaryInterval :: "Interval \<Rightarrow> TernaryVector option" where
  "ExtractTernaryInterval interval = do {
     lcp \<leftarrow> bits_ops_LongestCommonPrefixMSB [iv_lower interval, iv_upper interval];
     n \<leftarrow> Interval_BitCount interval;
     Some (replicate (n - Bits_bit_count lcp) kUnknown @
           map (\<lambda>j. if Bits_Get lcp j then kKnownOne else kKnownZero) [0..<Bits_bit_count lcp])
   }"

fun extract_rest :: "TernaryVector \<Rightarrow> Interval list \<Rightarrow> TernaryVector option" where
  "extract_rest acc [] = Some acc"
| "extract_rest acc (i # is) = do {
     t \<leftarrow> ExtractTernaryInterval i;
     acc' \<leftarrow> ternary_ops_UpdateWithIntersection acc t;
     extract_rest acc' is
   }"

definition ExtractTernaryVector :: "IntervalSet \<Rightarrow> TernaryVector option" where
  "ExtractTernaryVector intervals = do {
     is \<leftarrow> IntervalSet_Intervals intervals;
     case is of
       [] \<Rightarrow> None
     | i # rest \<Rightarrow> do { t \<leftarrow> ExtractTernaryInterval i; extract_rest t rest }
   }"

record KnownBits =
  kb_known_bits :: Bits
  kb_known_bit_values :: Bits

definition ExtractKnownBits :: "IntervalSet \<Rightarrow> KnownBits option" where
  "ExtractKnownBits intervals = do {
     t \<leftarrow> ExtractTernaryVector intervals;
     Some \<lparr>kb_known_bits = ternary_ops_ToKnownBits t, kb_known_bit_values = ternary_ops_ToKnownBitsValues t\<rparr>
   }"

text \<open>The positions of the last unknown bits from \<open>lsb_xs\<close> on, one more than allowed at most.\<close>

definition x_locations :: "TernaryVector \<Rightarrow> nat \<Rightarrow> nat \<Rightarrow> nat list" where
  "x_locations tern max_interval_bits lsb_xs =
     fold (\<lambda>i q. if ternary_ops_IsUnknown (tern ! i)
                 then if length (q @ [i]) > max_interval_bits + 1 then tl (q @ [i]) else q @ [i]
                 else q) [lsb_xs..<length tern] []"

definition add_group :: "nat \<Rightarrow> IntervalSet \<Rightarrow> Bits \<Rightarrow> IntervalSet option" where
  "add_group lsb_xs s high_bits = do {
     lo \<leftarrow> bits_ops_Concat [high_bits, Bits_new lsb_xs];
     hi \<leftarrow> bits_ops_Concat [high_bits, Bits_AllOnes lsb_xs];
     iv \<leftarrow> Interval_Closed lo hi;
     IntervalSet_AddInterval s iv
   }"

fun add_groups :: "nat \<Rightarrow> Bits list \<Rightarrow> IntervalSet \<Rightarrow> IntervalSet option" where
  "add_groups lsb_xs [] s = Some s"
| "add_groups lsb_xs (v # vs) s = do { s' \<leftarrow> add_group lsb_xs s v; add_groups lsb_xs vs s' }"

definition FromTernary :: "TernaryVector \<Rightarrow> nat \<Rightarrow> IntervalSet option" where
  "FromTernary tern max_interval_bits =
     (if ternary_ops_IsFullyKnown tern then IntervalSet_Precise (ternary_ops_ToKnownBitsValues tern)
      else
        let first_known = length (takeWhile (\<lambda>t. \<not> ternary_ops_IsKnown t) tern);
            locations = x_locations tern max_interval_bits first_known;
            extend = length locations > max_interval_bits;
            lsb_xs = (if extend then hd locations + 1 else first_known);
            remaining = (if extend then tl locations else locations)
        in if remaining = [] then do {
             s \<leftarrow> add_group lsb_xs (IntervalSet_new (length tern)) (ternary_ops_ToKnownBitsValues (drop lsb_xs tern));
             IntervalSet_Normalize s
           }
           else do {
             values \<leftarrow> AllBitsValues (drop lsb_xs tern);
             s \<leftarrow> add_groups lsb_xs values (IntervalSet_new (length tern));
             IntervalSet_Normalize s
           })"

fun could_be_le :: "TernaryVector \<Rightarrow> Bits \<Rightarrow> nat \<Rightarrow> bool" where
  "could_be_le t L 0 = True"
| "could_be_le t L (Suc i) =
     (if Bits_Get L i then if t ! i \<noteq> kKnownOne then True else could_be_le t L i
      else if t ! i = kKnownOne then False else could_be_le t L i)"

fun could_be_ge :: "TernaryVector \<Rightarrow> Bits \<Rightarrow> nat \<Rightarrow> bool" where
  "could_be_ge t U 0 = True"
| "could_be_ge t U (Suc i) =
     (if Bits_Get U i then if t ! i = kKnownZero then False else could_be_ge t U i
      else if t ! i \<noteq> kKnownZero then True else could_be_ge t U i)"

definition CoversTernary :: "Interval \<Rightarrow> TernaryVector \<Rightarrow> bool option" where
  "CoversTernary interval ternary = do {
     n \<leftarrow> Interval_BitCount interval;
     precise \<leftarrow> Interval_IsPrecise interval;
     if n \<noteq> length ternary then Some False
     else if ternary_ops_IsFullyKnown ternary
     then Interval_Covers interval (ternary_ops_ToKnownBitsValues ternary)
     else if precise then Some (ternary_ops_IsCompatible ternary (iv_lower interval))
     else do {
       lcp \<leftarrow> bits_ops_LongestCommonPrefixMSB [iv_lower interval, iv_upper interval];
       let k = length ternary - Bits_bit_count lcp;
       let proper = Bits_GetFromMsb (iv_upper interval) (Bits_bit_count lcp);
       let prefix = drop k ternary;
       if proper \<and> \<not> ternary_ops_IsCompatible prefix lcp then Some False
       else if \<not> proper \<and> \<not> (ternary_ops_IsFullyKnown prefix \<and>
                              InlineBitmap_eq (ternary_ops_ToKnownBitsValues prefix) lcp) then Some True
       else if k = 0 then None
       else do {
         let x = ternary ! (k - 1);
         L \<leftarrow> Bits_Slice (iv_lower interval) 0 (k - 1);
         U \<leftarrow> Bits_Slice (iv_upper interval) 0 (k - 1);
         let t = take (k - 1) ternary;
         Some (if ternary_ops_IsKnown x
               then if (x = kKnownZero) = proper then could_be_ge t L (length t) else could_be_le t U (length t)
               else could_be_le t U (length t) \<or> could_be_ge t L (length t))
       }
     }
   }"

definition CoversTernary_set :: "IntervalSet \<Rightarrow> TernaryVector \<Rightarrow> bool option" where
  "CoversTernary_set intervals ternary = do {
     n \<leftarrow> IntervalSet_BitCount intervals;
     if n \<noteq> length ternary then Some False
     else do {
       is \<leftarrow> IntervalSet_Intervals intervals;
       any_interval (\<lambda>i. CoversTernary i ternary) is
     }
   }"

section \<open>Limiting the number of intervals\<close>

text \<open>
  The items of the merge list stand in the order of the intrusive list. Picking the least item of the heap
  is picking it from that list, since no two items compare equal; the order in which the heap holds the
  items that remain is lost when the result is normalized.
\<close>

record MergeInterval =
  mi_final_interval :: Interval
  mi_gap_with_previous :: Bits

definition MergeInterval_less :: "MergeInterval \<Rightarrow> MergeInterval \<Rightarrow> bool" where
  "MergeInterval_less l r =
     (let gap_order = bits_ops_UCmp (mi_gap_with_previous l) (mi_gap_with_previous r)
      in if gap_order \<noteq> 0 then gap_order < 0
         else bits_ops_UCmp (iv_lower (mi_final_interval l)) (iv_lower (mi_final_interval r)) < 0)"

fun merge_items :: "'bn bignum \<Rightarrow> Interval \<Rightarrow> Interval list \<Rightarrow> MergeInterval list option" where
  "merge_items B prev [] = Some []"
| "merge_items B prev (iv # is) = do {
     distance \<leftarrow> bits_ops_Sub B (iv_lower iv) (iv_upper prev);
     rest \<leftarrow> merge_items B iv is;
     Some (\<lparr>mi_final_interval = iv, mi_gap_with_previous = distance\<rparr> # rest)
   }"

fun min_element :: "nat \<Rightarrow> MergeInterval list \<Rightarrow> nat \<Rightarrow> MergeInterval \<Rightarrow> nat" where
  "min_element best [] i m = best"
| "min_element best (x # xs) i m =
     (if MergeInterval_less x m then min_element i xs (Suc i) x else min_element best xs (Suc i) m)"

text \<open>The item at a position is merged into the one before it, which is \<open>first\<close> for the first.\<close>

definition merge_into_previous ::
    "nat \<Rightarrow> Interval \<Rightarrow> MergeInterval list \<Rightarrow> (Interval \<times> MergeInterval list) option" where
  "merge_into_previous k first ms =
     (let m = ms ! k;
          rest = take k ms @ drop (Suc k) ms
      in if k = 0 then do {
           iv \<leftarrow> Interval_new (iv_lower first) (iv_upper (mi_final_interval m));
           Some (iv, rest)
         }
         else do {
           let prev = ms ! (k - 1);
           iv \<leftarrow> Interval_new (iv_lower (mi_final_interval prev)) (iv_upper (mi_final_interval m));
           Some (first, rest[k - 1 := prev\<lparr>mi_final_interval := iv\<rparr>])
         })"

lemma min_element_less: "best < i \<Longrightarrow> min_element best xs i m < i + length xs"
proof (induction best xs i m rule: min_element.induct)
  case (2 best x xs i m)
  then show ?case by (cases "MergeInterval_less x m") auto
qed simp

lemma merge_into_previous_length:
  "k < length ms \<Longrightarrow> merge_into_previous k first ms = Some (first', ms') \<Longrightarrow> length ms' = length ms - 1"
  by (auto simp: merge_into_previous_def Let_def split: if_splits Option.bind_splits)

text \<open>
  The loop runs while \<open>merge_list.size() > size - 1\<close>, a comparison of unsigned values that is false
  for \<open>size\<close> zero.
\<close>

function merge_loop :: "nat \<Rightarrow> Interval \<Rightarrow> MergeInterval list \<Rightarrow> (Interval \<times> MergeInterval list) option" where
  "merge_loop sz first [] = Some (first, [])"
| "merge_loop sz first (m # ms) =
     (if sz \<noteq> 0 \<and> length (m # ms) > sz - 1 then
        (case merge_into_previous (min_element 0 ms 1 m) first (m # ms) of
           None \<Rightarrow> None
         | Some (first', ms') \<Rightarrow> merge_loop sz first' ms')
      else Some (first, m # ms))"
  by pat_completeness auto
termination
proof (relation "measure (\<lambda>(sz, first, ms). length ms)")
  fix sz :: nat and first m ms x first' ms'
  assume "merge_into_previous (min_element 0 ms 1 m) first (m # ms) = Some x" "(first', ms') = x"
  then show "((sz, first', ms'), sz, first, m # ms) \<in> measure (\<lambda>(sz, first, ms). length ms)"
    using merge_into_previous_length [of "min_element 0 ms 1 m" "m # ms" first] min_element_less [of 0 1 ms m] by auto
qed simp

definition MinimizeIntervals :: "'bn bignum \<Rightarrow> IntervalSet \<Rightarrow> nat \<Rightarrow> IntervalSet option" where
  "MinimizeIntervals B interval_set sz = do {
     s \<leftarrow> IntervalSet_Normalize interval_set;
     if IntervalSet_NumberOfIntervals s \<le> sz then Some s
     else if sz = 1 then do {
       n \<leftarrow> IntervalSet_BitCount s;
       hull \<leftarrow> IntervalSet_ConvexHull s;
       h \<leftarrow> hull;
       res \<leftarrow> IntervalSet_AddInterval (IntervalSet_new n) h;
       IntervalSet_Normalize res
     }
     else do {
       is \<leftarrow> IntervalSet_Intervals s;
       case is of
         [] \<Rightarrow> None
       | first # rest \<Rightarrow> do {
           ms \<leftarrow> merge_items B first rest;
           r \<leftarrow> merge_loop sz first ms;
           res \<leftarrow> IntervalSet_SetIntervals IntervalSet_default (fst r # map mi_final_interval (snd r));
           IntervalSet_Normalize res
         }
     }
   }"

section \<open>Operations that are monotone in each operand\<close>

datatype Tonicity = Monotone | Antitone

record ArgumentBehavior =
  ab_tonicity :: Tonicity
  ab_size_preserving :: bool

definition kMonotoneSizePreserving :: ArgumentBehavior where
  "kMonotoneSizePreserving = \<lparr>ab_tonicity = Monotone, ab_size_preserving = True\<rparr>"

definition kMonotoneNonSizePreserving :: ArgumentBehavior where
  "kMonotoneNonSizePreserving = \<lparr>ab_tonicity = Monotone, ab_size_preserving = False\<rparr>"

definition kAntitoneSizePreserving :: ArgumentBehavior where
  "kAntitoneSizePreserving = \<lparr>ab_tonicity = Antitone, ab_size_preserving = True\<rparr>"

definition kAntitoneNonSizePreserving :: ArgumentBehavior where
  "kAntitoneNonSizePreserving = \<lparr>ab_tonicity = Antitone, ab_size_preserving = False\<rparr>"

definition OneBitRangeToTernary :: "IntervalSet \<Rightarrow> TernaryValue option" where
  "OneBitRangeToTernary s = do {
     n \<leftarrow> IntervalSet_BitCount s;
     if n \<noteq> 1 then None
     else do {
       precise \<leftarrow> IntervalSet_IsPrecise s;
       zero \<leftarrow> IntervalSet_CoversZero s;
       Some (if precise then if zero then kKnownZero else kKnownOne else kUnknown)
     }
   }"

fun TernaryToOneBitRange :: "TernaryValue \<Rightarrow> IntervalSet option" where
  "TernaryToOneBitRange kKnownZero = do { b \<leftarrow> UBits 0 1; IntervalSet_Precise b }"
| "TernaryToOneBitRange kKnownOne = do { b \<leftarrow> UBits 1 1; IntervalSet_Precise b }"
| "TernaryToOneBitRange kUnknown = IntervalSet_Maximal 1"

record OverflowResult =
  or_result :: Bits
  or_first_overflow_bit :: bool
  or_second_overflow_bit :: bool

text \<open>The choices of \<open>PerformVariadicOp\<close> for one interval of each operand: whether to stop, what to add.\<close>

definition variadic_bounds :: "ArgumentBehavior list \<Rightarrow> Interval list \<Rightarrow> Bits list \<times> Bits list" where
  "variadic_bounds behaviors is =
     (map2 (\<lambda>b iv. case ab_tonicity b of Monotone \<Rightarrow> iv_lower iv | Antitone \<Rightarrow> iv_upper iv) behaviors is,
      map2 (\<lambda>b iv. case ab_tonicity b of Monotone \<Rightarrow> iv_upper iv | Antitone \<Rightarrow> iv_lower iv) behaviors is)"

definition variadic_step ::
    "(Bits list \<Rightarrow> OverflowResult option) \<Rightarrow> ArgumentBehavior list \<Rightarrow> IntervalSet list \<Rightarrow> nat \<Rightarrow> bool \<Rightarrow>
     int list \<Rightarrow> (bool \<times> Interval list) option" where
  "variadic_step calc behaviors operands result_bit_size overflow_is_size_preserving indexes = do {
     is \<leftarrow> those (map2 (\<lambda>s i. do {
                          xs \<leftarrow> IntervalSet_Intervals s;
                          if 0 \<le> i \<and> nat i < length xs then Some (xs ! nat i) else None
                        }) operands indexes);
     lower \<leftarrow> calc (fst (variadic_bounds behaviors is));
     upper \<leftarrow> calc (snd (variadic_bounds behaviors is));
     if \<not> or_first_overflow_bit lower \<and> \<not> or_first_overflow_bit upper \<or> overflow_is_size_preserving then do {
       iv \<leftarrow> Interval_new (or_result lower) (or_result upper);
       Some (False, [iv])
     }
     else if or_first_overflow_bit lower \<and> or_first_overflow_bit upper \<or> or_second_overflow_bit lower \<or>
             or_second_overflow_bit upper \<or> bits_ops_UGreaterThan (or_result upper) (or_result lower) then do {
       iv \<leftarrow> Interval_Maximal result_bit_size;
       Some (True, [iv])
     }
     else do {
       above \<leftarrow> Interval_new (or_result lower) (Bits_AllOnes result_bit_size);
       below \<leftarrow> Interval_new (Bits_new result_bit_size) (or_result upper);
       Some (False, [above, below])
     }
   }"

text \<open>
  The lambda passed to \<open>MixedRadixIterate\<close> answers from the indices alone and otherwise only appends
  to the result, so the intervals are collected from the calls it is given.
\<close>

definition PerformVariadicOp ::
    "'bn bignum \<Rightarrow> (Bits list \<Rightarrow> OverflowResult option) \<Rightarrow> ArgumentBehavior list \<Rightarrow> IntervalSet list \<Rightarrow> nat \<Rightarrow>
     IntervalSet option" where
  "PerformVariadicOp B calc behaviors input_operands result_bit_size =
     (if length input_operands \<noteq> length behaviors then None
      else do {
        operands \<leftarrow> those (map2 (\<lambda>i s. MinimizeIntervals B s (if i < 12 then 5 else 1)) [0..<length input_operands] input_operands);
        precise \<leftarrow> those (map IntervalSet_IsPrecise operands);
        if list_all id precise then do {
          real_values \<leftarrow> those (map (\<lambda>s. IntervalSet_GetPreciseValue s \<bind> id) operands);
          r \<leftarrow> calc real_values;
          IntervalSet_Precise (or_result r)
        }
        else do {
          let radix = map (\<lambda>s. int (IntervalSet_NumberOfIntervals s)) operands;
          let overflow_is_size_preserving =
            list_all2 (\<lambda>b p. ab_size_preserving b \<or> p) behaviors precise \<and> length (filter Not precise) = 1;
          let step = variadic_step calc behaviors operands result_bit_size overflow_is_size_preserving;
          let calls = snd (MixedRadixIterate radix (\<lambda>indexes. case step indexes of None \<Rightarrow> True | Some r \<Rightarrow> fst r));
          rs \<leftarrow> those (map step calls);
          s \<leftarrow> add_intervals (IntervalSet_new result_bit_size) (concat (map snd rs));
          result_intervals \<leftarrow> IntervalSet_Normalize s;
          MinimizeIntervals B result_intervals 16
        }
      })"

text \<open>A calculation that reports no overflow, and the forms with one and two operands.\<close>

definition no_overflow :: "Bits option \<Rightarrow> OverflowResult option" where
  "no_overflow r = map_option (\<lambda>b. \<lparr>or_result = b, or_first_overflow_bit = False, or_second_overflow_bit = False\<rparr>) r"

fun binary_calc :: "(Bits \<Rightarrow> Bits \<Rightarrow> OverflowResult option) \<Rightarrow> Bits list \<Rightarrow> OverflowResult option" where
  "binary_calc calc [l, r] = calc l r"
| "binary_calc calc _ = None"

fun unary_calc :: "(Bits \<Rightarrow> OverflowResult option) \<Rightarrow> Bits list \<Rightarrow> OverflowResult option" where
  "unary_calc calc [b] = calc b"
| "unary_calc calc _ = None"

definition PerformBinOp ::
    "'bn bignum \<Rightarrow> (Bits \<Rightarrow> Bits \<Rightarrow> OverflowResult option) \<Rightarrow> IntervalSet \<Rightarrow> ArgumentBehavior \<Rightarrow> IntervalSet \<Rightarrow>
     ArgumentBehavior \<Rightarrow> nat \<Rightarrow> IntervalSet option" where
  "PerformBinOp B calc lhs lhs_behavior rhs rhs_behavior result_bit_size =
     PerformVariadicOp B (binary_calc calc) [lhs_behavior, rhs_behavior] [lhs, rhs] result_bit_size"

definition PerformUnaryOp ::
    "'bn bignum \<Rightarrow> (Bits \<Rightarrow> OverflowResult option) \<Rightarrow> IntervalSet \<Rightarrow> ArgumentBehavior \<Rightarrow> nat \<Rightarrow> IntervalSet option" where
  "PerformUnaryOp B calc arg behavior result_bit_size =
     PerformVariadicOp B (unary_calc calc) [behavior] [arg] result_bit_size"

section \<open>The operations\<close>

definition add_calc :: "'bn bignum \<Rightarrow> Bits \<Rightarrow> Bits \<Rightarrow> OverflowResult option" where
  "add_calc B lhs rhs = do {
     let padded_size = max (Bits_bit_count lhs) (Bits_bit_count rhs) + 1;
     padded_lhs \<leftarrow> bits_ops_ZeroExtend lhs padded_size;
     padded_rhs \<leftarrow> bits_ops_ZeroExtend rhs padded_size;
     padded_result \<leftarrow> bits_ops_Add B padded_lhs padded_rhs;
     let overflow = Bits_GetFromMsb padded_result 0;
     r \<leftarrow> bits_ops_Truncate padded_result (padded_size - 1);
     Some \<lparr>or_result = r, or_first_overflow_bit = overflow, or_second_overflow_bit = False\<rparr>
   }"

definition interval_ops_Add :: "'bn bignum \<Rightarrow> IntervalSet \<Rightarrow> IntervalSet \<Rightarrow> IntervalSet option" where
  "interval_ops_Add B a b = do {
     n \<leftarrow> IntervalSet_BitCount a;
     PerformBinOp B (add_calc B) a kMonotoneSizePreserving b kMonotoneSizePreserving n
   }"

definition sub_calc :: "'bn bignum \<Rightarrow> Bits \<Rightarrow> Bits \<Rightarrow> OverflowResult option" where
  "sub_calc B lhs rhs = do {
     r \<leftarrow> bits_ops_Sub B lhs rhs;
     Some \<lparr>or_result = r, or_first_overflow_bit = bits_ops_ULessThan lhs rhs, or_second_overflow_bit = False\<rparr>
   }"

definition interval_ops_Sub :: "'bn bignum \<Rightarrow> IntervalSet \<Rightarrow> IntervalSet \<Rightarrow> IntervalSet option" where
  "interval_ops_Sub B a b = do {
     n \<leftarrow> IntervalSet_BitCount a;
     PerformBinOp B (sub_calc B) a kMonotoneSizePreserving b kAntitoneSizePreserving n
   }"

definition interval_ops_Neg :: "'bn bignum \<Rightarrow> IntervalSet \<Rightarrow> IntervalSet option" where
  "interval_ops_Neg B a = do {
     n \<leftarrow> IntervalSet_BitCount a;
     PerformUnaryOp B (\<lambda>b. no_overflow (bits_ops_Negate B b)) a kAntitoneSizePreserving n
   }"

definition umul_calc :: "'bn bignum \<Rightarrow> nat \<Rightarrow> Bits \<Rightarrow> Bits \<Rightarrow> OverflowResult option" where
  "umul_calc B output_bitwidth lhs rhs = do {
     r \<leftarrow> bits_ops_UMul B lhs rhs;
     let msb_set_bit = int (Bits_bit_count r) - int (Bits_CountLeadingZeros r) - 1;
     Some \<lparr>or_result = InlineBitmap_WithSize r output_bitwidth False,
           or_first_overflow_bit = msb_set_bit \<ge> int output_bitwidth,
           or_second_overflow_bit = msb_set_bit \<ge> int output_bitwidth + 1\<rparr>
   }"

definition interval_ops_UMul :: "'bn bignum \<Rightarrow> IntervalSet \<Rightarrow> IntervalSet \<Rightarrow> nat \<Rightarrow> IntervalSet option" where
  "interval_ops_UMul B a b output_bitwidth =
     PerformBinOp B (umul_calc B output_bitwidth) a kMonotoneNonSizePreserving b kMonotoneNonSizePreserving output_bitwidth"

definition udiv_op :: "'bn bignum \<Rightarrow> IntervalSet \<Rightarrow> IntervalSet \<Rightarrow> nat \<Rightarrow> IntervalSet option" where
  "udiv_op B a b n = PerformBinOp B (\<lambda>l r. no_overflow (bits_ops_UDiv B l r)) a kMonotoneNonSizePreserving b kAntitoneNonSizePreserving n"

definition interval_ops_UDiv :: "'bn bignum \<Rightarrow> IntervalSet \<Rightarrow> IntervalSet \<Rightarrow> IntervalSet option" where
  "interval_ops_UDiv B a b = do {
     zero \<leftarrow> IntervalSet_CoversZero b;
     n \<leftarrow> IntervalSet_BitCount a;
     if \<not> zero then udiv_op B a b n
     else do {
       m \<leftarrow> IntervalSet_BitCount b;
       nonzero \<leftarrow> IntervalSet_NonZero m;
       nonzero_divisor \<leftarrow> IntervalSet_Intersect b nonzero;
       empty \<leftarrow> IntervalSet_IsEmpty nonzero_divisor;
       results \<leftarrow> (if \<not> empty then udiv_op B a nonzero_divisor n else Some (IntervalSet_new n));
       ones \<leftarrow> Interval_Precise (Bits_AllOnes n);
       results' \<leftarrow> IntervalSet_AddInterval results ones;
       IntervalSet_Normalize results'
     }
   }"

definition shrl_calc :: "Bits \<Rightarrow> Bits \<Rightarrow> OverflowResult option" where
  "shrl_calc lhs rhs = no_overflow
     (case Bits_ToUint64 rhs of
        Inr shift_amount \<Rightarrow>
          if shift_amount > 0x7FFFFFFFFFFFFFFF then Some (Bits_new (Bits_bit_count lhs))
          else bits_ops_ShiftRightLogical lhs (unat shift_amount)
      | Inl _ \<Rightarrow> Some (Bits_new (Bits_bit_count lhs)))"

definition interval_ops_Shrl :: "'bn bignum \<Rightarrow> IntervalSet \<Rightarrow> IntervalSet \<Rightarrow> IntervalSet option" where
  "interval_ops_Shrl B a b = do {
     n \<leftarrow> IntervalSet_BitCount a;
     PerformBinOp B shrl_calc a kMonotoneNonSizePreserving b kAntitoneNonSizePreserving n
   }"

definition decode_element :: "nat \<Rightarrow> IntervalSet option \<Rightarrow> Bits \<Rightarrow> IntervalSet option \<times> bool" where
  "decode_element width acc b =
     (let bit = (case Bits_ToUint64 b of Inr v \<Rightarrow> unat v | Inl _ \<Rightarrow> width)
      in if bit \<ge> width then
           (do { s \<leftarrow> acc; zero \<leftarrow> UBits 0 width; p \<leftarrow> Interval_Precise zero; IntervalSet_AddInterval s p }, True)
         else
           (do { s \<leftarrow> acc; p \<leftarrow> Interval_Precise (Bits_PowerOfTwo bit width); IntervalSet_AddInterval s p }, False))"

definition interval_ops_Decode :: "IntervalSet \<Rightarrow> nat \<Rightarrow> IntervalSet option" where
  "interval_ops_Decode a width = do {
     r \<leftarrow> IntervalSet_ForEachElement (decode_element width) a (Some (IntervalSet_new width));
     s \<leftarrow> snd r;
     IntervalSet_Normalize s
   }"

definition interval_ops_SignExtend :: "'bn bignum \<Rightarrow> IntervalSet \<Rightarrow> nat \<Rightarrow> IntervalSet option" where
  "interval_ops_SignExtend B a width =
     PerformUnaryOp B (\<lambda>b. no_overflow (bits_ops_SignExtend b width)) a kMonotoneSizePreserving width"

definition interval_ops_ZeroExtend :: "'bn bignum \<Rightarrow> IntervalSet \<Rightarrow> nat \<Rightarrow> IntervalSet option" where
  "interval_ops_ZeroExtend B a width =
     PerformUnaryOp B (\<lambda>b. no_overflow (bits_ops_ZeroExtend b width)) a kMonotoneSizePreserving width"

fun Truncate_loop :: "'bn bignum \<Rightarrow> nat \<Rightarrow> Interval list \<Rightarrow> IntervalSet \<Rightarrow> IntervalSet option" where
  "Truncate_loop B width [] s = IntervalSet_Normalize s"
| "Truncate_loop B width (i # is) s = do {
     d \<leftarrow> bits_ops_Sub B (iv_upper i) (iv_lower i);
     if bits_ops_UGreaterThan d (Bits_AllOnes width) then IntervalSet_Maximal width
     else do {
       low \<leftarrow> Bits_Slice (iv_lower i) 0 width;
       high \<leftarrow> Bits_Slice (iv_upper i) 0 width;
       iv \<leftarrow> Interval_new low high;
       s' \<leftarrow> IntervalSet_AddInterval s iv;
       Truncate_loop B width is s'
     }
   }"

definition interval_ops_Truncate :: "'bn bignum \<Rightarrow> IntervalSet \<Rightarrow> nat \<Rightarrow> IntervalSet option" where
  "interval_ops_Truncate B a width = do {
     is \<leftarrow> IntervalSet_Intervals a;
     Truncate_loop B width is (IntervalSet_new width)
   }"

definition interval_ops_BitSlice :: "'bn bignum \<Rightarrow> IntervalSet \<Rightarrow> nat \<Rightarrow> nat \<Rightarrow> IntervalSet option" where
  "interval_ops_BitSlice B a start width = do {
     amount \<leftarrow> UBits (of_nat start) 64;
     by_start \<leftarrow> IntervalSet_Precise amount;
     shifted \<leftarrow> interval_ops_Shrl B a by_start;
     interval_ops_Truncate B shifted width
   }"

definition interval_ops_Concat :: "'bn bignum \<Rightarrow> IntervalSet list \<Rightarrow> IntervalSet option" where
  "interval_ops_Concat B sets =
     (if sets = [] then None
      else do {
        widths \<leftarrow> those (map IntervalSet_BitCount sets);
        PerformVariadicOp B (\<lambda>bs. no_overflow (bits_ops_Concat bs))
          ((replicate (length sets) kMonotoneNonSizePreserving)[length sets - 1 := kMonotoneSizePreserving]) sets (sum_list widths)
      })"

text \<open>Bitwise operations go through ternary vectors; one bit is done without them.\<close>

definition interval_ops_Not :: "IntervalSet \<Rightarrow> IntervalSet option" where
  "interval_ops_Not a = do {
     n \<leftarrow> IntervalSet_BitCount a;
     if n = 1 then do { t \<leftarrow> OneBitRangeToTernary a; TernaryToOneBitRange (TernaryEvaluator_Not t) }
     else do { vec \<leftarrow> ExtractTernaryVector a; FromTernary (AE_BitwiseNot TernaryEvaluator vec) 4 }
   }"

definition bitwise_op ::
    "(TernaryValue \<Rightarrow> TernaryValue \<Rightarrow> TernaryValue) \<Rightarrow> (TernaryVector list \<Rightarrow> TernaryVector option) \<Rightarrow>
     IntervalSet \<Rightarrow> IntervalSet \<Rightarrow> IntervalSet option" where
  "bitwise_op one_bit wide a b = do {
     n \<leftarrow> IntervalSet_BitCount a;
     m \<leftarrow> IntervalSet_BitCount b;
     if n \<noteq> m then None
     else if n = 1 then do {
       x \<leftarrow> OneBitRangeToTernary a;
       y \<leftarrow> OneBitRangeToTernary b;
       TernaryToOneBitRange (one_bit x y)
     }
     else do {
       x \<leftarrow> ExtractTernaryVector a;
       y \<leftarrow> ExtractTernaryVector b;
       res \<leftarrow> wide [x, y];
       FromTernary res 4
     }
   }"

definition interval_ops_And :: "IntervalSet \<Rightarrow> IntervalSet \<Rightarrow> IntervalSet option" where
  "interval_ops_And a b = bitwise_op (ev_And TernaryEvaluator) (AE_BitwiseAnd TernaryEvaluator) a b"

definition interval_ops_Or :: "IntervalSet \<Rightarrow> IntervalSet \<Rightarrow> IntervalSet option" where
  "interval_ops_Or a b = bitwise_op (ev_Or TernaryEvaluator) (AE_BitwiseOr TernaryEvaluator) a b"

definition interval_ops_Xor :: "IntervalSet \<Rightarrow> IntervalSet \<Rightarrow> IntervalSet option" where
  "interval_ops_Xor a b = bitwise_op (AE_Xor TernaryEvaluator) (AE_BitwiseXor TernaryEvaluator) a b"

definition interval_ops_AndReduce :: "IntervalSet \<Rightarrow> IntervalSet option" where
  "interval_ops_AndReduce a = do {
     covers_max \<leftarrow> IntervalSet_CoversMax a;
     precise \<leftarrow> IntervalSet_IsPrecise a;
     TernaryToOneBitRange (if \<not> covers_max then kKnownZero else if precise then kKnownOne else kUnknown)
   }"

definition interval_ops_OrReduce :: "IntervalSet \<Rightarrow> IntervalSet option" where
  "interval_ops_OrReduce a = do {
     covers_zero \<leftarrow> IntervalSet_CoversZero a;
     precise \<leftarrow> IntervalSet_IsPrecise a;
     TernaryToOneBitRange (if \<not> covers_zero then kKnownOne else if precise then kKnownZero else kUnknown)
   }"

text \<open>The parity of an interval with one value; nothing for the others.\<close>

definition precise_parity :: "Interval \<Rightarrow> Bits option option" where
  "precise_parity i = do {
     v \<leftarrow> Interval_GetPreciseValue i;
     case v of None \<Rightarrow> Some None | Some b \<Rightarrow> map_option Some (bits_ops_XorReduce b)
   }"

fun XorReduce_loop :: "Bits \<Rightarrow> Interval list \<Rightarrow> IntervalSet option" where
  "XorReduce_loop parity [] = TernaryToOneBitRange (if Bits_IsOne parity then kKnownOne else kKnownZero)"
| "XorReduce_loop parity (i # is) = do {
     p \<leftarrow> precise_parity i;
     if (case p of None \<Rightarrow> True | Some b \<Rightarrow> \<not> InlineBitmap_eq b parity) then TernaryToOneBitRange kUnknown
     else XorReduce_loop parity is
   }"

definition interval_ops_XorReduce :: "IntervalSet \<Rightarrow> IntervalSet option" where
  "interval_ops_XorReduce a =
     (if IntervalSet_NumberOfIntervals a = 0 then TernaryToOneBitRange kUnknown
      else do {
        is \<leftarrow> IntervalSet_Intervals a;
        p \<leftarrow> precise_parity (hd is);
        case p of None \<Rightarrow> TernaryToOneBitRange kUnknown | Some parity \<Rightarrow> XorReduce_loop parity (tl is)
      })"

definition interval_ops_Eq :: "IntervalSet \<Rightarrow> IntervalSet \<Rightarrow> IntervalSet option" where
  "interval_ops_Eq a b = do {
     pa \<leftarrow> IntervalSet_IsPrecise a;
     pb \<leftarrow> IntervalSet_IsPrecise b;
     if pa \<and> pb then do {
       x \<leftarrow> IntervalSet_GetPreciseValue a \<bind> id;
       y \<leftarrow> IntervalSet_GetPreciseValue b \<bind> id;
       TernaryToOneBitRange (if bits_ops_UEqual x y then kKnownOne else kKnownZero)
     }
     else do {
       d \<leftarrow> IntervalSet_Disjoint a b;
       TernaryToOneBitRange (if d then kKnownZero else kUnknown)
     }
   }"

definition interval_ops_Ne :: "IntervalSet \<Rightarrow> IntervalSet \<Rightarrow> IntervalSet option" where
  "interval_ops_Ne a b = interval_ops_Eq a b \<bind> interval_ops_Not"

definition interval_ops_ULt :: "IntervalSet \<Rightarrow> IntervalSet \<Rightarrow> IntervalSet option" where
  "interval_ops_ULt a b = do {
     lhs_hull \<leftarrow> IntervalSet_ConvexHull a \<bind> id;
     rhs_hull \<leftarrow> IntervalSet_ConvexHull b \<bind> id;
     d \<leftarrow> Interval_Disjoint lhs_hull rhs_hull;
     TernaryToOneBitRange (if d then if Interval_less lhs_hull rhs_hull then kKnownOne else kKnownZero else kUnknown)
   }"

definition interval_ops_UGt :: "IntervalSet \<Rightarrow> IntervalSet \<Rightarrow> IntervalSet option" where
  "interval_ops_UGt a b = do {
     lhs_hull \<leftarrow> IntervalSet_ConvexHull a \<bind> id;
     rhs_hull \<leftarrow> IntervalSet_ConvexHull b \<bind> id;
     d \<leftarrow> Interval_Disjoint lhs_hull rhs_hull;
     TernaryToOneBitRange (if d then if Interval_less rhs_hull lhs_hull then kKnownOne else kKnownZero else kUnknown)
   }"

text \<open>The sign bits of the bounds of a set; reading the sign bit of a vector of no bits is undefined.\<close>

definition bound_signs :: "IntervalSet \<Rightarrow> (bool \<times> bool) option" where
  "bound_signs v = do {
     l \<leftarrow> IntervalSet_LowerBound v \<bind> id;
     u \<leftarrow> IntervalSet_UpperBound v \<bind> id;
     if Bits_bit_count l = 0 \<or> Bits_bit_count u = 0 then None
     else Some (Bits_GetFromMsb l 0, Bits_GetFromMsb u 0)
   }"

definition signed_compare_op ::
    "'bn bignum \<Rightarrow> (IntervalSet \<Rightarrow> IntervalSet \<Rightarrow> IntervalSet option) \<Rightarrow> IntervalSet \<Rightarrow> IntervalSet \<Rightarrow> IntervalSet option" where
  "signed_compare_op B unsigned_op a b =
     (if \<not> IntervalSet_IsNormalized a \<or> \<not> IntervalSet_IsNormalized b then None
      else do {
        sa \<leftarrow> bound_signs a;
        sb \<leftarrow> bound_signs b;
        if (sa = (False, False) \<and> sb = (False, False)) \<or> (sa = (True, True) \<and> sb = (True, True)) then unsigned_op a b
        else do {
          n \<leftarrow> IntervalSet_BitCount a;
          one \<leftarrow> UBits 1 1;
          c \<leftarrow> bits_ops_Concat [one, Bits_new (n - 1)];
          offset \<leftarrow> IntervalSet_Precise c;
          x \<leftarrow> interval_ops_Add B a offset;
          y \<leftarrow> interval_ops_Add B b offset;
          unsigned_op x y
        }
      })"

definition interval_ops_SLt :: "'bn bignum \<Rightarrow> IntervalSet \<Rightarrow> IntervalSet \<Rightarrow> IntervalSet option" where
  "interval_ops_SLt B a b = signed_compare_op B interval_ops_ULt a b"

definition interval_ops_SGt :: "'bn bignum \<Rightarrow> IntervalSet \<Rightarrow> IntervalSet \<Rightarrow> IntervalSet option" where
  "interval_ops_SGt B a b = signed_compare_op B interval_ops_UGt a b"

definition interval_ops_Gate :: "IntervalSet \<Rightarrow> IntervalSet \<Rightarrow> IntervalSet option" where
  "interval_ops_Gate cond val = do {
     precise \<leftarrow> IntervalSet_IsPrecise cond;
     zero \<leftarrow> IntervalSet_CoversZero cond;
     if precise then
       if zero then do { n \<leftarrow> IntervalSet_BitCount val; IntervalSet_Precise (Bits_new n) } else Some val
     else if zero then do {
       n \<leftarrow> IntervalSet_BitCount val;
       z \<leftarrow> IntervalSet_Precise (Bits_new n);
       IntervalSet_Combine val z
     }
     else Some val
   }"

datatype LsbOrMsb = kLsb | kMsb

definition interval_ops_OneHot :: "IntervalSet \<Rightarrow> LsbOrMsb \<Rightarrow> nat \<Rightarrow> IntervalSet option" where
  "interval_ops_OneHot val lsb_or_msb max_interval_bits = do {
     src \<leftarrow> ExtractTernaryVector val;
     FromTernary (case lsb_or_msb of
                    kLsb \<Rightarrow> AE_OneHotLsbToMsb TernaryEvaluator src
                  | kMsb \<Rightarrow> AE_OneHotMsbToLsb TernaryEvaluator src) max_interval_bits
   }"

section \<open>Limiting the number of intervals keeps the points\<close>

text \<open>What one merge does to the bounds.\<close>

definition merge_bounds_at :: "nat \<Rightarrow> (nat \<times> nat) list \<Rightarrow> (nat \<times> nat) list" where
  "merge_bounds_at k ps = take k ps @ (fst (ps ! k), snd (ps ! Suc k)) # drop (Suc (Suc k)) ps"

text \<open>Larger, but only between members.\<close>

definition widens :: "nat set \<Rightarrow> nat set \<Rightarrow> bool" where
  "widens S T \<longleftrightarrow> S \<subseteq> T \<and> (\<forall>v \<in> T. \<exists>l \<in> S. \<exists>u \<in> S. l \<le> v \<and> v \<le> u)"

lemma widens_refl [simp]: "widens S S"
  by (auto simp: widens_def)

lemma widens_trans: "widens S T \<Longrightarrow> widens T U \<Longrightarrow> widens S U"
  unfolding widens_def by (meson order_trans subset_iff)

lemma split_pair: "Suc k < length ps \<Longrightarrow> ps = take k ps @ ps ! k # ps ! Suc k # drop (Suc (Suc k)) ps"
  by (metis Cons_nth_drop_Suc Suc_lessD append_take_drop_id)

lemma merge_bounds_at_ok:
  assumes "Suc k < length ps" "bounds_ok n ps" "gapped ps"
  shows "bounds_ok n (merge_bounds_at k ps)" "gapped (merge_bounds_at k ps)" "widens (cov ps) (cov (merge_bounds_at k ps))"
    "length (merge_bounds_at k ps) = length ps - 1"
proof -
  define pre a b post where d: "pre = take k ps" "a = ps ! k" "b = ps ! Suc k" "post = drop (Suc (Suc k)) ps"
  have ps: "ps = pre @ a # b # post" using split_pair [OF assms(1)] by (simp add: d)
  have m: "merge_bounds_at k ps = pre @ (fst a, snd b) # post" by (simp add: merge_bounds_at_def d)
  have g: "snd a + 1 < fst b" "fst a \<le> snd a" "fst b \<le> snd b" using assms(2,3) unfolding ps by (auto simp: gapped_def sorted_wrt_append)
  show "bounds_ok n (merge_bounds_at k ps)" using assms(2) g unfolding m by (auto simp: ps)
  show "gapped (merge_bounds_at k ps)" using assms(3) unfolding m by (simp add: ps gapped_def sorted_wrt_append)
  have "fst a \<in> cov ps" "snd b \<in> cov ps" using g unfolding ps by auto
  then have "\<exists>l \<in> cov ps. \<exists>u \<in> cov ps. l \<le> v \<and> v \<le> u" if "v \<in> {fst a..snd b}" for v using that by auto
  moreover have "cov (merge_bounds_at k ps) = cov pre \<union> {fst a..snd b} \<union> cov post" by (simp add: m Un_assoc)
  moreover have "cov ps = cov pre \<union> {fst a..snd a} \<union> {fst b..snd b} \<union> cov post" by (simp add: ps Un_assoc)
  moreover have "{fst a..snd a} \<subseteq> {fst a..snd b}" "{fst b..snd b} \<subseteq> {fst a..snd b}" using g by auto
  ultimately show "widens (cov ps) (cov (merge_bounds_at k ps))" unfolding widens_def by blast
  show "length (merge_bounds_at k ps) = length ps - 1" unfolding m by (simp add: ps)
qed

lemma merge_into_previous_eq:
  assumes "k < length ms" "first # map mi_final_interval ms = ivs n ps"
  shows "\<exists>first' ms'. merge_into_previous k first ms = Some (first', ms') \<and>
    first' # map mi_final_interval ms' = ivs n (merge_bounds_at k ps)"
proof -
  obtain p qs where ps: "ps = p # qs" using assms(2) by (cases ps) auto
  have f: "first = iv_of n (fst p) (snd p)" and ms: "map mi_final_interval ms = ivs n qs" using assms(2) ps by auto
  have len: "length ms = length qs" using ms by (metis length_map ivs_simps(4))
  have nth: "mi_final_interval (ms ! i) = iv_of n (fst (qs ! i)) (snd (qs ! i))" if "i < length ms" for i
    using arg_cong [OF ms, of "\<lambda>xs. xs ! i"] that len by (simp add: ivs_def)
  have td: "map mi_final_interval (take i ms) = ivs n (take i qs)" "map mi_final_interval (drop i ms) = ivs n (drop i qs)" for i
    using ms by (simp_all add: ivs_def flip: take_map drop_map)
  show ?thesis
  proof (cases k)
    case 0
    then show ?thesis using assms(1) nth [of 0] td(2) [of 1] f ps
      by (simp add: merge_into_previous_def Let_def Interval_new_of merge_bounds_at_def)
  next
    case (Suc j)
    then have j: "j < length ms" "Suc j < length ms" using assms(1) by auto
    have u: "(take (Suc j) ms @ drop (Suc (Suc j)) ms)[j := x] = take j ms @ x # drop (Suc (Suc j)) ms" for x
      using j by (simp add: list_update_append take_Suc_conv_app_nth)
    show ?thesis using Suc j nth [OF j(1)] nth [OF j(2)] td f ps u
      by (simp add: merge_into_previous_def Let_def Interval_new_of merge_bounds_at_def)
  qed
qed

lemma merge_loop_ok:
  assumes "first # map mi_final_interval ms = ivs n ps" "bounds_ok n ps" "gapped ps" "0 < sz"
  shows "\<exists>first' ms' qs. merge_loop sz first ms = Some (first', ms') \<and> first' # map mi_final_interval ms' = ivs n qs \<and>
    bounds_ok n qs \<and> gapped qs \<and> widens (cov ps) (cov qs) \<and> length qs = min sz (length ps)"
  using assms
proof (induction sz first ms arbitrary: ps rule: merge_loop.induct)
  case (1 sz first)
  then have "length ps = 1" by (metis ivs_simps(4) length_Cons length_map list.size(3) One_nat_def)
  then show ?case using 1 by (intro exI [of _ first] exI [of _ "[]"] exI [of _ ps]) auto
next
  case (2 sz first m ms)
  have len: "length ps = Suc (Suc (length ms))" using 2(2) by (metis ivs_simps(4) length_Cons length_map)
  show ?case
  proof (cases "sz \<noteq> 0 \<and> length (m # ms) > sz - 1")
    case True
    let ?k = "min_element 0 ms 1 m"
    have k: "?k < length (m # ms)" using min_element_less [of 0 1 ms m] by simp
    obtain first' ms' where s: "merge_into_previous ?k first (m # ms) = Some (first', ms')"
      "first' # map mi_final_interval ms' = ivs n (merge_bounds_at ?k ps)" using merge_into_previous_eq [OF k 2(2)] by blast
    have "Suc ?k < length ps" using k len by simp
    note ok = merge_bounds_at_ok [OF this 2(3,4)]
    from "2.IH" [OF True s(1) refl s(2) ok(1,2) 2(5)] obtain first'' ms'' qs where
      "merge_loop sz first' ms' = Some (first'', ms'')" "first'' # map mi_final_interval ms'' = ivs n qs" "bounds_ok n qs" "gapped qs"
      "widens (cov (merge_bounds_at ?k ps)) (cov qs)" "length qs = min sz (length (merge_bounds_at ?k ps))" by blast
    then show ?thesis using True s(1) ok widens_trans [OF ok(3)] len by (auto intro!: exI [of _ first''] exI [of _ ms''] exI [of _ qs])
  next
    case False
    then have "merge_loop sz first (m # ms) = Some (first, m # ms)" by auto
    then show ?thesis using False 2 len by (intro exI [of _ first] exI [of _ "m # ms"] exI [of _ ps]) auto
  qed
qed

lemma merge_items_eq:
  assumes "bignum_spec B val"
  shows "\<exists>ms. merge_items B (iv_of n (fst p) (snd p)) (ivs n ps) = Some ms \<and> map mi_final_interval ms = ivs n ps"
proof (induction ps arbitrary: p)
  case (Cons q ps)
  obtain d where "bits_ops_Sub B (bits_of_nat n (fst q)) (bits_of_nat n (snd p)) = Some d"
    using Sub_eq(2) [OF assms, of "bits_of_nat n (fst q)" "bits_of_nat n (snd p)"] by simp
  moreover obtain ms where "merge_items B (iv_of n (fst q) (snd q)) (ivs n ps) = Some ms" "map mi_final_interval ms = ivs n ps"
    using Cons.IH by blast
  ultimately show ?case by simp
qed simp

lemma SetIntervals_eq:
  assumes "xs \<noteq> []" "\<forall>iv \<in> set xs. iv_wf iv \<and> iv_width iv = n"
  shows "\<exists>s. IntervalSet_SetIntervals u xs = Some s \<and> is_wf n s \<and> is_points s = (\<Union>iv \<in> set xs. iv_points iv)"
proof -
  let ?e = "\<lparr>is_is_normalized = False, is_bit_count = int n, is_intervals = []\<rparr>"
  have e: "is_wf n ?e" by (simp add: is_wf_def)
  obtain x xs' where "xs = x # xs'" "iv_wf x" "iv_width x = n" using assms by (cases xs) auto
  then have "IntervalSet_SetIntervals u xs = Some (is_append ?e xs)"
    using add_intervals_eq [OF e assms(2)] by (simp add: IntervalSet_SetIntervals_def del: add_intervals.simps)
  then show ?thesis using is_append_wf(1) [OF e assms(2)] by (simp add: is_points_def)
qed

text \<open>The limit is met, and the points that are added lie between points of the set.\<close>

lemma MinimizeIntervals_ok:
  assumes "bignum_spec B val" "is_wf n s" "0 < sz"
  obtains ps where "MinimizeIntervals B s sz = Some (is_of n ps)" "bounds_ok n ps" "gapped ps"
    "widens (is_points s) (cov ps)" "length ps \<le> sz"
proof -
  obtain qs where qs: "IntervalSet_Normalize s = Some (is_of n qs)" "bounds_ok n qs" "gapped qs" "cov qs = is_points s"
    using Normalize_eq [OF assms(2)] .
  note of = is_wf_of [OF qs(2,3)]
  consider "length qs \<le> sz" | "sz < length qs" "sz = 1" | "sz < length qs" "sz \<noteq> 1" by linarith
  then show thesis
  proof cases
    case 1
    then show ?thesis using that [of qs] qs by (simp add: MinimizeIntervals_def IntervalSet_NumberOfIntervals_def)
  next
    case 2
    then have ne: "cov qs \<noteq> {}" using cov_empty_iff [OF qs(2)] by auto
    let ?l = "Min (cov qs)" and ?u = "Max (cov qs)"
    have fin: "finite (cov qs)" by (simp add: cov_def)
    have mem: "?l \<in> cov qs" "?u \<in> cov qs" using ne fin by simp_all
    have b: "bounds_ok n [(?l, ?u)]" using cov_less [OF qs(2) mem(2)] fin mem by simp
    have "IntervalSet_AddInterval (IntervalSet_new n) (iv_of n ?l ?u) = Some (is_append (IntervalSet_new n) [iv_of n ?l ?u])"
      "is_wf n (is_append (IntervalSet_new n) [iv_of n ?l ?u])"
      using AddInterval_eq(1,2) [OF is_wf_new(1), of "iv_of n ?l ?u" n] by (simp_all add: is_append_def)
    moreover from this obtain ps where ps: "IntervalSet_Normalize (is_append (IntervalSet_new n) [iv_of n ?l ?u]) = Some (is_of n ps)"
      "bounds_ok n ps" "gapped ps" "cov ps = is_points (is_append (IntervalSet_new n) [iv_of n ?l ?u])" using Normalize_eq by blast
    moreover have c: "cov ps = cov [(?l, ?u)]" using ps(4) b by (simp add: is_append_wf(2))
    moreover have "ps = [(?l, ?u)]" using gapped_unique [OF ps(3) _ ps(2) b c] by simp
    ultimately have "MinimizeIntervals B s sz = Some (is_of n [(?l, ?u)])"
      using 2 qs(1) ne ConvexHull_set_eq [OF qs(2,3)] of by (simp add: MinimizeIntervals_def IntervalSet_NumberOfIntervals_def)
    moreover have "widens (is_points s) (cov [(?l, ?u)])" using mem fin qs(4) by (auto simp: widens_def)
    ultimately show ?thesis using that [OF _ b] 2 by simp
  next
    case 3
    then obtain p rs where p: "qs = p # rs" by (cases qs) auto
    obtain ms where ms: "merge_items B (iv_of n (fst p) (snd p)) (ivs n rs) = Some ms" "map mi_final_interval ms = ivs n rs"
      using merge_items_eq [OF assms(1)] by blast
    have "iv_of n (fst p) (snd p) # map mi_final_interval ms = ivs n qs" using ms p by simp
    from merge_loop_ok [OF this qs(2,3) assms(3)] obtain first' ms' ps where
      m: "merge_loop sz (iv_of n (fst p) (snd p)) ms = Some (first', ms')" "first' # map mi_final_interval ms' = ivs n ps"
      "bounds_ok n ps" "gapped ps" "widens (cov qs) (cov ps)" "length ps = min sz (length qs)" by blast
    have "ivs n ps \<noteq> []" using m(2) by (metis list.distinct(1))
    from SetIntervals_eq [OF this, of n IntervalSet_default] obtain t where
      t: "IntervalSet_SetIntervals IntervalSet_default (ivs n ps) = Some t" "is_wf n t" "is_points t = cov ps"
      using ivs_wf ivs_points [OF m(3)] by auto
    obtain us where us: "IntervalSet_Normalize t = Some (is_of n us)" "bounds_ok n us" "gapped us" "cov us = is_points t"
      using Normalize_eq [OF t(2)] .
    have "us = ps" using gapped_unique [OF us(3) m(4) us(2) m(3)] us(4) t(3) by simp
    then have "MinimizeIntervals B s sz = Some (is_of n ps)"
      using 3 qs(1) ms m(1,2) t(1) us(1) p by (simp add: MinimizeIntervals_def IntervalSet_NumberOfIntervals_def IntervalSet_Intervals_def)
    then show ?thesis using that [OF _ m(3,4)] m(5,6) qs(4) by simp
  qed
qed

section \<open>Soundness of the monotone operations\<close>

text \<open>An interval given by residues covers the residues of everything between, if it is short enough.\<close>

lemma residues_between:
  fixes a v b :: int
  assumes "a \<le> v" "v \<le> b" "b - a < 2 ^ w"
  shows "nat (v mod 2 ^ w) \<in> iv_points (iv_of w (nat (a mod 2 ^ w)) (nat (b mod 2 ^ w)))"
proof -
  let ?m = "(2::int) ^ w"
  have r: "0 \<le> x mod ?m" "x mod ?m < ?m" for x by simp_all
  have n: "nat (x mod ?m) < 2 ^ w" for x using r [of x] by (simp add: nat_less_iff)
  have q: "x div ?m * ?m + x mod ?m = x" for x by (rule div_mult_mod_eq)
  have "a div ?m \<le> v div ?m" "v div ?m \<le> b div ?m" using assms(1,2) by (simp_all add: zdiv_mono1)
  moreover have "b div ?m \<le> (a + ?m) div ?m" using assms(3) by (intro zdiv_mono1) simp_all
  moreover have "(a + ?m) div ?m = a div ?m + 1" by (rule div_add_self2) simp
  ultimately have d: "b div ?m = a div ?m \<or> b div ?m = a div ?m + 1" "v div ?m = a div ?m \<or> v div ?m = b div ?m" by auto
  have le: "nat (x mod ?m) \<le> nat (y mod ?m) \<longleftrightarrow> x mod ?m \<le> y mod ?m" for x y by (simp add: nat_le_iff)
  have lt: "nat (v mod ?m) < 2 ^ w" by (rule n)
  show ?thesis
  proof (cases "b div ?m = a div ?m")
    case True
    then have "a mod ?m \<le> v mod ?m" "v mod ?m \<le> b mod ?m" using d q [of a] q [of v] q [of b] assms by (metis add_le_cancel_left)+
    then show ?thesis using n by (auto simp: iv_points_def le)
  next
    case False
    then have b: "b div ?m = a div ?m + 1" using d(1) by simp
    have "(a div ?m + 1) * ?m = a div ?m * ?m + ?m" by (simp add: distrib_right)
    then have ab: "b mod ?m < a mod ?m" using q [of a] q [of b] assms(3) unfolding b by linarith
    have "a mod ?m \<le> v mod ?m \<or> v mod ?m \<le> b mod ?m"
      using d(2) q [of a] q [of v] q [of b] assms(1,2) by (metis add_le_cancel_left)
    then show ?thesis using n lt ab by (auto simp: iv_points_def le simp flip: not_le)
  qed
qed

lemma those_eqI: "length xs = length ys \<Longrightarrow> (\<And>i. i < length ys \<Longrightarrow> xs ! i = Some (ys ! i)) \<Longrightarrow> those xs = Some ys"
proof (induction xs arbitrary: ys)
  case (Cons x xs)
  then obtain y ys' where y: "ys = y # ys'" by (cases ys) auto
  have "x = Some y" using Cons.prems(2) [of 0] y by simp
  moreover have "those xs = Some ys'" using Cons.prems(1) Cons.prems(2) [of "Suc i" for i] y by (intro Cons.IH) auto
  ultimately show ?case using y by simp
qed simp

lemma those_map_SomeI: "(\<And>x. x \<in> set xs \<Longrightarrow> f x = Some (g x)) \<Longrightarrow> those (map f xs) = Some (map g xs)"
  by (rule those_eqI) simp_all

lemma radix_value_inject: "radix_ok radix c \<Longrightarrow> radix_ok radix d \<Longrightarrow> radix_value radix c = radix_value radix d \<Longrightarrow> c = d"
proof (induction radix arbitrary: c d)
  case (Cons r radix)
  then obtain x c' y d' where e: "c = x # c'" "d = y # d'" and xy: "0 \<le> x" "x < r" "0 \<le> y" "y < r"
    and ok: "radix_ok radix c'" "radix_ok radix d'" by (auto simp: radix_ok_def list_all2_Cons1)
  have v: "x + r * radix_value radix c' = y + r * radix_value radix d'" using Cons.prems(3) e by simp
  then have "(x + r * radix_value radix c') mod r = (y + r * radix_value radix d') mod r" by simp
  then have "x = y" using xy by simp
  then show ?case using v xy ok Cons.IH e by simp
qed (simp add: radix_ok_def)

text \<open>Every choice of digits is visited, or a visit has asked to stop.\<close>

lemma MixedRadixIterate_visits:
  assumes "list_all (\<lambda>r. 0 < r) radix" "MixedRadixIterate radix f = (stopped, calls)"
  shows "\<forall>c \<in> set calls. radix_ok radix c" "(\<exists>c \<in> set calls. f c) \<or> (\<forall>c. radix_ok radix c \<longrightarrow> c \<in> set calls)"
proof -
  have zero: "radix_value radix (replicate (length radix) 0) = 0" by (induction radix) simp_all
  have "radix_ok radix (replicate (length radix) 0)"
    using assms(1) by (simp add: radix_ok_def list_all2_conv_all_nth list_all_length)
  note v = MixedRadixIterate_loop_correct [OF this assms(2) [unfolded MixedRadixIterate_def]]
  show ok: "\<forall>c \<in> set calls. radix_ok radix c" using v by blast
  have "c \<in> set calls" if c: "radix_ok radix c" and n: "\<not> stopped" for c
  proof -
    have "int (length calls) = prod_list radix" using v n zero by simp
    then have "nat (radix_value radix c) \<in> set [0..<length calls]" using radix_value_bounds [OF c] by auto
    then have "radix_value radix c \<in> set (map int [0..<length calls])" using radix_value_bounds [OF c] by (force simp: image_iff)
    then have "radix_value radix c \<in> radix_value radix ` set calls" using v zero by (metis nat_0 add_0 list.set_map)
    then show ?thesis using radix_value_inject [OF c] ok by auto
  qed
  moreover have "\<exists>c \<in> set calls. f c" if stopped using v that by (metis last_in_set)
  ultimately show "(\<exists>c \<in> set calls. f c) \<or> (\<forall>c. radix_ok radix c \<longrightarrow> c \<in> set calls)" by blast
qed

text \<open>How argument vectors compare when every argument moves in the direction that increases the result.\<close>

definition tonic :: "ArgumentBehavior list \<Rightarrow> nat list \<Rightarrow> nat list \<Rightarrow> bool" where
  "tonic behaviors xs ys \<longleftrightarrow> (\<forall>i < length behaviors.
     case ab_tonicity (behaviors ! i) of Monotone \<Rightarrow> xs ! i \<le> ys ! i | Antitone \<Rightarrow> ys ! i \<le> xs ! i)"

definition args_ok :: "nat list \<Rightarrow> nat list \<Rightarrow> nat list \<Rightarrow> bool" where
  "args_ok ns ds xs \<longleftrightarrow> length xs = length ns \<and> (\<forall>i < length ns. ds ! i \<le> xs ! i \<and> xs ! i < 2 ^ (ns ! i))"

definition operand_set :: "nat \<Rightarrow> nat \<Rightarrow> IntervalSet \<Rightarrow> bool" where
  "operand_set n d s \<longleftrightarrow> is_wf n s \<and> is_points s \<noteq> {} \<and> (\<forall>x \<in> is_points s. d \<le> x)"

text \<open>
  The contract of a calculation passed to \<open>PerformVariadicOp\<close>: on operands of the widths \<open>ns\<close>
  that are at least \<open>ds\<close> it computes the residue of a function \<open>F\<close> to the integers that is monotone
  or antitone as announced, reports when \<open>F\<close> leaves the range of the result width, and when it may leave
  it by more than one range; moving one size-preserving argument moves \<open>F\<close> by less than the range.
\<close>

locale monotone_calc =
  fixes B :: "'bn bignum" and val :: "'bn \<Rightarrow> int"
    and calc :: "Bits list \<Rightarrow> OverflowResult option" and behaviors :: "ArgumentBehavior list"
    and F :: "nat list \<Rightarrow> int" and first second :: "nat list \<Rightarrow> bool" and ns ds :: "nat list" and w :: nat
  assumes bignum: "bignum_spec B val"
    and lengths: "length ns = length behaviors" "length ds = length behaviors"
    and calc_eq: "args_ok ns ds xs \<Longrightarrow> calc (map2 bits_of_nat ns xs) =
      Some \<lparr>or_result = bits_of_int w (F xs), or_first_overflow_bit = first xs, or_second_overflow_bit = second xs\<rparr>"
    and mono: "args_ok ns ds xs \<Longrightarrow> args_ok ns ds ys \<Longrightarrow> tonic behaviors xs ys \<Longrightarrow> F xs \<le> F ys"
    and no_wrap: "args_ok ns ds xs \<Longrightarrow> args_ok ns ds ys \<Longrightarrow> tonic behaviors xs ys \<Longrightarrow> \<not> first xs \<Longrightarrow> \<not> first ys \<Longrightarrow>
      F ys - F xs < 2 ^ w"
    and overflows: "args_ok ns ds xs \<Longrightarrow> first xs \<Longrightarrow> F xs < 0 \<or> 2 ^ w \<le> F xs"
    and overflows_once: "args_ok ns ds xs \<Longrightarrow> first xs \<Longrightarrow> \<not> second xs \<Longrightarrow> - (2 ^ w) \<le> F xs \<and> F xs < 2 ^ (w + 1)"
    and fits: "args_ok ns ds xs \<Longrightarrow> args_ok ns ds ys \<Longrightarrow> first xs \<Longrightarrow> \<not> first ys \<Longrightarrow> 0 \<le> F ys \<and> F ys < 2 ^ w"
    and preserving: "args_ok ns ds xs \<Longrightarrow> args_ok ns ds ys \<Longrightarrow> tonic behaviors xs ys \<Longrightarrow> i < length behaviors \<Longrightarrow>
      ab_size_preserving (behaviors ! i) \<Longrightarrow> (\<And>j. j < length behaviors \<Longrightarrow> j \<noteq> i \<Longrightarrow> xs ! j = ys ! j) \<Longrightarrow> F ys - F xs < 2 ^ w"
begin

definition lows :: "(nat \<times> nat) list \<Rightarrow> nat list" where
  "lows bs = map2 (\<lambda>b p. case ab_tonicity b of Monotone \<Rightarrow> fst p | Antitone \<Rightarrow> snd p) behaviors bs"

definition highs :: "(nat \<times> nat) list \<Rightarrow> nat list" where
  "highs bs = map2 (\<lambda>b p. case ab_tonicity b of Monotone \<Rightarrow> snd p | Antitone \<Rightarrow> fst p) behaviors bs"

text \<open>A choice of one interval for each operand.\<close>

definition box :: "(nat \<times> nat) list \<Rightarrow> bool" where
  "box bs \<longleftrightarrow> length bs = length ns \<and> (\<forall>i < length ns. ds ! i \<le> fst (bs ! i) \<and> fst (bs ! i) \<le> snd (bs ! i) \<and> snd (bs ! i) < 2 ^ (ns ! i))"

definition inside :: "(nat \<times> nat) list \<Rightarrow> nat list \<Rightarrow> bool" where
  "inside bs xs \<longleftrightarrow> length xs = length ns \<and> (\<forall>i < length ns. fst (bs ! i) \<le> xs ! i \<and> xs ! i \<le> snd (bs ! i))"

lemma box_bounds:
  assumes "box bs"
  shows "args_ok ns ds (lows bs)" "args_ok ns ds (highs bs)" "tonic behaviors (lows bs) (highs bs)"
  using assms lengths by (auto simp: box_def args_ok_def lows_def highs_def tonic_def split: Tonicity.splits)

lemma inside_bounds:
  assumes "box bs" "inside bs xs"
  shows "args_ok ns ds xs" "F (lows bs) \<le> F xs" "F xs \<le> F (highs bs)"
proof -
  show ok: "args_ok ns ds xs" using assms by (force simp: box_def inside_def args_ok_def)
  have "tonic behaviors (lows bs) xs" "tonic behaviors xs (highs bs)"
    using assms lengths by (auto simp: box_def inside_def lows_def highs_def tonic_def split: Tonicity.splits)
  then show "F (lows bs) \<le> F xs" "F xs \<le> F (highs bs)" using mono ok box_bounds [OF assms(1)] by blast+
qed

lemma variadic_bounds_eq:
  assumes "length bs = length ns"
  shows "variadic_bounds behaviors (map2 (\<lambda>n p. iv_of n (fst p) (snd p)) ns bs) =
    (map2 bits_of_nat ns (lows bs), map2 bits_of_nat ns (highs bs))"
  using assms lengths
  by (auto simp: variadic_bounds_def lows_def highs_def intro!: nth_equalityI split: Tonicity.splits)

end

context monotone_calc
begin

text \<open>One choice of intervals: what is added covers every result of arguments inside, or everything.\<close>

lemma result_residue: "or_result \<lparr>or_result = bits_of_int w v, or_first_overflow_bit = f, or_second_overflow_bit = g\<rparr> =
    bits_of_nat w (nat (v mod 2 ^ w))"
  using bits_of_int_of_nat [of w "nat (v mod 2 ^ w)"] bits_of_int_cong [of v w "v mod 2 ^ w"] by simp

lemma residue_less: "nat (v mod 2 ^ w) < 2 ^ w"
  by (simp add: nat_less_iff)

lemma step_covers:
  fixes bs defines "l \<equiv> F (lows bs)" and "u \<equiv> F (highs bs)"
  assumes "box bs" "first (lows bs) \<noteq> first (highs bs)" "\<not> second (lows bs)" "\<not> second (highs bs)"
    "nat (u mod 2 ^ w) \<le> nat (l mod 2 ^ w)" "inside bs xs"
  shows "nat (F xs mod 2 ^ w) \<in> {nat (l mod 2 ^ w)..2 ^ w - 1} \<union> {0..nat (u mod 2 ^ w)}"
proof -
  let ?m = "(2::int) ^ w" and ?v = "F xs"
  note ok = box_bounds [OF assms(3)]
  note between = inside_bounds [OF assms(3) assms(8)]
  have r: "nat (?v mod ?m) \<le> 2 ^ w - 1" using residue_less [of ?v] by linarith
  have p: "(2::int) ^ (w + 1) = ?m + ?m" by simp
  have le: "nat (x mod ?m) \<le> nat (y mod ?m) \<longleftrightarrow> x mod ?m \<le> y mod ?m" for x y by (simp add: nat_le_iff)
  have "l mod ?m \<le> ?v mod ?m \<or> ?v mod ?m \<le> u mod ?m"
  proof (cases "first (highs bs)")
    case True
    then have "\<not> first (lows bs)" using assms(4) by simp
    then have l: "0 \<le> l" "l < ?m" using fits [OF ok(2,1) True] unfolding l_def by auto
    have u: "?m \<le> u" "u < ?m + ?m"
      using overflows [OF ok(2) True] overflows_once [OF ok(2) True assms(6)] between l unfolding u_def l_def p by auto
    show ?thesis
    proof (cases "?v < ?m")
      case True
      then show ?thesis using l between unfolding l_def u_def by simp
    next
      case False
      have s: "x mod ?m = x - ?m" if "?m \<le> x" "x < ?m + ?m" for x
        using that mod_pos_pos_trivial [of "x - ?m" ?m] minus_mod_self2 [of x ?m] by simp
      show ?thesis using s [of ?v] s [of u] False u between unfolding l_def u_def by simp
    qed
  next
    case False
    then have f: "first (lows bs)" using assms(4) by simp
    then have u: "0 \<le> u" "u < ?m" using fits [OF ok(1,2) f False] unfolding u_def by auto
    have l: "- ?m \<le> l" "l < 0"
      using overflows [OF ok(1) f] overflows_once [OF ok(1) f assms(5)] between u unfolding u_def l_def p by auto
    show ?thesis
    proof (cases "?v < 0")
      case True
      have s: "x mod ?m = x + ?m" if "- ?m \<le> x" "x < 0" for x
        using that mod_pos_pos_trivial [of "x + ?m" ?m] mod_add_self2 [of x ?m] by simp
      show ?thesis using s [of ?v] s [of l] True l between unfolding l_def u_def by simp
    next
      case False
      then show ?thesis using u between unfolding l_def u_def by simp
    qed
  qed
  then show ?thesis using r by (auto simp: le)
qed

lemma step_ok:
  assumes "box bs" "pres \<longrightarrow> F (highs bs) - F (lows bs) < 2 ^ w"
    and chosen: "those (map2 (\<lambda>s i. do {
        xs \<leftarrow> IntervalSet_Intervals s;
        if 0 \<le> i \<and> nat i < length xs then Some (xs ! nat i) else None
      }) operands c) = Some (map2 (\<lambda>n p. iv_of n (fst p) (snd p)) ns bs)"
  shows "\<exists>stop xs. variadic_step calc behaviors operands w pres c = Some (stop, xs) \<and>
    (\<forall>iv \<in> set xs. iv_wf iv \<and> iv_width iv = w) \<and>
    (\<forall>v. inside bs v \<longrightarrow> nat (F v mod 2 ^ w) \<in> (\<Union>iv \<in> set xs. iv_points iv)) \<and>
    (stop \<longrightarrow> {..<2 ^ w} \<subseteq> (\<Union>iv \<in> set xs. iv_points iv))"
proof -
  let ?l = "F (lows bs)" and ?u = "F (highs bs)"
  let ?rl = "nat (?l mod 2 ^ w)" and ?ru = "nat (?u mod 2 ^ w)"
  note ok = box_bounds [OF assms(1)]
  have len: "length bs = length ns" using assms(1) by (simp add: box_def)
  note e = variadic_bounds_eq [OF len] calc_eq [OF ok(1)] calc_eq [OF ok(2)]
  have z: "Bits_new w = bits_of_nat w 0" "Bits_AllOnes w = bits_of_nat w (2 ^ w - 1)" by (auto intro!: bits_of_natI)
  have step: "variadic_step calc behaviors operands w pres c =
      (if \<not> first (lows bs) \<and> \<not> first (highs bs) \<or> pres then Some (False, [iv_of w ?rl ?ru])
       else if first (lows bs) \<and> first (highs bs) \<or> second (lows bs) \<or> second (highs bs) \<or> ?ru > ?rl
       then Some (True, [iv_of w 0 (2 ^ w - 1)])
       else Some (False, [iv_of w ?rl (2 ^ w - 1), iv_of w 0 ?ru]))"
    unfolding variadic_step_def chosen Option.bind.simps e fst_conv snd_conv result_residue z Interval_new_of Maximal_eq
    by (simp add: unsigned_compare residue_less)
  consider (exact) "\<not> first (lows bs) \<and> \<not> first (highs bs) \<or> pres"
    | (all) "\<not> (\<not> first (lows bs) \<and> \<not> first (highs bs) \<or> pres)"
      "first (lows bs) \<and> first (highs bs) \<or> second (lows bs) \<or> second (highs bs) \<or> ?ru > ?rl"
    | (two) "\<not> (\<not> first (lows bs) \<and> \<not> first (highs bs) \<or> pres)"
      "\<not> (first (lows bs) \<and> first (highs bs) \<or> second (lows bs) \<or> second (highs bs) \<or> ?ru > ?rl)" by blast
  then show ?thesis
  proof cases
    case exact
    have short: "?u - ?l < 2 ^ w" using exact assms(2) no_wrap [OF ok(1,2,3)] by blast
    have "nat (F v mod 2 ^ w) \<in> iv_points (iv_of w ?rl ?ru)" if "inside bs v" for v
      using residues_between [OF inside_bounds(2,3) [OF assms(1) that] short] .
    then show ?thesis using step exact by auto
  next
    case all
    have "iv_points (iv_of w 0 (2 ^ w - 1)) = {..<2 ^ w}" using Maximal_points [of w] by simp
    then show ?thesis using step all residue_less by auto
  next
    case two
    have "nat (F v mod 2 ^ w) \<in> {?rl..2 ^ w - 1} \<union> {0..?ru}" if "inside bs v" for v
      using two that assms(1) by (intro step_covers) auto
    moreover have "iv_points (iv_of w ?rl (2 ^ w - 1)) = {?rl..2 ^ w - 1}" "iv_points (iv_of w 0 ?ru) = {0..?ru}"
    proof -
      have "?rl \<le> 2 ^ w - 1" "(2::nat) ^ w - 1 < 2 ^ w" using residue_less [of ?l] by linarith+
      then show "iv_points (iv_of w ?rl (2 ^ w - 1)) = {?rl..2 ^ w - 1}" by (rule iv_points_of)
      show "iv_points (iv_of w 0 ?ru) = {0..?ru}" using residue_less [of ?u] by (intro iv_points_of) simp_all
    qed
    ultimately show ?thesis using step two by auto
  qed
qed

end

context monotone_calc
begin

text \<open>The operands once their number of intervals is limited.\<close>

definition shapes :: "IntervalSet list \<Rightarrow> (nat \<Rightarrow> (nat \<times> nat) list) \<Rightarrow> bool" where
  "shapes ops ps \<longleftrightarrow> length ops = length ns \<and> (\<forall>i < length ns. bounds_ok (ns ! i) (ps i) \<and> gapped (ps i) \<and> ps i \<noteq> [] \<and>
     is_points (ops ! i) \<subseteq> cov (ps i) \<and> (\<forall>x \<in> cov (ps i). ds ! i \<le> x))"

lemma operands_shape:
  assumes "length ops = length ns" "\<And>i. i < length ns \<Longrightarrow> operand_set (ns ! i) (ds ! i) (ops ! i)"
  obtains ps where "shapes ops ps"
    "those (map2 (\<lambda>i s. MinimizeIntervals B s (if i < 12 then 5 else 1)) [0..<length ops] ops) =
      Some (map (\<lambda>i. is_of (ns ! i) (ps i)) [0..<length ns])"
proof -
  let ?lim = "\<lambda>i::nat. if i < 12 then 5 else 1 :: nat"
  have "\<exists>ps. MinimizeIntervals B (ops ! i) (?lim i) = Some (is_of (ns ! i) ps) \<and> bounds_ok (ns ! i) ps \<and> gapped ps \<and> ps \<noteq> [] \<and>
      is_points (ops ! i) \<subseteq> cov ps \<and> (\<forall>x \<in> cov ps. ds ! i \<le> x)" if "i < length ns" for i
  proof -
    note s = assms(2) [OF that, unfolded operand_set_def]
    have wf: "is_wf (ns ! i) (ops ! i)" and pos: "0 < ?lim i" using s by simp_all
    obtain ps where ps: "MinimizeIntervals B (ops ! i) (?lim i) = Some (is_of (ns ! i) ps)" "bounds_ok (ns ! i) ps" "gapped ps"
      "widens (is_points (ops ! i)) (cov ps)" using MinimizeIntervals_ok [OF bignum wf pos] .
    have "ds ! i \<le> x" if x: "x \<in> cov ps" for x
    proof -
      obtain l where "l \<in> is_points (ops ! i)" "l \<le> x" using ps(4) x unfolding widens_def by blast
      then show ?thesis using s by (meson order_trans)
    qed
    moreover have "is_points (ops ! i) \<subseteq> cov ps" using ps(4) by (simp add: widens_def)
    moreover have "ps \<noteq> []" using s calculation(2) by (metis cov_simps(1) subset_empty)
    ultimately show ?thesis using ps(1-3) by (intro exI [of _ ps]) simp
  qed
  then obtain ps where ps: "\<forall>i < length ns. MinimizeIntervals B (ops ! i) (?lim i) = Some (is_of (ns ! i) (ps i)) \<and>
      bounds_ok (ns ! i) (ps i) \<and> gapped (ps i) \<and> ps i \<noteq> [] \<and> is_points (ops ! i) \<subseteq> cov (ps i) \<and> (\<forall>x \<in> cov (ps i). ds ! i \<le> x)"
    by metis
  have "shapes ops ps" using ps assms(1) by (simp add: shapes_def)
  moreover have "those (map2 (\<lambda>i s. MinimizeIntervals B s (?lim i)) [0..<length ops] ops) =
      Some (map (\<lambda>i. is_of (ns ! i) (ps i)) [0..<length ns])"
    using ps assms(1) by (intro those_eqI) auto
  ultimately show thesis using that by blast
qed

text \<open>The intervals that a vector of indices selects.\<close>

definition chosen :: "(nat \<Rightarrow> (nat \<times> nat) list) \<Rightarrow> int list \<Rightarrow> (nat \<times> nat) list" where
  "chosen ps c = map (\<lambda>i. ps i ! nat (c ! i)) [0..<length ns]"

lemma chosen_box:
  assumes "shapes ops ps" "radix_ok (map (\<lambda>i. int (length (ps i))) [0..<length ns]) c"
  shows "box (chosen ps c)"
    "those (map2 (\<lambda>s i. do {
        xs \<leftarrow> IntervalSet_Intervals s;
        if 0 \<le> i \<and> nat i < length xs then Some (xs ! nat i) else None
      }) (map (\<lambda>i. is_of (ns ! i) (ps i)) [0..<length ns]) c) = Some (map2 (\<lambda>n p. iv_of n (fst p) (snd p)) ns (chosen ps c))"
proof -
  have c: "length c = length ns" "\<And>i. i < length ns \<Longrightarrow> 0 \<le> c ! i \<and> c ! i < int (length (ps i))"
    using assms(2) by (auto simp: radix_ok_def list_all2_conv_all_nth)
  have n: "nat (c ! i) < length (ps i)" if "i < length ns" for i using c(2) [OF that] by (simp add: nat_less_iff)
  have "fst (ps i ! nat (c ! i)) \<le> snd (ps i ! nat (c ! i)) \<and> snd (ps i ! nat (c ! i)) < 2 ^ (ns ! i) \<and>
      ds ! i \<le> fst (ps i ! nat (c ! i))" if "i < length ns" for i
  proof -
    have m: "ps i ! nat (c ! i) \<in> set (ps i)" using n [OF that] by simp
    have b: "bounds_ok (ns ! i) (ps i)" "\<forall>x \<in> cov (ps i). ds ! i \<le> x" using assms(1) that by (auto simp: shapes_def)
    then have "fst (ps i ! nat (c ! i)) \<in> cov (ps i)" using m by (force simp: cov_def bounds_ok_def)
    then show ?thesis using b m by (simp add: bounds_ok_def)
  qed
  then show "box (chosen ps c)" by (simp add: box_def chosen_def)
  show "those (map2 (\<lambda>s i. do {
        xs \<leftarrow> IntervalSet_Intervals s;
        if 0 \<le> i \<and> nat i < length xs then Some (xs ! nat i) else None
      }) (map (\<lambda>i. is_of (ns ! i) (ps i)) [0..<length ns]) c) = Some (map2 (\<lambda>n p. iv_of n (fst p) (snd p)) ns (chosen ps c))"
    using c n by (intro those_eqI) (auto simp: chosen_def IntervalSet_Intervals_def ivs_def)
qed

lemma member_chosen:
  assumes "shapes ops ps" "length xs = length ns" "\<And>i. i < length ns \<Longrightarrow> xs ! i \<in> is_points (ops ! i)"
  obtains c where "radix_ok (map (\<lambda>i. int (length (ps i))) [0..<length ns]) c" "inside (chosen ps c) xs"
proof -
  have "\<exists>k. k < length (ps i) \<and> fst (ps i ! k) \<le> xs ! i \<and> xs ! i \<le> snd (ps i ! k)" if "i < length ns" for i
  proof -
    have "xs ! i \<in> cov (ps i)" using assms(1,3) that by (auto simp: shapes_def)
    then obtain p where "p \<in> set (ps i)" "xs ! i \<in> {fst p..snd p}" unfolding cov_def by blast
    then show ?thesis unfolding in_set_conv_nth by auto
  qed
  then obtain k where k: "\<forall>i < length ns. k i < length (ps i) \<and> fst (ps i ! k i) \<le> xs ! i \<and> xs ! i \<le> snd (ps i ! k i)" by metis
  let ?c = "map (\<lambda>i. int (k i)) [0..<length ns]"
  have "radix_ok (map (\<lambda>i. int (length (ps i))) [0..<length ns]) ?c" using k by (simp add: radix_ok_def list_all2_conv_all_nth)
  moreover have "inside (chosen ps ?c) xs" using k assms(2) by (simp add: inside_def chosen_def)
  ultimately show thesis by (rule that)
qed

text \<open>When the code takes overflow to preserve the size, the results of a choice do span less than the range.\<close>

lemma preserving_short:
  assumes "shapes ops ps" "radix_ok (map (\<lambda>i. int (length (ps i))) [0..<length ns]) c"
    "list_all2 (\<lambda>b p. ab_size_preserving b \<or> p) behaviors (map (\<lambda>i. \<exists>v. cov (ps i) = {v}) [0..<length ns])"
    "length (filter Not (map (\<lambda>i. \<exists>v. cov (ps i) = {v}) [0..<length ns])) = 1"
  shows "F (highs (chosen ps c)) - F (lows (chosen ps c)) < 2 ^ w"
proof -
  let ?p = "\<lambda>i. \<exists>v. cov (ps i) = {v}"
  have e: "filter Not (map ?p [0..<length ns]) = map ?p (filter (\<lambda>i. \<not> ?p i) [0..<length ns])"
    unfolding filter_map o_def ..
  have "length (filter (\<lambda>i. \<not> ?p i) [0..<length ns]) = 1" using assms(4) unfolding e length_map .
  then obtain i where i: "filter (\<lambda>i. \<not> ?p i) [0..<length ns] = [i]" 
    by (cases "filter (\<lambda>i. \<not> ?p i) [0..<length ns]") simp_all
  have set: "{j. j < length ns \<and> \<not> ?p j} = {i}" using arg_cong [OF i, of set] by auto
  have box: "box (chosen ps c)" by (rule chosen_box [OF assms(1,2)])
  have "i < length ns" "\<not> ?p i" using set by blast+
  then have ip: "i < length behaviors" "ab_size_preserving (behaviors ! i)"
    using assms(3) lengths by (auto simp: list_all2_conv_all_nth)
  have "lows (chosen ps c) ! j = highs (chosen ps c) ! j" if "j < length behaviors" "j \<noteq> i" for j
  proof -
    have j: "j < length ns" "?p j" using that set lengths by auto
    then obtain v where v: "cov (ps j) = {v}" by blast
    have b: "bounds_ok (ns ! j) (ps j)" "gapped (ps j)" using assms(1) j by (auto simp: shapes_def)
    have "v < 2 ^ (ns ! j)" using cov_less [OF b(1)] v by blast
    then have "ps j = [(v, v)]" using b v by (intro gapped_unique [where n = "ns ! j"]) simp_all
    moreover have "nat (c ! j) < length (ps j)" using assms(2) j by (auto simp: radix_ok_def list_all2_conv_all_nth nat_less_iff)
    ultimately have "chosen ps c ! j = (v, v)" using j by (simp add: chosen_def)
    then show ?thesis using j lengths that by (auto simp: lows_def highs_def chosen_def split: Tonicity.splits)
  qed
  then show ?thesis using preserving [OF box_bounds [OF box] ip] by blast
qed

end

context monotone_calc
begin

lemma sound_precise:
  assumes "shapes ops ps" "\<forall>i < length ns. \<exists>v. cov (ps i) = {v}"
  shows "\<exists>vs. args_ok ns ds vs \<and>
    those (map (\<lambda>s. IntervalSet_GetPreciseValue s \<bind> id) (map (\<lambda>i. is_of (ns ! i) (ps i)) [0..<length ns])) =
      Some (map2 bits_of_nat ns vs) \<and>
    (\<forall>xs. length xs = length ns \<longrightarrow> (\<forall>i < length ns. xs ! i \<in> is_points (ops ! i)) \<longrightarrow> xs = vs)"
proof -
  obtain v where v: "\<forall>i < length ns. cov (ps i) = {v i}" using assms(2) by metis
  let ?vs = "map v [0..<length ns]"
  have b: "v i < 2 ^ (ns ! i) \<and> ds ! i \<le> v i \<and> is_points (ops ! i) \<subseteq> {v i} \<and>
      IntervalSet_GetPreciseValue (is_of (ns ! i) (ps i)) = Some (Some (bits_of_nat (ns ! i) (v i)))" if i: "i < length ns" for i
  proof -
    have s: "bounds_ok (ns ! i) (ps i)" "gapped (ps i)" "is_points (ops ! i) \<subseteq> cov (ps i)" "\<forall>x \<in> cov (ps i). ds ! i \<le> x"
      using assms(1) i by (auto simp: shapes_def)
    have c: "cov (ps i) = {v i}" using v i by simp
    have "v i < 2 ^ (ns ! i)" using cov_less [OF s(1)] c by blast
    then show ?thesis using GetPreciseValue_eq [OF s(1,2)] s(3,4) c by simp
  qed
  have "args_ok ns ds ?vs" using b by (simp add: args_ok_def)
  moreover have "those (map (\<lambda>s. IntervalSet_GetPreciseValue s \<bind> id) (map (\<lambda>i. is_of (ns ! i) (ps i)) [0..<length ns])) =
      Some (map2 bits_of_nat ns ?vs)"
    using b by (intro those_eqI) auto
  moreover have "xs = ?vs" if "length xs = length ns" "\<forall>i < length ns. xs ! i \<in> is_points (ops ! i)" for xs
    using that b by (intro nth_equalityI) auto
  ultimately show ?thesis by blast
qed

lemma sound_calls:
  assumes "shapes ops ps" "pres \<longrightarrow> (\<forall>c. radix_ok (map (\<lambda>i. int (length (ps i))) [0..<length ns]) c \<longrightarrow>
      F (highs (chosen ps c)) - F (lows (chosen ps c)) < 2 ^ w)"
  defines "operands \<equiv> map (\<lambda>i. is_of (ns ! i) (ps i)) [0..<length ns]"
  defines "radix \<equiv> map (\<lambda>i. int (length (ps i))) [0..<length ns]"
  defines "step \<equiv> variadic_step calc behaviors operands w pres"
  defines "calls \<equiv> snd (MixedRadixIterate radix (\<lambda>c. case step c of None \<Rightarrow> True | Some r \<Rightarrow> fst r))"
  shows "\<exists>rs. those (map step calls) = Some rs \<and> (\<forall>iv \<in> set (concat (map snd rs)). iv_wf iv \<and> iv_width iv = w) \<and>
    (\<forall>xs. length xs = length ns \<longrightarrow> (\<forall>i < length ns. xs ! i \<in> is_points (ops ! i)) \<longrightarrow>
      nat (F xs mod 2 ^ w) \<in> (\<Union>iv \<in> set (concat (map snd rs)). iv_points iv))"
proof -
  obtain stopped where m: "MixedRadixIterate radix (\<lambda>c. case step c of None \<Rightarrow> True | Some r \<Rightarrow> fst r) = (stopped, calls)"
    unfolding calls_def by (metis prod.collapse)
  have pos: "list_all (\<lambda>r. 0 < r) radix" using assms(1) by (auto simp: radix_def shapes_def list_all_length)
  note v = MixedRadixIterate_visits [OF pos m]
  define r where "r c = the (step c)" for c
  have r: "step c = Some (r c) \<and> (\<forall>iv \<in> set (snd (r c)). iv_wf iv \<and> iv_width iv = w) \<and>
      (\<forall>xs. inside (chosen ps c) xs \<longrightarrow> nat (F xs mod 2 ^ w) \<in> (\<Union>iv \<in> set (snd (r c)). iv_points iv)) \<and>
      (fst (r c) \<longrightarrow> {..<2 ^ w} \<subseteq> (\<Union>iv \<in> set (snd (r c)). iv_points iv))" if c: "radix_ok radix c" for c
  proof -
    have p: "pres \<longrightarrow> F (highs (chosen ps c)) - F (lows (chosen ps c)) < 2 ^ w" using assms(2) c unfolding radix_def by blast
    obtain stop xs where s: "variadic_step calc behaviors operands w pres c = Some (stop, xs)" "\<forall>iv \<in> set xs. iv_wf iv \<and> iv_width iv = w"
      "\<forall>v. inside (chosen ps c) v \<longrightarrow> nat (F v mod 2 ^ w) \<in> (\<Union>iv \<in> set xs. iv_points iv)"
      "stop \<longrightarrow> {..<2 ^ w} \<subseteq> (\<Union>iv \<in> set xs. iv_points iv)"
      using step_ok [OF chosen_box(1) [OF assms(1) c [unfolded radix_def]] p
          chosen_box(2) [OF assms(1) c [unfolded radix_def], folded operands_def]] by (elim exE conjE) (rule that)
    then have "step c = Some (stop, xs)" "r c = (stop, xs)" by (simp_all add: step_def r_def)
    then show ?thesis using s(2-4) by simp
  qed
  have "those (map step calls) = Some (map r calls)" using r v(1) by (intro those_map_SomeI) blast
  moreover have "\<forall>iv \<in> set (concat (map snd (map r calls))). iv_wf iv \<and> iv_width iv = w" using r v(1) by auto
  moreover have "nat (F xs mod 2 ^ w) \<in> (\<Union>iv \<in> set (concat (map snd (map r calls))). iv_points iv)"
    if xs: "length xs = length ns" "\<forall>i < length ns. xs ! i \<in> is_points (ops ! i)" for xs
  proof (cases "\<exists>c \<in> set calls. fst (r c)")
    case True
    then obtain c where c: "c \<in> set calls" "fst (r c)" by blast
    then have "{..<2 ^ w} \<subseteq> (\<Union>iv \<in> set (snd (r c)). iv_points iv)" using r v(1) by blast
    then have "nat (F xs mod 2 ^ w) \<in> (\<Union>iv \<in> set (snd (r c)). iv_points iv)" using residue_less [of "F xs"] by blast
    then show ?thesis using c(1) by auto
  next
    case False
    then have all: "\<forall>c. radix_ok radix c \<longrightarrow> c \<in> set calls" using v r by fastforce
    obtain c where c: "radix_ok radix c" "inside (chosen ps c) xs"
      using member_chosen [OF assms(1) xs(1)] xs(2) unfolding radix_def by blast
    then have "nat (F xs mod 2 ^ w) \<in> (\<Union>iv \<in> set (snd (r c)). iv_points iv)" using r by blast
    then show ?thesis using all c(1) by auto
  qed
  ultimately show ?thesis by blast
qed

lemma sound:
  assumes "length ops = length ns" "\<And>i. i < length ns \<Longrightarrow> operand_set (ns ! i) (ds ! i) (ops ! i)"
  shows "\<exists>u. PerformVariadicOp B calc behaviors ops w = Some u \<and> is_normal w u \<and>
    (\<forall>xs. length xs = length ns \<longrightarrow> (\<forall>i < length ns. xs ! i \<in> is_points (ops ! i)) \<longrightarrow> nat (F xs mod 2 ^ w) \<in> is_points u)"
proof -
  obtain ps where ps: "shapes ops ps"
    and operands: "those (map2 (\<lambda>i s. MinimizeIntervals B s (if i < 12 then 5 else 1)) [0..<length ops] ops) =
      Some (map (\<lambda>i. is_of (ns ! i) (ps i)) [0..<length ns])" using operands_shape [OF assms] by blast
  let ?ops = "map (\<lambda>i. is_of (ns ! i) (ps i)) [0..<length ns]" and ?p = "\<lambda>i. \<exists>v. cov (ps i) = {v}"
  have "IntervalSet_IsPrecise (is_of (ns ! i) (ps i)) = Some (?p i)" if "i < length ns" for i
    using IsPrecise_set_iff [of "ns ! i" "ps i"] cov_empty_iff [of "ns ! i" "ps i"] ps that by (auto simp: shapes_def)
  then have precise: "those (map IntervalSet_IsPrecise ?ops) = Some (map ?p [0..<length ns])" by (intro those_eqI) auto
  have radix: "map (\<lambda>s. int (IntervalSet_NumberOfIntervals s)) ?ops = map (\<lambda>i. int (length (ps i))) [0..<length ns]"
    by (simp add: IntervalSet_NumberOfIntervals_def)
  have len: "length ops = length behaviors" using assms(1) lengths by simp
  show ?thesis
  proof (cases "list_all id (map ?p [0..<length ns])")
    case True
    then have all: "\<forall>i < length ns. ?p i" by (simp add: list_all_length)
    obtain vs where vs: "args_ok ns ds vs" "those (map (\<lambda>s. IntervalSet_GetPreciseValue s \<bind> id) ?ops) = Some (map2 bits_of_nat ns vs)"
      "\<And>xs. length xs = length ns \<Longrightarrow> (\<forall>i < length ns. xs ! i \<in> is_points (ops ! i)) \<Longrightarrow> xs = vs"
      using sound_precise [OF ps all] by blast
    let ?r = "nat (F vs mod 2 ^ w)"
    have r: "?r < 2 ^ w" by (rule residue_less)
    have b: "bounds_ok w [(?r, ?r)]" using r by simp
    have "IntervalSet_Precise (bits_of_nat w ?r) = Some (is_of w [(?r, ?r)])" using Precise_set_eq [of "bits_of_nat w ?r"] r by simp
    then have "PerformVariadicOp B calc behaviors ops w = Some (is_of w [(?r, ?r)])"
      unfolding PerformVariadicOp_def operands precise Option.bind.simps vs(2) calc_eq [OF vs(1)] result_residue using True len by simp
    then show ?thesis using is_normal_of [OF b] vs(3) is_points_of [OF b] by auto
  next
    case False
    let ?pres = "list_all2 (\<lambda>b p. ab_size_preserving b \<or> p) behaviors (map ?p [0..<length ns]) \<and>
      length (filter Not (map ?p [0..<length ns])) = 1"
    have short: "?pres \<longrightarrow> (\<forall>c. radix_ok (map (\<lambda>i. int (length (ps i))) [0..<length ns]) c \<longrightarrow>
      F (highs (chosen ps c)) - F (lows (chosen ps c)) < 2 ^ w)" using preserving_short [OF ps] by blast
    obtain rs where rs: "those (map (variadic_step calc behaviors ?ops w ?pres)
        (snd (MixedRadixIterate (map (\<lambda>i. int (length (ps i))) [0..<length ns])
          (\<lambda>c. case variadic_step calc behaviors ?ops w ?pres c of None \<Rightarrow> True | Some r \<Rightarrow> fst r)))) = Some rs"
      "\<forall>iv \<in> set (concat (map snd rs)). iv_wf iv \<and> iv_width iv = w"
      "\<forall>xs. length xs = length ns \<longrightarrow> (\<forall>i < length ns. xs ! i \<in> is_points (ops ! i)) \<longrightarrow>
        nat (F xs mod 2 ^ w) \<in> (\<Union>iv \<in> set (concat (map snd rs)). iv_points iv)"
      using sound_calls [OF ps short] by (elim exE conjE) (rule that)
    let ?s = "is_append (IntervalSet_new w) (concat (map snd rs))"
    have s: "is_wf w ?s" "is_points ?s = (\<Union>iv \<in> set (concat (map snd rs)). iv_points iv)"
      using is_append_wf(1) [OF is_wf_new(1) rs(2)] by (auto simp: is_append_wf(2))
    obtain qs where qs: "IntervalSet_Normalize ?s = Some (is_of w qs)" "bounds_ok w qs" "gapped qs" "cov qs = is_points ?s"
      using Normalize_eq [OF s(1)] .
    have lim: "(0::nat) < 16" by simp
    obtain us where us: "MinimizeIntervals B (is_of w qs) 16 = Some (is_of w us)" "bounds_ok w us" "gapped us"
      "widens (is_points (is_of w qs)) (cov us)" using MinimizeIntervals_ok [OF bignum is_wf_of [OF qs(2,3)] lim] .
    have "PerformVariadicOp B calc behaviors ops w = Some (is_of w us)"
      unfolding PerformVariadicOp_def operands precise Option.bind.simps radix Let_def rs(1) add_intervals_eq [OF is_wf_new(1) rs(2)]
        qs(1) us(1) using False len by simp
    moreover have "is_points ?s \<subseteq> cov us" using us(4) qs(2,4) by (simp add: widens_def)
    ultimately show ?thesis using is_normal_of [OF us(2,3)] is_points_of [OF us(2)] rs(3) s(2) by (metis subsetD)
  qed
qed

end

section \<open>The operations meet the contract\<close>

fun below :: "Tonicity \<Rightarrow> nat \<Rightarrow> nat \<Rightarrow> bool" where
  "below Monotone x y \<longleftrightarrow> x \<le> y"
| "below Antitone x y \<longleftrightarrow> y \<le> x"

lemma args_ok_two:
  "args_ok [n, m] [d, e] xs \<longleftrightarrow> (\<exists>a b. xs = [a, b] \<and> d \<le> a \<and> a < 2 ^ n \<and> e \<le> b \<and> b < 2 ^ m)"
  by (auto simp: args_ok_def less_Suc_eq numeral_2_eq_2 length_Suc_conv)

lemma args_ok_one: "args_ok [n] [d] xs \<longleftrightarrow> (\<exists>a. xs = [a] \<and> d \<le> a \<and> a < 2 ^ n)"
  by (auto simp: args_ok_def length_Suc_conv)

lemma tonic_two: "tonic [p, q] [a, b] [c, d] \<longleftrightarrow> below (ab_tonicity p) a c \<and> below (ab_tonicity q) b d"
  by (cases "ab_tonicity p"; cases "ab_tonicity q") (auto simp: tonic_def less_Suc_eq numeral_2_eq_2)

lemma tonic_one: "tonic [p] [a] [c] \<longleftrightarrow> below (ab_tonicity p) a c"
  by (cases "ab_tonicity p") (auto simp: tonic_def)

lemma monotone_binary:
  fixes f :: "nat \<Rightarrow> nat \<Rightarrow> int"
  assumes "bignum_spec B val"
    and "\<And>a b. d \<le> a \<Longrightarrow> a < 2 ^ n \<Longrightarrow> e \<le> b \<Longrightarrow> b < 2 ^ m \<Longrightarrow> calc (bits_of_nat n a) (bits_of_nat m b) =
      Some \<lparr>or_result = bits_of_int w (f a b), or_first_overflow_bit = first a b, or_second_overflow_bit = second a b\<rparr>"
    and mono: "\<And>a b a' b'. d \<le> a \<Longrightarrow> a < 2 ^ n \<Longrightarrow> e \<le> b \<Longrightarrow> b < 2 ^ m \<Longrightarrow> d \<le> a' \<Longrightarrow> a' < 2 ^ n \<Longrightarrow> e \<le> b' \<Longrightarrow> b' < 2 ^ m \<Longrightarrow>
      below (ab_tonicity p) a a' \<Longrightarrow> below (ab_tonicity q) b b' \<Longrightarrow> f a b \<le> f a' b'"
    and fits: "\<And>a b. d \<le> a \<Longrightarrow> a < 2 ^ n \<Longrightarrow> e \<le> b \<Longrightarrow> b < 2 ^ m \<Longrightarrow> \<not> first a b \<Longrightarrow> 0 \<le> f a b \<and> f a b < 2 ^ w"
    and over: "\<And>a b. d \<le> a \<Longrightarrow> a < 2 ^ n \<Longrightarrow> e \<le> b \<Longrightarrow> b < 2 ^ m \<Longrightarrow> first a b \<Longrightarrow> f a b < 0 \<or> 2 ^ w \<le> f a b"
    and once: "\<And>a b. d \<le> a \<Longrightarrow> a < 2 ^ n \<Longrightarrow> e \<le> b \<Longrightarrow> b < 2 ^ m \<Longrightarrow> first a b \<Longrightarrow> \<not> second a b \<Longrightarrow>
      - (2 ^ w) \<le> f a b \<and> f a b < 2 ^ (w + 1)"
    and left: "\<And>a a' b. a < 2 ^ n \<Longrightarrow> a' < 2 ^ n \<Longrightarrow> ab_size_preserving p \<Longrightarrow> f a' b - f a b < 2 ^ w"
    and right: "\<And>a b b'. b < 2 ^ m \<Longrightarrow> b' < 2 ^ m \<Longrightarrow> ab_size_preserving q \<Longrightarrow> f a b' - f a b < 2 ^ w"
  shows "monotone_calc B val (binary_calc calc) [p, q] (\<lambda>xs. f (xs ! 0) (xs ! 1)) (\<lambda>xs. first (xs ! 0) (xs ! 1))
    (\<lambda>xs. second (xs ! 0) (xs ! 1)) [n, m] [d, e] w"
proof
  fix xs ys
  assume "args_ok [n, m] [d, e] xs" "args_ok [n, m] [d, e] ys"
  then obtain a b a' b' where x: "xs = [a, b]" "d \<le> a" "a < 2 ^ n" "e \<le> b" "b < 2 ^ m"
    and y: "ys = [a', b']" "d \<le> a'" "a' < 2 ^ n" "e \<le> b'" "b' < 2 ^ m" unfolding args_ok_two by blast
  note xy = x(2-) y(2-)
  show "f (ys ! 0) (ys ! 1) - f (xs ! 0) (xs ! 1) < 2 ^ w" if "\<not> first (xs ! 0) (xs ! 1)" "\<not> first (ys ! 0) (ys ! 1)"
    using fits [OF x(2-)] fits [OF y(2-)] that x(1) y(1) by simp
  show "0 \<le> f (ys ! 0) (ys ! 1) \<and> f (ys ! 0) (ys ! 1) < 2 ^ w" if "\<not> first (ys ! 0) (ys ! 1)"
    using fits [OF y(2-)] that y(1) by simp
  show "f (xs ! 0) (xs ! 1) < 0 \<or> 2 ^ w \<le> f (xs ! 0) (xs ! 1)" if "first (xs ! 0) (xs ! 1)"
    using over [OF x(2-)] that x(1) by simp
  show "f (xs ! 0) (xs ! 1) \<le> f (ys ! 0) (ys ! 1)" if "tonic [p, q] xs ys" using mono [OF xy] that x(1) y(1) by (simp add: tonic_two)
  show "f (ys ! 0) (ys ! 1) - f (xs ! 0) (xs ! 1) < 2 ^ w"
    if i: "i < length [p, q]" "ab_size_preserving ([p, q] ! i)" "\<And>j. j < length [p, q] \<Longrightarrow> j \<noteq> i \<Longrightarrow> xs ! j = ys ! j" for i
  proof (cases "i = 0")
    case True
    then have "b = b'" using i(3) [of 1] x(1) y(1) by simp
    then show ?thesis using left [OF x(3) y(3), of b] i(2) True x(1) y(1) by simp
  next
    case False
    then have "i = 1" using i(1) by simp
    moreover from this have "a = a'" using i(3) [of 0] x(1) y(1) by simp
    ultimately show ?thesis using right [OF x(5) y(5), of a] i(2) x(1) y(1) by simp
  qed
qed (use assms in \<open>auto simp: args_ok_two\<close>)

lemma monotone_unary:
  fixes f :: "nat \<Rightarrow> int"
  assumes "bignum_spec B val"
    and "\<And>a. a < 2 ^ n \<Longrightarrow> calc (bits_of_nat n a) =
      Some \<lparr>or_result = bits_of_int w (f a), or_first_overflow_bit = False, or_second_overflow_bit = False\<rparr>"
    and "\<And>a b. a < 2 ^ n \<Longrightarrow> b < 2 ^ n \<Longrightarrow> below (ab_tonicity p) a b \<Longrightarrow> f a \<le> f b \<and> f b - f a < 2 ^ w"
  shows "monotone_calc B val (unary_calc calc) [p] (\<lambda>xs. f (xs ! 0)) (\<lambda>xs. False) (\<lambda>xs. False) [n] [0] w"
  by unfold_locales (use assms in \<open>auto simp: args_ok_one tonic_one\<close>)

text \<open>The big-number library the arithmetic rests on, and the operations under it.\<close>

locale interval_arith =
  fixes B :: "'bn bignum" and val :: "'bn \<Rightarrow> int"
  assumes bignum: "bignum_spec B val"

lemma top_bit:
  assumes "v < 2 ^ Suc n"
  shows "bit v n \<longleftrightarrow> (2::nat) ^ n \<le> v"
proof -
  have "v div 2 ^ n < 2" using assms by (intro less_mult_imp_div_less) simp
  then have "odd (v div 2 ^ n) \<longleftrightarrow> v div 2 ^ n \<noteq> 0" by (auto simp: less_2_cases_iff)
  then show ?thesis by (auto simp: bit_iff_odd div_eq_0_iff not_less)
qed

lemma add_calc_eq:
  assumes "bignum_spec B val" "a < 2 ^ n" "b < 2 ^ n"
  shows "add_calc B (bits_of_nat n a) (bits_of_nat n b) =
    Some \<lparr>or_result = bits_of_int n (int a + int b), or_first_overflow_bit = 2 ^ n \<le> int a + int b, or_second_overflow_bit = False\<rparr>"
proof -
  have l: "a + b < 2 ^ (n + 1)" using assms(2,3) by simp
  have s: "bits_ops_Add B (bits_of_nat (n + 1) a) (bits_of_nat (n + 1) b) = Some (bits_of_nat (n + 1) (a + b))"
    using Add_eq(2) [OF assms(1), of "bits_of_nat (n + 1) a" "bits_of_nat (n + 1) b"] assms(2,3) by simp
  have "Bits_GetFromMsb (bits_of_nat (n + 1) (a + b)) 0 \<longleftrightarrow> bit (a + b) n"
    using GetFromMsb_0 [of "bits_of_nat (n + 1) (a + b)"] by (simp add: Bits_msb_def Bits_Get_nth)
  also have "\<dots> \<longleftrightarrow> 2 ^ n \<le> a + b" using l by (intro top_bit) simp
  finally have m: "Bits_GetFromMsb (bits_of_nat (n + 1) (a + b)) 0 \<longleftrightarrow> 2 ^ n \<le> int a + int b" by (metis of_nat_add of_nat_le_iff of_nat_numeral of_nat_power)
  have "bits_of_nat n (a + b) = bits_of_int n (int a + int b)" using bits_of_int_of_nat [of n "a + b"] by simp
  moreover have "bits_ops_Truncate (bits_of_nat (n + 1) (a + b)) n = Some (bits_of_nat n (a + b))" using l by (simp add: Truncate_eq)
  ultimately show ?thesis using s m assms(2,3) by (simp add: add_calc_def Let_def ZeroExtend_eq)
qed

lemma sub_calc_eq:
  assumes "bignum_spec B val" "a < 2 ^ n" "b < 2 ^ n"
  shows "sub_calc B (bits_of_nat n a) (bits_of_nat n b) =
    Some \<lparr>or_result = bits_of_int n (int a - int b), or_first_overflow_bit = int a - int b < 0, or_second_overflow_bit = False\<rparr>"
  using Sub_eq(2) [OF assms(1), of "bits_of_nat n a" "bits_of_nat n b"] assms(2,3) by (simp add: sub_calc_def unsigned_compare)

lemma neg_calc_eq:
  assumes "bignum_spec B val" "a < 2 ^ n"
  shows "no_overflow (bits_ops_Negate B (bits_of_nat n a)) =
    Some \<lparr>or_result = bits_of_int n (- int a), or_first_overflow_bit = False, or_second_overflow_bit = False\<rparr>"
proof -
  have "sval (bits_of_nat n a) mod 2 ^ n = int a mod 2 ^ n" using sval_mod [of "bits_of_nat n a"] assms(2) by simp
  then have "bits_of_int n (- sval (bits_of_nat n a)) = bits_of_int n (- int a)" by (intro bits_of_int_cong) (metis mod_minus_eq)
  then show ?thesis using Negate_eq [OF assms(1), of "bits_of_nat n a"] by (simp add: no_overflow_def)
qed

lemma umul_calc_eq:
  assumes "bignum_spec B val" "a < 2 ^ n" "b < 2 ^ m"
  shows "umul_calc B w (bits_of_nat n a) (bits_of_nat m b) =
    Some \<lparr>or_result = bits_of_int w (int a * int b), or_first_overflow_bit = 2 ^ w \<le> int a * int b,
          or_second_overflow_bit = 2 ^ (w + 1) \<le> int a * int b\<rparr>"
proof -
  let ?r = "bits_of_nat (n + m) (a * b)"
  have l: "a * b < 2 ^ (n + m)" unfolding power_add using assms(2,3) by (intro mult_strict_mono) auto
  have r: "bits_ops_UMul B (bits_of_nat n a) (bits_of_nat m b) = Some ?r"
    using UMul_eq [OF assms(1), of "bits_of_nat n a" "bits_of_nat m b"] assms(2,3) by simp
  define z where "z = Bits_CountLeadingZeros ?r"
  have z: "z \<le> n + m" "a * b < 2 ^ (n + m - z)" "z < n + m \<longrightarrow> 2 ^ (n + m - z - 1) \<le> a * b"
    using CountLeadingZeros_bounds [of ?r] l by (simp_all add: z_def)
  have "int (n + m) - int z - 1 \<ge> int k \<longleftrightarrow> 2 ^ k \<le> a * b" for k
  proof
    assume "int k \<le> int (n + m) - int z - 1"
    then have k: "z < n + m" "k \<le> n + m - z - 1" by linarith+
    then have "(2::nat) ^ k \<le> 2 ^ (n + m - z - 1)" by (intro power_increasing) simp_all
    then show "2 ^ k \<le> a * b" using z(3) k(1) by linarith
  next
    assume "2 ^ k \<le> a * b"
    then have "(2::nat) ^ k < 2 ^ (n + m - z)" using z(2) by linarith
    then show "int k \<le> int (n + m) - int z - 1" using z(1) by simp
  qed
  from this [of w] this [of "w + 1"] have f: "int (n + m) - int z - 1 \<ge> int w \<longleftrightarrow> 2 ^ w \<le> int a * int b"
    "int (n + m) - int z - 1 \<ge> int w + 1 \<longleftrightarrow> 2 ^ (w + 1) \<le> int a * int b"
    by (metis of_nat_le_iff of_nat_mult of_nat_numeral of_nat_power, metis of_nat_le_iff of_nat_mult of_nat_numeral of_nat_power of_nat_add of_nat_1)
  have "InlineBitmap_WithSize ?r w False = bits_of_nat w (a * b)"
  proof (rule bm_eqI)
    show "bm_bits (InlineBitmap_WithSize ?r w False) = bm_bits (bits_of_nat w (a * b))"
      using l nat_less_exp_iff_bits [of "a * b" "n + m"]
      by (intro nth_equalityI) (auto simp: WithSize_bits nth_append not_less simp del: bm_bits_nth)
  qed simp_all
  also have "\<dots> = bits_of_int w (int a * int b)" using bits_of_int_of_nat [of w "a * b"] by simp
  finally show ?thesis using r f by (simp add: umul_calc_def Let_def z_def)
qed

lemma udiv_calc_eq:
  assumes "bignum_spec B val" "a < 2 ^ n" "0 < b" "b < 2 ^ m"
  shows "no_overflow (bits_ops_UDiv B (bits_of_nat n a) (bits_of_nat m b)) =
    Some \<lparr>or_result = bits_of_int n (int (a div b)), or_first_overflow_bit = False, or_second_overflow_bit = False\<rparr>"
  using UDiv_eq [OF assms(1), of "bits_of_nat n a" "bits_of_nat m b"] assms by (simp add: no_overflow_def bits_of_int_of_nat)

lemma shrl_calc_eq:
  assumes "a < 2 ^ n" "b < 2 ^ m" "n < 2 ^ 63"
  shows "shrl_calc (bits_of_nat n a) (bits_of_nat m b) =
    Some \<lparr>or_result = bits_of_int n (int (a div 2 ^ b)), or_first_overflow_bit = False, or_second_overflow_bit = False\<rparr>"
proof -
  have big: "Bits_new n = bits_of_nat n (a div 2 ^ b)" if "2 ^ 63 \<le> b"
  proof -
    have "(2::nat) ^ n \<le> 2 ^ b" using that assms(3) by (intro power_increasing) linarith+
    then have "a div 2 ^ b = 0" using assms(1) by (simp add: div_eq_0_iff less_le_trans)
    then show ?thesis by (auto intro!: bits_of_natI)
  qed
  show ?thesis
  proof (cases "b < 2 ^ 64")
    case True
    then obtain v where v: "Bits_ToUint64 (bits_of_nat m b) = Inr v" "unat v = b"
      using ToUint64_correct(1) [of "bits_of_nat m b"] assms(2) by auto
    have "v > 0x7FFFFFFFFFFFFFFF \<longleftrightarrow> 2 ^ 63 \<le> b" using v(2) by (auto simp: word_less_nat_alt)
    then show ?thesis using v big assms(1) ShiftRightLogical_eq [of "bits_of_nat n a" b]
      by (simp add: shrl_calc_def no_overflow_def bits_of_int_of_nat)
  next
    case False
    then have "\<exists>e. Bits_ToUint64 (bits_of_nat m b) = Inl e" using ToUint64_correct(2) [of "bits_of_nat m b"] assms(2) by auto
    then show ?thesis using big False by (auto simp: shrl_calc_def no_overflow_def bits_of_int_of_nat)
  qed
qed

lemma int_less_exp: "a < 2 ^ n \<longleftrightarrow> int a < 2 ^ n"
  by simp

lemmas behavior_defs = kMonotoneSizePreserving_def kMonotoneNonSizePreserving_def kAntitoneSizePreserving_def kAntitoneNonSizePreserving_def

lemma monotone_add:
  assumes "bignum_spec B val"
  shows "monotone_calc B val (binary_calc (add_calc B)) [kMonotoneSizePreserving, kMonotoneSizePreserving]
    (\<lambda>xs. int (xs ! 0) + int (xs ! 1)) (\<lambda>xs. 2 ^ n \<le> int (xs ! 0) + int (xs ! 1)) (\<lambda>xs. False) [n, n] [0, 0] n"
proof (rule monotone_binary [where f = "\<lambda>a b. int a + int b" and first = "\<lambda>a b. 2 ^ n \<le> int a + int b" and second = "\<lambda>a b. False", OF assms])
  fix a b a' b' :: nat
  show "add_calc B (bits_of_nat n a) (bits_of_nat n b) = Some \<lparr>or_result = bits_of_int n (int a + int b),
      or_first_overflow_bit = 2 ^ n \<le> int a + int b, or_second_overflow_bit = False\<rparr>" if "a < 2 ^ n" "b < 2 ^ n"
    using that by (rule add_calc_eq [OF assms])
  show "int a + int b \<le> int a' + int b'"
    if "below (ab_tonicity kMonotoneSizePreserving) a a'" "below (ab_tonicity kMonotoneSizePreserving) b b'"
    using that by (simp add: behavior_defs)
  show "- (2 ^ n) \<le> int a + int b \<and> int a + int b < 2 ^ (n + 1)" if "a < 2 ^ n" "b < 2 ^ n"
    using that unfolding int_less_exp by (simp only: power_add power_one_right) linarith
  show "int a' + int b - (int a + int b) < 2 ^ n" if "a' < 2 ^ n" using that unfolding int_less_exp by linarith
  show "int a + int b' - (int a + int b) < 2 ^ n" if "b' < 2 ^ n" using that unfolding int_less_exp by linarith
qed simp_all

lemma monotone_sub:
  assumes "bignum_spec B val"
  shows "monotone_calc B val (binary_calc (sub_calc B)) [kMonotoneSizePreserving, kAntitoneSizePreserving]
    (\<lambda>xs. int (xs ! 0) - int (xs ! 1)) (\<lambda>xs. int (xs ! 0) - int (xs ! 1) < 0) (\<lambda>xs. False) [n, n] [0, 0] n"
proof (rule monotone_binary [where f = "\<lambda>a b. int a - int b" and first = "\<lambda>a b. int a - int b < 0" and second = "\<lambda>a b. False", OF assms])
  fix a b a' b' :: nat
  show "sub_calc B (bits_of_nat n a) (bits_of_nat n b) = Some \<lparr>or_result = bits_of_int n (int a - int b),
      or_first_overflow_bit = int a - int b < 0, or_second_overflow_bit = False\<rparr>" if "a < 2 ^ n" "b < 2 ^ n"
    using that by (rule sub_calc_eq [OF assms])
  show "int a - int b \<le> int a' - int b'"
    if "below (ab_tonicity kMonotoneSizePreserving) a a'" "below (ab_tonicity kAntitoneSizePreserving) b b'"
    using that by (simp add: behavior_defs)
  have p: "(0::int) < 2 ^ n" "(2::int) ^ (n + 1) = 2 ^ n + 2 ^ n" by simp_all
  show "- (2 ^ n) \<le> int a - int b \<and> int a - int b < 2 ^ (n + 1)" if "a < 2 ^ n" "b < 2 ^ n"
    using that p unfolding int_less_exp by linarith
  show "0 \<le> int a - int b \<and> int a - int b < 2 ^ n" if "a < 2 ^ n" "\<not> int a - int b < 0"
    using that unfolding int_less_exp by linarith
  show "int a' - int b - (int a - int b) < 2 ^ n" if "a' < 2 ^ n" using that unfolding int_less_exp by linarith
  show "int a - int b' - (int a - int b) < 2 ^ n" if "b < 2 ^ n" using that unfolding int_less_exp by linarith
qed simp_all

lemma monotone_umul:
  assumes "bignum_spec B val"
  shows "monotone_calc B val (binary_calc (umul_calc B w)) [kMonotoneNonSizePreserving, kMonotoneNonSizePreserving]
    (\<lambda>xs. int (xs ! 0) * int (xs ! 1)) (\<lambda>xs. 2 ^ w \<le> int (xs ! 0) * int (xs ! 1)) (\<lambda>xs. 2 ^ (w + 1) \<le> int (xs ! 0) * int (xs ! 1))
    [n, m] [0, 0] w"
proof (rule monotone_binary [where f = "\<lambda>a b. int a * int b" and first = "\<lambda>a b. 2 ^ w \<le> int a * int b" and
      second = "\<lambda>a b. 2 ^ (w + 1) \<le> int a * int b", OF assms])
  fix a b a' b' :: nat
  show "umul_calc B w (bits_of_nat n a) (bits_of_nat m b) = Some \<lparr>or_result = bits_of_int w (int a * int b),
      or_first_overflow_bit = 2 ^ w \<le> int a * int b, or_second_overflow_bit = 2 ^ (w + 1) \<le> int a * int b\<rparr>" if "a < 2 ^ n" "b < 2 ^ m"
    using that by (rule umul_calc_eq [OF assms])
  show "int a * int b \<le> int a' * int b'"
    if "below (ab_tonicity kMonotoneNonSizePreserving) a a'" "below (ab_tonicity kMonotoneNonSizePreserving) b b'"
    using that by (intro mult_mono) (simp_all add: behavior_defs)
  have p: "0 \<le> int a * int b" "(0::int) < 2 ^ w" by simp_all
  show "- (2 ^ w) \<le> int a * int b \<and> int a * int b < 2 ^ (w + 1)" if "\<not> 2 ^ (w + 1) \<le> int a * int b"
    using that p by linarith
  show "0 \<le> int a * int b \<and> int a * int b < 2 ^ w" if "\<not> 2 ^ w \<le> int a * int b" using that p by linarith
qed (simp_all add: behavior_defs)

lemma monotone_udiv:
  assumes "bignum_spec B val"
  shows "monotone_calc B val (binary_calc (\<lambda>l r. no_overflow (bits_ops_UDiv B l r))) [kMonotoneNonSizePreserving, kAntitoneNonSizePreserving]
    (\<lambda>xs. int (xs ! 0 div xs ! 1)) (\<lambda>xs. False) (\<lambda>xs. False) [n, m] [0, 1] n"
proof (rule monotone_binary [where f = "\<lambda>a b. int (a div b)" and first = "\<lambda>a b. False" and second = "\<lambda>a b. False", OF assms])
  fix a b a' b' :: nat
  show "no_overflow (bits_ops_UDiv B (bits_of_nat n a) (bits_of_nat m b)) = Some \<lparr>or_result = bits_of_int n (int (a div b)),
      or_first_overflow_bit = False, or_second_overflow_bit = False\<rparr>" if "a < 2 ^ n" "1 \<le> b" "b < 2 ^ m"
    using that by (intro udiv_calc_eq [OF assms]) simp_all
  show "int (a div b) \<le> int (a' div b')"
    if "1 \<le> b'" "below (ab_tonicity kMonotoneNonSizePreserving) a a'" "below (ab_tonicity kAntitoneNonSizePreserving) b b'"
  proof -
    have "a div b \<le> a' div b" using that(2) by (intro div_le_mono) (simp add: behavior_defs)
    also have "\<dots> \<le> a' div b'" using that(1,3) by (intro div_le_mono2) (simp_all add: behavior_defs)
    finally show ?thesis by simp
  qed
  show "0 \<le> int (a div b) \<and> int (a div b) < 2 ^ n" if "a < 2 ^ n"
    using le_less_trans [OF div_le_dividend that, of b] by simp
qed (simp_all add: behavior_defs)

lemma monotone_shrl:
  assumes "bignum_spec B val" "n < 2 ^ 63"
  shows "monotone_calc B val (binary_calc shrl_calc) [kMonotoneNonSizePreserving, kAntitoneNonSizePreserving]
    (\<lambda>xs. int (xs ! 0 div 2 ^ (xs ! 1))) (\<lambda>xs. False) (\<lambda>xs. False) [n, m] [0, 0] n"
proof (rule monotone_binary [where f = "\<lambda>a b. int (a div 2 ^ b)" and first = "\<lambda>a b. False" and second = "\<lambda>a b. False", OF assms(1)])
  fix a b a' b' :: nat
  show "shrl_calc (bits_of_nat n a) (bits_of_nat m b) = Some \<lparr>or_result = bits_of_int n (int (a div 2 ^ b)),
      or_first_overflow_bit = False, or_second_overflow_bit = False\<rparr>" if "a < 2 ^ n" "b < 2 ^ m"
    using that assms(2) by (rule shrl_calc_eq)
  show "int (a div 2 ^ b) \<le> int (a' div 2 ^ b')"
    if "below (ab_tonicity kMonotoneNonSizePreserving) a a'" "below (ab_tonicity kAntitoneNonSizePreserving) b b'"
  proof -
    have "a div 2 ^ b \<le> a' div 2 ^ b" using that(1) by (intro div_le_mono) (simp add: behavior_defs)
    also have "\<dots> \<le> a' div 2 ^ b'" using that(2) by (intro div_le_mono2 power_increasing) (simp_all add: behavior_defs)
    finally show ?thesis by simp
  qed
  show "0 \<le> int (a div 2 ^ b) \<and> int (a div 2 ^ b) < 2 ^ n" if "a < 2 ^ n"
    using le_less_trans [OF div_le_dividend that, of "2 ^ b"] by simp
qed (simp_all add: behavior_defs)

lemma monotone_neg:
  assumes "bignum_spec B val"
  shows "monotone_calc B val (unary_calc (\<lambda>b. no_overflow (bits_ops_Negate B b))) [kAntitoneSizePreserving]
    (\<lambda>xs. - int (xs ! 0)) (\<lambda>xs. False) (\<lambda>xs. False) [n] [0] n"
proof (rule monotone_unary [OF assms])
  fix a b :: nat
  show "no_overflow (bits_ops_Negate B (bits_of_nat n a)) = Some \<lparr>or_result = bits_of_int n (- int a),
      or_first_overflow_bit = False, or_second_overflow_bit = False\<rparr>" if "a < 2 ^ n" using that by (rule neg_calc_eq [OF assms])
  show "- int a \<le> - int b \<and> - int b - - int a < 2 ^ n" if "a < 2 ^ n" "below (ab_tonicity kAntitoneSizePreserving) a b"
    using that unfolding int_less_exp by (simp only: behavior_defs ArgumentBehavior.simps below.simps) linarith
qed

text \<open>Operations whose results always fit need no more than monotonicity.\<close>

lemma monotone_fitting:
  assumes "bignum_spec B val" "length ns = length behaviors" "length ds = length behaviors"
    and "\<And>xs. args_ok ns ds xs \<Longrightarrow> calc (map2 bits_of_nat ns xs) =
      Some \<lparr>or_result = bits_of_int w (F xs), or_first_overflow_bit = False, or_second_overflow_bit = False\<rparr>"
    and "\<And>xs ys. args_ok ns ds xs \<Longrightarrow> args_ok ns ds ys \<Longrightarrow> tonic behaviors xs ys \<Longrightarrow> F xs \<le> F ys"
    and fits: "\<And>xs. args_ok ns ds xs \<Longrightarrow> 0 \<le> F xs \<and> F xs < 2 ^ w"
  shows "monotone_calc B val calc behaviors F (\<lambda>xs. False) (\<lambda>xs. False) ns ds w"
proof
  fix xs ys
  assume xy: "args_ok ns ds xs" "args_ok ns ds ys"
  have d: "F ys - F xs < 2 ^ w" using fits [OF xy(1)] fits [OF xy(2)] by linarith
  show "F ys - F xs < 2 ^ w" by (rule d)
  show "F ys - F xs < 2 ^ w" by (rule d)
qed (use assms in auto)

definition sign_extended :: "nat \<Rightarrow> nat \<Rightarrow> nat \<Rightarrow> int" where
  "sign_extended n w a = (if 0 < n \<and> 2 ^ (n - 1) \<le> a then int a + (2 ^ w - 2 ^ n) else int a)"

lemma sval_bits_of_nat:
  assumes "a < 2 ^ n"
  shows "sval (bits_of_nat n a) = (if 0 < n \<and> 2 ^ (n - 1) \<le> a then int a - 2 ^ n else int a)"
proof (cases n)
  case 0
  then show ?thesis using assms by (simp add: sval_0_width)
next
  case (Suc m)
  have "nat_to_bl n a \<noteq> []" using Suc length_nat_to_bl [of n a] by (metis length_0_conv nat.distinct(1))
  moreover have "last (nat_to_bl n a) \<longleftrightarrow> 2 ^ m \<le> a" using Suc top_bit [of a m] assms calculation by (simp add: last_conv_nth)
  ultimately show ?thesis using assms Suc by (simp add: sval_def bl_to_int_def bl_to_nat_to_bl)
qed

lemma sign_extended_eq:
  assumes "a < 2 ^ n" "n \<le> w"
  shows "bits_of_int w (sval (bits_of_nat n a)) = bits_of_int w (sign_extended n w a)"
    "0 \<le> sign_extended n w a \<and> sign_extended n w a < 2 ^ w"
proof -
  have p: "(2::int) ^ n \<le> 2 ^ w" using assms(2) by (intro power_increasing) simp_all
  have "(int a + (2 ^ w - 2 ^ n)) mod 2 ^ w = (int a - 2 ^ n + 2 ^ w) mod 2 ^ w" by (simp add: algebra_simps)
  then show "bits_of_int w (sval (bits_of_nat n a)) = bits_of_int w (sign_extended n w a)"
    using sval_bits_of_nat [OF assms(1)] unfolding sign_extended_def by (intro bits_of_int_cong) simp
  have "sign_extended n w a = int a + (2 ^ w - 2 ^ n) \<or> sign_extended n w a = int a" by (simp add: sign_extended_def)
  then show "0 \<le> sign_extended n w a \<and> sign_extended n w a < 2 ^ w" using p assms(1) unfolding int_less_exp by linarith
qed

lemma monotone_sign_extend:
  assumes "bignum_spec B val" "n \<le> w"
  shows "monotone_calc B val (unary_calc (\<lambda>b. no_overflow (bits_ops_SignExtend b w))) [kMonotoneSizePreserving]
    (\<lambda>xs. sign_extended n w (xs ! 0)) (\<lambda>xs. False) (\<lambda>xs. False) [n] [0] w"
proof (rule monotone_unary [OF assms(1)])
  fix a b :: nat
  show "no_overflow (bits_ops_SignExtend (bits_of_nat n a) w) = Some \<lparr>or_result = bits_of_int w (sign_extended n w a),
      or_first_overflow_bit = False, or_second_overflow_bit = False\<rparr>" if "a < 2 ^ n"
    using that assms(2) by (simp add: SignExtend_eq no_overflow_def sign_extended_eq)
  have p: "(2::int) ^ n \<le> 2 ^ w" using assms(2) by (intro power_increasing) simp_all
  show "sign_extended n w a \<le> sign_extended n w b \<and> sign_extended n w b - sign_extended n w a < 2 ^ w"
    if "a < 2 ^ n" "b < 2 ^ n" "below (ab_tonicity kMonotoneSizePreserving) a b"
  proof -
    have "a \<le> b" using that(3) by (simp add: behavior_defs)
    then have "sign_extended n w a = int a \<or> sign_extended n w a = int a + (2 ^ w - 2 ^ n) \<and> sign_extended n w b = int b + (2 ^ w - 2 ^ n)"
      "sign_extended n w b = int b \<or> sign_extended n w b = int b + (2 ^ w - 2 ^ n)" by (auto simp: sign_extended_def)
    then have "sign_extended n w a \<le> sign_extended n w b" using p \<open>a \<le> b\<close> by linarith
    then show ?thesis using sign_extended_eq(2) [OF that(1) assms(2)] sign_extended_eq(2) [OF that(2) assms(2)] by linarith
  qed
qed

lemma monotone_zero_extend:
  assumes "bignum_spec B val" "n \<le> w"
  shows "monotone_calc B val (unary_calc (\<lambda>b. no_overflow (bits_ops_ZeroExtend b w))) [kMonotoneSizePreserving]
    (\<lambda>xs. int (xs ! 0)) (\<lambda>xs. False) (\<lambda>xs. False) [n] [0] w"
proof (rule monotone_unary [OF assms(1)])
  fix a b :: nat
  have p: "(2::nat) ^ n \<le> 2 ^ w" using assms(2) by (intro power_increasing) simp_all
  show "no_overflow (bits_ops_ZeroExtend (bits_of_nat n a) w) = Some \<lparr>or_result = bits_of_int w (int a),
      or_first_overflow_bit = False, or_second_overflow_bit = False\<rparr>" if "a < 2 ^ n"
    using that assms(2) by (simp add: ZeroExtend_eq no_overflow_def bits_of_int_of_nat)
  show "int a \<le> int b \<and> int b - int a < 2 ^ w" if "b < 2 ^ n" "below (ab_tonicity kMonotoneSizePreserving) a b"
  proof -
    have "b < 2 ^ w" using that(1) p by linarith
    then have "int b < 2 ^ w" by simp
    moreover have "a \<le> b" using that(2) by (simp add: behavior_defs)
    ultimately show ?thesis by linarith
  qed
qed

fun concat_value :: "nat list \<Rightarrow> nat list \<Rightarrow> nat" where
  "concat_value (n # ns) (x # xs) = x * 2 ^ sum_list ns + concat_value ns xs"
| "concat_value ns xs = 0"

lemma concat_value_eq:
  assumes "length xs = length ns" "\<And>i. i < length ns \<Longrightarrow> xs ! i < 2 ^ (ns ! i)"
  shows "bl_to_nat (concat (map bm_bits (rev (map2 bits_of_nat ns xs)))) = concat_value ns xs \<and>
    length (concat (map bm_bits (rev (map2 bits_of_nat ns xs)))) = sum_list ns \<and> concat_value ns xs < 2 ^ sum_list ns"
  using assms
proof (induction ns xs rule: concat_value.induct)
  case (1 n ns x xs)
  have x: "x < 2 ^ n" using "1.prems"(2) [of 0] by simp
  have IH: "bl_to_nat (concat (map bm_bits (rev (map2 bits_of_nat ns xs)))) = concat_value ns xs"
    "length (concat (map bm_bits (rev (map2 bits_of_nat ns xs)))) = sum_list ns" "concat_value ns xs < 2 ^ sum_list ns"
    using "1.IH" "1.prems"(1) "1.prems"(2) [of "Suc i" for i] by auto
  have "concat_value ns xs + x * 2 ^ sum_list ns < 2 ^ sum_list ns + x * 2 ^ sum_list ns" using IH(3) by simp
  also have "\<dots> = (x + 1) * 2 ^ sum_list ns" by simp
  also have "\<dots> \<le> 2 ^ n * 2 ^ sum_list ns" using x by (intro mult_le_mono1) simp
  finally have "concat_value (n # ns) (x # xs) < 2 ^ sum_list (n # ns)" by (simp add: power_add add.commute)
  moreover have "concat (map bm_bits (rev (map2 bits_of_nat (n # ns) (x # xs)))) =
      concat (map bm_bits (rev (map2 bits_of_nat ns xs))) @ nat_to_bl n x" by simp
  ultimately show ?case using IH x by (simp add: bl_to_nat_append bl_to_nat_to_bl add.commute mult.commute)
qed simp_all

lemma concat_value_mono:
  "length xs = length ns \<Longrightarrow> length ys = length ns \<Longrightarrow> (\<And>i. i < length ns \<Longrightarrow> xs ! i \<le> ys ! i) \<Longrightarrow> concat_value ns xs \<le> concat_value ns ys"
proof (induction ns arbitrary: xs ys)
  case (Cons n ns)
  then obtain x xs' y ys' where e: "xs = x # xs'" "ys = y # ys'" by (cases xs; cases ys) auto
  have "x \<le> y" using Cons.prems(3) [of 0] e by simp
  moreover have "concat_value ns xs' \<le> concat_value ns ys'" using Cons.prems(1,2) Cons.prems(3) [of "Suc i" for i] e by (intro Cons.IH) auto
  ultimately show ?case using e by (simp add: add_mono)
qed simp

lemma monotone_concat:
  assumes "bignum_spec B val" "ns \<noteq> []"
  shows "monotone_calc B val (\<lambda>bs. no_overflow (bits_ops_Concat bs))
    ((replicate (length ns) kMonotoneNonSizePreserving)[length ns - 1 := kMonotoneSizePreserving])
    (\<lambda>xs. int (concat_value ns xs)) (\<lambda>xs. False) (\<lambda>xs. False) ns (replicate (length ns) 0) (sum_list ns)"
proof (rule monotone_fitting [OF assms(1)])
  fix xs ys
  assume x: "args_ok ns (replicate (length ns) 0) xs"
  note v = concat_value_eq [of xs ns] x [unfolded args_ok_def]
  have "Bits_of_span (concat (map bm_bits (rev (map2 bits_of_nat ns xs)))) = bits_of_nat (sum_list ns) (concat_value ns xs)"
    using v by (intro bits_of_natI) simp_all
  then show "no_overflow (bits_ops_Concat (map2 bits_of_nat ns xs)) = Some \<lparr>or_result = bits_of_int (sum_list ns) (int (concat_value ns xs)),
      or_first_overflow_bit = False, or_second_overflow_bit = False\<rparr>" by (simp add: Concat_eq no_overflow_def bits_of_int_of_nat)
  show "0 \<le> int (concat_value ns xs) \<and> int (concat_value ns xs) < 2 ^ sum_list ns" using v by simp
  show "int (concat_value ns xs) \<le> int (concat_value ns ys)"
    if "args_ok ns (replicate (length ns) 0) ys"
      "tonic ((replicate (length ns) kMonotoneNonSizePreserving)[length ns - 1 := kMonotoneSizePreserving]) xs ys"
  proof -
    have "xs ! i \<le> ys ! i" if "i < length ns" for i
      using \<open>tonic _ xs ys\<close> that by (auto simp: tonic_def nth_list_update behavior_defs split: if_splits)
    then show ?thesis using x that(1) concat_value_mono [of xs ns ys] by (simp add: args_ok_def)
  qed
qed simp_all

lemma monotone_binary_sound:
  assumes "monotone_calc B val (binary_calc calc) [p, q] (\<lambda>xs. f (xs ! 0) (xs ! 1)) first second [n, m] [d, e] w"
    "operand_set n d a" "operand_set m e b"
  shows "\<exists>u. PerformBinOp B calc a p b q w = Some u \<and> is_normal w u \<and>
    (\<forall>x \<in> is_points a. \<forall>y \<in> is_points b. nat (f x y mod 2 ^ w) \<in> is_points u)"
proof -
  have "operand_set ([n, m] ! i) ([d, e] ! i) ([a, b] ! i)" if "i < length [n, m]" for i
    using that assms(2,3) by (auto simp: less_Suc_eq numeral_2_eq_2)
  then obtain u where u: "PerformVariadicOp B (binary_calc calc) [p, q] [a, b] w = Some u" "is_normal w u"
    "\<forall>xs. length xs = length [n, m] \<longrightarrow> (\<forall>i < length [n, m]. xs ! i \<in> is_points ([a, b] ! i)) \<longrightarrow>
      nat (f (xs ! 0) (xs ! 1) mod 2 ^ w) \<in> is_points u"
    using monotone_calc.sound [OF assms(1), of "[a, b]"] by auto
  have "nat (f x y mod 2 ^ w) \<in> is_points u" if "x \<in> is_points a" "y \<in> is_points b" for x y
  proof -
    have "[x, y] ! i \<in> is_points ([a, b] ! i)" if "i < length [n, m]" for i
      using that \<open>x \<in> is_points a\<close> \<open>y \<in> is_points b\<close> by (cases i) simp_all
    then show ?thesis using u(3) [rule_format, of "[x, y]"] by simp
  qed
  then show ?thesis using u(1,2) by (auto simp: PerformBinOp_def)
qed

lemma monotone_unary_sound:
  assumes "monotone_calc B val (unary_calc calc) [p] (\<lambda>xs. f (xs ! 0)) first second [n] [d] w" "operand_set n d a"
  shows "\<exists>u. PerformUnaryOp B calc a p w = Some u \<and> is_normal w u \<and> (\<forall>x \<in> is_points a. nat (f x mod 2 ^ w) \<in> is_points u)"
proof -
  have "operand_set ([n] ! i) ([d] ! i) ([a] ! i)" if "i < length [n]" for i using that assms(2) by simp
  then obtain u where u: "PerformVariadicOp B (unary_calc calc) [p] [a] w = Some u" "is_normal w u"
    "\<forall>xs. length xs = length [n] \<longrightarrow> (\<forall>i < length [n]. xs ! i \<in> is_points ([a] ! i)) \<longrightarrow> nat (f (xs ! 0) mod 2 ^ w) \<in> is_points u"
    using monotone_calc.sound [OF assms(1), of "[a]"] by auto
  have "nat (f x mod 2 ^ w) \<in> is_points u" if "x \<in> is_points a" for x using u(3) [rule_format, of "[x]"] that by simp
  then show ?thesis using u(1,2) by (auto simp: PerformUnaryOp_def)
qed

text \<open>Membership of a bit vector in an interval set, and sets an operation may be applied to.\<close>

definition is_member :: "nat \<Rightarrow> IntervalSet \<Rightarrow> Bits \<Rightarrow> bool" where
  "is_member n s b \<longleftrightarrow> bm_wf b \<and> Bits_bit_count b = n \<and> uval b \<in> is_points s"

definition is_operand :: "nat \<Rightarrow> IntervalSet \<Rightarrow> bool" where
  "is_operand n s \<longleftrightarrow> is_normal n s \<and> is_points s \<noteq> {}"

lemma is_operand_simps [simp]:
  assumes "is_operand n s"
  shows "is_wf n s" "is_normal n s" "is_points s \<noteq> {}" "IntervalSet_BitCount s = Some n" "operand_set n 0 s" "is_is_normalized s"
  using assms by (simp_all add: is_operand_def is_normal_def operand_set_def)

lemma is_member_nat: "is_member n s b \<Longrightarrow> uval b \<in> is_points s \<and> uval b < 2 ^ n \<and> b = bits_of_nat n (uval b)"
  using uval_less [of b] bits_of_nat_uval [of b] by (auto simp: is_member_def)

lemma is_member_of_nat: "v < 2 ^ w \<Longrightarrow> is_member w u (bits_of_nat w v) \<longleftrightarrow> v \<in> is_points u"
  by (simp add: is_member_def)

lemma is_member_of_int: "is_member w u (bits_of_int w v) \<longleftrightarrow> nat (v mod 2 ^ w) \<in> is_points u"
proof -
  have "int (uval (bits_of_int w v)) = v mod 2 ^ w" by simp
  then have "uval (bits_of_int w v) = nat (v mod 2 ^ w)" by (metis nat_int)
  then show ?thesis by (simp add: is_member_def)
qed

text \<open>
  \<open>covers2 n m w u a b f\<close>: the set \<open>u\<close> has every result of \<open>f\<close> on members of \<open>a\<close> and \<open>b\<close>.
\<close>

definition covers2 :: "nat \<Rightarrow> nat \<Rightarrow> nat \<Rightarrow> IntervalSet \<Rightarrow> IntervalSet \<Rightarrow> IntervalSet \<Rightarrow> (Bits \<Rightarrow> Bits \<Rightarrow> Bits option) \<Rightarrow> bool" where
  "covers2 n m w u a b f \<longleftrightarrow> is_normal w u \<and>
     (\<forall>x y. is_member n a x \<longrightarrow> is_member m b y \<longrightarrow> (\<exists>z. f x y = Some z \<and> is_member w u z))"

definition covers1 :: "nat \<Rightarrow> nat \<Rightarrow> IntervalSet \<Rightarrow> IntervalSet \<Rightarrow> (Bits \<Rightarrow> Bits option) \<Rightarrow> bool" where
  "covers1 n w u a f \<longleftrightarrow> is_normal w u \<and> (\<forall>x. is_member n a x \<longrightarrow> (\<exists>z. f x = Some z \<and> is_member w u z))"

lemma covers2I:
  assumes "is_normal w u" "\<And>x y. x \<in> is_points a \<Longrightarrow> y \<in> is_points b \<Longrightarrow> x < 2 ^ n \<Longrightarrow> y < 2 ^ m \<Longrightarrow>
    \<exists>z. f (bits_of_nat n x) (bits_of_nat m y) = Some z \<and> is_member w u z"
  shows "covers2 n m w u a b f"
  unfolding covers2_def using assms is_member_nat by metis

lemma covers1I:
  assumes "is_normal w u" "\<And>x. x \<in> is_points a \<Longrightarrow> x < 2 ^ n \<Longrightarrow> \<exists>z. f (bits_of_nat n x) = Some z \<and> is_member w u z"
  shows "covers1 n w u a f"
  unfolding covers1_def using assms is_member_nat by metis

sublocale interval_arith \<subseteq> add: monotone_calc B val "binary_calc (add_calc B)"
  "[kMonotoneSizePreserving, kMonotoneSizePreserving]" "\<lambda>xs. int (xs ! 0) + int (xs ! 1)"
  "\<lambda>xs. 2 ^ n \<le> int (xs ! 0) + int (xs ! 1)" "\<lambda>xs. False" "[n, n]" "[0, 0]" n for n
  by (rule monotone_add [OF bignum])

interpretation ia: interval_arith int_bignum id
  by unfold_locales (rule int_bignum_spec)

context interval_arith
begin

lemma Add_sound:
  assumes "is_operand n a" "is_operand n b"
  shows "\<exists>u. interval_ops_Add B a b = Some u \<and> covers2 n n n u a b (bits_ops_Add B)"
proof -
  obtain u where u: "PerformBinOp B (add_calc B) a kMonotoneSizePreserving b kMonotoneSizePreserving n = Some u" "is_normal n u"
    "\<forall>x \<in> is_points a. \<forall>y \<in> is_points b. nat ((int x + int y) mod 2 ^ n) \<in> is_points u"
    using monotone_binary_sound [OF monotone_add [OF bignum], of n a b] assms by auto
  have "covers2 n n n u a b (bits_ops_Add B)"
  proof (rule covers2I [OF u(2)])
    fix x y
    assume "x \<in> is_points a" "y \<in> is_points b" "x < 2 ^ n" "y < 2 ^ n"
    then show "\<exists>z. bits_ops_Add B (bits_of_nat n x) (bits_of_nat n y) = Some z \<and> is_member n u z"
      using u(3) Add_eq(2) [OF bignum, of "bits_of_nat n x" "bits_of_nat n y"] is_member_of_int [of n u "int x + int y"]
        bits_of_int_of_nat [of n "x + y"] by simp
  qed
  then show ?thesis using u(1) assms by (simp add: interval_ops_Add_def)
qed

lemma Sub_sound:
  assumes "is_operand n a" "is_operand n b"
  shows "\<exists>u. interval_ops_Sub B a b = Some u \<and> covers2 n n n u a b (bits_ops_Sub B)"
proof -
  obtain u where u: "PerformBinOp B (sub_calc B) a kMonotoneSizePreserving b kAntitoneSizePreserving n = Some u" "is_normal n u"
    "\<forall>x \<in> is_points a. \<forall>y \<in> is_points b. nat ((int x - int y) mod 2 ^ n) \<in> is_points u"
    using monotone_binary_sound [OF monotone_sub [OF bignum], of n a b] assms by auto
  have "covers2 n n n u a b (bits_ops_Sub B)"
  proof (rule covers2I [OF u(2)])
    fix x y
    assume "x \<in> is_points a" "y \<in> is_points b" "x < 2 ^ n" "y < 2 ^ n"
    then show "\<exists>z. bits_ops_Sub B (bits_of_nat n x) (bits_of_nat n y) = Some z \<and> is_member n u z"
      using u(3) Sub_eq(2) [OF bignum, of "bits_of_nat n x" "bits_of_nat n y"] is_member_of_int [of n u "int x - int y"] by simp
  qed
  then show ?thesis using u(1) assms by (simp add: interval_ops_Sub_def)
qed

lemma Neg_sound:
  assumes "is_operand n a"
  shows "\<exists>u. interval_ops_Neg B a = Some u \<and> covers1 n n u a (bits_ops_Negate B)"
proof -
  obtain u where u: "PerformUnaryOp B (\<lambda>b. no_overflow (bits_ops_Negate B b)) a kAntitoneSizePreserving n = Some u" "is_normal n u"
    "\<forall>x \<in> is_points a. nat ((- int x) mod 2 ^ n) \<in> is_points u"
    using monotone_unary_sound [OF monotone_neg [OF bignum], of n a] assms by auto
  have "covers1 n n u a (bits_ops_Negate B)"
  proof (rule covers1I [OF u(2)])
    fix x
    assume "x \<in> is_points a" "x < 2 ^ n"
    then show "\<exists>z. bits_ops_Negate B (bits_of_nat n x) = Some z \<and> is_member n u z"
      using u(3) neg_calc_eq [OF bignum, of x n] is_member_of_int [of n u "- int x"] by (auto simp: no_overflow_def)
  qed
  then show ?thesis using u(1) assms by (simp add: interval_ops_Neg_def)
qed

lemma UMul_sound:
  assumes "is_operand n a" "is_operand m b"
  shows "\<exists>u. interval_ops_UMul B a b w = Some u \<and>
    covers2 n m w u a b (\<lambda>x y. map_option (\<lambda>z. InlineBitmap_WithSize z w False) (bits_ops_UMul B x y))"
proof -
  obtain u where u: "PerformBinOp B (umul_calc B w) a kMonotoneNonSizePreserving b kMonotoneNonSizePreserving w = Some u" "is_normal w u"
    "\<forall>x \<in> is_points a. \<forall>y \<in> is_points b. nat ((int x * int y) mod 2 ^ w) \<in> is_points u"
    using monotone_binary_sound [OF monotone_umul [OF bignum, of w n m], of a b] assms by auto
  have "covers2 n m w u a b (\<lambda>x y. map_option (\<lambda>z. InlineBitmap_WithSize z w False) (bits_ops_UMul B x y))"
  proof (rule covers2I [OF u(2)])
    fix x y
    assume xy: "x \<in> is_points a" "y \<in> is_points b" "x < 2 ^ n" "y < 2 ^ m"
    obtain z where z: "bits_ops_UMul B (bits_of_nat n x) (bits_of_nat m y) = Some z"
      using umul_calc_eq [OF bignum xy(3,4), of w] by (cases "bits_ops_UMul B (bits_of_nat n x) (bits_of_nat m y)") (simp_all add: umul_calc_def)
    then have "InlineBitmap_WithSize z w False = bits_of_int w (int x * int y)"
      using umul_calc_eq [OF bignum xy(3,4), of w] by (simp add: umul_calc_def Let_def)
    then show "\<exists>z. map_option (\<lambda>z. InlineBitmap_WithSize z w False) (bits_ops_UMul B (bits_of_nat n x) (bits_of_nat m y)) = Some z \<and> is_member w u z"
      using u(3) xy z is_member_of_int [of w u "int x * int y"] by auto
  qed
  then show ?thesis using u(1) by (simp add: interval_ops_UMul_def)
qed

end

end
