(* ===== verification/Interval_Sound.thy ===== *)
theory Interval_Sound
  imports Interval_Ops
begin

text \<open>
  Soundness of the operations of \<open>xls/ir/interval_ops.cc\<close> beyond addition, subtraction, negation and
  multiplication: division, shifts, extensions and concatenation as instances of the monotone
  calculation, comparisons by the convex hulls, gating, reductions, and the exactness of the
  conversions between interval sets and ternary vectors.
\<close>

unbundle bit_operations_syntax

section \<open>What the queries answer on operands\<close>

lemma operand_cases:
  assumes "is_operand n s"
  obtains ps where "s = is_of n ps" "bounds_ok n ps" "gapped ps" "is_points s = cov ps" "cov ps \<noteq> {}" "finite (cov ps)"
proof -
  obtain ps where ps: "s = is_of n ps" "bounds_ok n ps" "gapped ps" "is_points s = cov ps"
    using is_normal_cases [OF is_operand_simps(2) [OF assms]] .
  moreover have "finite (cov ps)" by (simp add: cov_def)
  moreover have "cov ps \<noteq> {}" using is_operand_simps(3) [OF assms] unfolding ps(4) .
  ultimately show thesis using that by blast
qed

lemma operand_less: "is_operand n s \<Longrightarrow> x \<in> is_points s \<Longrightarrow> x < 2 ^ n"
  using is_points_less [of n s] by auto

definition is_least :: "IntervalSet \<Rightarrow> nat" where
  "is_least s = Min (is_points s)"

definition is_greatest :: "IntervalSet \<Rightarrow> nat" where
  "is_greatest s = Max (is_points s)"

lemma operand_queries [simp]:
  assumes "is_operand n s"
  shows "IntervalSet_CoversZero s = Some (0 \<in> is_points s)" "IntervalSet_CoversMax s = Some (2 ^ n - 1 \<in> is_points s)"
    "IntervalSet_IsPrecise s = Some (\<exists>v. is_points s = {v})"
    "IntervalSet_GetPreciseValue s = Some (if \<exists>v. is_points s = {v} then Some (bits_of_nat n (is_least s)) else None)"
    "IntervalSet_ConvexHull s = Some (Some (iv_of n (is_least s) (is_greatest s)))"
    "IntervalSet_LowerBound s = Some (Some (bits_of_nat n (is_least s)))"
    "IntervalSet_UpperBound s = Some (Some (bits_of_nat n (is_greatest s)))"
    "IntervalSet_IsNormalized s" "finite (is_points s)"
proof -
  obtain ps where ps: "s = is_of n ps" "bounds_ok n ps" "gapped ps" "is_points s = cov ps" "cov ps \<noteq> {}" "finite (cov ps)"
    using operand_cases [OF assms] .
  show "IntervalSet_CoversZero s = Some (0 \<in> is_points s)" "IntervalSet_CoversMax s = Some (2 ^ n - 1 \<in> is_points s)"
    using CoversZero_set_iff CoversMax_set_iff assms is_operand_simps(1) by blast+
  show "IntervalSet_IsPrecise s = Some (\<exists>v. is_points s = {v})" using IsPrecise_set_iff [OF ps(2,3)] ps by (simp add: is_least_def is_greatest_def)
  show "IntervalSet_GetPreciseValue s = Some (if \<exists>v. is_points s = {v} then Some (bits_of_nat n (is_least s)) else None)"
    using GetPreciseValue_eq [OF ps(2,3)] ps by (simp add: is_least_def is_greatest_def)
  show "IntervalSet_ConvexHull s = Some (Some (iv_of n (is_least s) (is_greatest s)))"
    using ConvexHull_set_eq [OF ps(2,3)] ps by (simp add: is_least_def is_greatest_def)
  show "IntervalSet_LowerBound s = Some (Some (bits_of_nat n (is_least s)))" using LowerBound_eq [OF ps(2,3)] ps by (simp add: is_least_def is_greatest_def)
  show "IntervalSet_UpperBound s = Some (Some (bits_of_nat n (is_greatest s)))" using UpperBound_eq [OF ps(2,3)] ps by (simp add: is_least_def is_greatest_def)
  show "IntervalSet_IsNormalized s" "finite (is_points s)" using ps by (simp_all add: IntervalSet_IsNormalized_def)
qed

lemma operand_bounds:
  assumes "is_operand n s"
  shows "is_least s \<in> is_points s" "is_greatest s \<in> is_points s" "is_least s \<le> is_greatest s"
    "is_least s < 2 ^ n" "is_greatest s < 2 ^ n" "x \<in> is_points s \<Longrightarrow> is_least s \<le> x \<and> x \<le> is_greatest s"
  using assms operand_less [OF assms] by (simp_all add: is_least_def is_greatest_def)

lemma Precise_of: "b = bits_of_nat n v \<Longrightarrow> Interval_Precise b = Some (iv_of n v v)"
  by (simp add: Interval_Precise_def Interval_new_of)

section \<open>Vectors of no bits\<close>

text \<open>At width zero the set of the other divisors and the sign bits do not exist, and the operations that need them fail.\<close>

lemma zero_width_points: "is_operand 0 s \<Longrightarrow> is_points s = {0}"
  using is_points_less [of 0 s] is_operand_simps(3) [of 0 s] by fastforce

lemma UDiv_zero_width: "is_operand n a \<Longrightarrow> is_operand 0 c \<Longrightarrow> interval_ops_UDiv B a c = None"
  by (simp add: interval_ops_UDiv_def zero_width_points NonZero_set_eq)

lemma signed_zero_width: "is_operand 0 a \<Longrightarrow> interval_ops_SLt B a b = None \<and> interval_ops_SGt B a b = None"
  by (simp add: interval_ops_SLt_def interval_ops_SGt_def signed_compare_op_def bound_signs_def)

section \<open>Monotone operations\<close>

context interval_arith
begin

lemma udiv_op_sound:
  assumes "is_operand n a" "operand_set m 1 b"
  shows "\<exists>u. udiv_op B a b n = Some u \<and> is_normal n u \<and> (\<forall>x \<in> is_points a. \<forall>y \<in> is_points b. x div y \<in> is_points u)"
proof -
  obtain u where u: "udiv_op B a b n = Some u" "is_normal n u"
    "\<forall>x \<in> is_points a. \<forall>y \<in> is_points b. nat (int (x div y) mod 2 ^ n) \<in> is_points u"
    using monotone_binary_sound [OF monotone_udiv [OF bignum, of n m], of a b] assms unfolding udiv_op_def by auto
  have "x div y \<in> is_points u" if "x \<in> is_points a" "y \<in> is_points b" for x y
  proof -
    have "x < 2 ^ n" using is_points_less [of n a] assms(1) that(1) by auto
    then have "x div y < 2 ^ n" using div_le_dividend [of x y] by linarith
    then have "int (x div y) mod 2 ^ n = int (x div y)" by (intro mod_pos_pos_trivial) (simp_all flip: int_less_exp)
    then show ?thesis using u(3) that by (metis nat_int)
  qed
  then show ?thesis using u by blast
qed

text \<open>Division by zero gives all ones, which is added when the divisor may be zero.\<close>

lemma UDiv_sound:
  assumes "is_operand n a" "is_operand m b" "0 < m"
  shows "\<exists>u. interval_ops_UDiv B a b = Some u \<and> covers2 n m n u a b (bits_ops_UDiv B)"
proof -
  have div: "\<exists>z. bits_ops_UDiv B (bits_of_nat n x) (bits_of_nat m y) = Some z \<and> is_member n u z"
    if "x < 2 ^ n" "y < 2 ^ m" "if y = 0 then 2 ^ n - 1 \<in> is_points u else x div y \<in> is_points u" for x y u
    using that UDiv_eq [OF bignum, of "bits_of_nat n x" "bits_of_nat m y"] le_less_trans [OF div_le_dividend that(1), of y]
    by (auto simp: is_member_of_nat is_member_def)
  show ?thesis
  proof (cases "0 \<in> is_points b")
    case False
    have "1 \<le> y" if "y \<in> is_points b" for y using that False by (cases y) simp_all
    then have "operand_set m 1 b" using assms(2) by (simp add: operand_set_def)
    then obtain u where u: "udiv_op B a b n = Some u" "is_normal n u" "\<forall>x \<in> is_points a. \<forall>y \<in> is_points b. x div y \<in> is_points u"
      using udiv_op_sound [OF assms(1)] by blast
    have "covers2 n m n u a b (bits_ops_UDiv B)" using u(3) False by (intro covers2I [OF u(2)] div) auto
    then show ?thesis using u(1) False assms by (simp add: interval_ops_UDiv_def)
  next
    case True
    have nz: "IntervalSet_NonZero m = Some (is_of m [(1, 2 ^ m - 1)])" using assms(3) by (simp add: NonZero_set_eq)
    have nb: "bounds_ok m [(1, 2 ^ m - 1)]" using assms(3) one_less_power [of "2::nat" m] by simp
    have "cov [(1, 2 ^ m - 1)] = {..<2 ^ m} - {0::nat}" by (auto simp: Suc_le_eq)
    moreover have "is_points b \<subseteq> {..<2 ^ m}" using assms(2) is_points_less by simp
    ultimately have pts: "is_points b \<inter> cov [(1, 2 ^ m - 1)] = is_points b - {0}" by auto
    obtain ps where ps: "IntervalSet_Intersect b (is_of m [(1, 2 ^ m - 1)]) = Some (is_of m ps)" "bounds_ok m ps" "gapped ps"
      "cov ps = is_points b - {0}"
      using Intersect_set_eq [OF is_operand_simps(1) [OF assms(2)] is_wf_of [OF nb] is_operand_simps(6) [OF assms(2)]] pts
      unfolding is_points_of [OF nb] by (metis is_of_simps(1) gapped_simps(2))
    have "\<exists>r. (if cov ps \<noteq> {} then udiv_op B a (is_of m ps) n else Some (IntervalSet_new n)) = Some r \<and> is_wf n r \<and>
        (\<forall>x \<in> is_points a. \<forall>y \<in> is_points b - {0}. x div y \<in> is_points r)"
    proof (cases "cov ps = {}")
      case False
      have "1 \<le> y" if "y \<in> cov ps" for y using that ps(4) by (cases y) auto
      then have "operand_set m 1 (is_of m ps)" using ps(2,3) False is_wf_of by (simp add: operand_set_def)
      from udiv_op_sound [OF assms(1) this] show ?thesis using False ps by (auto simp: is_normal_def)
    next
      case True
      then show ?thesis using ps(4) by auto
    qed
    then obtain r where r: "(if cov ps \<noteq> {} then udiv_op B a (is_of m ps) n else Some (IntervalSet_new n)) = Some r" "is_wf n r"
        "\<forall>x \<in> is_points a. \<forall>y \<in> is_points b - {0}. x div y \<in> is_points r" by blast
    have ones: "Interval_Precise (Bits_AllOnes n) = Some (iv_of n (2 ^ n - 1) (2 ^ n - 1))"
      by (rule Precise_of) (auto intro!: bits_of_natI)
    let ?r = "r\<lparr>is_is_normalized := False, is_intervals := is_intervals r @ [iv_of n (2 ^ n - 1) (2 ^ n - 1)]\<rparr>"
    have add: "IntervalSet_AddInterval r (iv_of n (2 ^ n - 1) (2 ^ n - 1)) = Some ?r" "is_wf n ?r" "is_points ?r = is_points r \<union> {2 ^ n - 1}"
      using AddInterval_eq [OF r(2), of "iv_of n (2 ^ n - 1) (2 ^ n - 1)"] by simp_all
    obtain u where u: "IntervalSet_Normalize ?r = Some u" "is_normal n u" "is_points u = is_points ?r" using Normalize_total [OF add(2)] by blast
    have "covers2 n m n u a b (bits_ops_UDiv B)" using u(3) add(3) r(3) by (intro covers2I [OF u(2)] div) auto
    moreover have "interval_ops_UDiv B a b = Some u"
      using True assms nz ps r(1) ones add(1) u(1) IsEmpty_iff [OF ps(2)] by (simp add: interval_ops_UDiv_def)
    ultimately show ?thesis by blast
  qed
qed

text \<open>The width is below \<open>2 ^ 63\<close>, as an \<open>int64_t\<close> is; a shift amount past that clears the vector.\<close>

lemma Shrl_points:
  assumes "is_operand n a" "is_operand m b" "n < 2 ^ 63"
  shows "\<exists>u. interval_ops_Shrl B a b = Some u \<and> is_normal n u \<and> (\<forall>x \<in> is_points a. \<forall>y \<in> is_points b. x div 2 ^ y \<in> is_points u)"
proof -
  obtain u where u: "PerformBinOp B shrl_calc a kMonotoneNonSizePreserving b kAntitoneNonSizePreserving n = Some u" "is_normal n u"
    "\<forall>x \<in> is_points a. \<forall>y \<in> is_points b. nat (int (x div 2 ^ y) mod 2 ^ n) \<in> is_points u"
    using monotone_binary_sound [OF monotone_shrl [OF bignum assms(3), of m], of a b] assms(1,2) by auto
  have "x div 2 ^ y \<in> is_points u" if "x \<in> is_points a" "y \<in> is_points b" for x y
  proof -
    have "x div 2 ^ y < 2 ^ n" using operand_less [OF assms(1) that(1)] div_le_dividend [of x "2 ^ y"] by linarith
    then have "int (x div 2 ^ y) mod 2 ^ n = int (x div 2 ^ y)" by (intro mod_pos_pos_trivial) (simp_all flip: int_less_exp)
    then show ?thesis using u(3) that by (metis nat_int)
  qed
  then show ?thesis using u(1,2) assms(1) by (auto simp: interval_ops_Shrl_def)
qed

lemma Shrl_sound:
  assumes "is_operand n a" "is_operand m b" "n < 2 ^ 63"
  shows "\<exists>u. interval_ops_Shrl B a b = Some u \<and> covers2 n m n u a b (\<lambda>x y. bits_ops_ShiftRightLogical x (uval y))"
proof -
  obtain u where u: "interval_ops_Shrl B a b = Some u" "is_normal n u" "\<forall>x \<in> is_points a. \<forall>y \<in> is_points b. x div 2 ^ y \<in> is_points u"
    using Shrl_points [OF assms] by blast
  have "covers2 n m n u a b (\<lambda>x y. bits_ops_ShiftRightLogical x (uval y))"
  proof (rule covers2I [OF u(2)])
    fix x y
    assume xy: "x \<in> is_points a" "y \<in> is_points b" "x < 2 ^ n" "y < 2 ^ m"
    have "x div 2 ^ y < 2 ^ n" using xy(3) div_le_dividend [of x "2 ^ y"] by linarith
    then show "\<exists>z. bits_ops_ShiftRightLogical (bits_of_nat n x) (uval (bits_of_nat m y)) = Some z \<and> is_member n u z"
      using u(3) xy ShiftRightLogical_eq [of "bits_of_nat n x" y] is_member_of_nat by simp
  qed
  then show ?thesis using u(1) by blast
qed

lemma SignExtend_sound:
  assumes "is_operand n a" "n \<le> w"
  shows "\<exists>u. interval_ops_SignExtend B a w = Some u \<and> covers1 n w u a (\<lambda>x. bits_ops_SignExtend x w)"
proof -
  obtain u where u: "interval_ops_SignExtend B a w = Some u" "is_normal w u"
    "\<forall>x \<in> is_points a. nat (sign_extended n w x mod 2 ^ w) \<in> is_points u"
    using monotone_unary_sound [OF monotone_sign_extend [OF bignum assms(2)], of a] assms(1) unfolding interval_ops_SignExtend_def by auto
  have "covers1 n w u a (\<lambda>x. bits_ops_SignExtend x w)"
    using u(3) assms(2) by (intro covers1I [OF u(2)]) (simp add: SignExtend_eq sign_extended_eq(1) is_member_of_int)
  then show ?thesis using u(1) by blast
qed

lemma ZeroExtend_sound:
  assumes "is_operand n a" "n \<le> w"
  shows "\<exists>u. interval_ops_ZeroExtend B a w = Some u \<and> covers1 n w u a (\<lambda>x. bits_ops_ZeroExtend x w)"
proof -
  obtain u where u: "interval_ops_ZeroExtend B a w = Some u" "is_normal w u" "\<forall>x \<in> is_points a. nat (int x mod 2 ^ w) \<in> is_points u"
    using monotone_unary_sound [OF monotone_zero_extend [OF bignum assms(2)], of a] assms(1) unfolding interval_ops_ZeroExtend_def by auto
  have "covers1 n w u a (\<lambda>x. bits_ops_ZeroExtend x w)"
  proof (rule covers1I [OF u(2)])
    fix x
    assume "x \<in> is_points a" "x < 2 ^ n"
    then show "\<exists>z. bits_ops_ZeroExtend (bits_of_nat n x) w = Some z \<and> is_member w u z"
      using u(3) assms(2) is_member_of_int [of w u "int x"] by (simp add: ZeroExtend_eq bits_of_int_of_nat)
  qed
  then show ?thesis using u(1) by blast
qed

text \<open>Concatenation, of any number of operands.\<close>

lemma Concat_sound:
  assumes "sets \<noteq> []" "length ns = length sets" "\<And>i. i < length sets \<Longrightarrow> is_operand (ns ! i) (sets ! i)"
  shows "\<exists>u. interval_ops_Concat B sets = Some u \<and> is_normal (sum_list ns) u \<and>
    (\<forall>bs. length bs = length sets \<longrightarrow> (\<forall>i < length sets. is_member (ns ! i) (sets ! i) (bs ! i)) \<longrightarrow>
      (\<exists>z. bits_ops_Concat bs = Some z \<and> is_member (sum_list ns) u z))"
proof -
  have ne: "ns \<noteq> []" using assms(1,2) by auto
  have widths: "those (map IntervalSet_BitCount sets) = Some ns" using assms(2,3) by (intro those_eqI) simp_all
  have ops: "operand_set (ns ! i) (replicate (length ns) 0 ! i) (sets ! i)" if "i < length ns" for i
    using that assms(2,3) is_operand_simps(5) by simp
  obtain u where u: "interval_ops_Concat B sets = Some u" "is_normal (sum_list ns) u"
    "\<forall>xs. length xs = length ns \<longrightarrow> (\<forall>i < length ns. xs ! i \<in> is_points (sets ! i)) \<longrightarrow>
      nat (int (concat_value ns xs) mod 2 ^ sum_list ns) \<in> is_points u"
    using monotone_calc.sound [OF monotone_concat [OF bignum ne], of sets] ops assms(1,2) widths
    by (auto simp: interval_ops_Concat_def)
  have "\<exists>z. bits_ops_Concat bs = Some z \<and> is_member (sum_list ns) u z"
    if "length bs = length sets" "\<forall>i < length sets. is_member (ns ! i) (sets ! i) (bs ! i)" for bs
  proof -
    let ?xs = "map uval bs"
    have m: "is_member (ns ! i) (sets ! i) (bs ! i)" "?xs ! i = uval (bs ! i)" if "i < length ns" for i
      using \<open>\<forall>i < _. _\<close> that \<open>length bs = _\<close> assms(2) by simp_all
    have mem: "?xs ! i \<in> is_points (sets ! i)" "?xs ! i < 2 ^ (ns ! i)" "bits_of_nat (ns ! i) (?xs ! i) = bs ! i" if "i < length ns" for i
      using is_member_nat [OF m(1) [OF that]] unfolding m(2) [OF that] by simp_all
    have bs: "bs = map2 bits_of_nat ns ?xs" using mem(3) that(1) assms(2) by (intro nth_equalityI) simp_all
    have v: "bl_to_nat (concat (map bm_bits (rev bs))) = concat_value ns ?xs \<and> length (concat (map bm_bits (rev bs))) = sum_list ns \<and>
        concat_value ns ?xs < 2 ^ sum_list ns"
      using concat_value_eq [of ?xs ns] mem(2) that(1) assms(2) unfolding bs [symmetric] by simp
    have "Bits_of_span (concat (map bm_bits (rev bs))) = bits_of_nat (sum_list ns) (concat_value ns ?xs)"
      using v by (intro bits_of_natI) simp_all
    moreover have "nat (int (concat_value ns ?xs) mod 2 ^ sum_list ns) = concat_value ns ?xs"
      using v by (simp add: nat_mod_distrib nat_power_eq)
    ultimately show ?thesis using u(3) [rule_format, of ?xs] mem(1) that(1) assms(2) v is_member_of_nat
      by (simp add: Concat_eq)
  qed
  then show ?thesis using u(1,2) by blast
qed

end

section \<open>One-bit results\<close>

text \<open>The one-bit vector of a truth value, as the results of comparisons are.\<close>

abbreviation bool_bits :: "bool \<Rightarrow> Bits" where
  "bool_bits c \<equiv> bits_of_nat 1 (of_bool c)"

lemma UBits_bool: "UBits 1 1 = Some (bool_bits True)" "UBits 0 1 = Some (bool_bits False)"
  using UBits_correct [of 1 1] UBits_correct [of 0 1] bits_of_nat_uval by fastforce+

lemma is_member_bool: "is_member 1 u (bool_bits c) \<longleftrightarrow> of_bool c \<in> is_points u"
  by (rule is_member_of_nat) simp

lemma single_bit: "is_operand 1 s \<Longrightarrow> x \<in> is_points s \<Longrightarrow> x = of_bool (x \<noteq> 0)"
  using operand_less [of 1 s x] by (cases x) auto

lemma is_operand_of: "bounds_ok n ps \<Longrightarrow> gapped ps \<Longrightarrow> ps \<noteq> [] \<Longrightarrow> is_operand n (is_of n ps)"
  using cov_empty_iff is_normal_of unfolding is_operand_def by simp

lemma operand_precise: "v < 2 ^ n \<Longrightarrow> IntervalSet_Precise (bits_of_nat n v) = Some (is_of n [(v, v)])"
  "v < 2 ^ n \<Longrightarrow> is_operand n (is_of n [(v, v)])" "v < 2 ^ n \<Longrightarrow> is_points (is_of n [(v, v)]) = {v}"
  using Precise_set_eq [of "bits_of_nat n v"] is_operand_of [of n "[(v, v)]"] by simp_all

lemma TernaryToOneBitRange_eq:
  "TernaryToOneBitRange kKnownZero = Some (is_of 1 [(0, 0)])" "TernaryToOneBitRange kKnownOne = Some (is_of 1 [(1, 1)])"
  "TernaryToOneBitRange kUnknown = Some (is_of 1 [(0, 1)])"
  using operand_precise(1) [of 0 1] operand_precise(1) [of 1 1] Maximal_set_eq [of 1]
  by (simp_all add: UBits_bool flip: One_nat_def)

lemma TernaryToOneBitRange_ok:
  obtains u where "TernaryToOneBitRange t = Some u" "is_operand 1 u" "\<forall>c. of_bool c \<in> is_points u \<longleftrightarrow> may_be t c"
proof -
  let ?ps = "case t of kKnownZero \<Rightarrow> [(0, 0)] | kKnownOne \<Rightarrow> [(1, 1)] | kUnknown \<Rightarrow> [(0::nat, 1)]"
  have ok: "bounds_ok 1 ?ps" "gapped ?ps" "?ps \<noteq> []" by (cases t; simp)+
  have "of_bool c \<in> cov ?ps \<longleftrightarrow> may_be t c" for c by (cases t; cases c) (simp_all add: may_be_def)
  then have "of_bool c \<in> is_points (is_of 1 ?ps) \<longleftrightarrow> may_be t c" for c unfolding is_points_of [OF ok(1)] .
  moreover have "TernaryToOneBitRange t = Some (is_of 1 ?ps)" by (cases t) (simp_all only: TernaryToOneBitRange_eq TernaryValue.case)
  ultimately show thesis using is_operand_of [OF ok] that by blast
qed

lemma OneBitRangeToTernary_ok:
  assumes "is_operand 1 s"
  shows "\<exists>t. OneBitRangeToTernary s = Some t \<and> (\<forall>c. of_bool c \<in> is_points s \<longrightarrow> may_be t c)"
proof -
  have "may_be (if \<exists>v. is_points s = {v} then if 0 \<in> is_points s then kKnownZero else kKnownOne else kUnknown) c"
    if "of_bool c \<in> is_points s" for c using that by (cases c) (auto simp: may_be_def)
  then show ?thesis using assms by (simp add: OneBitRangeToTernary_def)
qed

text \<open>
  An analysis of a predicate with a ternary answer, for two operands and for one: the answer allows the truth value on all
  members.
\<close>

lemma covers_bool2:
  assumes "\<And>x y. x \<in> is_points a \<Longrightarrow> y \<in> is_points b \<Longrightarrow> x < 2 ^ n \<Longrightarrow> y < 2 ^ m \<Longrightarrow>
      f (bits_of_nat n x) (bits_of_nat m y) = Some (bool_bits (p x y)) \<and> may_be t (p x y)"
  shows "\<exists>u. TernaryToOneBitRange t = Some u \<and> is_operand 1 u \<and> covers2 n m 1 u a b f"
proof -
  obtain u where u: "TernaryToOneBitRange t = Some u" "is_operand 1 u" "\<forall>c. of_bool c \<in> is_points u \<longleftrightarrow> may_be t c"
    using TernaryToOneBitRange_ok [of t] .
  have "covers2 n m 1 u a b f" using assms u(2,3) is_member_bool by (intro covers2I) auto
  then show ?thesis using u(1,2) by blast
qed

lemma covers_bool1:
  assumes "\<And>x. x \<in> is_points a \<Longrightarrow> x < 2 ^ n \<Longrightarrow> f (bits_of_nat n x) = Some (bool_bits (p x)) \<and> may_be t (p x)"
  shows "\<exists>u. TernaryToOneBitRange t = Some u \<and> is_operand 1 u \<and> covers1 n 1 u a f"
proof -
  obtain u where u: "TernaryToOneBitRange t = Some u" "is_operand 1 u" "\<forall>c. of_bool c \<in> is_points u \<longleftrightarrow> may_be t c"
    using TernaryToOneBitRange_ok [of t] .
  have "covers1 n 1 u a f" using assms u(2,3) is_member_bool by (intro covers1I) auto
  then show ?thesis using u(1,2) by blast
qed

section \<open>Comparisons\<close>

lemma singleton_eq: "is_points s = {v} \<Longrightarrow> x \<in> is_points s \<Longrightarrow> x = v"
  by simp

lemma Eq_sound:
  assumes "is_operand n a" "is_operand n b"
  shows "\<exists>u. interval_ops_Eq a b = Some u \<and> is_operand 1 u \<and> covers2 n n 1 u a b (\<lambda>x y. Some (bool_bits (bits_ops_UEqual x y)))"
proof -
  have disjoint: "IntervalSet_Disjoint a b = Some (is_points a \<inter> is_points b = {})"
    using operand_cases [OF assms(1)] operand_cases [OF assms(2)] Disjoint_iff by metis
  let ?t = "if (\<exists>v. is_points a = {v}) \<and> (\<exists>v. is_points b = {v})
    then if is_least a = is_least b then kKnownOne else kKnownZero
    else if is_points a \<inter> is_points b = {} then kKnownZero else kUnknown"
  have "interval_ops_Eq a b = TernaryToOneBitRange ?t"
    using assms operand_bounds(4) [OF assms(1)] operand_bounds(4) [OF assms(2)] disjoint
    by (simp add: interval_ops_Eq_def unsigned_compare)
  moreover have "\<exists>u. TernaryToOneBitRange ?t = Some u \<and> is_operand 1 u \<and> covers2 n n 1 u a b (\<lambda>x y. Some (bool_bits (bits_ops_UEqual x y)))"
  proof (rule covers_bool2 [where p = "(=)"])
    fix x y
    assume "x \<in> is_points a" "y \<in> is_points b" "x < 2 ^ n" "y < 2 ^ n"
    moreover from this have "may_be ?t (x = y)" by (auto simp: may_be_def is_least_def)
    ultimately show "Some (bool_bits (bits_ops_UEqual (bits_of_nat n x) (bits_of_nat n y))) = Some (bool_bits (x = y)) \<and> may_be ?t (x = y)"
      by (simp add: unsigned_compare)
  qed
  ultimately show ?thesis by simp
qed

lemma hulls_apart:
  assumes "is_operand n a" "is_operand n b"
  shows "Interval_Disjoint (iv_of n (is_least a) (is_greatest a)) (iv_of n (is_least b) (is_greatest b)) =
      Some (is_greatest b < is_least a \<or> is_greatest a < is_least b)"
    "Interval_less (iv_of n (is_least a) (is_greatest a)) (iv_of n (is_least b) (is_greatest b)) \<longleftrightarrow>
      is_least a < is_least b \<or> is_least a = is_least b \<and> is_greatest a < is_greatest b"
  using operand_bounds [OF assms(1)] operand_bounds [OF assms(2)]
  by (simp_all add: Interval_Disjoint_def Overlaps_of cmp_of de_Morgan_conj not_le disj_commute)

lemma ULt_sound:
  assumes "is_operand n a" "is_operand n b"
  shows "\<exists>u. interval_ops_ULt a b = Some u \<and> is_operand 1 u \<and> covers2 n n 1 u a b (\<lambda>x y. Some (bool_bits (bits_ops_ULessThan x y)))"
proof -
  note ba = operand_bounds [OF assms(1)] and bb = operand_bounds [OF assms(2)]
  let ?t = "if is_greatest b < is_least a then kKnownZero else if is_greatest a < is_least b then kKnownOne else kUnknown"
  have "interval_ops_ULt a b = TernaryToOneBitRange ?t"
  proof -
    have "(if is_greatest b < is_least a \<or> is_greatest a < is_least b
        then if Interval_less (iv_of n (is_least a) (is_greatest a)) (iv_of n (is_least b) (is_greatest b)) then kKnownOne else kKnownZero
        else kUnknown) = ?t" unfolding hulls_apart(2) [OF assms] using ba(3) bb(3) by auto
    then show ?thesis using assms
      by (simp add: interval_ops_ULt_def hulls_apart(1) [OF assms] del: TernaryToOneBitRange.simps split del: if_split)
  qed
  moreover have "\<exists>u. TernaryToOneBitRange ?t = Some u \<and> is_operand 1 u \<and> covers2 n n 1 u a b (\<lambda>x y. Some (bool_bits (bits_ops_ULessThan x y)))"
  proof (rule covers_bool2 [where p = "(<)"])
    fix x y
    assume "x \<in> is_points a" "y \<in> is_points b" "x < 2 ^ n" "y < 2 ^ n"
    moreover from this have "may_be ?t (x < y)" using ba(6) [of x] bb(6) [of y] by (auto simp: may_be_def)
    ultimately show "Some (bool_bits (bits_ops_ULessThan (bits_of_nat n x) (bits_of_nat n y))) = Some (bool_bits (x < y)) \<and> may_be ?t (x < y)"
      by (simp add: unsigned_compare)
  qed
  ultimately show ?thesis by simp
qed

lemma UGt_swaps: "is_operand n a \<Longrightarrow> is_operand n b \<Longrightarrow> interval_ops_UGt a b = interval_ops_ULt b a"
  using hulls_apart [of n a b] hulls_apart [of n b a] by (simp add: interval_ops_UGt_def interval_ops_ULt_def disj_commute)

lemma UGt_sound:
  assumes "is_operand n a" "is_operand n b"
  shows "\<exists>u. interval_ops_UGt a b = Some u \<and> is_operand 1 u \<and> covers2 n n 1 u a b (\<lambda>x y. Some (bool_bits (bits_ops_UGreaterThan x y)))"
proof -
  have g: "bits_ops_UGreaterThan x y = bits_ops_ULessThan y x" if "is_member n a x" "is_member n b y" for x y
    using that by (simp add: is_member_def unsigned_compare)
  obtain u where "interval_ops_UGt a b = Some u" "is_operand 1 u" and u: "covers2 n n 1 u b a (\<lambda>x y. Some (bool_bits (bits_ops_ULessThan x y)))"
    using ULt_sound [OF assms(2,1)] unfolding UGt_swaps [OF assms] by blast
  moreover have "covers2 n n 1 u a b (\<lambda>x y. Some (bool_bits (bits_ops_UGreaterThan x y)))" using u g unfolding covers2_def by simp
  ultimately show ?thesis by blast
qed

text \<open>On one bit the negation of the answer is the answer for the negation.\<close>

lemma Not_one_bit:
  assumes "is_operand 1 s"
  shows "\<exists>u. interval_ops_Not s = Some u \<and> is_operand 1 u \<and> (\<forall>c. of_bool c \<in> is_points s \<longrightarrow> of_bool (\<not> c) \<in> is_points u)"
proof -
  obtain t where t: "OneBitRangeToTernary s = Some t" "\<forall>c. of_bool c \<in> is_points s \<longrightarrow> may_be t c" using OneBitRangeToTernary_ok [OF assms] by blast
  obtain u where u: "TernaryToOneBitRange (TernaryEvaluator_Not t) = Some u" "is_operand 1 u"
    "\<forall>c. of_bool c \<in> is_points u \<longleftrightarrow> may_be (TernaryEvaluator_Not t) c"
    using TernaryToOneBitRange_ok [of "TernaryEvaluator_Not t"] .
  have "may_be (TernaryEvaluator_Not t) (\<not> c)" if "may_be t c" for c using that by (cases t) (auto simp: may_be_def)
  then show ?thesis using t u is_operand_simps(4) [OF assms] by (auto simp: interval_ops_Not_def)
qed

lemma Ne_sound:
  assumes "is_operand n a" "is_operand n b"
  shows "\<exists>u. interval_ops_Ne a b = Some u \<and> is_operand 1 u \<and> covers2 n n 1 u a b (\<lambda>x y. Some (bool_bits (\<not> bits_ops_UEqual x y)))"
proof -
  obtain s where s: "interval_ops_Eq a b = Some s" "is_operand 1 s" "covers2 n n 1 s a b (\<lambda>x y. Some (bool_bits (bits_ops_UEqual x y)))"
    using Eq_sound [OF assms] by blast
  obtain u where u: "interval_ops_Not s = Some u" "is_operand 1 u" "\<forall>c. of_bool c \<in> is_points s \<longrightarrow> of_bool (\<not> c) \<in> is_points u"
    using Not_one_bit [OF s(2)] by blast
  have "is_normal 1 u" using is_operand_simps(2) [OF u(2)] .
  then have "covers2 n n 1 u a b (\<lambda>x y. Some (bool_bits (\<not> bits_ops_UEqual x y)))"
    using s(3) u(3) unfolding covers2_def by (metis is_member_bool option.inject)
  then show ?thesis using s(1) u(1,2) by (simp add: interval_ops_Ne_def)
qed

text \<open>Adding the sign bit turns the order of signed values into the order of unsigned ones.\<close>

lemma sign_offset:
  assumes "x < 2 ^ n" "0 < n"
  shows "int ((x + 2 ^ (n - 1)) mod 2 ^ n) = sval (bits_of_nat n x) + 2 ^ (n - 1)"
proof -
  have p: "(2::nat) ^ n = 2 * 2 ^ (n - 1)" using assms(2) by (cases n) simp_all
  then have "(x + 2 ^ (n - 1)) mod 2 ^ n = (if 2 ^ (n - 1) \<le> x then x - 2 ^ (n - 1) else x + 2 ^ (n - 1))"
    using assms(1) by (auto simp: mod_if)
  moreover have "(2::int) ^ n = 2 * 2 ^ (n - 1)" using assms(2) by (cases n) simp_all
  ultimately show ?thesis using sval_bits_of_nat [OF assms(1)] assms(2) by (simp add: of_nat_diff)
qed

lemma sval_order:
  assumes "x < 2 ^ n" "y < 2 ^ n" "0 < n"
  shows "sval (bits_of_nat n x) < sval (bits_of_nat n y) \<longleftrightarrow> (x + 2 ^ (n - 1)) mod 2 ^ n < (y + 2 ^ (n - 1)) mod 2 ^ n"
    "(2 ^ (n - 1) \<le> x) = (2 ^ (n - 1) \<le> y) \<Longrightarrow> sval (bits_of_nat n x) < sval (bits_of_nat n y) \<longleftrightarrow> x < y"
proof -
  have "int ((x + 2 ^ (n - 1)) mod 2 ^ n) < int ((y + 2 ^ (n - 1)) mod 2 ^ n) \<longleftrightarrow> sval (bits_of_nat n x) < sval (bits_of_nat n y)"
    unfolding sign_offset [OF assms(1,3)] sign_offset [OF assms(2,3)] by simp
  then show "sval (bits_of_nat n x) < sval (bits_of_nat n y) \<longleftrightarrow> (x + 2 ^ (n - 1)) mod 2 ^ n < (y + 2 ^ (n - 1)) mod 2 ^ n"
    by (simp only: of_nat_less_iff)
  show "sval (bits_of_nat n x) < sval (bits_of_nat n y) \<longleftrightarrow> x < y" if "(2 ^ (n - 1) \<le> x) = (2 ^ (n - 1) \<le> y)"
    using that assms by (simp add: sval_bits_of_nat)
qed

lemma bound_signs_eq:
  assumes "is_operand n a" "0 < n"
  shows "bound_signs a = Some (2 ^ (n - 1) \<le> is_least a, 2 ^ (n - 1) \<le> is_greatest a)"
proof -
  have "Bits_GetFromMsb (bits_of_nat n v) 0 \<longleftrightarrow> 2 ^ (n - 1) \<le> v" if "v < 2 ^ n" for v
    using that assms(2) top_bit [of v "n - 1"] GetFromMsb_0 [of "bits_of_nat n v"] by (cases n) (simp_all add: Bits_msb_def Bits_Get_nth)
  then show ?thesis using assms operand_bounds(4,5) [OF assms(1)] by (simp add: bound_signs_def)
qed

context interval_arith
begin

lemma offset_sound:
  assumes "is_operand n a" "0 < n"
  obtains u where "do { one \<leftarrow> UBits 1 1; c \<leftarrow> bits_ops_Concat [one, Bits_new (n - 1)]; offset \<leftarrow> IntervalSet_Precise c;
      interval_ops_Add B a offset } = Some u" "is_operand n u" "\<forall>x \<in> is_points a. (x + 2 ^ (n - 1)) mod 2 ^ n \<in> is_points u"
proof -
  let ?o = "is_of n [(2 ^ (n - 1), 2 ^ (n - 1))]"
  have "bits_ops_Concat [bool_bits True, Bits_new (n - 1)] = Some (bits_of_nat n (2 ^ (n - 1)))"
  proof -
    have "Bits_new (n - 1) = bits_of_nat (n - 1) 0" by (auto intro!: bits_of_natI)
    then show ?thesis using assms(2) by (auto simp: Concat_eq bl_to_nat_append bl_to_nat_to_bl intro!: bits_of_natI)
  qed
  moreover have lt: "(2::nat) ^ (n - 1) < 2 ^ n" using assms(2) by (intro power_strict_increasing) simp_all
  ultimately have off: "do { one \<leftarrow> UBits 1 1; c \<leftarrow> bits_ops_Concat [one, Bits_new (n - 1)]; offset \<leftarrow> IntervalSet_Precise c;
      interval_ops_Add B a offset } = interval_ops_Add B a ?o"
    using operand_precise(1) [OF lt] by (simp add: UBits_bool del: One_nat_def)
  obtain u where u: "interval_ops_Add B a ?o = Some u" "covers2 n n n u a ?o (bits_ops_Add B)"
    using Add_sound [OF assms(1) operand_precise(2) [OF lt]] by blast
  have "(x + 2 ^ (n - 1)) mod 2 ^ n \<in> is_points u" if "x \<in> is_points a" for x
  proof -
    have "is_member n a (bits_of_nat n x)" "is_member n ?o (bits_of_nat n (2 ^ (n - 1)))"
      using that operand_less [OF assms(1) that] lt operand_precise(3) [OF lt] by (simp_all add: is_member_of_nat)
    then obtain z where "bits_ops_Add B (bits_of_nat n x) (bits_of_nat n (2 ^ (n - 1))) = Some z" "is_member n u z"
      using u(2) unfolding covers2_def by blast
    then have "is_member n u (bits_of_nat n (x + 2 ^ (n - 1)))"
      using Add_eq(2) [OF bignum, of "bits_of_nat n x" "bits_of_nat n (2 ^ (n - 1))"] operand_less [OF assms(1) that] lt by simp
    then show ?thesis by (simp add: is_member_def)
  qed
  moreover have "is_operand n u"
    using calculation is_operand_simps(3) [OF assms(1)] u(2) unfolding is_operand_def covers2_def by blast
  ultimately show thesis using that off u(1) by simp
qed

text \<open>Both signed comparisons, from what the unsigned one shows.\<close>

lemma signed_compare_op_eq:
  assumes "is_operand n a" "is_operand n b" "0 < n"
  shows "\<exists>x y. is_operand n x \<and> is_operand n y \<and> signed_compare_op B unsigned_op a b = unsigned_op x y \<and>
    (x = a \<and> y = b \<and> (\<forall>v \<in> is_points a. \<forall>w \<in> is_points b. (2 ^ (n - 1) \<le> v) = (2 ^ (n - 1) \<le> w)) \<or>
     (\<forall>v \<in> is_points a. (v + 2 ^ (n - 1)) mod 2 ^ n \<in> is_points x) \<and> (\<forall>v \<in> is_points b. (v + 2 ^ (n - 1)) mod 2 ^ n \<in> is_points y))"
proof -
  let ?h = "2 ^ (n - 1) :: nat"
  note sa = bound_signs_eq [OF assms(1,3)] and sb = bound_signs_eq [OF assms(2,3)]
  note ba = operand_bounds(6) [OF assms(1)] and bb = operand_bounds(6) [OF assms(2)]
  show ?thesis
  proof (cases "\<not> ?h \<le> is_greatest a \<and> \<not> ?h \<le> is_greatest b \<or> ?h \<le> is_least a \<and> ?h \<le> is_least b")
    case True
    then have "signed_compare_op B unsigned_op a b = unsigned_op a b"
      using assms(1,2) operand_bounds(3) [OF assms(1)] operand_bounds(3) [OF assms(2)] unfolding signed_compare_op_def sa sb by auto
    moreover have "(?h \<le> v) = (?h \<le> w)" if "v \<in> is_points a" "w \<in> is_points b" for v w
      using True ba [OF that(1)] bb [OF that(2)] by (meson le_trans)
    ultimately show ?thesis using assms(1,2) by blast
  next
    case False
    obtain x where x: "do { one \<leftarrow> UBits 1 1; c \<leftarrow> bits_ops_Concat [one, Bits_new (n - 1)]; offset \<leftarrow> IntervalSet_Precise c;
      interval_ops_Add B a offset } = Some x" "is_operand n x" "\<forall>v \<in> is_points a. (v + ?h) mod 2 ^ n \<in> is_points x"
      using offset_sound [OF assms(1,3)] .
    obtain y where y: "do { one \<leftarrow> UBits 1 1; c \<leftarrow> bits_ops_Concat [one, Bits_new (n - 1)]; offset \<leftarrow> IntervalSet_Precise c;
      interval_ops_Add B b offset } = Some y" "is_operand n y" "\<forall>v \<in> is_points b. (v + ?h) mod 2 ^ n \<in> is_points y"
      using offset_sound [OF assms(2,3)] .
    have "signed_compare_op B unsigned_op a b = unsigned_op x y"
      using False assms(1,2) x(1) y(1) unfolding signed_compare_op_def sa sb by (auto split: Option.bind_split_asm simp del: One_nat_def)
    then show ?thesis using x y by blast
  qed
qed

lemma signed_sound:
  assumes "is_operand n a" "is_operand n b" "0 < n"
    and unsigned: "\<And>x y. is_operand n x \<Longrightarrow> is_operand n y \<Longrightarrow> \<exists>u. unsigned_op x y = Some u \<and> is_operand 1 u \<and>
      covers2 n n 1 u x y (\<lambda>x y. Some (bool_bits (p (uval x) (uval y))))"
    and order: "\<And>v w. v < 2 ^ n \<Longrightarrow> w < 2 ^ n \<Longrightarrow> q (bits_of_nat n v) (bits_of_nat n w) = p ((v + 2 ^ (n - 1)) mod 2 ^ n) ((w + 2 ^ (n - 1)) mod 2 ^ n)"
      "\<And>v w. v < 2 ^ n \<Longrightarrow> w < 2 ^ n \<Longrightarrow> (2 ^ (n - 1) \<le> v) = (2 ^ (n - 1) \<le> w) \<Longrightarrow> q (bits_of_nat n v) (bits_of_nat n w) = p v w"
  shows "\<exists>u. signed_compare_op B unsigned_op a b = Some u \<and> is_operand 1 u \<and> covers2 n n 1 u a b (\<lambda>x y. Some (bool_bits (q x y)))"
proof -
  obtain x y where xy: "is_operand n x" "is_operand n y" "signed_compare_op B unsigned_op a b = unsigned_op x y"
    "x = a \<and> y = b \<and> (\<forall>v \<in> is_points a. \<forall>w \<in> is_points b. (2 ^ (n - 1) \<le> v) = (2 ^ (n - 1) \<le> w)) \<or>
     (\<forall>v \<in> is_points a. (v + 2 ^ (n - 1)) mod 2 ^ n \<in> is_points x) \<and> (\<forall>v \<in> is_points b. (v + 2 ^ (n - 1)) mod 2 ^ n \<in> is_points y)"
    using signed_compare_op_eq [OF assms(1-3), of unsigned_op] by blast
  obtain u where u: "unsigned_op x y = Some u" "is_operand 1 u" "covers2 n n 1 u x y (\<lambda>x y. Some (bool_bits (p (uval x) (uval y))))"
    using unsigned [OF xy(1,2)] by blast
  have pts: "of_bool (p v w) \<in> is_points u" if "v \<in> is_points x" "w \<in> is_points y" for v w
  proof -
    have "v < 2 ^ n" "w < 2 ^ n" using that operand_less xy(1,2) by blast+
    then have "is_member n x (bits_of_nat n v)" "is_member n y (bits_of_nat n w)" "uval (bits_of_nat n v) = v" "uval (bits_of_nat n w) = w"
      using that by (simp_all add: is_member_of_nat)
    then show ?thesis using u(3) is_member_bool unfolding covers2_def by (metis option.inject)
  qed
  have "covers2 n n 1 u a b (\<lambda>x y. Some (bool_bits (q x y)))"
  proof (rule covers2I)
    fix v w
    assume vw: "v \<in> is_points a" "w \<in> is_points b" "v < 2 ^ n" "w < 2 ^ n"
    from xy(4) have "of_bool (q (bits_of_nat n v) (bits_of_nat n w)) \<in> is_points u"
    proof
      assume h: "x = a \<and> y = b \<and> (\<forall>v \<in> is_points a. \<forall>w \<in> is_points b. (2 ^ (n - 1) \<le> v) = (2 ^ (n - 1) \<le> w))"
      then have "(2 ^ (n - 1) \<le> v) = (2 ^ (n - 1) \<le> w)" using vw by blast
      then show ?thesis unfolding order(2) [OF vw(3,4) \<open>(_ \<le> v) = _\<close>] using pts h vw by blast
    next
      assume "(\<forall>v \<in> is_points a. (v + 2 ^ (n - 1)) mod 2 ^ n \<in> is_points x) \<and> (\<forall>v \<in> is_points b. (v + 2 ^ (n - 1)) mod 2 ^ n \<in> is_points y)"
      then show ?thesis unfolding order(1) [OF vw(3,4)] using pts vw by blast
    qed
    then show "\<exists>z. Some (bool_bits (q (bits_of_nat n v) (bits_of_nat n w))) = Some z \<and> is_member 1 u z" using is_member_bool by blast
  qed (rule is_operand_simps(2) [OF u(2)])
  then show ?thesis using u(1,2) xy(3) by metis
qed

lemma covers2_cong:
  "(\<And>x y. is_member n a x \<Longrightarrow> is_member m b y \<Longrightarrow> f x y = g x y) \<Longrightarrow> covers2 n m w u a b f = covers2 n m w u a b g"
  unfolding covers2_def by metis

lemma SLt_sound:
  assumes "is_operand n a" "is_operand n b" "0 < n"
  shows "\<exists>u. interval_ops_SLt B a b = Some u \<and> is_operand 1 u \<and>
    covers2 n n 1 u a b (\<lambda>x y. map_option bool_bits (bits_ops_SLessThan B x y))"
proof -
  have "\<exists>u. interval_ops_SLt B a b = Some u \<and> is_operand 1 u \<and> covers2 n n 1 u a b (\<lambda>x y. Some (bool_bits (sval x < sval y)))"
    unfolding interval_ops_SLt_def
  proof (rule signed_sound [where p = "(<)", OF assms])
    fix x y
    assume xy: "is_operand n x" "is_operand n y"
    have "covers2 n n 1 u x y (\<lambda>x y. Some (bool_bits (bits_ops_ULessThan x y))) = covers2 n n 1 u x y (\<lambda>x y. Some (bool_bits (uval x < uval y)))" for u
      by (rule covers2_cong) (simp add: is_member_def unsigned_compare)
    then show "\<exists>u. interval_ops_ULt x y = Some u \<and> is_operand 1 u \<and> covers2 n n 1 u x y (\<lambda>x y. Some (bool_bits (uval x < uval y)))"
      using ULt_sound [OF xy] by metis
  qed (use sval_order assms(3) in blast)+
  moreover have "covers2 n n 1 u a b (\<lambda>x y. Some (bool_bits (sval x < sval y))) = covers2 n n 1 u a b (\<lambda>x y. map_option bool_bits (bits_ops_SLessThan B x y))" for u
    by (rule covers2_cong) (simp add: is_member_def SLessThan_eq [OF bignum])
  ultimately show ?thesis by metis
qed

lemma SGt_sound:
  assumes "is_operand n a" "is_operand n b" "0 < n"
  shows "\<exists>u. interval_ops_SGt B a b = Some u \<and> is_operand 1 u \<and>
    covers2 n n 1 u a b (\<lambda>x y. map_option bool_bits (bits_ops_SGreaterThan B x y))"
proof -
  have "\<exists>u. interval_ops_SGt B a b = Some u \<and> is_operand 1 u \<and> covers2 n n 1 u a b (\<lambda>x y. Some (bool_bits (sval y < sval x)))"
    unfolding interval_ops_SGt_def
  proof (rule signed_sound [where p = "(>)", OF assms])
    fix x y
    assume xy: "is_operand n x" "is_operand n y"
    have "covers2 n n 1 u x y (\<lambda>x y. Some (bool_bits (bits_ops_UGreaterThan x y))) = covers2 n n 1 u x y (\<lambda>x y. Some (bool_bits (uval y < uval x)))" for u
      by (rule covers2_cong) (simp add: is_member_def unsigned_compare)
    then show "\<exists>u. interval_ops_UGt x y = Some u \<and> is_operand 1 u \<and> covers2 n n 1 u x y (\<lambda>x y. Some (bool_bits (uval y < uval x)))"
      using UGt_sound [OF xy] by metis
  qed (use sval_order assms(3) in blast)+
  moreover have "covers2 n n 1 u a b (\<lambda>x y. Some (bool_bits (sval y < sval x))) = covers2 n n 1 u a b (\<lambda>x y. map_option bool_bits (bits_ops_SGreaterThan B x y))" for u
    by (rule covers2_cong) (simp add: is_member_def signed_compare [OF bignum])
  ultimately show ?thesis by metis
qed

end

section \<open>Reductions and gating\<close>

lemma AndReduce_sound:
  assumes "is_operand n a"
  shows "\<exists>u. interval_ops_AndReduce a = Some u \<and> is_operand 1 u \<and> covers1 n 1 u a bits_ops_AndReduce"
proof -
  let ?t = "if 2 ^ n - 1 \<notin> is_points a then kKnownZero else if \<exists>v. is_points a = {v} then kKnownOne else kUnknown"
  have "\<exists>u. TernaryToOneBitRange ?t = Some u \<and> is_operand 1 u \<and> covers1 n 1 u a bits_ops_AndReduce"
  proof (rule covers_bool1 [where p = "\<lambda>x. x = 2 ^ n - 1"])
    fix x
    assume x: "x \<in> is_points a" "x < 2 ^ n"
    have "may_be ?t (x = 2 ^ n - 1)" using x(1) by (auto simp: may_be_def)
    then show "bits_ops_AndReduce (bits_of_nat n x) = Some (bool_bits (x = 2 ^ n - 1)) \<and> may_be ?t (x = 2 ^ n - 1)"
      using x(2) Bits_IsAllOnes_iff [of "bits_of_nat n x"] UBits_bool by (simp add: bits_ops_AndReduce_def del: One_nat_def)
  qed
  then show ?thesis using assms by (simp add: interval_ops_AndReduce_def del: TernaryToOneBitRange.simps split del: if_split)
qed

lemma OrReduce_sound:
  assumes "is_operand n a"
  shows "\<exists>u. interval_ops_OrReduce a = Some u \<and> is_operand 1 u \<and> covers1 n 1 u a bits_ops_OrReduce"
proof -
  let ?t = "if 0 \<notin> is_points a then kKnownOne else if \<exists>v. is_points a = {v} then kKnownZero else kUnknown"
  have "\<exists>u. TernaryToOneBitRange ?t = Some u \<and> is_operand 1 u \<and> covers1 n 1 u a bits_ops_OrReduce"
  proof (rule covers_bool1 [where p = "\<lambda>x. x \<noteq> 0"])
    fix x
    assume x: "x \<in> is_points a" "x < 2 ^ n"
    have "x = 0" if "\<exists>v. is_points a = {v}" "0 \<in> is_points a" using that x(1) by fastforce
    moreover have "x \<noteq> 0" if "0 \<notin> is_points a" using that x(1) by metis
    ultimately have "may_be ?t (x \<noteq> 0)" by (cases "0 \<in> is_points a"; cases "\<exists>v. is_points a = {v}") (simp_all add: may_be_def)
    then show "bits_ops_OrReduce (bits_of_nat n x) = Some (bool_bits (x \<noteq> 0)) \<and> may_be ?t (x \<noteq> 0)"
      using x(2) Bits_IsZero_iff [of "bits_of_nat n x"] UBits_bool by (simp add: bits_ops_OrReduce_def del: One_nat_def)
  qed
  then show ?thesis using assms by (simp add: interval_ops_OrReduce_def del: TernaryToOneBitRange.simps split del: if_split)
qed

text \<open>The parity is known exactly when every interval is one value and all values have that parity.\<close>

definition odd_bits :: "nat \<Rightarrow> nat \<Rightarrow> bool" where
  "odd_bits n v = odd (Bits_PopCount (bits_of_nat n v))"

lemma XorReduce_value: "bits_ops_XorReduce (bits_of_nat n v) = Some (bool_bits (odd_bits n v))"
  by (simp add: bits_ops_XorReduce_def odd_bits_def UBits_bool del: One_nat_def)

lemma precise_parity_eq:
  assumes "l \<le> h" "h < 2 ^ n"
  shows "precise_parity (iv_of n l h) = Some (if l = h then Some (bool_bits (odd_bits n l)) else None)"
proof -
  have "(\<exists>v. iv_points (iv_of n l h) = {v}) \<longleftrightarrow> l = h" using iv_points_single [of "iv_of n l h"] assms by simp
  then show ?thesis by (simp add: precise_parity_def Interval_GetPreciseValue_def IsPrecise_iff XorReduce_value)
qed

lemma bool_bits_eq: "InlineBitmap_eq (bool_bits c) (bool_bits d) \<longleftrightarrow> c = d"
  by (simp add: InlineBitmap_eq_iff nat_to_bl_def bit_simps)

lemma XorReduce_loop_eq:
  assumes "bounds_ok n ps"
  shows "XorReduce_loop (bool_bits c) (ivs n ps) =
    TernaryToOneBitRange (if \<forall>p \<in> set ps. fst p = snd p \<and> odd_bits n (fst p) = c then if c then kKnownOne else kKnownZero else kUnknown)"
  using assms
proof (induction ps)
  case Nil
  have "Bits_IsOne (bool_bits c) = c" by (cases c) (simp_all add: Bits_IsOne_def Bits_PopCount_eq Bits_Get_bit nat_to_bl_def bit_simps)
  then show ?case by (simp del: TernaryToOneBitRange.simps)
next
  case (Cons p ps)
  then have "precise_parity (iv_of n (fst p) (snd p)) = Some (if fst p = snd p then Some (bool_bits (odd_bits n (fst p))) else None)"
    by (intro precise_parity_eq) auto
  then show ?case using Cons by (auto simp: bool_bits_eq simp del: TernaryToOneBitRange.simps One_nat_def)
qed

lemma XorReduce_sound:
  assumes "is_operand n a"
  shows "\<exists>u. interval_ops_XorReduce a = Some u \<and> is_operand 1 u \<and> covers1 n 1 u a bits_ops_XorReduce"
proof -
  obtain ps where ps: "a = is_of n ps" "bounds_ok n ps" "gapped ps" "is_points a = cov ps" "cov ps \<noteq> {}" "finite (cov ps)"
    using operand_cases [OF assms] .
  obtain p qs where p: "ps = p # qs" using ps(5) by (cases ps) auto
  let ?c = "odd_bits n (fst p)"
  let ?t = "if \<forall>p \<in> set ps. fst p = snd p \<and> odd_bits n (fst p) = ?c then if ?c then kKnownOne else kKnownZero else kUnknown"
  have pp: "precise_parity (iv_of n (fst p) (snd p)) = Some (if fst p = snd p then Some (bool_bits ?c) else None)"
    using ps(2) p by (intro precise_parity_eq) auto
  have "bounds_ok n qs" using ps(2) p by simp
  note loop = XorReduce_loop_eq [OF this, of ?c]
  have "interval_ops_XorReduce a = (if fst p = snd p then XorReduce_loop (bool_bits ?c) (ivs n qs) else TernaryToOneBitRange kUnknown)"
    using pp p ps(1) by (simp add: interval_ops_XorReduce_def IntervalSet_NumberOfIntervals_def IntervalSet_Intervals_def
        del: TernaryToOneBitRange.simps One_nat_def of_bool_eq)
  also have "\<dots> = TernaryToOneBitRange ?t" unfolding loop using p by (cases "fst p = snd p") (simp_all del: TernaryToOneBitRange.simps)
  finally have "interval_ops_XorReduce a = TernaryToOneBitRange ?t" .
  moreover have "\<exists>u. TernaryToOneBitRange ?t = Some u \<and> is_operand 1 u \<and> covers1 n 1 u a bits_ops_XorReduce"
  proof (rule covers_bool1 [where p = "odd_bits n"])
    fix x
    assume x: "x \<in> is_points a" "x < 2 ^ n"
    then obtain q where "q \<in> set ps" "fst q \<le> x" "x \<le> snd q" unfolding ps(4) by (auto simp: cov_def)
    then have "may_be ?t (odd_bits n x)" by (auto simp: may_be_def)
    then show "bits_ops_XorReduce (bits_of_nat n x) = Some (bool_bits (odd_bits n x)) \<and> may_be ?t (odd_bits n x)"
      using XorReduce_value by blast
  qed
  ultimately show ?thesis by simp
qed

text \<open>A gate passes its operand when the condition holds and is zero otherwise.\<close>

lemma Gate_sound:
  assumes "is_operand 1 c" "is_operand n v"
  shows "\<exists>u. interval_ops_Gate c v = Some u \<and> covers2 1 n n u c v (\<lambda>x y. Some (if Bits_IsZero x then Bits_new n else y))"
proof -
  have zero: "Bits_new n = bits_of_nat n 0" by (auto intro!: bits_of_natI)
  have "\<exists>u. interval_ops_Gate c v = Some u \<and> is_normal n u \<and> (0 \<in> is_points c \<longrightarrow> 0 \<in> is_points u) \<and>
    ((\<exists>x \<in> is_points c. x \<noteq> 0) \<longrightarrow> is_points v \<subseteq> is_points u)"
  proof (cases "0 \<in> is_points c")
    case True
    show ?thesis
    proof (cases "\<exists>x. is_points c = {x}")
      case p: True
      then have "is_points c = {0}" using True by auto
      moreover have "interval_ops_Gate c v = Some (is_of n [(0, 0)])"
        using p True assms operand_precise(1) [of 0 n] by (simp add: interval_ops_Gate_def zero)
      ultimately show ?thesis using operand_precise [of 0 n] by (intro exI [of _ "is_of n [(0, 0)]"]) simp
    next
      case False
      have z: "is_normal n (is_of n [(0, 0)])" "is_points (is_of n [(0, 0)]) = {0}" using operand_precise [of 0 n] by simp_all
      obtain u where u: "IntervalSet_Combine v (is_of n [(0, 0)]) = Some u" "is_normal n u" "is_points u = is_points v \<union> {0}"
        using isa.join_total [of n v "is_of n [(0, 0)]"] z assms(2) by auto
      then have "interval_ops_Gate c v = Some u"
        using False True assms operand_precise(1) [of 0 n] by (simp add: interval_ops_Gate_def zero)
      then show ?thesis using u by blast
    qed
  next
    case False
    then have "interval_ops_Gate c v = Some v" using assms by (simp add: interval_ops_Gate_def)
    then show ?thesis using False is_operand_simps(2) [OF assms(2)] by blast
  qed
  then obtain u where u: "interval_ops_Gate c v = Some u" "is_normal n u" "0 \<in> is_points c \<longrightarrow> 0 \<in> is_points u"
    "(\<exists>x \<in> is_points c. x \<noteq> 0) \<longrightarrow> is_points v \<subseteq> is_points u" by blast
  have "covers2 1 n n u c v (\<lambda>x y. Some (if Bits_IsZero x then Bits_new n else y))"
  proof (rule covers2I [OF u(2)])
    fix x y
    assume xy: "x \<in> is_points c" "y \<in> is_points v" "x < 2 ^ 1" "y < 2 ^ n"
    have "Bits_IsZero (bits_of_nat 1 x) \<longleftrightarrow> x = 0" using Bits_IsZero_iff [of "bits_of_nat 1 x"] xy(3) by simp
    then show "\<exists>z. Some (if Bits_IsZero (bits_of_nat 1 x) then Bits_new n else bits_of_nat n y) = Some z \<and> is_member n u z"
      using u(3,4) xy is_member_of_nat [of y n u] is_member_of_nat [of 0 n u] unfolding zero by auto
  qed
  then show ?thesis using u(1) by blast
qed

section \<open>Slices and decoding\<close>

lemma bits_of_nat_mod: "bits_of_nat w (v mod 2 ^ w) = bits_of_nat w v"
proof -
  have "map (bit (take_bit w v)) [0..<w] = map (bit v) [0..<w]" by (intro map_cong) (simp_all add: bit_take_bit_iff)
  then show ?thesis unfolding bits_of_nat_def nat_to_bl_def take_bit_eq_mod by (rule arg_cong)
qed

lemma Truncate_loop_ok:
  assumes "bignum_spec B val" "bounds_ok n ps" "is_wf w s" "w \<le> n"
  shows "\<exists>u. Truncate_loop B w (ivs n ps) s = Some u \<and> is_normal w u \<and> is_points s \<subseteq> is_points u \<and> (\<forall>x \<in> cov ps. x mod 2 ^ w \<in> is_points u)"
  using assms(2,3)
proof (induction ps arbitrary: s)
  case Nil
  then show ?case using Normalize_total [of w s] by auto
next
  case (Cons p ps)
  let ?l = "fst p" and ?h = "snd p"
  have p: "?l \<le> ?h" "?h < 2 ^ n" "?l < 2 ^ n" using Cons.prems(1) by auto
  have d: "bits_ops_Sub B (bits_of_nat n ?h) (bits_of_nat n ?l) = Some (bits_of_nat n (?h - ?l))"
    using Sub_eq(2) [OF assms(1), of "bits_of_nat n ?h" "bits_of_nat n ?l"] p bits_of_int_of_nat [of n "?h - ?l"] by (simp add: of_nat_diff)
  have g: "bits_ops_UGreaterThan (bits_of_nat n (?h - ?l)) (Bits_AllOnes w) \<longleftrightarrow> 2 ^ w \<le> ?h - ?l"
  proof -
    have "(1::nat) \<le> 2 ^ w" by simp
    then have "2 ^ w - 1 < ?h - ?l \<longleftrightarrow> 2 ^ w \<le> ?h - ?l" by linarith
    then show ?thesis using p(2) by (simp add: unsigned_compare)
  qed
  show ?case
  proof (cases "2 ^ w \<le> ?h - ?l")
    case True
    let ?m = "is_of w [(0, 2 ^ w - 1)]"
    have b: "bounds_ok w [(0, 2 ^ w - 1)]" by simp
    have pts: "is_points ?m = {..<2 ^ w}" unfolding is_points_of [OF b] Maximal_points ..
    have "Truncate_loop B w (ivs n (p # ps)) s = Some ?m" using True d g Maximal_set_eq [of w] by simp
    moreover have "is_normal w ?m" using b by (intro is_normal_of) simp_all
    moreover have "is_points s \<subseteq> is_points ?m" using is_points_less [OF Cons.prems(2)] unfolding pts .
    ultimately show ?thesis using pts by auto
  next
    case False
    let ?iv = "iv_of w (?l mod 2 ^ w) (?h mod 2 ^ w)"
    let ?s = "s\<lparr>is_is_normalized := False, is_intervals := is_intervals s @ [?iv]\<rparr>"
    have sl: "Bits_Slice (bits_of_nat n v) 0 w = Some (bits_of_nat w (v mod 2 ^ w))" if "v < 2 ^ n" for v
      using that assms(4) Slice_uval [of "bits_of_nat n v" 0 w] bits_of_nat_mod [of w v] by simp
    have add: "IntervalSet_AddInterval s ?iv = Some ?s" "is_wf w ?s" "is_points ?s = is_points s \<union> iv_points ?iv"
      using AddInterval_eq [OF Cons.prems(2), of ?iv] by simp_all
    have "bounds_ok n ps" using Cons.prems(1) by simp
    from Cons.IH [OF this add(2)] obtain u where u: "Truncate_loop B w (ivs n ps) ?s = Some u" "is_normal w u"
      "is_points ?s \<subseteq> is_points u" "\<forall>x \<in> cov ps. x mod 2 ^ w \<in> is_points u" by blast
    have "Truncate_loop B w (ivs n (p # ps)) s = Some u" using False d g sl [OF p(2)] sl [OF p(3)] add(1) u(1) by (simp add: Interval_new_of)
    moreover have "x mod 2 ^ w \<in> iv_points ?iv" if "?l \<le> x" "x \<le> ?h" for x
    proof -
      have m: "nat (int v mod 2 ^ w) = v mod 2 ^ w" for v by (simp add: nat_mod_distrib nat_power_eq)
      have "int ?h - int ?l < 2 ^ w" using False p(1) unfolding not_le int_less_exp by (simp add: of_nat_diff)
      then show ?thesis using residues_between [of "int ?l" "int x" "int ?h" w] that unfolding m by simp
    qed
    ultimately show ?thesis using u(2-4) add(3) by (intro exI [of _ u]) auto
  qed
qed

context interval_arith
begin

lemma Truncate_points:
  assumes "is_normal n a" "w \<le> n"
  shows "\<exists>u. interval_ops_Truncate B a w = Some u \<and> is_normal w u \<and> (\<forall>x \<in> is_points a. x mod 2 ^ w \<in> is_points u)"
proof -
  obtain ps where ps: "a = is_of n ps" "bounds_ok n ps" "gapped ps" "is_points a = cov ps" using is_normal_cases [OF assms(1)] .
  then show ?thesis using Truncate_loop_ok [OF bignum ps(2) is_wf_new(1) assms(2)]
    by (auto simp: interval_ops_Truncate_def IntervalSet_Intervals_def)
qed

lemma Truncate_sound:
  assumes "is_normal n a" "w \<le> n"
  shows "\<exists>u. interval_ops_Truncate B a w = Some u \<and> covers1 n w u a (\<lambda>x. bits_ops_Truncate x w)"
proof -
  obtain u where u: "interval_ops_Truncate B a w = Some u" "is_normal w u" "\<forall>x \<in> is_points a. x mod 2 ^ w \<in> is_points u"
    using Truncate_points [OF assms] by blast
  have "covers1 n w u a (\<lambda>x. bits_ops_Truncate x w)"
    using u(3) assms(2) by (intro covers1I [OF u(2)]) (simp add: Truncate_eq is_member_def)
  then show ?thesis using u(1) by blast
qed

text \<open>A slice is a shift by the start and a truncation.\<close>

lemma BitSlice_sound:
  assumes "is_operand n a" "start + w \<le> n" "n < 2 ^ 63"
  shows "\<exists>u. interval_ops_BitSlice B a start w = Some u \<and> covers1 n w u a (\<lambda>x. Bits_Slice x start w)"
proof -
  have s: "start < 2 ^ 64" using assms(2,3) by simp
  then have un: "unat (of_nat start :: u64) = start" by (simp add: unat_of_nat)
  obtain b where b: "UBits (of_nat start) 64 = Some b" "bm_wf b" "Bits_bit_count b = 64" "uval b = start"
    using UBits_correct [of "of_nat start" 64] un s by auto
  have p: "IntervalSet_Precise b = Some (is_of 64 [(start, start)])" using Precise_set_eq [OF b(2)] b(3,4) by simp
  note op = operand_precise(2,3) [OF s]
  obtain t where t: "interval_ops_Shrl B a (is_of 64 [(start, start)]) = Some t" "is_normal n t"
    "\<forall>x \<in> is_points a. x div 2 ^ start \<in> is_points t"
    using Shrl_points [OF assms(1) op(1) assms(3)] unfolding op(2) by auto
  have "w \<le> n" using assms(2) by simp
  then obtain u where u: "interval_ops_Truncate B t w = Some u" "is_normal w u" "\<forall>x \<in> is_points t. x mod 2 ^ w \<in> is_points u"
    using Truncate_points [OF t(2)] by blast
  have "covers1 n w u a (\<lambda>x. Bits_Slice x start w)"
    using t(3) u(3) assms(2) by (intro covers1I [OF u(2)]) (simp add: Slice_uval is_member_def)
  then show ?thesis using b(1) p t(1) u(1) by (simp add: interval_ops_BitSlice_def)
qed

end

text \<open>Decoding is exact: elements past the width all decode to zero, so stopping at the first loses nothing.\<close>

definition decoded :: "nat \<Rightarrow> nat \<Rightarrow> nat" where
  "decoded width v = (if v < width then 2 ^ v else 0)"

lemma decode_element_eq:
  assumes "v < 2 ^ n" "is_wf width s" "width < 2 ^ 64"
  shows "\<exists>t. decode_element width (Some s) (bits_of_nat n v) = (Some t, width \<le> v) \<and> is_wf width t \<and> is_points t = is_points s \<union> {decoded width v}"
proof -
  let ?r = "case Bits_ToUint64 (bits_of_nat n v) of Inr w \<Rightarrow> unat w | Inl _ \<Rightarrow> width"
  have r: "width \<le> ?r \<longleftrightarrow> width \<le> v" "v < width \<Longrightarrow> ?r = v"
    using ToUint64_correct [of "bits_of_nat n v"] assms(1,3) by (cases "v < 2 ^ 64"; auto)+
  have lt: "decoded width v < 2 ^ width" by (auto simp: decoded_def)
  let ?iv = "iv_of width (decoded width v) (decoded width v)"
  let ?t = "s\<lparr>is_is_normalized := False, is_intervals := is_intervals s @ [?iv]\<rparr>"
  have add: "IntervalSet_AddInterval s ?iv = Some ?t" "is_wf width ?t" "is_points ?t = is_points s \<union> {decoded width v}"
    using AddInterval_eq [OF assms(2), of ?iv] lt by simp_all
  have "decode_element width (Some s) (bits_of_nat n v) = (Some ?t, width \<le> v)"
  proof (cases "v < width")
    case True
    have "Bits_PowerOfTwo v width = bits_of_nat width (decoded width v)"
      using True lt by (intro bits_of_natI) (simp_all add: uval_PowerOfTwo decoded_def)
    then show ?thesis using True r add(1) by (simp add: decode_element_def Let_def Precise_of)
  next
    case False
    obtain b where b: "UBits 0 width = Some b" "bm_wf b" "Bits_bit_count b = width" "uval b = 0"
      using UBits_correct [of 0 width] by auto
    have "b = bits_of_nat width (decoded width v)" using False b(2-4) by (intro bits_of_natI) (simp_all add: decoded_def)
    with b(1) show ?thesis using False r add(1) by (simp add: decode_element_def Let_def Precise_of)
  qed
  then show ?thesis using add(2,3) by blast
qed

lemma decode_run:
  assumes "sorted vs" "\<forall>v \<in> set vs. v < 2 ^ n" "is_wf width s" "width < 2 ^ 64"
  shows "\<exists>b t. run_callback (decode_element width) (Some s) (map (bits_of_nat n) vs) = (b, Some t) \<and> is_wf width t \<and>
    is_points t = is_points s \<union> decoded width ` set vs"
  using assms(1-3)
proof (induction vs arbitrary: s)
  case (Cons v vs)
  obtain t where t: "decode_element width (Some s) (bits_of_nat n v) = (Some t, width \<le> v)" "is_wf width t" "is_points t = is_points s \<union> {decoded width v}"
    using decode_element_eq [of v n width s] Cons.prems assms(4) by auto
  show ?case
  proof (cases "width \<le> v")
    case True
    then have "decoded width ` set (v # vs) = {decoded width v}" using Cons.prems(1) by (auto simp: decoded_def)
    then show ?thesis using True t by (intro exI [of _ True] exI [of _ t]) (simp only: list.map run_callback.simps Let_def, simp)
  next
    case False
    obtain b u where "run_callback (decode_element width) (Some t) (map (bits_of_nat n) vs) = (b, Some u)" "is_wf width u"
      "is_points u = is_points t \<union> decoded width ` set vs" using Cons.IH [of t] Cons.prems t(2) by auto
    then show ?thesis using False t by auto
  qed
qed auto

lemma Decode_exact:
  assumes "is_normal n a" "width < 2 ^ 64"
  shows "\<exists>u. interval_ops_Decode a width = Some u \<and> is_normal width u \<and> is_points u = decoded width ` is_points a"
proof -
  obtain ps where ps: "a = is_of n ps" "bounds_ok n ps" "gapped ps" "is_points a = cov ps" using is_normal_cases [OF assms(1)] .
  have fin: "finite (cov ps)" by (simp add: cov_def)
  let ?vs = "sorted_list_of_set (cov ps)"
  have "\<forall>v \<in> set ?vs. v < 2 ^ n" using fin cov_less [OF ps(2)] by simp
  from decode_run [OF _ this is_wf_new(1) assms(2)] obtain b t where
    t: "run_callback (decode_element width) (Some (IntervalSet_new width)) (map (bits_of_nat n) ?vs) = (b, Some t)" "is_wf width t"
      "is_points t = is_points (IntervalSet_new width) \<union> decoded width ` set ?vs" by auto
  obtain u where u: "IntervalSet_Normalize t = Some u" "is_normal width u" "is_points u = is_points t" using Normalize_total [OF t(2)] by blast
  have "interval_ops_Decode a width = Some u"
    using t(1) u(1) ps(1) by (simp add: interval_ops_Decode_def ForEachElement_set_eq [OF ps(2,3)])
  then show ?thesis using u(2,3) t(3) fin ps(4) by simp
qed

end
