(* ===== verification/Interval_Ternary.thy ===== *)
theory Interval_Ternary
  imports Interval_Sound
begin

text \<open>
  The conversions of \<open>xls/ir/interval_ops.cc\<close> between interval sets and ternary vectors: a ternary
  vector extracted from a set allows every member; the set made from a vector holds every value the
  vector allows, and no other when the vector has few enough unknown bits; the test whether an interval
  meets a ternary vector is exact. The bitwise operations and the one-hot encoding, which pass through
  ternary vectors, are sound by the evaluator's own soundness.
\<close>

unbundle bit_operations_syntax

section \<open>From interval sets to ternary vectors\<close>

text \<open>A vector of the values a ternary vector allows, by value.\<close>

definition allows_nat :: "TernaryVector \<Rightarrow> nat \<Rightarrow> bool" where
  "allows_nat t x \<longleftrightarrow> x < 2 ^ length t \<and> ternary_allows t (nat_to_bl (length t) x)"

lemma allows_nat_iff: "allows_nat t x \<longleftrightarrow> x < 2 ^ length t \<and> (\<forall>i < length t. t ! i = kUnknown \<or> bit x i = (t ! i = kKnownOne))"
  by (auto simp: allows_nat_def ternary_allows_nth)

lemma allows_natI: "bm_wf b \<Longrightarrow> Bits_bit_count b = length t \<Longrightarrow> ternary_ops_IsCompatible t b \<longleftrightarrow> allows_nat t (uval b)"
  using uval_less [of b] by (simp add: allows_nat_def IsCompatible_iff bm_bits_uval)

lemma common_prefix:
  assumes "l < 2 ^ n" "h < 2 ^ n"
  obtains k where "k \<le> n" "bits_ops_LongestCommonPrefixMSB [bits_of_nat n l, bits_of_nat n h] = Some (bits_of_nat (n - k) (l div 2 ^ k))"
    "l div 2 ^ k = h div 2 ^ k" "0 < k \<longrightarrow> bit l (k - 1) \<noteq> bit h (k - 1)"
proof -
  let ?l = "bits_of_nat n l" and ?h = "bits_of_nat n h"
  have "list_all (\<lambda>c. Bits_bit_count c = Bits_bit_count ?l) [?l, ?h]" by simp
  from LongestCommonPrefixMSB_eq [OF bits_of_nat_simps(1) this] obtain k where k: "k \<le> n"
    "bits_ops_LongestCommonPrefixMSB [?l, ?h] = Some (Bits_of_span (drop k (bm_bits ?l)))"
    "\<And>i. k \<le> i \<Longrightarrow> i < n \<Longrightarrow> agree_at ?l [?h] i" "0 < k \<Longrightarrow> \<not> agree_at ?l [?h] (k - 1)" by auto
  have ag: "agree_at ?l [?h] i \<longleftrightarrow> bit l i = bit h i" if "i < n" for i
    using that by (auto simp: agree_at_def simp del: bm_bits_nth)
  have hi: "\<not> bit l i \<and> \<not> bit h i" if "n \<le> i" for i
    using that assms nat_less_exp_iff_bits [of h n] nat_less_exp_iff_bits [of l n] by simp
  have eq: "bit l i = bit h i" if "k \<le> i" for i using k(3) [OF that] ag [of i] hi [of i] by (cases "i < n") auto
  have "l div 2 ^ k = h div 2 ^ k" using eq by (intro bit_eqI) (simp add: bit_drop_bit_eq flip: drop_bit_eq_div)
  moreover have "0 < k \<longrightarrow> bit l (k - 1) \<noteq> bit h (k - 1)" using k(1,4) ag [of "k - 1"] by auto
  moreover have "drop k (nat_to_bl n l) = nat_to_bl (n - k) (l div 2 ^ k)"
    by (intro nth_equalityI) (auto simp: bit_drop_bit_eq simp flip: drop_bit_eq_div)
  ultimately show thesis using that [OF k(1)] k(2) by (simp add: bits_of_nat_def)
qed

lemma between_prefix:
  fixes l h x :: nat
  assumes "l div 2 ^ k = h div 2 ^ k" "l \<le> x" "x \<le> h"
  shows "x div 2 ^ k = l div 2 ^ k"
  using assms by (metis div_le_mono le_antisym)

lemma ExtractTernaryInterval_ok:
  assumes "l \<le> h" "h < 2 ^ n"
  shows "\<exists>t. ExtractTernaryInterval (iv_of n l h) = Some t \<and> length t = n \<and> (\<forall>x \<in> {l..h}. allows_nat t x)"
proof -
  have "l < 2 ^ n" using assms by simp
  from common_prefix [OF this assms(2)] obtain k where k: "k \<le> n"
    "bits_ops_LongestCommonPrefixMSB [bits_of_nat n l, bits_of_nat n h] = Some (bits_of_nat (n - k) (l div 2 ^ k))"
    "l div 2 ^ k = h div 2 ^ k" .
  let ?t = "replicate k kUnknown @ map (\<lambda>j. if bit (l div 2 ^ k) j then kKnownOne else kKnownZero) [0..<n - k]"
  have "map (\<lambda>j. if Bits_Get (bits_of_nat (n - k) (l div 2 ^ k)) j then kKnownOne else kKnownZero) [0..<n - k] =
      map (\<lambda>j. if bit (l div 2 ^ k) j then kKnownOne else kKnownZero) [0..<n - k]"
    by (intro map_cong) (simp_all add: Bits_Get_nth)
  then have "ExtractTernaryInterval (iv_of n l h) = Some ?t"
    using k(1,2) by (simp add: ExtractTernaryInterval_def)
  moreover have "allows_nat ?t x" if x: "x \<in> {l..h}" for x
  proof -
    have "bit (l div 2 ^ k) (i - k) = bit x i" if "k \<le> i" for i
    proof -
      have "l div 2 ^ k = x div 2 ^ k" using between_prefix [OF k(3), of x] x by simp
      then show ?thesis using that by (simp add: bit_drop_bit_eq flip: drop_bit_eq_div)
    qed
    then show ?thesis using x assms(2) k(1) by (auto simp: allows_nat_iff nth_append)
  qed
  ultimately show ?thesis using k(1) by (intro exI [of _ ?t]) simp
qed

lemma extract_rest_ok:
  assumes "bounds_ok n ps" "length acc = n"
  shows "\<exists>t. extract_rest acc (ivs n ps) = Some t \<and> length t = n \<and> (\<forall>x. allows_nat acc x \<or> x \<in> cov ps \<longrightarrow> allows_nat t x)"
  using assms
proof (induction ps arbitrary: acc)
  case (Cons p ps)
  obtain s where s: "ExtractTernaryInterval (iv_of n (fst p) (snd p)) = Some s" "length s = n" "\<forall>x \<in> {fst p..snd p}. allows_nat s x"
    using ExtractTernaryInterval_ok [of "fst p" "snd p" n] Cons.prems(1) by auto
  have len: "length acc = length s" using s(2) Cons.prems(2) by simp
  obtain a where a: "ternary_ops_UpdateWithIntersection acc s = Some a" "\<forall>bs. ternary_allows acc bs \<or> ternary_allows s bs \<longrightarrow> ternary_allows a bs"
    using Intersection_allows [OF len] unfolding UpdateWithIntersection_eq by metis
  have la: "length a = n" using a(2) ternary_allows_least [of s] ternary_allows_length s(2) by fastforce
  have "bounds_ok n ps" using Cons.prems(1) by simp
  from Cons.IH [OF this la] obtain t where t: "extract_rest a (ivs n ps) = Some t" "length t = n"
    "\<forall>x. allows_nat a x \<or> x \<in> cov ps \<longrightarrow> allows_nat t x" by blast
  have "allows_nat a x" if "allows_nat acc x \<or> allows_nat s x" for x
    using that a(2) la s(2) Cons.prems(2) by (auto simp: allows_nat_def)
  then show ?case using t s a(1) by auto
qed simp

text \<open>Every member of the set is allowed by the vector.\<close>

lemma ExtractTernaryVector_ok:
  assumes "is_operand n a"
  obtains t where "ExtractTernaryVector a = Some t" "length t = n" "\<forall>x \<in> is_points a. allows_nat t x"
proof -
  obtain ps where ps: "a = is_of n ps" "bounds_ok n ps" "gapped ps" "is_points a = cov ps" "cov ps \<noteq> {}" "finite (cov ps)"
    using operand_cases [OF assms] .
  obtain p qs where p: "ps = p # qs" using ps(5) by (cases ps) auto
  obtain s where s: "ExtractTernaryInterval (iv_of n (fst p) (snd p)) = Some s" "length s = n" "\<forall>x \<in> {fst p..snd p}. allows_nat s x"
    using ExtractTernaryInterval_ok [of "fst p" "snd p" n] ps(2) p by auto
  have "bounds_ok n qs" using ps(2) p by simp
  from extract_rest_ok [OF this s(2)] obtain t where t: "extract_rest s (ivs n qs) = Some t" "length t = n"
    "\<forall>x. allows_nat s x \<or> x \<in> cov qs \<longrightarrow> allows_nat t x" by blast
  have "ExtractTernaryVector a = Some t" using s(1) t(1) ps(1) p by (simp add: ExtractTernaryVector_def IntervalSet_Intervals_def)
  moreover have "\<forall>x \<in> is_points a. allows_nat t x" using s(3) t(3) unfolding ps(4) p by auto
  ultimately show thesis using that t(2) by blast
qed

section \<open>From ternary vectors to interval sets\<close>

text \<open>The last \<open>m + 1\<close> unknown positions.\<close>

lemma x_locations_eq:
  fixes m :: nat
  defines "U \<equiv> \<lambda>tern a. filter (\<lambda>i. ternary_ops_IsUnknown (tern ! i)) [a..<length tern]"
  shows "x_locations tern m a = drop (length (U tern a) - (m + 1)) (U tern a)"
proof -
  define step where "step i q = (if ternary_ops_IsUnknown (tern ! i) then if length (q @ [i]) > m + 1 then tl (q @ [i]) else q @ [i] else q)"
    for i :: nat and q
  define suffix where "suffix us = drop (length us - (m + 1)) us" for us :: "nat list"
  have step: "step i (suffix us) = suffix (us @ filter (\<lambda>i. ternary_ops_IsUnknown (tern ! i)) [i])" for i us
  proof -
    have "tl (drop (length us - Suc m) us) = drop (length us - m) us" if "Suc m \<le> length us"
      using that Suc_diff_Suc [of m "length us"] drop_Suc [of "length us - Suc m" us] tl_drop [of "length us - Suc m" us] by simp
    then show ?thesis by (cases "length us < m + 1") (auto simp: step_def suffix_def not_less)
  qed
  have "fold step is (suffix us) = suffix (us @ filter (\<lambda>i. ternary_ops_IsUnknown (tern ! i)) is)" for "is" us
    by (induction "is" arbitrary: us) (simp_all add: step)
  from this [of "[a..<length tern]" "[]"] show ?thesis by (simp add: x_locations_def U_def step_def [abs_def] suffix_def)
qed

text \<open>One group: a fixed value of the high bits, anything below.\<close>

lemma add_group_eq:
  assumes "is_wf n s" "v < 2 ^ w" "w + k = n"
  shows "\<exists>t qs. add_group k s (bits_of_nat w v) = Some t \<and> is_wf n t \<and> is_points t = is_points s \<union> {x. x div 2 ^ k = v} \<and>
    is_intervals t = is_intervals s @ ivs n qs \<and> bounds_ok n qs \<and> length qs = 1"
proof -
  let ?l = "v * 2 ^ k" and ?h = "v * 2 ^ k + (2 ^ k - 1)"
  have "(v + 1) * 2 ^ k \<le> 2 ^ w * 2 ^ k" using assms(2) by (intro mult_le_mono1) simp
  moreover have "(v + 1) * 2 ^ k = v * 2 ^ k + 2 ^ k" "(0::nat) < 2 ^ k" by simp_all
  ultimately have h: "?h < 2 ^ n" unfolding assms(3) [symmetric] power_add by linarith
  have l: "?l < 2 ^ n" using h by linarith
  have lo: "bits_ops_Concat [bits_of_nat w v, Bits_new k] = Some (bits_of_nat n ?l)"
    using assms(2,3) l by (auto simp: Concat_eq bl_to_nat_append bl_to_nat_to_bl mult.commute intro!: bits_of_natI)
  have hi: "bits_ops_Concat [bits_of_nat w v, Bits_AllOnes k] = Some (bits_of_nat n ?h)"
    using assms(2,3) h by (auto simp: Concat_eq bl_to_nat_append bl_to_nat_to_bl mult.commute intro!: bits_of_natI)
  let ?t = "s\<lparr>is_is_normalized := False, is_intervals := is_intervals s @ [iv_of n ?l ?h]\<rparr>"
  have "add_group k s (bits_of_nat w v) = Some ?t" using AddInterval_eq(1) [OF assms(1), of "iv_of n ?l ?h"] lo hi
    by (simp add: add_group_def Interval_Closed_def Interval_new_of)
  moreover have "iv_points (iv_of n ?l ?h) = {x. x div 2 ^ k = v}"
  proof -
    have p: "(0::nat) < 2 ^ k" by simp
    have "x div 2 ^ k = v \<longleftrightarrow> ?l \<le> x \<and> x \<le> ?h" for x
    proof
      assume v: "x div 2 ^ k = v"
      have "x < 2 ^ k + v * 2 ^ k" using dividend_less_div_times [OF p, of x] unfolding v .
      then show "?l \<le> x \<and> x \<le> ?h" using div_times_less_eq_dividend [of x "2 ^ k"] unfolding v by linarith
    next
      assume "?l \<le> x \<and> x \<le> ?h"
      then have "?l \<le> x" "x < ?l + 2 ^ k" using p by linarith+
      then have "2 ^ k * v \<le> x" "x < 2 ^ k * Suc v" by (simp_all add: mult.commute add.commute)
      then show "x div 2 ^ k = v" by (rule div_nat_eqI)
    qed
    then show ?thesis unfolding iv_points_of [OF le_add1 h] by (intro set_eqI) (simp only: mem_Collect_eq atLeastAtMost_iff)
  qed
  moreover have "bounds_ok n [(?l, ?h)]" unfolding bounds_ok_simps fst_conv snd_conv by (intro conjI le_add1 h bounds_ok_simps(1))
  ultimately show ?thesis using AddInterval_eq(2,3) [OF assms(1), of "iv_of n ?l ?h"]
    by (intro exI [of _ ?t] exI [of _ "[(?l, ?h)]"]) simp
qed

lemma add_groups_eq:
  assumes "is_wf n s" "\<forall>v \<in> set vs. bm_wf v \<and> Bits_bit_count v = w" "w + k = n"
  shows "\<exists>t qs. add_groups k vs s = Some t \<and> is_wf n t \<and> is_points t = is_points s \<union> {x. x div 2 ^ k \<in> uval ` set vs} \<and>
    is_intervals t = is_intervals s @ ivs n qs \<and> bounds_ok n qs \<and> length qs = length vs"
  using assms(1,2)
proof (induction vs arbitrary: s)
  case (Cons v vs)
  have v: "v = bits_of_nat w (uval v)" "uval v < 2 ^ w" using Cons.prems(2) bits_of_nat_uval [of v] uval_less [of v] by auto
  obtain t ps where t: "add_group k s v = Some t" "is_wf n t" "is_points t = is_points s \<union> {x. x div 2 ^ k = uval v}"
    "is_intervals t = is_intervals s @ ivs n ps" "bounds_ok n ps" "length ps = 1"
    using add_group_eq [OF Cons.prems(1) v(2) assms(3)] unfolding v(1) [symmetric] by blast
  obtain u qs where u: "add_groups k vs t = Some u" "is_wf n u" "is_points u = is_points t \<union> {x. x div 2 ^ k \<in> uval ` set vs}"
    "is_intervals u = is_intervals t @ ivs n qs" "bounds_ok n qs" "length qs = length vs"
    using Cons.IH [OF t(2)] Cons.prems(2) by auto
  have "is_intervals u = is_intervals s @ ivs n (ps @ qs)" "bounds_ok n (ps @ qs)" "length (ps @ qs) = length (v # vs)" using t(4-6) u(4-6) by simp_all
  moreover have "add_groups k (v # vs) s = Some u" "is_points u = is_points s \<union> {x. x div 2 ^ k \<in> uval ` set (v # vs)}" using t(1,3) u(1,3) by auto
  ultimately show ?case using u(2) by blast
qed simp

text \<open>The low bits that are made unknown, and the positions above them that stay unknown.\<close>

definition unknown_from :: "TernaryVector \<Rightarrow> nat \<Rightarrow> nat list" where
  "unknown_from tern a = filter (\<lambda>i. ternary_ops_IsUnknown (tern ! i)) [a..<length tern]"

lemma unknown_from_split:
  assumes "unknown_from tern a = us @ i # vs"
  shows "unknown_from tern (i + 1) = vs" "i < length tern" "tern ! i = kUnknown" "a \<le> i"
proof -
  have i: "i \<in> set (unknown_from tern a)" using assms by simp
  then show ii: "i < length tern" "tern ! i = kUnknown" "a \<le> i" by (auto simp: unknown_from_def ternary_ops_IsUnknown_def)
  have "[a..<length tern] = [a..<i] @ i # [i + 1..<length tern]"
    using ii by (metis Suc_eq_plus1 le_add_diff_inverse less_imp_le upt_add_eq_append upt_conv_Cons)
  then have "unknown_from tern a = filter (\<lambda>i. ternary_ops_IsUnknown (tern ! i)) [a..<i] @ i # unknown_from tern (i + 1)"
    using ii by (simp add: unknown_from_def ternary_ops_IsUnknown_def)
  moreover have "distinct (unknown_from tern a)" by (simp add: unknown_from_def)
  moreover have "i \<notin> set (filter (\<lambda>i. ternary_ops_IsUnknown (tern ! i)) [a..<i])" by simp
  ultimately show "unknown_from tern (i + 1) = vs" using assms by (metis append_Cons_eq_iff distinct.simps(2) distinct_append not_distinct_conv_prefix)
qed

definition lsb_unknown :: "TernaryVector \<Rightarrow> nat \<Rightarrow> nat" where
  "lsb_unknown tern m =
     (let first = length (takeWhile (\<lambda>t. \<not> ternary_ops_IsKnown t) tern);
          us = unknown_from tern first
      in if m < length us then us ! (length us - (m + 1)) + 1 else first)"

lemma lsb_unknown_ok:
  defines "first \<equiv> \<lambda>tern. length (takeWhile (\<lambda>t. \<not> ternary_ops_IsKnown t) tern)"
  defines "locations \<equiv> \<lambda>tern m. x_locations tern m (first tern)"
  shows "(if m < length (locations tern m) then hd (locations tern m) + 1 else first tern) = lsb_unknown tern m"
    "(if m < length (locations tern m) then tl (locations tern m) else locations tern m) = unknown_from tern (lsb_unknown tern m)"
    "first tern \<le> lsb_unknown tern m" "lsb_unknown tern m \<le> length tern"
    "length (unknown_from tern (lsb_unknown tern m)) \<le> m"
proof -
  let ?us = "unknown_from tern (first tern)"
  have loc: "locations tern m = drop (length ?us - (m + 1)) ?us"
    unfolding locations_def unknown_from_def by (rule x_locations_eq)
  have f: "first tern \<le> length tern" by (simp add: first_def length_takeWhile_le)
  have "(if m < length (locations tern m) then hd (locations tern m) + 1 else first tern) = lsb_unknown tern m \<and>
    (if m < length (locations tern m) then tl (locations tern m) else locations tern m) = unknown_from tern (lsb_unknown tern m) \<and>
    first tern \<le> lsb_unknown tern m \<and> lsb_unknown tern m \<le> length tern \<and> length (unknown_from tern (lsb_unknown tern m)) \<le> m"
  proof (cases "m < length ?us")
    case True
    let ?j = "length ?us - (m + 1)"
    have j: "?j < length ?us" using True by linarith
    have split: "?us = take ?j ?us @ ?us ! ?j # drop (Suc ?j) ?us" using id_take_nth_drop [OF j] .
    note u = unknown_from_split [OF split]
    have lsb: "lsb_unknown tern m = ?us ! ?j + 1" using True by (simp add: lsb_unknown_def first_def Let_def)
    have "locations tern m = ?us ! ?j # drop (Suc ?j) ?us" using loc Cons_nth_drop_Suc [OF j] by simp
    moreover have "length (drop (Suc ?j) ?us) = m" using True by simp
    ultimately show ?thesis using u unfolding lsb by (simp add: Suc_le_eq)
  next
    case False
    then have "lsb_unknown tern m = first tern" "locations tern m = ?us" using loc by (simp_all add: lsb_unknown_def first_def Let_def)
    then show ?thesis using False f by simp
  qed
  then show "(if m < length (locations tern m) then hd (locations tern m) + 1 else first tern) = lsb_unknown tern m"
    "(if m < length (locations tern m) then tl (locations tern m) else locations tern m) = unknown_from tern (lsb_unknown tern m)"
    "first tern \<le> lsb_unknown tern m" "lsb_unknown tern m \<le> length tern" "length (unknown_from tern (lsb_unknown tern m)) \<le> m" by blast+
qed

lemma unknown_from_Nil: "unknown_from tern a = [] \<longleftrightarrow> ternary_ops_IsFullyKnown (drop a tern)"
proof -
  have "unknown_from tern a = [] \<longleftrightarrow> (\<forall>i. a \<le> i \<and> i < length tern \<longrightarrow> tern ! i \<noteq> kUnknown)"
    by (auto simp: unknown_from_def filter_empty_conv ternary_ops_IsUnknown_def)
  also have "\<dots> \<longleftrightarrow> (\<forall>j < length tern - a. tern ! (a + j) \<noteq> kUnknown)"
    by (metis add_diff_inverse_nat le_add1 less_diff_conv add.commute not_less nat_add_left_cancel_less less_imp_le_nat diff_less_mono2)
  finally show ?thesis by (simp add: ternary_ops_IsFullyKnown_def ternary_ops_IsKnown_def list_all_length)
qed

lemma unknown_offsets_length: "length (RealizedTernaryIterator_FindUnknownOffsets (drop k tern)) = length (unknown_from tern k)"
proof -
  have "unknown_from tern k = map (\<lambda>i. k + i) (RealizedTernaryIterator_FindUnknownOffsets (drop k tern))"
  proof (cases "k \<le> length tern")
    case True
    then have "[k..<length tern] = map (\<lambda>i. k + i) [0..<length tern - k]" by (simp add: map_add_upt add.commute)
    then show ?thesis using True
      by (simp add: unknown_from_def RealizedTernaryIterator_FindUnknownOffsets_def filter_map comp_def ternary_ops_IsUnknown_def)
  qed (simp add: unknown_from_def RealizedTernaryIterator_FindUnknownOffsets_def)
  then show ?thesis by simp
qed

lemma known_value:
  assumes "ternary_ops_IsFullyKnown t"
  shows "allows_nat t x \<longleftrightarrow> x = uval (ternary_ops_ToKnownBitsValues t)"
proof -
  have k: "t ! i \<noteq> kUnknown" if "i < length t" for i using assms that by (auto simp: ternary_ops_IsFullyKnown_def ternary_ops_IsKnown_def list_all_length)
  have "ternary_allows t bs \<longleftrightarrow> bs = map (\<lambda>t. t = kKnownOne) t" for bs
    using k by (auto simp: ternary_allows_nth intro!: nth_equalityI)
  then show ?thesis using bl_to_nat_less [of "map (\<lambda>t. t = kKnownOne) t"] nat_to_bl_to_nat [of "map (\<lambda>t. t = kKnownOne) t"] bl_to_nat_to_bl [of "length t" x]
    by (auto simp: allows_nat_def ternary_ops_ToKnownBitsValues_def)
qed

text \<open>Forgetting the low bits.\<close>

definition forget_low :: "nat \<Rightarrow> TernaryVector \<Rightarrow> TernaryVector" where
  "forget_low k tern = replicate k kUnknown @ drop k tern"

lemma forget_low_allows:
  assumes "k \<le> length tern"
  shows "allows_nat (forget_low k tern) x \<longleftrightarrow> allows_nat (drop k tern) (x div 2 ^ k)"
proof -
  have "x < 2 ^ length tern \<longleftrightarrow> x div 2 ^ k < 2 ^ (length tern - k)"
    using assms by (simp add: div_less_iff_less_mult flip: power_add)
  moreover have "(\<forall>i < length tern. forget_low k tern ! i = kUnknown \<or> bit x i = (forget_low k tern ! i = kKnownOne)) \<longleftrightarrow>
      (\<forall>i < length tern - k. drop k tern ! i = kUnknown \<or> bit (x div 2 ^ k) i = (drop k tern ! i = kKnownOne))" (is "?A = ?B")
  proof
    assume A: ?A
    show ?B
    proof (intro allI impI)
      fix i
      assume "i < length tern - k"
      then show "drop k tern ! i = kUnknown \<or> bit (x div 2 ^ k) i = (drop k tern ! i = kKnownOne)"
        using A [rule_format, of "k + i"] assms by (simp add: forget_low_def nth_append bit_drop_bit_eq flip: drop_bit_eq_div)
    qed
  next
    assume B: ?B
    show ?A
    proof (intro allI impI)
      fix i
      assume "i < length tern"
      then show "forget_low k tern ! i = kUnknown \<or> bit x i = (forget_low k tern ! i = kKnownOne)"
        using B [rule_format, of "i - k"] assms by (cases "i < k") (simp_all add: forget_low_def nth_append bit_drop_bit_eq flip: drop_bit_eq_div)
    qed
  qed
  ultimately show ?thesis using assms by (simp add: allows_nat_iff forget_low_def)
qed

lemma forget_low_iff:
  "k \<le> length tern \<Longrightarrow> allows_nat (forget_low k tern) x \<longleftrightarrow>
    x < 2 ^ length tern \<and> (\<forall>i < length tern. k \<le> i \<longrightarrow> tern ! i = kUnknown \<or> bit x i = (tern ! i = kKnownOne))"
  by (auto simp: allows_nat_iff forget_low_def nth_append not_less)

lemma forget_low_weaker: "k \<le> length tern \<Longrightarrow> allows_nat tern x \<Longrightarrow> allows_nat (forget_low k tern) x"
  by (auto simp: allows_nat_iff forget_low_def nth_append)

lemma forget_first: "forget_low (length (takeWhile (\<lambda>t. \<not> ternary_ops_IsKnown t) tern)) tern = tern"
proof -
  have "takeWhile (\<lambda>t. \<not> ternary_ops_IsKnown t) tern = replicate (length (takeWhile (\<lambda>t. \<not> ternary_ops_IsKnown t) tern)) kUnknown"
    using set_takeWhileD [of _ "\<lambda>t. \<not> ternary_ops_IsKnown t" tern] by (intro replicate_eqI) (auto simp: ternary_ops_IsKnown_def)
  then show ?thesis unfolding forget_low_def by (metis takeWhile_dropWhile_id dropWhile_eq_drop)
qed

text \<open>The set of a vector is exactly what the vector allows once the chosen low bits are forgotten.\<close>

lemma FromTernary_points:
  "\<exists>u. FromTernary tern m = Some u \<and> is_operand (length tern) u \<and> IntervalSet_NumberOfIntervals u \<le> 2 ^ m \<and>
    is_points u = {x. allows_nat (if ternary_ops_IsFullyKnown tern then tern else forget_low (lsb_unknown tern m) tern) x}"
proof (cases "ternary_ops_IsFullyKnown tern")
  case True
  let ?b = "ternary_ops_ToKnownBitsValues tern"
  have b: "bm_wf ?b" "Bits_bit_count ?b = length tern" by (simp_all add: ternary_ops_ToKnownBitsValues_def)
  have lt: "uval ?b < 2 ^ length tern" using uval_less [of ?b] b by simp
  have "FromTernary tern m = Some (is_of (length tern) [(uval ?b, uval ?b)])"
    using True Precise_set_eq [OF b(1)] b(2) by (simp add: FromTernary_def)
  then show ?thesis using True operand_precise(2,3) [OF lt] known_value [OF True] by (auto simp: IntervalSet_NumberOfIntervals_def)
next
  case False
  let ?k = "lsb_unknown tern m" and ?n = "length tern" and ?v = "drop (lsb_unknown tern m) tern"
  note lsb = lsb_unknown_ok [where tern = tern and m = m]
  have k: "?k \<le> ?n" by (rule lsb(4))
  have "\<exists>t qs. (if unknown_from tern ?k = [] then add_group ?k (IntervalSet_new ?n) (ternary_ops_ToKnownBitsValues ?v)
      else AllBitsValues ?v \<bind> (\<lambda>values. add_groups ?k values (IntervalSet_new ?n))) = Some t \<and> is_wf ?n t \<and>
      is_points t = {x. allows_nat ?v (x div 2 ^ ?k)} \<and> is_intervals t = ivs ?n qs \<and> bounds_ok ?n qs \<and> length qs \<le> 2 ^ m"
  proof (cases "unknown_from tern ?k = []")
    case True
    let ?b = "ternary_ops_ToKnownBitsValues ?v"
    have known: "ternary_ops_IsFullyKnown ?v" using True unknown_from_Nil by blast
    have b: "bm_wf ?b" "Bits_bit_count ?b = ?n - ?k" by (simp_all add: ternary_ops_ToKnownBitsValues_def)
    have "?b = bits_of_nat (?n - ?k) (uval ?b)" "uval ?b < 2 ^ (?n - ?k)" using bits_of_nat_uval [OF b(1)] uval_less [of ?b] b by simp_all
    then obtain t qs where "add_group ?k (IntervalSet_new ?n) ?b = Some t" "is_wf ?n t" "is_points t = {x. x div 2 ^ ?k = uval ?b}"
      "is_intervals t = ivs ?n qs" "bounds_ok ?n qs" "length qs = 1"
      using add_group_eq [OF is_wf_new(1), of "uval ?b" "?n - ?k" ?k ?n] k by (auto simp: IntervalSet_new_def is_points_def)
    then show ?thesis using True known_value [OF known] by (intro exI [of _ t] exI [of _ qs]) simp
  next
    case False
    let ?vs = "map (rti_value_at ?v) [0..<2 ^ length (RealizedTernaryIterator_FindUnknownOffsets ?v)]"
    have set: "set ?vs = {b. bm_wf b \<and> ternary_ops_IsCompatible ?v b}" using rti_value_at_set [of ?v] by (simp add: atLeast0LessThan lessThan_def)
    have width: "Bits_bit_count b = ?n - ?k" if "ternary_ops_IsCompatible ?v b" for b
      using that ternary_allows_length [of ?v "bm_bits b"] by (simp add: IsCompatible_iff)
    have vals: "uval ` set ?vs = {x. allows_nat ?v x}"
    proof (intro set_eqI iffI)
      fix x
      assume "x \<in> {x. allows_nat ?v x}"
      then have "bm_wf (bits_of_nat (?n - ?k) x)" "ternary_ops_IsCompatible ?v (bits_of_nat (?n - ?k) x)" "x = uval (bits_of_nat (?n - ?k) x)"
        by (simp_all add: IsCompatible_iff allows_nat_def)
      then show "x \<in> uval ` set ?vs" unfolding set by blast
    next
      fix x
      assume "x \<in> uval ` set ?vs"
      then show "x \<in> {x. allows_nat ?v x}" using allows_natI [of _ ?v] width unfolding set by auto
    qed
    have "\<forall>v \<in> set ?vs. bm_wf v \<and> Bits_bit_count v = ?n - ?k" using width unfolding set by blast
    from add_groups_eq [OF is_wf_new(1) this, of ?k ?n] k obtain t qs where t: "add_groups ?k ?vs (IntervalSet_new ?n) = Some t" "is_wf ?n t"
      "is_points t = {x. x div 2 ^ ?k \<in> uval ` set ?vs}" "is_intervals t = ivs ?n qs" "bounds_ok ?n qs" "length qs = length ?vs"
      by (auto simp: IntervalSet_new_def is_points_def)
    have "(2::nat) ^ length (RealizedTernaryIterator_FindUnknownOffsets ?v) \<le> 2 ^ m" using lsb(5) unknown_offsets_length [of ?k tern] by simp
    then show ?thesis using False t unfolding vals AllBitsValues_eq by (intro exI [of _ t] exI [of _ qs]) simp
  qed
  then obtain t qs where t: "(if unknown_from tern ?k = [] then add_group ?k (IntervalSet_new ?n) (ternary_ops_ToKnownBitsValues ?v)
      else AllBitsValues ?v \<bind> (\<lambda>values. add_groups ?k values (IntervalSet_new ?n))) = Some t" "is_wf ?n t"
      "is_points t = {x. allows_nat ?v (x div 2 ^ ?k)}" "is_intervals t = ivs ?n qs" "bounds_ok ?n qs" "length qs \<le> 2 ^ m" by blast
  obtain ps where ps: "IntervalSet_Normalize t = Some (is_of ?n ps)" "bounds_ok ?n ps" "gapped ps" "cov ps = is_points t" using Normalize_eq [OF t(2)] .
  define u where "u = is_of ?n ps"
  have u: "IntervalSet_Normalize t = Some u" "is_normal ?n u" "is_points u = is_points t" using ps by (auto simp: u_def)
  have "cov qs = cov ps" using ivs_points [OF t(5)] t(4) ps(4) by (simp add: is_points_def)
  then have few: "IntervalSet_NumberOfIntervals u \<le> 2 ^ m"
    using gapped_minimal [OF ps(3,2), of qs] t(6) by (simp add: u_def IntervalSet_NumberOfIntervals_def)
  have pts: "is_points u = {x. allows_nat (forget_low ?k tern) x}" using u(3) t(3) forget_low_allows [OF k] by simp
  have "FromTernary tern m = Some u"
    using False t(1) u(1) unfolding FromTernary_def Let_def lsb(1,2) by (cases "unknown_from tern ?k = []") (auto split: Option.bind_splits)
  moreover have "is_points u \<noteq> {}"
  proof -
    let ?b = "map (\<lambda>t. t = kKnownOne) tern"
    have "allows_nat tern (bl_to_nat ?b)"
      using bl_to_nat_less [of ?b] nat_to_bl_to_nat [of ?b] ternary_allows_least [of tern] by (simp add: allows_nat_def)
    then show ?thesis using forget_low_weaker [OF k] unfolding pts by blast
  qed
  ultimately show ?thesis using u(2) pts False few unfolding is_operand_def by (intro exI [of _ u]) simp
qed

section \<open>Bitwise operations\<close>

lemma FromTernary_sound:
  obtains u where "FromTernary t m = Some u" "is_operand (length t) u"
    "\<forall>b. bm_wf b \<longrightarrow> list_all2 may_be t (bm_bits b) \<longrightarrow> is_member (length t) u b"
proof -
  obtain u where u: "FromTernary t m = Some u" "is_operand (length t) u"
    "is_points u = {x. allows_nat (if ternary_ops_IsFullyKnown t then t else forget_low (lsb_unknown t m) t) x}"
    using FromTernary_points by blast
  have "is_member (length t) u b" if b: "bm_wf b" "list_all2 may_be t (bm_bits b)" for b
  proof -
    have w: "Bits_bit_count b = length t" using list_all2_lengthD [OF b(2)] by simp
    have "ternary_ops_IsCompatible t b" using b(2) by (simp add: compatible_may_be)
    then have "allows_nat t (uval b)" using allows_natI [OF b(1) w] by blast
    then show ?thesis using u(3) w b(1) forget_low_weaker [OF lsb_unknown_ok(4)] by (simp add: is_member_def)
  qed
  then show thesis using that u by blast
qed

text \<open>Members of a set are allowed by its ternary vector.\<close>

lemma extracted_may_be:
  assumes "is_operand n a"
  obtains t where "ExtractTernaryVector a = Some t" "length t = n" "\<forall>b. is_member n a b \<longrightarrow> list_all2 may_be t (bm_bits b)"
proof -
  obtain t where t: "ExtractTernaryVector a = Some t" "length t = n" "\<forall>x \<in> is_points a. allows_nat t x" using ExtractTernaryVector_ok [OF assms] .
  have "list_all2 may_be t (bm_bits b)" if "is_member n a b" for b
    using that t(2,3) allows_natI [of b t] compatible_may_be [of t b] by (simp add: is_member_def)
  then show thesis using that t(1,2) by blast
qed

lemma one_bit_member:
  assumes "is_member 1 a b"
  shows "\<exists>c. b = bool_bits c \<and> of_bool c \<in> is_points a"
proof -
  have b: "uval b \<in> is_points a" "uval b < 2" "b = bits_of_nat 1 (uval b)" using is_member_nat [OF assms] by simp_all
  then have "uval b = of_bool (uval b \<noteq> 0)" by (cases "uval b") auto
  then show ?thesis using b(1,3) by metis
qed

lemma bool_bits_bits: "bm_bits (bool_bits c) = [c]"
  by (simp add: nat_to_bl_def bit_simps)

lemma bool_bits_span: "Bits_of_span [c] = bool_bits c"
  by (rule bits_of_natI) simp_all

lemma bitwise_op_sound:
  assumes "is_operand n a" "is_operand n b"
    and one: "\<And>x y c d. may_be x c \<Longrightarrow> may_be y d \<Longrightarrow> may_be (one_bit x y) (g c d)"
    and wide: "\<And>xs ys as bs. list_all2 may_be xs as \<Longrightarrow> list_all2 may_be ys bs \<Longrightarrow> length as \<le> length bs \<Longrightarrow>
      \<exists>zs. wide [xs, ys] = Some zs \<and> list_all2 may_be zs (map2 g as bs)"
    and f: "\<And>x y. bm_wf x \<Longrightarrow> bm_wf y \<Longrightarrow> Bits_bit_count x = Bits_bit_count y \<Longrightarrow> f x y = Some (Bits_of_span (map2 g (bm_bits x) (bm_bits y)))"
  shows "\<exists>u. bitwise_op one_bit wide a b = Some u \<and> is_operand n u \<and> covers2 n n n u a b f"
proof (cases "n = 1")
  case True
  then have ops: "is_operand 1 a" "is_operand 1 b" using assms(1,2) by simp_all
  obtain s where s: "OneBitRangeToTernary a = Some s" "\<forall>c. of_bool c \<in> is_points a \<longrightarrow> may_be s c" using OneBitRangeToTernary_ok [OF ops(1)] by blast
  obtain t where t: "OneBitRangeToTernary b = Some t" "\<forall>c. of_bool c \<in> is_points b \<longrightarrow> may_be t c" using OneBitRangeToTernary_ok [OF ops(2)] by blast
  obtain u where u: "TernaryToOneBitRange (one_bit s t) = Some u" "is_operand 1 u" "\<forall>c. of_bool c \<in> is_points u \<longleftrightarrow> may_be (one_bit s t) c"
    using TernaryToOneBitRange_ok [of "one_bit s t"] .
  have "\<exists>z. f x y = Some z \<and> is_member 1 u z" if xy: "is_member 1 a x" "is_member 1 b y" for x y
  proof -
    obtain c d where cd: "x = bool_bits c" "of_bool c \<in> is_points a" "y = bool_bits d" "of_bool d \<in> is_points b"
      using one_bit_member [OF xy(1)] one_bit_member [OF xy(2)] by blast
    then have "of_bool (g c d) \<in> is_points u" using one s(2) t(2) u(3) by blast
    moreover have "f x y = Some (bool_bits (g c d))" using f [of x y] xy unfolding cd(1,3) by (simp only: bool_bits_bits) (simp add: bool_bits_span is_member_def)
    ultimately show ?thesis using is_member_bool by blast
  qed
  then have "covers2 1 1 1 u a b f" using is_operand_simps(2) [OF u(2)] unfolding covers2_def by blast
  then show ?thesis using s(1) t(1) u(1,2) True is_operand_simps(4) [OF ops(1)] is_operand_simps(4) [OF ops(2)]
    by (simp add: bitwise_op_def del: TernaryToOneBitRange.simps)
next
  case False
  obtain s where s: "ExtractTernaryVector a = Some s" "length s = n" "\<forall>x. is_member n a x \<longrightarrow> list_all2 may_be s (bm_bits x)"
    using extracted_may_be [OF assms(1)] .
  obtain t where t: "ExtractTernaryVector b = Some t" "length t = n" "\<forall>x. is_member n b x \<longrightarrow> list_all2 may_be t (bm_bits x)"
    using extracted_may_be [OF assms(2)] .
  obtain x0 y0 where "is_member n a x0" "is_member n b y0"
    using is_operand_simps(3) [rule_format, OF assms(1)] is_operand_simps(3) [rule_format, OF assms(2)] operand_less [OF assms(1)] operand_less [OF assms(2)]
    by (metis ex_in_conv is_member_of_nat)
  then obtain zs where zs: "wide [s, t] = Some zs" "list_all2 may_be zs (map2 g (bm_bits x0) (bm_bits y0))"
    using wide [OF s(3) [rule_format] t(3) [rule_format]] by (auto simp: is_member_def)
  have lz: "length zs = n" using list_all2_lengthD [OF zs(2)] list_all2_lengthD [OF s(3) [rule_format, OF \<open>is_member n a x0\<close>]]
      list_all2_lengthD [OF t(3) [rule_format, OF \<open>is_member n b y0\<close>]] s(2) t(2) by simp
  obtain u where u: "FromTernary zs 4 = Some u" "is_operand (length zs) u" "\<forall>b. bm_wf b \<longrightarrow> list_all2 may_be zs (bm_bits b) \<longrightarrow> is_member (length zs) u b"
    using FromTernary_sound [of zs 4] .
  have "\<exists>z. f x y = Some z \<and> is_member n u z" if xy: "is_member n a x" "is_member n b y" for x y
  proof -
    have "list_all2 may_be zs (map2 g (bm_bits x) (bm_bits y))" using wide [OF s(3) [rule_format, OF xy(1)] t(3) [rule_format, OF xy(2)]] zs(1) xy by (auto simp: is_member_def)
    then show ?thesis using f [of x y] xy u(3) [rule_format, of "Bits_of_span (map2 g (bm_bits x) (bm_bits y))"] lz by (simp add: is_member_def)
  qed
  then have "covers2 n n n u a b f" using is_operand_simps(2) [OF u(2)] lz unfolding covers2_def by blast
  then show ?thesis using s(1) t(1) zs(1) u(1,2) False lz is_operand_simps(4) [OF assms(1)] is_operand_simps(4) [OF assms(2)] by (simp add: bitwise_op_def)
qed

lemma And_sound:
  assumes "is_operand n a" "is_operand n b"
  shows "\<exists>u. interval_ops_And a b = Some u \<and> is_operand n u \<and> covers2 n n n u a b bits_ops_And"
  unfolding interval_ops_And_def
  by (rule bitwise_op_sound [where g = "(\<and>)", OF assms]) (erule (1) te.And_R, erule (2) te.BitwiseAnd2_R, erule (2) and_op.pointwise)

lemma Or_sound:
  assumes "is_operand n a" "is_operand n b"
  shows "\<exists>u. interval_ops_Or a b = Some u \<and> is_operand n u \<and> covers2 n n n u a b bits_ops_Or"
  unfolding interval_ops_Or_def
  by (rule bitwise_op_sound [where g = "(\<or>)", OF assms]) (erule (1) te.Or_R, erule (2) te.BitwiseOr2_R, erule (2) or_op.pointwise)

lemma Xor_sound:
  assumes "is_operand n a" "is_operand n b"
  shows "\<exists>u. interval_ops_Xor a b = Some u \<and> is_operand n u \<and> covers2 n n n u a b bits_ops_Xor"
  unfolding interval_ops_Xor_def
  by (rule bitwise_op_sound [where g = "(\<noteq>)", OF assms]) (erule (1) te.Xor_R, erule (2) te.BitwiseXor2_R, erule (2) xor_op.pointwise)

lemma Not_sound:
  assumes "is_operand n a"
  shows "\<exists>u. interval_ops_Not a = Some u \<and> is_operand n u \<and> covers1 n n u a bits_ops_Not"
proof (cases "n = 1")
  case True
  then have op: "is_operand 1 a" using assms by simp
  obtain u where u: "interval_ops_Not a = Some u" "is_operand 1 u" "\<forall>c. of_bool c \<in> is_points a \<longrightarrow> of_bool (\<not> c) \<in> is_points u"
    using Not_one_bit [OF op] by blast
  have "\<exists>z. bits_ops_Not x = Some z \<and> is_member 1 u z" if x: "is_member 1 a x" for x
  proof -
    obtain c where c: "x = bool_bits c" "of_bool c \<in> is_points a" using one_bit_member [OF x] by blast
    have "bm_wf x" using x by (simp add: is_member_def)
    from bits_ops_Not_eq [OF this] have "bits_ops_Not x = Some (bool_bits (\<not> c))" unfolding c(1) bool_bits_bits list.map bool_bits_span .
    then show ?thesis using u(3) c(2) is_member_bool by blast
  qed
  then have "covers1 1 1 u a bits_ops_Not" using is_operand_simps(2) [OF u(2)] unfolding covers1_def by blast
  then show ?thesis using u(1,2) True by blast
next
  case False
  obtain s where s: "ExtractTernaryVector a = Some s" "length s = n" "\<forall>x. is_member n a x \<longrightarrow> list_all2 may_be s (bm_bits x)"
    using extracted_may_be [OF assms] .
  let ?z = "AE_BitwiseNot TernaryEvaluator s"
  have lz: "length ?z = n" using s(2) by (simp add: AE_BitwiseNot_def)
  obtain u where u: "FromTernary ?z 4 = Some u" "is_operand (length ?z) u" "\<forall>b. bm_wf b \<longrightarrow> list_all2 may_be ?z (bm_bits b) \<longrightarrow> is_member (length ?z) u b"
    using FromTernary_sound [of ?z 4] .
  have "covers1 n n u a bits_ops_Not" unfolding covers1_def
  proof (intro conjI allI impI)
    show "is_normal n u" using is_operand_simps(2) [OF u(2)] lz by simp
    fix x
    assume x: "is_member n a x"
    have "bm_wf x" using x by (simp add: is_member_def)
    then show "\<exists>z. bits_ops_Not x = Some z \<and> is_member n u z"
      using bits_ops_Not_eq [of x] u(3) [rule_format, of "Bits_of_span (map Not (bm_bits x))"] te.BitwiseNot_R [OF s(3) [rule_format, OF x]] lz by simp
  qed
  then show ?thesis using s(1) u(1,2) lz False is_operand_simps(4) [OF assms] by (simp add: interval_ops_Not_def)
qed

section \<open>Whether an interval meets a ternary vector\<close>

text \<open>The values of the low bits that a vector allows.\<close>

definition allows_low :: "TernaryVector \<Rightarrow> nat \<Rightarrow> nat \<Rightarrow> bool" where
  "allows_low t k x \<longleftrightarrow> x < 2 ^ k \<and> (\<forall>i < k. t ! i = kUnknown \<or> bit x i = (t ! i = kKnownOne))"

lemma bit_shift_sum:
  fixes x :: nat
  assumes "x < 2 ^ k"
  shows "bit (q * 2 ^ k + x) i \<longleftrightarrow> (if i < k then bit x i else bit q (i - k))"
  using bit_add_shifted [OF assms, of q i] by (simp add: add.commute mult.commute)

lemma allows_low_Suc:
  "allows_low t (Suc k) x \<longleftrightarrow> (\<exists>b y. x = of_bool b * 2 ^ k + y \<and> (t ! k = kUnknown \<or> b = (t ! k = kKnownOne)) \<and> allows_low t k y)"
proof
  assume x: "allows_low t (Suc k) x"
  have "x div 2 ^ k < 2" using x by (intro less_mult_imp_div_less) (simp add: allows_low_def)
  then have "x div 2 ^ k = of_bool (bit x k)" by (cases "x div 2 ^ k") (auto simp: bit_iff_odd)
  then have e: "x = of_bool (bit x k) * 2 ^ k + x mod 2 ^ k" using div_mult_mod_eq [of x "2 ^ k"] by simp
  have "allows_low t k (x mod 2 ^ k)"
    using x by (auto simp: allows_low_def bit_take_bit_iff simp flip: take_bit_eq_mod)
  moreover have "t ! k = kUnknown \<or> bit x k = (t ! k = kKnownOne)" using x by (simp add: allows_low_def)
  ultimately show "\<exists>b y. x = of_bool b * 2 ^ k + y \<and> (t ! k = kUnknown \<or> b = (t ! k = kKnownOne)) \<and> allows_low t k y" using e by blast
next
  assume "\<exists>b y. x = of_bool b * 2 ^ k + y \<and> (t ! k = kUnknown \<or> b = (t ! k = kKnownOne)) \<and> allows_low t k y"
  then obtain b y where x: "x = of_bool b * 2 ^ k + y" and b: "t ! k = kUnknown \<or> b = (t ! k = kKnownOne)" and y: "allows_low t k y" by blast
  have y2: "y < 2 ^ k" using y by (simp add: allows_low_def)
  have "bit x i = (if i < k then bit y i else b \<and> i = k)" for i
    unfolding x bit_shift_sum [OF y2] by (auto simp: bit_simps)
  moreover have "x < 2 ^ Suc k" unfolding x using y2 by (cases b) simp_all
  ultimately show "allows_low t (Suc k) x" using b y by (auto simp: allows_low_def less_Suc_eq)
qed

lemma allows_low_exists: "\<exists>x. allows_low t k x"
proof (induction k)
  case (Suc k)
  then show ?case unfolding allows_low_Suc by blast
qed (simp add: allows_low_def)

lemma low_split: "(L::nat) mod 2 ^ Suc k = of_bool (bit L k) * 2 ^ k + L mod 2 ^ k"
  using take_bit_Suc_from_most [of k L] by (simp add: take_bit_eq_mod mult.commute)

lemma could_be_le_iff:
  assumes "k \<le> n"
  shows "could_be_le t (bits_of_nat n L) k \<longleftrightarrow> (\<exists>x. allows_low t k x \<and> x \<le> L mod 2 ^ k)"
  using assms
proof (induction k)
  case (Suc k)
  have g: "Bits_Get (bits_of_nat n L) k = bit L k" using Suc.prems by (simp add: Bits_Get_nth)
  have small: "y < 2 ^ k" if "allows_low t k y" for y using that by (simp add: allows_low_def)
  have m: "L mod 2 ^ k < 2 ^ k" by simp
  have "(\<exists>x. allows_low t (Suc k) x \<and> x \<le> L mod 2 ^ Suc k) \<longleftrightarrow>
      (\<exists>b y. (t ! k = kUnknown \<or> b = (t ! k = kKnownOne)) \<and> allows_low t k y \<and> of_bool b * 2 ^ k + y \<le> of_bool (bit L k) * 2 ^ k + L mod 2 ^ k)"
    unfolding allows_low_Suc low_split by blast
  also have "\<dots> \<longleftrightarrow> (if bit L k then t ! k \<noteq> kKnownOne \<or> (\<exists>y. allows_low t k y \<and> y \<le> L mod 2 ^ k)
      else t ! k \<noteq> kKnownOne \<and> (\<exists>y. allows_low t k y \<and> y \<le> L mod 2 ^ k))"
  proof (cases "bit L k")
    case True
    have "of_bool False * 2 ^ k + y \<le> of_bool (bit L k) * 2 ^ k + L mod 2 ^ k" if "allows_low t k y" for y using small [OF that] True by simp
    then show ?thesis using True allows_low_exists [of t k] by (cases "t ! k") (auto split: if_splits)
  next
    case False
    have "\<not> of_bool True * 2 ^ k + y \<le> L mod 2 ^ k" for y using m by (simp add: not_le trans_less_add1)
    then show ?thesis using False by (cases "t ! k") (auto simp: of_bool_def split: if_splits)
  qed
  finally show ?case using Suc g by (auto split: if_splits)
qed (simp add: allows_low_def)

lemma could_be_ge_iff:
  assumes "k \<le> n"
  shows "could_be_ge t (bits_of_nat n L) k \<longleftrightarrow> (\<exists>x. allows_low t k x \<and> L mod 2 ^ k \<le> x)"
  using assms
proof (induction k)
  case (Suc k)
  have g: "Bits_Get (bits_of_nat n L) k = bit L k" using Suc.prems by (simp add: Bits_Get_nth)
  have small: "y < 2 ^ k" if "allows_low t k y" for y using that by (simp add: allows_low_def)
  have m: "L mod 2 ^ k < 2 ^ k" by simp
  have "(\<exists>x. allows_low t (Suc k) x \<and> L mod 2 ^ Suc k \<le> x) \<longleftrightarrow>
      (\<exists>b y. (t ! k = kUnknown \<or> b = (t ! k = kKnownOne)) \<and> allows_low t k y \<and> of_bool (bit L k) * 2 ^ k + L mod 2 ^ k \<le> of_bool b * 2 ^ k + y)"
    unfolding allows_low_Suc low_split by blast
  also have "\<dots> \<longleftrightarrow> (if bit L k then t ! k \<noteq> kKnownZero \<and> (\<exists>y. allows_low t k y \<and> L mod 2 ^ k \<le> y)
      else t ! k \<noteq> kKnownZero \<or> (\<exists>y. allows_low t k y \<and> L mod 2 ^ k \<le> y))"
  proof (cases "bit L k")
    case True
    have "\<not> 2 ^ k + L mod 2 ^ k \<le> y" if "allows_low t k y" for y using small [OF that] by linarith
    then show ?thesis using True by (cases "t ! k") (auto simp: of_bool_def split: if_splits)
  next
    case False
    have "L mod 2 ^ k \<le> 2 ^ k + y" for y using m by linarith
    then show ?thesis using False allows_low_exists [of t k] by (cases "t ! k") (auto simp: of_bool_def split: if_splits)
  qed
  finally show ?case using Suc g by (auto split: if_splits)
qed (simp add: allows_low_def)

text \<open>A value of \<open>n\<close> bits in three parts: above bit \<open>m\<close>, bit \<open>m\<close> and below.\<close>

lemma three_parts: "(x::nat) = x div 2 ^ Suc m * 2 ^ Suc m + (of_bool (bit x m) * 2 ^ m + x mod 2 ^ m)"
  using low_split [of x m] div_mult_mod_eq [of x "2 ^ Suc m"] by simp

lemma allows_parts:
  assumes "Suc m \<le> length t"
  shows "allows_nat t x \<longleftrightarrow> allows_nat (drop (Suc m) t) (x div 2 ^ Suc m) \<and> (t ! m = kUnknown \<or> bit x m = (t ! m = kKnownOne)) \<and> allows_low t m (x mod 2 ^ m)"
proof -
  let ?ok = "\<lambda>i. t ! i = kUnknown \<or> bit x i = (t ! i = kKnownOne)"
  have "allows_nat (drop (Suc m) t) (x div 2 ^ Suc m) \<longleftrightarrow> allows_nat (forget_low (Suc m) t) x" using forget_low_allows [OF assms] by simp
  also have "\<dots> \<longleftrightarrow> x < 2 ^ length t \<and> (\<forall>i < length t. Suc m \<le> i \<longrightarrow> ?ok i)"
    using forget_low_iff [OF assms] .
  finally have hi: "allows_nat (drop (Suc m) t) (x div 2 ^ Suc m) \<longleftrightarrow> x < 2 ^ length t \<and> (\<forall>i < length t. Suc m \<le> i \<longrightarrow> ?ok i)" .
  have lo: "allows_low t m (x mod 2 ^ m) \<longleftrightarrow> (\<forall>i < m. ?ok i)"
    by (auto simp: allows_low_def bit_take_bit_iff simp flip: take_bit_eq_mod)
  have "(\<forall>i < length t. ?ok i) \<longleftrightarrow> (\<forall>i < length t. Suc m \<le> i \<longrightarrow> ?ok i) \<and> ?ok m \<and> (\<forall>i < m. ?ok i)"
  proof -
    have "?ok i" if "\<forall>i < length t. Suc m \<le> i \<longrightarrow> ?ok i" "?ok m" "\<forall>i < m. ?ok i" "i < length t" for i
      using that by (cases "i < m"; cases "i = m") auto
    moreover have "m < length t" "i < m \<Longrightarrow> i < length t" for i using assms by linarith+
    ultimately show ?thesis by blast
  qed
  then show ?thesis unfolding hi lo allows_nat_iff [of t] by blast
qed

lemma parts_exist:
  assumes "Suc m \<le> length t" "allows_nat (drop (Suc m) t) q" "t ! m = kUnknown \<or> b = (t ! m = kKnownOne)" "allows_low t m y"
  shows "\<exists>x. allows_nat t x \<and> x div 2 ^ Suc m = q \<and> bit x m = b \<and> x mod 2 ^ m = y"
proof -
  let ?x = "q * 2 ^ Suc m + (of_bool b * 2 ^ m + y)"
  have y: "y < 2 ^ m" using assms(4) by (simp add: allows_low_def)
  then have low: "of_bool b * 2 ^ m + y < 2 ^ Suc m" by (cases b) simp_all
  have "?x div 2 ^ Suc m = q" using low by simp
  moreover have "bit ?x m = b" using bit_shift_sum [OF low, of q m] bit_shift_sum [OF y, of "of_bool b" m] by (simp add: bit_simps)
  moreover have "?x mod 2 ^ m = y"
  proof -
    have "?x = y + (2 * q + of_bool b) * 2 ^ m" by (simp add: algebra_simps)
    then show ?thesis using y by (metis mod_mult_self1 mod_less)
  qed
  ultimately show ?thesis using allows_parts [OF assms(1), of ?x] assms(2-4) by (intro exI [of _ ?x]) simp
qed

text \<open>Unless the vector is one known value, it allows another one.\<close>

lemma allows_other:
  assumes "\<not> (ternary_ops_IsFullyKnown t \<and> uval (ternary_ops_ToKnownBitsValues t) = q)"
  shows "\<exists>y. allows_nat t y \<and> y \<noteq> q"
proof (cases "ternary_ops_IsFullyKnown t")
  case True
  then show ?thesis using assms known_value [OF True] by blast
next
  case False
  then obtain i where i: "i < length t" "t ! i = kUnknown" by (auto simp: ternary_ops_IsFullyKnown_def ternary_ops_IsKnown_def list_all_length)
  let ?b = "map (\<lambda>t. t = kKnownOne) t"
  have "ternary_allows t ?b" "ternary_allows t (?b[i := True])" using i by (auto simp: ternary_allows_nth nth_list_update)
  moreover have "allows_nat t (bl_to_nat bs)" if "ternary_allows t bs" for bs
    using that bl_to_nat_less [of bs] nat_to_bl_to_nat [of bs] ternary_allows_length [OF that] by (simp add: allows_nat_def)
  moreover have "bl_to_nat ?b \<noteq> bl_to_nat (?b[i := True])"
  proof -
    have "\<not> bit (bl_to_nat ?b) i" "bit (bl_to_nat (?b[i := True])) i" using i by (simp_all add: bit_bl_to_nat)
    then show ?thesis by metis
  qed
  ultimately show ?thesis by metis
qed

text \<open>Membership in an interval whose bounds differ first in bit \<open>m\<close>, proper when the upper bound has it.\<close>

lemma parts_compare:
  fixes A P l' h' x' :: nat
  assumes "l' < P" "h' < P" "x' < P" "lb \<noteq> hb" "l = A + (of_bool lb * P + l')" "h = A + (of_bool hb * P + h')" "x = A + (of_bool xb * P + x')"
  shows "(if l \<le> h then l \<le> x \<and> x \<le> h else l \<le> x \<or> x \<le> h) \<longleftrightarrow> (if xb = hb then x' \<le> h' else l' \<le> x')" "l \<le> h \<longleftrightarrow> hb"
  using assms(1-4) unfolding assms(5-7) by (cases lb; cases hb; cases xb; auto)+

lemma block_order:
  fixes r q P a b :: nat
  assumes "r < q" "a < 2 * P"
  shows "r * (2 * P) + a < q * (2 * P) + b"
proof -
  have "(r + 1) * (2 * P) \<le> q * (2 * P)" using assms(1) by (intro mult_le_mono1) simp
  moreover have "(r + 1) * (2 * P) = r * (2 * P) + 2 * P" by simp
  ultimately show ?thesis using assms(2) by linarith
qed

lemma interval_parts:
  assumes "l < 2 ^ n" "h < 2 ^ n" "l div 2 ^ Suc m = h div 2 ^ Suc m" "bit l m \<noteq> bit h m" "x < 2 ^ n"
  shows "x \<in> iv_points (iv_of n l h) \<longleftrightarrow>
    (if x div 2 ^ Suc m = l div 2 ^ Suc m
     then if bit x m = bit h m then x mod 2 ^ m \<le> h mod 2 ^ m else l mod 2 ^ m \<le> x mod 2 ^ m
     else \<not> bit h m)"
proof -
  define q r where "q = l div 2 ^ Suc m" and "r = x div 2 ^ Suc m"
  define P where "P = (2::nat) ^ m"
  have pos: "v mod P < P" for v by (simp add: P_def)
  have l: "l = q * (2 * P) + (of_bool (bit l m) * P + l mod P)" using three_parts [of l m] by (simp add: q_def P_def)
  have h: "h = q * (2 * P) + (of_bool (bit h m) * P + h mod P)" using three_parts [of h m] assms(3) by (simp add: q_def P_def)
  have x: "x = r * (2 * P) + (of_bool (bit x m) * P + x mod P)" using three_parts [of x m] by (simp add: r_def P_def)
  have low: "of_bool (bit v m) * P + v mod P < 2 * P" for v using pos [of v] by (cases "bit v m") simp_all
  have mem: "x \<in> iv_points (iv_of n l h) \<longleftrightarrow> (if l \<le> h then l \<le> x \<and> x \<le> h else l \<le> x \<or> x \<le> h)"
    using assms(1,2,5) by (auto simp: iv_points_def)
  note p = pos [of l] pos [of h] pos [of x]
  have proper: "l \<le> h \<longleftrightarrow> bit h m" using parts_compare(2) [OF p(1,2,1) assms(4) l h refl] .
  consider "r = q" | "r < q" | "q < r" by linarith
  then show ?thesis
  proof cases
    case 1
    have "(if l \<le> h then l \<le> x \<and> x \<le> h else l \<le> x \<or> x \<le> h) \<longleftrightarrow> (if bit x m = bit h m then x mod P \<le> h mod P else l mod P \<le> x mod P)"
      using parts_compare(1) [OF p assms(4) l h x [unfolded 1]] .
    then show ?thesis using 1 unfolding mem by (simp add: q_def r_def P_def)
  next
    case 2
    have xl: "x < l" "x < h" using block_order [OF 2 low] x l h by metis+
    show ?thesis using xl 2 proper unfolding mem by (auto simp: q_def r_def)
  next
    case 3
    have xl: "l < x" "h < x" using block_order [OF 3 low] x l h by metis+
    show ?thesis using xl 3 proper unfolding mem by (auto simp: q_def r_def)
  qed
qed

text \<open>The test is exact, for proper and improper intervals.\<close>

lemma CoversTernary_parts:
  fixes l h :: nat
  defines "q \<equiv> \<lambda>m. l div 2 ^ Suc m" and "p \<equiv> \<lambda>t m. drop (Suc m) t"
  assumes "l < 2 ^ n" "h < 2 ^ n" "length t = n" "Suc m \<le> n" "l div 2 ^ Suc m = h div 2 ^ Suc m" "bit l m \<noteq> bit h m"
  shows "(\<exists>x \<in> iv_points (iv_of n l h). allows_nat t x) \<longleftrightarrow>
    (if bit h m \<and> \<not> allows_nat (p t m) (q m) then False
     else if \<not> bit h m \<and> \<not> (ternary_ops_IsFullyKnown (p t m) \<and> uval (ternary_ops_ToKnownBitsValues (p t m)) = q m) then True
     else if ternary_ops_IsKnown (t ! m)
       then if (t ! m = kKnownZero) = bit h m then \<exists>y. allows_low t m y \<and> l mod 2 ^ m \<le> y else \<exists>y. allows_low t m y \<and> y \<le> h mod 2 ^ m
     else (\<exists>y. allows_low t m y \<and> y \<le> h mod 2 ^ m) \<or> (\<exists>y. allows_low t m y \<and> l mod 2 ^ m \<le> y))"
    (is "?L \<longleftrightarrow> ?R")
proof -
  let ?q = "q m" and ?p = "p t m"
  let ?b = "\<lambda>b. t ! m = kUnknown \<or> b = (t ! m = kKnownOne)"
  let ?in = "\<lambda>r b y. if r = ?q then if b = bit h m then y \<le> h mod 2 ^ m else l mod 2 ^ m \<le> y else \<not> bit h m"
  have mt: "Suc m \<le> length t" using assms(5,6) by simp
  have "?L \<longleftrightarrow> (\<exists>r b y. allows_nat ?p r \<and> ?b b \<and> allows_low t m y \<and> ?in r b y)"
  proof
    assume ?L
    then obtain x where x: "x \<in> iv_points (iv_of n l h)" "allows_nat t x" by blast
    have "x < 2 ^ n" using x(2) assms(5) by (simp add: allows_nat_def)
    note i = interval_parts [OF assms(3,4,7,8) this]
    have "allows_nat ?p (x div 2 ^ Suc m) \<and> ?b (bit x m) \<and> allows_low t m (x mod 2 ^ m) \<and> ?in (x div 2 ^ Suc m) (bit x m) (x mod 2 ^ m)"
      using x(2) i x(1) unfolding allows_parts [OF mt] p_def q_def by simp
    then show "\<exists>r b y. allows_nat ?p r \<and> ?b b \<and> allows_low t m y \<and> ?in r b y" by blast
  next
    assume "\<exists>r b y. allows_nat ?p r \<and> ?b b \<and> allows_low t m y \<and> ?in r b y"
    then obtain r b y where rby: "allows_nat ?p r" "?b b" "allows_low t m y" "?in r b y" by blast
    then obtain x where x: "allows_nat t x" "x div 2 ^ Suc m = r" "bit x m = b" "x mod 2 ^ m = y"
      using parts_exist [OF mt] unfolding p_def by blast
    have "x < 2 ^ n" using x(1) assms(5) by (simp add: allows_nat_def)
    from interval_parts [OF assms(3,4,7,8) this] have "x \<in> iv_points (iv_of n l h)" using rby(4) x(2-4) unfolding q_def by simp
    then show ?L using x(1) by blast
  qed
  also have "\<dots> \<longleftrightarrow> ?R"
  proof (cases "bit h m \<and> \<not> allows_nat ?p ?q")
    case True
    then have "\<not> (\<exists>r b y. allows_nat ?p r \<and> ?b b \<and> allows_low t m y \<and> ?in r b y)" by auto
    then show ?thesis unfolding if_P [OF True] by blast
  next
    case outside: False
    show ?thesis
    proof (cases "\<not> bit h m \<and> \<not> (ternary_ops_IsFullyKnown ?p \<and> uval (ternary_ops_ToKnownBitsValues ?p) = ?q)")
      case True
      then obtain r where "allows_nat ?p r" "r \<noteq> ?q" using allows_other by blast
      then have "allows_nat ?p r \<and> ?b (t ! m = kKnownOne) \<and> allows_low t m y \<and> ?in r (t ! m = kKnownOne) y" if "allows_low t m y" for y
        using that True by simp
      then have "\<exists>r b y. allows_nat ?p r \<and> ?b b \<and> allows_low t m y \<and> ?in r b y" using allows_low_exists [of t m] by metis
      then show ?thesis unfolding if_not_P [OF outside] if_P [OF True] by blast
    next
      case False
      have kv: "allows_nat ?p r \<longleftrightarrow> r = ?q" if "\<not> bit h m" for r
      proof -
        have "ternary_ops_IsFullyKnown ?p" "uval (ternary_ops_ToKnownBitsValues ?p) = ?q" using False that by blast+
        then show ?thesis using known_value [of ?p r] by simp
      qed
      have pq: "allows_nat ?p ?q" "\<forall>r. allows_nat ?p r \<and> \<not> bit h m \<longrightarrow> r = ?q" using outside kv by blast+
      have "r = ?q" if "allows_nat ?p r" "?in r b y" for r b y
      proof (rule ccontr)
        assume "r \<noteq> ?q"
        then have "\<not> bit h m" using that(2) by simp
        then show False using pq(2) that(1) \<open>r \<noteq> ?q\<close> by blast
      qed
      moreover have "?in ?q b y \<longleftrightarrow> (if b = bit h m then y \<le> h mod 2 ^ m else l mod 2 ^ m \<le> y)" for b y by simp
      ultimately have "(\<exists>r b y. allows_nat ?p r \<and> ?b b \<and> allows_low t m y \<and> ?in r b y) \<longleftrightarrow>
          (\<exists>b y. ?b b \<and> allows_low t m y \<and> (if b = bit h m then y \<le> h mod 2 ^ m else l mod 2 ^ m \<le> y))" using pq(1) by blast
      also have "\<dots> \<longleftrightarrow> (if ternary_ops_IsKnown (t ! m)
         then if (t ! m = kKnownZero) = bit h m then \<exists>y. allows_low t m y \<and> l mod 2 ^ m \<le> y else \<exists>y. allows_low t m y \<and> y \<le> h mod 2 ^ m
         else (\<exists>y. allows_low t m y \<and> y \<le> h mod 2 ^ m) \<or> (\<exists>y. allows_low t m y \<and> l mod 2 ^ m \<le> y))"
      proof (cases "t ! m")
        case kUnknown
        then show ?thesis unfolding ternary_ops_IsKnown_def ex_bool_eq by (cases "bit h m") auto
      qed (auto simp: ternary_ops_IsKnown_def)
      finally show ?thesis unfolding if_not_P [OF outside] if_not_P [OF False] .
    qed
  qed
  finally show ?thesis .
qed

lemma CoversTernary_differ:
  assumes "l < 2 ^ n" "h < 2 ^ n" "length t = n" "l \<noteq> h" "\<not> ternary_ops_IsFullyKnown t"
  shows "CoversTernary (iv_of n l h) t = Some (\<exists>x \<in> iv_points (iv_of n l h). allows_nat t x)"
proof -
  from common_prefix [OF assms(1,2)] obtain k where k: "k \<le> n"
    "bits_ops_LongestCommonPrefixMSB [bits_of_nat n l, bits_of_nat n h] = Some (bits_of_nat (n - k) (l div 2 ^ k))"
    "l div 2 ^ k = h div 2 ^ k" "0 < k \<longrightarrow> bit l (k - 1) \<noteq> bit h (k - 1)" .
  have "k \<noteq> 0" using k(3) assms(4) by (intro notI) simp
  then obtain m where m: "k = Suc m" by (cases k) auto
  have mn: "Suc m \<le> n" "m < n" and bits: "bit l m \<noteq> bit h m" using k(1,4) m by simp_all
  define q where "q = l div 2 ^ Suc m"
  let ?t = "take m t" and ?p = "drop (Suc m) t"
  have precise: "Interval_IsPrecise (iv_of n l h) = Some False"
    using IsPrecise_iff [of "iv_of n l h"] iv_points_single [of "iv_of n l h"] assms(1,2,4) by simp
  have proper: "Bits_GetFromMsb (bits_of_nat n h) (n - Suc m) = bit h m"
    using mn Bits_Get_nth [of m "bits_of_nat n h"] by (simp add: Bits_GetFromMsb_def Bits_Get_def)
  have "(2::nat) ^ n = 2 ^ (n - Suc m) * 2 ^ Suc m" using mn(1) by (simp only: flip: power_add) simp
  then have q: "q < 2 ^ (n - Suc m)" using assms(1) unfolding q_def by (intro less_mult_imp_div_less) simp
  have compat: "ternary_ops_IsCompatible ?p (bits_of_nat (n - Suc m) q) \<longleftrightarrow> allows_nat ?p q"
    using allows_natI [of "bits_of_nat (n - Suc m) q" ?p] assms(3) q by simp
  have known: "InlineBitmap_eq (ternary_ops_ToKnownBitsValues ?p) (bits_of_nat (n - Suc m) q) \<longleftrightarrow> uval (ternary_ops_ToKnownBitsValues ?p) = q"
    using assms(3) q by (simp add: InlineBitmap_eq_iff ternary_ops_ToKnownBitsValues_def bl_to_nat_to_bl flip: bl_to_nat_inject)
  have low: "could_be_le ?t (bits_of_nat m (h mod 2 ^ m)) m \<longleftrightarrow> (\<exists>y. allows_low t m y \<and> y \<le> h mod 2 ^ m)"
    "could_be_ge ?t (bits_of_nat m (l mod 2 ^ m)) m \<longleftrightarrow> (\<exists>y. allows_low t m y \<and> l mod 2 ^ m \<le> y)"
    using could_be_le_iff [of m m ?t "h mod 2 ^ m"] could_be_ge_iff [of m m ?t "l mod 2 ^ m"] by (simp_all add: allows_low_def)
  have slice: "Bits_Slice (bits_of_nat n v) 0 m = Some (bits_of_nat m (v mod 2 ^ m))" for v
    using Slice_uval [of "bits_of_nat n v" 0 m] mn bits_of_nat_mod [of m "v mod 2 ^ n"] bits_of_nat_mod [of m v]
    by (simp add: mod_mod_cancel le_imp_power_dvd)
  let ?le = "\<exists>y. allows_low t m y \<and> y \<le> h mod 2 ^ m" and ?ge = "\<exists>y. allows_low t m y \<and> l mod 2 ^ m \<le> y"
  have "CoversTernary (iv_of n l h) t = Some (
      if bit h m \<and> \<not> allows_nat ?p q then False
      else if \<not> bit h m \<and> \<not> (ternary_ops_IsFullyKnown ?p \<and> uval (ternary_ops_ToKnownBitsValues ?p) = q) then True
      else if ternary_ops_IsKnown (t ! m) then if (t ! m = kKnownZero) = bit h m then ?ge else ?le
      else ?le \<or> ?ge)"
    using assms(3,5) precise k(2) proper compat known low slice mn
    by (simp add: CoversTernary_def m q_def Let_def)
  also have "\<dots> = Some (\<exists>x \<in> iv_points (iv_of n l h). allows_nat t x)"
    using CoversTernary_parts [OF assms(1-3) mn(1) k(3) [unfolded m] bits] unfolding q_def by simp
  finally show ?thesis .
qed


theorem CoversTernary_iff:
  assumes "iv_wf iv" "length t = iv_width iv"
  shows "CoversTernary iv t = Some (\<exists>x \<in> iv_points iv. allows_nat t x)"
proof -
  define n where "n = iv_width iv"
  have b: "iv_lo iv < 2 ^ n" "iv_hi iv < 2 ^ n" using iv_wf_less [OF assms(1)] by (simp_all add: n_def)
  have iv: "iv_of n (iv_lo iv) (iv_hi iv) = iv" using iv_of_eq [OF assms(1)] by (simp add: n_def)
  consider (known) "ternary_ops_IsFullyKnown t" | (precise) "\<not> ternary_ops_IsFullyKnown t" "iv_lo iv = iv_hi iv"
    | (differ) "\<not> ternary_ops_IsFullyKnown t" "iv_lo iv \<noteq> iv_hi iv" by blast
  then show ?thesis
  proof cases
    case known
    let ?b = "ternary_ops_ToKnownBitsValues t"
    have "bm_wf ?b" "Bits_bit_count ?b = iv_width iv" using assms(2) by (simp_all add: ternary_ops_ToKnownBitsValues_def)
    then show ?thesis using known Covers_iff [OF assms(1), of ?b] known_value [OF known] assms IsPrecise_iff [OF assms(1)]
      by (simp add: CoversTernary_def)
  next
    case precise
    have p: "iv_points iv = {iv_lo iv}" using precise(2) by (simp add: iv_points_def)
    have "bm_wf (iv_lower iv)" using assms(1) by (simp add: iv_wf_def)
    from allows_natI [OF this, of t] show ?thesis using precise assms p IsPrecise_iff [OF assms(1)] by (simp add: CoversTernary_def iv_lo_def)
  next
    case differ
    have "length t = n" using assms(2) by (simp add: n_def)
    from CoversTernary_differ [OF b this differ(2,1)] show ?thesis unfolding iv .
  qed
qed

lemma CoversTernary_set_iff:
  assumes "is_normal n s"
  shows "CoversTernary_set s t = Some (length t = n \<and> (\<exists>x \<in> is_points s. allows_nat t x))"
proof -
  obtain ps where ps: "s = is_of n ps" "bounds_ok n ps" "gapped ps" "is_points s = cov ps" using is_normal_cases [OF assms] .
  have wf: "is_wf n s" using assms by (simp add: is_normal_def)
  show ?thesis
  proof (cases "length t = n")
    case True
    have "any_interval (\<lambda>i. CoversTernary i t) (ivs n ps) = Some (\<exists>iv \<in> set (ivs n ps). \<exists>x \<in> iv_points iv. allows_nat t x)"
      using ivs_wf True by (intro any_interval_eq CoversTernary_iff) auto
    moreover have "(\<exists>iv \<in> set (ivs n ps). \<exists>x \<in> iv_points iv. allows_nat t x) \<longleftrightarrow> (\<exists>x \<in> is_points s. allows_nat t x)"
      using ivs_points [OF ps(2)] ps(4) by blast
    ultimately show ?thesis using True BitCount_is [OF wf] ps(1) by (simp add: CoversTernary_set_def IntervalSet_Intervals_def)
  next
    case False
    then show ?thesis using BitCount_is [OF wf] by (auto simp: CoversTernary_set_def)
  qed
qed

section \<open>One-hot encoding\<close>

lemma one_hot_bits:
  assumes "z \<le> n" "\<And>i. i < n \<Longrightarrow> pos i \<longleftrightarrow> i = z" "none \<longleftrightarrow> z = n" "N = n + 1"
  shows "(replicate N False)[z := True] = map pos [0..<n] @ [none]"
proof (rule nth_equalityI)
  fix i
  assume "i < length ((replicate N False)[z := True])"
  then have i: "i < N" by simp
  then have "(replicate N False)[z := True] ! i \<longleftrightarrow> i = z" by (cases "i = z") simp_all
  moreover have "(map pos [0..<n] @ [none]) ! i \<longleftrightarrow> i = z"
    using assms i by (cases "i < n") (auto simp: nth_append less_Suc_eq)
  ultimately show "(replicate N False)[z := True] ! i = (map pos [0..<n] @ [none]) ! i" by simp
next
  show "length ((replicate N False)[z := True]) = length (map pos [0..<n] @ [none])"
    unfolding length_list_update length_replicate assms(4) by simp
qed

lemma no_bit_set: "True \<notin> set (bm_bits b) \<longleftrightarrow> (\<forall>i < Bits_bit_count b. \<not> Bits_Get b i)"
  by (auto simp: in_set_conv_nth Bits_Get_nth simp del: bm_bits_nth)

lemma OneHotLsbToMsb_bits:
  fixes b :: Bits
  defines "n \<equiv> Bits_bit_count b"
  shows "bm_bits (bits_ops_OneHotLsbToMsb b) = map (\<lambda>i. bm_bits b ! i \<and> (\<forall>j < i. \<not> bm_bits b ! j)) [0..<n] @ [True \<notin> set (bm_bits b)]"
proof -
  let ?z = "Bits_CountTrailingZeros b"
  have z: "?z \<le> n" "\<And>i. i < ?z \<Longrightarrow> \<not> Bits_Get b i" "?z < n \<Longrightarrow> Bits_Get b ?z"
    using first_index_correct [of "\<lambda>i. Bits_Get b i" n] by (auto simp: n_def Bits_CountTrailingZeros_def)
  have get: "bm_bits b ! i = Bits_Get b i" if "i < n" for i using that Bits_Get_nth [of i b] by (simp add: n_def)
  have "(bm_bits b ! i \<and> (\<forall>j < i. \<not> bm_bits b ! j)) \<longleftrightarrow> i = ?z" if "i < n" for i
  proof -
    have "(bm_bits b ! i \<and> (\<forall>j < i. \<not> bm_bits b ! j)) \<longleftrightarrow> Bits_Get b i \<and> (\<forall>j < i. \<not> Bits_Get b j)" using get that less_trans by metis
    also have "\<dots> \<longleftrightarrow> i = ?z" using z that by (metis linorder_neqE_nat less_trans)
    finally show ?thesis .
  qed
  moreover have "True \<notin> set (bm_bits b) \<longleftrightarrow> ?z = n" unfolding no_bit_set using z by (metis n_def le_neq_implies_less)
  ultimately have "(replicate (n + 1) False)[?z := True] = map (\<lambda>i. bm_bits b ! i \<and> (\<forall>j < i. \<not> bm_bits b ! j)) [0..<n] @ [True \<notin> set (bm_bits b)]"
    using z(1) by (intro one_hot_bits) (simp_all only: refl)
  moreover have "?z < n + 1" using z(1) by simp
  ultimately show ?thesis unfolding OneHotLsbToMsb_eq n_def [symmetric] by (simp only: Bits_PowerOfTwo_simps(3))
qed

lemma OneHotMsbToLsb_bits:
  fixes b :: Bits
  defines "n \<equiv> Bits_bit_count b"
  shows "bm_bits (bits_ops_OneHotMsbToLsb b) =
    map (\<lambda>i. bm_bits b ! i \<and> (\<forall>j. i < j \<and> j < n \<longrightarrow> \<not> bm_bits b ! j)) [0..<n] @ [True \<notin> set (bm_bits b)]"
proof -
  define z where "z = (case find (\<lambda>i. Bits_Get b i) (rev [0..<n]) of Some i \<Rightarrow> i | None \<Rightarrow> n)"
  have z: "z \<le> n" "\<And>i. z < i \<and> i < n \<or> z = n \<and> i < n \<Longrightarrow> \<not> Bits_Get b i" "z < n \<Longrightarrow> Bits_Get b z"
  proof (atomize (full), cases "find (\<lambda>i. Bits_Get b i) (rev [0..<n])")
    case None
    then have "z = n" by (simp add: z_def)
    then show "z \<le> n \<and> (\<forall>i. z < i \<and> i < n \<or> z = n \<and> i < n \<longrightarrow> \<not> Bits_Get b i) \<and> (z < n \<longrightarrow> Bits_Get b z)"
      using None [unfolded find_upt_None] by simp
  next
    case (Some k)
    then have "z = k" by (simp add: z_def)
    then show "z \<le> n \<and> (\<forall>i. z < i \<and> i < n \<or> z = n \<and> i < n \<longrightarrow> \<not> Bits_Get b i) \<and> (z < n \<longrightarrow> Bits_Get b z)"
      using find_rev_upt [OF Some] by simp
  qed
  have get: "bm_bits b ! i = Bits_Get b i" if "i < n" for i using that Bits_Get_nth [of i b] by (simp add: n_def)
  have "(bm_bits b ! i \<and> (\<forall>j. i < j \<and> j < n \<longrightarrow> \<not> bm_bits b ! j)) \<longleftrightarrow> i = z" if "i < n" for i
  proof -
    have "(bm_bits b ! i \<and> (\<forall>j. i < j \<and> j < n \<longrightarrow> \<not> bm_bits b ! j)) \<longleftrightarrow> Bits_Get b i \<and> (\<forall>j. i < j \<and> j < n \<longrightarrow> \<not> Bits_Get b j)" using get that by metis
    also have "\<dots> \<longleftrightarrow> i = z" using z that by (metis linorder_neqE_nat le_neq_implies_less)
    finally show ?thesis .
  qed
  moreover have "True \<notin> set (bm_bits b) \<longleftrightarrow> z = n" unfolding no_bit_set using z by (metis n_def le_neq_implies_less)
  ultimately have "(replicate (n + 1) False)[z := True] =
      map (\<lambda>i. bm_bits b ! i \<and> (\<forall>j. i < j \<and> j < n \<longrightarrow> \<not> bm_bits b ! j)) [0..<n] @ [True \<notin> set (bm_bits b)]"
    using z(1) by (intro one_hot_bits) (simp_all only: refl)
  moreover have "bits_ops_OneHotMsbToLsb b = Bits_PowerOfTwo z (n + 1)" unfolding z_def n_def by (simp add: bits_ops_OneHotMsbToLsb_def split: option.split)
  moreover have "z < n + 1" using z(1) by simp
  ultimately show ?thesis by (simp only: Bits_PowerOfTwo_simps(3))
qed

lemma OneHot_sound:
  assumes "is_operand n a"
  shows "\<exists>u. interval_ops_OneHot a d m = Some u \<and> is_operand (n + 1) u \<and>
    covers1 n (n + 1) u a (\<lambda>x. Some (case d of kLsb \<Rightarrow> bits_ops_OneHotLsbToMsb x | kMsb \<Rightarrow> bits_ops_OneHotMsbToLsb x))"
proof -
  let ?f = "\<lambda>x. case d of kLsb \<Rightarrow> bits_ops_OneHotLsbToMsb x | kMsb \<Rightarrow> bits_ops_OneHotMsbToLsb x"
  obtain s where s: "ExtractTernaryVector a = Some s" "length s = n" "\<forall>x. is_member n a x \<longrightarrow> list_all2 may_be s (bm_bits x)"
    using extracted_may_be [OF assms] .
  let ?z = "case d of kLsb \<Rightarrow> AE_OneHotLsbToMsb TernaryEvaluator s | kMsb \<Rightarrow> AE_OneHotMsbToLsb TernaryEvaluator s"
  have mb: "list_all2 may_be ?z (bm_bits (?f x))" if "list_all2 may_be s (bm_bits x)" for x
    using te.OneHotLsbToMsb_R [OF that] te.OneHotMsbToLsb_R [OF that] OneHotLsbToMsb_bits [of x] OneHotMsbToLsb_bits [of x]
    by (cases d) simp_all
  have wf: "bm_wf (?f x) \<and> Bits_bit_count (?f x) = n + 1" if "is_member n a x" for x
  proof -
    have "Bits_CountTrailingZeros x \<le> n" using that CountTrailingZeros_bounds [of x] by (simp add: is_member_def)
    moreover have "bit_length (uval x) - 1 < n + 1"
      using that uval_less [of x] bit_length_le [of "uval x" n] by (simp add: is_member_def)
    ultimately show ?thesis using that by (cases d) (simp_all add: OneHotLsbToMsb_eq OneHotMsbToLsb_eq is_member_def)
  qed
  obtain x0 where x0: "is_member n a x0"
    using is_operand_simps(3) [OF assms] operand_less [OF assms] by (metis ex_in_conv is_member_of_nat)
  then have "list_all2 may_be s (bm_bits x0)" using s(3) by blast
  then have lz: "length ?z = n + 1" using list_all2_lengthD [OF mb [of x0]] wf [OF x0] by simp
  obtain u where u: "FromTernary ?z m = Some u" "is_operand (length ?z) u"
    "\<forall>b. bm_wf b \<longrightarrow> list_all2 may_be ?z (bm_bits b) \<longrightarrow> is_member (length ?z) u b"
    using FromTernary_sound [of ?z m] .
  have "covers1 n (n + 1) u a (\<lambda>x. Some (?f x))"
    using u is_operand_simps(2) [OF u(2)] lz s(3) mb wf unfolding covers1_def by metis
  then show ?thesis using s(1) u(1,2) lz by (simp add: interval_ops_OneHot_def)
qed

end
