(* ===== verification/Decision_Diagram.thy ===== *)
theory Decision_Diagram
  imports Big_Int "HOL-Library.Monad_Syntax"
begin

text \<open>
  Models \<open>xls/data_structures/binary_decision_diagram.{h,cc}\<close>: a store of shared nodes with a table
  of the nodes by content, a table of the if-then-else results computed so far, and the operations of
  the diagram as functions on that store. \<open>None\<close> is a failed \<open>CHECK\<close> or an access by \<open>at\<close> outside
  a container; recursion that would not end is \<open>None\<close> too. Indices are integers (\<open>int32_t\<close> in the
  code, which a store of fewer than \<open>2 ^ 31\<close> nodes does not leave).

  The lemmas show that the operations keep the invariant of an ordered, reduced diagram, always
  return, denote the boolean functions they should and leave the meaning of every older node alone;
  that the diagram is canonical; that the path counts are the numbers of paths, saturated; and that
  evaluation and the printed normal form agree with the denoted function.
\<close>

section \<open>The store and its operations\<close>

type_synonym BddVariable = int
type_synonym BddNodeIndex = int

record BddNode =
  bn_variable :: BddVariable
  bn_high :: BddNodeIndex
  bn_low :: BddNodeIndex
  bn_path_count :: int

type_synonym NodeKey = "BddVariable \<times> BddNodeIndex \<times> BddNodeIndex"
type_synonym IteKey = "BddNodeIndex \<times> BddNodeIndex \<times> BddNodeIndex"

record BinaryDecisionDiagram =
  bdd_next_var :: BddVariable
  bdd_nodes :: "BddNode list"
  bdd_node_map :: "NodeKey \<Rightarrow> BddNodeIndex option"
  bdd_ite_map :: "IteKey \<Rightarrow> BddNodeIndex option"

definition BddNode_new :: "BddVariable \<Rightarrow> BddNodeIndex \<Rightarrow> BddNodeIndex \<Rightarrow> int \<Rightarrow> BddNode" where
  "BddNode_new v h l p = \<lparr>bn_variable = v, bn_high = h, bn_low = l, bn_path_count = p\<rparr>"

definition BinaryDecisionDiagram_new :: BinaryDecisionDiagram where
  "BinaryDecisionDiagram_new =
     \<lparr>bdd_next_var = 0, bdd_nodes = [BddNode_new (-1) (-1) (-1) 1, BddNode_new (-1) (-1) (-1) 1],
      bdd_node_map = Map.empty, bdd_ite_map = Map.empty\<rparr>"

definition Bdd_zero :: BddNodeIndex where
  "Bdd_zero = 0"

definition Bdd_one :: BddNodeIndex where
  "Bdd_one = 1"

definition Bdd_GetNode :: "BinaryDecisionDiagram \<Rightarrow> BddNodeIndex \<Rightarrow> BddNode option" where
  "Bdd_GetNode bdd i = (if 0 \<le> i \<and> nat i < length (bdd_nodes bdd) then Some (bdd_nodes bdd ! nat i) else None)"

definition Bdd_size :: "BinaryDecisionDiagram \<Rightarrow> int" where
  "Bdd_size bdd = int (length (bdd_nodes bdd))"

definition Bdd_variable_count :: "BinaryDecisionDiagram \<Rightarrow> int" where
  "Bdd_variable_count bdd = bdd_next_var bdd"

definition Bdd_path_count :: "BinaryDecisionDiagram \<Rightarrow> BddNodeIndex \<Rightarrow> int option" where
  "Bdd_path_count bdd expr = map_option bn_path_count (Bdd_GetNode bdd expr)"

definition Bdd_IsVariableBaseNode :: "BinaryDecisionDiagram \<Rightarrow> BddNodeIndex \<Rightarrow> bool option" where
  "Bdd_IsVariableBaseNode bdd expr =
     map_option (\<lambda>n. bn_high n = Bdd_one \<and> bn_low n = Bdd_zero) (Bdd_GetNode bdd expr)"

definition Bdd_GetVariableBaseNode :: "BinaryDecisionDiagram \<Rightarrow> BddVariable \<Rightarrow> BddNodeIndex option" where
  "Bdd_GetVariableBaseNode bdd variable = bdd_node_map bdd (variable, Bdd_one, Bdd_zero)"

definition Bdd_GetOrCreateNode ::
    "BinaryDecisionDiagram \<Rightarrow> BddVariable \<Rightarrow> BddNodeIndex \<Rightarrow> BddNodeIndex \<Rightarrow>
     (BddNodeIndex \<times> BinaryDecisionDiagram) option" where
  "Bdd_GetOrCreateNode bdd var high low =
     (case bdd_node_map bdd (var, high, low) of
        Some i \<Rightarrow> Some (i, bdd)
      | None \<Rightarrow>
          if low = high then Some (low, bdd)
          else do {
            l \<leftarrow> Bdd_GetNode bdd low;
            h \<leftarrow> Bdd_GetNode bdd high;
            let paths = min (bn_path_count l + bn_path_count h) (2 ^ 31 - 1);
            let node_index = int (length (bdd_nodes bdd));
            Some (node_index,
                  bdd\<lparr>bdd_nodes := bdd_nodes bdd @ [BddNode_new var high low paths],
                      bdd_node_map := (bdd_node_map bdd)((var, high, low) \<mapsto> node_index)\<rparr>)
          })"

definition Bdd_Restrict :: "BinaryDecisionDiagram \<Rightarrow> BddNodeIndex \<Rightarrow> BddVariable \<Rightarrow> bool \<Rightarrow> BddNodeIndex option" where
  "Bdd_Restrict bdd expr var value =
     (if expr = Bdd_zero \<or> expr = Bdd_one then Some expr
      else do {
        node \<leftarrow> Bdd_GetNode bdd expr;
        if \<not> var \<le> bn_variable node then None
        else Some (if bn_variable node = var then if value then bn_high node else bn_low node else expr)
      })"

text \<open>The least of the variable of the condition and those of the branches that are not leaves.\<close>

definition Bdd_min_var ::
    "BinaryDecisionDiagram \<Rightarrow> BddNodeIndex \<Rightarrow> BddNodeIndex \<Rightarrow> BddNodeIndex \<Rightarrow> BddVariable option" where
  "Bdd_min_var bdd cond if_true if_false = do {
     c \<leftarrow> Bdd_GetNode bdd cond;
     let m = bn_variable c;
     m \<leftarrow> (if if_true \<noteq> Bdd_zero \<and> if_true \<noteq> Bdd_one
           then map_option (\<lambda>n. min m (bn_variable n)) (Bdd_GetNode bdd if_true) else Some m);
     if if_false \<noteq> Bdd_zero \<and> if_false \<noteq> Bdd_one
     then map_option (\<lambda>n. min m (bn_variable n)) (Bdd_GetNode bdd if_false) else Some m
   }"

partial_function (option) Bdd_IfThenElse ::
    "BinaryDecisionDiagram \<Rightarrow> BddNodeIndex \<Rightarrow> BddNodeIndex \<Rightarrow> BddNodeIndex \<Rightarrow>
     (BddNodeIndex \<times> BinaryDecisionDiagram) option" where
  "Bdd_IfThenElse bdd cond if_true if_false =
     (if cond = Bdd_one then Some (if_true, bdd)
      else if cond = Bdd_zero then Some (if_false, bdd)
      else if if_true = Bdd_one \<and> if_false = Bdd_zero then Some (cond, bdd)
      else if if_true = if_false then Some (if_true, bdd)
      else case bdd_ite_map bdd (cond, if_true, if_false) of
        Some expr \<Rightarrow> Some (expr, bdd)
      | None \<Rightarrow> do {
          min_var \<leftarrow> Bdd_min_var bdd cond if_true if_false;
          ct \<leftarrow> Bdd_Restrict bdd cond min_var True;
          tt \<leftarrow> Bdd_Restrict bdd if_true min_var True;
          ft \<leftarrow> Bdd_Restrict bdd if_false min_var True;
          r1 \<leftarrow> Bdd_IfThenElse bdd ct tt ft;
          cf \<leftarrow> Bdd_Restrict (snd r1) cond min_var False;
          tf \<leftarrow> Bdd_Restrict (snd r1) if_true min_var False;
          ff \<leftarrow> Bdd_Restrict (snd r1) if_false min_var False;
          r2 \<leftarrow> Bdd_IfThenElse (snd r1) cf tf ff;
          if fst r1 = fst r2
          then Some (fst r1, (snd r2)\<lparr>bdd_ite_map := (bdd_ite_map (snd r2))((cond, if_true, if_false) \<mapsto> fst r1)\<rparr>)
          else do {
            r3 \<leftarrow> Bdd_GetOrCreateNode (snd r2) min_var (fst r1) (fst r2);
            Some (fst r3, (snd r3)\<lparr>bdd_ite_map := (bdd_ite_map (snd r3))((cond, if_true, if_false) \<mapsto> fst r3)\<rparr>)
          }
        })"

definition Bdd_NewVariable :: "BinaryDecisionDiagram \<Rightarrow> (BddNodeIndex \<times> BinaryDecisionDiagram) option" where
  "Bdd_NewVariable bdd = Bdd_GetOrCreateNode (bdd\<lparr>bdd_next_var := bdd_next_var bdd + 1\<rparr>) (bdd_next_var bdd) Bdd_one Bdd_zero"

definition Bdd_Not :: "BinaryDecisionDiagram \<Rightarrow> BddNodeIndex \<Rightarrow> (BddNodeIndex \<times> BinaryDecisionDiagram) option" where
  "Bdd_Not bdd expr = Bdd_IfThenElse bdd expr Bdd_zero Bdd_one"

definition Bdd_Or :: "BinaryDecisionDiagram \<Rightarrow> BddNodeIndex \<Rightarrow> BddNodeIndex \<Rightarrow> (BddNodeIndex \<times> BinaryDecisionDiagram) option" where
  "Bdd_Or bdd a b = Bdd_IfThenElse bdd a Bdd_one b"

definition Bdd_And :: "BinaryDecisionDiagram \<Rightarrow> BddNodeIndex \<Rightarrow> BddNodeIndex \<Rightarrow> (BddNodeIndex \<times> BinaryDecisionDiagram) option" where
  "Bdd_And bdd a b = Bdd_IfThenElse bdd a b Bdd_zero"

text \<open>The loop of \<open>Evaluate\<close>; the inner result is the status.\<close>

partial_function (option) Evaluate_loop ::
    "BinaryDecisionDiagram \<Rightarrow> (BddNodeIndex \<Rightarrow> bool option) \<Rightarrow> BddNodeIndex \<Rightarrow> (status_code + bool) option" where
  "Evaluate_loop bdd variable_values res =
     (if res \<noteq> Bdd_zero \<and> res \<noteq> Bdd_one then do {
        node \<leftarrow> Bdd_GetNode bdd res;
        var_node \<leftarrow> Bdd_GetVariableBaseNode bdd (bn_variable node);
        case variable_values var_node of
          None \<Rightarrow> Some (Inl InvalidArgument)
        | Some v \<Rightarrow> Evaluate_loop bdd variable_values (if v then bn_high node else bn_low node)
      }
      else Some (Inr (res = Bdd_one)))"

definition Bdd_Evaluate ::
    "BinaryDecisionDiagram \<Rightarrow> BddNodeIndex \<Rightarrow> (BddNodeIndex \<Rightarrow> bool option) \<Rightarrow> (status_code + bool) option" where
  "Bdd_Evaluate bdd expr variable_values = Evaluate_loop bdd variable_values expr"

text \<open>The stack of terms is the same after a call as before it, so the call is given the stack and returns the counter and the text.\<close>

partial_function (option) ToStringDnfHelper ::
    "BinaryDecisionDiagram \<Rightarrow> BddNodeIndex \<Rightarrow> int \<Rightarrow> string list \<Rightarrow> string \<Rightarrow> (int \<times> string) option" where
  "ToStringDnfHelper bdd expr minterms_to_emit terms str =
     (if minterms_to_emit < 0 then Some (minterms_to_emit, str)
      else if expr = Bdd_zero then Some (minterms_to_emit, str)
      else if expr = Bdd_one then
        Some (minterms_to_emit - 1,
              if minterms_to_emit = 0 then str @ '' + ...''
              else if str = [] then str_join ''.'' terms
              else str @ '' + '' @ str_join ''.'' terms)
      else do {
        node \<leftarrow> Bdd_GetNode bdd expr;
        r \<leftarrow> ToStringDnfHelper bdd (bn_high node) minterms_to_emit (terms @ [''x'' @ dec_string (bn_variable node)]) str;
        ToStringDnfHelper bdd (bn_low node) (fst r) (terms @ [''!x'' @ dec_string (bn_variable node)]) (snd r)
      })"

definition Bdd_ToStringDnf :: "BinaryDecisionDiagram \<Rightarrow> BddNodeIndex \<Rightarrow> int \<Rightarrow> string option" where
  "Bdd_ToStringDnf bdd expr minterm_limit =
     (if expr = Bdd_zero then Some ''0''
      else if expr = Bdd_one then Some ''1''
      else map_option snd
             (ToStringDnfHelper bdd expr (if minterm_limit = 0 then 2 ^ 63 - 1 else minterm_limit) [] []))"

section \<open>The invariant and the function a node denotes\<close>

declare Bdd_zero_def [simp] Bdd_one_def [simp]

definition valid :: "BinaryDecisionDiagram \<Rightarrow> BddNodeIndex \<Rightarrow> bool" where
  "valid b i \<longleftrightarrow> 0 \<le> i \<and> i < int (length (bdd_nodes b))"

definition node_at :: "BinaryDecisionDiagram \<Rightarrow> BddNodeIndex \<Rightarrow> BddNode" where
  "node_at b i = bdd_nodes b ! nat i"

text \<open>The variable of a node; leaves come after all variables.\<close>

definition top_var :: "BinaryDecisionDiagram \<Rightarrow> BddNodeIndex \<Rightarrow> BddVariable" where
  "top_var b i = (if i \<le> 1 then bdd_next_var b else bn_variable (node_at b i))"

function bdd_val :: "BinaryDecisionDiagram \<Rightarrow> BddNodeIndex \<Rightarrow> (BddVariable \<Rightarrow> bool) \<Rightarrow> bool" where
  "bdd_val b i env =
     (if i \<le> 1 then i = 1
      else let c = (if env (bn_variable (node_at b i)) then bn_high (node_at b i) else bn_low (node_at b i))
           in if c < i then bdd_val b c env else False)"
  by pat_completeness auto
termination
  by (relation "measure (\<lambda>(b, i, env). nat i)") (auto simp: Let_def split: if_splits)

declare bdd_val.simps [simp del]

definition node_ok :: "BinaryDecisionDiagram \<Rightarrow> BddNodeIndex \<Rightarrow> bool" where
  "node_ok b i \<longleftrightarrow> 0 \<le> bn_high (node_at b i) \<and> bn_high (node_at b i) < i \<and> 0 \<le> bn_low (node_at b i) \<and> bn_low (node_at b i) < i \<and>
     bn_high (node_at b i) \<noteq> bn_low (node_at b i) \<and> 0 \<le> bn_variable (node_at b i) \<and> bn_variable (node_at b i) < bdd_next_var b \<and>
     bn_variable (node_at b i) < top_var b (bn_high (node_at b i)) \<and> bn_variable (node_at b i) < top_var b (bn_low (node_at b i)) \<and>
     bn_path_count (node_at b i) = min (bn_path_count (node_at b (bn_low (node_at b i))) + bn_path_count (node_at b (bn_high (node_at b i)))) (2 ^ 31 - 1)"

definition min_top :: "BinaryDecisionDiagram \<Rightarrow> BddNodeIndex \<Rightarrow> BddNodeIndex \<Rightarrow> BddNodeIndex \<Rightarrow> BddVariable" where
  "min_top b c t f = min (top_var b c) (min (top_var b t) (top_var b f))"

text \<open>An entry of the if-then-else table is right.\<close>

definition ite_entry :: "BinaryDecisionDiagram \<Rightarrow> BddNodeIndex \<Rightarrow> BddNodeIndex \<Rightarrow> BddNodeIndex \<Rightarrow> BddNodeIndex \<Rightarrow> bool" where
  "ite_entry b c t f r \<longleftrightarrow> valid b c \<and> valid b t \<and> valid b f \<and> valid b r \<and> min_top b c t f \<le> top_var b r \<and>
     (\<forall>env. bdd_val b r env = (if bdd_val b c env then bdd_val b t env else bdd_val b f env))"

definition bdd_ok :: "BinaryDecisionDiagram \<Rightarrow> bool" where
  "bdd_ok b \<longleftrightarrow> 2 \<le> length (bdd_nodes b) \<and> 0 \<le> bdd_next_var b \<and>
     (\<forall>i \<in> {0, 1}. node_at b i = BddNode_new (-1) (-1) (-1) 1) \<and>
     (\<forall>i. 2 \<le> i \<and> valid b i \<longrightarrow> node_ok b i) \<and>
     (\<forall>v h l i. bdd_node_map b (v, h, l) = Some i \<longleftrightarrow>
        2 \<le> i \<and> valid b i \<and> bn_variable (node_at b i) = v \<and> bn_high (node_at b i) = h \<and> bn_low (node_at b i) = l) \<and>
     (\<forall>c t f r. bdd_ite_map b (c, t, f) = Some r \<longrightarrow> ite_entry b c t f r)"

definition bases :: "BinaryDecisionDiagram \<Rightarrow> bool" where
  "bases b \<longleftrightarrow> (\<forall>v. 0 \<le> v \<and> v < bdd_next_var b \<longrightarrow> bdd_node_map b (v, 1, 0) \<noteq> None)"

definition bdd_inv :: "BinaryDecisionDiagram \<Rightarrow> bool" where
  "bdd_inv b \<longleftrightarrow> bdd_ok b \<and> bases b"

text \<open>A later state of the store: the nodes so far are still there.\<close>

definition extends :: "BinaryDecisionDiagram \<Rightarrow> BinaryDecisionDiagram \<Rightarrow> bool" where
  "extends b b' \<longleftrightarrow> (\<exists>xs. bdd_nodes b' = bdd_nodes b @ xs) \<and> bdd_next_var b \<le> bdd_next_var b' \<and> bdd_node_map b \<subseteq>\<^sub>m bdd_node_map b'"

lemma val_leaf [simp]: "bdd_val b 0 env = False" "bdd_val b 1 env = True"
  by (simp_all add: bdd_val.simps)

lemma ok_node: "bdd_ok b \<Longrightarrow> 2 \<le> i \<Longrightarrow> valid b i \<Longrightarrow> node_ok b i"
  by (simp add: bdd_ok_def)

lemma ok_leaf [simp]: "bdd_ok b \<Longrightarrow> valid b 0" "bdd_ok b \<Longrightarrow> valid b 1"
  using length_greater_0_conv [of "bdd_nodes b"] by (auto simp: bdd_ok_def valid_def simp del: length_greater_0_conv)

lemma val_node:
  assumes "bdd_ok b" "2 \<le> i" "valid b i"
  shows "bdd_val b i env = bdd_val b (if env (bn_variable (node_at b i)) then bn_high (node_at b i) else bn_low (node_at b i)) env"
  using ok_node [OF assms] assms(2) by (simp add: bdd_val.simps [of b i] node_ok_def Let_def)

lemma ok_children:
  assumes "bdd_ok b" "2 \<le> i" "valid b i"
  shows "valid b (bn_high (node_at b i))" "valid b (bn_low (node_at b i))"
  using ok_node [OF assms] assms(3) by (auto simp: node_ok_def valid_def)

lemma GetNode_valid: "valid b i \<Longrightarrow> Bdd_GetNode b i = Some (node_at b i)"
  by (auto simp: Bdd_GetNode_def valid_def node_at_def nat_less_iff)

text \<open>Induction over the nodes below a node.\<close>

lemma node_induct [consumes 2, case_names zero one node]:
  assumes "bdd_ok b" "valid b i" "P 0" "P 1"
    and "\<And>i. 2 \<le> i \<Longrightarrow> valid b i \<Longrightarrow> P (bn_high (node_at b i)) \<Longrightarrow> P (bn_low (node_at b i)) \<Longrightarrow> P i"
  shows "P i"
  using assms(2)
proof (induction "nat i" arbitrary: i rule: less_induct)
  case less
  have "i = 0 \<or> i = 1 \<or> 2 \<le> i" using less.prems by (auto simp: valid_def)
  then show ?case
  proof (elim disjE)
    assume i: "2 \<le> i"
    note c = ok_children [OF assms(1) i less.prems]
    have "nat (bn_high (node_at b i)) < nat i" "nat (bn_low (node_at b i)) < nat i"
      using ok_node [OF assms(1) i less.prems] by (auto simp: node_ok_def)
    then show ?thesis using less.hyps c assms(5) [OF i less.prems] by blast
  qed (simp_all add: assms(3,4))
qed

lemma top_range:
  assumes "bdd_ok b" "valid b i"
  shows "0 \<le> top_var b i" "top_var b i \<le> bdd_next_var b" "2 \<le> i \<Longrightarrow> top_var b i = bn_variable (node_at b i) \<and> top_var b i < bdd_next_var b"
  using ok_node [OF assms(1) _ assms(2)] assms(1) by (auto simp: top_var_def node_ok_def bdd_ok_def)

text \<open>A node does not depend on variables before its own.\<close>

lemma val_cong:
  assumes "bdd_ok b" "valid b i" "\<And>v. top_var b i \<le> v \<Longrightarrow> env v = env' v"
  shows "bdd_val b i env = bdd_val b i env'"
  using assms
proof (induction rule: node_induct)
  case (node i)
  have t: "top_var b i = bn_variable (node_at b i)" using top_range(3) [OF assms(1) node(2,1)] by simp
  have "top_var b i < top_var b (bn_high (node_at b i))" "top_var b i < top_var b (bn_low (node_at b i))" using ok_node [OF assms(1) node(1,2)] t by (simp_all add: node_ok_def)
  then have "bdd_val b (bn_high (node_at b i)) env = bdd_val b (bn_high (node_at b i)) env'" "bdd_val b (bn_low (node_at b i)) env = bdd_val b (bn_low (node_at b i)) env'"
    using node(3,4) node.prems by simp_all
  then show ?case using node.prems [of "bn_variable (node_at b i)"] t unfolding val_node [OF assms(1) node(1,2)] by simp
qed simp_all

section \<open>The operations keep the invariant and denote what they should\<close>

lemma extends_refl [simp]: "extends b b"
  by (simp add: extends_def)

lemma extends_trans: "extends a b \<Longrightarrow> extends b c \<Longrightarrow> extends a c"
  unfolding extends_def using map_le_trans by fastforce

lemma extends_node:
  assumes "extends b b'" "valid b i"
  shows "valid b' i" "node_at b' i = node_at b i" "2 \<le> i \<Longrightarrow> top_var b' i = top_var b i"
    "bdd_next_var b' = bdd_next_var b \<Longrightarrow> top_var b' i = top_var b i" "top_var b i \<le> top_var b' i"
proof -
  show "valid b' i" using assms by (auto simp: extends_def valid_def)
  show n: "node_at b' i = node_at b i" using assms by (auto simp: extends_def valid_def node_at_def nth_append nat_less_iff)
  show "2 \<le> i \<Longrightarrow> top_var b' i = top_var b i" using n by (simp add: top_var_def)
  show "bdd_next_var b' = bdd_next_var b \<Longrightarrow> top_var b' i = top_var b i" "top_var b i \<le> top_var b' i"
    using n assms(1) by (simp_all add: top_var_def extends_def)
qed

lemma extends_val:
  assumes "extends b b'" "bdd_ok b" "valid b i"
  shows "bdd_val b' i env = bdd_val b i env"
  using assms(2,3)
proof (induction rule: node_induct)
  case (node i)
  have "node_at b' i = node_at b i" using extends_node(2) [OF assms(1) node(2)] .
  then show ?case using node ok_node [OF assms(2) node(1,2)]
    by (simp add: bdd_val.simps [of b i] bdd_val.simps [of b' i] Let_def)
qed simp_all

text \<open>The if-then-else table does not matter to the meaning of the nodes.\<close>

lemma table_irrelevant [simp]:
  "valid (b\<lparr>bdd_ite_map := m\<rparr>) i = valid b i" "node_at (b\<lparr>bdd_ite_map := m\<rparr>) i = node_at b i"
  "top_var (b\<lparr>bdd_ite_map := m\<rparr>) i = top_var b i" "node_ok (b\<lparr>bdd_ite_map := m\<rparr>) i = node_ok b i"
  "min_top (b\<lparr>bdd_ite_map := m\<rparr>) c t f = min_top b c t f" "extends b (b\<lparr>bdd_ite_map := m\<rparr>)"
  by (simp_all add: valid_def node_at_def top_var_def node_ok_def min_top_def extends_def)

lemma table_val [simp]: "bdd_val (b\<lparr>bdd_ite_map := m\<rparr>) i env = bdd_val b i env"
proof (induction b i env rule: bdd_val.induct)
  case (1 b i env)
  then show ?case by (subst (1 2) bdd_val.simps) (auto simp: Let_def)
qed

lemma table_entry [simp]: "ite_entry (b\<lparr>bdd_ite_map := m\<rparr>) c t f r = ite_entry b c t f r"
  by (simp add: ite_entry_def)

lemma remember_ok:
  assumes "bdd_ok b" "ite_entry b c t f r"
  shows "bdd_ok (b\<lparr>bdd_ite_map := (bdd_ite_map b)((c, t, f) \<mapsto> r)\<rparr>)"
  using assms by (simp add: bdd_ok_def)

text \<open>A store with one more node, whose content is new.\<close>

definition new_node :: "BinaryDecisionDiagram \<Rightarrow> BddVariable \<Rightarrow> BddNodeIndex \<Rightarrow> BddNodeIndex \<Rightarrow> BinaryDecisionDiagram" where
  "new_node b v h l =
     b\<lparr>bdd_nodes := bdd_nodes b @ [BddNode_new v h l (min (bn_path_count (node_at b l) + bn_path_count (node_at b h)) (2 ^ 31 - 1))],
       bdd_node_map := (bdd_node_map b)((v, h, l) \<mapsto> int (length (bdd_nodes b)))\<rparr>"

lemma new_node_fields [simp]:
  "bdd_next_var (new_node b v h l) = bdd_next_var b" "bdd_ite_map (new_node b v h l) = bdd_ite_map b"
  "bdd_node_map (new_node b v h l) = (bdd_node_map b)((v, h, l) \<mapsto> int (length (bdd_nodes b)))"
  "valid (new_node b v h l) i \<longleftrightarrow> valid b i \<or> i = int (length (bdd_nodes b))"
  "node_at (new_node b v h l) (int (length (bdd_nodes b))) =
     BddNode_new v h l (min (bn_path_count (node_at b l) + bn_path_count (node_at b h)) (2 ^ 31 - 1))"
  by (auto simp: new_node_def valid_def node_at_def)

lemma new_node_extends: "bdd_node_map b (v, h, l) = None \<Longrightarrow> extends b (new_node b v h l)"
  by (auto simp: extends_def map_le_def new_node_def)

lemma new_node_old:
  assumes "bdd_ok b" "bdd_node_map b (v, h, l) = None" "valid b i"
  shows "node_at (new_node b v h l) i = node_at b i" "top_var (new_node b v h l) i = top_var b i" "bdd_val (new_node b v h l) i env = bdd_val b i env"
  using extends_node [OF new_node_extends [OF assms(2)] assms(3)] extends_val [OF new_node_extends [OF assms(2)] assms(1,3)] by simp_all

lemma ok_key:
  assumes "bdd_ok b"
  shows "bdd_node_map b (v, h, l) = Some i \<longleftrightarrow>
    2 \<le> i \<and> valid b i \<and> bn_variable (node_at b i) = v \<and> bn_high (node_at b i) = h \<and> bn_low (node_at b i) = l"
  using assms by (simp add: bdd_ok_def)

lemma new_node_key:
  assumes "bdd_ok b" "bdd_node_map b (v, h, l) = None"
  shows "bdd_node_map (new_node b v h l) (v', h', l') = Some i \<longleftrightarrow>
    2 \<le> i \<and> valid (new_node b v h l) i \<and> bn_variable (node_at (new_node b v h l) i) = v' \<and>
    bn_high (node_at (new_node b v h l) i) = h' \<and> bn_low (node_at (new_node b v h l) i) = l'"
proof (cases "i = int (length (bdd_nodes b))")
  case True
  moreover have "2 \<le> int (length (bdd_nodes b))" "\<not> valid b (int (length (bdd_nodes b)))" using assms(1) by (simp_all add: bdd_ok_def valid_def)
  moreover have "bdd_node_map b (v', h', l') \<noteq> Some (int (length (bdd_nodes b)))" using ok_key [OF assms(1)] calculation(3) by simp
  ultimately show ?thesis by (auto simp: BddNode_new_def)
next
  case False
  then show ?thesis using ok_key [OF assms(1), of v' h' l' i] ok_key [OF assms(1), of v h l i] assms(2) new_node_old(1) [OF assms, of i]
    by (cases "(v', h', l') = (v, h, l)") auto
qed

lemma new_node_ok:
  assumes "bdd_ok b" "valid b h" "valid b l" "0 \<le> v" "v < bdd_next_var b" "v < top_var b h" "v < top_var b l"
    and "bdd_node_map b (v, h, l) = None" "l \<noteq> h"
  shows "bdd_ok (new_node b v h l)"
proof -
  note old = new_node_old [OF assms(1,8)]
  have hl: "0 \<le> h" "h < int (length (bdd_nodes b))" "0 \<le> l" "l < int (length (bdd_nodes b))" using assms(2,3) by (auto simp: valid_def)
  have nodes: "node_ok (new_node b v h l) i" if "2 \<le> i" "valid (new_node b v h l) i" for i
  proof (cases "i = int (length (bdd_nodes b))")
    case True
    then show ?thesis using hl assms(4-7,9) old [OF assms(2)] old [OF assms(3)] by (simp add: node_ok_def BddNode_new_def)
  next
    case False
    then have i: "valid b i" using that by simp
    note c = ok_children [OF assms(1) that(1) i]
    show ?thesis using ok_node [OF assms(1) that(1) i] old [OF i] old [OF c(1)] old [OF c(2)] by (simp add: node_ok_def)
  qed
  have table: "ite_entry (new_node b v h l) c t f r" if "bdd_ite_map b (c, t, f) = Some r" for c t f r
  proof -
    have m: "ite_entry b c t f r" using that assms(1) by (simp add: bdd_ok_def)
    then have v: "valid b c" "valid b t" "valid b f" "valid b r" by (simp_all add: ite_entry_def)
    show ?thesis using m old [OF v(1)] old [OF v(2)] old [OF v(3)] old [OF v(4)] by (simp add: ite_entry_def min_top_def)
  qed
  have len: "2 \<le> length (bdd_nodes (new_node b v h l))" using assms(1) by (simp add: bdd_ok_def new_node_def)
  have leaves: "\<forall>i \<in> {0, 1}. node_at (new_node b v h l) i = BddNode_new (-1) (-1) (-1) 1"
    using assms(1) old(1) ok_leaf [OF assms(1)] by (auto simp: bdd_ok_def)
  have vars: "0 \<le> bdd_next_var (new_node b v h l)" using assms(1) by (simp add: bdd_ok_def)
  have table': "ite_entry (new_node b v h l) c t f r" if "bdd_ite_map (new_node b v h l) (c, t, f) = Some r" for c t f r
    using table that by simp
  show ?thesis unfolding bdd_ok_def by (intro conjI allI impI new_node_key [OF assms(1,8)] len vars leaves) (blast intro: nodes table')+
qed

lemma new_node_val:
  assumes "bdd_ok b" "valid b h" "valid b l" "bdd_node_map b (v, h, l) = None"
  shows "bdd_val (new_node b v h l) (int (length (bdd_nodes b))) env = (if env v then bdd_val b h env else bdd_val b l env)"
    and "top_var (new_node b v h l) (int (length (bdd_nodes b))) = v"
proof -
  have n: "\<not> int (length (bdd_nodes b)) \<le> 1" using assms(1) by (simp add: bdd_ok_def)
  have hl: "h < int (length (bdd_nodes b))" "l < int (length (bdd_nodes b))" using assms(2,3) by (auto simp: valid_def)
  show "bdd_val (new_node b v h l) (int (length (bdd_nodes b))) env = (if env v then bdd_val b h env else bdd_val b l env)"
    using hl new_node_old(3) [OF assms(1,4,2), of env] new_node_old(3) [OF assms(1,4,3), of env] n
    by (subst bdd_val.simps) (simp add: BddNode_new_def Let_def)
  show "top_var (new_node b v h l) (int (length (bdd_nodes b))) = v" using n by (simp add: top_var_def BddNode_new_def)
qed

lemma GetOrCreateNode_ok:
  assumes "bdd_ok b" "valid b h" "valid b l" "0 \<le> v" "v < bdd_next_var b" "v < top_var b h" "v < top_var b l"
  shows "\<exists>r b'. Bdd_GetOrCreateNode b v h l = Some (r, b') \<and> bdd_ok b' \<and> extends b b' \<and> bdd_next_var b' = bdd_next_var b \<and>
    valid b' r \<and> v \<le> top_var b' r \<and> (\<forall>env. bdd_val b' r env = (if env v then bdd_val b h env else bdd_val b l env)) \<and>
    (h \<noteq> l \<longrightarrow> bdd_node_map b' (v, h, l) = Some r)"
proof (cases "bdd_node_map b (v, h, l)")
  case (Some i)
  then have i: "2 \<le> i" "valid b i" "bn_variable (node_at b i) = v" "bn_high (node_at b i) = h" "bn_low (node_at b i) = l"
    using ok_key [OF assms(1)] by simp_all
  have "top_var b i = v" using top_range(3) [OF assms(1) i(2,1)] i(3) by simp
  then show ?thesis using Some assms(1) i val_node [OF assms(1) i(1,2)] by (auto simp: Bdd_GetOrCreateNode_def)
next
  case new: None
  show ?thesis
  proof (cases "l = h")
    case True
    then show ?thesis using new assms by (auto simp: Bdd_GetOrCreateNode_def)
  next
    case False
    have e: "Bdd_GetOrCreateNode b v h l = Some (int (length (bdd_nodes b)), new_node b v h l)"
      using new False assms(2,3) by (simp add: Bdd_GetOrCreateNode_def GetNode_valid Let_def new_node_def)
    show ?thesis unfolding e using new_node_ok [OF assms new False] new_node_extends [OF new] new_node_val [OF assms(1-3) new] by simp
  qed
qed

text \<open>Restriction to a value of a variable that comes no later than the one of the node.\<close>

definition cofactor :: "BinaryDecisionDiagram \<Rightarrow> BddNodeIndex \<Rightarrow> BddVariable \<Rightarrow> bool \<Rightarrow> BddNodeIndex" where
  "cofactor b e m v = (if top_var b e = m \<and> 2 \<le> e then if v then bn_high (node_at b e) else bn_low (node_at b e) else e)"

lemma index_cases:
  assumes "valid b i"
  obtains "i = 0" | "i = 1" | "2 \<le> i"
  using assms by (force simp: valid_def)

lemma Restrict_cofactor:
  assumes "bdd_ok b" "valid b e" "m \<le> top_var b e"
  shows "Bdd_Restrict b e m v = Some (cofactor b e m v)"
  using assms(2)
proof (cases rule: index_cases)
  case 3
  then show ?thesis using assms top_range(3) [OF assms(1,2)] by (simp add: Bdd_Restrict_def cofactor_def GetNode_valid)
qed (simp_all add: Bdd_Restrict_def cofactor_def)

lemma cofactor_ok:
  assumes "bdd_ok b" "valid b e" "m \<le> top_var b e" "m < bdd_next_var b"
  shows "valid b (cofactor b e m v)" "m < top_var b (cofactor b e m v)" "bdd_val b (cofactor b e m v) env = bdd_val b e (env(m := v))"
proof -
  have "valid b (cofactor b e m v) \<and> m < top_var b (cofactor b e m v) \<and> bdd_val b (cofactor b e m v) env = bdd_val b e (env(m := v))"
  proof (cases "top_var b e = m \<and> 2 \<le> e")
    case True
    then have n: "node_ok b e" "bn_variable (node_at b e) = m" using ok_node [OF assms(1) _ assms(2)] top_range(3) [OF assms(1,2)] by auto
    note c = ok_children [OF assms(1) _ assms(2)]
    have t: "m < top_var b (cofactor b e m v)" "valid b (cofactor b e m v)" using True n c by (auto simp: cofactor_def node_ok_def)
    have "bdd_val b e (env(m := v)) = bdd_val b (cofactor b e m v) (env(m := v))"
      using val_node [OF assms(1) _ assms(2), of "env(m := v)"] True n(2) by (simp add: cofactor_def)
    then show ?thesis using t val_cong [OF assms(1) t(2), of "env(m := v)" env] by auto
  next
    case False
    have "m < top_var b e" using False assms by (cases "2 \<le> e") (auto simp: top_var_def)
    then show ?thesis using False assms val_cong [OF assms(1,2), of "env(m := v)" env] by (auto simp: cofactor_def)
  qed
  then show "valid b (cofactor b e m v)" "m < top_var b (cofactor b e m v)" "bdd_val b (cofactor b e m v) env = bdd_val b e (env(m := v))"
    by simp_all
qed

lemma cofactor_extends:
  assumes "extends b b'" "bdd_next_var b' = bdd_next_var b" "valid b e"
  shows "cofactor b' e m v = cofactor b e m v"
  using extends_node [OF assms(1,3)] assms(2) by (simp add: cofactor_def)

lemma min_var_ok:
  assumes "bdd_ok b" "valid b c" "valid b t" "valid b f" "2 \<le> c"
  shows "Bdd_min_var b c t f = Some (min_top b c t f)"
proof -
  have c: "top_var b c = bn_variable (node_at b c)" "top_var b c < bdd_next_var b" using top_range(3) [OF assms(1,2)] assms(5) by simp_all
  have t: "e = 0 \<or> e = 1 \<Longrightarrow> top_var b e = bdd_next_var b" "e \<noteq> 0 \<Longrightarrow> e \<noteq> 1 \<Longrightarrow> valid b e \<Longrightarrow> top_var b e = bn_variable (node_at b e)" for e
    by (auto simp: top_var_def valid_def)
  show ?thesis using c t [of t] t [of f] assms(2-4)
    by (simp add: Bdd_min_var_def GetNode_valid min_top_def min.assoc Let_def) (simp add: min_def)
qed

lemma min_top_range:
  assumes "bdd_ok b" "valid b c" "valid b t" "valid b f" "2 \<le> c"
  shows "0 \<le> min_top b c t f" "min_top b c t f < bdd_next_var b"
  using top_range(3) [OF assms(1,2,5)] top_range(1) [OF assms(1,2)] top_range(1) [OF assms(1,3)] top_range(1) [OF assms(1,4)]
  by (auto simp: min_top_def)

lemma shannon:
  assumes "\<And>env. x env = (if env m then g (env(m := True)) else g (env(m := False)))"
  shows "x env = g env"
  using fun_upd_triv [of env m] assms [of env] by (cases "env m") simp_all

text \<open>What \<open>IfThenElse\<close> promises about its answer \<open>r\<close> and the store \<open>b'\<close> it leaves.\<close>

definition ite_post ::
    "BinaryDecisionDiagram \<Rightarrow> BddNodeIndex \<Rightarrow> BddNodeIndex \<Rightarrow> BddNodeIndex \<Rightarrow> BddNodeIndex \<Rightarrow> BinaryDecisionDiagram \<Rightarrow> bool" where
  "ite_post b c t f r b' \<longleftrightarrow> bdd_ok b' \<and> extends b b' \<and> bdd_next_var b' = bdd_next_var b \<and> valid b' r \<and>
     min_top b c t f \<le> top_var b' r \<and>
     (\<forall>env. bdd_val b' r env = (if bdd_val b c env then bdd_val b t env else bdd_val b f env))"

lemma ite_postD:
  assumes "ite_post b c t f r b'"
  shows "bdd_ok b'" "extends b b'" "bdd_next_var b' = bdd_next_var b" "valid b' r" "min_top b c t f \<le> top_var b' r"
    "bdd_val b' r env = (if bdd_val b c env then bdd_val b t env else bdd_val b f env)"
  using assms by (simp_all add: ite_post_def)

lemma ite_post_entry:
  assumes "bdd_ok b" "valid b c" "valid b t" "valid b f" "ite_post b c t f r b'"
  shows "ite_entry b' c t f r" "ite_post b c t f r (b'\<lparr>bdd_ite_map := (bdd_ite_map b')((c, t, f) \<mapsto> r)\<rparr>)"
proof -
  note p = ite_postD [OF assms(5)]
  note e = extends_node [OF p(2)]
  have m: "min_top b' c t f = min_top b c t f" using e(4) [OF _ p(3)] assms(2-4) by (simp add: min_top_def)
  show ent: "ite_entry b' c t f r"
    using p m e(1) assms(2-4) extends_val [OF p(2) assms(1)] by (simp add: ite_entry_def)
  show "ite_post b c t f r (b'\<lparr>bdd_ite_map := (bdd_ite_map b')((c, t, f) \<mapsto> r)\<rparr>)"
    using p remember_ok [OF p(1) ent] extends_trans [OF p(2) table_irrelevant(6)] by (simp add: ite_post_def)
qed

lemma min_top_le: "min_top b c t f \<le> top_var b c" "min_top b c t f \<le> top_var b t" "min_top b c t f \<le> top_var b f"
  by (simp_all add: min_top_def)

lemma cofactors_above:
  assumes "bdd_ok b" "valid b c" "valid b t" "valid b f" "2 \<le> c"
  shows "min_top b c t f < min_top b (cofactor b c (min_top b c t f) v) (cofactor b t (min_top b c t f) v) (cofactor b f (min_top b c t f) v)"
  using cofactor_ok(2) [OF assms(1,2) min_top_le(1) min_top_range(2) [OF assms]] cofactor_ok(2) [OF assms(1,3) min_top_le(2) min_top_range(2) [OF assms]]
    cofactor_ok(2) [OF assms(1,4) min_top_le(3) min_top_range(2) [OF assms]]
  by (simp add: min_top_def [of b "cofactor b c (min_top b c t f) v"])

text \<open>The two recursive calls of the Shannon expansion, and the node made of their answers.\<close>

lemma shannon_step:
  fixes b c t f v
  defines "m \<equiv> min_top b c t f"
  assumes "bdd_ok b" "valid b c" "valid b t" "valid b f" "2 \<le> c"
    and p1: "ite_post b (cofactor b c m True) (cofactor b t m True) (cofactor b f m True) r1 b1"
    and p2: "ite_post b1 (cofactor b c m False) (cofactor b t m False) (cofactor b f m False) r2 b2"
  shows "\<exists>r b'. (if r1 = r2 then Some (r1, b2) else Bdd_GetOrCreateNode b2 m r1 r2) = Some (r, b') \<and> ite_post b c t f r b'"
proof -
  note ok = assms(2-6)
  have m: "0 \<le> m" "m < bdd_next_var b" using min_top_range [OF ok] by (simp_all add: m_def)
  have le: "m \<le> top_var b c" "m \<le> top_var b t" "m \<le> top_var b f" using min_top_le by (simp_all add: m_def)
  note cc = cofactor_ok [OF ok(1,2) le(1) m(2)] and ct = cofactor_ok [OF ok(1,3) le(2) m(2)] and cf = cofactor_ok [OF ok(1,4) le(3) m(2)]
  note q1 = ite_postD [OF p1] and q2 = ite_postD [OF p2]
  note e12 = extends_trans [OF q1(2) q2(2)]
  have nx: "bdd_next_var b2 = bdd_next_var b" "bdd_next_var b1 = bdd_next_var b" using q1(3) q2(3) by simp_all
  let ?ite = "\<lambda>env. if bdd_val b c env then bdd_val b t env else bdd_val b f env"
  have v1: "bdd_val b2 r1 env = ?ite (env(m := True))" for env
    using extends_val [OF q2(2) q1(1) q1(4)] q1(6) cc(3) ct(3) cf(3) by simp
  have v2: "bdd_val b2 r2 env = ?ite (env(m := False))" for env
    using q2(6) [of env] extends_val [OF q1(2) ok(1)] cc(1,3) ct(1,3) cf(1,3) by simp
  have t1: "m < top_var b2 r1" "valid b2 r1"
    using cofactors_above [OF ok, of True] q1(5) extends_node(1,4) [OF q2(2) q1(4)] q2(3) by (simp_all add: m_def)
  have "min_top b1 (cofactor b c m False) (cofactor b t m False) (cofactor b f m False) = min_top b (cofactor b c m False) (cofactor b t m False) (cofactor b f m False)"
    using extends_node(4) [OF q1(2) _ q1(3)] cc(1) ct(1) cf(1) by (simp add: min_top_def)
  then have t2: "m < top_var b2 r2" "valid b2 r2" using cofactors_above [OF ok, of False] q2(4,5) by (simp_all add: m_def)
  show ?thesis
  proof (cases "r1 = r2")
    case True
    have "bdd_val b2 r1 env = ?ite env" for env
      by (rule shannon [of _ m ?ite]) (use v1 v2 True in auto)
    then have "ite_post b c t f r1 b2" using q2(1) e12 nx t1 by (simp add: ite_post_def m_def)
    then show ?thesis using True by auto
  next
    case False
    obtain r b' where g: "Bdd_GetOrCreateNode b2 m r1 r2 = Some (r, b')" "bdd_ok b'" "extends b2 b'" "bdd_next_var b' = bdd_next_var b2"
      "valid b' r" "m \<le> top_var b' r" "\<forall>env. bdd_val b' r env = (if env m then bdd_val b2 r1 env else bdd_val b2 r2 env)"
      using GetOrCreateNode_ok [OF q2(1) t1(2) t2(2) m(1) _ t1(1) t2(1)] m(2) nx by auto
    have "bdd_val b' r env = ?ite env" for env
      by (rule shannon [of _ m ?ite]) (use g(7) v1 v2 in auto)
    then have "ite_post b c t f r b'" using g(2-6) extends_trans [OF e12] nx by (simp add: ite_post_def m_def)
    then show ?thesis using False g(1) by auto
  qed
qed

theorem IfThenElse_ok:
  assumes "bdd_ok b" "valid b c" "valid b t" "valid b f"
  shows "\<exists>r b'. Bdd_IfThenElse b c t f = Some (r, b') \<and> ite_post b c t f r b'"
  using assms
proof (induction "nat (bdd_next_var b - min_top b c t f)" arbitrary: b c t f rule: less_induct)
  case less
  note ok = less.prems
  let ?m = "min_top b c t f"
  consider "c = 1" | "c = 0" | "c \<noteq> 0" "c \<noteq> 1" "t = 1 \<and> f = 0" | "c \<noteq> 0" "c \<noteq> 1" "\<not> (t = 1 \<and> f = 0)" "t = f"
    | r where "c \<noteq> 0" "c \<noteq> 1" "\<not> (t = 1 \<and> f = 0)" "t \<noteq> f" "bdd_ite_map b (c, t, f) = Some r"
    | "2 \<le> c" "\<not> (t = 1 \<and> f = 0)" "t \<noteq> f" "bdd_ite_map b (c, t, f) = None"
    using ok(2) by (cases "bdd_ite_map b (c, t, f)"; cases rule: index_cases) auto
  then show ?case
  proof cases
    case (5 r)
    then have "ite_entry b c t f r" using ok(1) by (simp add: bdd_ok_def)
    then have p: "ite_post b c t f r b" using ok(1) by (simp add: ite_post_def ite_entry_def)
    have "Bdd_IfThenElse b c t f = Some (r, b)" using 5 by (subst Bdd_IfThenElse.simps) auto
    then show ?thesis using p by blast
  next
    case 6
    note le = min_top_le [of b c t f] and lt = min_top_range [OF ok 6(1)]
    note cc = cofactor_ok(1) [OF ok(1,2) le(1) lt(2)] and ct = cofactor_ok(1) [OF ok(1,3) le(2) lt(2)] and cf = cofactor_ok(1) [OF ok(1,4) le(3) lt(2)]
    have dec: "nat (bdd_next_var b - min_top b (cofactor b c ?m v) (cofactor b t ?m v) (cofactor b f ?m v)) < nat (bdd_next_var b - ?m)" for v
      using cofactors_above [OF ok 6(1), of v] lt(2) by simp
    obtain r1 b1 where 1: "Bdd_IfThenElse b (cofactor b c ?m True) (cofactor b t ?m True) (cofactor b f ?m True) = Some (r1, b1)"
      "ite_post b (cofactor b c ?m True) (cofactor b t ?m True) (cofactor b f ?m True) r1 b1"
      using less.hyps [OF dec ok(1) cc ct cf] by blast
    note q1 = ite_postD [OF 1(2)]
    note x = extends_node [OF q1(2)]
    have mt: "min_top b1 i j k = min_top b i j k" if "valid b i" "valid b j" "valid b k" for i j k
      using x(4) [OF _ q1(3)] that by (simp add: min_top_def)
    have dec2: "nat (bdd_next_var b1 - min_top b1 (cofactor b c ?m False) (cofactor b t ?m False) (cofactor b f ?m False)) < nat (bdd_next_var b - ?m)"
      using dec [of False] q1(3) mt [OF cc ct cf] by simp
    obtain r2 b2 where 2: "Bdd_IfThenElse b1 (cofactor b c ?m False) (cofactor b t ?m False) (cofactor b f ?m False) = Some (r2, b2)"
      "ite_post b1 (cofactor b c ?m False) (cofactor b t ?m False) (cofactor b f ?m False) r2 b2"
      using less.hyps [OF dec2 q1(1) x(1) [OF cc] x(1) [OF ct] x(1) [OF cf]] by blast
    obtain r b' where 3: "(if r1 = r2 then Some (r1, b2) else Bdd_GetOrCreateNode b2 ?m r1 r2) = Some (r, b')" "ite_post b c t f r b'"
      using shannon_step [OF ok 6(1) 1(2) 2(2)] by blast
    have le1: "?m \<le> top_var b1 c" "?m \<le> top_var b1 t" "?m \<le> top_var b1 f" using le x(4) [OF _ q1(3)] ok by simp_all
    have "Bdd_IfThenElse b c t f = Some (r, b'\<lparr>bdd_ite_map := (bdd_ite_map b')((c, t, f) \<mapsto> r)\<rparr>)"
      using 6 3(1) min_var_ok [OF ok 6(1)] 1(1) 2(1) Restrict_cofactor [OF ok(1,2) le(1)] Restrict_cofactor [OF ok(1,3) le(2)] Restrict_cofactor [OF ok(1,4) le(3)]
        Restrict_cofactor [OF q1(1) x(1) [OF ok(2)] le1(1)] Restrict_cofactor [OF q1(1) x(1) [OF ok(3)] le1(2)] Restrict_cofactor [OF q1(1) x(1) [OF ok(4)] le1(3)]
        cofactor_extends [OF q1(2,3)] ok(2-4)
      by (subst Bdd_IfThenElse.simps) (auto split: if_splits)
    then show ?thesis using ite_post_entry(2) [OF ok 3(2)] by blast
  qed (use ok in \<open>subst Bdd_IfThenElse.simps, auto simp: ite_post_def min_top_def\<close>)+
qed

section \<open>The operations of the interface\<close>

text \<open>One more variable.\<close>

definition bump :: "BinaryDecisionDiagram \<Rightarrow> BinaryDecisionDiagram" where
  "bump b = b\<lparr>bdd_next_var := bdd_next_var b + 1\<rparr>"

lemma bump_fields [simp]:
  "bdd_next_var (bump b) = bdd_next_var b + 1" "bdd_nodes (bump b) = bdd_nodes b" "bdd_node_map (bump b) = bdd_node_map b" "bdd_ite_map (bump b) = bdd_ite_map b"
  "valid (bump b) i = valid b i" "node_at (bump b) i = node_at b i" "extends b (bump b)"
  by (simp_all add: bump_def valid_def node_at_def extends_def)

lemma bump_top: "top_var (bump b) i = (if i \<le> 1 then bdd_next_var b + 1 else top_var b i)"
  by (simp add: top_var_def)

lemma bump_entry:
  assumes "bdd_ok b" "ite_entry b c t f r"
  shows "ite_entry (bump b) c t f r"
proof -
  note e = assms(2) [unfolded ite_entry_def]
  have v: "bdd_val (bump b) i env = bdd_val b i env" if "valid b i" for i env using extends_val [OF bump_fields(7) assms(1) that] .
  have "min_top (bump b) c t f \<le> top_var (bump b) r"
  proof (cases "r \<le> 1")
    case True
    have "top_var (bump b) i \<le> bdd_next_var b + 1" if "valid b i" for i using top_range(2) [OF assms(1) that] by (simp add: bump_top)
    then show ?thesis using True e by (auto simp: min_top_def bump_top [of b r] min_le_iff_disj)
  next
    case False
    then have "top_var b r < bdd_next_var b" using top_range(3) [OF assms(1), of r] e by simp
    then show ?thesis using False e by (auto simp: min_top_def bump_top top_var_def split: if_splits)
  qed
  then show ?thesis using e v by (simp add: ite_entry_def)
qed

lemma bump_ok:
  assumes "bdd_ok b"
  shows "bdd_ok (bump b)"
proof -
  have mono: "top_var b i \<le> top_var (bump b) i" for i by (simp add: top_var_def)
  have nodes: "node_ok (bump b) i" if "2 \<le> i" "valid (bump b) i" for i
    using ok_node [OF assms that(1)] that(2) mono by (auto simp: node_ok_def intro: less_le_trans)
  have table: "ite_entry (bump b) c t f r" if "bdd_ite_map (bump b) (c, t, f) = Some r" for c t f r
    using bump_entry [OF assms] that assms by (simp add: bdd_ok_def)
  have keys: "bdd_node_map (bump b) (v, h, l) = Some i \<longleftrightarrow> 2 \<le> i \<and> valid (bump b) i \<and> bn_variable (node_at (bump b) i) = v \<and>
      bn_high (node_at (bump b) i) = h \<and> bn_low (node_at (bump b) i) = l" for v h l i
    using ok_key [OF assms] by simp
  have rest: "2 \<le> length (bdd_nodes (bump b))" "0 \<le> bdd_next_var (bump b)" "\<forall>i \<in> {0, 1}. node_at (bump b) i = BddNode_new (-1) (-1) (-1) 1"
    using assms by (simp_all add: bdd_ok_def)
  show ?thesis unfolding bdd_ok_def by (intro conjI allI impI keys rest) (blast intro: nodes table)+
qed

text \<open>What an operation on the store promises: the invariant, that older nodes stay, and the function of the answer.\<close>

definition op_post :: "BinaryDecisionDiagram \<Rightarrow> ((BddVariable \<Rightarrow> bool) \<Rightarrow> bool) \<Rightarrow> (BddNodeIndex \<times> BinaryDecisionDiagram) option \<Rightarrow> bool" where
  "op_post b g res \<longleftrightarrow> (\<exists>r b'. res = Some (r, b') \<and> bdd_inv b' \<and> extends b b' \<and> valid b' r \<and> (\<forall>env. bdd_val b' r env = g env))"

lemma extends_bases: "extends b b' \<Longrightarrow> bdd_next_var b' = bdd_next_var b \<Longrightarrow> bases b \<Longrightarrow> bases b'"
  unfolding extends_def bases_def map_le_def by (metis domIff)

lemma IfThenElse_post:
  assumes "bdd_inv b" "valid b c" "valid b t" "valid b f"
  shows "op_post b (\<lambda>env. if bdd_val b c env then bdd_val b t env else bdd_val b f env) (Bdd_IfThenElse b c t f)"
proof -
  obtain r b' where r: "Bdd_IfThenElse b c t f = Some (r, b')" "ite_post b c t f r b'" using IfThenElse_ok [OF _ assms(2-4)] assms(1) by (auto simp: bdd_inv_def)
  note p = ite_postD [OF r(2)]
  have "bdd_inv b'" using p(1) extends_bases [OF p(2,3)] assms(1) by (simp add: bdd_inv_def)
  then show ?thesis using r(1) p by (auto simp: op_post_def)
qed

lemma inv_leaf [simp]: "bdd_inv b \<Longrightarrow> valid b 0" "bdd_inv b \<Longrightarrow> valid b 1"
  by (simp_all add: bdd_inv_def)

lemma op_postI: "op_post b g res \<Longrightarrow> (\<And>env. g env = g' env) \<Longrightarrow> op_post b g' res"
  by (simp add: op_post_def)

lemma Not_post: "bdd_inv b \<Longrightarrow> valid b e \<Longrightarrow> op_post b (\<lambda>env. \<not> bdd_val b e env) (Bdd_Not b e)"
  unfolding Bdd_Not_def by (rule op_postI [OF IfThenElse_post]) simp_all

lemma And_post: "bdd_inv b \<Longrightarrow> valid b x \<Longrightarrow> valid b y \<Longrightarrow> op_post b (\<lambda>env. bdd_val b x env \<and> bdd_val b y env) (Bdd_And b x y)"
  unfolding Bdd_And_def by (rule op_postI [OF IfThenElse_post]) simp_all

lemma Or_post: "bdd_inv b \<Longrightarrow> valid b x \<Longrightarrow> valid b y \<Longrightarrow> op_post b (\<lambda>env. bdd_val b x env \<or> bdd_val b y env) (Bdd_Or b x y)"
  unfolding Bdd_Or_def by (rule op_postI [OF IfThenElse_post]) simp_all

lemma NewVariable_post:
  assumes "bdd_inv b"
  shows "\<exists>r b'. Bdd_NewVariable b = Some (r, b') \<and> bdd_inv b' \<and> extends b b' \<and> bdd_next_var b' = bdd_next_var b + 1 \<and> valid b' r \<and>
    (\<forall>env. bdd_val b' r env = env (bdd_next_var b)) \<and> Bdd_GetVariableBaseNode b' (bdd_next_var b) = Some r"
proof -
  have ok: "bdd_ok (bump b)" using bump_ok assms by (simp add: bdd_inv_def)
  have n: "0 \<le> bdd_next_var b" using assms by (simp add: bdd_inv_def bdd_ok_def)
  obtain r b' where g: "Bdd_GetOrCreateNode (bump b) (bdd_next_var b) 1 0 = Some (r, b')" "bdd_ok b'" "extends (bump b) b'"
    "bdd_next_var b' = bdd_next_var b + 1" "valid b' r" "\<forall>env. bdd_val b' r env = env (bdd_next_var b)" "bdd_node_map b' (bdd_next_var b, 1, 0) = Some r"
    using GetOrCreateNode_ok [OF ok, of 1 0 "bdd_next_var b"] ok_leaf [OF ok] n by (auto simp: bump_top)
  have e: "extends b b'" by (rule extends_trans [OF bump_fields(7) g(3)])
  have "bdd_node_map b' (v, 1, 0) \<noteq> None" if "0 \<le> v" "v < bdd_next_var b'" for v
  proof (cases "v = bdd_next_var b")
    case False
    then have "bdd_node_map b (v, 1, 0) \<noteq> None" using that g(4) assms by (simp add: bdd_inv_def bases_def)
    then show ?thesis using e by (auto simp: extends_def map_le_def dom_def)
  qed (use g(7) in simp)
  then have "bdd_inv b'" using g(2) by (simp add: bdd_inv_def bases_def)
  then show ?thesis using g e by (simp add: Bdd_NewVariable_def bump_def Bdd_GetVariableBaseNode_def)
qed

lemma new_inv: "bdd_inv BinaryDecisionDiagram_new"
  by (auto simp: bdd_inv_def bases_def bdd_ok_def BinaryDecisionDiagram_new_def valid_def node_at_def nth_Cons')

section \<open>Canonicity\<close>

lemma val_set_var:
  assumes "bdd_ok b" "2 \<le> i" "valid b i"
  shows "bdd_val b (bn_high (node_at b i)) env = bdd_val b i (env(top_var b i := True))"
    "bdd_val b (bn_low (node_at b i)) env = bdd_val b i (env(top_var b i := False))"
  using cofactor_ok(3) [OF assms(1,3) order_refl, of True env] cofactor_ok(3) [OF assms(1,3) order_refl, of False env]
    top_range(3) [OF assms(1,3,2)] assms(2) by (simp_all add: cofactor_def)

text \<open>A node is not the same function as one whose variable comes later: its children would be the same function.\<close>

lemma top_var_leaf: "bdd_ok b \<Longrightarrow> valid b i \<Longrightarrow> top_var b i = bdd_next_var b \<longleftrightarrow> i = 0 \<or> i = 1"
  using top_range(3) [of b i] by (cases "2 \<le> i") (auto simp: top_var_def valid_def)

theorem canonical:
  assumes "bdd_ok b" "valid b i" "valid b j" "\<And>env. bdd_val b i env = bdd_val b j env"
  shows "i = j"
  using assms(2-4)
proof (induction "nat (bdd_next_var b - min (top_var b i) (top_var b j))" arbitrary: i j rule: less_induct)
  case less
  let ?m = "min (top_var b i) (top_var b j)"
  have IH: "x = y" if "?m < top_var b x" "?m < top_var b y" "valid b x" "valid b y" "\<And>env. bdd_val b x env = bdd_val b y env" for x y
    by (rule less.hyps) (use that top_range(2) [OF assms(1) that(3)] in auto)
  have above: "top_var b x < top_var b (bn_high (node_at b x))" "top_var b x < top_var b (bn_low (node_at b x))" if "2 \<le> x" "valid b x" for x
    using ok_node [OF assms(1) that] top_range(3) [OF assms(1) that(2,1)] by (simp_all add: node_ok_def)
  have skip: False if "?m = top_var b x" "top_var b x < top_var b y" "valid b x" "valid b y" "\<And>env. bdd_val b x env = bdd_val b y env" for x y
  proof -
    have x: "2 \<le> x" using top_range(2) [OF assms(1) that(4)] that(2) top_var_leaf [OF assms(1) that(3)] that(3) by (cases rule: index_cases [OF that(3)]) auto
    have "bdd_val b y (env(top_var b x := v)) = bdd_val b y env" for env v
      using val_cong [OF assms(1) that(4), of "env(top_var b x := v)" env] that(2) by auto
    then have "bn_high (node_at b x) = bn_low (node_at b x)"
      using val_set_var [OF assms(1) x that(3)] that(5) above [OF x that(3)] that(1) by (intro IH ok_children [OF assms(1) x that(3)]) simp_all
    then show False using ok_node [OF assms(1) x that(3)] by (simp add: node_ok_def)
  qed
  have eq: "top_var b i = top_var b j" using skip [of i j] skip [of j i] less.prems by (cases "top_var b i" "top_var b j" rule: linorder_cases) auto
  show ?case
  proof (cases "top_var b i = bdd_next_var b")
    case True
    then show ?thesis using eq top_var_leaf [OF assms(1)] less.prems val_leaf by metis
  next
    case False
    then have "i \<noteq> 0" "i \<noteq> 1" "j \<noteq> 0" "j \<noteq> 1" using eq top_var_leaf [OF assms(1) less.prems(1)] top_var_leaf [OF assms(1) less.prems(2)] by auto
    then have 2: "2 \<le> i" "2 \<le> j" using less.prems(1,2) by (auto simp: valid_def)
    note vi = val_set_var [OF assms(1) 2(1) less.prems(1)] and vj = val_set_var [OF assms(1) 2(2) less.prems(2)]
    note ci = ok_children [OF assms(1) 2(1) less.prems(1)] and cj = ok_children [OF assms(1) 2(2) less.prems(2)]
    note ai = above [OF 2(1) less.prems(1)] and aj = above [OF 2(2) less.prems(2)]
    have "bn_high (node_at b i) = bn_high (node_at b j)" using vi(1) vj(1) less.prems(3) ai(1) aj(1) eq by (intro IH ci(1) cj(1)) simp_all
    moreover have "bn_low (node_at b i) = bn_low (node_at b j)" using vi(2) vj(2) less.prems(3) ai(2) aj(2) eq by (intro IH ci(2) cj(2)) simp_all
    moreover have "bn_variable (node_at b i) = bn_variable (node_at b j)"
      using eq top_range(3) [OF assms(1) less.prems(1) 2(1)] top_range(3) [OF assms(1) less.prems(2) 2(2)] by simp
    ultimately show ?thesis
      using ok_key [OF assms(1), of "bn_variable (node_at b i)" "bn_high (node_at b i)" "bn_low (node_at b i)"] 2 less.prems(1,2) by (metis option.inject)
  qed
qed

section \<open>Evaluation\<close>

lemma base_known:
  assumes "bdd_inv b" "0 \<le> v" "v < bdd_next_var b"
  obtains k where "Bdd_GetVariableBaseNode b v = Some k"
  using assms by (auto simp: bdd_inv_def bases_def Bdd_GetVariableBaseNode_def)

text \<open>The values given for the variables: those of the base nodes.\<close>

definition given :: "BinaryDecisionDiagram \<Rightarrow> (BddNodeIndex \<Rightarrow> bool option) \<Rightarrow> BddVariable \<Rightarrow> bool option" where
  "given b vals v = Option.bind (Bdd_GetVariableBaseNode b v) vals"

definition agrees :: "BinaryDecisionDiagram \<Rightarrow> (BddNodeIndex \<Rightarrow> bool option) \<Rightarrow> (BddVariable \<Rightarrow> bool) \<Rightarrow> bool" where
  "agrees b vals env \<longleftrightarrow> (\<forall>v x. given b vals v = Some x \<longrightarrow> env v = x)"

definition depends :: "BinaryDecisionDiagram \<Rightarrow> BddNodeIndex \<Rightarrow> BddVariable \<Rightarrow> bool" where
  "depends b e v \<longleftrightarrow> (\<exists>env. bdd_val b e (env(v := True)) \<noteq> bdd_val b e (env(v := False)))"

lemma depends_top:
  assumes "bdd_ok b" "2 \<le> i" "valid b i"
  shows "depends b i (top_var b i)"
proof (rule ccontr)
  assume "\<not> depends b i (top_var b i)"
  then have "bdd_val b (bn_high (node_at b i)) env = bdd_val b (bn_low (node_at b i)) env" for env
    using val_set_var [OF assms] by (simp add: depends_def)
  then have "bn_high (node_at b i) = bn_low (node_at b i)" by (rule canonical [OF assms(1) ok_children [OF assms]])
  then show False using ok_node [OF assms] by (simp add: node_ok_def)
qed

lemma depends_child:
  assumes "bdd_ok b" "2 \<le> i" "valid b i" "depends b (if x then bn_high (node_at b i) else bn_low (node_at b i)) v"
  shows "depends b i v"
proof (cases "v = top_var b i")
  case False
  obtain env where e: "bdd_val b (if x then bn_high (node_at b i) else bn_low (node_at b i)) (env(v := True)) \<noteq>
      bdd_val b (if x then bn_high (node_at b i) else bn_low (node_at b i)) (env(v := False))"
    using assms(4) unfolding depends_def by blast
  have "bdd_val b i ((env(top_var b i := x))(v := True)) \<noteq> bdd_val b i ((env(top_var b i := x))(v := False))"
    using e val_set_var [OF assms(1-3)] fun_upd_twist [OF False, of env] by (cases x) simp_all
  then show ?thesis unfolding depends_def by blast
qed (simp add: depends_top [OF assms(1-3)])

lemma Evaluate_step:
  assumes "bdd_inv b" "2 \<le> i" "valid b i"
  shows "Evaluate_loop b vals i =
    (case given b vals (top_var b i) of None \<Rightarrow> Some (Inl InvalidArgument)
     | Some x \<Rightarrow> Evaluate_loop b vals (if x then bn_high (node_at b i) else bn_low (node_at b i)))"
proof -
  have t: "top_var b i = bn_variable (node_at b i)" "0 \<le> top_var b i" "top_var b i < bdd_next_var b"
    using top_range [of b i] assms by (simp_all add: bdd_inv_def)
  obtain k where "Bdd_GetVariableBaseNode b (top_var b i) = Some k" by (rule base_known [OF assms(1) t(2,3)])
  then show ?thesis using assms t(1) by (subst Evaluate_loop.simps) (simp add: GetNode_valid given_def)
qed

lemma Evaluate_ok:
  assumes "bdd_inv b" "valid b e"
  shows "(\<exists>x. Bdd_Evaluate b e vals = Some (Inr x) \<and> (\<forall>env. agrees b vals env \<longrightarrow> bdd_val b e env = x)) \<or>
    (\<exists>v. Bdd_Evaluate b e vals = Some (Inl InvalidArgument) \<and> 0 \<le> v \<and> v < bdd_next_var b \<and> given b vals v = None \<and> depends b e v)"
proof -
  have ok: "bdd_ok b" using assms(1) by (simp add: bdd_inv_def)
  show ?thesis unfolding Bdd_Evaluate_def
    using ok assms(2)
  proof (induction rule: node_induct)
    case (node i)
    note s = Evaluate_step [OF assms(1) node(1,2), of vals] and t = top_range [OF ok node(2)]
    show ?case
    proof (cases "given b vals (top_var b i)")
      case None
      then show ?thesis using s t node(1) depends_top [OF ok node(1,2)] by auto
    next
      case (Some x)
      let ?c = "if x then bn_high (node_at b i) else bn_low (node_at b i)"
      have "bdd_val b i env = bdd_val b ?c env" if "agrees b vals env" for env
        using that Some val_node [OF ok node(1,2), of env] t(3) [OF node(1)] by (auto simp: agrees_def)
      moreover have "Evaluate_loop b vals i = Evaluate_loop b vals ?c" using s Some by simp
      moreover have "(\<exists>y. Evaluate_loop b vals ?c = Some (Inr y) \<and> (\<forall>env. agrees b vals env \<longrightarrow> bdd_val b ?c env = y)) \<or>
        (\<exists>v. Evaluate_loop b vals ?c = Some (Inl InvalidArgument) \<and> 0 \<le> v \<and> v < bdd_next_var b \<and> given b vals v = None \<and> depends b ?c v)"
        using node(3,4) by (cases x) simp_all
      ultimately show ?thesis using depends_child [OF ok node(1,2), of x] by auto
    qed
  qed (auto simp: Evaluate_loop.simps)
qed

section \<open>Paths, their number and the printed normal form\<close>

text \<open>The paths from a node to the leaves, the high branch first, each with the literals passed and the leaf reached.\<close>

type_synonym literal = "BddVariable \<times> bool"

function bdd_paths :: "BinaryDecisionDiagram \<Rightarrow> BddNodeIndex \<Rightarrow> (literal list \<times> bool) list" where
  "bdd_paths b i =
     (if i \<le> 1 then [([], i = 1)]
      else let n = node_at b i in
        if bn_high n < i \<and> bn_low n < i
        then map (apfst (Cons (bn_variable n, True))) (bdd_paths b (bn_high n)) @
             map (apfst (Cons (bn_variable n, False))) (bdd_paths b (bn_low n))
        else [])"
  by pat_completeness auto
termination
  by (relation "measure (\<lambda>(b, i). nat i)") auto

declare bdd_paths.simps [simp del]

lemma paths_leaf [simp]: "bdd_paths b 0 = [([], False)]" "bdd_paths b 1 = [([], True)]"
  by (simp_all add: bdd_paths.simps)

lemma paths_node:
  assumes "bdd_ok b" "2 \<le> i" "valid b i"
  shows "bdd_paths b i = map (apfst (Cons (bn_variable (node_at b i), True))) (bdd_paths b (bn_high (node_at b i))) @
    map (apfst (Cons (bn_variable (node_at b i), False))) (bdd_paths b (bn_low (node_at b i)))"
  using ok_node [OF assms] assms(2) by (simp add: bdd_paths.simps [of b i] node_ok_def Let_def)

lemma path_count_ok:
  assumes "bdd_ok b" "valid b i"
  shows "Bdd_path_count b i = Some (min (int (length (bdd_paths b i))) (2 ^ 31 - 1))"
proof -
  have "bn_path_count (node_at b i) = min (int (length (bdd_paths b i))) (2 ^ 31 - 1)"
    using assms
  proof (induction rule: node_induct)
    case (node i)
    then show ?case using ok_node [OF assms(1) node(1,2)] by (simp add: node_ok_def paths_node [OF assms(1) node(1,2)])
  qed (use assms(1) in \<open>simp_all add: bdd_ok_def BddNode_new_def\<close>)
  then show ?thesis using GetNode_valid [OF assms(2)] by (simp add: Bdd_path_count_def)
qed

text \<open>The minterms: the paths to the leaf one.\<close>

definition minterms :: "BinaryDecisionDiagram \<Rightarrow> BddNodeIndex \<Rightarrow> literal list list" where
  "minterms b i = map fst (filter snd (bdd_paths b i))"

lemma minterms_leaf [simp]: "minterms b 0 = []" "minterms b 1 = [[]]"
  by (simp_all add: minterms_def)

lemma minterms_node:
  assumes "bdd_ok b" "2 \<le> i" "valid b i"
  shows "minterms b i = map (Cons (bn_variable (node_at b i), True)) (minterms b (bn_high (node_at b i))) @
    map (Cons (bn_variable (node_at b i), False)) (minterms b (bn_low (node_at b i)))"
  by (simp add: minterms_def paths_node [OF assms] filter_map comp_def)

text \<open>The sum of the minterms is the function of the node.\<close>

definition holds :: "(BddVariable \<Rightarrow> bool) \<Rightarrow> literal list \<Rightarrow> bool" where
  "holds env m \<longleftrightarrow> (\<forall>(v, s) \<in> set m. env v = s)"

lemma holds_simps [simp]: "holds env []" "holds env ((v, s) # m) \<longleftrightarrow> env v = s \<and> holds env m"
  by (simp_all add: holds_def)

lemma minterms_val:
  assumes "bdd_ok b" "valid b i"
  shows "bdd_val b i env \<longleftrightarrow> (\<exists>m \<in> set (minterms b i). holds env m)"
  using assms
proof (induction rule: node_induct)
  case (node i)
  show ?case unfolding val_node [OF assms(1) node(1,2)] minterms_node [OF assms(1) node(1,2)]
    using node(3,4) by (cases "env (bn_variable (node_at b i))") (simp_all add: bex_Un)
qed simp_all

text \<open>The text of a minterm, and the loop over the minterms that the recursion of \<open>ToStringDnfHelper\<close> amounts to.\<close>

definition literal_text :: "literal \<Rightarrow> string" where
  "literal_text l = (if snd l then ''x'' else ''!x'') @ dec_string (fst l)"

lemma literal_text_simps [simp]: "literal_text (v, True) = ''x'' @ dec_string v" "literal_text (v, False) = ''!x'' @ dec_string v"
  by (simp_all add: literal_text_def)

definition minterm_text :: "literal list \<Rightarrow> string" where
  "minterm_text m = str_join ''.'' (map literal_text m)"

definition emit :: "string \<Rightarrow> int \<times> string \<Rightarrow> int \<times> string" where
  "emit t s = (if fst s < 0 then s
     else (fst s - 1, if fst s = 0 then snd s @ '' + ...'' else if snd s = [] then t else snd s @ '' + '' @ t))"

lemma emit_done: "n < 0 \<Longrightarrow> fold emit ts (n, s) = (n, s)"
  by (induction ts) (simp_all add: emit_def)

lemma DnfHelper_emit:
  assumes "bdd_ok b" "valid b i"
  shows "ToStringDnfHelper b i n terms s =
    Some (fold emit (map (\<lambda>m. str_join ''.'' (terms @ map literal_text m)) (minterms b i)) (n, s))"
  using assms
proof (induction arbitrary: n terms s rule: node_induct)
  case (node i)
  show ?case
  proof (cases "n < 0")
    case True
    then show ?thesis by (subst ToStringDnfHelper.simps) (simp add: emit_done)
  next
    case False
    then show ?thesis using node(1,2)
      by (subst ToStringDnfHelper.simps)
        (simp add: GetNode_valid node(3,4) minterms_node [OF assms(1) node(1,2)] comp_def)
  qed
qed (simp_all add: ToStringDnfHelper.simps emit_def)

lemma emit_join:
  assumes "[] \<notin> set ts" "[] \<notin> set us" "0 \<le> n"
  shows "snd (fold emit ts (n, str_join '' + '' us)) =
    str_join '' + '' (us @ take (nat n) ts) @ (if nat n < length ts then '' + ...'' else [])"
  using assms
proof (induction ts arbitrary: us n)
  case (Cons t ts)
  show ?case
  proof (cases "n = 0")
    case True
    then show ?thesis by (simp add: emit_def [of t] emit_done)
  next
    case False
    then have n: "nat n = Suc (nat (n - 1))" using Cons.prems(3) by simp
    have "emit t (n, str_join '' + '' us) = (n - 1, str_join '' + '' (us @ [t]))"
      using False Cons.prems(2,3) str_join_Nil [of us "'' + ''"] str_join_snoc [of us "'' + ''" t] by (cases "us = []") (auto simp: emit_def)
    then show ?thesis using Cons.IH [of "us @ [t]" "n - 1"] Cons.prems False unfolding n by simp
  qed
qed simp

lemma minterm_text_Nil: "m \<noteq> [] \<Longrightarrow> minterm_text m \<noteq> []"
  by (cases m; cases "tl m") (simp_all add: minterm_text_def literal_text_def)

lemma minterms_nonempty:
  assumes "bdd_ok b" "2 \<le> i" "valid b i"
  shows "[] \<notin> set (map minterm_text (minterms b i))"
  using minterm_text_Nil by (fastforce simp: minterms_node [OF assms] dest: sym)

lemma ToStringDnf_text:
  assumes "bdd_ok b" "2 \<le> e" "valid b e" "0 \<le> limit"
  shows "Bdd_ToStringDnf b e limit =
    (let k = (if limit = 0 then 2 ^ 63 - 1 else nat limit); ts = map minterm_text (minterms b e) in
     Some (str_join '' + '' (take k ts) @ (if k < length ts then '' + ...'' else [])))"
proof -
  define n where "n = (if limit = 0 then 2 ^ 63 - 1 else limit)"
  have n: "0 \<le> n" "nat n = (if limit = 0 then 2 ^ 63 - 1 else nat limit)" using assms(4) by (auto simp: n_def)
  have "Bdd_ToStringDnf b e limit = Some (snd (fold emit (map minterm_text (minterms b e)) (n, [])))"
    using assms(2) DnfHelper_emit [OF assms(1,3), of n "[]" "[]"] by (simp add: Bdd_ToStringDnf_def n_def minterm_text_def [abs_def] cong: if_cong)
  then show ?thesis using emit_join [OF minterms_nonempty [OF assms(1-3)], of "[]" n] n by (simp add: Let_def)
qed

section \<open>The contract of a canonical store of boolean functions\<close>

text \<open>
  What clients of the diagram rely on: negation, conjunction and disjunction always answer, denote the
  function of their operands and leave the older functions alone; and two answers that denote the same
  function are the same, which is how clients compare functions.
\<close>

locale canonical_store =
  fixes inv :: "'s \<Rightarrow> bool" and member :: "'s \<Rightarrow> 'n \<Rightarrow> bool" and den :: "'s \<Rightarrow> 'n \<Rightarrow> 'e \<Rightarrow> bool"
    and later :: "'s \<Rightarrow> 's \<Rightarrow> bool"
    and neg :: "'s \<Rightarrow> 'n \<Rightarrow> ('n \<times> 's) option" and conj disj :: "'s \<Rightarrow> 'n \<Rightarrow> 'n \<Rightarrow> ('n \<times> 's) option"
  assumes same: "inv s \<Longrightarrow> member s x \<Longrightarrow> member s y \<Longrightarrow> (\<And>env. den s x env = den s y env) \<Longrightarrow> x = y"
    and later_member: "later s s' \<Longrightarrow> inv s \<Longrightarrow> member s x \<Longrightarrow> member s' x"
    and later_den: "later s s' \<Longrightarrow> inv s \<Longrightarrow> member s x \<Longrightarrow> den s' x env = den s x env"
    and neg_law: "inv s \<Longrightarrow> member s x \<Longrightarrow>
      \<exists>r s'. neg s x = Some (r, s') \<and> inv s' \<and> later s s' \<and> member s' r \<and> (\<forall>env. den s' r env = (\<not> den s x env))"
    and conj_law: "inv s \<Longrightarrow> member s x \<Longrightarrow> member s y \<Longrightarrow>
      \<exists>r s'. conj s x y = Some (r, s') \<and> inv s' \<and> later s s' \<and> member s' r \<and> (\<forall>env. den s' r env = (den s x env \<and> den s y env))"
    and disj_law: "inv s \<Longrightarrow> member s x \<Longrightarrow> member s y \<Longrightarrow>
      \<exists>r s'. disj s x y = Some (r, s') \<and> inv s' \<and> later s s' \<and> member s' r \<and> (\<forall>env. den s' r env = (den s x env \<or> den s y env))"
begin

lemma neg_neg:
  assumes "inv s" "member s x"
  shows "\<exists>r s1 s2. neg s x = Some (r, s1) \<and> neg s1 r = Some (x, s2)"
proof -
  obtain r s1 where 1: "neg s x = Some (r, s1)" "inv s1" "later s s1" "member s1 r" "\<forall>env. den s1 r env = (\<not> den s x env)"
    using neg_law [OF assms] by blast
  obtain q s2 where 2: "neg s1 r = Some (q, s2)" "inv s2" "later s1 s2" "member s2 q" "\<forall>env. den s2 q env = (\<not> den s1 r env)"
    using neg_law [OF 1(2,4)] by blast
  have m: "member s1 x" by (rule later_member [OF 1(3) assms])
  have "q = x" using 1 2 m later_member [OF 2(3) 1(2) m] later_den [OF 2(3) 1(2) m] later_den [OF 1(3) assms] by (intro same [OF 2(2)]) simp_all
  then show ?thesis using 1(1) 2(1) by blast
qed

lemma de_morgan:
  assumes "inv s" "member s x" "member s y"
  shows "\<exists>a s1 p s2 q s3 r s4 s5. conj s x y = Some (a, s1) \<and> neg s1 x = Some (p, s2) \<and> neg s2 y = Some (q, s3) \<and>
    disj s3 p q = Some (r, s4) \<and> neg s4 a = Some (r, s5)"
proof -
  obtain a s1 where 1: "conj s x y = Some (a, s1)" "inv s1" "later s s1" "member s1 a" "\<forall>env. den s1 a env = (den s x env \<and> den s y env)"
    using conj_law [OF assms] by blast
  have m1: "member s1 x" "member s1 y" "den s1 x env = den s x env" "den s1 y env = den s y env" for env
    using 1(3) assms by (auto simp: later_member later_den)
  obtain p s2 where 2: "neg s1 x = Some (p, s2)" "inv s2" "later s1 s2" "member s2 p" "\<forall>env. den s2 p env = (\<not> den s1 x env)"
    using neg_law [OF 1(2) m1(1)] by blast
  have m2: "member s2 y" "member s2 a" "den s2 y env = den s1 y env" "den s2 a env = den s1 a env" for env
    using 2(3) 1(2,4) m1 by (auto simp: later_member later_den)
  obtain q s3 where 3: "neg s2 y = Some (q, s3)" "inv s3" "later s2 s3" "member s3 q" "\<forall>env. den s3 q env = (\<not> den s2 y env)"
    using neg_law [OF 2(2) m2(1)] by blast
  have m3: "member s3 p" "member s3 a" "den s3 p env = den s2 p env" "den s3 a env = den s2 a env" for env
    using 3(3) 2(2,4) m2 by (auto simp: later_member later_den)
  obtain r s4 where 4: "disj s3 p q = Some (r, s4)" "inv s4" "later s3 s4" "member s4 r" "\<forall>env. den s4 r env = (den s3 p env \<or> den s3 q env)"
    using disj_law [OF 3(2) m3(1) 3(4)] by blast
  have m4: "member s4 a" "den s4 a env = den s3 a env" for env
    using 4(3) 3(2) m3 by (auto simp: later_member later_den)
  obtain z s5 where 5: "neg s4 a = Some (z, s5)" "inv s5" "later s4 s5" "member s5 z" "\<forall>env. den s5 z env = (\<not> den s4 a env)"
    using neg_law [OF 4(2) m4(1)] by blast
  have m5: "member s5 r" "den s5 r env = den s4 r env" for env
    using 5(3) 4(2,4) by (auto simp: later_member later_den)
  have "den s5 z env = den s5 r env" for env
    using 1(5) 2(5) 3(5) 4(5) 5(5) m1(3,4) m2(3,4) m3(3,4) m4(2) m5(2) by simp
  then have "z = r" by (rule same [OF 5(2,4) m5(1)])
  then show ?thesis using 1(1) 2(1) 3(1) 4(1) 5(1) by blast
qed

end

interpretation bdd: canonical_store bdd_inv valid bdd_val extends Bdd_Not Bdd_And Bdd_Or
proof unfold_locales
  show "x = y" if "bdd_inv s" "valid s x" "valid s y" "\<And>env. bdd_val s x env = bdd_val s y env" for s x y
    by (rule canonical [of s]) (use that in \<open>simp_all add: bdd_inv_def\<close>)
qed (use Not_post And_post Or_post extends_node(1) extends_val in \<open>auto simp: op_post_def bdd_inv_def\<close>)

section \<open>The states of a diagram\<close>

text \<open>A diagram as its clients can make it: a new one, then any operations on nodes it has.\<close>

inductive bdd_reachable :: "BinaryDecisionDiagram \<Rightarrow> bool" where
  fresh: "bdd_reachable BinaryDecisionDiagram_new"
| variable: "bdd_reachable b \<Longrightarrow> Bdd_NewVariable b = Some (r, b') \<Longrightarrow> bdd_reachable b'"
| negation: "bdd_reachable b \<Longrightarrow> valid b x \<Longrightarrow> Bdd_Not b x = Some (r, b') \<Longrightarrow> bdd_reachable b'"
| conjunction: "bdd_reachable b \<Longrightarrow> valid b x \<Longrightarrow> valid b y \<Longrightarrow> Bdd_And b x y = Some (r, b') \<Longrightarrow> bdd_reachable b'"
| disjunction: "bdd_reachable b \<Longrightarrow> valid b x \<Longrightarrow> valid b y \<Longrightarrow> Bdd_Or b x y = Some (r, b') \<Longrightarrow> bdd_reachable b'"

lemma op_post_inv: "op_post b g (Some (r, b')) \<Longrightarrow> bdd_inv b'"
  by (simp add: op_post_def)

lemma reachable_inv: "bdd_reachable b \<Longrightarrow> bdd_inv b"
proof (induction rule: bdd_reachable.induct)
  case fresh
  show ?case by (rule new_inv)
next
  case (variable b r b')
  then show ?case using NewVariable_post by fastforce
next
  case (negation b x r b')
  then show ?case using op_post_inv Not_post by metis
next
  case (conjunction b x y r b')
  then show ?case using op_post_inv And_post by metis
next
  case (disjunction b x y r b')
  then show ?case using op_post_inv Or_post by metis
qed

end
