(* ===== verification/Ir_Type.thy ===== *)
theory Ir_Type
  imports Bits_Ops
begin

text \<open>
  Models \<open>xls/ir/type.{h,cc}\<close>: the types of the intermediate representation, their sizes, texts and
  protocol buffer form. A \<open>Type*\<close> is the type it points to: the pointer comparisons at the start of the
  \<open>IsEqualTo\<close> methods only shorten the comparison. The messages of \<open>xls_type.proto\<close> are datatypes with the
  fields of the message; an optional field is an \<open>option\<close>.

  The lemmas show that the comparison of types decides equality, that the printed form determines the
  type (it is the key under which function types are shared), and what the measures of a type are.
\<close>

section \<open>Types\<close>

datatype TypeKind = TypeKind_kTuple | TypeKind_kBits | TypeKind_kArray | TypeKind_kToken

datatype Type = BitsType nat | TupleType "Type list" | ArrayType nat Type | TokenType

fun TypeKindToString :: "TypeKind \<Rightarrow> string" where
  "TypeKindToString TypeKind_kTuple = ''tuple''"
| "TypeKindToString TypeKind_kBits = ''bits''"
| "TypeKindToString TypeKind_kArray = ''array''"
| "TypeKindToString TypeKind_kToken = ''token''"

fun Type_kind :: "Type \<Rightarrow> TypeKind" where
  "Type_kind (BitsType _) = TypeKind_kBits"
| "Type_kind (TupleType _) = TypeKind_kTuple"
| "Type_kind (ArrayType _ _) = TypeKind_kArray"
| "Type_kind TokenType = TypeKind_kToken"

definition Type_IsBits :: "Type \<Rightarrow> bool" where
  "Type_IsBits t \<longleftrightarrow> Type_kind t = TypeKind_kBits"

definition Type_IsTuple :: "Type \<Rightarrow> bool" where
  "Type_IsTuple t \<longleftrightarrow> Type_kind t = TypeKind_kTuple"

definition Type_IsArray :: "Type \<Rightarrow> bool" where
  "Type_IsArray t \<longleftrightarrow> Type_kind t = TypeKind_kArray"

definition Type_IsToken :: "Type \<Rightarrow> bool" where
  "Type_IsToken t \<longleftrightarrow> Type_kind t = TypeKind_kToken"

definition Type_AsBits :: "Type \<Rightarrow> status_code + Type" where
  "Type_AsBits t = (if Type_IsBits t then Inr t else Inl InvalidArgument)"

definition Type_AsArray :: "Type \<Rightarrow> status_code + Type" where
  "Type_AsArray t = (if Type_IsArray t then Inr t else Inl InvalidArgument)"

definition Type_AsTuple :: "Type \<Rightarrow> status_code + Type" where
  "Type_AsTuple t = (if Type_IsTuple t then Inr t else Inl InvalidArgument)"

fun Type_GetFlatBitCount :: "Type \<Rightarrow> nat" where
  "Type_GetFlatBitCount (BitsType n) = n"
| "Type_GetFlatBitCount (TupleType ts) = sum_list (map Type_GetFlatBitCount ts)"
| "Type_GetFlatBitCount (ArrayType n t) = Type_GetFlatBitCount t * n"
| "Type_GetFlatBitCount TokenType = 0"

fun Type_leaf_count :: "Type \<Rightarrow> nat" where
  "Type_leaf_count (BitsType n) = 1"
| "Type_leaf_count (TupleType ts) = sum_list (map Type_leaf_count ts)"
| "Type_leaf_count (ArrayType n t) = n * Type_leaf_count t"
| "Type_leaf_count TokenType = 1"

fun Type_ToString :: "Type \<Rightarrow> string" where
  "Type_ToString (BitsType n) = ''bits['' @ dec_digits n @ '']''"
| "Type_ToString (TupleType ts) = ''('' @ str_join '', '' (map Type_ToString ts) @ '')''"
| "Type_ToString (ArrayType n t) = Type_ToString t @ ''['' @ dec_digits n @ '']''"
| "Type_ToString TokenType = ''token''"

fun Type_IsEqualTo :: "Type \<Rightarrow> Type \<Rightarrow> bool" and IsEqualTo_loop :: "Type list \<Rightarrow> Type list \<Rightarrow> bool" where
  "Type_IsEqualTo (BitsType n) other = (case other of BitsType m \<Rightarrow> n = m | _ \<Rightarrow> False)"
| "Type_IsEqualTo (TupleType ts) other =
     (case other of TupleType us \<Rightarrow> if length ts \<noteq> length us then False else IsEqualTo_loop ts us | _ \<Rightarrow> False)"
| "Type_IsEqualTo (ArrayType n t) other = (case other of ArrayType m u \<Rightarrow> n = m \<and> Type_IsEqualTo t u | _ \<Rightarrow> False)"
| "Type_IsEqualTo TokenType other = Type_IsToken other"
| "IsEqualTo_loop (t # ts) (u # us) = (if \<not> Type_IsEqualTo t u then False else IsEqualTo_loop ts us)"
| "IsEqualTo_loop _ _ = True"

fun GetArrayDimensionCount :: "Type \<Rightarrow> nat" where
  "GetArrayDimensionCount (ArrayType n t) = GetArrayDimensionCount t + 1"
| "GetArrayDimensionCount _ = 0"

fun GetIndexedElementType :: "Type \<Rightarrow> nat \<Rightarrow> status_code + Type" where
  "GetIndexedElementType t 0 = Inr t"
| "GetIndexedElementType t (Suc i) = (case t of ArrayType n u \<Rightarrow> GetIndexedElementType u i | _ \<Rightarrow> Inl InvalidArgument)"

fun TypeHasToken :: "Type \<Rightarrow> bool" where
  "TypeHasToken TokenType = True"
| "TypeHasToken (ArrayType n t) = TypeHasToken t"
| "TypeHasToken (TupleType ts) = list_ex TypeHasToken ts"
| "TypeHasToken (BitsType n) = False"

section \<open>Function types\<close>

record FunctionType =
  ft_parameters :: "Type list"
  ft_return_type :: Type

definition FunctionType_ToString :: "FunctionType \<Rightarrow> string" where
  "FunctionType_ToString f =
     ''('' @ str_join '', '' (map Type_ToString (ft_parameters f)) @ '') -> '' @ Type_ToString (ft_return_type f)"

definition FunctionType_IsEqualTo :: "FunctionType \<Rightarrow> FunctionType \<Rightarrow> bool" where
  "FunctionType_IsEqualTo f g =
     (if \<not> Type_IsEqualTo (ft_return_type f) (ft_return_type g) then False
      else if length (ft_parameters f) \<noteq> length (ft_parameters g) then False
      else IsEqualTo_loop (ft_parameters f) (ft_parameters g))"

section \<open>The messages\<close>

datatype TypeEnum = TypeProto_INVALID | TypeProto_BITS | TypeProto_TUPLE | TypeProto_ARRAY | TypeProto_TOKEN

datatype TypeProto =
  TypeProto (tp_type_enum: "TypeEnum option") (tp_bit_count: "int option") (tp_tuple_elements: "TypeProto list")
    (tp_array_size: "int option") (tp_array_element: "TypeProto option")

record FunctionTypeProto =
  fp_parameters :: "TypeProto list"
  fp_return_type :: "TypeProto option"

fun Type_ToProto :: "Type \<Rightarrow> TypeProto" where
  "Type_ToProto (BitsType n) = TypeProto (Some TypeProto_BITS) (Some (int n)) [] None None"
| "Type_ToProto (TupleType ts) = TypeProto (Some TypeProto_TUPLE) None (map Type_ToProto ts) None None"
| "Type_ToProto (ArrayType n t) = TypeProto (Some TypeProto_ARRAY) None [] (Some (int n)) (Some (Type_ToProto t))"
| "Type_ToProto TokenType = TypeProto (Some TypeProto_TOKEN) None [] None None"

definition FunctionType_ToProto :: "FunctionType \<Rightarrow> FunctionTypeProto" where
  "FunctionType_ToProto f = \<lparr>fp_parameters = map Type_ToProto (ft_parameters f), fp_return_type = Some (Type_ToProto (ft_return_type f))\<rparr>"

section \<open>Comparison, dimensions and tokens\<close>

lemma IsToken_iff [simp]: "Type_IsToken t \<longleftrightarrow> t = TokenType"
  by (cases t) (simp_all add: Type_IsToken_def)

lemma IsEqualTo_iff: "Type_IsEqualTo t u \<longleftrightarrow> t = u" "length ts = length us \<Longrightarrow> IsEqualTo_loop ts us \<longleftrightarrow> ts = us"
proof (induction t u and ts us rule: Type_IsEqualTo_IsEqualTo_loop.induct)
  case (2 ts other)
  then show ?case by (cases other) auto
next
  case (3 n t other)
  then show ?case by (cases other) auto
next
  case (4 other)
  then show ?case by auto
qed (auto split: Type.splits)

lemma FunctionType_IsEqualTo_iff: "FunctionType_IsEqualTo f g \<longleftrightarrow> f = g"
  using IsEqualTo_iff(2) [of "ft_parameters f" "ft_parameters g"] by (auto simp: FunctionType_IsEqualTo_def IsEqualTo_iff(1))

lemma ToProto_inj: "Type_ToProto t = Type_ToProto u \<longleftrightarrow> t = u"
proof (induction t arbitrary: u)
  case (TupleType ts)
  have "map Type_ToProto ts = map Type_ToProto us \<longleftrightarrow> ts = us" for us
    using TupleType by (induction ts arbitrary: us) (auto simp: Cons_eq_map_conv)
  then show ?case by (cases u) auto
qed (case_tac u; auto)+

lemma GetIndexedElementType_Ok: "(\<exists>u. GetIndexedElementType t k = Inr u) \<longleftrightarrow> k \<le> GetArrayDimensionCount t"
  by (induction t k rule: GetIndexedElementType.induct) (auto split: Type.splits)

lemma GetIndexedElementType_measures:
  "GetIndexedElementType t k = Inr u \<Longrightarrow> GetArrayDimensionCount u + k = GetArrayDimensionCount t \<and>
     TypeHasToken u = TypeHasToken t \<and> Type_leaf_count u dvd Type_leaf_count t \<and> Type_GetFlatBitCount u dvd Type_GetFlatBitCount t"
  by (induction t k rule: GetIndexedElementType.induct) (auto split: Type.splits)

section \<open>The text determines the type\<close>

text \<open>Decimal digits can be read back, and are no brackets.\<close>

definition digits_val :: "string \<Rightarrow> nat" where
  "digits_val s = foldl (\<lambda>n c. n * 10 + (of_char c - 48)) 0 s"

lemma digits_val_dec: "digits_val (dec_digits n) = n"
proof (induction n rule: dec_digits.induct)
  case (1 n)
  show ?case
  proof (cases "n < 10")
    case True
    then show ?thesis by (simp add: dec_digits.simps [of n] digits_val_def)
  next
    case False
    have "of_char (char_of (48 + n mod 10)) - 48 = n mod 10" by simp
    then show ?thesis using 1 False by (simp add: dec_digits.simps [of n] digits_val_def)
  qed
qed

lemma dec_digits_set: "c \<in> set (dec_digits n) \<Longrightarrow> 48 \<le> (of_char c :: nat) \<and> (of_char c :: nat) < 58"
proof (induction n rule: dec_digits.induct)
  case (1 n)
  then show ?case by (auto simp: dec_digits.simps [of n] split: if_splits)
qed

lemma dec_digits_bracket: "CHR '']'' \<notin> set (dec_digits n)"
  using dec_digits_set [of "CHR '']''" n] by auto

lemma dec_digits_prefix:
  assumes "dec_digits n @ CHR '']'' # r = dec_digits m @ CHR '']'' # s"
  shows "n = m \<and> r = s"
proof -
  have t: "takeWhile (\<lambda>c. c \<noteq> CHR '']'') (dec_digits k @ CHR '']'' # x) = dec_digits k" for k x
    using dec_digits_bracket [of k] by (subst takeWhile_append2) auto
  have "dec_digits n = dec_digits m" using arg_cong [OF assms, of "takeWhile (\<lambda>c. c \<noteq> CHR '']'')"] unfolding t .
  then show ?thesis using assms digits_val_dec by (metis append_same_eq list.inject same_append_eq)
qed

text \<open>A type is a base, which is not an array, under some dimensions.\<close>

fun base_type :: "Type \<Rightarrow> Type" where
  "base_type (ArrayType n t) = base_type t"
| "base_type t = t"

fun dimensions :: "Type \<Rightarrow> nat list" where
  "dimensions (ArrayType n t) = dimensions t @ [n]"
| "dimensions t = []"

definition dims_text :: "nat list \<Rightarrow> string" where
  "dims_text ns = concat (map (\<lambda>n. ''['' @ dec_digits n @ '']'') ns)"

lemma dims_text_simps [simp]: "dims_text [] = []" "dims_text (n # ns) = CHR ''['' # dec_digits n @ CHR '']'' # dims_text ns"
  "dims_text (ns @ ms) = dims_text ns @ dims_text ms"
  by (simp_all add: dims_text_def)

lemma ToString_base: "Type_ToString t = Type_ToString (base_type t) @ dims_text (dimensions t)"
  by (induction t) simp_all

lemma rebuild: "foldl (\<lambda>u n. ArrayType n u) (base_type t) (dimensions t) = t"
  by (induction t) simp_all

lemma base_dimensions: "base_type t = base_type u \<Longrightarrow> dimensions t = dimensions u \<Longrightarrow> t = u"
  by (metis rebuild)

lemma base_size: "size (base_type t) \<le> size t"
  by (induction t rule: base_type.induct) auto

lemma base_not_array: "base_type t \<noteq> ArrayType n u"
  by (induction t rule: base_type.induct) auto

text \<open>A text that does not go on with a bracket.\<close>

definition stops :: "string \<Rightarrow> bool" where
  "stops r \<longleftrightarrow> r = [] \<or> hd r \<noteq> CHR ''[''"

lemma stops_Cons [simp]: "stops (c # r) \<longleftrightarrow> c \<noteq> CHR ''[''" "stops []"
  by (simp_all add: stops_def)

lemma dims_prefix: "stops r \<Longrightarrow> stops s \<Longrightarrow> dims_text ns @ r = dims_text ms @ s \<Longrightarrow> ns = ms \<and> r = s"
proof (induction ns arbitrary: ms)
  case Nil
  then show ?case by (cases ms) auto
next
  case (Cons n ns)
  then show ?case
  proof (cases ms)
    case (Cons m ms')
    then have "n = m \<and> dims_text ns @ r = dims_text ms' @ s" using dec_digits_prefix [of n "dims_text ns @ r" m "dims_text ms' @ s"] Cons.prems by simp
    then show ?thesis using Cons.IH Cons.prems(1,2) Cons by simp
  qed auto
qed

lemma ToString_start: "Type_ToString t @ r \<noteq> CHR '')'' # s"
  by (induction t arbitrary: r) auto

text \<open>Texts of types that can be told from what follows them.\<close>

definition readable :: "Type \<Rightarrow> bool" where
  "readable t \<longleftrightarrow> (\<forall>u r s. stops r \<and> stops s \<and> Type_ToString t @ r = Type_ToString u @ s \<longrightarrow> t = u \<and> r = s)"

lemma readableD: "readable t \<Longrightarrow> stops r \<Longrightarrow> stops s \<Longrightarrow> Type_ToString t @ r = Type_ToString u @ s \<Longrightarrow> t = u \<and> r = s"
  unfolding readable_def by blast

lemma join_Cons: "str_join '', '' (map Type_ToString (t # ts)) = Type_ToString t @ concat (map (\<lambda>u. '', '' @ Type_ToString u) ts)"
  by (induction ts arbitrary: t) simp_all

lemma rest_stops: "stops (concat (map (\<lambda>u. '', '' @ Type_ToString u) ts) @ CHR '')'' # x)"
  by (cases ts) simp_all

lemma rest_prefix:
  assumes "\<forall>t \<in> set ts. readable t"
    and "concat (map (\<lambda>u. '', '' @ Type_ToString u) ts) @ CHR '')'' # x = concat (map (\<lambda>u. '', '' @ Type_ToString u) us) @ CHR '')'' # y"
  shows "ts = us \<and> x = y"
  using assms
proof (induction ts arbitrary: us)
  case Nil
  then show ?case by (cases us) auto
next
  case (Cons t ts)
  show ?case
  proof (cases us)
    case us: (Cons u us')
    then have "t = u \<and> concat (map (\<lambda>u. '', '' @ Type_ToString u) ts) @ CHR '')'' # x = concat (map (\<lambda>u. '', '' @ Type_ToString u) us') @ CHR '')'' # y"
      using Cons.prems by (intro readableD [OF _ rest_stops rest_stops]) simp_all
    then show ?thesis using Cons.IH [of us'] Cons.prems(1) us by simp
  qed (use Cons.prems in simp)
qed

lemma tuple_prefix:
  assumes "\<forall>t \<in> set ts. readable t"
    and "str_join '', '' (map Type_ToString ts) @ CHR '')'' # x = str_join '', '' (map Type_ToString us) @ CHR '')'' # y"
  shows "ts = us \<and> x = y"
proof (cases "ts = [] \<or> us = []")
  case True
  have "str_join '', '' (map Type_ToString (t # ts')) @ CHR '')'' # r \<noteq> CHR '')'' # s" for t ts' r s
    unfolding join_Cons append.assoc by (rule ToString_start)
  then show ?thesis using True assms(2) by (cases ts; cases us) (auto dest: sym simp del: list.map(2))
next
  case False
  then obtain t ts' u us' where l: "ts = t # ts'" "us = u # us'" by (meson list.exhaust)
  then have "Type_ToString t @ concat (map (\<lambda>u. '', '' @ Type_ToString u) ts') @ CHR '')'' # x =
      Type_ToString u @ concat (map (\<lambda>u. '', '' @ Type_ToString u) us') @ CHR '')'' # y"
    using assms(2) unfolding l join_Cons append.assoc by simp
  then have "t = u \<and> concat (map (\<lambda>u. '', '' @ Type_ToString u) ts') @ CHR '')'' # x = concat (map (\<lambda>u. '', '' @ Type_ToString u) us') @ CHR '')'' # y"
    using assms(1) l by (intro readableD [OF _ rest_stops rest_stops]) simp_all
  then show ?thesis using rest_prefix [of ts' x us' y] assms(1) l by simp
qed

lemma base_prefix:
  assumes "\<And>n u. b \<noteq> ArrayType n u" "\<And>n u. c \<noteq> ArrayType n u" "\<And>ts. b = TupleType ts \<Longrightarrow> \<forall>t \<in> set ts. readable t"
    and "Type_ToString b @ r = Type_ToString c @ s"
  shows "b = c \<and> r = s"
proof (cases b)
  case (BitsType n)
  then show ?thesis using assms(2,4) dec_digits_prefix [of n r _ s] by (cases c) auto
next
  case (TupleType ts)
  then show ?thesis using assms(2-4) tuple_prefix [of ts r _ s] by (cases c) auto
next
  case (ArrayType n t)
  then show ?thesis using assms(1) by blast
next
  case TokenType
  then show ?thesis using assms(2,4) by (cases c) auto
qed

lemma all_readable: "readable t"
proof (induction t rule: measure_induct_rule [of size])
  case (less t)
  have "t = u \<and> r = s" if "stops r" "stops s" "Type_ToString t @ r = Type_ToString u @ s" for u r s
  proof -
    have "readable v" if "base_type t = TupleType ts" "v \<in> set ts" for ts v
      using less that base_size [of t] size_list_estimation' [OF that(2), of "size v" size] by (intro less) simp
    then have "base_type t = base_type u \<and> dims_text (dimensions t) @ r = dims_text (dimensions u) @ s"
      using that(3) base_not_array ToString_base [of t] ToString_base [of u] by (intro base_prefix) auto
    then show ?thesis using dims_prefix [OF that(1,2)] base_dimensions by blast
  qed
  then show ?case unfolding readable_def by blast
qed

theorem ToString_inj: "Type_ToString t = Type_ToString u \<longleftrightarrow> t = u"
  using readableD [OF all_readable, of "[]" "[]" t u] by auto

theorem FunctionType_ToString_inj: "FunctionType_ToString f = FunctionType_ToString g \<longleftrightarrow> f = g"
proof
  assume "FunctionType_ToString f = FunctionType_ToString g"
  then have "ft_parameters f = ft_parameters g \<and> '' -> '' @ Type_ToString (ft_return_type f) = '' -> '' @ Type_ToString (ft_return_type g)"
    using all_readable by (intro tuple_prefix) (simp_all add: FunctionType_ToString_def)
  then show "f = g" by (simp add: ToString_inj)
qed simp

end
