(* ===== verification/Ir_Value.thy ===== *)
theory Ir_Value
  imports Ir_Type
begin

text \<open>
  Models \<open>xls/ir/value.{h,cc}\<close>, \<open>value_utils.{h,cc}\<close>, \<open>value_builder.{h,cc}\<close>, the conversions of
  \<open>value_conversion_utils.cc\<close> and the flattening of values in \<open>xls/codegen/flattening.cc\<close>: the values of
  the intermediate representation, how they are made, compared, printed, stored in messages and packed
  into one vector of bits.

  A value is a kind with a payload in the code; here each kind is a constructor. Reading the payload of another
  kind, or an element out of range, throws: \<open>None\<close>, like a failed \<open>CHECK\<close> or \<open>LOG(FATAL)\<close>.
  A \<open>StatusOr\<close> is a sum inside that \<open>option\<close>.

  The lemmas relate the operations to one typing relation \<open>has_type\<close>: values are only made with a type,
  comparison of types is comparison of the types they have, and packing and storing are inverse to
  unpacking and loading on typed values.
\<close>

section \<open>Values\<close>

datatype ValueKind = ValueKind_kInvalid | ValueKind_kBits | ValueKind_kTuple | ValueKind_kArray | ValueKind_kToken

datatype Value = Value_Invalid | Value_Bits Bits | Value_Tuple "Value list" | Value_Array "Value list" | Value_Token

fun ValueKindToString :: "ValueKind \<Rightarrow> string" where
  "ValueKindToString ValueKind_kInvalid = ''invalid''"
| "ValueKindToString ValueKind_kBits = ''bits''"
| "ValueKindToString ValueKind_kTuple = ''tuple''"
| "ValueKindToString ValueKind_kArray = ''array''"
| "ValueKindToString ValueKind_kToken = ''token''"

fun Value_kind :: "Value \<Rightarrow> ValueKind" where
  "Value_kind Value_Invalid = ValueKind_kInvalid"
| "Value_kind (Value_Bits _) = ValueKind_kBits"
| "Value_kind (Value_Tuple _) = ValueKind_kTuple"
| "Value_kind (Value_Array _) = ValueKind_kArray"
| "Value_kind Value_Token = ValueKind_kToken"

fun Value_bits :: "Value \<Rightarrow> Bits option" where
  "Value_bits (Value_Bits b) = Some b"
| "Value_bits _ = None"

fun Value_elements :: "Value \<Rightarrow> Value list option" where
  "Value_elements (Value_Tuple vs) = Some vs"
| "Value_elements (Value_Array vs) = Some vs"
| "Value_elements Value_Token = Some []"
| "Value_elements _ = None"

definition Value_element :: "Value \<Rightarrow> nat \<Rightarrow> Value option" where
  "Value_element v i = do { vs \<leftarrow> Value_elements v; if i < length vs then Some (vs ! i) else None }"

definition Value_size :: "Value \<Rightarrow> nat option" where
  "Value_size v = map_option length (Value_elements v)"

definition Value_Bool :: "bool \<Rightarrow> Value option" where
  "Value_Bool enabled = map_option Value_Bits (UBits (of_bool enabled) 1)"

definition Value_GetElements :: "Value \<Rightarrow> status_code + Value list" where
  "Value_GetElements v = (case Value_elements v of Some vs \<Rightarrow> Inr vs | None \<Rightarrow> Inl InvalidArgument)"

definition Value_GetBitsWithStatus :: "Value \<Rightarrow> status_code + Bits" where
  "Value_GetBitsWithStatus v = (case Value_bits v of Some b \<Rightarrow> Inr b | None \<Rightarrow> Inl InvalidArgument)"

fun Value_SameTypeAs :: "Value \<Rightarrow> Value \<Rightarrow> bool option" and SameTypeAs_loop :: "Value list \<Rightarrow> Value list \<Rightarrow> bool option" where
  "Value_SameTypeAs (Value_Bits a) (Value_Bits b) = Some (Bits_bit_count a = Bits_bit_count b)"
| "Value_SameTypeAs (Value_Tuple vs) (Value_Tuple ws) = (if length vs \<noteq> length ws then Some False else SameTypeAs_loop vs ws)"
| "Value_SameTypeAs (Value_Array vs) (Value_Array ws) =
     (if length vs \<noteq> length ws then Some False
      else case (vs, ws) of (v # _, w # _) \<Rightarrow> Value_SameTypeAs v w | _ \<Rightarrow> None)"
| "Value_SameTypeAs Value_Token Value_Token = Some True"
| "Value_SameTypeAs Value_Invalid Value_Invalid = None"
| "Value_SameTypeAs _ _ = Some False"
| "SameTypeAs_loop (v # vs) (w # ws) = do {
     same \<leftarrow> Value_SameTypeAs v w;
     if \<not> same then Some False else SameTypeAs_loop vs ws
   }"
| "SameTypeAs_loop _ _ = Some True"

fun Array_check_loop :: "Value \<Rightarrow> Value list \<Rightarrow> bool option" where
  "Array_check_loop v [] = Some True"
| "Array_check_loop v (w # ws) = do {
     same \<leftarrow> Value_SameTypeAs v w;
     if \<not> same then Some False else Array_check_loop v ws
   }"

definition Value_ArrayOf :: "Value list \<Rightarrow> (status_code + Value) option" where
  "Value_ArrayOf elements =
     (case elements of [] \<Rightarrow> Some (Inl Unimplemented)
      | v # vs \<Rightarrow> do {
          same \<leftarrow> Array_check_loop v vs;
          Some (if same then Inr (Value_Array elements) else Inl InternalError)
        })"

definition Value_ArrayOrDie :: "Value list \<Rightarrow> Value option" where
  "Value_ArrayOrDie elements = do { r \<leftarrow> Value_ArrayOf elements; value_of r }"

text \<open>Results in order, up to the first error: the loops around \<open>XLS_ASSIGN_OR_RETURN\<close>.\<close>

fun status_list :: "('e + 'a) list \<Rightarrow> 'e + 'a list" where
  "status_list [] = Inr []"
| "status_list (r # rs) =
     (case r of Inl e \<Rightarrow> Inl e
      | Inr x \<Rightarrow> (case status_list rs of Inl e \<Rightarrow> Inl e | Inr xs \<Rightarrow> Inr (x # xs)))"

fun status_list_opt :: "('e + 'a) option list \<Rightarrow> ('e + 'a list) option" where
  "status_list_opt [] = Some (Inr [])"
| "status_list_opt (r # rs) = do {
     x \<leftarrow> r;
     case x of Inl e \<Rightarrow> Some (Inl e)
     | Inr v \<Rightarrow> do {
         y \<leftarrow> status_list_opt rs;
         Some (case y of Inl e \<Rightarrow> Inl e | Inr vs \<Rightarrow> Inr (v # vs))
       }
   }"

definition array_of_status :: "status_code + Value list \<Rightarrow> (status_code + Value) option" where
  "array_of_status r = (case r of Inl e \<Rightarrow> Some (Inl e) | Inr vs \<Rightarrow> Value_ArrayOf vs)"

definition Value_UBitsArray :: "u64 list \<Rightarrow> nat \<Rightarrow> (status_code + Value) option" where
  "Value_UBitsArray elements bit_count =
     (if elements = [] then Some (Inl Unimplemented)
      else array_of_status (status_list (map (\<lambda>x. map_sum id Value_Bits (UBitsWithStatus x bit_count)) elements)))"

definition Value_SBitsArray :: "i64 list \<Rightarrow> nat \<Rightarrow> (status_code + Value) option" where
  "Value_SBitsArray elements bit_count =
     (if elements = [] then Some (Inl Unimplemented)
      else array_of_status (status_list (map (\<lambda>x. map_sum id Value_Bits (SBitsWithStatus x bit_count)) elements)))"

text \<open>The loop of the two-dimensional arrays; the size of the first element is kept, -1 before it.\<close>

fun array_2d_loop ::
    "('a list \<Rightarrow> (status_code + Value) option) \<Rightarrow> 'a list list \<Rightarrow> int \<Rightarrow> Value list \<Rightarrow> (status_code + Value list) option" where
  "array_2d_loop f [] element_size vs = Some (Inr vs)"
| "array_2d_loop f (x # xs) element_size vs = do {
     r \<leftarrow> f x;
     case r of Inl e \<Rightarrow> Some (Inl e)
     | Inr v \<Rightarrow> do {
         n \<leftarrow> Value_size v;
         if element_size = -1 then array_2d_loop f xs (int n) (vs @ [v])
         else if element_size \<noteq> int n then Some (Inl InternalError)
         else array_2d_loop f xs element_size (vs @ [v])
       }
   }"

definition Value_UBits2DArray :: "u64 list list \<Rightarrow> nat \<Rightarrow> (status_code + Value) option" where
  "Value_UBits2DArray elements bit_count =
     (if elements = [] then Some (Inl Unimplemented)
      else do { r \<leftarrow> array_2d_loop (\<lambda>x. Value_UBitsArray x bit_count) elements (-1) []; array_of_status r })"

definition Value_SBits2DArray :: "i64 list list \<Rightarrow> nat \<Rightarrow> (status_code + Value) option" where
  "Value_SBits2DArray elements bit_count =
     (if elements = [] then Some (Inl Unimplemented)
      else do { r \<leftarrow> array_2d_loop (\<lambda>x. Value_SBitsArray x bit_count) elements (-1) []; array_of_status r })"

fun Value_GetFlatBitCount :: "Value \<Rightarrow> nat option" where
  "Value_GetFlatBitCount (Value_Bits b) = Some (Bits_bit_count b)"
| "Value_GetFlatBitCount Value_Token = Some 0"
| "Value_GetFlatBitCount (Value_Tuple vs) = map_option sum_list (those (map Value_GetFlatBitCount vs))"
| "Value_GetFlatBitCount (Value_Array []) = Some 0"
| "Value_GetFlatBitCount (Value_Array (v # vs)) = map_option (\<lambda>n. length (v # vs) * n) (Value_GetFlatBitCount v)"
| "Value_GetFlatBitCount Value_Invalid = None"

text \<open>A conjunction that stops at the first element that is false.\<close>

fun all_opt :: "bool option list \<Rightarrow> bool option" where
  "all_opt [] = Some True"
| "all_opt (r # rs) = do { x \<leftarrow> r; if \<not> x then Some False else all_opt rs }"

fun Value_IsAllZeros :: "Value \<Rightarrow> bool option" where
  "Value_IsAllZeros (Value_Bits b) = Some (Bits_IsZero b)"
| "Value_IsAllZeros (Value_Tuple vs) = all_opt (map Value_IsAllZeros vs)"
| "Value_IsAllZeros (Value_Array vs) = all_opt (map Value_IsAllZeros vs)"
| "Value_IsAllZeros _ = None"

fun Value_IsAllOnes :: "Value \<Rightarrow> bool option" where
  "Value_IsAllOnes (Value_Bits b) = Some (Bits_IsAllOnes b)"
| "Value_IsAllOnes (Value_Tuple vs) = all_opt (map Value_IsAllOnes vs)"
| "Value_IsAllOnes (Value_Array vs) = all_opt (map Value_IsAllOnes vs)"
| "Value_IsAllOnes _ = None"

fun Value_ToString :: "'bn bignum \<Rightarrow> FormatPreference \<Rightarrow> Value \<Rightarrow> string option" where
  "Value_ToString B preference Value_Invalid = Some ''<invalid value>''"
| "Value_ToString B preference (Value_Bits b) =
     map_option (\<lambda>s. ''bits['' @ dec_digits (Bits_bit_count b) @ '']:'' @ s) (BitsToString B b preference False)"
| "Value_ToString B preference (Value_Tuple vs) =
     map_option (\<lambda>ss. ''('' @ str_join '', '' ss @ '')'') (those (map (Value_ToString B preference) vs))"
| "Value_ToString B preference (Value_Array vs) =
     map_option (\<lambda>ss. ''['' @ str_join '', '' ss @ '']'') (those (map (Value_ToString B preference) vs))"
| "Value_ToString B preference Value_Token = Some ''token''"

fun Value_ToHumanString :: "'bn bignum \<Rightarrow> FormatPreference \<Rightarrow> Value \<Rightarrow> string option" where
  "Value_ToHumanString B preference Value_Invalid = Some ''<invalid value>''"
| "Value_ToHumanString B preference (Value_Bits b) = BitsToString B b preference False"
| "Value_ToHumanString B preference (Value_Array vs) =
     map_option (\<lambda>ss. ''['' @ str_join '', '' ss @ '']'') (those (map (Value_ToHumanString B preference) vs))"
| "Value_ToHumanString B preference (Value_Tuple vs) =
     map_option (\<lambda>ss. ''('' @ str_join '', '' ss @ '')'') (those (map (Value_ToHumanString B preference) vs))"
| "Value_ToHumanString B preference Value_Token = Some ''token''"

fun Value_FlattenTo :: "Value \<Rightarrow> BitPushBuffer \<Rightarrow> BitPushBuffer option" and FlattenTo_loop :: "Value list \<Rightarrow> BitPushBuffer \<Rightarrow> BitPushBuffer option" where
  "Value_FlattenTo (Value_Bits b) buffer = Some (Bits_FlattenTo b buffer)"
| "Value_FlattenTo (Value_Tuple vs) buffer = FlattenTo_loop vs buffer"
| "Value_FlattenTo (Value_Array vs) buffer = FlattenTo_loop vs buffer"
| "Value_FlattenTo Value_Token buffer = None"
| "Value_FlattenTo Value_Invalid buffer = None"
| "FlattenTo_loop [] buffer = Some buffer"
| "FlattenTo_loop (v # vs) buffer = do { buffer \<leftarrow> Value_FlattenTo v buffer; FlattenTo_loop vs buffer }"

fun Value_eq :: "Value \<Rightarrow> Value \<Rightarrow> bool option" and Value_eq_loop :: "Value list \<Rightarrow> Value list \<Rightarrow> bool option" where
  "Value_eq (Value_Bits a) (Value_Bits b) = Some (InlineBitmap_eq a b)"
| "Value_eq (Value_Tuple vs) (Value_Tuple ws) = (if length vs \<noteq> length ws then Some False else Value_eq_loop vs ws)"
| "Value_eq (Value_Array vs) (Value_Array ws) = (if length vs \<noteq> length ws then Some False else Value_eq_loop vs ws)"
| "Value_eq Value_Token Value_Token = Some True"
| "Value_eq Value_Invalid Value_Invalid = None"
| "Value_eq _ _ = Some False"
| "Value_eq_loop (v # vs) (w # ws) = do { e \<leftarrow> Value_eq v w; if \<not> e then Some False else Value_eq_loop vs ws }"
| "Value_eq_loop _ _ = Some True"

section \<open>Messages\<close>

datatype ValueProto = ValueProto_NOT_SET | ValueProto_Bits int "u8 list" | ValueProto_Tuple "ValueProto list"
  | ValueProto_Token | ValueProto_Array "ValueProto list"

fun Value_AsProto :: "Value \<Rightarrow> status_code + ValueProto" where
  "Value_AsProto (Value_Bits b) = Inr (ValueProto_Bits (int (Bits_bit_count b)) (Bits_ToBytes b))"
| "Value_AsProto (Value_Tuple vs) = map_sum id ValueProto_Tuple (status_list (map Value_AsProto vs))"
| "Value_AsProto (Value_Array vs) = map_sum id ValueProto_Array (status_list (map Value_AsProto vs))"
| "Value_AsProto Value_Token = Inr ValueProto_Token"
| "Value_AsProto Value_Invalid = Inl InternalError"

text \<open>The default of the limit of \<open>FromProto\<close>, which the recursive calls use whatever limit the outer call has.\<close>

definition default_max_bit_size :: int where
  "default_max_bit_size = 2 ^ 33"

fun Value_FromProto :: "ValueProto \<Rightarrow> int \<Rightarrow> (status_code + Value) option"
  and FromProto_tuple :: "ValueProto list \<Rightarrow> Value list \<Rightarrow> (status_code + Value list) option"
  and FromProto_array :: "ValueProto list \<Rightarrow> Value list \<Rightarrow> (status_code + Value list) option" where
  "Value_FromProto (ValueProto_Bits bit_count data) max_bit_size =
     (if bit_count \<le> 0 then Some (Inl InvalidArgument)
      else if max_bit_size \<le> bit_count then Some (Inl InternalError)
      else
        let byte_size = CeilOfRatio_nat (nat bit_count) 8;
            data = (if byte_size = length data then data else vec_resize byte_size 0 data)
        in do { b \<leftarrow> Bits_FromBytes data (nat bit_count); Some (Inr (Value_Bits b)) })"
| "Value_FromProto (ValueProto_Tuple es) max_bit_size = do {
     r \<leftarrow> FromProto_tuple es [];
     Some (map_sum id Value_Tuple r)
   }"
| "Value_FromProto ValueProto_Token max_bit_size = Some (Inr Value_Token)"
| "Value_FromProto (ValueProto_Array es) max_bit_size =
     (if es = [] then Some (Inl InvalidArgument)
      else do {
        r \<leftarrow> FromProto_array es [];
        Some (map_sum id Value_Array r)
      })"
| "Value_FromProto ValueProto_NOT_SET max_bit_size = Some (Inl InvalidArgument)"
| "FromProto_tuple [] vs = Some (Inr vs)"
| "FromProto_tuple (e # es) vs = do {
     r \<leftarrow> Value_FromProto e default_max_bit_size;
     case r of Inl x \<Rightarrow> Some (Inl x) | Inr v \<Rightarrow> FromProto_tuple es (vs @ [v])
   }"
| "FromProto_array [] vs = Some (Inr vs)"
| "FromProto_array (e # es) vs = do {
     r \<leftarrow> Value_FromProto e default_max_bit_size;
     case r of Inl x \<Rightarrow> Some (Inl x)
     | Inr v \<Rightarrow> do {
         same \<leftarrow> (if length (vs @ [v]) \<noteq> 1 then Value_SameTypeAs (hd (vs @ [v])) v else Some True);
         if \<not> same then Some (Inl InvalidArgument) else FromProto_array es (vs @ [v])
       }
   }"

fun Value_TypeAsProto :: "Value \<Rightarrow> status_code + TypeProto" where
  "Value_TypeAsProto (Value_Bits b) = Inr (TypeProto (Some TypeProto_BITS) (Some (int (Bits_bit_count b))) [] None None)"
| "Value_TypeAsProto (Value_Tuple vs) =
     map_sum id (\<lambda>es. TypeProto (Some TypeProto_TUPLE) None es None None) (status_list (map Value_TypeAsProto vs))"
| "Value_TypeAsProto (Value_Array []) = Inl InternalError"
| "Value_TypeAsProto (Value_Array (v # vs)) =
     map_sum id (\<lambda>e. TypeProto (Some TypeProto_ARRAY) None [] (Some (int (length (v # vs)))) (Some e)) (Value_TypeAsProto v)"
| "Value_TypeAsProto Value_Token = Inr (TypeProto (Some TypeProto_TOKEN) None [] None None)"
| "Value_TypeAsProto Value_Invalid = Inl InternalError"

section \<open>Values of a type\<close>

fun ValueConformsToType :: "Value \<Rightarrow> Type \<Rightarrow> bool option" and ConformsToType_loop :: "Value list \<Rightarrow> Type list \<Rightarrow> bool option" where
  "ValueConformsToType (Value_Bits b) t = Some (case t of BitsType n \<Rightarrow> Bits_bit_count b = n | _ \<Rightarrow> False)"
| "ValueConformsToType (Value_Array vs) t =
     (case t of ArrayType n u \<Rightarrow>
        if n \<noteq> length vs then Some False
        else (case vs of [] \<Rightarrow> Some True | v # _ \<Rightarrow> ValueConformsToType v u)
      | _ \<Rightarrow> Some False)"
| "ValueConformsToType (Value_Tuple vs) t =
     (case t of TupleType ts \<Rightarrow> if length ts \<noteq> length vs then Some False else ConformsToType_loop vs ts | _ \<Rightarrow> Some False)"
| "ValueConformsToType Value_Token t = Some (Type_IsToken t)"
| "ValueConformsToType Value_Invalid t = None"
| "ConformsToType_loop (v # vs) (t # ts) = do {
     ok \<leftarrow> ValueConformsToType v t;
     if \<not> ok then Some False else ConformsToType_loop vs ts
   }"
| "ConformsToType_loop _ _ = Some True"

fun ValueOfType :: "(nat \<Rightarrow> Bits option) \<Rightarrow> Type \<Rightarrow> Value option" where
  "ValueOfType fbits (BitsType n) = map_option Value_Bits (fbits n)"
| "ValueOfType fbits (TupleType ts) = map_option Value_Tuple (those (map (ValueOfType fbits) ts))"
| "ValueOfType fbits (ArrayType n t) = do {
     vs \<leftarrow> those (map (\<lambda>_. ValueOfType fbits t) [0..<n]);
     r \<leftarrow> Value_ArrayOf vs;
     value_of r
   }"
| "ValueOfType fbits TokenType = Some Value_Token"

definition ZeroOfType :: "Type \<Rightarrow> Value option" where
  "ZeroOfType t = ValueOfType (UBits 0) t"

definition AllOnesOfType :: "Type \<Rightarrow> Value option" where
  "AllOnesOfType t = ValueOfType (\<lambda>n. if n = 0 then Some (Bits_new 0) else SBits (- 1) n) t"

fun ValueLeafNodes :: "Value \<Rightarrow> Value list option" where
  "ValueLeafNodes (Value_Bits b) = Some [Value_Bits b]"
| "ValueLeafNodes Value_Token = Some [Value_Token]"
| "ValueLeafNodes (Value_Tuple vs) = map_option concat (those (map ValueLeafNodes vs))"
| "ValueLeafNodes (Value_Array vs) = map_option concat (those (map ValueLeafNodes vs))"
| "ValueLeafNodes Value_Invalid = None"

text \<open>A \<open>float\<close> is its bit pattern.\<close>

definition F32ToTuple :: "32 word \<Rightarrow> Value option" where
  "F32ToTuple x = do {
     let sign = (drop_bit 31 x \<noteq> 0);
     let exp = (ucast (drop_bit 23 x) :: u8);
     let fraction = x AND ucast (Mask 23);
     s \<leftarrow> Bits_FromBytes [of_bool sign] 1;
     e \<leftarrow> Bits_FromBytes [exp] 8;
     f \<leftarrow> UBits (ucast fraction) 23;
     Some (Value_Tuple [Value_Bits s, Value_Bits e, Value_Bits f])
   }"

text \<open>A field of the tuple: its width is checked, then it is read as a \<open>uint32_t\<close>.\<close>

definition F32_field :: "Value \<Rightarrow> nat \<Rightarrow> nat \<Rightarrow> (status_code + 32 word) option" where
  "F32_field v i width = do {
     e \<leftarrow> Value_element v i;
     b \<leftarrow> Value_bits e;
     Some (if Bits_bit_count b \<noteq> width then Inl InternalError else map_sum id ucast (Bits_ToUint64 b))
   }"

definition TupleToF32 :: "Value \<Rightarrow> (status_code + 32 word) option" where
  "TupleToF32 v =
     (case v of Value_Tuple vs \<Rightarrow>
        if length vs \<noteq> 3 then Some (Inl InternalError)
        else do {
          sign \<leftarrow> F32_field v 0 1;
          case sign of Inl e \<Rightarrow> Some (Inl e)
          | Inr sign \<Rightarrow> do {
              exp \<leftarrow> F32_field v 1 8;
              case exp of Inl e \<Rightarrow> Some (Inl e)
              | Inr exp \<Rightarrow> do {
                  fraction \<leftarrow> F32_field v 2 23;
                  Some (case fraction of Inl e \<Rightarrow> Inl e
                        | Inr fraction \<Rightarrow> Inr (push_bit 31 sign OR push_bit 23 exp OR fraction))
                }
            }
        }
      | _ \<Rightarrow> Some (Inl InternalError))"

section \<open>Packing into bits\<close>

fun GatherValueLeaves :: "Value \<Rightarrow> Bits list option" where
  "GatherValueLeaves (Value_Bits b) = Some [b]"
| "GatherValueLeaves (Value_Tuple vs) = map_option concat (those (map GatherValueLeaves vs))"
| "GatherValueLeaves (Value_Array vs) = map_option concat (those (rev (map GatherValueLeaves vs)))"
| "GatherValueLeaves _ = None"

definition FlattenValueToBits :: "Value \<Rightarrow> Bits option" where
  "FlattenValueToBits v = do { leaves \<leftarrow> GatherValueLeaves v; bits_ops_Concat leaves }"

definition GetFlatBitIndexOfElement :: "Type list \<Rightarrow> nat \<Rightarrow> nat option" where
  "GetFlatBitIndexOfElement ts index =
     (if \<not> index < length ts then None
      else Some (sum_list (map Type_GetFlatBitCount (drop (Suc index) ts))))"

definition GetFlatBitIndexOfArrayElement :: "nat \<Rightarrow> Type \<Rightarrow> nat \<Rightarrow> nat option" where
  "GetFlatBitIndexOfArrayElement n t index = (if \<not> index < n then None else Some (index * Type_GetFlatBitCount t))"

function UnflattenBitsToValue :: "Bits \<Rightarrow> Type \<Rightarrow> (status_code + Value) option" where
  "UnflattenBitsToValue bits t =
     (if Bits_bit_count bits \<noteq> Type_GetFlatBitCount t then Some (Inl InvalidArgument)
      else case t of
        BitsType n \<Rightarrow> Some (Inr (Value_Bits bits))
      | TupleType ts \<Rightarrow> do {
          r \<leftarrow> status_list_opt (map (\<lambda>i. do {
            start \<leftarrow> GetFlatBitIndexOfElement ts i;
            s \<leftarrow> Bits_Slice bits start (Type_GetFlatBitCount (ts ! i));
            UnflattenBitsToValue s (ts ! i)
          }) [0..<length ts]);
          Some (map_sum id Value_Tuple r)
        }
      | ArrayType n u \<Rightarrow> do {
          r \<leftarrow> status_list_opt (map (\<lambda>i. do {
            start \<leftarrow> GetFlatBitIndexOfArrayElement n u i;
            s \<leftarrow> Bits_Slice bits start (Type_GetFlatBitCount u);
            UnflattenBitsToValue s u
          }) [0..<n]);
          array_of_status r
        }
      | TokenType \<Rightarrow> Some (Inl InvalidArgument))"
  by pat_completeness auto
termination
  by (relation "measure (\<lambda>(b, t). size t)") (auto intro: size_list_estimation' nth_mem less_SucI simp: less_Suc_eq_le)

declare UnflattenBitsToValue.simps [simp del]

section \<open>The builder and conversions\<close>

datatype ValueBuilder = ArrayHolder "MaybeValueBuilder list" | TupleHolder "MaybeValueBuilder list" | ValueHolder Value
  and MaybeValueBuilder = Maybe_Builder ValueBuilder | Maybe_Value Value

text \<open>Every element is built; the first error is the one reported.\<close>

fun ValueBuilder_Build :: "ValueBuilder \<Rightarrow> (status_code + Value) option"
  and BuildAll :: "MaybeValueBuilder list \<Rightarrow> (status_code + Value list) option"
  and Build_one :: "MaybeValueBuilder \<Rightarrow> (status_code + Value) option" where
  "ValueBuilder_Build (ValueHolder v) = Some (Inr v)"
| "ValueBuilder_Build (ArrayHolder ms) = do { r \<leftarrow> BuildAll ms; array_of_status r }"
| "ValueBuilder_Build (TupleHolder ms) = do { r \<leftarrow> BuildAll ms; Some (map_sum id Value_Tuple r) }"
| "BuildAll [] = Some (Inr [])"
| "BuildAll (m # ms) = do {
     r \<leftarrow> Build_one m;
     rs \<leftarrow> BuildAll ms;
     Some (case r of Inl e \<Rightarrow> Inl e | Inr v \<Rightarrow> map_sum id (Cons v) rs)
   }"
| "Build_one (Maybe_Builder b) = ValueBuilder_Build b"
| "Build_one (Maybe_Value v) = Some (Inr v)"

definition ValueBuilder_ArrayB :: "ValueBuilder list \<Rightarrow> ValueBuilder" where
  "ValueBuilder_ArrayB elements = ArrayHolder (map Maybe_Builder elements)"

definition ValueBuilder_ArrayV :: "Value list \<Rightarrow> ValueBuilder" where
  "ValueBuilder_ArrayV elements = ArrayHolder (map Maybe_Value elements)"

definition ValueBuilder_TupleB :: "ValueBuilder list \<Rightarrow> ValueBuilder" where
  "ValueBuilder_TupleB elements = TupleHolder (map Maybe_Builder elements)"

definition ValueBuilder_TupleV :: "Value list \<Rightarrow> ValueBuilder" where
  "ValueBuilder_TupleV elements = TupleHolder (map Maybe_Value elements)"

definition ValueBuilder_UBitsArray :: "u64 list \<Rightarrow> nat \<Rightarrow> ValueBuilder option" where
  "ValueBuilder_UBitsArray elements bit_count =
     map_option ValueBuilder_ArrayV (those (map (\<lambda>v. map_option Value_Bits (UBits v bit_count)) elements))"

definition ValueBuilder_UBits2DArray :: "u64 list list \<Rightarrow> nat \<Rightarrow> ValueBuilder option" where
  "ValueBuilder_UBits2DArray elements bit_count =
     map_option ValueBuilder_ArrayB (those (map (\<lambda>v. ValueBuilder_UBitsArray v bit_count) elements))"

definition ValueBuilder_SBitsArray :: "i64 list \<Rightarrow> nat \<Rightarrow> ValueBuilder option" where
  "ValueBuilder_SBitsArray elements bit_count =
     map_option ValueBuilder_ArrayV (those (map (\<lambda>v. map_option Value_Bits (SBits v bit_count)) elements))"

definition ValueBuilder_SBits2DArray :: "i64 list list \<Rightarrow> nat \<Rightarrow> ValueBuilder option" where
  "ValueBuilder_SBits2DArray elements bit_count =
     map_option ValueBuilder_ArrayB (those (map (\<lambda>v. ValueBuilder_SBitsArray v bit_count) elements))"

definition ConvertInt64 :: "Type \<Rightarrow> i64 \<Rightarrow> status_code + Value" where
  "ConvertInt64 t v = (case t of BitsType n \<Rightarrow> map_sum id Value_Bits (SBitsWithStatus v n) | _ \<Rightarrow> Inl InvalidArgument)"

definition ConvertUint64 :: "Type \<Rightarrow> u64 \<Rightarrow> status_code + Value" where
  "ConvertUint64 t v = (case t of BitsType n \<Rightarrow> map_sum id Value_Bits (UBitsWithStatus v n) | _ \<Rightarrow> Inl InvalidArgument)"

definition ConvertFromXlsValue_bool :: "Value \<Rightarrow> status_code + bool" where
  "ConvertFromXlsValue_bool v =
     (case v of Value_Bits b \<Rightarrow>
        if \<not> Bits_FitsInNBitsUnsigned b 1 then Inl InvalidArgument
        else map_sum id (\<lambda>w. w \<noteq> 0) (Bits_ToUint64 b)
      | _ \<Rightarrow> Inl InvalidArgument)"

section \<open>Typed values\<close>

text \<open>The typing relation: what the operations below create and preserve. Arrays have elements, all of one type.\<close>

inductive has_type :: "Value \<Rightarrow> Type \<Rightarrow> bool" where
  bits: "bm_wf b \<Longrightarrow> Bits_bit_count b = n \<Longrightarrow> has_type (Value_Bits b) (BitsType n)"
| tuple: "list_all2 has_type vs ts \<Longrightarrow> has_type (Value_Tuple vs) (TupleType ts)"
| array: "vs \<noteq> [] \<Longrightarrow> length vs = n \<Longrightarrow> list_all (\<lambda>v. has_type v t) vs \<Longrightarrow> has_type (Value_Array vs) (ArrayType n t)"
| token: "has_type Value_Token TokenType"

inductive_simps has_type_simps [simp]:
  "has_type (Value_Bits b) (BitsType n)" "has_type (Value_Tuple vs) (TupleType ts)" "has_type (Value_Array vs) (ArrayType n t)"
  "has_type v TokenType" "has_type Value_Token t" "has_type Value_Invalid t"

inductive_cases has_type_valueE: "has_type (Value_Bits b) t" "has_type (Value_Tuple vs) t" "has_type (Value_Array vs) t"

inductive_cases has_type_typeE: "has_type v (BitsType n)" "has_type v (TupleType ts)" "has_type v (ArrayType n t)"

definition typed :: "Value \<Rightarrow> bool" where
  "typed v \<longleftrightarrow> (\<exists>t. has_type v t)"

text \<open>Induction over typed values, with the element types at hand.\<close>

lemma SameTypeAs_typed:
  assumes "has_type v t" "has_type w u"
  shows "Value_SameTypeAs v w = Some (t = u)"
  using assms
proof (induction arbitrary: w u)
  case (bits b n)
  from bits(3) show ?case using bits(1,2) by (cases rule: has_type.cases) auto
next
  case (tuple vs ts)
  have loop: "SameTypeAs_loop vs ws = Some (ts = us)" if "list_all2 has_type ws us" "length ws = length vs" for ws us
    using tuple(1) that
  proof (induction arbitrary: ws us rule: list_all2_induct)
    case (Cons v vs t ts)
    from Cons(4,5) obtain w ws' u us' where w: "ws = w # ws'" "us = u # us'" "has_type w u" "list_all2 has_type ws' us'"
      by (cases ws; cases us) auto
    then show ?case using Cons(1,3,5) by simp
  qed (auto simp: list_all2_Nil)
  from tuple(2) show ?case
  proof (cases rule: has_type.cases)
    case (tuple ws us)
    then show ?thesis using loop [OF tuple(3)] list_all2_lengthD [OF tuple(3)] list_all2_lengthD [OF \<open>list_all2 _ vs ts\<close>] by auto
  qed auto
next
  case (array vs n t)
  from array(4) show ?case
  proof (cases rule: has_type.cases)
    case (array ws m u')
    then show ?thesis using \<open>vs \<noteq> []\<close> \<open>length vs = n\<close> \<open>list_all _ vs\<close> by (cases vs; cases ws) auto
  qed auto
next
  case token
  from token show ?case by (cases rule: has_type.cases) auto
qed

lemma has_type_unique: "has_type v t \<Longrightarrow> has_type v u \<Longrightarrow> t = u"
  using SameTypeAs_typed [of v t v t] SameTypeAs_typed [of v t v u] by simp

lemma Conforms_typed:
  assumes "has_type v t"
  shows "ValueConformsToType v u = Some (t = u)"
  using assms
proof (induction arbitrary: u)
  case (tuple vs ts)
  have loop: "ConformsToType_loop vs us = Some (ts = us)" if "length us = length vs" for us
    using tuple(1) that
  proof (induction arbitrary: us rule: list_all2_induct)
    case (Cons v vs t ts)
    then show ?case by (cases us) auto
  qed auto
  show ?case using loop list_all2_lengthD [OF tuple(1)] by (cases u) auto
next
  case (array vs n t)
  then show ?case by (cases u; cases vs) auto
qed (auto split: Type.splits)

lemma status_list_Inr: "status_list (map f xs) = Inr ys \<longleftrightarrow> list_all2 (\<lambda>x y. f x = Inr y) xs ys"
proof (induction xs arbitrary: ys)
  case (Cons x xs)
  then show ?case by (cases "f x"; cases "status_list (map f xs)") (auto simp: list_all2_Cons1 simp flip: Cons.IH)
qed auto

lemma TypeAsProto_typed: "has_type v t \<Longrightarrow> Value_TypeAsProto v = Inr (Type_ToProto t)"
proof (induction rule: has_type.induct)
  case (tuple vs ts)
  then have "status_list (map Value_TypeAsProto vs) = Inr (map Type_ToProto ts)"
    unfolding status_list_Inr by (auto simp: list.rel_map elim: list_all2_mono)
  then show ?case by simp
next
  case (array vs n t)
  then show ?case by (cases vs) auto
qed auto

lemma Array_check_typed:
  "has_type v t \<Longrightarrow> \<forall>w \<in> set ws. typed w \<Longrightarrow> Array_check_loop v ws = Some (\<forall>w \<in> set ws. has_type w t)"
proof (induction ws)
  case (Cons w ws)
  then obtain u where u: "has_type w u" by (auto simp: typed_def)
  then have "has_type w t \<longleftrightarrow> t = u" using has_type_unique by blast
  then show ?case using Cons.IH [OF Cons.prems(1)] Cons.prems(2) SameTypeAs_typed [OF Cons.prems(1) u] by simp
qed simp

lemma ArrayOf_typed:
  assumes "\<forall>v \<in> set vs. typed v"
  shows "Value_ArrayOf vs = Some
    (if vs = [] then Inl Unimplemented else if \<exists>t. has_type (Value_Array vs) t then Inr (Value_Array vs) else Inl InternalError)"
proof (cases vs)
  case (Cons v ws)
  then obtain t where t: "has_type v t" using assms by (auto simp: typed_def)
  have "(\<exists>u. has_type (Value_Array vs) u) \<longleftrightarrow> (\<forall>w \<in> set ws. has_type w t)"
  proof
    assume "\<exists>u. has_type (Value_Array vs) u"
    then obtain u where "has_type v u" "\<forall>w \<in> set ws. has_type w u" unfolding Cons by (auto simp: list_all_iff elim!: has_type_valueE(3))
    then show "\<forall>w \<in> set ws. has_type w t" using has_type_unique [OF t] by blast
  next
    assume "\<forall>w \<in> set ws. has_type w t"
    then have "has_type (Value_Array vs) (ArrayType (length vs) t)" using t by (simp add: Cons list_all_iff)
    then show "\<exists>u. has_type (Value_Array vs) u" by blast
  qed
  then show ?thesis using Array_check_typed [OF t, of ws] assms by (simp add: Cons Value_ArrayOf_def)
qed (simp add: Value_ArrayOf_def)

lemma ArrayOf_Inr:
  assumes "has_type (Value_Array vs) t"
  shows "Value_ArrayOf vs = Some (Inr (Value_Array vs))"
proof -
  from assms have "\<forall>v \<in> set vs. typed v" "vs \<noteq> []" unfolding typed_def by (auto simp: list_all_iff elim!: has_type_valueE(3)) (blast)?
  then show ?thesis using ArrayOf_typed [of vs] assms by auto
qed

text \<open>Sizes of typed values.\<close>

lemma those_Some: "those (map f xs) = Some ys \<longleftrightarrow> list_all2 (\<lambda>x y. f x = Some y) xs ys"
proof (induction xs arbitrary: ys)
  case (Cons x xs)
  then show ?case by (cases "f x"; cases "those (map f xs)") (auto simp: list_all2_Cons1 simp flip: Cons.IH)
qed auto

lemma those_all: "(\<And>x. x \<in> set xs \<Longrightarrow> f x = Some (g x)) \<Longrightarrow> those (map f xs) = Some (map g xs)"
  by (simp add: those_Some list_all2_map2 list_all2_same)

lemma sum_list_replicate_all: "list_all (\<lambda>v. f v = k) vs \<Longrightarrow> sum_list (map f vs) = length vs * (k :: nat)"
  by (induction vs) auto

lemma GetFlatBitCount_typed: "has_type v t \<Longrightarrow> Value_GetFlatBitCount v = Some (Type_GetFlatBitCount t)"
proof (induction rule: has_type.induct)
  case (tuple vs ts)
  then have "those (map Value_GetFlatBitCount vs) = Some (map Type_GetFlatBitCount ts)"
    unfolding those_Some by (auto simp: list.rel_map elim: list_all2_mono)
  then show ?case by simp
next
  case (array vs n t)
  then show ?case by (cases vs) (auto simp: mult.commute)
qed auto

section \<open>Zero and one values\<close>

text \<open>Types all of whose arrays have elements: those with values.\<close>

fun inhabited :: "Type \<Rightarrow> bool" where
  "inhabited (BitsType n) = True"
| "inhabited (TupleType ts) = list_all inhabited ts"
| "inhabited (ArrayType n t) = (0 < n \<and> inhabited t)"
| "inhabited TokenType = True"

lemma has_type_inhabited: "has_type v t \<Longrightarrow> inhabited t"
proof (induction rule: has_type.induct)
  case (tuple vs ts)
  then show ?case by (auto simp: list_all_length list_all2_conv_all_nth)
next
  case (array vs n t)
  then show ?case by (cases vs) auto
qed auto

text \<open>A value with one vector for each width.\<close>

fun uniform :: "(nat \<Rightarrow> Bits) \<Rightarrow> Type \<Rightarrow> Value" where
  "uniform f (BitsType n) = Value_Bits (f n)"
| "uniform f (TupleType ts) = Value_Tuple (map (uniform f) ts)"
| "uniform f (ArrayType n t) = Value_Array (replicate n (uniform f t))"
| "uniform f TokenType = Value_Token"

lemma uniform_typed:
  assumes "\<And>n. bm_wf (f n) \<and> Bits_bit_count (f n) = n" "inhabited t"
  shows "has_type (uniform f t) t"
  using assms(2)
proof (induction t)
  case (TupleType ts)
  then show ?case by (auto simp: list_all2_map1 list_all2_same list_all_iff)
qed (use assms(1) in \<open>auto simp: list_all_iff\<close>)

lemma ValueOfType_uniform:
  assumes "\<And>n. g n = Some (f n)" "\<And>n. bm_wf (f n) \<and> Bits_bit_count (f n) = n"
  shows "ValueOfType g t = (if inhabited t then Some (uniform f t) else None)"
proof (induction t)
  case (TupleType ts)
  show ?case
  proof (cases "list_all inhabited ts")
    case True
    then show ?thesis using TupleType those_all [of ts "ValueOfType g" "uniform f"] by (auto simp: list_all_iff)
  next
    case False
    then obtain t where "t \<in> set ts" "ValueOfType g t = None" using TupleType by (auto simp: list_all_iff)
    then have "those (map (ValueOfType g) ts) = None" by (induction ts) (auto split: option.splits)
    then show ?thesis using False by simp
  qed
next
  case (ArrayType n t)
  show ?case
  proof (cases "n = 0")
    case True
    then show ?thesis by (simp add: Value_ArrayOf_def value_of_def)
  next
    case False
    then obtain m where n: "n = Suc m" by (cases n) auto
    show ?thesis
    proof (cases "inhabited t")
      case True
      have ty: "has_type (uniform f t) t" by (rule uniform_typed [OF assms(2) True])
      have l: "those (map (\<lambda>_. ValueOfType g t) [0..<n]) = Some (replicate n (uniform f t))"
        using ArrayType True those_all [of "[0..<n]" "\<lambda>_. ValueOfType g t" "\<lambda>_. uniform f t"] by (simp add: map_replicate_const)
      have "has_type (Value_Array (replicate n (uniform f t))) (ArrayType n t)" using ty n by (simp add: list_all_iff)
      note ArrayOf_Inr [OF this]
      then show ?thesis using l True n by (simp add: value_of_def del: upt_Suc replicate_Suc)
    next
      case False
      then show ?thesis using ArrayType n by (simp add: upt_conv_Cons del: upt_Suc)
    qed
  qed
qed (use assms(1) in auto)

lemma UBits_zero_value: "UBits 0 n = Some (bits_of_nat n 0)"
  by (rule UBits_value [of 0 n, simplified])

lemma ZeroOfType_eq: "ZeroOfType t = (if inhabited t then Some (uniform (\<lambda>n. bits_of_nat n 0) t) else None)"
  unfolding ZeroOfType_def by (rule ValueOfType_uniform) (simp_all add: UBits_zero_value)

lemma all_opt_True: "list_all (\<lambda>x. f x = Some True) xs \<Longrightarrow> all_opt (map f xs) = Some True"
  by (induction xs) auto

lemma uniform_all:
  assumes "\<not> TypeHasToken t" "\<And>n. Bits_IsZero (f n)"
  shows "Value_IsAllZeros (uniform f t) = Some True"
  using assms(1)
proof (induction t)
  case (TupleType ts)
  then show ?case by (auto simp: list_ex_iff list_all_iff comp_def intro!: all_opt_True)
next
  case (ArrayType n t)
  then show ?case using all_opt_True [of Value_IsAllZeros "replicate n (uniform f t)"] by (simp add: list_all_iff)
qed (use assms(2) in auto)

lemma uniform_all_ones:
  assumes "\<not> TypeHasToken t" "\<And>n. Bits_IsAllOnes (f n)"
  shows "Value_IsAllOnes (uniform f t) = Some True"
  using assms(1)
proof (induction t)
  case (TupleType ts)
  then show ?case by (auto simp: list_ex_iff list_all_iff comp_def intro!: all_opt_True)
next
  case (ArrayType n t)
  then show ?case using all_opt_True [of Value_IsAllOnes "replicate n (uniform f t)"] by (simp add: list_all_iff)
qed (use assms(2) in auto)

lemma SBits_all_ones: "(if n = 0 then Some (Bits_new 0) else SBits (- 1) n) = Some (Bits_AllOnes n)"
proof (cases "n = 0")
  case True
  have "Bits_new 0 = Bits_AllOnes 0" by (simp add: Bits_eq_iff_uval)
  then show ?thesis using True by simp
next
  case False
  then obtain b where b: "SBits (- 1) n = Some b" "bm_wf b" "Bits_bit_count b = n" "sval b = - 1"
    using SBits_correct [of n "- 1"] less_trans [of "- 1" 0 "2 ^ (n - 1) :: int"] by auto
  have "int (uval b) = 2 ^ n - 1" using sval_mod [of b] b(3,4) zmod_minus1 [of "2 ^ n"] by simp
  then have "int (uval b) = int (2 ^ n - 1)" by (simp add: of_nat_diff del: One_nat_def)
  then have "uval b = 2 ^ n - 1" by (rule iffD1 [OF of_nat_eq_iff])
  then have "b = Bits_AllOnes n" using b by (simp add: Bits_eq_iff_uval)
  then show ?thesis using b False by simp
qed

lemma AllOnesOfType_eq: "AllOnesOfType t = (if inhabited t then Some (uniform Bits_AllOnes t) else None)"
  unfolding AllOnesOfType_def by (rule ValueOfType_uniform) (simp_all add: SBits_all_ones)

section \<open>Storing and loading\<close>

text \<open>Types whose vectors of bits fit a message: at least one bit, and below the limit.\<close>

fun storable :: "Type \<Rightarrow> bool" where
  "storable (BitsType n) = (0 < n \<and> int n < default_max_bit_size)"
| "storable (TupleType ts) = list_all storable ts"
| "storable (ArrayType n t) = storable t"
| "storable TokenType = True"

lemma status_list_ex: "list_all (\<lambda>x. \<exists>y. f x = Inr y) xs \<Longrightarrow> \<exists>ys. status_list (map f xs) = Inr ys"
  by (induction xs) auto

lemma AsProto_typed: "has_type v t \<Longrightarrow> \<exists>p. Value_AsProto v = Inr p"
proof (induction rule: has_type.induct)
  case (tuple vs ts)
  then have "list_all (\<lambda>v. \<exists>p. Value_AsProto v = Inr p) vs" by (auto simp: list_all2_conv_all_nth list_all_length)
  then show ?case using status_list_ex by fastforce
next
  case (array vs n t)
  then have "list_all (\<lambda>v. \<exists>p. Value_AsProto v = Inr p) vs" by (auto simp: list_all_iff)
  then show ?case using status_list_ex by fastforce
qed auto

definition loads_back :: "Value \<Rightarrow> bool" where
  "loads_back v \<longleftrightarrow> (\<forall>p. Value_AsProto v = Inr p \<longrightarrow> Value_FromProto p default_max_bit_size = Some (Inr v))"

lemma FromProto_tuple_loop:
  "list_all2 (\<lambda>v p. Value_AsProto v = Inr p) vs ps \<Longrightarrow> list_all loads_back vs \<Longrightarrow> FromProto_tuple ps acc = Some (Inr (acc @ vs))"
  by (induction arbitrary: acc rule: list_all2_induct) (auto simp: loads_back_def)

lemma FromProto_array_loop:
  assumes "list_all2 (\<lambda>v p. Value_AsProto v = Inr p) vs ps" "list_all loads_back vs" "list_all (\<lambda>v. has_type v t) (acc @ vs)"
  shows "FromProto_array ps acc = Some (Inr (acc @ vs))"
  using assms
proof (induction arbitrary: acc rule: list_all2_induct)
  case (Cons v vs p ps)
  have v: "Value_FromProto p default_max_bit_size = Some (Inr v)" using Cons.hyps(1) Cons.prems(1) by (simp add: loads_back_def)
  have h: "has_type (hd (acc @ [v])) t" "has_type v t" using Cons.prems(2) by (cases acc; simp)+
  then show ?case using Cons.IH [of "acc @ [v]"] Cons.prems v SameTypeAs_typed [OF h] by (cases acc) simp_all
qed simp

lemma loads_back_typed:
  assumes "has_type v t" "storable t"
  shows "loads_back v"
  using assms
proof (induction rule: has_type.induct)
  case (bits b n)
  then show ?case using length_ToBytes [of b] FromBytes_ToBytes_id [of b] by (simp add: loads_back_def Let_def)
next
  case (tuple vs ts)
  then have "list_all loads_back vs" by (auto simp: list_all2_conv_all_nth list_all_length)
  then show ?case using FromProto_tuple_loop [of vs] by (auto simp: loads_back_def status_list_Inr map_sum_def split: sum.splits)
next
  case (array vs n t)
  then have l: "list_all loads_back vs" "list_all (\<lambda>v. has_type v t) vs" by (auto simp: list_all_iff)
  have "ps \<noteq> []" if "list_all2 (\<lambda>v p. Value_AsProto v = Inr p) vs ps" for ps using that array(1) by auto
  then show ?case using FromProto_array_loop [of vs _ t "[]"] l by (auto simp: loads_back_def status_list_Inr map_sum_def split: sum.splits)
qed (auto simp: loads_back_def)

theorem proto_round_trip:
  assumes "has_type v t" "storable t"
  shows "\<exists>p. Value_AsProto v = Inr p \<and> Value_FromProto p default_max_bit_size = Some (Inr v)"
  using AsProto_typed [OF assms(1)] loads_back_typed [OF assms] by (auto simp: loads_back_def)

text \<open>Loading never crashes, and what it returns has a type.\<close>

lemma length_vec_resize: "length (vec_resize n x xs) = n"
  by (simp add: vec_resize_def)

definition sound_load :: "(status_code + Value) option \<Rightarrow> bool" where
  "sound_load r \<longleftrightarrow> (\<exists>e. r = Some (Inl e)) \<or> (\<exists>v. r = Some (Inr v) \<and> typed v)"

definition sound_tuple :: "Value list \<Rightarrow> (status_code + Value list) option \<Rightarrow> bool" where
  "sound_tuple acc r \<longleftrightarrow> list_all typed acc \<longrightarrow> (\<exists>e. r = Some (Inl e)) \<or> (\<exists>vs. r = Some (Inr vs) \<and> list_all typed vs)"

definition sound_array :: "ValueProto list \<Rightarrow> Value list \<Rightarrow> (status_code + Value list) option \<Rightarrow> bool" where
  "sound_array ps acc r \<longleftrightarrow> (\<forall>t. list_all (\<lambda>v. has_type v t) acc \<longrightarrow>
     (\<exists>e. r = Some (Inl e)) \<or> (\<exists>vs u. r = Some (Inr vs) \<and> length vs = length acc + length ps \<and> list_all (\<lambda>v. has_type v u) vs))"

lemma typed_tuple: "list_all typed vs \<Longrightarrow> typed (Value_Tuple vs)"
proof -
  assume "list_all typed vs"
  then obtain ts where "list_all2 has_type vs ts" by (induction vs) (auto simp: typed_def list_all2_Cons1)
  then show ?thesis unfolding typed_def by (blast intro: has_type.tuple)
qed

lemma FromProto_sound:
  "sound_load (Value_FromProto p m)" "sound_tuple acc (FromProto_tuple ps acc)" "sound_array ps acc (FromProto_array ps acc)"
proof (induction p m and ps acc and ps acc rule: Value_FromProto_FromProto_tuple_FromProto_array.induct)
  case (1 n data m)
  let ?d = "if CeilOfRatio_nat (nat n) 8 = length data then data else vec_resize (CeilOfRatio_nat (nat n) 8) 0 data"
  have "length ?d = CeilOfRatio_nat (nat n) 8" by (simp add: length_vec_resize)
  then obtain b where "Bits_FromBytes ?d (nat n) = Some b" "bm_wf b" using FromBytes_correct by blast
  moreover have "typed (Value_Bits b)" unfolding typed_def using has_type.bits [OF calculation(2) refl] by blast
  ultimately show ?case by (simp add: sound_load_def Let_def)
next
  case (2 es m)
  then show ?case using typed_tuple by (auto simp: sound_load_def sound_tuple_def)
next
  case (4 es m)
  show ?case
  proof (cases "es = []")
    case False
    then have s: "sound_array es [] (FromProto_array es [])" using 4 by blast
    have "typed (Value_Array vs)" if "length vs = length es" "list_all (\<lambda>v. has_type v u) vs" for vs u
      using that False by (auto simp: typed_def intro!: exI [of _ "ArrayType (length vs) u"])
    then show ?thesis using s False by (auto simp: sound_load_def sound_array_def)
  qed (simp add: sound_load_def)
next
  case (7 e es vs)
  then show ?case by (auto simp: sound_load_def sound_tuple_def)
next
  case (9 e es vs)
  have e: "sound_load (Value_FromProto e default_max_bit_size)" using 9(1) .
  show ?case
  proof (cases "\<exists>v. Value_FromProto e default_max_bit_size = Some (Inr v)")
    case True
    then obtain v u where v: "Value_FromProto e default_max_bit_size = Some (Inr v)" "has_type v u" using e by (auto simp: sound_load_def typed_def)
    have IH: "sound_array es (vs @ [v]) (FromProto_array es (vs @ [v]))"
      if "(if length (vs @ [v]) \<noteq> 1 then Value_SameTypeAs (hd (vs @ [v])) v else Some True) = Some True"
      using 9(2) [OF v(1) refl that] by simp
    show ?thesis
    proof (cases vs)
      case Nil
      then show ?thesis using IH v by (auto simp: sound_array_def)
    next
      case (Cons w ws)
      have "(\<exists>e'. FromProto_array (e # es) vs = Some (Inl e')) \<or>
          (\<exists>xs u. FromProto_array (e # es) vs = Some (Inr xs) \<and> length xs = length vs + length (e # es) \<and> list_all (\<lambda>v. has_type v u) xs)"
        if t: "list_all (\<lambda>v. has_type v t) vs" for t
      proof -
        have same: "Value_SameTypeAs w v = Some (t = u)" using t Cons SameTypeAs_typed [OF _ v(2), of w t] by simp
        show ?thesis
        proof (cases "t = u")
          case True
          then show ?thesis using IH same Cons v t unfolding sound_array_def by (auto dest!: spec [of _ t])
        next
          case False
          then show ?thesis using same Cons v(1) by simp
        qed
      qed
      then show ?thesis unfolding sound_array_def by blast
    qed
  next
    case False
    then show ?thesis using e by (auto simp: sound_load_def sound_array_def)
  qed
qed (auto simp: sound_load_def sound_tuple_def sound_array_def typed_def)

section \<open>Packing and unpacking\<close>

text \<open>The bits of a value, the least significant first: the last element of a tuple and the first of an array come lowest.\<close>

fun flat_bits :: "Value \<Rightarrow> bool list" where
  "flat_bits (Value_Bits b) = bm_bits b"
| "flat_bits (Value_Tuple vs) = concat (rev (map flat_bits vs))"
| "flat_bits (Value_Array vs) = concat (map flat_bits vs)"
| "flat_bits _ = []"

lemma concat_rev_bits: "concat (map bm_bits (rev (concat lss))) = concat (rev (map (\<lambda>ls. concat (map bm_bits (rev ls))) lss))"
  by (induction lss) simp_all

lemma GatherValueLeaves_typed:
  assumes "has_type v t" "\<not> TypeHasToken t"
  shows "\<exists>ls. GatherValueLeaves v = Some ls \<and> concat (map bm_bits (rev ls)) = flat_bits v"
  using assms
proof (induction rule: has_type.induct)
  case (tuple vs ts)
  then have "\<forall>v \<in> set vs. \<exists>ls. GatherValueLeaves v = Some ls \<and> concat (map bm_bits (rev ls)) = flat_bits v"
    by (auto simp: list_all2_conv_all_nth list_ex_length in_set_conv_nth)
  then obtain g where g: "\<forall>v \<in> set vs. GatherValueLeaves v = Some (g v) \<and> concat (map bm_bits (rev (g v))) = flat_bits v" by metis
  then have "those (map GatherValueLeaves vs) = Some (map g vs)" by (intro those_all) simp
  moreover have "concat (map bm_bits (rev (concat (map g vs)))) = flat_bits (Value_Tuple vs)"
    unfolding concat_rev_bits using g by (simp cong: map_cong)
  ultimately show ?case by simp
next
  case (array vs n t)
  then have "\<forall>v \<in> set vs. \<exists>ls. GatherValueLeaves v = Some ls \<and> concat (map bm_bits (rev ls)) = flat_bits v"
    by (auto simp: list_all_iff)
  then obtain g where g: "\<forall>v \<in> set vs. GatherValueLeaves v = Some (g v) \<and> concat (map bm_bits (rev (g v))) = flat_bits v" by metis
  then have "those (map GatherValueLeaves (rev vs)) = Some (map g (rev vs))" by (intro those_all) simp
  moreover have "concat (map bm_bits (rev (concat (map g (rev vs))))) = flat_bits (Value_Array vs)"
    unfolding concat_rev_bits using g by (simp add: rev_map cong: map_cong)
  ultimately show ?case by (simp add: rev_map)
qed simp_all

lemma length_flat_bits: "has_type v t \<Longrightarrow> length (flat_bits v) = Type_GetFlatBitCount t"
proof (induction rule: has_type.induct)
  case (tuple vs ts)
  then have "map (length \<circ> flat_bits) vs = map Type_GetFlatBitCount ts" by (auto simp: list_all2_conv_all_nth intro: nth_equalityI)
  then show ?case by (simp add: length_concat rev_map comp_def sum_list_rev flip: rev_map)
next
  case (array vs n t)
  then have "list_all (\<lambda>v. (length \<circ> flat_bits) v = Type_GetFlatBitCount t) vs" by (auto simp: list_all_iff)
  then show ?case using sum_list_replicate_all [of "length \<circ> flat_bits"] array(2) by (simp add: length_concat mult.commute comp_def)
qed simp_all

lemma FlattenValueToBits_eq:
  assumes "has_type v t" "\<not> TypeHasToken t"
  shows "FlattenValueToBits v = Some (Bits_of_span (flat_bits v))"
  using GatherValueLeaves_typed [OF assms] by (auto simp: FlattenValueToBits_def Concat_eq)

text \<open>The slice of an element.\<close>

lemma Bits_Slice_eq:
  assumes "start + width \<le> length bs"
  shows "Bits_Slice (Bits_of_span bs) start width = Some (Bits_of_span (take width (drop start bs)))"
proof -
  obtain r where r: "Bits_Slice (Bits_of_span bs) start width = Some r" "bm_wf r" "bm_bits r = take width (drop start bs)"
    using Bits_Slice_correct [of "Bits_of_span bs" start width] assms by auto
  have "r = Bits_of_span (take width (drop start bs))" using r by (intro bm_eqI) simp_all
  then show ?thesis using r(1) by simp
qed

definition tuple_slice :: "Type list \<Rightarrow> bool list \<Rightarrow> nat \<Rightarrow> bool list" where
  "tuple_slice ts bs i = take (Type_GetFlatBitCount (ts ! i)) (drop (sum_list (map Type_GetFlatBitCount (drop (Suc i) ts))) bs)"

definition array_slice :: "Type \<Rightarrow> bool list \<Rightarrow> nat \<Rightarrow> bool list" where
  "array_slice t bs i = take (Type_GetFlatBitCount t) (drop (i * Type_GetFlatBitCount t) bs)"

lemma tuple_slice_bound:
  assumes "i < length ts"
  shows "sum_list (map Type_GetFlatBitCount (drop (Suc i) ts)) + Type_GetFlatBitCount (ts ! i) \<le> sum_list (map Type_GetFlatBitCount ts)"
proof -
  have "sum_list (map Type_GetFlatBitCount ts) =
      sum_list (map Type_GetFlatBitCount (take i ts)) + (Type_GetFlatBitCount (ts ! i) + sum_list (map Type_GetFlatBitCount (drop (Suc i) ts)))"
    by (subst id_take_nth_drop [OF assms]) simp
  then show ?thesis by simp
qed

lemma array_slice_bound: "i < n \<Longrightarrow> i * k + k \<le> k * (n :: nat)"
  using mult_le_mono1 [of "Suc i" n k] by (simp add: algebra_simps)

lemma Unflatten_tuple:
  assumes "length bs = Type_GetFlatBitCount (TupleType ts)"
  shows "UnflattenBitsToValue (Bits_of_span bs) (TupleType ts) =
    map_option (map_sum id Value_Tuple) (status_list_opt (map (\<lambda>i. UnflattenBitsToValue (Bits_of_span (tuple_slice ts bs i)) (ts ! i)) [0..<length ts]))"
proof -
  have "status_list_opt (map (\<lambda>i. do {
            start \<leftarrow> GetFlatBitIndexOfElement ts i;
            s \<leftarrow> Bits_Slice (Bits_of_span bs) start (Type_GetFlatBitCount (ts ! i));
            UnflattenBitsToValue s (ts ! i)
          }) [0..<length ts]) = status_list_opt (map (\<lambda>i. UnflattenBitsToValue (Bits_of_span (tuple_slice ts bs i)) (ts ! i)) [0..<length ts])"
    using tuple_slice_bound [of _ ts] assms
    by (intro arg_cong [of _ _ status_list_opt] map_cong refl) (simp add: GetFlatBitIndexOfElement_def Bits_Slice_eq tuple_slice_def)
  then show ?thesis using assms by (subst UnflattenBitsToValue.simps) (simp add: map_option_case bind_eq_None_conv split: option.splits)
qed

lemma Unflatten_array:
  assumes "length bs = Type_GetFlatBitCount (ArrayType n t)"
  shows "UnflattenBitsToValue (Bits_of_span bs) (ArrayType n t) =
    Option.bind (status_list_opt (map (\<lambda>i. UnflattenBitsToValue (Bits_of_span (array_slice t bs i)) t) [0..<n])) array_of_status"
proof -
  have "status_list_opt (map (\<lambda>i. do {
            start \<leftarrow> GetFlatBitIndexOfArrayElement n t i;
            s \<leftarrow> Bits_Slice (Bits_of_span bs) start (Type_GetFlatBitCount t);
            UnflattenBitsToValue s t
          }) [0..<n]) = status_list_opt (map (\<lambda>i. UnflattenBitsToValue (Bits_of_span (array_slice t bs i)) t) [0..<n])"
    using array_slice_bound [of _ n "Type_GetFlatBitCount t"] assms
    by (intro arg_cong [of _ _ status_list_opt] map_cong refl) (simp add: GetFlatBitIndexOfArrayElement_def Bits_Slice_eq array_slice_def)
  then show ?thesis using assms by (subst UnflattenBitsToValue.simps) simp
qed

lemma status_list_opt_all: "(\<And>x. x \<in> set xs \<Longrightarrow> f x = Some (Inr (g x))) \<Longrightarrow> status_list_opt (map f xs) = Some (Inr (map g xs))"
  by (induction xs) auto

lemma tuple_slice_take:
  assumes "i < length ts" "sum_list (map Type_GetFlatBitCount ts) \<le> m"
  shows "tuple_slice ts (take m bs) i = tuple_slice ts bs i"
  using tuple_slice_bound [OF assms(1)] assms(2) by (simp add: tuple_slice_def drop_take min_def)

lemma tuple_slices: "length bs = sum_list (map Type_GetFlatBitCount ts) \<Longrightarrow> concat (rev (map (tuple_slice ts bs) [0..<length ts])) = bs"
proof (induction ts arbitrary: bs)
  case (Cons t ts)
  let ?m = "sum_list (map Type_GetFlatBitCount ts)"
  have first: "tuple_slice (t # ts) bs 0 = drop ?m bs" using Cons.prems by (simp add: tuple_slice_def)
  have rest: "map (tuple_slice (t # ts) bs \<circ> Suc) [0..<length ts] = map (tuple_slice ts (take ?m bs)) [0..<length ts]"
    by (intro map_cong refl) (simp add: tuple_slice_take, simp add: tuple_slice_def)
  have "concat (rev (map (tuple_slice (t # ts) bs \<circ> Suc) [0..<length ts])) = take ?m bs" unfolding rest using Cons.IH [of "take ?m bs"] Cons.prems by simp
  moreover have "map (tuple_slice (t # ts) bs) [0..<length (t # ts)] = tuple_slice (t # ts) bs 0 # map (tuple_slice (t # ts) bs \<circ> Suc) [0..<length ts]"
    by (simp add: map_upt_Suc comp_def del: upt_Suc)
  ultimately show ?case using first by simp
qed simp

lemma array_slice_take:
  assumes "i < n"
  shows "array_slice t (take (Type_GetFlatBitCount t * n) bs) i = array_slice t bs i"
proof -
  have "Type_GetFlatBitCount t \<le> Type_GetFlatBitCount t * n - i * Type_GetFlatBitCount t"
    using array_slice_bound [OF assms, of "Type_GetFlatBitCount t"] by linarith
  then show ?thesis by (simp add: array_slice_def drop_take min_absorb1)
qed

lemma array_slices: "length bs = Type_GetFlatBitCount t * n \<Longrightarrow> concat (map (array_slice t bs) [0..<n]) = bs"
proof (induction n arbitrary: bs)
  case (Suc n)
  let ?k = "Type_GetFlatBitCount t"
  have rest: "map (array_slice t bs) [0..<n] = map (array_slice t (take (?k * n) bs)) [0..<n]"
    by (intro map_cong refl) (simp add: array_slice_take)
  have "concat (map (array_slice t bs) [0..<n]) = take (?k * n) bs" unfolding rest using Suc.IH [of "take (?k * n) bs"] Suc.prems by simp
  moreover have "array_slice t bs n = drop (?k * n) bs" using Suc.prems by (simp add: array_slice_def mult.commute)
  ultimately show ?case by simp
qed simp

lemma length_tuple_slice: "i < length ts \<Longrightarrow> length bs = Type_GetFlatBitCount (TupleType ts) \<Longrightarrow> length (tuple_slice ts bs i) = Type_GetFlatBitCount (ts ! i)"
  using tuple_slice_bound [of i ts] by (simp add: tuple_slice_def)

lemma length_array_slice: "i < n \<Longrightarrow> length bs = Type_GetFlatBitCount (ArrayType n t) \<Longrightarrow> length (array_slice t bs i) = Type_GetFlatBitCount t"
  using array_slice_bound [of i n "Type_GetFlatBitCount t"] by (simp add: array_slice_def)

lemma Unflatten_ok:
  assumes "inhabited t" "\<not> TypeHasToken t" "length bs = Type_GetFlatBitCount t"
  shows "\<exists>v. UnflattenBitsToValue (Bits_of_span bs) t = Some (Inr v) \<and> has_type v t \<and> flat_bits v = bs"
  using assms
proof (induction t arbitrary: bs)
  case (BitsType n)
  then show ?case by (subst UnflattenBitsToValue.simps) simp
next
  case (TupleType ts)
  have "\<exists>v. UnflattenBitsToValue (Bits_of_span (tuple_slice ts bs i)) (ts ! i) = Some (Inr v) \<and> has_type v (ts ! i) \<and> flat_bits v = tuple_slice ts bs i"
    if "i < length ts" for i
    using TupleType.prems that length_tuple_slice [OF that TupleType.prems(3)] by (intro TupleType.IH) (auto simp: list_all_length list_ex_length)
  then obtain g where g: "\<And>i. i < length ts \<Longrightarrow> UnflattenBitsToValue (Bits_of_span (tuple_slice ts bs i)) (ts ! i) = Some (Inr (g i)) \<and>
      has_type (g i) (ts ! i) \<and> flat_bits (g i) = tuple_slice ts bs i" by metis
  have "UnflattenBitsToValue (Bits_of_span bs) (TupleType ts) = Some (Inr (Value_Tuple (map g [0..<length ts])))"
    unfolding Unflatten_tuple [OF TupleType.prems(3)] using g by (subst status_list_opt_all [of _ _ g]) simp_all
  moreover have "has_type (Value_Tuple (map g [0..<length ts])) (TupleType ts)" using g by (simp add: list_all2_conv_all_nth)
  moreover have e: "map (flat_bits \<circ> g) [0..<length ts] = map (tuple_slice ts bs) [0..<length ts]" using g by (intro map_cong refl) simp
  have "flat_bits (Value_Tuple (map g [0..<length ts])) = concat (rev (map (tuple_slice ts bs) [0..<length ts]))"
    by (simp only: flat_bits.simps map_map e)
  ultimately show ?case using tuple_slices [of bs ts] TupleType.prems(3) by auto
next
  case (ArrayType n t)
  have "\<exists>v. UnflattenBitsToValue (Bits_of_span (array_slice t bs i)) t = Some (Inr v) \<and> has_type v t \<and> flat_bits v = array_slice t bs i"
    if "i < n" for i
    using ArrayType.prems that length_array_slice [OF that ArrayType.prems(3)] by (intro ArrayType.IH) auto
  then obtain g where g: "\<And>i. i < n \<Longrightarrow> UnflattenBitsToValue (Bits_of_span (array_slice t bs i)) t = Some (Inr (g i)) \<and>
      has_type (g i) t \<and> flat_bits (g i) = array_slice t bs i" by metis
  have ty: "has_type (Value_Array (map g [0..<n])) (ArrayType n t)" using g ArrayType.prems(1) by (simp add: list_all_iff)
  have "UnflattenBitsToValue (Bits_of_span bs) (ArrayType n t) = Some (Inr (Value_Array (map g [0..<n])))"
    unfolding Unflatten_array [OF ArrayType.prems(3)] using g ArrayOf_Inr [OF ty]
    by (subst status_list_opt_all [of _ _ g]) (simp_all add: array_of_status_def)
  moreover have e: "map (flat_bits \<circ> g) [0..<n] = map (array_slice t bs) [0..<n]" using g by (intro map_cong refl) simp
  have "flat_bits (Value_Array (map g [0..<n])) = concat (map (array_slice t bs) [0..<n])" by (simp only: flat_bits.simps map_map e)
  ultimately show ?case using ty array_slices [of bs t n] ArrayType.prems(3) by auto
qed simp

text \<open>Values of one type with the same bits are the same.\<close>

lemma flat_bits_elements:
  assumes "concat (map flat_bits vs) = concat (map flat_bits ws)" "list_all2 (\<lambda>v w. length (flat_bits v) = length (flat_bits w)) vs ws"
  shows "map flat_bits vs = map flat_bits ws"
  by (rule concat_injective [OF assms(1)]) (use assms(2) in \<open>auto simp: list_all2_conv_all_nth in_set_zip\<close>)

lemma flat_bits_inj:
  assumes "has_type v t" "has_type w t" "flat_bits v = flat_bits w"
  shows "v = w"
  using assms
proof (induction arbitrary: w)
  case (bits b n)
  then show ?case by (auto elim!: has_type_typeE intro: bm_eqI)
next
  case (tuple vs ts)
  then obtain ws where w: "w = Value_Tuple ws" "list_all2 has_type ws ts" by (auto elim: has_type_typeE)
  have l: "length vs = length ts" "length ws = length ts" using tuple(1) w(2) by (auto dest: list_all2_lengthD)
  have ty: "has_type (vs ! i) (ts ! i) \<and> (\<forall>w. has_type w (ts ! i) \<longrightarrow> flat_bits (vs ! i) = flat_bits w \<longrightarrow> vs ! i = w)" "has_type (ws ! i) (ts ! i)" if "i < length ts" for i
    using tuple(1) w(2) that l by (auto simp: list_all2_conv_all_nth)
  have len: "length (flat_bits (vs ! i)) = length (flat_bits (ws ! i))" if "i < length ts" for i using ty [OF that] length_flat_bits by metis
  have "map flat_bits (rev vs) = map flat_bits (rev ws)"
    using tuple.prems(2) w(1) len l
    by (intro flat_bits_elements) (auto simp: rev_map list_all2_conv_all_nth rev_nth)
  then have "map flat_bits vs = map flat_bits ws" by (simp flip: rev_map)
  then have "flat_bits (vs ! i) = flat_bits (ws ! i)" if "i < length ts" for i using that l by (metis nth_map)
  then have "vs = ws" using ty l by (intro nth_equalityI) auto
  then show ?case using w(1) by simp
next
  case (array vs n t)
  then obtain ws where w: "w = Value_Array ws" "length ws = n" "list_all (\<lambda>v. has_type v t) ws" by (auto elim: has_type_typeE)
  have ty: "has_type (vs ! i) t \<and> (\<forall>w. has_type w t \<longrightarrow> flat_bits (vs ! i) = flat_bits w \<longrightarrow> vs ! i = w)" "has_type (ws ! i) t" if "i < n" for i
    using array(2,3) w(2,3) that by (auto simp: list_all_length)
  have len: "length (flat_bits (vs ! i)) = length (flat_bits (ws ! i))" if "i < n" for i using ty [OF that] length_flat_bits by metis
  have "map flat_bits vs = map flat_bits ws"
    using array.prems(2) w len array(2) by (intro flat_bits_elements) (auto simp: list_all2_conv_all_nth)
  then have "flat_bits (vs ! i) = flat_bits (ws ! i)" if "i < n" for i using that w(2) array(2) by (metis nth_map)
  then have "vs = ws" using ty w(2) array(2) by (intro nth_equalityI) auto
  then show ?case using w(1) by simp
qed auto

theorem flatten_round_trip:
  assumes "has_type v t" "\<not> TypeHasToken t"
  shows "\<exists>b. FlattenValueToBits v = Some b \<and> bm_wf b \<and> Bits_bit_count b = Type_GetFlatBitCount t \<and> UnflattenBitsToValue b t = Some (Inr v)"
proof -
  obtain w where w: "UnflattenBitsToValue (Bits_of_span (flat_bits v)) t = Some (Inr w)" "has_type w t" "flat_bits w = flat_bits v"
    using Unflatten_ok [OF has_type_inhabited [OF assms(1)] assms(2) length_flat_bits [OF assms(1)]] by blast
  then have "w = v" using flat_bits_inj assms(1) by blast
  then show ?thesis using FlattenValueToBits_eq [OF assms] length_flat_bits [OF assms(1)] w(1) by simp
qed

theorem unflatten_round_trip:
  assumes "inhabited t" "\<not> TypeHasToken t" "bm_wf b" "Bits_bit_count b = Type_GetFlatBitCount t"
  shows "\<exists>v. UnflattenBitsToValue b t = Some (Inr v) \<and> has_type v t \<and> FlattenValueToBits v = Some b"
proof -
  have b: "Bits_of_span (bm_bits b) = b" using assms(3) by (intro bm_eqI) simp_all
  obtain v where v: "UnflattenBitsToValue b t = Some (Inr v)" "has_type v t" "flat_bits v = bm_bits b"
    using Unflatten_ok [OF assms(1,2), of "bm_bits b"] assms(4) b by auto
  then show ?thesis using FlattenValueToBits_eq [OF v(2) assms(2)] b by auto
qed

section \<open>Equality, arrays of numbers and builders\<close>

lemma Value_eq_typed:
  assumes "has_type v t" "has_type w u"
  shows "Value_eq v w = Some (v = w)"
  using assms
proof (induction arbitrary: w u)
  case (bits b n)
  from bits(3) show ?case using bits(1) InlineBitmap_eq_iff bm_eqI by (cases rule: has_type.cases) auto
next
  case (tuple vs ts)
  have loop: "Value_eq_loop vs ws = Some (vs = ws)" if "list_all typed ws" "length ws = length vs" for ws
    using tuple(1) that
  proof (induction arbitrary: ws rule: list_all2_induct)
    case (Cons v vs t ts)
    then show ?case by (cases ws) (auto simp: typed_def)
  qed auto
  from tuple(2) show ?case
  proof (cases rule: has_type.cases)
    case (tuple ws us)
    then have "list_all typed ws" by (auto simp: typed_def list_all2_conv_all_nth list_all_length)
    then show ?thesis using loop tuple by auto
  qed auto
next
  case (array vs n t)
  have loop: "Value_eq_loop vs ws = Some (vs = ws)" if "list_all typed ws" "length ws = length vs" for ws
    using array(3) that
  proof (induction vs arbitrary: ws)
    case (Cons v vs)
    then show ?case by (cases ws) (auto simp: typed_def)
  qed auto
  from array(4) show ?case
  proof (cases rule: has_type.cases)
    case (array ws m u')
    then have "list_all typed ws" by (auto simp: typed_def list_all_iff)
    then show ?thesis using loop array by auto
  qed auto
next
  case token
  from token show ?case by (cases rule: has_type.cases) auto
qed

lemma UBitsWithStatus_eq: "UBitsWithStatus v n = (if unat v < 2 ^ n then Inr (bits_of_nat n (unat v)) else Inl InvalidArgument)"
proof (cases "unat v < 2 ^ n")
  case True
  then have "UBits v n = Some (bits_of_nat n (unat v))" by (rule UBits_value)
  then show ?thesis using True by (auto simp: UBits_def value_of_def split: sum.splits)
next
  case False
  then show ?thesis using Bits_MinBitCountUnsigned_le [of v n] by (simp add: UBitsWithStatus_def)
qed

definition ubits_values :: "nat \<Rightarrow> u64 list \<Rightarrow> Value list" where
  "ubits_values n xs = map (\<lambda>x. Value_Bits (bits_of_nat n (unat x))) xs"

lemma ubits_values_typed: "xs \<noteq> [] \<Longrightarrow> has_type (Value_Array (ubits_values n xs)) (ArrayType (length xs) (BitsType n))"
  by (simp add: ubits_values_def list_all_iff)

lemma status_list_UBits:
  "status_list (map (\<lambda>x. map_sum id Value_Bits (UBitsWithStatus x n)) xs) =
     (if \<forall>x \<in> set xs. unat x < 2 ^ n then Inr (ubits_values n xs) else Inl InvalidArgument)"
  by (induction xs) (auto simp: UBitsWithStatus_eq ubits_values_def)

lemma UBitsArray_eq:
  "Value_UBitsArray xs n = Some
     (if xs = [] then Inl Unimplemented
      else if \<forall>x \<in> set xs. unat x < 2 ^ n then Inr (Value_Array (ubits_values n xs)) else Inl InvalidArgument)"
  using ArrayOf_Inr [OF ubits_values_typed, of xs n] by (simp add: Value_UBitsArray_def status_list_UBits array_of_status_def)

text \<open>A builder whose values have types either reports an error or builds a value with a type.\<close>

fun builder_typed :: "ValueBuilder \<Rightarrow> bool" and maybe_typed :: "MaybeValueBuilder \<Rightarrow> bool" where
  "builder_typed (ValueHolder v) = typed v"
| "builder_typed (ArrayHolder ms) = list_all maybe_typed ms"
| "builder_typed (TupleHolder ms) = list_all maybe_typed ms"
| "maybe_typed (Maybe_Builder b) = builder_typed b"
| "maybe_typed (Maybe_Value v) = typed v"

lemma array_of_status_sound: "list_all typed vs \<Longrightarrow> sound_load (array_of_status (Inr vs))"
  using ArrayOf_typed [of vs] by (auto simp: array_of_status_def sound_load_def list_all_iff typed_def)

lemma Build_sound:
  "builder_typed b \<Longrightarrow> sound_load (ValueBuilder_Build b)"
  "list_all maybe_typed ms \<Longrightarrow> sound_tuple [] (BuildAll ms)"
  "maybe_typed m \<Longrightarrow> sound_load (Build_one m)"
proof (induction b and ms and m rule: ValueBuilder_Build_BuildAll_Build_one.induct)
  case (2 ms)
  then show ?case using array_of_status_sound by (auto simp: sound_tuple_def) (simp add: array_of_status_def sound_load_def)
next
  case (3 ms)
  then show ?case using typed_tuple by (auto simp: sound_tuple_def sound_load_def)
next
  case (5 m ms)
  then show ?case by (auto simp: sound_tuple_def sound_load_def)
qed (auto simp: sound_tuple_def sound_load_def)

text \<open>Building all values of a list that are plain values.\<close>

lemma BuildAll_values: "BuildAll (map Maybe_Value vs) = Some (Inr vs)"
  by (induction vs) auto

lemma builder_UBitsArray:
  assumes "\<forall>x \<in> set xs. unat x < 2 ^ n"
  shows "\<exists>b. ValueBuilder_UBitsArray xs n = Some b \<and> ValueBuilder_Build b = Value_UBitsArray xs n"
proof -
  have "those (map (\<lambda>v. map_option Value_Bits (UBits v n)) xs) = Some (ubits_values n xs)"
    unfolding ubits_values_def using assms UBits_value by (intro those_all) simp
  then have "ValueBuilder_UBitsArray xs n = Some (ValueBuilder_ArrayV (ubits_values n xs))" by (simp add: ValueBuilder_UBitsArray_def)
  moreover have "ValueBuilder_Build (ValueBuilder_ArrayV (ubits_values n xs)) = Value_ArrayOf (ubits_values n xs)"
    by (simp add: ValueBuilder_ArrayV_def BuildAll_values array_of_status_def)
  moreover have "Value_ArrayOf (ubits_values n xs) = Value_UBitsArray xs n"
    using assms ArrayOf_Inr [OF ubits_values_typed, of xs n] by (cases "xs = []") (simp_all add: UBitsArray_eq, simp add: ubits_values_def Value_ArrayOf_def)
  ultimately show ?thesis by simp
qed

section \<open>Floating point numbers as tuples\<close>

abbreviation F32_type :: Type where
  "F32_type \<equiv> TupleType [BitsType 1, BitsType 8, BitsType 23]"

lemma F32_sign: "drop_bit 31 x \<noteq> 0 \<longleftrightarrow> bit x 31" for x :: "32 word"
proof -
  have "\<not> bit x (31 + n)" if "\<not> bit x 31" for n using that bit_imp_le_length [of x "31 + n"] by (cases n) auto
  then have "drop_bit 31 x = 0" if "\<not> bit x 31" using that by (intro bit_eqI) (simp add: bit_drop_bit_eq)
  moreover have "bit (drop_bit 31 x) 0 = bit x 31" by (simp add: bit_drop_bit_eq)
  ultimately show ?thesis by fastforce
qed

lemma F32ToTuple_eq:
  "F32ToTuple x = Some (Value_Tuple [Value_Bits (Bits_of_span [bit x 31]),
     Value_Bits (Bits_of_span (map (\<lambda>i. bit x (23 + i)) [0..<8])), Value_Bits (Bits_of_span (map (bit x) [0..<23]))])"
proof -
  obtain s where s: "Bits_FromBytes [of_bool (bit x 31)] 1 = Some s" "bm_wf s" "bm_bits s = [bit x 31]"
    using FromBytes_correct [of "[of_bool (bit x 31)]" 1] by (auto simp: CeilOfRatio_nat_eq)
  obtain e where e: "Bits_FromBytes [ucast (drop_bit 23 x)] 8 = Some e" "bm_wf e" "bm_bits e = map (\<lambda>i. bit x (23 + i)) [0..<8]"
    using FromBytes_correct [of "[ucast (drop_bit 23 x)]" 8] by (auto simp: CeilOfRatio_nat_eq bit_ucast_iff bit_drop_bit_eq cong: map_cong)
  let ?f = "ucast (x AND ucast (Mask 23)) :: u64"
  have fb: "bit ?f i \<longleftrightarrow> i < 23 \<and> bit x i" for i by (auto simp: bit_ucast_iff bit_and_iff bit_Mask)
  have "unat ?f < 2 ^ 23" using fb by (intro nat_less_exp_iff_bits [THEN iffD2]) (auto simp: bit_unsigned_iff)
  then have f: "UBits ?f 23 = Some (bits_of_nat 23 (unat ?f))" by (rule UBits_value)
  have "nat_to_bl 23 (unat ?f) = map (bit x) [0..<23]" unfolding nat_to_bl_def
    by (intro map_cong refl) (auto simp: bit_unsigned_iff [where 'a = nat] fb simp del: bit_ucast_iff dest: fb [THEN iffD1])
  then have "bits_of_nat 23 (unat ?f) = Bits_of_span (map (bit x) [0..<23])" by (simp add: bits_of_nat_def)
  moreover have "s = Bits_of_span [bit x 31]" "e = Bits_of_span (map (\<lambda>i. bit x (23 + i)) [0..<8])" using s e by (auto intro: bm_eqI)
  ultimately show ?thesis using s(1) e(1) f by (simp add: F32ToTuple_def F32_sign Let_def)
qed

lemma F32_field_bits:
  assumes "i < length vs" "vs ! i = Value_Bits b" "bm_wf b" "Bits_bit_count b = width" "width \<le> 64"
  shows "\<exists>w. F32_field (Value_Tuple vs) i width = Some (Inr w) \<and> (\<forall>j < 32. bit w j \<longleftrightarrow> j < width \<and> bm_bits b ! j)"
proof -
  obtain u where u: "Bits_ToUint64 b = Inr u" "unat u = uval b" using ToUint64_correct(1) [OF assms(3)] narrow_uval [of b] assms(4,5) by auto
  have "bit (ucast u :: 32 word) j \<longleftrightarrow> j < width \<and> bm_bits b ! j" if "j < 32" for j
  proof -
    have "bit u j \<longleftrightarrow> bit (unat u) j" using that by (simp add: bit_unsigned_iff)
    then show ?thesis using that assms(4) by (simp add: bit_ucast_iff u(2) bit_uval)
  qed
  then show ?thesis using assms u(1) by (auto simp: F32_field_def Value_element_def)
qed

lemma TupleToF32_bits:
  assumes "has_type v F32_type"
  shows "\<exists>x. TupleToF32 v = Some (Inr x) \<and> F32ToTuple x = Some v"
proof -
  from assms obtain s e f where v: "v = Value_Tuple [Value_Bits s, Value_Bits e, Value_Bits f]"
    and wf: "bm_wf s" "bm_wf e" "bm_wf f" and n: "Bits_bit_count s = 1" "Bits_bit_count e = 8" "Bits_bit_count f = 23"
    by (auto simp: list_all2_Cons2 elim!: has_type_typeE)
  obtain ws where ws: "F32_field v 0 1 = Some (Inr ws)" "\<forall>j < 32. bit ws j \<longleftrightarrow> j < 1 \<and> bm_bits s ! j"
    using F32_field_bits [of 0 "[Value_Bits s, Value_Bits e, Value_Bits f]" s 1] wf n v by auto
  obtain we where we: "F32_field v 1 8 = Some (Inr we)" "\<forall>j < 32. bit we j \<longleftrightarrow> j < 8 \<and> bm_bits e ! j"
    using F32_field_bits [of 1 "[Value_Bits s, Value_Bits e, Value_Bits f]" e 8] wf n v by auto
  obtain w where w: "F32_field v 2 23 = Some (Inr w)" "\<forall>j < 32. bit w j \<longleftrightarrow> j < 23 \<and> bm_bits f ! j"
    using F32_field_bits [of 2 "[Value_Bits s, Value_Bits e, Value_Bits f]" f 23] wf n v by auto
  let ?x = "push_bit 31 ws OR push_bit 23 we OR w"
  have x: "TupleToF32 v = Some (Inr ?x)" using ws(1) we(1) w(1) by (simp add: TupleToF32_def v)
  have b31: "bit ?x 31 \<longleftrightarrow> bm_bits s ! 0" using ws(2) we(2) w(2) by (auto simp: bit_or_iff bit_push_bit_iff)
  have b23: "bit ?x (23 + i) \<longleftrightarrow> bm_bits e ! i" if "i < 8" for i using that we(2) w(2) by (auto simp: bit_or_iff bit_push_bit_iff)
  have b0: "bit ?x i \<longleftrightarrow> bm_bits f ! i" if "i < 23" for i using that w(2) by (auto simp: bit_or_iff bit_push_bit_iff)
  have "Bits_of_span [bit ?x 31] = s" by (rule bm_eqI) (use wf n b31 in \<open>auto intro!: nth_equalityI simp del: bm_bits_nth\<close>)
  moreover have "Bits_of_span (map (\<lambda>i. bit ?x (23 + i)) [0..<8]) = e" by (rule bm_eqI) (use wf n b23 in \<open>auto intro!: nth_equalityI simp del: bm_bits_nth\<close>)
  moreover have "Bits_of_span (map (bit ?x) [0..<23]) = f" by (rule bm_eqI) (use wf n b0 in \<open>auto intro!: nth_equalityI simp del: bm_bits_nth\<close>)
  ultimately have "F32ToTuple ?x = Some v" unfolding F32ToTuple_eq v by simp
  then show ?thesis using x by blast
qed

lemma F32ToTuple_typed: "\<exists>v. F32ToTuple x = Some v \<and> has_type v F32_type"
  by (simp add: F32ToTuple_eq)

lemma F32ToTuple_inj: "F32ToTuple x = F32ToTuple y \<Longrightarrow> x = y"
proof (rule bit_word_eqI)
  fix n
  assume xy: "F32ToTuple x = F32ToTuple y" and n: "n < LENGTH(32)"
  have "Bits_of_span [bit x 31] = Bits_of_span [bit y 31]" "Bits_of_span (map (\<lambda>i. bit x (23 + i)) [0..<8]) = Bits_of_span (map (\<lambda>i. bit y (23 + i)) [0..<8])"
    "Bits_of_span (map (bit x) [0..<23]) = Bits_of_span (map (bit y) [0..<23])" using xy unfolding F32ToTuple_eq by (simp_all del: upt_rec_numeral)
  note this [THEN arg_cong, of bm_bits, unfolded Bits_of_span_simps]
  then have "bit x 31 = bit y 31" "\<forall>i < 8. bit x (23 + i) = bit y (23 + i)" "\<forall>i < 23. bit x i = bit y i" by (simp_all del: upt_rec_numeral)
  moreover have "n < 23 \<or> (\<exists>i < 8. n = 23 + i) \<or> n = 31" using n by (auto simp: not_less le_iff_add)
  ultimately show "bit x n = bit y n" by auto
qed

section \<open>Pushing the bits of a value\<close>

text \<open>The buffer gets the elements in order, each vector with its most significant bit first.\<close>

fun push_bits :: "Value \<Rightarrow> bool list" where
  "push_bits (Value_Bits b) = rev (bm_bits b)"
| "push_bits (Value_Tuple vs) = concat (map push_bits vs)"
| "push_bits (Value_Array vs) = concat (map push_bits vs)"
| "push_bits _ = []"

lemma FlattenTo_loop_eq:
  "(\<And>v buffer. v \<in> set vs \<Longrightarrow> Value_FlattenTo v buffer = Some (buffer @ push_bits v)) \<Longrightarrow>
     FlattenTo_loop vs buffer = Some (buffer @ concat (map push_bits vs))"
  by (induction vs arbitrary: buffer) auto

lemma FlattenTo_typed:
  assumes "has_type v t" "\<not> TypeHasToken t"
  shows "Value_FlattenTo v buffer = Some (buffer @ push_bits v)"
  using assms
proof (induction arbitrary: buffer)
  case (tuple vs ts)
  then have "\<And>v buffer. v \<in> set vs \<Longrightarrow> Value_FlattenTo v buffer = Some (buffer @ push_bits v)"
    by (auto simp: list_all2_conv_all_nth list_ex_length in_set_conv_nth)
  then show ?case using FlattenTo_loop_eq by simp
next
  case (array vs n t)
  then have "\<And>v buffer. v \<in> set vs \<Longrightarrow> Value_FlattenTo v buffer = Some (buffer @ push_bits v)" by (auto simp: list_all_iff)
  then show ?case using FlattenTo_loop_eq by simp
qed (simp_all add: FlattenTo_correct)

text \<open>Every leaf of a typed value is gathered: their number is that of the type.\<close>

lemma LeafNodes_typed:
  assumes "has_type v t"
  shows "\<exists>ls. ValueLeafNodes v = Some ls \<and> length ls = Type_leaf_count t"
  using assms
proof (induction)
  case (tuple vs ts)
  then obtain g where g: "\<And>i. i < length vs \<Longrightarrow> ValueLeafNodes (vs ! i) = Some (g i) \<and> length (g i) = Type_leaf_count (ts ! i)"
    unfolding list_all2_conv_all_nth by metis
  have "those (map ValueLeafNodes vs) = Some (map g [0..<length vs])"
    unfolding those_Some using g by (simp add: list_all2_conv_all_nth)
  moreover have "map (length \<circ> g) [0..<length vs] = map Type_leaf_count ts"
    using g list_all2_lengthD [OF tuple(1)] by (auto intro: nth_equalityI)
  ultimately show ?case by (simp add: length_concat)
next
  case (array vs n t)
  then have "\<forall>v \<in> set vs. \<exists>ls. ValueLeafNodes v = Some ls \<and> length ls = Type_leaf_count t" by (auto simp: list_all_iff)
  then obtain g where g: "\<forall>v \<in> set vs. ValueLeafNodes v = Some (g v) \<and> length (g v) = Type_leaf_count t" by metis
  have "those (map ValueLeafNodes vs) = Some (map g vs)" using g by (intro those_all) simp
  moreover have "sum_list (map (length \<circ> g) vs) = length vs * Type_leaf_count t"
    using g by (intro sum_list_replicate_all) (simp add: list_all_iff)
  ultimately show ?case using array(2) by (simp add: length_concat)
qed auto

section \<open>The limit of nested vectors\<close>

text \<open>The limit of the caller applies to a vector that is the whole message, and not to one inside a tuple.\<close>

lemma FromProto_limit:
  assumes "0 < n" "n < default_max_bit_size" "m \<le> n"
  shows "Value_FromProto (ValueProto_Bits n d) m = Some (Inl InternalError)"
    and "\<exists>v. Value_FromProto (ValueProto_Tuple [ValueProto_Bits n d]) m = Some (Inr v)"
proof -
  show "Value_FromProto (ValueProto_Bits n d) m = Some (Inl InternalError)" using assms by simp
  let ?d = "if CeilOfRatio_nat (nat n) 8 = length d then d else vec_resize (CeilOfRatio_nat (nat n) 8) 0 d"
  have "length ?d = CeilOfRatio_nat (nat n) 8" by (simp add: length_vec_resize)
  then obtain b where "Bits_FromBytes ?d (nat n) = Some b" using FromBytes_correct by blast
  then show "\<exists>v. Value_FromProto (ValueProto_Tuple [ValueProto_Bits n d]) m = Some (Inr v)" using assms by (simp add: Let_def)
qed

end
