(* ===== verification/Type_Manager.thy ===== *)
theory Type_Manager
  imports Ir_Value
begin

text \<open>
  Models \<open>xls/ir/type_manager.{h,cc}\<close>: the arena that owns the types of a package and gives the same
  pointer for the same type. A pointer to a type is an index into the objects in memory, of this arena and of
  others; an object refers to its parts by pointers, as in the code. \<open>None\<close> is a failed \<open>CHECK\<close>, or a read through a
  pointer to no object.

  The lemmas show that in every state the operations can produce two owned pointers are equal exactly when the
  types they point to are, which is what lets the rest of the program compare types by pointers, and that
  the operations return pointers to the types asked for.
\<close>

section \<open>The arena\<close>

type_synonym type_ptr = nat

datatype TypeObject = BitsObject nat | TupleObject "type_ptr list" | ArrayObject nat type_ptr | TokenObject

record TypeManager =
  tm_heap :: "TypeObject list"
  tm_owned_types :: "type_ptr set"
  tm_bit_count_to_type :: "nat \<Rightarrow> type_ptr option"
  tm_array_types :: "nat \<times> type_ptr \<Rightarrow> type_ptr option"
  tm_tuple_types :: "type_ptr list \<Rightarrow> type_ptr option"
  tm_token_type :: type_ptr
  tm_function_heap :: "(type_ptr list \<times> type_ptr) list"
  tm_function_types :: "string \<Rightarrow> nat option"

text \<open>The type at a pointer: objects only refer to objects made before them.\<close>

function type_at :: "TypeObject list \<Rightarrow> type_ptr \<Rightarrow> Type" where
  "type_at h p =
     (if p < length h then
        (case h ! p of
           BitsObject n \<Rightarrow> BitsType n
         | TupleObject qs \<Rightarrow> TupleType (map (\<lambda>q. if q < p then type_at h q else TokenType) qs)
         | ArrayObject n q \<Rightarrow> ArrayType n (if q < p then type_at h q else TokenType)
         | TokenObject \<Rightarrow> TokenType)
      else TokenType)"
  by pat_completeness auto
termination
  by (relation "measure snd") auto

declare type_at.simps [simp del]

text \<open>A new arena in a memory that may hold the objects of others.\<close>

definition TypeManager_new :: "TypeObject list \<Rightarrow> (type_ptr list \<times> type_ptr) list \<Rightarrow> TypeManager" where
  "TypeManager_new h fs =
     \<lparr>tm_heap = h @ [TokenObject], tm_owned_types = {length h}, tm_bit_count_to_type = Map.empty, tm_array_types = Map.empty,
      tm_tuple_types = Map.empty, tm_token_type = length h, tm_function_heap = fs, tm_function_types = Map.empty\<rparr>"

definition IsOwnedType :: "TypeManager \<Rightarrow> type_ptr \<Rightarrow> bool" where
  "IsOwnedType tm p \<longleftrightarrow> p \<in> tm_owned_types tm"

text \<open>A new object, owned by the arena.\<close>

definition tm_emplace :: "TypeManager \<Rightarrow> TypeObject \<Rightarrow> TypeManager" where
  "tm_emplace tm obj = tm\<lparr>tm_heap := tm_heap tm @ [obj], tm_owned_types := insert (length (tm_heap tm)) (tm_owned_types tm)\<rparr>"

definition GetBitsType :: "nat \<Rightarrow> TypeManager \<Rightarrow> type_ptr \<times> TypeManager" where
  "GetBitsType bit_count tm =
     (case tm_bit_count_to_type tm bit_count of
        Some p \<Rightarrow> (p, tm)
      | None \<Rightarrow> let p = length (tm_heap tm) in
          (p, (tm_emplace tm (BitsObject bit_count))\<lparr>tm_bit_count_to_type := (tm_bit_count_to_type tm)(bit_count \<mapsto> p)\<rparr>))"

definition GetArrayType :: "nat \<Rightarrow> type_ptr \<Rightarrow> TypeManager \<Rightarrow> (type_ptr \<times> TypeManager) option" where
  "GetArrayType n element_type tm =
     (case tm_array_types tm (n, element_type) of
        Some p \<Rightarrow> Some (p, tm)
      | None \<Rightarrow>
          if \<not> IsOwnedType tm element_type then None
          else let p = length (tm_heap tm) in
            Some (p, (tm_emplace tm (ArrayObject n element_type))\<lparr>tm_array_types := (tm_array_types tm)((n, element_type) \<mapsto> p)\<rparr>))"

definition GetTupleType :: "type_ptr list \<Rightarrow> TypeManager \<Rightarrow> (type_ptr \<times> TypeManager) option" where
  "GetTupleType element_types tm =
     (case tm_tuple_types tm element_types of
        Some p \<Rightarrow> Some (p, tm)
      | None \<Rightarrow>
          if \<not> list_all (IsOwnedType tm) element_types then None
          else let p = length (tm_heap tm) in
            Some (p, (tm_emplace tm (TupleObject element_types))\<lparr>tm_tuple_types := (tm_tuple_types tm)(element_types \<mapsto> p)\<rparr>))"

definition GetTokenType :: "TypeManager \<Rightarrow> type_ptr" where
  "GetTokenType tm = tm_token_type tm"

text \<open>
  The recursion goes down the parts of a type; the fuel bounds its depth, and running out of it is \<open>None\<close>. The last
  return of the code, an error for a type of another kind, is never reached.
\<close>

fun MapType_fuel :: "nat \<Rightarrow> type_ptr \<Rightarrow> TypeManager \<Rightarrow> (type_ptr \<times> TypeManager) option"
  and MapType_list :: "nat \<Rightarrow> type_ptr list \<Rightarrow> TypeManager \<Rightarrow> (type_ptr list \<times> TypeManager) option" where
  "MapType_fuel 0 p tm = None"
| "MapType_fuel (Suc k) p tm =
     (if IsOwnedType tm p then Some (p, tm)
      else if \<not> p < length (tm_heap tm) then None
      else case tm_heap tm ! p of
        BitsObject n \<Rightarrow> Some (GetBitsType n tm)
      | ArrayObject n q \<Rightarrow> do {
          r \<leftarrow> MapType_fuel k q tm;
          GetArrayType n (fst r) (snd r)
        }
      | TupleObject qs \<Rightarrow> do {
          r \<leftarrow> MapType_list k qs tm;
          GetTupleType (fst r) (snd r)
        }
      | TokenObject \<Rightarrow> Some (GetTokenType tm, tm))"
| "MapType_list k [] tm = Some ([], tm)"
| "MapType_list k (q # qs) tm = do {
     r \<leftarrow> MapType_fuel k q tm;
     rs \<leftarrow> MapType_list k qs (snd r);
     Some (fst r # fst rs, snd rs)
   }"

definition MapTypeFromOtherArena :: "type_ptr \<Rightarrow> TypeManager \<Rightarrow> (type_ptr \<times> TypeManager) option" where
  "MapTypeFromOtherArena p tm = MapType_fuel (Suc p) p tm"

definition GetFunctionType :: "type_ptr list \<Rightarrow> type_ptr \<Rightarrow> TypeManager \<Rightarrow> (nat \<times> TypeManager) option" where
  "GetFunctionType args_types return_type tm =
     (let key = FunctionType_ToString
        \<lparr>ft_parameters = map (type_at (tm_heap tm)) args_types, ft_return_type = type_at (tm_heap tm) return_type\<rparr>
      in case tm_function_types tm key of
        Some f \<Rightarrow> Some (f, tm)
      | None \<Rightarrow>
          if \<not> list_all (IsOwnedType tm) args_types then None
          else let f = length (tm_function_heap tm) in
            Some (f, tm\<lparr>tm_function_heap := tm_function_heap tm @ [(args_types, return_type)],
                        tm_function_types := (tm_function_types tm)(key \<mapsto> f)\<rparr>))"

text \<open>Types already made stay in the arena when a later part of the message is an error.\<close>

fun GetTypeFromProto :: "TypeProto \<Rightarrow> TypeManager \<Rightarrow> ((status_code + type_ptr) \<times> TypeManager) option"
  and TypeFromProto_list :: "TypeProto list \<Rightarrow> TypeManager \<Rightarrow> ((status_code + type_ptr list) \<times> TypeManager) option" where
  "GetTypeFromProto (TypeProto type_enum bit_count tuple_elements array_size array_element) tm =
     (case type_enum of
        None \<Rightarrow> Some (Inl InvalidArgument, tm)
      | Some TypeProto_BITS \<Rightarrow>
          (case bit_count of
             None \<Rightarrow> Some (Inl InvalidArgument, tm)
           | Some n \<Rightarrow> if n < 0 then Some (Inl InvalidArgument, tm) else Some (apfst Inr (GetBitsType (nat n) tm)))
      | Some TypeProto_TUPLE \<Rightarrow> do {
          r \<leftarrow> TypeFromProto_list tuple_elements tm;
          case fst r of Inl e \<Rightarrow> Some (Inl e, snd r) | Inr ps \<Rightarrow> map_option (apfst Inr) (GetTupleType ps (snd r))
        }
      | Some TypeProto_ARRAY \<Rightarrow>
          (case array_size of
             None \<Rightarrow> Some (Inl InvalidArgument, tm)
           | Some n \<Rightarrow>
               if n < 0 then Some (Inl InvalidArgument, tm)
               else case array_element of
                 None \<Rightarrow> Some (Inl InvalidArgument, tm)
               | Some e \<Rightarrow> do {
                   r \<leftarrow> GetTypeFromProto e tm;
                   case fst r of Inl e \<Rightarrow> Some (Inl e, snd r) | Inr p \<Rightarrow> map_option (apfst Inr) (GetArrayType (nat n) p (snd r))
                 })
      | Some TypeProto_TOKEN \<Rightarrow> Some (Inr (GetTokenType tm), tm)
      | Some TypeProto_INVALID \<Rightarrow> Some (Inl InvalidArgument, tm))"
| "TypeFromProto_list [] tm = Some (Inr [], tm)"
| "TypeFromProto_list (e # es) tm = do {
     r \<leftarrow> GetTypeFromProto e tm;
     case fst r of Inl e \<Rightarrow> Some (Inl e, snd r)
     | Inr p \<Rightarrow> do {
         rs \<leftarrow> TypeFromProto_list es (snd r);
         Some (map_sum id (Cons p) (fst rs), snd rs)
       }
   }"

definition GetFunctionTypeFromProto :: "FunctionTypeProto \<Rightarrow> TypeManager \<Rightarrow> ((status_code + nat) \<times> TypeManager) option" where
  "GetFunctionTypeFromProto proto tm = do {
     r \<leftarrow> TypeFromProto_list (fp_parameters proto) tm;
     case fst r of Inl e \<Rightarrow> Some (Inl e, snd r)
     | Inr ps \<Rightarrow>
         (case fp_return_type proto of None \<Rightarrow> Some (Inl InvalidArgument, snd r)
          | Some t \<Rightarrow> do {
              q \<leftarrow> GetTypeFromProto t (snd r);
              case fst q of Inl e \<Rightarrow> Some (Inl e, snd q) | Inr p \<Rightarrow> map_option (apfst Inr) (GetFunctionType ps p (snd q))
            })
   }"

fun GetTypeForValue :: "Value \<Rightarrow> TypeManager \<Rightarrow> (type_ptr \<times> TypeManager) option"
  and TypeForValue_list :: "Value list \<Rightarrow> TypeManager \<Rightarrow> (type_ptr list \<times> TypeManager) option" where
  "GetTypeForValue (Value_Bits b) tm = Some (GetBitsType (Bits_bit_count b) tm)"
| "GetTypeForValue (Value_Tuple vs) tm = do {
     r \<leftarrow> TypeForValue_list vs tm;
     GetTupleType (fst r) (snd r)
   }"
| "GetTypeForValue (Value_Array []) tm = None"
| "GetTypeForValue (Value_Array (v # vs)) tm = do {
     r \<leftarrow> GetTypeForValue v tm;
     GetArrayType (length (v # vs)) (fst r) (snd r)
   }"
| "GetTypeForValue Value_Token tm = Some (GetTokenType tm, tm)"
| "GetTypeForValue Value_Invalid tm = None"
| "TypeForValue_list [] tm = Some ([], tm)"
| "TypeForValue_list (v # vs) tm = do {
     r \<leftarrow> GetTypeForValue v tm;
     rs \<leftarrow> TypeForValue_list vs (snd r);
     Some (fst r # fst rs, snd rs)
   }"

text \<open>Unpacking with the type given as a message: the type is made in the arena of an empty package.\<close>

definition UnflattenBitsToValue_proto :: "Bits \<Rightarrow> TypeProto \<Rightarrow> (status_code + Value) option" where
  "UnflattenBitsToValue_proto bits type_proto = do {
     r \<leftarrow> GetTypeFromProto type_proto (TypeManager_new [] []);
     case fst r of Inl e \<Rightarrow> Some (Inl e) | Inr p \<Rightarrow> UnflattenBitsToValue bits (type_at (tm_heap (snd r)) p)
   }"

section \<open>The invariant\<close>

fun parts :: "TypeObject \<Rightarrow> type_ptr set" where
  "parts (TupleObject qs) = set qs"
| "parts (ArrayObject n q) = {q}"
| "parts _ = {}"

text \<open>What the tables of the arena say about an object.\<close>

fun lookup :: "TypeManager \<Rightarrow> TypeObject \<Rightarrow> type_ptr option" where
  "lookup tm (BitsObject n) = tm_bit_count_to_type tm n"
| "lookup tm (TupleObject qs) = tm_tuple_types tm qs"
| "lookup tm (ArrayObject n q) = tm_array_types tm (n, q)"
| "lookup tm TokenObject = Some (tm_token_type tm)"

definition heap_ok :: "TypeObject list \<Rightarrow> bool" where
  "heap_ok h \<longleftrightarrow> (\<forall>p < length h. \<forall>q \<in> parts (h ! p). q < p)"

definition functions_ok :: "TypeManager \<Rightarrow> bool" where
  "functions_ok tm \<longleftrightarrow> (\<forall>key f. tm_function_types tm key = Some f \<longrightarrow> f < length (tm_function_heap tm) \<and>
     (case tm_function_heap tm ! f of (ps, r) \<Rightarrow> (\<forall>p \<in> set ps. p < length (tm_heap tm)) \<and> r < length (tm_heap tm) \<and>
        key = FunctionType_ToString \<lparr>ft_parameters = map (type_at (tm_heap tm)) ps, ft_return_type = type_at (tm_heap tm) r\<rparr>))"

definition tm_inv :: "TypeManager \<Rightarrow> bool" where
  "tm_inv tm \<longleftrightarrow> heap_ok (tm_heap tm) \<and> (\<forall>p \<in> tm_owned_types tm. p < length (tm_heap tm) \<and> parts (tm_heap tm ! p) \<subseteq> tm_owned_types tm) \<and>
     (\<forall>obj p. lookup tm obj = Some p \<longleftrightarrow> p \<in> tm_owned_types tm \<and> tm_heap tm ! p = obj) \<and> functions_ok tm"

text \<open>A later state of the arena.\<close>

definition tm_later :: "TypeManager \<Rightarrow> TypeManager \<Rightarrow> bool" where
  "tm_later tm tm' \<longleftrightarrow> (\<exists>xs. tm_heap tm' = tm_heap tm @ xs) \<and> tm_owned_types tm \<subseteq> tm_owned_types tm' \<and>
     (\<exists>fs. tm_function_heap tm' = tm_function_heap tm @ fs)"

lemma tm_later_refl [simp]: "tm_later tm tm"
  by (simp add: tm_later_def)

lemma tm_later_trans: "tm_later a b \<Longrightarrow> tm_later b c \<Longrightarrow> tm_later a c"
  unfolding tm_later_def by fastforce

definition denoted :: "TypeObject list \<Rightarrow> TypeObject \<Rightarrow> Type" where
  "denoted h obj =
     (case obj of BitsObject n \<Rightarrow> BitsType n | TupleObject qs \<Rightarrow> TupleType (map (type_at h) qs)
      | ArrayObject n q \<Rightarrow> ArrayType n (type_at h q) | TokenObject \<Rightarrow> TokenType)"

lemma type_at_denoted: "heap_ok h \<Longrightarrow> p < length h \<Longrightarrow> type_at h p = denoted h (h ! p)"
  by (subst type_at.simps) (auto simp: heap_ok_def denoted_def split: TypeObject.splits)

text \<open>Objects do not change their type when more are made.\<close>

lemma type_at_append:
  assumes "heap_ok h" "p < length h"
  shows "type_at (h @ xs) p = type_at h p"
  using assms(2)
proof (induction p rule: less_induct)
  case (less p)
  have "q < p" "type_at (h @ xs) q = type_at h q" if "q \<in> parts (h ! p)" for q
    using that less assms(1) unfolding heap_ok_def by (meson less_trans)+
  then show ?case using less.prems
    by (subst (1 2) type_at.simps) (auto simp: nth_append split: TypeObject.splits)
qed

lemma later_type_at: "tm_later tm tm' \<Longrightarrow> tm_inv tm \<Longrightarrow> p < length (tm_heap tm) \<Longrightarrow> type_at (tm_heap tm') p = type_at (tm_heap tm) p"
  using type_at_append by (auto simp: tm_later_def tm_inv_def)

lemma owned_less: "tm_inv tm \<Longrightarrow> p \<in> tm_owned_types tm \<Longrightarrow> p < length (tm_heap tm)"
  by (simp add: tm_inv_def)

lemma owned_parts: "tm_inv tm \<Longrightarrow> p \<in> tm_owned_types tm \<Longrightarrow> q \<in> parts (tm_heap tm ! p) \<Longrightarrow> q \<in> tm_owned_types tm"
  by (auto simp: tm_inv_def)

lemma owned_object: "tm_inv tm \<Longrightarrow> p \<in> tm_owned_types tm \<Longrightarrow> q \<in> tm_owned_types tm \<Longrightarrow> tm_heap tm ! p = tm_heap tm ! q \<Longrightarrow> p = q"
  unfolding tm_inv_def by (metis option.inject)

text \<open>Owned pointers are equal exactly when their types are.\<close>

theorem interned:
  assumes "tm_inv tm" "p \<in> tm_owned_types tm" "q \<in> tm_owned_types tm" "type_at (tm_heap tm) p = type_at (tm_heap tm) q"
  shows "p = q"
  using assms(2-4)
proof (induction p arbitrary: q rule: less_induct)
  case (less p)
  have h: "heap_ok (tm_heap tm)" using assms(1) by (simp add: tm_inv_def)
  note lt = owned_less [OF assms(1) less.prems(1)] owned_less [OF assms(1) less.prems(2)]
  have d: "denoted (tm_heap tm) (tm_heap tm ! p) = denoted (tm_heap tm) (tm_heap tm ! q)"
    using less.prems(3) type_at_denoted [OF h lt(1)] type_at_denoted [OF h lt(2)] by simp
  have part: "a = b" if "a \<in> parts (tm_heap tm ! p)" "b \<in> parts (tm_heap tm ! q)" "type_at (tm_heap tm) a = type_at (tm_heap tm) b" for a b
    using less.IH [of a b] that h lt(1) owned_parts [OF assms(1)] less.prems(1,2) by (auto simp: heap_ok_def)
  have tup: "as = bs" if "tm_heap tm ! p = TupleObject as" "tm_heap tm ! q = TupleObject bs" "map (type_at (tm_heap tm)) as = map (type_at (tm_heap tm)) bs" for as bs
  proof (rule nth_equalityI)
    show l: "length as = length bs" using map_eq_imp_length_eq [OF that(3)] .
    show "as ! i = bs ! i" if "i < length as" for i
      using that l part \<open>tm_heap tm ! p = _\<close> \<open>tm_heap tm ! q = _\<close> arg_cong [OF \<open>map _ as = _\<close>, of "\<lambda>xs. xs ! i"] by simp
  qed
  have "tm_heap tm ! p = tm_heap tm ! q"
  proof (cases "tm_heap tm ! p")
    case (BitsObject n)
    then show ?thesis using d by (cases "tm_heap tm ! q") (simp_all add: denoted_def)
  next
    case (TupleObject as)
    then obtain bs where "tm_heap tm ! q = TupleObject bs" "map (type_at (tm_heap tm)) as = map (type_at (tm_heap tm)) bs"
      using d by (cases "tm_heap tm ! q") (simp_all add: denoted_def)
    then show ?thesis using tup TupleObject by simp
  next
    case (ArrayObject n a)
    then obtain b where "tm_heap tm ! q = ArrayObject n b" "type_at (tm_heap tm) a = type_at (tm_heap tm) b"
      using d by (cases "tm_heap tm ! q") (simp_all add: denoted_def)
    then show ?thesis using part [of a b] ArrayObject by simp
  next
    case TokenObject
    then show ?thesis using d by (cases "tm_heap tm ! q") (simp_all add: denoted_def)
  qed
  then show ?case by (rule owned_object [OF assms(1) less.prems(1,2)])
qed

section \<open>The operations keep the invariant\<close>

lemma heap_ok_append: "heap_ok h \<Longrightarrow> (\<forall>q \<in> parts obj. q < length h) \<Longrightarrow> heap_ok (h @ [obj])"
  by (auto simp: heap_ok_def nth_append less_Suc_eq)

lemma functions_ok_later:
  assumes "functions_ok tm" "heap_ok (tm_heap tm)" "tm_heap tm' = tm_heap tm @ xs" "tm_function_heap tm' = tm_function_heap tm"
    and "tm_function_types tm' = tm_function_types tm"
  shows "functions_ok tm'"
  unfolding functions_ok_def
proof (intro allI impI)
  fix key f
  assume "tm_function_types tm' key = Some f"
  then have f: "tm_function_types tm key = Some f" using assms(5) by simp
  obtain ps r where pr: "tm_function_heap tm ! f = (ps, r)" by fastforce
  then have k: "f < length (tm_function_heap tm)" "\<forall>p \<in> set ps. p < length (tm_heap tm)" "r < length (tm_heap tm)"
    "key = FunctionType_ToString \<lparr>ft_parameters = map (type_at (tm_heap tm)) ps, ft_return_type = type_at (tm_heap tm) r\<rparr>"
    using assms(1) f unfolding functions_ok_def by fastforce+
  have "map (type_at (tm_heap tm @ xs)) ps = map (type_at (tm_heap tm)) ps" using k(2) type_at_append [OF assms(2)] by (intro map_cong refl) simp
  then show "f < length (tm_function_heap tm') \<and> (case tm_function_heap tm' ! f of (ps, r) \<Rightarrow> (\<forall>p \<in> set ps. p < length (tm_heap tm')) \<and> r < length (tm_heap tm') \<and>
      key = FunctionType_ToString \<lparr>ft_parameters = map (type_at (tm_heap tm')) ps, ft_return_type = type_at (tm_heap tm') r\<rparr>)"
    using k pr type_at_append [OF assms(2) k(3)] by (auto simp: assms(3,4) simp del: map_eq_conv)
qed

definition tm_post :: "TypeManager \<Rightarrow> Type \<Rightarrow> (type_ptr \<times> TypeManager) option \<Rightarrow> bool" where
  "tm_post tm t r \<longleftrightarrow> (\<exists>p tm'. r = Some (p, tm') \<and> tm_inv tm' \<and> tm_later tm tm' \<and> p \<in> tm_owned_types tm' \<and> type_at (tm_heap tm') p = t)"

lemma emplace_post:
  assumes "tm_inv tm" "lookup tm obj = None" "parts obj \<subseteq> tm_owned_types tm"
    and "tm_heap tm' = tm_heap tm @ [obj]" "tm_owned_types tm' = insert (length (tm_heap tm)) (tm_owned_types tm)"
    and "lookup tm' = (lookup tm)(obj \<mapsto> length (tm_heap tm))"
    and "tm_function_heap tm' = tm_function_heap tm" "tm_function_types tm' = tm_function_types tm"
  shows "tm_post tm (denoted (tm_heap tm) obj) (Some (length (tm_heap tm), tm'))"
proof -
  let ?n = "length (tm_heap tm)"
  have h: "heap_ok (tm_heap tm)" and own: "\<And>p. p \<in> tm_owned_types tm \<Longrightarrow> p < ?n \<and> parts (tm_heap tm ! p) \<subseteq> tm_owned_types tm"
    and look: "\<And>obj p. lookup tm obj = Some p \<longleftrightarrow> p \<in> tm_owned_types tm \<and> tm_heap tm ! p = obj" and f: "functions_ok tm"
    using assms(1) unfolding tm_inv_def by blast+
  have parts: "\<forall>q \<in> parts obj. q < ?n" using assms(3) own by blast
  have h': "heap_ok (tm_heap tm')" unfolding assms(4) by (rule heap_ok_append [OF h parts])
  have own': "p < length (tm_heap tm') \<and> parts (tm_heap tm' ! p) \<subseteq> tm_owned_types tm'" if "p \<in> tm_owned_types tm'" for p
    using that own assms(3) by (auto simp: assms(4,5) nth_append)
  have look': "lookup tm' x = Some p \<longleftrightarrow> p \<in> tm_owned_types tm' \<and> tm_heap tm' ! p = x" for x p
  proof (cases "p = ?n")
    case True
    then show ?thesis using look [of x p] own [of ?n] by (auto simp: assms(4-6))
  next
    case False
    then show ?thesis using look [of x p] look [of obj p] own [of p] assms(2) by (auto simp: assms(4-6) nth_append)
  qed
  have "functions_ok tm'" by (rule functions_ok_later [OF f h assms(4,7,8)])
  then have "tm_inv tm'" using h' own' look' unfolding tm_inv_def by blast
  moreover have "type_at (tm_heap tm') ?n = denoted (tm_heap tm) obj"
    using type_at_denoted [OF h', of ?n] parts type_at_append [OF h, of _ "[obj]"]
    by (auto simp: assms(4) denoted_def split: TypeObject.splits)
  moreover have "tm_later tm tm'" by (auto simp: tm_later_def assms(4,5,7))
  ultimately show ?thesis by (simp add: tm_post_def assms(5))
qed

lemma emplace_fields [simp]:
  "tm_heap (tm_emplace tm obj) = tm_heap tm @ [obj]" "tm_owned_types (tm_emplace tm obj) = insert (length (tm_heap tm)) (tm_owned_types tm)"
  "tm_bit_count_to_type (tm_emplace tm obj) = tm_bit_count_to_type tm" "tm_array_types (tm_emplace tm obj) = tm_array_types tm"
  "tm_tuple_types (tm_emplace tm obj) = tm_tuple_types tm" "tm_token_type (tm_emplace tm obj) = tm_token_type tm"
  "tm_function_heap (tm_emplace tm obj) = tm_function_heap tm" "tm_function_types (tm_emplace tm obj) = tm_function_types tm"
  by (simp_all add: tm_emplace_def)

lemma lookup_post:
  assumes "tm_inv tm" "lookup tm obj = Some p"
  shows "tm_post tm (denoted (tm_heap tm) obj) (Some (p, tm))"
proof -
  have p: "p \<in> tm_owned_types tm" "tm_heap tm ! p = obj" using assms unfolding tm_inv_def by blast+
  then show ?thesis using assms(1) type_at_denoted [of "tm_heap tm" p] owned_less [OF assms(1) p(1)] by (auto simp: tm_post_def tm_inv_def)
qed

lemma lookup_update:
  "lookup (tm\<lparr>tm_bit_count_to_type := (tm_bit_count_to_type tm)(n \<mapsto> p)\<rparr>) = (lookup tm)(BitsObject n \<mapsto> p)"
  "lookup (tm\<lparr>tm_array_types := (tm_array_types tm)((n, q) \<mapsto> p)\<rparr>) = (lookup tm)(ArrayObject n q \<mapsto> p)"
  "lookup (tm\<lparr>tm_tuple_types := (tm_tuple_types tm)(qs \<mapsto> p)\<rparr>) = (lookup tm)(TupleObject qs \<mapsto> p)"
  by (rule ext, case_tac x; simp)+

lemma lookup_emplace [simp]: "lookup (tm_emplace tm obj) = lookup tm"
  by (rule ext, case_tac x) simp_all

lemma GetBitsType_post:
  assumes "tm_inv tm"
  shows "tm_post tm (BitsType n) (Some (GetBitsType n tm))"
proof (cases "tm_bit_count_to_type tm n")
  case None
  let ?tm = "(tm_emplace tm (BitsObject n))\<lparr>tm_bit_count_to_type := (tm_bit_count_to_type tm)(n \<mapsto> length (tm_heap tm))\<rparr>"
  have "lookup ?tm = (lookup tm)(BitsObject n \<mapsto> length (tm_heap tm))"
    using lookup_update(1) [of "tm_emplace tm (BitsObject n)" n "length (tm_heap tm)"] by simp
  then have "tm_post tm (denoted (tm_heap tm) (BitsObject n)) (Some (length (tm_heap tm), ?tm))" using None by (intro emplace_post [OF assms]) simp_all
  then show ?thesis using None by (simp add: GetBitsType_def Let_def denoted_def)
next
  case (Some p)
  then show ?thesis using lookup_post [OF assms, of "BitsObject n" p] by (simp add: GetBitsType_def denoted_def)
qed

lemma GetArrayType_post:
  assumes "tm_inv tm" "q \<in> tm_owned_types tm"
  shows "tm_post tm (ArrayType n (type_at (tm_heap tm) q)) (GetArrayType n q tm)"
proof (cases "tm_array_types tm (n, q)")
  case None
  let ?tm = "(tm_emplace tm (ArrayObject n q))\<lparr>tm_array_types := (tm_array_types tm)((n, q) \<mapsto> length (tm_heap tm))\<rparr>"
  have "lookup ?tm = (lookup tm)(ArrayObject n q \<mapsto> length (tm_heap tm))"
    using lookup_update(2) [of "tm_emplace tm (ArrayObject n q)" n q "length (tm_heap tm)"] by simp
  then have "tm_post tm (denoted (tm_heap tm) (ArrayObject n q)) (Some (length (tm_heap tm), ?tm))" using None assms(2) by (intro emplace_post [OF assms(1)]) simp_all
  then show ?thesis using None assms(2) by (simp add: GetArrayType_def IsOwnedType_def Let_def denoted_def)
next
  case (Some p)
  then show ?thesis using lookup_post [OF assms(1), of "ArrayObject n q" p] by (simp add: GetArrayType_def denoted_def)
qed

lemma GetTupleType_post:
  assumes "tm_inv tm" "set qs \<subseteq> tm_owned_types tm"
  shows "tm_post tm (TupleType (map (type_at (tm_heap tm)) qs)) (GetTupleType qs tm)"
proof (cases "tm_tuple_types tm qs")
  case None
  let ?tm = "(tm_emplace tm (TupleObject qs))\<lparr>tm_tuple_types := (tm_tuple_types tm)(qs \<mapsto> length (tm_heap tm))\<rparr>"
  have "lookup ?tm = (lookup tm)(TupleObject qs \<mapsto> length (tm_heap tm))"
    using lookup_update(3) [of "tm_emplace tm (TupleObject qs)" qs "length (tm_heap tm)"] by simp
  then have "tm_post tm (denoted (tm_heap tm) (TupleObject qs)) (Some (length (tm_heap tm), ?tm))" using None assms(2) by (intro emplace_post [OF assms(1)]) simp_all
  moreover have "list_all (IsOwnedType tm) qs" using assms(2) by (auto simp: list_all_iff IsOwnedType_def)
  ultimately show ?thesis using None by (simp add: GetTupleType_def Let_def denoted_def)
next
  case (Some p)
  then show ?thesis using lookup_post [OF assms(1), of "TupleObject qs" p] by (simp add: GetTupleType_def denoted_def)
qed

lemma GetTokenType_post: "tm_inv tm \<Longrightarrow> tm_post tm TokenType (Some (GetTokenType tm, tm))"
  using lookup_post [of tm TokenObject "tm_token_type tm"] by (simp add: GetTokenType_def denoted_def)

lemma new_inv_tm:
  assumes "heap_ok h"
  shows "tm_inv (TypeManager_new h fs)"
proof -
  have "lookup (TypeManager_new h fs) obj = Some p \<longleftrightarrow> p \<in> {length h} \<and> (h @ [TokenObject]) ! p = obj" for obj p
    by (cases obj) (auto simp: TypeManager_new_def)
  then show ?thesis using heap_ok_append [OF assms, of TokenObject] by (simp add: tm_inv_def TypeManager_new_def functions_ok_def)
qed

section \<open>Types of values, messages and other arenas\<close>

lemma tm_postE:
  assumes "tm_post tm t r"
  obtains p tm' where "r = Some (p, tm')" "tm_inv tm'" "tm_later tm tm'" "p \<in> tm_owned_types tm'" "type_at (tm_heap tm') p = t"
  using assms by (auto simp: tm_post_def)

lemma tm_post_trans: "tm_later tm tm' \<Longrightarrow> tm_post tm' t r \<Longrightarrow> tm_post tm t r"
  using tm_later_trans by (fastforce simp: tm_post_def)

definition tm_posts :: "TypeManager \<Rightarrow> Type list \<Rightarrow> (type_ptr list \<times> TypeManager) option \<Rightarrow> bool" where
  "tm_posts tm ts r \<longleftrightarrow> (\<exists>ps tm'. r = Some (ps, tm') \<and> tm_inv tm' \<and> tm_later tm tm' \<and> set ps \<subseteq> tm_owned_types tm' \<and>
     map (type_at (tm_heap tm')) ps = ts)"

lemma tm_posts_Nil: "tm_inv tm \<Longrightarrow> tm_posts tm [] (Some ([], tm))"
  by (simp add: tm_posts_def)

text \<open>One more pointer: the later operations keep what the earlier ones returned.\<close>

lemma tm_posts_Cons:
  assumes "tm_inv tm1" "p \<in> tm_owned_types tm1" "type_at (tm_heap tm1) p = t" "tm_later tm tm1" "tm_posts tm1 ts rs"
  shows "\<exists>ps tm2. rs = Some (ps, tm2) \<and> tm_posts tm (t # ts) (Some (p # ps, tm2))"
proof -
  obtain ps tm2 where 2: "rs = Some (ps, tm2)" "tm_inv tm2" "tm_later tm1 tm2" "set ps \<subseteq> tm_owned_types tm2" "map (type_at (tm_heap tm2)) ps = ts"
    using assms(5) by (auto simp: tm_posts_def)
  have "type_at (tm_heap tm2) p = t" using later_type_at [OF 2(3) assms(1) owned_less [OF assms(1,2)]] assms(3) by simp
  moreover have "p \<in> tm_owned_types tm2" using 2(3) assms(2) by (auto simp: tm_later_def)
  ultimately show ?thesis using 2 tm_later_trans [OF assms(4) 2(3)] by (auto simp: tm_posts_def)
qed

lemma tuple_of_posts:
  assumes "tm_posts tm ts r"
  shows "\<exists>ps tm'. r = Some (ps, tm') \<and> tm_post tm (TupleType ts) (GetTupleType ps tm')"
  using assms GetTupleType_post tm_post_trans by (fastforce simp: tm_posts_def)

lemma array_of_post:
  assumes "tm_post tm t r"
  shows "\<exists>p tm'. r = Some (p, tm') \<and> tm_post tm (ArrayType n t) (GetArrayType n p tm')"
  using assms GetArrayType_post tm_post_trans by (fastforce simp: tm_post_def)

lemma GetTypeForValue_post: "has_type v t \<Longrightarrow> tm_inv tm \<Longrightarrow> tm_post tm t (GetTypeForValue v tm)"
proof (induction arbitrary: tm rule: has_type.induct)
  case (bits b n)
  then show ?case using GetBitsType_post [of tm n] by simp
next
  case (tuple vs ts)
  have "tm_posts tm ts (TypeForValue_list vs tm)"
    using tuple(1,2)
  proof (induction arbitrary: tm rule: list_all2_induct)
    case Nil
    then show ?case by (simp add: tm_posts_Nil)
  next
    case (Cons v vs t ts)
    obtain p tm1 where 1: "GetTypeForValue v tm = Some (p, tm1)" "tm_inv tm1" "tm_later tm tm1" "p \<in> tm_owned_types tm1" "type_at (tm_heap tm1) p = t"
      using Cons(1,4) by (auto simp: tm_post_def)
    show ?case using tm_posts_Cons [OF 1(2,4,5,3) Cons(3) [OF 1(2)]] 1(1) by auto
  qed
  then show ?case using tuple_of_posts by fastforce
next
  case (array vs n t)
  then obtain v vs' where vs: "vs = v # vs'" "length vs = n" by (cases vs) auto
  then have "tm_post tm t (GetTypeForValue v tm)" using array(3,4) by simp
  then show ?case using array_of_post [of tm t _ n] vs by fastforce
next
  case token
  then show ?case using GetTokenType_post by simp
qed

text \<open>The type a message describes, if any.\<close>

fun proto_type :: "TypeProto \<Rightarrow> Type option" where
  "proto_type (TypeProto type_enum bit_count tuple_elements array_size array_element) =
     (case type_enum of
        Some TypeProto_BITS \<Rightarrow> (case bit_count of Some n \<Rightarrow> if n < 0 then None else Some (BitsType (nat n)) | None \<Rightarrow> None)
      | Some TypeProto_TUPLE \<Rightarrow> map_option TupleType (those (map proto_type tuple_elements))
      | Some TypeProto_ARRAY \<Rightarrow>
          (case (array_size, array_element) of
             (Some n, Some e) \<Rightarrow> if n < 0 then None else map_option (ArrayType (nat n)) (proto_type e)
           | _ \<Rightarrow> None)
      | Some TypeProto_TOKEN \<Rightarrow> Some TokenType
      | _ \<Rightarrow> None)"

lemma proto_type_ToProto: "proto_type (Type_ToProto t) = Some t"
proof (induction t)
  case (TupleType ts)
  then have "those (map (proto_type \<circ> Type_ToProto) ts) = Some ts" using those_all [of ts "proto_type \<circ> Type_ToProto" id] by simp
  then show ?case by (simp add: comp_def)
qed simp_all

definition tm_status :: "TypeManager \<Rightarrow> Type option \<Rightarrow> ((status_code + type_ptr) \<times> TypeManager) option \<Rightarrow> bool" where
  "tm_status tm o' r \<longleftrightarrow> (case o' of
     Some t \<Rightarrow> \<exists>p tm'. r = Some (Inr p, tm') \<and> tm_post tm t (Some (p, tm'))
   | None \<Rightarrow> \<exists>tm'. r = Some (Inl InvalidArgument, tm') \<and> tm_inv tm' \<and> tm_later tm tm')"

definition tm_statuses :: "TypeManager \<Rightarrow> Type list option \<Rightarrow> ((status_code + type_ptr list) \<times> TypeManager) option \<Rightarrow> bool" where
  "tm_statuses tm o' r \<longleftrightarrow> (case o' of
     Some ts \<Rightarrow> \<exists>ps tm'. r = Some (Inr ps, tm') \<and> tm_posts tm ts (Some (ps, tm'))
   | None \<Rightarrow> \<exists>tm'. r = Some (Inl InvalidArgument, tm') \<and> tm_inv tm' \<and> tm_later tm tm')"

lemma tm_statusI: "tm_post tm t r \<Longrightarrow> tm_status tm (Some t) (map_option (apfst Inr) r)"
  by (auto simp: tm_status_def tm_post_def)

lemma tm_status_error: "tm_inv tm \<Longrightarrow> tm_status tm None (Some (Inl InvalidArgument, tm))"
  by (simp add: tm_status_def)

lemma tuple_of_statuses:
  assumes "tm_statuses tm o' r"
  shows "tm_status tm (map_option TupleType o') (Option.bind r (\<lambda>r. case fst r of Inl e \<Rightarrow> Some (Inl e, snd r) | Inr ps \<Rightarrow> map_option (apfst Inr) (GetTupleType ps (snd r))))"
proof (cases o')
  case None
  then show ?thesis using assms by (auto simp: tm_statuses_def tm_status_def)
next
  case (Some ts)
  then obtain ps tm' where 1: "r = Some (Inr ps, tm')" "tm_posts tm ts (Some (ps, tm'))" using assms by (auto simp: tm_statuses_def)
  then show ?thesis using Some tuple_of_posts [OF 1(2)] tm_statusI by simp
qed

lemma array_of_status_post:
  assumes "tm_status tm o' r"
  shows "tm_status tm (map_option (ArrayType n) o') (Option.bind r (\<lambda>r. case fst r of Inl e \<Rightarrow> Some (Inl e, snd r) | Inr p \<Rightarrow> map_option (apfst Inr) (GetArrayType n p (snd r))))"
proof (cases o')
  case None
  then show ?thesis using assms by (auto simp: tm_status_def)
next
  case (Some t)
  then obtain p tm' where 1: "r = Some (Inr p, tm')" "tm_post tm t (Some (p, tm'))" using assms by (auto simp: tm_status_def)
  then show ?thesis using Some array_of_post [OF 1(2), of n] tm_statusI by simp
qed

lemma GetTypeFromProto_post:
  "tm_inv tm \<Longrightarrow> tm_status tm (proto_type e) (GetTypeFromProto e tm)"
  "tm_inv tm \<Longrightarrow> tm_statuses tm (those (map proto_type es)) (TypeFromProto_list es tm)"
proof (induction e tm and es tm rule: GetTypeFromProto_TypeFromProto_list.induct)
  case (1 type_enum bit_count tuple_elements array_size array_element tm)
  show ?case
  proof (cases type_enum)
    case None
    then show ?thesis using 1(3) by (simp add: tm_status_error)
  next
    case (Some k)
    show ?thesis
    proof (cases k)
      case TypeProto_BITS
      then show ?thesis using Some 1(3) GetBitsType_post tm_statusI by (fastforce simp: tm_status_error split: option.splits)
    next
      case TypeProto_TUPLE
      then show ?thesis using tuple_of_statuses [OF 1(1)] Some 1(3) by simp
    next
      case TypeProto_ARRAY
      have "tm_status tm (proto_type e) (GetTypeFromProto e tm)" if "array_size = Some n" "\<not> n < 0" "array_element = Some e" for n e
        using 1(2) Some TypeProto_ARRAY that 1(3) by simp
      then show ?thesis using Some TypeProto_ARRAY 1(3) array_of_status_post by (auto simp: tm_status_error split: option.splits)
    next
      case TypeProto_TOKEN
      then show ?thesis using Some tm_statusI [OF GetTokenType_post [OF 1(3)]] by simp
    next
      case TypeProto_INVALID
      then show ?thesis using Some 1(3) by (simp add: tm_status_error)
    qed
  qed
next
  case (2 tm)
  then show ?case by (simp add: tm_statuses_def tm_posts_Nil)
next
  case (3 e es tm)
  have e: "tm_status tm (proto_type e) (GetTypeFromProto e tm)" using 3(1,3) .
  show ?case
  proof (cases "proto_type e")
    case None
    then show ?thesis using e by (auto simp: tm_status_def tm_statuses_def)
  next
    case (Some t)
    then obtain p tm1 where 1: "GetTypeFromProto e tm = Some (Inr p, tm1)" "tm_inv tm1" "tm_later tm tm1" "p \<in> tm_owned_types tm1" "type_at (tm_heap tm1) p = t"
      using e by (auto simp: tm_status_def tm_post_def)
    have es: "tm_statuses tm1 (those (map proto_type es)) (TypeFromProto_list es tm1)" using 3(2) [OF 1(1), of p] 1(2) by simp
    show ?thesis
    proof (cases "those (map proto_type es)")
      case None
      then show ?thesis using es 1 Some tm_later_trans [OF 1(3)] by (auto simp: tm_statuses_def)
    next
      case ts: (Some ts)
      then obtain ps tm2 where 2: "TypeFromProto_list es tm1 = Some (Inr ps, tm2)" "tm_posts tm1 ts (Some (ps, tm2))" using es by (auto simp: tm_statuses_def)
      show ?thesis using tm_posts_Cons [OF 1(2,4,5,3) 2(2)] 1(1) 2(1) Some ts by (auto simp: tm_statuses_def)
    qed
  qed
qed

text \<open>A type of another arena: its object is in memory, with objects made before it as its parts.\<close>

lemma MapType_post:
  assumes "tm_inv tm" "p < length (tm_heap tm)" "p < k"
  shows "tm_post tm (type_at (tm_heap tm) p) (MapType_fuel k p tm)"
  using assms
proof (induction k arbitrary: p tm)
  case (Suc k)
  have h: "heap_ok (tm_heap tm)" using Suc.prems(1) by (simp add: tm_inv_def)
  have parts: "q < k \<and> q < length (tm_heap tm)" if "q \<in> parts (tm_heap tm ! p)" for q
    using that h Suc.prems(2,3) unfolding heap_ok_def by (metis less_Suc_eq less_trans not_less_eq order_less_le_trans)
  note d = type_at_denoted [OF h Suc.prems(2)]
  show ?case
  proof (cases "p \<in> tm_owned_types tm")
    case True
    then show ?thesis using Suc.prems(1) by (auto simp: IsOwnedType_def tm_post_def)
  next
    case False
    show ?thesis
    proof (cases "tm_heap tm ! p")
      case (BitsObject n)
      then show ?thesis using False Suc.prems GetBitsType_post [OF Suc.prems(1), of n] d by (simp add: IsOwnedType_def denoted_def)
    next
      case (ArrayObject n q)
      then have "tm_post tm (type_at (tm_heap tm) q) (MapType_fuel k q tm)" using Suc.IH [OF Suc.prems(1)] parts [of q] by simp
      then show ?thesis using False Suc.prems ArrayObject d array_of_post by (fastforce simp: IsOwnedType_def denoted_def)
    next
      case (TupleObject qs)
      have "tm_posts tm' (map (type_at (tm_heap tm')) rs) (MapType_list k rs tm')"
        if "tm_inv tm'" "\<forall>q \<in> set rs. q < k \<and> q < length (tm_heap tm')" for rs tm'
        using that
      proof (induction rs arbitrary: tm')
        case Nil
        then show ?case by (simp add: tm_posts_Nil)
      next
        case (Cons q rs)
        obtain p1 tm1 where 1: "MapType_fuel k q tm' = Some (p1, tm1)" "tm_inv tm1" "tm_later tm' tm1" "p1 \<in> tm_owned_types tm1"
          "type_at (tm_heap tm1) p1 = type_at (tm_heap tm') q"
          using Suc.IH [OF Cons.prems(1), of q] Cons.prems(2) by (auto simp: tm_post_def)
        have l: "\<forall>q \<in> set rs. q < k \<and> q < length (tm_heap tm1)" using Cons.prems(2) 1(3) by (auto simp: tm_later_def)
        have "map (type_at (tm_heap tm1)) rs = map (type_at (tm_heap tm')) rs"
          using later_type_at [OF 1(3) Cons.prems(1)] Cons.prems(2) by (intro map_cong refl) simp
        then show ?case using tm_posts_Cons [OF 1(2,4,5,3) Cons.IH [OF 1(2) l]] 1(1) by (auto simp del: map_eq_conv)
      qed
      then have "tm_posts tm (map (type_at (tm_heap tm)) qs) (MapType_list k qs tm)" using Suc.prems(1) parts TupleObject by simp
      then show ?thesis using False Suc.prems TupleObject d tuple_of_posts by (fastforce simp: IsOwnedType_def denoted_def)
    next
      case TokenObject
      then show ?thesis using False Suc.prems GetTokenType_post [OF Suc.prems(1)] d by (simp add: IsOwnedType_def denoted_def)
    qed
  qed
qed simp

section \<open>Function types\<close>

definition function_at :: "TypeManager \<Rightarrow> nat \<Rightarrow> FunctionType" where
  "function_at tm f = (case tm_function_heap tm ! f of (ps, r) \<Rightarrow>
     \<lparr>ft_parameters = map (type_at (tm_heap tm)) ps, ft_return_type = type_at (tm_heap tm) r\<rparr>)"

definition registered :: "TypeManager \<Rightarrow> nat \<Rightarrow> bool" where
  "registered tm f \<longleftrightarrow> (\<exists>key. tm_function_types tm key = Some f)"

lemma registered_key:
  assumes "functions_ok tm" "tm_function_types tm key = Some f"
  shows "f < length (tm_function_heap tm)" "key = FunctionType_ToString (function_at tm f)"
  using assms unfolding functions_ok_def function_at_def by (auto split: prod.splits)

lemma functions_shared:
  assumes "tm_inv tm" "registered tm f" "registered tm g" "function_at tm f = function_at tm g"
  shows "f = g"
proof -
  have ok: "functions_ok tm" using assms(1) by (simp add: tm_inv_def)
  obtain k l where kl: "tm_function_types tm k = Some f" "tm_function_types tm l = Some g" using assms(2,3) by (auto simp: registered_def)
  then have "k = l" using registered_key(2) [OF ok kl(1)] registered_key(2) [OF ok kl(2)] assms(4) by simp
  then show ?thesis using kl by simp
qed

definition function_post :: "TypeManager \<Rightarrow> FunctionType \<Rightarrow> (nat \<times> TypeManager) option \<Rightarrow> bool" where
  "function_post tm t r \<longleftrightarrow> (\<exists>f tm'. r = Some (f, tm') \<and> tm_inv tm' \<and> tm_later tm tm' \<and> registered tm' f \<and> function_at tm' f = t)"

lemma GetFunctionType_post:
  assumes "tm_inv tm" "set ps \<subseteq> tm_owned_types tm" "r < length (tm_heap tm)"
  shows "function_post tm \<lparr>ft_parameters = map (type_at (tm_heap tm)) ps, ft_return_type = type_at (tm_heap tm) r\<rparr> (GetFunctionType ps r tm)"
proof -
  let ?t = "\<lparr>ft_parameters = map (type_at (tm_heap tm)) ps, ft_return_type = type_at (tm_heap tm) r\<rparr>"
  have ok: "functions_ok tm" using assms(1) by (simp add: tm_inv_def)
  show ?thesis
  proof (cases "tm_function_types tm (FunctionType_ToString ?t)")
    case (Some f)
    then have "function_at tm f = ?t" using registered_key(2) [OF ok Some] by (simp add: FunctionType_ToString_inj)
    then show ?thesis using Some assms(1) by (auto simp: GetFunctionType_def Let_def function_post_def registered_def)
  next
    case None
    let ?f = "length (tm_function_heap tm)"
    let ?tm = "tm\<lparr>tm_function_heap := tm_function_heap tm @ [(ps, r)], tm_function_types := (tm_function_types tm)(FunctionType_ToString ?t \<mapsto> ?f)\<rparr>"
    have e: "GetFunctionType ps r tm = Some (?f, ?tm)" using None assms(2) by (auto simp: GetFunctionType_def Let_def list_all_iff IsOwnedType_def)
    have own: "\<forall>p \<in> set ps. p < length (tm_heap tm)" using assms(1,2) owned_less by blast
    have "functions_ok ?tm" using ok own assms(3) unfolding functions_ok_def by (auto simp: nth_append less_Suc_eq split: prod.splits)
    moreover have "lookup ?tm = lookup tm" by (rule ext, case_tac x) simp_all
    ultimately have "tm_inv ?tm" using assms(1) by (simp add: tm_inv_def)
    moreover have "tm_later tm ?tm" by (simp add: tm_later_def)
    moreover have "registered ?tm ?f" unfolding registered_def by (rule exI [of _ "FunctionType_ToString ?t"]) simp
    moreover have "function_at ?tm ?f = ?t" by (simp add: function_at_def)
    ultimately show ?thesis unfolding function_post_def e by blast
  qed
qed

section \<open>The states of an arena\<close>

text \<open>
  A new arena in a memory with well-formed objects, then any of the operations with pointers they may be given, and
  objects made by other arenas in between.
\<close>

inductive tm_reachable :: "TypeManager \<Rightarrow> bool" where
  new_arena: "heap_ok h \<Longrightarrow> tm_reachable (TypeManager_new h fs)"
| other_arena: "tm_reachable tm \<Longrightarrow> heap_ok (tm_heap tm @ xs) \<Longrightarrow> tm_reachable (tm\<lparr>tm_heap := tm_heap tm @ xs\<rparr>)"
| bits_type: "tm_reachable tm \<Longrightarrow> GetBitsType n tm = (p, tm') \<Longrightarrow> tm_reachable tm'"
| array_type: "tm_reachable tm \<Longrightarrow> q \<in> tm_owned_types tm \<Longrightarrow> GetArrayType n q tm = Some (p, tm') \<Longrightarrow> tm_reachable tm'"
| tuple_type: "tm_reachable tm \<Longrightarrow> set qs \<subseteq> tm_owned_types tm \<Longrightarrow> GetTupleType qs tm = Some (p, tm') \<Longrightarrow> tm_reachable tm'"
| function_type: "tm_reachable tm \<Longrightarrow> set qs \<subseteq> tm_owned_types tm \<Longrightarrow> q < length (tm_heap tm) \<Longrightarrow> GetFunctionType qs q tm = Some (f, tm') \<Longrightarrow> tm_reachable tm'"
| mapped_type: "tm_reachable tm \<Longrightarrow> q < length (tm_heap tm) \<Longrightarrow> MapTypeFromOtherArena q tm = Some (p, tm') \<Longrightarrow> tm_reachable tm'"
| value_type: "tm_reachable tm \<Longrightarrow> has_type v t \<Longrightarrow> GetTypeForValue v tm = Some (p, tm') \<Longrightarrow> tm_reachable tm'"
| proto_type: "tm_reachable tm \<Longrightarrow> GetTypeFromProto e tm = Some (r, tm') \<Longrightarrow> tm_reachable tm'"

lemma other_arena_inv:
  assumes "tm_inv tm" "heap_ok (tm_heap tm @ xs)"
  shows "tm_inv (tm\<lparr>tm_heap := tm_heap tm @ xs\<rparr>)"
proof -
  let ?tm = "tm\<lparr>tm_heap := tm_heap tm @ xs\<rparr>"
  have i: "heap_ok (tm_heap tm)" "\<And>p. p \<in> tm_owned_types tm \<Longrightarrow> p < length (tm_heap tm) \<and> parts (tm_heap tm ! p) \<subseteq> tm_owned_types tm"
    "\<And>obj p. lookup tm obj = Some p \<longleftrightarrow> p \<in> tm_owned_types tm \<and> tm_heap tm ! p = obj" "functions_ok tm"
    using assms(1) unfolding tm_inv_def by blast+
  have "lookup ?tm = lookup tm" by (rule ext, case_tac x) simp_all
  moreover have "(p \<in> tm_owned_types tm \<and> (tm_heap tm @ xs) ! p = obj) = (p \<in> tm_owned_types tm \<and> tm_heap tm ! p = obj)" for p obj
    using i(2) by (auto simp: nth_append)
  moreover have "functions_ok ?tm" by (rule functions_ok_later [OF i(4,1)]) simp_all
  moreover have "p < length (tm_heap tm @ xs) \<and> parts ((tm_heap tm @ xs) ! p) \<subseteq> tm_owned_types tm" if "p \<in> tm_owned_types tm" for p
    using i(2) [OF that] by (simp add: nth_append)
  ultimately show ?thesis using assms(2) i(3) unfolding tm_inv_def by simp
qed

lemma tm_post_inv: "tm_post tm t (Some (p, tm')) \<Longrightarrow> tm_inv tm'"
  by (simp add: tm_post_def)

lemma MapType_other: "tm_inv tm \<Longrightarrow> p < length (tm_heap tm) \<Longrightarrow> tm_post tm (type_at (tm_heap tm) p) (MapTypeFromOtherArena p tm)"
  unfolding MapTypeFromOtherArena_def by (rule MapType_post) simp_all

lemma tm_reachable_inv: "tm_reachable tm \<Longrightarrow> tm_inv tm"
proof (induction rule: tm_reachable.induct)
  case (new_arena h fs)
  then show ?case by (rule new_inv_tm)
next
  case (other_arena tm xs)
  then show ?case using other_arena_inv by blast
next
  case (bits_type tm n p tm')
  then show ?case using GetBitsType_post [of tm n] tm_post_inv by simp
next
  case (array_type tm q n p tm')
  then show ?case using GetArrayType_post [of tm q n] tm_post_inv by simp
next
  case (tuple_type tm qs p tm')
  then show ?case using GetTupleType_post [of tm qs] tm_post_inv by simp
next
  case (function_type tm qs q f tm')
  then show ?case using GetFunctionType_post [of tm qs q] by (auto simp: function_post_def)
next
  case (mapped_type tm q p tm')
  then show ?case using MapType_other [of tm q] tm_post_inv by simp
next
  case (value_type tm v t p tm')
  then show ?case using GetTypeForValue_post [of v t tm] tm_post_inv by simp
next
  case (proto_type tm e r tm')
  then have "tm_status tm (proto_type e) (Some (r, tm'))" using GetTypeFromProto_post(1) [of tm e] by simp
  then show ?case by (auto simp: tm_status_def tm_post_def split: option.splits)
qed

lemma Unflatten_proto_eq: "UnflattenBitsToValue_proto b (Type_ToProto t) = UnflattenBitsToValue b t"
proof -
  have "tm_status (TypeManager_new [] []) (Some t) (GetTypeFromProto (Type_ToProto t) (TypeManager_new [] []))"
    using GetTypeFromProto_post(1) [OF new_inv_tm, of "[]" "[]" "Type_ToProto t"] by (simp add: proto_type_ToProto heap_ok_def)
  then show ?thesis by (auto simp: UnflattenBitsToValue_proto_def tm_status_def tm_post_def)
qed

end
