(* ===== verification/Channel_Queue.thy ===== *)
theory Channel_Queue
  imports Ir_Value "HOL-Library.Multiset"
begin

text \<open>
  Models \<open>xls/interpreter/channel_queue.{h,cc}\<close>: the queues that stand for channels while a network of processes is
  interpreted, and the collection of them. Every operation of a queue holds its mutex from start to end, so
  that what threads do to a queue is a sequence of operations.

  A generator is a function object with a state of its own: \<open>'g\<close> is the type of that state, and \<open>gen\<close>, a parameter of
  the operations, is the call, which returns a value or none and the next state. The collection is
  given the channel instances of the elaboration.

  The lemmas show that streaming channels are first in, first out along every sequence of operations, that
  single-value channels hold the last value written, that the values written to a queue have the channel's type, and
  which errors the operations return; writing, reading and attaching a generator may come in any order.
\<close>

section \<open>A queue\<close>

datatype ChannelKind = kStreaming | kSingleValue

record 'g ChannelQueue =
  cq_channel_instance :: nat
  cq_channel_id :: int
  cq_kind :: ChannelKind
  cq_type :: Type
  cq_queue :: "Value list"
  cq_generator :: "'g option"

definition ChannelQueue_new :: "nat \<Rightarrow> int \<Rightarrow> ChannelKind \<Rightarrow> Type \<Rightarrow> 'g ChannelQueue" where
  "ChannelQueue_new inst ident kind t =
     \<lparr>cq_channel_instance = inst, cq_channel_id = ident, cq_kind = kind, cq_type = t, cq_queue = [], cq_generator = None\<rparr>"

definition ChannelQueue_GetSize :: "'g ChannelQueue \<Rightarrow> nat" where
  "ChannelQueue_GetSize q = length (cq_queue q)"

definition ChannelQueue_IsEmpty :: "'g ChannelQueue \<Rightarrow> bool" where
  "ChannelQueue_IsEmpty q \<longleftrightarrow> ChannelQueue_GetSize q = 0"

definition AttachGenerator :: "'g \<Rightarrow> 'g ChannelQueue \<Rightarrow> status_code option \<times> 'g ChannelQueue" where
  "AttachGenerator g q =
     (if cq_generator q \<noteq> None then (Some InternalError, q)
      else if cq_kind q = kSingleValue then (Some InternalError, q)
      else (None, q\<lparr>cq_generator := Some g\<rparr>))"

definition WriteInternal :: "Value \<Rightarrow> 'g ChannelQueue \<Rightarrow> 'g ChannelQueue" where
  "WriteInternal v q =
     (if cq_kind q = kSingleValue
      then (if cq_queue q = [] then q\<lparr>cq_queue := [v]\<rparr> else q\<lparr>cq_queue := (cq_queue q)[0 := v]\<rparr>)
      else q\<lparr>cq_queue := cq_queue q @ [v]\<rparr>)"

text \<open>The status of a write: \<open>None\<close> is OK. An invalid value fails the check inside the test of its type.\<close>

definition ChannelQueue_Write :: "Value \<Rightarrow> 'g ChannelQueue \<Rightarrow> (status_code option \<times> 'g ChannelQueue) option" where
  "ChannelQueue_Write v q =
     (if cq_generator q \<noteq> None then Some (Some InternalError, q)
      else do {
        ok \<leftarrow> ValueConformsToType v (cq_type q);
        Some (if \<not> ok then (Some InvalidArgument, q) else (None, WriteInternal v q))
      })"

definition ReadInternal :: "'g ChannelQueue \<Rightarrow> Value option \<times> 'g ChannelQueue" where
  "ReadInternal q =
     (case cq_queue q of [] \<Rightarrow> (None, q)
      | v # vs \<Rightarrow> (Some v, if cq_kind q \<noteq> kSingleValue then q\<lparr>cq_queue := vs\<rparr> else q))"

definition ChannelQueue_Read :: "('g \<Rightarrow> Value option \<times> 'g) \<Rightarrow> 'g ChannelQueue \<Rightarrow> Value option \<times> 'g ChannelQueue" where
  "ChannelQueue_Read gen q =
     (case cq_generator q of
        None \<Rightarrow> ReadInternal q
      | Some g \<Rightarrow>
          let (generated_value, g') = gen g;
              q = q\<lparr>cq_generator := Some g'\<rparr>
          in ReadInternal (case generated_value of Some v \<Rightarrow> WriteInternal v q | None \<Rightarrow> q))"

text \<open>\<open>FixedValueGenerator\<close>: the values left.\<close>

fun FixedValueGenerator :: "Value list \<Rightarrow> Value option \<times> Value list" where
  "FixedValueGenerator [] = (None, [])"
| "FixedValueGenerator (v # vs) = (Some v, vs)"

section \<open>The collection of queues\<close>

record 'g ChannelQueueManager =
  cm_queues :: "nat \<Rightarrow> 'g ChannelQueue option"
  cm_queue_vec :: "nat list"

text \<open>
  The vector holds pointers to the queues, here their instances. \<open>std::sort\<close> by the channel's number may leave queues of
  the same number in any order: the sorting function is a parameter.
\<close>

definition ChannelQueueManager_new :: "('g ChannelQueue list \<Rightarrow> 'g ChannelQueue list) \<Rightarrow> 'g ChannelQueue list \<Rightarrow> 'g ChannelQueueManager" where
  "ChannelQueueManager_new sort_by_id queues =
     \<lparr>cm_queues = fold (\<lambda>q m. m(cq_channel_instance q \<mapsto> q)) queues Map.empty,
      cm_queue_vec = map cq_channel_instance (sort_by_id queues)\<rparr>"

fun check_queues :: "nat list \<Rightarrow> 'g ChannelQueue list \<Rightarrow> nat list \<Rightarrow> nat list option" where
  "check_queues instances [] seen = Some seen"
| "check_queues instances (q # qs) seen =
     (if cq_channel_instance q \<notin> set instances then None
      else if cq_channel_instance q \<in> set seen then None
      else check_queues instances qs (seen @ [cq_channel_instance q]))"

definition ChannelQueueManager_Create ::
    "('g ChannelQueue list \<Rightarrow> 'g ChannelQueue list) \<Rightarrow> 'g ChannelQueue list \<Rightarrow> nat list \<Rightarrow> status_code + 'g ChannelQueueManager" where
  "ChannelQueueManager_Create sort_by_id queues instances =
     (case check_queues instances queues [] of
        None \<Rightarrow> Inl InvalidArgument
      | Some seen \<Rightarrow>
          if \<not> list_all (\<lambda>i. i \<in> set seen) instances then Inl InvalidArgument
          else Inr (ChannelQueueManager_new sort_by_id queues))"

definition GetQueue :: "'g ChannelQueueManager \<Rightarrow> nat \<Rightarrow> 'g ChannelQueue option" where
  "GetQueue m inst = cm_queues m inst"

section \<open>The contract of a first in, first out queue\<close>

text \<open>
  A run of operations, by any threads in any order. A step returns the new state, the values it put into the queue and those it took out, or fails when the
  process dies, and then so does the run; the run collects them in order.
\<close>

fun run_ops :: "('s \<Rightarrow> 'o \<Rightarrow> ('s \<times> 'v list \<times> 'v list) option) \<Rightarrow> 's \<Rightarrow> 'o list \<Rightarrow> ('s \<times> 'v list \<times> 'v list) option" where
  "run_ops step s [] = Some (s, [], [])"
| "run_ops step s (x # xs) = do {
     (s1, ins, outs) \<leftarrow> step s x;
     (s2, ins', outs') \<leftarrow> run_ops step s1 xs;
     Some (s2, ins @ ins', outs @ outs')
   }"

locale fifo =
  fixes inv :: "'s \<Rightarrow> bool" and contents :: "'s \<Rightarrow> 'v list" and step :: "'s \<Rightarrow> 'o \<Rightarrow> ('s \<times> 'v list \<times> 'v list) option"
  assumes step_law: "inv s \<Longrightarrow> step s x = Some (s', ins, outs) \<Longrightarrow> inv s' \<and> contents s @ ins = outs @ contents s'"
begin

lemma run_fifo: "inv s \<Longrightarrow> run_ops step s xs = Some (s', ins, outs) \<Longrightarrow> inv s' \<and> contents s @ ins = outs @ contents s'"
proof (induction xs arbitrary: s ins outs)
  case (Cons x xs)
  obtain s1 i1 o1 i2 o2 where p: "step s x = Some (s1, i1, o1)" "run_ops step s1 xs = Some (s', i2, o2)" "ins = i1 @ i2" "outs = o1 @ o2"
    using Cons.prems(2) by (auto split: Option.bind_splits)
  have f: "inv s1" "contents s @ i1 = o1 @ contents s1" using step_law [OF Cons.prems(1) p(1)] by simp_all
  have "contents s @ ins = o1 @ contents s1 @ i2" unfolding p(3) append_assoc [symmetric] f(2) by simp
  then show ?case using Cons.IH [OF f(1) p(2)] p(4) by simp
qed simp

end

section \<open>Histories of a channel\<close>

datatype 'g queue_op = Write_op Value | Read_op | Attach_op 'g

text \<open>What an operation puts into the queue is the value of a write that succeeds and the value a read gets from the generator.\<close>

definition channel_step :: "('g \<Rightarrow> Value option \<times> 'g) \<Rightarrow> 'g ChannelQueue \<Rightarrow> 'g queue_op \<Rightarrow> ('g ChannelQueue \<times> Value list \<times> Value list) option" where
  "channel_step gen q x =
     (case x of
        Write_op v \<Rightarrow> do {
          (status, q') \<leftarrow> ChannelQueue_Write v q;
          Some (q', if status = None then [v] else [], [])
        }
      | Read_op \<Rightarrow>
          let given = (case cq_generator q of None \<Rightarrow> None | Some g \<Rightarrow> fst (gen g));
              (v, q') = ChannelQueue_Read gen q
          in Some (q', case given of None \<Rightarrow> [] | Some w \<Rightarrow> [w], case v of None \<Rightarrow> [] | Some w \<Rightarrow> [w])
      | Attach_op g \<Rightarrow> Some (snd (AttachGenerator g q), [], []))"

text \<open>What a history should hold: the writes accepted before a generator is attached, and then what the generator gives, one call to a read.\<close>

fun accepted :: "Type \<Rightarrow> 'g queue_op list \<Rightarrow> Value list" where
  "accepted t [] = []"
| "accepted t (Write_op v # xs) = (if ValueConformsToType v t = Some True then [v] else []) @ accepted t xs"
| "accepted t (Read_op # xs) = accepted t xs"
| "accepted t (Attach_op g # xs) = []"

fun generated :: "('g \<Rightarrow> Value option \<times> 'g) \<Rightarrow> 'g \<Rightarrow> 'g queue_op list \<Rightarrow> Value list" where
  "generated gen g [] = []"
| "generated gen g (Read_op # xs) = (case fst (gen g) of None \<Rightarrow> [] | Some v \<Rightarrow> [v]) @ generated gen (snd (gen g)) xs"
| "generated gen g (_ # xs) = generated gen g xs"

fun from_generator :: "('g \<Rightarrow> Value option \<times> 'g) \<Rightarrow> 'g queue_op list \<Rightarrow> Value list" where
  "from_generator gen [] = []"
| "from_generator gen (Attach_op g # xs) = generated gen g xs"
| "from_generator gen (_ # xs) = from_generator gen xs"

text \<open>Along a sequence of operations a reader of a single-value channel sees the last value written before it.\<close>

fun last_writes :: "Value option \<Rightarrow> Type \<Rightarrow> 'g queue_op list \<Rightarrow> Value list" where
  "last_writes l t [] = []"
| "last_writes l t (Write_op v # xs) = last_writes (if ValueConformsToType v t = Some True then Some v else l) t xs"
| "last_writes l t (Read_op # xs) = (case l of None \<Rightarrow> [] | Some v \<Rightarrow> [v]) @ last_writes l t xs"
| "last_writes l t (Attach_op g # xs) = last_writes l t xs"

text \<open>The values written have types, as all values have that the interfaces make.\<close>

definition typed_writes :: "'g queue_op list \<Rightarrow> bool" where
  "typed_writes xs \<longleftrightarrow> (\<forall>v. Write_op v \<in> set xs \<longrightarrow> (\<exists>u. has_type v u))"

lemma typed_writes_Cons [simp]:
  "typed_writes []" "typed_writes (Read_op # xs) \<longleftrightarrow> typed_writes xs" "typed_writes (Attach_op g # xs) \<longleftrightarrow> typed_writes xs"
  "typed_writes (Write_op v # xs) \<longleftrightarrow> (\<exists>u. has_type v u) \<and> typed_writes xs"
  by (auto simp: typed_writes_def)

text \<open>What a write of any value that has a type does.\<close>

lemma Write_typed:
  assumes "has_type v u"
  shows "ChannelQueue_Write v q =
    Some (if cq_generator q \<noteq> None then (Some InternalError, q)
          else if u \<noteq> cq_type q then (Some InvalidArgument, q) else (None, WriteInternal v q))"
  using Conforms_typed [OF assms] by (simp add: ChannelQueue_Write_def)

lemma accepted_typed: "typed_writes xs \<Longrightarrow> v \<in> set (accepted t xs) \<Longrightarrow> has_type v t"
  by (induction t xs rule: accepted.induct) (auto simp: Conforms_typed split: if_splits)

lemma WriteInternal_simps [simp]:
  "cq_type (WriteInternal v q) = cq_type q" "cq_kind (WriteInternal v q) = cq_kind q" "cq_generator (WriteInternal v q) = cq_generator q"
  "cq_kind q = kStreaming \<Longrightarrow> cq_queue (WriteInternal v q) = cq_queue q @ [v]"
  by (simp_all add: WriteInternal_def)

interpretation channel: fifo "\<lambda>q. cq_kind q = kStreaming" cq_queue "channel_step gen" for gen
proof unfold_locales
  fix q q' :: "'a ChannelQueue" and x ins outs
  assume k: "cq_kind q = kStreaming" and s: "channel_step gen q x = Some (q', ins, outs)"
  show "cq_kind q' = kStreaming \<and> cq_queue q @ ins = outs @ cq_queue q'"
  proof (cases x)
    case (Write_op v)
    then show ?thesis using s k by (auto simp: channel_step_def ChannelQueue_Write_def split: Option.bind_splits if_splits)
  next
    case Read_op
    then show ?thesis using s k
      by (auto simp: channel_step_def ChannelQueue_Read_def ReadInternal_def Let_def split: option.splits list.splits prod.splits)
  next
    case (Attach_op g)
    then show ?thesis using s k by (auto simp: channel_step_def AttachGenerator_def)
  qed
qed

lemma Read_streaming:
  assumes "cq_kind q = kStreaming"
  shows "cq_kind (snd (ChannelQueue_Read gen q)) = kStreaming" "cq_type (snd (ChannelQueue_Read gen q)) = cq_type q"
    "cq_generator (snd (ChannelQueue_Read gen q)) = map_option (snd \<circ> gen) (cq_generator q)"
  using assms by (auto simp: ChannelQueue_Read_def ReadInternal_def Let_def split: option.splits list.splits prod.splits)

lemma Read_none:
  "fst (ChannelQueue_Read gen q) = None \<longleftrightarrow> cq_queue q = [] \<and> (\<forall>g. cq_generator q = Some g \<longrightarrow> fst (gen g) = None)"
  by (auto simp: ChannelQueue_Read_def ReadInternal_def WriteInternal_def Let_def split: option.splits list.splits prod.splits)

lemma streaming_ins:
  assumes "typed_writes xs" "cq_kind q = kStreaming"
  shows "\<exists>q' outs. run_ops (channel_step gen) q xs = Some (q',
    (case cq_generator q of None \<Rightarrow> accepted (cq_type q) xs @ from_generator gen xs | Some g \<Rightarrow> generated gen g xs), outs)"
  using assms
proof (induction xs arbitrary: q)
  case (Cons x xs)
  show ?case
  proof (cases x)
    case (Write_op v)
    then obtain u where u: "has_type v u" using Cons.prems by auto
    let ?ok = "cq_generator q = None \<and> u = cq_type q"
    let ?q = "if ?ok then WriteInternal v q else q"
    have s: "channel_step gen q x = Some (?q, if ?ok then [v] else [], [])"
      using Write_op Write_typed [OF u, of q] by (auto simp: channel_step_def)
    have "typed_writes xs" "cq_kind ?q = kStreaming" using Cons.prems Write_op by auto
    from Cons.IH [OF this] show ?thesis using s Write_op Conforms_typed [OF u] by (auto split: option.splits)
  next
    case Read_op
    let ?q = "snd (ChannelQueue_Read gen q)"
    have "typed_writes xs" "cq_kind ?q = kStreaming" using Cons.prems Read_op Read_streaming(1) by auto
    from Cons.IH [OF this] show ?thesis using Read_op Read_streaming(2,3) [OF Cons.prems(2), of gen]
      by (auto simp: channel_step_def split: option.splits prod.splits)
  next
    case (Attach_op g)
    let ?q = "snd (AttachGenerator g q)"
    have "typed_writes xs" "cq_kind ?q = kStreaming" using Cons.prems Attach_op by (auto simp: AttachGenerator_def)
    from Cons.IH [OF this] show ?thesis using Attach_op Cons.prems(2) by (auto simp: channel_step_def AttachGenerator_def split: option.splits if_splits)
  qed
qed (auto split: option.splits)

lemma streaming_history:
  assumes "typed_writes xs"
  shows "\<exists>q outs. run_ops (channel_step gen) (ChannelQueue_new i c kStreaming t) xs = Some (q, accepted t xs @ from_generator gen xs, outs) \<and>
    accepted t xs @ from_generator gen xs = outs @ cq_queue q"
proof -
  let ?s = "ChannelQueue_new i c kStreaming t :: 'a ChannelQueue"
  have s: "cq_kind ?s = kStreaming" "cq_generator ?s = None" "cq_type ?s = t" "cq_queue ?s = []" by (simp_all add: ChannelQueue_new_def)
  obtain q outs where r: "run_ops (channel_step gen) ?s xs = Some (q, accepted t xs @ from_generator gen xs, outs)"
    using streaming_ins [OF assms s(1), of gen] s by auto
  then show ?thesis using channel.run_fifo [OF s(1) r] s(4) by simp
qed

section \<open>Single-value channels\<close>

definition single_inv :: "'g ChannelQueue \<Rightarrow> bool" where
  "single_inv q \<longleftrightarrow> cq_kind q = kSingleValue \<and> cq_generator q = None \<and> length (cq_queue q) \<le> 1"

definition held :: "'g ChannelQueue \<Rightarrow> Value option" where
  "held q = (case cq_queue q of [] \<Rightarrow> None | v # _ \<Rightarrow> Some v)"

lemma single_ops:
  assumes "single_inv q"
  shows "single_inv (WriteInternal v q) \<and> held (WriteInternal v q) = Some v"
    "ChannelQueue_Read gen q = (held q, q)"
    "AttachGenerator g q = (Some InternalError, q)"
  using assms by (auto simp: WriteInternal_def single_inv_def held_def ChannelQueue_Read_def ReadInternal_def AttachGenerator_def
      length_Suc_conv le_Suc_eq split: list.splits)

lemma single_run:
  assumes "typed_writes xs" "single_inv q"
  shows "\<exists>q' ins. run_ops (channel_step gen) q xs = Some (q', ins, last_writes (held q) (cq_type q) xs)"
  using assms
proof (induction xs arbitrary: q)
  case (Cons x xs)
  show ?case
  proof (cases x)
    case (Write_op v)
    then obtain u where u: "has_type v u" using Cons.prems by auto
    let ?q = "if u = cq_type q then WriteInternal v q else q"
    have s: "channel_step gen q x = Some (?q, if u = cq_type q then [v] else [], [])"
      using Write_op Write_typed [OF u, of q] Cons.prems(2) by (auto simp: channel_step_def single_inv_def)
    have "typed_writes xs" "single_inv ?q" using Cons.prems Write_op single_ops(1) by auto
    from Cons.IH [OF this] show ?thesis using s Write_op Conforms_typed [OF u] single_ops(1) [OF Cons.prems(2), of v] by auto
  next
    case Read_op
    then show ?thesis using Cons.IH [of q] Cons.prems single_ops(2) [OF Cons.prems(2), of gen]
      by (auto simp: channel_step_def single_inv_def split: option.splits)
  next
    case (Attach_op g)
    then show ?thesis using Cons.IH [of q] Cons.prems single_ops(3) [OF Cons.prems(2), of g] by (auto simp: channel_step_def)
  qed
qed simp

lemma single_history:
  assumes "typed_writes xs"
  shows "\<exists>q ins. run_ops (channel_step gen) (ChannelQueue_new i c kSingleValue t) xs = Some (q, ins, last_writes None t xs)"
  using single_run [OF assms, of "ChannelQueue_new i c kSingleValue t"] by (simp add: single_inv_def held_def ChannelQueue_new_def)

section \<open>Generators\<close>

text \<open>Reads of a streaming channel with a fixed generator return what is in the queue, then the values of the generator.\<close>

lemma generator_read:
  assumes "cq_kind q = kStreaming" "cq_generator q = Some vs"
  shows "\<exists>q'. ChannelQueue_Read FixedValueGenerator q = ((case cq_queue q @ vs of [] \<Rightarrow> None | x # _ \<Rightarrow> Some x), q') \<and>
    cq_kind q' = kStreaming \<and> (\<exists>ws. cq_generator q' = Some ws \<and> cq_queue q' @ ws = tl (cq_queue q @ vs))"
  using assms by (cases vs; cases "cq_queue q")
    (auto simp: ChannelQueue_Read_def ReadInternal_def WriteInternal_def Let_def)

fun reads :: "('g \<Rightarrow> Value option \<times> 'g) \<Rightarrow> nat \<Rightarrow> 'g ChannelQueue \<Rightarrow> Value option list" where
  "reads gen 0 q = []"
| "reads gen (Suc n) q = (let (v, q') = ChannelQueue_Read gen q in v # reads gen n q')"

lemma generator_reads:
  assumes "cq_kind q = kStreaming" "cq_generator q = Some vs"
  shows "reads FixedValueGenerator n q = map (\<lambda>i. if i < length (cq_queue q @ vs) then Some ((cq_queue q @ vs) ! i) else None) [0..<n]"
  using assms
proof (induction n arbitrary: q vs)
  case (Suc n)
  obtain q' ws where q': "ChannelQueue_Read FixedValueGenerator q = ((case cq_queue q @ vs of [] \<Rightarrow> None | x # _ \<Rightarrow> Some x), q')"
    "cq_kind q' = kStreaming" "cq_generator q' = Some ws" "cq_queue q' @ ws = tl (cq_queue q @ vs)" using generator_read [OF Suc.prems] by blast
  have "map (\<lambda>i. if i < length (cq_queue q @ vs) then Some ((cq_queue q @ vs) ! i) else None) [0..<Suc n] =
      (case cq_queue q @ vs of [] \<Rightarrow> None | x # _ \<Rightarrow> Some x) # map (\<lambda>i. if i < length (tl (cq_queue q @ vs)) then Some (tl (cq_queue q @ vs) ! i) else None) [0..<n]"
    by (cases "cq_queue q @ vs") (simp_all add: map_upt_Suc del: upt_Suc)
  then show ?case using Suc.IH [OF q'(2,3)] q'(1,4) by simp
qed simp

section \<open>The collection\<close>

lemma check_queues_iff:
  "check_queues instances qs seen = Some s \<longleftrightarrow> s = seen @ map cq_channel_instance qs \<and> set (map cq_channel_instance qs) \<subseteq> set instances \<and>
     distinct (map cq_channel_instance qs) \<and> set seen \<inter> set (map cq_channel_instance qs) = {}"
  by (induction qs arbitrary: seen) auto

lemma fold_queues:
  "distinct (map cq_channel_instance qs) \<Longrightarrow>
     fold (\<lambda>q m. m(cq_channel_instance q \<mapsto> q)) qs m i = (case find (\<lambda>q. cq_channel_instance q = i) qs of Some q \<Rightarrow> Some q | None \<Rightarrow> m i)"
proof (induction qs arbitrary: m)
  case (Cons q qs)
  have "find (\<lambda>x. cq_channel_instance x = cq_channel_instance q) qs = None" using Cons.prems by (auto simp: find_None_iff intro: rev_image_eqI)
  then show ?case using Cons by (auto split: option.splits)
qed simp

lemma Create_iff:
  "(\<exists>m. ChannelQueueManager_Create sort_by_id qs instances = Inr m) \<longleftrightarrow>
     distinct (map cq_channel_instance qs) \<and> set (map cq_channel_instance qs) = set instances"
proof (cases "check_queues instances qs []")
  case None
  then have "\<not> (set (map cq_channel_instance qs) \<subseteq> set instances \<and> distinct (map cq_channel_instance qs))"
    using check_queues_iff [of instances qs "[]" "map cq_channel_instance qs"] by auto
  then show ?thesis using None by (auto simp: ChannelQueueManager_Create_def)
next
  case (Some s)
  then show ?thesis using check_queues_iff [of instances qs "[]" s] by (auto simp: ChannelQueueManager_Create_def list_all_iff)
qed

lemma Create_queues:
  assumes "ChannelQueueManager_Create sort_by_id qs instances = Inr m" "mset (sort_by_id qs) = mset qs" "sorted (map cq_channel_id (sort_by_id qs))"
  shows "\<forall>q \<in> set qs. GetQueue m (cq_channel_instance q) = Some q" "mset (cm_queue_vec m) = mset (map cq_channel_instance qs)"
    "sorted (map (\<lambda>i. cq_channel_id (the (GetQueue m i))) (cm_queue_vec m))"
proof -
  have d: "distinct (map cq_channel_instance qs)" using Create_iff [of sort_by_id qs instances] assms(1) by blast
  have m: "m = ChannelQueueManager_new sort_by_id qs" using assms(1) by (auto simp: ChannelQueueManager_Create_def split: option.splits if_splits)
  show g: "\<forall>q \<in> set qs. GetQueue m (cq_channel_instance q) = Some q"
  proof
    fix q assume q: "q \<in> set qs"
    then obtain x where "find (\<lambda>x. cq_channel_instance x = cq_channel_instance q) qs = Some x"
      by (cases "find (\<lambda>x. cq_channel_instance x = cq_channel_instance q) qs") (auto simp: find_None_iff)
    moreover then have "x = q" using d q by (auto simp: find_Some_iff distinct_map inj_on_def)
    ultimately show "GetQueue m (cq_channel_instance q) = Some q" using fold_queues [OF d] by (simp add: m GetQueue_def ChannelQueueManager_new_def)
  qed
  show "mset (cm_queue_vec m) = mset (map cq_channel_instance qs)" using assms(2) by (simp add: m ChannelQueueManager_new_def)
  have "set (sort_by_id qs) = set qs" by (rule mset_eq_setD [OF assms(2)])
  then have "map (\<lambda>i. cq_channel_id (the (GetQueue m i))) (cm_queue_vec m) = map cq_channel_id (sort_by_id qs)"
    using g by (simp add: m ChannelQueueManager_new_def)
  then show "sorted (map (\<lambda>i. cq_channel_id (the (GetQueue m i))) (cm_queue_vec m))" using assms(3) by simp
qed

end
