(* ===== verification/Number_Parser.thy ===== *)
theory Number_Parser
  imports Bits_Ops Ir_Type
begin

text \<open>
  Models \<open>xls/common/string_to_int.cc\<close> and \<open>xls/ir/number_parser.{h,cc}\<close>: numbers read from text, in decimal, binary
  (\<open>0b\<close>) and hexadecimal (\<open>0x\<close>), into the narrowest vector of bits that holds them or into machine integers.

  The result of an operation is an option whose \<open>None\<close> is a crash, around a status or a value. The width \<open>None\<close> of
  the helper stands for \<open>kMinimumBitCount\<close>. The 128-bit accumulator of \<open>StrTo64Base\<close> is a natural number: it is below \<open>2 ^ 64\<close> before
  each digit.

  The lemmas show that numbers in the documented form have their value and everything else is an error, except
  for texts in which a sign or a second prefix follows the prefix; that the printed forms of a vector are read back; and when a
  number fits a machine integer.
\<close>

section \<open>Text to machine integer\<close>

definition consume_prefix :: "string \<Rightarrow> string \<Rightarrow> bool \<times> string" where
  "consume_prefix p s = (if take (length p) s = p then (True, drop (length p) s) else (False, s))"

definition char_to_digit :: "nat \<Rightarrow> char \<Rightarrow> (status_code + nat) option" where
  "char_to_digit base c =
     (let n = of_char c;
          check = (\<lambda>digit. Some (if digit \<ge> base then Inl InvalidArgument else Inr digit))
      in if base \<in> {2, 8, 10} then (if n < 48 then Some (Inl InvalidArgument) else check (n - 48))
         else if base = 16 then
           (if 97 \<le> n \<and> n \<le> 102 then check (n - 97 + 10)
            else if 65 \<le> n \<and> n \<le> 70 then check (n - 65 + 10)
            else if 48 \<le> n \<and> n \<le> 57 then check (n - 48)
            else Some (Inl InvalidArgument))
         else None)"

fun StrTo64_loop :: "nat \<Rightarrow> string \<Rightarrow> nat \<Rightarrow> (status_code + nat) option" where
  "StrTo64_loop base [] accum = Some (Inr accum)"
| "StrTo64_loop base (c # s) accum = do {
     d \<leftarrow> char_to_digit base c;
     case d of Inl e \<Rightarrow> Some (Inl e)
     | Inr digit \<Rightarrow>
         let accum = accum * base + digit in
         if accum \<ge> 2 ^ 64 then Some (Inl InvalidArgument) else StrTo64_loop base s accum
   }"

definition StrTo64Base :: "string \<Rightarrow> nat \<Rightarrow> (status_code + u64) option" where
  "StrTo64Base s base =
     (if s = ''0'' \<or> s = ''-0'' then Some (Inr 0)
      else
        let (negated, s) = consume_prefix ''-'' s;
            (base, s) =
              (if base = 0 then
                 (if fst (consume_prefix ''0b'' s) then (2, snd (consume_prefix ''0b'' s))
                  else if fst (consume_prefix ''0x'' s) then (16, snd (consume_prefix ''0x'' s))
                  else if fst (consume_prefix ''0'' s) then (8, snd (consume_prefix ''0'' s))
                  else (10, s))
               else if base = 16 then (base, snd (consume_prefix ''0x'' s))
               else if base = 8 then (base, snd (consume_prefix ''0'' s))
               else if base = 2 then (base, snd (consume_prefix ''0b'' s))
               else (base, s))
        in if base < 2 then Some (Inl InternalError)
           else if s = [] then Some (Inl InvalidArgument)
           else do {
             r \<leftarrow> StrTo64_loop base s 0;
             case r of Inl e \<Rightarrow> Some (Inl e)
             | Inr accum \<Rightarrow> Some (Inr (if negated then - of_nat accum else of_nat accum))
           })"

section \<open>Text to vector\<close>

text \<open>\<open>absl::SimpleAtoi\<close> on a text of one character.\<close>

definition SimpleAtoi_digit :: "char \<Rightarrow> nat option" where
  "SimpleAtoi_digit c = (let n = of_char c in if 48 \<le> n \<and> n \<le> 57 then Some (n - 48) else None)"

fun decimal_loop :: "'bn bignum \<Rightarrow> string \<Rightarrow> Bits \<Rightarrow> (status_code + Bits) option" where
  "decimal_loop B [] acc = Some (Inr acc)"
| "decimal_loop B (c # s) acc = do {
     bits_10 \<leftarrow> UBits 10 8;
     acc \<leftarrow> bits_ops_UMul B acc bits_10;
     case SimpleAtoi_digit c of None \<Rightarrow> Some (Inl InvalidArgument)
     | Some magnitude \<Rightarrow> do {
         new_char \<leftarrow> UBits (of_nat magnitude) (Bits_bit_count acc);
         acc \<leftarrow> bits_ops_Add B acc new_char;
         acc \<leftarrow> bits_ops_DropLeadingZeroes acc;
         decimal_loop B s acc
       }
   }"

function parse_chunks :: "nat \<Rightarrow> nat \<Rightarrow> string \<Rightarrow> (status_code + Bits list) option" where
  "parse_chunks base base_bits s =
     (if s = [] then Some (Inr [])
      else
        let step_size = max 1 (64 div base_bits);
            chunk = take step_size s
        in do {
          r \<leftarrow> StrTo64Base chunk base;
          case r of Inl e \<Rightarrow> Some (Inl InvalidArgument)
          | Inr chunk_value \<Rightarrow> do {
              b \<leftarrow> UBits chunk_value (length chunk * base_bits);
              rest \<leftarrow> parse_chunks base base_bits (drop step_size s);
              Some (case rest of Inl e \<Rightarrow> Inl e | Inr bs \<Rightarrow> Inr (b # bs))
            }
        })"
  by pat_completeness auto
termination by (relation "measure (\<lambda>(base, base_bits, s). length s)") auto

definition ParseUnsignedNumberHelper :: "'bn bignum \<Rightarrow> string \<Rightarrow> FormatPreference \<Rightarrow> nat option \<Rightarrow> (status_code + Bits) option" where
  "ParseUnsignedNumberHelper B input format bit_count =
     (let numeric_string = filter (\<lambda>c. c \<noteq> CHR ''_'') input in
      if format = kDefault then Some (Inl InvalidArgument)
      else if numeric_string = [] then Some (Inl InvalidArgument)
      else if format = kUnsignedDecimal then do {
        acc \<leftarrow> UBits 0 32;
        decimal_loop B numeric_string acc
      }
      else if format \<noteq> kBinary \<and> format \<noteq> kHex then Some (Inl InvalidArgument)
      else do {
        r \<leftarrow> (if format = kBinary then parse_chunks 2 1 numeric_string else parse_chunks 16 4 numeric_string);
        case r of Inl e \<Rightarrow> Some (Inl e)
        | Inr chunks \<Rightarrow> do {
            unnarrowed \<leftarrow> bits_ops_Concat chunks;
            case bit_count of
              None \<Rightarrow> map_option Inr (Bits_Slice unnarrowed 0 (Bits_bit_count unnarrowed - Bits_CountLeadingZeros unnarrowed))
            | Some n \<Rightarrow>
                if n > Bits_bit_count unnarrowed then
                  map_option Inr (BitsRope_Build (BitsRope_push_back (BitsRope_push_back (BitsRope_new n) unnarrowed)
                    (Bits_new (n - Bits_bit_count unnarrowed))))
                else map_option Inr (Bits_Slice unnarrowed 0 n)
          }
      })"

definition ParseUnsignedNumberWithoutPrefix :: "'bn bignum \<Rightarrow> string \<Rightarrow> FormatPreference \<Rightarrow> nat option \<Rightarrow> (status_code + Bits) option" where
  "ParseUnsignedNumberWithoutPrefix B input format bit_count = ParseUnsignedNumberHelper B input format bit_count"

text \<open>The digits of a literal: its format and the text after the sign and the prefix.\<close>

definition literal_format :: "string \<Rightarrow> status_code + FormatPreference \<times> string" where
  "literal_format s =
     (if length s \<ge> 2 \<and> s ! 0 = CHR ''0'' then
        (if s ! 1 = CHR ''b'' then Inr (kBinary, drop 2 s)
         else if s ! 1 = CHR ''x'' then Inr (kHex, drop 2 s)
         else Inl InvalidArgument)
      else Inr (kUnsignedDecimal, s))"

definition GetSignAndMagnitude :: "'bn bignum \<Rightarrow> string \<Rightarrow> (status_code + bool \<times> Bits) option" where
  "GetSignAndMagnitude B input =
     (if input = [] then Some (Inl InvalidArgument)
      else
        let is_negative = (input ! 0 = CHR ''-'');
            numeric_substring = (if is_negative then drop 1 input else input)
        in case literal_format numeric_substring of
          Inl e \<Rightarrow> Some (Inl e)
        | Inr (format, numeric_substring) \<Rightarrow> do {
            r \<leftarrow> ParseUnsignedNumberHelper B numeric_substring format None;
            Some (case r of Inl e \<Rightarrow> Inl e | Inr v \<Rightarrow> Inr (is_negative, v))
          })"

definition leading_ones :: "Bits \<Rightarrow> nat" where
  "leading_ones b = length (takeWhile (\<lambda>i. Bits_Get b i) (rev [0..<Bits_bit_count b]))"

definition ParseNumber :: "'bn bignum \<Rightarrow> string \<Rightarrow> (status_code + Bits) option" where
  "ParseNumber B input = do {
     pair \<leftarrow> GetSignAndMagnitude B input;
     case pair of Inl e \<Rightarrow> Some (Inl e)
     | Inr (is_negative, magnitude) \<Rightarrow>
         if is_negative \<and> \<not> Bits_IsZero magnitude then do {
           z \<leftarrow> bits_ops_ZeroExtend magnitude (Bits_bit_count magnitude + 1);
           r \<leftarrow> bits_ops_Negate B z;
           if \<not> leading_ones r > 0 then Some (Inl InternalError)
           else map_option Inr (Bits_Slice r 0 (Bits_bit_count r - leading_ones r + 1))
         }
         else Some (Inr magnitude)
   }"

definition ParseNumberAsUint64 :: "'bn bignum \<Rightarrow> string \<Rightarrow> (status_code + u64) option" where
  "ParseNumberAsUint64 B input = do {
     pair \<leftarrow> GetSignAndMagnitude B input;
     Some (case pair of Inl e \<Rightarrow> Inl e
     | Inr (is_negative, magnitude) \<Rightarrow>
         if (is_negative \<and> \<not> Bits_IsZero magnitude) \<or> Bits_bit_count magnitude > 64 then Inl InvalidArgument
         else Bits_ToUint64 magnitude)
   }"

definition ParseNumberAsInt64 :: "'bn bignum \<Rightarrow> string \<Rightarrow> (status_code + i64) option" where
  "ParseNumberAsInt64 B input = do {
     pair \<leftarrow> GetSignAndMagnitude B input;
     case pair of Inl e \<Rightarrow> Some (Inl e)
     | Inr (is_negative, magnitude) \<Rightarrow>
         if \<not> is_negative then
           (if Bits_bit_count magnitude > 63 then Some (Inl InvalidArgument)
            else map_option Bits_ToInt64 (bits_ops_ZeroExtend magnitude 64))
         else if Bits_bit_count magnitude \<ge> 64 then
           Some (if Bits_bit_count magnitude = 64 \<and> Bits_msb magnitude \<and> Bits_PopCount magnitude = 1
                 then Inr (word_of_int (- (2 ^ 63))) else Inl InvalidArgument)
         else do {
           z \<leftarrow> bits_ops_ZeroExtend magnitude 64;
           map_option Bits_ToInt64 (bits_ops_Negate B z)
         }
   }"

text \<open>Bit 0 of a magnitude of no bits lies outside of the vector: reading it is a failure.\<close>

definition ParseNumberAsBool :: "'bn bignum \<Rightarrow> string \<Rightarrow> (status_code + bool) option" where
  "ParseNumberAsBool B input =
     (if input = ''true'' then Some (Inr True)
      else if input = ''false'' then Some (Inr False)
      else do {
        pair \<leftarrow> GetSignAndMagnitude B input;
        case pair of Inl e \<Rightarrow> Some (Inl e)
        | Inr (is_negative, magnitude) \<Rightarrow>
            if is_negative then Some (Inl InvalidArgument)
            else if Bits_bit_count magnitude > 1 then Some (Inl InvalidArgument)
            else if Bits_bit_count magnitude = 0 then None
            else Some (Inr (Bits_Get magnitude 0))
      })"

declare parse_chunks.simps [simp del]

section \<open>What a literal means\<close>

text \<open>A reading of literals that does not go through machine words: the value of a digit, of a text of digits and of a literal.\<close>

definition digit_val :: "nat \<Rightarrow> char \<Rightarrow> nat option" where
  "digit_val base c =
     (let n = of_char c;
          d = (if 48 \<le> n \<and> n \<le> 57 then Some (n - 48) else if 97 \<le> n \<and> n \<le> 102 then Some (n - 87)
               else if 65 \<le> n \<and> n \<le> 70 then Some (n - 55) else None)
      in case d of None \<Rightarrow> None | Some k \<Rightarrow> if k < base then Some k else None)"

definition digits_nat :: "nat \<Rightarrow> string \<Rightarrow> nat" where
  "digits_nat base s = foldl (\<lambda>a c. a * base + the (digit_val base c)) 0 s"

definition number_val :: "nat \<Rightarrow> string \<Rightarrow> nat option" where
  "number_val base s =
     (let ds = filter (\<lambda>c. c \<noteq> CHR ''_'') s in
      if ds \<noteq> [] \<and> list_all (\<lambda>c. digit_val base c \<noteq> None) ds then Some (digits_nat base ds) else None)"

definition literal_val :: "string \<Rightarrow> (bool \<times> nat) option" where
  "literal_val s =
     (let neg = (s \<noteq> [] \<and> hd s = CHR ''-''); s' = (if neg then tl s else s) in
      map_option (Pair neg)
        (if length s' \<ge> 2 \<and> hd s' = CHR ''0'' then
           if s' ! 1 = CHR ''b'' then number_val 2 (drop 2 s')
           else if s' ! 1 = CHR ''x'' then number_val 16 (drop 2 s') else None
         else number_val 10 s'))"

text \<open>Texts with no sign and no prefix among the digits.\<close>

definition plain_literal :: "string \<Rightarrow> bool" where
  "plain_literal s =
     (let s' = (if s \<noteq> [] \<and> hd s = CHR ''-'' then tl s else s) in
      length s' \<ge> 2 \<and> hd s' = CHR ''0'' \<longrightarrow>
        (s' ! 1 = CHR ''b'' \<longrightarrow> CHR ''-'' \<notin> set (drop 2 s') \<and> CHR ''b'' \<notin> set (drop 2 s')) \<and>
        (s' ! 1 = CHR ''x'' \<longrightarrow> CHR ''-'' \<notin> set (drop 2 s') \<and> CHR ''x'' \<notin> set (drop 2 s')))"

section \<open>Digits\<close>

lemma char_to_digit_val:
  assumes "base \<in> {2, 8, 10, 16}"
  shows "char_to_digit base c = Some (case digit_val base c of None \<Rightarrow> Inl InvalidArgument | Some d \<Rightarrow> Inr d)"
proof -
  obtain n :: nat where n: "of_char c = n" by simp
  consider "n < 48" | "48 \<le> n" "n \<le> 57" | "57 < n" "n < 65" | "65 \<le> n" "n \<le> 70" | "70 < n" "n < 97" | "97 \<le> n" "n \<le> 102" | "102 < n"
    by linarith
  then show ?thesis using assms unfolding char_to_digit_def digit_val_def n Let_def by cases (elim insertE emptyE; simp)+
qed

lemma SimpleAtoi_digit_val: "SimpleAtoi_digit c = digit_val 10 c"
  by (auto simp: SimpleAtoi_digit_def digit_val_def Let_def split: if_splits)

lemma digit_val_less: "digit_val base c = Some d \<Longrightarrow> d < base"
  by (auto simp: digit_val_def Let_def split: option.splits if_splits)

definition all_digits :: "nat \<Rightarrow> string \<Rightarrow> bool" where
  "all_digits base s \<longleftrightarrow> list_all (\<lambda>c. digit_val base c \<noteq> None) s"

lemma all_digits_simps [simp]:
  "all_digits base []" "all_digits base (c # s) \<longleftrightarrow> digit_val base c \<noteq> None \<and> all_digits base s"
  "all_digits base (s @ t) \<longleftrightarrow> all_digits base s \<and> all_digits base t"
  by (simp_all add: all_digits_def)

definition more_digits :: "nat \<Rightarrow> nat \<Rightarrow> string \<Rightarrow> nat" where
  "more_digits base a s = foldl (\<lambda>a c. a * base + the (digit_val base c)) a s"

lemma more_digits_simps [simp]:
  "more_digits base a [] = a" "more_digits base a (c # s) = more_digits base (a * base + the (digit_val base c)) s"
  by (simp_all add: more_digits_def)

lemma digits_nat_more: "digits_nat base s = more_digits base 0 s"
  by (simp add: digits_nat_def more_digits_def)

lemma more_digits_eq: "more_digits base a s = a * base ^ length s + digits_nat base s"
proof (induction s arbitrary: a)
  case (Cons c s)
  show ?case using Cons [of "a * base + the (digit_val base c)"] Cons [of "the (digit_val base c)"]
    by (simp add: digits_nat_more algebra_simps)
qed (simp add: digits_nat_def)

lemma digits_nat_simps [simp]: "digits_nat base [] = 0" "digits_nat base (c # s) = the (digit_val base c) * base ^ length s + digits_nat base s"
  by (simp_all add: digits_nat_more more_digits_eq [of base "the (digit_val base c)"])

lemma digits_nat_append: "digits_nat base (s @ t) = digits_nat base s * base ^ length t + digits_nat base t"
  by (induction s) (simp_all add: algebra_simps power_add)

lemma digits_nat_less: "all_digits base s \<Longrightarrow> digits_nat base s < base ^ length s"
proof (induction s)
  case (Cons c s)
  then obtain d where d: "digit_val base c = Some d" "d < base" using digit_val_less by auto
  have "Suc d * base ^ length s \<le> base * base ^ length s" using d(2) by (intro mult_right_mono) auto
  then show ?case using Cons d(1) by simp
qed simp

section \<open>Machine integers\<close>

lemma more_digits_ge: "0 < base \<Longrightarrow> a \<le> more_digits base a s"
  by (simp add: more_digits_eq trans_le_add1)

lemma StrTo64_loop_eq:
  assumes "base \<in> {2, 8, 10, 16}" "a < 2 ^ 64"
  shows "StrTo64_loop base s a =
    Some (if all_digits base s \<and> more_digits base a s < 2 ^ 64 then Inr (more_digits base a s) else Inl InvalidArgument)"
  using assms(2)
proof (induction s arbitrary: a)
  case (Cons c s)
  show ?case
  proof (cases "digit_val base c")
    case None
    then show ?thesis using char_to_digit_val [OF assms(1), of c] by simp
  next
    case (Some d)
    show ?thesis
    proof (cases "a * base + d < 2 ^ 64")
      case True
      then show ?thesis using char_to_digit_val [OF assms(1), of c] Some Cons.IH [OF True] by (simp add: Let_def)
    next
      case False
      have "a * base + d \<le> more_digits base (a * base + d) s" using assms(1) by (intro more_digits_ge) auto
      then show ?thesis using char_to_digit_val [OF assms(1), of c] Some False by (simp add: Let_def)
    qed
  qed
qed simp

lemma consume_prefix_none: "hd p \<in> set p \<Longrightarrow> d \<in> set p \<Longrightarrow> d \<notin> set s \<Longrightarrow> consume_prefix p s = (False, s)"
  unfolding consume_prefix_def by (metis in_set_takeD)

lemma StrTo64Base_plain:
  assumes "base \<in> {2, 16}" "s \<noteq> []" "base ^ length s \<le> 2 ^ 64" "CHR ''-'' \<notin> set s"
    and "(if base = 2 then CHR ''b'' else CHR ''x'') \<notin> set s"
  shows "StrTo64Base s base = Some (if all_digits base s then Inr (of_nat (digits_nat base s)) else Inl InvalidArgument)"
proof (cases "s = ''0''")
  case True
  then show ?thesis using assms(1) by (auto simp: StrTo64Base_def digit_val_def)
next
  case False
  have p: "consume_prefix ''-'' s = (False, s)" using assms(4) by (intro consume_prefix_none [of _ "CHR ''-''"]) auto
  have q: "base = 2 \<Longrightarrow> consume_prefix ''0b'' s = (False, s)" "base = 16 \<Longrightarrow> consume_prefix ''0x'' s = (False, s)"
    using assms(5) by (auto intro: consume_prefix_none [of _ "CHR ''b''"] consume_prefix_none [of _ "CHR ''x''"])
  have l: "StrTo64_loop base s 0 = Some (if all_digits base s then Inr (digits_nat base s) else Inl InvalidArgument)"
    using StrTo64_loop_eq [of base 0 s] assms(1) digits_nat_less [of base s] assms(3) by (auto simp: digits_nat_more)
  have n: "s \<noteq> ''-0''" using assms(4) by auto
  consider "base = 2" | "base = 16" using assms(1) by blast
  then show ?thesis
    by cases (use l in \<open>simp_all add: StrTo64Base_def p q False n assms(2) if_distrib [of "case_sum _ _"] cong: if_cong\<close>)
qed

section \<open>Vectors of digits\<close>

text \<open>The narrowest vector that holds a value.\<close>

definition narrowest :: "nat \<Rightarrow> Bits" where
  "narrowest v = bits_of_nat (bit_length v) v"

lemma narrowest_simps [simp]: "bm_wf (narrowest v)" "Bits_bit_count (narrowest v) = bit_length v" "uval (narrowest v) = v"
  by (simp_all add: narrowest_def bit_length_bounds(1))

lemma decimal_step:
  assumes "bignum_spec B val" "bm_wf acc" "digit_val 10 c = Some d"
  shows "decimal_loop B (c # s) acc = decimal_loop B s (narrowest (uval acc * 10 + d))"
proof -
  let ?n = "Bits_bit_count acc + 8"
  have d: "d < 10" using digit_val_less [OF assms(3)] .
  have fits: "uval acc * 10 + d < 2 ^ ?n" using uval_less [of acc] d by (simp add: power_add)
  have 10: "UBits 10 8 = Some (bits_of_nat 8 10)" using UBits_value [of 10 8] by simp
  have "(2::nat) ^ 8 \<le> 2 ^ ?n" by (intro power_increasing) auto
  then have "d < 2 ^ ?n" using d by simp
  moreover have "unat (of_nat d :: u64) = d" using d by (simp add: unat_of_nat)
  ultimately have c: "UBits (of_nat d) ?n = Some (bits_of_nat ?n d)" using UBits_value [of "of_nat d" ?n] by simp
  have m: "bits_ops_UMul B acc (bits_of_nat 8 10) = Some (bits_of_nat ?n (uval acc * 10))"
    using UMul_eq [OF assms(1,2), of "bits_of_nat 8 10"] by simp
  have "bits_ops_Add B (bits_of_nat ?n (uval acc * 10)) (bits_of_nat ?n d) = Some (bits_of_nat ?n (uval acc * 10 + d))"
    using Add_eq(2) [OF assms(1), of "bits_of_nat ?n (uval acc * 10)" "bits_of_nat ?n d"] fits \<open>d < 2 ^ ?n\<close> by simp
  moreover have "bits_ops_DropLeadingZeroes (bits_of_nat ?n (uval acc * 10 + d)) = Some (narrowest (uval acc * 10 + d))"
    using DropLeadingZeroes_eq [of "bits_of_nat ?n (uval acc * 10 + d)"] fits by (simp add: narrowest_def)
  ultimately show ?thesis using assms(3) by (simp add: 10 c m SimpleAtoi_digit_val)
qed

lemma decimal_loop_eq:
  assumes "bignum_spec B val" "bm_wf acc" "s \<noteq> []"
  shows "decimal_loop B s acc =
    Some (if all_digits 10 s then Inr (narrowest (more_digits 10 (uval acc) s)) else Inl InvalidArgument)"
  using assms(2,3)
proof (induction s arbitrary: acc)
  case (Cons c s)
  show ?case
  proof (cases "digit_val 10 c")
    case None
    have "UBits 10 8 = Some (bits_of_nat 8 10)" using UBits_value [of 10 8] by simp
    then show ?thesis using None UMul_eq [OF assms(1) Cons.prems(1), of "bits_of_nat 8 10"] by (simp add: SimpleAtoi_digit_val)
  next
    case (Some d)
    show ?thesis
    proof (cases "s = []")
      case True
      then show ?thesis using decimal_step [OF assms(1) Cons.prems(1) Some, of "[]"] Some by simp
    next
      case False
      show ?thesis using decimal_step [OF assms(1) Cons.prems(1) Some, of s] Cons.IH [OF _ False, of "narrowest (uval acc * 10 + d)"] Some by simp
    qed
  qed
qed simp

text \<open>The digits of a base are \<open>k\<close> bits wide.\<close>

definition digit_width :: "nat \<Rightarrow> nat \<Rightarrow> bool" where
  "digit_width base k \<longleftrightarrow> (base, k) \<in> {(2, 1), (16, 4)}"

lemma digit_widthD:
  assumes "digit_width base k"
  shows "base \<in> {2, 16}" "base = 2 ^ k" "0 < k" "64 div k * k = 64" "max (Suc 0) (64 div k) = 64 div k" "0 < 64 div k"
  using assms by (auto simp: digit_width_def)

definition prefix_free :: "nat \<Rightarrow> string \<Rightarrow> bool" where
  "prefix_free base s \<longleftrightarrow> CHR ''-'' \<notin> set s \<and> (if base = 2 then CHR ''b'' else CHR ''x'') \<notin> set s"

lemma prefix_free_parts: "prefix_free base s \<Longrightarrow> prefix_free base (take n s) \<and> prefix_free base (drop n s)"
  by (auto simp: prefix_free_def dest: in_set_takeD in_set_dropD)

lemma chunk_eq:
  assumes "digit_width base k" "s \<noteq> []" "length s \<le> 64 div k" "prefix_free base s"
  shows "StrTo64Base s base = Some (if all_digits base s then Inr (of_nat (digits_nat base s)) else Inl InvalidArgument)"
    and "all_digits base s \<Longrightarrow> UBits (of_nat (digits_nat base s)) (length s * k) = Some (bits_of_nat (length s * k) (digits_nat base s))"
proof -
  have "length s * k \<le> 64" using assms(3) digit_widthD(4) [OF assms(1)] by (metis mult_le_mono1)
  moreover have p: "base ^ length s = 2 ^ (length s * k)" unfolding digit_widthD(2) [OF assms(1)] by (simp add: power_mult mult.commute)
  ultimately have le: "base ^ length s \<le> 2 ^ 64" by (metis one_le_numeral power_increasing)
  show "StrTo64Base s base = Some (if all_digits base s then Inr (of_nat (digits_nat base s)) else Inl InvalidArgument)"
    using StrTo64Base_plain [OF digit_widthD(1) [OF assms(1)] assms(2) le] assms(4) by (simp add: prefix_free_def)
  show "UBits (of_nat (digits_nat base s)) (length s * k) = Some (bits_of_nat (length s * k) (digits_nat base s))" if "all_digits base s"
    using digits_nat_less [OF that] le UBits_value [of "of_nat (digits_nat base s)" "length s * k"] by (simp add: unat_of_nat p)
qed

definition chunks_hold :: "nat \<Rightarrow> nat \<Rightarrow> string \<Rightarrow> Bits list \<Rightarrow> bool" where
  "chunks_hold base k s bs \<longleftrightarrow> length (concat (map bm_bits (rev bs))) = length s * k \<and>
     bl_to_nat (concat (map bm_bits (rev bs))) = digits_nat base s"

lemma chunks_hold_Cons:
  assumes "digit_width base k" "all_digits base c" "chunks_hold base k s bs"
  shows "chunks_hold base k (c @ s) (bits_of_nat (length c * k) (digits_nat base c) # bs)"
proof -
  have p: "base ^ n = 2 ^ (n * k)" for n unfolding digit_widthD(2) [OF assms(1)] by (simp add: power_mult mult.commute)
  have "bl_to_nat (nat_to_bl (length c * k) (digits_nat base c)) = digits_nat base c"
    using digits_nat_less [OF assms(2)] by (simp add: bl_to_nat_to_bl p)
  then show ?thesis using assms(3) unfolding chunks_hold_def by (simp add: bl_to_nat_append digits_nat_append p algebra_simps)
qed

lemma parse_chunks_eq:
  assumes w: "digit_width base k" and "prefix_free base s"
  shows "if all_digits base s then \<exists>bs. parse_chunks base k s = Some (Inr bs) \<and> chunks_hold base k s bs
    else parse_chunks base k s = Some (Inl InvalidArgument)"
  using assms(2)
proof (induction s rule: length_induct)
  case (1 s)
  show ?case
  proof (cases "s = []")
    case True
    then show ?thesis by (simp add: parse_chunks.simps chunks_hold_def)
  next
    case False
    let ?n = "64 div k"
    let ?c = "take ?n s" and ?r = "drop ?n s"
    note n = digit_widthD(5,6) [OF w]
    have c: "?c \<noteq> []" "length ?c \<le> ?n" "prefix_free base ?c" "length ?r < length s" "prefix_free base ?r"
      using False n(2) prefix_free_parts [OF 1(2), of ?n] by auto
    have ch: "StrTo64Base ?c base = Some (if all_digits base ?c then Inr (of_nat (digits_nat base ?c)) else Inl InvalidArgument)"
      and ub: "all_digits base ?c \<Longrightarrow> UBits (of_nat (digits_nat base ?c)) (length ?c * k) = Some (bits_of_nat (length ?c * k) (digits_nat base ?c))"
      using chunk_eq [OF w c(1-3)] by blast+
    have IH: "if all_digits base ?r then \<exists>bs. parse_chunks base k ?r = Some (Inr bs) \<and> chunks_hold base k ?r bs
      else parse_chunks base k ?r = Some (Inl InvalidArgument)" using 1(1) c(4,5) by blast
    have all: "all_digits base s \<longleftrightarrow> all_digits base ?c \<and> all_digits base ?r"
      using all_digits_simps(3) [of base ?c ?r] by simp
    show ?thesis
    proof (cases "all_digits base ?c")
      case False
      then show ?thesis using \<open>s \<noteq> []\<close> ch all by (simp add: parse_chunks.simps [of base k s] Let_def n(1))
    next
      case True
      have p: "parse_chunks base k s = do {
          rest \<leftarrow> parse_chunks base k ?r;
          Some (case rest of Inl e \<Rightarrow> Inl e | Inr bs \<Rightarrow> Inr (bits_of_nat (length ?c * k) (digits_nat base ?c) # bs)) }"
        using \<open>s \<noteq> []\<close> ch ub [OF True] True by (simp add: parse_chunks.simps [of base k s] Let_def n(1) del: length_take)
      show ?thesis
      proof (cases "all_digits base ?r")
        case r: True
        obtain bs where bs: "parse_chunks base k ?r = Some (Inr bs)" "chunks_hold base k ?r bs" using IH r by auto
        show ?thesis using all True r p bs(1) chunks_hold_Cons [OF w True bs(2)] by simp
      qed (use IH p all in simp)
    qed
  qed
qed

section \<open>Literals\<close>

lemma Slice_narrowest: "bm_wf b \<Longrightarrow> Bits_Slice b 0 (Bits_bit_count b - Bits_CountLeadingZeros b) = Some (narrowest (uval b))"
proof -
  let ?m = "Bits_bit_count b - Bits_CountLeadingZeros b"
  assume b: "bm_wf b"
  have "bit_length (uval b) = ?m"
  proof (rule antisym)
    show "bit_length (uval b) \<le> ?m" using CountLeadingZeros_bounds [of b] by (simp add: bit_length_le)
    show "?m \<le> bit_length (uval b)"
      using CountLeadingZeros_bounds [of b] bit_length_le [of "uval b" "?m - 1"] by (cases "?m = 0") auto
  qed
  then show ?thesis using Slice_uval [OF b, of 0 ?m] by (simp add: narrowest_def)
qed

lemma rope_extend:
  assumes "Bits_bit_count b < n"
  shows "BitsRope_Build (BitsRope_push_back (BitsRope_push_back (BitsRope_new n) b) (Bits_new (n - Bits_bit_count b))) = Some (bits_of_nat n (uval b))"
proof -
  let ?z = "replicate (n - Bits_bit_count b) False"
  have "rope_holds (BitsRope_push_back (BitsRope_push_back (BitsRope_new n) b) (Bits_new (n - Bits_bit_count b))) n (bm_bits b @ ?z)"
    using rope_holds_push_back [OF rope_holds_push_back [OF rope_holds_new, of b n], of "Bits_new (n - Bits_bit_count b)"] assms by simp
  then obtain r where r: "BitsRope_Build (BitsRope_push_back (BitsRope_push_back (BitsRope_new n) b) (Bits_new (n - Bits_bit_count b))) = Some r"
      "bm_wf r" "Bits_bit_count r = n" "bm_bits r = bm_bits b @ ?z"
    using BitsRope_Build_correct [of _ n "bm_bits b @ ?z"] assms by auto
  have "uval r = uval b" using r(4) by (simp add: uval_def bl_to_nat_append)
  moreover have "uval b < 2 ^ n" using uval_less [of b] assms by (meson less_le_trans one_le_numeral order_less_imp_le power_increasing)
  ultimately show ?thesis using r(1-3) by (simp add: bits_of_natI)
qed

definition format_base :: "FormatPreference \<Rightarrow> nat" where
  "format_base f = (if f = kBinary then 2 else if f = kHex then 16 else 10)"

lemma Helper_chunks:
  assumes "format \<in> {kBinary, kHex}" "prefix_free (format_base format) input"
  shows "ParseUnsignedNumberHelper B input format bit_count = Some (case number_val (format_base format) input of
      None \<Rightarrow> Inl InvalidArgument
    | Some v \<Rightarrow> Inr (case bit_count of None \<Rightarrow> narrowest v | Some n \<Rightarrow> bits_of_nat n v))"
proof -
  let ?s = "filter (\<lambda>c. c \<noteq> CHR ''_'') input" and ?base = "format_base format"
  define k :: nat where "k = (if format = kBinary then 1 else 4)"
  have w: "digit_width ?base k" using assms(1) by (auto simp: digit_width_def format_base_def k_def)
  have p: "prefix_free ?base ?s" using assms(2) by (auto simp: prefix_free_def)
  have c: "(if format = kBinary then parse_chunks 2 1 ?s else parse_chunks 16 4 ?s) = parse_chunks ?base k ?s"
    using assms(1) by (auto simp: format_base_def k_def)
  have f: "format \<noteq> kDefault" "format \<noteq> kUnsignedDecimal" "\<not> (format \<noteq> kBinary \<and> format \<noteq> kHex)" using assms(1) by auto
  show ?thesis
  proof (cases "?s \<noteq> [] \<and> all_digits ?base ?s")
    case True
    then obtain bs where bs: "parse_chunks ?base k ?s = Some (Inr bs)" "chunks_hold ?base k ?s bs" using parse_chunks_eq [OF w p] by auto
    define u where "u = Bits_of_span (concat (map bm_bits (rev bs)))"
    have u: "bits_ops_Concat bs = Some u" "bm_wf u" "uval u = digits_nat ?base ?s" using bs(2) by (simp_all add: Concat_eq u_def chunks_hold_def)
    have v: "number_val ?base input = Some (uval u)" using True u(3) by (simp add: number_val_def Let_def all_digits_def)
    have "(case bit_count of None \<Rightarrow> map_option Inr (Bits_Slice u 0 (Bits_bit_count u - Bits_CountLeadingZeros u))
        | Some n \<Rightarrow> if n > Bits_bit_count u then map_option Inr (BitsRope_Build (BitsRope_push_back (BitsRope_push_back (BitsRope_new n) u)
              (Bits_new (n - Bits_bit_count u)))) else map_option Inr (Bits_Slice u 0 n)) =
        (Some (Inr (case bit_count of None \<Rightarrow> narrowest (uval u) | Some n \<Rightarrow> bits_of_nat n (uval u))) :: (status_code + Bits) option)"
      by (cases bit_count) (simp_all add: Slice_narrowest [OF u(2)] rope_extend Slice_uval [OF u(2)])
    then show ?thesis using True f c bs(1) u(1) v by (simp add: ParseUnsignedNumberHelper_def Let_def)
  next
    case False
    then have v: "number_val ?base input = None" by (auto simp: number_val_def Let_def all_digits_def)
    show ?thesis
    proof (cases "?s = []")
      case True
      then show ?thesis using v f by (simp add: ParseUnsignedNumberHelper_def Let_def)
    next
      case False
      then have "parse_chunks ?base k ?s = Some (Inl InvalidArgument)" using parse_chunks_eq [OF w p] \<open>\<not> (?s \<noteq> [] \<and> all_digits ?base ?s)\<close> by auto
      then show ?thesis using v f c False by (simp add: ParseUnsignedNumberHelper_def Let_def)
    qed
  qed
qed

lemma Helper_decimal:
  assumes "bignum_spec B val"
  shows "ParseUnsignedNumberHelper B input kUnsignedDecimal bit_count = Some (case number_val 10 input of
      None \<Rightarrow> Inl InvalidArgument | Some v \<Rightarrow> Inr (narrowest v))"
proof -
  let ?s = "filter (\<lambda>c. c \<noteq> CHR ''_'') input"
  have "?s \<noteq> [] \<Longrightarrow> decimal_loop B ?s (Bits_new 32) = Some (if all_digits 10 ?s then Inr (narrowest (digits_nat 10 ?s)) else Inl InvalidArgument)"
    using decimal_loop_eq [OF assms, of "Bits_new 32" ?s] by (simp add: digits_nat_more)
  then show ?thesis by (simp add: ParseUnsignedNumberHelper_def Let_def number_val_def all_digits_def UBits_0)
qed

lemma GetSignAndMagnitude_eq:
  assumes "bignum_spec B val" "plain_literal s"
  shows "GetSignAndMagnitude B s = Some (case literal_val s of None \<Rightarrow> Inl InvalidArgument | Some (neg, v) \<Rightarrow> Inr (neg, narrowest v))"
proof (cases "s = []")
  case True
  then show ?thesis by (simp add: GetSignAndMagnitude_def literal_val_def number_val_def)
next
  case False
  define neg where "neg \<longleftrightarrow> hd s = CHR ''-''"
  define t where "t = (if neg then tl s else s)"
  have s0: "(s ! 0 = CHR ''-'') = neg" "(if neg then drop 1 s else s) = t" using False by (auto simp: neg_def t_def hd_conv_nth drop_Suc)
  have g: "GetSignAndMagnitude B s = (case literal_format t of Inl e \<Rightarrow> Some (Inl e)
      | Inr (f, u) \<Rightarrow> do { r \<leftarrow> ParseUnsignedNumberHelper B u f None; Some (case r of Inl e \<Rightarrow> Inl e | Inr v \<Rightarrow> Inr (neg, v)) })"
    using False by (simp only: GetSignAndMagnitude_def Let_def s0 if_False)
  have l: "literal_val s = map_option (Pair neg) (if length t \<ge> 2 \<and> hd t = CHR ''0'' then
           if t ! 1 = CHR ''b'' then number_val 2 (drop 2 t)
           else if t ! 1 = CHR ''x'' then number_val 16 (drop 2 t) else None
         else number_val 10 t)"
    using False by (simp only: literal_val_def Let_def neg_def t_def simp_thms if_cancel)
  have p: "plain_literal s \<longleftrightarrow> (length t \<ge> 2 \<and> hd t = CHR ''0'' \<longrightarrow>
        (t ! 1 = CHR ''b'' \<longrightarrow> CHR ''-'' \<notin> set (drop 2 t) \<and> CHR ''b'' \<notin> set (drop 2 t)) \<and>
        (t ! 1 = CHR ''x'' \<longrightarrow> CHR ''-'' \<notin> set (drop 2 t) \<and> CHR ''x'' \<notin> set (drop 2 t)))"
    using False by (simp only: plain_literal_def Let_def neg_def t_def simp_thms)
  show ?thesis
  proof (cases "length t \<ge> 2 \<and> t ! 0 = CHR ''0''")
    case True
    then obtain c r where t: "t = CHR ''0'' # c # r" by (cases t; cases "tl t") auto
    have f: "literal_format t = (if c = CHR ''b'' then Inr (kBinary, r) else if c = CHR ''x'' then Inr (kHex, r) else Inl InvalidArgument)"
      by (simp add: literal_format_def t)
    consider "c = CHR ''b''" | "c = CHR ''x''" | "c \<noteq> CHR ''b''" "c \<noteq> CHR ''x''" by blast
    then show ?thesis
    proof cases
      case 1
      then have "prefix_free 2 r" using assms(2) unfolding p by (simp add: t prefix_free_def)
      then show ?thesis using Helper_chunks [of kBinary r B None] 1 unfolding g l f by (cases "number_val 2 r") (simp_all add: t format_base_def)
    next
      case 2
      then have "prefix_free 16 r" using assms(2) unfolding p by (simp add: t prefix_free_def)
      then show ?thesis using Helper_chunks [of kHex r B None] 2 unfolding g l f by (cases "number_val 16 r") (simp_all add: t format_base_def)
    next
      case 3
      then show ?thesis unfolding g l f by (simp add: t)
    qed
  next
    case False
    have f: "literal_format t = Inr (kUnsignedDecimal, t)" unfolding literal_format_def if_not_P [OF False] ..
    have "\<not> (length t \<ge> 2 \<and> hd t = CHR ''0'')" using False by (cases t) auto
    then have "literal_val s = map_option (Pair neg) (number_val 10 t)" unfolding l by (simp only: if_False)
    then show ?thesis unfolding g f using Helper_decimal [OF assms(1), of t None] by (cases "number_val 10 t") simp_all
  qed
qed

section \<open>Results of parsing\<close>

lemma length_takeWhile_rev:
  assumes "k \<le> n" "\<And>i. k \<le> i \<Longrightarrow> i < n \<Longrightarrow> P i" "0 < k \<Longrightarrow> \<not> P (k - 1)"
  shows "length (takeWhile P (rev [0..<n])) = n - k"
proof -
  have "[0..<n] = [0..<k] @ [k..<n]" using upt_add_eq_append [of 0 k "n - k"] assms(1) by simp
  moreover have "takeWhile P (rev [k..<n] @ rev [0..<k]) = rev [k..<n] @ takeWhile P (rev [0..<k])"
    using assms(2) by (intro takeWhile_append2) auto
  moreover have "takeWhile P (rev [0..<k]) = []" using assms(3) by (cases k) auto
  ultimately show ?thesis by simp
qed

lemma highest_bit_set: "0 < v \<Longrightarrow> bit v (bit_length v - 1)" for v :: nat
proof -
  assume v: "0 < v"
  then obtain k where k: "bit_length v = Suc k" by (cases "bit_length v") (auto simp: bit_length.simps [of v])
  have "v div 2 ^ k = 1" using bit_length_bounds [of v] k v by (intro div_nat_eqI) simp_all
  then show ?thesis by (simp add: bit_iff_odd k)
qed

lemma bit_length_mono: "v \<le> w \<Longrightarrow> bit_length v \<le> bit_length w"
  using bit_length_bounds(1) [of w] by (simp add: bit_length_le)

lemma negative_literal:
  assumes "bignum_spec B val" "0 < m"
  defines "r \<equiv> bits_of_int (bit_length m + 1) (- int m)"
  shows "do { z \<leftarrow> bits_ops_ZeroExtend (narrowest m) (bit_length m + 1); bits_ops_Negate B z } = Some r"
    and "leading_ones r = bit_length m + 1 - bit_length (m - 1)" "bit_length (m - 1) \<le> bit_length m"
    and "Bits_Slice r 0 (bit_length (m - 1) + 1) = Some (bits_of_int (signed_bit_length (- int m)) (- int m))"
proof -
  let ?n = "bit_length m" and ?k = "bit_length (m - 1)"
  show k: "?k \<le> ?n" by (simp add: bit_length_mono)
  have sv: "sval (bits_of_nat (?n + 1) m) = int m"
    using sval_bits_of_int [of ?n "int m"] bit_length_bounds(1) [of m] by (simp add: bits_of_int_of_nat)
  show "do { z \<leftarrow> bits_ops_ZeroExtend (narrowest m) (?n + 1); bits_ops_Negate B z } = Some r"
    using Negate_eq [OF assms(1), of "bits_of_nat (?n + 1) m"] sv by (simp add: ZeroExtend_eq r_def)
  have get: "Bits_Get r i \<longleftrightarrow> \<not> bit (m - 1) i" if "i < ?n + 1" for i
  proof -
    have "Bits_Get r i = bit (nat ((- int m) mod 2 ^ (?n + 1))) i" using that by (simp add: Bits_Get_bit r_def)
    also have "\<dots> = bit (- int m) i" using that by (simp add: bit_nat_iff bit_take_bit_iff flip: take_bit_eq_mod del: power_Suc Suc_eq_plus1)
    also have "\<dots> = (\<not> bit (int m - 1) i)" by (simp add: bit_minus_int_iff bit_not_int_iff)
    also have "int m - 1 = int (m - 1)" using assms(2) by simp
    finally show ?thesis by (simp only: bit_of_nat_iff possible_bit_def) simp
  qed
  show "leading_ones r = ?n + 1 - ?k" unfolding leading_ones_def
  proof (subst length_takeWhile_rev [where k = ?k])
    show "?k \<le> Bits_bit_count r" using k by (simp add: r_def)
    show "Bits_Get r i" if "?k \<le> i" "i < Bits_bit_count r" for i
      using that get [of i] bit_length_le [of "m - 1" i] by (auto simp: r_def nat_less_exp_iff_bits)
    show "\<not> Bits_Get r (?k - 1)" if "0 < ?k"
      using that k get [of "?k - 1"] highest_bit_set [of "m - 1"] by (cases "m - 1 = 0") (auto simp: bit_length.simps [of 0])
  qed (simp add: r_def)
  have "Bits_Slice r 0 (?k + 1) = Some (bits_of_nat (?k + 1) (uval r))" using Slice_uval [of r 0 "?k + 1"] k by (simp add: r_def)
  also have "bits_of_nat (?k + 1) (uval r) = bits_of_int (?k + 1) (- int m)"
  proof (rule bits_of_intI)
    have "(2::int) ^ (?k + 1) dvd 2 ^ (?n + 1)" using k by (intro le_imp_power_dvd) simp
    then show "int (uval (bits_of_nat (?k + 1) (uval r))) = - int m mod 2 ^ (?k + 1)"
      by (simp add: r_def zmod_int mod_mod_cancel)
  qed simp_all
  finally have sl: "Bits_Slice r 0 (?k + 1) = Some (bits_of_int (?k + 1) (- int m))" .
  have "nat (int m - 1) = m - 1" using assms(2) by simp
  then have "signed_bit_length (- int m) = ?k + 1" using assms(2) by (simp add: signed_bit_length_def)
  with sl show "Bits_Slice r 0 (?k + 1) = Some (bits_of_int (signed_bit_length (- int m)) (- int m))" by simp
qed

text \<open>The number a literal stands for.\<close>

definition signed_val :: "bool \<times> nat \<Rightarrow> int" where
  "signed_val l = (if fst l then - int (snd l) else int (snd l))"

definition number_bits :: "int \<Rightarrow> Bits" where
  "number_bits x = (if x < 0 then bits_of_int (signed_bit_length x) x else narrowest (nat x))"

lemma ParseNumber_eq:
  assumes "bignum_spec B val" "plain_literal s"
  shows "ParseNumber B s = Some (case literal_val s of None \<Rightarrow> Inl InvalidArgument | Some l \<Rightarrow> Inr (number_bits (signed_val l)))"
proof (cases "literal_val s")
  case None
  then show ?thesis using GetSignAndMagnitude_eq [OF assms] by (simp add: ParseNumber_def)
next
  case (Some l)
  obtain neg v where l: "l = (neg, v)" by (cases l)
  have g: "GetSignAndMagnitude B s = Some (Inr (neg, narrowest v))" using GetSignAndMagnitude_eq [OF assms] Some l by simp
  show ?thesis
  proof (cases "neg \<and> v \<noteq> 0")
    case False
    then show ?thesis using Some l g by (auto simp: ParseNumber_def Bits_IsZero_iff signed_val_def number_bits_def)
  next
    case True
    then have v: "0 < v" by simp
    note n = negative_literal [OF assms(1) v]
    let ?r = "bits_of_int (bit_length v + 1) (- int v)"
    have "ParseNumber B s = do { z \<leftarrow> bits_ops_ZeroExtend (narrowest v) (bit_length v + 1); r \<leftarrow> bits_ops_Negate B z;
        if \<not> leading_ones r > 0 then Some (Inl InternalError)
        else map_option Inr (Bits_Slice r 0 (Bits_bit_count r - leading_ones r + 1)) }"
      using True g by (simp add: ParseNumber_def Bits_IsZero_iff)
    also have "\<dots> = (if \<not> leading_ones ?r > 0 then Some (Inl InternalError)
        else map_option Inr (Bits_Slice ?r 0 (Bits_bit_count ?r - leading_ones ?r + 1)))"
      using n(1) by (cases "bits_ops_ZeroExtend (narrowest v) (bit_length v + 1)") simp_all
    also have "\<dots> = Some (Inr (bits_of_int (signed_bit_length (- int v)) (- int v)))" using n(2-4) by simp
    finally show ?thesis using True Some l by (simp add: signed_val_def number_bits_def)
  qed
qed

lemma ToInt64_word:
  assumes "bm_wf b" "- (2 ^ 63) \<le> sval b" "sval b < 2 ^ 63"
  shows "Bits_ToInt64 b = Inr (word_of_int (sval b))"
proof -
  obtain w where w: "Bits_ToInt64 b = Inr w" "sint w = sval b" using ToInt64_correct(1) [OF assms(1)] assms(2,3) by blast
  then show ?thesis by (simp flip: w(2))
qed

lemma sval_64:
  assumes "- (2 ^ 63) \<le> x" "x < 2 ^ 63"
  shows "sval (bits_of_int 64 x) = x"
  using sval_bits_of_int [of 63 x] assms by simp

lemma lowest_int64:
  assumes "2 ^ 63 \<le> v"
  shows "Bits_bit_count (narrowest v) = 64 \<and> Bits_msb (narrowest v) \<and> Bits_PopCount (narrowest v) = 1 \<longleftrightarrow> v = 2 ^ 63"
proof (cases "bit_length v = 64")
  case False
  then have "v \<noteq> 2 ^ 63" using bit_length_le [of "2 ^ 63" 64] bit_length_le [of "2 ^ 63" 63] by auto
  then show ?thesis using False by simp
next
  case True
  let ?bs = "nat_to_bl 64 v"
  have top: "bit v 63" using highest_bit_set [of v] assms True by simp
  have "nat_to_bl (Suc 63) v = nat_to_bl 63 v @ [True]" using top by (simp only: nat_to_bl_def upt_Suc_append le0 map_append list.map)
  then have split: "?bs = nat_to_bl 63 v @ [True]" by simp
  have bs: "bm_bits (narrowest v) = ?bs" by (simp add: narrowest_def True)
  have v: "v = v mod 2 ^ 63 + 2 ^ 63"
  proof -
    have "v < 2 * 2 ^ 63" using bit_length_bounds(1) [of v] True by simp
    then have "v div 2 ^ 63 = 1" using assms by (intro div_nat_eqI) simp_all
    then show ?thesis using div_mult_mod_eq [of v "2 ^ 63"] by simp
  qed
  have "Bits_msb (narrowest v)" using True by (simp add: Bits_msb_last bs split)
  moreover have "Bits_PopCount (narrowest v) = 1 \<longleftrightarrow> (\<forall>b \<in> set (nat_to_bl 63 v). \<not> b)"
    by (simp add: Bits_PopCount_eq bs split filter_empty_conv)
  moreover have "(\<forall>b \<in> set (nat_to_bl 63 v). \<not> b) \<longleftrightarrow> v mod 2 ^ 63 = 0"
    using bl_to_nat_eq_0_iff [of "nat_to_bl 63 v"] by (simp only: bl_to_nat_to_bl)
  moreover have "v mod 2 ^ 63 = 0 \<longleftrightarrow> v = 2 ^ 63" using v by linarith
  ultimately show ?thesis using True by simp
qed

lemma AsInt64_eq:
  assumes "bignum_spec B val" "plain_literal s"
  shows "ParseNumberAsInt64 B s = Some (case literal_val s of None \<Rightarrow> Inl InvalidArgument
    | Some l \<Rightarrow> if - (2 ^ 63) \<le> signed_val l \<and> signed_val l < 2 ^ 63 then Inr (word_of_int (signed_val l)) else Inl InvalidArgument)"
proof (cases "literal_val s")
  case None
  then show ?thesis using GetSignAndMagnitude_eq [OF assms] by (simp add: ParseNumberAsInt64_def)
next
  case (Some l)
  obtain neg v where l: "l = (neg, v)" by (cases l)
  have g: "GetSignAndMagnitude B s = Some (Inr (neg, narrowest v))" using GetSignAndMagnitude_eq [OF assms] Some l by simp
  have le: "bit_length v \<le> 63 \<longleftrightarrow> v < 2 ^ 63" by (rule bit_length_le)
  show ?thesis
  proof (cases "v < 2 ^ 63")
    case True
    then have z: "bits_ops_ZeroExtend (narrowest v) 64 = Some (bits_of_nat 64 v)" "sval (bits_of_nat 64 v) = int v"
      using le sval_64 [of "int v"] by (simp_all add: ZeroExtend_eq bits_of_int_of_nat)
    have p: "Bits_ToInt64 (bits_of_nat 64 v) = Inr (word_of_int (int v))" using ToInt64_word [of "bits_of_nat 64 v"] z(2) True by simp
    have n: "bits_ops_Negate B (bits_of_nat 64 v) = Some (bits_of_int 64 (- int v))" using Negate_eq [OF assms(1), of "bits_of_nat 64 v"] z(2) by simp
    have q: "Bits_ToInt64 (bits_of_int 64 (- int v)) = Inr (word_of_int (- int v))"
      using ToInt64_word [of "bits_of_int 64 (- int v)"] sval_64 [of "- int v"] True by simp
    have b: "\<not> bit_length v > 63" "\<not> bit_length v \<ge> 64" using le True by simp_all
    show ?thesis using True by (cases neg) (simp_all add: ParseNumberAsInt64_def Some l g signed_val_def z(1) p n q b)
  next
    case False
    have b: "bit_length v > 63" "bit_length v \<ge> 64" using le False by simp_all
    have r: "- (2 ^ 63) \<le> signed_val l \<and> signed_val l < 2 ^ 63 \<longleftrightarrow> neg \<and> v = 2 ^ 63" using False by (auto simp: signed_val_def l)
    show ?thesis
    proof (cases neg)
      case True
      have "ParseNumberAsInt64 B s = Some (if Bits_bit_count (narrowest v) = 64 \<and> Bits_msb (narrowest v) \<and> Bits_PopCount (narrowest v) = 1
          then Inr (word_of_int (- (2 ^ 63))) else Inl InvalidArgument)"
        using True b by (simp add: ParseNumberAsInt64_def g)
      also have "\<dots> = Some (if v = 2 ^ 63 then Inr (word_of_int (- (2 ^ 63))) else Inl InvalidArgument)"
        unfolding lowest_int64 [OF False [unfolded not_less]] ..
      finally show ?thesis using True unfolding Some option.case r by (auto simp: signed_val_def l)
    qed (use b r in \<open>simp add: ParseNumberAsInt64_def Some g\<close>)
  qed
qed

lemma AsUint64_eq:
  assumes "bignum_spec B val" "plain_literal s"
  shows "ParseNumberAsUint64 B s = Some (case literal_val s of None \<Rightarrow> Inl InvalidArgument
    | Some l \<Rightarrow> if 0 \<le> signed_val l \<and> signed_val l < 2 ^ 64 then Inr (word_of_int (signed_val l)) else Inl InvalidArgument)"
proof (cases "literal_val s")
  case None
  then show ?thesis using GetSignAndMagnitude_eq [OF assms] by (simp add: ParseNumberAsUint64_def)
next
  case (Some l)
  obtain neg v where l: "l = (neg, v)" by (cases l)
  have g: "GetSignAndMagnitude B s = Some (Inr (neg, narrowest v))" using GetSignAndMagnitude_eq [OF assms] Some l by simp
  have v64: "bit_length v > 64 \<longleftrightarrow> \<not> int v < 2 ^ 64" using bit_length_le [of v 64] by (simp flip: not_le)
  have c: "(neg \<and> \<not> Bits_IsZero (narrowest v)) \<or> Bits_bit_count (narrowest v) > 64 \<longleftrightarrow> \<not> (0 \<le> signed_val l \<and> signed_val l < 2 ^ 64)"
    unfolding narrowest_simps(2) v64 by (cases neg; cases "v = 0") (simp_all add: Bits_IsZero_iff signed_val_def l)
  have "Bits_ToUint64 (narrowest v) = Inr (word_of_int (signed_val l))" if "0 \<le> signed_val l \<and> signed_val l < 2 ^ 64"
  proof -
    have "v < 2 ^ 64" "signed_val l = int v" using that by (auto simp: signed_val_def l split: if_splits)
    then obtain w where w: "Bits_ToUint64 (narrowest v) = Inr w" "unat w = v" using ToUint64_correct(1) [of "narrowest v"] by auto
    then have "w = word_of_int (int v)" using \<open>v < 2 ^ 64\<close> by (simp add: word_unat_eq_iff unat_of_nat)
    then show ?thesis using w(1) \<open>signed_val l = int v\<close> by simp
  qed
  then show ?thesis unfolding ParseNumberAsUint64_def g using Some c by simp
qed

section \<open>Reading printed numbers back\<close>

lemma hex_digit_chars:
  assumes "v < 16"
  shows "hex_digit v \<noteq> CHR ''_''" "hex_digit v \<noteq> CHR ''-''" "hex_digit v \<noteq> CHR ''x''" "v < 2 \<Longrightarrow> hex_digit v \<noteq> CHR ''b''"
    and "v < base \<Longrightarrow> base \<le> 16 \<Longrightarrow> digit_val base (hex_digit v) = Some v"
proof -
  have c: "of_char (hex_digit v) = (if v < 10 then 48 + v else 87 + v)" using assms by (simp add: hex_digit_def of_char_of)
  then have n: "hex_digit v \<noteq> d" if "of_char d \<noteq> (if v < 10 then 48 + v else 87 + v)" for d using that by metis
  show "hex_digit v \<noteq> CHR ''_''" "hex_digit v \<noteq> CHR ''-''" "hex_digit v \<noteq> CHR ''x''" "v < 2 \<Longrightarrow> hex_digit v \<noteq> CHR ''b''"
    using assms by (auto intro!: n split: if_splits)
  show "v < base \<Longrightarrow> base \<le> 16 \<Longrightarrow> digit_val base (hex_digit v) = Some v"
    unfolding digit_val_def c Let_def using assms by (cases "v < 10") simp_all
qed

text \<open>What the loop of \<open>BitsToRawDigits\<close> writes: digits below the base and separators, and at least one digit.\<close>

definition printed :: "nat \<Rightarrow> string \<Rightarrow> bool" where
  "printed base s \<longleftrightarrow> (\<forall>c \<in> set s. c = CHR ''_'' \<or> (\<exists>v < base. c = hex_digit v))"

lemma printed_snoc: "printed base s \<Longrightarrow> v < base \<Longrightarrow> printed base (s @ [hex_digit v])"
  by (auto simp: printed_def)

lemma raw_digits_loop_printed:
  assumes "bm_wf b" "0 < w" "w \<le> 4"
  shows "n * w < Bits_bit_count b + w \<Longrightarrow> printed (2 ^ w) out \<Longrightarrow> 0 < n \<or> (\<exists>c \<in> set out. c \<noteq> CHR ''_'') \<Longrightarrow>
    raw_digits_loop b w sep n out eliding = Some s \<Longrightarrow> printed (2 ^ w) s \<and> (\<exists>c \<in> set s. c \<noteq> CHR ''_'')"
proof (induction n arbitrary: out eliding)
  case (Suc d)
  define v where "v = uval b div 2 ^ (d * w) mod 2 ^ w"
  let ?out = "if sep \<and> (d + 1) mod 4 = 0 \<and> out \<noteq> [] then out @ ''_'' else out"
  have dw: "d * w < Bits_bit_count b" using Suc.prems(1) by simp
  have v: "v < 2 ^ w" by (simp add: v_def)
  have "(2::nat) ^ w \<le> 2 ^ 4" using assms(3) by (intro power_increasing) auto
  then have v16: "v < 16" using less_le_trans [OF v, of "2 ^ 4"] by simp
  then have uv: "unat (of_nat v :: u64) = v" "(of_nat v :: u64) = 0 \<longleftrightarrow> v = 0" by (simp_all add: unat_of_nat word_unat_eq_iff)
  have out: "printed (2 ^ w) ?out" using Suc.prems(2) by (simp add: printed_def)
  have new: "printed (2 ^ w) (?out @ [hex_digit v])" by (rule printed_snoc [OF out v])
  have loop: "raw_digits_loop b w sep (Suc d) out eliding = (if v = 0 \<and> eliding \<and> d \<noteq> 0 then raw_digits_loop b w sep d ?out eliding
      else raw_digits_loop b w sep d (?out @ [hex_digit v]) False)"
  proof -
    obtain S where "Bits_Slice b (d * w) (min w (Bits_bit_count b - d * w)) = Some S" "value_of (Bits_ToUint64 S) = Some (of_nat v)"
      using digit_slice [OF assms dw] by (auto simp: v_def)
    then show ?thesis by (simp add: Let_def uv hex_string_digit [OF v16])
  qed
  show ?case
  proof (cases "v = 0 \<and> eliding \<and> d \<noteq> 0")
    case True
    have "raw_digits_loop b w sep d ?out eliding = Some s" using Suc.prems(4) unfolding loop if_P [OF True] .
    then show ?thesis by (rule Suc.IH [rotated -1]) (use True dw out in auto)
  next
    case False
    have "raw_digits_loop b w sep d (?out @ [hex_digit v]) False = Some s" using Suc.prems(4) unfolding loop if_not_P [OF False] .
    then show ?thesis by (rule Suc.IH [rotated -1]) (use dw new hex_digit_chars(1) [OF v16] in auto)
  qed
qed simp

lemma printed_number:
  assumes "printed base s" "\<exists>c \<in> set s. c \<noteq> CHR ''_''" "base \<in> {2, 16}"
  shows "number_val base s = Some (digits_value base s)" "prefix_free base s"
proof -
  have c: "digit_val base c = Some (digit_of_char c) \<and> c \<noteq> CHR ''-'' \<and> c \<noteq> (if base = 2 then CHR ''b'' else CHR ''x'')"
    if in_s: "c \<in> set s" and ne: "c \<noteq> CHR ''_''" for c
  proof -
    obtain v where v: "v < base" "c = hex_digit v" using bspec [OF assms(1) [unfolded printed_def] in_s] ne by blast
    have v16: "v < 16" "base \<le> 16" using v(1) assms(3) by auto
    have "digit_val base c = Some (digit_of_char c)"
      using hex_digit_chars(5) [OF v16(1) v(1) v16(2)] hex_digit_value [OF v16(1)] v(2) by simp
    moreover have "c \<noteq> (if base = 2 then CHR ''b'' else CHR ''x'')" using hex_digit_chars(3,4) [OF v16(1)] v by (cases "base = 2") simp_all
    ultimately show ?thesis using hex_digit_chars(2) [OF v16(1)] unfolding v(2) by blast
  qed
  let ?f = "filter (\<lambda>c. c \<noteq> CHR ''_'')"
  have "all_digits base (?f s)" using c by (auto simp: all_digits_def list_all_iff)
  moreover have "?f s \<noteq> []" using assms(2) by (auto simp: filter_empty_conv)
  moreover have "digits_nat base (?f s) = digits_value base s"
  proof -
    have "foldl (\<lambda>a c. if c = CHR ''_'' then a else a * base + digit_of_char c) a t = foldl (\<lambda>a c. a * base + the (digit_val base c)) a (?f t)"
      if "set t \<subseteq> set s" for a t
      using that by (induction t arbitrary: a) (auto simp: c)
    then show ?thesis by (simp add: digits_nat_def digits_value_def)
  qed
  ultimately show "number_val base s = Some (digits_value base s)" by (simp add: number_val_def Let_def all_digits_def)
  have "CHR ''_'' \<noteq> CHR ''-''" "CHR ''_'' \<noteq> CHR ''b''" "CHR ''_'' \<noteq> CHR ''x''" by simp_all
  then show "prefix_free base s" using c unfolding prefix_free_def by metis
qed

lemma RawDigits_number:
  assumes "bm_wf b" "preference \<in> {kBinary, kHex}"
  shows "\<exists>s. BitsToRawDigits B b preference False = Some s \<and> number_val (format_base preference) s = Some (uval b) \<and>
    prefix_free (format_base preference) s"
proof (cases "Bits_bit_count b = 0")
  case True
  have "uval b = 0" using uval_less [of b] True by simp
  moreover have "number_val base ''0'' = Some 0" if "base \<in> {2, 16}" for base using that by (auto simp: number_val_def digit_val_def)
  ultimately show ?thesis using assms(2) True by (auto simp: BitsToRawDigits_def format_base_def prefix_free_def)
next
  case False
  define w :: nat where "w = (if preference = kBinary then 1 else 4)"
  define n where "n = CeilOfRatio_nat (Bits_bit_count b) w"
  have w: "0 < w" "w \<le> 4" "2 ^ w = format_base preference" "format_base preference \<in> {2, 16}" using assms(2) by (auto simp: w_def format_base_def)
  have n: "Bits_bit_count b \<le> n * w" "n * w < Bits_bit_count b + w" by (auto simp: n_def w_def CeilOfRatio_nat_eq)
  have pos: "0 < n" using n(1) False by (cases n) auto
  obtain s where s: "BitsToRawDigits B b preference False = Some s" "digits_value (format_base preference) s = uval b"
    using BitsToRawDigits_value [of b preference B False] assms False by (auto simp: format_base_def)
  have "raw_digits_loop b w True n [] True = Some s" using s(1) assms(2) False by (auto simp: BitsToRawDigits_def w_def n_def)
  then have "printed (2 ^ w) s \<and> (\<exists>c \<in> set s. c \<noteq> CHR ''_'')"
    using raw_digits_loop_printed [OF assms(1) w(1,2) n(2), of "[]" True True s] pos by (simp add: printed_def)
  then show ?thesis using s printed_number [of "format_base preference" s] w(3,4) by simp
qed

lemma hd_dec_digits: "0 < v \<Longrightarrow> hd (dec_digits v) \<noteq> CHR ''0''"
proof (induction v rule: dec_digits.induct)
  case (1 v)
  show ?case
  proof (cases "v < 10")
    case True
    have "of_char (char_of (48 + v)) = 48 + v" using True by simp
    moreover have "of_char (CHR ''0'') = (48::nat)" by simp
    ultimately have "char_of (48 + v) \<noteq> CHR ''0''" using 1(2) by (metis add_cancel_right_right less_irrefl)
    then show ?thesis using True by (simp add: dec_digits.simps [of v])
  next
    case False
    have "dec_digits (v div 10) \<noteq> []" by (simp add: dec_digits.simps [of "v div 10"])
    then show ?thesis using 1 False by (simp add: dec_digits.simps [of v])
  qed
qed

lemma dec_digits_number: "number_val 10 (dec_digits v) = Some v"
proof -
  have d: "digit_val 10 c = Some (of_char c - 48)" "c \<noteq> CHR ''_''" if "c \<in> set (dec_digits v)" for c
    using dec_digits_set [OF that] by (auto simp: digit_val_def Let_def)
  have "filter (\<lambda>c. c \<noteq> CHR ''_'') (dec_digits v) = dec_digits v" using d(2) by (simp add: filter_id_conv)
  moreover have "dec_digits v \<noteq> []" by (simp add: dec_digits.simps [of v])
  moreover have "digits_nat 10 (dec_digits v) = digits_val (dec_digits v)" unfolding digits_nat_def digits_val_def
    by (rule foldl_cong) (simp_all add: d)
  ultimately show ?thesis using d(1) by (simp add: number_val_def list_all_iff digits_val_dec)
qed

lemma dec_literal:
  "literal_val (dec_string x) = Some (x < 0, nat \<bar>x\<bar>)" "plain_literal (dec_string x)"
proof -
  let ?s = "dec_digits (nat \<bar>x\<bar>)"
  have ne: "?s \<noteq> []" by (simp add: dec_digits.simps)
  have hd: "hd ?s \<noteq> CHR ''-''" using dec_digits_set [of "hd ?s" "nat \<bar>x\<bar>"] ne by auto
  have no0: "\<not> (length ?s \<ge> 2 \<and> hd ?s = CHR ''0'')"
  proof (cases "nat \<bar>x\<bar> = 0")
    case True
    then show ?thesis by (simp add: dec_digits.simps)
  next
    case False
    then show ?thesis using hd_dec_digits [of "nat \<bar>x\<bar>"] by auto
  qed
  have t: "(if dec_string x \<noteq> [] \<and> hd (dec_string x) = CHR ''-'' then tl (dec_string x) else dec_string x) = ?s"
    "(dec_string x \<noteq> [] \<and> hd (dec_string x) = CHR ''-'') = (x < 0)" using ne hd by (auto simp: dec_string_def)
  show "literal_val (dec_string x) = Some (x < 0, nat \<bar>x\<bar>)" "plain_literal (dec_string x)"
    unfolding literal_val_def plain_literal_def Let_def t(1) unfolding t(2) if_not_P [OF no0] dec_digits_number using no0 by (simp, blast)
qed

lemma prefixed_literal:
  assumes "preference \<in> {kBinary, kHex}" "prefix_free (format_base preference) s"
  defines "t \<equiv> (if preference = kBinary then ''0b'' else ''0x'') @ s"
  shows "literal_val t = map_option (Pair False) (number_val (format_base preference) s)" "plain_literal t"
  using assms(1,2) by (auto simp: t_def literal_val_def plain_literal_def format_base_def prefix_free_def)

text \<open>The value of a vector, as the format prints it.\<close>

definition format_val :: "FormatPreference \<Rightarrow> Bits \<Rightarrow> int" where
  "format_val preference b = (if preference = kSignedDecimal then sval b else int (uval b))"

lemma signed_val_dec: "signed_val (x < 0, nat \<bar>x\<bar>) = x"
  by (simp add: signed_val_def)

lemma printed_literal:
  assumes "bignum_spec B val" "bm_wf b" "preference \<notin> {kPlainBinary, kPlainHex}"
  shows "\<exists>s l. BitsToString B b preference False = Some s \<and> plain_literal s \<and> literal_val s = Some l \<and> signed_val l = format_val preference b"
proof -
  define p where "p = (if preference = kDefault then (if Bits_bit_count b \<le> 64 then kUnsignedDecimal else kHex) else preference)"
  have fv: "format_val preference b = format_val p b" by (simp add: p_def format_val_def)
  have str: "BitsToString B b preference False = do { digits \<leftarrow> BitsToRawDigits B b p False;
      Some ((if p = kBinary then ''0b'' else if p = kHex then ''0x'' else []) @ digits) }"
    by (simp add: BitsToString_def Let_def p_def)
  have "p \<in> {kBinary, kHex} \<or> p = kUnsignedDecimal \<or> p = kSignedDecimal" using assms(3) by (cases preference) (auto simp: p_def)
  then consider "p \<in> {kBinary, kHex}" | "p = kUnsignedDecimal" | "p = kSignedDecimal" by blast
  then show ?thesis
  proof cases
    case 1
    then obtain s where s: "BitsToRawDigits B b p False = Some s" "number_val (format_base p) s = Some (uval b)" "prefix_free (format_base p) s"
      using RawDigits_number [OF assms(2) 1, of B] by blast
    let ?t = "(if p = kBinary then ''0b'' else ''0x'') @ s"
    have "(if p = kBinary then ''0b'' else if p = kHex then ''0x'' else []) = (if p = kBinary then ''0b'' else ''0x'')" using 1 by (cases p) simp_all
    then have t: "BitsToString B b preference False = Some ?t" using str s(1) by simp
    have "literal_val ?t = Some (False, uval b)" using prefixed_literal(1) [OF 1 s(3)] s(2) by simp
    moreover have "format_val preference b = int (uval b)" unfolding fv using 1 by (cases p) (simp_all add: format_val_def)
    moreover have "signed_val (False, uval b) = int (uval b)" by (simp add: signed_val_def)
    ultimately show ?thesis using t prefixed_literal(2) [OF 1 s(3)] by metis
  next
    case 2
    obtain x where x: "BigInt_MakeUnsigned B b = Some x" "val x = int (uval b)" using MakeUnsigned_val [OF assms(1,2)] by blast
    then have "BitsToString B b preference False = Some (dec_string (int (uval b)))"
      using str 2 assms(1) by (simp add: BitsToRawDigits_def BigInt_ToDecimalString_def bignum_spec_def)
    moreover have "format_val preference b = int (uval b)" unfolding fv 2 by (simp add: format_val_def)
    ultimately show ?thesis using dec_literal signed_val_dec by metis
  next
    case 3
    obtain x where x: "BigInt_MakeSigned B b = Some x" "val x = sval b" using MakeSigned_val [OF assms(1,2)] by blast
    then have "BitsToString B b preference False = Some (dec_string (sval b))"
      using str 3 assms(1) by (simp add: BitsToRawDigits_def BigInt_ToDecimalString_def bignum_spec_def)
    moreover have "format_val preference b = sval b" unfolding fv 3 by (simp add: format_val_def)
    ultimately show ?thesis using dec_literal signed_val_dec by metis
  qed
qed

lemma AsBool_eq:
  assumes "bignum_spec B val" "plain_literal s" "s \<noteq> ''true''" "s \<noteq> ''false''"
  shows "ParseNumberAsBool B s = (case literal_val s of
      Some (False, v) \<Rightarrow> if v = 0 then None else Some (if v = 1 then Inr True else Inl InvalidArgument)
    | _ \<Rightarrow> Some (Inl InvalidArgument))"
proof (cases "literal_val s")
  case None
  then show ?thesis using GetSignAndMagnitude_eq [OF assms(1,2)] assms(3,4) by (simp add: ParseNumberAsBool_def)
next
  case (Some l)
  obtain neg v where l: "l = (neg, v)" by (cases l)
  have g: "GetSignAndMagnitude B s = Some (Inr (neg, narrowest v))" using GetSignAndMagnitude_eq [OF assms(1,2)] Some l by simp
  have "bit_length v \<le> 1 \<longleftrightarrow> v = 0 \<or> v = 1" using bit_length_le [of v 1] by auto
  then have v: "bit_length v > 1 \<longleftrightarrow> v \<noteq> 0 \<and> v \<noteq> 1" by linarith
  have z: "bit_length v = 0 \<longleftrightarrow> v = 0" using bit_length_le [of v 0] by auto
  have "bit_length 1 = 1" by (simp add: bit_length.simps)
  then have one: "Bits_Get (narrowest 1) 0" using Bits_Get_bit [of 0 "narrowest 1"] by (simp add: bit_0)
  have "ParseNumberAsBool B s = (if neg \<or> bit_length v > 1 then Some (Inl InvalidArgument) else if bit_length v = 0 then None
      else Some (Inr (Bits_Get (narrowest v) 0)))"
    unfolding ParseNumberAsBool_def g if_not_P [OF assms(3)] if_not_P [OF assms(4)] by simp
  then show ?thesis unfolding v z Some l using one by (cases neg) auto
qed

lemma number_bits_value: "if x < 0 then sval (number_bits x) = x else uval (number_bits x) = nat x"
proof (cases "x < 0")
  case True
  then obtain m where m: "signed_bit_length x = Suc m" by (cases "signed_bit_length x") (auto simp: signed_bit_length_def)
  then show ?thesis using True signed_bit_length_le [of x m] sval_bits_of_int [of m x] by (simp add: number_bits_def)
qed (simp add: number_bits_def)

section \<open>Signs and prefixes among the digits\<close>

text \<open>A sign after the prefix negates the first digits, and a second prefix is skipped.\<close>

definition base_prefix :: "nat \<Rightarrow> string" where
  "base_prefix base = (if base = 2 then ''0b'' else ''0x'')"

lemma digits_plain: "base \<in> {2, 16} \<Longrightarrow> all_digits base s \<Longrightarrow> prefix_free base s \<and> CHR ''_'' \<notin> set s"
  by (induction s) (auto simp: prefix_free_def digit_val_def)

lemma digits_loop:
  assumes "digit_width base k" "all_digits base s" "length s \<le> 64 div k"
  shows "StrTo64_loop base s 0 = Some (Inr (digits_nat base s))" "digits_nat base s < 2 ^ (length s * k)" "digits_nat base s < 2 ^ 64"
proof -
  have "length s * k \<le> 64" using assms(3) digit_widthD(4) [OF assms(1)] by (metis mult_le_mono1)
  moreover have p: "base ^ length s = 2 ^ (length s * k)" unfolding digit_widthD(2) [OF assms(1)] by (simp add: power_mult mult.commute)
  ultimately have le: "base ^ length s \<le> 2 ^ 64" by (metis one_le_numeral power_increasing)
  show "digits_nat base s < 2 ^ (length s * k)" using digits_nat_less [OF assms(2)] p by simp
  show "digits_nat base s < 2 ^ 64" using digits_nat_less [OF assms(2)] le by linarith
  then show "StrTo64_loop base s 0 = Some (Inr (digits_nat base s))"
    using StrTo64_loop_eq [of base 0 s] digit_widthD(1) [OF assms(1)] assms(2) by (auto simp: digits_nat_more)
qed

lemma digits_no_prefix: "base \<in> {2, 16} \<Longrightarrow> all_digits base s \<Longrightarrow> consume_prefix (base_prefix base) s = (False, s)"
  using digits_plain [of base s] consume_prefix_none [of "''0b''" "CHR ''b''" s] consume_prefix_none [of "''0x''" "CHR ''x''" s]
  by (auto simp: base_prefix_def prefix_free_def)

lemma signed_chunk:
  assumes "digit_width base k" "all_digits base s" "length s \<le> 64 div k" "0 < digits_nat base s"
  shows "StrTo64Base (CHR ''-'' # s) base = Some (Inr (- of_nat (digits_nat base s)))"
proof -
  have b: "base \<in> {2, 16}" by (rule digit_widthD(1) [OF assms(1)])
  have "s \<noteq> []" "s \<noteq> ''0''" using assms(4) b by (auto simp: digit_val_def)
  then show ?thesis using b digits_no_prefix [OF b assms(2)] digits_loop(1) [OF assms(1-3)]
    by (auto simp: StrTo64Base_def consume_prefix_def [of "''-''"] base_prefix_def)
qed

lemma prefixed_chunk:
  assumes "digit_width base k" "all_digits base s" "length s \<le> 64 div k" "s \<noteq> []"
  shows "StrTo64Base (base_prefix base @ s) base = Some (Inr (of_nat (digits_nat base s)))"
  using digit_widthD(1) [OF assms(1)] digits_loop(1) [OF assms(1-3)] assms(4) by (auto simp: StrTo64Base_def consume_prefix_def base_prefix_def)

lemma one_chunk:
  assumes "digit_width base k" "s \<noteq> []" "CHR ''_'' \<notin> set s" "length s \<le> 64 div k" "StrTo64Base s base = Some (Inr x)"
  shows "ParseNumber B (base_prefix base @ s) = (if unat x < 2 ^ (length s * k) then Some (Inr (narrowest (unat x))) else None)"
proof -
  define format where "format = (if base = 2 then kBinary else kHex)"
  have b: "base \<in> {2, 16}" by (rule digit_widthD(1) [OF assms(1)])
  have f: "format \<noteq> kDefault" "format \<noteq> kUnsignedDecimal" "\<not> (format \<noteq> kBinary \<and> format \<noteq> kHex)" by (simp_all add: format_def)
  have t: "take (64 div k) s = s" "drop (64 div k) s = []" using assms(4) by simp_all
  have nu: "filter (\<lambda>c. c \<noteq> CHR ''_'') s = s" using assms(3) by (auto simp: filter_id_conv)
  have c: "(if format = kBinary then parse_chunks 2 1 s else parse_chunks 16 4 s) = parse_chunks base k s"
    using assms(1) by (auto simp: format_def digit_width_def)
  have u: "UBits x (length s * k) = (if unat x < 2 ^ (length s * k) then Some (bits_of_nat (length s * k) (unat x)) else None)"
    using UBits_value [of x "length s * k"] by (simp add: UBits_eq)
  have "parse_chunks base k s = (if unat x < 2 ^ (length s * k) then Some (Inr [bits_of_nat (length s * k) (unat x)]) else None)"
    using assms(2,5) u unfolding parse_chunks.simps [of base k s]
    by (simp add: Let_def digit_widthD(5) [OF assms(1)] min_absorb1 [OF assms(4)] t parse_chunks.simps [of _ _ "[]"])
  moreover have "bits_ops_Concat [bits_of_nat m v] = Some (bits_of_nat m v)" for m v by (simp add: Concat_eq bm_eqI)
  ultimately have h: "ParseUnsignedNumberHelper B s format None = (if unat x < 2 ^ (length s * k) then Some (Inr (narrowest (unat x))) else None)"
    using Slice_narrowest [of "bits_of_nat (length s * k) (unat x)"] f c assms(2) unfolding ParseUnsignedNumberHelper_def Let_def nu by simp
  have "literal_format (base_prefix base @ s) = Inr (format, s)" "base_prefix base @ s \<noteq> []" "(base_prefix base @ s) ! 0 \<noteq> CHR ''-''"
    using b by (auto simp: literal_format_def base_prefix_def format_def)
  then show ?thesis using h assms(2) by (simp add: ParseNumber_def GetSignAndMagnitude_def Let_def)
qed

lemma unat_neg: "0 < v \<Longrightarrow> v < 2 ^ 64 \<Longrightarrow> unat (- of_nat v :: u64) = 2 ^ 64 - v"
proof -
  assume v: "0 < v" "v < 2 ^ 64"
  have "(- of_nat v :: u64) = of_nat (2 ^ 64 - v)" using v by (simp add: of_nat_diff)
  moreover have "unat (of_nat (2 ^ 64 - v) :: u64) = 2 ^ 64 - v" unfolding unat_of_nat using v by simp
  ultimately show "unat (- of_nat v :: u64) = 2 ^ 64 - v" by (rule ssubst)
qed

lemma sign_after_prefix:
  assumes "digit_width base k" "all_digits base s" "Suc (length s) \<le> 64 div k" "0 < digits_nat base s"
  shows "ParseNumber B (base_prefix base @ CHR ''-'' # s) =
    (if Suc (length s) < 64 div k then None else Some (Inr (narrowest (2 ^ 64 - digits_nat base s))))"
proof -
  have l: "length s \<le> 64 div k" using assms(3) by simp
  note d = digits_loop(2,3) [OF assms(1,2) l]
  have w: "Suc (length s) * k \<le> 64" "Suc (length s) < 64 div k \<longleftrightarrow> Suc (length s) * k < 64"
    using assms(3) digit_widthD(3,4) [OF assms(1)] by (metis mult_le_mono1, metis mult_less_cancel2)
  have "ParseNumber B (base_prefix base @ CHR ''-'' # s) =
      (if 2 ^ 64 - digits_nat base s < 2 ^ (Suc (length s) * k) then Some (Inr (narrowest (2 ^ 64 - digits_nat base s))) else None)"
    using one_chunk [OF assms(1) _ _ _ signed_chunk [OF assms(1,2) l assms(4)], of B] assms(3)
      digits_plain [OF digit_widthD(1) [OF assms(1)] assms(2)] unfolding unat_neg [OF assms(4) d(2)] by simp
  moreover have "2 ^ 64 - digits_nat base s < 2 ^ (Suc (length s) * k) \<longleftrightarrow> \<not> Suc (length s) * k < 64"
  proof (cases "Suc (length s) * k < 64")
    case True
    have "digits_nat base s < 2 ^ 63" "(2 :: nat) ^ (Suc (length s) * k) \<le> 2 ^ 63"
      using d(1) True power_increasing [of "length s * k" 63 "2 :: nat"] power_increasing [of "Suc (length s) * k" 63 "2 :: nat"] by auto
    then show ?thesis using True by simp
  next
    case False
    then have "Suc (length s) * k = 64" using w(1) by simp
    then show ?thesis using assms(4) by simp
  qed
  ultimately show ?thesis unfolding w(2) by simp
qed

lemma second_prefix:
  assumes "digit_width base k" "all_digits base s" "length s + 2 \<le> 64 div k" "0 < digits_nat base s"
  shows "ParseNumber B (base_prefix base @ base_prefix base @ s) = Some (Inr (narrowest (digits_nat base s)))"
proof -
  have l: "length s \<le> 64 div k" and n: "s \<noteq> []" using assms(3,4) by auto
  note d = digits_loop(2,3) [OF assms(1,2) l]
  have "digits_nat base s < 2 ^ (length (base_prefix base @ s) * k)"
    by (rule less_le_trans [OF d(1)]) (intro power_increasing mult_le_mono1, simp_all)
  moreover have "CHR ''_'' \<notin> set (base_prefix base @ s)" "length (base_prefix base @ s) = length s + 2"
    using digits_plain [OF digit_widthD(1) [OF assms(1)] assms(2)] by (auto simp: base_prefix_def)
  moreover have "unat (of_nat (digits_nat base s) :: u64) = digits_nat base s" using d(2) by (simp add: unat_of_nat)
  ultimately show ?thesis using one_chunk [OF assms(1) _ _ _ prefixed_chunk [OF assms(1,2) l n], of B] assms(3) n by simp
qed

end
