(* ===== verification/Format_Strings.thy ===== *)
theory Format_Strings
  imports Bits_Ops
begin

text \<open>
  Models \<open>xls/ir/format_preference.cc\<close> and \<open>xls/ir/format_strings.{h,cc}\<close>: the names of formats, and format strings such as
  \<open>x is {:u}\<close>, which are parsed into fragments of text and formats of operands and printed back for XLS and for Verilog.

  A format string is the text from the current position on; the position itself, which only messages of errors use, is left out.

  The lemmas show that parsing succeeds exactly on the texts of proper lists of steps and returns that list.
\<close>

section \<open>Formats\<close>

fun FormatPreferenceToString :: "FormatPreference \<Rightarrow> string" where
  "FormatPreferenceToString kDefault = ''default''"
| "FormatPreferenceToString kBinary = ''binary''"
| "FormatPreferenceToString kSignedDecimal = ''signed-decimal''"
| "FormatPreferenceToString kUnsignedDecimal = ''unsigned-decimal''"
| "FormatPreferenceToString kHex = ''hex''"
| "FormatPreferenceToString kPlainBinary = ''plain_binary''"
| "FormatPreferenceToString kPlainHex = ''plain_hex''"

fun FormatPreferenceToXlsSpecifier :: "FormatPreference \<Rightarrow> string" where
  "FormatPreferenceToXlsSpecifier kDefault = ''{}''"
| "FormatPreferenceToXlsSpecifier kBinary = ''{:#b}''"
| "FormatPreferenceToXlsSpecifier kUnsignedDecimal = ''{:u}''"
| "FormatPreferenceToXlsSpecifier kSignedDecimal = ''{:d}''"
| "FormatPreferenceToXlsSpecifier kHex = ''{:#x}''"
| "FormatPreferenceToXlsSpecifier kPlainBinary = ''{:b}''"
| "FormatPreferenceToXlsSpecifier kPlainHex = ''{:x}''"

fun FormatPreferenceToVerilogSpecifier :: "FormatPreference \<Rightarrow> string" where
  "FormatPreferenceToVerilogSpecifier kDefault = ''%d''"
| "FormatPreferenceToVerilogSpecifier kSignedDecimal = ''%d''"
| "FormatPreferenceToVerilogSpecifier kUnsignedDecimal = ''%u''"
| "FormatPreferenceToVerilogSpecifier kBinary = ''0b%b''"
| "FormatPreferenceToVerilogSpecifier kHex = ''0x%h''"
| "FormatPreferenceToVerilogSpecifier kPlainBinary = ''%b''"
| "FormatPreferenceToVerilogSpecifier kPlainHex = ''%h''"

definition FormatPreferenceFromString :: "string \<Rightarrow> status_code + FormatPreference" where
  "FormatPreferenceFromString s =
     (if s = ''default'' then Inr kDefault
      else if s = ''binary'' then Inr kBinary
      else if s = ''hex'' then Inr kHex
      else if s = ''signed-decimal'' then Inr kSignedDecimal
      else if s = ''unsigned-decimal'' then Inr kUnsignedDecimal
      else if s = ''plain_binary'' then Inr kPlainBinary
      else if s = ''plain_hex'' then Inr kPlainHex
      else Inl InvalidArgument)"

section \<open>Format strings\<close>

datatype FormatStep = Fragment string | Operand FormatPreference

definition push_fragment :: "string \<Rightarrow> FormatStep list \<Rightarrow> FormatStep list" where
  "push_fragment fragment steps = (if fragment \<noteq> [] then steps @ [Fragment fragment] else steps)"

definition starts_with :: "string \<Rightarrow> string \<Rightarrow> bool" where
  "starts_with m s \<longleftrightarrow> take (length m) s = m"

function ParseFormat_loop :: "string \<Rightarrow> string \<Rightarrow> FormatStep list \<Rightarrow> status_code + FormatStep list" where
  "ParseFormat_loop s fragment steps =
     (if s = [] then Inr (push_fragment fragment steps)
      else if starts_with ''{{'' s then ParseFormat_loop (drop 2 s) (fragment @ ''{{'') steps
      else if starts_with ''}}'' s then ParseFormat_loop (drop 2 s) (fragment @ ''}}'') steps
      else if starts_with ''{}'' s then ParseFormat_loop (drop 2 s) [] (push_fragment fragment steps @ [Operand kDefault])
      else if starts_with ''{:u}'' s then ParseFormat_loop (drop 4 s) [] (push_fragment fragment steps @ [Operand kUnsignedDecimal])
      else if starts_with ''{:d}'' s then ParseFormat_loop (drop 4 s) [] (push_fragment fragment steps @ [Operand kSignedDecimal])
      else if starts_with ''{:x}'' s then ParseFormat_loop (drop 4 s) [] (push_fragment fragment steps @ [Operand kPlainHex])
      else if starts_with ''{:#x}'' s then ParseFormat_loop (drop 5 s) [] (push_fragment fragment steps @ [Operand kHex])
      else if starts_with ''{:b}'' s then ParseFormat_loop (drop 4 s) [] (push_fragment fragment steps @ [Operand kPlainBinary])
      else if starts_with ''{:#b}'' s then ParseFormat_loop (drop 5 s) [] (push_fragment fragment steps @ [Operand kBinary])
      else if hd s = CHR ''{'' then Inl InvalidArgument
      else if hd s = CHR ''}'' then Inl InvalidArgument
      else ParseFormat_loop (tl s) (fragment @ [hd s]) steps)"
  by pat_completeness auto
termination by (relation "measure (\<lambda>(s, fragment, steps). length s)") auto

declare ParseFormat_loop.simps [simp del]

definition ParseFormatString :: "string \<Rightarrow> status_code + FormatStep list" where
  "ParseFormatString format_string = ParseFormat_loop format_string [] []"

definition OperandPreferencesFromFormat :: "FormatStep list \<Rightarrow> FormatPreference list" where
  "OperandPreferencesFromFormat format = concat (map (\<lambda>step. case step of Operand p \<Rightarrow> [p] | Fragment f \<Rightarrow> []) format)"

definition OperandsExpectedByFormat :: "FormatStep list \<Rightarrow> nat" where
  "OperandsExpectedByFormat format = length (filter (\<lambda>step. case step of Operand p \<Rightarrow> True | Fragment f \<Rightarrow> False) format)"

definition StepsToXlsFormatString :: "FormatStep list \<Rightarrow> string" where
  "StepsToXlsFormatString format = str_join []
     (map (\<lambda>step. case step of Operand p \<Rightarrow> FormatPreferenceToXlsSpecifier p | Fragment f \<Rightarrow> f) format)"

text \<open>\<open>absl::StrReplaceAll\<close> with the two pairs of braces: matches from the left that do not overlap.\<close>

fun replace_braces :: "string \<Rightarrow> string" where
  "replace_braces (c # d # s) =
     (if c = CHR ''{'' \<and> d = CHR ''{'' \<or> c = CHR ''}'' \<and> d = CHR ''}'' then c # replace_braces s else c # replace_braces (d # s))"
| "replace_braces s = s"

definition StepsToVerilogFormatString :: "FormatStep list \<Rightarrow> string" where
  "StepsToVerilogFormatString format = str_join []
     (map (\<lambda>step. case step of Operand p \<Rightarrow> FormatPreferenceToVerilogSpecifier p | Fragment f \<Rightarrow> replace_braces f) format)"

section \<open>Names of formats\<close>

lemma FormatPreference_round_trip: "FormatPreferenceFromString (FormatPreferenceToString p) = Inr p"
  by (cases p) (simp_all add: FormatPreferenceFromString_def)

section \<open>Proper lists of steps\<close>

text \<open>Fragments hold braces in pairs only, are not empty and are not next to each other.\<close>

inductive fragment_ok :: "string \<Rightarrow> bool" where
  fragment_end: "fragment_ok []"
| fragment_char: "c \<noteq> CHR ''{'' \<Longrightarrow> c \<noteq> CHR ''}'' \<Longrightarrow> fragment_ok f \<Longrightarrow> fragment_ok (c # f)"
| fragment_open: "fragment_ok f \<Longrightarrow> fragment_ok (CHR ''{'' # CHR ''{'' # f)"
| fragment_close: "fragment_ok f \<Longrightarrow> fragment_ok (CHR ''}'' # CHR ''}'' # f)"

fun steps_ok :: "FormatStep list \<Rightarrow> bool" where
  "steps_ok [] = True"
| "steps_ok (Operand p # r) = steps_ok r"
| "steps_ok (Fragment f # r) = (f \<noteq> [] \<and> fragment_ok f \<and> (case r of Fragment g # _ \<Rightarrow> False | _ \<Rightarrow> True) \<and> steps_ok r)"

lemma str_join_empty: "str_join [] ts = concat ts"
  by (induction "[] :: string" ts rule: str_join.induct) auto

lemma StepsToXls_simps [simp]:
  "StepsToXlsFormatString [] = []"
  "StepsToXlsFormatString (Operand p # r) = FormatPreferenceToXlsSpecifier p @ StepsToXlsFormatString r"
  "StepsToXlsFormatString (Fragment f # r) = f @ StepsToXlsFormatString r"
  "StepsToXlsFormatString (xs @ ys) = StepsToXlsFormatString xs @ StepsToXlsFormatString ys"
  by (simp_all add: StepsToXlsFormatString_def str_join_empty)

lemma fragment_ok_append: "fragment_ok f \<Longrightarrow> fragment_ok g \<Longrightarrow> fragment_ok (f @ g)"
  by (induction f rule: fragment_ok.induct) (auto intro: fragment_ok.intros)

lemma push_fragment_text: "StepsToXlsFormatString (push_fragment f steps) = StepsToXlsFormatString steps @ f"
  by (simp add: push_fragment_def)

definition closed :: "FormatStep list \<Rightarrow> bool" where
  "closed steps \<longleftrightarrow> steps_ok steps \<and> (steps = [] \<or> (\<exists>p. last steps = Operand p))"

lemma steps_ok_snoc:
  "steps_ok (steps @ [Operand p]) = steps_ok steps"
  "closed steps \<Longrightarrow> f \<noteq> [] \<Longrightarrow> fragment_ok f \<Longrightarrow> steps_ok (steps @ [Fragment f])"
proof -
  show "steps_ok (steps @ [Operand p]) = steps_ok steps"
    by (induction steps rule: steps_ok.induct) (auto split: list.splits FormatStep.splits)
  show "closed steps \<Longrightarrow> f \<noteq> [] \<Longrightarrow> fragment_ok f \<Longrightarrow> steps_ok (steps @ [Fragment f])"
    by (induction steps rule: steps_ok.induct) (auto simp: closed_def split: list.splits FormatStep.splits if_splits)
qed

lemma push_fragment_ok: "closed steps \<Longrightarrow> fragment_ok f \<Longrightarrow> steps_ok (push_fragment f steps)"
  by (simp add: push_fragment_def steps_ok_snoc(2)) (simp add: closed_def)

lemma push_operand_ok: "closed steps \<Longrightarrow> fragment_ok f \<Longrightarrow> closed (push_fragment f steps @ [Operand p])"
  using push_fragment_ok [of steps f] by (simp add: closed_def steps_ok_snoc(1))

lemma starts_with_simps [simp]:
  "starts_with [] s" "starts_with (a # m) (c # s) \<longleftrightarrow> a = c \<and> starts_with m s" "\<not> starts_with (a # m) []"
  by (auto simp: starts_with_def)

lemma starts_with_split: "starts_with m s \<Longrightarrow> s = m @ drop (length m) s"
  unfolding starts_with_def by (metis append_take_drop_id)

section \<open>Printing and parsing\<close>

lemma parse_operand:
  "ParseFormat_loop (FormatPreferenceToXlsSpecifier p @ t) fragment steps = ParseFormat_loop t [] (push_fragment fragment steps @ [Operand p])"
  by (subst ParseFormat_loop.simps) (cases p; simp)

lemma parse_fragment: "fragment_ok f \<Longrightarrow> ParseFormat_loop (f @ t) fragment steps = ParseFormat_loop t (fragment @ f) steps"
proof (induction f arbitrary: fragment rule: fragment_ok.induct)
  case (fragment_char c f)
  have "ParseFormat_loop ((c # f) @ t) fragment steps = ParseFormat_loop (f @ t) (fragment @ [c]) steps"
    using fragment_char.hyps(1,2) by (subst ParseFormat_loop.simps) simp
  then show ?case using fragment_char.IH by simp
next
  case (fragment_open f)
  have "ParseFormat_loop ((CHR ''{'' # CHR ''{'' # f) @ t) fragment steps = ParseFormat_loop (f @ t) (fragment @ ''{{'') steps"
    by (subst ParseFormat_loop.simps) simp
  then show ?case using fragment_open.IH by simp
next
  case (fragment_close f)
  have "ParseFormat_loop ((CHR ''}'' # CHR ''}'' # f) @ t) fragment steps = ParseFormat_loop (f @ t) (fragment @ ''}}'') steps"
    by (subst ParseFormat_loop.simps) simp
  then show ?case using fragment_close.IH by simp
qed simp

lemma parse_printed_steps: "steps_ok r \<Longrightarrow> ParseFormat_loop (StepsToXlsFormatString r) [] steps = Inr (steps @ r)"
proof (induction r arbitrary: steps rule: steps_ok.induct)
  case 1
  show ?case by (subst ParseFormat_loop.simps) (simp add: push_fragment_def)
next
  case (2 p r)
  then show ?case using parse_operand [of p "StepsToXlsFormatString r" "[]" steps] by (simp add: push_fragment_def)
next
  case (3 f r)
  have f: "ParseFormat_loop (StepsToXlsFormatString (Fragment f # r)) [] steps = ParseFormat_loop (StepsToXlsFormatString r) f steps"
    using parse_fragment [of f "StepsToXlsFormatString r" "[]" steps] 3(2) by simp
  show ?case
  proof (cases r)
    case Nil
    then show ?thesis using f 3(2) by (subst (asm) (2) ParseFormat_loop.simps) (simp add: push_fragment_def)
  next
    case (Cons x r')
    then obtain p where p: "r = Operand p # r'" using 3(2) by (cases x) auto
    have "ParseFormat_loop (StepsToXlsFormatString r) f steps = ParseFormat_loop (StepsToXlsFormatString r) [] (steps @ [Fragment f])"
      using parse_operand [of p "StepsToXlsFormatString r'"] 3(2) by (simp add: p push_fragment_def)
    then show ?thesis using f 3 by simp
  qed
qed

lemma parse_stuck:
  assumes "s \<noteq> []" "hd s \<in> {CHR ''{'', CHR ''}''}" "\<not> starts_with ''{{'' s" "\<not> starts_with ''}}'' s" "\<And>p. \<not> starts_with (FormatPreferenceToXlsSpecifier p) s"
  shows "ParseFormat_loop s fragment steps = Inl InvalidArgument"
  using assms(1-4) assms(5) [of kDefault] assms(5) [of kUnsignedDecimal] assms(5) [of kSignedDecimal] assms(5) [of kPlainHex]
    assms(5) [of kHex] assms(5) [of kPlainBinary] assms(5) [of kBinary]
  by (subst ParseFormat_loop.simps) auto

lemma parse_cases:
  obtains (none) "s = []"
  | (piece) f t where "s = f @ t" "length t < length s" "fragment_ok f"
  | (operand) p t where "s = FormatPreferenceToXlsSpecifier p @ t" "length t < length s"
  | (stuck) "\<And>fragment steps. ParseFormat_loop s fragment steps = Inl InvalidArgument"
proof -
  have shorter: "length t < length s" if "s = m @ t" "m \<noteq> []" for s m t :: string using that by simp
  have spec: "FormatPreferenceToXlsSpecifier p \<noteq> []" for p by (cases p) simp_all
  consider "s = []" | (pair) m where "m \<in> {''{{'', ''}}''}" "starts_with m s" | (op) p where "starts_with (FormatPreferenceToXlsSpecifier p) s"
    | (char) "s \<noteq> []" "hd s \<notin> {CHR ''{'', CHR ''}''}"
    | (brace) "s \<noteq> []" "hd s \<in> {CHR ''{'', CHR ''}''}" "\<not> starts_with ''{{'' s" "\<not> starts_with ''}}'' s"
        "\<And>p. \<not> starts_with (FormatPreferenceToXlsSpecifier p) s"
    by blast
  then show thesis
  proof cases
    case (pair m)
    then have "fragment_ok m" "m \<noteq> []" by (auto intro: fragment_ok.intros)
    moreover have "s = m @ drop (length m) s" by (rule starts_with_split [OF pair(2)])
    ultimately show ?thesis using piece [of m "drop (length m) s"]
      shorter [of s m "drop (length m) s"] by blast
  next
    case (op p)
    then have "s = FormatPreferenceToXlsSpecifier p @ drop (length (FormatPreferenceToXlsSpecifier p)) s" by (rule starts_with_split)
    then show ?thesis using operand [of p] spec [of p]
      shorter [of s "FormatPreferenceToXlsSpecifier p"] by blast
  next
    case char
    then obtain c t where "s = [c] @ t" "fragment_ok [c]" by (cases s) (auto intro: fragment_ok.intros)
    then show ?thesis using piece [of "[c]" t] by simp
  next
    case brace
    then have "ParseFormat_loop s fragment steps = Inl InvalidArgument" for fragment steps by (rule parse_stuck)
    then show ?thesis by (rule stuck)
  qed (rule none)
qed

lemma parse_sound:
  "ParseFormat_loop s fragment steps = Inr r \<Longrightarrow> closed steps \<Longrightarrow> fragment_ok fragment \<Longrightarrow>
     steps_ok r \<and> StepsToXlsFormatString r = StepsToXlsFormatString steps @ fragment @ s"
proof (induction s arbitrary: fragment steps rule: length_induct)
  case (1 s)
  show ?case
  proof (cases s rule: parse_cases)
    case none
    then have "r = push_fragment fragment steps" using 1(2) by (simp add: ParseFormat_loop.simps [of "[]"])
    then show ?thesis using none push_fragment_ok [OF 1(3,4)] by (simp add: push_fragment_text)
  next
    case (piece f t)
    have "ParseFormat_loop t (fragment @ f) steps = Inr r" using 1(2) parse_fragment [OF piece(3)] piece(1) by simp
    then have "steps_ok r \<and> StepsToXlsFormatString r = StepsToXlsFormatString steps @ (fragment @ f) @ t"
      using 1(1) piece(2) 1(3) fragment_ok_append [OF 1(4) piece(3)] by blast
    then show ?thesis using piece(1) by simp
  next
    case (operand p t)
    have "ParseFormat_loop t [] (push_fragment fragment steps @ [Operand p]) = Inr r" using 1(2) parse_operand [of p t fragment steps] operand(1) by simp
    then have "steps_ok r \<and> StepsToXlsFormatString r = StepsToXlsFormatString (push_fragment fragment steps @ [Operand p]) @ [] @ t"
      using 1(1) operand(2) push_operand_ok [OF 1(3,4), of p] fragment_end by blast
    then show ?thesis using operand(1) by (simp add: push_fragment_text)
  qed (use 1(2) in simp)
qed

lemma ParseFormat_error: "ParseFormat_loop s fragment steps = Inl e \<Longrightarrow> e = InvalidArgument"
proof (induction s arbitrary: fragment steps rule: length_induct)
  case (1 s)
  show ?case
  proof (cases s rule: parse_cases)
    case none
    then show ?thesis using 1(2) by (simp add: ParseFormat_loop.simps [of "[]"])
  next
    case (piece f t)
    have "ParseFormat_loop t (fragment @ f) steps = Inl e" using 1(2) parse_fragment [OF piece(3)] piece(1) by simp
    then show ?thesis using 1(1) piece(2) by blast
  next
    case (operand p t)
    have "ParseFormat_loop t [] (push_fragment fragment steps @ [Operand p]) = Inl e" using 1(2) parse_operand operand(1) by simp
    then show ?thesis using 1(1) operand(2) by blast
  qed (use 1(2) in simp)
qed

lemma ParseFormatString_iff: "ParseFormatString s = Inr steps \<longleftrightarrow> steps_ok steps \<and> StepsToXlsFormatString steps = s"
  using parse_sound [of s "[]" "[]" steps] parse_printed_steps [of steps "[]"] fragment_end
  by (auto simp: ParseFormatString_def closed_def)

section \<open>Operands and Verilog\<close>

lemma operands_counted: "OperandsExpectedByFormat steps = length (OperandPreferencesFromFormat steps)"
  unfolding OperandsExpectedByFormat_def OperandPreferencesFromFormat_def by (induction steps) (auto split: FormatStep.splits)

text \<open>Doubling the braces of a text.\<close>

fun double_braces :: "string \<Rightarrow> string" where
  "double_braces [] = []"
| "double_braces (c # s) = (if c \<in> {CHR ''{'', CHR ''}''} then c # c # double_braces s else c # double_braces s)"

lemma double_braces_ok: "fragment_ok (double_braces s)"
  by (induction s) (auto intro: fragment_ok.intros)

lemma replace_double: "replace_braces (double_braces s) = s"
proof (induction s)
  case (Cons c s)
  have "replace_braces (c # f) = c # replace_braces f" if "c \<noteq> CHR ''{''" "c \<noteq> CHR ''}''" for f using that by (cases f) simp_all
  then show ?case using Cons by simp
qed simp

lemma Verilog_text: "StepsToVerilogFormatString [Fragment (double_braces s), Operand p, Fragment (double_braces t)] = s @ FormatPreferenceToVerilogSpecifier p @ t"
  by (simp add: StepsToVerilogFormatString_def replace_double)

end
