(* ===== verification/Name_Uniquer.thy ===== *)
theory Name_Uniquer
  imports Number_Parser
begin

text \<open>
  Models \<open>xls/ir/name_uniquer.{h,cc}\<close>: names are cleaned to identifiers and made unique by a number after a separator.

  Identifiers are lists of characters; the hash sets of reserved names and of used numbers are lists. Numbers are integers: a number that
  is handed out is at most one more than the number of calls before it, or was read from a prefix by \<open>absl::SimpleAtoi\<close>, which rejects what does
  not fit an \<open>int64_t\<close>. \<open>None\<close> is the failure of the \<open>CHECK\<close> in \<open>RegisterId\<close>.

  The lemmas show that no two calls return the same name, and that names are identifiers when the reserved names are.
\<close>

section \<open>Characters and texts\<close>

definition ascii_isalpha :: "char \<Rightarrow> bool" where
  "ascii_isalpha c \<longleftrightarrow> (let n = of_char c :: nat in 65 \<le> n \<and> n \<le> 90 \<or> 97 \<le> n \<and> n \<le> 122)"

definition ascii_isdigit :: "char \<Rightarrow> bool" where
  "ascii_isdigit c \<longleftrightarrow> (let n = of_char c :: nat in 48 \<le> n \<and> n \<le> 57)"

definition ascii_isspace :: "char \<Rightarrow> bool" where
  "ascii_isspace c \<longleftrightarrow> (let n = of_char c :: nat in n = 32 \<or> 9 \<le> n \<and> n \<le> 13)"

definition IsAllowed :: "char \<Rightarrow> bool" where
  "IsAllowed c \<longleftrightarrow> ascii_isalpha c \<or> ascii_isdigit c \<or> c = CHR ''_''"

text \<open>\<open>absl::SimpleAtoi\<close> into an \<open>int64_t\<close>: space around the number, a sign, decimal digits, and the range.\<close>

definition SimpleAtoi_int64 :: "string \<Rightarrow> int option" where
  "SimpleAtoi_int64 s =
     (let t = dropWhile ascii_isspace (rev (dropWhile ascii_isspace (rev s)));
          neg = (t \<noteq> [] \<and> hd t = CHR ''-'');
          ds = (if t \<noteq> [] \<and> hd t \<in> {CHR ''-'', CHR ''+''} then tl t else t);
          v = (if neg then - int (digits_nat 10 ds) else int (digits_nat 10 ds))
      in if ds \<noteq> [] \<and> list_all ascii_isdigit ds \<and> - (2 ^ 63) \<le> v \<and> v < 2 ^ 63 then Some v else None)"

text \<open>\<open>std::string::rfind\<close>.\<close>

definition rfind :: "string \<Rightarrow> string \<Rightarrow> nat option" where
  "rfind sep s = find (\<lambda>i. take (length sep) (drop i s) = sep) (rev [0..<length s + 1 - length sep])"

function prefix_reserved :: "string list \<Rightarrow> string \<Rightarrow> string" where
  "prefix_reserved reserved_names r = (if r \<in> set reserved_names then prefix_reserved reserved_names (CHR ''_'' # r) else r)"
  by pat_completeness auto
termination
proof (relation "measure (\<lambda>(rs, r). card {x \<in> set rs. length r \<le> length x})")
  fix rs and r :: string
  assume "r \<in> set rs"
  then have "r \<in> {x \<in> set rs. length r \<le> length x} - {x \<in> set rs. length (CHR ''_'' # r) \<le> length x}" by simp
  moreover have "{x \<in> set rs. length (CHR ''_'' # r) \<le> length x} \<subseteq> {x \<in> set rs. length r \<le> length x}" by auto
  ultimately have "{x \<in> set rs. length (CHR ''_'' # r) \<le> length x} \<subset> {x \<in> set rs. length r \<le> length x}" by blast
  then show "((rs, CHR ''_'' # r), rs, r) \<in> measure (\<lambda>(rs, r). card {x \<in> set rs. length r \<le> length x})"
    by (simp add: psubset_card_mono)
qed simp

declare prefix_reserved.simps [simp del]

definition SanitizeName :: "string \<Rightarrow> string list \<Rightarrow> string" where
  "SanitizeName name reserved_names =
     (if name = [] then []
      else
        let r = prefix_reserved reserved_names name;
            r = map (\<lambda>c. if \<not> IsAllowed c then CHR ''_'' else c) (take (length name) r) @ drop (length name) r
        in if \<not> ascii_isalpha (hd r) \<and> hd r \<noteq> CHR ''_'' then CHR ''_'' # r else r)"

section \<open>Numbers\<close>

record SequentialIdGenerator =
  ig_next :: int
  ig_used :: "int list"

definition SequentialIdGenerator_new :: SequentialIdGenerator where
  "SequentialIdGenerator_new = \<lparr>ig_next = 1, ig_used = []\<rparr>"

function advance_next :: "int list \<Rightarrow> int \<Rightarrow> int" where
  "advance_next used n = (if n \<in> set used then advance_next used (n + 1) else n)"
  by pat_completeness auto
termination
proof (relation "measure (\<lambda>(used, n). card {x \<in> set used. n \<le> x})")
  fix used and n :: int
  assume "n \<in> set used"
  then have "n \<in> {x \<in> set used. n \<le> x} - {x \<in> set used. n + 1 \<le> x}" by simp
  moreover have "{x \<in> set used. n + 1 \<le> x} \<subseteq> {x \<in> set used. n \<le> x}" by auto
  ultimately have "{x \<in> set used. n + 1 \<le> x} \<subset> {x \<in> set used. n \<le> x}" by blast
  then show "((used, n + 1), used, n) \<in> measure (\<lambda>(used, n). card {x \<in> set used. n \<le> x})" by (simp add: psubset_card_mono)
qed simp

declare advance_next.simps [simp del]

definition RegisterId :: "int \<Rightarrow> SequentialIdGenerator \<Rightarrow> (int \<times> SequentialIdGenerator) option" where
  "RegisterId i g =
     (if i \<notin> set (ig_used g) then
        let used = i # ig_used g in Some (i, \<lparr>ig_next = advance_next used (ig_next g), ig_used = used\<rparr>)
      else if ig_next g \<in> set (ig_used g) then None
      else
        let used = ig_next g # ig_used g in Some (ig_next g, \<lparr>ig_next = advance_next used (ig_next g), ig_used = used\<rparr>))"

definition NextId :: "SequentialIdGenerator \<Rightarrow> (int \<times> SequentialIdGenerator) option" where
  "NextId g = RegisterId (ig_next g) g"

section \<open>Names\<close>

record PrefixTracker =
  pt_bare_prefix_taken :: bool
  pt_generator :: SequentialIdGenerator

definition PrefixTracker_new :: PrefixTracker where
  "PrefixTracker_new = \<lparr>pt_bare_prefix_taken = False, pt_generator = SequentialIdGenerator_new\<rparr>"

record NameUniquer =
  nu_separator :: string
  nu_reserved_names :: "string list"
  nu_generated_names :: "string \<Rightarrow> PrefixTracker option"

definition NameUniquer_new :: "string \<Rightarrow> string list \<Rightarrow> NameUniquer" where
  "NameUniquer_new separator reserved_names =
     \<lparr>nu_separator = separator, nu_reserved_names = reserved_names, nu_generated_names = Map.empty\<rparr>"

text \<open>A root and the number after the last separator, if it is one.\<close>

definition split_suffix :: "string \<Rightarrow> string \<Rightarrow> string \<times> int option" where
  "split_suffix separator root =
     (case rfind separator root of None \<Rightarrow> (root, None)
      | Some separator_index \<Rightarrow>
          (case SimpleAtoi_int64 (drop (separator_index + length separator) root) of
             None \<Rightarrow> (root, None)
           | Some i \<Rightarrow> (take separator_index root, Some i)))"

definition GetSanitizedUniqueName :: "string \<Rightarrow> NameUniquer \<Rightarrow> (string \<times> NameUniquer) option" where
  "GetSanitizedUniqueName prefix u =
     (let root = SanitizeName prefix (nu_reserved_names u);
          (root, numeric_suffix) = split_suffix (nu_separator u) root;
          root = (if root = [] then ''name'' else root);
          tracker = (case nu_generated_names u root of None \<Rightarrow> PrefixTracker_new | Some t \<Rightarrow> t);
          store = (\<lambda>t. u\<lparr>nu_generated_names := (nu_generated_names u)(root \<mapsto> t)\<rparr>)
      in case numeric_suffix of
           Some n \<Rightarrow> do {
             (i, g) \<leftarrow> RegisterId n (pt_generator tracker);
             Some (root @ nu_separator u @ dec_string i, store (tracker\<lparr>pt_generator := g\<rparr>))
           }
         | None \<Rightarrow>
             if pt_bare_prefix_taken tracker then do {
               (i, g) \<leftarrow> NextId (pt_generator tracker);
               Some (root @ nu_separator u @ dec_string i, store (tracker\<lparr>pt_generator := g\<rparr>))
             }
             else Some (root, store (tracker\<lparr>pt_bare_prefix_taken := True\<rparr>)))"

definition IsValidIdentifier :: "string \<Rightarrow> bool" where
  "IsValidIdentifier str \<longleftrightarrow>
     str \<noteq> [] \<and> (ascii_isalpha (str ! 0) \<or> str ! 0 = CHR ''_'') \<and>
     list_all (\<lambda>i. ascii_isalpha (str ! i) \<or> ascii_isdigit (str ! i) \<or> str ! i = CHR ''_'') [1..<length str]"

section \<open>Identifiers\<close>

lemma IsValidIdentifier_iff:
  "IsValidIdentifier s \<longleftrightarrow> s \<noteq> [] \<and> (ascii_isalpha (hd s) \<or> hd s = CHR ''_'') \<and> list_all IsAllowed s"
proof (cases s)
  case (Cons c r)
  have "list_all (\<lambda>i. ascii_isalpha (s ! i) \<or> ascii_isdigit (s ! i) \<or> s ! i = CHR ''_'') [1..<length s] \<longleftrightarrow> list_all IsAllowed r"
  proof -
    have "[1..<length s] = map Suc [0..<length r]" by (simp only: Cons list.size One_nat_def map_Suc_upt add_0_right add_Suc_right)
    then show ?thesis by (simp only: list.pred_map comp_def Cons nth_Cons_Suc)
        (simp add: list_all_iff [of _ "[0..<length r]"] list_all_length [of _ r] IsAllowed_def Ball_def)
  qed
  then show ?thesis by (auto simp: IsValidIdentifier_def Cons IsAllowed_def)
qed (simp add: IsValidIdentifier_def)

lemma IsAllowed_underscore [simp]: "IsAllowed (CHR ''_'')"
  by (simp add: IsAllowed_def)

lemma prefix_reserved_allowed: "list_all IsAllowed r \<Longrightarrow> list_all IsAllowed (prefix_reserved rs r)"
  by (induction rs r rule: prefix_reserved.induct) (subst prefix_reserved.simps, simp)

lemma prefix_reserved_nonempty: "r \<noteq> [] \<Longrightarrow> prefix_reserved rs r \<noteq> []"
  by (induction rs r rule: prefix_reserved.induct) (subst prefix_reserved.simps, simp)

lemma SanitizeName_valid:
  assumes "name \<noteq> []" "\<forall>r \<in> set rs. IsValidIdentifier r"
  shows "IsValidIdentifier (SanitizeName name rs)"
proof -
  define r where "r = prefix_reserved rs name"
  define t where "t = map (\<lambda>c. if \<not> IsAllowed c then CHR ''_'' else c) (take (length name) r) @ drop (length name) r"
  have "list_all IsAllowed (drop (length name) r)"
  proof (cases "name \<in> set rs")
    case True
    then have "list_all IsAllowed name" using assms(2) by (auto simp: IsValidIdentifier_iff)
    then have "list_all IsAllowed r" unfolding r_def by (rule prefix_reserved_allowed)
    then show ?thesis by (auto simp: list_all_iff dest: in_set_dropD)
  next
    case False
    then show ?thesis by (simp add: r_def prefix_reserved.simps [of rs name])
  qed
  then have t: "list_all IsAllowed t" by (auto simp: t_def list_all_iff)
  have ne: "t \<noteq> []" using prefix_reserved_nonempty [OF assms(1), of rs] assms(1) by (auto simp: t_def r_def)
  have "SanitizeName name rs = (if \<not> ascii_isalpha (hd t) \<and> hd t \<noteq> CHR ''_'' then CHR ''_'' # t else t)"
    using assms(1) by (simp add: SanitizeName_def r_def t_def Let_def)
  then show ?thesis using t ne by (auto simp: IsValidIdentifier_iff)
qed

section \<open>Fresh numbers\<close>

lemma advance_next_props:
  "n \<le> advance_next used n \<and> advance_next used n \<notin> set used \<and> {n..<advance_next used n} \<subseteq> set used"
proof (induction used n rule: advance_next.induct)
  case (1 used n)
  show ?case
  proof (cases "n \<in> set used")
    case True
    have "{n..<advance_next used (n + 1)} \<subseteq> insert n {n + 1..<advance_next used (n + 1)}" by auto
    then show ?thesis using 1 [OF True] True by (subst advance_next.simps [of used n], subst advance_next.simps [of used n], subst advance_next.simps [of used n]) auto
  qed (simp add: advance_next.simps [of used n])
qed

definition ig_inv :: "SequentialIdGenerator \<Rightarrow> bool" where
  "ig_inv g \<longleftrightarrow> ig_next g \<notin> set (ig_used g) \<and> 1 \<le> ig_next g \<and> {1..<ig_next g} \<subseteq> set (ig_used g)"

lemma ig_inv_new: "ig_inv SequentialIdGenerator_new"
  by (simp add: ig_inv_def SequentialIdGenerator_new_def)

lemma ig_inv_use:
  assumes "ig_inv g"
  shows "ig_inv \<lparr>ig_next = advance_next (i # ig_used g) (ig_next g), ig_used = i # ig_used g\<rparr>"
proof -
  let ?n = "advance_next (i # ig_used g) (ig_next g)"
  have "{1..<?n} \<subseteq> {1..<ig_next g} \<union> {ig_next g..<?n}" by auto
  moreover have "{1..<ig_next g} \<subseteq> set (i # ig_used g)" using assms by (auto simp: ig_inv_def)
  moreover have "ig_next g \<le> ?n" "?n \<notin> set (i # ig_used g)" "{ig_next g..<?n} \<subseteq> set (i # ig_used g)"
    using advance_next_props [of "ig_next g" "i # ig_used g"] by blast+
  ultimately have "{1..<?n} \<subseteq> set (i # ig_used g)" by blast
  then show ?thesis using assms \<open>ig_next g \<le> ?n\<close> \<open>?n \<notin> set (i # ig_used g)\<close> unfolding ig_inv_def by simp
qed

lemma RegisterId_fresh:
  assumes "ig_inv g"
  obtains r g' where "RegisterId i g = Some (r, g')" "ig_inv g'" "r \<notin> set (ig_used g)" "ig_used g' = r # ig_used g" "r = i \<or> r = ig_next g"
proof (cases "i \<in> set (ig_used g)")
  case False
  then show ?thesis using that [OF _ ig_inv_use [OF assms, of i]] by (simp add: RegisterId_def Let_def)
next
  case True
  have "ig_next g \<notin> set (ig_used g)" using assms by (simp add: ig_inv_def)
  then show ?thesis using True that [OF _ ig_inv_use [OF assms, of "ig_next g"]] by (simp add: RegisterId_def Let_def)
qed

lemma next_bound: "ig_inv g \<Longrightarrow> ig_next g \<le> int (length (ig_used g)) + 1"
proof -
  assume g: "ig_inv g"
  have "card {1..<ig_next g} \<le> card (set (ig_used g))" using g by (intro card_mono) (auto simp: ig_inv_def)
  also have "\<dots> \<le> length (ig_used g)" by (rule card_length)
  finally show ?thesis using g by (simp add: ig_inv_def)
qed

section \<open>Numbered names\<close>

lemma digit_chars:
  assumes "ascii_isdigit c"
  shows "\<not> ascii_isspace c" "c \<noteq> CHR ''-''" "c \<noteq> CHR ''+''" "IsAllowed c" "digit_val 10 c \<noteq> None"
proof -
  have n: "48 \<le> (of_char c :: nat)" "(of_char c :: nat) \<le> 57" using assms by (simp_all add: ascii_isdigit_def Let_def)
  show "\<not> ascii_isspace c" "digit_val 10 c \<noteq> None" using n by (auto simp: ascii_isspace_def digit_val_def Let_def)
  show "c \<noteq> CHR ''-''" "c \<noteq> CHR ''+''" using n by auto
  show "IsAllowed c" using assms by (simp add: IsAllowed_def)
qed

lemma allowed_chars:
  assumes "IsAllowed c"
  shows "\<not> ascii_isspace c" "c \<noteq> CHR ''-''" "c \<noteq> CHR ''+''"
proof -
  have "ascii_isdigit c \<or> 65 \<le> (of_char c :: nat)" using assms by (auto simp: IsAllowed_def ascii_isalpha_def Let_def)
  moreover have "\<not> ascii_isspace c" "c \<noteq> CHR ''-''" "c \<noteq> CHR ''+''" if "65 \<le> (of_char c :: nat)"
    using that by (auto simp: ascii_isspace_def Let_def)
  ultimately show "\<not> ascii_isspace c" "c \<noteq> CHR ''-''" "c \<noteq> CHR ''+''" using digit_chars [of c] by blast+
qed

lemma SimpleAtoi_allowed:
  assumes "list_all IsAllowed s"
  shows "SimpleAtoi_int64 s = (if s \<noteq> [] \<and> list_all ascii_isdigit s \<and> digits_nat 10 s < 2 ^ 63 then Some (int (digits_nat 10 s)) else None)"
proof -
  have "dropWhile ascii_isspace t = t" if "list_all IsAllowed t" for t using that allowed_chars(1) by (cases t) auto
  then have "dropWhile ascii_isspace (rev (dropWhile ascii_isspace (rev s))) = s" using assms by simp
  moreover have "s \<noteq> [] \<Longrightarrow> hd s \<noteq> CHR ''-'' \<and> hd s \<noteq> CHR ''+''" using assms allowed_chars(2,3) [of "hd s"] by (cases s) auto
  ultimately show ?thesis by (auto simp: SimpleAtoi_int64_def Let_def)
qed

lemma dec_string_digits: "0 \<le> i \<Longrightarrow> dec_string i = dec_digits (nat i)"
  by (simp add: dec_string_def)

lemma dec_digits_isdigit: "list_all ascii_isdigit (dec_digits v)" "dec_digits v \<noteq> []"
proof -
  show "list_all ascii_isdigit (dec_digits v)" using dec_digits_set [of _ v] by (fastforce simp: list_all_iff ascii_isdigit_def Let_def)
  show "dec_digits v \<noteq> []" by (simp add: dec_digits.simps [of v])
qed

lemma SimpleAtoi_dec: "v < 2 ^ 63 \<Longrightarrow> SimpleAtoi_int64 (dec_digits v) = Some (int v)"
proof -
  assume "v < 2 ^ 63"
  moreover have "digits_nat 10 (dec_digits v) = v"
  proof -
    have "filter (\<lambda>c. c \<noteq> CHR ''_'') (dec_digits v) = dec_digits v" using dec_digits_set [of "CHR ''_''" v] by (auto simp: filter_id_conv)
    then show ?thesis using dec_digits_number [of v] by (simp add: number_val_def Let_def split: if_splits)
  qed
  moreover have "list_all IsAllowed (dec_digits v)" using dec_digits_isdigit(1) [of v] digit_chars(4) by (auto simp: list_all_iff)
  ultimately show ?thesis using SimpleAtoi_allowed [of "dec_digits v"] dec_digits_isdigit [of v] by simp
qed

text \<open>Separators that numbers can be told from.\<close>

definition separator_ok :: "string \<Rightarrow> bool" where
  "separator_ok sep \<longleftrightarrow> sep \<noteq> [] \<and> list_all (\<lambda>c. IsAllowed c \<and> \<not> ascii_isdigit c) sep"

lemma find_rev_last:
  assumes "P k" "k < n" "\<And>j. k < j \<Longrightarrow> j < n \<Longrightarrow> \<not> P j"
  shows "find P (rev [0..<n]) = Some k"
proof (cases "find P (rev [0..<n])")
  case None
  then show ?thesis using assms(1,2) by (simp add: find_upt_None)
next
  case (Some i)
  then show ?thesis using find_rev_upt [OF Some] assms by (metis linorder_neqE_nat)
qed

lemma rfind_numbered:
  assumes "separator_ok sep" "list_all ascii_isdigit ds" "ds \<noteq> []"
  shows "rfind sep (r @ sep @ ds) = Some (length r)"
  unfolding rfind_def
proof (rule find_rev_last)
  fix j
  assume j: "length r < j" "j < length (r @ sep @ ds) + 1 - length sep"
  define m where "m = j - length r"
  have m: "0 < m" "m \<le> length ds" "j = length r + m" using j by (auto simp: m_def)
  have ne: "0 < length sep" using assms(1) by (simp add: separator_ok_def)
  have "take (length sep) (drop j (r @ sep @ ds)) ! (length sep - 1) = ds ! (m - 1)"
  proof -
    have "length sep - 1 < length sep" using ne by simp
    then have "take (length sep) (drop j (r @ sep @ ds)) ! (length sep - 1) = drop j (r @ sep @ ds) ! (length sep - 1)" by (rule nth_take)
    also have "\<dots> = (r @ sep @ ds) ! (j + (length sep - 1))" using j by (intro nth_drop) simp
    also have "j + (length sep - 1) = length r + (length sep + (m - 1))" using m ne by linarith
    also have "(r @ sep @ ds) ! (length r + (length sep + (m - 1))) = ds ! (m - 1)" by (simp only: nth_append_length_plus)
    finally show ?thesis .
  qed
  moreover have "ascii_isdigit (ds ! (m - 1))" using assms(2) m by (simp add: list_all_length)
  moreover have "\<not> ascii_isdigit (sep ! (length sep - 1))" using assms(1) ne by (simp add: separator_ok_def list_all_length)
  ultimately show "take (length sep) (drop j (r @ sep @ ds)) \<noteq> sep" by metis
qed (use assms in \<open>auto simp: separator_ok_def\<close>)

lemma split_numbered:
  assumes "separator_ok sep" "0 \<le> i" "i < 2 ^ 63"
  shows "split_suffix sep (r @ sep @ dec_string i) = (r, Some i)"
proof -
  have "nat i < 2 ^ 63" using assms(2,3) by (simp add: nat_less_iff)
  then show ?thesis using rfind_numbered [OF assms(1) dec_digits_isdigit, of r "nat i"] SimpleAtoi_dec [of "nat i"] assms(2)
    by (simp add: split_suffix_def dec_string_digits)
qed

lemma split_suffix_cases:
  assumes "list_all IsAllowed s" "split_suffix sep s = (r, n)"
  shows "case n of None \<Rightarrow> r = s | Some i \<Rightarrow> 0 \<le> i \<and> i < 2 ^ 63 \<and> (\<exists>k. r = take k s)"
proof (cases "rfind sep s")
  case None
  then show ?thesis using assms(2) by (auto simp: split_suffix_def)
next
  case (Some k)
  have "list_all IsAllowed (drop (k + length sep) s)" using assms(1) by (auto simp: list_all_iff dest: in_set_dropD)
  then show ?thesis using assms(2) Some SimpleAtoi_allowed [of "drop (k + length sep) s"]
    by (auto simp: split_suffix_def split: option.splits if_splits)
qed

lemma split_name_bare: "split_suffix sep ''name'' = (''name'', None)"
proof (cases "rfind sep ''name''")
  case (Some k)
  have a: "list_all IsAllowed ''name''" by (simp add: IsAllowed_def ascii_isalpha_def)
  have nd: "list_all (\<lambda>c. \<not> ascii_isdigit c) ''name''" by (simp add: ascii_isdigit_def)
  let ?d = "drop (k + length sep) ''name''"
  have "list_all IsAllowed ?d" "list_all (\<lambda>c. \<not> ascii_isdigit c) ?d" using a nd by (auto simp: list_all_iff simp del: drop_Cons' dest!: in_set_dropD)
  then have "SimpleAtoi_int64 ?d = None" using SimpleAtoi_allowed [of ?d] by (cases ?d) auto
  then show ?thesis using Some by (simp add: split_suffix_def del: drop_Cons')
qed (simp add: split_suffix_def)

section \<open>Unique names\<close>

definition tracker_of :: "NameUniquer \<Rightarrow> string \<Rightarrow> PrefixTracker" where
  "tracker_of u r = (case nu_generated_names u r of None \<Rightarrow> PrefixTracker_new | Some t \<Rightarrow> t)"

definition with_tracker :: "NameUniquer \<Rightarrow> string \<Rightarrow> PrefixTracker \<Rightarrow> NameUniquer" where
  "with_tracker u r t = u\<lparr>nu_generated_names := (nu_generated_names u)(r \<mapsto> t)\<rparr>"

lemma with_tracker_simps [simp]:
  "tracker_of (with_tracker u r t) q = (if q = r then t else tracker_of u q)"
  "nu_separator (with_tracker u r t) = nu_separator u" "nu_reserved_names (with_tracker u r t) = nu_reserved_names u"
  by (simp_all add: tracker_of_def with_tracker_def)

text \<open>The names handed out so far, and the state after \<open>n\<close> calls.\<close>

definition issued :: "NameUniquer \<Rightarrow> string set" where
  "issued u = {r. pt_bare_prefix_taken (tracker_of u r)} \<union>
     {r @ nu_separator u @ dec_string i | r i. i \<in> set (ig_used (pt_generator (tracker_of u r)))}"

definition tracker_ok :: "string \<Rightarrow> nat \<Rightarrow> string \<Rightarrow> PrefixTracker \<Rightarrow> bool" where
  "tracker_ok sep n r t \<longleftrightarrow> ig_inv (pt_generator t) \<and> (\<forall>i \<in> set (ig_used (pt_generator t)). 0 \<le> i \<and> i < 2 ^ 63) \<and>
     length (ig_used (pt_generator t)) \<le> n \<and> (pt_bare_prefix_taken t \<longrightarrow> split_suffix sep r = (r, None))"

definition nu_ok :: "nat \<Rightarrow> NameUniquer \<Rightarrow> bool" where
  "nu_ok n u \<longleftrightarrow> separator_ok (nu_separator u) \<and> (\<forall>r \<in> set (nu_reserved_names u). IsValidIdentifier r) \<and>
     (\<forall>r. tracker_ok (nu_separator u) n r (tracker_of u r))"

lemma nu_ok_new:
  assumes "separator_ok sep" "\<forall>r \<in> set rs. IsValidIdentifier r"
  shows "nu_ok 0 (NameUniquer_new sep rs)" "issued (NameUniquer_new sep rs) = {}"
proof -
  have "tracker_of (NameUniquer_new sep rs) r = PrefixTracker_new" for r by (simp add: tracker_of_def NameUniquer_new_def)
  then show "nu_ok 0 (NameUniquer_new sep rs)" "issued (NameUniquer_new sep rs) = {}"
    using assms ig_inv_new by (simp_all add: nu_ok_def tracker_ok_def issued_def PrefixTracker_new_def SequentialIdGenerator_new_def, simp_all add: NameUniquer_new_def)
qed

lemma tracker_ok_mono: "tracker_ok sep n r t \<Longrightarrow> tracker_ok sep (Suc n) r t"
  by (auto simp: tracker_ok_def)

lemma nu_ok_with:
  "nu_ok n u \<Longrightarrow> tracker_ok (nu_separator u) (Suc n) r t \<Longrightarrow> nu_ok (Suc n) (with_tracker u r t)"
  by (auto simp: nu_ok_def intro: tracker_ok_mono)

text \<open>A name with a number tells its root and its number; a bare name is none.\<close>

lemma numbered_issued:
  assumes "nu_ok n u" "0 \<le> i" "i < 2 ^ 63"
  shows "r @ nu_separator u @ dec_string i \<in> issued u \<longleftrightarrow> i \<in> set (ig_used (pt_generator (tracker_of u r)))"
proof
  have s: "separator_ok (nu_separator u)" and t: "tracker_ok (nu_separator u) n q (tracker_of u q)" for q using assms(1) by (auto simp: nu_ok_def)
  have sp: "split_suffix (nu_separator u) (r @ nu_separator u @ dec_string i) = (r, Some i)" by (rule split_numbered [OF s assms(2,3)])
  assume "r @ nu_separator u @ dec_string i \<in> issued u"
  then consider (bare) "pt_bare_prefix_taken (tracker_of u (r @ nu_separator u @ dec_string i))"
    | (num) q j where "r @ nu_separator u @ dec_string i = q @ nu_separator u @ dec_string j" "j \<in> set (ig_used (pt_generator (tracker_of u q)))"
    by (auto simp: issued_def)
  then show "i \<in> set (ig_used (pt_generator (tracker_of u r)))"
  proof cases
    case bare
    then show ?thesis using t [of "r @ nu_separator u @ dec_string i"] sp by (simp add: tracker_ok_def)
  next
    case (num q j)
    then have "0 \<le> j" "j < 2 ^ 63" using t [of q] by (auto simp: tracker_ok_def)
    then have "(q, Some j) = (r, Some i)" using split_numbered [OF s, of j q] sp num(1) by simp
    then show ?thesis using num(2) by simp
  qed
qed (auto simp: issued_def)

lemma bare_issued:
  assumes "nu_ok n u" "split_suffix (nu_separator u) r = (r, None)"
  shows "r \<in> issued u \<longleftrightarrow> pt_bare_prefix_taken (tracker_of u r)"
proof -
  have s: "separator_ok (nu_separator u)" and t: "tracker_ok (nu_separator u) n q (tracker_of u q)" for q using assms(1) by (auto simp: nu_ok_def)
  have "r \<noteq> q @ nu_separator u @ dec_string j" if "j \<in> set (ig_used (pt_generator (tracker_of u q)))" for q j
    using split_numbered [OF s, of j q] t [of q] that assms(2) by (auto simp: tracker_ok_def)
  then show ?thesis by (auto simp: issued_def)
qed

lemma issue_number:
  assumes u: "nu_ok n u" and i: "0 \<le> i" "i < 2 ^ 63" and n: "n < 2 ^ 63 - 1"
  obtains j g where "RegisterId i (pt_generator (tracker_of u r)) = Some (j, g)" "0 \<le> j"
    "r @ nu_separator u @ dec_string j \<notin> issued u"
    "nu_ok (Suc n) (with_tracker u r ((tracker_of u r)\<lparr>pt_generator := g\<rparr>))"
    "issued (with_tracker u r ((tracker_of u r)\<lparr>pt_generator := g\<rparr>)) = insert (r @ nu_separator u @ dec_string j) (issued u)"
proof -
  let ?g = "pt_generator (tracker_of u r)"
  have t: "tracker_ok (nu_separator u) n r (tracker_of u r)" using u by (simp add: nu_ok_def)
  then have "ig_inv ?g" by (simp add: tracker_ok_def)
  then obtain j g where g: "RegisterId i ?g = Some (j, g)" "ig_inv g" "j \<notin> set (ig_used ?g)" "ig_used g = j # ig_used ?g" "j = i \<or> j = ig_next ?g"
    by (rule RegisterId_fresh)
  have "length (ig_used ?g) \<le> n" using t by (simp add: tracker_ok_def)
  moreover have "(of_nat n :: int) < 2 ^ 63 - 1" using n by simp
  ultimately have "1 \<le> ig_next ?g \<and> ig_next ?g < 2 ^ 63" using next_bound [OF \<open>ig_inv ?g\<close>] \<open>ig_inv ?g\<close> by (simp add: ig_inv_def)
  then have j: "0 \<le> j" "j < 2 ^ 63" using g(5) i by auto
  have "tracker_ok (nu_separator u) (Suc n) r ((tracker_of u r)\<lparr>pt_generator := g\<rparr>)" using t g(2,4) j by (simp add: tracker_ok_def)
  then have "nu_ok (Suc n) (with_tracker u r ((tracker_of u r)\<lparr>pt_generator := g\<rparr>))" by (rule nu_ok_with [OF u])
  moreover have "issued (with_tracker u r ((tracker_of u r)\<lparr>pt_generator := g\<rparr>)) = insert (r @ nu_separator u @ dec_string j) (issued u)"
  proof -
    let ?u = "with_tracker u r ((tracker_of u r)\<lparr>pt_generator := g\<rparr>)"
    have b: "pt_bare_prefix_taken (tracker_of ?u q) = pt_bare_prefix_taken (tracker_of u q)" for q by simp
    have k: "k \<in> set (ig_used (pt_generator (tracker_of ?u q))) \<longleftrightarrow> q = r \<and> k = j \<or> k \<in> set (ig_used (pt_generator (tracker_of u q)))" for q k
      using g(4) by auto
    show ?thesis unfolding issued_def b k with_tracker_simps(2) by blast
  qed
  moreover have "r @ nu_separator u @ dec_string j \<notin> issued u" using numbered_issued [OF u j] g(3) by simp
  ultimately show thesis using that g(1) j(1) by blast
qed

lemma valid_numbered: "IsValidIdentifier r \<Longrightarrow> separator_ok sep \<Longrightarrow> 0 \<le> i \<Longrightarrow> IsValidIdentifier (r @ sep @ dec_string i)"
  using dec_digits_isdigit(1) [of "nat i"] digit_chars(4) by (auto simp: IsValidIdentifier_iff separator_ok_def dec_string_digits list_all_iff)

text \<open>The root a name is made from.\<close>

lemma root_props:
  assumes "nu_ok n u" "split_suffix (nu_separator u) (SanitizeName prefix (nu_reserved_names u)) = (r, k)"
  defines "root \<equiv> (if r = [] then ''name'' else r)"
  shows "IsValidIdentifier root" "case k of None \<Rightarrow> split_suffix (nu_separator u) root = (root, None) | Some i \<Rightarrow> 0 \<le> i \<and> i < 2 ^ 63"
proof -
  let ?s = "SanitizeName prefix (nu_reserved_names u)"
  have valid: "?s = [] \<or> IsValidIdentifier ?s"
    using SanitizeName_valid [of prefix "nu_reserved_names u"] assms(1) by (cases "prefix = []") (auto simp: SanitizeName_def nu_ok_def)
  then have a: "list_all IsAllowed ?s" by (auto simp: IsValidIdentifier_iff)
  note c = split_suffix_cases [OF a assms(2)]
  have r: "\<exists>m. r = take m ?s" using c by (cases k) (auto intro: exI [of _ "length ?s"])
  have name: "IsValidIdentifier ''name''" by (simp add: IsValidIdentifier_iff IsAllowed_def ascii_isalpha_def)
  show "IsValidIdentifier root"
  proof (cases "r = []")
    case False
    then obtain m where m: "r = take m ?s" "m \<noteq> 0" "?s \<noteq> []" using r by auto
    then have "IsValidIdentifier r" using valid by (auto simp: IsValidIdentifier_iff list_all_iff dest: in_set_takeD)
    then show ?thesis using False by (simp add: root_def)
  qed (use name in \<open>simp add: root_def\<close>)
  show "case k of None \<Rightarrow> split_suffix (nu_separator u) root = (root, None) | Some i \<Rightarrow> 0 \<le> i \<and> i < 2 ^ 63"
    using c assms(2) split_name_bare by (cases k) (auto simp: root_def)
qed

lemma GetSanitizedUniqueName_step:
  assumes u: "nu_ok n u" and n: "n < 2 ^ 63 - 1"
  obtains name u' where "GetSanitizedUniqueName prefix u = Some (name, u')" "name \<notin> issued u" "IsValidIdentifier name"
    "nu_ok (Suc n) u'" "issued u' = insert name (issued u)"
proof -
  note found = that
  obtain r k where k: "split_suffix (nu_separator u) (SanitizeName prefix (nu_reserved_names u)) = (r, k)" by (rule prod.exhaust)
  define root where "root = (if r = [] then ''name'' else r)"
  note rp = root_props [OF u k, folded root_def]
  have sep: "separator_ok (nu_separator u)" using u by (simp add: nu_ok_def)
  have get: "GetSanitizedUniqueName prefix u = (case k of
      Some m \<Rightarrow> do { (i, g) \<leftarrow> RegisterId m (pt_generator (tracker_of u root));
        Some (root @ nu_separator u @ dec_string i, with_tracker u root ((tracker_of u root)\<lparr>pt_generator := g\<rparr>)) }
    | None \<Rightarrow> if pt_bare_prefix_taken (tracker_of u root) then do { (i, g) \<leftarrow> NextId (pt_generator (tracker_of u root));
          Some (root @ nu_separator u @ dec_string i, with_tracker u root ((tracker_of u root)\<lparr>pt_generator := g\<rparr>)) }
        else Some (root, with_tracker u root ((tracker_of u root)\<lparr>pt_bare_prefix_taken := True\<rparr>)))"
    by (simp only: GetSanitizedUniqueName_def Let_def k prod.case root_def tracker_of_def with_tracker_def)
  have t: "tracker_ok (nu_separator u) n root (tracker_of u root)" using u by (simp add: nu_ok_def)
  have number: thesis if m: "0 \<le> m" "m < 2 ^ 63" and eq: "GetSanitizedUniqueName prefix u = do { (i, g) \<leftarrow> RegisterId m (pt_generator (tracker_of u root));
        Some (root @ nu_separator u @ dec_string i, with_tracker u root ((tracker_of u root)\<lparr>pt_generator := g\<rparr>)) }" for m
  proof -
    obtain j g where j: "RegisterId m (pt_generator (tracker_of u root)) = Some (j, g)" "0 \<le> j" "root @ nu_separator u @ dec_string j \<notin> issued u"
        "nu_ok (Suc n) (with_tracker u root ((tracker_of u root)\<lparr>pt_generator := g\<rparr>))"
        "issued (with_tracker u root ((tracker_of u root)\<lparr>pt_generator := g\<rparr>)) = insert (root @ nu_separator u @ dec_string j) (issued u)"
      by (rule issue_number [OF u m n])
    show thesis using found [OF _ j(3) valid_numbered [OF rp(1) sep j(2)] j(4,5)] eq j(1) by simp
  qed
  show thesis
  proof (cases k)
    case (Some m)
    then show thesis using number [of m] get rp(2) by simp
  next
    case None
    show thesis
    proof (cases "pt_bare_prefix_taken (tracker_of u root)")
      case True
      have g: "ig_inv (pt_generator (tracker_of u root))" "length (ig_used (pt_generator (tracker_of u root))) \<le> n" using t by (simp_all add: tracker_ok_def)
      have "(of_nat n :: int) < 2 ^ 63 - 1" using n by simp
      then have "0 \<le> ig_next (pt_generator (tracker_of u root)) \<and> ig_next (pt_generator (tracker_of u root)) < 2 ^ 63"
        using g next_bound [OF g(1)] by (simp add: ig_inv_def)
      then show thesis using number [of "ig_next (pt_generator (tracker_of u root))"] get None True by (simp add: NextId_def)
    next
      case False
      let ?u = "with_tracker u root ((tracker_of u root)\<lparr>pt_bare_prefix_taken := True\<rparr>)"
      have sp: "split_suffix (nu_separator u) root = (root, None)" using rp(2) None by simp
      have "nu_ok (Suc n) ?u" by (rule nu_ok_with [OF u]) (use t sp in \<open>simp add: tracker_ok_def\<close>)
      moreover have "issued ?u = insert root (issued u)"
      proof -
        have b: "pt_bare_prefix_taken (tracker_of ?u q) \<longleftrightarrow> q = root \<or> pt_bare_prefix_taken (tracker_of u q)" for q by simp
        have i: "ig_used (pt_generator (tracker_of ?u q)) = ig_used (pt_generator (tracker_of u q))" for q by simp
        show ?thesis unfolding issued_def b i with_tracker_simps(2) by blast
      qed
      moreover have "root \<notin> issued u" using bare_issued [OF u sp] False by simp
      ultimately show thesis using found rp(1) get None False by simp
    qed
  qed
qed

text \<open>A sequence of calls.\<close>

fun unique_names :: "string list \<Rightarrow> NameUniquer \<Rightarrow> (string list \<times> NameUniquer) option" where
  "unique_names [] u = Some ([], u)"
| "unique_names (p # ps) u = do {
     (name, u') \<leftarrow> GetSanitizedUniqueName p u;
     (names, u'') \<leftarrow> unique_names ps u';
     Some (name # names, u'')
   }"

lemma unique_names_run:
  "nu_ok n u \<Longrightarrow> n + length ps < 2 ^ 63 \<Longrightarrow>
     \<exists>names u'. unique_names ps u = Some (names, u') \<and> length names = length ps \<and> distinct names \<and> set names \<inter> issued u = {} \<and>
       list_all IsValidIdentifier names"
proof (induction ps arbitrary: n u)
  case (Cons p ps)
  have "n < 2 ^ 63 - 1" using Cons.prems(2) by simp
  then obtain name u' where s: "GetSanitizedUniqueName p u = Some (name, u')" "name \<notin> issued u" "IsValidIdentifier name"
      "nu_ok (Suc n) u'" "issued u' = insert name (issued u)"
    using GetSanitizedUniqueName_step [OF Cons.prems(1), of p thesis] by blast
  obtain names u'' where "unique_names ps u' = Some (names, u'')" "length names = length ps" "distinct names" "set names \<inter> issued u' = {}"
      "list_all IsValidIdentifier names"
    using Cons.IH [OF s(4)] Cons.prems(2) by auto
  then show ?case using s by (intro exI [of _ "name # names"] exI [of _ u'']) auto
qed simp

end
