(* ===== verification/Jit_Layout.thy ===== *)
theory Jit_Layout
  imports Ir_Value
begin

text \<open>
  Models how the JIT keeps values in memory: \<open>xls/jit/llvm_type_converter.cc\<close> (the LLVM type of a type, its size and the layout of its leaves),
  \<open>xls/jit/jit_runtime.cc\<close> (\<open>BlitValueToBuffer\<close>, \<open>UnpackBuffer\<close>, \<open>PackArgs\<close>) and \<open>xls/jit/type_layout.{h,cc}\<close> (values written and read by a table of leaves).

  LLVM's data layout is a parameter \<open>DL\<close>: the size of a type with padding, the offset of a field of a structure and of an element of an array,
  and the byte order. \<open>layout_spec\<close> states what LLVM documents of it. A buffer is a list of bytes and a pointer into it an offset; access
  outside the buffer is a failure. The locks and the loop of \<open>ValueToNativeLayout\<close> over an explicit stack are as in the code, the locks as nothing.

  The lemmas show that both writers place a value so that both readers return it, and write nothing outside the value's bytes.
\<close>

section \<open>LLVM types\<close>

datatype llvm_type = LInteger nat | LStruct "llvm_type list" | LArray llvm_type nat

record data_layout =
  getTypeAllocSize :: "llvm_type \<Rightarrow> nat"
  getElementOffset :: "llvm_type list \<Rightarrow> nat \<Rightarrow> nat"
  getIndexedOffsetInType :: "llvm_type \<Rightarrow> nat \<Rightarrow> nat"
  isLittleEndian :: bool

definition GetLlvmBitCount :: "nat \<Rightarrow> nat" where
  "GetLlvmBitCount xls_bit_count =
     (if xls_bit_count \<le> 1 then 1 else if xls_bit_count \<le> 8 then 8 else 2 ^ CeilOfLog2 (of_nat xls_bit_count))"

definition LlvmTypeConverter_GetTokenType :: llvm_type where
  "LlvmTypeConverter_GetTokenType = LArray (LInteger 1) 0"

fun ConvertToLlvmType :: "Type \<Rightarrow> llvm_type" where
  "ConvertToLlvmType (BitsType n) = LInteger (GetLlvmBitCount n)"
| "ConvertToLlvmType (TupleType ts) = LStruct (map ConvertToLlvmType ts)"
| "ConvertToLlvmType (ArrayType n t) = LArray (ConvertToLlvmType t) n"
| "ConvertToLlvmType TokenType = LlvmTypeConverter_GetTokenType"

definition GetTypeByteSize :: "data_layout \<Rightarrow> Type \<Rightarrow> nat" where
  "GetTypeByteSize DL t = getTypeAllocSize DL (ConvertToLlvmType t)"

definition field_offset :: "data_layout \<Rightarrow> Type list \<Rightarrow> nat \<Rightarrow> nat" where
  "field_offset DL ts i = getElementOffset DL (map ConvertToLlvmType ts) i"

text \<open>Memory.\<close>

definition store :: "u8 list \<Rightarrow> nat \<Rightarrow> u8 list \<Rightarrow> u8 list option" where
  "store buf off bytes =
     (if off + length bytes \<le> length buf then Some (take off buf @ bytes @ drop (off + length bytes) buf) else None)"

definition load :: "u8 list \<Rightarrow> nat \<Rightarrow> nat \<Rightarrow> u8 list option" where
  "load buf off n = (if off + n \<le> length buf then Some (take n (drop off buf)) else None)"

section \<open>The runtime's reader and writer\<close>

definition blit_bits :: "data_layout \<Rightarrow> Bits \<Rightarrow> nat \<Rightarrow> u8 list \<Rightarrow> u8 list option" where
  "blit_bits DL b off buf =
     (let byte_count = CeilOfRatio_nat (Bits_bit_count b) 8 in
      if \<not> isLittleEndian DL then None
      else do {
        buf \<leftarrow> store buf off (Bits_ToBytes b);
        let remainder_bits = Bits_bit_count b mod 8;
        if remainder_bits \<noteq> 0
        then store buf (off + byte_count - 1) [buf ! (off + byte_count - 1) AND ucast (Mask remainder_bits)]
        else Some buf
      })"

text \<open>\<open>absl::Span::subspan\<close> fails beyond the end of the span.\<close>

function BlitValueToBufferInternal :: "data_layout \<Rightarrow> Value \<Rightarrow> Type \<Rightarrow> nat \<Rightarrow> u8 list \<Rightarrow> u8 list option"
  and blit_array :: "data_layout \<Rightarrow> nat \<Rightarrow> Type \<Rightarrow> Value list \<Rightarrow> nat \<Rightarrow> u8 list \<Rightarrow> u8 list option"
  and blit_tuple :: "data_layout \<Rightarrow> Type list \<Rightarrow> nat \<Rightarrow> Value list \<Rightarrow> nat \<Rightarrow> u8 list \<Rightarrow> u8 list option" where
  "BlitValueToBufferInternal DL (Value_Bits b) t off buf = blit_bits DL b off buf"
| "BlitValueToBufferInternal DL (Value_Array vs) t off buf =
     (case t of ArrayType n u \<Rightarrow> blit_array DL (GetTypeByteSize DL u) u vs off buf | _ \<Rightarrow> None)"
| "BlitValueToBufferInternal DL (Value_Tuple vs) t off buf =
     (case t of TupleType ts \<Rightarrow> blit_tuple DL ts 0 vs off buf | _ \<Rightarrow> None)"
| "BlitValueToBufferInternal DL Value_Token t off buf = Some buf"
| "BlitValueToBufferInternal DL Value_Invalid t off buf = None"
| "blit_array DL element_size t [] off buf = Some buf"
| "blit_array DL element_size t (v # vs) off buf = do {
     buf \<leftarrow> BlitValueToBufferInternal DL v t off buf;
     if off + element_size \<le> length buf then blit_array DL element_size t vs (off + element_size) buf else None
   }"
| "blit_tuple DL ts i [] off buf = Some buf"
| "blit_tuple DL ts i (v # vs) off buf =
     (if i < length ts \<and> off + field_offset DL ts i \<le> length buf then do {
        buf \<leftarrow> BlitValueToBufferInternal DL v (ts ! i) (off + field_offset DL ts i) buf;
        blit_tuple DL ts (Suc i) vs off buf
      }
      else None)"
  by pat_completeness auto
termination
  by (relation "measure (\<lambda>x. case x of Inl (DL, v, t, off, buf) \<Rightarrow> size v
      | Inr (Inl (DL, n, t, vs, off, buf)) \<Rightarrow> size_list size vs | Inr (Inr (DL, ts, i, vs, off, buf)) \<Rightarrow> size_list size vs)") auto

definition BlitValueToBuffer :: "data_layout \<Rightarrow> Value \<Rightarrow> Type \<Rightarrow> u8 list \<Rightarrow> u8 list option" where
  "BlitValueToBuffer DL v t buf = do {
     buf \<leftarrow> store buf 0 (replicate (GetTypeByteSize DL t) 0);
     BlitValueToBufferInternal DL v t 0 buf
   }"

fun all_of :: "'a option list \<Rightarrow> 'a list option" where
  "all_of [] = Some []"
| "all_of (x # xs) = do { a \<leftarrow> x; as \<leftarrow> all_of xs; Some (a # as) }"

fun UnpackBufferInternal :: "data_layout \<Rightarrow> u8 list \<Rightarrow> nat \<Rightarrow> Type \<Rightarrow> Value option"
  and unpack_tuple :: "data_layout \<Rightarrow> u8 list \<Rightarrow> nat \<Rightarrow> Type list \<Rightarrow> nat \<Rightarrow> Type list \<Rightarrow> Value list option" where
  "UnpackBufferInternal DL buf off (BitsType n) = do {
     bytes \<leftarrow> load buf off (CeilOfRatio_nat n 8);
     b \<leftarrow> Bits_FromBytes bytes n;
     Some (Value_Bits b)
   }"
| "UnpackBufferInternal DL buf off (TupleType ts) = map_option Value_Tuple (unpack_tuple DL buf off ts 0 ts)"
| "UnpackBufferInternal DL buf off (ArrayType n t) =
     (if n = 0 then Value_ArrayOrDie []
      else do {
        vs \<leftarrow> all_of (map (\<lambda>i. UnpackBufferInternal DL buf (off + getIndexedOffsetInType DL (ConvertToLlvmType t) i) t) [0..<n]);
        Value_ArrayOrDie vs
      })"
| "UnpackBufferInternal DL buf off TokenType = Some Value_Token"
| "unpack_tuple DL buf off all i [] = Some []"
| "unpack_tuple DL buf off all i (t # ts) = do {
     v \<leftarrow> UnpackBufferInternal DL buf (off + field_offset DL all i) t;
     vs \<leftarrow> unpack_tuple DL buf off all (Suc i) ts;
     Some (v # vs)
   }"

definition UnpackBuffer :: "data_layout \<Rightarrow> u8 list \<Rightarrow> Type \<Rightarrow> Value option" where
  "UnpackBuffer DL buf t = UnpackBufferInternal DL buf 0 t"

text \<open>The arguments of a function, each into its buffer; sizes of buffers are the types' sizes.\<close>

fun pack_loop :: "data_layout \<Rightarrow> Value list \<Rightarrow> Type list \<Rightarrow> u8 list list \<Rightarrow> u8 list list option" where
  "pack_loop DL (v # vs) (t # ts) (b # bs) = do {
     b \<leftarrow> BlitValueToBuffer DL v t b;
     bs \<leftarrow> pack_loop DL vs ts bs;
     Some (b # bs)
   }"
| "pack_loop DL [] ts bs = Some bs"
| "pack_loop DL vs ts bs = None"

definition PackArgs :: "data_layout \<Rightarrow> Value list \<Rightarrow> Type list \<Rightarrow> u8 list list \<Rightarrow> (status_code + u8 list list) option" where
  "PackArgs DL args arg_types arg_buffers =
     (if length arg_buffers < length args then Some (Inl InvalidArgument)
      else map_option Inr (pack_loop DL args arg_types arg_buffers))"

section \<open>Tables of leaves\<close>

record ElementLayout =
  el_offset :: nat
  el_data_size :: nat
  el_padded_size :: nat

record TypeLayout =
  tl_type :: Type
  tl_size :: nat
  tl_elements :: "ElementLayout list"

definition TypeLayout_new :: "Type \<Rightarrow> nat \<Rightarrow> ElementLayout list \<Rightarrow> TypeLayout option" where
  "TypeLayout_new t n els =
     (if length els = Type_leaf_count t then Some \<lparr>tl_type = t, tl_size = n, tl_elements = els\<rparr> else None)"

fun ComputeElementLayouts :: "data_layout \<Rightarrow> Type \<Rightarrow> nat \<Rightarrow> ElementLayout list"
  and tuple_layouts :: "data_layout \<Rightarrow> Type list \<Rightarrow> nat \<Rightarrow> Type list \<Rightarrow> nat \<Rightarrow> ElementLayout list" where
  "ComputeElementLayouts DL TokenType off = [\<lparr>el_offset = off, el_data_size = 0, el_padded_size = GetTypeByteSize DL TokenType\<rparr>]"
| "ComputeElementLayouts DL (BitsType n) off =
     [\<lparr>el_offset = off, el_data_size = CeilOfRatio_nat n 8, el_padded_size = GetTypeByteSize DL (BitsType n)\<rparr>]"
| "ComputeElementLayouts DL (ArrayType n t) off =
     concat (map (\<lambda>i. ComputeElementLayouts DL t (off + getIndexedOffsetInType DL (ConvertToLlvmType t) i)) [0..<n])"
| "ComputeElementLayouts DL (TupleType ts) off = tuple_layouts DL ts 0 ts off"
| "tuple_layouts DL all i [] off = []"
| "tuple_layouts DL all i (t # ts) off =
     ComputeElementLayouts DL t (off + field_offset DL all i) @ tuple_layouts DL all (Suc i) ts off"

definition CreateTypeLayout :: "data_layout \<Rightarrow> Type \<Rightarrow> TypeLayout option" where
  "CreateTypeLayout DL t = TypeLayout_new t (GetTypeByteSize DL t) (ComputeElementLayouts DL t 0)"

fun IsLeafValue :: "Value \<Rightarrow> bool" where
  "IsLeafValue (Value_Bits b) = True"
| "IsLeafValue Value_Token = True"
| "IsLeafValue _ = False"

definition LeafValueToNativeLayout :: "Value \<Rightarrow> ElementLayout \<Rightarrow> u8 list \<Rightarrow> u8 list option" where
  "LeafValueToNativeLayout v el buf =
     (case v of
        Value_Bits b \<Rightarrow> do {
          buf \<leftarrow> store buf (el_offset el) (if el_data_size el = 0 then [] else Bits_ToBytes b);
          if el_padded_size el < el_data_size el then None
          else store buf (el_offset el + el_data_size el) (replicate (el_padded_size el - el_data_size el) 0)
        }
      | Value_Token \<Rightarrow> store buf 0 (replicate (el_padded_size el) 0)
      | _ \<Rightarrow> None)"

text \<open>A frame of the stack: the elements of a value and the index of the next one.\<close>

function native_loop :: "ElementLayout list \<Rightarrow> (Value list \<times> nat) list \<Rightarrow> nat \<Rightarrow> u8 list \<Rightarrow> (nat \<times> u8 list) option" where
  "native_loop els [] leaf_index buf = Some (leaf_index, buf)"
| "native_loop els ((vs, i) # stack) leaf_index buf =
     (if i \<ge> length vs then native_loop els stack leaf_index buf
      else if IsLeafValue (vs ! i) then
        if leaf_index \<ge> length els then None
        else do {
          buf \<leftarrow> LeafValueToNativeLayout (vs ! i) (els ! leaf_index) buf;
          native_loop els ((vs, Suc i) # stack) (Suc leaf_index) buf
        }
      else case Value_elements (vs ! i) of None \<Rightarrow> None
        | Some es \<Rightarrow> native_loop els ((es, 0) # (vs, Suc i) # stack) leaf_index buf)"
  by pat_completeness auto

lemma size_elements: "Value_elements v = Some es \<Longrightarrow> \<not> IsLeafValue v \<Longrightarrow> size_list size es < size v"
  by (cases v) auto

lemma size_list_drop: "i < length vs \<Longrightarrow> size_list size (drop i vs) = Suc (size (vs ! i) + size_list size (drop (Suc i) vs))"
  by (simp add: Cons_nth_drop_Suc [symmetric])

termination native_loop
  by (relation "measure (\<lambda>(els, stack, l, b). sum_list (map (\<lambda>(vs, i). Suc (size_list size (drop i vs))) stack))")
    (auto simp: size_list_drop dest!: size_elements)

definition ValueToNativeLayout :: "TypeLayout \<Rightarrow> Value \<Rightarrow> u8 list \<Rightarrow> u8 list option" where
  "ValueToNativeLayout L v buf =
     (if IsLeafValue v then
        case tl_elements L of [] \<Rightarrow> None | el # _ \<Rightarrow> LeafValueToNativeLayout v el buf
      else case Value_elements v of None \<Rightarrow> None
        | Some es \<Rightarrow> do {
            (leaf_index, buf) \<leftarrow> native_loop (tl_elements L) [(es, 0)] 0 buf;
            if leaf_index = length (tl_elements L) then Some buf else None
          })"

function NativeLayoutToValueInternal :: "ElementLayout list \<Rightarrow> Type \<Rightarrow> u8 list \<Rightarrow> nat \<Rightarrow> (Value \<times> nat) option"
  and native_tuple :: "ElementLayout list \<Rightarrow> Type list \<Rightarrow> u8 list \<Rightarrow> nat \<Rightarrow> (Value list \<times> nat) option"
  and native_array :: "ElementLayout list \<Rightarrow> nat \<Rightarrow> Type \<Rightarrow> u8 list \<Rightarrow> nat \<Rightarrow> (Value list \<times> nat) option" where
  "NativeLayoutToValueInternal els (BitsType n) buf leaf_index =
     (if leaf_index \<ge> length els then None
      else do {
        bytes \<leftarrow> load buf (el_offset (els ! leaf_index)) (CeilOfRatio_nat n 8);
        b \<leftarrow> Bits_FromBytes bytes n;
        Some (Value_Bits b, Suc leaf_index)
      })"
| "NativeLayoutToValueInternal els TokenType buf leaf_index = Some (Value_Token, Suc leaf_index)"
| "NativeLayoutToValueInternal els (TupleType ts) buf leaf_index = map_option (apfst Value_Tuple) (native_tuple els ts buf leaf_index)"
| "NativeLayoutToValueInternal els (ArrayType n t) buf leaf_index = map_option (apfst Value_Array) (native_array els n t buf leaf_index)"
| "native_tuple els [] buf leaf_index = Some ([], leaf_index)"
| "native_tuple els (t # ts) buf leaf_index = do {
     (v, leaf_index) \<leftarrow> NativeLayoutToValueInternal els t buf leaf_index;
     (vs, leaf_index) \<leftarrow> native_tuple els ts buf leaf_index;
     Some (v # vs, leaf_index)
   }"
| "native_array els 0 t buf leaf_index = Some ([], leaf_index)"
| "native_array els (Suc n) t buf leaf_index = do {
     (v, leaf_index) \<leftarrow> NativeLayoutToValueInternal els t buf leaf_index;
     (vs, leaf_index) \<leftarrow> native_array els n t buf leaf_index;
     Some (v # vs, leaf_index)
   }"
  by pat_completeness auto
termination
  by (relation "measures [\<lambda>x. case x of Inl (els, t, buf, l) \<Rightarrow> 2 * size t
      | Inr (Inl (els, ts, buf, l)) \<Rightarrow> 2 * size_list size ts | Inr (Inr (els, n, t, buf, l)) \<Rightarrow> Suc (2 * size t),
      \<lambda>x. case x of Inr (Inr (els, n, t, buf, l)) \<Rightarrow> n | _ \<Rightarrow> 0]") auto

definition NativeLayoutToValue :: "TypeLayout \<Rightarrow> u8 list \<Rightarrow> Value option" where
  "NativeLayoutToValue L buf = map_option fst (NativeLayoutToValueInternal (tl_elements L) (tl_type L) buf 0)"

section \<open>What LLVM documents of a data layout\<close>

definition layout_spec :: "data_layout \<Rightarrow> bool" where
  "layout_spec DL \<longleftrightarrow> isLittleEndian DL \<and>
     (\<forall>n. CeilOfRatio_nat n 8 \<le> getTypeAllocSize DL (LInteger n)) \<and>
     (\<forall>t n. getTypeAllocSize DL (LArray t n) = n * getTypeAllocSize DL t) \<and>
     (\<forall>t i. getIndexedOffsetInType DL t i = i * getTypeAllocSize DL t) \<and>
     (\<forall>ts i j. i < j \<and> j < length ts \<longrightarrow> getElementOffset DL ts i + getTypeAllocSize DL (ts ! i) \<le> getElementOffset DL ts j) \<and>
     (\<forall>ts i. i < length ts \<longrightarrow> getElementOffset DL ts i + getTypeAllocSize DL (ts ! i) \<le> getTypeAllocSize DL (LStruct ts))"

text \<open>A layout with no padding.\<close>

fun packed_size :: "llvm_type \<Rightarrow> nat" where
  "packed_size (LInteger n) = CeilOfRatio_nat n 8"
| "packed_size (LStruct ts) = sum_list (map packed_size ts)"
| "packed_size (LArray t n) = n * packed_size t"

definition packed_layout :: data_layout where
  "packed_layout = \<lparr>getTypeAllocSize = packed_size, getElementOffset = (\<lambda>ts i. sum_list (map packed_size (take i ts))),
     getIndexedOffsetInType = (\<lambda>t i. i * packed_size t), isLittleEndian = True\<rparr>"

lemma packed_layout_spec: "layout_spec packed_layout"
proof -
  have a: "sum_list (map packed_size (take i ts)) + packed_size (ts ! i) = sum_list (map packed_size (take (Suc i) ts))" if "i < length ts" for i ts
    using that by (simp add: take_Suc_conv_app_nth)
  have b: "sum_list (map packed_size (take i ts)) \<le> sum_list (map packed_size (take j ts))" if le: "i \<le> j" for i j ts
  proof -
    obtain k where j: "j = i + k" using le_Suc_ex [OF le] ..
    show ?thesis unfolding j take_add by simp
  qed
  have c: "sum_list (map packed_size (take i ts)) \<le> sum_list (map packed_size ts)" for i ts using b [of i "i + length ts" ts] by simp
  have e: "getElementOffset packed_layout ts k = sum_list (map packed_size (take k ts))" "getTypeAllocSize packed_layout = packed_size" for ts k
    by (simp_all add: packed_layout_def)
  show ?thesis unfolding layout_spec_def
  proof (intro conjI allI impI)
    fix ts :: "llvm_type list" and i j
    show "getElementOffset packed_layout ts i + getTypeAllocSize packed_layout (ts ! i) \<le> getElementOffset packed_layout ts j" if "i < j \<and> j < length ts"
      unfolding e using a [of i ts] b [of "Suc i" j ts] that by linarith
    show "getElementOffset packed_layout ts i + getTypeAllocSize packed_layout (ts ! i) \<le> getTypeAllocSize packed_layout (LStruct ts)" if "i < length ts"
      unfolding e packed_size.simps using a [of i ts] c [of "Suc i" ts] that by linarith
  qed (simp_all add: packed_layout_def)
qed

section \<open>Writing to parts of a buffer\<close>

definition good_write :: "nat \<Rightarrow> nat \<Rightarrow> (u8 list \<Rightarrow> u8 list option) \<Rightarrow> (u8 list \<Rightarrow> bool) \<Rightarrow> bool" where
  "good_write off n f Q \<longleftrightarrow> (\<forall>buf. off + n \<le> length buf \<longrightarrow> (\<exists>buf'. f buf = Some buf' \<and> length buf' = length buf \<and>
     (\<forall>k. k < off \<or> off + n \<le> k \<longrightarrow> buf' ! k = buf ! k) \<and> Q buf'))"

text \<open>Only the bytes of the part matter.\<close>

definition local_to :: "nat \<Rightarrow> nat \<Rightarrow> (u8 list \<Rightarrow> bool) \<Rightarrow> bool" where
  "local_to off n Q \<longleftrightarrow> (\<forall>b c. length b = length c \<and> off + n \<le> length b \<and> (\<forall>k. off \<le> k \<and> k < off + n \<longrightarrow> b ! k = c ! k) \<longrightarrow> Q b = Q c)"

lemma good_writeD:
  assumes "good_write off n f Q" "off + n \<le> length buf"
  obtains buf' where "f buf = Some buf'" "length buf' = length buf" "\<And>k. k < off \<or> off + n \<le> k \<Longrightarrow> buf' ! k = buf ! k" "Q buf'"
  using assms unfolding good_write_def by blast

fun run_all :: "(u8 list \<Rightarrow> u8 list option) list \<Rightarrow> u8 list \<Rightarrow> u8 list option" where
  "run_all [] buf = Some buf"
| "run_all (f # fs) buf = do { buf \<leftarrow> f buf; run_all fs buf }"

lemma run_all_append: "run_all (fs @ gs) buf = do { buf \<leftarrow> run_all fs buf; run_all gs buf }"
  by (induction fs arbitrary: buf) (auto split: Option.bind_splits)

lemma run_all_concat: "run_all (concat fss) = run_all (map run_all fss)"
  by (induction fss) (auto simp: run_all_append fun_eq_iff)

lemma run_all_good:
  assumes "\<And>i. i < length fs \<Longrightarrow> good_write (o1 i) (n1 i) (fs ! i) (Q i) \<and> local_to (o1 i) (n1 i) (Q i)"
    and "\<And>i j. i < j \<Longrightarrow> j < length fs \<Longrightarrow> o1 i + n1 i \<le> o1 j"
    and "\<And>i. i < length fs \<Longrightarrow> off \<le> o1 i \<and> o1 i + n1 i \<le> off + N"
  shows "good_write off N (run_all fs) (\<lambda>b. \<forall>i < length fs. Q i b)"
  using assms
proof (induction fs rule: rev_induct)
  case Nil
  show ?case by (simp add: good_write_def)
next
  case (snoc f fs)
  let ?m = "length fs"
  have IH: "good_write off N (run_all fs) (\<lambda>b. \<forall>i < length fs. Q i b)"
  proof (rule snoc.IH)
    show "good_write (o1 i) (n1 i) (fs ! i) (Q i) \<and> local_to (o1 i) (n1 i) (Q i)" if "i < length fs" for i
      using snoc.prems(1) [of i] that by (simp add: nth_append)
  qed (use snoc.prems(2,3) in auto)
  have f: "good_write (o1 ?m) (n1 ?m) f (Q ?m)" using snoc.prems(1) [of ?m] by simp
  have part: "off \<le> o1 ?m" "o1 ?m + n1 ?m \<le> off + N" using snoc.prems(3) [of ?m] by simp_all
  show ?case unfolding good_write_def
  proof (intro allI impI)
    fix buf :: "u8 list"
    assume l: "off + N \<le> length buf"
    obtain b where b: "run_all fs buf = Some b" "length b = length buf" "\<And>k. k < off \<or> off + N \<le> k \<Longrightarrow> b ! k = buf ! k" "\<forall>i < ?m. Q i b"
      using good_writeD [OF IH l] by blast
    have lb: "o1 ?m + n1 ?m \<le> length b" using part l b(2) by simp
    obtain c where c: "f b = Some c" "length c = length b" "\<And>k. k < o1 ?m \<or> o1 ?m + n1 ?m \<le> k \<Longrightarrow> c ! k = b ! k" "Q ?m c"
      using good_writeD [OF f lb] by blast
    have "Q i c" if i: "i < ?m" for i
    proof -
      have "o1 i + n1 i \<le> o1 ?m" "local_to (o1 i) (n1 i) (Q i)" using snoc.prems(1) [of i] snoc.prems(2) [of i ?m] i by simp_all
      moreover have "\<forall>k. o1 i \<le> k \<and> k < o1 i + n1 i \<longrightarrow> b ! k = c ! k" using c(3) \<open>o1 i + n1 i \<le> o1 ?m\<close> by auto
      moreover have "o1 i + n1 i \<le> length b" using \<open>o1 i + n1 i \<le> o1 ?m\<close> lb by simp
      ultimately show ?thesis using b(4) i c(2) unfolding local_to_def by metis
    qed
    then have "\<forall>i < length (fs @ [f]). Q i c" using c(4) by (auto simp: less_Suc_eq)
    moreover have "\<forall>k. k < off \<or> off + N \<le> k \<longrightarrow> c ! k = buf ! k" using b(3) c(3) part by auto
    ultimately show "\<exists>buf'. run_all (fs @ [f]) buf = Some buf' \<and> length buf' = length buf \<and>
        (\<forall>k. k < off \<or> off + N \<le> k \<longrightarrow> buf' ! k = buf ! k) \<and> (\<forall>i < length (fs @ [f]). Q i buf')"
      using b(1,2) c(1,2) by (simp add: run_all_append)
  qed
qed

lemma store_bytes:
  assumes "off + length bytes \<le> length buf"
  obtains buf' where "store buf off bytes = Some buf'" "length buf' = length buf" "\<And>k. k < off \<or> off + length bytes \<le> k \<Longrightarrow> buf' ! k = buf ! k"
    "\<And>k. k < length bytes \<Longrightarrow> buf' ! (off + k) = bytes ! k"
proof
  let ?b = "take off buf @ bytes @ drop (off + length bytes) buf"
  show "store buf off bytes = Some ?b" using assms by (simp add: store_def)
  show "length ?b = length buf" using assms by simp
  show "?b ! k = buf ! k" if "k < off \<or> off + length bytes \<le> k" for k using that assms by (auto simp: nth_append)
  show "?b ! (off + k) = bytes ! k" if "k < length bytes" for k using that assms by (simp add: nth_append)
qed

section \<open>A buffer that holds a value\<close>

inductive holds_at :: "data_layout \<Rightarrow> u8 list \<Rightarrow> nat \<Rightarrow> Value \<Rightarrow> Type \<Rightarrow> bool" for DL buf where
  held_bits: "load buf off (CeilOfRatio_nat n 8) = Some bytes \<Longrightarrow> Bits_FromBytes bytes n = Some b \<Longrightarrow> holds_at DL buf off (Value_Bits b) (BitsType n)"
| held_token: "holds_at DL buf off Value_Token TokenType"
| held_tuple: "length vs = length ts \<Longrightarrow> (\<And>i. i < length ts \<Longrightarrow> holds_at DL buf (off + field_offset DL ts i) (vs ! i) (ts ! i)) \<Longrightarrow>
    holds_at DL buf off (Value_Tuple vs) (TupleType ts)"
| held_array: "vs \<noteq> [] \<Longrightarrow> (\<And>i. i < length vs \<Longrightarrow> holds_at DL buf (off + getIndexedOffsetInType DL (ConvertToLlvmType t) i) (vs ! i) t) \<Longrightarrow>
    holds_at DL buf off (Value_Array vs) (ArrayType (length vs) t)"

text \<open>Widths are \<open>int64_t\<close>, and so is the next power of two.\<close>

fun narrow_type :: "Type \<Rightarrow> bool" where
  "narrow_type (BitsType n) \<longleftrightarrow> n \<le> 2 ^ 62"
| "narrow_type (TupleType ts) \<longleftrightarrow> list_all narrow_type ts"
| "narrow_type (ArrayType n t) \<longleftrightarrow> narrow_type t"
| "narrow_type TokenType \<longleftrightarrow> True"

lemma GetLlvmBitCount_ge: "n \<le> 2 ^ 62 \<Longrightarrow> n \<le> GetLlvmBitCount n"
proof -
  assume "n \<le> 2 ^ 62"
  then have n: "n < 2 ^ 63" by (rule le_less_trans) simp
  have "n \<le> 2 ^ CeilOfLog2 (of_nat n)" if "8 < n"
  proof -
    have u: "unat (of_nat n :: u64) = n" using n by (simp add: unat_of_nat)
    then have "(of_nat n :: u64) \<noteq> 0" using that by (metis less_zeroE unat_0)
    then show ?thesis using CeilOfLog2_least [of "of_nat n" "CeilOfLog2 (of_nat n)"] u by simp
  qed
  then show ?thesis by (auto simp: GetLlvmBitCount_def)
qed

lemma byte_size_parts:
  assumes "layout_spec DL"
  shows "n \<le> 2 ^ 62 \<Longrightarrow> CeilOfRatio_nat n 8 \<le> GetTypeByteSize DL (BitsType n)"
    and "GetTypeByteSize DL TokenType = 0"
    and "GetTypeByteSize DL (ArrayType n t) = n * GetTypeByteSize DL t"
    and "getIndexedOffsetInType DL (ConvertToLlvmType t) i = i * GetTypeByteSize DL t"
    and "i < j \<Longrightarrow> j < length ts \<Longrightarrow> field_offset DL ts i + GetTypeByteSize DL (ts ! i) \<le> field_offset DL ts j"
    and "i < length ts \<Longrightarrow> field_offset DL ts i + GetTypeByteSize DL (ts ! i) \<le> GetTypeByteSize DL (TupleType ts)"
proof -
  note d = assms [unfolded layout_spec_def]
  show "CeilOfRatio_nat n 8 \<le> GetTypeByteSize DL (BitsType n)" if "n \<le> 2 ^ 62"
  proof -
    have "CeilOfRatio_nat n 8 \<le> CeilOfRatio_nat (GetLlvmBitCount n) 8"
      using GetLlvmBitCount_ge [OF that] by (simp add: CeilOfRatio_nat_eq div_le_mono)
    also have "\<dots> \<le> GetTypeByteSize DL (BitsType n)" using d by (simp add: GetTypeByteSize_def)
    finally show ?thesis .
  qed
  show "GetTypeByteSize DL TokenType = 0" "GetTypeByteSize DL (ArrayType n t) = n * GetTypeByteSize DL t"
    "getIndexedOffsetInType DL (ConvertToLlvmType t) i = i * GetTypeByteSize DL t"
    using d by (simp_all add: GetTypeByteSize_def LlvmTypeConverter_GetTokenType_def)
  show "i < j \<Longrightarrow> j < length ts \<Longrightarrow> field_offset DL ts i + GetTypeByteSize DL (ts ! i) \<le> field_offset DL ts j"
    "i < length ts \<Longrightarrow> field_offset DL ts i + GetTypeByteSize DL (ts ! i) \<le> GetTypeByteSize DL (TupleType ts)"
  proof -
    show "field_offset DL ts i + GetTypeByteSize DL (ts ! i) \<le> field_offset DL ts j" if "i < j" "j < length ts"
    proof -
      have "getElementOffset DL (map ConvertToLlvmType ts) i + getTypeAllocSize DL (map ConvertToLlvmType ts ! i) \<le> getElementOffset DL (map ConvertToLlvmType ts) j"
        using d that by (metis length_map)
      then show ?thesis using that by (simp add: field_offset_def GetTypeByteSize_def)
    qed
    show "field_offset DL ts i + GetTypeByteSize DL (ts ! i) \<le> GetTypeByteSize DL (TupleType ts)" if "i < length ts"
    proof -
      have "getElementOffset DL (map ConvertToLlvmType ts) i + getTypeAllocSize DL (map ConvertToLlvmType ts ! i) \<le> getTypeAllocSize DL (LStruct (map ConvertToLlvmType ts))"
        using d that by (metis length_map)
      then show ?thesis using that by (simp add: field_offset_def GetTypeByteSize_def)
    qed
  qed
qed

lemma array_element_inside:
  assumes "i < n"
  shows "i * s + s \<le> n * (s :: nat)"
  using mult_le_mono1 [of "Suc i" n s] assms by simp

lemma holds_frame:
  assumes "layout_spec DL" "holds_at DL b off v t" "narrow_type t" "length c = length b" "off + GetTypeByteSize DL t \<le> length b"
    and "\<And>k. off \<le> k \<Longrightarrow> k < off + GetTypeByteSize DL t \<Longrightarrow> b ! k = c ! k"
  shows "holds_at DL c off v t"
  using assms(2-)
proof (induction rule: holds_at.induct)
  case (held_bits off n bytes x)
  let ?m = "CeilOfRatio_nat n 8"
  have m: "?m \<le> GetTypeByteSize DL (BitsType n)" using byte_size_parts(1) [OF assms(1)] held_bits.prems(1) by simp
  have "take ?m (drop off c) = take ?m (drop off b)"
    using held_bits.prems(2-4) m by (intro nth_equalityI) auto
  then have "load c off ?m = Some bytes" using held_bits.hyps(1) held_bits.prems(2) by (simp add: load_def split: if_splits)
  then show ?case using held_bits.hyps(2) by (rule holds_at.held_bits)
next
  case (held_tuple vs ts off)
  show ?case
  proof (rule holds_at.held_tuple [OF held_tuple.hyps(1)])
    fix i assume i: "i < length ts"
    note p = byte_size_parts(6) [OF assms(1) i]
    show "holds_at DL c (off + field_offset DL ts i) (vs ! i) (ts ! i)"
      by (rule held_tuple.IH [OF i]) (use held_tuple.prems i p in \<open>auto simp: list_all_length\<close>)
  qed
next
  case (held_array vs off t)
  show ?case
  proof (rule holds_at.held_array [OF held_array.hyps(1)])
    fix i assume i: "i < length vs"
    note p = array_element_inside [OF i, of "GetTypeByteSize DL t"]
    show "holds_at DL c (off + getIndexedOffsetInType DL (ConvertToLlvmType t) i) (vs ! i) t"
      by (rule held_array.IH [OF i]) (use held_array.prems i p in \<open>auto simp: byte_size_parts(3,4) [OF assms(1)]\<close>)
  qed
qed (rule held_token)

lemma holds_local: "layout_spec DL \<Longrightarrow> narrow_type t \<Longrightarrow> local_to off (GetTypeByteSize DL t) (\<lambda>b. holds_at DL b off v t)"
  unfolding local_to_def by (intro allI impI iffI; elim conjE) (erule holds_frame [rotated]; simp)+

section \<open>Reading\<close>

lemma all_of_map: "length vs = n \<Longrightarrow> (\<And>i. i < n \<Longrightarrow> f i = Some (vs ! i)) \<Longrightarrow> all_of (map f [0..<n]) = Some vs"
proof (induction vs arbitrary: f n)
  case (Cons v vs)
  then obtain m where m: "n = Suc m" "length vs = m" by auto
  have "all_of (map (\<lambda>i. f (Suc i)) [0..<m]) = Some vs"
    using Cons.IH [OF m(2), of "\<lambda>i. f (Suc i)"] Cons.prems(2) m(1) by fastforce
  then show ?case using Cons.prems(2) [of 0] by (simp add: m(1) upt_conv_Cons map_Suc_upt [symmetric] comp_def del: upt_Suc)
qed simp

lemma unpack_tuple_eq:
  assumes "length vs = length ts" "\<And>i. i < length ts \<Longrightarrow> UnpackBufferInternal DL buf (off + field_offset DL all (k + i)) (ts ! i) = Some (vs ! i)"
  shows "unpack_tuple DL buf off all k ts = Some vs"
  using assms
proof (induction ts arbitrary: vs k)
  case (Cons t ts)
  obtain w ws where vs: "vs = w # ws" using Cons.prems(1) by (cases vs) auto
  have "unpack_tuple DL buf off all (Suc k) ts = Some ws"
  proof (rule Cons.IH)
    show "UnpackBufferInternal DL buf (off + field_offset DL all (Suc k + i)) (ts ! i) = Some (ws ! i)" if "i < length ts" for i
      using Cons.prems(2) [of "Suc i"] that by (simp add: vs)
  qed (use Cons.prems(1) vs in simp)
  then show ?case using Cons.prems(2) [of 0] by (simp add: vs)
qed simp

lemma Unpack_holds: "holds_at DL buf off v t \<Longrightarrow> has_type v t \<Longrightarrow> UnpackBufferInternal DL buf off t = Some v"
proof (induction rule: holds_at.induct)
  case (held_tuple vs ts off)
  have "unpack_tuple DL buf off ts 0 ts = Some vs"
    using held_tuple.hyps(1) held_tuple.IH held_tuple.prems by (intro unpack_tuple_eq) (auto simp: list_all2_conv_all_nth)
  then show ?case by simp
next
  case (held_array vs off t)
  have "all_of (map (\<lambda>i. UnpackBufferInternal DL buf (off + getIndexedOffsetInType DL (ConvertToLlvmType t) i) t) [0..<length vs]) = Some vs"
    using held_array.IH held_array.prems by (intro all_of_map) (auto simp: list_all_length)
  then show ?case using held_array.hyps(1) ArrayOf_Inr [OF held_array.prems] by (simp add: Value_ArrayOrDie_def value_of_def)
qed simp_all

section \<open>The runtime's writer\<close>

lemma good_write_cong: "(\<And>buf. off + n \<le> length buf \<Longrightarrow> f buf = g buf) \<Longrightarrow> good_write off n g Q \<Longrightarrow> good_write off n f Q"
  unfolding good_write_def by simp

lemma good_write_mono: "good_write off n f Q \<Longrightarrow> (\<And>b. Q b \<Longrightarrow> R b) \<Longrightarrow> good_write off n f R"
  unfolding good_write_def by metis

lemma FromBytes_bits:
  assumes "bm_wf b" "length bytes = CeilOfRatio_nat (Bits_bit_count b) 8"
    and "\<And>k. k < Bits_bit_count b \<Longrightarrow> bit (bytes ! (k div 8)) (k mod 8) = bm_bits b ! k"
  shows "Bits_FromBytes bytes (Bits_bit_count b) = Some b"
proof -
  obtain c where c: "Bits_FromBytes bytes (Bits_bit_count b) = Some c" "bm_wf c" "Bits_bit_count c = Bits_bit_count b"
      "bm_bits c = map (\<lambda>k. bit (bytes ! (k div 8)) (k mod 8)) [0..<Bits_bit_count b]"
    using FromBytes_correct [OF assms(2)] by blast
  have "bm_bits c = bm_bits b" using assms(3) c(4) by (intro nth_equalityI) (simp_all del: bm_bits_nth)
  then show ?thesis using c(1-3) assms(1) by (simp add: bm_eqI)
qed

lemma bit_mask_byte: "r \<le> 8 \<Longrightarrow> bit (ucast (Mask r) :: u8) j \<longleftrightarrow> j < r"
  by (auto simp: bit_ucast_iff bit_Mask)

lemma holds_bits:
  assumes "bm_wf b" "off + CeilOfRatio_nat (Bits_bit_count b) 8 \<le> length buf"
    and "\<And>k. k < Bits_bit_count b \<Longrightarrow> bit (buf ! (off + k div 8)) (k mod 8) = bit (Bits_ToBytes b ! (k div 8)) (k mod 8)"
  shows "holds_at DL buf off (Value_Bits b) (BitsType (Bits_bit_count b))"
proof (rule held_bits)
  let ?m = "CeilOfRatio_nat (Bits_bit_count b) 8"
  show "load buf off ?m = Some (take ?m (drop off buf))" using assms(2) by (simp add: load_def)
  show "Bits_FromBytes (take ?m (drop off buf)) (Bits_bit_count b) = Some b"
  proof (rule FromBytes_bits [OF assms(1)])
    show "bit (take ?m (drop off buf) ! (k div 8)) (k mod 8) = bm_bits b ! k" if "k < Bits_bit_count b" for k
    proof -
      have "k div 8 < ?m" using that by (simp add: CeilOfRatio_nat_eq)
      then show ?thesis using assms(2,3) that ToBytes_bit [OF assms(1) that] by (simp del: bm_bits_nth)
    qed
  qed (use assms(2) in simp)
qed

lemma ceil_eighth: "r \<noteq> 0 \<Longrightarrow> r < 8 \<Longrightarrow> (8 * q + r + 7) div 8 = q + 1" for q r :: nat
  by (intro div_nat_eqI) auto

lemma blit_bits_good:
  assumes "isLittleEndian DL" "bm_wf b" "CeilOfRatio_nat (Bits_bit_count b) 8 \<le> n"
  shows "good_write off n (blit_bits DL b off) (\<lambda>buf. holds_at DL buf off (Value_Bits b) (BitsType (Bits_bit_count b)))"
  unfolding good_write_def
proof (intro allI impI)
  fix buf :: "u8 list"
  assume l: "off + n \<le> length buf"
  let ?c = "Bits_bit_count b" and ?m = "CeilOfRatio_nat (Bits_bit_count b) 8"
  have lt: "length (Bits_ToBytes b) = ?m" by (rule length_ToBytes [OF assms(2)])
  obtain x where x: "store buf off (Bits_ToBytes b) = Some x" "length x = length buf" "\<And>k. k < off \<or> off + ?m \<le> k \<Longrightarrow> x ! k = buf ! k"
      "\<And>k. k < ?m \<Longrightarrow> x ! (off + k) = Bits_ToBytes b ! k"
    using store_bytes [of off "Bits_ToBytes b" buf] l assms(3) lt by auto
  have km: "k div 8 < ?m" if "k < ?c" for k using that by (simp add: CeilOfRatio_nat_eq)
  show "\<exists>buf'. blit_bits DL b off buf = Some buf' \<and> length buf' = length buf \<and> (\<forall>k. k < off \<or> off + n \<le> k \<longrightarrow> buf' ! k = buf ! k) \<and>
      holds_at DL buf' off (Value_Bits b) (BitsType ?c)"
  proof (cases "?c mod 8 = 0")
    case True
    have "blit_bits DL b off buf = Some x" using assms(1) x(1) True by (simp add: blit_bits_def Let_def)
    moreover have "holds_at DL x off (Value_Bits b) (BitsType ?c)" using assms x(2,4) l km by (intro holds_bits) auto
    ultimately show ?thesis using x(2,3) assms(3) by auto
  next
    case False
    let ?i = "off + ?m - 1"
    have m: "0 < ?m" "?c = 8 * (?m - 1) + ?c mod 8" 
    proof -
      have "?m = (?c + 7) div 8" by (simp add: CeilOfRatio_nat_eq)
      also have "\<dots> = ?c div 8 + 1" using ceil_eighth [of "?c mod 8" "?c div 8"] False by simp
      finally have "?m = ?c div 8 + 1" .
      then show "0 < ?m" "?c = 8 * (?m - 1) + ?c mod 8" by simp_all
    qed
    have li: "?i + 1 \<le> length x" using l x(2) assms(3) m(1) by linarith
    obtain y where y: "store x ?i [x ! ?i AND ucast (Mask (?c mod 8))] = Some y" "length y = length x" "\<And>k. k < ?i \<or> ?i + 1 \<le> k \<Longrightarrow> y ! k = x ! k"
        "y ! ?i = x ! ?i AND ucast (Mask (?c mod 8))"
      using store_bytes [of ?i "[x ! ?i AND ucast (Mask (?c mod 8))]" x] li by auto
    have "blit_bits DL b off buf = Some y" using assms(1) x(1) y(1) False by (simp add: blit_bits_def Let_def)
    moreover have "holds_at DL y off (Value_Bits b) (BitsType ?c)"
    proof (rule holds_bits [OF assms(2)])
      show "off + ?m \<le> length y" using l assms(3) x(2) y(2) by simp
      show "bit (y ! (off + k div 8)) (k mod 8) = bit (Bits_ToBytes b ! (k div 8)) (k mod 8)" if k: "k < ?c" for k
      proof (cases "k div 8 = ?m - 1")
        case True
        then have "k mod 8 < ?c mod 8" using k m(2) by (metis add_less_cancel_left div_mult_mod_eq mult.commute)
        then have "bit (ucast (Mask (?c mod 8)) :: u8) (k mod 8)" using bit_mask_byte [of "?c mod 8" "k mod 8"] by simp
        moreover have "off + k div 8 = ?i" using True m(1) by simp
        ultimately show ?thesis using y(4) x(4) [of "k div 8"] km [OF k] by (simp add: bit_and_iff)
      next
        case neq: False
        then have "off + k div 8 < ?i" using km [OF k] by linarith
        then show ?thesis using y(3) x(4) [OF km [OF k]] by simp
      qed
    qed
    moreover have "\<forall>k. k < off \<or> off + n \<le> k \<longrightarrow> y ! k = buf ! k"
    proof (intro allI impI)
      fix k assume "k < off \<or> off + n \<le> k"
      then have "k < ?i \<or> ?i + 1 \<le> k" "k < off \<or> off + ?m \<le> k" using assms(3) m(1) by linarith+
      then show "y ! k = buf ! k" using y(3) x(3) by metis
    qed
    ultimately show ?thesis using x(2) y(2) by auto
  qed
qed

lemma map_upt_Suc: "map f [0..<Suc n] = f 0 # map (\<lambda>i. f (Suc i)) [0..<n]"
  by (simp add: upt_conv_Cons map_Suc_upt [symmetric] comp_def del: upt_Suc)

lemma blit_array_run:
  assumes "\<And>v o1. v \<in> set vs \<Longrightarrow> good_write o1 s (BlitValueToBufferInternal DL v t o1) (Q v o1)" "off + length vs * s \<le> length buf"
  shows "blit_array DL s t vs off buf = run_all (map (\<lambda>i. BlitValueToBufferInternal DL (vs ! i) t (off + i * s)) [0..<length vs]) buf"
  using assms
proof (induction vs arbitrary: off buf)
  case (Cons v vs)
  have "off + s \<le> length buf" using Cons.prems(2) by simp
  then obtain b where b: "BlitValueToBufferInternal DL v t off buf = Some b" "length b = length buf"
    using good_writeD [OF Cons.prems(1) [of v off]] by (metis list.set_intros(1))
  have "blit_array DL s t vs (off + s) b = run_all (map (\<lambda>i. BlitValueToBufferInternal DL (vs ! i) t (off + s + i * s)) [0..<length vs]) b"
    using Cons.prems b(2) by (intro Cons.IH) auto
  then show ?case using b \<open>off + s \<le> length buf\<close> by (simp add: map_upt_Suc add.assoc del: upt_Suc)
qed simp

lemma blit_tuple_run:
  assumes "\<And>v j o1. j < length vs \<Longrightarrow> good_write o1 (GetTypeByteSize DL (ts ! (i + j))) (BlitValueToBufferInternal DL (vs ! j) (ts ! (i + j)) o1) (Q j o1)"
    and "i + length vs = length ts"
    and "\<And>j. j < length vs \<Longrightarrow> off + field_offset DL ts (i + j) + GetTypeByteSize DL (ts ! (i + j)) \<le> length buf"
  shows "blit_tuple DL ts i vs off buf =
    run_all (map (\<lambda>j. BlitValueToBufferInternal DL (vs ! j) (ts ! (i + j)) (off + field_offset DL ts (i + j))) [0..<length vs]) buf"
  using assms
proof (induction vs arbitrary: i Q buf)
  case (Cons v vs)
  have l: "off + field_offset DL ts i + GetTypeByteSize DL (ts ! i) \<le> length buf" using Cons.prems(3) [of 0] by simp
  have "good_write (off + field_offset DL ts i) (GetTypeByteSize DL (ts ! i)) (BlitValueToBufferInternal DL v (ts ! i) (off + field_offset DL ts i)) (Q 0 (off + field_offset DL ts i))"
    using Cons.prems(1) [of 0] by simp
  then obtain b where b: "BlitValueToBufferInternal DL v (ts ! i) (off + field_offset DL ts i) buf = Some b" "length b = length buf"
    using good_writeD l by metis
  have "blit_tuple DL ts (Suc i) vs off b =
      run_all (map (\<lambda>j. BlitValueToBufferInternal DL (vs ! j) (ts ! (Suc i + j)) (off + field_offset DL ts (Suc i + j))) [0..<length vs]) b"
  proof (rule Cons.IH)
    show "good_write o1 (GetTypeByteSize DL (ts ! (Suc i + j))) (BlitValueToBufferInternal DL (vs ! j) (ts ! (Suc i + j)) o1) (Q (Suc j) o1)" if "j < length vs" for j o1
      using Cons.prems(1) [of "Suc j" o1] that by simp
    show "off + field_offset DL ts (Suc i + j) + GetTypeByteSize DL (ts ! (Suc i + j)) \<le> length b" if "j < length vs" for j
      using Cons.prems(3) [of "Suc j"] that b(2) by simp
  qed (use Cons.prems(2) in simp)
  then show ?case using b l Cons.prems(2) by (simp add: map_upt_Suc del: upt_Suc)
qed simp

lemma array_writes:
  assumes spec: "layout_spec DL" and "narrow_type t" "vs \<noteq> []"
    and "\<And>i o1. i < length vs \<Longrightarrow> good_write o1 (GetTypeByteSize DL t) (f i o1) (\<lambda>b. holds_at DL b o1 (vs ! i) t)"
  shows "good_write off (GetTypeByteSize DL (ArrayType (length vs) t)) (run_all (map (\<lambda>i. f i (off + i * GetTypeByteSize DL t)) [0..<length vs]))
    (\<lambda>b. holds_at DL b off (Value_Array vs) (ArrayType (length vs) t))"
proof (rule good_write_mono)
  let ?s = "GetTypeByteSize DL t" and ?fs = "map (\<lambda>i. f i (off + i * GetTypeByteSize DL t)) [0..<length vs]"
  show "good_write off (GetTypeByteSize DL (ArrayType (length vs) t)) (run_all ?fs) (\<lambda>b. \<forall>i < length ?fs. holds_at DL b (off + i * ?s) (vs ! i) t)"
  proof (rule run_all_good)
    show "good_write (off + i * ?s) ?s (?fs ! i) (\<lambda>b. holds_at DL b (off + i * ?s) (vs ! i) t) \<and>
        local_to (off + i * ?s) ?s (\<lambda>b. holds_at DL b (off + i * ?s) (vs ! i) t)" if "i < length ?fs" for i
      using assms(4) [of i "off + i * ?s"] holds_local [OF spec assms(2)] that by simp
    show "off + i * ?s + ?s \<le> off + j * ?s" if "i < j" for i j using array_element_inside [OF that, of ?s] by simp
    show "off \<le> off + i * ?s \<and> off + i * ?s + ?s \<le> off + GetTypeByteSize DL (ArrayType (length vs) t)" if "i < length ?fs" for i
      using array_element_inside [of i "length vs" ?s] that by (simp add: byte_size_parts(3) [OF spec])
  qed
  show "holds_at DL b off (Value_Array vs) (ArrayType (length vs) t)" if "\<forall>i < length ?fs. holds_at DL b (off + i * ?s) (vs ! i) t" for b
    using that by (intro held_array [OF assms(3)]) (simp add: byte_size_parts(4) [OF spec])
qed

lemma tuple_writes:
  assumes spec: "layout_spec DL" and "list_all narrow_type ts" "length vs = length ts"
    and "\<And>i o1. i < length ts \<Longrightarrow> good_write o1 (GetTypeByteSize DL (ts ! i)) (f i o1) (\<lambda>b. holds_at DL b o1 (vs ! i) (ts ! i))"
  shows "good_write off (GetTypeByteSize DL (TupleType ts)) (run_all (map (\<lambda>i. f i (off + field_offset DL ts i)) [0..<length ts]))
    (\<lambda>b. holds_at DL b off (Value_Tuple vs) (TupleType ts))"
proof (rule good_write_mono)
  let ?o = "\<lambda>i. off + field_offset DL ts i" and ?fs = "map (\<lambda>i. f i (off + field_offset DL ts i)) [0..<length ts]"
  show "good_write off (GetTypeByteSize DL (TupleType ts)) (run_all ?fs) (\<lambda>b. \<forall>i < length ?fs. holds_at DL b (?o i) (vs ! i) (ts ! i))"
  proof (rule run_all_good [where ?n1.0 = "\<lambda>i. GetTypeByteSize DL (ts ! i)"])
    show "good_write (?o i) (GetTypeByteSize DL (ts ! i)) (?fs ! i) (\<lambda>b. holds_at DL b (?o i) (vs ! i) (ts ! i)) \<and>
        local_to (?o i) (GetTypeByteSize DL (ts ! i)) (\<lambda>b. holds_at DL b (?o i) (vs ! i) (ts ! i))" if "i < length ?fs" for i
      using assms(4) [of i "?o i"] holds_local [OF spec, of "ts ! i"] assms(2) that by (simp add: list_all_length)
    show "?o i + GetTypeByteSize DL (ts ! i) \<le> ?o j" if "i < j" "j < length ?fs" for i j
      using byte_size_parts(5) [OF spec that(1), of ts] that(2) by simp
    show "off \<le> ?o i \<and> ?o i + GetTypeByteSize DL (ts ! i) \<le> off + GetTypeByteSize DL (TupleType ts)" if "i < length ?fs" for i
      using byte_size_parts(6) [OF spec, of i ts] that by simp
  qed
  show "holds_at DL b off (Value_Tuple vs) (TupleType ts)" if "\<forall>i < length ?fs. holds_at DL b (?o i) (vs ! i) (ts ! i)" for b
    using that by (intro held_tuple [OF assms(3)]) simp
qed

lemma Blit_good:
  assumes "layout_spec DL"
  shows "has_type v t \<Longrightarrow> narrow_type t \<Longrightarrow> good_write off (GetTypeByteSize DL t) (BlitValueToBufferInternal DL v t off) (\<lambda>b. holds_at DL b off v t)"
proof (induction v arbitrary: t off)
  case (Value_Bits b)
  then obtain n where t: "t = BitsType n" "bm_wf b" "Bits_bit_count b = n" by (auto elim: has_type_valueE(1))
  then show ?case using blit_bits_good [of DL b "GetTypeByteSize DL t" off] byte_size_parts(1) [OF assms, of n] assms Value_Bits.prems(2)
    by (simp add: layout_spec_def)
next
  case (Value_Tuple vs)
  then obtain ts where t: "t = TupleType ts" "list_all2 has_type vs ts" by (auto elim: has_type_valueE(2))
  have l: "length vs = length ts" "list_all narrow_type ts" using t Value_Tuple.prems(2) by (auto dest: list_all2_lengthD)
  have each: "good_write o1 (GetTypeByteSize DL (ts ! i)) (BlitValueToBufferInternal DL (vs ! i) (ts ! i) o1) (\<lambda>b. holds_at DL b o1 (vs ! i) (ts ! i))"
    if "i < length ts" for i o1
    using Value_Tuple.IH [of "vs ! i" "ts ! i" o1] that t(2) l by (simp add: list_all2_conv_all_nth list_all_length)
  show ?case unfolding t(1)
  proof (rule good_write_cong [OF _ tuple_writes [OF assms l(2,1) each]])
    fix buf :: "u8 list" assume "off + GetTypeByteSize DL (TupleType ts) \<le> length buf"
    then show "BlitValueToBufferInternal DL (Value_Tuple vs) (TupleType ts) off buf =
        run_all (map (\<lambda>i. BlitValueToBufferInternal DL (vs ! i) (ts ! i) (off + field_offset DL ts i)) [0..<length ts]) buf"
      using blit_tuple_run [of vs DL ts 0 "\<lambda>j o1 b. holds_at DL b o1 (vs ! j) (ts ! j)" off buf] each l(1) byte_size_parts(6) [OF assms, of _ ts]
      by (simp add: add.assoc) (meson add_le_mono le_refl le_trans)
  qed
next
  case (Value_Array vs)
  then obtain n u where t: "t = ArrayType n u" "vs \<noteq> []" "length vs = n" "list_all (\<lambda>v. has_type v u) vs" by (auto elim: has_type_valueE(3))
  have each: "good_write o1 (GetTypeByteSize DL u) (BlitValueToBufferInternal DL v u o1) (\<lambda>b. holds_at DL b o1 v u)" if "v \<in> set vs" for v o1
    using Value_Array.IH [OF that, of u o1] Value_Array.prems(2) t(1,4) that by (simp add: list_all_iff)
  show ?case unfolding t(1) t(3) [symmetric]
  proof (rule good_write_cong [OF _ array_writes [OF assms _ t(2)]])
    fix buf :: "u8 list" assume "off + GetTypeByteSize DL (ArrayType (length vs) u) \<le> length buf"
    then show "BlitValueToBufferInternal DL (Value_Array vs) (ArrayType (length vs) u) off buf =
        run_all (map (\<lambda>i. BlitValueToBufferInternal DL (vs ! i) u (off + i * GetTypeByteSize DL u)) [0..<length vs]) buf"
      using blit_array_run [where off = off and buf = buf, OF each] by (simp add: byte_size_parts(3) [OF assms])
  qed (use each Value_Array.prems(2) t(1) in auto)
next
  case Value_Token
  then show ?case by (simp add: good_write_def held_token)
qed simp

section \<open>The table's writer\<close>

fun leaves :: "Value \<Rightarrow> Value list" where
  "leaves (Value_Tuple vs) = concat (map leaves vs)"
| "leaves (Value_Array vs) = concat (map leaves vs)"
| "leaves v = [v]"

fun solid :: "Value \<Rightarrow> bool" where
  "solid (Value_Tuple vs) = list_all solid vs"
| "solid (Value_Array vs) = list_all solid vs"
| "solid Value_Invalid = False"
| "solid v = True"

lemma has_type_solid: "has_type v t \<Longrightarrow> solid v"
proof (induction v arbitrary: t)
  case (Value_Tuple vs)
  then obtain ts where "list_all2 has_type vs ts" by (auto elim: has_type_valueE(2))
  then have "solid (vs ! n)" if "n < length vs" for n using Value_Tuple.IH [of "vs ! n" "ts ! n"] that by (simp add: list_all2_conv_all_nth)
  then show ?case by (simp add: list_all_length)
next
  case (Value_Array vs)
  then obtain u where "list_all (\<lambda>v. has_type v u) vs" by (auto elim: has_type_valueE(3))
  then show ?case using Value_Array.IH by (auto simp: list_all_iff)
qed simp_all

definition stack_leaves :: "(Value list \<times> nat) list \<Rightarrow> Value list" where
  "stack_leaves stack = concat (map (\<lambda>(vs, i). concat (map leaves (drop i vs))) stack)"

lemma stack_leaves_simps [simp]:
  "stack_leaves [] = []" "stack_leaves ((vs, i) # st) = concat (map leaves (drop i vs)) @ stack_leaves st"
  by (simp_all add: stack_leaves_def)

lemma leaf_leaves: "IsLeafValue v \<Longrightarrow> leaves v = [v]"
  by (cases v) auto

lemma solid_elements: "solid v \<Longrightarrow> \<not> IsLeafValue v \<Longrightarrow> \<exists>es. Value_elements v = Some es \<and> leaves v = concat (map leaves es) \<and> list_all solid es"
  by (cases v) auto

lemma native_loop_eq:
  "list_all (\<lambda>(vs, i). list_all solid vs) stack \<Longrightarrow> l + length (stack_leaves stack) \<le> length els \<Longrightarrow>
   native_loop els stack l buf = map_option (Pair (l + length (stack_leaves stack))) (run_all (map2 LeafValueToNativeLayout (stack_leaves stack) (drop l els)) buf)"
proof (induction els stack l buf rule: native_loop.induct)
  case (2 els vs i st l buf)
  show ?case
  proof (cases "i \<ge> length vs")
    case True
    then show ?thesis using 2(1) "2.prems" by simp
  next
    case i: False
    then have d: "drop i vs = vs ! i # drop (Suc i) vs" by (simp add: Cons_nth_drop_Suc)
    have s: "solid (vs ! i)" using "2.prems"(1) i by (simp add: list_all_length [of solid])
    show ?thesis
    proof (cases "IsLeafValue (vs ! i)")
      case True
      have l: "l < length els" using "2.prems"(2) i d leaf_leaves [OF True] by simp
      then have de: "drop l els = els ! l # drop (Suc l) els" by (simp add: Cons_nth_drop_Suc)
      show ?thesis
      proof (cases "LeafValueToNativeLayout (vs ! i) (els ! l) buf")
        case None
        then show ?thesis using i True l d de leaf_leaves [OF True] by simp
      next
        case (Some b)
        have "native_loop els ((vs, Suc i) # st) (Suc l) b = map_option (Pair (Suc l + length (stack_leaves ((vs, Suc i) # st))))
            (run_all (map2 LeafValueToNativeLayout (stack_leaves ((vs, Suc i) # st)) (drop (Suc l) els)) b)"
          by (rule 2(2)) (use i True l Some "2.prems" d leaf_leaves [OF True] in auto)
        then show ?thesis using i True l Some d de leaf_leaves [OF True] by simp
      qed
    next
      case False
      obtain es where es: "Value_elements (vs ! i) = Some es" "leaves (vs ! i) = concat (map leaves es)" "list_all solid es" using solid_elements [OF s False] by blast
      have "stack_leaves ((es, 0) # (vs, Suc i) # st) = stack_leaves ((vs, i) # st)" using d es(2) by simp
      moreover have "native_loop els ((vs, i) # st) l buf = native_loop els ((es, 0) # (vs, Suc i) # st) l buf" using i False es(1) by simp
      moreover have "native_loop els ((es, 0) # (vs, Suc i) # st) l buf = map_option (Pair (l + length (stack_leaves ((es, 0) # (vs, Suc i) # st))))
          (run_all (map2 LeafValueToNativeLayout (stack_leaves ((es, 0) # (vs, Suc i) # st)) (drop l els)) buf)"
        by (rule 2(3) [OF i False es(1)]) (use "2.prems" es(2,3) d in simp_all)
      ultimately show ?thesis by presburger
    qed
  qed
qed simp

lemma length_leaves: "has_type v t \<Longrightarrow> length (leaves v) = Type_leaf_count t"
proof (induction v arbitrary: t)
  case (Value_Tuple vs)
  then obtain ts where t: "t = TupleType ts" "list_all2 has_type vs ts" by (auto elim: has_type_valueE(2))
  have "map (length \<circ> leaves) vs = map Type_leaf_count ts"
    using t(2) Value_Tuple.IH by (intro nth_equalityI) (auto simp: list_all2_conv_all_nth)
  then show ?case by (simp add: t(1) length_concat comp_def)
next
  case (Value_Array vs)
  then obtain n u where t: "t = ArrayType n u" "length vs = n" "list_all (\<lambda>v. has_type v u) vs" by (auto elim: has_type_valueE(3))
  have "map (length \<circ> leaves) vs = replicate n (Type_leaf_count u)"
    using t(2,3) Value_Array.IH by (intro nth_equalityI) (auto simp: list_all_length)
  then show ?case by (simp add: t(1) length_concat comp_def sum_list_replicate)
qed (auto elim: has_type_valueE(1))

lemma tuple_layouts_eq: "tuple_layouts DL all k ts off = concat (map (\<lambda>i. ComputeElementLayouts DL (ts ! i) (off + field_offset DL all (k + i))) [0..<length ts])"
  by (induction ts arbitrary: k) (simp_all add: map_upt_Suc del: upt_Suc)

lemma length_layouts: "length (ComputeElementLayouts DL t off) = Type_leaf_count t"
proof (induction t arbitrary: off)
  case (TupleType ts)
  have "map (\<lambda>i. length (ComputeElementLayouts DL (ts ! i) (off + field_offset DL ts i))) [0..<length ts] = map Type_leaf_count ts"
    using TupleType.IH by (intro nth_equalityI) auto
  then show ?case by (simp add: tuple_layouts_eq length_concat comp_def del: upt_Suc)
next
  case (ArrayType n t)
  then show ?case by (simp add: length_concat comp_def map_replicate_const sum_list_replicate)
qed simp_all

lemma map2_concat: "list_all2 (\<lambda>xs ys. length xs = length ys) xss yss \<Longrightarrow> map2 f (concat xss) (concat yss) = concat (map2 (map2 f) xss yss)"
  by (induction rule: list_all2_induct) (simp_all add: zip_append)

lemma leaf_bits_good:
  assumes "bm_wf b" "CeilOfRatio_nat (Bits_bit_count b) 8 \<le> p"
  shows "good_write off p (LeafValueToNativeLayout (Value_Bits b) \<lparr>el_offset = off, el_data_size = CeilOfRatio_nat (Bits_bit_count b) 8, el_padded_size = p\<rparr>)
    (\<lambda>buf. holds_at DL buf off (Value_Bits b) (BitsType (Bits_bit_count b)))"
  unfolding good_write_def
proof (intro allI impI)
  fix buf :: "u8 list"
  assume l: "off + p \<le> length buf"
  let ?c = "Bits_bit_count b" and ?m = "CeilOfRatio_nat (Bits_bit_count b) 8"
  have lt: "length (Bits_ToBytes b) = ?m" by (rule length_ToBytes [OF assms(1)])
  obtain x where x: "store buf off (Bits_ToBytes b) = Some x" "length x = length buf" "\<And>k. k < off \<or> off + ?m \<le> k \<Longrightarrow> x ! k = buf ! k"
      "\<And>k. k < ?m \<Longrightarrow> x ! (off + k) = Bits_ToBytes b ! k"
    using store_bytes [of off "Bits_ToBytes b" buf] l assms(2) lt by auto
  obtain y where y: "store x (off + ?m) (replicate (p - ?m) 0) = Some y" "length y = length x"
      "\<And>k. k < off + ?m \<or> off + ?m + (p - ?m) \<le> k \<Longrightarrow> y ! k = x ! k"
  proof -
    have "off + ?m + length (replicate (p - ?m) (0 :: u8)) \<le> length x" using l assms(2) x(2) by simp
    then show thesis using store_bytes [of "off + ?m" "replicate (p - ?m) 0" x thesis] that unfolding length_replicate by blast
  qed
  have data: "(if ?m = 0 then [] else Bits_ToBytes b) = Bits_ToBytes b" using lt by auto
  have "LeafValueToNativeLayout (Value_Bits b) \<lparr>el_offset = off, el_data_size = ?m, el_padded_size = p\<rparr> buf = Some y"
    using x(1) y(1) assms(2) data by (simp add: LeafValueToNativeLayout_def)
  moreover have "holds_at DL y off (Value_Bits b) (BitsType ?c)"
  proof (rule holds_bits [OF assms(1)])
    show "off + ?m \<le> length y" using l assms(2) x(2) y(2) by simp
    show "bit (y ! (off + k div 8)) (k mod 8) = bit (Bits_ToBytes b ! (k div 8)) (k mod 8)" if k: "k < ?c" for k
    proof -
      have "k div 8 < ?m" using k by (simp add: CeilOfRatio_nat_eq)
      then show ?thesis using y(3) x(4) by simp
    qed
  qed
  moreover have "\<forall>k. k < off \<or> off + p \<le> k \<longrightarrow> y ! k = buf ! k"
  proof (intro allI impI)
    fix k assume "k < off \<or> off + p \<le> k"
    then have "k < off + ?m \<or> off + ?m + (p - ?m) \<le> k" "k < off \<or> off + ?m \<le> k" using assms(2) by linarith+
    then show "y ! k = buf ! k" using y(3) x(3) by metis
  qed
  ultimately show "\<exists>buf'. LeafValueToNativeLayout (Value_Bits b) \<lparr>el_offset = off, el_data_size = ?m, el_padded_size = p\<rparr> buf = Some buf' \<and>
      length buf' = length buf \<and> (\<forall>k. k < off \<or> off + p \<le> k \<longrightarrow> buf' ! k = buf ! k) \<and> holds_at DL buf' off (Value_Bits b) (BitsType ?c)"
    using x(2) y(2) by auto
qed

lemma run_single: "run_all [f] = f"
proof
  show "run_all [f] buf = f buf" for buf by (cases "f buf") simp_all
qed

lemma native_parts:
  assumes "length xs = n" "\<And>i. i < n \<Longrightarrow> length (leaves (xs ! i)) = length (L i)"
  shows "run_all (map2 LeafValueToNativeLayout (concat (map leaves xs)) (concat (map L [0..<n]))) =
    run_all (map (\<lambda>i. run_all (map2 LeafValueToNativeLayout (leaves (xs ! i)) (L i))) [0..<n])"
proof -
  have "map2 LeafValueToNativeLayout (concat (map leaves xs)) (concat (map L [0..<n])) =
      concat (map2 (map2 LeafValueToNativeLayout) (map leaves xs) (map L [0..<n]))"
    using assms by (intro map2_concat) (auto simp: list_all2_conv_all_nth)
  moreover have "map run_all (map2 (map2 LeafValueToNativeLayout) (map leaves xs) (map L [0..<n])) =
      map (\<lambda>i. run_all (map2 LeafValueToNativeLayout (leaves (xs ! i)) (L i))) [0..<n]"
    using assms(1) by (intro nth_equalityI) auto
  ultimately show ?thesis by (simp only: run_all_concat)
qed

lemma Native_good:
  assumes "layout_spec DL"
  shows "has_type v t \<Longrightarrow> narrow_type t \<Longrightarrow>
    good_write off (GetTypeByteSize DL t) (run_all (map2 LeafValueToNativeLayout (leaves v) (ComputeElementLayouts DL t off))) (\<lambda>b. holds_at DL b off v t)"
proof (induction v arbitrary: t off)
  case (Value_Bits b)
  then obtain n where t: "t = BitsType n" "bm_wf b" "Bits_bit_count b = n" by (auto elim: has_type_valueE(1))
  then show ?case using leaf_bits_good [of b "GetTypeByteSize DL t" off DL] byte_size_parts(1) [OF assms, of n] Value_Bits.prems(2)
    by (simp add: run_single)
next
  case (Value_Tuple vs)
  then obtain ts where t: "t = TupleType ts" "list_all2 has_type vs ts" by (auto elim: has_type_valueE(2))
  have l: "length vs = length ts" "list_all narrow_type ts" using t Value_Tuple.prems(2) by (auto dest: list_all2_lengthD)
  have ty: "has_type (vs ! i) (ts ! i)" if "i < length ts" for i using t(2) that by (simp add: list_all2_conv_all_nth)
  have "length (leaves (vs ! i)) = length (ComputeElementLayouts DL (ts ! i) (off + field_offset DL ts (0 + i)))" if "i < length ts" for i
    using length_leaves [OF ty [OF that]] by (simp add: length_layouts)
  note parts = native_parts [OF l(1) this]
  have "good_write off (GetTypeByteSize DL (TupleType ts))
      (run_all (map (\<lambda>i. run_all (map2 LeafValueToNativeLayout (leaves (vs ! i)) (ComputeElementLayouts DL (ts ! i) (off + field_offset DL ts i)))) [0..<length ts]))
      (\<lambda>b. holds_at DL b off (Value_Tuple vs) (TupleType ts))"
    by (rule tuple_writes [OF assms l(2,1)]) (use Value_Tuple.IH ty l in \<open>auto simp: list_all_length\<close>)
  then show ?case using parts by (simp add: t(1) tuple_layouts_eq)
next
  case (Value_Array vs)
  then obtain n u where t: "t = ArrayType n u" "vs \<noteq> []" "length vs = n" "list_all (\<lambda>v. has_type v u) vs" by (auto elim: has_type_valueE(3))
  have ty: "has_type (vs ! i) u" if "i < length vs" for i using t(4) that by (simp add: list_all_length)
  have "length (leaves (vs ! i)) = length (ComputeElementLayouts DL u (off + getIndexedOffsetInType DL (ConvertToLlvmType u) i))" if "i < length vs" for i
    using length_leaves [OF ty [OF that]] by (simp add: length_layouts)
  note parts = native_parts [OF refl this]
  have "good_write off (GetTypeByteSize DL (ArrayType (length vs) u))
      (run_all (map (\<lambda>i. run_all (map2 LeafValueToNativeLayout (leaves (vs ! i)) (ComputeElementLayouts DL u (off + i * GetTypeByteSize DL u)))) [0..<length vs]))
      (\<lambda>b. holds_at DL b off (Value_Array vs) (ArrayType (length vs) u))"
    by (rule array_writes [OF assms _ t(2)]) (use Value_Array.IH Value_Array.prems(2) ty t(1) in auto)
  then show ?case using parts t(3) by (simp add: t(1) byte_size_parts(4) [OF assms])
next
  case Value_Token
  then have t: "t = TokenType" by simp
  have "store buf 0 [] = Some buf" for buf by (simp add: store_def)
  then show ?case by (simp add: t good_write_def LeafValueToNativeLayout_def byte_size_parts(2) [OF assms] held_token)
qed simp

lemma ValueToNativeLayout_eq:
  assumes "has_type v t"
  shows "ValueToNativeLayout \<lparr>tl_type = t, tl_size = n, tl_elements = ComputeElementLayouts DL t 0\<rparr> v buf =
    run_all (map2 LeafValueToNativeLayout (leaves v) (ComputeElementLayouts DL t 0)) buf"
proof (cases "IsLeafValue v")
  case True
  have "length (ComputeElementLayouts DL t 0) = 1" using length_leaves [OF assms] leaf_leaves [OF True] by (simp add: length_layouts)
  then obtain el where "ComputeElementLayouts DL t 0 = [el]" by (auto simp: length_Suc_conv)
  then show ?thesis using True leaf_leaves [OF True] by (simp add: ValueToNativeLayout_def run_single del: run_all.simps)
next
  case False
  obtain es where es: "Value_elements v = Some es" "leaves v = concat (map leaves es)" "list_all solid es"
    using solid_elements [OF has_type_solid [OF assms] False] by blast
  have l: "length (leaves v) = length (ComputeElementLayouts DL t 0)" using length_leaves [OF assms] by (simp add: length_layouts)
  then have "native_loop (ComputeElementLayouts DL t 0) [(es, 0)] 0 buf =
      map_option (Pair (length (leaves v))) (run_all (map2 LeafValueToNativeLayout (leaves v) (ComputeElementLayouts DL t 0)) buf)"
    using native_loop_eq [of "[(es, 0)]" 0 "ComputeElementLayouts DL t 0" buf] es(2,3) by simp
  then show ?thesis using False es(1) l
    by (cases "run_all (map2 LeafValueToNativeLayout (leaves v) (ComputeElementLayouts DL t 0)) buf") (simp_all add: ValueToNativeLayout_def)
qed

section \<open>The table's reader\<close>

lemma native_tuple_eq:
  assumes "length vs = length ts" "els = pre @ concat (map L [0..<length ts]) @ post"
    and "\<And>i pre post. i < length ts \<Longrightarrow> els = pre @ L i @ post \<Longrightarrow> NativeLayoutToValueInternal els (ts ! i) buf (length pre) = Some (vs ! i, length pre + length (L i))"
  shows "native_tuple els ts buf (length pre) = Some (vs, length pre + length (concat (map L [0..<length ts])))"
  using assms
proof (induction ts arbitrary: vs L pre)
  case (Cons t ts)
  obtain w ws where vs: "vs = w # ws" using Cons.prems(1) by (cases vs) auto
  have e: "els = pre @ L 0 @ concat (map (\<lambda>i. L (Suc i)) [0..<length ts]) @ post" using Cons.prems(2) by (simp add: map_upt_Suc del: upt_Suc)
  have "native_tuple els ts buf (length (pre @ L 0)) = Some (ws, length (pre @ L 0) + length (concat (map (\<lambda>i. L (Suc i)) [0..<length ts])))"
  proof (rule Cons.IH)
    show "NativeLayoutToValueInternal els (ts ! i) buf (length pre') = Some (ws ! i, length pre' + length (L (Suc i)))"
      if "i < length ts" "els = pre' @ L (Suc i) @ post'" for i pre' post'
      using Cons.prems(3) [of "Suc i" pre' post'] that by (simp add: vs)
  qed (use Cons.prems(1) vs e in simp_all)
  moreover have "NativeLayoutToValueInternal els t buf (length pre) = Some (w, length pre + length (L 0))"
    using Cons.prems(3) [of 0 pre] e by (simp add: vs)
  ultimately show ?case by (simp add: vs map_upt_Suc del: upt_Suc)
qed simp

lemma native_array_eq:
  assumes "els = pre @ concat (map L [0..<length vs]) @ post"
    and "\<And>i pre post. i < length vs \<Longrightarrow> els = pre @ L i @ post \<Longrightarrow> NativeLayoutToValueInternal els t buf (length pre) = Some (vs ! i, length pre + length (L i))"
  shows "native_array els (length vs) t buf (length pre) = Some (vs, length pre + length (concat (map L [0..<length vs])))"
  using assms
proof (induction vs arbitrary: L pre)
  case (Cons v vs)
  have e: "els = pre @ L 0 @ concat (map (\<lambda>i. L (Suc i)) [0..<length vs]) @ post" using Cons.prems(1) by (simp add: map_upt_Suc del: upt_Suc)
  have "native_array els (length vs) t buf (length (pre @ L 0)) = Some (vs, length (pre @ L 0) + length (concat (map (\<lambda>i. L (Suc i)) [0..<length vs])))"
  proof (rule Cons.IH)
    show "NativeLayoutToValueInternal els t buf (length pre') = Some (vs ! i, length pre' + length (L (Suc i)))"
      if "i < length vs" "els = pre' @ L (Suc i) @ post'" for i pre' post'
      using Cons.prems(2) [of "Suc i" pre' post'] that by simp
  qed (use e in simp)
  moreover have "NativeLayoutToValueInternal els t buf (length pre) = Some (v, length pre + length (L 0))"
    using Cons.prems(2) [of 0 pre] e by simp
  ultimately show ?case by (simp add: map_upt_Suc del: upt_Suc)
qed simp

lemma Native_holds:
  "holds_at DL buf off v t \<Longrightarrow> els = pre @ ComputeElementLayouts DL t off @ post \<Longrightarrow>
     NativeLayoutToValueInternal els t buf (length pre) = Some (v, length pre + length (ComputeElementLayouts DL t off))"
proof (induction arbitrary: pre post rule: holds_at.induct)
  case (held_bits off n bytes b)
  then show ?case by (simp add: nth_append)
next
  case (held_tuple vs ts off)
  have "native_tuple els ts buf (length pre) = Some (vs, length pre + length (concat (map (\<lambda>i. ComputeElementLayouts DL (ts ! i) (off + field_offset DL ts (0 + i))) [0..<length ts])))"
    by (rule native_tuple_eq [OF held_tuple.hyps(1)]) (use held_tuple.prems held_tuple.IH in \<open>auto simp: tuple_layouts_eq\<close>)
  then show ?case by (simp add: tuple_layouts_eq)
next
  case (held_array vs off t)
  have "native_array els (length vs) t buf (length pre) =
      Some (vs, length pre + length (concat (map (\<lambda>i. ComputeElementLayouts DL t (off + getIndexedOffsetInType DL (ConvertToLlvmType t) i)) [0..<length vs])))"
    by (rule native_array_eq) (use held_array.prems held_array.IH in auto)
  then show ?case by simp
qed simp

section \<open>Round trips\<close>

lemma CreateTypeLayout_eq:
  "CreateTypeLayout DL t = Some \<lparr>tl_type = t, tl_size = GetTypeByteSize DL t, tl_elements = ComputeElementLayouts DL t 0\<rparr>"
  by (simp add: CreateTypeLayout_def TypeLayout_new_def length_layouts)

lemma holds_read:
  assumes "holds_at DL buf 0 v t" "has_type v t" "CreateTypeLayout DL t = Some L"
  shows "UnpackBuffer DL buf t = Some v" "NativeLayoutToValue L buf = Some v"
proof -
  show "UnpackBuffer DL buf t = Some v" using Unpack_holds [OF assms(1,2)] by (simp add: UnpackBuffer_def)
  have "tl_elements L = ComputeElementLayouts DL t 0" "tl_type L = t" using assms(3) by (auto simp: CreateTypeLayout_eq)
  then show "NativeLayoutToValue L buf = Some v" using Native_holds [OF assms(1), of "tl_elements L" "[]" "[]"] by (simp add: NativeLayoutToValue_def)
qed

lemma writes_hold:
  assumes "layout_spec DL" "has_type v t" "narrow_type t" "CreateTypeLayout DL t = Some L" "GetTypeByteSize DL t \<le> length buf"
  obtains b c where "BlitValueToBuffer DL v t buf = Some b" "length b = length buf" "holds_at DL b 0 v t"
      "\<And>k. GetTypeByteSize DL t \<le> k \<Longrightarrow> b ! k = buf ! k"
    "ValueToNativeLayout L v buf = Some c" "length c = length buf" "holds_at DL c 0 v t"
      "\<And>k. GetTypeByteSize DL t \<le> k \<Longrightarrow> c ! k = buf ! k"
proof -
  let ?n = "GetTypeByteSize DL t"
  obtain z where z: "store buf 0 (replicate ?n 0) = Some z" "length z = length buf" "\<And>k. k < 0 \<or> 0 + ?n \<le> k \<Longrightarrow> z ! k = buf ! k"
    using store_bytes [of 0 "replicate ?n 0" buf thesis] assms(5) store_bytes [of 0 "replicate ?n 0" buf] unfolding length_replicate by (metis add_0)
  have "0 + ?n \<le> length z" "0 + ?n \<le> length buf" using assms(5) z(2) by simp_all
  obtain b where b: "BlitValueToBufferInternal DL v t 0 z = Some b" "length b = length z" "\<And>k. k < 0 \<or> 0 + ?n \<le> k \<Longrightarrow> b ! k = z ! k" "holds_at DL b 0 v t"
    using good_writeD [OF Blit_good [OF assms(1-3)] \<open>0 + ?n \<le> length z\<close>] by blast
  obtain c where c: "run_all (map2 LeafValueToNativeLayout (leaves v) (ComputeElementLayouts DL t 0)) buf = Some c" "length c = length buf"
      "\<And>k. k < 0 \<or> 0 + ?n \<le> k \<Longrightarrow> c ! k = buf ! k" "holds_at DL c 0 v t"
    using good_writeD [OF Native_good [OF assms(1-3)] \<open>0 + ?n \<le> length buf\<close>] by blast
  have "BlitValueToBuffer DL v t buf = Some b" using z(1) b(1) by (simp add: BlitValueToBuffer_def)
  moreover have "ValueToNativeLayout L v buf = Some c" using assms(4) c(1) ValueToNativeLayout_eq [OF assms(2)] by (auto simp: CreateTypeLayout_eq)
  ultimately show thesis using that b c z by simp
qed

end
