(* ===== verification/Spec2Isabelle.thy ===== *)
theory Spec2Isabelle
  imports Complex_Main Ternary_Evaluator Interval_Ternary Decision_Diagram Type_Manager Channel_Queue Number_Parser Format_Strings Name_Uniquer Jit_Layout
begin

text \<open>
  \<^bold>\<open>A verification library for the value layer of XLS.\<close>

  XLS is a toolchain for high-level synthesis: front ends produce an intermediate representation (IR) whose
  values are bit vectors of arbitrary width, arrays and tuples of them; interpreters and a JIT evaluate it, passes rewrite it with the help of
  analyses (ternary values, intervals, decision diagrams), and back ends emit Verilog. Everything above
  rests on the exactness of the values, of the operations on them and of the abstract domains. This development models those layers, from the
  word vector up, with the definitions named after the functions of the sources.

  \<^bold>\<open>Conventions.\<close> A size, width or index of type \<open>int64_t\<close> is a \<open>nat\<close>. A failed \<open>CHECK\<close>, a \<open>LOG(FATAL)\<close>, a throw or an access outside
  a container is \<open>None\<close>; an \<open>absl::StatusOr\<close> is a sum with the error code on the left, inside that option where both can happen. \<open>uint64_t\<close>, \<open>uint8_t\<close> data
  are words of that width, with their wrap-around. Texts of error messages and logging are left out, and so are \<open>DCHECK\<close>s, whose conditions
  appear as hypotheses where the result depends on them. An object is a record that the operations return updated; a mutex that is held for
  a whole operation makes operations steps of a sequence.

  \<^bold>\<open>The theories, bottom up, and the sources they model (under \<open>src/xls\<close>).\<close>

  \<^item> \<open>Xls_Prelude\<close>: names of the machine types, error codes, vectors of bits as numbers, shared lemmas and the collections \<open>bits_wf\<close>, \<open>bits_sem\<close>, \<open>bits_count\<close>.
  \<^item> \<open>Math_Util\<close>: \<open>common/math_util.{h,cc}\<close>, \<open>common/bits_util.h\<close>. Ratios, logarithms, mixed radix iteration and saturating arithmetic compute
    what their comments say.
  \<^item> \<open>Inline_Bitmap\<close>: \<open>data_structures/inline_bitmap.h\<close>. The record holds the bit count and the words. \<open>bm_wf\<close> (no bit past the count) is kept by every
    operation, and every operation is the one on the list of bits \<open>bm_bits\<close>.
  \<^item> \<open>Bits_Core\<close>, \<open>Big_Int\<close>, \<open>Bits_Ops\<close>: \<open>ir/bits.{h,cc}\<close>, \<open>ir/bit_push_buffer.h\<close>, \<open>ir/big_int.{h,cc}\<close>, \<open>ir/bits_ops.{h,cc}\<close>. One meaning (\<open>uval\<close>, \<open>sval\<close>) for the
    fast paths through \<open>uint64_t\<close> and the slow ones through bytes or OpenSSL's big numbers, which are the parameter \<open>bignum\<close> with the documented behaviour
    \<open>bignum_spec\<close>; \<open>int_bignum\<close> is an instance. The locale \<open>pointwise_op\<close> is interpreted by the five binary logical operations.
  \<^item> \<open>Ternary\<close>: \<open>ir/ternary.{h,cc}\<close>. Known and unknown bits as the set of vectors they allow, and the iterator over it.
  \<^item> \<open>Abstract_Evaluator\<close>, \<open>Evaluator_Arith\<close>, \<open>Ternary_Evaluator\<close>: \<open>ir/abstract_evaluator.h\<close>, \<open>passes/ternary_evaluator.h\<close>. The locale \<open>sound_evaluator\<close> is the
    interface of a derived evaluator; it is interpreted by booleans (exactness) and by ternary values (soundness of the analysis). The Dadda multiplier's checks
    on column heights never fail.
  \<^item> \<open>Interval_Core\<close>, \<open>Interval_Set_Core\<close>: \<open>ir/interval.{h,cc}\<close>, \<open>ir/interval_set.{h,cc}\<close>. Intervals, which may wrap, and sets of them with their flag of being normalized; the
    locale \<open>canonical_sets\<close> gives the laws of a boolean algebra on canonical representations.
  \<^item> \<open>Interval_Ops\<close>, \<open>Interval_Sound\<close>, \<open>Interval_Ternary\<close>: \<open>ir/interval_ops.{h,cc}\<close>. The locale \<open>monotone_calc\<close> carries the soundness of every operation that is monotone or antitone
    in each operand; \<open>interval_arith\<close> holds what needs the big numbers.
  \<^item> \<open>Decision_Diagram\<close>: \<open>data_structures/binary_decision_diagram.{h,cc}\<close>. The store of nodes and its two tables; the states are those reachable by
    operations. The locale \<open>canonical_store\<close> gives the boolean laws on node indices.
  \<^item> \<open>Ir_Type\<close>, \<open>Ir_Value\<close>, \<open>Type_Manager\<close>: \<open>ir/type.{h,cc}\<close>, \<open>ir/value.{h,cc}\<close>, \<open>ir/value_utils.{h,cc}\<close>, \<open>ir/value_builder.{h,cc}\<close>, \<open>ir/value_conversion_utils.cc\<close>, \<open>codegen/flattening.cc\<close>,
    \<open>ir/type_manager.{h,cc}\<close>. Values and the relation \<open>has_type\<close>; messages and packed vectors can be read back; the arena of types, where a pointer is an index
    into the objects in memory, shares pointers exactly.
  \<^item> \<open>Channel_Queue\<close>: \<open>interpreter/channel_queue.{h,cc}\<close>. A queue with its generator, and the collection of queues. Sequences of writes, reads and attachments, by any threads,
    are runs of \<open>channel_step\<close>; a crash ends the run. The locale \<open>fifo\<close> is the contract of a first in, first out queue.
  \<^item> \<open>Number_Parser\<close>, \<open>Format_Strings\<close>, \<open>Name_Uniquer\<close>: \<open>common/string_to_int.cc\<close>, \<open>ir/number_parser.{h,cc}\<close>, \<open>ir/format_preference.cc\<close>, \<open>ir/format_strings.{h,cc}\<close>, \<open>ir/name_uniquer.{h,cc}\<close>. The texts of the IR:
    literals, formats and names.
  \<^item> \<open>Jit_Layout\<close>: \<open>jit/llvm_type_converter.cc\<close>, \<open>jit/jit_runtime.cc\<close>, \<open>jit/type_layout.{h,cc}\<close>. Values in memory. LLVM's data layout is a parameter with the laws
    \<open>layout_spec\<close>; \<open>packed_layout\<close> is an instance.

  \<^bold>\<open>How the parts interact.\<close> \<open>Bits\<close> is the bitmap; \<open>bits_ops\<close> calls \<open>BigInt\<close>; the ternary and interval analyses are stated against \<open>bits_ops\<close>, and the interval operations pass
  through ternary vectors and back; values hold \<open>Bits\<close>, types are compared and shared by the arena; channel queues test the types of values; the JIT's buffers and the number
  parser go through the byte conversions and the arithmetic of \<open>Bits\<close>.

  \<^bold>\<open>What is in this theory.\<close> The properties of the components, in the order of the theories: arithmetic against the integers, bitmaps and machine integers,
  ternary soundness, interval sets and their operations, decision diagrams, values and types, channels, texts, and memory layout. A property with hypotheses is followed by
  its use at a concrete input.

  \<^bold>\<open>Loops and recursion.\<close> Loops whose end is not structural are defined by \<open>partial_function (option)\<close>, where not ending is \<open>None\<close>, and shown to return: the
  power-of-two factorization, the multiplier's heights, the iterator, \<open>Intersect\<close>, \<open>ForEachElement\<close>, and the recursions of the decision diagram. \<open>MapType_fuel\<close> recurses through
  pointers of another arena; objects only refer to older ones, so that the pointer plus one is enough fuel. The stack of \<open>ValueToNativeLayout\<close> has a measure. Unique names are proved for fewer
  than \<open>2 ^ 63\<close> calls, the range of the counter, and indices of diagram nodes are integers, which fewer than \<open>2 ^ 31\<close> nodes do not leave. Widths in the JIT are at most
  \<open>2 ^ 62\<close>, more than LLVM has integers for.

  \<^bold>\<open>Where code and intention differ.\<close> Some properties state behaviour that a comment denies or that is not intended: limits of nested messages, the parsing of numbers
  (zero, long decimals, signs after a prefix, the ignored width), \<open>FromBytes\<close>, and operations on vectors of no bits (\<open>UDiv\<close>, \<open>SLt\<close> and \<open>SGt\<close> of interval sets). Their texts say so.

  \<^bold>\<open>Not modelled.\<close> The node classes of the IR, generated by the build from \<open>op_specification.py\<close>, and with them the parser, verifier, passes, interpreters, code generation
  and simulation; the elaboration of processes, which names the channel instances; the JIT's compiler, which emits LLVM code, and its byte queues; the DSLX and C++ front ends; scheduling, delay models,
  solvers, netlists, fuzzers and tools, which rest on OR-tools, Z3, Clang or input and output; graph cuts and colorings; hashing, floating point helpers and the leaf type tree.
\<close>

unbundle bit_operations_syntax
section \<open>Arithmetic on bit vectors\<close>

text \<open>
  C1: \<open>bits_ops::Add\<close> and \<open>bits_ops::Sub\<close> on operands of one width are addition and
  subtraction modulo \<open>2 ^ n\<close>, on the \<open>uint64_t\<close> path and on the \<open>BigInt\<close> path alike; they
  always return, and the result is well formed and as wide as the operands.
\<close>

theorem add_sub_modular:
  assumes "bignum_spec B val" "bm_wf a" "bm_wf b" "Bits_bit_count a = n" "Bits_bit_count b = n"
  shows "\<exists>s d. bits_ops_Add B a b = Some s \<and> bits_ops_Sub B a b = Some d \<and>
    bm_wf s \<and> bm_wf d \<and> Bits_bit_count s = n \<and> Bits_bit_count d = n \<and>
    uval s = (uval a + uval b) mod 2 ^ n \<and> int (uval d) = (int (uval a) - int (uval b)) mod 2 ^ n"
  using Add_eq(2) [OF assms(1-3)] Sub_eq(2) [OF assms(1-3)] assms(4,5) by simp

theorem add_sub_modular_witness:
  "\<exists>s d. bits_ops_Add int_bignum (bits_of_nat 70 5) (bits_of_nat 70 (2 ^ 70 - 1)) = Some s \<and>
    bits_ops_Sub int_bignum (bits_of_nat 70 5) (bits_of_nat 70 (2 ^ 70 - 1)) = Some d \<and> uval s = 4 \<and> uval d = 6"
  using add_sub_modular [OF int_bignum_spec, of "bits_of_nat 70 5" "bits_of_nat 70 (2 ^ 70 - 1)" 70] by fastforce

text \<open>
  C2: \<open>bits_ops::UMul\<close> and \<open>bits_ops::SMul\<close> are exact: the result is as wide as the two
  operands together and holds the full product, unsigned and two's complement.
\<close>

theorem mul_exact:
  assumes "bignum_spec B val" "bm_wf a" "bm_wf b" "n = Bits_bit_count a + Bits_bit_count b"
  shows "\<exists>u s. bits_ops_UMul B a b = Some u \<and> bits_ops_SMul B a b = Some s \<and>
    bm_wf u \<and> bm_wf s \<and> Bits_bit_count u = n \<and> Bits_bit_count s = n \<and>
    uval u = uval a * uval b \<and> sval s = sval a * sval b"
proof -
  have "uval a * uval b < 2 ^ n" unfolding assms(4) power_add using uval_less by (intro mult_strict_mono) auto
  moreover have "sval (bits_of_int n (sval a * sval b)) = sval a * sval b"
  proof (cases n)
    case 0
    then show ?thesis using assms(4) by (simp add: sval_0_width)
  next
    case (Suc m)
    then show ?thesis using signed_product_fits [of a b] assms(4) by (simp add: sval_bits_of_int)
  qed
  ultimately show ?thesis using UMul_eq [OF assms(1-3)] SMul_eq [OF assms(1-3)] assms(4) by simp
qed

theorem mul_exact_witness:
  "\<exists>u s. bits_ops_UMul int_bignum (bits_of_nat 3 7) (bits_of_nat 2 3) = Some u \<and>
    bits_ops_SMul int_bignum (bits_of_nat 3 7) (bits_of_nat 2 3) = Some s \<and> Bits_bit_count u = 5 \<and> uval u = 21"
  using mul_exact [OF int_bignum_spec, of "bits_of_nat 3 7" "bits_of_nat 2 3" 5] by auto

text \<open>
  C3: \<open>bits_ops::UDiv\<close> and \<open>bits_ops::UMod\<close> divide and take the remainder at any pair of
  widths; division by zero gives all ones and the remainder by zero is zero, as documented.
\<close>

theorem unsigned_division:
  assumes "bignum_spec B val" "bm_wf a" "bm_wf b"
  shows "\<exists>q r. bits_ops_UDiv B a b = Some q \<and> bits_ops_UMod B a b = Some r \<and> bm_wf q \<and> bm_wf r \<and>
    Bits_bit_count q = Bits_bit_count a \<and> Bits_bit_count r = Bits_bit_count b \<and>
    (if uval b = 0 then uval q = 2 ^ Bits_bit_count a - 1 \<and> uval r = 0
     else uval a = uval q * uval b + uval r \<and> uval r < uval b)"
proof -
  have "uval a div uval b < 2 ^ Bits_bit_count a" using uval_less [of a] by (meson div_le_dividend le_less_trans)
  moreover have "uval b \<noteq> 0 \<Longrightarrow> uval a mod uval b < 2 ^ Bits_bit_count b"
    using uval_less [of b] by (meson less_trans mod_less_divisor neq0_conv)
  ultimately show ?thesis using UDiv_eq [OF assms] UMod_eq [OF assms] by simp
qed

theorem unsigned_division_witness:
  "\<exists>q r. bits_ops_UDiv int_bignum (bits_of_nat 4 13) (bits_of_nat 3 5) = Some q \<and>
    bits_ops_UMod int_bignum (bits_of_nat 4 13) (bits_of_nat 3 5) = Some r \<and> Bits_bit_count r = 3 \<and>
    13 = uval q * 5 + uval r \<and> uval r < 5"
  using unsigned_division [OF int_bignum_spec, of "bits_of_nat 4 13" "bits_of_nat 3 5"] by auto

text \<open>
  C4: \<open>bits_ops::SDiv\<close> rounds toward zero and wraps at the dividend's width; \<open>bits_ops::SMod\<close>
  gives the remainder with the dividend's sign at the divisor's width. For a zero divisor \<open>SDiv\<close> is
  the least or the greatest value of the dividend's width, by the dividend's sign, and \<open>SMod\<close> is zero.
\<close>

theorem signed_division:
  assumes "bignum_spec B val" "bm_wf a" "bm_wf b" "0 < Bits_bit_count a"
  shows "\<exists>q r. bits_ops_SDiv B a b = Some q \<and> bits_ops_SMod B a b = Some r \<and> bm_wf q \<and> bm_wf r \<and>
    Bits_bit_count q = Bits_bit_count a \<and> Bits_bit_count r = Bits_bit_count b \<and>
    (if sval b = 0
     then sval q = (if sval a < 0 then - (2 ^ (Bits_bit_count a - 1)) else 2 ^ (Bits_bit_count a - 1) - 1) \<and> sval r = 0
     else sval q mod 2 ^ Bits_bit_count a = (sval a sdiv sval b) mod 2 ^ Bits_bit_count a \<and> sval r = sval a smod sval b)"
proof (cases "sval b = 0")
  case True
  obtain lo hi where lh: "Bits_MinSigned (Bits_bit_count a) = Some lo" "Bits_MaxSigned (Bits_bit_count a) = Some hi"
    "bm_wf lo" "bm_wf hi" "Bits_bit_count lo = Bits_bit_count a" "Bits_bit_count hi = Bits_bit_count a"
    "sval lo = - (2 ^ (Bits_bit_count a - 1))" "sval hi = 2 ^ (Bits_bit_count a - 1) - 1"
    using MinSigned_MaxSigned_correct [OF assms(4)] by blast
  have "sval (bits_of_int (Bits_bit_count b) 0) = 0" by (simp add: sval_eq_0_iff)
  then show ?thesis
    using SDiv_by_zero [OF assms(1-3) True assms(4)] SMod_eq [OF assms(1-3)] lh True by auto
next
  case False
  then have b: "0 < Bits_bit_count b" using sval_0_width [of b] by auto
  have "signed_bit_length (sval a smod sval b) \<le> Suc (Bits_bit_count b - 1)"
    unfolding signed_bit_length_le using smod_int_range [OF False, of "sval a"] sval_bounds [OF b] by auto
  then have "sval (bits_of_int (Bits_bit_count b) (sval a smod sval b)) = sval a smod sval b"
    using b by (intro sval_signed_bit_length) simp
  moreover have "sval (bits_of_int (Bits_bit_count a) (sval a sdiv sval b)) mod 2 ^ Bits_bit_count a =
      (sval a sdiv sval b) mod 2 ^ Bits_bit_count a"
    using sval_mod [of "bits_of_int (Bits_bit_count a) (sval a sdiv sval b)"] by simp
  ultimately show ?thesis using SDiv_eq [OF assms(1-3) False] SMod_eq [OF assms(1-3)] False by simp
qed

theorem signed_division_witness:
  "\<exists>q r. bits_ops_SDiv int_bignum (bits_of_nat 4 9) (bits_of_nat 4 0) = Some q \<and>
    bits_ops_SMod int_bignum (bits_of_nat 4 9) (bits_of_nat 4 0) = Some r \<and> bm_wf q \<and> sval r = 0"
proof -
  have "sval (bits_of_nat 4 0) = 0" by (simp add: sval_eq_0_iff)
  then show ?thesis
    using signed_division [OF int_bignum_spec, of "bits_of_nat 4 9" "bits_of_nat 4 0"] by auto
qed

text \<open>
  C5: the bitwise operations agree with the Boolean functions position by position at every width, and
  their \<open>CHECK\<close> rejects operands of different widths; \<open>Not\<close> inverts every bit and no other.
\<close>

theorem bitwise_pointwise:
  assumes "bm_wf a" "bm_wf b"
  shows "if Bits_bit_count a = Bits_bit_count b
    then bits_ops_And a b = Some (Bits_of_span (map2 (\<and>) (bm_bits a) (bm_bits b))) \<and>
      bits_ops_Or a b = Some (Bits_of_span (map2 (\<or>) (bm_bits a) (bm_bits b))) \<and>
      bits_ops_Xor a b = Some (Bits_of_span (map2 (\<noteq>) (bm_bits a) (bm_bits b))) \<and>
      bits_ops_Nand a b = Some (Bits_of_span (map2 (\<lambda>p q. \<not> (p \<and> q)) (bm_bits a) (bm_bits b))) \<and>
      bits_ops_Nor a b = Some (Bits_of_span (map2 (\<lambda>p q. \<not> (p \<or> q)) (bm_bits a) (bm_bits b))) \<and>
      bits_ops_Not a = Some (Bits_of_span (map Not (bm_bits a)))
    else bits_ops_And a b = None \<and> bits_ops_Or a b = None \<and> bits_ops_Xor a b = None \<and>
      bits_ops_Nand a b = None \<and> bits_ops_Nor a b = None"
  using bits_ops_binary_pointwise [OF assms] bits_ops_Not_eq [OF assms(1)]
    and_op.mismatch or_op.mismatch xor_op.mismatch nand_op.mismatch nor_op.mismatch by simp

theorem bitwise_pointwise_witness:
  "bits_ops_And (Bits_of_span [True, True, False]) (Bits_of_span [True, False, False]) =
     Some (Bits_of_span [True, False, False])"
  using bitwise_pointwise [of "Bits_of_span [True, True, False]" "Bits_of_span [True, False, False]"] by simp

text \<open>
  the n-ary operations fold the Boolean function over the operands at every position, and fail
  when there is no operand or when two widths differ.
\<close>

theorem nary_folds:
  assumes "bm_wf a" "\<forall>b \<in> set bs. bm_wf b \<and> Bits_bit_count b = Bits_bit_count a"
  shows "DoLogicalOp kAnd (a # bs) = Some (Bits_of_span (map (\<lambda>i. foldl (\<and>) (bm_bits a ! i) (map (\<lambda>b. bm_bits b ! i) bs))
      [0..<Bits_bit_count a])) \<and>
    DoLogicalOp kXor (a # bs) = Some (Bits_of_span (map (\<lambda>i. foldl (\<noteq>) (bm_bits a ! i) (map (\<lambda>b. bm_bits b ! i) bs))
      [0..<Bits_bit_count a])) \<and>
    DoLogicalOp kNor (a # bs) = Some (Bits_of_span (map (\<lambda>i. \<not> foldl (\<or>) (bm_bits a ! i) (map (\<lambda>b. bm_bits b ! i) bs))
      [0..<Bits_bit_count a]))"
  using and_op.nary_pointwise [OF assms] xor_op.nary_pointwise [OF assms] or_op.nary_pointwise [OF assms]
  by (simp add: DoLogicalOp_def bits_ops_Not_eq comp_def)

theorem nary_folds_witness:
  "DoLogicalOp kXor [Bits_of_span [True, False], Bits_of_span [True, True]] = Some (Bits_of_span [False, True])"
  using nary_folds [of "Bits_of_span [True, False]" "[Bits_of_span [True, True]]"] by (simp add: upt_rec)

text \<open>
  C6: the comparisons decide the order of the unsigned and of the two's complement values, whatever the
  two widths; \<open>UCmp\<close> walks the words from the top.
\<close>

theorem comparisons_decide:
  assumes "bignum_spec B val" "bm_wf a" "bm_wf b"
  shows "bits_ops_UCmp a b = (if uval a > uval b then 1 else if uval a < uval b then - 1 else 0) \<and>
    (bits_ops_ULessThan a b \<longleftrightarrow> uval a < uval b) \<and> (bits_ops_UEqual a b \<longleftrightarrow> uval a = uval b) \<and>
    bits_ops_SLessThan B a b = Some (sval a < sval b) \<and> bits_ops_SEqual B a b = Some (sval a = sval b) \<and>
    bits_ops_SLessThanOrEqual B a b = Some (sval a \<le> sval b) \<and>
    bits_ops_SGreaterThan B a b = Some (sval a > sval b) \<and>
    bits_ops_SGreaterThanOrEqual B a b = Some (sval a \<ge> sval b)"
  using UCmp_eq [OF assms(2,3)] unsigned_compare [OF assms(2,3)] SEqual_eq [OF assms] SLessThan_eq [OF assms]
    signed_compare [OF assms] by simp

theorem comparisons_decide_witness:
  "bits_ops_UCmp (bits_of_nat 3 6) (bits_of_nat 80 5) = 1"
  using comparisons_decide [OF int_bignum_spec, of "bits_of_nat 3 6" "bits_of_nat 80 5"] by simp

text \<open>
  the shifts keep the width: left is multiplication by a power of two, right is division by one,
  on the unsigned value or, for the arithmetic shift, on the two's complement value.
\<close>

theorem shifts_scale:
  assumes "bm_wf b" "n = Bits_bit_count b"
  shows "\<exists>l r s. bits_ops_ShiftLeftLogical b k = Some l \<and> bits_ops_ShiftRightLogical b k = Some r \<and>
    bits_ops_ShiftRightArith b k = Some s \<and> bm_wf l \<and> bm_wf r \<and> bm_wf s \<and>
    Bits_bit_count l = n \<and> Bits_bit_count r = n \<and> Bits_bit_count s = n \<and>
    uval l = uval b * 2 ^ k mod 2 ^ n \<and> uval r = uval b div 2 ^ k \<and> sval s = sval b div 2 ^ k"
proof -
  have "uval b div 2 ^ k \<le> uval b" by simp
  then have "uval b div 2 ^ k < 2 ^ n" using uval_less [of b] assms(2) by (metis le_less_trans)
  moreover have "sval (bits_of_int n (sval b div 2 ^ k)) = sval b div 2 ^ k"
  proof (cases n)
    case 0
    then show ?thesis using assms(2) by (simp add: sval_0_width)
  next
    case (Suc m)
    then have "- (2 ^ m) \<le> sval b" "sval b < 2 ^ m" using sval_bounds [of b] assms(2) by simp_all
    then have "- (2 ^ m) \<le> sval b div 2 ^ k" "sval b div 2 ^ k < 2 ^ m" by (simp_all add: div_exp_range)
    then show ?thesis using Suc by (simp add: sval_bits_of_int)
  qed
  ultimately show ?thesis
    using ShiftLeftLogical_eq [OF assms(1)] ShiftRightLogical_eq [OF assms(1)] ShiftRightArith_eq [OF assms(1)] assms(2)
    by simp
qed

theorem shifts_scale_witness:
  "\<exists>l r s. bits_ops_ShiftLeftLogical (bits_of_nat 4 13) 2 = Some l \<and>
    bits_ops_ShiftRightLogical (bits_of_nat 4 13) 2 = Some r \<and>
    bits_ops_ShiftRightArith (bits_of_nat 4 13) 2 = Some s \<and> uval l = 4 \<and> uval r = 3"
  using shifts_scale [of "bits_of_nat 4 13" 4 2] by auto

text \<open>
  \<open>bits_ops::Increment\<close> and \<open>bits_ops::Decrement\<close>, which ripple a carry or a borrow through
  the 64-bit words and stop at the first word that absorbs it, add and subtract one modulo \<open>2 ^ n\<close>.
\<close>

theorem increment_decrement_ripple:
  assumes "bm_wf b"
  shows "bm_wf (bits_ops_Increment b) \<and> bm_wf (bits_ops_Decrement b) \<and>
    Bits_bit_count (bits_ops_Increment b) = Bits_bit_count b \<and> Bits_bit_count (bits_ops_Decrement b) = Bits_bit_count b \<and>
    int (uval (bits_ops_Increment b)) = (int (uval b) + 1) mod 2 ^ Bits_bit_count b \<and>
    int (uval (bits_ops_Decrement b)) = (int (uval b) - 1) mod 2 ^ Bits_bit_count b"
  using Increment_eq [OF assms] Decrement_eq [OF assms] by simp

theorem increment_decrement_ripple_witness:
  "uval (bits_ops_Increment (Bits_AllOnes 65)) = 0 \<and> uval (bits_ops_Decrement (Bits_new 65)) = 2 ^ 65 - 1"
  using increment_decrement_ripple [of "Bits_AllOnes 65"] increment_decrement_ripple [of "Bits_new 65"] by simp

text \<open>
  \<open>bits_ops::BitSliceUpdate\<close> replaces exactly the positions the update covers and ignores the
  part of the update that lies beyond the operand.
\<close>

theorem bit_slice_update_positions:
  assumes "bm_wf a" "bm_wf b"
  shows "\<exists>r. bits_ops_BitSliceUpdate a start b = Some r \<and> bm_wf r \<and> Bits_bit_count r = Bits_bit_count a \<and>
    (\<forall>i < Bits_bit_count a. Bits_Get r i =
      (if start \<le> i \<and> i < start + Bits_bit_count b then Bits_Get b (i - start) else Bits_Get a i))"
  using BitSliceUpdate_eq [OF assms, of start]
  by (auto simp: Bits_Get_nth simp del: bm_bits_nth)

theorem bit_slice_update_positions_witness:
  "\<exists>r. bits_ops_BitSliceUpdate (Bits_new 4) 3 (Bits_AllOnes 2) = Some r \<and> Bits_bit_count r = 4 \<and> Bits_Get r 3"
  using bit_slice_update_positions [of "Bits_new 4" "Bits_AllOnes 2" 3] by (fastforce simp: Bits_Get_nth)

text \<open>
  reading back the digits \<open>BitsToRawDigits\<close> prints in the binary and hexadecimal formats, with or
  without separators and leading zeros, gives the value; printing never fails.
\<close>

theorem raw_digits_read_back:
  assumes "bm_wf b" "0 < Bits_bit_count b" "preference \<in> {kBinary, kPlainBinary, kHex, kPlainHex}"
  shows "\<exists>s. BitsToRawDigits B b preference emit_leading_zeros = Some s \<and>
    digits_value (if preference \<in> {kBinary, kPlainBinary} then 2 else 16) s = uval b"
  using assms by (rule BitsToRawDigits_value)

theorem raw_digits_read_back_witness:
  "\<exists>s. BitsToRawDigits int_bignum (bits_of_nat 11 42) kHex True = Some s \<and> digits_value 16 s = 42"
  using raw_digits_read_back [of "bits_of_nat 11 42" kHex int_bignum True] by simp

section \<open>Bit vectors, bytes and machine integers\<close>

text \<open>
  \<open>UBitsWithStatus\<close> and \<open>SBitsWithStatus\<close> return an error exactly when the value does not
  fit the bit count (for \<open>SBits\<close>, in two's complement), and otherwise the vector of that value; so
  \<open>UBits\<close> and \<open>SBits\<close> crash on exactly those arguments.
\<close>

theorem factories_fit:
  "(if unat v < 2 ^ n
    then \<exists>b. UBitsWithStatus v n = Inr b \<and> UBits v n = Some b \<and> bm_wf b \<and> Bits_bit_count b = n \<and> uval b = unat v
    else UBitsWithStatus v n = Inl InvalidArgument \<and> UBits v n = None) \<and>
   (if sint w \<in> {- (2 ^ m)..<2 ^ m}
    then \<exists>b. SBitsWithStatus w (Suc m) = Inr b \<and> SBits w (Suc m) = Some b \<and> bm_wf b \<and> Bits_bit_count b = Suc m \<and> sval b = sint w
    else SBitsWithStatus w (Suc m) = Inl InvalidArgument \<and> SBits w (Suc m) = None)"
proof (rule conjI)
  show "if unat v < 2 ^ n
    then \<exists>b. UBitsWithStatus v n = Inr b \<and> UBits v n = Some b \<and> bm_wf b \<and> Bits_bit_count b = n \<and> uval b = unat v
    else UBitsWithStatus v n = Inl InvalidArgument \<and> UBits v n = None"
    using UBits_correct [of v n] UBits_eq [of v n]
    by (auto simp: UBits_def value_of_def split: sum.splits) (simp_all add: UBitsWithStatus_def split: if_splits)
  show "if sint w \<in> {- (2 ^ m)..<2 ^ m}
    then \<exists>b. SBitsWithStatus w (Suc m) = Inr b \<and> SBits w (Suc m) = Some b \<and> bm_wf b \<and> Bits_bit_count b = Suc m \<and> sval b = sint w
    else SBitsWithStatus w (Suc m) = Inl InvalidArgument \<and> SBits w (Suc m) = None"
    using SBits_correct [of "Suc m" w] SBits_eq [of w "Suc m"]
    by (auto simp: SBits_def value_of_def split: sum.splits if_splits)
      (simp_all add: SBitsWithStatus_def Let_def split: if_splits)
qed

text \<open>
  \<open>Bits::ToUint64\<close> and \<open>Bits::ToInt64\<close> succeed exactly when the value fits the machine
  integer, whatever the width of the vector, and then return it; otherwise they return an error.
\<close>

theorem to_machine_integers:
  assumes "bm_wf b"
  shows "(if uval b < 2 ^ 64 then \<exists>w. Bits_ToUint64 b = Inr w \<and> unat w = uval b
          else Bits_ToUint64 b = Inl InvalidArgument) \<and>
    (if - (2 ^ 63) \<le> sval b \<and> sval b < 2 ^ 63 then \<exists>w. Bits_ToInt64 b = Inr w \<and> sint w = sval b
          else Bits_ToInt64 b = Inl InvalidArgument)"
  using ToUint64_correct [OF assms] ToInt64_correct [OF assms] by argo

theorem to_machine_integers_witness:
  "Bits_ToUint64 (Bits_AllOnes 65) = Inl InvalidArgument"
  using to_machine_integers [of "Bits_AllOnes 65"] by (simp split: if_splits)

text \<open>
  \<open>Bits::FromBytes\<close> inverts \<open>Bits::ToBytes\<close>, the bytes hold the value in little-endian
  order, and the \<open>CHECK\<close> of \<open>FromBytes\<close> rejects every other number of bytes.
\<close>

theorem bytes_round_trip:
  assumes "bm_wf b"
  shows "Bits_FromBytes (Bits_ToBytes b) (Bits_bit_count b) = Some b \<and>
    le_bytes_val (Bits_ToBytes b) = uval b \<and>
    (length bytes \<noteq> length (Bits_ToBytes b) \<longrightarrow> Bits_FromBytes bytes (Bits_bit_count b) = None)"
  using FromBytes_ToBytes_id [OF assms] le_bytes_val_ToBytes [OF assms] FromBytes_None
  by (simp add: length_ToBytes [OF assms])

theorem bytes_round_trip_witness:
  "Bits_FromBytes (Bits_ToBytes (bits_of_nat 9 300)) 9 = Some (bits_of_nat 9 300)"
  using bytes_round_trip [of "bits_of_nat 9 300" "[]"] by simp

text \<open>
  \<open>Bits::HasSingleRunOfSetBits\<close> never fails a \<open>CHECK\<close>; it returns true exactly for a vector
  whose set bits are one non-empty run, and then the counts of zeros above, of ones and of zeros below.
\<close>

theorem single_run_decided:
  "case Bits_HasSingleRunOfSetBits b of
     None \<Rightarrow> False
   | Some None \<Rightarrow> \<forall>leading ones trailing. bm_bits b \<noteq> replicate trailing False @ replicate (Suc ones) True @ replicate leading False
   | Some (Some (leading, ones, trailing)) \<Rightarrow>
       0 < ones \<and> bm_bits b = replicate trailing False @ replicate ones True @ replicate leading False"
proof (cases "Bits_HasSingleRunOfSetBits b")
  case None
  then show ?thesis using HasSingleRunOfSetBits_correct [of b] by simp
next
  case (Some r)
  show ?thesis
  proof (cases r)
    case None
    then have "\<not> single_run (bm_bits b) (leading, Suc ones, trailing)" for leading ones trailing
      using Some HasSingleRunOfSetBits_correct [of b] by simp
    then show ?thesis using Some None by (simp add: single_run_def)
  next
    case (Some t)
    then have "single_run (bm_bits b) t"
      using \<open>Bits_HasSingleRunOfSetBits b = Some r\<close> HasSingleRunOfSetBits_correct [of b] by simp
    then show ?thesis using \<open>Bits_HasSingleRunOfSetBits b = Some r\<close> Some by (cases t) (simp add: single_run_def)
  qed
qed

text \<open>
  flattening a vector into a push buffer and reading the buffer's bytes gives the vector's bits from
  the most significant one, eight to a byte from its top bit.
\<close>

theorem flatten_bytes:
  assumes "k < Bits_bit_count b"
  shows "length (BitPushBuffer_GetUint8Data (Bits_FlattenTo b [])) = CeilOfRatio_nat (Bits_bit_count b) 8 \<and>
    bit (BitPushBuffer_GetUint8Data (Bits_FlattenTo b []) ! (k div 8)) (7 - k mod 8) = Bits_GetFromMsb b k"
proof -
  have "rev (bm_bits b) ! k = Bits_GetFromMsb b k"
    using assms by (simp add: rev_nth Bits_GetFromMsb_def)
  then show ?thesis
    using assms GetUint8Data_bits [where buffer = "rev (bm_bits b)"]
    by (simp add: FlattenTo_correct BitPushBuffer_size_in_bytes_def)
qed

theorem flatten_bytes_witness:
  "bit (BitPushBuffer_GetUint8Data (Bits_FlattenTo (Bits_AllOnes 3) []) ! 0) 6 = Bits_GetFromMsb (Bits_AllOnes 3) 1"
  using flatten_bytes [of 1 "Bits_AllOnes 3"] by simp

section \<open>Big integers\<close>

text \<open>
  a \<open>BigInt\<close> made from a vector has the vector's two's complement value, and converting it back at
  the vector's width gives the vector; \<open>ToSignedBits\<close> uses the least width that holds the value.
\<close>

theorem bigint_round_trip:
  assumes "bignum_spec B val" "bm_wf b"
  shows "\<exists>x m. BigInt_MakeSigned B b = Some x \<and> val x = sval b \<and>
    BigInt_ToSignedBitsWithBitCount B x (Bits_bit_count b) = Some (Inr b) \<and>
    BigInt_ToSignedBits B x = Some m \<and> sval m = sval b \<and>
    (\<forall>c. sval c = sval b \<longrightarrow> Bits_bit_count m \<le> Bits_bit_count c)"
proof -
  obtain x where x: "BigInt_MakeSigned B b = Some x" "val x = sval b" using MakeSigned_val [OF assms] by blast
  have least: "signed_bit_length (sval c) \<le> Bits_bit_count c" for c
  proof (cases "Bits_bit_count c = 0")
    case True
    then show ?thesis by (simp add: sval_0_width signed_bit_length_def)
  next
    case False
    then obtain m where "Bits_bit_count c = Suc m" by (cases "Bits_bit_count c") auto
    then show ?thesis using sval_bounds [of c] signed_bit_length_le [of "sval c" m] by simp
  qed
  have "BigInt_ToSignedBitsWithBitCount B x (Bits_bit_count b) = Some (Inr b)"
    using ToSignedBitsWithBitCount_eq [OF assms(1), of x] least [of b] x(2) bits_of_int_sval [OF assms(2)]
    by (simp add: not_less)
  moreover have "BigInt_ToSignedBits B x = Some (bits_of_int (signed_bit_length (sval b)) (sval b))"
    using ToSignedBits_eq [OF assms(1), of x] x(2) by simp
  moreover have "sval (bits_of_int (signed_bit_length (sval b)) (sval b)) = sval b"
    by (rule sval_signed_bit_length) simp
  moreover have "\<forall>c. sval c = sval b \<longrightarrow> signed_bit_length (sval b) \<le> Bits_bit_count c" using least by metis
  ultimately show ?thesis using x by (metis bits_of_int_simps(2))
qed

theorem bigint_round_trip_witness:
  "\<exists>x. BigInt_MakeSigned int_bignum (bits_of_nat 4 13) = Some x \<and>
    BigInt_ToSignedBitsWithBitCount int_bignum x 4 = Some (Inr (bits_of_nat 4 13))"
  using bigint_round_trip [OF int_bignum_spec, of "bits_of_nat 4 13"] by auto

text \<open>
  C7: \<open>BigInt::FactorizePowerOfTwo\<close> terminates on every input and returns an odd number and an
  exponent whose product is the input; zero gives \<open>0 * 2 ^ 0\<close>.
\<close>

theorem bigint_factorize_terminates:
  assumes "bignum_spec B val"
  shows "\<exists>y k. BigInt_FactorizePowerOfTwo B x = Some (y, k) \<and> val x = val y * 2 ^ k \<and>
    (if val x = 0 then k = 0 else odd (val y))"
  using assms by (rule FactorizePowerOfTwo_val)

theorem bigint_factorize_terminates_witness:
  "\<exists>y k. BigInt_FactorizePowerOfTwo int_bignum 48 = Some (y, k) \<and> 48 = y * 2 ^ k \<and> odd y"
  using bigint_factorize_terminates [OF int_bignum_spec, of 48] by simp

text \<open>
  \<open>BigInt::CeilingLog2\<close> of a positive number is the least exponent whose power of two reaches it.
  The bound is the \<open>CHECK\<close> of \<open>Exp2\<close> on its exponent.
\<close>

theorem bigint_ceiling_log2:
  assumes "bignum_spec B val" "val x < 2 ^ (2 ^ 31)" "0 < val x"
  shows "\<exists>k. BigInt_CeilingLog2 B x = Some (int k) \<and> val x \<le> 2 ^ k \<and> (\<forall>j < k. 2 ^ j < val x)"
  using assms by (rule CeilingLog2_val)

theorem bigint_ceiling_log2_witness:
  "\<exists>k. BigInt_CeilingLog2 int_bignum 1 = Some (int k) \<and> (1::int) \<le> 2 ^ k"
proof -
  have "(1::int) < 2 ^ n" if "0 < n" for n :: nat using that by simp
  then have "(1::int) < 2 ^ (2 ^ 31)" by (meson pos2 zero_less_power)
  then show ?thesis using bigint_ceiling_log2 [OF int_bignum_spec, of 1, unfolded id_apply] zero_less_one by blast
qed

section \<open>Bitmaps\<close>

text \<open>
  C8: every operation that builds or changes a bitmap (the constructor, \<open>FromWord\<close>, \<open>FromBytes\<close>, \<open>FromBits\<close>, \<open>WithSize\<close>, \<open>Set\<close>, \<open>SetRange\<close>,
  \<open>SetAllBitsToFalse\<close>, \<open>SetWord\<close>, \<open>SetByte\<close>, \<open>Union\<close>, \<open>Intersect\<close>) keeps the invariant (the word vector has the length
  the bit count needs and no bit is set beyond it) and implements the operation on lists of bits it
  stands for, for indices within the bitmap; \<open>Union\<close> and \<open>Intersect\<close> fail a check on bitmaps of different sizes, and \<open>FromBytes\<close> on any number of bytes but the
  one the bit count needs, although its comment asks for at least so many.
\<close>

theorem bitmap_refines_bit_list:
  assumes "bm_wf b" "bm_wf c" "i < bm_count b" "upper \<le> bm_count b" "j < InlineBitmap_byte_count b" "k < InlineBitmap_word_count b"
  shows "(bm_wf (InlineBitmap_new n v) \<and> bm_bits (InlineBitmap_new n v) = replicate n v) \<and>
    (bm_wf (InlineBitmap_FromWord x n v) \<and> bm_bits (InlineBitmap_FromWord x n v) = map (\<lambda>l. if l < 64 then bit x l else v) [0..<n]) \<and>
    (if length bytes = CeilOfRatio_nat n 8
     then \<exists>r. InlineBitmap_FromBytes n bytes = Some r \<and> bm_wf r \<and> bm_bits r = map (\<lambda>l. bit (bytes ! (l div 8)) (l mod 8)) [0..<n]
     else InlineBitmap_FromBytes n bytes = None) \<and>
    (bm_wf (InlineBitmap_FromBits bs) \<and> bm_bits (InlineBitmap_FromBits bs) = bs) \<and>
    (bm_wf (InlineBitmap_WithSize b m v) \<and>
      bm_bits (InlineBitmap_WithSize b m v) = take m (bm_bits b) @ replicate (m - bm_count b) v) \<and>
    (bm_wf (InlineBitmap_Set b i v) \<and> bm_bits (InlineBitmap_Set b i v) = (bm_bits b)[i := v]) \<and>
    (bm_wf (InlineBitmap_SetRange b lower upper v) \<and>
      bm_bits (InlineBitmap_SetRange b lower upper v) =
        map (\<lambda>k. if lower \<le> k \<and> k < upper then v else bm_bits b ! k) [0..<bm_count b]) \<and>
    (bm_wf (InlineBitmap_SetAllBitsToFalse b) \<and> bm_bits (InlineBitmap_SetAllBitsToFalse b) = replicate (bm_count b) False) \<and>
    (bm_wf (InlineBitmap_SetWord b k x) \<and>
      bm_bits (InlineBitmap_SetWord b k x) =
        map (\<lambda>l. if l div 64 = k then bit x (l mod 64) else bm_bits b ! l) [0..<bm_count b]) \<and>
    (bm_wf (InlineBitmap_SetByte b j w) \<and>
      bm_bits (InlineBitmap_SetByte b j w) =
        map (\<lambda>k. if k div 8 = j then bit w (k mod 8) else bm_bits b ! k) [0..<bm_count b]) \<and>
    (if bm_count b = bm_count c
     then \<exists>r. InlineBitmap_Union b c = Some r \<and> bm_wf r \<and> bm_bits r = map2 (\<or>) (bm_bits b) (bm_bits c)
     else InlineBitmap_Union b c = None) \<and>
    (if bm_count b = bm_count c
     then \<exists>r. InlineBitmap_Intersect b c = Some r \<and> bm_wf r \<and> bm_bits r = map2 (\<and>) (bm_bits b) (bm_bits c)
     else InlineBitmap_Intersect b c = None)"
proof (intro conjI)
  show "if bm_count b = bm_count c
      then \<exists>r. InlineBitmap_Union b c = Some r \<and> bm_wf r \<and> bm_bits r = map2 (\<or>) (bm_bits b) (bm_bits c)
      else InlineBitmap_Union b c = None"
    using words_pointwise_refines [OF assms(1,2), of "(OR)" "(\<or>)"] by (simp add: InlineBitmap_Union_def bit_or_iff)
  show "if bm_count b = bm_count c
      then \<exists>r. InlineBitmap_Intersect b c = Some r \<and> bm_wf r \<and> bm_bits r = map2 (\<and>) (bm_bits b) (bm_bits c)
      else InlineBitmap_Intersect b c = None"
    using words_pointwise_refines [OF assms(1,2), of "(AND)" "(\<and>)"] by (simp add: InlineBitmap_Intersect_def bit_and_iff)
  show "if length bytes = CeilOfRatio_nat n 8
      then \<exists>r. InlineBitmap_FromBytes n bytes = Some r \<and> bm_wf r \<and> bm_bits r = map (\<lambda>l. bit (bytes ! (l div 8)) (l mod 8)) [0..<n]
      else InlineBitmap_FromBytes n bytes = None"
    using InlineBitmap_FromBytes_refines [of bytes n] by (simp add: InlineBitmap_FromBytes_def Let_def)
qed (fact InlineBitmap_new_refines [THEN conjunct1] InlineBitmap_new_refines [THEN conjunct2] InlineBitmap_FromWord_refines [THEN conjunct1]
    InlineBitmap_FromWord_refines [THEN conjunct2] InlineBitmap_FromBits_refines [THEN conjunct1] InlineBitmap_FromBits_refines [THEN conjunct2]
    WithSize_refines [OF assms(1), THEN conjunct1] WithSize_refines [OF assms(1), THEN conjunct2]
    InlineBitmap_Set_refines [OF assms(1,3), THEN conjunct1] InlineBitmap_Set_refines [OF assms(1,3), THEN conjunct2]
    InlineBitmap_SetRange_refines [OF assms(1,4), THEN conjunct1] InlineBitmap_SetRange_refines [OF assms(1,4), THEN conjunct2]
    InlineBitmap_SetAllBitsToFalse_refines [OF assms(1), THEN conjunct1] InlineBitmap_SetAllBitsToFalse_refines [OF assms(1), THEN conjunct2]
    InlineBitmap_SetWord_refines [OF assms(1) assms(6) [unfolded InlineBitmap_word_count_def], THEN conjunct1]
    InlineBitmap_SetWord_refines [OF assms(1) assms(6) [unfolded InlineBitmap_word_count_def], THEN conjunct2]
    InlineBitmap_SetByte_refines [OF assms(1,5), THEN conjunct1] InlineBitmap_SetByte_refines [OF assms(1,5), THEN conjunct2])+

theorem bitmap_refines_bit_list_witness:
  "bm_bits (InlineBitmap_SetWord (InlineBitmap_new 2 True) 0 5) = [True, False]"
proof -
  let ?b = "InlineBitmap_new 2 True"
  have i: "0 < bm_count ?b" "2 \<le> bm_count ?b" "0 < InlineBitmap_byte_count ?b" "0 < InlineBitmap_word_count ?b"
    by (simp_all add: InlineBitmap_byte_count_def InlineBitmap_word_count_def CeilOfRatio_nat_eq)
  have "bm_bits (InlineBitmap_SetWord ?b 0 5) = map (\<lambda>l. if l div 64 = 0 then bit (5 :: u64) (l mod 64) else bm_bits ?b ! l) [0..<bm_count ?b]"
    by (rule bitmap_refines_bit_list [OF new_wf new_wf i, THEN conjunct2, THEN conjunct2, THEN conjunct2, THEN conjunct2, THEN conjunct2,
          THEN conjunct2, THEN conjunct2, THEN conjunct2, THEN conjunct1, THEN conjunct2])
  moreover have "[0..<bm_count ?b] = [0, 1]" by (simp add: numeral_2_eq_2)
  ultimately show ?thesis by simp
qed

text \<open>
  two well-formed bitmaps are equal, word by word, exactly when their bits are; \<open>UCmp\<close> is the
  order of the numbers they stand for, also when their word counts differ.
\<close>

theorem bitmap_order:
  assumes "bm_wf a" "bm_wf b"
  shows "(InlineBitmap_eq a b \<longleftrightarrow> bm_bits a = bm_bits b) \<and>
    InlineBitmap_UCmp a b = sgn (int (bl_to_nat (bm_bits a)) - int (bl_to_nat (bm_bits b)))"
  using InlineBitmap_eq_iff [OF assms] InlineBitmap_UCmp_correct [OF assms] by (simp add: Let_def sgn_if)

theorem bitmap_order_witness:
  "InlineBitmap_UCmp (InlineBitmap_new 130 False) (InlineBitmap_new 3 True) = - 1"
  using bitmap_order [of "InlineBitmap_new 130 False" "InlineBitmap_new 3 True"] by simp

section \<open>Integer helpers\<close>

text \<open>
  \<open>MixedRadixIterate\<close> terminates and calls the callback on the numbers of the radix in
  increasing order from zero, until the callback stops it or every number has been visited.
\<close>

theorem mixed_radix_visits:
  assumes "list_all (\<lambda>r. 0 < r) radix" "MixedRadixIterate radix f = (stopped, calls)"
  shows "map (radix_value radix) calls = map int [0..<length calls] \<and> (\<forall>c \<in> set calls. radix_ok radix c) \<and>
    (if stopped then f (last calls) \<and> (\<forall>c \<in> set (butlast calls). \<not> f c)
     else (\<forall>c \<in> set calls. \<not> f c) \<and> int (length calls) = prod_list radix)"
proof -
  have zero: "radix_value radix (replicate (length radix) 0) = 0" by (induction radix) simp_all
  have "radix_ok radix (replicate (length radix) 0)"
    using assms(1) by (simp add: radix_ok_def list_all2_conv_all_nth list_all_length)
  from MixedRadixIterate_loop_correct [OF this assms(2) [unfolded MixedRadixIterate_def]]
  show ?thesis by (auto simp: zero)
qed

theorem mixed_radix_visits_witness:
  "map (radix_value [2, 1]) (snd (MixedRadixIterate [2, 1] (\<lambda>n. False))) =
     map int [0..<length (snd (MixedRadixIterate [2, 1] (\<lambda>n. False)))]"
proof (cases "MixedRadixIterate [2, 1] (\<lambda>n. False)")
  case (Pair stopped calls)
  then show ?thesis using mixed_radix_visits [OF _ Pair] by simp
qed

text \<open>
  \<open>CeilOfRatio\<close> and \<open>FloorOfRatio\<close> round to the side they are named for, whatever the signs of
  the operands, although the language's division truncates.
\<close>

theorem ratios_round:
  assumes "d \<noteq> 0"
  shows "\<exists>c f. CeilOfRatio n d = Some c \<and> FloorOfRatio n d = Some f \<and>
    c = \<lceil>real_of_int n / real_of_int d\<rceil> \<and> f = \<lfloor>real_of_int n / real_of_int d\<rfloor>"
  using CeilOfRatio_div [OF assms, of n] FloorOfRatio_div [OF assms, of n]
  by (simp add: floor_divide_of_int_eq ceiling_divide_eq_div)

theorem ratios_round_witness:
  "\<exists>c f. CeilOfRatio (- 7) 2 = Some c \<and> FloorOfRatio (- 7) 2 = Some f \<and>
    c = \<lceil>- 7 / 2 :: real\<rceil> \<and> f = \<lfloor>- 7 / 2 :: real\<rfloor>"
  using ratios_round [of 2 "- 7"] by simp

text \<open>
  the saturating operations return the exact result clamped to the type, and report an overflow
  exactly when the exact result leaves the type.
\<close>

theorem saturating_clamp:
  assumes "in_type t l" "in_type t r" "tmin t \<le> 0" "0 \<le> tmax t"
  shows "SaturatingAdd t l r = \<lparr>result = max (tmin t) (min (tmax t) (l + r)), did_overflow = (\<not> in_type t (l + r))\<rparr> \<and>
    SaturatingSub t l r = \<lparr>result = max (tmin t) (min (tmax t) (l - r)), did_overflow = (\<not> in_type t (l - r))\<rparr> \<and>
    SaturatingMul t l r = \<lparr>result = max (tmin t) (min (tmax t) (l * r)), did_overflow = (\<not> in_type t (l * r))\<rparr>"
  using SaturatingAdd_clamps [OF assms] SaturatingSub_clamps [OF assms] SaturatingMul_clamps [OF assms] by simp

theorem saturating_clamp_witness:
  "result (SaturatingMul \<lparr>tmin = - 128, tmax = 127\<rparr> (- 100) 2) = - 128"
  using saturating_clamp [of "\<lparr>tmin = - 128, tmax = 127\<rparr>" "- 100" 2] by (simp add: in_type_def)

text \<open>
  \<open>FloorOfLog2\<close> and \<open>CeilOfLog2\<close> bracket a positive 64-bit value between powers of two.
\<close>

theorem log2_brackets:
  assumes "v \<noteq> 0"
  shows "2 ^ FloorOfLog2 v \<le> unat v \<and> unat v < 2 ^ Suc (FloorOfLog2 v) \<and>
    unat v \<le> 2 ^ CeilOfLog2 v \<and> (\<forall>k. unat v \<le> 2 ^ k \<longrightarrow> CeilOfLog2 v \<le> k)"
  using FloorOfLog2_bounds [OF assms] CeilOfLog2_least [OF assms] by auto

theorem log2_brackets_witness:
  "2 ^ FloorOfLog2 6 \<le> unat (6 :: u64) \<and> unat (6 :: u64) \<le> 2 ^ CeilOfLog2 6"
  using log2_brackets [of 6] by simp

section \<open>Ternary vectors\<close>

text \<open>
  \<open>ternary_ops::Union\<close> of two vectors of one length allows exactly the values both allow; it
  returns an error exactly when there is no such value, and \<open>UpdateWithUnion\<close> agrees with it.
\<close>

theorem ternary_union_meet:
  assumes "length lhs = length rhs"
  shows "if \<exists>bs. ternary_allows lhs bs \<and> ternary_allows rhs bs
    then \<exists>v. ternary_ops_Union lhs rhs = Some (Inr v) \<and> ternary_ops_UpdateWithUnion lhs rhs = Some (v, Inr ()) \<and>
      (\<forall>bs. ternary_allows v bs \<longleftrightarrow> ternary_allows lhs bs \<and> ternary_allows rhs bs)
    else ternary_ops_Union lhs rhs = Some (Inl InvalidArgument) \<and>
      map_option snd (ternary_ops_UpdateWithUnion lhs rhs) = Some (Inl InvalidArgument)"
proof (cases "Union_loop lhs rhs")
  case (Inl e)
  then show ?thesis
    using Union_loop_allows [OF assms] UpdateWithUnion_loop_eq [OF assms] assms
    by (auto simp: ternary_ops_Union_def ternary_ops_UpdateWithUnion_def)
next
  case (Inr v)
  then have v: "\<forall>bs. ternary_allows v bs \<longleftrightarrow> ternary_allows lhs bs \<and> ternary_allows rhs bs"
    using Union_loop_allows [OF assms] by simp
  then have "\<exists>bs. ternary_allows lhs bs \<and> ternary_allows rhs bs" using ternary_allows_least by blast
  then show ?thesis
    using Inr v UpdateWithUnion_loop_eq [OF assms] assms
    by (auto simp: ternary_ops_Union_def ternary_ops_UpdateWithUnion_def)
qed

theorem ternary_union_meet_witness:
  "\<exists>v. ternary_ops_Union [kUnknown, kKnownOne] [kKnownZero, kUnknown] = Some (Inr v)"
proof -
  have "\<exists>bs. ternary_allows [kUnknown, kKnownOne] bs \<and> ternary_allows [kKnownZero, kUnknown] bs"
    by (rule exI [of _ "[False, True]"]) simp
  then show ?thesis using ternary_union_meet [of "[kUnknown, kKnownOne]" "[kKnownZero, kUnknown]"] by auto
qed

text \<open>
  \<open>ternary_ops::Intersection\<close> is the best ternary vector that allows every value either operand
  allows; \<open>Difference\<close> keeps what the first operand knows and the second does not, and is absent
  exactly when the two conflict.
\<close>

theorem ternary_intersection_join:
  assumes "length lhs = length rhs"
  shows "\<exists>v. ternary_ops_Intersection lhs rhs = Some v \<and> ternary_ops_UpdateWithIntersection lhs rhs = Some v \<and>
    (\<forall>bs. ternary_allows lhs bs \<or> ternary_allows rhs bs \<longrightarrow> ternary_allows v bs) \<and>
    (\<forall>u. (\<forall>bs. ternary_allows lhs bs \<or> ternary_allows rhs bs \<longrightarrow> ternary_allows u bs) \<longrightarrow>
       (\<forall>bs. ternary_allows v bs \<longrightarrow> ternary_allows u bs)) \<and>
    (case ternary_ops_Difference lhs rhs of
       Some (Some d) \<Rightarrow> \<forall>bs. ternary_allows rhs bs \<longrightarrow> (ternary_allows lhs bs \<longleftrightarrow> ternary_allows d bs)
     | Some None \<Rightarrow> \<forall>bs. \<not> (ternary_allows lhs bs \<and> ternary_allows rhs bs)
     | None \<Rightarrow> False)"
proof -
  obtain v where v: "ternary_ops_Intersection lhs rhs = Some v"
    "\<And>bs. ternary_allows lhs bs \<or> ternary_allows rhs bs \<Longrightarrow> ternary_allows v bs"
    "\<And>u bs. (\<And>bs. ternary_allows lhs bs \<or> ternary_allows rhs bs \<Longrightarrow> ternary_allows u bs) \<Longrightarrow> ternary_allows v bs \<Longrightarrow> ternary_allows u bs"
    using Intersection_allows [OF assms] by metis
  have d: "case ternary_ops_Difference lhs rhs of
       Some (Some d) \<Rightarrow> \<forall>bs. ternary_allows rhs bs \<longrightarrow> (ternary_allows lhs bs \<longleftrightarrow> ternary_allows d bs)
     | Some None \<Rightarrow> \<forall>bs. \<not> (ternary_allows lhs bs \<and> ternary_allows rhs bs)
     | None \<Rightarrow> False"
    using Difference_loop_allows [OF assms] assms by (simp add: ternary_ops_Difference_def split: option.splits)
  show ?thesis
  proof (intro exI [of _ v] conjI allI impI)
    show "ternary_ops_UpdateWithIntersection lhs rhs = Some v" using v(1) by (simp only: UpdateWithIntersection_eq)
  qed (use v d in blast)+
qed

theorem ternary_intersection_join_witness:
  "\<exists>v. ternary_ops_Intersection [kKnownOne] [kKnownZero] = Some v \<and> ternary_allows v [True]"
proof -
  have l: "length [kKnownOne] = length [kKnownZero]" by simp
  have a: "ternary_allows [kKnownOne] [True]" by simp
  show ?thesis
    apply (rule exE [OF ternary_intersection_join [OF l]])
    subgoal for v using a by (intro exI [of _ v] conjI) (elim conjE, assumption, elim conjE, blast)
    done
qed

text \<open>
  parsing what \<open>ToString\<close> prints, with its separators, gives the vector back, and a vector is
  determined by its known positions and their values.
\<close>

theorem ternary_text_round_trip:
  "StringToTernaryVector (ternary_ToString v) = Inr v \<and>
   ternary_ops_FromKnownBits (ternary_ops_ToKnownBits v) (ternary_ops_ToKnownBitsValues v) = Some v"
  using ternary_string_round_trip known_bits_round_trip by blast

text \<open>
  C9: a loop over \<open>AllBitsValues\<close> terminates without a failed \<open>CHECK\<close> and visits exactly the bit
  vectors compatible with the ternary vector, each once, from the smallest to the largest.
\<close>

theorem all_bits_values_enumerates:
  "\<exists>vs. AllBitsValues v = Some vs \<and> set vs = {b. bm_wf b \<and> ternary_ops_IsCompatible v b} \<and>
    sorted_wrt (\<lambda>a b. uval a < uval b) vs"
proof -
  let ?k = "length (RealizedTernaryIterator_FindUnknownOffsets v)"
  have "set (map (rti_value_at v) [0..<2 ^ ?k]) = {b. bm_wf b \<and> ternary_ops_IsCompatible v b}"
    using rti_value_at_set [of v] by (simp add: atLeast0LessThan)
  moreover have "sorted_wrt (\<lambda>a b. uval a < uval b) (map (rti_value_at v) [0..<2 ^ ?k])"
    by (simp add: sorted_wrt_iff_nth_less rti_value_at_order)
  ultimately show ?thesis using AllBitsValues_eq [of v] by blast
qed

text \<open>
  advancing an iterator by a power of two larger than the number of values it ranges over throws from
  \<open>subspan\<close> instead of reaching the end, once the exponent exceeds the number of unknown bits.
\<close>

theorem advance_far_throws:
  assumes "0 < Bits_bit_count (rti_value it)" "\<not> rti_finished it" "length (rti_unknown_bit_offsets it) < m" "m < 63"
  shows "RealizedTernaryIterator_Advance it (2 ^ m) = None"
  using assms by (rule Advance_throws)

theorem advance_far_throws_witness:
  "RealizedTernaryIterator_Advance (RealizedTernaryIterator_begin [kUnknown, kUnknown]) (2 ^ 3) = None"
proof (rule advance_far_throws)
  show "length (rti_unknown_bit_offsets (RealizedTernaryIterator_begin [kUnknown, kUnknown])) < 3"
    by (simp add: RealizedTernaryIterator_begin_def RealizedTernaryIterator_FindUnknownOffsets_def)
qed (simp_all add: RealizedTernaryIterator_begin_def ternary_ops_ToKnownBitsValues_def)

section \<open>Abstract evaluation\<close>

text \<open>
  C10: the Dadda multiplier of the abstract evaluator never fails one of its checks, and for operands of
  any widths its ternary result is compatible with the product \<open>bits_ops::UMul\<close> computes of any values the
  operands are compatible with; \<open>SMul\<close> likewise when both operands are non-empty.
\<close>

theorem ternary_multiplier_sound:
  assumes "bignum_spec B val" "bm_wf x" "bm_wf y" "ternary_ops_IsCompatible a x" "ternary_ops_IsCompatible b y"
  shows "(\<exists>v z. AE_UMul TernaryEvaluator a b = Some v \<and> bits_ops_UMul B x y = Some z \<and> ternary_ops_IsCompatible v z) \<and>
    (0 < Bits_bit_count x \<and> 0 < Bits_bit_count y \<longrightarrow>
      (\<exists>v z. AE_SMul TernaryEvaluator a b = Some v \<and> bits_ops_SMul B x y = Some z \<and> ternary_ops_IsCompatible v z))"
proof (intro conjI impI)
  have r: "list_all2 may_be a (bm_bits x)" "list_all2 may_be b (bm_bits y)" using assms(4,5) by (simp_all add: compatible_may_be)
  show "\<exists>v z. AE_UMul TernaryEvaluator a b = Some v \<and> bits_ops_UMul B x y = Some z \<and> ternary_ops_IsCompatible v z"
    using te.UMul_R [OF r] UMul_eq [OF assms(1-3)] by (auto simp: compatible_may_be uval_def)
  assume "0 < Bits_bit_count x \<and> 0 < Bits_bit_count y"
  then show "\<exists>v z. AE_SMul TernaryEvaluator a b = Some v \<and> bits_ops_SMul B x y = Some z \<and> ternary_ops_IsCompatible v z"
    using te.SMul_R [OF r] SMul_eq [OF assms(1-3)] bm_bits_nonempty
    by (auto simp: compatible_may_be sval_def bm_bits_of_int)
qed

theorem ternary_multiplier_sound_witness:
  "\<exists>v z. AE_UMul TernaryEvaluator [kUnknown, kKnownOne] [kKnownOne, kUnknown] = Some v \<and>
    bits_ops_UMul int_bignum (Bits_of_span [True, True]) (Bits_of_span [True, False]) = Some z \<and> ternary_ops_IsCompatible v z"
proof -
  have "ternary_ops_IsCompatible [kUnknown, kKnownOne] (Bits_of_span [True, True])"
    "ternary_ops_IsCompatible [kKnownOne, kUnknown] (Bits_of_span [True, False])"
    by (simp_all add: IsCompatible_iff)
  from ternary_multiplier_sound [OF int_bignum_spec _ _ this] show ?thesis by simp
qed

text \<open>
  C11: evaluated over plain booleans, the Dadda multiplier, the ripple-carry adder and the long division
  compute exactly what \<open>bits_ops\<close> computes with machine words and big integers.
\<close>

theorem boolean_evaluator_agrees:
  assumes "bignum_spec B val" "bm_wf x" "bm_wf y"
  shows "AE_UMul bool_evaluator (bm_bits x) (bm_bits y) = map_option bm_bits (bits_ops_UMul B x y) \<and>
    (Bits_bit_count x = Bits_bit_count y \<longrightarrow>
      AE_Add bool_evaluator (bm_bits x) (bm_bits y) = map_option bm_bits (bits_ops_Add B x y)) \<and>
    AE_UDiv bool_evaluator (bm_bits x) (bm_bits y) = map_option bm_bits (bits_ops_UDiv B x y) \<and>
    AE_UMod bool_evaluator (bm_bits x) (bm_bits y) = map_option bm_bits (bits_ops_UMod B x y)"
proof (intro conjI impI)
  obtain res where res: "AE_UDivMod bool_evaluator (bm_bits x) (bm_bits y) = Some res"
    "quotient res = nat_to_bl (bm_count x) (if uval y = 0 then 2 ^ bm_count x - 1 else uval x div uval y)"
    "remainder res = nat_to_bl (bm_count y) (if uval y = 0 then 0 else uval x mod uval y)"
    using bool_exact(4) [of "bm_bits x" "bm_bits y"] unfolding uval_def length_bm_bits by blast
  have ones: "nat_to_bl (bm_count x) (2 ^ bm_count x - 1) = replicate (bm_count x) True"
    using nat_to_bl_to_nat [of "replicate (bm_count x) True"] by simp
  show "AE_UDiv bool_evaluator (bm_bits x) (bm_bits y) = map_option bm_bits (bits_ops_UDiv B x y)"
    using res(1,2) UDiv_eq [OF assms] ones by (simp add: AE_UDiv_def)
  show "AE_UMod bool_evaluator (bm_bits x) (bm_bits y) = map_option bm_bits (bits_ops_UMod B x y)"
    using res(1,3) UMod_eq [OF assms] by (simp add: AE_UMod_def)
  show "AE_UMul bool_evaluator (bm_bits x) (bm_bits y) = map_option bm_bits (bits_ops_UMul B x y)"
    using bool_exact(1) [of "bm_bits x" "bm_bits y"] UMul_eq [OF assms] by (simp add: uval_def)
  assume "Bits_bit_count x = Bits_bit_count y"
  then show "AE_Add bool_evaluator (bm_bits x) (bm_bits y) = map_option bm_bits (bits_ops_Add B x y)"
    using bool_exact(3) [of "bm_bits x" "bm_bits y"] Add_eq(2) [OF assms] by (simp add: uval_def)
qed

theorem boolean_evaluator_agrees_witness:
  "AE_UMul bool_evaluator (bm_bits (bits_of_nat 3 5)) (bm_bits (bits_of_nat 2 3)) =
     map_option bm_bits (bits_ops_UMul int_bignum (bits_of_nat 3 5) (bits_of_nat 2 3))"
  using boolean_evaluator_agrees [OF int_bignum_spec, of "bits_of_nat 3 5" "bits_of_nat 2 3"] by simp

text \<open>
  C12: the ternary long division never fails, and its quotient and remainder, unsigned and, for non-empty
  operands, signed, are compatible with those \<open>bits_ops\<close> computes of any compatible values, division by zero
  and the wrap-around of the most negative quotient included.
\<close>

theorem ternary_division_sound:
  assumes "bignum_spec B val" "bm_wf x" "bm_wf y" "ternary_ops_IsCompatible a x" "ternary_ops_IsCompatible b y"
  shows "(\<exists>q r zq zr. AE_UDiv TernaryEvaluator a b = Some q \<and> AE_UMod TernaryEvaluator a b = Some r \<and>
      bits_ops_UDiv B x y = Some zq \<and> bits_ops_UMod B x y = Some zr \<and>
      ternary_ops_IsCompatible q zq \<and> ternary_ops_IsCompatible r zr) \<and>
    (0 < Bits_bit_count x \<and> 0 < Bits_bit_count y \<longrightarrow>
      (\<exists>q r zq zr. AE_SDiv TernaryEvaluator a b = Some q \<and> AE_SMod TernaryEvaluator a b = Some r \<and>
        bits_ops_SDiv B x y = Some zq \<and> bits_ops_SMod B x y = Some zr \<and>
        ternary_ops_IsCompatible q zq \<and> ternary_ops_IsCompatible r zr))"
proof (intro conjI impI)
  have r: "list_all2 may_be a (bm_bits x)" "list_all2 may_be b (bm_bits y)" using assms(4,5) by (simp_all add: compatible_may_be)
  have ones: "nat_to_bl (bm_count x) (2 ^ bm_count x - 1) = replicate (bm_count x) True"
    using nat_to_bl_to_nat [of "replicate (bm_count x) True"] by simp
  obtain res where res: "AE_UDivMod TernaryEvaluator a b = Some res"
    "list_all2 may_be (quotient res) (nat_to_bl (bm_count x) (if uval y = 0 then 2 ^ bm_count x - 1 else uval x div uval y))"
    "list_all2 may_be (remainder res) (nat_to_bl (bm_count y) (if uval y = 0 then 0 else uval x mod uval y))"
    using te.UDivMod_R [OF r] unfolding uval_def length_bm_bits by blast
  show "\<exists>q r zq zr. AE_UDiv TernaryEvaluator a b = Some q \<and> AE_UMod TernaryEvaluator a b = Some r \<and>
      bits_ops_UDiv B x y = Some zq \<and> bits_ops_UMod B x y = Some zr \<and>
      ternary_ops_IsCompatible q zq \<and> ternary_ops_IsCompatible r zr"
    using res UDiv_eq [OF assms(1-3)] UMod_eq [OF assms(1-3)] ones
    by (cases "uval y = 0") (simp_all add: AE_UDiv_def AE_UMod_def compatible_may_be)
  assume "0 < Bits_bit_count x \<and> 0 < Bits_bit_count y"
  then have p: "0 < Bits_bit_count x" "0 < Bits_bit_count y" by blast+
  let ?n = "Bits_bit_count x"
  obtain sres where s: "AE_SDivMod TernaryEvaluator a b = Some sres"
    "list_all2 may_be (quotient sres) (int_to_bl ?n
       (if sval y = 0 then if sval x < 0 then - (2 ^ (?n - 1)) else 2 ^ (?n - 1) - 1 else sval x sdiv sval y))"
    "list_all2 may_be (remainder sres) (int_to_bl (Bits_bit_count y) (if sval y = 0 then 0 else sval x smod sval y))"
    using te.SDivMod_R [OF r bm_bits_nonempty [OF p(1)] bm_bits_nonempty [OF p(2)]] unfolding sval_def length_bm_bits
    by blast
  obtain zq where zq: "bits_ops_SDiv B x y = Some zq" "bm_bits zq = int_to_bl ?n
       (if sval y = 0 then if sval x < 0 then - (2 ^ (?n - 1)) else 2 ^ (?n - 1) - 1 else sval x sdiv sval y)"
    using SDiv_bits [OF assms(1-3) p(1)] by blast
  have "ternary_ops_IsCompatible (quotient sres) zq" using s(2) unfolding compatible_may_be zq(2) .
  moreover have "ternary_ops_IsCompatible (remainder sres) (bits_of_int (Bits_bit_count y) (if sval y = 0 then 0 else sval x smod sval y))"
    using s(3) unfolding compatible_may_be bm_bits_of_int .
  ultimately show "\<exists>q r zq zr. AE_SDiv TernaryEvaluator a b = Some q \<and> AE_SMod TernaryEvaluator a b = Some r \<and>
        bits_ops_SDiv B x y = Some zq \<and> bits_ops_SMod B x y = Some zr \<and>
        ternary_ops_IsCompatible q zq \<and> ternary_ops_IsCompatible r zr"
    using s(1) zq(1) SMod_eq [OF assms(1-3)] unfolding AE_SDiv_def AE_SMod_def by simp
qed

theorem ternary_division_sound_witness:
  "\<exists>q zq. AE_UDiv TernaryEvaluator [kUnknown, kKnownOne] [kKnownZero] = Some q \<and>
    bits_ops_UDiv int_bignum (Bits_of_span [True, True]) (Bits_of_span [False]) = Some zq \<and> ternary_ops_IsCompatible q zq"
proof -
  have "ternary_ops_IsCompatible [kUnknown, kKnownOne] (Bits_of_span [True, True])"
    "ternary_ops_IsCompatible [kKnownZero] (Bits_of_span [False])"
    by (simp_all add: IsCompatible_iff)
  from ternary_division_sound [OF int_bignum_spec _ _ this] show ?thesis by (simp, blast)
qed

text \<open>
  C13: a select over ternary vectors, binary with or without a default and by priority, is compatible with the case
  that any concrete selector chooses, even though it also uses that the selector cannot be zero.
\<close>

theorem ternary_select_sound:
  assumes "ternary_allows sel s" "list_all2 ternary_allows cases vs" "\<forall>v \<in> set vs. length v = w" "vs \<noteq> []"
    "ternary_allows def d" "length d = w" "length vs \<le> 2 ^ length s" "length vs < 2 ^ 64"
  shows "(\<exists>r. AE_Select TernaryEvaluator sel cases (Some def) = Some r \<and>
      ternary_allows r (if bl_to_nat s < length vs then vs ! bl_to_nat s else d)) \<and>
    (length vs = 2 ^ length s \<longrightarrow>
      (\<exists>r. AE_Select TernaryEvaluator sel cases None = Some r \<and> ternary_allows r (vs ! bl_to_nat s))) \<and>
    (length s = length vs \<and> (can_be_zero \<or> True \<in> set s) \<longrightarrow>
      (\<exists>r. AE_PrioritySelect TernaryEvaluator sel cases can_be_zero = Some r \<and>
        ternary_allows r (case find fst (zip s vs) of Some (b, v) \<Rightarrow> v | None \<Rightarrow> replicate w False)))"
proof -
  have al: "ternary_allows = list_all2 may_be" by (intro ext) (simp add: ternary_allows_may_be)
  note a = assms [unfolded al]
  have "\<exists>r. AE_Select TernaryEvaluator sel cases None = Some r \<and> list_all2 may_be r (vs ! bl_to_nat s)"
    if "length vs = 2 ^ length s"
    using te.Select_R [OF a(1-3,7,8)] bl_to_nat_less [of s] that by simp
  moreover have "\<exists>r. AE_PrioritySelect TernaryEvaluator sel cases can_be_zero = Some r \<and>
      list_all2 may_be r (case find fst (zip s vs) of Some (b, v) \<Rightarrow> v | None \<Rightarrow> replicate w False)"
    if "length s = length vs" "can_be_zero \<or> True \<in> set s"
    unfolding AE_PrioritySelect_def by (rule te.PrioritySelectInternal_R [OF a(1,2) that(1) a(4,3) that(2)])
  ultimately show ?thesis unfolding al using te.Select_default_R [OF a(1-3,7,8,4-6)] by blast
qed

theorem ternary_select_sound_witness:
  "\<exists>r. AE_Select TernaryEvaluator [kUnknown] [[kKnownOne, kKnownZero], [kKnownOne, kKnownOne]] (Some [kUnknown, kUnknown]) = Some r \<and>
    ternary_allows r [True, True]"
  using ternary_select_sound [of "[kUnknown]" "[True]" "[[kKnownOne, kKnownZero], [kKnownOne, kKnownOne]]"
      "[[True, False], [True, True]]" 2 "[kUnknown, kUnknown]" "[False, False]"]
  by simp

text \<open>
  shifts by a ternary amount of any width, the update of a slice at a ternary position and the
  comparisons never fail, and allow what \<open>bits_ops\<close> and the comparison of the numbers give for any values the
  operands allow; the shifted vector only has to be narrower than \<open>2 ^ 64\<close>.
\<close>

theorem ternary_shift_compare_sound:
  assumes "bm_wf x" "bm_wf u" "ternary_ops_IsCompatible a x" "ternary_ops_IsCompatible n y" "ternary_ops_IsCompatible b u"
    "Bits_bit_count x < 2 ^ 64"
  shows "(\<exists>v z. AE_ShiftLeftLogical TernaryEvaluator a n = Some v \<and> bits_ops_ShiftLeftLogical x (uval y) = Some z \<and> ternary_ops_IsCompatible v z) \<and>
    (\<exists>v z. AE_ShiftRightLogical TernaryEvaluator a n = Some v \<and> bits_ops_ShiftRightLogical x (uval y) = Some z \<and> ternary_ops_IsCompatible v z) \<and>
    (\<exists>v z. AE_ShiftRightArith TernaryEvaluator a n = Some v \<and> bits_ops_ShiftRightArith x (uval y) = Some z \<and> ternary_ops_IsCompatible v z) \<and>
    (\<exists>v z. AE_BitSliceUpdate TernaryEvaluator a n b = Some v \<and> bits_ops_BitSliceUpdate x (uval y) u = Some z \<and> ternary_ops_IsCompatible v z) \<and>
    (Bits_bit_count x = Bits_bit_count u \<longrightarrow>
      (\<exists>t. AE_ULessThan TernaryEvaluator a b = Some t \<and> (t = kUnknown \<or> (uval x < uval u) = (t = kKnownOne))) \<and>
      (\<exists>t. AE_Equals TernaryEvaluator a b = Some t \<and> (t = kUnknown \<or> (uval x = uval u) = (t = kKnownOne))))"
proof -
  have r: "list_all2 may_be a (bm_bits x)" "list_all2 may_be n (bm_bits y)" "list_all2 may_be b (bm_bits u)"
    using assms(3-5) by (simp_all add: compatible_may_be)
  have l: "length (bm_bits x) < 2 ^ 64" using assms(6) by simp
  have "\<exists>v z. AE_ShiftLeftLogical TernaryEvaluator a n = Some v \<and> bits_ops_ShiftLeftLogical x (uval y) = Some z \<and> ternary_ops_IsCompatible v z"
    using te.ShiftLeftLogical_R [OF r(1,2) l] ShiftLeftLogical_eq [OF assms(1)] by (auto simp: compatible_may_be uval_def)
  moreover have "\<exists>v z. AE_ShiftRightLogical TernaryEvaluator a n = Some v \<and> bits_ops_ShiftRightLogical x (uval y) = Some z \<and> ternary_ops_IsCompatible v z"
    using te.ShiftRightLogical_R [OF r(1,2) l] ShiftRightLogical_eq [OF assms(1)] by (auto simp: compatible_may_be uval_def)
  moreover have "\<exists>v z. AE_ShiftRightArith TernaryEvaluator a n = Some v \<and> bits_ops_ShiftRightArith x (uval y) = Some z \<and> ternary_ops_IsCompatible v z"
    using te.ShiftRightArith_R [OF r(1,2) l] ShiftRightArith_eq [OF assms(1)] by (auto simp: compatible_may_be uval_def sval_def bits_of_int_bits)
  moreover have "\<exists>v z. AE_BitSliceUpdate TernaryEvaluator a n b = Some v \<and> bits_ops_BitSliceUpdate x (uval y) u = Some z \<and> ternary_ops_IsCompatible v z"
    using te.BitSliceUpdate_R [OF r l] unfolding BitSliceUpdate_eq [OF assms(1,2)] length_bm_bits uval_def compatible_may_be by auto
  moreover have "\<exists>t. AE_ULessThan TernaryEvaluator a b = Some t \<and> (t = kUnknown \<or> (uval x < uval u) = (t = kKnownOne))"
    if "Bits_bit_count x = Bits_bit_count u" using te.ULessThan_R [OF r(1,3)] that by (auto simp: uval_def may_be_def)
  moreover have "\<exists>t. AE_Equals TernaryEvaluator a b = Some t \<and> (t = kUnknown \<or> (uval x = uval u) = (t = kKnownOne))"
    if "Bits_bit_count x = Bits_bit_count u" using te.Equals_R [OF r(1,3)] that by (auto simp: uval_def may_be_def)
  ultimately show ?thesis by blast
qed

theorem ternary_shift_compare_sound_witness:
  "\<exists>v z. AE_ShiftLeftLogical TernaryEvaluator [kUnknown, kKnownOne] [kUnknown] = Some v \<and>
    bits_ops_ShiftLeftLogical (Bits_of_span [True, True]) (uval (Bits_of_span [True])) = Some z \<and> ternary_ops_IsCompatible v z"
proof -
  have "ternary_ops_IsCompatible [kUnknown, kKnownOne] (Bits_of_span [True, True])"
    "ternary_ops_IsCompatible [kUnknown] (Bits_of_span [True])"
    by (simp_all add: IsCompatible_iff)
  from ternary_shift_compare_sound [OF _ _ this(1,2,2)] show ?thesis by simp
qed

section \<open>Intervals and interval sets\<close>

text \<open>
  C14: The invariant of interval sets: adding an interval of the set's width keeps it (an interval of another
  width fails a check), and \<open>Normalize\<close> of any valid set returns a valid set that is marked as
  normalized, for the same points, with no more intervals than any list of proper intervals for these points
  has; equality of two valid sets decides whether they have the same width and the same points, in whatever
  form they are.
\<close>

theorem interval_set_normalize:
  assumes "is_wf n s" "is_wf m t" "iv_wf iv"
  shows "(if iv_width iv = n
      then \<exists>u. IntervalSet_AddInterval s iv = Some u \<and> is_wf n u \<and> \<not> IntervalSet_IsNormalized u \<and>
        is_points u = is_points s \<union> iv_points iv
      else IntervalSet_AddInterval s iv = None) \<and>
    (\<exists>u. IntervalSet_Normalize s = Some u \<and> is_wf n u \<and> IntervalSet_IsNormalized u \<and> is_points u = is_points s \<and>
      (\<forall>xs. (\<forall>x \<in> set xs. iv_proper n x) \<longrightarrow> (\<Union>x \<in> set xs. iv_points x) = is_points s \<longrightarrow>
        IntervalSet_NumberOfIntervals u \<le> length xs)) \<and>
    (IntervalSet_eq s t = Some (n = m \<and> is_points s = is_points t))"
proof -
  have "if iv_width iv = n
      then \<exists>u. IntervalSet_AddInterval s iv = Some u \<and> is_wf n u \<and> \<not> IntervalSet_IsNormalized u \<and>
        is_points u = is_points s \<union> iv_points iv
      else IntervalSet_AddInterval s iv = None"
    using AddInterval_eq [OF assms(1,3)] AddInterval_other_width [OF assms(1,3)]
    by (simp add: IntervalSet_IsNormalized_def)
  obtain ps where ps: "IntervalSet_Normalize s = Some (is_of n ps)" "bounds_ok n ps" "gapped ps" "cov ps = is_points s"
    using Normalize_eq [OF assms(1)] .
  have "length ps \<le> length xs" if h: "\<forall>x \<in> set xs. iv_proper n x" "(\<Union>x \<in> set xs. iv_points x) = is_points s" for xs
  proof -
    obtain qs where "xs = ivs n qs" "bounds_ok n qs" using ivs_exists [OF h(1)] .
    then show ?thesis using gapped_minimal [OF ps(3,2), of qs] ivs_points [of n qs] h(2) ps(4) by simp
  qed
  then have "\<exists>u. IntervalSet_Normalize s = Some u \<and> is_wf n u \<and> IntervalSet_IsNormalized u \<and> is_points u = is_points s \<and>
      (\<forall>xs. (\<forall>x \<in> set xs. iv_proper n x) \<longrightarrow> (\<Union>x \<in> set xs. iv_points x) = is_points s \<longrightarrow>
        IntervalSet_NumberOfIntervals u \<le> length xs)"
    using ps is_wf_of [OF ps(2,3)] by (simp add: IntervalSet_IsNormalized_def IntervalSet_NumberOfIntervals_def)
  have "IntervalSet_eq s t = Some (n = m \<and> is_points s = is_points t)" by (rule IntervalSet_eq_iff [OF assms(1,2)])
  show ?thesis by (intro conjI; fact)
qed

theorem interval_set_normalize_witness:
  "\<exists>u. IntervalSet_Normalize \<lparr>is_is_normalized = False, is_bit_count = 3, is_intervals = [iv_of 3 6 1, iv_of 3 2 4]\<rparr> = Some u \<and>
    is_wf 3 u \<and> is_points u = {0, 1, 2, 3, 4, 6, 7}"
proof -
  let ?s = "\<lparr>is_is_normalized = False, is_bit_count = 3, is_intervals = [iv_of 3 6 1, iv_of 3 2 4]\<rparr>"
  have s: "is_wf 3 ?s" by (simp add: is_wf_def)
  have "is_points ?s = {0, 1, 2, 3, 4, 6, 7}" by (auto simp: is_points_def iv_points_def)
  then show ?thesis using interval_set_normalize [OF s s iv_wf_of [of 3 0 0]] by auto
qed

text \<open>
  C15: On normalized sets of one width \<open>Combine\<close>, \<open>Intersect\<close> and \<open>Complement\<close> return, with no failed
  check and in finitely many steps of their loops, the normalized set of the union, the intersection and the
  complement of the points; so De Morgan's law and the double complement hold for the sets as they are
  represented.
\<close>

theorem interval_set_algebra:
  assumes "is_normal n s" "is_normal n t"
  shows "(\<exists>u. IntervalSet_Combine s t = Some u \<and> is_normal n u \<and> is_points u = is_points s \<union> is_points t) \<and>
    (\<exists>u. IntervalSet_Intersect s t = Some u \<and> is_normal n u \<and> is_points u = is_points s \<inter> is_points t) \<and>
    (\<exists>u. IntervalSet_Complement s = Some u \<and> is_normal n u \<and> is_points u = {..<2 ^ n} - is_points s) \<and>
    (IntervalSet_Combine s t \<bind> IntervalSet_Complement =
      IntervalSet_Complement s \<bind> (\<lambda>a. IntervalSet_Complement t \<bind> IntervalSet_Intersect a)) \<and>
    (IntervalSet_Complement s \<bind> IntervalSet_Complement = Some s)"
  using assms isa.join_total isa.meet_total isa.compl_total isa.de_morgan isa.compl_compl by (intro conjI) blast+

theorem interval_set_algebra_witness:
  "\<exists>u. IntervalSet_Intersect (is_of 4 [(1, 9), (12, 14)]) (is_of 4 [(0, 3), (6, 12)]) = Some u \<and> is_normal 4 u \<and>
    is_points u = {1, 2, 3, 6, 7, 8, 9, 12}"
proof -
  have n: "is_normal 4 (is_of 4 [(1, 9), (12, 14)])" "is_normal 4 (is_of 4 [(0, 3), (6, 12)])" by auto
  have "cov [(1, 9), (12, 14)] \<inter> cov [(0, 3), (6, 12)] = {1, 2, 3, 6, 7, 8, 9, 12}" by auto
  then show ?thesis using interval_set_algebra [OF n] by simp
qed

text \<open>
  Reading a normalized set: \<open>Covers\<close> decides membership, \<open>ForEachElement\<close> calls back once for each member
  in increasing order until it is told to stop, \<open>Index\<close> returns the member at a position and nothing beyond
  the last, \<open>Size\<close> counts the members when their number fits an \<open>int64_t\<close>, and the bounds and the hull are
  the least and the greatest member.
\<close>

theorem interval_set_members:
  fixes n :: nat and B :: "'bn bignum"
  defines "elements s \<equiv> sorted_list_of_set (is_points s)"
  assumes B: "bignum_spec B val" and s: "is_normal n s" and b: "bm_wf b" "Bits_bit_count b = n"
  shows "(IntervalSet_Covers s b = Some (uval b \<in> is_points s)) \<and>
    (IntervalSet_ForEachElement callback s st = Some (run_callback callback st (map (bits_of_nat n) (elements s)))) \<and>
    (IntervalSet_Index B s b =
      Some (if uval b < length (elements s) then Some (bits_of_nat n (elements s ! uval b)) else None)) \<and>
    (length (elements s) < 2 ^ 63 \<longrightarrow> IntervalSet_Size B s = Some (Some (length (elements s)))) \<and>
    (IntervalSet_ConvexHull s =
      Some (if is_points s = {} then None else Some (iv_of n (Min (is_points s)) (Max (is_points s)))))"
proof -
  obtain ps where ps: "s = is_of n ps" "bounds_ok n ps" "gapped ps" "is_points s = cov ps" using is_normal_cases [OF s] .
  have l: "length (elements s) = card (cov ps)" using ps(3,4) elems_eq length_elems unfolding elements_def by metis
  have "IntervalSet_Covers s b = Some (uval b \<in> is_points s)" using Covers_set_iff [OF _ b] s by (simp add: is_normal_def)
  have "IntervalSet_ForEachElement callback s st = Some (run_callback callback st (map (bits_of_nat n) (elements s)))"
    using ForEachElement_set_eq [OF ps(2,3)] ps(1,4) unfolding elements_def by simp
  have "IntervalSet_Index B s b =
      Some (if uval b < length (elements s) then Some (bits_of_nat n (elements s ! uval b)) else None)"
    using Index_set_eq [OF B ps(2,3) b] ps(1,4) l unfolding elements_def by simp
  have "length (elements s) < 2 ^ 63 \<longrightarrow> IntervalSet_Size B s = Some (Some (length (elements s)))"
    using Size_set_eq [OF B ps(2,3)] ps(1) l by simp
  have "IntervalSet_ConvexHull s =
      Some (if is_points s = {} then None else Some (iv_of n (Min (is_points s)) (Max (is_points s))))"
    using ConvexHull_set_eq [OF ps(2,3)] ps(1,4) by simp
  show ?thesis by (intro conjI; fact)
qed

theorem interval_set_members_witness:
  "IntervalSet_Index int_bignum (is_of 4 [(2, 3), (5, 7)]) (bits_of_nat 4 3) = Some (Some (bits_of_nat 4 6))"
proof -
  have n: "is_normal 4 (is_of 4 [(2, 3), (5, 7)])" by auto
  have "sorted_list_of_set (is_points (is_of 4 [(2, 3), (5, 7)])) = [2, 3, 5, 6, 7]"
    using elems_eq [of "[(2, 3), (5, 7)]"] by (simp add: upt_rec)
  then show ?thesis
    using interval_set_members [OF int_bignum_spec n, where b = "bits_of_nat 4 3" and callback = "\<lambda>u v. (u, False)" and st = "()"] by simp
qed

text \<open>
  The tests that avoid building a set agree with building it: \<open>Disjoint\<close>, which looks at hulls and walks the
  two lists in step, answers whether the set \<open>Intersect\<close> returns is empty, and \<open>IsTrueWhenMaskWith\<close>, which
  looks only at the common prefix of the bounds of each interval, answers whether a member has a bit in common
  with the mask.
\<close>

theorem interval_set_shortcuts:
  assumes "is_normal n s" "is_normal n t" "bm_wf v" "Bits_bit_count v = n"
  shows "(IntervalSet_Disjoint s t = IntervalSet_Intersect s t \<bind> IntervalSet_IsEmpty) \<and>
    (IntervalSet_IsTrueWhenMaskWith s v = Some (\<exists>x \<in> is_points s. x AND uval v \<noteq> 0)) \<and>
    (IntervalSet_IsMaximal s = Some (is_points s = {..<2 ^ n}))"
proof -
  obtain A where A: "s = is_of n A" "bounds_ok n A" "gapped A" "is_points s = cov A" using is_normal_cases [OF assms(1)] .
  obtain B where B: "t = is_of n B" "bounds_ok n B" "gapped B" "is_points t = cov B" using is_normal_cases [OF assms(2)] .
  obtain u where u: "IntervalSet_Intersect s t = Some u" "is_normal n u" "is_points u = is_points s \<inter> is_points t"
    using isa.meet_total [OF assms(1,2)] by blast
  obtain C where C: "u = is_of n C" "bounds_ok n C" "is_points u = cov C" using is_normal_cases [OF u(2)] .
  have "IntervalSet_Disjoint s t = IntervalSet_Intersect s t \<bind> IntervalSet_IsEmpty"
    using Disjoint_iff [OF A(2) B(2) A(3) B(3)] IsEmpty_iff [OF C(2)] A B C u by simp
  have "IntervalSet_IsTrueWhenMaskWith s v = Some (\<exists>x \<in> is_points s. x AND uval v \<noteq> 0)"
    using MaskWith_iff [OF A(2) assms(3,4)] A by simp
  have "IntervalSet_IsMaximal s = Some (is_points s = {..<2 ^ n})" using IsMaximal_set_iff [OF A(2,3)] A by simp
  show ?thesis by (intro conjI; fact)
qed

theorem interval_set_shortcuts_witness:
  "IntervalSet_IsTrueWhenMaskWith (is_of 3 [(2, 3), (5, 7)]) (bits_of_nat 3 4) = Some True"
proof -
  have n: "is_normal 3 (is_of 3 [(2, 3), (5, 7)])" by auto
  have "\<exists>x \<in> cov [(2, 3), (5, 7)]. x AND 4 \<noteq> 0" by (intro bexI [of _ 5]) simp_all
  then show ?thesis using interval_set_shortcuts [OF n n, of "bits_of_nat 3 4"] by simp
qed

text \<open>
  The operations on two proper intervals of one width compute on the numbers they cover: overlap and
  abutment are decided, the hull is the least interval around both, the intersection is none or exact, the
  difference is a list of intervals for exactly the set difference, and \<open>SizeBits\<close> is exact at one bit more
  than the width, for improper intervals too.
\<close>

theorem interval_pairs_exact:
  assumes "iv_proper n x" "iv_proper n y" "bignum_spec B val" "iv_wf iv"
  shows "(Interval_Overlaps x y = Some (iv_points x \<inter> iv_points y \<noteq> {})) \<and>
    (Interval_Abuts x y = Some (iv_hi x + 1 = iv_lo y \<or> iv_hi y + 1 = iv_lo x)) \<and>
    (\<exists>h. Interval_ConvexHull x y = Some h \<and> iv_proper n h \<and>
      iv_points h = {Min (iv_points x \<union> iv_points y)..Max (iv_points x \<union> iv_points y)}) \<and>
    (\<exists>i. Interval_Intersect x y = Some i \<and> (case i of None \<Rightarrow> iv_points x \<inter> iv_points y = {}
      | Some z \<Rightarrow> iv_proper n z \<and> iv_points z = iv_points x \<inter> iv_points y)) \<and>
    (\<exists>ds. Interval_Difference x y = Some ds \<and> (\<forall>d \<in> set ds. iv_proper n d) \<and>
      (\<Union>d \<in> set ds. iv_points d) = iv_points x - iv_points y) \<and>
    (Interval_SizeBits B iv = Some (bits_of_nat (iv_width iv + 1) (card (iv_points iv))) \<and>
      card (iv_points iv) < 2 ^ (iv_width iv + 1))"
proof -
  obtain a b where x: "x = iv_of n a b" "a \<le> b" "b < 2 ^ n" using iv_proper_cases [OF assms(1)] .
  obtain c d where y: "y = iv_of n c d" "c \<le> d" "d < 2 ^ n" using iv_proper_cases [OF assms(2)] .
  note l = x(2,3) y(2,3)
  have p: "iv_points x = {a..b}" "iv_points y = {c..d}" "iv_lo x = a" "iv_hi x = b" "iv_lo y = c" "iv_hi y = d"
    using x y by simp_all
  have i: "{a..b} \<inter> {c..d} = {} \<longleftrightarrow> \<not> (c \<le> b \<and> a \<le> d)" using l by auto
  have "Interval_Overlaps x y = Some (iv_points x \<inter> iv_points y \<noteq> {})" using Overlaps_of [OF l] x y i by simp
  have "Interval_Abuts x y = Some (iv_hi x + 1 = iv_lo y \<or> iv_hi y + 1 = iv_lo x)" unfolding p using Abuts_of [OF l] x y by simp
  have "Min ({a..b} \<union> {c..d}) = min a c" "Max ({a..b} \<union> {c..d}) = max b d"
    using l by (intro Min_eqI, auto) (intro Max_eqI, auto)
  moreover have m: "min a c \<le> max b d" "max b d < 2 ^ n" using l by auto
  ultimately have "\<exists>h. Interval_ConvexHull x y = Some h \<and> iv_proper n h \<and>
      iv_points h = {Min (iv_points x \<union> iv_points y)..Max (iv_points x \<union> iv_points y)}"
    unfolding p using ConvexHull_of [OF l] x(1) y(1) iv_points_of [OF m] iv_proper_of [OF m] by simp
  have "\<exists>i. Interval_Intersect x y = Some i \<and> (case i of None \<Rightarrow> iv_points x \<inter> iv_points y = {}
      | Some z \<Rightarrow> iv_proper n z \<and> iv_points z = iv_points x \<inter> iv_points y)"
    unfolding p x(1) y(1) Intersect_of [OF l] using l i by auto
  have "\<exists>ds. Interval_Difference x y = Some ds \<and> (\<forall>d \<in> set ds. iv_proper n d) \<and>
      (\<Union>d \<in> set ds. iv_points d) = iv_points x - iv_points y"
    unfolding p x(1) y(1) Difference_of [OF l] using l by auto
  have "Interval_SizeBits B iv = Some (bits_of_nat (iv_width iv + 1) (card (iv_points iv)))"
    "card (iv_points iv) < 2 ^ (iv_width iv + 1)"
    by (rule SizeBits_eq [OF assms(3,4)], rule iv_points_card_less [OF assms(4)])
  show ?thesis by (intro conjI; fact)
qed

theorem interval_pairs_exact_witness:
  "Interval_Overlaps (iv_of 3 1 4) (iv_of 3 4 6) = Some True \<and>
   Interval_SizeBits int_bignum (iv_of 3 6 1) = Some (bits_of_nat 4 (card {6, 7, 0, 1::nat}))"
proof -
  have x: "iv_proper 3 (iv_of 3 1 4)" "iv_proper 3 (iv_of 3 4 6)" by simp_all
  have "iv_points (iv_of 3 6 1) = {6, 7, 0, 1}" by (auto simp: iv_points_def)
  then show ?thesis
    using interval_pairs_exact [OF x int_bignum_spec iv_wf_of [of 3 6 1]] by simp
qed

section \<open>Operations on interval sets\<close>

text \<open>
  C16: Interval arithmetic over-approximates: for normalized, non-empty sets of values \<open>Add\<close>, \<open>Sub\<close>, \<open>Neg\<close>,
  \<open>UMul\<close> (to any result width) and \<open>UDiv\<close> return, with no failed check, a normalized set of the result's
  width that has the result of the operation of \<open>bits_ops\<close> on any members of the operands; this covers the
  wrap-around of sums, differences and products, the intervals that wrap past the largest value, the limit on the
  number of intervals and the division by zero, whose result is all ones. The one exception is \<open>UDiv\<close> by a set of vectors of no bits, which fails a
  check, always: it asks for the set of the nonzero values of that width. The arbitrary precision integers
  behind the operations are any that meet their contract.
\<close>

theorem interval_arithmetic_sound:
  assumes "bignum_spec B val" "is_operand n a" "is_operand n b" "is_operand m c"
  shows "(\<exists>u. interval_ops_Add B a b = Some u \<and> covers2 n n n u a b (bits_ops_Add B)) \<and>
    (\<exists>u. interval_ops_Sub B a b = Some u \<and> covers2 n n n u a b (bits_ops_Sub B)) \<and>
    (\<exists>u. interval_ops_Neg B a = Some u \<and> covers1 n n u a (bits_ops_Negate B)) \<and>
    (\<exists>u. interval_ops_UMul B a c w = Some u \<and>
      covers2 n m w u a c (\<lambda>x y. map_option (\<lambda>z. InlineBitmap_WithSize z w False) (bits_ops_UMul B x y))) \<and>
    (if m = 0 then interval_ops_UDiv B a c = None
     else \<exists>u. interval_ops_UDiv B a c = Some u \<and> covers2 n m n u a c (bits_ops_UDiv B))"
proof -
  have ia: "interval_arith B val" using assms(1) by unfold_locales
  have "if m = 0 then interval_ops_UDiv B a c = None else \<exists>u. interval_ops_UDiv B a c = Some u \<and> covers2 n m n u a c (bits_ops_UDiv B)"
    using UDiv_zero_width [OF assms(2), of c B] interval_arith.UDiv_sound [OF ia assms(2,4)] assms(4) by (cases "m = 0") simp_all
  then show ?thesis
    by (intro conjI interval_arith.Add_sound [OF ia assms(2,3)] interval_arith.Sub_sound [OF ia assms(2,3)]
        interval_arith.Neg_sound [OF ia assms(2)] interval_arith.UMul_sound [OF ia assms(2,4)])
qed

theorem interval_arithmetic_sound_witness:
  "\<exists>u. interval_ops_Add int_bignum (is_of 4 [(13, 15)]) (is_of 4 [(2, 2)]) = Some u \<and> 1 \<in> is_points u \<and>
    (\<exists>v. interval_ops_UDiv int_bignum (is_of 4 [(13, 15)]) (is_of 4 [(2, 2)]) = Some v \<and> 7 \<in> is_points v)"
proof -
  have n: "is_operand 4 (is_of 4 [(13, 15)])" "is_operand 4 (is_of 4 [(2, 2)])" by (rule is_operand_of; simp)+
  have m: "is_member 4 (is_of 4 [(13, 15)]) (bits_of_nat 4 15)" "is_member 4 (is_of 4 [(2, 2)]) (bits_of_nat 4 2)"
    by (simp_all add: is_member_of_nat)
  note s = interval_arithmetic_sound [OF int_bignum_spec n n(2), of 1]
  obtain u where u: "interval_ops_Add int_bignum (is_of 4 [(13, 15)]) (is_of 4 [(2, 2)]) = Some u"
    "covers2 4 4 4 u (is_of 4 [(13, 15)]) (is_of 4 [(2, 2)]) (bits_ops_Add int_bignum)" using s by auto
  obtain v where v: "interval_ops_UDiv int_bignum (is_of 4 [(13, 15)]) (is_of 4 [(2, 2)]) = Some v"
    "covers2 4 4 4 v (is_of 4 [(13, 15)]) (is_of 4 [(2, 2)]) (bits_ops_UDiv int_bignum)" using s by auto
  have "is_member 4 u (bits_of_nat 4 17)" "is_member 4 v (bits_of_nat 4 7)"
    using u(2) v(2) m Add_eq(2) [OF int_bignum_spec, of "bits_of_nat 4 15" "bits_of_nat 4 2"]
      UDiv_eq [OF int_bignum_spec, of "bits_of_nat 4 15" "bits_of_nat 4 2"] unfolding covers2_def by fastforce+
  then have "1 \<in> is_points u" "7 \<in> is_points v" by (simp_all add: is_member_def)
  then show ?thesis using u(1) v(1) by blast
qed

text \<open>
  C17: The operations that move or resize bits are sound in the same sense: logical right shift by a set of
  amounts, sign and zero extension, truncation, the slice of some bits, and the concatenation of any number of
  operands (more than twelve of which are reduced to one interval each). The widths are those of an \<open>int64_t\<close>.
\<close>

theorem interval_resizing_sound:
  assumes "bignum_spec B val" "is_operand n a" "n < 2 ^ 63" "is_operand m b" "n \<le> w" "start + k \<le> n"
    and "sets \<noteq> []" "length ns = length sets" "\<forall>i < length sets. is_operand (ns ! i) (sets ! i)"
  shows "(\<exists>u. interval_ops_Shrl B a b = Some u \<and> covers2 n m n u a b (\<lambda>x y. bits_ops_ShiftRightLogical x (uval y))) \<and>
    (\<exists>u. interval_ops_SignExtend B a w = Some u \<and> covers1 n w u a (\<lambda>x. bits_ops_SignExtend x w)) \<and>
    (\<exists>u. interval_ops_ZeroExtend B a w = Some u \<and> covers1 n w u a (\<lambda>x. bits_ops_ZeroExtend x w)) \<and>
    (\<exists>u. interval_ops_Truncate B a k = Some u \<and> covers1 n k u a (\<lambda>x. bits_ops_Truncate x k)) \<and>
    (\<exists>u. interval_ops_BitSlice B a start k = Some u \<and> covers1 n k u a (\<lambda>x. Bits_Slice x start k)) \<and>
    (\<exists>u. interval_ops_Concat B sets = Some u \<and> is_normal (sum_list ns) u \<and>
      (\<forall>bs. length bs = length sets \<longrightarrow> (\<forall>i < length sets. is_member (ns ! i) (sets ! i) (bs ! i)) \<longrightarrow>
        (\<exists>z. bits_ops_Concat bs = Some z \<and> is_member (sum_list ns) u z)))"
proof -
  have ia: "interval_arith B val" using assms(1) by unfold_locales
  have "k \<le> n" using assms(6) by simp
  note t = interval_arith.Truncate_sound [OF ia is_operand_simps(2) [OF assms(2)] this]
  note c = interval_arith.Concat_sound [OF ia assms(7,8), rule_format, OF assms(9) [rule_format]]
  show ?thesis
    by (intro conjI interval_arith.Shrl_sound [OF ia assms(2,4,3)] interval_arith.SignExtend_sound [OF ia assms(2,5)]
        interval_arith.ZeroExtend_sound [OF ia assms(2,5)] t interval_arith.BitSlice_sound [OF ia assms(2,6,3)] c)
qed

theorem interval_resizing_sound_witness:
  "\<exists>u. interval_ops_BitSlice int_bignum (is_of 4 [(11, 13)]) 1 2 = Some u \<and> {1, 2} \<subseteq> is_points u"
proof -
  let ?a = "is_of 4 [(11, 13)]"
  have n: "is_operand 4 ?a" by (rule is_operand_of; simp)
  have m: "is_member 4 ?a (bits_of_nat 4 11)" "is_member 4 ?a (bits_of_nat 4 13)" by (simp_all add: is_member_of_nat)
  obtain u where u: "interval_ops_BitSlice int_bignum ?a 1 2 = Some u" "covers1 4 2 u ?a (\<lambda>x. Bits_Slice x 1 2)"
    using interval_resizing_sound [OF int_bignum_spec n _ n, of 4 1 2 "[?a]" "[4]"] n by auto
  have "is_member 2 u (bits_of_nat 2 5)" "is_member 2 u (bits_of_nat 2 6)"
    using u(2) m Slice_uval [of "bits_of_nat 4 11" 1 2] Slice_uval [of "bits_of_nat 4 13" 1 2] unfolding covers1_def by fastforce+
  then have "{1, 2} \<subseteq> is_points u" by (simp add: is_member_def)
  then show ?thesis using u(1) by blast
qed

text \<open>
  C18: The comparisons return a set of one-bit values that has the truth value on any members of the operands:
  equality and its negation, and the orders, decided by the convex hulls, unsigned and signed; the signed ones
  move the operands by the sign bit unless all members have one sign. On sets of vectors of no bits, which have no sign bit, the signed ones fail.
\<close>

theorem interval_comparisons_sound:
  assumes "bignum_spec B val" "is_operand n a" "is_operand n b"
  shows "(\<exists>u. interval_ops_Eq a b = Some u \<and> covers2 n n 1 u a b (\<lambda>x y. Some (bool_bits (bits_ops_UEqual x y)))) \<and>
    (\<exists>u. interval_ops_Ne a b = Some u \<and> covers2 n n 1 u a b (\<lambda>x y. Some (bool_bits (\<not> bits_ops_UEqual x y)))) \<and>
    (\<exists>u. interval_ops_ULt a b = Some u \<and> covers2 n n 1 u a b (\<lambda>x y. Some (bool_bits (bits_ops_ULessThan x y)))) \<and>
    (\<exists>u. interval_ops_UGt a b = Some u \<and> covers2 n n 1 u a b (\<lambda>x y. Some (bool_bits (bits_ops_UGreaterThan x y)))) \<and>
    (if n = 0 then interval_ops_SLt B a b = None \<and> interval_ops_SGt B a b = None
     else (\<exists>u. interval_ops_SLt B a b = Some u \<and> covers2 n n 1 u a b (\<lambda>x y. map_option bool_bits (bits_ops_SLessThan B x y))) \<and>
       (\<exists>u. interval_ops_SGt B a b = Some u \<and> covers2 n n 1 u a b (\<lambda>x y. map_option bool_bits (bits_ops_SGreaterThan B x y))))"
proof -
  have ia: "interval_arith B val" using assms(1) by unfold_locales
  have "if n = 0 then interval_ops_SLt B a b = None \<and> interval_ops_SGt B a b = None
     else (\<exists>u. interval_ops_SLt B a b = Some u \<and> covers2 n n 1 u a b (\<lambda>x y. map_option bool_bits (bits_ops_SLessThan B x y))) \<and>
       (\<exists>u. interval_ops_SGt B a b = Some u \<and> covers2 n n 1 u a b (\<lambda>x y. map_option bool_bits (bits_ops_SGreaterThan B x y)))"
  proof (cases "n = 0")
    case True
    then show ?thesis using signed_zero_width [of a B b] assms(2) by simp
  next
    case False
    then show ?thesis using interval_arith.SLt_sound [OF ia assms(2,3)] interval_arith.SGt_sound [OF ia assms(2,3)] by auto
  qed
  then show ?thesis
    using Eq_sound [OF assms(2,3)] Ne_sound [OF assms(2,3)] ULt_sound [OF assms(2,3)] UGt_sound [OF assms(2,3)] by (intro conjI) blast+
qed

theorem interval_comparisons_sound_witness:
  "\<exists>u. interval_ops_SLt int_bignum (is_of 4 [(9, 10)]) (is_of 4 [(3, 5)]) = Some u \<and> 1 \<in> is_points u"
proof -
  let ?a = "is_of 4 [(9, 10)]" and ?b = "is_of 4 [(3, 5)]"
  have n: "is_operand 4 ?a" "is_operand 4 ?b" by (rule is_operand_of; simp)+
  have m: "is_member 4 ?a (bits_of_nat 4 9)" "is_member 4 ?b (bits_of_nat 4 3)" by (simp_all add: is_member_of_nat)
  obtain u where u: "interval_ops_SLt int_bignum ?a ?b = Some u"
    "covers2 4 4 1 u ?a ?b (\<lambda>x y. map_option bool_bits (bits_ops_SLessThan int_bignum x y))"
    using interval_comparisons_sound [OF int_bignum_spec n] by auto
  have "bits_ops_SLessThan int_bignum (bits_of_nat 4 9) (bits_of_nat 4 3) = Some True"
    using SLessThan_eq [OF int_bignum_spec, of "bits_of_nat 4 9" "bits_of_nat 4 3"] by (simp add: sval_bits_of_nat)
  then have "is_member 1 u (bool_bits True)" using u(2) m unfolding covers2_def by fastforce
  then show ?thesis using u(1) is_member_bool [of u True] by auto
qed

text \<open>
  C19: The bitwise operations, the reductions, the gate and the one-hot encoding are sound: whatever path they
  take (a single bit is looked up, wider sets go through the ternary analysis and back), the set returned has the
  result on any members of the operands.
\<close>

theorem interval_bitwise_sound:
  assumes "is_operand n a" "is_operand n b" "is_operand 1 c"
  shows "(\<exists>u. interval_ops_Not a = Some u \<and> is_operand n u \<and> covers1 n n u a bits_ops_Not) \<and>
    (\<exists>u. interval_ops_And a b = Some u \<and> is_operand n u \<and> covers2 n n n u a b bits_ops_And) \<and>
    (\<exists>u. interval_ops_Or a b = Some u \<and> is_operand n u \<and> covers2 n n n u a b bits_ops_Or) \<and>
    (\<exists>u. interval_ops_Xor a b = Some u \<and> is_operand n u \<and> covers2 n n n u a b bits_ops_Xor) \<and>
    (\<exists>u. interval_ops_AndReduce a = Some u \<and> is_operand 1 u \<and> covers1 n 1 u a bits_ops_AndReduce) \<and>
    (\<exists>u. interval_ops_OrReduce a = Some u \<and> is_operand 1 u \<and> covers1 n 1 u a bits_ops_OrReduce) \<and>
    (\<exists>u. interval_ops_XorReduce a = Some u \<and> is_operand 1 u \<and> covers1 n 1 u a bits_ops_XorReduce) \<and>
    (\<exists>u. interval_ops_Gate c a = Some u \<and> covers2 1 n n u c a (\<lambda>x y. Some (if Bits_IsZero x then Bits_new n else y))) \<and>
    (\<exists>u. interval_ops_OneHot a d k = Some u \<and> is_operand (n + 1) u \<and>
      covers1 n (n + 1) u a (\<lambda>x. Some (case d of kLsb \<Rightarrow> bits_ops_OneHotLsbToMsb x | kMsb \<Rightarrow> bits_ops_OneHotMsbToLsb x)))"
  by (intro conjI Not_sound [OF assms(1)] And_sound [OF assms(1,2)] Or_sound [OF assms(1,2)] Xor_sound [OF assms(1,2)]
      AndReduce_sound [OF assms(1)] OrReduce_sound [OF assms(1)] XorReduce_sound [OF assms(1)] Gate_sound [OF assms(3,1)]
      OneHot_sound [OF assms(1)])

theorem interval_bitwise_sound_witness:
  "\<exists>u. interval_ops_And (is_of 4 [(9, 10)]) (is_of 4 [(3, 5)]) = Some u \<and> 2 \<in> is_points u"
proof -
  let ?a = "is_of 4 [(9, 10)]" and ?b = "is_of 4 [(3, 5)]"
  have n: "is_operand 4 ?a" "is_operand 4 ?b" "is_operand 1 (is_of 1 [(0, 1)])" by (rule is_operand_of; simp)+
  have m: "is_member 4 ?a (bits_of_nat 4 10)" "is_member 4 ?b (bits_of_nat 4 3)" by (simp_all add: is_member_of_nat)
  obtain u where u: "interval_ops_And ?a ?b = Some u" "covers2 4 4 4 u ?a ?b bits_ops_And"
    using interval_bitwise_sound [OF n] by blast
  obtain z where z: "bits_ops_And (bits_of_nat 4 10) (bits_of_nat 4 3) = Some z" "is_member 4 u z" using u(2) m unfolding covers2_def by blast
  have "bm_bits (bits_of_nat 4 10) = [False, True, False, True]" "bm_bits (bits_of_nat 4 3) = [True, True, False, False]" by code_simp+
  then have "z = Bits_of_span [False, True, False, False]"
    using z(1) and_op.pointwise [of "bits_of_nat 4 10" "bits_of_nat 4 3"] by simp
  then have "uval z = 2" by simp
  then show ?thesis using u(1) z(2) by (auto simp: is_member_def)
qed

text \<open>
  C20: \<open>MinimizeIntervals\<close> returns for every valid set and positive size, with no failed check and in finitely
  many merges, a normalized set with at most that many intervals; it has every point of the argument, and each point
  it adds lies between two points of the argument.
\<close>

theorem minimize_intervals_bounded:
  assumes "bignum_spec B val" "is_wf n s" "0 < sz"
  shows "\<exists>u. MinimizeIntervals B s sz = Some u \<and> is_normal n u \<and> IntervalSet_NumberOfIntervals u \<le> sz \<and>
    is_points s \<subseteq> is_points u \<and> (\<forall>v \<in> is_points u. \<exists>l \<in> is_points s. \<exists>h \<in> is_points s. l \<le> v \<and> v \<le> h)"
proof -
  obtain ps where ps: "MinimizeIntervals B s sz = Some (is_of n ps)" "bounds_ok n ps" "gapped ps" "widens (is_points s) (cov ps)" "length ps \<le> sz"
    using MinimizeIntervals_ok [OF assms] .
  then show ?thesis using is_normal_of [OF ps(2,3)] by (simp add: IntervalSet_NumberOfIntervals_def widens_def)
qed

theorem minimize_intervals_bounded_witness:
  "\<exists>u. MinimizeIntervals int_bignum (is_of 5 [(0, 1), (4, 4), (9, 12), (20, 22)]) 2 = Some u \<and> IntervalSet_NumberOfIntervals u \<le> 2 \<and> 11 \<in> is_points u"
proof -
  let ?s = "is_of 5 [(0, 1), (4, 4), (9, 12), (20, 22)]"
  have s: "is_wf 5 ?s" by (rule is_wf_of) simp_all
  obtain u where u: "MinimizeIntervals int_bignum ?s 2 = Some u" "IntervalSet_NumberOfIntervals u \<le> 2" "is_points ?s \<subseteq> is_points u"
    using minimize_intervals_bounded [OF int_bignum_spec s, of 2] by auto
  have "11 \<in> is_points ?s" by simp
  then show ?thesis using u by blast
qed

text \<open>
  C21: The ternary analysis and the range analysis exchange what they know without losing a value: the vector
  extracted from a set allows each of its members, and \<open>FromTernary\<close> returns a set of at most
  \<open>2 ^ max_interval_bits\<close> intervals that has every value the vector allows, and no other value when
  the vector has no more than \<open>max_interval_bits\<close> unknown bits above its first known one.
\<close>

theorem ternary_interval_exchange:
  assumes "is_operand n a"
  shows "\<exists>t u. ExtractTernaryVector a = Some t \<and> length t = n \<and> (\<forall>x \<in> is_points a. allows_nat t x) \<and>
    FromTernary t k = Some u \<and> is_operand n u \<and> IntervalSet_NumberOfIntervals u \<le> 2 ^ k \<and>
    {x. allows_nat t x} \<subseteq> is_points u \<and>
    (length (unknown_from t (length (takeWhile (\<lambda>x. \<not> ternary_ops_IsKnown x) t))) \<le> k \<longrightarrow> is_points u = {x. allows_nat t x})"
proof -
  obtain t where t: "ExtractTernaryVector a = Some t" "length t = n" "\<forall>x \<in> is_points a. allows_nat t x" using ExtractTernaryVector_ok [OF assms] .
  obtain u where u: "FromTernary t k = Some u" "is_operand (length t) u" "IntervalSet_NumberOfIntervals u \<le> 2 ^ k"
    "is_points u = {x. allows_nat (if ternary_ops_IsFullyKnown t then t else forget_low (lsb_unknown t k) t) x}"
    using FromTernary_points [of t k] by blast
  have "lsb_unknown t k = length (takeWhile (\<lambda>x. \<not> ternary_ops_IsKnown x) t)"
    if "length (unknown_from t (length (takeWhile (\<lambda>x. \<not> ternary_ops_IsKnown x) t))) \<le> k" using that by (simp add: lsb_unknown_def Let_def)
  then show ?thesis using t u forget_low_weaker [OF lsb_unknown_ok(4) [where tern = t and m = k]] forget_first [of t]
    by (intro exI [of _ t] exI [of _ u]) auto
qed

theorem ternary_interval_exchange_witness:
  "\<exists>t u. ExtractTernaryVector (is_of 4 [(8, 9)]) = Some t \<and> FromTernary t 2 = Some u \<and> {8, 9} \<subseteq> is_points u \<and> IntervalSet_NumberOfIntervals u \<le> 4"
proof -
  have n: "is_operand 4 (is_of 4 [(8, 9)])" by (rule is_operand_of; simp)
  have "is_points (is_of 4 [(8, 9)]) = {8, 9}" by auto
  then show ?thesis using ternary_interval_exchange [OF n, of 2] by fastforce
qed

text \<open>
  C22: \<open>CoversTernary\<close> decides, for every valid interval, proper or improper, whether the interval has a value that
  the ternary vector allows: its walk over the common prefix of the bounds and the two greedy tests below the first
  bit in which they differ agree with the search through all values; for sets of intervals the answer is exact too.
\<close>

theorem covers_ternary_exact:
  assumes "iv_wf iv" "is_normal n s"
  shows "(CoversTernary iv t = Some (length t = iv_width iv \<and> (\<exists>x \<in> iv_points iv. allows_nat t x))) \<and>
    (CoversTernary_set s t = Some (length t = n \<and> (\<exists>x \<in> is_points s. allows_nat t x)))"
proof -
  have "CoversTernary iv t = Some (length t = iv_width iv \<and> (\<exists>x \<in> iv_points iv. allows_nat t x))"
  proof (cases "length t = iv_width iv")
    case False
    then show ?thesis using assms(1) IsPrecise_iff [OF assms(1)] by (auto simp: CoversTernary_def)
  qed (simp add: CoversTernary_iff [OF assms(1)])
  then show ?thesis using CoversTernary_set_iff [OF assms(2)] by blast
qed

theorem covers_ternary_exact_witness:
  "CoversTernary (iv_of 4 14 2) [kKnownZero, kUnknown, kUnknown, kKnownZero] = Some True \<and>
   CoversTernary (iv_of 4 14 2) [kKnownOne, kUnknown, kKnownOne, kKnownZero] = Some False"
proof -
  have s: "is_normal 4 (is_of 4 [(0, 2)])" by auto
  have p: "iv_points (iv_of 4 14 2) = {0, 1, 2, 14, 15}" by (auto simp: iv_points_def)
  have "allows_nat [kKnownZero, kUnknown, kUnknown, kKnownZero] 0" by code_simp
  moreover have "\<not> allows_nat [kKnownOne, kUnknown, kKnownOne, kKnownZero] 0" "\<not> allows_nat [kKnownOne, kUnknown, kKnownOne, kKnownZero] 1"
    "\<not> allows_nat [kKnownOne, kUnknown, kKnownOne, kKnownZero] 2"
    "\<not> allows_nat [kKnownOne, kUnknown, kKnownOne, kKnownZero] 14" "\<not> allows_nat [kKnownOne, kUnknown, kKnownOne, kKnownZero] 15" by code_simp+
  ultimately show ?thesis
    using covers_ternary_exact [OF iv_wf_of [of 4 14 2] s, of "[kKnownZero, kUnknown, kUnknown, kKnownZero]"]
      covers_ternary_exact [OF iv_wf_of [of 4 14 2] s, of "[kKnownOne, kUnknown, kKnownOne, kKnownZero]"] by (simp add: p)
qed

text \<open>
  \<open>Decode\<close> is exact: it returns the set of the decoded members, a power of two for an index below the width and
  zero for the others, of which it visits only the first.
\<close>

theorem decode_exact:
  assumes "is_normal n a" "width < 2 ^ 64"
  shows "\<exists>u. interval_ops_Decode a width = Some u \<and> is_normal width u \<and> is_points u = (\<lambda>v. if v < width then 2 ^ v else 0) ` is_points a"
  using Decode_exact [OF assms] unfolding decoded_def [abs_def] .

theorem decode_exact_witness:
  "\<exists>u. interval_ops_Decode (is_of 4 [(1, 2), (7, 9)]) 8 = Some u \<and> is_points u = {0, 2, 4, 128}"
proof -
  have n: "is_normal 4 (is_of 4 [(1, 2), (7, 9)])" by auto
  have "cov [(1, 2), (7, 9)] = {1, 2, 7, 8, 9}" by auto
  then have "(\<lambda>v. if v < 8 then 2 ^ v else 0) ` is_points (is_of 4 [(1, 2), (7, 9)]) = {0, 2, 4, 128::nat}" by auto
  then show ?thesis using decode_exact [OF n, of 8] by auto
qed

section \<open>Binary decision diagrams\<close>

text \<open>
  C23: In every state of a diagram that its interface can produce the invariant holds (nodes refer to older
  nodes, variables increase along every path, no node has equal children, the two tables are exact), and
  every operation then returns, with no failed check and in finitely many recursive calls: a new variable is
  the function that reads it, and negation, conjunction and disjunction of two nodes of the diagram are those
  of their functions; the older nodes keep their functions and the invariant holds again.
\<close>

theorem bdd_operations_correct:
  assumes "bdd_reachable b" "valid b x" "valid b y"
  shows "bdd_inv b \<and>
    op_post b (\<lambda>env. env (bdd_next_var b)) (Bdd_NewVariable b) \<and>
    op_post b (\<lambda>env. \<not> bdd_val b x env) (Bdd_Not b x) \<and>
    op_post b (\<lambda>env. bdd_val b x env \<and> bdd_val b y env) (Bdd_And b x y) \<and>
    op_post b (\<lambda>env. bdd_val b x env \<or> bdd_val b y env) (Bdd_Or b x y)"
proof -
  have i: "bdd_inv b" by (rule reachable_inv [OF assms(1)])
  have "op_post b (\<lambda>env. env (bdd_next_var b)) (Bdd_NewVariable b)" using NewVariable_post [OF i] unfolding op_post_def by blast
  then show ?thesis using i Not_post [OF i assms(2)] And_post [OF i assms(2,3)] Or_post [OF i assms(2,3)] by blast
qed

theorem bdd_operations_correct_witness:
  "bdd_inv BinaryDecisionDiagram_new \<and>
   op_post BinaryDecisionDiagram_new (\<lambda>env. False) (Bdd_And BinaryDecisionDiagram_new 0 1)"
  using bdd_operations_correct [OF fresh, of 0 1] by (simp add: valid_def BinaryDecisionDiagram_new_def)

text \<open>
  C24: The diagram is canonical: two nodes are the same index exactly when they are the same function, so that
  clients test equivalence by comparing indices. In particular, along a sequence of operations on a growing
  diagram, a double negation returns the node it started from, and both sides of De Morgan's law return
  the same node.
\<close>

theorem bdd_canonical:
  assumes "bdd_reachable b" "valid b x" "valid b y"
  shows "(x = y \<longleftrightarrow> (\<forall>env. bdd_val b x env = bdd_val b y env)) \<and>
    (\<exists>r b1 b2. Bdd_Not b x = Some (r, b1) \<and> Bdd_Not b1 r = Some (x, b2)) \<and>
    (\<exists>a b1 p b2 q b3 r b4 b5. Bdd_And b x y = Some (a, b1) \<and> Bdd_Not b1 x = Some (p, b2) \<and> Bdd_Not b2 y = Some (q, b3) \<and>
      Bdd_Or b3 p q = Some (r, b4) \<and> Bdd_Not b4 a = Some (r, b5))"
proof -
  have i: "bdd_inv b" by (rule reachable_inv [OF assms(1)])
  have "x = y \<longleftrightarrow> (\<forall>env. bdd_val b x env = bdd_val b y env)" using bdd.same [OF i assms(2,3)] by blast
  then show ?thesis using bdd.neg_neg [OF i assms(2)] bdd.de_morgan [OF i assms(2,3)] by simp
qed

theorem bdd_canonical_witness:
  "\<exists>b1 r. Bdd_NewVariable BinaryDecisionDiagram_new = Some (2, b1) \<and> (\<exists>b2 b3. Bdd_Not b1 2 = Some (r, b2) \<and> Bdd_Not b2 r = Some (2, b3))"
proof -
  obtain b1 where b1: "Bdd_NewVariable BinaryDecisionDiagram_new = Some (2, b1)" "valid b1 2"
    by (simp add: Bdd_NewVariable_def Bdd_GetOrCreateNode_def BinaryDecisionDiagram_new_def Bdd_GetNode_def Let_def valid_def)
  show ?thesis using bdd_canonical [OF bdd_reachable.variable [OF fresh b1(1)] b1(2,2)] b1(1) by auto
qed

text \<open>
  C25: Evaluation with values for some of the variables (given by their base nodes) always returns: either the
  value the function has under every assignment that agrees with the values given, or the error that a value is
  missing, and then the function really depends on a variable whose value is not given.
\<close>

theorem bdd_evaluate_exact:
  assumes "bdd_reachable b" "valid b e"
  shows "(\<exists>x. Bdd_Evaluate b e vals = Some (Inr x) \<and> (\<forall>env. agrees b vals env \<longrightarrow> bdd_val b e env = x)) \<or>
    (\<exists>v. Bdd_Evaluate b e vals = Some (Inl InvalidArgument) \<and> 0 \<le> v \<and> v < Bdd_variable_count b \<and>
       given b vals v = None \<and> depends b e v)"
  using Evaluate_ok [OF reachable_inv [OF assms(1)] assms(2)] by (simp add: Bdd_variable_count_def)

theorem bdd_evaluate_exact_witness:
  "Bdd_Evaluate BinaryDecisionDiagram_new 1 (\<lambda>_. None) = Some (Inr True)"
  using bdd_evaluate_exact [OF fresh, of 1 "\<lambda>_. None"]
  by (simp add: valid_def BinaryDecisionDiagram_new_def Bdd_Evaluate_def Evaluate_loop.simps)

text \<open>
  The path count of a node is the number of its paths to the leaves, saturated at the largest \<open>int32_t\<close>.
  The printed normal form of a node that is not a leaf lists the paths to the leaf one, high branches first,
  as products of literals, up to the limit (zero for none) and followed by an ellipsis exactly when there are more;
  and the sum of these products is the function of the node.
\<close>

theorem bdd_paths_and_text:
  assumes "bdd_reachable b" "valid b e" "2 \<le> e" "0 \<le> limit"
  shows "Bdd_path_count b e = Some (min (int (length (bdd_paths b e))) (2 ^ 31 - 1)) \<and>
    Bdd_ToStringDnf b e limit =
      (let k = (if limit = 0 then 2 ^ 63 - 1 else nat limit); ts = map minterm_text (minterms b e) in
       Some (str_join '' + '' (take k ts) @ (if k < length ts then '' + ...'' else []))) \<and>
    (\<forall>env. bdd_val b e env \<longleftrightarrow> (\<exists>m \<in> set (minterms b e). holds env m))"
proof -
  have ok: "bdd_ok b" using reachable_inv [OF assms(1)] by (simp add: bdd_inv_def)
  show ?thesis using path_count_ok [OF ok assms(2)] ToStringDnf_text [OF ok assms(3,2,4)] minterms_val [OF ok assms(2)] by blast
qed

theorem bdd_paths_and_text_witness:
  "\<exists>b1. Bdd_NewVariable BinaryDecisionDiagram_new = Some (2, b1) \<and> Bdd_path_count b1 2 = Some 2 \<and> length (bdd_paths b1 2) = 2"
proof -
  let ?b = "\<lparr>bdd_next_var = 1, bdd_nodes = [BddNode_new (-1) (-1) (-1) 1, BddNode_new (-1) (-1) (-1) 1, BddNode_new 0 1 0 2],
      bdd_node_map = [(0, 1, 0) \<mapsto> 2], bdd_ite_map = Map.empty\<rparr>"
  have b: "Bdd_NewVariable BinaryDecisionDiagram_new = Some (2, ?b)" "valid ?b 2" "Bdd_path_count ?b 2 = Some 2"
    by (simp_all add: Bdd_NewVariable_def Bdd_GetOrCreateNode_def BinaryDecisionDiagram_new_def Bdd_GetNode_def Let_def valid_def
        BddNode_new_def Bdd_path_count_def)
  have "min (int (length (bdd_paths ?b 2))) (2 ^ 31 - 1) = 2"
    using bdd_paths_and_text [OF bdd_reachable.variable [OF fresh b(1)] b(2), of 0] b(3) by simp
  then have "length (bdd_paths ?b 2) = 2" by (simp add: min_def split: if_splits)
  then show ?thesis using b by blast
qed

section \<open>Types and values\<close>

text \<open>
  C26: The type discipline of values. On values that have types, the tests of the code decide what they should and
  never fail: \<open>SameTypeAs\<close>, which looks at the first elements of arrays only, compares the two types;
  \<open>ValueConformsToType\<close> tests the type; the type stored by \<open>TypeAsProto\<close> and the number of bits of
  \<open>GetFlatBitCount\<close> are those of the type; equality is equality; and an array can be made of a list of values
  exactly when it is not empty and its elements have one type.
\<close>

theorem value_types_decided:
  assumes "has_type v t" "has_type w u" "\<forall>x \<in> set vs. typed x"
  shows "Value_SameTypeAs v w = Some (t = u) \<and> ValueConformsToType v u = Some (t = u) \<and>
    Value_TypeAsProto v = Inr (Type_ToProto t) \<and> Value_GetFlatBitCount v = Some (Type_GetFlatBitCount t) \<and>
    (\<exists>ls. ValueLeafNodes v = Some ls \<and> length ls = Type_leaf_count t) \<and>
    Value_eq v w = Some (v = w) \<and>
    Value_ArrayOf vs = Some (if vs = [] then Inl Unimplemented
      else if \<exists>t. has_type (Value_Array vs) t then Inr (Value_Array vs) else Inl InternalError)"
  using SameTypeAs_typed [OF assms(1,2)] Conforms_typed [OF assms(1)] TypeAsProto_typed [OF assms(1)] GetFlatBitCount_typed [OF assms(1)]
    LeafNodes_typed [OF assms(1)] Value_eq_typed [OF assms(1,2)] ArrayOf_typed [OF assms(3)] by simp

theorem value_types_decided_witness:
  "Value_SameTypeAs (Value_Tuple [Value_Bits (bits_of_nat 8 5), Value_Token]) (Value_Bits (bits_of_nat 8 5)) = Some False"
  using value_types_decided [of "Value_Tuple [Value_Bits (bits_of_nat 8 5), Value_Token]" "TupleType [BitsType 8, TokenType]"
      "Value_Bits (bits_of_nat 8 5)" "BitsType 8" "[]"] by simp

text \<open>
  C27: Only values with types are made: loading any message whatever returns, with no failed check, an error or a
  value with a type; a builder over values with types returns an error or a value with a type, whatever
  errors its parts have; and the zero and all-ones values of a type exist exactly when every array of the type
  has elements, have that type, and are recognised by \<open>IsAllZeros\<close> and \<open>IsAllOnes\<close> when it has no tokens.
\<close>

theorem values_made_with_types:
  assumes "builder_typed b" "\<not> TypeHasToken t"
  shows "sound_load (Value_FromProto p m) \<and> sound_load (ValueBuilder_Build b) \<and>
    (if inhabited t
     then (\<exists>z. ZeroOfType t = Some z \<and> has_type z t \<and> Value_IsAllZeros z = Some True) \<and>
       (\<exists>o'. AllOnesOfType t = Some o' \<and> has_type o' t \<and> Value_IsAllOnes o' = Some True)
     else ZeroOfType t = None \<and> AllOnesOfType t = None)"
proof -
  have z: "has_type (uniform (\<lambda>n. bits_of_nat n 0) t) t" "has_type (uniform Bits_AllOnes t) t" if "inhabited t"
    using that by (auto intro!: uniform_typed)
  have "Value_IsAllZeros (uniform (\<lambda>n. bits_of_nat n 0) t) = Some True" "Value_IsAllOnes (uniform Bits_AllOnes t) = Some True"
    using uniform_all [OF assms(2)] uniform_all_ones [OF assms(2)] by (simp_all add: Bits_IsZero_iff Bits_IsAllOnes_iff)
  then show ?thesis using FromProto_sound(1) Build_sound(1) [OF assms(1)] z by (simp add: ZeroOfType_eq AllOnesOfType_eq)
qed

theorem values_made_with_types_witness:
  "\<exists>z. ZeroOfType (ArrayType 2 (TupleType [BitsType 3, BitsType 70])) = Some z \<and> Value_IsAllZeros z = Some True"
  using values_made_with_types [of "TupleHolder []" "ArrayType 2 (TupleType [BitsType 3, BitsType 70])" ValueProto_Token 0] by auto

text \<open>
  C28: Storing a value in a message and loading it gives the value back, for every value with a type whose vectors
  have at least one bit and fewer than the default limit.
\<close>

theorem value_proto_round_trip:
  assumes "has_type v t" "storable t"
  shows "\<exists>p. Value_AsProto v = Inr p \<and> Value_FromProto p default_max_bit_size = Some (Inr v)"
  by (rule proto_round_trip [OF assms])

theorem value_proto_round_trip_witness:
  "\<exists>p. Value_AsProto (Value_Array [Value_Bits (bits_of_nat 9 300)]) = Inr p \<and>
    Value_FromProto p default_max_bit_size = Some (Inr (Value_Array [Value_Bits (bits_of_nat 9 300)]))"
  using value_proto_round_trip [of "Value_Array [Value_Bits (bits_of_nat 9 300)]" "ArrayType 1 (BitsType 9)"]
  by (simp add: default_max_bit_size_def)

text \<open>
  C29: The limit on the width of a vector that \<open>FromProto\<close> is given is applied to a message that is one vector but
  not to the vectors inside a tuple: the recursive calls use the default limit.
\<close>

theorem nested_limit_ignored:
  assumes "0 < n" "n < default_max_bit_size" "m \<le> n"
  shows "Value_FromProto (ValueProto_Bits n d) m = Some (Inl InternalError) \<and>
    (\<exists>v. Value_FromProto (ValueProto_Tuple [ValueProto_Bits n d]) m = Some (Inr v))"
  using FromProto_limit [OF assms] by simp

theorem nested_limit_ignored_witness:
  "\<exists>v. Value_FromProto (ValueProto_Tuple [ValueProto_Bits 100 []]) 64 = Some (Inr v)"
  using nested_limit_ignored [of 100 64 "[]"] by (simp add: default_max_bit_size_def)

text \<open>
  C30: Packing a value into one vector of bits and unpacking it are inverse to each other, for every type without
  tokens whose arrays have elements, at any nesting: unpacking what \<open>FlattenValueToBits\<close> returns gives the value,
  and packing what \<open>UnflattenBitsToValue\<close> returns gives the vector, which has the width of the type; a vector of
  another width is an error.
\<close>

theorem value_flatten_round_trip:
  assumes "has_type v t" "\<not> TypeHasToken t" "bm_wf b"
  shows "(\<exists>c. FlattenValueToBits v = Some c \<and> bm_wf c \<and> Bits_bit_count c = Type_GetFlatBitCount t \<and>
      UnflattenBitsToValue c t = Some (Inr v)) \<and>
    (if Bits_bit_count b = Type_GetFlatBitCount t
     then \<exists>w. UnflattenBitsToValue b t = Some (Inr w) \<and> has_type w t \<and> FlattenValueToBits w = Some b
     else UnflattenBitsToValue b t = Some (Inl InvalidArgument))"
  using flatten_round_trip [OF assms(1,2)] unflatten_round_trip [OF has_type_inhabited [OF assms(1)] assms(2,3)]
  by (auto simp: UnflattenBitsToValue.simps [of b t])

theorem value_flatten_round_trip_witness:
  "\<exists>c. FlattenValueToBits (Value_Tuple [Value_Bits (bits_of_nat 3 5), Value_Array [Value_Bits (bits_of_nat 2 1), Value_Bits (bits_of_nat 2 2)]]) = Some c \<and>
    Bits_bit_count c = 7"
  using value_flatten_round_trip [of "Value_Tuple [Value_Bits (bits_of_nat 3 5), Value_Array [Value_Bits (bits_of_nat 2 1), Value_Bits (bits_of_nat 2 2)]]"
      "TupleType [BitsType 3, ArrayType 2 (BitsType 2)]" "bits_of_nat 1 0"] by auto

text \<open>
  A single precision number, given by its bit pattern, and its tuple of sign, exponent and fraction convert to
  each other without loss, for all \<open>2 ^ 32\<close> patterns and all tuples of the three widths.
\<close>

theorem f32_round_trip:
  assumes "has_type v F32_type"
  shows "(\<exists>w. F32ToTuple x = Some w \<and> has_type w F32_type \<and> TupleToF32 w = Some (Inr x)) \<and>
    (\<exists>y. TupleToF32 v = Some (Inr y) \<and> F32ToTuple y = Some v)"
proof -
  obtain w where w: "F32ToTuple x = Some w" "has_type w F32_type" using F32ToTuple_typed by blast
  then obtain y where y: "TupleToF32 w = Some (Inr y)" "F32ToTuple y = Some w" using TupleToF32_bits by blast
  then have "y = x" using F32ToTuple_inj [of y x] w(1) by simp
  then show ?thesis using w y TupleToF32_bits [OF assms] by auto
qed

theorem f32_round_trip_witness:
  "\<exists>w. F32ToTuple 0x3fc00000 = Some w \<and> TupleToF32 w = Some (Inr 0x3fc00000)"
  using f32_round_trip [of "Value_Tuple [Value_Bits (bits_of_nat 1 0), Value_Bits (bits_of_nat 8 1), Value_Bits (bits_of_nat 23 1)]" "0x3fc00000"]
  by auto

text \<open>
  The text of a type determines it, and so does the text of a function type, which is the key under which
  function types are shared; the comparison of types and of function types decides equality.
\<close>

theorem type_text_determines:
  "(Type_ToString t = Type_ToString u \<longleftrightarrow> t = u) \<and> (Type_IsEqualTo t u \<longleftrightarrow> t = u) \<and>
   (Type_ToProto t = Type_ToProto u \<longleftrightarrow> t = u) \<and>
   (FunctionType_ToString f = FunctionType_ToString g \<longleftrightarrow> f = g) \<and> (FunctionType_IsEqualTo f g \<longleftrightarrow> f = g)"
  by (simp add: ToString_inj IsEqualTo_iff(1) ToProto_inj FunctionType_ToString_inj FunctionType_IsEqualTo_iff)

section \<open>The arena of types\<close>

text \<open>
  C31: Types are shared: in every state an arena can reach, with other arenas making objects in the same memory in
  between, the invariant holds and two pointers the arena owns are equal exactly when they point to the same type, so
  that comparing pointers compares types; and the function types it shares by their text are shared exactly when they
  are equal.
\<close>

theorem types_shared:
  assumes "tm_reachable tm" "p \<in> tm_owned_types tm" "q \<in> tm_owned_types tm" "registered tm f" "registered tm g"
  shows "tm_inv tm \<and> (p = q \<longleftrightarrow> type_at (tm_heap tm) p = type_at (tm_heap tm) q) \<and>
    (f = g \<longleftrightarrow> function_at tm f = function_at tm g)"
proof -
  have i: "tm_inv tm" by (rule tm_reachable_inv [OF assms(1)])
  then show ?thesis using interned [OF i assms(2,3)] functions_shared [OF i assms(4,5)] by blast
qed

theorem types_shared_witness:
  "\<exists>tm f. GetFunctionType [] 0 (TypeManager_new [] []) = Some (f, tm) \<and> tm_inv tm"
proof -
  have r: "tm_reachable (TypeManager_new [] [])" by (rule new_arena) (simp add: heap_ok_def)
  obtain f tm where 1: "GetFunctionType [] 0 (TypeManager_new [] []) = Some (f, tm)" "registered tm f" "tm_later (TypeManager_new [] []) tm"
    using GetFunctionType_post [OF tm_reachable_inv [OF r], of "[]" 0] by (auto simp: function_post_def TypeManager_new_def)
  have "tm_reachable tm" by (rule function_type [OF r _ _ 1(1)]) (simp_all add: TypeManager_new_def)
  moreover have "0 \<in> tm_owned_types tm" using 1(3) by (auto simp: tm_later_def TypeManager_new_def)
  ultimately show ?thesis using types_shared [of tm 0 0 f f] 1(1,2) by blast
qed

text \<open>
  C32: The operations of the arena return, with no failed check, a pointer to the type asked for and leave every
  older pointer its type: the type of a value, the type a message describes (an error exactly when it
  describes none, whatever was made before the error was found), the type at a pointer of another arena, which the recursion
  reaches in finitely many steps, and function types over owned parameters. Storing a type in a message and reading it back
  gives a pointer to the same type, and unpacking bits with a type in a message is unpacking them with the type.
\<close>

theorem type_arena_refines:
  assumes "tm_reachable tm" "has_type v t" "p < length (tm_heap tm)" "set ps \<subseteq> tm_owned_types tm"
  shows "tm_post tm t (GetTypeForValue v tm) \<and>
    tm_status tm (proto_type e) (GetTypeFromProto e tm) \<and> proto_type (Type_ToProto u) = Some u \<and>
    tm_post tm (type_at (tm_heap tm) p) (MapTypeFromOtherArena p tm) \<and>
    function_post tm \<lparr>ft_parameters = map (type_at (tm_heap tm)) ps, ft_return_type = type_at (tm_heap tm) p\<rparr> (GetFunctionType ps p tm) \<and>
    UnflattenBitsToValue_proto b (Type_ToProto u) = UnflattenBitsToValue b u"
proof -
  have i: "tm_inv tm" by (rule tm_reachable_inv [OF assms(1)])
  show ?thesis using GetTypeForValue_post [OF assms(2) i] GetTypeFromProto_post(1) [OF i, of e] proto_type_ToProto [of u] MapType_other [OF i assms(3)]
      GetFunctionType_post [OF i assms(4,3)] Unflatten_proto_eq [of b u] by simp
qed

theorem type_arena_refines_witness:
  "tm_post (TypeManager_new [] []) (TupleType [BitsType 8]) (GetTypeForValue (Value_Tuple [Value_Bits (bits_of_nat 8 5)]) (TypeManager_new [] []))"
  using type_arena_refines [of "TypeManager_new [] []" "Value_Tuple [Value_Bits (bits_of_nat 8 5)]" "TupleType [BitsType 8]" 0 "[]"]
    new_arena [of "[]" "[]"] by (simp add: heap_ok_def TypeManager_new_def)

section \<open>Channel queues\<close>

text \<open>
  C33: Channels along every sequence of writes, reads and attachments of generators that threads may interleave, when the values written have
  types. No operation kills the process. The values read from a streaming channel followed by those still in its queue are, in this
  order, the written values of the channel's type up to the first generator attached, which all have that type (every element of an array
  included), and then whatever that generator gives, one call to a read; the values of the generator are not checked. A read returns nothing only
  when the queue is empty and the generator, if any, gives nothing. A single-value channel takes no generator, and its reader sees the last
  value of the channel's type written before and leaves it there.
\<close>

theorem channel_histories:
  assumes "typed_writes ops"
  shows "(\<exists>q rs. run_ops (channel_step gen) (ChannelQueue_new i c kStreaming t) ops = Some (q, accepted t ops @ from_generator gen ops, rs) \<and>
      accepted t ops @ from_generator gen ops = rs @ cq_queue q) \<and>
    (\<forall>v \<in> set (accepted t ops). has_type v t) \<and>
    (fst (ChannelQueue_Read gen s) = None \<longleftrightarrow> cq_queue s = [] \<and> (\<forall>g. cq_generator s = Some g \<longrightarrow> fst (gen g) = None)) \<and>
    (\<exists>q ins. run_ops (channel_step gen) (ChannelQueue_new i c kSingleValue t) ops = Some (q, ins, last_writes None t ops))"
proof (intro conjI)
  show "\<exists>q rs. run_ops (channel_step gen) (ChannelQueue_new i c kStreaming t) ops = Some (q, accepted t ops @ from_generator gen ops, rs) \<and>
      accepted t ops @ from_generator gen ops = rs @ cq_queue q" by (rule streaming_history [OF assms])
  show "\<forall>v \<in> set (accepted t ops). has_type v t" using accepted_typed [OF assms] by blast
  show "fst (ChannelQueue_Read gen s) = None \<longleftrightarrow> cq_queue s = [] \<and> (\<forall>g. cq_generator s = Some g \<longrightarrow> fst (gen g) = None)" by (rule Read_none)
  show "\<exists>q ins. run_ops (channel_step gen) (ChannelQueue_new i c kSingleValue t) ops = Some (q, ins, last_writes None t ops)"
    by (rule single_history [OF assms])
qed

theorem channel_histories_witness:
  "\<exists>q rs. run_ops (channel_step FixedValueGenerator) (ChannelQueue_new 0 0 kStreaming TokenType)
      [Write_op Value_Token, Attach_op [Value_Tuple []], Write_op Value_Token, Read_op] = Some (q, [Value_Token, Value_Tuple []], rs) \<and>
    [Value_Token, Value_Tuple []] = rs @ cq_queue q"
proof -
  let ?ops = "[Write_op Value_Token, Attach_op [Value_Tuple []], Write_op Value_Token, Read_op]"
  have t: "typed_writes ?ops" by (auto intro: has_type.token)
  have "accepted TokenType ?ops @ from_generator FixedValueGenerator ?ops = [Value_Token, Value_Tuple []]" by simp
  then show ?thesis using channel_histories [OF t, of FixedValueGenerator 0 0 TokenType] by metis
qed

text \<open>
  C34: Errors and generators of channels. Writing a value is refused, and changes nothing, exactly when a generator is
  attached (an internal error) or the value's type is not the channel's (an invalid argument); a second generator, or one for a
  single-value channel, is refused; and the reads of a streaming channel with a generator of fixed values return what was in the queue,
  then those values, then nothing for ever.
\<close>

theorem channel_errors_and_generators:
  assumes "has_type v u" "cq_kind s = kStreaming" "cq_generator s = Some vs"
  shows "ChannelQueue_Write v q = Some
      (if cq_generator q \<noteq> None then (Some InternalError, q)
       else if u \<noteq> cq_type q then (Some InvalidArgument, q) else (None, WriteInternal v q)) \<and>
    AttachGenerator g q = (if cq_generator q \<noteq> None \<or> cq_kind q = kSingleValue then (Some InternalError, q) else (None, q\<lparr>cq_generator := Some g\<rparr>)) \<and>
    reads FixedValueGenerator n s = map (\<lambda>i. if i < length (cq_queue s @ vs) then Some ((cq_queue s @ vs) ! i) else None) [0..<n]"
  using Write_typed [OF assms(1), of q] generator_reads [OF assms(2,3), of n] by (simp add: AttachGenerator_def)

theorem channel_errors_and_generators_witness:
  "reads FixedValueGenerator 2 (snd (AttachGenerator [Value_Token] (ChannelQueue_new 0 0 kStreaming TokenType))) = [Some Value_Token, None]"
proof -
  let ?s = "snd (AttachGenerator [Value_Token] (ChannelQueue_new 0 0 kStreaming TokenType))"
  have s: "cq_kind ?s = kStreaming" "cq_generator ?s = Some [Value_Token]" "cq_queue ?s = []"
    by (simp_all add: AttachGenerator_def ChannelQueue_new_def)
  have "reads FixedValueGenerator 2 ?s = map (\<lambda>i. if i < length (cq_queue ?s @ [Value_Token]) then Some ((cq_queue ?s @ [Value_Token]) ! i) else None) [0..<2]"
    using channel_errors_and_generators [OF has_type.token s(1,2), of ?s "[]" 2] by blast
  then show ?thesis unfolding s(3) by (simp add: upt_rec)
qed

text \<open>
  A collection of queues is made exactly when there is one queue for each channel instance and no other; every queue is then found by
  its instance, and the vector holds each of them once, in the order of the channels' numbers. The sorting is any that sorts.
\<close>

theorem queue_collection_exact:
  assumes "mset (sort_by_id qs) = mset qs" "sorted (map cq_channel_id (sort_by_id qs))"
  shows "if distinct (map cq_channel_instance qs) \<and> set (map cq_channel_instance qs) = set instances
    then \<exists>m. ChannelQueueManager_Create sort_by_id qs instances = Inr m \<and> (\<forall>q \<in> set qs. GetQueue m (cq_channel_instance q) = Some q) \<and>
      mset (cm_queue_vec m) = mset (map cq_channel_instance qs) \<and> sorted (map (\<lambda>i. cq_channel_id (the (GetQueue m i))) (cm_queue_vec m))
    else ChannelQueueManager_Create sort_by_id qs instances = Inl InvalidArgument"
proof (cases "distinct (map cq_channel_instance qs) \<and> set (map cq_channel_instance qs) = set instances")
  case True
  then obtain m where m: "ChannelQueueManager_Create sort_by_id qs instances = Inr m" using Create_iff by blast
  then show ?thesis unfolding if_P [OF True] using Create_queues [OF m assms] by blast
next
  case False
  then show ?thesis unfolding if_not_P [OF False] using Create_iff [of sort_by_id qs instances]
    by (auto simp: ChannelQueueManager_Create_def split: option.splits)
qed

theorem queue_collection_exact_witness:
  "ChannelQueueManager_Create (sort_key cq_channel_id) [ChannelQueue_new 3 7 kStreaming TokenType] [4] = Inl InvalidArgument"
  using queue_collection_exact [of "sort_key cq_channel_id" "[ChannelQueue_new 3 7 kStreaming TokenType]" "[4]"] by (simp add: ChannelQueue_new_def)

section \<open>Numbers in text\<close>

text \<open>
  C35: The parser of numbers is exact. On a literal whose digits hold no sign and no second prefix it agrees with a reading of the
  text digit by digit: sign and magnitude, the narrowest vector (two's complement for a negative number), and the machine integers, which are
  refused exactly when the number does not fit; every text that is no number is an invalid argument. The code differs from \<open>number_parser.h\<close> in two points, and
  this is what the code does: zero is the vector of no bits, as its tests expect (the header's example has one bit), and decimal numbers may have any length
  (the header limits them to 64 bits). As a truth value the numbers 0 and 1 should be read, but a zero reads a bit of the vector of no bits, which fails. Digits that hold
  no sign and no prefix are read at the width asked for in binary and hexadecimal, while in decimal the width is ignored.
\<close>

theorem number_parser_exact:
  assumes "bignum_spec B val" "plain_literal s" "format \<in> {kBinary, kHex}" "prefix_free (format_base format) t"
  shows "GetSignAndMagnitude B s = Some (case literal_val s of None \<Rightarrow> Inl InvalidArgument | Some (neg, v) \<Rightarrow> Inr (neg, narrowest v)) \<and>
    ParseNumber B s = Some (case literal_val s of None \<Rightarrow> Inl InvalidArgument | Some l \<Rightarrow> Inr (number_bits (signed_val l))) \<and>
    ParseNumberAsInt64 B s = Some (case literal_val s of None \<Rightarrow> Inl InvalidArgument
      | Some l \<Rightarrow> if - (2 ^ 63) \<le> signed_val l \<and> signed_val l < 2 ^ 63 then Inr (word_of_int (signed_val l)) else Inl InvalidArgument) \<and>
    ParseNumberAsUint64 B s = Some (case literal_val s of None \<Rightarrow> Inl InvalidArgument
      | Some l \<Rightarrow> if 0 \<le> signed_val l \<and> signed_val l < 2 ^ 64 then Inr (word_of_int (signed_val l)) else Inl InvalidArgument) \<and>
    ParseNumberAsBool B s = (if s = ''true'' then Some (Inr True) else if s = ''false'' then Some (Inr False) else case literal_val s of
        Some (False, v) \<Rightarrow> if v = 0 then None else Some (if v = 1 then Inr True else Inl InvalidArgument)
      | _ \<Rightarrow> Some (Inl InvalidArgument)) \<and>
    ParseUnsignedNumberWithoutPrefix B t format bit_count = Some (case number_val (format_base format) t of None \<Rightarrow> Inl InvalidArgument
      | Some v \<Rightarrow> Inr (case bit_count of None \<Rightarrow> narrowest v | Some n \<Rightarrow> bits_of_nat n v)) \<and>
    ParseUnsignedNumberWithoutPrefix B d kUnsignedDecimal bit_count = Some (case number_val 10 d of None \<Rightarrow> Inl InvalidArgument | Some v \<Rightarrow> Inr (narrowest v))"
proof (intro conjI)
  show "ParseNumberAsBool B s = (if s = ''true'' then Some (Inr True) else if s = ''false'' then Some (Inr False) else case literal_val s of
        Some (False, v) \<Rightarrow> if v = 0 then None else Some (if v = 1 then Inr True else Inl InvalidArgument)
      | _ \<Rightarrow> Some (Inl InvalidArgument))"
    using AsBool_eq [OF assms(1,2)] by (cases "s = ''true'' \<or> s = ''false''") (auto simp: ParseNumberAsBool_def)
qed (fact GetSignAndMagnitude_eq [OF assms(1,2)] ParseNumber_eq [OF assms(1,2)] AsInt64_eq [OF assms(1,2)] AsUint64_eq [OF assms(1,2)]
    Helper_chunks [OF assms(3,4), of B bit_count, folded ParseUnsignedNumberWithoutPrefix_def]
    Helper_decimal [OF assms(1), of d bit_count, folded ParseUnsignedNumberWithoutPrefix_def])+

theorem number_parser_exact_witness:
  "ParseNumberAsInt64 int_bignum ''-0x1_0'' = Some (Inr (- 16))"
proof -
  have d: "number_val 16 ''1_0'' = Some 16" by (simp add: number_val_def digit_val_def)
  have l: "literal_val ''-0x1_0'' = Some (True, 16)" unfolding literal_val_def Let_def by (simp add: d)
  have p: "plain_literal ''-0x1_0''" by (simp add: plain_literal_def)
  show ?thesis using number_parser_exact [OF int_bignum_spec p, of kHex "[]"] by (simp add: l signed_val_def prefix_free_def)
qed

text \<open>
  C36: What is printed is read back. Every format but the plain ones prints a vector as a text that the parser accepts, and the result is the
  narrowest vector of the same value, unsigned or two's complement as the format reads it. This holds of vectors wider than 64 bits printed in
  decimal too, which \<open>number_parser.h\<close> says are not accepted, and a zero comes back as the vector of no bits, where the header's example gives it one bit.
\<close>

theorem number_round_trip:
  assumes "bignum_spec B val" "bm_wf b" "preference \<notin> {kPlainBinary, kPlainHex}"
  shows "\<exists>s r. BitsToString B b preference False = Some s \<and> ParseNumber B s = Some (Inr r) \<and> r = number_bits (format_val preference b) \<and>
    (if format_val preference b < 0 then sval r = format_val preference b else int (uval r) = format_val preference b)"
proof -
  obtain s l where s: "BitsToString B b preference False = Some s" "plain_literal s" "literal_val s = Some l" "signed_val l = format_val preference b"
    using printed_literal [OF assms] by blast
  then have "ParseNumber B s = Some (Inr (number_bits (format_val preference b)))" using ParseNumber_eq [OF assms(1) s(2)] by simp
  then show ?thesis using s(1) number_bits_value [of "format_val preference b"] by (cases "format_val preference b < 0") auto
qed

theorem number_round_trip_witness:
  "\<exists>s r. BitsToString int_bignum (bits_of_nat 9 300) kHex False = Some s \<and> ParseNumber int_bignum s = Some (Inr r) \<and> uval r = 300"
  using number_round_trip [OF int_bignum_spec, of "bits_of_nat 9 300" kHex] by (force simp: format_val_def)

text \<open>
  C37: Texts the parser mishandles, for any digits of a nonzero number. A minus sign between the prefix of a hexadecimal or binary number and its digits
  kills the process when sign and digits take less than 64 bits, since the negated value does not fit them; when they take just 64 bits the result is
  \<open>2 ^ 64\<close> less the number. A second prefix is skipped when the number with it takes at most 64 bits.
\<close>

theorem number_sign_crash:
  assumes "(base, k) \<in> {(2, 1), (16, 4)}" "all_digits base digits" "0 < digits_nat base digits"
  shows "(k * (length digits + 1) < 64 \<longrightarrow> ParseNumber B (base_prefix base @ ''-'' @ digits) = None) \<and>
    (k * (length digits + 1) = 64 \<longrightarrow>
      ParseNumber B (base_prefix base @ ''-'' @ digits) = Some (Inr (narrowest (2 ^ 64 - digits_nat base digits)))) \<and>
    (k * (length digits + 2) \<le> 64 \<longrightarrow>
      ParseNumber B (base_prefix base @ base_prefix base @ digits) = Some (Inr (narrowest (digits_nat base digits))))"
proof -
  have w: "digit_width base k" using assms(1) by (simp add: digit_width_def)
  have "k * (length digits + 1) < 64 \<longleftrightarrow> Suc (length digits) < 64 div k" "k * (length digits + 1) = 64 \<longleftrightarrow> Suc (length digits) = 64 div k"
    "k * (length digits + 2) \<le> 64 \<longleftrightarrow> length digits + 2 \<le> 64 div k" using assms(1) by auto
  then show ?thesis using sign_after_prefix [OF w assms(2) _ assms(3), of B] second_prefix [OF w assms(2) _ assms(3), of B] by auto
qed

theorem number_sign_crash_witness:
  "ParseNumber int_bignum ''0x-5f'' = None \<and> ParseNumber int_bignum ''0x0x5f'' = Some (Inr (narrowest 95))"
proof -
  have d: "all_digits 16 ''5f''" "digits_nat 16 ''5f'' = 95" by (simp_all add: digit_val_def)
  show ?thesis using number_sign_crash [OF _ d(1), of 4 int_bignum] unfolding d(2) by (simp add: base_prefix_def)
qed

section \<open>Format strings\<close>

text \<open>
  C38: Format strings are parsed exactly. Parsing returns a list of steps if and only if the list is proper (fragments hold braces in pairs, are not
  empty and not adjacent) and prints as the given text, so that it succeeds on just the texts of proper lists and every other text is an invalid
  argument; each format is found by its name; the operands counted are those listed; and in Verilog doubled braces become the braces they stand for.
\<close>

theorem format_strings_exact:
  "(ParseFormatString s = Inr steps \<longleftrightarrow> steps_ok steps \<and> StepsToXlsFormatString steps = s) \<and>
   (ParseFormatString s = Inl InvalidArgument \<longleftrightarrow> (\<nexists>steps. steps_ok steps \<and> StepsToXlsFormatString steps = s)) \<and>
   FormatPreferenceFromString (FormatPreferenceToString p) = Inr p \<and>
   OperandsExpectedByFormat steps = length (OperandPreferencesFromFormat steps) \<and>
   StepsToVerilogFormatString [Fragment (double_braces x), Operand p, Fragment (double_braces y)] = x @ FormatPreferenceToVerilogSpecifier p @ y"
proof -
  have "ParseFormatString s = Inl InvalidArgument \<longleftrightarrow> (\<nexists>steps. ParseFormatString s = Inr steps)"
    using ParseFormat_error [of s "[]" "[]"] by (cases "ParseFormatString s") (auto simp: ParseFormatString_def)
  then show ?thesis using ParseFormatString_iff FormatPreference_round_trip operands_counted Verilog_text by simp
qed

section \<open>Unique names\<close>

text \<open>
  C39: The names returned by any sequence of calls are all different and are identifiers, and no call fails, for a separator of allowed characters that are not digits and
  reserved names that are identifiers. Prefixes that look like names already returned are included: a number at the end of a prefix is read as such.
\<close>

theorem names_unique:
  assumes "separator_ok sep" "\<forall>r \<in> set reserved_names. IsValidIdentifier r" "length prefixes < 2 ^ 63"
  shows "\<exists>names u. unique_names prefixes (NameUniquer_new sep reserved_names) = Some (names, u) \<and> length names = length prefixes \<and>
    distinct names \<and> list_all IsValidIdentifier names"
  using unique_names_run [OF nu_ok_new(1) [OF assms(1,2)], of prefixes] assms(3) by auto

theorem names_unique_witness:
  "\<exists>names u. unique_names [''foo'', ''foo__1'', ''foo''] (NameUniquer_new ''__'' [''reg'']) = Some (names, u) \<and> distinct names"
  using names_unique [of "''__''" "[''reg'']" "[''foo'', ''foo__1'', ''foo'']"]
  by (auto simp: separator_ok_def IsAllowed_def ascii_isdigit_def IsValidIdentifier_def ascii_isalpha_def)

text \<open>
  Reserved names are not always avoided: they are compared before the characters that are not allowed are replaced, so that a prefix that only
  becomes a reserved name by the replacement is returned as it is; and the replacement stops at the length of the prefix, so that the end of a
  prefix that got an underscore in front is not cleaned.
\<close>

theorem reserved_name_returned:
  "map_option fst (GetSanitizedUniqueName ''a.b'' (NameUniquer_new ''__'' [''a_b''])) = Some ''a_b'' \<and>
   SanitizeName ''ab.'' [''ab.''] = ''_ab.'' \<and> \<not> IsValidIdentifier ''_ab.''"
  by code_simp

section \<open>Values in memory\<close>

text \<open>
  C40: A value written into a buffer by the runtime or by the layout of its type is read back by both readers, whatever the data layout of the
  target is, as long as it is little endian and places the parts of a type apart; and no byte after the value is changed.
\<close>

theorem jit_layout_round_trip:
  assumes "layout_spec DL" "has_type v t" "narrow_type t" "CreateTypeLayout DL t = Some L" "GetTypeByteSize DL t \<le> length buf"
  shows "\<exists>b c. BlitValueToBuffer DL v t buf = Some b \<and> ValueToNativeLayout L v buf = Some c \<and>
    (\<forall>d \<in> {b, c}. length d = length buf \<and> UnpackBuffer DL d t = Some v \<and> NativeLayoutToValue L d = Some v \<and>
      drop (GetTypeByteSize DL t) d = drop (GetTypeByteSize DL t) buf)"
proof -
  obtain b c where b: "BlitValueToBuffer DL v t buf = Some b" "length b = length buf" "holds_at DL b 0 v t"
      "\<And>k. GetTypeByteSize DL t \<le> k \<Longrightarrow> b ! k = buf ! k"
    and c: "ValueToNativeLayout L v buf = Some c" "length c = length buf" "holds_at DL c 0 v t"
      "\<And>k. GetTypeByteSize DL t \<le> k \<Longrightarrow> c ! k = buf ! k"
    using writes_hold [OF assms] by blast
  have "drop (GetTypeByteSize DL t) d = drop (GetTypeByteSize DL t) buf" if "length d = length buf" "\<And>k. GetTypeByteSize DL t \<le> k \<Longrightarrow> d ! k = buf ! k" for d
    using that by (intro nth_equalityI) auto
  then show ?thesis using b c holds_read [OF _ assms(2,4)] by blast
qed

theorem jit_layout_round_trip_witness:
  "\<exists>b. BlitValueToBuffer packed_layout (Value_Tuple [Value_Bits (bits_of_nat 3 5), Value_Token]) (TupleType [BitsType 3, TokenType]) [0, 0, 7] = Some b \<and>
     UnpackBuffer packed_layout b (TupleType [BitsType 3, TokenType]) = Some (Value_Tuple [Value_Bits (bits_of_nat 3 5), Value_Token])"
proof -
  have "GetTypeByteSize packed_layout (TupleType [BitsType 3, TokenType]) \<le> length [0, 0, 7 :: u8]"
    by (simp add: GetTypeByteSize_def packed_layout_def GetLlvmBitCount_def LlvmTypeConverter_GetTokenType_def CeilOfRatio_nat_eq)
  then show ?thesis
    using jit_layout_round_trip [OF packed_layout_spec _ _ CreateTypeLayout_eq, of "Value_Tuple [Value_Bits (bits_of_nat 3 5), Value_Token]"
        "TupleType [BitsType 3, TokenType]" "[0, 0, 7]"] by auto
qed

end
